(* ===== verification/Prelude.thy ===== *)
theory Prelude
  imports Complex_Main "HOL-Library.Word" "HOL-Library.Sublist" "HOL-Library.Monad_Syntax"
begin

text \<open>
  Shared vocabulary of the development: bytes and machine integers, byte strings, C's
  truncating division, the proof collections, and the list and arithmetic lemmas that more than
  one component uses.

  A C++ \<open>std::string\<close> is a list of bytes (\<open>8 word\<close>); the function \<open>bytes\<close> turns an
  Isabelle string literal into one.  C++ \<open>int\<close> values whose wrap-around matters are kept at
  their width; the others are \<open>int\<close>.
\<close>

unbundle bit_operations_syntax

type_synonym u8 = "8 word"
type_synonym u32 = "32 word"
type_synonym bytestring = "u8 list"

definition bytes :: "string \<Rightarrow> bytestring" where
  "bytes s = map (\<lambda>c. word_of_int (of_char c)) s"

lemma length_bytes [simp]: "length (bytes s) = length s"
  by (simp add: bytes_def)

lemma bytes_append: "bytes (s @ t) = bytes s @ bytes t"
  by (simp add: bytes_def)

section \<open>Proof collections\<close>

named_theorems inv_intros \<open>operations preserve their component's invariant\<close>
named_theorems op_simps \<open>what one operation does to the abstract view of its state\<close>

section \<open>C integer arithmetic\<close>

text \<open>Signed division of C++ rounds towards zero.\<close>

definition cdiv :: "int \<Rightarrow> int \<Rightarrow> int" where
  "cdiv a b = (if (a < 0) = (b < 0) then \<bar>a\<bar> div \<bar>b\<bar> else - (\<bar>a\<bar> div \<bar>b\<bar>))"

lemma cdiv_nonneg [simp]: "0 \<le> a \<Longrightarrow> 0 < b \<Longrightarrow> cdiv a b = a div b"
  by (simp add: cdiv_def)

lemma cdiv_neg: "a < 0 \<Longrightarrow> 0 < b \<Longrightarrow> cdiv a b = - ((- a) div b)"
  by (simp add: cdiv_def)

lemma cdiv_nonneg_ge: "0 \<le> a \<Longrightarrow> 0 < b \<Longrightarrow> 0 \<le> cdiv a b"
  by (simp add: pos_imp_zdiv_nonneg_iff)

lemma cdiv_le_self: "0 \<le> a \<Longrightarrow> 0 < b \<Longrightarrow> cdiv a b \<le> a"
  using zdiv_mono2 [of a 1 b] by simp

lemma cdiv_mono: "0 \<le> a \<Longrightarrow> a \<le> b \<Longrightarrow> 0 < c \<Longrightarrow> cdiv a c \<le> cdiv b c"
  by (simp add: zdiv_mono1)

text \<open>
  A signed \<open>int\<close> result outside its width is undefined behaviour in C++: such an operation is
  \<open>None\<close>.
\<close>

definition in_i32 :: "int \<Rightarrow> bool" where
  "in_i32 x \<longleftrightarrow> - (2 ^ 31) \<le> x \<and> x < 2 ^ 31"

definition i32 :: "int \<Rightarrow> int option" where
  "i32 x = (if in_i32 x then Some x else None)"

lemma i32_Some_iff: "i32 x = Some y \<longleftrightarrow> y = x \<and> in_i32 x"
  by (auto simp: i32_def)

lemma i32_ok: "in_i32 x \<Longrightarrow> i32 x = Some x"
  by (simp add: i32_def)

section \<open>Lists\<close>

lemma take_Suc_snoc: "n < length xs \<Longrightarrow> take (Suc n) xs = take n xs @ [xs ! n]"
  by (simp add: take_Suc_conv_app_nth)

lemma take_drop_nths:
  "i + n \<le> length xs \<Longrightarrow> take n (drop i xs) = map (\<lambda>k. xs ! (i + k)) [0..<n]"
  by (intro nth_equalityI) auto

lemma nth_take_append_drop: "n \<le> length xs \<Longrightarrow> take n xs @ drop n xs = xs"
  by simp

lemma prefix_take [simp]: "prefix (take n xs) xs"
  by (simp add: take_is_prefix)

lemma subseq_drop_left: "subseq xs ys \<Longrightarrow> subseq xs (y # ys)"
  by (rule list_emb_Cons)

lemma those_map_Some: "(\<And>x. x \<in> set xs \<Longrightarrow> f x = Some (g x)) \<Longrightarrow> those (map f xs) = Some (map g xs)"
  by (induction xs) simp_all

end
