(* ===== verification/Device_Tuning.thy ===== *)
theory Device_Tuning
  imports Prelude
begin

text \<open>
  Device detection and tuning in \<open>ai_chat_jni.cpp\<close>: the probes of \<open>/sys\<close> and \<open>/proc\<close>, the
  thread and context-size policy of \<open>loadModel\<close>, and \<open>calculateSafeContextSize\<close>.

  The file system is an argument: a file is \<open>None\<close> when it cannot be opened, and otherwise the
  number that the stream extraction leaves in the variable.  Temperatures and the memory-pressure
  factor, C++ \<open>float\<close>s that are only compared and divided by 1000, are reals.
\<close>

record device_env =
  cpu_capacity_file :: "nat \<Rightarrow> int option"   \<comment> \<open>cpuN/cpu_capacity\<close>
  cpu_online_file :: "nat \<Rightarrow> int option"     \<comment> \<open>cpuN/online\<close>
  thermal_zone_file :: "nat \<Rightarrow> real option"   \<comment> \<open>thermal_zoneN/temp\<close>
  meminfo_file :: "string list option"       \<comment> \<open>the lines of /proc/meminfo\<close>
  rusage_maxrss :: "int option"              \<comment> \<open>\<open>ru_maxrss\<close>, \<open>None\<close> when getrusage fails\<close>

section \<open>Probes\<close>

definition isBigCore :: "device_env \<Rightarrow> nat \<Rightarrow> bool" where
  "isBigCore env cpu_id =
    (case cpu_capacity_file env cpu_id of
       Some capacity \<Rightarrow> capacity > 500
     | None \<Rightarrow> cpu_id \<ge> 4)"

definition is_online :: "device_env \<Rightarrow> nat \<Rightarrow> bool" where
  "is_online env i =
    (case cpu_online_file env i of Some online \<Rightarrow> online = 1 | None \<Rightarrow> True)"

definition countBigCores :: "device_env \<Rightarrow> int" where
  "countBigCores env =
    (let big_cores =
       foldl (\<lambda>n i. if is_online env i \<and> isBigCore env i then n + 1 else n) 0 [0..<8]
     in if big_cores > 0 then big_cores else 4)"

fun first_temp :: "(nat \<Rightarrow> real option) \<Rightarrow> nat list \<Rightarrow> real" where
  "first_temp z [] = -1"
| "first_temp z (i # is) =
    (case z i of Some temp \<Rightarrow> (if temp > 1000 then temp / 1000 else temp)
     | None \<Rightarrow> first_temp z is)"

definition getCpuTemperature :: "device_env \<Rightarrow> real" where
  "getCpuTemperature env = first_temp (thermal_zone_file env) [0, 1, 2, 3]"

definition getAdaptiveThreadCount :: "device_env \<Rightarrow> int \<Rightarrow> int" where
  "getAdaptiveThreadCount env base_threads =
    (let temp = getCpuTemperature env in
     if temp > 70 then 2 else if temp > 60 then 3 else base_threads)"

definition getOptimalThreadCount :: "device_env \<Rightarrow> int" where
  "getOptimalThreadCount env = getAdaptiveThreadCount env (countBigCores env)"

definition getCurrentMemoryUsageMB :: "device_env \<Rightarrow> int" where
  "getCurrentMemoryUsageMB env =
    (case rusage_maxrss env of Some kb \<Rightarrow> cdiv kb 1024 | None \<Rightarrow> 0)"

text \<open>
  \<open>sscanf(line, "MemAvailable: %d kB", &x)\<close> on a line that starts with the label: white
  space, then an optionally signed decimal number; \<open>x\<close> keeps its value 0 when there is none.
\<close>

fun scan_digits :: "string \<Rightarrow> int \<Rightarrow> int" where
  "scan_digits [] acc = acc"
| "scan_digits (c # cs) acc =
    (let d = (of_char c :: int) - 48 in
     if 0 \<le> d \<and> d \<le> 9 then scan_digits cs (10 * acc + d) else acc)"

definition is_space :: "char \<Rightarrow> bool" where
  "is_space c \<longleftrightarrow> (of_char c :: nat) \<in> {9, 10, 11, 12, 13, 32}"

definition scan_int :: "string \<Rightarrow> int" where
  "scan_int s =
    (let t = dropWhile is_space s in
     if take 1 t = ''-'' then - scan_digits (drop 1 t) 0
     else if take 1 t = ''+'' then scan_digits (drop 1 t) 0
     else scan_digits t 0)"

definition getAvailableMemoryMB :: "device_env \<Rightarrow> int" where
  "getAvailableMemoryMB env =
    (case meminfo_file env of
       None \<Rightarrow> 0
     | Some ls \<Rightarrow>
         (case find (\<lambda>line. take 13 line = ''MemAvailable:'') ls of
            None \<Rightarrow> 0
          | Some line \<Rightarrow> cdiv (scan_int (drop 13 line)) 1024))"

section \<open>The policy of \<open>loadModel\<close>\<close>

definition base_thread_count :: "int \<Rightarrow> int" where
  "base_thread_count big_cores = max 2 (cdiv (big_cores * 2) 3)"

definition ram_limited :: "int \<Rightarrow> int \<Rightarrow> int" where
  "ram_limited big_cores available_ram_mb =
    (let base_threads = base_thread_count big_cores in
     if available_ram_mb < 1500 then max 2 (base_threads - 1)
     else if available_ram_mb < 2500 then base_threads
     else min big_cores (base_threads + 1))"

definition battery_adjusted :: "bool \<Rightarrow> int \<Rightarrow> int" where
  "battery_adjusted isCharging ram_limited_threads =
    (if \<not> isCharging then max 2 (min 4 (cdiv ram_limited_threads 2)) else ram_limited_threads)"

definition load_thread_count :: "device_env \<Rightarrow> bool \<Rightarrow> int" where
  "load_thread_count env isCharging =
    getAdaptiveThreadCount env
      (battery_adjusted isCharging (ram_limited (countBigCores env) (getAvailableMemoryMB env)))"

definition target_context :: "int \<Rightarrow> real \<Rightarrow> int" where
  "target_context nCtx memoryPressure =
    (let target_ctx = (if nCtx > 0 then nCtx else 1024) in
     if memoryPressure > 0.8 then 512
     else if memoryPressure > 0.6 then 768
     else target_ctx)"

definition load_batch :: "int \<Rightarrow> int" where
  "load_batch nBatch = (if nBatch > 0 then nBatch else 512)"

definition load_ubatch :: "int \<Rightarrow> int" where
  "load_ubatch nBatch = min (load_batch nBatch) 128"

section \<open>\<open>calculateSafeContextSize\<close>\<close>

definition calculateSafeContextSize :: "int \<Rightarrow> int \<Rightarrow> int option" where
  "calculateSafeContextSize availableRamMB modelSizeMB = do {
     let reservedMB = 500; let computeBuffersMB = 200; let kvCachePer1K = 8;
     a \<leftarrow> i32 (availableRamMB - modelSizeMB);
     b \<leftarrow> i32 (a - reservedMB);
     remainingMB \<leftarrow> i32 (b - computeBuffersMB);
     if remainingMB < 0 then Some 512
     else do {
       maxContext \<leftarrow> i32 (cdiv remainingMB kvCachePer1K * 1024);
       let safeContext = max (min maxContext 2048) 512;
       Some (cdiv safeContext 256 * 256)
     }
   }"

section \<open>Bounds\<close>

lemma foldl_count:
  "foldl (\<lambda>n i. if P i then n + 1 else n) (k::int) xs = k + int (length (filter P xs))"
  by (induction xs arbitrary: k) auto

lemma countBigCores_eq:
  "countBigCores env =
    (let n = int (length (filter (\<lambda>i. is_online env i \<and> isBigCore env i) [0..<8]))
     in if n > 0 then n else 4)"
  unfolding countBigCores_def foldl_count by (simp only: add_0)

lemma countBigCores_bounds: "1 \<le> countBigCores env \<and> countBigCores env \<le> 8"
proof -
  define n where "n = length (filter (\<lambda>i. is_online env i \<and> isBigCore env i) [0..<8])"
  have "n \<le> length [0..<8::nat]" unfolding n_def by (rule length_filter_le)
  then have "n \<le> 8" by (simp only: length_upt)
  then show ?thesis
    unfolding countBigCores_eq n_def [symmetric] Let_def by simp
qed

lemma base_thread_count_bounds:
  "1 \<le> b \<Longrightarrow> b \<le> 8 \<Longrightarrow> 2 \<le> base_thread_count b \<and> base_thread_count b \<le> 5"
  by (auto simp: base_thread_count_def)

lemma ram_limited_bounds:
  assumes "1 \<le> b" "b \<le> 8"
  shows "1 \<le> ram_limited b r \<and> ram_limited b r \<le> 6"
  using base_thread_count_bounds [OF assms] assms by (auto simp: ram_limited_def Let_def)

lemma ram_limited_ge_2: "2 \<le> b \<Longrightarrow> 2 \<le> ram_limited b r"
  by (auto simp: ram_limited_def Let_def base_thread_count_def)

lemma battery_adjusted_bounds:
  "1 \<le> t \<Longrightarrow> t \<le> 6 \<Longrightarrow> 1 \<le> battery_adjusted c t \<and> battery_adjusted c t \<le> 6"
  by (auto simp: battery_adjusted_def)

lemma battery_adjusted_on_battery: "2 \<le> battery_adjusted False t \<and> battery_adjusted False t \<le> 4"
  by (auto simp: battery_adjusted_def)

lemmas tuning_bounds =
  countBigCores_bounds base_thread_count_bounds ram_limited_bounds battery_adjusted_bounds

definition clamped_context :: "int \<Rightarrow> int" where
  "clamped_context d = max (min ((d - 700) div 8 * 1024) 2048) 512 div 256 * 256"

lemma safe_context_no_overflow:
  assumes "0 \<le> ram" "ram < 2 ^ 24" "0 \<le> model" "model < 2 ^ 24"
  shows "calculateSafeContextSize ram model =
    Some (if ram - model < 700 then 512 else clamped_context (ram - model))"
proof -
  have ok: "in_i32 (ram - model)" "in_i32 (ram - model - 500)" "in_i32 (ram - model - 700)"
    using assms unfolding in_i32_def by simp_all
  show ?thesis
  proof (cases "ram - model < 700")
    case True
    then show ?thesis using ok by (simp add: calculateSafeContextSize_def i32_def)
  next
    case False
    then have "cdiv (ram - model - 700) 8 = (ram - model - 700) div 8" by simp
    moreover have "in_i32 ((ram - model - 700) div 8 * 1024)"
    proof -
      have "0 \<le> (ram - model - 700) div 8" using False by simp
      moreover have "(ram - model - 700) div 8 \<le> (2 ^ 24 - 700) div 8"
        using assms by (intro zdiv_mono1) linarith+
      ultimately show ?thesis by (simp add: in_i32_def)
    qed
    ultimately show ?thesis
      using False ok by (simp add: calculateSafeContextSize_def i32_def clamped_context_def)
  qed
qed

lemma clamped_context_mono:
  assumes "d1 \<le> d2"
  shows "clamped_context d1 \<le> clamped_context d2"
proof -
  have "(d1 - 700) div 8 \<le> (d2 - 700) div 8" using assms by (intro zdiv_mono1) auto
  then have "max (min ((d1 - 700) div 8 * 1024) 2048) 512
      \<le> max (min ((d2 - 700) div 8 * 1024) 2048) 512"
    by (intro max.mono min.mono) auto
  then have "max (min ((d1 - 700) div 8 * 1024) 2048) 512 div 256
      \<le> max (min ((d2 - 700) div 8 * 1024) 2048) 512 div 256"
    by (rule zdiv_mono1) simp
  then show ?thesis unfolding clamped_context_def by (rule mult_right_mono) simp
qed

lemma clamped_context_range: "512 \<le> clamped_context d" "clamped_context d \<le> 2048"
proof -
  define s where "s = max (min ((d - 700) div 8 * 1024) 2048) 512"
  have "512 \<le> s" "s \<le> 2048" unfolding s_def by (rule max.cobounded2) simp
  then have "2 \<le> s div 256" "s div 256 \<le> 8"
    using zdiv_mono1 [of 512 s 256] zdiv_mono1 [of s 2048 256] by simp_all
  then show "512 \<le> clamped_context d" "clamped_context d \<le> 2048"
    unfolding clamped_context_def s_def [symmetric] by linarith+
qed

lemma clamped_context_fits:
  assumes "clamped_context d \<noteq> 512"
  shows "8 * clamped_context d \<le> 1024 * (d - 700)"
proof -
  define m where "m = (d - 700) div 8 * 1024"
  have "\<not> m \<le> 512"
    using assms by (auto simp: clamped_context_def m_def [symmetric])
  then have "max (min m 2048) 512 \<le> m" by simp
  moreover have "clamped_context d \<le> max (min m 2048) 512"
    by (simp add: clamped_context_def m_def [symmetric])
  moreover have "8 * m \<le> 1024 * (d - 700)" by (simp add: m_def)
  ultimately show ?thesis by linarith
qed

lemma load_thread_count_range':
  "load_thread_count env c \<in> {1..6} \<and> load_thread_count env False \<in> {2..4}"
proof -
  let ?r = "ram_limited (countBigCores env) (getAvailableMemoryMB env)"
  have "1 \<le> ?r \<and> ?r \<le> 6"
    using ram_limited_bounds countBigCores_bounds by blast
  then show ?thesis
    using battery_adjusted_bounds [of ?r c] battery_adjusted_on_battery [of ?r]
    by (auto simp: load_thread_count_def getAdaptiveThreadCount_def Let_def)
qed

section \<open>Properties\<close>

text \<open>\<open>loadModel\<close> always configures between one and six threads, whatever the probes return; on
  battery it configures between two and four.\<close>

theorem load_thread_count_range:
  "load_thread_count env c \<in> {1..6} \<and> load_thread_count env False \<in> {2..4}"
  by (rule load_thread_count_range')

text \<open>The high-temperature branch, logged as "reducing threads to 3", raises the thread count of
  a caller that asked for fewer than three threads (a device on battery asks for two).\<close>

theorem warm_device_raises_threads:
  assumes "60 < getCpuTemperature env" "getCpuTemperature env \<le> 70" "base_threads < 3"
  shows "base_threads < getAdaptiveThreadCount env base_threads"
  using assms by (simp add: getAdaptiveThreadCount_def Let_def)

theorem warm_device_raises_threads_witness:
  "(2::int) < getAdaptiveThreadCount
     \<lparr>cpu_capacity_file = \<lambda>_. None, cpu_online_file = \<lambda>_. None,
      thermal_zone_file = (\<lambda>z. if z = 0 then Some 65000 else None),
      meminfo_file = None, rusage_maxrss = None\<rparr> 2"
  by (rule warm_device_raises_threads) (simp_all add: getCpuTemperature_def)

text \<open>\<open>calculateSafeContextSize\<close> returns, for every RAM and model size below 16 TB, a multiple
  of 256 between 512 and 2048, and a size above the minimum fits: its key/value cache, 8 MB per
  1024 tokens, is within what remains after the model and the reserves.\<close>

theorem safe_context_size_fits:
  assumes "0 \<le> ram" "ram < 2 ^ 24" "0 \<le> model" "model < 2 ^ 24"
  shows "\<exists>c. calculateSafeContextSize ram model = Some c \<and> 512 \<le> c \<and> c \<le> 2048 \<and> 256 dvd c
    \<and> (c = 512 \<or> 8 * c \<le> 1024 * (ram - model - 700))"
proof -
  have "calculateSafeContextSize ram model =
      Some (if ram - model < 700 then 512 else clamped_context (ram - model))"
    using assms by (rule safe_context_no_overflow)
  moreover have "256 dvd clamped_context (ram - model)" by (simp add: clamped_context_def)
  ultimately show ?thesis
    using clamped_context_range [of "ram - model"] clamped_context_fits [of "ram - model"]
    by (cases "ram - model < 700") auto
qed

theorem safe_context_size_fits_witness:
  "\<exists>c. calculateSafeContextSize 3000 700 = Some c \<and> 512 \<le> c \<and> c \<le> 2048 \<and> 256 dvd c
    \<and> (c = 512 \<or> 8 * c \<le> 1024 * (3000 - 700 - 700))"
  by (rule safe_context_size_fits) simp_all

text \<open>More RAM never gives a smaller context.\<close>

theorem safe_context_size_mono:
  assumes "0 \<le> r1" "r1 \<le> r2" "r2 < 2 ^ 24" "0 \<le> model" "model < 2 ^ 24"
    and "calculateSafeContextSize r1 model = Some c1" "calculateSafeContextSize r2 model = Some c2"
  shows "c1 \<le> c2"
proof -
  have "c1 = (if r1 - model < 700 then 512 else clamped_context (r1 - model))"
    using assms safe_context_no_overflow [of r1 model] by simp
  moreover have "c2 = (if r2 - model < 700 then 512 else clamped_context (r2 - model))"
    using assms safe_context_no_overflow [of r2 model] by simp
  ultimately show ?thesis
    using clamped_context_mono [of "r1 - model" "r2 - model"]
      clamped_context_range [of "r2 - model"] assms(2) by auto
qed

theorem safe_context_size_mono_witness: "(512::int) \<le> 1024"
  by (rule safe_context_size_mono [of 1000 1708 1000])
     (simp_all add: calculateSafeContextSize_def i32_def in_i32_def cdiv_def)

end
