(* ===== verification/Llama_Bridge.thy ===== *)
theory Llama_Bridge
  imports Device_Tuning
begin

text \<open>
  The global state of the llama bridge in \<open>ai_chat_jni.cpp\<close> and the JNI calls around a
  generation: \<open>loadModel\<close>, \<open>prepareContext\<close>, \<open>processSystemPrompt\<close>, \<open>nativeAddToHistory\<close>,
  \<open>stopGeneration\<close>, \<open>unload\<close>, \<open>shutdown\<close>, \<open>nativeOptimizeMemory\<close> and \<open>nativeClearContext\<close>.

  llama.cpp is not part of this code: a model is a value of type \<open>'m\<close>, a context with its memory
  one of type \<open>'c\<close>, a sampler one of type \<open>'s\<close>, and the library functions are the fields of
  \<open>llama_api\<close>.  A C pointer is an option.  The objects the library has handed out and not got back
  are counted in \<open>llama_live\<close>.  A \<open>try_lock_for\<close> that times out is a Boolean argument.
\<close>

section \<open>The batch\<close>

type_synonym llama_token = int

text \<open>The arrays of a batch have the length they were allocated with.\<close>

record llama_batch =
  n_tokens :: nat
  token :: "llama_token list"
  pos :: "int list"
  n_seq_id :: "nat list"
  seq_id :: "int list list"
  logits :: "bool list"

definition null_batch :: llama_batch where
  "null_batch = \<lparr>n_tokens = 0, token = [], pos = [], n_seq_id = [], seq_id = [], logits = []\<rparr>"

definition llama_batch_init :: "nat \<Rightarrow> llama_batch" where
  "llama_batch_init n = \<lparr>n_tokens = 0, token = replicate n 0, pos = replicate n 0,
     n_seq_id = replicate n 0, seq_id = replicate n [0], logits = replicate n False\<rparr>"

text \<open>\<open>None\<close> is a write outside the arrays.\<close>

definition batch_add ::
  "llama_batch \<Rightarrow> llama_token \<Rightarrow> int \<Rightarrow> int list \<Rightarrow> bool \<Rightarrow> llama_batch option" where
  "batch_add b t p seq_ids lg =
    (let n = n_tokens b in
     if n < length (token b) \<and> n < length (pos b) \<and> n < length (n_seq_id b)
        \<and> n < length (seq_id b) \<and> length seq_ids \<le> length (seq_id b ! n)
        \<and> n < length (logits b)
     then Some (b\<lparr>n_tokens := n + 1, token := (token b)[n := t], pos := (pos b)[n := p],
                 n_seq_id := (n_seq_id b)[n := length seq_ids],
                 seq_id := (seq_id b)[n := seq_ids @ drop (length seq_ids) (seq_id b ! n)],
                 logits := (logits b)[n := lg]\<rparr>)
     else None)"

section \<open>The library\<close>

record llama_context_params =
  cp_n_ctx :: int
  cp_n_batch :: int
  cp_n_ubatch :: int
  cp_n_threads :: int

record ('m, 'c, 's) llama_api =
  llama_model_load_from_file :: "bytestring \<Rightarrow> bool \<Rightarrow> 'm option"
  llama_vocab_n_tokens :: "'m \<Rightarrow> nat"
  llama_token_to_piece :: "'m \<Rightarrow> llama_token \<Rightarrow> bool \<Rightarrow> bytestring"
    \<comment> \<open>empty when the call returns \<open>n \<le> 0\<close>\<close>
  llama_vocab_is_eog :: "'m \<Rightarrow> llama_token \<Rightarrow> bool"
  llama_model_chat_template :: "'m \<Rightarrow> bytestring option"
  llama_chat_apply_template ::
    "bytestring option \<Rightarrow> (bytestring \<times> bytestring) list \<Rightarrow> nat \<Rightarrow> int \<times> bytestring"
    \<comment> \<open>the result and the buffer, for a buffer size\<close>
  llama_tokenize :: "'m \<Rightarrow> bytestring \<Rightarrow> nat \<Rightarrow> int \<times> llama_token list"
    \<comment> \<open>the result and the buffer, for a buffer size\<close>
  llama_init_from_model :: "'m \<Rightarrow> llama_context_params \<Rightarrow> 'c option"
  llama_get_memory :: "'c \<Rightarrow> bool"
  llama_memory_clear :: "'c \<Rightarrow> 'c"
  llama_memory_seq_rm :: "'c \<Rightarrow> int \<Rightarrow> int \<Rightarrow> int \<Rightarrow> bool \<times> 'c"
  llama_decode :: "'c \<Rightarrow> llama_batch \<Rightarrow> int \<times> 'c"
  llama_sampler_chain :: "'s"
  llama_sampler_reset :: "'s \<Rightarrow> 's"
  llama_sampler_sample :: "'s \<Rightarrow> 'c \<Rightarrow> llama_token \<times> 's"

record llama_live =
  models :: int
  ctxs :: int
  samplers :: int
  batches :: int

section \<open>The state\<close>

record ('m, 'c, 's) LlamaState =
  model :: "'m option"
  ctx :: "'c option"
  sampler :: "'s option"
  batch :: llama_batch
  is_generating :: bool
  should_stop :: bool
  n_threads :: int
  n_batch :: int
  n_ubatch :: int
  n_ctx :: int
  current_pos :: int
  tokens_generated :: int
  history :: "(bytestring \<times> bytestring) list"
  last_prompt_tokens :: "llama_token list"
  token_im_end :: llama_token
  token_im_start :: llama_token

definition new_LlamaState :: "('m, 'c, 's) LlamaState" where
  "new_LlamaState = \<lparr>model = None, ctx = None, sampler = None, batch = null_batch,
     is_generating = False, should_stop = False, n_threads = 4, n_batch = 512, n_ubatch = 128,
     n_ctx = 1024, current_pos = 0, tokens_generated = 0, history = [], last_prompt_tokens = [],
     token_im_end = -1, token_im_start = -1\<rparr>"

record ('m, 'c, 's) llama_world =
  g_state :: "('m, 'c, 's) LlamaState option"
  g_system_prompt :: bytestring
  live :: llama_live

definition initial_world :: "('m, 'c, 's) llama_world" where
  "initial_world = \<lparr>g_state = None, g_system_prompt = [],
     live = \<lparr>models = 0, ctxs = 0, samplers = 0, batches = 0\<rparr>\<rparr>"

definition is_some :: "'a option \<Rightarrow> int" where
  "is_some x = (case x of None \<Rightarrow> 0 | Some _ \<Rightarrow> 1)"

definition cleanup ::
  "('m, 'c, 's) LlamaState \<Rightarrow> llama_live \<Rightarrow> ('m, 'c, 's) LlamaState \<times> llama_live" where
  "cleanup s lv =
    (s\<lparr>batch := (if n_tokens (batch s) > 0 then null_batch else batch s),
       sampler := None, ctx := None, model := None, is_generating := False,
       should_stop := False, current_pos := 0, tokens_generated := 0,
       last_prompt_tokens := []\<rparr>,
     \<lparr>models = models lv - is_some (model s), ctxs = ctxs lv - is_some (ctx s),
      samplers = samplers lv - is_some (sampler s),
      batches = batches lv - (if n_tokens (batch s) > 0 then 1 else 0)\<rparr>)"

text \<open>Resetting or replacing \<open>g_state\<close> runs the destructor, which cleans up once more.\<close>

definition destroy :: "('m, 'c, 's) LlamaState option \<Rightarrow> llama_live \<Rightarrow> llama_live" where
  "destroy g lv = (case g of None \<Rightarrow> lv | Some s \<Rightarrow> snd (cleanup s lv))"

definition cleanup_and_destroy :: "('m, 'c, 's) LlamaState option \<Rightarrow> llama_live \<Rightarrow> llama_live" where
  "cleanup_and_destroy g lv =
    (case g of None \<Rightarrow> lv
     | Some s \<Rightarrow> (let (s', lv') = cleanup s lv in destroy (Some s') lv'))"

section \<open>Loading\<close>

text \<open>The loop of \<open>scanSpecialTokens\<close>; its state is the pair (im_end, im_start).\<close>

fun scan_loop ::
  "('m, 'c, 's) llama_api \<Rightarrow> 'm \<Rightarrow> nat list \<Rightarrow> llama_token \<times> llama_token
    \<Rightarrow> llama_token \<times> llama_token" where
  "scan_loop api m [] ts = ts"
| "scan_loop api m (i # is) (te, tb) =
    (if te = -1 \<or> tb = -1 then
       (let text = llama_token_to_piece api m (int i) False;
            te' = (if text = bytes ''<|im_end|>'' then int i else te);
            tb' = (if text = bytes ''<|im_start|>'' then int i else tb)
        in scan_loop api m is (te', tb'))
     else (te, tb))"

definition scanSpecialTokens ::
  "('m, 'c, 's) llama_api \<Rightarrow> ('m, 'c, 's) LlamaState \<Rightarrow> ('m, 'c, 's) LlamaState" where
  "scanSpecialTokens api s =
    (case model s of None \<Rightarrow> s
     | Some m \<Rightarrow>
         (let (te, tb) = scan_loop api m [0..<llama_vocab_n_tokens api m]
                           (token_im_end s, token_im_start s)
          in s\<lparr>token_im_end := te, token_im_start := tb\<rparr>))"

text \<open>
  \<open>modelPath\<close> is \<open>None\<close> for a null string, \<open>path_chars\<close> the result of \<open>GetStringUTFChars\<close>,
  \<open>opens\<close> whether \<open>fopen\<close> succeeds.
\<close>

definition loadModel ::
  "('m, 'c, 's) llama_api \<Rightarrow> device_env \<Rightarrow> bool \<Rightarrow> bytestring option \<Rightarrow> (bytestring \<Rightarrow> bool)
    \<Rightarrow> int \<Rightarrow> int \<Rightarrow> bool \<Rightarrow> real \<Rightarrow> bool
    \<Rightarrow> ('m, 'c, 's) llama_world \<Rightarrow> int \<times> ('m, 'c, 's) llama_world" where
  "loadModel api env path_null path_chars opens nCtx nBatch useMmap memoryPressure isCharging w =
    (if path_null then (-1, w)
     else
       (let w1 = w\<lparr>g_state := Some new_LlamaState, live := cleanup_and_destroy (g_state w) (live w)\<rparr>
        in case path_chars of
             None \<Rightarrow> (-1, w1)
           | Some path \<Rightarrow>
               if \<not> opens path then
                 (-2, w1\<lparr>g_state := None, live := destroy (g_state w1) (live w1)\<rparr>)
               else
                 (case llama_model_load_from_file api path useMmap of
                    None \<Rightarrow> (-3, w1\<lparr>g_state := None, live := destroy (g_state w1) (live w1)\<rparr>)
                  | Some m \<Rightarrow>
                      (let s = new_LlamaState\<lparr>model := Some m,
                                 n_threads := load_thread_count env isCharging,
                                 n_ctx := target_context nCtx memoryPressure,
                                 n_batch := load_batch nBatch,
                                 n_ubatch := load_ubatch nBatch\<rparr>
                       in (0, w1\<lparr>g_state := Some (scanSpecialTokens api s),
                                 live := (live w1)\<lparr>models := models (live w1) + 1\<rparr>\<rparr>)))))"

section \<open>Creating the context\<close>

definition context_params :: "('m, 'c, 's) LlamaState \<Rightarrow> int \<Rightarrow> llama_context_params" where
  "context_params s n = \<lparr>cp_n_ctx = n, cp_n_batch = n_batch s, cp_n_ubatch = n_ubatch s,
     cp_n_threads = n_threads s\<rparr>"

text \<open>The retry loop: the argument is \<open>fallback_ctx\<close> and no context exists yet.\<close>

function fallback_loop :: "(int \<Rightarrow> 'c option) \<Rightarrow> int \<Rightarrow> (int \<times> 'c) option" where
  "fallback_loop init n =
    (if n > 256 then
       (case init (n div 2) of
          Some c \<Rightarrow> Some (n div 2, c)
        | None \<Rightarrow> fallback_loop init (n div 2))
     else None)"
  by pat_completeness auto
termination by (relation "measure (\<lambda>(init, n). nat n)") auto

declare fallback_loop.simps [simp del]

definition create_context ::
  "('m, 'c, 's) llama_api \<Rightarrow> 'm \<Rightarrow> ('m, 'c, 's) LlamaState \<Rightarrow> (int \<times> 'c) option" where
  "create_context api m s =
    (case llama_init_from_model api m (context_params s (n_ctx s)) of
       Some c \<Rightarrow> Some (n_ctx s, c)
     | None \<Rightarrow> fallback_loop (\<lambda>n. llama_init_from_model api m (context_params s n)) (n_ctx s))"

definition prepareContext ::
  "('m, 'c, 's) llama_api \<Rightarrow> bool \<Rightarrow> ('m, 'c, 's) llama_world
    \<Rightarrow> int \<times> ('m, 'c, 's) llama_world" where
  "prepareContext api locked w =
    (case g_state w of
       None \<Rightarrow> (-1, w)
     | Some s \<Rightarrow>
         (case model s of
            None \<Rightarrow> (-1, w)
          | Some m \<Rightarrow>
              if \<not> locked then (-1, w)
              else
                (case create_context api m s of
                   None \<Rightarrow> (-1, w\<lparr>g_state := Some (s\<lparr>ctx := None\<rparr>)\<rparr>)
                 | Some (n, c) \<Rightarrow>
                     (0, w\<lparr>g_state := Some (s\<lparr>ctx := Some c, n_ctx := n,
                                batch := llama_batch_init (nat (n_batch s)), current_pos := 0,
                                sampler := Some (llama_sampler_chain api)\<rparr>),
                           live := (live w)\<lparr>ctxs := ctxs (live w) + 1,
                                     samplers := samplers (live w) + 1,
                                     batches := batches (live w) + 1\<rparr>\<rparr>))))"

definition processSystemPrompt ::
  "bytestring \<Rightarrow> ('m, 'c, 's) llama_world \<Rightarrow> int \<times> ('m, 'c, 's) llama_world" where
  "processSystemPrompt prompt w =
    (case g_state w of
       None \<Rightarrow> (-1, w)
     | Some s \<Rightarrow> (case ctx s of None \<Rightarrow> (-1, w) | Some _ \<Rightarrow> (0, w\<lparr>g_system_prompt := prompt\<rparr>)))"

section \<open>History\<close>

definition truncated_content :: "bytestring \<Rightarrow> bytestring \<Rightarrow> bytestring" where
  "truncated_content role content =
    (if role = bytes ''assistant'' \<and> length content > 800
     then take 800 content @ bytes ''...'' else content)"

function trim_history :: "'a list \<Rightarrow> 'a list" where
  "trim_history h = (if length h > 4 then trim_history (drop 1 h) else h)"
  by pat_completeness auto
termination by (relation "measure length") auto

declare trim_history.simps [simp del]

definition nativeAddToHistory ::
  "bytestring \<Rightarrow> bytestring \<Rightarrow> ('m, 'c, 's) llama_world \<Rightarrow> ('m, 'c, 's) llama_world" where
  "nativeAddToHistory role content w =
    (case g_state w of
       None \<Rightarrow> w
     | Some s \<Rightarrow>
         w\<lparr>g_state := Some (s\<lparr>history :=
             trim_history (history s @ [(role, truncated_content role content)])\<rparr>)\<rparr>)"

section \<open>Stopping, unloading, clearing\<close>

definition request_stop ::
  "('m, 'c, 's) llama_api \<Rightarrow> ('m, 'c, 's) LlamaState \<Rightarrow> ('m, 'c, 's) LlamaState" where
  "request_stop api s = s\<lparr>should_stop := True,
     ctx := map_option (\<lambda>c. if llama_get_memory api c then llama_memory_clear api c else c) (ctx s)\<rparr>"

definition stopGeneration ::
  "('m, 'c, 's) llama_api \<Rightarrow> ('m, 'c, 's) llama_world \<Rightarrow> ('m, 'c, 's) llama_world" where
  "stopGeneration api w =
    (case g_state w of None \<Rightarrow> w | Some s \<Rightarrow> w\<lparr>g_state := Some (request_stop api s)\<rparr>)"

text \<open>The wait of \<open>unload\<close>: \<open>gen k\<close> is what the \<open>k\<close>-th read of \<open>is_generating\<close> returns; the result
  is the final \<open>wait_count\<close>.\<close>

function unload_wait :: "(nat \<Rightarrow> bool) \<Rightarrow> nat \<Rightarrow> nat" where
  "unload_wait gen wait_count =
    (if gen wait_count \<and> wait_count < 50 then unload_wait gen (wait_count + 1) else wait_count)"
  by pat_completeness auto
termination by (relation "measure (\<lambda>(gen, k). 50 - k)") auto

declare unload_wait.simps [simp del]

definition unload :: "('m, 'c, 's) llama_world \<Rightarrow> ('m, 'c, 's) llama_world" where
  "unload w =
    (case g_state w of
       None \<Rightarrow> w
     | Some s \<Rightarrow>
         w\<lparr>g_state := None,
           live := cleanup_and_destroy (Some (s\<lparr>should_stop := True\<rparr>)) (live w)\<rparr>)"

definition shutdown :: "('m, 'c, 's) llama_world \<Rightarrow> ('m, 'c, 's) llama_world" where
  "shutdown w =
    (case g_state w of
       None \<Rightarrow> w
     | Some s \<Rightarrow> w\<lparr>g_state := None, live := cleanup_and_destroy (Some s) (live w)\<rparr>)"

text \<open>The memory use before and after is read from the system.\<close>

definition nativeOptimizeMemory ::
  "device_env \<Rightarrow> device_env \<Rightarrow> ('m, 'c, 's) llama_world \<Rightarrow> int \<times> ('m, 'c, 's) llama_world" where
  "nativeOptimizeMemory env_before env_after w =
    (let w' = (case g_state w of
                 None \<Rightarrow> w
               | Some s \<Rightarrow>
                   if \<not> is_generating s \<and> n_tokens (batch s) > 0
                   then w\<lparr>g_state := Some (s\<lparr>batch := (batch s)\<lparr>n_tokens := 0\<rparr>\<rparr>)\<rparr> else w);
         memoryFreed = getCurrentMemoryUsageMB env_before - getCurrentMemoryUsageMB env_after
     in (if memoryFreed < 0 then 0 else memoryFreed, w'))"

definition nativeClearContext ::
  "bool \<Rightarrow> ('m, 'c, 's) llama_world \<Rightarrow> ('m, 'c, 's) llama_world" where
  "nativeClearContext locked w =
    (case g_state w of
       None \<Rightarrow> w
     | Some s \<Rightarrow>
         (case ctx s of
            None \<Rightarrow> w
          | Some _ \<Rightarrow>
              if \<not> locked then w
              else w\<lparr>g_state := Some (s\<lparr>current_pos := 0, history := [], last_prompt_tokens := [],
                       batch := (batch s)\<lparr>n_tokens := 0\<rparr>\<rparr>)\<rparr>))"

text \<open>
  A concrete library for the examples: a token is a byte, except 0 and 1 for the two markers; the
  context maps positions to tokens, the sampler replays a script of tokens and then ends.
\<close>

definition script_api :: "llama_token list \<Rightarrow> (unit, int \<Rightarrow> int option, int list) llama_api" where
  "script_api script = \<lparr>
     llama_model_load_from_file = \<lambda>_ _. Some (),
     llama_vocab_n_tokens = \<lambda>_. 2,
     llama_token_to_piece = \<lambda>_ t _. if t = 0 then bytes ''<|im_start|>''
       else if t = 1 then bytes ''<|im_end|>'' else [word_of_int t],
     llama_vocab_is_eog = \<lambda>_ t. t = 1,
     llama_model_chat_template = \<lambda>_. None,
     llama_chat_apply_template = \<lambda>_ msgs n. (-1, []),
     llama_tokenize = \<lambda>_ s n. (int (length s), map (\<lambda>b. uint b) s),
     llama_init_from_model = \<lambda>_ _. Some (\<lambda>_. None),
     llama_get_memory = \<lambda>_. True,
     llama_memory_clear = \<lambda>_. (\<lambda>_. None),
     llama_memory_seq_rm = \<lambda>c _ p0 _. (True, \<lambda>q. if q < p0 then c q else None),
     llama_decode = \<lambda>c b. (0, foldl (\<lambda>m k. m(pos b ! k \<mapsto> token b ! k)) c [0..<n_tokens b]),
     llama_sampler_chain = script,
     llama_sampler_reset = \<lambda>s. s,
     llama_sampler_sample = \<lambda>s _. (case s of [] \<Rightarrow> (1, []) | t # r \<Rightarrow> (t, r))\<rparr>"

definition quiet_device :: device_env where
  "quiet_device = \<lparr>cpu_capacity_file = \<lambda>_. None, cpu_online_file = \<lambda>_. None,
     thermal_zone_file = \<lambda>_. None, meminfo_file = None, rusage_maxrss = None\<rparr>"

section \<open>Batches\<close>

definition batch_wf :: "nat \<Rightarrow> llama_batch \<Rightarrow> bool" where
  "batch_wf cap b \<longleftrightarrow> n_tokens b \<le> cap \<and> length (token b) = cap \<and> length (pos b) = cap
    \<and> length (n_seq_id b) = cap \<and> length (seq_id b) = cap \<and> length (logits b) = cap
    \<and> (\<forall>x \<in> set (seq_id b). length x = 1)"

text \<open>What the library reads of a batch: token, position, sequences and whether logits are wanted.\<close>

definition batch_row :: "llama_batch \<Rightarrow> nat \<Rightarrow> llama_token \<times> int \<times> int list \<times> bool" where
  "batch_row b k = (token b ! k, pos b ! k, take (n_seq_id b ! k) (seq_id b ! k), logits b ! k)"

definition batch_rows :: "llama_batch \<Rightarrow> (llama_token \<times> int \<times> int list \<times> bool) list" where
  "batch_rows b = map (batch_row b) [0..<n_tokens b]"

lemma batch_wf_init [inv_intros]: "batch_wf cap (llama_batch_init cap)"
  by (simp add: batch_wf_def llama_batch_init_def)

lemma batch_wf_reset [inv_intros]: "batch_wf cap b \<Longrightarrow> batch_wf cap (b\<lparr>n_tokens := 0\<rparr>)"
  by (simp add: batch_wf_def)

lemma batch_rows_reset [simp]: "batch_rows (b\<lparr>n_tokens := 0\<rparr>) = []"
  by (simp add: batch_rows_def)

lemma length_batch_rows [simp]: "length (batch_rows b) = n_tokens b"
  by (simp add: batch_rows_def)

lemma batch_add_ok:
  assumes wf: "batch_wf cap b" and room: "n_tokens b < cap"
  obtains b' where "batch_add b t p [q] lg = Some b'" "batch_wf cap b'"
    "n_tokens b' = n_tokens b + 1" "batch_rows b' = batch_rows b @ [(t, p, [q], lg)]"
proof -
  let ?n = "n_tokens b"
  define b' where "b' = b\<lparr>n_tokens := ?n + 1, token := (token b)[?n := t], pos := (pos b)[?n := p],
    n_seq_id := (n_seq_id b)[?n := 1], seq_id := (seq_id b)[?n := [q]], logits := (logits b)[?n := lg]\<rparr>"
  have one: "length (seq_id b ! ?n) = 1"
    using wf room by (auto simp: batch_wf_def)
  have "batch_add b t p [q] lg = Some b'"
    using wf room one by (simp add: batch_add_def batch_wf_def b'_def Let_def)
  moreover have "batch_wf cap b'"
    using wf room set_update_subset_insert [of "seq_id b" ?n "[q]"]
    by (auto simp: batch_wf_def b'_def)
  moreover have "batch_row b' k = batch_row b k" if "k < ?n" for k
    using that by (simp add: batch_row_def b'_def)
  then have "batch_rows b' = batch_rows b @ [(t, p, [q], lg)]"
    using wf room by (auto simp: batch_rows_def batch_wf_def batch_row_def b'_def)
  ultimately show thesis using that by (simp add: b'_def)
qed

section \<open>The state between calls\<close>

definition llama_ok :: "('m, 'c, 's) LlamaState \<Rightarrow> bool" where
  "llama_ok s \<longleftrightarrow> 1 \<le> n_batch s \<and> n_threads s \<in> {1..6} \<and> n_ubatch s \<le> n_batch s
    \<and> n_ubatch s \<le> 128 \<and> length (history s) \<le> 4 \<and> \<not> is_generating s
    \<and> (ctx s \<noteq> None \<longrightarrow> model s \<noteq> None \<and> sampler s \<noteq> None
         \<and> batch_wf (nat (n_batch s)) (batch s))"

definition owned_models :: "('m, 'c, 's) llama_world \<Rightarrow> int" where
  "owned_models w = (case g_state w of None \<Rightarrow> 0 | Some s \<Rightarrow> is_some (model s))"

definition owned_ctxs :: "('m, 'c, 's) llama_world \<Rightarrow> int" where
  "owned_ctxs w = (case g_state w of None \<Rightarrow> 0 | Some s \<Rightarrow> is_some (ctx s))"

definition owned_samplers :: "('m, 'c, 's) llama_world \<Rightarrow> int" where
  "owned_samplers w = (case g_state w of None \<Rightarrow> 0 | Some s \<Rightarrow> is_some (sampler s))"

definition world_ok :: "('m, 'c, 's) llama_world \<Rightarrow> bool" where
  "world_ok w \<longleftrightarrow> (\<forall>s. g_state w = Some s \<longrightarrow> llama_ok s)
    \<and> models (live w) = owned_models w \<and> owned_ctxs w \<le> ctxs (live w)
    \<and> owned_samplers w \<le> samplers (live w)"

lemmas owned_defs = owned_models_def owned_ctxs_def owned_samplers_def

lemma is_some_simps [simp]: "is_some None = 0" "is_some (Some x) = 1"
  by (simp_all add: is_some_def)

lemma is_some_map [simp]: "is_some (map_option f x) = is_some x"
  by (cases x) simp_all

lemma destroy_cleaned:
  "destroy (Some (fst (cleanup s lv))) lv' = lv'"
  by (simp add: destroy_def cleanup_def null_batch_def)

lemma cleanup_and_destroy_eq:
  "cleanup_and_destroy g lv = destroy g lv"
  using destroy_cleaned [of _ lv "snd (cleanup _ lv)"]
  by (cases g) (simp_all add: cleanup_and_destroy_def destroy_def case_prod_beta)

lemma live_destroy [simp]:
  "models (destroy (g_state w) (live w)) = models (live w) - owned_models w"
  "ctxs (destroy (g_state w) (live w)) = ctxs (live w) - owned_ctxs w"
  "samplers (destroy (g_state w) (live w)) = samplers (live w) - owned_samplers w"
  by (cases "g_state w"; simp add: destroy_def cleanup_def owned_defs)+

lemma destroy_new [simp]: "destroy (Some new_LlamaState) lv = lv"
  by (simp add: destroy_def cleanup_def new_LlamaState_def null_batch_def)

lemma new_LlamaState_ok [inv_intros]: "llama_ok new_LlamaState"
  by (simp add: llama_ok_def new_LlamaState_def)

lemma world_ok_initial [inv_intros]: "world_ok initial_world"
  by (simp add: world_ok_def initial_world_def owned_defs)

lemma scanSpecialTokens_frame:
  "\<exists>te tb. scanSpecialTokens api s = s\<lparr>token_im_end := te, token_im_start := tb\<rparr>"
proof (cases "model s")
  case None
  then have "scanSpecialTokens api s = s\<lparr>token_im_end := token_im_end s, token_im_start := token_im_start s\<rparr>"
    by (cases s) (simp add: scanSpecialTokens_def)
  then show ?thesis by (intro exI)
qed (auto simp: scanSpecialTokens_def split: prod.split)

lemma llama_ok_loaded:
  "llama_ok (new_LlamaState\<lparr>model := Some m, n_threads := load_thread_count env isCharging,
     n_ctx := target_context nCtx p, n_batch := load_batch nBatch, n_ubatch := load_ubatch nBatch\<rparr>)"
  using load_thread_count_range' [of env isCharging]
  by (simp add: llama_ok_def new_LlamaState_def load_batch_def load_ubatch_def)

lemma scanSpecialTokens_ok [simp]:
  "llama_ok (scanSpecialTokens api s) = llama_ok s" "model (scanSpecialTokens api s) = model s"
  "ctx (scanSpecialTokens api s) = ctx s" "sampler (scanSpecialTokens api s) = sampler s"
  using scanSpecialTokens_frame [of api s] by (auto simp: llama_ok_def)

lemma new_LlamaState_simps [simp]:
  "model new_LlamaState = None" "ctx new_LlamaState = None" "sampler new_LlamaState = None"
  by (simp_all add: new_LlamaState_def)

lemma world_ok_update [simp]:
  "world_ok (w\<lparr>g_state := None, live := lv\<rparr>) \<longleftrightarrow>
    models lv = 0 \<and> 0 \<le> ctxs lv \<and> 0 \<le> samplers lv"
  "world_ok (w\<lparr>g_state := Some s, live := lv\<rparr>) \<longleftrightarrow>
    llama_ok s \<and> models lv = is_some (model s) \<and> is_some (ctx s) \<le> ctxs lv
    \<and> is_some (sampler s) \<le> samplers lv"
  by (simp_all add: world_ok_def owned_defs)

lemma world_ok_state:
  assumes "world_ok w" "g_state w = Some s" "llama_ok s'" "model s' = model s"
    "is_some (ctx s') \<le> is_some (ctx s)" "is_some (sampler s') = is_some (sampler s)"
  shows "world_ok (w\<lparr>g_state := Some s'\<rparr>)"
  using assms by (simp add: world_ok_def owned_defs)

lemma world_ok_llama_ok: "world_ok w \<Longrightarrow> g_state w = Some s \<Longrightarrow> llama_ok s"
  by (simp add: world_ok_def)

lemma loadModel_ok [inv_intros]:
  assumes "world_ok w"
  shows "world_ok (snd (loadModel api env pn pc opens nCtx nBatch mm p ch w))"
proof -
  define lv where "lv = cleanup_and_destroy (g_state w) (live w)"
  have lv: "models lv = 0" "0 \<le> ctxs lv" "0 \<le> samplers lv"
    using assms by (simp_all add: lv_def cleanup_and_destroy_eq world_ok_def)
  define s where "s m = (new_LlamaState :: ('a,'b,'c) LlamaState)\<lparr>model := Some m,
     n_threads := load_thread_count env ch, n_ctx := target_context nCtx p,
     n_batch := load_batch nBatch, n_ubatch := load_ubatch nBatch\<rparr>" for m
  have s: "llama_ok (s m)" "model (s m) = Some m" "ctx (s m) = None" "sampler (s m) = None" for m
    using llama_ok_loaded by (simp_all add: s_def new_LlamaState_def)
  show ?thesis
    using assms lv s new_LlamaState_ok
    by (cases pn; cases pc; cases "opens (the pc)"; cases "llama_model_load_from_file api (the pc) mm")
       (simp_all add: loadModel_def Let_def lv_def [symmetric] s_def [symmetric])
qed

lemma create_context_Some:
  assumes "create_context api m s = Some (n, c)"
  shows "llama_init_from_model api m (context_params s n) = Some c"
proof -
  have "llama_init_from_model api m (context_params s n) = Some c"
    if "fallback_loop (\<lambda>n. llama_init_from_model api m (context_params s n)) k = Some (n, c)" for k
    using that
  proof (induction "\<lambda>n. llama_init_from_model api m (context_params s n)" k
      rule: fallback_loop.induct)
    case (1 k)
    from "1.prems" show ?case
      by (subst (asm) fallback_loop.simps) (auto split: if_splits option.splits intro: "1.hyps")
  qed
  with assms show ?thesis by (auto simp: create_context_def split: option.splits)
qed

lemma prepareContext_ok [inv_intros]:
  assumes "world_ok w"
  shows "world_ok (snd (prepareContext api lk w))"
proof (cases "g_state w")
  case (Some s)
  have ok: "llama_ok s" using assms Some by (rule world_ok_llama_ok)
  show ?thesis
  proof (cases "model s")
    case m: (Some m)
    show ?thesis
    proof (cases "create_context api m s")
      case None
      with ok assms Some m show ?thesis
        by (auto simp: prepareContext_def intro!: world_ok_state [where s = s])
           (auto simp: llama_ok_def is_some_def split: option.split)
    next
      case c: (Some nc)
      obtain n c where nc: "nc = (n, c)" by (cases nc)
      have "0 \<le> ctxs (live w)" "0 \<le> samplers (live w)" "models (live w) = 1"
        using assms Some m by (auto simp: world_ok_def owned_defs is_some_def split: option.splits)
      with ok assms Some m c nc show ?thesis
        by (simp add: prepareContext_def llama_ok_def batch_wf_init)
    qed
  qed (use assms Some in \<open>simp add: prepareContext_def\<close>)
qed (use assms in \<open>simp add: prepareContext_def\<close>)

lemma processSystemPrompt_ok [inv_intros]:
  "world_ok w \<Longrightarrow> world_ok (snd (processSystemPrompt p w))"
  by (auto simp: processSystemPrompt_def world_ok_def owned_defs split: option.splits)

lemma trim_history_eq: "trim_history h = drop (length h - 4) h"
proof (induction h rule: trim_history.induct)
  case (1 h)
  show ?case
  proof (cases "length h > 4")
    case True
    then have "Suc (length h - 1 - 4) = length h - 4" by simp
    with True show ?thesis
      using 1 by (subst trim_history.simps) (simp del: diff_diff_left)
  qed (subst trim_history.simps, simp)
qed

lemma length_trim_history: "length (trim_history h) \<le> 4"
  by (simp add: trim_history_eq)

lemma nativeAddToHistory_ok [inv_intros]:
  assumes "world_ok w"
  shows "world_ok (nativeAddToHistory r c w)"
proof (cases "g_state w")
  case (Some s)
  with world_ok_llama_ok [OF assms Some] assms show ?thesis
    by (auto simp: nativeAddToHistory_def llama_ok_def length_trim_history
        intro!: world_ok_state [where s = s])
qed (use assms in \<open>simp add: nativeAddToHistory_def\<close>)

lemma request_stop_ok [inv_intros]: "llama_ok s \<Longrightarrow> llama_ok (request_stop api s)"
  by (simp add: request_stop_def llama_ok_def)

lemma request_stop_simps [simp]:
  "model (request_stop api s) = model s" "sampler (request_stop api s) = sampler s"
  "batch (request_stop api s) = batch s" "should_stop (request_stop api s)"
  "is_some (ctx (request_stop api s)) = is_some (ctx s)"
  by (simp_all add: request_stop_def)

lemma stopGeneration_ok [inv_intros]:
  assumes "world_ok w"
  shows "world_ok (stopGeneration api w)"
proof (cases "g_state w")
  case (Some s)
  with world_ok_llama_ok [OF assms Some] assms show ?thesis
    by (auto simp: stopGeneration_def intro!: world_ok_state [where s = s] request_stop_ok)
qed (use assms in \<open>simp add: stopGeneration_def\<close>)

lemma unload_eq: "unload w = shutdown w"
  by (cases "g_state w")
     (simp_all add: unload_def shutdown_def cleanup_and_destroy_eq destroy_def cleanup_def)

lemma shutdown_ok [inv_intros]:
  assumes "world_ok w"
  shows "world_ok (shutdown w)"
proof (cases "g_state w")
  case (Some s)
  have "shutdown w = w\<lparr>g_state := None, live := destroy (g_state w) (live w)\<rparr>"
    by (simp add: Some shutdown_def cleanup_and_destroy_eq)
  with assms show ?thesis by (simp only: world_ok_update) (simp add: world_ok_def)
qed (use assms in \<open>simp add: shutdown_def\<close>)

lemma nativeOptimizeMemory_ok [inv_intros]:
  assumes "world_ok w"
  shows "world_ok (snd (nativeOptimizeMemory e1 e2 w))"
proof (cases "g_state w")
  case (Some s)
  with world_ok_llama_ok [OF assms Some] assms show ?thesis
    by (auto simp: nativeOptimizeMemory_def Let_def llama_ok_def
        intro!: world_ok_state [where s = s] batch_wf_reset)
qed (use assms in \<open>simp add: nativeOptimizeMemory_def Let_def\<close>)

lemma nativeClearContext_ok [inv_intros]:
  assumes "world_ok w"
  shows "world_ok (nativeClearContext lk w)"
proof (cases "g_state w")
  case (Some s)
  with world_ok_llama_ok [OF assms Some] assms show ?thesis
    by (cases "ctx s")
       (auto simp: nativeClearContext_def llama_ok_def
        intro!: world_ok_state [where s = s] batch_wf_reset)
qed (use assms in \<open>simp add: nativeClearContext_def\<close>)

section \<open>Details of single calls\<close>

lemma div_two_Suc: "(n :: int) div 2 div 2 ^ k = n div 2 ^ Suc k"
  by (simp add: zdiv_zmult2_eq)

lemma fallback_loop_Some:
  "fallback_loop init n = Some (n', c) \<Longrightarrow>
    \<exists>k. n' = n div 2 ^ Suc k \<and> init n' = Some c \<and> 128 \<le> n'
      \<and> (\<forall>j<k. init (n div 2 ^ Suc j) = None)"
proof (induction init n rule: fallback_loop.induct)
  case (1 init n)
  from "1.prems" have big: "256 < n" by (subst (asm) fallback_loop.simps) (simp split: if_splits)
  show ?case
  proof (cases "init (n div 2)")
    case (Some c')
    with "1.prems" big have "n' = n div 2" "c' = c"
      by (subst (asm) (1) fallback_loop.simps; simp)+
    with Some big show ?thesis by (intro exI [of _ 0]) simp
  next
    case None
    with "1.prems" big have "fallback_loop init (n div 2) = Some (n', c)"
      by (subst (asm) (1) fallback_loop.simps) simp
    then obtain k where k: "n' = n div 2 div 2 ^ Suc k" "init n' = Some c" "128 \<le> n'"
      "\<forall>j<k. init (n div 2 div 2 ^ Suc j) = None"
      using "1.IH" [OF big None] by blast
    have "init (n div 2 ^ Suc j) = None" if "j < Suc k" for j
    proof (cases j)
      case (Suc i)
      then have "init (n div 2 div 2 ^ Suc i) = None" using k(4) that by blast
      then show ?thesis unfolding Suc div_two_Suc .
    qed (simp add: None)
    with k show ?thesis unfolding div_two_Suc by blast
  qed
qed

lemma fallback_loop_None:
  "fallback_loop init n = None \<Longrightarrow> 256 < n div 2 ^ k \<Longrightarrow> init (n div 2 ^ Suc k) = None"
proof (induction init n arbitrary: k rule: fallback_loop.induct)
  case (1 init n)
  have "n div 2 ^ k \<le> n" if "0 \<le> n" using that zdiv_mono2 [of n 1 "2 ^ k"] by simp
  moreover have "n div 2 ^ k < 0" if "n < 0" using that by (simp add: div_neg_pos_less0)
  ultimately have big: "256 < n" using "1.prems"(2) by (cases "n < 0") auto
  with "1.prems"(1) have now: "init (n div 2) = None" "fallback_loop init (n div 2) = None"
    by (subst (asm) (1) fallback_loop.simps; simp split: option.splits)+
  show ?case
  proof (cases k)
    case (Suc j)
    then show ?thesis
      using "1.IH" [OF big now] "1.prems"(2) unfolding Suc div_two_Suc [symmetric] by blast
  qed (use now in simp)
qed

lemma scan_loop_found:
  "te = -1 \<or> (0 \<le> te \<and> llama_token_to_piece api m te False = bytes ''<|im_end|>'') \<Longrightarrow>
   tb = -1 \<or> (0 \<le> tb \<and> llama_token_to_piece api m tb False = bytes ''<|im_start|>'') \<Longrightarrow>
   scan_loop api m is (te, tb) = (te', tb') \<Longrightarrow>
   (te' = -1 \<or> (0 \<le> te' \<and> llama_token_to_piece api m te' False = bytes ''<|im_end|>''))
   \<and> (tb' = -1 \<or> (0 \<le> tb' \<and> llama_token_to_piece api m tb' False = bytes ''<|im_start|>''))"
proof (induction "is" arbitrary: te tb)
  case (Cons i "is")
  show ?case
  proof (cases "te = -1 \<or> tb = -1")
    case True
    let ?t = "llama_token_to_piece api m (int i) False"
    show ?thesis
      by (rule Cons.IH [of "if ?t = bytes ''<|im_end|>'' then int i else te"
            "if ?t = bytes ''<|im_start|>'' then int i else tb"])
         (use Cons.prems True in \<open>auto simp: Let_def\<close>)
  qed (use Cons.prems in auto)
qed auto

lemma scan_loop_complete:
  "scan_loop api m is (te, tb) = (te', tb') \<Longrightarrow> te' = -1 \<Longrightarrow> te = -1
    \<and> (\<forall>i \<in> set is. llama_token_to_piece api m (int i) False \<noteq> bytes ''<|im_end|>'')"
proof (induction "is" arbitrary: te tb)
  case (Cons i "is")
  let ?t = "llama_token_to_piece api m (int i) False"
  let ?te = "if ?t = bytes ''<|im_end|>'' then int i else te"
  let ?tb = "if ?t = bytes ''<|im_start|>'' then int i else tb"
  show ?case
  proof (cases "te = -1 \<or> tb = -1")
    case True
    with Cons.prems have "scan_loop api m is (?te, ?tb) = (te', tb')" by (simp add: Let_def)
    from Cons.IH [OF this Cons.prems(2)] show ?thesis by (auto split: if_splits)
  qed (use Cons.prems in auto)
qed simp

section \<open>Properties\<close>

text \<open>Of the messages added to the history, the last four are kept, in order, assistant messages cut
  to 800 bytes and an ellipsis.\<close>

theorem history_keeps_last_four:
  "length (history s) \<le> 4 \<Longrightarrow>
   map_option history (g_state (foldl (\<lambda>w (r, c). nativeAddToHistory r c w)
        (w\<lparr>g_state := Some s\<rparr>) msgs)) =
    Some (let all = history s @ map (\<lambda>(r, c). (r, truncated_content r c)) msgs
          in drop (length all - 4) all)"
proof (induction msgs arbitrary: s)
  case (Cons rc msgs)
  obtain r c where rc: "rc = (r, c)" by (cases rc)
  let ?h = "trim_history (history s @ [(r, truncated_content r c)])"
  have "foldl (\<lambda>w (r, c). nativeAddToHistory r c w) (w\<lparr>g_state := Some s\<rparr>) (rc # msgs) =
      foldl (\<lambda>w (r, c). nativeAddToHistory r c w) (w\<lparr>g_state := Some (s\<lparr>history := ?h\<rparr>)\<rparr>) msgs"
    by (simp add: rc nativeAddToHistory_def)
  moreover have "length ?h \<le> 4" by (rule length_trim_history)
  ultimately show ?case
    using Cons.IH [of "s\<lparr>history := ?h\<rparr>"] Cons.prems
    by (cases "length (history s) = 4") (auto simp: rc trim_history_eq Let_def)
qed (simp add: Let_def)

theorem history_keeps_last_four_witness:
  "map_option history (g_state (foldl (\<lambda>w (r, c). nativeAddToHistory r c w)
        ((initial_world :: (nat, nat, nat) llama_world)\<lparr>g_state := Some new_LlamaState\<rparr>)
        [(bytes ''user'', [1]), (bytes ''user'', [2]), (bytes ''user'', [3]),
         (bytes ''user'', [4]), (bytes ''user'', [5])])) =
    Some [(bytes ''user'', [2]), (bytes ''user'', [3]), (bytes ''user'', [4]), (bytes ''user'', [5])]"
  by (subst history_keeps_last_four)
     (simp_all add: new_LlamaState_def truncated_content_def bytes_def)

text \<open>C34: What \<open>loadModel\<close> returns and what it leaves.  A null path gives -1 and changes nothing, so that a model loaded
  before stays.  Any other call gives the models, contexts and samplers of the previous state back to the
  library: -1 when the characters of the path cannot be read, -2 when the file does not open and -3 when the
  library refuses it, each time with nothing held; 0 otherwise, and then the state holds the new model, still
  without context and sampler.  (Batches are not counted here, one may leak.)\<close>

theorem loadModel_result:
  assumes "world_ok w"
    and "loadModel api env path_null pc opens nCtx nBatch mm p ch w = (rc, w')"
  shows "if path_null then rc = -1 \<and> w' = w
    else rc = (case pc of None \<Rightarrow> -1 | Some path \<Rightarrow>
          if \<not> opens path then -2 else if llama_model_load_from_file api path mm = None then -3 else 0)
      \<and> (rc \<noteq> 0 \<longrightarrow> owned_models w' = 0)
      \<and> (rc = 0 \<longrightarrow> (\<exists>s. g_state w' = Some s \<and> model s = llama_model_load_from_file api (the pc) mm \<and> model s \<noteq> None))
      \<and> models (live w') = owned_models w' \<and> owned_ctxs w' = 0 \<and> owned_samplers w' = 0
      \<and> ctxs (live w') = ctxs (live w) - owned_ctxs w
      \<and> samplers (live w') = samplers (live w) - owned_samplers w"
proof -
  have "models (live w) = owned_models w" using assms(1) by (simp add: world_ok_def)
  then show ?thesis
    using assms(2)
    by (cases path_null; cases pc; cases "opens (the pc)"; cases "llama_model_load_from_file api (the pc) mm")
       (auto simp: loadModel_def Let_def owned_defs cleanup_and_destroy_eq)
qed

text \<open>A second model replaces the first one, whose context and sampler are given back.\<close>

theorem loadModel_result_witness:
  "\<exists>w rc w'. world_ok w \<and> ctxs (live w) = 1 \<and>
    loadModel (script_api []) quiet_device False (Some []) (\<lambda>_. True) 1024 512 True 0 True w = (rc, w') \<and>
    rc = 0 \<and> models (live w') = 1 \<and> ctxs (live w') = 0 \<and> samplers (live w') = 0"
proof -
  let ?load = "\<lambda>w. loadModel (script_api []) quiet_device False (Some []) (\<lambda>_. True) 1024 512 True 0 True w"
  define w where "w = snd (prepareContext (script_api []) True (snd (?load initial_world)))"
  have ok: "world_ok w" unfolding w_def by (intro prepareContext_ok loadModel_ok world_ok_initial)
  have l: "ctxs (live w) = 1" "samplers (live w) = 1" "owned_ctxs w = 1" "owned_samplers w = 1"
    by (simp_all add: w_def loadModel_def prepareContext_def create_context_def script_api_def Let_def initial_world_def
        cleanup_and_destroy_def owned_defs scanSpecialTokens_def new_LlamaState_def case_prod_beta)
  obtain rc w' where r: "?load w = (rc, w')" by (metis surj_pair)
  from loadModel_result [OF ok r] have rc: "rc = 0" "ctxs (live w') = 0" "samplers (live w') = 0" "models (live w') = owned_models w'"
    and m: "\<exists>s. g_state w' = Some s \<and> model s \<noteq> None" by (simp_all add: script_api_def l)
  from m have "owned_models w' = 1" by (auto simp: owned_defs)
  with ok l r rc show ?thesis by auto
qed

text \<open>The context-size fallback always returns; a context it creates has the first size in the
  sequence \<open>n_ctx\<close>, \<open>n_ctx / 2\<close>, \<open>n_ctx / 4\<close>, ... that the library accepts and a retried size is
  at least 128 (not 256, as the error message says); when it fails, the library has refused
  \<open>n_ctx\<close> and every halving of a size above 256.\<close>

theorem create_context_first_fit:
  "case create_context api m s of
     Some (n, c) \<Rightarrow> llama_init_from_model api m (context_params s n) = Some c
       \<and> (\<exists>k. n = n_ctx s div 2 ^ k \<and> (0 < k \<longrightarrow> 128 \<le> n)
            \<and> (\<forall>j<k. llama_init_from_model api m (context_params s (n_ctx s div 2 ^ j)) = None))
   | None \<Rightarrow> llama_init_from_model api m (context_params s (n_ctx s)) = None
       \<and> (\<forall>k. 256 < n_ctx s div 2 ^ k
            \<longrightarrow> llama_init_from_model api m (context_params s (n_ctx s div 2 ^ Suc k)) = None)"
proof -
  let ?init = "\<lambda>n. llama_init_from_model api m (context_params s n)"
  show ?thesis
  proof (cases "?init (n_ctx s)")
    case (Some c)
    then show ?thesis by (auto simp: create_context_def intro: exI [of _ 0])
  next
    case None
    show ?thesis
    proof (cases "fallback_loop ?init (n_ctx s)")
      case f: None
      then show ?thesis
        using None fallback_loop_None [OF f] by (auto simp: create_context_def)
    next
      case (Some nc)
      obtain n c where nc: "nc = (n, c)" by (cases nc)
      obtain k where k: "n = n_ctx s div 2 ^ Suc k" "?init n = Some c" "128 \<le> n"
        "\<forall>j<k. ?init (n_ctx s div 2 ^ Suc j) = None"
        using fallback_loop_Some [OF Some [unfolded nc]] by blast
      have "?init (n_ctx s div 2 ^ j) = None" if "j < Suc k" for j
        using k(4) None that by (cases j) auto
      with k(1-3) have "n = n_ctx s div 2 ^ Suc k \<and> (0 < Suc k \<longrightarrow> 128 \<le> n)
          \<and> (\<forall>j<Suc k. ?init (n_ctx s div 2 ^ j) = None)" by blast
      then have "\<exists>k. n = n_ctx s div 2 ^ k \<and> (0 < k \<longrightarrow> 128 \<le> n)
          \<and> (\<forall>j<k. ?init (n_ctx s div 2 ^ j) = None)" by blast
      with k(2) show ?thesis by (simp only: create_context_def None Some nc option.case prod.case)
    qed
  qed
qed

theorem create_context_first_fit_witness:
  "case create_context (undefined\<lparr>llama_init_from_model := \<lambda>_ p. if cp_n_ctx p \<le> 200 then Some 7 else None\<rparr>
          :: (nat, nat, nat) llama_api) 0 (new_LlamaState\<lparr>n_ctx := 300\<rparr>) of
     Some (n, c) \<Rightarrow> (\<exists>k. n = 300 div 2 ^ k \<and> (0 < k \<longrightarrow> 128 \<le> n)) | None \<Rightarrow> False"
  using create_context_first_fit [of "undefined\<lparr>llama_init_from_model := \<lambda>_ p. if cp_n_ctx p \<le> 200 then Some 7 else None\<rparr>
          :: (nat, nat, nat) llama_api" 0 "new_LlamaState\<lparr>n_ctx := 300\<rparr>"]
  by (auto simp: create_context_def context_params_def fallback_loop.simps split: if_splits)

text \<open>A token id that \<open>scanSpecialTokens\<close> records has the marker as its text, and when it records
  none for \<open><|im_end|>\<close> then no token of the vocabulary has that text.\<close>

theorem scanSpecialTokens_correct:
  assumes "model s = Some m" "token_im_end s = -1" "token_im_start s = -1"
    and "s' = scanSpecialTokens api s"
  shows "(token_im_end s' \<noteq> -1 \<longrightarrow> llama_token_to_piece api m (token_im_end s') False = bytes ''<|im_end|>'')
    \<and> (token_im_start s' \<noteq> -1 \<longrightarrow> llama_token_to_piece api m (token_im_start s') False = bytes ''<|im_start|>'')
    \<and> (token_im_end s' = -1 \<longrightarrow> (\<forall>i < llama_vocab_n_tokens api m.
         llama_token_to_piece api m (int i) False \<noteq> bytes ''<|im_end|>''))"
proof -
  obtain te tb where scan: "scan_loop api m [0..<llama_vocab_n_tokens api m] (-1, -1) = (te, tb)"
    by (metis surj_pair)
  then have "token_im_end s' = te" "token_im_start s' = tb"
    using assms by (simp_all add: scanSpecialTokens_def)
  then show ?thesis
    using scan_loop_found [OF _ _ scan] scan_loop_complete [OF scan] by auto
qed

theorem scanSpecialTokens_correct_witness:
  "token_im_end (scanSpecialTokens
      (undefined\<lparr>llama_vocab_n_tokens := \<lambda>_. 2, llama_token_to_piece := \<lambda>_ t _. if t = 1 then bytes ''<|im_end|>'' else []\<rparr>
         :: (nat, nat, nat) llama_api) (new_LlamaState\<lparr>model := Some 0\<rparr>)) \<noteq> -1"
proof -
  let ?api = "undefined\<lparr>llama_vocab_n_tokens := \<lambda>_. 2, llama_token_to_piece := \<lambda>_ t _. if t = 1 then bytes ''<|im_end|>'' else []\<rparr>
     :: (nat, nat, nat) llama_api"
  show ?thesis
  proof
    assume none: "token_im_end (scanSpecialTokens ?api (new_LlamaState\<lparr>model := Some 0\<rparr>)) = -1"
    have "1 < llama_vocab_n_tokens ?api 0 \<longrightarrow> llama_token_to_piece ?api 0 (int 1) False \<noteq> bytes ''<|im_end|>''"
      using scanSpecialTokens_correct [OF _ _ _ refl, of "new_LlamaState\<lparr>model := Some 0\<rparr>" 0 ?api] none
      by (auto simp: new_LlamaState_def simp del: One_nat_def dest: spec [of _ 1])
    then show False by simp
  qed
qed

text \<open>Unloading right after the context is prepared leaks the batch: \<open>cleanup\<close> frees it only when
  tokens are pending in it.  Everything else is given back.\<close>

theorem unload_after_prepare_leaks_batch:
  assumes "loadModel api env False pc opens nCtx nBatch mm p ch initial_world = (0, w1)"
    and "prepareContext api True w1 = (0, w2)"
  shows "live (unload w2) = \<lparr>models = 0, ctxs = 0, samplers = 0, batches = 1\<rparr>"
proof -
  have lv1: "live w1 = \<lparr>models = 1, ctxs = 0, samplers = 0, batches = 0\<rparr>"
    using assms(1)
    by (auto simp: loadModel_def initial_world_def cleanup_and_destroy_def Let_def
        split: if_splits option.splits)
  from assms(2) obtain s n m c where s: "g_state w1 = Some s" "model s = Some m"
    "w2 = w1\<lparr>g_state := Some (s\<lparr>ctx := Some c, n_ctx := n, batch := llama_batch_init (nat (n_batch s)),
             current_pos := 0, sampler := Some (llama_sampler_chain api)\<rparr>),
           live := (live w1)\<lparr>ctxs := ctxs (live w1) + 1, samplers := samplers (live w1) + 1,
                     batches := batches (live w1) + 1\<rparr>\<rparr>"
    by (auto simp: prepareContext_def split: option.splits)
  then show ?thesis
    by (simp add: lv1 unload_eq shutdown_def cleanup_and_destroy_eq destroy_def cleanup_def
        llama_batch_init_def)
qed

theorem unload_after_prepare_leaks_batch_witness:
  "live (unload (snd (prepareContext (script_api []) True (snd (loadModel (script_api []) quiet_device
     False (Some []) (\<lambda>_. True) 1024 512 True 0 True initial_world))))) =
   \<lparr>models = 0, ctxs = 0, samplers = 0, batches = 1\<rparr>"
proof -
  let ?l = "loadModel (script_api []) quiet_device False (Some []) (\<lambda>_. True) 1024 512 True 0 True initial_world"
  have l: "?l = (0, snd ?l)" by (simp add: loadModel_def script_api_def Let_def)
  have "fst (prepareContext (script_api []) True (snd ?l)) = 0"
    by (simp add: loadModel_def prepareContext_def create_context_def script_api_def Let_def)
  then show ?thesis by (intro unload_after_prepare_leaks_batch [OF l]) (simp add: prod_eq_iff)
qed

end
