(* ===== verification/Utf8_Sanitize.thy ===== *)
theory Utf8_Sanitize
  imports Prelude
begin

text \<open>
  The UTF-8 filter in front of every \<open>NewStringUTF\<close> call of the native library:
  \<open>sanitizeForJNI\<close> of \<open>ai_chat_jni.cpp\<close> and its copy in \<open>whisper_jni.cpp\<close>, and the
  replacement loop for the SentencePiece space in \<open>nativeGenerateStream\<close>.

  The loop over an index \<open>i\<close> of the first copy is a recursion over the rest of the input; the
  second copy is modelled with its index and its output buffer, and proved equal.
\<close>

section \<open>The filter\<close>

definition is_cont :: "u8 \<Rightarrow> bool" where
  "is_cont b \<longleftrightarrow> b AND 0xC0 = 0x80"

fun sanitizeForJNI :: "bytestring \<Rightarrow> bytestring" where
  "sanitizeForJNI [] = []"
| "sanitizeForJNI (c # r) =
    (if c = 0 then sanitizeForJNI r
     else if c < 0x80 then c # sanitizeForJNI r
     else if c AND 0xE0 = 0xC0 then
       (case r of
          b1 # r1 \<Rightarrow> if is_cont b1 then c # b1 # sanitizeForJNI r1 else sanitizeForJNI r
        | [] \<Rightarrow> sanitizeForJNI r)
     else if c AND 0xF0 = 0xE0 then
       (case r of
          b1 # b2 # r2 \<Rightarrow>
            if is_cont b1 \<and> is_cont b2 then c # b1 # b2 # sanitizeForJNI r2 else sanitizeForJNI r
        | _ \<Rightarrow> sanitizeForJNI r)
     else if c AND 0xF8 = 0xF0 then
       (case r of
          b1 # b2 # b3 # r3 \<Rightarrow>
            if is_cont b1 \<and> is_cont b2 \<and> is_cont b3 then c # b1 # b2 # b3 # sanitizeForJNI r3
            else sanitizeForJNI r
        | _ \<Rightarrow> sanitizeForJNI r)
     else sanitizeForJNI r)"

text \<open>
  The copy in \<open>whisper_jni.cpp\<close>, with the loop's index and output kept; bytes are read with
  \<open>!\<close> only below the length, as the guards of the source ensure.
\<close>

function sanitize_loop :: "bytestring \<Rightarrow> nat \<Rightarrow> bytestring \<Rightarrow> bytestring" where
  "sanitize_loop inp i outp =
    (if i < length inp then
       (let c = inp ! i in
        if c = 0 then sanitize_loop inp (i + 1) outp
        else if c < 0x80 then sanitize_loop inp (i + 1) (outp @ [c])
        else if c AND 0xE0 = 0xC0 then
          (if i + 1 < length inp \<and> inp ! (i + 1) AND 0xC0 = 0x80
           then sanitize_loop inp (i + 2) (outp @ [c, inp ! (i + 1)])
           else sanitize_loop inp (i + 1) outp)
        else if c AND 0xF0 = 0xE0 then
          (if i + 2 < length inp \<and> inp ! (i + 1) AND 0xC0 = 0x80
              \<and> inp ! (i + 2) AND 0xC0 = 0x80
           then sanitize_loop inp (i + 3) (outp @ [c, inp ! (i + 1), inp ! (i + 2)])
           else sanitize_loop inp (i + 1) outp)
        else if c AND 0xF8 = 0xF0 then
          (if i + 3 < length inp \<and> inp ! (i + 1) AND 0xC0 = 0x80
              \<and> inp ! (i + 2) AND 0xC0 = 0x80 \<and> inp ! (i + 3) AND 0xC0 = 0x80
           then sanitize_loop inp (i + 4)
                  (outp @ [c, inp ! (i + 1), inp ! (i + 2), inp ! (i + 3)])
           else sanitize_loop inp (i + 1) outp)
        else sanitize_loop inp (i + 1) outp)
     else outp)"
  by pat_completeness auto
termination
  by (relation "measure (\<lambda>(inp, i, outp). length inp - i)") (auto simp: Let_def)

declare sanitize_loop.simps [simp del]

definition sanitizeForJNI_whisper :: "bytestring \<Rightarrow> bytestring" where
  "sanitizeForJNI_whisper inp = sanitize_loop inp 0 []"

declare sanitizeForJNI.simps(2) [simp del]

section \<open>The shape of a filtered string\<close>

text \<open>
  The length of the sequence that starts a string: 0 when the first byte is a null byte, a stray
  continuation byte, or a lead byte whose continuation bytes are missing.
\<close>

fun seq_len :: "bytestring \<Rightarrow> nat" where
  "seq_len [] = 0"
| "seq_len (c # r) =
    (if c = 0 then 0
     else if c < 0x80 then 1
     else if c AND 0xE0 = 0xC0 then (if 1 \<le> length r \<and> is_cont (r ! 0) then 2 else 0)
     else if c AND 0xF0 = 0xE0 then
       (if 2 \<le> length r \<and> is_cont (r ! 0) \<and> is_cont (r ! 1) then 3 else 0)
     else if c AND 0xF8 = 0xF0 then
       (if 3 \<le> length r \<and> is_cont (r ! 0) \<and> is_cont (r ! 1) \<and> is_cont (r ! 2) then 4 else 0)
     else 0)"

lemma seq_len_le: "seq_len s \<le> length s"
  by (cases s) auto

declare seq_len.simps(2) [simp del]

text \<open>
  The strings the filter lets through unchanged: no null byte, and every lead byte is followed
  by as many continuation bytes as it announces.  This is the structural part of UTF-8 only.
\<close>

function well_shaped :: "bytestring \<Rightarrow> bool" where
  "well_shaped [] = True"
| "well_shaped (c # r) =
    (if seq_len (c # r) = 0 then False else well_shaped (drop (seq_len (c # r)) (c # r)))"
  by pat_completeness auto
termination
  by (relation "measure length") auto

declare well_shaped.simps(2) [simp del]

lemma seq_len_Cons:
  "seq_len (c # r) =
    (if c = 0 then 0
     else if c < 0x80 then 1
     else if c AND 0xE0 = 0xC0 then (if list_all is_cont (take 1 r) \<and> 1 \<le> length r then 2 else 0)
     else if c AND 0xF0 = 0xE0 then (if list_all is_cont (take 2 r) \<and> 2 \<le> length r then 3 else 0)
     else if c AND 0xF8 = 0xF0 then (if list_all is_cont (take 3 r) \<and> 3 \<le> length r then 4 else 0)
     else 0)"
  by (cases r; cases "tl r"; cases "tl (tl r)") (simp_all add: seq_len.simps(2))

lemma sanitize_step:
  "sanitizeForJNI (c # r) =
    (if seq_len (c # r) = 0 then sanitizeForJNI r
     else take (seq_len (c # r)) (c # r) @ sanitizeForJNI (drop (seq_len (c # r)) (c # r)))"
proof -
  have c0: "is_cont 0 = False" by (simp add: is_cont_def)
  show ?thesis
    by (simp add: sanitizeForJNI.simps(2) [of c r] seq_len.simps(2) [of c r] c0
          split: list.split)
qed

lemma seq_len_append:
  assumes "seq_len s \<noteq> 0"
  shows "seq_len (s @ t) = seq_len s"
proof (cases s)
  case (Cons c r)
  then show ?thesis using assms
    by (simp add: seq_len_Cons split: if_splits)
qed (use assms in simp)

lemma seq_len_take:
  assumes "seq_len s \<noteq> 0"
  shows "seq_len (take (seq_len s) s) = seq_len s"
proof (cases s)
  case (Cons c r)
  then show ?thesis using assms
    by (simp add: seq_len_Cons split: if_splits)
qed (use assms in simp)

lemma sanitize_induct [case_names Nil skip keep]:
  assumes nil: "P []"
    and skip: "\<And>c r. seq_len (c # r) = 0 \<Longrightarrow> P r \<Longrightarrow> P (c # r)"
    and keep: "\<And>u r. u \<noteq> [] \<Longrightarrow> seq_len (u @ r) = length u \<Longrightarrow> P r \<Longrightarrow> P (u @ r)"
  shows "P s"
proof (induction s rule: length_induct)
  case (1 s)
  show ?case
  proof (cases s)
    case (Cons c r)
    show ?thesis
    proof (cases "seq_len s = 0")
      case True
      with "1.IH" Cons show ?thesis by (auto intro: skip)
    next
      case False
      let ?n = "seq_len s"
      have "P (drop ?n s)" using "1.IH" False Cons by auto
      moreover have "take ?n s \<noteq> []" using False Cons by simp
      moreover have "seq_len (take ?n s @ drop ?n s) = length (take ?n s)"
        using seq_len_le [of s] by simp
      ultimately have "P (take ?n s @ drop ?n s)" by (intro keep)
      then show ?thesis by simp
    qed
  qed (simp add: nil)
qed

lemma sanitize_skip: "seq_len (c # r) = 0 \<Longrightarrow> sanitizeForJNI (c # r) = sanitizeForJNI r"
  by (simp add: sanitize_step)

lemma sanitize_keep:
  assumes "u \<noteq> []" "seq_len (u @ r) = length u"
  shows "sanitizeForJNI (u @ r) = u @ sanitizeForJNI r"
  using assms by (cases u) (auto simp: sanitize_step)

lemma well_shaped_keep:
  assumes "u \<noteq> []" "seq_len (u @ r) = length u"
  shows "well_shaped (u @ r) = well_shaped r"
  using assms by (cases u) (auto simp: well_shaped.simps(2))

lemma well_shaped_skip: "seq_len (c # r) = 0 \<Longrightarrow> \<not> well_shaped (c # r)"
  by (simp add: well_shaped.simps(2))

lemma seq_len_unit:
  assumes "u \<noteq> []" "seq_len (u @ r) = length u"
  shows "seq_len (u @ t) = length u"
  using assms seq_len_take [of "u @ r"] seq_len_append [of u t] by simp

lemma well_shaped_sanitize: "well_shaped (sanitizeForJNI s)"
proof (induction s rule: sanitize_induct)
  case (keep u r)
  then show ?case
    by (simp add: sanitize_keep well_shaped_keep seq_len_unit)
qed (simp_all add: sanitize_skip)

lemma sanitize_fixes_well_shaped: "well_shaped s \<Longrightarrow> sanitizeForJNI s = s"
  by (induction s rule: sanitize_induct)
     (simp_all add: sanitize_keep well_shaped_keep well_shaped_skip)

lemma subseq_sanitize: "subseq (sanitizeForJNI s) s"
  by (induction s rule: sanitize_induct)
     (simp_all add: sanitize_keep sanitize_skip subseq_drop_left list_emb_append_mono)

lemma sanitize_well_shaped_append:
  "well_shaped s \<Longrightarrow> sanitizeForJNI (s @ t) = s @ sanitizeForJNI t"
proof (induction s rule: sanitize_induct)
  case (keep u r)
  then show ?case
    using sanitize_keep [of u "r @ t"] seq_len_unit [of u r "r @ t"]
    by (simp add: well_shaped_keep)
qed (simp_all add: well_shaped_skip)

lemma well_shaped_append: "well_shaped s \<Longrightarrow> well_shaped t \<Longrightarrow> well_shaped (s @ t)"
  using sanitize_well_shaped_append [of s t] sanitize_fixes_well_shaped [of t]
    well_shaped_sanitize [of "s @ t"] by simp

lemma seq_len_unit_no_zero:
  assumes "u \<noteq> []" "seq_len u = length u"
  shows "0 \<notin> set u"
proof (cases u)
  case (Cons c r)
  have c0: "is_cont 0 = False" by (simp add: is_cont_def)
  show ?thesis using assms Cons c0
    by (auto simp: seq_len.simps(2) Suc_length_conv length_Suc_conv numeral_2_eq_2 numeral_3_eq_3
        split: if_splits)
qed (use assms in simp)

lemma well_shaped_no_zero: "well_shaped s \<Longrightarrow> 0 \<notin> set s"
proof (induction s rule: sanitize_induct)
  case (keep u r)
  have "seq_len u = length u" using seq_len_unit [OF keep(1,2), of "[]"] by simp
  with keep show ?case
    by (simp add: well_shaped_keep seq_len_unit_no_zero)
qed (simp_all add: well_shaped_skip)

section \<open>The second copy computes the same string\<close>

lemma sanitize_loop_step:
  assumes "i < length inp"
  shows "sanitize_loop inp i outp =
    (let n = seq_len (drop i inp) in
     if n = 0 then sanitize_loop inp (i + 1) outp
     else sanitize_loop inp (i + n) (outp @ take n (drop i inp)))"
proof -
  have d: "drop i inp = inp ! i # drop (Suc i) inp" using assms by (simp add: Cons_nth_drop_Suc)
  have sl: "seq_len (drop i inp) =
    (if inp ! i = 0 then 0
     else if inp ! i < 0x80 then 1
     else if inp ! i AND 0xE0 = 0xC0 then
       (if i + 1 < length inp \<and> is_cont (inp ! (i + 1)) then 2 else 0)
     else if inp ! i AND 0xF0 = 0xE0 then
       (if i + 2 < length inp \<and> is_cont (inp ! (i + 1)) \<and> is_cont (inp ! (i + 2)) then 3 else 0)
     else if inp ! i AND 0xF8 = 0xF0 then
       (if i + 3 < length inp \<and> is_cont (inp ! (i + 1)) \<and> is_cont (inp ! (i + 2))
          \<and> is_cont (inp ! (i + 3)) then 4 else 0)
     else 0)"
    unfolding d seq_len.simps(2) by (auto simp: eval_nat_numeral)
  have tk: "i + n \<le> length inp \<Longrightarrow> take n (drop i inp) = map (\<lambda>k. inp ! (i + k)) [0..<n]" for n
    by (rule take_drop_nths)
  have u: "[0..<1] = [0]" "[0..<2] = [0,1]" "[0..<3] = [0,1,2]" "[0..<4] = [0,1,2,3::nat]"
    by (simp_all add: upt_rec)
  show ?thesis
    unfolding sl sanitize_loop.simps [of inp i outp] Let_def
    using assms tk [of 1] tk [of 2] tk [of 3] tk [of 4]
    by (simp add: u is_cont_def)
qed

lemma sanitize_loop_eq:
  "sanitize_loop inp i outp = outp @ sanitizeForJNI (drop i inp)"
proof (induction "length inp - i" arbitrary: i outp rule: less_induct)
  case less
  show ?case
  proof (cases "i < length inp")
    case True
    then have d: "drop i inp = inp ! i # drop (Suc i) inp" by (simp add: Cons_nth_drop_Suc)
    let ?n = "seq_len (drop i inp)"
    have "sanitizeForJNI (drop i inp) =
      (if ?n = 0 then sanitizeForJNI (drop (Suc i) inp)
       else take ?n (drop i inp) @ sanitizeForJNI (drop (i + ?n) inp))"
      unfolding d sanitize_step by (simp add: add.commute flip: d)
    then show ?thesis
      using True less [of "i + 1"] less [of "i + ?n"]
      by (simp add: sanitize_loop_step Let_def)
  next
    case False
    then show ?thesis by (simp add: sanitize_loop.simps)
  qed
qed

section \<open>Properties\<close>

text \<open>C29: For every input, the bytes that reach \<open>NewStringUTF\<close> contain no null byte, every lead byte
  among them is followed by exactly the continuation bytes it announces, and they are the input
  with bytes left out, in order.\<close>

theorem sanitizeForJNI_safe:
  "well_shaped (sanitizeForJNI s) \<and> 0 \<notin> set (sanitizeForJNI s) \<and> subseq (sanitizeForJNI s) s"
  using well_shaped_sanitize [of s] by (simp add: well_shaped_no_zero subseq_sanitize)

text \<open>The filter changes exactly the strings that are not well shaped, so filtering twice (as a
  reply that passes two JNI layers) is filtering once.\<close>

theorem sanitizeForJNI_exact:
  "(sanitizeForJNI s = s \<longleftrightarrow> well_shaped s) \<and> sanitizeForJNI (sanitizeForJNI s) = sanitizeForJNI s"
  using well_shaped_sanitize [of s] sanitize_fixes_well_shaped [of s]
    sanitize_fixes_well_shaped [OF well_shaped_sanitize, of s] by metis

text \<open>The indexed copy of the filter in \<open>whisper_jni.cpp\<close> computes the same string as the one in
  \<open>ai_chat_jni.cpp\<close>.\<close>

theorem sanitizeForJNI_copies_agree: "sanitizeForJNI_whisper s = sanitizeForJNI s"
  by (simp add: sanitizeForJNI_whisper_def sanitize_loop_eq)

end
