(* ===== verification/Llama_Generate.thy ===== *)
theory Llama_Generate
  imports Llama_Bridge Utf8_Sanitize
begin

text \<open>
  \<open>nativeGenerateStream\<close> of \<open>ai_chat_jni.cpp\<close>: the prompt, the reuse of the key/value cache of the
  previous turn, the prefill in batches, the sampling loop and its stop conditions, and what the
  callback receives.

  Another thread may call \<open>stopGeneration\<close> at any time.  Its effect is interleaved at the points
  where the code reads \<open>should_stop\<close>: \<open>stop_prefill k\<close> and \<open>stop_loop k\<close> say whether the call
  happened just before the \<open>k\<close>-th check.  \<open>timed_out k\<close> says whether more than 240 seconds have
  passed at the \<open>k\<close>-th iteration.  The pause on a hot device changes no state and is left out.

  A result \<open>None\<close> is undefined behaviour or an uncaught exception: a write outside the batch
  arrays, a null pointer handed to the library, a prefill step of length 0, or \<open>reserve\<close> of a
  negative length.
\<close>

section \<open>Strings\<close>

text \<open>The constant in \<open>find\<close> has three bytes in single quotes: its value as a \<open>char\<close> is the last
  one, \<open>0x81\<close>.  Each such byte and the two after it become one space.\<close>

fun replace_bpe :: "bytestring \<Rightarrow> bytestring" where
  "replace_bpe [] = []"
| "replace_bpe (c # r) = (if c = 0x81 then 0x20 # replace_bpe (drop 2 r) else c # replace_bpe r)"

fun contains :: "bytestring \<Rightarrow> bytestring \<Rightarrow> bool" where
  "contains pat [] = (pat = [])"
| "contains pat (c # r) = (take (length pat) (c # r) = pat \<or> contains pat r)"

section \<open>The prompt\<close>

definition chat_messages ::
  "bytestring \<Rightarrow> (bytestring \<times> bytestring) list \<Rightarrow> bytestring
    \<Rightarrow> (bytestring \<times> bytestring) list" where
  "chat_messages sys hist promptStr =
    (if sys \<noteq> [] then [(bytes ''system'', sys)] else []) @ hist @ [(bytes ''user'', promptStr)]"

definition nl :: bytestring where
  "nl = [0x0A]"

definition chatml_fallback ::
  "bytestring \<Rightarrow> (bytestring \<times> bytestring) list \<Rightarrow> bytestring \<Rightarrow> bytestring" where
  "chatml_fallback sys hist promptStr =
    (let formatted0 = (if sys \<noteq> [] then bytes ''<|im_start|>system'' @ nl @ sys @ bytes ''<|im_end|>'' @ nl
                       else []);
         formatted1 = foldl (\<lambda>f entry. f @ bytes ''<|im_start|>'' @ fst entry @ nl @ snd entry
                                         @ bytes ''<|im_end|>'' @ nl) formatted0 hist;
         formatted2 = formatted1 @ bytes ''<|im_start|>user'' @ nl @ promptStr @ bytes ''<|im_end|>'' @ nl
     in formatted2 @ bytes ''<|im_start|>assistant'' @ nl)"

definition format_prompt ::
  "('m, 'c, 's) llama_api \<Rightarrow> 'm \<Rightarrow> bytestring \<Rightarrow> (bytestring \<times> bytestring) list \<Rightarrow> bytestring
    \<Rightarrow> bytestring" where
  "format_prompt api m sys hist promptStr =
    (let chat_template = llama_model_chat_template api m;
         messages = chat_messages sys hist promptStr;
         req_size = fst (llama_chat_apply_template api chat_template messages 0)
     in if req_size > 0 then
          (let (res, buf) = llama_chat_apply_template api chat_template messages (nat req_size + 1)
           in if res > 0 then take (nat res) buf else chatml_fallback sys hist promptStr)
        else chatml_fallback sys hist promptStr)"

section \<open>Reuse of the key/value cache\<close>

fun common_prefix :: "llama_token list \<Rightarrow> llama_token list \<Rightarrow> nat" where
  "common_prefix (x # xs) (y # ys) = (if x = y then Suc (common_prefix xs ys) else 0)"
| "common_prefix _ _ = 0"

text \<open>The position the prefill starts from, and the state with the trimmed or cleared memory.\<close>

definition reuse_cache ::
  "('m, 'c, 's) llama_api \<Rightarrow> llama_token list \<Rightarrow> 'c \<Rightarrow> ('m, 'c, 's) LlamaState
    \<Rightarrow> nat \<times> ('m, 'c, 's) LlamaState" where
  "reuse_cache api tokens c s =
    (let mem = llama_get_memory api c;
         p = common_prefix tokens (last_prompt_tokens s);
         rm = (if last_prompt_tokens s \<noteq> [] \<and> mem \<and> p > 10
               then Some (llama_memory_seq_rm api c 0 (int p) (-1)) else None);
         c1 = (case rm of None \<Rightarrow> c | Some (_, c') \<Rightarrow> c');
         reused_kv = (case rm of None \<Rightarrow> False | Some (rm_ok, _) \<Rightarrow> rm_ok)
     in if reused_kv then
          (p, s\<lparr>ctx := Some c1, current_pos := int p, batch := (batch s)\<lparr>n_tokens := 0\<rparr>\<rparr>)
        else
          (0, s\<lparr>ctx := Some (if mem then llama_memory_clear api c1 else c1), current_pos := 0,
               batch := (batch s)\<lparr>n_tokens := 0\<rparr>\<rparr>))"

section \<open>Prefill\<close>

record gen_env =
  methods_found :: bool
  locked :: bool
  stop_prefill :: "nat \<Rightarrow> bool"
  stop_loop :: "nat \<Rightarrow> bool"
  timed_out :: "nat \<Rightarrow> bool"

primrec add_tokens :: "llama_token list \<Rightarrow> nat list \<Rightarrow> llama_batch \<Rightarrow> llama_batch option" where
  "add_tokens tokens [] b = Some b"
| "add_tokens tokens (q # qs) b =
    (case batch_add b (tokens ! q) (int q) [0] (int q = int (length tokens) - 1) of
       None \<Rightarrow> None
     | Some b' \<Rightarrow> add_tokens tokens qs b')"

datatype ('m, 'c, 's) prefill_result =
    Prefilled "('m, 'c, 's) LlamaState"
  | Decode_Failed "('m, 'c, 's) LlamaState"

definition decode_batch ::
  "('m, 'c, 's) llama_api \<Rightarrow> ('m, 'c, 's) LlamaState \<Rightarrow> llama_batch
    \<Rightarrow> (bool \<times> ('m, 'c, 's) LlamaState) option" where
  "decode_batch api s b =
    (case ctx s of
       None \<Rightarrow> None
     | Some c \<Rightarrow>
         (let (rc, c') = llama_decode api c b in Some (rc = 0, s\<lparr>batch := b, ctx := Some c'\<rparr>)))"

text \<open>\<open>i\<close> is the loop variable, \<open>k\<close> counts the iterations.  The source computes them as \<open>int\<close>; they are
  natural numbers here.  The two agree as long as the number of tokens plus the batch size stays below
  2 ^ 31; beyond that \<open>i += n_batch\<close> would overflow, and nothing is claimed of the code.\<close>

function prefill ::
  "('m, 'c, 's) llama_api \<Rightarrow> gen_env \<Rightarrow> llama_token list \<Rightarrow> nat \<Rightarrow> nat \<Rightarrow> nat
    \<Rightarrow> ('m, 'c, 's) LlamaState \<Rightarrow> ('m, 'c, 's) prefill_result option" where
  "prefill api ge tokens nb k i s =
    (if i < length tokens then
       (let s = (if stop_prefill ge k then request_stop api s else s) in
        if should_stop s then Some (Prefilled s)
        else if nb = 0 then None
        else
          (let cur_batch_size = min (length tokens - i) nb in
           case add_tokens tokens [i..<i + cur_batch_size] ((batch s)\<lparr>n_tokens := 0\<rparr>) of
             None \<Rightarrow> None
           | Some b \<Rightarrow>
               (case decode_batch api s b of
                  None \<Rightarrow> None
                | Some (ok, s') \<Rightarrow>
                    if ok then prefill api ge tokens nb (k + 1) (i + nb) s'
                    else Some (Decode_Failed s'))))
     else Some (Prefilled s))"
  by pat_completeness auto
termination
  by (relation "measure (\<lambda>(api, ge, tokens, nb, k, i, s). length tokens - i)") auto

declare prefill.simps [simp del]

section \<open>The sampling loop\<close>

record ('m, 'c, 's) gen_state =
  gs :: "('m, 'c, 's) LlamaState"
  n_gen :: nat
  response :: bytestring
  emitted :: "bytestring list"
  generated_tokens :: "llama_token list"
  last_token :: llama_token
  repeat_count :: nat

text \<open>Decoding the new token; the result says whether the loop goes on.\<close>

definition decode_new ::
  "('m, 'c, 's) llama_api \<Rightarrow> llama_token \<Rightarrow> ('m, 'c, 's) gen_state
    \<Rightarrow> (('m, 'c, 's) gen_state \<times> bool) option" where
  "decode_new api t g =
    (case batch_add ((batch (gs g))\<lparr>n_tokens := 0\<rparr>) t (current_pos (gs g) + int (n_gen g)) [0] True of
       None \<Rightarrow> None
     | Some b \<Rightarrow>
         (case decode_batch api (gs g) b of
            None \<Rightarrow> None
          | Some (ok, s') \<Rightarrow>
              Some (if ok then (g\<lparr>gs := s', n_gen := n_gen g + 1\<rparr>, True) else (g\<lparr>gs := s'\<rparr>, False))))"

definition emit_piece :: "bytestring \<Rightarrow> ('m, 'c, 's) gen_state \<Rightarrow> ('m, 'c, 's) gen_state" where
  "emit_piece display_str g =
    (let sanitized = sanitizeForJNI display_str in
     if sanitized \<noteq> []
     then g\<lparr>emitted := emitted g @ [sanitized], response := response g @ sanitized\<rparr> else g)"

definition is_stop_string :: "bytestring \<Rightarrow> bool" where
  "is_stop_string display_str \<longleftrightarrow>
    contains (bytes ''<|im_start|>'') display_str
    \<or> contains (bytes ''--EndConversation--'') display_str"

text \<open>The part of an iteration after the checks on the token's id.\<close>

definition accept_token ::
  "('m, 'c, 's) llama_api \<Rightarrow> 'm \<Rightarrow> llama_token \<Rightarrow> ('m, 'c, 's) gen_state
    \<Rightarrow> (('m, 'c, 's) gen_state \<times> bool) option" where
  "accept_token api m t g =
    (let g = g\<lparr>generated_tokens := generated_tokens g @ [t]\<rparr>;
         piece = llama_token_to_piece api m t True
     in if piece = [] then decode_new api t g
        else
          (let display_str = replace_bpe piece in
           if is_stop_string display_str then Some (g, False)
           else
             (case decode_new api t (emit_piece display_str g) of
                None \<Rightarrow> None
              | Some (g', ok) \<Rightarrow>
                  Some (if ok then (g'\<lparr>gs := (gs g')\<lparr>tokens_generated := int (n_gen g')\<rparr>\<rparr>, True)
                        else (g', False)))))"

definition gen_iter ::
  "('m, 'c, 's) llama_api \<Rightarrow> 'm \<Rightarrow> ('m, 'c, 's) gen_state
    \<Rightarrow> (('m, 'c, 's) gen_state \<times> bool) option" where
  "gen_iter api m g =
    (case (sampler (gs g), ctx (gs g)) of
       (Some smp, Some c) \<Rightarrow>
         (let (new_token, smp') = llama_sampler_sample api smp c;
              g = g\<lparr>gs := (gs g)\<lparr>sampler := Some smp'\<rparr>\<rparr>
          in if new_token = token_im_start (gs g) then Some (g, False)
             else if llama_vocab_is_eog api m new_token then Some (g, False)
             else if new_token = last_token g then
               (let g = g\<lparr>repeat_count := repeat_count g + 1\<rparr> in
                if repeat_count g \<ge> 3 then Some (g, False) else accept_token api m new_token g)
             else accept_token api m new_token (g\<lparr>repeat_count := 0, last_token := new_token\<rparr>))
     | _ \<Rightarrow> None)"

text \<open>Each iteration that goes on has one more token: \<open>maxTokens\<close> iterations are enough fuel.\<close>

fun gen_loop ::
  "('m, 'c, 's) llama_api \<Rightarrow> 'm \<Rightarrow> gen_env \<Rightarrow> int \<Rightarrow> nat \<Rightarrow> ('m, 'c, 's) gen_state
    \<Rightarrow> ('m, 'c, 's) gen_state option" where
  "gen_loop api m ge maxTokens fuel g =
    (let g = (if stop_loop ge (n_gen g) then g\<lparr>gs := request_stop api (gs g)\<rparr> else g) in
     if int (n_gen g) < maxTokens \<and> \<not> should_stop (gs g) then
       if timed_out ge (n_gen g) then Some g
       else
         (case fuel of
            0 \<Rightarrow> None
          | Suc f \<Rightarrow>
              (case gen_iter api m g of
                 None \<Rightarrow> None
               | Some (g', True) \<Rightarrow> gen_loop api m ge maxTokens f g'
               | Some (g', False) \<Rightarrow> Some g'))
     else Some g)"

declare gen_loop.simps [simp del]

section \<open>The call\<close>

datatype completion = On_Complete bytestring | On_Complete_Without_Argument

record gen_result =
  returned :: bytestring
  on_token :: "bytestring list"
  on_complete :: "completion list"

definition early_return :: "completion list \<Rightarrow> gen_result" where
  "early_return cs = \<lparr>returned = [], on_token = [], on_complete = cs\<rparr>"

definition resize_tokens :: "nat \<Rightarrow> llama_token list \<Rightarrow> llama_token list" where
  "resize_tokens n xs = take n xs @ replicate (n - length xs) 0"

text \<open>From the tokenised prompt to the result, with the mutex held.\<close>

definition run_generation ::
  "('m, 'c, 's) llama_api \<Rightarrow> gen_env \<Rightarrow> 'm \<Rightarrow> llama_token list \<Rightarrow> int \<Rightarrow> 'c
    \<Rightarrow> ('m, 'c, 's) LlamaState \<Rightarrow> (gen_result \<times> ('m, 'c, 's) LlamaState) option" where
  "run_generation api ge m tokens maxTokens c s =
    (let (start_i, s1) = reuse_cache api tokens c s in
     case prefill api ge tokens (nat (n_batch s1)) 0 start_i s1 of
       None \<Rightarrow> None
     | Some (Decode_Failed s2) \<Rightarrow> Some (early_return [On_Complete []], s2)
     | Some (Prefilled s2) \<Rightarrow>
         (case sampler s2 of
            None \<Rightarrow> None
          | Some smp \<Rightarrow>
              if maxTokens < 0 then None
              else
                (let s3 = s2\<lparr>current_pos := int (length tokens),
                            sampler := Some (llama_sampler_reset api smp),
                            is_generating := True, should_stop := False, tokens_generated := 0\<rparr>
                 in case gen_loop api m ge maxTokens (nat maxTokens)
                           \<lparr>gs = s3, n_gen = 0, response = [], emitted = [],
                            generated_tokens = [], last_token = -1, repeat_count = 0\<rparr> of
                      None \<Rightarrow> None
                    | Some g \<Rightarrow>
                        Some (\<lparr>returned = sanitizeForJNI (response g), on_token = emitted g,
                               on_complete = [On_Complete (response g)]\<rparr>,
                              (gs g)\<lparr>is_generating := False,
                                     last_prompt_tokens := tokens @ generated_tokens g\<rparr>))))"

definition nativeGenerateStream ::
  "('m, 'c, 's) llama_api \<Rightarrow> gen_env \<Rightarrow> bytestring \<Rightarrow> int \<Rightarrow> ('m, 'c, 's) llama_world
    \<Rightarrow> (gen_result \<times> ('m, 'c, 's) llama_world) option" where
  "nativeGenerateStream api ge promptStr maxTokens w =
    (case g_state w of
       None \<Rightarrow> Some (early_return [], w)
     | Some s0 \<Rightarrow>
         (case ctx s0 of
            None \<Rightarrow> Some (early_return [], w)
          | Some c \<Rightarrow>
              if \<not> methods_found ge then Some (early_return [], w)
              else if \<not> locked ge then Some (early_return [On_Complete_Without_Argument], w)
              else
                (case model s0 of
                   None \<Rightarrow> None
                 | Some m \<Rightarrow>
                     (let formatted = format_prompt api m (g_system_prompt w) (history s0) promptStr;
                          s = s0\<lparr>should_stop := False\<rparr>;
                          (n, buf) = llama_tokenize api m formatted (nat (n_ctx s))
                      in if n < 0
                         then Some (early_return [On_Complete_Without_Argument], w\<lparr>g_state := Some s\<rparr>)
                         else
                           (case run_generation api ge m (resize_tokens (nat n) buf) maxTokens c s of
                              None \<Rightarrow> None
                            | Some (r, s') \<Rightarrow> Some (r, w\<lparr>g_state := Some s'\<rparr>))))))"

definition nativeGenerate ::
  "('m, 'c, 's) llama_api \<Rightarrow> gen_env \<Rightarrow> bytestring \<Rightarrow> ('m, 'c, 's) llama_world
    \<Rightarrow> (gen_result \<times> ('m, 'c, 's) llama_world) option" where
  "nativeGenerate api ge userPrompt w = nativeGenerateStream api ge userPrompt 256 w"

section \<open>What the library does to its memory\<close>

text \<open>
  The documented effect of the library on the positions held for sequence 0, for a view \<open>kv\<close> of
  the context: clearing empties it, removal from \<open>p\<close> on keeps what is below \<open>p\<close>, decoding
  stores the rows of the batch, and a decode that fails may leave a part of them.
\<close>

type_synonym kv_view = "int \<Rightarrow> llama_token option"

definition store_rows :: "kv_view \<Rightarrow> (llama_token \<times> int \<times> int list \<times> bool) list \<Rightarrow> kv_view" where
  "store_rows m rows = foldl (\<lambda>m (t, p, _). m(p \<mapsto> t)) m rows"

definition kv_laws :: "('m, 'c, 's) llama_api \<Rightarrow> ('c \<Rightarrow> kv_view) \<Rightarrow> bool" where
  "kv_laws api kv \<longleftrightarrow>
    (\<forall>c. llama_get_memory api c)
    \<and> (\<forall>c. kv (llama_memory_clear api c) = (\<lambda>_. None))
    \<and> (\<forall>c p. fst (llama_memory_seq_rm api c 0 p (-1)) \<longrightarrow>
         kv (snd (llama_memory_seq_rm api c 0 p (-1))) = (\<lambda>q. if q < p then kv c q else None))
    \<and> (\<forall>c b. fst (llama_decode api c b) = 0 \<longrightarrow>
         kv (snd (llama_decode api c b)) = store_rows (kv c) (batch_rows b))
    \<and> (\<forall>c b. \<exists>j. kv (snd (llama_decode api c b)) = store_rows (kv c) (take j (batch_rows b)))"

definition cached :: "llama_token list \<Rightarrow> kv_view" where
  "cached ts = (\<lambda>p. if 0 \<le> p \<and> p < int (length ts) then Some (ts ! nat p) else None)"

definition state_kv :: "('c \<Rightarrow> kv_view) \<Rightarrow> ('m, 'c, 's) LlamaState \<Rightarrow> kv_view" where
  "state_kv kv s = (case ctx s of None \<Rightarrow> (\<lambda>_. None) | Some c \<Rightarrow> kv c)"

lemma store_rows_Nil [simp]: "store_rows m [] = m"
  by (simp add: store_rows_def)

lemma store_rows_append: "store_rows m (xs @ ys) = store_rows (store_rows m xs) ys"
  by (simp add: store_rows_def)

lemma cached_Nil [simp]: "cached [] = (\<lambda>_. None)"
  by (simp add: cached_def fun_eq_iff)

lemma cached_snoc: "(cached ts)(int (length ts) \<mapsto> t) = cached (ts @ [t])"
  by (auto simp: cached_def fun_eq_iff nth_append)

lemma cached_take: "p \<le> length ts \<Longrightarrow>
  (\<lambda>q. if q < int p then cached ts q else None) = cached (take p ts)"
  by (auto simp: cached_def fun_eq_iff)

lemma store_rows_cached:
  assumes "i + n \<le> length ts"
  shows "store_rows (cached (take i ts)) (map (\<lambda>q. (ts ! q, int q, sq, lg q)) [i..<i + n])
    = cached (take (i + n) ts)"
  using assms
proof (induction n)
  case (Suc n)
  then have l: "length (take (i + n) ts) = i + n" by simp
  have "store_rows (cached (take i ts)) (map (\<lambda>q. (ts ! q, int q, sq, lg q)) [i..<i + Suc n])
      = (cached (take (i + n) ts))(int (i + n) \<mapsto> ts ! (i + n))"
    using Suc by (simp add: store_rows_append) (simp add: store_rows_def)
  also have "\<dots> = cached (take (i + n) ts @ [ts ! (i + n)])"
    using cached_snoc [of "take (i + n) ts"] unfolding l by simp
  also have "\<dots> = cached (take (i + Suc n) ts)"
    using Suc.prems take_Suc_snoc [of "i + n" ts] by simp
  finally show ?case .
qed simp

section \<open>Frames and running states\<close>

text \<open>The fields a generation leaves alone until its end.\<close>

definition frame :: "('m, 'c, 's) LlamaState \<Rightarrow>
    'm option \<times> int \<times> int \<times> int \<times> int \<times> (bytestring \<times> bytestring) list \<times> llama_token list
    \<times> llama_token \<times> llama_token" where
  "frame s = (model s, n_threads s, n_batch s, n_ubatch s, n_ctx s, history s,
     last_prompt_tokens s, token_im_end s, token_im_start s)"

definition running :: "nat \<Rightarrow> ('m, 'c, 's) LlamaState \<Rightarrow> bool" where
  "running cap s \<longleftrightarrow> ctx s \<noteq> None \<and> sampler s \<noteq> None \<and> batch_wf cap (batch s)"

lemma running_stop [simp]: "running cap (request_stop api s) = running cap s"
  by (simp add: running_def request_stop_def)

lemma frame_stop [simp]: "frame (request_stop api s) = frame s"
  by (simp add: frame_def request_stop_def)

lemma current_pos_stop [simp]: "current_pos (request_stop api s) = current_pos s"
  "is_generating (request_stop api s) = is_generating s"
  by (simp_all add: request_stop_def)

lemma frame_updates [simp]:
  "frame (s\<lparr>ctx := c\<rparr>) = frame s" "frame (s\<lparr>batch := b\<rparr>) = frame s"
  "frame (s\<lparr>sampler := sm\<rparr>) = frame s" "frame (s\<lparr>should_stop := st\<rparr>) = frame s"
  "frame (s\<lparr>current_pos := q\<rparr>) = frame s" "frame (s\<lparr>tokens_generated := n\<rparr>) = frame s"
  "frame (s\<lparr>is_generating := ig\<rparr>) = frame s"
  by (simp_all add: frame_def)

lemma running_updates [simp]:
  "running cap (s\<lparr>should_stop := st\<rparr>) = running cap s"
  "running cap (s\<lparr>current_pos := q\<rparr>) = running cap s"
  "running cap (s\<lparr>tokens_generated := n\<rparr>) = running cap s"
  "running cap (s\<lparr>is_generating := ig\<rparr>) = running cap s"
  "running cap s \<Longrightarrow> running cap (s\<lparr>sampler := Some sm\<rparr>)"
  by (simp_all add: running_def)

lemma decode_batch_ok:
  assumes "running cap s" "batch_wf cap b"
  obtains ok s' where "decode_batch api s b = Some (ok, s')" "running cap s'" "frame s' = frame s"
    "current_pos s' = current_pos s" "should_stop s' = should_stop s"
    "is_generating s' = is_generating s"
proof -
  obtain c where c: "ctx s = Some c" using assms by (auto simp: running_def)
  obtain rc c' where d: "llama_decode api c b = (rc, c')" by (cases "llama_decode api c b")
  show thesis
    by (rule that [of "rc = 0" "s\<lparr>batch := b, ctx := Some c'\<rparr>"])
       (use assms in \<open>simp_all add: decode_batch_def c d running_def\<close>)
qed

lemma decode_batch_kv:
  assumes "kv_laws api kv" "decode_batch api s b = Some (ok, s')"
  shows "\<exists>j. state_kv kv s' = store_rows (state_kv kv s) (take j (batch_rows b))"
    and "ok \<Longrightarrow> state_kv kv s' = store_rows (state_kv kv s) (batch_rows b)"
proof -
  obtain c rc c' where c: "ctx s = Some c" "llama_decode api c b = (rc, c')"
    "s' = s\<lparr>batch := b, ctx := Some c'\<rparr>" "ok = (rc = 0)"
    using assms(2) by (auto simp: decode_batch_def split: option.splits prod.splits)
  have "\<exists>j. kv c' = store_rows (kv c) (take j (batch_rows b))"
    using assms(1) c(2) unfolding kv_laws_def by (metis snd_conv)
  then show "\<exists>j. state_kv kv s' = store_rows (state_kv kv s) (take j (batch_rows b))"
    by (simp add: state_kv_def c)
  have "rc = 0 \<Longrightarrow> kv c' = store_rows (kv c) (batch_rows b)"
    using assms(1) c(2) unfolding kv_laws_def by (metis fst_conv snd_conv)
  then show "ok \<Longrightarrow> state_kv kv s' = store_rows (state_kv kv s) (batch_rows b)"
    by (simp add: state_kv_def c)
qed

lemma add_tokens_ok:
  assumes "batch_wf cap b" "n_tokens b + length qs \<le> cap"
  obtains b' where "add_tokens tokens qs b = Some b'" "batch_wf cap b'"
    "batch_rows b' = batch_rows b
       @ map (\<lambda>q. (tokens ! q, int q, [0], int q = int (length tokens) - 1)) qs"
  using assms
proof (induction qs arbitrary: b thesis)
  case (Cons q qs)
  obtain b1 where b1: "batch_add b (tokens ! q) (int q) [0] (int q = int (length tokens) - 1) = Some b1"
    "batch_wf cap b1" "n_tokens b1 = n_tokens b + 1"
    "batch_rows b1 = batch_rows b @ [(tokens ! q, int q, [0], int q = int (length tokens) - 1)]"
    by (rule batch_add_ok [of cap b]) (use Cons.prems in auto)
  obtain b' where "add_tokens tokens qs b1 = Some b'" "batch_wf cap b'"
    "batch_rows b' = batch_rows b1
       @ map (\<lambda>q. (tokens ! q, int q, [0], int q = int (length tokens) - 1)) qs"
    by (rule Cons.IH [of b1]) (use Cons.prems b1 in auto)
  then show ?case by (intro Cons.prems(1) [of b']) (simp_all add: b1)
qed simp

section \<open>Prefill\<close>

primrec prefill_state :: "('m, 'c, 's) prefill_result \<Rightarrow> ('m, 'c, 's) LlamaState" where
  "prefill_state (Prefilled s) = s"
| "prefill_state (Decode_Failed s) = s"

definition interleave_stop ::
  "('m, 'c, 's) llama_api \<Rightarrow> bool \<Rightarrow> ('m, 'c, 's) LlamaState \<Rightarrow> ('m, 'c, 's) LlamaState" where
  "interleave_stop api b s = (if b then request_stop api s else s)"

lemma interleave_stop_simps [simp]:
  "running cap (interleave_stop api b s) = running cap s"
  "frame (interleave_stop api b s) = frame s"
  "current_pos (interleave_stop api b s) = current_pos s"
  "is_generating (interleave_stop api b s) = is_generating s"
  "interleave_stop api False s = s"
  by (simp_all add: interleave_stop_def)

lemma prefill_end: "length tokens \<le> i \<Longrightarrow> prefill api ge tokens nb k i s = Some (Prefilled s)"
  by (subst prefill.simps) simp

lemma prefill_stopped:
  assumes "i < length tokens" "should_stop (interleave_stop api (stop_prefill ge k) s)"
  shows "prefill api ge tokens nb k i s
    = Some (Prefilled (interleave_stop api (stop_prefill ge k) s))"
  using assms by (subst prefill.simps) (simp add: interleave_stop_def Let_def)

lemma prefill_step:
  assumes i: "i < length tokens" and cap: "running cap s" "1 \<le> cap"
    and go: "\<not> should_stop (interleave_stop api (stop_prefill ge k) s)"
  obtains b ok s' where "batch_wf cap b"
    "batch_rows b = map (\<lambda>q. (tokens ! q, int q, [0], int q = int (length tokens) - 1))
       [i..<i + min (length tokens - i) cap]"
    "decode_batch api (interleave_stop api (stop_prefill ge k) s) b = Some (ok, s')"
    "running cap s'" "frame s' = frame s" "is_generating s' = is_generating s"
    "\<not> should_stop s'"
    "prefill api ge tokens cap k i s =
       (if ok then prefill api ge tokens cap (k + 1) (i + cap) s' else Some (Decode_Failed s'))"
proof -
  let ?s = "interleave_stop api (stop_prefill ge k) s"
  let ?n = "min (length tokens - i) cap"
  have r: "running cap ?s" using cap by simp
  then have wf: "batch_wf cap ((batch ?s)\<lparr>n_tokens := 0\<rparr>)"
    by (simp add: running_def batch_wf_reset)
  obtain b where b: "add_tokens tokens [i..<i + ?n] ((batch ?s)\<lparr>n_tokens := 0\<rparr>) = Some b"
    "batch_wf cap b"
    "batch_rows b = map (\<lambda>q. (tokens ! q, int q, [0], int q = int (length tokens) - 1)) [i..<i + ?n]"
    by (rule add_tokens_ok [OF wf, of "[i..<i + ?n]" tokens]) auto
  obtain ok s' where d: "decode_batch api ?s b = Some (ok, s')" "running cap s'" "frame s' = frame ?s"
    "should_stop s' = should_stop ?s" "is_generating s' = is_generating ?s"
    by (rule decode_batch_ok [OF r b(2)]) auto
  show thesis
  proof (rule that [of b ok s'])
    show "prefill api ge tokens cap k i s =
       (if ok then prefill api ge tokens cap (k + 1) (i + cap) s' else Some (Decode_Failed s'))"
      using i cap go b(1) d(1)
      by (subst prefill.simps) (simp add: interleave_stop_def Let_def)
  qed (use b d go in simp_all)
qed

lemma prefill_ok:
  assumes "running cap s" "1 \<le> cap"
  shows "\<exists>r. prefill api ge tokens cap k i s = Some r \<and> running cap (prefill_state r)
    \<and> frame (prefill_state r) = frame s \<and> is_generating (prefill_state r) = is_generating s"
  using assms
proof (induction "length tokens - i" arbitrary: k i s rule: less_induct)
  case less
  show ?case
  proof (cases "i < length tokens \<and> \<not> should_stop (interleave_stop api (stop_prefill ge k) s)")
    case True
    then obtain b ok s' where st: "running cap s'" "frame s' = frame s"
      "is_generating s' = is_generating s"
      "prefill api ge tokens cap k i s =
         (if ok then prefill api ge tokens cap (k + 1) (i + cap) s' else Some (Decode_Failed s'))"
      using prefill_step [of i tokens cap s api ge k] less.prems by metis
    then show ?thesis
      using less.hyps [of "i + cap" s' "k + 1"] True less.prems by (cases ok) auto
  next
    case False
    then show ?thesis
      using less.prems by (cases "i < length tokens") (auto simp: prefill_end prefill_stopped)
  qed
qed

text \<open>Without a stop request, a prefill that starts with the first \<open>i\<close> tokens in the cache and
  decodes every batch ends with all of them there.\<close>

lemma prefill_kv:
  assumes laws: "kv_laws api kv" and nostop: "\<And>k. \<not> stop_prefill ge k"
  shows "running cap s \<Longrightarrow> 1 \<le> cap \<Longrightarrow> \<not> should_stop s \<Longrightarrow> i \<le> length tokens \<Longrightarrow>
    state_kv kv s = cached (take i tokens) \<Longrightarrow>
    prefill api ge tokens cap k i s = Some (Prefilled s') \<Longrightarrow>
    state_kv kv s' = cached tokens"
proof (induction "length tokens - i" arbitrary: k i s rule: less_induct)
  case less
  show ?case
  proof (cases "i < length tokens")
    case True
    let ?n = "min (length tokens - i) cap"
    have ns: "interleave_stop api (stop_prefill ge k) s = s" by (simp add: nostop)
    obtain b ok s1 where st: "batch_rows b = map (\<lambda>q. (tokens ! q, int q, [0], int q = int (length tokens) - 1))
         [i..<i + ?n]"
      "decode_batch api s b = Some (ok, s1)" "running cap s1" "\<not> should_stop s1"
      "prefill api ge tokens cap k i s =
         (if ok then prefill api ge tokens cap (k + 1) (i + cap) s1 else Some (Decode_Failed s1))"
    proof (rule prefill_step [of i tokens cap s api ge k, unfolded ns])
      show "\<not> should_stop s" by (rule less.prems)
    qed (use less.prems True in blast)+
    then have ok: "ok" using less.prems(6) by (cases ok) auto
    have "state_kv kv s1 = store_rows (cached (take i tokens)) (batch_rows b)"
      using decode_batch_kv(2) [OF laws st(2) ok] less.prems(5) by simp
    also have "\<dots> = cached (take (i + ?n) tokens)"
      unfolding st(1) by (rule store_rows_cached) (use True in linarith)
    finally have kv1: "state_kv kv s1 = cached (take (i + ?n) tokens)" .
    show ?thesis
    proof (cases "i + cap \<le> length tokens")
      case le: True
      then show ?thesis
        using less.hyps [of "i + cap" s1 "k + 1"] st ok kv1 less.prems True by (simp add: min_def)
    next
      case False
      then have "s' = s1" using st(5) ok less.prems(6) by (simp add: prefill_end)
      with kv1 False show ?thesis by simp
    qed
  next
    case False
    with less.prems show ?thesis by (simp add: prefill_end)
  qed
qed

lemma common_prefix_le: "common_prefix xs ys \<le> length xs" "common_prefix xs ys \<le> length ys"
  by (induction xs ys rule: common_prefix.induct) auto

lemma common_prefix_take:
  "p \<le> common_prefix xs ys \<Longrightarrow> take p xs = take p ys"
proof (induction xs ys arbitrary: p rule: common_prefix.induct)
  case (1 x xs y ys)
  then show ?case by (cases p) (auto split: if_splits)
qed auto

lemma reuse_cache_ok:
  assumes "reuse_cache api tokens c s = (i, s')" "running cap s" "ctx s = Some c"
  shows "running cap s'" "frame s' = frame s" "i \<le> length tokens"
    "should_stop s' = should_stop s" "is_generating s' = is_generating s"
  using assms common_prefix_le [of tokens "last_prompt_tokens s"]
  by (auto simp: reuse_cache_def running_def Let_def batch_wf_reset frame_def
      split: if_splits prod.splits option.splits)

text \<open>The cache holds the first \<open>n\<close> of the remembered tokens; trimming is sound up to there.\<close>

lemma reuse_cache_kv:
  assumes laws: "kv_laws api kv" and r: "reuse_cache api tokens c s = (i, s')"
    and kv: "kv c = cached (take n (last_prompt_tokens s))"
    and n: "common_prefix tokens (last_prompt_tokens s) \<le> n"
  shows "state_kv kv s' = cached (take i tokens)"
proof -
  let ?p = "common_prefix tokens (last_prompt_tokens s)"
  obtain rm_ok c' where rm: "llama_memory_seq_rm api c 0 (int ?p) (-1) = (rm_ok, c')"
    by (metis surj_pair)
  have mem: "llama_get_memory api d" "kv (llama_memory_clear api d) = (\<lambda>_. None)" for d
    using laws by (simp_all add: kv_laws_def)
  show ?thesis
  proof (cases "last_prompt_tokens s \<noteq> [] \<and> ?p > 10 \<and> rm_ok")
    case True
    have "kv c' = (\<lambda>q. if q < int ?p then kv c q else None)"
      using laws rm True unfolding kv_laws_def by (metis fst_conv snd_conv)
    also have "\<dots> = cached (take ?p (take n (last_prompt_tokens s)))"
      unfolding kv by (rule cached_take) (use n common_prefix_le(2) in simp)
    also have "\<dots> = cached (take ?p tokens)"
      using n common_prefix_take [of ?p tokens "last_prompt_tokens s"] by (simp add: min_absorb1)
    finally show ?thesis
      using r True by (auto simp: reuse_cache_def mem rm state_kv_def Let_def)
  next
    case False
    then have "i = 0" "state_kv kv s' = (\<lambda>_. None)"
      using r by (auto simp: reuse_cache_def mem rm state_kv_def Let_def split: if_splits)
    then show ?thesis by simp
  qed
qed

section \<open>The sampling loop\<close>

text \<open>What every iteration keeps: the reply is what was emitted, and each token that was decoded
  was recorded first.\<close>

definition gen_ok :: "nat \<Rightarrow> ('m, 'c, 's) gen_state \<Rightarrow> bool" where
  "gen_ok cap g \<longleftrightarrow> running cap (gs g) \<and> response g = concat (emitted g)
    \<and> (\<forall>e \<in> set (emitted g). e \<noteq> [] \<and> well_shaped e)
    \<and> n_gen g \<le> length (generated_tokens g) \<and> length (generated_tokens g) \<le> n_gen g + 1
    \<and> length (emitted g) \<le> length (generated_tokens g)"

text \<open>The cache of a running generation: the prompt and the decoded tokens.\<close>

definition gen_cache :: "('c \<Rightarrow> kv_view) \<Rightarrow> llama_token list \<Rightarrow> ('m, 'c, 's) gen_state \<Rightarrow> bool" where
  "gen_cache kv tokens g \<longleftrightarrow> current_pos (gs g) = int (length tokens)
    \<and> (\<exists>n. n \<le> length (generated_tokens g) \<and> length (generated_tokens g) \<le> n + 1
         \<and> state_kv kv (gs g) = cached (tokens @ take n (generated_tokens g)))"

lemma well_shaped_concat: "(\<forall>e \<in> set es. well_shaped e) \<Longrightarrow> well_shaped (concat es)"
  by (induction es) (auto intro: well_shaped_append)

lemma emit_piece_ok:
  "gs (emit_piece d g) = gs g" "n_gen (emit_piece d g) = n_gen g"
  "generated_tokens (emit_piece d g) = generated_tokens g"
  "response g = concat (emitted g) \<Longrightarrow> response (emit_piece d g) = concat (emitted (emit_piece d g))"
  "\<forall>e \<in> set (emitted g). e \<noteq> [] \<and> well_shaped e \<Longrightarrow>
    \<forall>e \<in> set (emitted (emit_piece d g)). e \<noteq> [] \<and> well_shaped e"
  "length (emitted (emit_piece d g)) \<le> length (emitted g) + 1"
  by (auto simp: emit_piece_def Let_def well_shaped_sanitize)

text \<open>Decoding the token that was recorded last.\<close>

lemma decode_new_ok:
  assumes "running cap (gs g)" "1 \<le> cap"
  obtains g' k where "decode_new api t g = Some (g', k)"
    "g' = g\<lparr>gs := gs g', n_gen := (if k then n_gen g + 1 else n_gen g)\<rparr>"
    "running cap (gs g')" "frame (gs g') = frame (gs g)"
    "current_pos (gs g') = current_pos (gs g)"
    "kv_laws api kv \<longrightarrow> (\<exists>j. state_kv kv (gs g') = store_rows (state_kv kv (gs g))
       (take j [(t, current_pos (gs g) + int (n_gen g), [0], True)]))"
    "kv_laws api kv \<and> k \<longrightarrow> state_kv kv (gs g') = store_rows (state_kv kv (gs g))
       [(t, current_pos (gs g) + int (n_gen g), [0], True)]"
proof -
  have wf: "batch_wf cap ((batch (gs g))\<lparr>n_tokens := 0\<rparr>)"
    using assms by (simp add: running_def batch_wf_reset)
  obtain b where b: "batch_add ((batch (gs g))\<lparr>n_tokens := 0\<rparr>) t
      (current_pos (gs g) + int (n_gen g)) [0] True = Some b" "batch_wf cap b"
    "batch_rows b = [(t, current_pos (gs g) + int (n_gen g), [0], True)]"
    by (rule batch_add_ok [OF wf]) (use assms in simp_all)
  obtain ok s' where d: "decode_batch api (gs g) b = Some (ok, s')" "running cap s'"
    "frame s' = frame (gs g)" "current_pos s' = current_pos (gs g)"
    by (rule decode_batch_ok [OF assms(1) b(2)]) auto
  define g' where "g' = (if ok then g\<lparr>gs := s', n_gen := n_gen g + 1\<rparr> else g\<lparr>gs := s'\<rparr>)"
  have gs: "gs g' = s'" by (simp add: g'_def)
  show thesis
  proof (rule that [of g' ok])
    show "decode_new api t g = Some (g', ok)" using b d by (simp add: decode_new_def g'_def)
    show "g' = g\<lparr>gs := gs g', n_gen := (if ok then n_gen g + 1 else n_gen g)\<rparr>"
      by (cases g) (simp add: g'_def)
  qed (use d b decode_batch_kv [OF _ d(1), of kv] in \<open>simp_all add: gs\<close>)
qed

lemma accept_token_ok:
  assumes g: "gen_ok cap g" "1 \<le> cap" and eq: "length (generated_tokens g) = n_gen g"
  obtains g' k where "accept_token api m t g = Some (g', k)" "gen_ok cap g'"
    "frame (gs g') = frame (gs g)" "k \<longrightarrow> n_gen g' = n_gen g + 1"
    "k \<longrightarrow> length (generated_tokens g') = n_gen g'"
    "kv_laws api kv \<and> gen_cache kv tokens g \<and>
       state_kv kv (gs g) = cached (tokens @ generated_tokens g) \<longrightarrow>
       gen_cache kv tokens g' \<and> (k \<longrightarrow> state_kv kv (gs g') = cached (tokens @ generated_tokens g'))"
    "length (generated_tokens g') \<le> n_gen g + 1"
proof -
  define g1 where "g1 = g\<lparr>generated_tokens := generated_tokens g @ [t]\<rparr>"
  let ?piece = "llama_token_to_piece api m t True"
  let ?d = "replace_bpe ?piece"
  define g2 where "g2 = (if ?piece = [] then g1 else emit_piece ?d g1)"
  have g2: "gs g2 = gs g" "n_gen g2 = n_gen g" "generated_tokens g2 = generated_tokens g @ [t]"
    "response g2 = concat (emitted g2)" "\<forall>e \<in> set (emitted g2). e \<noteq> [] \<and> well_shaped e"
    "length (emitted g2) \<le> length (generated_tokens g2)"
  proof -
    have "gs g1 = gs g" "n_gen g1 = n_gen g" "generated_tokens g1 = generated_tokens g @ [t]"
      "response g1 = concat (emitted g1)" "\<forall>e \<in> set (emitted g1). e \<noteq> [] \<and> well_shaped e"
      "length (emitted g1) + 1 \<le> length (generated_tokens g1)"
      using g(1) by (simp_all add: g1_def gen_ok_def)
    note g1 = this
    show "gs g2 = gs g" "n_gen g2 = n_gen g" "generated_tokens g2 = generated_tokens g @ [t]"
      by (cases "?piece = []"; simp only: g2_def if_True if_False emit_piece_ok(1,2,3) g1 simp_thms)+
    show "response g2 = concat (emitted g2)"
      using emit_piece_ok(4) [OF g1(4), of ?d] g1(4) by (cases "?piece = []") (simp_all only: g2_def if_True if_False simp_thms)
    show "\<forall>e \<in> set (emitted g2). e \<noteq> [] \<and> well_shaped e"
      using emit_piece_ok(5) [OF g1(5), of ?d] g1(5) by (cases "?piece = []") (simp_all only: g2_def if_True if_False simp_thms)
    show "length (emitted g2) \<le> length (generated_tokens g2)"
      using emit_piece_ok(6) [of ?d g1] emit_piece_ok(3) [of ?d g1] g1(6)
      by (cases "?piece = []") (simp_all add: g2_def)
  qed
  have run: "running cap (gs g2)" using g by (simp add: g2 gen_ok_def)
  obtain g3 k where d: "decode_new api t g2 = Some (g3, k)"
    "g3 = g2\<lparr>gs := gs g3, n_gen := (if k then n_gen g2 + 1 else n_gen g2)\<rparr>"
    "running cap (gs g3)" "frame (gs g3) = frame (gs g2)"
    "current_pos (gs g3) = current_pos (gs g2)"
    "kv_laws api kv \<longrightarrow> (\<exists>j. state_kv kv (gs g3) = store_rows (state_kv kv (gs g2))
       (take j [(t, current_pos (gs g2) + int (n_gen g2), [0], True)]))"
    "kv_laws api kv \<and> k \<longrightarrow> state_kv kv (gs g3) = store_rows (state_kv kv (gs g2))
       [(t, current_pos (gs g2) + int (n_gen g2), [0], True)]"
    by (rule decode_new_ok [OF run g(2), of api t kv]) (rule that)
  define g4 where "g4 = (if k \<and> ?piece \<noteq> [] then g3\<lparr>gs := (gs g3)\<lparr>tokens_generated := int (n_gen g3)\<rparr>\<rparr> else g3)"
  have g3: "n_gen g3 = (if k then n_gen g + 1 else n_gen g)" "response g3 = response g2"
    "emitted g3 = emitted g2" "generated_tokens g3 = generated_tokens g @ [t]"
    using arg_cong [OF d(2), of n_gen] arg_cong [OF d(2), of response]
      arg_cong [OF d(2), of emitted] arg_cong [OF d(2), of generated_tokens] by (simp_all add: g2)
  have g4: "n_gen g4 = n_gen g3" "response g4 = response g3" "emitted g4 = emitted g3"
    "generated_tokens g4 = generated_tokens g3" "running cap (gs g4)" "frame (gs g4) = frame (gs g)"
    "state_kv kv (gs g4) = state_kv kv (gs g3)" "current_pos (gs g4) = current_pos (gs g)"
    using d g2 by (simp_all add: g4_def state_kv_def)
  show thesis
  proof (cases "?piece \<noteq> [] \<and> is_stop_string ?d")
    case True
    have "accept_token api m t g = Some (g1, False)"
      using True by (simp add: accept_token_def g1_def Let_def)
    moreover have "gen_ok cap g1" using g eq by (auto simp: gen_ok_def g1_def)
    moreover have "gen_cache kv tokens g1"
      if "gen_cache kv tokens g" "state_kv kv (gs g) = cached (tokens @ generated_tokens g)"
      using that eq unfolding gen_cache_def
      by (intro conjI exI [of _ "length (generated_tokens g)"]) (simp_all add: g1_def)
    ultimately show thesis by (intro that [of g1 False]) (use eq in \<open>simp_all add: g1_def\<close>)
  next
    case False
    have "accept_token api m t g = Some (g4, k)"
      using False d(1) by (auto simp: accept_token_def g1_def g2_def g4_def Let_def)
    moreover have "gen_ok cap g4"
      using g2 eq by (simp add: gen_ok_def g4 g3)
    moreover have "gen_cache kv tokens g4 \<and> (k \<longrightarrow> state_kv kv (gs g4) = cached (tokens @ generated_tokens g4))"
      if laws: "kv_laws api kv" and c: "gen_cache kv tokens g"
        and st: "state_kv kv (gs g) = cached (tokens @ generated_tokens g)"
    proof -
      have pos: "current_pos (gs g2) + int (n_gen g2) = int (length (tokens @ generated_tokens g))"
        using c eq by (simp add: gen_cache_def g2)
      have all: "store_rows (state_kv kv (gs g2)) [(t, current_pos (gs g2) + int (n_gen g2), [0], True)]
          = cached (tokens @ generated_tokens g @ [t])"
        unfolding pos using cached_snoc [of "tokens @ generated_tokens g" t]
        by (simp add: g2 st store_rows_def)
      obtain j where j: "state_kv kv (gs g3) = store_rows (state_kv kv (gs g2))
          (take j [(t, current_pos (gs g2) + int (n_gen g2), [0], True)])"
        using d(6) laws by blast
      have "state_kv kv (gs g4) = cached (tokens @ take (length (generated_tokens g) + min j 1) (generated_tokens g4))"
        using j all by (cases j) (simp_all add: g4 g3 g2 st)
      then have "gen_cache kv tokens g4"
        using c unfolding gen_cache_def
        by (intro conjI exI [of _ "length (generated_tokens g) + min j 1"]) (simp_all add: g4 g3 g2)
      moreover have "k \<Longrightarrow> state_kv kv (gs g4) = cached (tokens @ generated_tokens g4)"
        using d(7) laws all by (simp add: g4 g3)
      ultimately show ?thesis by blast
    qed
    ultimately show thesis
      by (intro that [of g4 k]) (use eq in \<open>simp_all add: g4 g3\<close>)
  qed
qed

lemma gen_ok_updates [simp]:
  "gen_ok cap (g\<lparr>repeat_count := r\<rparr>) = gen_ok cap g"
  "gen_ok cap (g\<lparr>repeat_count := r, last_token := l\<rparr>) = gen_ok cap g"
  "gen_ok cap g \<Longrightarrow> gen_ok cap (g\<lparr>gs := (gs g)\<lparr>sampler := Some sm\<rparr>\<rparr>)"
  "gen_ok cap g \<Longrightarrow> gen_ok cap (g\<lparr>gs := request_stop api (gs g)\<rparr>)"
  by (simp_all add: gen_ok_def)

definition cache_complete :: "('c \<Rightarrow> kv_view) \<Rightarrow> llama_token list \<Rightarrow> ('m, 'c, 's) gen_state \<Rightarrow> bool" where
  "cache_complete kv tokens g \<longleftrightarrow> gen_cache kv tokens g
    \<and> state_kv kv (gs g) = cached (tokens @ generated_tokens g)"

lemma cache_updates [simp]:
  "gen_cache kv ts (g\<lparr>repeat_count := r\<rparr>) = gen_cache kv ts g"
  "gen_cache kv ts (g\<lparr>repeat_count := r, last_token := l\<rparr>) = gen_cache kv ts g"
  "gen_cache kv ts (g\<lparr>gs := (gs g)\<lparr>sampler := Some sm\<rparr>\<rparr>) = gen_cache kv ts g"
  "cache_complete kv ts (g\<lparr>repeat_count := r\<rparr>) = cache_complete kv ts g"
  "cache_complete kv ts (g\<lparr>repeat_count := r, last_token := l\<rparr>) = cache_complete kv ts g"
  "cache_complete kv ts (g\<lparr>gs := (gs g)\<lparr>sampler := Some sm\<rparr>\<rparr>) = cache_complete kv ts g"
  by (simp_all add: gen_cache_def state_kv_def cache_complete_def)

text \<open>What one iteration from \<open>g\<close> ends with; \<open>k\<close> says whether the loop goes on.\<close>

definition iter_ok ::
  "('m, 'c, 's) llama_api \<Rightarrow> ('c \<Rightarrow> kv_view) \<Rightarrow> llama_token list \<Rightarrow> nat
    \<Rightarrow> ('m, 'c, 's) gen_state \<Rightarrow> ('m, 'c, 's) gen_state \<Rightarrow> bool \<Rightarrow> bool" where
  "iter_ok api kv tokens cap g g' k \<longleftrightarrow> gen_ok cap g' \<and> frame (gs g') = frame (gs g)
    \<and> (k \<longrightarrow> n_gen g' = n_gen g + 1 \<and> length (generated_tokens g') = n_gen g')
    \<and> length (generated_tokens g') \<le> n_gen g + 1
    \<and> (kv_laws api kv \<and> cache_complete kv tokens g
         \<longrightarrow> gen_cache kv tokens g' \<and> (k \<longrightarrow> cache_complete kv tokens g'))"

lemma gen_iter_ok:
  assumes g: "gen_ok cap g" "1 \<le> cap" and eq: "length (generated_tokens g) = n_gen g"
  shows "\<exists>g' k. gen_iter api m g = Some (g', k) \<and> iter_ok api kv tokens cap g g' k"
proof -
  obtain sm c where sc: "sampler (gs g) = Some sm" "ctx (gs g) = Some c"
    using g by (auto simp: gen_ok_def running_def)
  obtain t sm' where smp: "llama_sampler_sample api sm c = (t, sm')" by (metis surj_pair)
  define g1 where "g1 = g\<lparr>gs := (gs g)\<lparr>sampler := Some sm'\<rparr>\<rparr>"
  define g2 where "g2 = (if t = last_token g1 then g1\<lparr>repeat_count := repeat_count g1 + 1\<rparr>
                         else g1\<lparr>repeat_count := 0, last_token := t\<rparr>)"
  have g1: "gen_ok cap g1" "generated_tokens g1 = generated_tokens g" "n_gen g1 = n_gen g"
    "frame (gs g1) = frame (gs g)" "cache_complete kv tokens g1 = cache_complete kv tokens g"
    using g by (simp_all add: g1_def)
  have im: "token_im_start (gs g1) = token_im_start (gs g)" by (simp add: g1_def)
  have g2: "gen_ok cap g2" "generated_tokens g2 = generated_tokens g" "n_gen g2 = n_gen g"
    "frame (gs g2) = frame (gs g)" "cache_complete kv tokens g2 = cache_complete kv tokens g"
    using g1 by (simp_all add: g2_def)
  have stop: "iter_ok api kv tokens cap g g1 False" "iter_ok api kv tokens cap g g2 False"
    using g1 g2 eq by (auto simp: iter_ok_def cache_complete_def)
  obtain g3 k where a: "accept_token api m t g2 = Some (g3, k)" "gen_ok cap g3"
    "frame (gs g3) = frame (gs g2)" "k \<longrightarrow> n_gen g3 = n_gen g2 + 1"
    "k \<longrightarrow> length (generated_tokens g3) = n_gen g3"
    "kv_laws api kv \<and> gen_cache kv tokens g2 \<and>
       state_kv kv (gs g2) = cached (tokens @ generated_tokens g2) \<longrightarrow>
       gen_cache kv tokens g3 \<and> (k \<longrightarrow> state_kv kv (gs g3) = cached (tokens @ generated_tokens g3))"
    "length (generated_tokens g3) \<le> n_gen g2 + 1"
    by (rule accept_token_ok [of cap g2 api m t kv tokens]) (use g g2 eq in simp_all)
  have "iter_ok api kv tokens cap g g3 k"
    using a g2 by (auto simp: iter_ok_def cache_complete_def)
  moreover have "gen_iter api m g =
      (if t = token_im_start (gs g1) \<or> llama_vocab_is_eog api m t then Some (g1, False)
       else if t = last_token g1 \<and> repeat_count g2 \<ge> 3 then Some (g2, False)
       else accept_token api m t g2)"
    using im by (simp add: gen_iter_def sc smp g1_def [symmetric] g2_def Let_def)
  ultimately show ?thesis using stop a(1) by auto
qed

lemma gen_loop_ok:
  assumes "gen_ok cap g" "1 \<le> cap" "length (generated_tokens g) = n_gen g"
    and "int (n_gen g) \<le> maxTokens" "maxTokens - int (n_gen g) \<le> int fuel"
  shows "\<exists>g'. gen_loop api m ge maxTokens fuel g = Some g' \<and> gen_ok cap g'
    \<and> frame (gs g') = frame (gs g) \<and> int (length (generated_tokens g')) \<le> maxTokens
    \<and> (kv_laws api kv \<and> (\<forall>k. \<not> stop_loop ge k) \<and> cache_complete kv tokens g
         \<longrightarrow> gen_cache kv tokens g')"
  using assms
proof (induction fuel arbitrary: g)
  case 0
  then show ?case by (subst gen_loop.simps) (auto simp: Let_def cache_complete_def)
next
  case (Suc f)
  define g0 where "g0 = (if stop_loop ge (n_gen g) then g\<lparr>gs := request_stop api (gs g)\<rparr> else g)"
  have g0: "gen_ok cap g0" "length (generated_tokens g0) = n_gen g0" "n_gen g0 = n_gen g"
    "frame (gs g0) = frame (gs g)"
    "(\<forall>k. \<not> stop_loop ge k) \<longrightarrow> cache_complete kv tokens g0 = cache_complete kv tokens g"
    using Suc.prems by (simp_all add: g0_def)
  obtain g1 k where it: "gen_iter api m g0 = Some (g1, k)" "iter_ok api kv tokens cap g0 g1 k"
    using gen_iter_ok [OF g0(1) Suc.prems(2) g0(2)] by blast
  have loop: "gen_loop api m ge maxTokens (Suc f) g =
      (if int (n_gen g0) < maxTokens \<and> \<not> should_stop (gs g0) \<and> \<not> timed_out ge (n_gen g0)
       then if k then gen_loop api m ge maxTokens f g1 else Some g1
       else Some g0)"
    by (subst gen_loop.simps) (simp add: g0_def [symmetric] it Let_def split: bool.split)
  show ?case
  proof (cases "int (n_gen g0) < maxTokens \<and> \<not> should_stop (gs g0) \<and> \<not> timed_out ge (n_gen g0) \<and> k")
    case True
    have "\<exists>g'. gen_loop api m ge maxTokens f g1 = Some g' \<and> gen_ok cap g'
      \<and> frame (gs g') = frame (gs g1) \<and> int (length (generated_tokens g')) \<le> maxTokens
      \<and> (kv_laws api kv \<and> (\<forall>k. \<not> stop_loop ge k) \<and> cache_complete kv tokens g1
           \<longrightarrow> gen_cache kv tokens g')"
      by (rule Suc.IH) (use it(2) True g0 Suc.prems in \<open>auto simp: iter_ok_def\<close>)
    then show ?thesis using True loop it(2) g0 by (auto simp: iter_ok_def)
  next
    case False
    have "gen_ok cap g0 \<and> int (length (generated_tokens g0)) \<le> maxTokens
      \<and> (cache_complete kv tokens g0 \<longrightarrow> gen_cache kv tokens g0)"
      using g0 Suc.prems by (simp add: cache_complete_def)
    then show ?thesis
      using False loop it(2) g0 by (auto simp: iter_ok_def)
  qed
qed

section \<open>A whole generation\<close>

definition start_gen :: "('m, 'c, 's) LlamaState \<Rightarrow> ('m, 'c, 's) gen_state" where
  "start_gen s = \<lparr>gs = s, n_gen = 0, response = [], emitted = [], generated_tokens = [],
     last_token = -1, repeat_count = 0\<rparr>"

definition ready_state ::
  "('m, 'c, 's) llama_api \<Rightarrow> nat \<Rightarrow> 's \<Rightarrow> ('m, 'c, 's) LlamaState \<Rightarrow> ('m, 'c, 's) LlamaState" where
  "ready_state api n smp s = s\<lparr>current_pos := int n, sampler := Some (llama_sampler_reset api smp),
     is_generating := True, should_stop := False, tokens_generated := 0\<rparr>"

lemma run_generation_cases:
  assumes ok: "llama_ok s" "ctx s = Some c" and mx: "0 \<le> maxTokens"
  obtains (failed) i s1 s2 where "reuse_cache api tokens c s = (i, s1)"
      "prefill api ge tokens (nat (n_batch s)) 0 i s1 = Some (Decode_Failed s2)"
      "run_generation api ge m tokens maxTokens c s = Some (early_return [On_Complete []], s2)"
      "running (nat (n_batch s)) s2" "frame s2 = frame s" "\<not> is_generating s2"
  | (complete) i s1 s2 smp g where "reuse_cache api tokens c s = (i, s1)"
      "prefill api ge tokens (nat (n_batch s)) 0 i s1 = Some (Prefilled s2)"
      "running (nat (n_batch s)) s2" "frame s2 = frame s" "sampler s2 = Some smp"
      "gen_loop api m ge maxTokens (nat maxTokens) (start_gen (ready_state api (length tokens) smp s2)) = Some g"
      "gen_ok (nat (n_batch s)) g" "frame (gs g) = frame s"
      "int (length (generated_tokens g)) \<le> maxTokens"
      "kv_laws api kv \<and> (\<forall>k. \<not> stop_loop ge k)
         \<and> cache_complete kv tokens (start_gen (ready_state api (length tokens) smp s2))
         \<longrightarrow> gen_cache kv tokens g"
      "run_generation api ge m tokens maxTokens c s =
         Some (\<lparr>returned = sanitizeForJNI (response g), on_token = emitted g,
                on_complete = [On_Complete (response g)]\<rparr>,
               (gs g)\<lparr>is_generating := False, last_prompt_tokens := tokens @ generated_tokens g\<rparr>)"
proof -
  define cap where "cap = nat (n_batch s)"
  have cap: "1 \<le> cap" "running cap s" "\<not> is_generating s"
    using ok by (auto simp: llama_ok_def running_def cap_def)
  obtain i s1 where r: "reuse_cache api tokens c s = (i, s1)" by (metis surj_pair)
  note s1 = reuse_cache_ok [OF r cap(2) ok(2)]
  have nb: "nat (n_batch s1) = cap" using s1(2) by (simp add: frame_def cap_def)
  obtain res where res: "prefill api ge tokens cap 0 i s1 = Some res" "running cap (prefill_state res)"
    "frame (prefill_state res) = frame s" "\<not> is_generating (prefill_state res)"
    using prefill_ok [OF s1(1) cap(1), of api ge tokens 0 i] s1 cap(3) by auto
  show thesis
  proof (cases res)
    case (Decode_Failed s2)
    then show thesis using r res nb by (intro failed) (auto simp: run_generation_def cap_def)
  next
    case (Prefilled s2)
    then obtain smp where smp: "sampler s2 = Some smp" using res(2) by (auto simp: running_def)
    let ?s = "ready_state api (length tokens) smp s2"
    have "gen_ok cap (start_gen ?s)"
      using res(2) Prefilled by (simp add: gen_ok_def start_gen_def ready_state_def running_def)
    moreover have "frame ?s = frame s" using res(3) Prefilled by (simp add: ready_state_def frame_def)
    ultimately obtain g where g:
      "gen_loop api m ge maxTokens (nat maxTokens) (start_gen ?s) = Some g" "gen_ok cap g"
      "frame (gs g) = frame s" "int (length (generated_tokens g)) \<le> maxTokens"
      "kv_laws api kv \<and> (\<forall>k. \<not> stop_loop ge k) \<and> cache_complete kv tokens (start_gen ?s)
         \<longrightarrow> gen_cache kv tokens g"
      using gen_loop_ok [of cap "start_gen ?s" maxTokens "nat maxTokens" api m ge kv tokens] cap mx
      by (auto simp: start_gen_def)
    show thesis
    proof (rule complete [of i s1 s2 smp g])
      show "run_generation api ge m tokens maxTokens c s =
         Some (\<lparr>returned = sanitizeForJNI (response g), on_token = emitted g,
                on_complete = [On_Complete (response g)]\<rparr>,
               (gs g)\<lparr>is_generating := False, last_prompt_tokens := tokens @ generated_tokens g\<rparr>)"
        using r res(1) Prefilled nb smp mx g(1)
        by (simp add: run_generation_def start_gen_def ready_state_def)
    qed (use r res Prefilled smp g in \<open>simp_all add: cap_def\<close>)
  qed
qed

lemma llama_ok_frame:
  assumes "frame s' = frame s" "running (nat (n_batch s)) s'" "\<not> is_generating s'"
    "llama_ok s" "ctx s \<noteq> None"
  shows "llama_ok s'"
  using assms by (auto simp: frame_def llama_ok_def running_def)

lemma run_generation_ok:
  assumes "llama_ok s" "ctx s = Some c" "0 \<le> maxTokens"
  shows "\<exists>r s'. run_generation api ge m tokens maxTokens c s = Some (r, s') \<and> llama_ok s'
    \<and> ctx s' \<noteq> None \<and> sampler s' \<noteq> None \<and> model s' = model s
    \<and> on_complete r \<in> {[On_Complete (returned r)]} \<and> returned r = concat (on_token r)
    \<and> (\<forall>e \<in> set (on_token r). e \<noteq> [] \<and> well_shaped e) \<and> int (length (on_token r)) \<le> maxTokens"
proof (rule run_generation_cases [OF assms, where api = api and ge = ge and m = m and tokens = tokens
      and kv = "\<lambda>_ _. None"], goal_cases failed complete)
  case (failed i s1 s2)
  then show ?thesis
    using llama_ok_frame [of s2 s] assms
    by (auto simp: early_return_def running_def frame_def)
next
  case (complete i s1 s2 smp g)
  let ?s' = "(gs g)\<lparr>is_generating := False, last_prompt_tokens := tokens @ generated_tokens g\<rparr>"
  have g: "running (nat (n_batch s)) (gs g)" "response g = concat (emitted g)"
    "\<forall>e \<in> set (emitted g). e \<noteq> [] \<and> well_shaped e"
    "length (emitted g) \<le> length (generated_tokens g)"
    using complete(7) by (simp_all add: gen_ok_def)
  have "llama_ok ?s'"
    using complete(8) g(1) assms by (auto simp: frame_def llama_ok_def running_def)
  moreover have "sanitizeForJNI (response g) = response g"
    using g(2,3) by (simp add: sanitize_fixes_well_shaped well_shaped_concat)
  ultimately show ?thesis
    using complete(8,9,11) g by (auto simp: running_def frame_def)
qed

lemma prefill_below:
  assumes laws: "kv_laws api kv"
  shows "running cap s \<Longrightarrow> 1 \<le> cap \<Longrightarrow> prefill api ge tokens cap k i s = Some r \<Longrightarrow>
    q < int i \<Longrightarrow> state_kv kv s q = None \<Longrightarrow> state_kv kv (prefill_state r) q = None"
proof (induction "length tokens - i" arbitrary: k i s rule: less_induct)
  case less
  let ?s = "interleave_stop api (stop_prefill ge k) s"
  have none: "state_kv kv ?s q = None"
    using less.prems(5) laws
    by (auto simp: interleave_stop_def request_stop_def state_kv_def kv_laws_def split: option.splits)
  show ?case
  proof (cases "i < length tokens \<and> \<not> should_stop ?s")
    case True
    let ?n = "min (length tokens - i) cap"
    let ?rows = "map (\<lambda>q. (tokens ! q, int q, [0], int q = int (length tokens) - 1)) [i..<i + ?n]"
    obtain b ok s1 where st: "batch_rows b = ?rows"
      "decode_batch api ?s b = Some (ok, s1)" "running cap s1"
      "prefill api ge tokens cap k i s =
         (if ok then prefill api ge tokens cap (k + 1) (i + cap) s1 else Some (Decode_Failed s1))"
      by (rule prefill_step [of i tokens cap s api ge k]) (use True less.prems(1,2) in simp_all)
    have keep: "store_rows M rows q = M q"
      if "\<forall>(t, p, sq, l) \<in> set rows. q < p" for M rows
      using that by (induction rows arbitrary: M) (auto simp: store_rows_def)
    obtain j where j: "state_kv kv s1 = store_rows (state_kv kv ?s) (take j ?rows)"
      using decode_batch_kv(1) [OF laws st(2)] unfolding st(1) by (elim exE)
    have "\<forall>(t, p, sq, l) \<in> set (take j ?rows). q < p"
      using less.prems(4) by (auto dest!: in_set_takeD)
    then have "state_kv kv s1 q = None"
      unfolding j using none by (subst keep)
    then show ?thesis
      using less.hyps [of "i + cap" s1 "k + 1"] True st less.prems by (cases ok) auto
  next
    case False
    then show ?thesis
      using less.prems none by (cases "i < length tokens") (auto simp: prefill_end prefill_stopped)
  qed
qed

lemma nativeGenerateStream_returns:
  assumes "world_ok w" "0 \<le> maxTokens"
  shows "\<exists>r w'. nativeGenerateStream api ge promptStr maxTokens w = Some (r, w') \<and> world_ok w'"
proof (cases "g_state w")
  case (Some s0)
  have ok: "llama_ok s0" using assms(1) Some by (rule world_ok_llama_ok)
  let ?s = "s0\<lparr>should_stop := False\<rparr>"
  have ok1: "llama_ok ?s" using ok by (simp add: llama_ok_def)
  show ?thesis
  proof (cases "ctx s0 \<noteq> None \<and> methods_found ge \<and> locked ge")
    case True
    then obtain c m where cm: "ctx s0 = Some c" "model s0 = Some m"
      using ok by (auto simp: llama_ok_def)
    let ?f = "format_prompt api m (g_system_prompt w) (history s0) promptStr"
    obtain n buf where tok: "llama_tokenize api m ?f (nat (n_ctx s0)) = (n, buf)" by (metis surj_pair)
    obtain r s' where run: "run_generation api ge m (resize_tokens (nat n) buf) maxTokens c ?s = Some (r, s')"
      "llama_ok s'" "ctx s' \<noteq> None" "sampler s' \<noteq> None" "model s' = model ?s"
      using run_generation_ok [OF ok1 _ assms(2), of c api ge m "resize_tokens (nat n) buf"] cm by auto
    have "world_ok (w\<lparr>g_state := Some ?s\<rparr>)" "world_ok (w\<lparr>g_state := Some s'\<rparr>)"
      using ok ok1 run(2-5) cm
      by (auto intro!: world_ok_state [OF assms(1) Some] simp: llama_ok_def)
    then show ?thesis
      using True cm tok run(1) by (simp add: nativeGenerateStream_def Some Let_def)
  next
    case False
    then show ?thesis
      using assms(1) by (cases "ctx s0") (auto simp: nativeGenerateStream_def Some)
  qed
qed (use assms in \<open>simp add: nativeGenerateStream_def\<close>)

lemma negative_budget:
  assumes "maxTokens < 0" "nativeGenerateStream api ge promptStr maxTokens w = Some x"
  shows "nativeGenerateStream api ge promptStr 0 w = Some x"
proof -
  have "run_generation api ge m tokens 0 c s = Some y"
    if "run_generation api ge m tokens maxTokens c s = Some y" for m tokens c s y
    using that assms(1)
    by (auto simp: run_generation_def Let_def split: prod.splits option.splits prefill_result.splits)
  then show ?thesis
    using assms(2)
    by (auto simp: nativeGenerateStream_def Let_def split: prod.splits option.splits if_splits)
qed

section \<open>Properties\<close>

text \<open>C21: A generation with the mutex held and a non-negative token budget always returns: it never writes
  outside the batch arrays, never hands a null pointer to the library and never loops forever,
  whatever the model samples and whenever other threads stop it; and the state it leaves is
  well-formed again.\<close>

theorem nativeGenerateStream_total:
  assumes "world_ok w" "0 \<le> maxTokens"
  shows "\<exists>r w'. nativeGenerateStream api ge promptStr maxTokens w = Some (r, w') \<and> world_ok w'"
  by (rule nativeGenerateStream_returns [OF assms])

definition calm :: gen_env where
  "calm = \<lparr>methods_found = True, locked = True, stop_prefill = \<lambda>_. False, stop_loop = \<lambda>_. False,
     timed_out = \<lambda>_. False\<rparr>"

definition demo_state :: "llama_token list \<Rightarrow> (unit, int \<Rightarrow> int option, int list) LlamaState" where
  "demo_state script = new_LlamaState\<lparr>model := Some (), ctx := Some (\<lambda>_. None), sampler := Some script,
     batch := llama_batch_init 4, n_batch := 4, n_ubatch := 4\<rparr>"

lemma demo_state_ok: "llama_ok (demo_state script)"
  by (simp add: demo_state_def llama_ok_def new_LlamaState_def batch_wf_init)

lemma demo_world_ok:
  "world_ok \<lparr>g_state = Some (demo_state script), g_system_prompt = [],
     live = \<lparr>models = 1, ctxs = 1, samplers = 1, batches = 1\<rparr>\<rparr>"
  using demo_state_ok [of script] by (simp add: world_ok_def owned_defs demo_state_def)

lemma script_api_kv_laws: "kv_laws (script_api script) (\<lambda>c. c)"
proof -
  have rows: "foldl (\<lambda>m k. m(pos b ! k \<mapsto> token b ! k)) c ks = store_rows c (map (batch_row b) ks)"
    for c and b :: llama_batch and ks
    by (induction ks arbitrary: c) (simp_all add: store_rows_def batch_row_def)
  have "\<exists>j. store_rows c (map (batch_row b) [0..<n_tokens b])
      = store_rows c (take j (map (batch_row b) [0..<n_tokens b]))" for c and b :: llama_batch
    by (rule exI [of _ "n_tokens b"]) simp
  then show ?thesis
    by (simp add: kv_laws_def script_api_def rows batch_rows_def fun_eq_iff)
qed

theorem nativeGenerateStream_total_witness:
  "\<exists>r w'. nativeGenerateStream (script_api [72]) calm [] 5
     \<lparr>g_state = Some (demo_state [72]), g_system_prompt = [],
      live = \<lparr>models = 1, ctxs = 1, samplers = 1, batches = 1\<rparr>\<rparr> = Some (r, w') \<and> world_ok w'"
  by (rule nativeGenerateStream_total) (simp_all add: demo_world_ok)

text \<open>C22: The string returned to Kotlin is the concatenation of the pieces passed to \<open>onToken\<close>, is what
  \<open>onComplete\<close> received when it received a string, is well shaped, and there are at most
  \<open>maxTokens\<close> pieces, none of them empty.\<close>

theorem nativeGenerateStream_reply:
  assumes "world_ok w" "0 \<le> maxTokens"
    and "nativeGenerateStream api ge promptStr maxTokens w = Some (r, w')"
  shows "returned r = concat (on_token r) \<and> well_shaped (returned r)
    \<and> (\<forall>e \<in> set (on_token r). e \<noteq> [] \<and> well_shaped e)
    \<and> int (length (on_token r)) \<le> maxTokens
    \<and> on_complete r \<in> {[], [On_Complete_Without_Argument], [On_Complete (returned r)]}"
proof -
  have early: ?thesis if "r = early_return cs" "cs \<in> {[], [On_Complete_Without_Argument]}" for cs
    using that assms(2) by (auto simp: early_return_def)
  show ?thesis
  proof (cases "\<exists>cs. r = early_return cs \<and> cs \<in> {[], [On_Complete_Without_Argument]}")
    case True
    with early show ?thesis by blast
  next
    case False
    then obtain s0 c m tokens s' where s: "g_state w = Some s0" "ctx s0 = Some c"
      "run_generation api ge m tokens maxTokens c (s0\<lparr>should_stop := False\<rparr>) = Some (r, s')"
      using assms(3)
      by (auto simp: nativeGenerateStream_def Let_def split: option.splits if_splits prod.splits)
    have "llama_ok (s0\<lparr>should_stop := False\<rparr>)"
      using world_ok_llama_ok [OF assms(1) s(1)] by (simp add: llama_ok_def)
    then show ?thesis
      using run_generation_ok [of "s0\<lparr>should_stop := False\<rparr>" c maxTokens api ge m tokens] s assms(2)
      by (auto simp: well_shaped_concat)
  qed
qed

theorem nativeGenerateStream_reply_witness:
  "\<exists>r w'. nativeGenerateStream (script_api [72]) calm [] 5
     \<lparr>g_state = Some (demo_state [72]), g_system_prompt = [],
      live = \<lparr>models = 1, ctxs = 1, samplers = 1, batches = 1\<rparr>\<rparr> = Some (r, w')
     \<and> well_shaped (returned r) \<and> length (on_token r) \<le> 5"
proof -
  let ?w = "\<lparr>g_state = Some (demo_state [72]), g_system_prompt = [],
      live = \<lparr>models = 1, ctxs = 1, samplers = 1, batches = 1\<rparr>\<rparr>"
  have "nativeGenerateStream (script_api [72]) calm [] 5 ?w \<noteq> None" by code_simp
  then obtain r w' where "nativeGenerateStream (script_api [72]) calm [] 5 ?w = Some (r, w')" by auto
  then show ?thesis
    using nativeGenerateStream_reply [OF demo_world_ok [of "[72]"], of 5 "script_api [72]" calm "[]" r w']
    by auto
qed

definition demo_tokens :: "llama_token list" where
  "demo_tokens = [1, 2, 3, 4, 5, 6, 7, 8, 9, 10, 11, 12]"

definition demo_second_turn :: "(unit, int \<Rightarrow> int option, int list) LlamaState" where
  "demo_second_turn = (demo_state [72])\<lparr>ctx := Some (cached demo_tokens),
     last_prompt_tokens := demo_tokens\<rparr>"

lemma demo_second_turn_ok: "llama_ok demo_second_turn" "\<not> should_stop demo_second_turn"
  "ctx demo_second_turn = Some (cached demo_tokens)" "last_prompt_tokens demo_second_turn = demo_tokens"
  using demo_state_ok [of "[72]"]
  by (simp_all add: demo_second_turn_def llama_ok_def demo_state_def new_LlamaState_def)

text \<open>C20: Reusing the cache of the previous turn is sound.  If the context holds at least as many of the
  remembered tokens as the new prompt shares with them, then after a prefill that nothing
  interrupts the context holds exactly the prompt, whether the cache was trimmed or cleared, and
  after the generation it holds what is remembered for the next turn, up to one last token that
  was not decoded.\<close>

theorem prompt_cache_sound:
  assumes laws: "kv_laws api kv" and ok: "llama_ok s" "ctx s = Some c" "\<not> should_stop s" "0 \<le> maxTokens"
    and nostop: "\<forall>k. \<not> stop_prefill ge k" "\<forall>k. \<not> stop_loop ge k"
    and kv: "kv c = cached (take n (last_prompt_tokens s))"
      "common_prefix tokens (last_prompt_tokens s) \<le> n"
    and pre: "reuse_cache api tokens c s = (i, s1)"
      "prefill api ge tokens (nat (n_batch s)) 0 i s1 = Some (Prefilled s2)"
    and run: "run_generation api ge m tokens maxTokens c s = Some (r, s')"
  shows "state_kv kv s2 = cached tokens
    \<and> (\<exists>n'. state_kv kv s' = cached (take n' (last_prompt_tokens s'))
         \<and> length (last_prompt_tokens s') \<le> n' + 1)"
proof -
  have cap: "1 \<le> nat (n_batch s)" "running (nat (n_batch s)) s"
    using ok by (auto simp: llama_ok_def running_def)
  note s1 = reuse_cache_ok [OF pre(1) cap(2) ok(2)]
  have kv1: "state_kv kv s1 = cached (take i tokens)"
    by (rule reuse_cache_kv [OF laws pre(1) kv])
  have kv2: "state_kv kv s2 = cached tokens"
    by (rule prefill_kv [OF laws _ s1(1) cap(1) _ s1(3) kv1 pre(2)])
       (use nostop s1(4) ok(3) in simp_all)
  have "\<exists>n'. state_kv kv s' = cached (take n' (last_prompt_tokens s'))
         \<and> length (last_prompt_tokens s') \<le> n' + 1"
  proof (rule run_generation_cases [OF ok(1,2,4), where api = api and ge = ge and m = m
        and tokens = tokens and kv = kv], goal_cases failed complete)
    case (failed j t1 t2)
    then show ?case using pre by simp
  next
    case (complete j t1 t2 smp g)
    have "t2 = s2" using complete(1,2) pre by simp
    then have "cache_complete kv tokens (start_gen (ready_state api (length tokens) smp t2))"
      using kv2 by (auto simp: cache_complete_def gen_cache_def start_gen_def ready_state_def state_kv_def)
    then have "gen_cache kv tokens g" using complete(10) laws nostop by blast
    then obtain k where k: "length (generated_tokens g) \<le> k + 1"
      "state_kv kv (gs g) = cached (tokens @ take k (generated_tokens g))"
      by (auto simp: gen_cache_def)
    moreover have "s' = (gs g)\<lparr>is_generating := False, last_prompt_tokens := tokens @ generated_tokens g\<rparr>"
      using complete(11) run by simp
    ultimately show ?case
      by (intro exI [of _ "length tokens + k"]) (simp add: state_kv_def)
  qed
  with kv2 show ?thesis by blast
qed

theorem prompt_cache_sound_witness:
  "\<exists>r s'. run_generation (script_api [72]) calm () (take 11 demo_tokens @ [99]) 5
      (cached demo_tokens) demo_second_turn = Some (r, s')
    \<and> (\<exists>n'. state_kv (\<lambda>c. c) s' = cached (take n' (last_prompt_tokens s'))
         \<and> length (last_prompt_tokens s') \<le> n' + 1)"
proof -
  let ?api = "script_api [72]" let ?ts = "take 11 demo_tokens @ [99]" let ?s = demo_second_turn
  let ?p = "reuse_cache ?api ?ts (cached demo_tokens) ?s"
  have "case prefill ?api calm ?ts (nat (n_batch ?s)) 0 (fst ?p) (snd ?p) of
      Some (Prefilled _) \<Rightarrow> True | _ \<Rightarrow> False" by code_simp
  then obtain s2 where pre: "prefill ?api calm ?ts (nat (n_batch ?s)) 0 (fst ?p) (snd ?p) = Some (Prefilled s2)"
    by (auto split: option.splits prefill_result.splits)
  obtain r s' where run: "run_generation ?api calm () ?ts 5 (cached demo_tokens) ?s = Some (r, s')"
    using run_generation_ok [OF demo_second_turn_ok(1,3), of 5 ?api calm "()" ?ts] by auto
  have "common_prefix ?ts (last_prompt_tokens ?s) \<le> 12"
    using common_prefix_le(2) [of ?ts "last_prompt_tokens ?s"] by (simp add: demo_second_turn_ok demo_tokens_def)
  moreover have "cached demo_tokens = cached (take 12 (last_prompt_tokens ?s))"
    by (simp add: demo_second_turn_ok demo_tokens_def)
  ultimately show ?thesis
    using prompt_cache_sound [OF script_api_kv_laws demo_second_turn_ok(1,3,2), where maxTokens = 5
        and ge = calm and n = 12 and tokens = ?ts and i = "fst ?p" and ?s1.0 = "snd ?p" and ?s2.0 = s2
        and m = "()" and r = r and s' = s'] pre run
    by (auto simp: calm_def)
qed

text \<open>A request to stop clears the context but not the remembered tokens.  The next generation whose
  prompt shares more than ten tokens with them starts its prefill behind the shared prefix, and
  no position of that prefix is in the context when sampling begins.\<close>

theorem stop_then_reuse_loses_prefix:
  assumes laws: "kv_laws api kv" and ok: "llama_ok s" "ctx s = Some c"
    and p: "p = common_prefix tokens (last_prompt_tokens s)" "10 < p"
    and s': "s' = request_stop api s" "ctx s' = Some c'"
    and rm: "fst (llama_memory_seq_rm api c' 0 (int p) (-1))"
    and pre: "reuse_cache api tokens c' (s'\<lparr>should_stop := False\<rparr>) = (i, s1)"
      "prefill api ge tokens (nat (n_batch s)) 0 i s1 = Some res"
    and q: "0 \<le> q" "q < int p"
  shows "i = p \<and> state_kv kv (prefill_state res) q = None"
proof -
  have mem: "llama_get_memory api d" "kv (llama_memory_clear api d) = (\<lambda>_. None)" for d
    using laws by (simp_all add: kv_laws_def)
  have c': "kv c' = (\<lambda>_. None)" using s' ok(2) mem by (auto simp: request_stop_def)
  have last: "last_prompt_tokens s' = last_prompt_tokens s" "last_prompt_tokens s \<noteq> []"
    using s' p by (auto simp: request_stop_def)
  obtain c'' where c'': "llama_memory_seq_rm api c' 0 (int p) (-1) = (True, c'')"
    using rm by (metis prod.collapse)
  then have kv'': "kv c'' = (\<lambda>q. if q < int p then kv c' q else None)"
    using laws unfolding kv_laws_def by (metis fst_conv snd_conv)
  have is1: "i = p" "state_kv kv s1 = kv c''"
    using pre(1) p mem last c'' by (auto simp: reuse_cache_def Let_def state_kv_def)
  have r: "running (nat (n_batch s)) (s'\<lparr>should_stop := False\<rparr>)" "1 \<le> nat (n_batch s)"
    using ok s' by (auto simp: llama_ok_def running_def request_stop_def)
  have "running (nat (n_batch s)) s1" by (rule reuse_cache_ok(1) [OF pre(1) r(1)]) (use s'(2) in simp)
  then have "state_kv kv (prefill_state res) q = None"
    using prefill_below [OF laws _ r(2) pre(2), of q] q is1 kv'' c' by simp
  with is1 show ?thesis by simp
qed

theorem stop_then_reuse_loses_prefix_witness:
  "\<exists>res. prefill (script_api [72]) calm (demo_tokens @ [99]) 4 0 12
      (snd (reuse_cache (script_api [72]) (demo_tokens @ [99]) (\<lambda>_. None)
         ((request_stop (script_api [72]) demo_second_turn)\<lparr>should_stop := False\<rparr>))) = Some res
    \<and> state_kv (\<lambda>c. c) (prefill_state res) 0 = None"
proof -
  let ?api = "script_api [72]" let ?ts = "demo_tokens @ [99]"
  let ?s' = "request_stop ?api demo_second_turn"
  let ?p = "reuse_cache ?api ?ts (\<lambda>_. None) (?s'\<lparr>should_stop := False\<rparr>)"
  have c': "ctx ?s' = Some (\<lambda>_. None)"
    by (simp add: request_stop_def demo_second_turn_ok script_api_def)
  have cp: "common_prefix ?ts (last_prompt_tokens demo_second_turn) = 12" by code_simp
  have "prefill ?api calm ?ts 4 0 12 (snd ?p) \<noteq> None" by code_simp
  then obtain res where pre: "prefill ?api calm ?ts 4 0 12 (snd ?p) = Some res" by auto
  have "fst ?p = 12" by code_simp
  then have p: "?p = (12, snd ?p)" by (metis prod.collapse)
  have nb: "nat (n_batch demo_second_turn) = 4" by code_simp
  have "fst (llama_memory_seq_rm ?api (\<lambda>_. None) 0 (int 12) (-1))" by (simp add: script_api_def)
  then show ?thesis
    using stop_then_reuse_loses_prefix [OF script_api_kv_laws demo_second_turn_ok(1,3) cp [symmetric] _
        refl c' _ p, of calm res 0] pre nb by simp
qed

text \<open>A request to stop that arrives during the prefill is lost: the flag is reset before sampling, so
  the reply is generated in full, from a context without the prompt.\<close>

theorem stop_in_prefill_is_lost:
  "map_option (\<lambda>(r, s). (on_token r, map_option (\<lambda>c. map c [0, 1, 2, 3, 4]) (ctx s)))
     (run_generation (script_api [72, 105]) (calm\<lparr>stop_prefill := \<lambda>k. k = 0\<rparr>) () [10, 11, 12] 9
        (\<lambda>_. None) (demo_state [72, 105]))
   = Some ([[72], [105]], Some [None, None, None, Some 72, Some 105])"
  by code_simp

text \<open>When the new prompt is a proper part of the remembered tokens (more than ten of them), nothing is
  decoded before sampling: the first token is drawn from the logits of the previous turn.\<close>

theorem repeated_prompt_decodes_nothing:
  assumes laws: "kv_laws api kv"
    and whole: "common_prefix tokens (last_prompt_tokens s) = length tokens" "10 < length tokens"
    and rm: "llama_memory_seq_rm api c 0 (int (length tokens)) (-1) = (True, c')"
    and pre: "reuse_cache api tokens c s = (i, s1)"
      "prefill api ge tokens nb 0 i s1 = Some res"
  shows "res = Prefilled s1 \<and> ctx s1 = Some c'"
proof -
  have "last_prompt_tokens s \<noteq> []" using whole by auto
  then have "i = length tokens" "ctx s1 = Some c'"
    using pre(1) whole rm laws by (auto simp: reuse_cache_def Let_def kv_laws_def)
  with pre(2) show ?thesis by (simp add: prefill_end)
qed

theorem repeated_prompt_decodes_nothing_witness:
  "prefill (script_api [72]) calm demo_tokens 4 0 12
      (snd (reuse_cache (script_api [72]) demo_tokens (cached demo_tokens) demo_second_turn))
    = Some (Prefilled (snd (reuse_cache (script_api [72]) demo_tokens (cached demo_tokens) demo_second_turn)))"
proof -
  let ?api = "script_api [72]"
  let ?p = "reuse_cache ?api demo_tokens (cached demo_tokens) demo_second_turn"
  have "prefill ?api calm demo_tokens 4 0 12 (snd ?p) \<noteq> None" by code_simp
  then obtain res where pre: "prefill ?api calm demo_tokens 4 0 12 (snd ?p) = Some res" by auto
  have "fst ?p = 12" by code_simp
  then have p: "?p = (12, snd ?p)" by (metis prod.collapse)
  have l: "length demo_tokens = 12" by (simp add: demo_tokens_def)
  have cp: "common_prefix demo_tokens (last_prompt_tokens demo_second_turn) = length demo_tokens" by code_simp
  obtain c' where rm: "llama_memory_seq_rm ?api (cached demo_tokens) 0 (int (length demo_tokens)) (-1) = (True, c')"
    by (simp add: script_api_def)
  show ?thesis
    using repeated_prompt_decodes_nothing [OF script_api_kv_laws cp _ rm p pre] pre l by simp
qed

text \<open>The generic prompt built when the model has no template consists of exactly the messages that
  are handed to a template, in the same order, and the assistant's opening marker.\<close>

theorem chatml_fallback_messages:
  "chatml_fallback sys hist promptStr =
    concat (map (\<lambda>(role, content). bytes ''<|im_start|>'' @ role @ nl @ content @ bytes ''<|im_end|>'' @ nl)
      (chat_messages sys hist promptStr)) @ bytes ''<|im_start|>assistant'' @ nl"
proof -
  have fold: "foldl (\<lambda>f entry. f @ bytes ''<|im_start|>'' @ fst entry @ nl @ snd entry
                @ bytes ''<|im_end|>'' @ nl) a h =
      a @ concat (map (\<lambda>(role, content). bytes ''<|im_start|>'' @ role @ nl @ content @ bytes ''<|im_end|>'' @ nl) h)"
    for a h by (induction h arbitrary: a) (simp_all add: case_prod_beta)
  have sys: "bytes ''<|im_start|>system'' = bytes ''<|im_start|>'' @ bytes ''system''"
    "bytes ''<|im_start|>user'' = bytes ''<|im_start|>'' @ bytes ''user''"
    by (simp_all add: bytes_def)
  show ?thesis
    by (simp add: chatml_fallback_def Let_def fold chat_messages_def sys)
qed

text \<open>The replacement of the SentencePiece space (three bytes, ending in \<open>0x81\<close>) is wrong: it looks
  for the single byte \<open>0x81\<close> and overwrites the two bytes after it.  The piece for a space and
  "Hi!" reaches the callback as a space and "!", and the hiragana letter "a" followed by "b" as a space.\<close>

theorem replace_bpe_eats_text:
  "sanitizeForJNI (replace_bpe ([0xE2, 0x96, 0x81] @ bytes ''Hi!'')) = bytes '' !''
   \<and> sanitizeForJNI (replace_bpe ([0xE3, 0x81, 0x82] @ bytes ''b'')) = bytes '' ''"
  by code_simp

end
