(* ===== verification/Llama_Session.thy ===== *)
theory Llama_Session
  imports Llama_Generate
begin

text \<open>
  Sessions of the llama bridge: the JNI calls Kotlin makes, one after the other, on the global state
  of \<open>ai_chat_jni.cpp\<close>.  A step is any call with any arguments, any device and any behaviour of
  other threads during a generation.
\<close>

datatype ('m, 'c, 's) llama_call =
    Load device_env bool "bytestring option" "bytestring \<Rightarrow> bool" int int bool real bool
  | Prepare bool
  | System_Prompt bytestring
  | Generate gen_env bytestring int
  | Generate_Default gen_env bytestring
  | Add_To_History bytestring bytestring
  | Stop
  | Unload
  | Shutdown
  | Optimize device_env device_env
  | Clear bool

inductive llama_step ::
  "('m, 'c, 's) llama_api \<Rightarrow> ('m, 'c, 's) llama_world \<Rightarrow> ('m, 'c, 's) llama_call
    \<Rightarrow> ('m, 'c, 's) llama_world \<Rightarrow> bool" for api where
  load: "llama_step api w (Load env pn pc op nc nb mm p ch) (snd (loadModel api env pn pc op nc nb mm p ch w))"
| prepare: "llama_step api w (Prepare lk) (snd (prepareContext api lk w))"
| system: "llama_step api w (System_Prompt s) (snd (processSystemPrompt s w))"
| generate: "nativeGenerateStream api ge s n w = Some (r, w') \<Longrightarrow> llama_step api w (Generate ge s n) w'"
| generate_default: "nativeGenerate api ge s w = Some (r, w') \<Longrightarrow> llama_step api w (Generate_Default ge s) w'"
| history: "llama_step api w (Add_To_History r c) (nativeAddToHistory r c w)"
| stop: "llama_step api w Stop (stopGeneration api w)"
| unload: "llama_step api w Unload (unload w)"
| shutdown: "llama_step api w Shutdown (shutdown w)"
| optimize: "llama_step api w (Optimize e1 e2) (snd (nativeOptimizeMemory e1 e2 w))"
| clear: "llama_step api w (Clear lk) (nativeClearContext lk w)"

inductive_cases llama_stepE: "llama_step api w c w'"
inductive_simps llama_step_stop [simp]: "llama_step api w Stop w'"
inductive_simps llama_step_unload [simp]: "llama_step api w Unload w'"

inductive reachable :: "('m, 'c, 's) llama_api \<Rightarrow> ('m, 'c, 's) llama_world \<Rightarrow> bool" for api where
  start: "reachable api initial_world"
| step: "reachable api w \<Longrightarrow> llama_step api w c w' \<Longrightarrow> reachable api w'"

text \<open>With a negative token budget a generation can only fail before sampling.\<close>

lemma nativeGenerateStream_ok [inv_intros]:
  assumes "world_ok w" "nativeGenerateStream api ge s n w = Some (r, w')"
  shows "world_ok w'"
proof (cases "0 \<le> n")
  case True
  then show ?thesis using nativeGenerateStream_returns [OF assms(1) True, of api ge s] assms(2) by auto
next
  case False
  then have "nativeGenerateStream api ge s 0 w = Some (r, w')"
    using negative_budget [of n api ge s w] assms(2) by simp
  then show ?thesis using nativeGenerateStream_returns [OF assms(1), of 0 api ge s] by auto
qed

text \<open>A generation takes and returns no library object.\<close>

lemma nativeGenerateStream_owned:
  assumes "world_ok w" "nativeGenerateStream api ge s n w = Some (r, w')"
  shows "live w' = live w \<and> owned_ctxs w' = owned_ctxs w \<and> owned_samplers w' = owned_samplers w"
proof -
  obtain n' where n': "0 \<le> n'" "nativeGenerateStream api ge s n' w = Some (r, w')"
    using assms(2) negative_budget [of n api ge s w "(r, w')"] by (cases "0 \<le> n") auto
  show ?thesis
  proof (cases "g_state w")
    case (Some s0)
    have ok: "llama_ok s0" "llama_ok (s0\<lparr>should_stop := False\<rparr>)"
      using world_ok_llama_ok [OF assms(1) Some] by (simp_all add: llama_ok_def)
    have one: "is_some x = 1" if "x \<noteq> None" for x :: "'z option"
      using that by auto
    have "owned_ctxs (w\<lparr>g_state := Some s'\<rparr>) = owned_ctxs w
        \<and> owned_samplers (w\<lparr>g_state := Some s'\<rparr>) = owned_samplers w"
      if "run_generation api ge m tokens n' c (s0\<lparr>should_stop := False\<rparr>) = Some (r, s')" "ctx s0 = Some c"
      for m tokens c s'
      using run_generation_ok [OF ok(2) _ n'(1), of c api ge m tokens] that ok(1) Some
      by (auto simp: owned_defs llama_ok_def)
    then show ?thesis
      using n'(2) Some
      by (auto simp: nativeGenerateStream_def Let_def owned_defs split: option.splits if_splits prod.splits)
  qed (use n' in \<open>simp add: nativeGenerateStream_def\<close>)
qed

lemma llama_step_ok [inv_intros]:
  assumes "world_ok w" "llama_step api w c w'"
  shows "world_ok w'"
  using assms(2,1)
  by (cases rule: llama_step.cases)
     (auto simp: nativeGenerate_def unload_eq intro: inv_intros)

lemma reachable_ok: "reachable api w \<Longrightarrow> world_ok w"
  by (induction rule: reachable.induct) (auto intro: inv_intros)

section \<open>Properties\<close>

text \<open>C23: In every state a session can reach: the library's model count is exactly the number of models
  the state holds (no model is leaked and none freed twice), it never counts fewer contexts or
  samplers than the state holds, no generation is marked as running, the history has at most four
  messages, between one and six threads are configured, and a context always comes with a model, a
  sampler and a batch of \<open>n_batch\<close> entries.\<close>

theorem session_invariant:
  assumes "reachable api w"
  shows "models (live w) = owned_models w \<and> owned_ctxs w \<le> ctxs (live w)
    \<and> owned_samplers w \<le> samplers (live w)
    \<and> (\<forall>s. g_state w = Some s \<longrightarrow> \<not> is_generating s \<and> length (history s) \<le> 4
         \<and> n_threads s \<in> {1..6}
         \<and> (ctx s \<noteq> None \<longrightarrow> model s \<noteq> None \<and> sampler s \<noteq> None
              \<and> batch_wf (nat (n_batch s)) (batch s)))"
  using reachable_ok [OF assms] by (auto simp: world_ok_def llama_ok_def)

text \<open>From every reachable state, unloading and shutting down lead to the same state, with no global
  state and no model left in the library.\<close>

theorem unload_releases_model:
  assumes "reachable api w"
  shows "unload w = shutdown w \<and> g_state (unload w) = None \<and> models (live (unload w)) = 0
    \<and> 0 \<le> ctxs (live (unload w)) \<and> 0 \<le> samplers (live (unload w))"
proof -
  have g: "g_state (unload w) = None" by (simp add: unload_def split: option.split)
  have "world_ok (unload w)"
    using reachable_ok [OF assms] by (simp add: unload_eq shutdown_ok)
  with g show ?thesis by (simp add: world_ok_def owned_defs unload_eq)
qed

lemma demo_reachable:
  "reachable (script_api [72]) (snd (prepareContext (script_api [72]) True
     (snd (loadModel (script_api [72]) quiet_device False (Some []) (\<lambda>_. True) 1024 512 True 0 True
        initial_world))))"
  by (rule reachable.step [OF reachable.step [OF reachable.start llama_step.load] llama_step.prepare])

theorem session_invariant_witness:
  "models (live (snd (prepareContext (script_api [72]) True
     (snd (loadModel (script_api [72]) quiet_device False (Some []) (\<lambda>_. True) 1024 512 True 0 True
        initial_world))))) = 1"
  using session_invariant [OF demo_reachable]
  by (simp add: owned_models_def prepareContext_def loadModel_def create_context_def script_api_def
      Let_def is_some_def split: option.splits)

theorem unload_releases_model_witness:
  "models (live (unload (snd (prepareContext (script_api [72]) True
     (snd (loadModel (script_api [72]) quiet_device False (Some []) (\<lambda>_. True) 1024 512 True 0 True
        initial_world)))))) = 0"
  using unload_releases_model [OF demo_reachable] by blast

end
