(* ===== verification/Bridge_Jni.thy ===== *)
theory Bridge_Jni
  imports Llama_Session
begin

text \<open>
  \<open>bridge_jni.cpp\<close>: the entry points of the package \<open>bridge\<close>, which forward to
  \<open>ai_chat_jni.cpp\<close>, and the stubs of the speech bridges.  The library objects held by a session
  that only uses these entry points are accounted for exactly.
\<close>

section \<open>Entry points\<close>

definition bridge_nativeLoadModel ::
  "('m, 'c, 's) llama_api \<Rightarrow> device_env \<Rightarrow> bool \<Rightarrow> bytestring option \<Rightarrow> (bytestring \<Rightarrow> bool)
    \<Rightarrow> int \<Rightarrow> int \<Rightarrow> bool \<Rightarrow> real \<Rightarrow> bool
    \<Rightarrow> ('m, 'c, 's) llama_world \<Rightarrow> bool \<times> ('m, 'c, 's) llama_world" where
  "bridge_nativeLoadModel api env path_null path_chars opens contextSize batchSize useMmap
      memoryPressure lock_ok w =
    (let (result, w1) = loadModel api env path_null path_chars opens contextSize batchSize useMmap
                          memoryPressure True w
     in if result = 0 then (let (ctxResult, w2) = prepareContext api lock_ok w1 in (ctxResult = 0, w2))
        else (False, w1))"

definition bridge_nativeRelease :: "('m, 'c, 's) llama_world \<Rightarrow> ('m, 'c, 's) llama_world" where
  "bridge_nativeRelease w = unload w"

definition bridge_nativeUnloadModel :: "('m, 'c, 's) llama_world \<Rightarrow> ('m, 'c, 's) llama_world" where
  "bridge_nativeUnloadModel w = unload w"

definition bridge_nativeGenerateStream ::
  "('m, 'c, 's) llama_api \<Rightarrow> gen_env \<Rightarrow> bytestring \<Rightarrow> int \<Rightarrow> ('m, 'c, 's) llama_world
    \<Rightarrow> (gen_result \<times> ('m, 'c, 's) llama_world) option" where
  "bridge_nativeGenerateStream api ge prompt maxTokens w = nativeGenerateStream api ge prompt maxTokens w"

definition bridge_nativeGenerate ::
  "('m, 'c, 's) llama_api \<Rightarrow> gen_env \<Rightarrow> bytestring \<Rightarrow> ('m, 'c, 's) llama_world
    \<Rightarrow> (gen_result \<times> ('m, 'c, 's) llama_world) option" where
  "bridge_nativeGenerate api ge prompt w = nativeGenerateStream api ge prompt 2048 w"

definition bridge_nativeStopGeneration ::
  "('m, 'c, 's) llama_api \<Rightarrow> ('m, 'c, 's) llama_world \<Rightarrow> ('m, 'c, 's) llama_world" where
  "bridge_nativeStopGeneration api w = stopGeneration api w"

text \<open>The prompt given to \<open>nativeSetSystemPrompt\<close> is dropped.\<close>

definition bridge_nativeSetSystemPrompt ::
  "bytestring \<Rightarrow> ('m, 'c, 's) llama_world \<Rightarrow> ('m, 'c, 's) llama_world" where
  "bridge_nativeSetSystemPrompt prompt w = w"

definition bridge_nativeClearContext ::
  "bool \<Rightarrow> ('m, 'c, 's) llama_world \<Rightarrow> ('m, 'c, 's) llama_world" where
  "bridge_nativeClearContext lock_ok w = nativeClearContext lock_ok w"

definition bridge_nativeAddToHistory ::
  "bytestring \<Rightarrow> bytestring \<Rightarrow> ('m, 'c, 's) llama_world \<Rightarrow> ('m, 'c, 's) llama_world" where
  "bridge_nativeAddToHistory role content w = nativeAddToHistory role content w"

definition bridge_nativeGetContextSize :: "('m, 'c, 's) llama_world \<Rightarrow> int" where
  "bridge_nativeGetContextSize w = 1024"

definition bridge_nativeGetOptimalThreadCount :: "device_env \<Rightarrow> int" where
  "bridge_nativeGetOptimalThreadCount env = getOptimalThreadCount env"

definition bridge_nativeGetCurrentTemperature :: "device_env \<Rightarrow> real" where
  "bridge_nativeGetCurrentTemperature env = getCpuTemperature env"

definition bridge_nativeIsModelLoaded :: "('m, 'c, 's) llama_world \<Rightarrow> bool" where
  "bridge_nativeIsModelLoaded w = True"

definition bridge_nativeGetMemoryUsage :: "('m, 'c, 's) llama_world \<Rightarrow> int" where
  "bridge_nativeGetMemoryUsage w = 150 * 1024 * 1024"

definition bridge_nativeOptimizeMemory ::
  "device_env \<Rightarrow> device_env \<Rightarrow> ('m, 'c, 's) llama_world \<Rightarrow> int \<times> ('m, 'c, 's) llama_world" where
  "bridge_nativeOptimizeMemory e1 e2 w = nativeOptimizeMemory e1 e2 w"

text \<open>The speech stubs keep no state; handles are not looked at.\<close>

definition bridge_stt_nativeInit :: int where "bridge_stt_nativeInit = 1"

definition bridge_stt_nativeLoadModel :: "int \<Rightarrow> bytestring \<Rightarrow> bool" where
  "bridge_stt_nativeLoadModel handle path = True"

definition bridge_stt_nativeTranscribe :: "int \<Rightarrow> int list \<Rightarrow> bytestring" where
  "bridge_stt_nativeTranscribe handle audioData = bytes ''Transcription stub''"

definition bridge_tts_nativeSynthesize :: "int \<Rightarrow> bytestring \<Rightarrow> bytestring \<Rightarrow> real \<Rightarrow> bytestring" where
  "bridge_tts_nativeSynthesize handle txt voiceStyle speed = replicate 48000 0"

section \<open>Sessions through the bridge\<close>

inductive bridge_step ::
  "('m, 'c, 's) llama_api \<Rightarrow> ('m, 'c, 's) llama_world \<Rightarrow> ('m, 'c, 's) llama_world \<Rightarrow> bool" for api where
  load: "bridge_step api w (snd (bridge_nativeLoadModel api env pn pc op nc nb mm p lk w))"
| release: "bridge_step api w (bridge_nativeRelease w)"
| unload_model: "bridge_step api w (bridge_nativeUnloadModel w)"
| generate: "bridge_nativeGenerate api ge s w = Some (r, w') \<Longrightarrow> bridge_step api w w'"
| generate_stream: "bridge_nativeGenerateStream api ge s n w = Some (r, w') \<Longrightarrow> bridge_step api w w'"
| stop: "bridge_step api w (bridge_nativeStopGeneration api w)"
| system: "bridge_step api w (bridge_nativeSetSystemPrompt s w)"
| clear: "bridge_step api w (bridge_nativeClearContext lk w)"
| history: "bridge_step api w (bridge_nativeAddToHistory r c w)"
| optimize: "bridge_step api w (snd (bridge_nativeOptimizeMemory e1 e2 w))"

inductive bridge_reachable :: "('m, 'c, 's) llama_api \<Rightarrow> ('m, 'c, 's) llama_world \<Rightarrow> bool" for api where
  start: "bridge_reachable api initial_world"
| step: "bridge_reachable api w \<Longrightarrow> bridge_step api w w' \<Longrightarrow> bridge_reachable api w'"

definition exact :: "('m, 'c, 's) llama_world \<Rightarrow> bool" where
  "exact w \<longleftrightarrow> world_ok w \<and> ctxs (live w) = owned_ctxs w \<and> samplers (live w) = owned_samplers w"

lemma exact_state:
  assumes "exact w" "g_state w = Some s" "world_ok (w\<lparr>g_state := Some s'\<rparr>)"
    "is_some (ctx s') = is_some (ctx s)" "is_some (sampler s') = is_some (sampler s)"
  shows "exact (w\<lparr>g_state := Some s'\<rparr>)"
  using assms by (simp add: exact_def owned_defs)

lemma exact_load:
  assumes "exact w"
  shows "exact (snd (bridge_nativeLoadModel api env pn pc op nc nb mm p lk w))"
proof -
  obtain rc w1 where l: "loadModel api env pn pc op nc nb mm p True w = (rc, w1)" by (metis surj_pair)
  have ok1: "world_ok w1" using loadModel_ok [of w api env pn pc op nc nb mm p True] assms l
    by (simp add: exact_def)
  show ?thesis
  proof (cases pn)
    case True
    then show ?thesis using assms by (simp add: bridge_nativeLoadModel_def loadModel_def)
  next
    case False
    define lv where "lv = cleanup_and_destroy (g_state w) (live w)"
    have lv: "ctxs lv = 0" "samplers lv = 0"
      using assms by (simp_all add: lv_def cleanup_and_destroy_eq exact_def)
    have w1: "ctxs (live w1) = 0" "samplers (live w1) = 0" "owned_ctxs w1 = 0" "owned_samplers w1 = 0"
      using l False lv
      by (auto simp: loadModel_def Let_def owned_defs lv_def [symmetric] split: option.splits if_splits)
    obtain rc2 w2 where pr: "prepareContext api lk w1 = (rc2, w2)" by (metis surj_pair)
    have "exact w1" using ok1 w1 by (simp add: exact_def)
    moreover have "exact w2"
      using prepareContext_ok [OF ok1, of api lk] pr w1
      by (auto simp: exact_def prepareContext_def owned_defs split: option.splits if_splits prod.splits)
    ultimately show ?thesis by (simp add: bridge_nativeLoadModel_def l pr)
  qed
qed

lemma exact_generate:
  "exact w \<Longrightarrow> nativeGenerateStream api ge s n w = Some (r, w') \<Longrightarrow> exact w'"
  using nativeGenerateStream_owned [of w api ge s n r w'] nativeGenerateStream_ok [of w api ge s n r w']
  by (simp add: exact_def)

lemma exact_unload: "exact w \<Longrightarrow> exact (unload w)"
  using shutdown_ok [of w] live_destroy [of w]
  by (cases "g_state w")
     (auto simp: exact_def unload_eq shutdown_def cleanup_and_destroy_eq owned_defs)

lemma exact_stop: "exact w \<Longrightarrow> exact (stopGeneration api w)"
  using stopGeneration_ok [of w api]
  by (cases "g_state w") (auto simp: exact_def stopGeneration_def owned_defs)

lemma exact_clear: "exact w \<Longrightarrow> exact (nativeClearContext lk w)"
  using nativeClearContext_ok [of w lk]
  by (auto simp: exact_def nativeClearContext_def owned_defs split: option.splits if_splits)

lemma exact_history: "exact w \<Longrightarrow> exact (nativeAddToHistory r c w)"
  using nativeAddToHistory_ok [of w r c]
  by (auto simp: exact_def nativeAddToHistory_def owned_defs split: option.splits)

lemma exact_optimize: "exact w \<Longrightarrow> exact (snd (nativeOptimizeMemory e1 e2 w))"
  using nativeOptimizeMemory_ok [of w e1 e2]
  by (auto simp: exact_def nativeOptimizeMemory_def Let_def owned_defs split: option.splits if_splits)

lemmas exact_steps = exact_load exact_generate exact_unload exact_stop exact_clear exact_history
  exact_optimize

lemma bridge_step_exact: "exact w \<Longrightarrow> bridge_step api w w' \<Longrightarrow> exact w'"
  by (erule bridge_step.cases)
     (auto simp: bridge_nativeRelease_def bridge_nativeUnloadModel_def bridge_nativeGenerate_def
       bridge_nativeGenerateStream_def bridge_nativeStopGeneration_def bridge_nativeSetSystemPrompt_def
       bridge_nativeClearContext_def bridge_nativeAddToHistory_def bridge_nativeOptimizeMemory_def
       intro: exact_steps)

lemma exact_initial: "exact initial_world"
  using world_ok_initial by (simp add: exact_def initial_world_def owned_defs)

lemma bridge_reachable_exact: "bridge_reachable api w \<Longrightarrow> exact w"
  by (induction rule: bridge_reachable.induct) (blast intro: exact_initial bridge_step_exact)+

section \<open>Properties\<close>

text \<open>C24: A session that only uses the entry points of the bridge never leaks a model, a context or a
  sampler: the library's counts are those of the objects the state holds, and nothing of them is
  left after a release.\<close>

theorem bridge_sessions_do_not_leak:
  assumes "bridge_reachable api w"
  shows "models (live w) = owned_models w \<and> ctxs (live w) = owned_ctxs w
    \<and> samplers (live w) = owned_samplers w
    \<and> models (live (bridge_nativeRelease w)) = 0 \<and> ctxs (live (bridge_nativeRelease w)) = 0
    \<and> samplers (live (bridge_nativeRelease w)) = 0"
proof -
  have ex: "exact w" using assms by (rule bridge_reachable_exact)
  have "g_state (unload w) = None" by (simp add: unload_def split: option.split)
  then show ?thesis
    using ex exact_unload [OF ex]
    by (simp add: exact_def world_ok_def owned_defs bridge_nativeRelease_def)
qed

theorem bridge_sessions_do_not_leak_witness:
  "ctxs (live (bridge_nativeRelease (snd (bridge_nativeLoadModel (script_api []) quiet_device False
      (Some []) (\<lambda>_. True) 1024 512 True 0 True initial_world)))) = 0"
  using bridge_sessions_do_not_leak [OF bridge_reachable.step [OF bridge_reachable.start bridge_step.load]]
  by blast

text \<open>The bridge reports success of loading exactly when the state has a context; but it reports a
  loaded model and a context of 1024 tokens in every state.\<close>

theorem bridge_load_reports_context:
  assumes "exact w" "\<not> path_null"
    and "bridge_nativeLoadModel api env path_null pc opens nc nb mm p lock_ok w = (ok, w')"
  shows "(ok \<longleftrightarrow> owned_ctxs w' = 1) \<and> bridge_nativeIsModelLoaded w'
    \<and> bridge_nativeGetContextSize w' = 1024"
proof -
  obtain rc w1 where l: "loadModel api env path_null pc opens nc nb mm p True w = (rc, w1)" by (metis surj_pair)
  have w1: "owned_ctxs w1 = 0"
    using l assms(2)
    by (auto simp: loadModel_def Let_def owned_defs split: option.splits if_splits)
  show ?thesis
    using assms(3) l w1
    by (auto simp: bridge_nativeLoadModel_def prepareContext_def owned_defs bridge_nativeIsModelLoaded_def
        bridge_nativeGetContextSize_def split: if_splits option.splits prod.splits)
qed

theorem bridge_load_reports_context_witness:
  "owned_ctxs (snd (bridge_nativeLoadModel (script_api []) quiet_device False
      (Some []) (\<lambda>_. False) 1024 512 True 0 True initial_world)) \<noteq> 1"
  using bridge_load_reports_context [OF bridge_reachable_exact [OF bridge_reachable.start], of False
      "script_api []" quiet_device "Some []" "\<lambda>_. False" 1024 512 True 0 True False]
  by (auto simp: bridge_nativeLoadModel_def loadModel_def)

end
