(* ===== verification/Audio_Queues.thy ===== *)
theory Audio_Queues
  imports Prelude
begin

text \<open>
  \<open>audio_jni.cpp\<close>: the recorder and the player around an Oboe stream, their sample queues, and the
  JNI functions on the two global instances.

  Oboe is not part of this code: whether a stream can be opened and started, and the samples a
  data callback delivers, are arguments.  All queue operations run under the object's mutex, so an
  operation is one step.  A sample is a 16-bit word.  \<open>None\<close> stands for an uncaught C++ exception,
  undefined behaviour or a write past the end of a buffer.
\<close>

type_synonym i16 = "16 word"

section \<open>AudioRecorder\<close>

record AudioRecorder =
  rec_stream :: bool          \<comment> \<open>\<open>stream_\<close> is not null\<close>
  audioBuffer :: "i16 list"
  isRecording :: bool

definition new_AudioRecorder :: AudioRecorder where
  "new_AudioRecorder = \<lparr>rec_stream = False, audioBuffer = [], isRecording = False\<rparr>"

definition recorder_start :: "bool \<Rightarrow> bool \<Rightarrow> AudioRecorder \<Rightarrow> bool \<times> AudioRecorder" where
  "recorder_start open_ok start_ok r =
    (if rec_stream r then (True, r)
     else if \<not> open_ok then (False, r)
     else if \<not> start_ok then (False, r\<lparr>rec_stream := False\<rparr>)
     else (True, r\<lparr>rec_stream := True, isRecording := True\<rparr>))"

definition recorder_stop :: "AudioRecorder \<Rightarrow> AudioRecorder" where
  "recorder_stop r = r\<lparr>rec_stream := False, isRecording := False\<rparr>"

fun read_loop :: "nat \<Rightarrow> i16 list \<Rightarrow> i16 list \<Rightarrow> (i16 list \<times> i16 list) option" where
  "read_loop 0 result buf = Some (result, buf)"
| "read_loop (Suc n) result (x # buf) = read_loop n (result @ [x]) buf"
| "read_loop (Suc n) result [] = None"

text \<open>A negative count makes \<open>reserve\<close> throw.\<close>

definition getAudioData :: "int \<Rightarrow> AudioRecorder \<Rightarrow> (i16 list \<times> AudioRecorder) option" where
  "getAudioData maxSamples r =
    (let samplesToRead = min maxSamples (int (length (audioBuffer r))) in
     if samplesToRead < 0 then None
     else map_option (\<lambda>(result, buf). (result, r\<lparr>audioBuffer := buf\<rparr>))
            (read_loop (nat samplesToRead) [] (audioBuffer r)))"

definition getAvailableSamples :: "AudioRecorder \<Rightarrow> int" where
  "getAvailableSamples r = int (length (audioBuffer r))"

definition recorder_clearBuffer :: "AudioRecorder \<Rightarrow> AudioRecorder" where
  "recorder_clearBuffer r = r\<lparr>audioBuffer := []\<rparr>"

definition recorder_onAudioReady :: "i16 list \<Rightarrow> AudioRecorder \<Rightarrow> AudioRecorder" where
  "recorder_onAudioReady audioData r =
    r\<lparr>audioBuffer := foldl (\<lambda>buf x. if length buf < 160000 then buf @ [x] else buf)
        (audioBuffer r) audioData\<rparr>"

section \<open>AudioPlayer\<close>

record AudioPlayer =
  play_stream :: bool
  playbackBuffer :: "i16 list"
  isPlaying :: bool
  sampleRate :: int
  channelCount :: int

definition new_AudioPlayer :: AudioPlayer where
  "new_AudioPlayer = \<lparr>play_stream = False, playbackBuffer = [], isPlaying = False,
     sampleRate = 16000, channelCount = 1\<rparr>"

definition player_start :: "bool \<Rightarrow> bool \<Rightarrow> int \<Rightarrow> int \<Rightarrow> AudioPlayer \<Rightarrow> bool \<times> AudioPlayer" where
  "player_start open_ok start_ok rate channels p =
    (if play_stream p then (True, p)
     else
       (let p = p\<lparr>sampleRate := rate, channelCount := channels\<rparr> in
        if \<not> open_ok then (False, p)
        else if \<not> start_ok then (False, p\<lparr>play_stream := False\<rparr>)
        else (True, p\<lparr>play_stream := True, isPlaying := True\<rparr>)))"

definition player_stop :: "AudioPlayer \<Rightarrow> AudioPlayer" where
  "player_stop p = p\<lparr>play_stream := False, isPlaying := False\<rparr>"

definition queueAudioData :: "i16 list \<Rightarrow> AudioPlayer \<Rightarrow> AudioPlayer" where
  "queueAudioData d p = p\<lparr>playbackBuffer := foldl (\<lambda>buf x. buf @ [x]) (playbackBuffer p) d\<rparr>"

definition player_clearBuffer :: "AudioPlayer \<Rightarrow> AudioPlayer" where
  "player_clearBuffer p = p\<lparr>playbackBuffer := []\<rparr>"

text \<open>The callback fills \<open>numFrames * channelCount\<close> samples.\<close>

fun fill_loop :: "nat \<Rightarrow> i16 list \<Rightarrow> i16 list \<Rightarrow> i16 list \<times> i16 list" where
  "fill_loop 0 outp buf = (outp, buf)"
| "fill_loop (Suc n) outp (x # buf) = fill_loop n (outp @ [x]) buf"
| "fill_loop (Suc n) outp [] = fill_loop n (outp @ [0]) []"

definition player_onAudioReady :: "int \<Rightarrow> AudioPlayer \<Rightarrow> i16 list \<times> AudioPlayer" where
  "player_onAudioReady numFrames p =
    (let (outp, buf) = fill_loop (nat (numFrames * channelCount p)) [] (playbackBuffer p)
     in (outp, p\<lparr>playbackBuffer := buf\<rparr>))"

section \<open>JNI functions\<close>

record audio_world =
  g_recorder :: "AudioRecorder option"
  g_player :: "AudioPlayer option"

definition nativeStartRecording :: "bool \<Rightarrow> bool \<Rightarrow> audio_world \<Rightarrow> bool \<times> audio_world" where
  "nativeStartRecording open_ok start_ok w =
    (let r = (case g_recorder w of None \<Rightarrow> new_AudioRecorder | Some r \<Rightarrow> r);
         (ok, r') = recorder_start open_ok start_ok r
     in (ok, w\<lparr>g_recorder := Some r'\<rparr>))"

definition nativeStopRecording :: "audio_world \<Rightarrow> audio_world" where
  "nativeStopRecording w = w\<lparr>g_recorder := map_option recorder_stop (g_recorder w)\<rparr>"

text \<open>The samples as the bytes of a little-endian array.\<close>

definition sample_bytes :: "i16 \<Rightarrow> u8 list" where
  "sample_bytes x = [ucast x, ucast (drop_bit 8 x)]"

definition sample_of_bytes :: "u8 \<Rightarrow> u8 \<Rightarrow> i16" where
  "sample_of_bytes lo hi = ucast lo OR push_bit 8 (ucast hi)"

definition to_byte_array :: "i16 list \<Rightarrow> u8 list" where
  "to_byte_array d = concat (map sample_bytes d)"

text \<open>\<open>GetByteArrayRegion\<close> copies all \<open>len\<close> bytes into a vector of \<open>len / 2\<close> samples: one byte too
  many when \<open>len\<close> is odd.\<close>

fun from_byte_array :: "u8 list \<Rightarrow> i16 list option" where
  "from_byte_array [] = Some []"
| "from_byte_array [b] = None"
| "from_byte_array (lo # hi # r) = map_option ((#) (sample_of_bytes lo hi)) (from_byte_array r)"

text \<open>The outer \<open>None\<close> is the exception, the inner one the null array.\<close>

definition nativeReadAudioData :: "int \<Rightarrow> audio_world \<Rightarrow> (u8 list option \<times> audio_world) option" where
  "nativeReadAudioData maxSamples w =
    (case g_recorder w of
       None \<Rightarrow> Some (None, w)
     | Some r \<Rightarrow>
         (case getAudioData maxSamples r of
            None \<Rightarrow> None
          | Some (d, r') \<Rightarrow>
              (let w' = w\<lparr>g_recorder := Some r'\<rparr> in
               if d = [] then Some (None, w') else Some (Some (to_byte_array d), w'))))"

definition nativeGetAvailableSamples :: "audio_world \<Rightarrow> int" where
  "nativeGetAvailableSamples w =
    (case g_recorder w of None \<Rightarrow> 0 | Some r \<Rightarrow> getAvailableSamples r)"

definition nativeClearRecordingBuffer :: "audio_world \<Rightarrow> audio_world" where
  "nativeClearRecordingBuffer w = w\<lparr>g_recorder := map_option recorder_clearBuffer (g_recorder w)\<rparr>"

definition nativeStartPlayback ::
  "bool \<Rightarrow> bool \<Rightarrow> int \<Rightarrow> int \<Rightarrow> audio_world \<Rightarrow> bool \<times> audio_world" where
  "nativeStartPlayback open_ok start_ok rate channels w =
    (let p = (case g_player w of None \<Rightarrow> new_AudioPlayer | Some p \<Rightarrow> p);
         (ok, p') = player_start open_ok start_ok rate channels p
     in (ok, w\<lparr>g_player := Some p'\<rparr>))"

definition nativeStopPlayback :: "audio_world \<Rightarrow> audio_world" where
  "nativeStopPlayback w = w\<lparr>g_player := map_option player_stop (g_player w)\<rparr>"

definition nativeQueueAudioData :: "u8 list option \<Rightarrow> audio_world \<Rightarrow> audio_world option" where
  "nativeQueueAudioData audioData w =
    (case (g_player w, audioData) of
       (Some p, Some bs) \<Rightarrow>
         (case from_byte_array bs of
            None \<Rightarrow> None
          | Some d \<Rightarrow> Some (w\<lparr>g_player := Some (queueAudioData d p)\<rparr>))
     | _ \<Rightarrow> Some w)"

definition nativeClearPlaybackBuffer :: "audio_world \<Rightarrow> audio_world" where
  "nativeClearPlaybackBuffer w = w\<lparr>g_player := map_option player_clearBuffer (g_player w)\<rparr>"

definition nativeCleanup :: "audio_world \<Rightarrow> audio_world" where
  "nativeCleanup w = w\<lparr>g_recorder := None, g_player := None\<rparr>"

section \<open>The queue interface\<close>

text \<open>
  What both queues promise: \<open>put\<close> appends a prefix of what it is given, as long as \<open>limit\<close> says for a queue of
  that length, \<open>get\<close> takes samples off the front.  What follows for a whole run is stated with a
  specification that knows neither the queue nor its contents: \<open>flow\<close> follows the fill level through the
  operations and tells which samples are kept and how many come out.
\<close>

datatype 'a queue_op = Put "'a list" | Get nat

fun run_queue ::
  "('q \<Rightarrow> 'a list \<Rightarrow> 'q) \<Rightarrow> ('q \<Rightarrow> nat \<Rightarrow> 'a list \<times> 'q) \<Rightarrow> 'q \<Rightarrow> 'a queue_op list \<Rightarrow> 'a list \<times> 'q" where
  "run_queue put get q [] = ([], q)"
| "run_queue put get q (Put xs # ops) = run_queue put get (put q xs) ops"
| "run_queue put get q (Get n # ops) =
    (let (xs, q1) = get q n; (ys, q2) = run_queue put get q1 ops in (xs @ ys, q2))"

fun flow :: "(nat \<Rightarrow> nat \<Rightarrow> nat) \<Rightarrow> nat \<Rightarrow> 'a queue_op list \<Rightarrow> 'a list \<times> nat" where
  "flow limit k [] = ([], 0)"
| "flow limit k (Put xs # ops) =
    (let m = limit k (length xs); (kept, n_out) = flow limit (k + m) ops in (take m xs @ kept, n_out))"
| "flow limit k (Get n # ops) =
    (let (kept, n_out) = flow limit (k - n) ops in (kept, min n k + n_out))"

locale sample_fifo =
  fixes put :: "'q \<Rightarrow> 'a list \<Rightarrow> 'q"
    and get :: "'q \<Rightarrow> nat \<Rightarrow> 'a list \<times> 'q"
    and elems :: "'q \<Rightarrow> 'a list"
    and limit :: "nat \<Rightarrow> nat \<Rightarrow> nat"
    and inv :: "'q \<Rightarrow> bool"
  assumes put_elems: "inv q \<Longrightarrow> elems (put q xs) = elems q @ take (limit (length (elems q)) (length xs)) xs"
    and limit_le: "limit k m \<le> m"
    and put_inv: "inv q \<Longrightarrow> inv (put q xs)"
    and get_front: "inv q \<Longrightarrow> fst (get q n) = take n (elems q)"
    and get_elems: "inv q \<Longrightarrow> elems (snd (get q n)) = drop n (elems q)"
    and get_inv: "inv q \<Longrightarrow> inv (snd (get q n))"
begin

lemma in_order:
  "inv q \<Longrightarrow> run_queue put get q ops = (ys, q') \<Longrightarrow> flow limit (length (elems q)) ops = (kept, n_out) \<Longrightarrow>
    ys = take n_out (elems q @ kept) \<and> elems q' = drop n_out (elems q @ kept) \<and> n_out \<le> length (elems q @ kept) \<and> inv q'"
proof (induction ops arbitrary: q ys kept n_out)
  case (Cons op ops)
  show ?case
  proof (cases op)
    case (Put xs)
    let ?m = "limit (length (elems q)) (length xs)"
    have e: "elems (put q xs) = elems q @ take ?m xs" using put_elems Cons.prems(1) by blast
    obtain kept1 n1 where f: "flow limit (length (elems q) + ?m) ops = (kept1, n1)" by fastforce
    have "length (elems (put q xs)) = length (elems q) + ?m" using limit_le [of "length (elems q)" "length xs"] by (simp add: e)
    with f have f': "flow limit (length (elems (put q xs))) ops = (kept1, n1)" by simp
    have k: "kept = take ?m xs @ kept1" "n_out = n1" using Cons.prems(3) f by (simp_all add: Put Let_def)
    have run: "inv (put q xs)" "run_queue put get (put q xs) ops = (ys, q')"
      using Cons.prems put_inv by (simp_all add: Put)
    have e': "elems q @ kept = elems (put q xs) @ kept1" by (simp add: e k)
    show ?thesis unfolding e' k(2) by (rule Cons.IH [OF run f'])
  next
    case (Get n)
    let ?q = "snd (get q n)"
    obtain zs where z: "run_queue put get ?q ops = (zs, q')" "ys = take n (elems q) @ zs"
      using Cons.prems(2) get_front [OF Cons.prems(1), of n] by (auto simp: Get split: prod.splits)
    obtain kept1 n1 where f: "flow limit (length (elems q) - n) ops = (kept1, n1)" by fastforce
    have e: "elems ?q = drop n (elems q)" "inv ?q" using get_elems get_inv Cons.prems(1) by blast+
    have k: "kept = kept1" "n_out = min n (length (elems q)) + n1" using Cons.prems(3) f by (simp_all add: Get)
    define front where "front = take n (elems q)"
    have "elems q @ kept = front @ (elems ?q @ kept1)" "min n (length (elems q)) = length front"
      by (simp_all add: e k(1) front_def min.commute)
    with Cons.IH [OF e(2) z(1), of kept1 n1] f e(1) show ?thesis
      unfolding z(2) k(2) by (simp add: front_def [symmetric])
  qed
qed simp

end

section \<open>The recorder is such a queue\<close>

lemma read_loop_eq:
  "n \<le> length buf \<Longrightarrow> read_loop n result buf = Some (result @ take n buf, drop n buf)"
  by (induction n result buf rule: read_loop.induct) simp_all

lemma getAudioData_eq:
  "0 \<le> maxSamples \<Longrightarrow> getAudioData maxSamples r =
    Some (take (nat maxSamples) (audioBuffer r),
          r\<lparr>audioBuffer := drop (nat maxSamples) (audioBuffer r)\<rparr>)"
  by (simp add: getAudioData_def Let_def read_loop_eq min_def)

lemma record_loop_eq:
  "length buf \<le> c \<Longrightarrow>
    foldl (\<lambda>buf x. if length buf < c then buf @ [x] else buf) buf xs = buf @ take (c - length buf) xs"
proof (induction xs arbitrary: buf)
  case (Cons x xs)
  show ?case
  proof (cases "length buf < c")
    case True
    then have "c - length buf = Suc (c - length (buf @ [x]))" by simp
    then show ?thesis using True Cons.IH [of "buf @ [x]"] by simp
  qed (use Cons in simp)
qed simp

definition recorder_put :: "AudioRecorder \<Rightarrow> i16 list \<Rightarrow> AudioRecorder" where
  "recorder_put r d = recorder_onAudioReady d r"

definition recorder_get :: "AudioRecorder \<Rightarrow> nat \<Rightarrow> i16 list \<times> AudioRecorder" where
  "recorder_get r n = the (getAudioData (int n) r)"

definition recorder_ok :: "AudioRecorder \<Rightarrow> bool" where
  "recorder_ok r \<longleftrightarrow> length (audioBuffer r) \<le> 160000"

lemma recorder_put_buffer:
  "recorder_ok r \<Longrightarrow> audioBuffer (recorder_put r d)
    = audioBuffer r @ take (160000 - length (audioBuffer r)) d"
  by (simp add: recorder_put_def recorder_onAudioReady_def recorder_ok_def record_loop_eq)

definition recorder_limit :: "nat \<Rightarrow> nat \<Rightarrow> nat" where
  "recorder_limit k m = min (160000 - k) m"

interpretation rq: sample_fifo recorder_put recorder_get audioBuffer recorder_limit recorder_ok
proof
  fix r :: AudioRecorder and d :: "i16 list" and n :: nat
  assume ok: "recorder_ok r"
  show "audioBuffer (recorder_put r d)
      = audioBuffer r @ take (recorder_limit (length (audioBuffer r)) (length d)) d"
    using recorder_put_buffer [OF ok] by (simp add: recorder_limit_def min_def)
  show "recorder_ok (recorder_put r d)"
    using ok recorder_put_buffer [OF ok, of d] by (simp add: recorder_ok_def)
  show "fst (recorder_get r n) = take n (audioBuffer r)"
    "audioBuffer (snd (recorder_get r n)) = drop n (audioBuffer r)"
    "recorder_ok (snd (recorder_get r n))"
    using ok by (simp_all add: recorder_get_def getAudioData_eq recorder_ok_def)
qed (simp add: recorder_limit_def)

section \<open>The player is such a queue, padded with silence\<close>

lemma fill_loop_eq:
  "fill_loop n outp buf = (outp @ take n buf @ replicate (n - length buf) 0, drop n buf)"
  by (induction n outp buf rule: fill_loop.induct) simp_all

lemma queue_loop_eq: "foldl (\<lambda>buf x. buf @ [x]) buf d = buf @ d"
  by (induction d arbitrary: buf) simp_all

definition player_put :: "AudioPlayer \<Rightarrow> i16 list \<Rightarrow> AudioPlayer" where
  "player_put p d = queueAudioData d p"

text \<open>One callback for \<open>n\<close> frames, without the padding.\<close>

definition player_get :: "AudioPlayer \<Rightarrow> nat \<Rightarrow> i16 list \<times> AudioPlayer" where
  "player_get p n =
    (let (outp, p') = player_onAudioReady (int n) p in (take (length (playbackBuffer p)) outp, p'))"

definition player_mono :: "AudioPlayer \<Rightarrow> bool" where
  "player_mono p \<longleftrightarrow> channelCount p = 1"

interpretation pq: sample_fifo player_put player_get playbackBuffer "\<lambda>k m. m" player_mono
proof
  fix p :: AudioPlayer and d :: "i16 list" and n :: nat
  assume mono: "player_mono p"
  show "playbackBuffer (player_put p d) = playbackBuffer p @ take (length d) d"
    by (simp add: player_put_def queueAudioData_def queue_loop_eq)
  show "player_mono (player_put p d)" using mono by (simp add: player_mono_def player_put_def queueAudioData_def)
  show "fst (player_get p n) = take n (playbackBuffer p)"
    "playbackBuffer (snd (player_get p n)) = drop n (playbackBuffer p)"
    "player_mono (snd (player_get p n))"
    using mono by (simp_all add: player_get_def player_onAudioReady_def fill_loop_eq player_mono_def
        min_def not_le)
qed simp

section \<open>Bytes and samples\<close>

lemma sample_round_trip: "sample_of_bytes (ucast x) (ucast (drop_bit 8 x)) = (x :: i16)"
  unfolding sample_of_bytes_def
  by (rule bit_eqI) (auto simp: bit_simps not_le)

lemma from_to_byte_array: "from_byte_array (to_byte_array d) = Some d"
  by (induction d) (simp_all add: to_byte_array_def sample_bytes_def sample_round_trip)

lemma from_byte_array_None: "from_byte_array bs = None \<longleftrightarrow> odd (length bs)"
  by (induction bs rule: from_byte_array.induct) simp_all

section \<open>Properties\<close>

text \<open>C32: The recorder is a bounded queue of ten seconds at 16 kHz, whatever mix of callbacks and reads: a callback's
  samples are kept from the first on as long as the buffer has fewer than 160000, the rest are dropped; a
  read of \<open>n\<close> gives \<open>n\<close> samples or as many as there are.  What Java has read are the first samples of the
  stream of those already buffered and those kept, what is buffered is the rest, in order and without a gap.\<close>

theorem recorder_stream_in_order:
  assumes "length (audioBuffer r) \<le> 160000" "run_queue recorder_put recorder_get r ops = (ys, r')"
    and "flow (\<lambda>k m. min (160000 - k) m) (length (audioBuffer r)) ops = (kept, n_out)"
  shows "ys = take n_out (audioBuffer r @ kept) \<and> audioBuffer r' = drop n_out (audioBuffer r @ kept)
    \<and> length ys = n_out \<and> length (audioBuffer r') \<le> 160000"
proof -
  have "recorder_limit = (\<lambda>k m. min (160000 - k) m)" by (simp add: recorder_limit_def fun_eq_iff)
  with assms(1,3) have "ys = take n_out (audioBuffer r @ kept) \<and> audioBuffer r' = drop n_out (audioBuffer r @ kept)
      \<and> n_out \<le> length (audioBuffer r @ kept) \<and> recorder_ok r'"
    by (intro rq.in_order [OF _ assms(2)]) (simp_all add: recorder_ok_def)
  then show ?thesis unfolding recorder_ok_def by (metis length_take min_absorb2)
qed

theorem recorder_stream_in_order_witness:
  "run_queue recorder_put recorder_get new_AudioRecorder [Put [1, 2, 3], Get 2, Put [4], Get 5]
    = ([1, 2, 3, 4], new_AudioRecorder)"
proof -
  let ?ops = "[Put [1, 2, 3], Get 2, Put [4], Get 5]" and ?r = new_AudioRecorder
  obtain ys r' where run: "run_queue recorder_put recorder_get ?r ?ops = (ys, r')" by (metis surj_pair)
  have f: "flow (\<lambda>k m. min (160000 - k) m) (length (audioBuffer ?r)) ?ops = ([1, 2, 3, 4], 4)"
    by (simp add: new_AudioRecorder_def)
  have "ys = [1, 2, 3, 4]" "audioBuffer r' = []"
    using recorder_stream_in_order [OF _ run f] by (simp_all add: new_AudioRecorder_def)
  moreover have "r' = ?r\<lparr>audioBuffer := audioBuffer r'\<rparr>"
    using run by (auto simp: recorder_put_def recorder_onAudioReady_def recorder_get_def getAudioData_eq
        new_AudioRecorder_def)
  ultimately show ?thesis using run by (simp add: new_AudioRecorder_def)
qed

text \<open>A recording callback keeps the oldest 160000 samples and drops the newest; a read of a
  non-negative count returns the oldest samples and leaves the rest.\<close>

theorem recorder_drops_newest:
  assumes "length (audioBuffer r) \<le> 160000" "0 \<le> n"
  shows "audioBuffer (recorder_onAudioReady d r) = take 160000 (audioBuffer r @ d)
    \<and> getAudioData n r = Some (take (nat n) (audioBuffer r),
        r\<lparr>audioBuffer := drop (nat n) (audioBuffer r)\<rparr>)"
  using assms by (simp add: recorder_onAudioReady_def record_loop_eq getAudioData_eq)

theorem recorder_drops_newest_witness:
  "getAudioData 1 (recorder_onAudioReady [7, 8] new_AudioRecorder)
    = Some ([7], new_AudioRecorder\<lparr>audioBuffer := [8]\<rparr>)"
  using recorder_drops_newest [of new_AudioRecorder 0 "[7, 8]"]
    recorder_drops_newest [of "new_AudioRecorder\<lparr>audioBuffer := [7, 8]\<rparr>" 1 "[]"]
  by (simp add: new_AudioRecorder_def recorder_onAudioReady_def)

text \<open>A playback callback plays the queued samples first and then silence, exactly
  \<open>numFrames * channelCount\<close> samples, and consumes no more than it plays.\<close>

theorem player_callback:
  assumes "player_onAudioReady numFrames p = (outp, p')"
  shows "length outp = nat (numFrames * channelCount p)
    \<and> outp @ playbackBuffer p' = take (length outp) (playbackBuffer p)
        @ replicate (length outp - length (playbackBuffer p)) 0 @ drop (length outp) (playbackBuffer p)
    \<and> p' = p\<lparr>playbackBuffer := drop (length outp) (playbackBuffer p)\<rparr>"
proof -
  define k where "k = nat (numFrames * channelCount p)"
  have o: "outp = take k (playbackBuffer p) @ replicate (k - length (playbackBuffer p)) 0"
    "p' = p\<lparr>playbackBuffer := drop k (playbackBuffer p)\<rparr>"
    using assms by (simp_all add: player_onAudioReady_def fill_loop_eq k_def)
  then have l: "length outp = k" by simp
  show ?thesis unfolding l by (simp add: o k_def [symmetric])
qed

theorem player_callback_witness:
  "length (fst (player_onAudioReady 3 (new_AudioPlayer\<lparr>playbackBuffer := [5]\<rparr>))) = 3"
  using player_callback [of 3 "new_AudioPlayer\<lparr>playbackBuffer := [5]\<rparr>", OF prod.collapse [symmetric]]
  by (simp add: new_AudioPlayer_def)

text \<open>Audio read from the recorder as a byte array and queued for playback reaches the player's
  queue unchanged.\<close>

theorem record_then_play:
  assumes "g_recorder w = Some r" "g_player w = Some p" "0 < n" "audioBuffer r \<noteq> []"
  shows "\<exists>bs w'. nativeReadAudioData n w = Some (Some bs, w')
    \<and> nativeQueueAudioData (Some bs) w' = Some (w'\<lparr>g_player := Some (p\<lparr>playbackBuffer :=
         playbackBuffer p @ take (nat n) (audioBuffer r)\<rparr>)\<rparr>)"
  using assms
  by (simp add: nativeReadAudioData_def getAudioData_eq Let_def nativeQueueAudioData_def
      from_to_byte_array queueAudioData_def queue_loop_eq)

theorem record_then_play_witness:
  "\<exists>bs w'. nativeReadAudioData 4 \<lparr>g_recorder = Some (new_AudioRecorder\<lparr>audioBuffer := [258]\<rparr>),
      g_player = Some new_AudioPlayer\<rparr> = Some (Some bs, w')
    \<and> nativeQueueAudioData (Some bs) w' = Some (w'\<lparr>g_player := Some (new_AudioPlayer\<lparr>playbackBuffer :=
         [258]\<rparr>)\<rparr>)"
  using record_then_play [of "\<lparr>g_recorder = Some (new_AudioRecorder\<lparr>audioBuffer := [258]\<rparr>),
      g_player = Some new_AudioPlayer\<rparr>" "new_AudioRecorder\<lparr>audioBuffer := [258]\<rparr>" new_AudioPlayer 4]
  by (simp add: new_AudioPlayer_def)

text \<open>Queueing a byte array of odd length writes past the end of the sample vector; even lengths are
  safe.\<close>

theorem queue_odd_array_overflows:
  "nativeQueueAudioData (Some bs) \<lparr>g_recorder = rc, g_player = Some p\<rparr> = None \<longleftrightarrow> odd (length bs)"
  using from_byte_array_None [of bs]
  by (cases "from_byte_array bs") (simp_all add: nativeQueueAudioData_def)

end
