(* ===== verification/Vad_Jni.thy ===== *)
theory Vad_Jni
  imports Audio_Queues
begin

text \<open>
  \<open>vad_jni.cpp\<close>: voice-activity detection over an ONNX session, with the recurrent state of the
  network kept between calls.

  ONNX Runtime is not part of this code: creating its environment and a session may fail, and a
  session is a value of type \<open>'x\<close> that the argument \<open>run\<close> applies to the 512 samples, the 256
  state values and the sample rate; \<open>None\<close> is a thrown exception, and \<open>Some (p, st)\<close> the
  probability and the new state.  A handle is the address of a context.  The result \<open>None\<close> of an
  operation is undefined behaviour: a handle that is not live, or a state output of fewer than 256
  values.  C++ floats are reals.
\<close>

section \<open>State\<close>

record 'x VADContext =
  session :: "'x option"
  state_h :: "real list"
  state_c :: "real list"
  isLoaded :: bool
  vad_sampleRate :: int

definition new_VADContext :: "'x VADContext" where
  "new_VADContext = \<lparr>session = None, state_h = replicate 128 0, state_c = replicate 128 0,
     isLoaded = False, vad_sampleRate = 16000\<rparr>"

record 'x vad_world =
  contexts :: "nat \<Rightarrow> 'x VADContext option"
  onnxEnv :: bool
  instanceCount :: int

definition initial_vad_world :: "'x vad_world" where
  "initial_vad_world = \<lparr>contexts = \<lambda>_. None, onnxEnv = False, instanceCount = 0\<rparr>"

section \<open>Operations\<close>

definition initONNXEnv :: "bool \<Rightarrow> 'x vad_world \<Rightarrow> bool \<times> 'x vad_world" where
  "initONNXEnv env_ok w =
    (if onnxEnv w then (True, w) else if env_ok then (True, w\<lparr>onnxEnv := True\<rparr>) else (False, w))"

text \<open>\<open>addr\<close> is the address \<open>new\<close> returns, \<open>None\<close> when it throws.\<close>

definition vad_nativeInit :: "bool \<Rightarrow> nat option \<Rightarrow> 'x vad_world \<Rightarrow> nat \<times> 'x vad_world" where
  "vad_nativeInit env_ok addr w =
    (let (ok, w1) = initONNXEnv env_ok w in
     if \<not> ok then (0, w1)
     else case addr of
       None \<Rightarrow> (0, w1)
     | Some a \<Rightarrow> (a, w1\<lparr>contexts := (contexts w1)(a \<mapsto> new_VADContext),
                         instanceCount := instanceCount w1 + 1\<rparr>))"

definition vad_nativeRelease :: "nat \<Rightarrow> 'x vad_world \<Rightarrow> 'x vad_world option" where
  "vad_nativeRelease handle w =
    (if handle = 0 then Some w
     else case contexts w handle of
       None \<Rightarrow> None
     | Some _ \<Rightarrow> Some (w\<lparr>contexts := (contexts w)(handle := None),
                         instanceCount := instanceCount w - 1\<rparr>))"

text \<open>\<open>path_ok\<close>: \<open>GetStringUTFChars\<close> succeeds; \<open>new_session\<close> is \<open>None\<close> when the constructor throws, \<open>mem_ok\<close> is false when
  the session is there but the creation of its \<open>MemoryInfo\<close> throws.\<close>

definition vad_nativeLoadModel ::
  "nat \<Rightarrow> bool \<Rightarrow> 'x option \<Rightarrow> bool \<Rightarrow> 'x vad_world \<Rightarrow> (bool \<times> 'x vad_world) option" where
  "vad_nativeLoadModel handle path_ok new_session mem_ok w =
    (if handle = 0 then Some (False, w)
     else if \<not> onnxEnv w then Some (False, w)
     else if \<not> path_ok then Some (False, w)
     else case contexts w handle of
       None \<Rightarrow> (case new_session of None \<Rightarrow> Some (False, w) | Some _ \<Rightarrow> None)
     | Some c \<Rightarrow>
         (case new_session of
            None \<Rightarrow> Some (False, w)
          | Some x \<Rightarrow>
              if \<not> mem_ok then Some (False, w\<lparr>contexts := (contexts w)(handle \<mapsto> c\<lparr>session := Some x\<rparr>)\<rparr>)
              else Some (True, w\<lparr>contexts := (contexts w)(handle \<mapsto>
                         c\<lparr>session := Some x, isLoaded := True\<rparr>)\<rparr>)))"

definition sample_to_float :: "i16 \<Rightarrow> real" where
  "sample_to_float x = of_int (sint x) / 32768"

text \<open>\<open>audio\<close> is \<open>None\<close> when \<open>GetShortArrayElements\<close> fails.\<close>

definition vad_nativeDetectSpeech ::
  "('x \<Rightarrow> real list \<Rightarrow> real list \<Rightarrow> int \<Rightarrow> (real \<times> real list) option) \<Rightarrow> nat \<Rightarrow> i16 list option
    \<Rightarrow> 'x vad_world \<Rightarrow> (real \<times> 'x vad_world) option" where
  "vad_nativeDetectSpeech run handle audio w =
    (if handle = 0 then Some (-1, w)
     else case contexts w handle of
       None \<Rightarrow> None
     | Some c \<Rightarrow>
         (case (isLoaded c, session c) of
            (True, Some x) \<Rightarrow>
              (case audio of
                 None \<Rightarrow> Some (-1, w)
               | Some d \<Rightarrow>
                   if length d = 0 then Some (-1, w)
                   else if length d \<noteq> 512 then Some (-1, w)
                   else
                     (let inputData = map sample_to_float d;
                          stateData = take 128 (state_h c) @ take 128 (state_c c)
                      in case run x inputData stateData (vad_sampleRate c) of
                           None \<Rightarrow> Some (-1, w)
                         | Some (speechProb, newState) \<Rightarrow>
                             if length newState < 256 then None
                             else Some (speechProb, w\<lparr>contexts := (contexts w)(handle \<mapsto>
                                    c\<lparr>state_h := take 128 newState,
                                      state_c := take 128 (drop 128 newState)\<rparr>)\<rparr>)))
          | _ \<Rightarrow> Some (-1, w)))"

definition vad_nativeReset :: "nat \<Rightarrow> 'x vad_world \<Rightarrow> 'x vad_world option" where
  "vad_nativeReset handle w =
    (if handle = 0 then Some w
     else case contexts w handle of
       None \<Rightarrow> None
     | Some c \<Rightarrow> Some (w\<lparr>contexts := (contexts w)(handle \<mapsto>
         c\<lparr>state_h := replicate 128 0, state_c := replicate 128 0\<rparr>)\<rparr>))"

section \<open>Counting contexts\<close>

definition vad_ok :: "'x vad_world \<Rightarrow> bool" where
  "vad_ok w \<longleftrightarrow> finite (dom (contexts w)) \<and> instanceCount w = int (card (dom (contexts w)))
    \<and> (\<forall>a c. contexts w a = Some c \<longrightarrow> length (state_h c) = 128 \<and> length (state_c c) = 128)"

lemma vad_ok_init [inv_intros]:
  assumes "vad_ok w" "addr \<noteq> None \<Longrightarrow> contexts w (the addr) = None"
  shows "vad_ok (snd (vad_nativeInit env_ok addr w))"
  using assms
  by (cases addr)
     (auto simp: vad_ok_def vad_nativeInit_def initONNXEnv_def new_VADContext_def Let_def domIff
       split: if_splits)

lemma vad_ok_release [inv_intros]:
  assumes "vad_ok w" "vad_nativeRelease handle w = Some w'"
  shows "vad_ok w'"
proof (cases "handle = 0")
  case False
  then obtain c where c: "contexts w handle = Some c"
    "w' = w\<lparr>contexts := (contexts w)(handle := None), instanceCount := instanceCount w - 1\<rparr>"
    using assms(2) by (auto simp: vad_nativeRelease_def split: option.splits)
  then have "handle \<in> dom (contexts w)" by blast
  then have "card (dom (contexts w)) = Suc (card (dom (contexts w) - {handle}))"
    using assms(1) by (metis card_Suc_Diff1 vad_ok_def)
  then show ?thesis using assms(1) c by (auto simp: vad_ok_def split: if_splits)
qed (use assms in \<open>simp add: vad_nativeRelease_def\<close>)

lemma vad_ok_update:
  assumes "vad_ok w" "contexts w a = Some c" "length (state_h c') = 128" "length (state_c c') = 128"
  shows "vad_ok (w\<lparr>contexts := (contexts w)(a \<mapsto> c')\<rparr>)"
proof -
  have "insert a (dom (contexts w)) = dom (contexts w)" using assms(2) by blast
  with assms show ?thesis by (auto simp: vad_ok_def)
qed

lemma vad_ok_state:
  "vad_ok w \<Longrightarrow> contexts w a = Some c \<Longrightarrow> length (state_h c) = 128 \<and> length (state_c c) = 128"
  by (simp add: vad_ok_def)

lemma vad_ok_load [inv_intros]:
  assumes "vad_ok w" "vad_nativeLoadModel handle p s m w = Some (b, w')"
  shows "vad_ok w'"
  using assms vad_ok_state [OF assms(1)]
  by (auto simp: vad_nativeLoadModel_def split: if_splits option.splits intro!: vad_ok_update [OF assms(1)])

lemma vad_ok_detect [inv_intros]:
  assumes "vad_ok w" "vad_nativeDetectSpeech run handle audio w = Some (p, w')"
  shows "vad_ok w'"
  using assms
  by (auto simp: vad_nativeDetectSpeech_def Let_def split: if_splits option.splits bool.splits
      intro!: vad_ok_update [OF assms(1)])

lemma vad_ok_reset [inv_intros]:
  assumes "vad_ok w" "vad_nativeReset handle w = Some w'"
  shows "vad_ok w'"
  using assms
  by (auto simp: vad_nativeReset_def split: if_splits option.splits intro!: vad_ok_update [OF assms(1)])

section \<open>A stream of frames\<close>

fun detect_frames ::
  "('x \<Rightarrow> real list \<Rightarrow> real list \<Rightarrow> int \<Rightarrow> (real \<times> real list) option) \<Rightarrow> nat \<Rightarrow> i16 list list
    \<Rightarrow> 'x vad_world \<Rightarrow> (real list \<times> 'x vad_world) option" where
  "detect_frames run handle [] w = Some ([], w)"
| "detect_frames run handle (d # ds) w =
    (case vad_nativeDetectSpeech run handle (Some d) w of
       None \<Rightarrow> None
     | Some (p, w1) \<Rightarrow> map_option (\<lambda>(ps, w2). (p # ps, w2)) (detect_frames run handle ds w1))"

text \<open>The specification: the network folded over the frames, its 256 state values in one list.\<close>

fun vad_spec ::
  "(real list \<Rightarrow> real list \<Rightarrow> real \<times> real list) \<Rightarrow> real list \<Rightarrow> i16 list list \<Rightarrow> real list" where
  "vad_spec net st [] = []"
| "vad_spec net st (d # ds) =
    (let (p, st') = net (map sample_to_float d) st in p # vad_spec net (take 256 st') ds)"

lemma detect_frames_spec:
  assumes run: "\<And>i s. run x i s 16000 = Some (net i s)" and len: "\<And>i s. 256 \<le> length (snd (net i s))"
  shows "handle \<noteq> 0 \<Longrightarrow> contexts w handle = Some c \<Longrightarrow> isLoaded c \<Longrightarrow> session c = Some x \<Longrightarrow>
    vad_sampleRate c = 16000 \<Longrightarrow> length (state_h c) = 128 \<Longrightarrow> length (state_c c) = 128 \<Longrightarrow>
    \<forall>d \<in> set ds. length d = 512 \<Longrightarrow>
    \<exists>w'. detect_frames run handle ds w = Some (vad_spec net (state_h c @ state_c c) ds, w')"
proof (induction ds arbitrary: w c)
  case (Cons d ds)
  obtain p st where n: "net (map sample_to_float d) (state_h c @ state_c c) = (p, st)" by (metis surj_pair)
  have l: "256 \<le> length st" using len [of "map sample_to_float d" "state_h c @ state_c c"] n by simp
  define c' where "c' = c\<lparr>state_h := take 128 st, state_c := take 128 (drop 128 st)\<rparr>"
  have hc: "state_h c' @ state_c c' = take 256 st"
    using take_add [of 128 128 st] by (simp add: c'_def)
  have step: "vad_nativeDetectSpeech run handle (Some d) w
      = Some (p, w\<lparr>contexts := (contexts w)(handle \<mapsto> c')\<rparr>)"
    using Cons.prems l by (simp add: vad_nativeDetectSpeech_def run n Let_def c'_def)
  obtain w' where "detect_frames run handle ds (w\<lparr>contexts := (contexts w)(handle \<mapsto> c')\<rparr>)
      = Some (vad_spec net (state_h c' @ state_c c') ds, w')"
    using Cons.IH [of "w\<lparr>contexts := (contexts w)(handle \<mapsto> c')\<rparr>" c'] Cons.prems l
    by (auto simp: c'_def)
  then show ?case by (simp add: step n hc)
qed simp

section \<open>Properties\<close>

text \<open>C33: After a reset, the probabilities that a sequence of frames produces are those of the network
  folded over the frames from the zero state: the recurrent state is threaded through the calls and
  nothing else is kept.\<close>

theorem vad_stream_refines_network:
  assumes net: "\<forall>i s. run x i s 16000 = Some (net i s)" "\<forall>i s. length (snd (net i s)) = 256"
    and c: "handle \<noteq> 0" "contexts w handle = Some c" "isLoaded c" "session c = Some x"
      "vad_sampleRate c = 16000"
    and frames: "\<forall>d \<in> set ds. length d = 512"
  shows "\<exists>w1 w2. vad_nativeReset handle w = Some w1
    \<and> detect_frames run handle ds w1 = Some (vad_spec net (replicate 256 0) ds, w2)"
proof -
  let ?c = "c\<lparr>state_h := replicate 128 0, state_c := replicate 128 0\<rparr>"
  let ?w = "w\<lparr>contexts := (contexts w)(handle \<mapsto> ?c)\<rparr>"
  have "vad_nativeReset handle w = Some ?w" using c by (simp add: vad_nativeReset_def)
  moreover have "replicate 128 0 @ replicate 128 (0::real) = replicate 256 0"
    by (simp add: replicate_add [symmetric])
  moreover have "\<exists>w'. detect_frames run handle ds ?w = Some (vad_spec net (state_h ?c @ state_c ?c) ds, w')"
    by (rule detect_frames_spec [where x = x]) (use net c frames in simp_all)
  ultimately show ?thesis by auto
qed

theorem vad_stream_refines_network_witness:
  "\<exists>w1 w2. vad_nativeReset 8 \<lparr>contexts = [8 \<mapsto> (new_VADContext :: unit VADContext)\<lparr>session := Some (), isLoaded := True\<rparr>],
      onnxEnv = True, instanceCount = 1\<rparr> = Some w1
    \<and> detect_frames (\<lambda>_ i s _. Some (hd i, replicate 256 (hd s + 1))) 8 [replicate 512 16384, replicate 512 0] w1
      = Some ([1 / 2, 0], w2)"
proof -
  let ?w = "\<lparr>contexts = [8 \<mapsto> (new_VADContext :: unit VADContext)\<lparr>session := Some (), isLoaded := True\<rparr>],
      onnxEnv = True, instanceCount = 1\<rparr>"
  let ?run = "\<lambda>_ i s _. Some (hd i, replicate 256 (hd s + 1))"
  have "sample_to_float 16384 = 1 / 2" "sample_to_float 0 = 0" by (simp_all add: sample_to_float_def)
  then have "vad_spec (\<lambda>i s. (hd i, replicate 256 (hd s + 1))) (replicate 256 0) [replicate 512 16384, replicate 512 0]
      = [1 / 2, 0]" by simp
  moreover have "\<exists>w1 w2. vad_nativeReset 8 ?w = Some w1
    \<and> detect_frames ?run 8 [replicate 512 16384, replicate 512 0] w1
      = Some (vad_spec (\<lambda>i s. (hd i, replicate 256 (hd s + 1))) (replicate 256 0)
          [replicate 512 16384, replicate 512 0], w2)"
    by (rule vad_stream_refines_network [where x = "()" and
          c = "new_VADContext\<lparr>session := Some (), isLoaded := True\<rparr>"])
       (simp_all add: new_VADContext_def)
  ultimately show ?thesis by (simp only:)
qed

text \<open>A failed load is not always without effect: when only the creation of the \<open>MemoryInfo\<close> fails, a model loaded
  before has been replaced although the call returns false, and it answers the following frames.\<close>

theorem failed_load_replaces_session:
  assumes "handle \<noteq> 0" "onnxEnv w" "contexts w handle = Some c"
  shows "vad_nativeLoadModel handle True (Some x) False w
    = Some (False, w\<lparr>contexts := (contexts w)(handle \<mapsto> c\<lparr>session := Some x\<rparr>)\<rparr>)"
  using assms by (simp add: vad_nativeLoadModel_def)

text \<open>Every way a detection can fail (no model, an unreadable, empty or wrongly sized frame, an
  exception of the runtime) returns -1 and leaves the recurrent state alone.\<close>

theorem vad_failure_keeps_state:
  assumes "contexts w handle = Some c"
    and "\<not> isLoaded c \<or> session c = None \<or> audio = None \<or> length (the audio) \<noteq> 512
      \<or> run (the (session c)) (map sample_to_float (the audio)) (take 128 (state_h c) @ take 128 (state_c c))
          (vad_sampleRate c) = None"
  shows "vad_nativeDetectSpeech run handle audio w = Some (-1, w)"
  using assms
  by (cases "session c"; cases audio; cases "isLoaded c")
     (auto simp: vad_nativeDetectSpeech_def Let_def)

theorem vad_failure_keeps_state_witness:
  "vad_nativeDetectSpeech (\<lambda>x i s r. None) 8 (Some [1, 2, 3])
     \<lparr>contexts = [8 \<mapsto> (new_VADContext :: unit VADContext)], onnxEnv = True, instanceCount = 1\<rparr>
   = Some (-1, \<lparr>contexts = [8 \<mapsto> new_VADContext], onnxEnv = True, instanceCount = 1\<rparr>)"
  by (rule vad_failure_keeps_state [where c = new_VADContext]) (simp_all add: new_VADContext_def)

end
