(* ===== verification/Whisper_Jni.thy ===== *)
theory Whisper_Jni
  imports Utf8_Sanitize Vad_Jni
begin

text \<open>
  \<open>whisper_jni.cpp\<close>: loading a whisper model behind a handle and transcribing one utterance:
  truncation, conversion to floats, linear resampling to 16 kHz, the length guard, the attempt to
  take the inference lock, and the trimming and filtering of the text.

  The whisper library is an argument: \<open>init\<close> loads a model, and \<open>full\<close> maps a context and samples
  to the return code, the context afterwards and the texts of its segments.  Samples are reals.
  The result \<open>None\<close> is undefined behaviour: a handle that is not live, or a length computed from a
  sample rate that is not positive.
\<close>

section \<open>Contexts\<close>

record 'x WhisperContext =
  wctx :: "'x option"
  model_loaded :: bool

definition new_WhisperContext :: "'x WhisperContext" where
  "new_WhisperContext = \<lparr>wctx = None, model_loaded = False\<rparr>"

type_synonym 'x whisper_heap = "nat \<Rightarrow> 'x WhisperContext option"

definition whisper_nativeInit :: "nat \<Rightarrow> 'x whisper_heap \<Rightarrow> nat \<times> 'x whisper_heap" where
  "whisper_nativeInit a w = (a, w(a \<mapsto> new_WhisperContext))"

text \<open>The second component is the context given to \<open>whisper_free\<close>.\<close>

definition whisper_nativeRelease :: "nat \<Rightarrow> 'x whisper_heap \<Rightarrow> ('x whisper_heap \<times> 'x option) option" where
  "whisper_nativeRelease handle w =
    (if handle = 0 then Some (w, None)
     else case w handle of None \<Rightarrow> None | Some c \<Rightarrow> Some (w(handle := None), wctx c))"

definition whisper_nativeLoadModel ::
  "(bytestring \<Rightarrow> 'x option) \<Rightarrow> nat \<Rightarrow> bytestring option \<Rightarrow> 'x whisper_heap
    \<Rightarrow> (bool \<times> 'x whisper_heap \<times> 'x option) option" where
  "whisper_nativeLoadModel init handle path w =
    (if handle = 0 then Some (False, w, None)
     else case w handle of
       None \<Rightarrow> None
     | Some c \<Rightarrow>
         (let freed = wctx c;
              c1 = (case wctx c of None \<Rightarrow> c | Some _ \<Rightarrow> c\<lparr>wctx := None, model_loaded := False\<rparr>)
          in case path of
               None \<Rightarrow> Some (False, w(handle \<mapsto> c1), freed)
             | Some p \<Rightarrow>
                 (case init p of
                    None \<Rightarrow> Some (False, w(handle \<mapsto> c1\<lparr>wctx := None\<rparr>), freed)
                  | Some x \<Rightarrow> Some (True, w(handle \<mapsto> c1\<lparr>wctx := Some x, model_loaded := True\<rparr>), freed))))"

section \<open>Resampling\<close>

definition resample_at :: "real list \<Rightarrow> real \<Rightarrow> nat \<Rightarrow> real" where
  "resample_at inp ratio i =
    (let src_idx = real i * ratio;
         src_i = nat \<lfloor>src_idx\<rfloor>;
         frac = src_idx - real src_i
     in if src_i \<ge> length inp - 1 then last inp
        else inp ! src_i * (1 - frac) + inp ! (src_i + 1) * frac)"

definition resample_audio :: "real list \<Rightarrow> int \<Rightarrow> int \<Rightarrow> real list option" where
  "resample_audio inp src_rate dst_rate =
    (if src_rate = dst_rate then Some inp
     else if src_rate \<le> 0 \<or> dst_rate < 0 then None
     else
       (let dst_length = nat \<lfloor>real (length inp) * real_of_int dst_rate / real_of_int src_rate\<rfloor>;
            ratio = real_of_int src_rate / real_of_int dst_rate
        in Some (map (resample_at inp ratio) [0..<dst_length])))"

section \<open>Transcription\<close>

definition is_blank :: "u8 \<Rightarrow> bool" where
  "is_blank b \<longleftrightarrow> b \<in> {0x20, 0x09, 0x0A, 0x0D}"

text \<open>\<open>find_first_not_of\<close>, \<open>find_last_not_of\<close> and \<open>substr\<close>.\<close>

definition trim_text :: "bytestring \<Rightarrow> bytestring" where
  "trim_text s =
    (let start = length (takeWhile is_blank s) in
     if start < length s then
       (let end = length s - 1 - length (takeWhile is_blank (rev s))
        in take (end - start + 1) (drop start s))
     else [])"

definition join_segments :: "bytestring option list \<Rightarrow> bytestring" where
  "join_segments segs = foldl (\<lambda>acc seg. case seg of None \<Rightarrow> acc | Some txt \<Rightarrow> acc @ txt) [] segs"

text \<open>
  \<open>audio\<close> is \<open>None\<close> for a null array, \<open>elements_ok\<close> says whether the elements can be read,
  \<open>owns_lock\<close> whether \<open>try_to_lock\<close> succeeds.  Besides the text and the heap the result has the
  samples given to \<open>whisper_full\<close>, if it was called.
\<close>

definition whisper_nativeTranscribe ::
  "('x \<Rightarrow> real list \<Rightarrow> int \<times> 'x \<times> bytestring option list) \<Rightarrow> nat \<Rightarrow> i16 list option \<Rightarrow> bool \<Rightarrow> int
    \<Rightarrow> bool \<Rightarrow> 'x whisper_heap \<Rightarrow> (bytestring \<times> 'x whisper_heap \<times> real list option) option" where
  "whisper_nativeTranscribe full handle audio elements_ok rate owns_lock w =
    (if handle = 0 then Some ([], w, None)
     else case w handle of
       None \<Rightarrow> None
     | Some c \<Rightarrow>
         (case (wctx c, model_loaded c) of
            (Some x, True) \<Rightarrow>
              (case audio of
                 None \<Rightarrow> Some ([], w, None)
               | Some d \<Rightarrow>
                   if length d = 0 then Some ([], w, None)
                   else if \<not> elements_ok then Some ([], w, None)
                   else
                     (let audioLength = (if length d > 128000 then 128000 else length d);
                          pcmf32 = map sample_to_float (take audioLength d)
                      in case resample_audio pcmf32 rate 16000 of
                           None \<Rightarrow> None
                         | Some pcm \<Rightarrow>
                             if pcm = [] then Some ([], w, None)
                             else if length pcm < 8000 then Some ([], w, None)
                             else if \<not> owns_lock then Some ([], w, None)
                             else
                               (let (ret, x', segs) = full x pcm;
                                    w' = w(handle \<mapsto> c\<lparr>wctx := Some x'\<rparr>)
                                in if ret \<noteq> 0 then Some ([], w', Some pcm)
                                   else Some (sanitizeForJNI_whisper (trim_text (join_segments segs)),
                                              w', Some pcm))))
          | _ \<Rightarrow> Some ([], w, None)))"

section \<open>Lemmas\<close>

lemma blend_bounds:
  fixes a b f :: real
  assumes "lo \<le> a" "a \<le> hi" "lo \<le> b" "b \<le> hi" "0 \<le> f" "f \<le> 1"
  shows "lo \<le> a * (1 - f) + b * f \<and> a * (1 - f) + b * f \<le> hi"
proof -
  have "lo * (1 - f) + lo * f \<le> a * (1 - f) + b * f"
    using assms by (intro add_mono mult_right_mono) auto
  moreover have "a * (1 - f) + b * f \<le> hi * (1 - f) + hi * f"
    using assms by (intro add_mono mult_right_mono) auto
  ultimately show ?thesis by (simp add: algebra_simps)
qed

lemma resample_at_bounds:
  assumes "inp \<noteq> []" "\<forall>x \<in> set inp. lo \<le> x \<and> x \<le> hi" "0 \<le> ratio"
  shows "lo \<le> resample_at inp ratio i \<and> resample_at inp ratio i \<le> hi"
proof -
  define x where "x = real i * ratio"
  define k where "k = nat \<lfloor>x\<rfloor>"
  have x: "0 \<le> x" using assms(3) by (simp add: x_def)
  then have k: "real k \<le> x" "x < real k + 1" unfolding k_def by linarith+
  show ?thesis
  proof (cases "k \<ge> length inp - 1")
    case True
    then show ?thesis
      using assms(1,2) by (simp add: resample_at_def Let_def x_def [symmetric] k_def [symmetric])
  next
    case False
    then have "inp ! k \<in> set inp" "inp ! (k + 1) \<in> set inp" by auto
    then have "lo \<le> inp ! k * (1 - (x - real k)) + inp ! (k + 1) * (x - real k)
        \<and> inp ! k * (1 - (x - real k)) + inp ! (k + 1) * (x - real k) \<le> hi"
      using assms(2) k by (intro blend_bounds) auto
    with False show ?thesis
      by (simp add: resample_at_def Let_def x_def [symmetric] k_def [symmetric])
  qed
qed

lemma resample_audio_bounds:
  assumes "resample_audio inp s d = Some outp" "inp \<noteq> []" "\<forall>x \<in> set inp. lo \<le> x \<and> x \<le> hi"
  shows "\<forall>y \<in> set outp. lo \<le> y \<and> y \<le> hi"
  using assms resample_at_bounds [OF assms(2,3)]
  by (auto simp: resample_audio_def Let_def split: if_splits)

lemma length_resample_audio:
  assumes "resample_audio inp s d = Some outp" "0 < s" "0 \<le> d"
  shows "length outp = nat \<lfloor>real (length inp) * real_of_int d / real_of_int s\<rfloor>"
  using assms by (auto simp: resample_audio_def Let_def split: if_splits)

lemma sample_to_float_bounds: "-1 \<le> sample_to_float x \<and> sample_to_float x < 1"
proof -
  have "- (2 ^ 15) \<le> sint x" "sint x < 2 ^ 15"
    using sint_ge [of x] sint_lt [of x] by simp_all
  then show ?thesis
    unfolding sample_to_float_def by (simp add: field_simps del: of_int_sint)
qed

lemma join_segments_eq: "join_segments segs = concat (map (case_option [] id) segs)"
proof -
  have "foldl (\<lambda>acc seg. case seg of None \<Rightarrow> acc | Some txt \<Rightarrow> acc @ txt) a segs
      = a @ concat (map (case_option [] id) segs)" for a
    by (induction segs arbitrary: a) (simp_all split: option.split)
  then show ?thesis by (simp add: join_segments_def)
qed

lemma trim_text_eq: "trim_text s = rev (dropWhile is_blank (rev (dropWhile is_blank s)))"
proof (cases "dropWhile is_blank s = []")
  case True
  then have "takeWhile is_blank s = s" using takeWhile_dropWhile_id [of is_blank s] by simp
  then have "length (takeWhile is_blank s) = length s" by (rule arg_cong)
  then show ?thesis unfolding trim_text_def Let_def True by (simp only: less_irrefl if_False) simp
next
  case False
  define a m where "a = takeWhile is_blank s" and "m = dropWhile is_blank s"
  have s: "s = a @ m" by (simp add: a_def m_def)
  have m: "m \<noteq> []" "\<not> is_blank (hd m)" using False hd_dropWhile [of is_blank s] by (simp_all add: m_def)
  then have nb: "\<exists>x \<in> set (rev m). \<not> is_blank x" by (intro bexI [of _ "hd m"]) auto
  then have tw: "takeWhile is_blank (rev s) = takeWhile is_blank (rev m)"
    unfolding s by (auto simp: takeWhile_append1)
  define b where "b = takeWhile is_blank (rev m)"
  have lb: "length b < length m"
    using nb length_takeWhile_le [of is_blank "rev m"] takeWhile_eq_all_conv [of is_blank "rev m"]
    by (metis b_def le_neq_implies_less length_rev length_takeWhile_le takeWhile_dropWhile_id append_self_conv length_append add_cancel_right_right length_0_conv)
  have "rev (dropWhile is_blank (rev m)) = take (length m - length b) m"
    unfolding b_def by (simp add: dropWhile_eq_drop rev_drop)
  moreover have "trim_text s = take (length m - length b) m"
    using lb m by (simp add: trim_text_def Let_def tw a_def [symmetric] b_def [symmetric])
      (simp add: s Suc_diff_Suc)
  ultimately show ?thesis by (simp add: m_def)
qed

section \<open>Properties\<close>

text \<open>Resampling interpolates: every output sample lies between the smallest and the largest input
  sample, no index leaves the input, and \<open>n\<close> samples at a positive rate become
  \<open>n * dst / src\<close> samples, rounded down.\<close>

theorem resample_interpolates:
  assumes "0 < src" "0 \<le> dst" "inp \<noteq> []" "\<forall>x \<in> set inp. lo \<le> x \<and> x \<le> hi"
  shows "\<exists>outp. resample_audio inp src dst = Some outp \<and> (\<forall>y \<in> set outp. lo \<le> y \<and> y \<le> hi)
    \<and> length outp = nat \<lfloor>real (length inp) * real_of_int dst / real_of_int src\<rfloor>"
proof -
  obtain outp where "resample_audio inp src dst = Some outp"
    using assms(1,2) by (cases "resample_audio inp src dst") (auto simp: resample_audio_def Let_def split: if_splits)
  then show ?thesis
    using resample_audio_bounds assms length_resample_audio by blast
qed

theorem resample_interpolates_witness:
  "\<exists>outp. resample_audio [0, 1, -1] 8000 16000 = Some outp \<and> (\<forall>y \<in> set outp. -1 \<le> y \<and> y \<le> 1)
    \<and> length outp = 6"
  using resample_interpolates [of 8000 16000 "[0, 1, -1]" "-1" 1] by simp

text \<open>\<open>whisper_full\<close> is only called with at least 8000 samples, all of them in [-1, 1], of at most
  128000 recorded ones, and the text that reaches Java is well shaped.\<close>

theorem transcribe_guards:
  assumes "whisper_nativeTranscribe full handle audio elements_ok rate owns_lock w = Some (txt, w', given)"
    and "0 < rate"
  shows "well_shaped txt \<and> 0 \<notin> set txt
    \<and> (given \<noteq> None \<longrightarrow> owns_lock \<and> 8000 \<le> length (the given)
         \<and> real (length (the given)) \<le> 128000 * 16000 / real_of_int rate
         \<and> (\<forall>y \<in> set (the given). -1 \<le> y \<and> y \<le> 1))"
proof -
  have ws: "well_shaped txt"
    using assms(1)
    by (auto simp: whisper_nativeTranscribe_def Let_def sanitizeForJNI_whisper_def sanitize_loop_eq
        well_shaped_sanitize split: if_splits option.splits bool.splits prod.splits)
  have "owns_lock \<and> 8000 \<le> length pcm \<and> real (length pcm) \<le> 128000 * 16000 / real_of_int rate
      \<and> (\<forall>y \<in> set pcm. -1 \<le> y \<and> y \<le> 1)" if g: "given = Some pcm" for pcm
  proof -
    obtain d where d: "d \<noteq> []" "resample_audio (map sample_to_float (take 128000 d)) rate 16000 = Some pcm"
      "owns_lock" "8000 \<le> length pcm"
      using assms(1) g
      by (auto simp: whisper_nativeTranscribe_def Let_def split: if_splits option.splits bool.splits prod.splits)
    let ?f = "map sample_to_float (take 128000 d)"
    have "\<forall>y \<in> set pcm. -1 \<le> y \<and> y \<le> 1"
      by (rule resample_audio_bounds [OF d(2)])
         (use d(1) sample_to_float_bounds in \<open>auto simp: less_eq_real_def\<close>)
    moreover have "real (length pcm) \<le> 128000 * 16000 / real_of_int rate"
    proof -
      have "length pcm = nat \<lfloor>real (length ?f) * 16000 / real_of_int rate\<rfloor>"
        using length_resample_audio [OF d(2) assms(2)] by simp
      moreover have "0 \<le> real (length ?f) * 16000 / real_of_int rate" using assms(2) by simp
      ultimately have "real (length pcm) \<le> real (length ?f) * 16000 / real_of_int rate" by linarith
      also have "\<dots> \<le> 128000 * 16000 / real_of_int rate"
        using assms(2) by (intro divide_right_mono mult_right_mono) auto
      finally show ?thesis .
    qed
    ultimately show ?thesis using d(3,4) by blast
  qed
  then show ?thesis using ws well_shaped_no_zero [OF ws] by auto
qed

theorem transcribe_guards_witness:
  "well_shaped (fst (the (whisper_nativeTranscribe (\<lambda>x s. (0, x, [Some (bytes '' hi '')])) 8 (Some (replicate 8000 1))
      True 16000 True [8 \<mapsto> \<lparr>wctx = Some (), model_loaded = True\<rparr>])))"
proof -
  let ?r = "whisper_nativeTranscribe (\<lambda>x s. (0, x, [Some (bytes '' hi '')])) 8 (Some (replicate 8000 1))
      True 16000 True [8 \<mapsto> \<lparr>wctx = Some (), model_loaded = True\<rparr>]"
  have "?r \<noteq> None" by (simp add: whisper_nativeTranscribe_def resample_audio_def)
  then obtain t w' g where "?r = Some (t, w', g)" by auto
  then show ?thesis using transcribe_guards [of _ 8 _ True 16000 True _ t w' g] by simp
qed

text \<open>The text is the concatenation of the segments without the white space at either end, whatever
  index arithmetic computes it.\<close>

theorem transcript_trimmed:
  "trim_text (join_segments segs) =
    rev (dropWhile is_blank (rev (dropWhile is_blank (concat (map (case_option [] id) segs)))))"
  by (simp add: trim_text_eq join_segments_eq)

end
