(* ===== verification/Sherpa_Jni.thy ===== *)
theory Sherpa_Jni
  imports Vad_Jni
begin

text \<open>
  \<open>sherpa_stt_jni.cpp\<close> and \<open>sherpa_tts_jni.cpp\<close>: the recogniser and the synthesiser of
  sherpa-onnx behind JNI handles.  The library is an argument.  What the functions take from the
  JVM and from the library is recorded as events, in order, so that it can be compared with what
  they give back.  A Java string argument is a number; \<open>chars s\<close> is \<open>None\<close> when
  \<open>GetStringUTFChars\<close> fails.
\<close>

datatype jni_event =
    Get_Chars nat           \<comment> \<open>characters obtained\<close>
  | Release_Chars nat
  | Create_Stream
  | Destroy_Stream
  | Create_Result
  | Destroy_Result
  | Create_Audio

definition got :: "(nat \<Rightarrow> bytestring option) \<Rightarrow> nat list \<Rightarrow> jni_event list" where
  "got chars ss = map Get_Chars (filter (\<lambda>s. chars s \<noteq> None) ss)"

definition released :: "(nat \<Rightarrow> bytestring option) \<Rightarrow> nat list \<Rightarrow> jni_event list" where
  "released chars ss = map Release_Chars (filter (\<lambda>s. chars s \<noteq> None) ss)"

section \<open>The recogniser\<close>

record moonshine_config =
  cfg_sample_rate :: int
  feature_dim :: int
  cfg_tokens :: bytestring
  cfg_num_threads :: int
  preprocessor :: bytestring
  encoder :: bytestring
  uncached_decoder :: bytestring
  cached_decoder :: bytestring

text \<open>
  Arguments: the library's constructor (0 is a null recogniser), whether \<open>calloc\<close> succeeds, the
  five strings.  Fields that are set to constants in the source are left out of the record.
\<close>

definition nativeCreateMoonshineRecognizer ::
  "(moonshine_config \<Rightarrow> int) \<Rightarrow> bool \<Rightarrow> (nat \<Rightarrow> bytestring option) \<Rightarrow> nat \<Rightarrow> nat \<Rightarrow> nat \<Rightarrow> nat \<Rightarrow> nat
    \<Rightarrow> int \<Rightarrow> int \<times> jni_event list" where
  "nativeCreateMoonshineRecognizer create alloc_ok chars preprocessPath encoderPath uncachedPath
      cachedPath tokensPath rate =
    (let ss = [preprocessPath, encoderPath, uncachedPath, cachedPath, tokensPath];
         ev = got chars ss in
     case (chars preprocessPath, chars encoderPath, chars uncachedPath, chars cachedPath, chars tokensPath) of
       (Some preprocess, Some enc, Some uncached, Some cachedp, Some tokens) \<Rightarrow>
         if \<not> alloc_ok then (0, ev @ map Release_Chars ss)
         else
           (let config = \<lparr>cfg_sample_rate = rate, feature_dim = 80, cfg_tokens = tokens,
                  cfg_num_threads = 2, preprocessor = preprocess, encoder = enc,
                  uncached_decoder = uncached, cached_decoder = cachedp\<rparr>
            in (create config, ev @ map Release_Chars ss))
     | _ \<Rightarrow> (0, ev @ released chars ss))"

text \<open>
  Transcription: \<open>stream_ok\<close> and \<open>decode\<close> stand for the library; \<open>decode\<close> returns the text, an
  inner \<open>None\<close> for a missing one.  The text goes to \<open>NewStringUTF\<close> as it is.
\<close>

definition stt_nativeTranscribe ::
  "(real list \<Rightarrow> int \<Rightarrow> bytestring option option) \<Rightarrow> bool \<Rightarrow> int \<Rightarrow> i16 list \<Rightarrow> bool \<Rightarrow> int
    \<Rightarrow> bytestring \<times> jni_event list" where
  "stt_nativeTranscribe decode stream_ok ptr audio elements_ok rate =
    (if ptr = 0 then ([], [])
     else if length audio = 0 then ([], [])
     else if \<not> elements_ok then ([], [])
     else
       (let samples = map sample_to_float audio in
        if \<not> stream_ok then ([], [])
        else (case decode samples rate of
                Some (Some txt) \<Rightarrow> (txt, [Create_Stream, Create_Result, Destroy_Result, Destroy_Stream])
              | _ \<Rightarrow> ([], [Create_Stream, Create_Result, Destroy_Result, Destroy_Stream]))))"

section \<open>The synthesiser\<close>

record vits_config =
  vits_model :: bytestring
  vits_lexicon :: "bytestring option"
  vits_tokens :: bytestring
  vits_data_dir :: "bytestring option"
  tts_num_threads :: int

text \<open>
  The lexicon and the data directory may be null strings (\<open>None\<close>), which become empty ones; their
  characters are released when the string is not null, whether or not they were obtained.
\<close>

definition optional_get :: "(nat \<Rightarrow> bytestring option) \<Rightarrow> nat option \<Rightarrow> jni_event list" where
  "optional_get chars s = (case s of None \<Rightarrow> [] | Some n \<Rightarrow> got chars [n])"

definition optional_release :: "nat option \<Rightarrow> jni_event list" where
  "optional_release s = (case s of None \<Rightarrow> [] | Some n \<Rightarrow> [Release_Chars n])"

definition optional_chars :: "(nat \<Rightarrow> bytestring option) \<Rightarrow> nat option \<Rightarrow> bytestring option" where
  "optional_chars chars s = (case s of None \<Rightarrow> Some [] | Some n \<Rightarrow> chars n)"

definition nativeCreateTts ::
  "(vits_config \<Rightarrow> int) \<Rightarrow> bool \<Rightarrow> (nat \<Rightarrow> bytestring option) \<Rightarrow> nat \<Rightarrow> nat \<Rightarrow> nat option \<Rightarrow> nat option
    \<Rightarrow> int \<Rightarrow> int \<times> jni_event list" where
  "nativeCreateTts create alloc_ok chars modelPath tokensPath lexiconPath dataDir numThreads =
    (let ev = got chars [modelPath, tokensPath] @ optional_get chars lexiconPath
              @ optional_get chars dataDir;
         rel = optional_release lexiconPath @ optional_release dataDir in
     case (chars modelPath, chars tokensPath) of
       (Some m, Some tokens) \<Rightarrow>
         if \<not> alloc_ok then (0, ev @ [Release_Chars modelPath, Release_Chars tokensPath] @ rel)
         else
           (let config = \<lparr>vits_model = m, vits_lexicon = optional_chars chars lexiconPath,
                  vits_tokens = tokens, vits_data_dir = optional_chars chars dataDir,
                  tts_num_threads = (if numThreads > 0 then numThreads else 2)\<rparr>
            in (create config, ev @ [Release_Chars modelPath, Release_Chars tokensPath] @ rel))
     | _ \<Rightarrow> (0, ev @ released chars [modelPath, tokensPath] @ rel))"

definition nativeGetSampleRate :: "(int \<Rightarrow> int) \<Rightarrow> int \<Rightarrow> int" where
  "nativeGetSampleRate rate_of ptr = (if ptr = 0 then 22050 else rate_of ptr)"

text \<open>Truncation towards zero of the scaled and clamped sample.\<close>

definition clamp_sample :: "real \<Rightarrow> real" where
  "clamp_sample sample =
    (let s = (if sample > 1 then 1 else sample) in if s < -1 then -1 else s)"

definition to_short :: "real \<Rightarrow> int" where
  "to_short sample =
    (let x = clamp_sample sample * 32767 in if x < 0 then \<lceil>x\<rceil> else \<lfloor>x\<rfloor>)"

text \<open>\<open>generate\<close> returns the samples and their count, an inner \<open>None\<close> for a null sample array.\<close>

definition nativeGenerateSpeech ::
  "(bytestring \<Rightarrow> int \<Rightarrow> real \<Rightarrow> (int \<times> real list option) option) \<Rightarrow> (nat \<Rightarrow> bytestring option) \<Rightarrow> bool
    \<Rightarrow> int \<Rightarrow> nat \<Rightarrow> int \<Rightarrow> real \<Rightarrow> int list option \<times> jni_event list" where
  "nativeGenerateSpeech generate chars array_ok ptr txt sid speed =
    (if ptr = 0 then (None, [])
     else case chars txt of
       None \<Rightarrow> (None, [])
     | Some textStr \<Rightarrow>
         (case generate textStr sid speed of
            None \<Rightarrow> (None, [Get_Chars txt, Release_Chars txt])
          | Some (numSamples, samples) \<Rightarrow>
              (let ev = [Get_Chars txt, Create_Audio, Release_Chars txt] in
               case samples of
                 None \<Rightarrow> (None, ev)
               | Some xs \<Rightarrow>
                   if numSamples \<le> 0 then (None, ev)
                   else if \<not> array_ok then (None, ev)
                   else (Some (map to_short (take (nat numSamples) xs)), ev))))"

section \<open>Lemmas\<close>

definition balanced :: "jni_event list \<Rightarrow> bool" where
  "balanced ev \<longleftrightarrow> (\<forall>s. count_list ev (Get_Chars s) = count_list ev (Release_Chars s))
    \<and> count_list ev Create_Stream = count_list ev Destroy_Stream
    \<and> count_list ev Create_Result = count_list ev Destroy_Result"

lemma count_got [simp]:
  "count_list (map Get_Chars ss) (Get_Chars s) = count_list ss s"
  "count_list (map Release_Chars ss) (Release_Chars s) = count_list ss s"
  "count_list (map Get_Chars ss) (Release_Chars s) = 0"
  "count_list (map Release_Chars ss) (Get_Chars s) = 0"
  "count_list (map Get_Chars ss) Create_Stream = 0" "count_list (map Get_Chars ss) Destroy_Stream = 0"
  "count_list (map Get_Chars ss) Create_Result = 0" "count_list (map Get_Chars ss) Destroy_Result = 0"
  "count_list (map Release_Chars ss) Create_Stream = 0" "count_list (map Release_Chars ss) Destroy_Stream = 0"
  "count_list (map Release_Chars ss) Create_Result = 0" "count_list (map Release_Chars ss) Destroy_Result = 0"
  by (induction ss) simp_all

lemma balanced_chars: "balanced (got chars ss @ released chars ss)"
  by (simp add: balanced_def got_def released_def)

lemma clamp_bounds: "-1 \<le> clamp_sample x \<and> clamp_sample x \<le> 1"
  by (simp add: clamp_sample_def Let_def)

lemma clamp_mono: "x \<le> y \<Longrightarrow> clamp_sample x \<le> clamp_sample y"
  by (simp add: clamp_sample_def Let_def)

lemma to_short_bounds: "-32767 \<le> to_short x \<and> to_short x \<le> 32767"
  using clamp_bounds [of x] by (auto simp: to_short_def Let_def floor_le_iff le_ceiling_iff)

section \<open>Properties\<close>

text \<open>Whatever fails, creating a recogniser releases exactly the string characters it obtained, and a
  transcription destroys the stream and the result it created.\<close>

theorem stt_releases_what_it_takes:
  "balanced (snd (nativeCreateMoonshineRecognizer create alloc_ok chars p e u c t rate))
   \<and> balanced (snd (stt_nativeTranscribe decode stream_ok ptr audio elements_ok rate))"
proof
  let ?ss = "[p, e, u, c, t]"
  have "released chars ?ss = map Release_Chars ?ss" if "\<forall>s \<in> set ?ss. chars s \<noteq> None"
    using that by (simp add: released_def)
  then have "snd (nativeCreateMoonshineRecognizer create alloc_ok chars p e u c t rate)
      = got chars ?ss @ released chars ?ss"
    by (simp add: nativeCreateMoonshineRecognizer_def Let_def split: option.split)
  then show "balanced (snd (nativeCreateMoonshineRecognizer create alloc_ok chars p e u c t rate))"
    by (simp only: balanced_chars)
  show "balanced (snd (stt_nativeTranscribe decode stream_ok ptr audio elements_ok rate))"
    by (auto simp: stt_nativeTranscribe_def balanced_def Let_def split: option.split)
qed

text \<open>The synthesiser's samples are converted monotonically into [-32767, 32767], so loud output is
  clipped and never wraps around, and there are as many as the library reported.\<close>

theorem tts_samples_clip:
  "-32767 \<le> to_short x \<and> to_short x \<le> 32767 \<and> (1 \<le> x \<longrightarrow> to_short x = 32767)
    \<and> (x \<le> -1 \<longrightarrow> to_short x = -32767) \<and> \<bar>real_of_int (to_short x) - clamp_sample x * 32767\<bar> < 1"
  using to_short_bounds [of x]
  by (auto simp: to_short_def Let_def clamp_sample_def) linarith+

theorem tts_samples_clip_witness: "to_short 2 = 32767"
  using tts_samples_clip [of 2] by simp

text \<open>Every call that synthesises speech successfully keeps the generated audio: it is created and never
  given back to the library, on any path.\<close>

theorem tts_leaks_audio:
  assumes "nativeGenerateSpeech generate chars array_ok ptr txt sid speed = (Some shorts, ev)"
  shows "count_list ev Create_Audio = 1 \<and> count_list ev (Get_Chars txt) = count_list ev (Release_Chars txt)
    \<and> set ev \<subseteq> {Get_Chars txt, Create_Audio, Release_Chars txt}"
  using assms
  by (auto simp: nativeGenerateSpeech_def Let_def split: if_splits option.splits)

theorem tts_leaks_audio_witness:
  "count_list (snd (nativeGenerateSpeech (\<lambda>_ _ _. Some (2, Some [0, 1])) (\<lambda>_. Some []) True 1 3 0 1)) Create_Audio = 1"
  using tts_leaks_audio [of "\<lambda>_ _ _. Some (2, Some [0, 1])" "\<lambda>_. Some []" True 1 3 0 1 "[to_short 0, to_short 1]"]
  by (simp add: nativeGenerateSpeech_def Let_def)

end
