(* ===== verification/Grammar.thy ===== *)
theory Grammar
  imports Utf8_Sanitize
begin

text \<open>
  Grammar-constrained decoding in \<open>whisper.cpp\<close>: the incremental UTF-8 decoder, the pushdown stacks
  of a grammar, accepting a character, and rejecting candidate tokens.

  A pointer to a grammar element is the list of elements from there to the end of its rule;
  \<open>whisper_grammar_init\<close> ends every rule with an \<open>END\<close> element, so the code never reads past it.
  A stack is a list with its top first (the source has it last).  A code point is a 32-bit word.
  \<open>None\<close> is a failed assertion, a rule number out of range, or a recursion of
  \<open>whisper_grammar_advance_stack\<close> deeper than the given fuel.
\<close>

section \<open>The decoder\<close>

record whisper_partial_utf8 =
  pvalue :: u32
  n_remain :: int

definition utf8_lookup :: "u8 \<Rightarrow> int" where
  "utf8_lookup b =
    (let highbits = drop_bit 4 b in
     if highbits < 8 then 1 else if highbits < 12 then 0 else if highbits < 14 then 2
     else if highbits = 14 then 3 else 4)"

definition add_bits :: "u32 \<Rightarrow> u8 \<Rightarrow> u32" where
  "add_bits v b = push_bit 6 v + ucast (b AND 0x3F)"

text \<open>The loop that continues the sequence of the previous call: the rest of the input and the
  state, or \<open>None\<close> for a byte that does not continue it.\<close>

fun decode_continue :: "bytestring \<Rightarrow> u32 \<Rightarrow> int \<Rightarrow> (bytestring \<times> u32 \<times> int) option" where
  "decode_continue [] v n = Some ([], v, n)"
| "decode_continue (b # r) v n =
    (if n > 0 then (if drop_bit 6 b \<noteq> 2 then None else decode_continue r (add_bits v b) (n - 1))
     else Some (b # r, v, n))"

text \<open>The inner loop of the main loop takes the bytes as they are.\<close>

fun decode_rest :: "bytestring \<Rightarrow> u32 \<Rightarrow> int \<Rightarrow> bytestring \<times> u32 \<times> int" where
  "decode_rest [] v n = ([], v, n)"
| "decode_rest (b # r) v n = (if n > 0 then decode_rest r (add_bits v b) (n - 1) else (b # r, v, n))"

lemma length_decode_rest: "length (fst (decode_rest s v n)) \<le> length s"
  by (induction s v n rule: decode_rest.induct) auto

text \<open>The main loop; the code points without the terminating 0, or \<open>None\<close> for an invalid first byte.\<close>

function decode_main ::
  "bytestring \<Rightarrow> u32 list \<Rightarrow> u32 \<Rightarrow> int \<Rightarrow> (u32 list \<times> u32 \<times> int) option" where
  "decode_main [] cps v n = Some (cps, v, n)"
| "decode_main (b # r) cps v n =
    (let n1 = utf8_lookup b - 1 in
     if n1 < 0 then None
     else
       (let v1 = ucast (b AND (push_bit (nat (7 - n1)) 1 - 1));
            (r', v', n') = decode_rest r v1 n1
        in decode_main r' (if n' = 0 then cps @ [v'] else cps) v' n'))"
  by pat_completeness auto
termination
proof (relation "measure (\<lambda>(s, cps, v, n). length s)", simp_all, goal_cases)
  case (1 b r n1 v1 r' v' n')
  then show ?case using length_decode_rest [of r v1 n1] by (metis fst_conv le_imp_less_Suc)
qed

text \<open>A C string ends at its first null byte.  The result ends with a terminating 0.\<close>

definition c_str :: "bytestring \<Rightarrow> bytestring" where
  "c_str s = takeWhile (\<lambda>b. b \<noteq> 0) s"

definition decode_utf8 :: "bytestring \<Rightarrow> whisper_partial_utf8 \<Rightarrow> u32 list \<times> whisper_partial_utf8" where
  "decode_utf8 src p =
    (case decode_continue (c_str src) (pvalue p) (n_remain p) of
       None \<Rightarrow> ([0], \<lparr>pvalue = 0, n_remain = -1\<rparr>)
     | Some (r, v, n) \<Rightarrow>
         (let cps = (if n_remain p > 0 \<and> n = 0 then [v] else []) in
          case decode_main r cps v n of
            None \<Rightarrow> ([0], \<lparr>pvalue = 0, n_remain = -1\<rparr>)
          | Some (cps', v', n') \<Rightarrow> (cps' @ [0], \<lparr>pvalue = v', n_remain = n'\<rparr>)))"

section \<open>Grammar elements\<close>

datatype gretype =
  GRETYPE_END | GRETYPE_ALT | GRETYPE_RULE_REF | GRETYPE_CHAR | GRETYPE_CHAR_NOT
| GRETYPE_CHAR_RNG_UPPER | GRETYPE_CHAR_ALT

datatype element = Elem (etype: gretype) (evalue: u32)

type_synonym gpos = "element list"
type_synonym gstack = "gpos list"
type_synonym grule_list = "gpos list"

definition ptype :: "gpos \<Rightarrow> gretype" where
  "ptype p = (case p of [] \<Rightarrow> GRETYPE_END | e # _ \<Rightarrow> etype e)"

definition is_end_of_sequence :: "gpos \<Rightarrow> bool" where
  "is_end_of_sequence p \<longleftrightarrow> ptype p = GRETYPE_END \<or> ptype p = GRETYPE_ALT"

text \<open>The assertion of the matching functions: the position is a character range.\<close>

definition at_char :: "gpos \<Rightarrow> bool" where
  "at_char p \<longleftrightarrow> ptype p = GRETYPE_CHAR \<or> ptype p = GRETYPE_CHAR_NOT"

fun match_loop :: "u32 \<Rightarrow> bool \<Rightarrow> gpos \<Rightarrow> bool \<times> gpos" where
  "match_loop chr found [] = (found, [])"
| "match_loop chr found (e # r) =
    (if ptype r = GRETYPE_CHAR_RNG_UPPER then
       (let found' = (found \<or> evalue e \<le> chr \<and> chr \<le> evalue (hd r)) in
        if ptype (tl r) = GRETYPE_CHAR_ALT then match_loop chr found' (tl r) else (found', tl r))
     else
       (let found' = (found \<or> evalue e = chr) in
        if ptype r = GRETYPE_CHAR_ALT then match_loop chr found' r else (found', r)))"

definition match_char :: "gpos \<Rightarrow> u32 \<Rightarrow> (bool \<times> gpos) option" where
  "match_char p chr =
    (if at_char p
     then (let (found, q) = match_loop chr False p in Some (found = (ptype p = GRETYPE_CHAR), q))
     else None)"

fun partial_loop :: "u32 \<Rightarrow> u32 \<Rightarrow> gpos \<Rightarrow> bool" where
  "partial_loop low high [] = False"
| "partial_loop low high (e # r) =
    (if ptype r = GRETYPE_CHAR_RNG_UPPER then
       (if evalue e \<le> high \<and> low \<le> evalue (hd r) then True
        else if ptype (tl r) = GRETYPE_CHAR_ALT then partial_loop low high (tl r) else False)
     else
       (if low \<le> evalue e \<and> evalue e \<le> high then True
        else if ptype r = GRETYPE_CHAR_ALT then partial_loop low high r else False))"

definition match_partial_char :: "gpos \<Rightarrow> whisper_partial_utf8 \<Rightarrow> bool option" where
  "match_partial_char p pu =
    (if \<not> at_char p then None
     else
       (let is_positive_char = (ptype p = GRETYPE_CHAR); v = pvalue pu; n = n_remain pu in
        if n < 0 \<or> n = 1 \<and> v < 2 then Some False
        else
          (let low0 = push_bit (nat (n * 6)) v;
               high = low0 OR (push_bit (nat (n * 6)) 1 - 1);
               low = (if low0 = 0 then (if n = 2 then 2048 else if n = 3 then 65536 else low0) else low0)
           in if partial_loop low high p then Some is_positive_char else Some (\<not> is_positive_char))))"

section \<open>Stacks\<close>

text \<open>The starts of the alternates of a rule: where the scan for \<open>ALT\<close> stops.\<close>

definition skip_alternate :: "gpos \<Rightarrow> gpos" where
  "skip_alternate p = dropWhile (\<lambda>e. etype e \<noteq> GRETYPE_END \<and> etype e \<noteq> GRETYPE_ALT) p"

lemma length_skip_alternate: "length (skip_alternate p) \<le> length p"
  by (simp add: skip_alternate_def length_dropWhile_le)

function alternates :: "gpos \<Rightarrow> gpos list" where
  "alternates p =
    p # (if ptype (skip_alternate p) = GRETYPE_ALT then alternates (tl (skip_alternate p)) else [])"
  by pat_completeness auto
termination
proof (relation "measure length", simp, goal_cases)
  case (1 p)
  then have "skip_alternate p \<noteq> []" by (auto simp: ptype_def)
  then show ?case using length_skip_alternate [of p] by (cases "skip_alternate p") auto
qed

declare alternates.simps [simp del]

definition push_pos :: "gpos \<Rightarrow> gstack \<Rightarrow> gstack" where
  "push_pos p st = (if is_end_of_sequence p then st else p # st)"

primrec concat_opt :: "'a list option list \<Rightarrow> 'a list option" where
  "concat_opt [] = Some []"
| "concat_opt (x # xs) =
    (case x of None \<Rightarrow> None | Some ys \<Rightarrow> map_option (\<lambda>zs. ys @ zs) (concat_opt xs))"

primrec advance_stack :: "nat \<Rightarrow> grule_list \<Rightarrow> gstack \<Rightarrow> gstack list option" where
  "advance_stack 0 rules st = None"
| "advance_stack (Suc fuel) rules st =
    (case st of
       [] \<Rightarrow> Some [[]]
     | p # rest \<Rightarrow>
         (if ptype p = GRETYPE_RULE_REF then
            (let rule_id = unat (evalue (hd p)) in
             if rule_id < length rules then
               concat_opt (map (\<lambda>subpos. advance_stack fuel rules (push_pos subpos (push_pos (tl p) rest)))
                 (alternates (rules ! rule_id)))
             else None)
          else if at_char p then Some [st]
          else None))"

definition accept_stack :: "nat \<Rightarrow> grule_list \<Rightarrow> u32 \<Rightarrow> gstack \<Rightarrow> gstack list option" where
  "accept_stack fuel rules chr st =
    (case st of
       [] \<Rightarrow> Some []
     | p # rest \<Rightarrow>
         (case match_char p chr of
            None \<Rightarrow> None
          | Some (ok, q) \<Rightarrow> if ok then advance_stack fuel rules (push_pos q rest) else Some []))"

definition whisper_grammar_accept ::
  "nat \<Rightarrow> grule_list \<Rightarrow> gstack list \<Rightarrow> u32 \<Rightarrow> gstack list option" where
  "whisper_grammar_accept fuel rules stacks chr = concat_opt (map (accept_stack fuel rules chr) stacks)"

section \<open>Rejecting candidates\<close>

text \<open>A candidate points into its decoded code points at \<open>cp_at\<close>; the array ends with a 0.\<close>

record whisper_grammar_candidate =
  cand_id :: nat
  cp_data :: "u32 list"
  cp_at :: nat
  cand_partial :: whisper_partial_utf8

definition cur_cp :: "whisper_grammar_candidate \<Rightarrow> u32" where
  "cur_cp tok = cp_data tok ! cp_at tok"

definition next_cp :: "whisper_grammar_candidate \<Rightarrow> whisper_grammar_candidate" where
  "next_cp tok = tok\<lparr>cp_at := cp_at tok + 1\<rparr>"

definition prev_cp :: "whisper_grammar_candidate \<Rightarrow> whisper_grammar_candidate" where
  "prev_cp tok = tok\<lparr>cp_at := cp_at tok - 1\<rparr>"

text \<open>The first loop: the candidates this position rejects, and those that go on.\<close>

fun reject_here ::
  "gpos \<Rightarrow> whisper_grammar_candidate list \<Rightarrow>
   (whisper_grammar_candidate list \<times> whisper_grammar_candidate list) option" where
  "reject_here p [] = Some ([], [])"
| "reject_here p (tok # toks) =
    (case reject_here p toks of
       None \<Rightarrow> None
     | Some (rejects, nexts) \<Rightarrow>
         if cur_cp tok = 0 then
           (if n_remain (cand_partial tok) = 0 then Some (rejects, nexts)
            else (case match_partial_char p (cand_partial tok) of
                    None \<Rightarrow> None
                  | Some ok \<Rightarrow> if ok then Some (rejects, nexts) else Some (tok # rejects, nexts)))
         else (case match_char p (cur_cp tok) of
                 None \<Rightarrow> None
               | Some (ok, _) \<Rightarrow>
                   if ok then Some (rejects, next_cp tok # nexts) else Some (tok # rejects, nexts)))"

text \<open>\<open>rec\<close> is the mutually recursive \<open>whisper_grammar_reject_candidates\<close>.\<close>

definition reject_candidates_for_stack ::
  "(gstack list \<Rightarrow> whisper_grammar_candidate list \<Rightarrow> whisper_grammar_candidate list option) \<Rightarrow>
   nat \<Rightarrow> grule_list \<Rightarrow> gstack \<Rightarrow> whisper_grammar_candidate list \<Rightarrow>
   whisper_grammar_candidate list option" where
  "reject_candidates_for_stack rec fuel rules st cands =
    (case st of
       [] \<Rightarrow> Some (filter (\<lambda>tok. cur_cp tok \<noteq> 0 \<or> n_remain (cand_partial tok) \<noteq> 0) cands)
     | p # rest \<Rightarrow>
         do { (rejects, nexts) \<leftarrow> reject_here p cands;
              (_, q) \<leftarrow> match_char p 0;
              next_stacks \<leftarrow> advance_stack fuel rules (push_pos q rest);
              next_rejects \<leftarrow> rec next_stacks nexts;
              Some (rejects @ map prev_cp next_rejects) })"

fun reject_stacks ::
  "(gstack \<Rightarrow> whisper_grammar_candidate list \<Rightarrow> whisper_grammar_candidate list option) \<Rightarrow>
   gstack list \<Rightarrow> whisper_grammar_candidate list \<Rightarrow> whisper_grammar_candidate list option" where
  "reject_stacks f [] rejects = Some rejects"
| "reject_stacks f (st # sts) rejects = f st rejects \<bind> reject_stacks f sts"

text \<open>Every level of the recursion consumes a code point; \<open>depth\<close> bounds the levels.\<close>

primrec reject_candidates ::
  "nat \<Rightarrow> nat \<Rightarrow> grule_list \<Rightarrow> gstack list \<Rightarrow> whisper_grammar_candidate list \<Rightarrow>
   whisper_grammar_candidate list option" where
  "reject_candidates 0 fuel rules stacks cands = None"
| "reject_candidates (Suc depth) fuel rules stacks cands =
    (if cands = [] \<or> stacks = [] then Some []
     else reject_stacks
            (reject_candidates_for_stack (reject_candidates depth fuel rules) fuel rules) stacks cands)"

section \<open>The grammar of a decoding\<close>

record whisper_grammar =
  grules :: grule_list
  gstacks :: "gstack list"
  partial_utf8 :: whisper_partial_utf8

text \<open>The copy of a rule ends at its first \<open>END\<close>.\<close>

definition copy_rule :: "gpos \<Rightarrow> gpos" where
  "copy_rule r = takeWhile (\<lambda>e. etype e \<noteq> GRETYPE_END) r @ [Elem GRETYPE_END 0]"

definition initial_stacks :: "nat \<Rightarrow> grule_list \<Rightarrow> gpos \<Rightarrow> gstack list option" where
  "initial_stacks fuel rules start =
    concat_opt (map (\<lambda>p. advance_stack fuel rules (push_pos p [])) (alternates start))"

definition whisper_grammar_init :: "nat \<Rightarrow> grule_list \<Rightarrow> nat \<Rightarrow> whisper_grammar option" where
  "whisper_grammar_init fuel rules i_start_rule =
    (if i_start_rule < length rules then
       map_option
         (\<lambda>sts. \<lparr>grules = map copy_rule rules, gstacks = sts, partial_utf8 = \<lparr>pvalue = 0, n_remain = 0\<rparr>\<rparr>)
         (initial_stacks fuel (map copy_rule rules) (rules ! i_start_rule))
     else None)"

text \<open>Accepting the code points of a token one after the other.\<close>

fun accept_all :: "nat \<Rightarrow> grule_list \<Rightarrow> gstack list \<Rightarrow> u32 list \<Rightarrow> gstack list option" where
  "accept_all fuel rules stacks [] = Some stacks"
| "accept_all fuel rules stacks (c # cs) =
    (case whisper_grammar_accept fuel rules stacks c of
       None \<Rightarrow> None
     | Some stacks' \<Rightarrow> accept_all fuel rules stacks' cs)"

text \<open>The text of a token is an argument: \<open>ctx.vocab.id_to_token[token]\<close>.\<close>

definition whisper_grammar_accept_token ::
  "nat \<Rightarrow> bytestring \<Rightarrow> whisper_grammar \<Rightarrow> whisper_grammar option" where
  "whisper_grammar_accept_token fuel txt g =
    (if grules g = [] \<or> gstacks g = [] then Some g
     else if take 2 txt = bytes ''[_'' then Some g
     else
       (let (cps, pu) = decode_utf8 txt (partial_utf8 g)
        in map_option (\<lambda>sts. g\<lparr>gstacks := sts, partial_utf8 := pu\<rparr>)
             (accept_all fuel (grules g) (gstacks g) (butlast cps))))"

text \<open>
  The candidates are the tokens below \<open>eot\<close> with a text; \<open>vocab\<close> lists the texts of these tokens
  in order.  Every rejected candidate has the penalty subtracted from its logit.  Here and in the
  logit filters a logit is a real or \<open>None\<close>, which stands for \<open>-INFINITY\<close>.
\<close>

definition grammar_candidates ::
  "whisper_partial_utf8 \<Rightarrow> bytestring list \<Rightarrow> whisper_grammar_candidate list" where
  "grammar_candidates pu vocab =
    map (\<lambda>(i, txt). \<lparr>cand_id = i, cp_data = fst (decode_utf8 txt pu), cp_at = 0,
                     cand_partial = snd (decode_utf8 txt pu)\<rparr>)
      (filter (\<lambda>(i, txt). txt \<noteq> []) (enumerate 0 vocab))"

definition penalise :: "real \<Rightarrow> real option list \<Rightarrow> whisper_grammar_candidate \<Rightarrow> real option list" where
  "penalise penalty logits tok = logits[cand_id tok := map_option (\<lambda>l. l - penalty) (logits ! cand_id tok)]"

definition whisper_suppress_invalid_grammar ::
  "nat \<Rightarrow> nat \<Rightarrow> real \<Rightarrow> bytestring list \<Rightarrow> real option list \<Rightarrow> whisper_grammar \<Rightarrow> real option list option" where
  "whisper_suppress_invalid_grammar depth fuel penalty vocab logits g =
    (if grules g = [] \<or> gstacks g = [] then Some logits
     else map_option (foldl (penalise penalty) logits)
            (reject_candidates depth fuel (grules g) (gstacks g)
               (grammar_candidates (partial_utf8 g) vocab)))"

end
