(* ===== verification/Grammar_Language.thy ===== *)
theory Grammar_Language
  imports Grammar "HOL-Library.Multiset"
begin

text \<open>
  What the grammar code computes, against the language of a grammar: \<open>yields\<close> defines the
  strings of a position by its rules, without stacks; the stacks of the code recognise exactly
  these strings.  \<open>can_read\<close> defines which tokens a stack can read, by the rules and by the completions of
  a character the token cuts; the rejected candidates are exactly those no stack can read.  Last, when
  the expansion of rule references ends.
\<close>

section \<open>The language of a position\<close>

fun class_ranges :: "gpos \<Rightarrow> (u32 \<times> u32) list" where
  "class_ranges [] = []"
| "class_ranges (e # r) =
    (if ptype r = GRETYPE_CHAR_RNG_UPPER then
       (evalue e, evalue (hd r)) # (if ptype (tl r) = GRETYPE_CHAR_ALT then class_ranges (tl r) else [])
     else (evalue e, evalue e) # (if ptype r = GRETYPE_CHAR_ALT then class_ranges r else []))"

fun after_class :: "gpos \<Rightarrow> gpos" where
  "after_class [] = []"
| "after_class (e # r) =
    (if ptype r = GRETYPE_CHAR_RNG_UPPER then
       (if ptype (tl r) = GRETYPE_CHAR_ALT then after_class (tl r) else tl r)
     else (if ptype r = GRETYPE_CHAR_ALT then after_class r else r))"

definition in_ranges :: "u32 \<Rightarrow> (u32 \<times> u32) list \<Rightarrow> bool" where
  "in_ranges c rs \<longleftrightarrow> (\<exists>(lo, hi) \<in> set rs. lo \<le> c \<and> c \<le> hi)"

definition in_class :: "gpos \<Rightarrow> u32 \<Rightarrow> bool" where
  "in_class p c \<longleftrightarrow> in_ranges c (class_ranges p) = (ptype p = GRETYPE_CHAR)"

inductive yields :: "grule_list \<Rightarrow> gpos \<Rightarrow> u32 list \<Rightarrow> bool" for rules where
  yields_end: "is_end_of_sequence p \<Longrightarrow> yields rules p []"
| yields_char: "at_char p \<Longrightarrow> in_class p c \<Longrightarrow> yields rules (after_class p) w \<Longrightarrow> yields rules p (c # w)"
| yields_ref: "ptype p = GRETYPE_RULE_REF \<Longrightarrow> unat (evalue (hd p)) < length rules \<Longrightarrow>
    alt \<in> set (alternates (rules ! unat (evalue (hd p)))) \<Longrightarrow>
    yields rules alt u \<Longrightarrow> yields rules (tl p) v \<Longrightarrow> yields rules p (u @ v)"

primrec stack_yields :: "grule_list \<Rightarrow> gstack \<Rightarrow> u32 list \<Rightarrow> bool" where
  "stack_yields rules [] w \<longleftrightarrow> w = []"
| "stack_yields rules (p # st) w \<longleftrightarrow> (\<exists>u v. w = u @ v \<and> yields rules p u \<and> stack_yields rules st v)"

text \<open>A stack the code may store: empty, or with a character range on top.\<close>

definition ready :: "gstack \<Rightarrow> bool" where
  "ready st \<longleftrightarrow> (case st of [] \<Rightarrow> True | p # _ \<Rightarrow> at_char p)"

lemma ready_simps [simp]: "ready []" "ready (p # st) = at_char p"
  by (simp_all add: ready_def)

lemma at_char_types: "at_char p \<Longrightarrow> \<not> is_end_of_sequence p \<and> ptype p \<noteq> GRETYPE_RULE_REF"
  by (auto simp: at_char_def is_end_of_sequence_def)

lemma yields_end_iff: "is_end_of_sequence p \<Longrightarrow> yields rules p w \<longleftrightarrow> w = []"
  by (auto intro: yields_end elim: yields.cases dest: at_char_types simp: is_end_of_sequence_def at_char_def)

lemma yields_char_iff:
  "at_char p \<Longrightarrow> yields rules p w \<longleftrightarrow>
     (\<exists>c w'. w = c # w' \<and> in_class p c \<and> yields rules (after_class p) w')"
  by (auto intro: yields_char elim: yields.cases dest: at_char_types)

lemma yields_ref_iff:
  "ptype p = GRETYPE_RULE_REF \<Longrightarrow> yields rules p w \<longleftrightarrow>
     unat (evalue (hd p)) < length rules \<and>
     (\<exists>alt \<in> set (alternates (rules ! unat (evalue (hd p)))). \<exists>u v. w = u @ v \<and> yields rules alt u \<and> yields rules (tl p) v)"
  by (auto intro: yields_ref elim!: yields.cases [of rules p] dest: at_char_types simp: is_end_of_sequence_def)

inductive_simps yields_Nil_pos: "yields rules [] w"

lemma stack_yields_push:
  "stack_yields rules (push_pos p st) w \<longleftrightarrow>
     (\<exists>u v. w = u @ v \<and> yields rules p u \<and> stack_yields rules st v)"
  by (simp add: push_pos_def yields_end_iff)

lemma stack_yields_ref:
  assumes "ptype p = GRETYPE_RULE_REF" "unat (evalue (hd p)) < length rules"
  shows "stack_yields rules (p # rest) w \<longleftrightarrow>
    (\<exists>alt \<in> set (alternates (rules ! unat (evalue (hd p)))).
       stack_yields rules (push_pos alt (push_pos (tl p) rest)) w)"
  using assms by (auto simp: yields_ref_iff stack_yields_push) (metis append.assoc)+

lemma ready_accepts_empty: "ready st \<Longrightarrow> stack_yields rules st [] \<longleftrightarrow> st = []"
  by (cases st) (auto simp: yields_char_iff)

section \<open>Matching a character\<close>

lemma match_loop_eq:
  "match_loop c found p = (found \<or> in_ranges c (class_ranges p), after_class p)"
  by (induction c found p rule: match_loop.induct) (auto simp: in_ranges_def Let_def)

lemma match_char_eq:
  "match_char p c = (if at_char p then Some (in_class p c, after_class p) else None)"
  by (simp add: match_char_def match_loop_eq in_class_def)

section \<open>Stacks recognise the language\<close>

lemma concat_opt_Some:
  "concat_opt xs = Some ys \<longleftrightarrow> None \<notin> set xs \<and> ys = concat (map the xs)"
  by (induction xs arbitrary: ys) (auto split: option.splits)

lemma concat_opt_map_ex:
  assumes "concat_opt (map f xs) = Some ys" "\<And>x sts. x \<in> set xs \<Longrightarrow> f x = Some sts \<Longrightarrow> (\<exists>s \<in> set sts. P s) \<longleftrightarrow> Q x"
  shows "(\<exists>s \<in> set ys. P s) \<longleftrightarrow> (\<exists>x \<in> set xs. Q x)"
  using assms by (induction xs arbitrary: ys) (fastforce split: option.splits)+

lemma concat_opt_map_all:
  assumes "concat_opt (map f xs) = Some ys" "\<And>x sts. x \<in> set xs \<Longrightarrow> f x = Some sts \<Longrightarrow> \<forall>s \<in> set sts. P s"
  shows "\<forall>s \<in> set ys. P s"
  using assms by (induction xs arbitrary: ys) (fastforce split: option.splits)+

lemma advance_stack_ready:
  "advance_stack fuel rules st = Some sts \<Longrightarrow> \<forall>s \<in> set sts. ready s"
proof (induction fuel arbitrary: st sts)
  case (Suc fuel)
  show ?case
  proof (cases st)
    case (Cons p rest)
    show ?thesis
    proof (cases "ptype p = GRETYPE_RULE_REF")
      case True
      with Suc.prems Cons have "concat_opt (map (\<lambda>sub. advance_stack fuel rules (push_pos sub (push_pos (tl p) rest)))
                 (alternates (rules ! unat (evalue (hd p))))) = Some sts"
        by (auto simp: Let_def split: if_splits)
      then show ?thesis by (rule concat_opt_map_all) (rule Suc.IH)
    qed (use Suc.prems Cons in \<open>auto split: if_splits\<close>)
  qed (use Suc.prems in auto)
qed simp

lemma advance_stack_yields:
  "advance_stack fuel rules st = Some sts \<Longrightarrow>
    (\<exists>s \<in> set sts. stack_yields rules s w) \<longleftrightarrow> stack_yields rules st w"
proof (induction fuel arbitrary: st sts)
  case (Suc fuel)
  show ?case
  proof (cases st)
    case (Cons p rest)
    show ?thesis
    proof (cases "ptype p = GRETYPE_RULE_REF")
      case True
      with Suc.prems Cons have id: "unat (evalue (hd p)) < length rules"
        and c: "concat_opt (map (\<lambda>sub. advance_stack fuel rules (push_pos sub (push_pos (tl p) rest)))
                 (alternates (rules ! unat (evalue (hd p))))) = Some sts"
        by (auto simp: Let_def split: if_splits)
      show ?thesis
        unfolding Cons stack_yields_ref [OF True id]
        by (rule concat_opt_map_ex [OF c]) (rule Suc.IH)
    next
      case False
      with Suc.prems Cons have "sts = [st]" by (simp split: if_splits)
      then show ?thesis by simp
    qed
  qed (use Suc.prems in auto)
qed simp

lemma alternates_ne [simp]: "alternates p \<noteq> []"
  by (subst alternates.simps) simp

lemma advance_stack_ne: "advance_stack fuel rules st = Some sts \<Longrightarrow> sts \<noteq> []"
proof (induction fuel arbitrary: st sts)
  case (Suc fuel)
  show ?case
  proof (cases st)
    case (Cons p rest)
    show ?thesis
    proof (cases "ptype p = GRETYPE_RULE_REF")
      case True
      obtain a as where as: "alternates (rules ! unat (evalue (hd p))) = a # as"
        using alternates_ne by (meson neq_Nil_conv)
      show ?thesis
        using Suc.prems Cons True Suc.IH by (auto simp: Let_def as split: if_splits option.splits)
    qed (use Suc.prems Cons in \<open>auto split: if_splits\<close>)
  qed (use Suc.prems in auto)
qed simp

lemma accept_stack_yields:
  assumes "accept_stack fuel rules c st = Some sts"
  shows "(\<exists>s \<in> set sts. stack_yields rules s w) \<longleftrightarrow> stack_yields rules st (c # w)"
proof (cases st)
  case (Cons p rest)
  with assms have p: "at_char p" by (auto simp: accept_stack_def match_char_eq split: if_splits)
  show ?thesis
  proof (cases "in_class p c")
    case True
    with assms Cons p have "advance_stack fuel rules (push_pos (after_class p) rest) = Some sts"
      by (simp add: accept_stack_def match_char_eq)
    from advance_stack_yields [OF this] show ?thesis
      using Cons p True by (auto simp: stack_yields_push yields_char_iff Cons_eq_append_conv)
  next
    case False
    with assms Cons p show ?thesis
      by (auto simp: accept_stack_def match_char_eq yields_char_iff Cons_eq_append_conv)
  qed
qed (use assms in \<open>simp add: accept_stack_def\<close>)

lemma accept_yields:
  "whisper_grammar_accept fuel rules stacks c = Some sts \<Longrightarrow>
    (\<exists>s \<in> set sts. stack_yields rules s w) \<longleftrightarrow> (\<exists>s \<in> set stacks. stack_yields rules s (c # w))"
  unfolding whisper_grammar_accept_def
  by (erule concat_opt_map_ex) (rule accept_stack_yields)

lemma accept_stack_ready:
  assumes "accept_stack fuel rules c st = Some sts"
  shows "\<forall>s \<in> set sts. ready s"
proof (cases "sts = []")
  case False
  with assms obtain st' where "advance_stack fuel rules st' = Some sts"
    by (auto simp: accept_stack_def split: list.splits option.splits if_splits)
  then show ?thesis by (rule advance_stack_ready)
qed simp

lemma accept_ready:
  "whisper_grammar_accept fuel rules stacks c = Some sts \<Longrightarrow> \<forall>s \<in> set sts. ready s"
  unfolding whisper_grammar_accept_def
  by (erule concat_opt_map_all) (rule accept_stack_ready)

lemma accept_all_yields:
  "accept_all fuel rules stacks cs = Some sts \<Longrightarrow>
    (\<exists>s \<in> set sts. stack_yields rules s w) \<longleftrightarrow> (\<exists>s \<in> set stacks. stack_yields rules s (cs @ w))"
proof (induction cs arbitrary: stacks)
  case (Cons c cs)
  then show ?case by (auto split: option.splits simp: accept_yields)
qed simp

lemma accept_all_ready:
  "accept_all fuel rules stacks cs = Some sts \<Longrightarrow> \<forall>s \<in> set stacks. ready s \<Longrightarrow> \<forall>s \<in> set sts. ready s"
proof (induction cs arbitrary: stacks)
  case (Cons c cs)
  then show ?case by (auto split: option.splits dest: accept_ready)
qed simp

lemma initial_stacks_yields:
  assumes "initial_stacks fuel rules start = Some sts"
  shows "(\<exists>s \<in> set sts. stack_yields rules s w) \<longleftrightarrow> (\<exists>alt \<in> set (alternates start). yields rules alt w)"
  using assms unfolding initial_stacks_def
  by (rule concat_opt_map_ex) (simp add: advance_stack_yields stack_yields_push)

lemma initial_stacks_ready:
  "initial_stacks fuel rules start = Some sts \<Longrightarrow> \<forall>s \<in> set sts. ready s"
  unfolding initial_stacks_def by (erule concat_opt_map_all) (rule advance_stack_ready)

text \<open>C36: The stacks of a grammar recognise its language: after accepting the code points \<open>cs\<close> from
  the initial stacks, the continuations some stack can still yield are exactly the \<open>w\<close> for which
  \<open>cs @ w\<close> is a string of an alternate of the start rule; in particular the empty stack is left
  exactly when \<open>cs\<close> itself is a complete string of the grammar.\<close>

theorem grammar_stacks_recognise:
  assumes "whisper_grammar_init fuel rules i = Some g"
    and "accept_all fuel (grules g) (gstacks g) cs = Some sts"
  shows "((\<exists>s \<in> set sts. stack_yields (grules g) s w) \<longleftrightarrow>
           (\<exists>alt \<in> set (alternates (rules ! i)). yields (grules g) alt (cs @ w)))
       \<and> ([] \<in> set sts \<longleftrightarrow> (\<exists>alt \<in> set (alternates (rules ! i)). yields (grules g) alt cs))"
proof -
  from assms(1) have init: "initial_stacks fuel (grules g) (rules ! i) = Some (gstacks g)"
    by (auto simp: whisper_grammar_init_def split: if_splits)
  have all: "(\<exists>s \<in> set sts. stack_yields (grules g) s w) \<longleftrightarrow>
           (\<exists>alt \<in> set (alternates (rules ! i)). yields (grules g) alt (cs @ w))" for w
    using accept_all_yields [OF assms(2)] initial_stacks_yields [OF init] by simp
  have "\<forall>s \<in> set sts. ready s"
    using accept_all_ready [OF assms(2)] initial_stacks_ready [OF init] by blast
  then have "[] \<in> set sts \<longleftrightarrow> (\<exists>s \<in> set sts. stack_yields (grules g) s [])"
    by (auto simp: ready_accepts_empty)
  with all [of "[]"] all [of w] show ?thesis by simp
qed

section \<open>A character cut by the end of a token\<close>

lemma unat_add_bits:
  assumes "unat v < 2 ^ 26"
  shows "unat (add_bits v b) = 64 * unat v + unat (b AND 0x3F)"
proof -
  have b: "unat (b AND 0x3F) < 64"
    using word_and_le1 [of b "0x3F"] by (simp add: word_le_nat_alt)
  have p: "unat (push_bit 6 v) = 64 * unat v"
    using assms by (simp add: push_bit_eq_mult unat_mult_lem [THEN iffD1] word_size)
  have u: "unat (ucast (b AND 0x3F) :: u32) = unat (b AND 0x3F)"
    using b by (simp add: unsigned_ucast_eq take_bit_nat_eq_self)
  from assms b show ?thesis
    unfolding add_bits_def by (subst unat_add_lem [THEN iffD1]) (simp_all add: p u)
qed

lemma cont_bytes_low: "x < 64 \<Longrightarrow> \<exists>b :: u8. drop_bit 6 b = 2 \<and> unat (b AND 0x3F) = x"
proof -
  assume x: "x < 64"
  have "list_all (\<lambda>x. drop_bit 6 (128 + of_nat x :: u8) = 2 \<and> unat ((128 + of_nat x :: u8) AND 0x3F) = x) [0..<64]"
    by code_simp
  with x have "drop_bit 6 (128 + of_nat x :: u8) = 2 \<and> unat ((128 + of_nat x :: u8) AND 0x3F) = x"
    by (simp add: list_all_iff)
  then show ?thesis by blast
qed

text \<open>The code points that \<open>n\<close> continuation bytes make of a partial value.\<close>

definition completions :: "u32 \<Rightarrow> nat \<Rightarrow> u32 set" where
  "completions v n = {v'. \<exists>bs. length bs = n \<and> decode_continue bs v (int n) = Some ([], v', 0)}"

lemma completions_Suc:
  "v' \<in> completions v (Suc n) \<longleftrightarrow> (\<exists>b. drop_bit 6 b = 2 \<and> v' \<in> completions (add_bits v b) n)"
proof -
  have step: "decode_continue (b # bs) v (int (Suc n)) =
      (if drop_bit 6 b \<noteq> 2 then None else decode_continue bs (add_bits v b) (int n))" for b bs
    by simp
  have "v' \<in> completions v (Suc n) \<longleftrightarrow>
      (\<exists>b bs. length bs = n \<and> decode_continue (b # bs) v (int (Suc n)) = Some ([], v', 0))"
    unfolding completions_def length_Suc_conv by blast
  then show ?thesis unfolding step completions_def by (auto split: if_splits)
qed

lemma pow32_split: "n \<le> 5 \<Longrightarrow> (2::nat) ^ 32 = 64 ^ n * 2 ^ (32 - 6 * n)"
proof -
  assume "n \<le> 5"
  then have "n \<in> {0, 1, 2, 3, 4, 5}" by auto
  then show ?thesis by auto
qed

lemma partial_room:
  fixes v :: nat
  assumes "v * 64 ^ n < 2 ^ 32" "n \<le> 5"
  shows "(v + 1) * 64 ^ n \<le> 2 ^ 32"
proof -
  define m :: nat where "m = 2 ^ (32 - 6 * n)"
  have e: "(2::nat) ^ 32 = m * 64 ^ n" unfolding pow32_split [OF assms(2)] m_def by (rule mult.commute)
  from assms(1) have "v < m" unfolding e by (rule mult_less_cancel2 [THEN iffD1, THEN conjunct2])
  then have "v + 1 \<le> m" by simp
  then show ?thesis unfolding e by (rule mult_le_mono1)
qed

lemma completions_range:
  "unat v * 64 ^ n < 2 ^ 32 \<Longrightarrow> n \<le> 5 \<Longrightarrow>
    v' \<in> completions v n \<longleftrightarrow> unat v * 64 ^ n \<le> unat v' \<and> unat v' < (unat v + 1) * 64 ^ n"
proof (induction n arbitrary: v)
  case 0
  have "unat v \<le> unat v' \<and> unat v' < unat v + 1 \<longleftrightarrow> v' = v" by (auto simp: word_unat_eq_iff)
  then show ?case by (auto simp: completions_def)
next
  case (Suc n)
  have "unat v * 64 \<le> unat v * 64 ^ Suc n" by simp
  then have "unat v * 64 < 2 ^ 32" using Suc.prems(1) by (rule le_less_trans)
  then have v: "unat v < 2 ^ 26" by simp
  have small: "unat (b AND 0x3F :: u8) < 64" for b
    using word_and_le1 [of b "0x3F"] by (simp add: word_le_nat_alt)
  have IH: "v' \<in> completions (add_bits v b) n \<longleftrightarrow>
      (64 * unat v + unat (b AND 0x3F)) * 64 ^ n \<le> unat v' \<and>
      unat v' < (64 * unat v + unat (b AND 0x3F) + 1) * 64 ^ n" for b
  proof -
    have "(64 * unat v + unat (b AND 0x3F)) * 64 ^ n < 2 ^ 32"
    proof -
      have "(64 * unat v + unat (b AND 0x3F)) * 64 ^ n < (64 * unat v + 64) * 64 ^ n"
        using small [of b] by simp
      also have "\<dots> = (unat v + 1) * 64 ^ Suc n" by (simp add: algebra_simps)
      also have "\<dots> \<le> 2 ^ 32" by (rule partial_room [OF Suc.prems])
      finally show ?thesis .
    qed
    from Suc.IH [of "add_bits v b"] this Suc.prems(2) show ?thesis
      by (simp add: unat_add_bits [OF v])
  qed
  show ?case
  proof
    assume "v' \<in> completions v (Suc n)"
    then obtain b :: u8 where b: "(64 * unat v + unat (b AND 0x3F)) * 64 ^ n \<le> unat v'"
      "unat v' < (64 * unat v + unat (b AND 0x3F) + 1) * 64 ^ n"
      unfolding completions_Suc IH by (elim exE conjE)
    have "(64 * unat v + unat (b AND 0x3F) + 1) * 64 ^ n \<le> (64 * unat v + 64) * 64 ^ n"
      using small [of b] by (intro mult_le_mono1) simp
    with b(2) have "unat v' < (64 * unat v + 64) * 64 ^ n" by (rule less_le_trans)
    moreover have "64 * unat v * 64 ^ n \<le> (64 * unat v + unat (b AND 0x3F)) * 64 ^ n"
      by (intro mult_le_mono1) simp
    then have "64 * unat v * 64 ^ n \<le> unat v'" using b(1) by (rule le_trans)
    ultimately show "unat v * 64 ^ Suc n \<le> unat v' \<and> unat v' < (unat v + 1) * 64 ^ Suc n"
      by (simp add: algebra_simps)
  next
    assume r: "unat v * 64 ^ Suc n \<le> unat v' \<and> unat v' < (unat v + 1) * 64 ^ Suc n"
    define q where "q = unat v' div 64 ^ n"
    have q: "q * 64 ^ n \<le> unat v'" "unat v' < (q + 1) * 64 ^ n"
      unfolding q_def by (simp_all add: div_times_less_eq_dividend mult.commute dividend_less_times_div)
    have "64 * unat v \<le> q" unfolding q_def using r by (subst less_eq_div_iff_mult_less_eq) (simp_all add: algebra_simps)
    moreover have "q < 64 * unat v + 64" unfolding q_def using r by (subst div_less_iff_less_mult) (simp_all add: algebra_simps)
    ultimately obtain x where x: "x < 64" "q = 64 * unat v + x"
      by (metis add_less_cancel_left le_add_diff_inverse)
    from cont_bytes_low [OF x(1)] obtain b :: u8 where "drop_bit 6 b = 2" "unat (b AND 0x3F) = x" by blast
    with q x(2) show "v' \<in> completions v (Suc n)" unfolding completions_Suc IH by force
  qed
qed

lemma partial_loop_iff:
  "partial_loop low high p \<longleftrightarrow> (\<exists>(lo, hi) \<in> set (class_ranges p). lo \<le> high \<and> low \<le> hi)"
  by (induction low high p rule: partial_loop.induct) auto

text \<open>The code points that complete the partial sequence and are not overlong encodings: a sequence with
  \<open>n\<close> bytes to come stands for a code point of at least \<open>min_code_point n\<close>.  An invalid sequence has none.\<close>

definition min_code_point :: "int \<Rightarrow> u32" where
  "min_code_point n = (if n = 1 then 0x80 else if n = 2 then 0x800 else 0x10000)"

definition proper_completions :: "whisper_partial_utf8 \<Rightarrow> u32 set" where
  "proper_completions pu =
    {v' \<in> completions (pvalue pu) (nat (n_remain pu)). 0 < n_remain pu \<and> min_code_point (n_remain pu) \<le> v'}"

text \<open>When the code lets a character range take a character the token cuts: a positive range if some
  completion lies in it, an inverse range only if every completion satisfies it.\<close>

definition cut_fits :: "gpos \<Rightarrow> whisper_partial_utf8 \<Rightarrow> bool" where
  "cut_fits p pu \<longleftrightarrow> proper_completions pu \<noteq> {} \<and>
    (if ptype p = GRETYPE_CHAR then \<exists>c \<in> proper_completions pu. in_class p c
     else \<forall>c \<in> proper_completions pu. in_class p c)"

text \<open>The partial sequences the decoder leaves.\<close>

definition partial_ok :: "whisper_partial_utf8 \<Rightarrow> bool" where
  "partial_ok pu \<longleftrightarrow> n_remain pu \<le> 3 \<and>
    (0 < n_remain pu \<longrightarrow> (unat (pvalue pu) + 1) * 64 ^ nat (n_remain pu) \<le> 2 ^ 22)"

lemma partial_bounds:
  fixes v :: u32
  assumes "unat v * 64 ^ n < 2 ^ 32" "n \<le> 5"
  shows "unat (push_bit (n * 6) v) = unat v * 64 ^ n"
    and "unat (push_bit (n * 6) v OR (push_bit (n * 6) 1 - 1)) = unat v * 64 ^ n + (64 ^ n - 1)"
proof -
  have pw: "(2::nat) ^ (n * 6) = 64 ^ n" using power_mult [of "2::nat" 6 n] by (simp add: mult.commute)
  show a: "unat (push_bit (n * 6) v) = unat v * 64 ^ n"
    using assms(1) by (simp add: unsigned_push_bit_eq push_bit_nat_def take_bit_nat_eq_self pw)
  have m: "push_bit (n * 6) (1::u32) - 1 = mask (n * 6)" by (simp add: mask_eq_exp_minus_1)
  have "unat (mask (n * 6) :: u32) = 2 ^ (n * 6) - 1"
  proof -
    have "uint (mask (n * 6) :: u32) = mask (n * 6)" using assms(2) by (simp add: uint_mask_eq min_def)
    also have "\<dots> = int (2 ^ (n * 6) - 1)" by (simp add: mask_eq_exp_minus_1 of_nat_diff)
    finally have "int (unat (mask (n * 6) :: u32)) = int (2 ^ (n * 6) - 1)" by simp
    then show ?thesis by (simp only: of_nat_eq_iff)
  qed
  then have b: "unat (push_bit (n * 6) (1::u32) - 1) = 64 ^ n - 1" unfolding m pw .
  have "push_bit (n * 6) v AND mask (n * 6) = 0" by (rule bit_word_eqI) (simp add: bit_simps)
  then have "push_bit (n * 6) v OR mask (n * 6) = push_bit (n * 6) v + mask (n * 6)"
    by (simp add: disjunctive_add_eq_or)
  moreover have "unat (push_bit (n * 6) v) + unat (mask (n * 6) :: u32) < 2 ^ LENGTH(32)"
  proof -
    have "unat v * 64 ^ n + 64 ^ n \<le> 2 ^ 32" using partial_room [OF assms] by (simp add: algebra_simps)
    moreover have "(0::nat) < 64 ^ n" by simp
    ultimately have "unat v * 64 ^ n + (64 ^ n - 1) < 2 ^ 32" by linarith
    with b show ?thesis unfolding a m by simp
  qed
  ultimately show "unat (push_bit (n * 6) v OR (push_bit (n * 6) 1 - 1)) = unat v * 64 ^ n + (64 ^ n - 1)"
    unfolding m using a b m by (simp add: unat_add_lem [THEN iffD1])
qed

definition proper_ranges :: "gpos \<Rightarrow> bool" where
  "proper_ranges p \<longleftrightarrow> list_all (\<lambda>(lo, hi). lo \<le> hi) (class_ranges p)"

lemma ranges_meet_interval:
  assumes "proper_ranges p" "low \<le> high"
  shows "partial_loop low high p \<longleftrightarrow> (\<exists>v'. low \<le> v' \<and> v' \<le> high \<and> in_ranges v' (class_ranges p))"
proof
  assume "partial_loop low high p"
  then obtain lo hi where *: "(lo, hi) \<in> set (class_ranges p)" "lo \<le> high" "low \<le> hi"
    by (auto simp: partial_loop_iff)
  with assms(1) have "lo \<le> hi" by (auto simp: proper_ranges_def list_all_iff)
  with * have "in_ranges (max lo low) (class_ranges p)"
    unfolding in_ranges_def by (intro bexI [of _ "(lo, hi)"]) auto
  with * assms(2) show "\<exists>v'. low \<le> v' \<and> v' \<le> high \<and> in_ranges v' (class_ranges p)"
    by (intro exI [of _ "max lo low"]) simp
qed (auto simp: partial_loop_iff in_ranges_def intro: order_trans)

lemma partial_interval:
  assumes k: "n_remain pu = int k" "k = 1 \<or> k = 2 \<or> k = 3"
    and ok: "partial_ok pu" and o: "\<not> (k = 1 \<and> pvalue pu < 2)"
  defines "low0 \<equiv> push_bit (k * 6) (pvalue pu)"
  defines "low \<equiv> (if low0 = 0 then (if k = 2 then 2048 else if k = 3 then 65536 else low0) else low0)"
  defines "high \<equiv> low0 OR (push_bit (k * 6) 1 - 1)"
  shows "low \<le> high" and "v' \<in> proper_completions pu \<longleftrightarrow> low \<le> v' \<and> v' \<le> high"
proof -
  define v where "v = unat (pvalue pu)"
  have k0: "(0::nat) < 64 ^ k" by simp
  have "(v + 1) * 64 ^ k \<le> 2 ^ 22" using ok k by (auto simp: partial_ok_def v_def)
  moreover have "v * 64 ^ k < (v + 1) * 64 ^ k" using k0 by (intro mult_less_mono1) simp
  ultimately have "v * 64 ^ k < 2 ^ 22" by (rule less_le_trans [rotated])
  then have b: "unat (pvalue pu) * 64 ^ k < 2 ^ 32" unfolding v_def by (rule less_trans) simp
  have k5: "k \<le> 5" using k(2) by auto
  note bounds = partial_bounds [OF b k5, folded low0_def]
  have z: "low0 = 0 \<longleftrightarrow> v = 0" unfolding word_unat_eq_iff bounds(1) v_def by simp
  have L: "unat low = (if v = 0 \<and> k = 2 then 2048 else if v = 0 \<and> k = 3 then 65536 else v * 64 ^ k)"
    unfolding low_def z using bounds(1) by (simp add: v_def)
  have H: "unat high = v * 64 ^ k + (64 ^ k - 1)" unfolding high_def v_def by (rule bounds(2))
  show "low \<le> high" unfolding word_le_nat_alt L H using k(2) by auto
  have v2: "k = 1 \<longrightarrow> 2 \<le> v" using o by (auto simp: v_def word_less_nat_alt)
  have c: "v' \<in> completions (pvalue pu) k \<longleftrightarrow> v * 64 ^ k \<le> unat v' \<and> unat v' \<le> v * 64 ^ k + (64 ^ k - 1)"
    using k0 unfolding completions_range [OF b k5] v_def add_mult_distrib mult_1 by linarith
  have m: "min_code_point (int k) \<le> v' \<longleftrightarrow> (if k = 1 then 128 else if k = 2 then 2048 else 65536) \<le> unat v'"
    by (simp add: min_code_point_def word_le_nat_alt)
  have "v' \<in> proper_completions pu \<longleftrightarrow> v' \<in> completions (pvalue pu) k \<and> min_code_point (int k) \<le> v'"
    using k by (auto simp: proper_completions_def)
  then show "v' \<in> proper_completions pu \<longleftrightarrow> low \<le> v' \<and> v' \<le> high"
    unfolding c m unfolding word_le_nat_alt L H using k(2) v2 by (cases "v = 0") auto
qed

lemma no_completions:
  assumes "n_remain pu \<le> 0 \<or> n_remain pu = 1 \<and> pvalue pu < 2"
  shows "proper_completions pu = {}"
proof (cases "n_remain pu \<le> 0")
  case False
  with assms have n: "n_remain pu = 1" "unat (pvalue pu) < 2" by (auto simp: word_less_nat_alt)
  then show ?thesis
    by (auto simp: proper_completions_def min_code_point_def completions_range word_le_nat_alt)
qed (simp add: proper_completions_def)

text \<open>The check of a cut character is exact in this sense.\<close>

lemma match_partial_char_fits:
  assumes p: "at_char p" "proper_ranges p" and ok: "partial_ok pu" and n: "n_remain pu \<noteq> 0"
  shows "match_partial_char p pu = Some (cut_fits p pu)"
proof (cases "n_remain pu < 0 \<or> n_remain pu = 1 \<and> pvalue pu < 2")
  case True
  then have "proper_completions pu = {}" by (intro no_completions) auto
  with True p(1) show ?thesis by (simp add: match_partial_char_def cut_fits_def Let_def)
next
  case False
  define k where "k = nat (n_remain pu)"
  have k: "n_remain pu = int k" "k = 1 \<or> k = 2 \<or> k = 3"
    using False n ok by (auto simp: k_def partial_ok_def)
  have o: "\<not> (k = 1 \<and> pvalue pu < 2)" using False k(1) by auto
  define low0 where "low0 = push_bit (k * 6) (pvalue pu)"
  define low where "low = (if low0 = 0 then (if k = 2 then 2048 else if k = 3 then 65536 else low0) else low0)"
  define high where "high = low0 OR (push_bit (k * 6) 1 - 1)"
  note int = partial_interval [OF k ok o, folded low0_def, folded low_def high_def]
  have ne: "proper_completions pu \<noteq> {}" using int(1) int(2) [of low] by auto
  have c: "nat (n_remain pu * 6) = k * 6" "n_remain pu = 2 \<longleftrightarrow> k = 2" "n_remain pu = 3 \<longleftrightarrow> k = 3"
    unfolding k(1) by (simp_all add: nat_mult_distrib)
  have "match_partial_char p pu =
      (if partial_loop low high p then Some (ptype p = GRETYPE_CHAR) else Some (ptype p \<noteq> GRETYPE_CHAR))"
    unfolding match_partial_char_def Let_def if_not_P [OF False] c low_def high_def low0_def
    by (simp only: p(1) not_True_eq_False if_False)
  also have "\<dots> = Some (partial_loop low high p = (ptype p = GRETYPE_CHAR))" by auto
  also have "partial_loop low high p \<longleftrightarrow> (\<exists>c \<in> proper_completions pu. in_ranges c (class_ranges p))"
    unfolding ranges_meet_interval [OF p(2) int(1)] Bex_def int(2) by blast
  finally show ?thesis using ne by (auto simp: cut_fits_def in_class_def)
qed

lemma partial_ok_add_bits:
  assumes n: "0 < n" and ok: "partial_ok \<lparr>pvalue = v, n_remain = n\<rparr>"
  shows "partial_ok \<lparr>pvalue = add_bits v b, n_remain = n - 1\<rparr>"
proof -
  define k where "k = nat (n - 1)"
  have k: "nat n = Suc k" using n by (simp add: k_def)
  from ok n have b: "(unat v + 1) * 64 ^ Suc k \<le> 2 ^ 22" unfolding k [symmetric] by (simp add: partial_ok_def)
  have k0: "(0::nat) < 64 ^ k" by simp
  have "(unat v + 1) * 64 \<le> (unat v + 1) * 64 ^ Suc k" using k0 by (intro mult_le_mono2) simp
  with b have "(unat v + 1) * 64 \<le> 2 ^ 22" by (rule order_trans [rotated])
  then have v: "unat v < 2 ^ 26" by simp
  have small: "unat (b AND 0x3F) < 64" using word_and_le1 [of b "0x3F"] by (simp add: word_le_nat_alt)
  have "(unat (add_bits v b) + 1) * 64 ^ k \<le> ((unat v + 1) * 64) * 64 ^ k"
    unfolding unat_add_bits [OF v] using small by (intro mult_le_mono1) simp
  also have "\<dots> \<le> 2 ^ 22" using b by (simp add: algebra_simps)
  finally show ?thesis using ok by (simp add: partial_ok_def k_def)
qed

lemma decode_continue_ok:
  "decode_continue s v n = Some (r, v', n') \<Longrightarrow> partial_ok \<lparr>pvalue = v, n_remain = n\<rparr> \<Longrightarrow>
    partial_ok \<lparr>pvalue = v', n_remain = n'\<rparr>"
proof (induction s v n arbitrary: r v' n' rule: decode_continue.induct)
  case (2 b s v n)
  show ?case
  proof (cases "0 < n")
    case True
    with "2.prems"(1) have d: "drop_bit 6 b = 2" "decode_continue s (add_bits v b) (n - 1) = Some (r, v', n')"
      by (auto split: if_splits)
    have "partial_ok \<lparr>pvalue = add_bits v b, n_remain = n - 1\<rparr>" by (rule partial_ok_add_bits [OF True "2.prems"(2)])
    then show ?thesis using "2.IH" [OF True _ d(2)] d(1) by simp
  qed (use "2.prems" in simp)
qed simp

lemma decode_rest_ok:
  "decode_rest s v n = (r, v', n') \<Longrightarrow> partial_ok \<lparr>pvalue = v, n_remain = n\<rparr> \<Longrightarrow>
    partial_ok \<lparr>pvalue = v', n_remain = n'\<rparr>"
  by (induction s v n arbitrary: r v' n' rule: decode_rest.induct) (auto split: if_splits intro: partial_ok_add_bits)

lemma partial_ok_lead:
  assumes "n = utf8_lookup b - 1" "0 \<le> n"
  shows "partial_ok \<lparr>pvalue = ucast (b AND (push_bit (nat (7 - n)) 1 - 1)), n_remain = n\<rparr>"
proof -
  have u: "unat (ucast (b AND m) :: u32) \<le> unat m" for m :: u8
  proof -
    have "unat (b AND m) < 2 ^ 32" by (rule less_trans [OF unsigned_less]) simp
    then have "unat (ucast (b AND m) :: u32) = unat (b AND m)"
      by (simp add: unsigned_ucast_eq take_bit_nat_eq_self)
    then show ?thesis using word_and_le1 [of b m] by (simp add: word_le_nat_alt)
  qed
  from assms have "n = 0 \<or> n = 1 \<or> n = 2 \<or> n = 3" by (auto simp: utf8_lookup_def Let_def split: if_splits)
  then show ?thesis
    using u [of "0x3F"] u [of "0x1F"] u [of "0x0F"] by (auto simp: partial_ok_def)
qed

lemma decode_main_ok:
  "decode_main s cps v n = Some (cps', v', n') \<Longrightarrow> partial_ok \<lparr>pvalue = v, n_remain = n\<rparr> \<Longrightarrow>
    partial_ok \<lparr>pvalue = v', n_remain = n'\<rparr>"
proof (induction s cps v n arbitrary: cps' v' n' rule: decode_main.induct)
  case (2 b r cps v n)
  define n1 where "n1 = utf8_lookup b - 1"
  define v1 :: u32 where "v1 = ucast (b AND (push_bit (nat (7 - n1)) 1 - 1))"
  obtain r1 w1 m1 where d: "decode_rest r v1 n1 = (r1, w1, m1)" by (cases "decode_rest r v1 n1")
  from "2.prems"(1) have n1: "0 \<le> n1" by (auto simp: n1_def Let_def split: if_splits)
  from decode_rest_ok [OF d] partial_ok_lead [OF n1_def n1] have ok: "partial_ok \<lparr>pvalue = w1, n_remain = m1\<rparr>"
    by (simp add: v1_def)
  have "decode_main r1 (if m1 = 0 then cps @ [w1] else cps) w1 m1 = Some (cps', v', n')"
    using "2.prems"(1) d n1 by (simp add: Let_def n1_def v1_def)
  with 2(1) [OF n1_def _ v1_def d [symmetric] refl refl] n1 ok show ?case by simp
qed simp

lemma decode_utf8_ok: "partial_ok pu \<Longrightarrow> partial_ok (snd (decode_utf8 src pu))"
proof -
  assume ok: "partial_ok pu"
  have bad: "partial_ok \<lparr>pvalue = 0, n_remain = -1\<rparr>" by (simp add: partial_ok_def)
  have pu: "partial_ok \<lparr>pvalue = pvalue pu, n_remain = n_remain pu\<rparr>" using ok by (simp add: partial_ok_def)
  show ?thesis
    using bad unfolding decode_utf8_def Let_def
    by (auto split: option.splits dest!: decode_continue_ok [OF _ pu] dest: decode_main_ok)
qed

text \<open>For an inverse range the same check refuses a partial sequence as soon as one completion is
  excluded: after the lead byte C3, the range \<open>[^\<close>U+00E9\<open>]\<close> is refused although U+00E8 satisfies it.\<close>

theorem match_partial_char_refuses_inverse:
  "match_partial_char [Elem GRETYPE_CHAR_NOT 0xE9, Elem GRETYPE_END 0] \<lparr>pvalue = 3, n_remain = 1\<rparr> = Some False
   \<and> 0xE8 \<in> proper_completions \<lparr>pvalue = 3, n_remain = 1\<rparr>
   \<and> in_class [Elem GRETYPE_CHAR_NOT 0xE9, Elem GRETYPE_END 0] 0xE8"
proof (intro conjI)
  show "match_partial_char [Elem GRETYPE_CHAR_NOT 0xE9, Elem GRETYPE_END 0] \<lparr>pvalue = 3, n_remain = 1\<rparr> = Some False"
    by code_simp
  have "0xE8 \<in> completions 3 1" by (subst completions_range) simp_all
  then show "0xE8 \<in> proper_completions \<lparr>pvalue = 3, n_remain = 1\<rparr>" by (simp add: proper_completions_def min_code_point_def)
qed (simp add: in_class_def in_ranges_def ptype_def)


section \<open>What a stack can read\<close>

text \<open>
  \<open>reads rules st w st'\<close>: the stack can read the code points \<open>w\<close> and be left as \<open>st'\<close>, where a rule
  reference on top is expanded to any of its alternates, and a character range takes one of its code
  points.  There is no fuel and no set of stacks.
\<close>

inductive reads :: "grule_list \<Rightarrow> gstack \<Rightarrow> u32 list \<Rightarrow> gstack \<Rightarrow> bool" for rules where
  reads_stop: "ready st \<Longrightarrow> reads rules st [] st"
| reads_char: "at_char p \<Longrightarrow> in_class p c \<Longrightarrow> reads rules (push_pos (after_class p) rest) w st' \<Longrightarrow>
    reads rules (p # rest) (c # w) st'"
| reads_ref: "ptype p = GRETYPE_RULE_REF \<Longrightarrow> unat (evalue (hd p)) < length rules \<Longrightarrow>
    alt \<in> set (alternates (rules ! unat (evalue (hd p)))) \<Longrightarrow>
    reads rules (push_pos alt (push_pos (tl p) rest)) w st' \<Longrightarrow> reads rules (p # rest) w st'"

inductive_simps reads_empty: "reads rules [] w st'"
inductive_cases reads_ConsE: "reads rules (p # rest) w st'"

text \<open>A token can be read when all its code points can and, where it cuts a character, the range then on
  top of the stack fits the cut character.\<close>

definition can_read :: "grule_list \<Rightarrow> gstack \<Rightarrow> u32 list \<Rightarrow> whisper_partial_utf8 \<Rightarrow> bool" where
  "can_read rules st cs pu \<longleftrightarrow>
    (\<exists>st'. reads rules st cs st' \<and> (n_remain pu = 0 \<or> (st' \<noteq> [] \<and> cut_fits (hd st') pu)))"

lemma reads_char_iff:
  "at_char p \<Longrightarrow> reads rules (p # rest) w st' \<longleftrightarrow>
    w = [] \<and> st' = p # rest \<or>
    (\<exists>c w'. w = c # w' \<and> in_class p c \<and> reads rules (push_pos (after_class p) rest) w' st')"
  by (auto elim!: reads_ConsE dest: at_char_types intro: reads_stop reads_char)

lemma reads_ref_iff:
  "ptype p = GRETYPE_RULE_REF \<Longrightarrow> unat (evalue (hd p)) < length rules \<Longrightarrow>
    reads rules (p # rest) w st' \<longleftrightarrow>
    (\<exists>alt \<in> set (alternates (rules ! unat (evalue (hd p)))). reads rules (push_pos alt (push_pos (tl p) rest)) w st')"
  by (auto elim!: reads_ConsE dest: at_char_types intro: reads_ref)

lemma can_read_char [simp]:
  "at_char p \<Longrightarrow> can_read rules (p # rest) [] pu \<longleftrightarrow> n_remain pu = 0 \<or> cut_fits p pu"
  "at_char p \<Longrightarrow> can_read rules (p # rest) (c # cs) pu \<longleftrightarrow>
     in_class p c \<and> can_read rules (push_pos (after_class p) rest) cs pu"
  by (auto simp: can_read_def reads_char_iff)

lemma can_read_empty [simp]: "can_read rules [] cs pu \<longleftrightarrow> cs = [] \<and> n_remain pu = 0"
  by (auto simp: can_read_def reads_empty)

lemma can_read_ref:
  "ptype p = GRETYPE_RULE_REF \<Longrightarrow> unat (evalue (hd p)) < length rules \<Longrightarrow>
    can_read rules (p # rest) cs pu \<longleftrightarrow>
    (\<exists>alt \<in> set (alternates (rules ! unat (evalue (hd p)))). can_read rules (push_pos alt (push_pos (tl p) rest)) cs pu)"
  by (auto simp: can_read_def reads_ref_iff)

lemma advance_stack_can_read:
  "advance_stack fuel rules st = Some sts \<Longrightarrow>
    (\<exists>s \<in> set sts. can_read rules s cs pu) \<longleftrightarrow> can_read rules st cs pu"
proof (induction fuel arbitrary: st sts)
  case (Suc fuel)
  show ?case
  proof (cases st)
    case (Cons p rest)
    show ?thesis
    proof (cases "ptype p = GRETYPE_RULE_REF")
      case True
      with Suc.prems Cons have id: "unat (evalue (hd p)) < length rules"
        and c: "concat_opt (map (\<lambda>sub. advance_stack fuel rules (push_pos sub (push_pos (tl p) rest)))
                 (alternates (rules ! unat (evalue (hd p))))) = Some sts"
        by (auto simp: Let_def split: if_splits)
      show ?thesis
        unfolding Cons can_read_ref [OF True id]
        by (rule concat_opt_map_ex [OF c]) (rule Suc.IH)
    next
      case False
      with Suc.prems Cons have "sts = [st]" by (simp split: if_splits)
      then show ?thesis by simp
    qed
  qed (use Suc.prems in auto)
qed simp

text \<open>Every range of the rule has its bounds in order.\<close>

fun proper_rule :: "gpos \<Rightarrow> bool" where
  "proper_rule [] = True"
| "proper_rule (e # r) \<longleftrightarrow> (ptype r = GRETYPE_CHAR_RNG_UPPER \<longrightarrow> evalue e \<le> evalue (hd r)) \<and> proper_rule r"

definition proper_stack :: "gstack \<Rightarrow> bool" where
  "proper_stack st \<longleftrightarrow> ready st \<and> list_all proper_rule st"

lemma proper_rule_tl: "proper_rule p \<Longrightarrow> proper_rule (tl p)"
  by (cases p) auto

lemma proper_rule_after: "proper_rule p \<Longrightarrow> proper_rule (after_class p)"
  by (induction p rule: after_class.induct) (auto intro: proper_rule_tl)

lemma proper_rule_skip: "proper_rule p \<Longrightarrow> proper_rule (skip_alternate p)"
  unfolding skip_alternate_def by (induction p) auto

lemma proper_rule_ranges: "proper_rule p \<Longrightarrow> proper_ranges p"
  unfolding proper_ranges_def
  by (induction p rule: class_ranges.induct) (auto dest: proper_rule_tl)

lemma proper_alternates: "proper_rule p \<Longrightarrow> \<forall>a \<in> set (alternates p). proper_rule a"
proof (induction p rule: alternates.induct)
  case (1 p)
  then show ?case
    by (subst alternates.simps) (auto intro: proper_rule_tl proper_rule_skip)
qed

lemma proper_push: "proper_rule p \<Longrightarrow> list_all proper_rule st \<Longrightarrow> list_all proper_rule (push_pos p st)"
  by (simp add: push_pos_def)

lemma advance_stack_proper:
  assumes rules: "list_all proper_rule rules"
  shows "advance_stack fuel rules st = Some sts \<Longrightarrow> list_all proper_rule st \<Longrightarrow> \<forall>s \<in> set sts. list_all proper_rule s"
proof (induction fuel arbitrary: st sts)
  case (Suc fuel)
  show ?case
  proof (cases st)
    case (Cons p rest)
    show ?thesis
    proof (cases "ptype p = GRETYPE_RULE_REF")
      case True
      let ?alts = "alternates (rules ! unat (evalue (hd p)))"
      from Suc.prems(1) Cons True have id: "unat (evalue (hd p)) < length rules"
        and c: "concat_opt (map (\<lambda>sub. advance_stack fuel rules (push_pos sub (push_pos (tl p) rest))) ?alts) = Some sts"
        by (auto simp: Let_def split: if_splits)
      have "\<forall>a \<in> set ?alts. proper_rule a"
        using rules id by (intro proper_alternates) (simp add: list_all_iff)
      moreover have "list_all proper_rule (push_pos (tl p) rest)"
        using Suc.prems(2) Cons by (intro proper_push) (auto intro: proper_rule_tl)
      ultimately show ?thesis
        using concat_opt_map_all [OF c, of "list_all proper_rule"] Suc.IH proper_push by blast
    qed (use Suc.prems Cons in \<open>auto split: if_splits\<close>)
  qed (use Suc.prems in auto)
qed simp

lemma advance_proper_stacks:
  assumes "list_all proper_rule rules" "advance_stack fuel rules st = Some sts" "list_all proper_rule st"
  shows "\<forall>s \<in> set sts. proper_stack s"
  unfolding proper_stack_def
  using advance_stack_proper [OF assms] advance_stack_ready [OF assms(2)] by blast

section \<open>The grammar of a decoding\<close>

text \<open>The grammar after the tokens with these texts have been accepted one after the other.\<close>

primrec accept_tokens :: "nat \<Rightarrow> bytestring list \<Rightarrow> whisper_grammar \<Rightarrow> whisper_grammar option" where
  "accept_tokens fuel [] g = Some g"
| "accept_tokens fuel (txt # txts) g = whisper_grammar_accept_token fuel txt g \<bind> accept_tokens fuel txts"

definition grammar_ok :: "whisper_grammar \<Rightarrow> bool" where
  "grammar_ok g \<longleftrightarrow> list_all proper_rule (grules g) \<and> (\<forall>s \<in> set (gstacks g). proper_stack s) \<and>
    partial_ok (partial_utf8 g)"

lemma proper_takeWhile: "proper_rule r \<Longrightarrow> proper_rule (takeWhile (\<lambda>e. etype e \<noteq> GRETYPE_END) r @ [Elem GRETYPE_END 0])"
proof (induction r)
  case (Cons e r)
  then show ?case by (cases r) (auto simp: ptype_def)
qed (simp add: ptype_def)

lemma init_ok:
  assumes "whisper_grammar_init fuel rules i = Some g" "list_all proper_rule rules"
  shows "grammar_ok g"
proof -
  have r: "list_all proper_rule (map copy_rule rules)"
    using assms(2) by (simp add: list_all_iff copy_rule_def proper_takeWhile)
  from assms(1) have i: "i < length rules" and init: "initial_stacks fuel (map copy_rule rules) (rules ! i) = Some (gstacks g)"
    and g: "grules g = map copy_rule rules" "partial_utf8 g = \<lparr>pvalue = 0, n_remain = 0\<rparr>"
    by (auto simp: whisper_grammar_init_def split: if_splits)
  have "\<forall>a \<in> set (alternates (rules ! i)). proper_rule a"
    using assms(2) i by (intro proper_alternates) (simp add: list_all_iff)
  then have "\<forall>s \<in> set sts. proper_stack s"
    if "p \<in> set (alternates (rules ! i))" "advance_stack fuel (map copy_rule rules) (push_pos p []) = Some sts" for p sts
    using that(1) by (intro advance_proper_stacks [OF r that(2)] proper_push) auto
  with init have "\<forall>s \<in> set (gstacks g). proper_stack s"
    unfolding initial_stacks_def by (rule concat_opt_map_all)
  with r g show ?thesis by (simp add: grammar_ok_def partial_ok_def)
qed

lemma accept_proper:
  assumes r: "list_all proper_rule rules" and st: "\<forall>s \<in> set stacks. proper_stack s"
    and a: "whisper_grammar_accept fuel rules stacks c = Some sts"
  shows "\<forall>s \<in> set sts. proper_stack s"
proof -
  have "\<forall>s \<in> set out. proper_stack s" if "st \<in> set stacks" "accept_stack fuel rules c st = Some out" for st out
  proof (cases st)
    case (Cons p rest)
    with st that(1) have p: "at_char p" "proper_rule p" "list_all proper_rule rest" by (auto simp: proper_stack_def)
    have "list_all proper_rule (push_pos (after_class p) rest)"
      by (rule proper_push [OF proper_rule_after [OF p(2)] p(3)])
    with advance_proper_stacks [OF r] that(2) Cons p(1) show ?thesis
      by (fastforce simp: accept_stack_def match_char_eq split: if_splits)
  qed (use that in \<open>simp add: accept_stack_def\<close>)
  then show ?thesis using a unfolding whisper_grammar_accept_def by (elim concat_opt_map_all) blast
qed

lemma accept_all_proper:
  assumes "list_all proper_rule rules"
  shows "accept_all fuel rules stacks cs = Some sts \<Longrightarrow> \<forall>s \<in> set stacks. proper_stack s \<Longrightarrow>
    \<forall>s \<in> set sts. proper_stack s"
proof (induction cs arbitrary: stacks)
  case (Cons c cs)
  from Cons.prems(1) obtain sts1 where s1: "whisper_grammar_accept fuel rules stacks c = Some sts1"
    and rest: "accept_all fuel rules sts1 cs = Some sts"
    by (auto split: option.splits)
  show ?case by (rule Cons.IH [OF rest accept_proper [OF assms Cons.prems(2) s1]])
qed simp

lemma grammar_token_ok:
  assumes "whisper_grammar_accept_token fuel txt g = Some g'" "grammar_ok g"
  shows "grammar_ok g'"
proof -
  from assms(2) have ok: "list_all proper_rule (grules g)" "\<forall>s \<in> set (gstacks g). proper_stack s" "partial_ok (partial_utf8 g)"
    by (simp_all add: grammar_ok_def)
  show ?thesis
    using assms decode_utf8_ok [OF ok(3)] accept_all_proper [OF ok(1) _ ok(2)]
    by (auto simp: whisper_grammar_accept_token_def grammar_ok_def Let_def case_prod_unfold split: if_splits)
qed

lemma accept_tokens_ok: "accept_tokens fuel txts g = Some g' \<Longrightarrow> grammar_ok g \<Longrightarrow> grammar_ok g'"
  by (induction txts arbitrary: g) (auto simp: bind_eq_Some_conv dest: grammar_token_ok)

lemma accept_tokens_rules: "accept_tokens fuel txts g = Some g' \<Longrightarrow> grules g' = grules g"
  by (induction txts arbitrary: g)
    (auto simp: bind_eq_Some_conv whisper_grammar_accept_token_def Let_def case_prod_unfold split: if_splits)

definition remaining :: "whisper_grammar_candidate \<Rightarrow> u32 list" where
  "remaining tok = takeWhile (\<lambda>c. c \<noteq> 0) (drop (cp_at tok) (cp_data tok))"

definition terminated :: "whisper_grammar_candidate \<Rightarrow> bool" where
  "terminated tok \<longleftrightarrow> 0 \<in> set (drop (cp_at tok) (cp_data tok))"

text \<open>The candidates the code makes, and whether a stack can read one.\<close>

definition good_cand :: "whisper_grammar_candidate \<Rightarrow> bool" where
  "good_cand tok \<longleftrightarrow> terminated tok \<and> partial_ok (cand_partial tok)"

definition tok_readable :: "grule_list \<Rightarrow> gstack \<Rightarrow> whisper_grammar_candidate \<Rightarrow> bool" where
  "tok_readable rules st tok = can_read rules st (remaining tok) (cand_partial tok)"

lemma terminated_drop:
  assumes "terminated tok"
  shows "drop (cp_at tok) (cp_data tok) = cur_cp tok # drop (cp_at tok + 1) (cp_data tok)"
proof -
  have "cp_at tok < length (cp_data tok)"
    using assms by (auto simp: terminated_def intro: ccontr)
  then show ?thesis by (simp add: cur_cp_def Cons_nth_drop_Suc)
qed

lemma remaining_end: "terminated tok \<Longrightarrow> cur_cp tok = 0 \<Longrightarrow> remaining tok = []"
  by (simp add: remaining_def terminated_drop)

lemma remaining_step:
  assumes "terminated tok" "cur_cp tok \<noteq> 0"
  shows "remaining tok = cur_cp tok # remaining (next_cp tok)" "terminated (next_cp tok)"
  using assms terminated_drop [OF assms(1)] by (auto simp: remaining_def next_cp_def terminated_def)

lemma prev_next [simp]: "prev_cp (next_cp tok) = tok"
  by (simp add: prev_cp_def next_cp_def)

lemma next_partial [simp]: "cand_partial (next_cp tok) = cand_partial tok"
  by (simp add: next_cp_def)

definition bad_here :: "gpos \<Rightarrow> whisper_grammar_candidate \<Rightarrow> bool" where
  "bad_here p tok \<longleftrightarrow>
    (if cur_cp tok = 0 then n_remain (cand_partial tok) \<noteq> 0 \<and> match_partial_char p (cand_partial tok) \<noteq> Some True
     else \<not> in_class p (cur_cp tok))"

definition goes_on :: "gpos \<Rightarrow> whisper_grammar_candidate \<Rightarrow> bool" where
  "goes_on p tok \<longleftrightarrow> cur_cp tok \<noteq> 0 \<and> in_class p (cur_cp tok)"

lemma match_partial_char_Some: "at_char p \<Longrightarrow> \<exists>b. match_partial_char p pu = Some b"
  by (cases "match_partial_char p pu") (auto simp: match_partial_char_def Let_def split: if_splits)

lemma reject_here_eq:
  assumes "at_char p"
  shows "reject_here p toks = Some (filter (bad_here p) toks, map next_cp (filter (goes_on p) toks))"
proof (induction toks)
  case (Cons tok toks)
  then show ?case
    using assms match_partial_char_Some [OF assms, of "cand_partial tok"]
    by (auto simp: bad_here_def goes_on_def match_char_eq)
qed simp

lemma filter_mset_disjoint_add:
  "(\<And>x. x \<in># M \<Longrightarrow> \<not> (P x \<and> Q x)) \<Longrightarrow>
    filter_mset P M + filter_mset Q M = filter_mset (\<lambda>x. P x \<or> Q x) M"
  by (rule multiset_eqI) (auto simp flip: not_in_iff)

definition sound_rec where
  "sound_rec rules rec \<longleftrightarrow>
    (\<forall>sts cands rej. rec sts cands = Some rej \<longrightarrow> sts \<noteq> [] \<longrightarrow> (\<forall>s \<in> set sts. proper_stack s) \<longrightarrow>
       (\<forall>tok \<in> set cands. good_cand tok) \<longrightarrow>
       mset rej = filter_mset (\<lambda>tok. \<forall>s \<in> set sts. \<not> tok_readable rules s tok) (mset cands))"

lemma tok_readable_step:
  assumes tok: "good_cand tok" and p: "at_char p" "proper_rule p"
    and adv: "advance_stack fuel rules (push_pos (after_class p) rest) = Some sts"
  shows "\<not> tok_readable rules (p # rest) tok \<longleftrightarrow>
    bad_here p tok \<or> goes_on p tok \<and> (\<forall>s \<in> set sts. \<not> tok_readable rules s (next_cp tok))"
proof (cases "cur_cp tok = 0")
  case True
  from tok have "partial_ok (cand_partial tok)" by (simp add: good_cand_def)
  with True tok p show ?thesis
    by (auto simp: tok_readable_def good_cand_def remaining_end bad_here_def goes_on_def
        match_partial_char_fits proper_rule_ranges)
next
  case False
  with tok p(1) show ?thesis
    by (auto simp: tok_readable_def good_cand_def remaining_step bad_here_def goes_on_def
        simp flip: advance_stack_can_read [OF adv])
qed

lemma good_next: "good_cand tok \<Longrightarrow> goes_on p tok \<Longrightarrow> good_cand (next_cp tok)"
  by (simp add: good_cand_def goes_on_def remaining_step)

lemma reject_for_stack_sound:
  assumes rules: "list_all proper_rule rules" and rec: "sound_rec rules rec" and st: "proper_stack st"
    and t: "\<forall>tok \<in> set cands. good_cand tok"
    and r: "reject_candidates_for_stack rec fuel rules st cands = Some rej"
  shows "mset rej = filter_mset (\<lambda>tok. \<not> tok_readable rules st tok) (mset cands)"
proof (cases st)
  case Nil
  have "filter (\<lambda>tok. cur_cp tok \<noteq> 0 \<or> n_remain (cand_partial tok) \<noteq> 0) cands
        = filter (\<lambda>tok. \<not> tok_readable rules st tok) cands"
  proof (rule filter_cong [OF refl])
    fix tok assume "tok \<in> set cands"
    with t have tok: "terminated tok" by (auto simp: good_cand_def)
    show "(cur_cp tok \<noteq> 0 \<or> n_remain (cand_partial tok) \<noteq> 0) = (\<not> tok_readable rules st tok)"
    proof (cases "cur_cp tok = 0")
      case True
      with tok Nil show ?thesis by (simp add: tok_readable_def remaining_end)
    next
      case False
      with tok Nil show ?thesis by (simp add: tok_readable_def remaining_step)
    qed
  qed
  with r Nil show ?thesis by (simp add: reject_candidates_for_stack_def flip: mset_filter)
next
  case (Cons p rest)
  with st have p: "at_char p" "proper_rule p" and rest: "list_all proper_rule rest" by (simp_all add: proper_stack_def)
  from r Cons p(1) obtain sts nrej where adv: "advance_stack fuel rules (push_pos (after_class p) rest) = Some sts"
    and nr: "rec sts (map next_cp (filter (goes_on p) cands)) = Some nrej"
    and rej: "rej = filter (bad_here p) cands @ map prev_cp nrej"
    by (auto simp: reject_candidates_for_stack_def reject_here_eq match_char_eq bind_eq_Some_conv)
  have "\<forall>tok \<in> set (map next_cp (filter (goes_on p) cands)). good_cand tok"
    using t by (auto intro: good_next)
  with rec nr advance_stack_ne [OF adv]
    advance_proper_stacks [OF rules adv proper_push [OF proper_rule_after [OF p(2)] rest]]
  have "mset nrej = filter_mset (\<lambda>tok. \<forall>s \<in> set sts. \<not> tok_readable rules s tok)
      (mset (map next_cp (filter (goes_on p) cands)))"
    by (auto simp: sound_rec_def)
  then have n: "mset (map prev_cp nrej) =
      filter_mset (\<lambda>tok. goes_on p tok \<and> (\<forall>s \<in> set sts. \<not> tok_readable rules s (next_cp tok))) (mset cands)"
    by (simp add: filter_mset_image_mset image_mset.compositionality comp_def filter_filter_mset conj_commute
        flip: mset_filter)
  have "mset rej = filter_mset (bad_here p) (mset cands) +
      filter_mset (\<lambda>tok. goes_on p tok \<and> (\<forall>s \<in> set sts. \<not> tok_readable rules s (next_cp tok))) (mset cands)"
    unfolding rej using n by simp
  also have "\<dots> = filter_mset (\<lambda>tok. bad_here p tok \<or>
      goes_on p tok \<and> (\<forall>s \<in> set sts. \<not> tok_readable rules s (next_cp tok))) (mset cands)"
    by (rule filter_mset_disjoint_add) (auto simp: bad_here_def goes_on_def split: if_splits)
  also have "\<dots> = filter_mset (\<lambda>tok. \<not> tok_readable rules st tok) (mset cands)"
    unfolding Cons using t by (intro filter_mset_cong refl) (simp add: tok_readable_step [OF _ p adv])
  finally show ?thesis .
qed

lemma reject_stacks_sound:
  assumes "list_all proper_rule rules" "sound_rec rules rec"
  shows "reject_stacks (reject_candidates_for_stack rec fuel rules) sts cands = Some rej \<Longrightarrow>
    \<forall>s \<in> set sts. proper_stack s \<Longrightarrow> \<forall>tok \<in> set cands. good_cand tok \<Longrightarrow>
    mset rej = filter_mset (\<lambda>tok. \<forall>s \<in> set sts. \<not> tok_readable rules s tok) (mset cands)"
proof (induction sts arbitrary: cands)
  case (Cons st sts)
  then obtain r where r: "reject_candidates_for_stack rec fuel rules st cands = Some r"
    and rest: "reject_stacks (reject_candidates_for_stack rec fuel rules) sts r = Some rej"
    by (auto simp: bind_eq_Some_conv)
  from Cons.prems have m: "mset r = filter_mset (\<lambda>tok. \<not> tok_readable rules st tok) (mset cands)"
    by (intro reject_for_stack_sound [OF assms _ _ r]) auto
  then have "set r \<subseteq> set cands" by (metis mset_subset_eqD multiset_filter_subset set_mset_mset subsetI)
  then have "\<forall>tok \<in> set r. good_cand tok" using Cons.prems(3) by blast
  with Cons.IH [OF rest] Cons.prems(2) m show ?case by (simp add: filter_filter_mset)
qed simp

lemma reject_candidates_sound:
  assumes rules: "list_all proper_rule rules"
  shows "sound_rec rules (reject_candidates depth fuel rules)"
proof (induction depth)
  case (Suc depth)
  show ?case
    unfolding sound_rec_def
  proof (intro allI impI)
    fix sts cands rej
    assume *: "reject_candidates (Suc depth) fuel rules sts cands = Some rej" "sts \<noteq> []"
      "\<forall>s \<in> set sts. proper_stack s" "\<forall>tok \<in> set cands. good_cand tok"
    show "mset rej = filter_mset (\<lambda>tok. \<forall>s \<in> set sts. \<not> tok_readable rules s tok) (mset cands)"
    proof (cases "cands = []")
      case False
      with * have "reject_stacks (reject_candidates_for_stack (reject_candidates depth fuel rules) fuel rules) sts cands = Some rej"
        by simp
      then show ?thesis using *(3,4) by (rule reject_stacks_sound [OF rules Suc])
    qed (use * in simp)
  qed
qed (simp add: sound_rec_def)

lemma decode_utf8_ends_0: "0 \<in> set (fst (decode_utf8 src pu))"
  by (auto simp: decode_utf8_def Let_def split: option.splits prod.splits)

lemma foldl_penalise:
  "distinct (map cand_id toks) \<Longrightarrow> \<forall>tok \<in> set toks. cand_id tok < length logits \<Longrightarrow>
    length (foldl (penalise pen) logits toks) = length logits \<and>
    (\<forall>j < length logits. foldl (penalise pen) logits toks ! j =
       (if j \<in> cand_id ` set toks then map_option (\<lambda>l. l - pen) (logits ! j) else logits ! j))"
proof (induction toks arbitrary: logits)
  case (Cons tok toks)
  then show ?case
    using Cons.IH [of "penalise pen logits tok"]
    by (auto simp: penalise_def nth_list_update)
qed simp

text \<open>Some stack of the grammar can read the text of a token, from the partial character on that the
  previous token left.\<close>

definition token_readable :: "whisper_grammar \<Rightarrow> bytestring \<Rightarrow> bool" where
  "token_readable g txt \<longleftrightarrow>
    (let (cps, pu) = decode_utf8 txt (partial_utf8 g)
     in \<exists>st \<in> set (gstacks g). can_read (grules g) st (takeWhile (\<lambda>c. c \<noteq> 0) cps) pu)"

lemma grammar_candidates_ids:
  "map cand_id (grammar_candidates pu vocab) = map fst (filter (\<lambda>(i, txt). txt \<noteq> []) (enumerate 0 vocab))"
  by (simp add: grammar_candidates_def case_prod_unfold)

lemma distinct_candidates: "distinct (map cand_id (grammar_candidates pu vocab))"
  unfolding grammar_candidates_ids
  by (metis distinct_map_filter distinct_upt map_fst_enumerate)

lemma in_grammar_candidates:
  "tok \<in> set (grammar_candidates pu vocab) \<longleftrightarrow>
    (\<exists>i < length vocab. vocab ! i \<noteq> [] \<and>
       tok = \<lparr>cand_id = i, cp_data = fst (decode_utf8 (vocab ! i) pu), cp_at = 0,
              cand_partial = snd (decode_utf8 (vocab ! i) pu)\<rparr>)"
  by (auto simp: grammar_candidates_def in_set_enumerate_eq image_iff)

lemma ex_candidate:
  "(\<exists>tok \<in> set (grammar_candidates pu vocab). cand_id tok = j \<and> Q tok) \<longleftrightarrow>
    j < length vocab \<and> vocab ! j \<noteq> [] \<and>
    Q \<lparr>cand_id = j, cp_data = fst (decode_utf8 (vocab ! j) pu), cp_at = 0,
       cand_partial = snd (decode_utf8 (vocab ! j) pu)\<rparr>"
  unfolding Bex_def in_grammar_candidates by auto

text \<open>C37: The logit penalty of a constrained decoding, for a grammar made by \<open>whisper_grammar_init\<close> from
  rules whose ranges have their bounds in order, after any tokens have been accepted and while a stack is
  left: exactly the tokens with a text that no stack can read lose the penalty, each once; every other
  logit is unchanged.  Reading is defined by the rules alone, without the code's matching functions.
  Where the text cuts its last character, a positive range can take the cut character if and only if some
  proper completion lies in it; an inverse range is stricter than that: it takes it only if every
  completion satisfies the range (\<open>cut_fits\<close>), so a token one of whose completions the grammar allows
  can be penalised.  (The end-of-text token and everything above it are never penalised.)\<close>

theorem suppress_exactly_unviable:
  assumes "whisper_grammar_init fuel rules i = Some g0" and "list_all proper_rule rules"
    and "accept_tokens fuel txts g0 = Some g" and "gstacks g \<noteq> []"
    and "whisper_suppress_invalid_grammar depth fuel penalty vocab logits g = Some logits'"
    and "length vocab \<le> length logits"
  shows "length logits' = length logits \<and>
    (\<forall>j < length logits. logits' ! j =
       (if j < length vocab \<and> vocab ! j \<noteq> [] \<and> \<not> token_readable g (vocab ! j)
        then map_option (\<lambda>l. l - penalty) (logits ! j) else logits ! j))"
proof -
  have rules: "list_all proper_rule (grules g)" and stacks: "\<forall>s \<in> set (gstacks g). proper_stack s"
    and pu: "partial_ok (partial_utf8 g)"
    using accept_tokens_ok [OF assms(3) init_ok [OF assms(1,2)]] by (simp_all add: grammar_ok_def)
  have ne: "grules g \<noteq> []"
    using accept_tokens_rules [OF assms(3)] assms(1) by (auto simp: whisper_grammar_init_def split: if_splits)
  define bad where "bad tok = (\<forall>s \<in> set (gstacks g). \<not> tok_readable (grules g) s tok)" for tok
  define cands where "cands = grammar_candidates (partial_utf8 g) vocab"
  from assms ne obtain rej where rej: "reject_candidates depth fuel (grules g) (gstacks g) cands = Some rej"
    and l: "logits' = foldl (penalise penalty) logits rej"
    by (auto simp: whisper_suppress_invalid_grammar_def cands_def)
  have "\<forall>tok \<in> set cands. good_cand tok"
    using decode_utf8_ok [OF pu]
    by (auto simp: cands_def in_grammar_candidates good_cand_def terminated_def decode_utf8_ends_0)
  with reject_candidates_sound [OF rules, of depth fuel] rej assms(4) stacks
  have m: "mset rej = filter_mset bad (mset cands)"
    unfolding bad_def sound_rec_def by blast
  then have set: "set rej = {tok \<in> set cands. bad tok}"
    by (metis set_mset_filter set_mset_mset)
  have "distinct (map cand_id (filter bad cands))"
    using distinct_candidates [of "partial_utf8 g" vocab] by (simp add: cands_def distinct_map_filter)
  then have d: "distinct (map cand_id rej)"
    using m by (metis mset_eq_imp_distinct_iff mset_filter mset_map)
  have ids: "j \<in> cand_id ` set rej \<longleftrightarrow> j < length vocab \<and> vocab ! j \<noteq> [] \<and> \<not> token_readable g (vocab ! j)" for j
  proof -
    have "j \<in> cand_id ` set rej \<longleftrightarrow> (\<exists>tok \<in> set cands. cand_id tok = j \<and> bad tok)"
      unfolding set by auto
    then show ?thesis
      unfolding cands_def ex_candidate
      by (simp add: bad_def tok_readable_def token_readable_def remaining_def case_prod_unfold Let_def)
  qed
  have "\<forall>tok \<in> set rej. cand_id tok < length logits"
    unfolding set using assms(6) by (auto simp: cands_def in_grammar_candidates)
  note fp = foldl_penalise [OF d this, of penalty]
  show ?thesis unfolding l using fp unfolding ids by blast
qed

section \<open>Termination of the expansion\<close>

lemma ptype_ne: "ptype p \<noteq> GRETYPE_END \<Longrightarrow> p \<noteq> []"
  by (auto simp: ptype_def)

lemma length_after_class: "p \<noteq> [] \<Longrightarrow> length (after_class p) < length p"
proof (induction p rule: after_class.induct)
  case (2 e r)
  show ?case
  proof (cases "ptype r = GRETYPE_CHAR_RNG_UPPER")
    case True
    then have "r \<noteq> []" using ptype_ne [of r] by simp
    then have l: "length (tl r) < length r" by simp
    show ?thesis
    proof (cases "ptype (tl r) = GRETYPE_CHAR_ALT")
      case alt: True
      then have "tl r \<noteq> []" using ptype_ne [of "tl r"] by simp
      with "2.IH"(1) [OF True alt] l have "length (after_class (tl r)) < length r" by linarith
      with True alt show ?thesis by simp
    qed (use True l in simp)
  next
    case False
    with "2.IH"(2) [OF False] ptype_ne [of r] show ?thesis
      by (cases "ptype r = GRETYPE_CHAR_ALT") (auto intro: less_SucI)
  qed
qed simp

lemma at_char_ne: "at_char p \<Longrightarrow> p \<noteq> []"
  by (auto simp: at_char_def ptype_def)

text \<open>The sequence at a position consists of ranges and references to rules of the grammar.\<close>

function wf_pos :: "nat \<Rightarrow> gpos \<Rightarrow> bool" where
  "wf_pos n p =
    (if is_end_of_sequence p then True
     else if at_char p then wf_pos n (after_class p)
     else ptype p = GRETYPE_RULE_REF \<and> unat (evalue (hd p)) < n \<and> wf_pos n (tl p))"
  by pat_completeness auto
termination
  by (relation "measure (\<lambda>(n, p). length p)")
     (auto simp: length_after_class at_char_ne is_end_of_sequence_def ptype_def split: list.splits)

declare wf_pos.simps [simp del]

text \<open>
  The first element of a non-empty alternate, if it is a reference, refers to a rule of smaller rank:
  the grammar has no left recursion and no empty alternate.
\<close>

definition ranked_alt :: "(nat \<Rightarrow> nat) \<Rightarrow> nat \<Rightarrow> nat \<Rightarrow> gpos \<Rightarrow> bool" where
  "ranked_alt rk n i alt \<longleftrightarrow> \<not> is_end_of_sequence alt \<and> wf_pos n alt \<and>
     (ptype alt = GRETYPE_RULE_REF \<longrightarrow> rk (unat (evalue (hd alt))) < rk i)"

definition ranked_grammar :: "(nat \<Rightarrow> nat) \<Rightarrow> nat \<Rightarrow> grule_list \<Rightarrow> bool" where
  "ranked_grammar rk k rules \<longleftrightarrow>
     list_all (\<lambda>i. rk i \<le> k \<and> list_all (ranked_alt rk (length rules) i) (alternates (rules ! i)))
       [0..<length rules]"

definition wf_stack :: "nat \<Rightarrow> gstack \<Rightarrow> bool" where
  "wf_stack n st \<longleftrightarrow> (\<forall>p \<in> set st. \<not> is_end_of_sequence p \<and> wf_pos n p)"

definition top_rank :: "(nat \<Rightarrow> nat) \<Rightarrow> gstack \<Rightarrow> nat" where
  "top_rank rk st = (if st \<noteq> [] \<and> ptype (hd st) = GRETYPE_RULE_REF then Suc (rk (unat (evalue (hd (hd st))))) else 0)"

lemma wf_stack_push: "wf_stack n st \<Longrightarrow> wf_pos n p \<Longrightarrow> wf_stack n (push_pos p st)"
  by (auto simp: wf_stack_def push_pos_def)

lemma wf_pos_tl: "ptype p = GRETYPE_RULE_REF \<Longrightarrow> wf_pos n p \<Longrightarrow> unat (evalue (hd p)) < n \<and> wf_pos n (tl p)"
  by (simp add: wf_pos.simps [of n p] is_end_of_sequence_def at_char_def)

lemma wf_pos_after: "at_char p \<Longrightarrow> wf_pos n p \<Longrightarrow> wf_pos n (after_class p)"
  using at_char_types [of p] by (simp add: wf_pos.simps [of n p])

lemma wf_pos_kinds: "wf_pos n p \<Longrightarrow> \<not> is_end_of_sequence p \<Longrightarrow> at_char p \<or> ptype p = GRETYPE_RULE_REF"
  by (simp add: wf_pos.simps [of n p] split: if_splits)

lemma concat_opt_map_total:
  "\<forall>x \<in> set xs. \<exists>ys. f x = Some ys \<Longrightarrow> \<exists>ys. concat_opt (map f xs) = Some ys"
  by (induction xs) fastforce+

lemma advance_stack_total:
  assumes g: "ranked_grammar rk k rules"
  shows "wf_stack (length rules) st \<Longrightarrow> top_rank rk st < fuel \<Longrightarrow>
    \<exists>sts. advance_stack fuel rules st = Some sts \<and> (\<forall>s \<in> set sts. wf_stack (length rules) s)"
proof (induction fuel arbitrary: st)
  case (Suc fuel)
  show ?case
  proof (cases st)
    case Nil then show ?thesis by (simp add: wf_stack_def)
  next
    case (Cons p rest)
    with Suc.prems(1) have p: "wf_pos (length rules) p" "\<not> is_end_of_sequence p"
      and rest: "wf_stack (length rules) rest" by (auto simp: wf_stack_def)
    show ?thesis
    proof (cases "ptype p = GRETYPE_RULE_REF")
      case False
      with wf_pos_kinds [OF p] have "at_char p" by blast
      with Cons False Suc.prems(1) show ?thesis by simp
    next
      case True
      let ?i = "unat (evalue (hd p))"
      let ?f = "\<lambda>sub. advance_stack fuel rules (push_pos sub (push_pos (tl p) rest))"
      from wf_pos_tl [OF True p(1)] have i: "?i < length rules" and t: "wf_pos (length rules) (tl p)" by auto
      have step: "\<exists>sts. ?f sub = Some sts \<and> (\<forall>s \<in> set sts. wf_stack (length rules) s)"
        if "sub \<in> set (alternates (rules ! ?i))" for sub
      proof (rule Suc.IH)
        from g i that have sub: "ranked_alt rk (length rules) ?i sub"
          by (auto simp: ranked_grammar_def list_all_iff)
        then show "wf_stack (length rules) (push_pos sub (push_pos (tl p) rest))"
          by (intro wf_stack_push rest t) (simp add: ranked_alt_def)
        from sub Suc.prems(2) Cons True
        show "top_rank rk (push_pos sub (push_pos (tl p) rest)) < fuel"
          by (auto simp: top_rank_def push_pos_def ranked_alt_def)
      qed
      then obtain sts where "concat_opt (map ?f (alternates (rules ! ?i))) = Some sts"
        using concat_opt_map_total [of "alternates (rules ! ?i)" ?f] by blast
      with concat_opt_map_all [OF this, of "wf_stack (length rules)"] step i Cons True show ?thesis
        by (fastforce simp: Let_def)
    qed
  qed
qed simp

lemma top_rank_le: "ranked_grammar rk k rules \<Longrightarrow> wf_stack (length rules) st \<Longrightarrow> top_rank rk st \<le> Suc k"
  by (cases st) (auto simp: top_rank_def wf_stack_def ranked_grammar_def list_all_iff dest: wf_pos_tl)

lemma accept_total:
  assumes g: "ranked_grammar rk k rules" and fuel: "Suc k < fuel"
    and st: "\<forall>s \<in> set stacks. ready s \<and> wf_stack (length rules) s"
  shows "\<exists>sts. whisper_grammar_accept fuel rules stacks c = Some sts \<and>
    (\<forall>s \<in> set sts. ready s \<and> wf_stack (length rules) s)"
proof -
  have one: "\<exists>sts. accept_stack fuel rules c s = Some sts \<and> (\<forall>s \<in> set sts. wf_stack (length rules) s)"
    if "s \<in> set stacks" for s
  proof (cases s)
    case (Cons p rest)
    with st that have p: "at_char p" "wf_pos (length rules) p" and r: "wf_stack (length rules) rest"
      by (auto simp: wf_stack_def)
    have w: "wf_stack (length rules) (push_pos (after_class p) rest)"
      by (rule wf_stack_push [OF r wf_pos_after [OF p]])
    with advance_stack_total [OF g w, of fuel] top_rank_le [OF g w] fuel p(1) Cons show ?thesis
      by (auto simp: accept_stack_def match_char_eq)
  qed (simp add: accept_stack_def)
  then have "\<forall>x \<in> set stacks. \<exists>ys. accept_stack fuel rules c x = Some ys" by blast
  then obtain sts where s: "whisper_grammar_accept fuel rules stacks c = Some sts"
    unfolding whisper_grammar_accept_def using concat_opt_map_total by blast
  moreover have "\<forall>s \<in> set sts. wf_stack (length rules) s"
    using s unfolding whisper_grammar_accept_def by (rule concat_opt_map_all) (use one in fastforce)
  ultimately show ?thesis using accept_ready [OF s] by blast
qed

lemma accept_all_total:
  assumes g: "ranked_grammar rk k rules" and fuel: "Suc k < fuel"
  shows "\<forall>s \<in> set stacks. ready s \<and> wf_stack (length rules) s \<Longrightarrow>
    \<exists>sts. accept_all fuel rules stacks cs = Some sts \<and> (\<forall>s \<in> set sts. ready s \<and> wf_stack (length rules) s)"
proof (induction cs arbitrary: stacks)
  case (Cons c cs)
  from accept_total [OF g fuel Cons.prems]
  obtain sts where "whisper_grammar_accept fuel rules stacks c = Some sts"
    "\<forall>s \<in> set sts. ready s \<and> wf_stack (length rules) s" by blast
  then show ?case using Cons.IH [of sts] by simp
qed simp

lemma reject_for_stack_total:
  assumes g: "ranked_grammar rk k rules" and fuel: "Suc k < fuel"
    and st: "ready st" "wf_stack (length rules) st" and t: "\<forall>tok \<in> set cands. terminated tok"
    and l: "\<forall>tok \<in> set cands. Suc (length (remaining tok)) < Suc depth"
    and rec: "\<And>sts cs. \<forall>s \<in> set sts. ready s \<and> wf_stack (length rules) s \<Longrightarrow>
       \<forall>tok \<in> set cs. terminated tok \<and> Suc (length (remaining tok)) < depth \<Longrightarrow> \<exists>rej. rec sts cs = Some rej"
  shows "\<exists>rej. reject_candidates_for_stack rec fuel rules st cands = Some rej"
proof (cases st)
  case (Cons p rest)
  with st have p: "at_char p" "wf_pos (length rules) p" and r: "wf_stack (length rules) rest"
    by (auto simp: wf_stack_def)
  have w: "wf_stack (length rules) (push_pos (after_class p) rest)"
    by (rule wf_stack_push [OF r wf_pos_after [OF p]])
  from advance_stack_total [OF g w, of fuel] top_rank_le [OF g w] fuel
  obtain sts where adv: "advance_stack fuel rules (push_pos (after_class p) rest) = Some sts"
    and s: "\<forall>s \<in> set sts. wf_stack (length rules) s" by auto
  have "\<forall>tok \<in> set (map next_cp (filter (goes_on p) cands)). terminated tok \<and> Suc (length (remaining tok)) < depth"
    using t l by (fastforce simp: goes_on_def remaining_step)
  with rec [of sts] s advance_stack_ready [OF adv]
  obtain nrej where "rec sts (map next_cp (filter (goes_on p) cands)) = Some nrej" by blast
  then show ?thesis
    using Cons p(1) adv by (simp add: reject_candidates_for_stack_def reject_here_eq match_char_eq)
qed (simp add: reject_candidates_for_stack_def)

lemma reject_for_stack_subset:
  assumes r: "reject_candidates_for_stack rec fuel rules st cands = Some rej"
    and rec: "\<And>sts cs rs. rec sts cs = Some rs \<Longrightarrow> set rs \<subseteq> set cs"
  shows "set rej \<subseteq> set cands"
proof (cases st)
  case (Cons p rest)
  with r have p: "at_char p"
    by (auto simp: reject_candidates_for_stack_def match_char_eq bind_eq_Some_conv split: if_splits)
  with r Cons obtain sts nrej where nr: "rec sts (map next_cp (filter (goes_on p) cands)) = Some nrej"
    and rej: "rej = filter (bad_here p) cands @ map prev_cp nrej"
    by (auto simp: reject_candidates_for_stack_def reject_here_eq match_char_eq bind_eq_Some_conv)
  from rec [OF nr] show ?thesis unfolding rej by auto
qed (use r in \<open>auto simp: reject_candidates_for_stack_def\<close>)

lemma reject_candidates_subset: "reject_candidates depth fuel rules sts cands = Some rej \<Longrightarrow> set rej \<subseteq> set cands"
proof (induction depth arbitrary: sts cands rej)
  case (Suc depth)
  have "reject_stacks (reject_candidates_for_stack (reject_candidates depth fuel rules) fuel rules) sts cs = Some rj \<Longrightarrow>
      set rj \<subseteq> set cs" for cs rj
    by (induction sts arbitrary: cs) (fastforce simp: bind_eq_Some_conv dest!: reject_for_stack_subset [OF _ Suc.IH])+
  with Suc.prems show ?case by (auto split: if_splits)
qed simp

lemma reject_candidates_total:
  assumes g: "ranked_grammar rk k rules" and fuel: "Suc k < fuel"
  shows "\<forall>s \<in> set stacks. ready s \<and> wf_stack (length rules) s \<Longrightarrow>
    \<forall>tok \<in> set cands. terminated tok \<and> Suc (length (remaining tok)) < depth \<Longrightarrow> 0 < depth \<Longrightarrow>
    \<exists>rej. reject_candidates depth fuel rules stacks cands = Some rej"
proof (induction depth arbitrary: stacks cands)
  case (Suc depth)
  let ?f = "reject_candidates_for_stack (reject_candidates depth fuel rules) fuel rules"
  have "\<exists>rej. reject_stacks ?f sts cs = Some rej"
    if "\<forall>s \<in> set sts. ready s \<and> wf_stack (length rules) s" "0 < depth"
      "\<forall>tok \<in> set cs. terminated tok \<and> Suc (length (remaining tok)) < Suc depth" for sts cs
    using that
  proof (induction sts arbitrary: cs)
    case (Cons st sts)
    have "\<exists>r. ?f st cs = Some r"
      by (rule reject_for_stack_total [OF g fuel]) (use Cons.prems in \<open>auto intro: Suc.IH\<close>)
    then obtain r where r: "?f st cs = Some r" ..
    have "set r \<subseteq> set cs" by (rule reject_for_stack_subset [OF r reject_candidates_subset])
    then show ?case using Cons.IH [of r] Cons.prems r by auto
  qed simp
  from this [of stacks cands] Suc.prems show ?case by (cases cands) auto
qed simp

lemma decode_continue_length:
  "decode_continue s v n = Some (r, v', n') \<Longrightarrow> length r \<le> length s \<and> (0 < n \<and> n' = 0 \<longrightarrow> length r < length s)"
  by (induction s v n arbitrary: r v' n' rule: decode_continue.induct) (fastforce split: if_splits)+

lemma decode_main_length:
  "decode_main s cps v n = Some (cps', v', n') \<Longrightarrow> length cps' \<le> length cps + length s"
proof (induction s cps v n arbitrary: cps' v' n' rule: decode_main.induct)
  case (2 b r cps v n)
  define v1 :: u32 where "v1 = ucast (b AND (push_bit (nat (7 - (utf8_lookup b - 1))) 1 - 1))"
  obtain r1 w1 m1 where d: "decode_rest r v1 (utf8_lookup b - 1) = (r1, w1, m1)" by (cases "decode_rest r v1 (utf8_lookup b - 1)")
  with 2 have "length cps' \<le> length (if m1 = 0 then cps @ [w1] else cps) + length r1"
    by (force simp: Let_def v1_def split: if_splits)
  then show ?case using length_decode_rest [of r v1 "utf8_lookup b - 1"] d by (auto split: if_splits)
qed simp

lemma decode_utf8_length: "length (fst (decode_utf8 txt pu)) \<le> Suc (length txt)"
proof -
  have "length (c_str txt) \<le> length txt" by (simp add: c_str_def length_takeWhile_le)
  then show ?thesis
    by (auto simp: decode_utf8_def Let_def split: option.splits
        dest!: decode_continue_length decode_main_length)
qed

text \<open>C38: Grammars that are ranked (no empty alternate and no left recursion) make every grammar
  operation return: the initial stacks, accepting any code points, and the penalty of a whole
  vocabulary, with a fuel just above the largest rank and a depth just above the longest token.\<close>

theorem ranked_grammar_returns:
  assumes "ranked_grammar rk k (map copy_rule rules)" and "Suc k < fuel" and "i < length rules"
    and "list_all (wf_pos (length rules)) (alternates (rules ! i))"
  shows "\<exists>g. whisper_grammar_init fuel rules i = Some g \<and>
    (\<forall>cs. \<exists>sts. accept_all fuel (grules g) (gstacks g) cs = Some sts \<and>
      (\<forall>pu vocab depth penalty logits. 0 < depth \<and> (\<forall>txt \<in> set vocab. length txt + 2 < depth) \<longrightarrow>
         whisper_suppress_invalid_grammar depth fuel penalty vocab logits
           (g\<lparr>gstacks := sts, partial_utf8 := pu\<rparr>) \<noteq> None))"
proof -
  let ?rs = "map copy_rule rules"
  have alt: "\<exists>sts. advance_stack fuel ?rs (push_pos p []) = Some sts \<and> (\<forall>s \<in> set sts. wf_stack (length ?rs) s)"
    if "p \<in> set (alternates (rules ! i))" for p
  proof -
    from that assms(4) have "wf_pos (length ?rs) p" by (simp add: list_all_iff)
    then have w: "wf_stack (length ?rs) (push_pos p [])"
      by (intro wf_stack_push) (simp add: wf_stack_def)
    show ?thesis
      by (rule advance_stack_total [OF assms(1) w]) (use top_rank_le [OF assms(1) w] assms(2) in linarith)
  qed
  then have "\<forall>p \<in> set (alternates (rules ! i)). \<exists>sts. advance_stack fuel ?rs (push_pos p []) = Some sts"
    by blast
  from concat_opt_map_total [OF this] obtain st0 where i0: "initial_stacks fuel ?rs (rules ! i) = Some st0"
    unfolding initial_stacks_def ..
  have "\<forall>s \<in> set sts. wf_stack (length ?rs) s"
    if "p \<in> set (alternates (rules ! i))" "advance_stack fuel ?rs (push_pos p []) = Some sts" for p sts
    using alt [OF that(1)] that(2) by simp
  with i0 have "\<forall>s \<in> set st0. wf_stack (length ?rs) s"
    unfolding initial_stacks_def by (rule concat_opt_map_all)
  with initial_stacks_ready [OF i0] have r0: "\<forall>s \<in> set st0. ready s \<and> wf_stack (length ?rs) s" by blast
  have "whisper_suppress_invalid_grammar depth fuel penalty vocab logits
          \<lparr>grules = ?rs, gstacks = sts, partial_utf8 = pu\<rparr> \<noteq> None"
    if s: "\<forall>s \<in> set sts. ready s \<and> wf_stack (length ?rs) s"
      and d: "0 < depth" "\<forall>txt \<in> set vocab. length txt + 2 < depth" for sts depth penalty vocab logits pu
  proof -
    have "Suc (length (remaining tok)) < depth" if "tok \<in> set (grammar_candidates pu vocab)" for tok
    proof -
      from that obtain j where j: "j < length vocab" "tok = \<lparr>cand_id = j, cp_data = fst (decode_utf8 (vocab ! j) pu),
          cp_at = 0, cand_partial = snd (decode_utf8 (vocab ! j) pu)\<rparr>" by (auto simp: in_grammar_candidates)
      have "length (remaining tok) \<le> length (fst (decode_utf8 (vocab ! j) pu))"
        using j by (simp add: remaining_def length_takeWhile_le)
      also have "\<dots> \<le> Suc (length (vocab ! j))" by (rule decode_utf8_length)
      finally show ?thesis using d(2) nth_mem [OF j(1)] by fastforce
    qed
    moreover have "terminated tok" if "tok \<in> set (grammar_candidates pu vocab)" for tok
      using that by (auto simp: in_grammar_candidates terminated_def decode_utf8_ends_0)
    ultimately obtain rej where "reject_candidates depth fuel ?rs sts (grammar_candidates pu vocab) = Some rej"
      using reject_candidates_total [OF assms(1,2) s, of "grammar_candidates pu vocab" depth] d(1) by auto
    then show ?thesis by (simp add: whisper_suppress_invalid_grammar_def)
  qed
  note suppress = this
  let ?g = "\<lparr>grules = ?rs, gstacks = st0, partial_utf8 = \<lparr>pvalue = 0, n_remain = 0\<rparr>\<rparr>"
  have "whisper_grammar_init fuel rules i = Some ?g"
    using i0 assms(3) by (simp add: whisper_grammar_init_def)
  moreover have "\<exists>sts. accept_all fuel (grules ?g) (gstacks ?g) cs = Some sts \<and>
      (\<forall>pu vocab depth penalty logits. 0 < depth \<and> (\<forall>txt \<in> set vocab. length txt + 2 < depth) \<longrightarrow>
         whisper_suppress_invalid_grammar depth fuel penalty vocab logits
           (?g\<lparr>gstacks := sts, partial_utf8 := pu\<rparr>) \<noteq> None)" for cs
  proof -
    from accept_all_total [OF assms(1,2) r0, of cs] obtain sts where
      a: "accept_all fuel ?rs st0 cs = Some sts" and s: "\<forall>s \<in> set sts. ready s \<and> wf_stack (length ?rs) s"
      by blast
    show ?thesis by (rule exI [of _ sts]) (use a suppress [OF s] in auto)
  qed
  ultimately show ?thesis by blast
qed

section \<open>An example grammar\<close>

definition sample_rules :: grule_list where
  "sample_rules =
    [[Elem GRETYPE_RULE_REF 1, Elem GRETYPE_CHAR 120, Elem GRETYPE_END 0],
     [Elem GRETYPE_CHAR 97, Elem GRETYPE_CHAR_RNG_UPPER 99, Elem GRETYPE_ALT 0, Elem GRETYPE_CHAR 100, Elem GRETYPE_END 0]]"

definition sample_grammar :: whisper_grammar where
  "sample_grammar = the (whisper_grammar_init 3 sample_rules 0)"

lemma sample_init: "whisper_grammar_init 3 sample_rules 0 = Some sample_grammar"
proof -
  have "whisper_grammar_init 3 sample_rules 0 \<noteq> None" by code_simp
  then show ?thesis by (auto simp: sample_grammar_def)
qed

theorem grammar_stacks_recognise_witness:
  "\<exists>alt \<in> set (alternates (sample_rules ! 0)). yields (grules sample_grammar) alt [98, 120]"
proof -
  have a: "accept_all 3 (grules sample_grammar) (gstacks sample_grammar) [98, 120] = Some [[]]"
    by code_simp
  show ?thesis using grammar_stacks_recognise [OF sample_init a] by simp
qed

theorem suppress_exactly_unviable_witness:
  "the (whisper_suppress_invalid_grammar 5 3 100 [bytes ''x'', bytes ''y'', []] [Some 1, Some 2, None, Some 4]
          (the (accept_tokens 3 [bytes ''b''] sample_grammar)))
     = [Some 1, Some (2 - 100), None, Some 4]"
proof -
  let ?vs = "[bytes ''x'', bytes ''y'', []]"
  let ?g = "\<lparr>grules = map copy_rule sample_rules, gstacks = [[[Elem GRETYPE_CHAR 120, Elem GRETYPE_END 0]]],
             partial_utf8 = \<lparr>pvalue = 98, n_remain = 0\<rparr>\<rparr>"
  have acc: "accept_tokens 3 [bytes ''b''] sample_grammar = Some ?g" by code_simp
  have "whisper_suppress_invalid_grammar 5 3 100 ?vs [Some 1, Some 2, None, Some 4] ?g \<noteq> None" by code_simp
  then obtain ls where s: "whisper_suppress_invalid_grammar 5 3 100 ?vs [Some 1, Some 2, None, Some 4] ?g = Some ls"
    by blast
  have p: "list_all proper_rule sample_rules" by code_simp
  have dec: "decode_utf8 (bytes ''x'') (partial_utf8 ?g) = ([120, 0], \<lparr>pvalue = 120, n_remain = 0\<rparr>)"
    "decode_utf8 (bytes ''y'') (partial_utf8 ?g) = ([121, 0], \<lparr>pvalue = 121, n_remain = 0\<rparr>)"
    "bytes ''x'' \<noteq> []" "bytes ''y'' \<noteq> []"
    by code_simp+
  have top: "at_char [Elem GRETYPE_CHAR 120, Elem GRETYPE_END 0]" by code_simp
  have x: "token_readable ?g (bytes ''x'')" and y: "\<not> token_readable ?g (bytes ''y'')"
    unfolding token_readable_def dec
    by (simp_all add: top in_class_def in_ranges_def push_pos_def is_end_of_sequence_def ptype_def)
  from suppress_exactly_unviable [OF sample_init p acc _ s] x y dec(3,4)
  have "length ls = 4" "\<forall>j < 4. ls ! j = [Some 1, Some (2 - 100), None, Some 4] ! j"
    by (auto simp: less_Suc_eq numeral_eq_Suc)
  then have "ls = [Some 1, Some (2 - 100), None, Some 4]" by (intro nth_equalityI) auto
  with s acc show ?thesis by simp
qed

theorem ranked_grammar_returns_witness:
  "\<exists>g. whisper_grammar_init 3 sample_rules 0 = Some g \<and> (\<exists>sts. accept_all 3 (grules g) (gstacks g) [97, 97] = Some sts)"
proof -
  have r: "ranked_grammar (\<lambda>i. if i = 0 then 1 else 0) 1 (map copy_rule sample_rules)"
    by code_simp
  have w: "list_all (wf_pos (length sample_rules)) (alternates (sample_rules ! 0))"
    by code_simp
  have l: "0 < length sample_rules" "Suc 1 < 3" by (simp_all add: sample_rules_def)
  show ?thesis
    using ranked_grammar_returns [OF r l(2) l(1) w] by (elim exE conjE allE [of _ "[97, 97]"]) blast
qed

text \<open>A positive range takes the cut character \<open>C3\<close> of U+00E9; the inverse range of the same character
  does not, although U+00E8 would satisfy it.\<close>

lemma cut_fits_witness:
  "cut_fits [Elem GRETYPE_CHAR 0xE9, Elem GRETYPE_END 0] \<lparr>pvalue = 3, n_remain = 1\<rparr>
   \<and> \<not> cut_fits [Elem GRETYPE_CHAR_NOT 0xE9, Elem GRETYPE_END 0] \<lparr>pvalue = 3, n_remain = 1\<rparr>"
proof -
  let ?p = "[Elem GRETYPE_CHAR 0xE9, Elem GRETYPE_END 0]" and ?q = "[Elem GRETYPE_CHAR_NOT 0xE9, Elem GRETYPE_END 0]"
    and ?pu = "\<lparr>pvalue = 3, n_remain = 1\<rparr>"
  have *: "match_partial_char ?p ?pu = Some True" "proper_ranges ?p" "at_char ?p"
    "match_partial_char ?q ?pu = Some False" "proper_ranges ?q" "at_char ?q" by code_simp+
  have ok: "partial_ok ?pu" "n_remain ?pu \<noteq> 0" by (simp_all add: partial_ok_def)
  show ?thesis
    using match_partial_char_fits [OF *(3,2) ok] match_partial_char_fits [OF *(6,5) ok] *(1,4) by simp
qed

end
