(* ===== verification/Kv_Cache.thy ===== *)
theory Kv_Cache
  imports Prelude
begin

text \<open>
  The self-attention cache of the decoder in \<open>whisper.cpp\<close>: the cells, the search for a free slot,
  removing and copying sequences, and the exchange of caches between the decoders of a beam search.

  The tensors \<open>k\<close> and \<open>v\<close> have one row for each cell.  Their numbers are not modelled: \<open>rows\<close> tells which
  token the keys and values of a row were computed from, \<open>None\<close> for a row of zeros.  A cell index and the
  cache size are natural numbers (the source's \<open>uint32_t\<close> values stay far below their limit); the set of
  sequences of a cell is an Isabelle set.
\<close>

record whisper_kv_cell =
  cell_pos :: int
  cell_seq :: "int set"

record whisper_kv_cache =
  head :: nat
  cells :: "whisper_kv_cell list"
  rows :: "int option list"

text \<open>\<open>size\<close> is the number of cells since \<open>whisper_kv_cache_init\<close>.\<close>

abbreviation kv_size :: "whisper_kv_cache \<Rightarrow> nat" where
  "kv_size c \<equiv> length (cells c)"

definition empty_cell :: whisper_kv_cell where
  "empty_cell = \<lparr>cell_pos = -1, cell_seq = {}\<rparr>"

definition whisper_kv_cache_init :: "nat \<Rightarrow> whisper_kv_cache" where
  "whisper_kv_cache_init n_ctx = \<lparr>head = 0, cells = replicate n_ctx empty_cell, rows = replicate n_ctx None\<rparr>"

text \<open>A batch is the list of its tokens with their positions and sequence ids.  (A null array of tokens, with which
  the source only measures memory, is not modelled.)\<close>

type_synonym kv_batch = "(int \<times> int \<times> int list) list"

definition whisper_batch_prep_legacy :: "int list \<Rightarrow> int \<Rightarrow> int \<Rightarrow> kv_batch" where
  "whisper_batch_prep_legacy tokens n_past sq =
    map (\<lambda>i. (tokens ! i, n_past + int i, [sq])) [0..<length tokens]"

section \<open>Finding a slot\<close>

text \<open>The first of the \<open>n\<close> cells from \<open>h\<close> on that is in use, as an offset.\<close>

definition first_used :: "whisper_kv_cell list \<Rightarrow> nat \<Rightarrow> nat \<Rightarrow> nat option" where
  "first_used cs h n = find (\<lambda>i. cell_pos (cs ! (h + i)) \<ge> 0) [0..<n]"

text \<open>The loop, for \<open>n_tokens \<le> n_ctx\<close>: whether a slot was found, and the head.\<close>

function find_slot_loop ::
  "whisper_kv_cell list \<Rightarrow> nat \<Rightarrow> nat \<Rightarrow> nat \<Rightarrow> bool \<times> nat" where
  "find_slot_loop cs n_tokens h0 n_tested =
    (let n_ctx = length cs in
     if n_tokens > n_ctx then (False, h0)
     else if h0 + n_tokens > n_ctx then find_slot_loop cs n_tokens 0 (n_tested + (n_ctx - h0))
     else
       (case first_used cs h0 n_tokens of
          None \<Rightarrow> (True, h0)
        | Some i \<Rightarrow>
            (if n_tested + i + 1 \<ge> n_ctx then (False, h0 + i + 1)
             else find_slot_loop cs n_tokens (h0 + i + 1) (n_tested + i + 1))))"
  by pat_completeness auto
termination
  by (relation "measures [\<lambda>(cs, n, h, t). length cs - t, \<lambda>(cs, n, h, t). if h + n > length cs then 1 else 0]")
     auto

declare find_slot_loop.simps [simp del]

definition fill_cell :: "whisper_kv_cell \<Rightarrow> int \<times> int \<times> int list \<Rightarrow> whisper_kv_cell" where
  "fill_cell c e = (case e of (tok, p, ss) \<Rightarrow>
    \<lparr>cell_pos = p, cell_seq = foldl (\<lambda>s x. insert x s) (cell_seq c) ss\<rparr>)"

primrec fill_slot :: "whisper_kv_cell list \<Rightarrow> nat \<Rightarrow> kv_batch \<Rightarrow> whisper_kv_cell list" where
  "fill_slot cs h [] = cs"
| "fill_slot cs h (e # b) = fill_slot (cs[h := fill_cell (cs ! h) e]) (h + 1) b"

definition whisper_kv_cache_find_slot :: "whisper_kv_cache \<Rightarrow> kv_batch \<Rightarrow> bool \<times> whisper_kv_cache" where
  "whisper_kv_cache_find_slot c b =
    (if length b > kv_size c then (False, c)
     else
       (let (found, h) = find_slot_loop (cells c) (length b) (head c) 0 in
        if found then (True, c\<lparr>head := h, cells := fill_slot (cells c) h b\<rparr>)
        else (False, c\<lparr>head := h\<rparr>)))"

text \<open>The graph of a batch copies the keys and values of its tokens to the rows from the head on.\<close>

primrec store_rows :: "int option list \<Rightarrow> nat \<Rightarrow> kv_batch \<Rightarrow> int option list" where
  "store_rows rs h [] = rs"
| "store_rows rs h (e # b) = store_rows (rs[h := Some (fst e)]) (h + 1) b"

section \<open>The other operations\<close>

fun cell_max_loop :: "whisper_kv_cell list \<Rightarrow> nat \<Rightarrow> int" where
  "cell_max_loop cs 0 = 1"
| "cell_max_loop cs (Suc i) =
    (if cell_pos (cs ! Suc i) \<ge> 0 \<and> cell_seq (cs ! Suc i) \<noteq> {} then int (Suc i) + 1
     else cell_max_loop cs i)"

text \<open>For a cache with at least one cell.\<close>

definition whisper_kv_cache_cell_max :: "whisper_kv_cache \<Rightarrow> int" where
  "whisper_kv_cache_cell_max c = cell_max_loop (cells c) (kv_size c - 1)"

definition whisper_kv_cache_clear :: "whisper_kv_cache \<Rightarrow> whisper_kv_cache" where
  "whisper_kv_cache_clear c =
    \<lparr>head = 0, cells = map (\<lambda>_. empty_cell) (cells c), rows = map (\<lambda>_. None) (cells c)\<rparr>"

text \<open>\<open>numeric_limits<whisper_pos>::max()\<close>\<close>

definition pos_max :: int where "pos_max = 2147483647"

definition norm_p0 :: "int \<Rightarrow> int" where "norm_p0 p0 = (if p0 < 0 then 0 else p0)"

definition norm_p1 :: "int \<Rightarrow> int" where "norm_p1 p1 = (if p1 < 0 then pos_max else p1)"

text \<open>The effect on one cell, and whether the cell is empty afterwards.\<close>

definition rm_cell :: "int \<Rightarrow> int \<Rightarrow> int \<Rightarrow> whisper_kv_cell \<Rightarrow> whisper_kv_cell \<times> bool" where
  "rm_cell sq p0 p1 c =
    (if p0 \<le> cell_pos c \<and> cell_pos c < p1 then
       (if sq < 0 then (\<lparr>cell_pos = -1, cell_seq = {}\<rparr>, True)
        else if sq \<in> cell_seq c then
          (let s = cell_seq c - {sq} in
           if s = {} then (\<lparr>cell_pos = -1, cell_seq = {}\<rparr>, True) else (c\<lparr>cell_seq := s\<rparr>, False))
        else (c, False))
     else (c, False))"

text \<open>The loop over the cells, with the index of the first freed cell so far.\<close>

fun rm_loop ::
  "int \<Rightarrow> int \<Rightarrow> int \<Rightarrow> nat \<Rightarrow> nat option \<Rightarrow> whisper_kv_cell list
    \<Rightarrow> whisper_kv_cell list \<times> nat option" where
  "rm_loop sq p0 p1 i new_head [] = ([], new_head)"
| "rm_loop sq p0 p1 i new_head (c # cs) =
    (let (c', freed) = rm_cell sq p0 p1 c;
         nh = (if freed \<and> new_head = None then Some i else new_head);
         (cs', nh') = rm_loop sq p0 p1 (i + 1) nh cs
     in (c' # cs', nh'))"

definition whisper_kv_cache_seq_rm ::
  "whisper_kv_cache \<Rightarrow> int \<Rightarrow> int \<Rightarrow> int \<Rightarrow> whisper_kv_cache" where
  "whisper_kv_cache_seq_rm c sq p0 p1 =
    (let (cs, new_head) = rm_loop sq (norm_p0 p0) (norm_p1 p1) 0 None (cells c)
     in c\<lparr>head := (case new_head of None \<Rightarrow> head c | Some h \<Rightarrow> h), cells := cs\<rparr>)"

definition cp_cell :: "int \<Rightarrow> int \<Rightarrow> int \<Rightarrow> int \<Rightarrow> whisper_kv_cell \<Rightarrow> whisper_kv_cell" where
  "cp_cell src dst p0 p1 c =
    (if src \<in> cell_seq c \<and> p0 \<le> cell_pos c \<and> cell_pos c < p1
     then c\<lparr>cell_seq := insert dst (cell_seq c)\<rparr> else c)"

definition whisper_kv_cache_seq_cp ::
  "whisper_kv_cache \<Rightarrow> int \<Rightarrow> int \<Rightarrow> int \<Rightarrow> int \<Rightarrow> whisper_kv_cache" where
  "whisper_kv_cache_seq_cp c src dst p0 p1 =
    c\<lparr>head := 0, cells := map (cp_cell src dst (norm_p0 p0) (norm_p1 p1)) (cells c)\<rparr>"

section \<open>The exchange of caches in a beam search\<close>

text \<open>
  \<open>WHISPER_MAX_DECODERS\<close> is 8.  \<open>src j\<close> is the decoder whose candidate decoder \<open>j\<close> takes over, and
  \<open>js\<close> are the decoders still running.
\<close>

primrec beam_stash :: "(int \<Rightarrow> int) \<Rightarrow> int list \<Rightarrow> whisper_kv_cache \<Rightarrow> whisper_kv_cache" where
  "beam_stash src [] c = c"
| "beam_stash src (j # js) c = beam_stash src js (whisper_kv_cache_seq_cp c (src j) (8 + j) (-1) (-1))"

primrec beam_move :: "int list \<Rightarrow> whisper_kv_cache \<Rightarrow> whisper_kv_cache" where
  "beam_move [] c = c"
| "beam_move (j # js) c =
    beam_move js
      (whisper_kv_cache_seq_rm
        (whisper_kv_cache_seq_cp (whisper_kv_cache_seq_rm c j (-1) (-1)) (8 + j) j (-1) (-1))
        (8 + j) (-1) (-1))"

definition beam_exchange :: "(int \<Rightarrow> int) \<Rightarrow> int list \<Rightarrow> whisper_kv_cache \<Rightarrow> whisper_kv_cache" where
  "beam_exchange src js c = beam_move js (beam_stash src js c)"

section \<open>Searching\<close>

definition free_block :: "whisper_kv_cell list \<Rightarrow> nat \<Rightarrow> nat \<Rightarrow> bool" where
  "free_block cs n b \<longleftrightarrow> b + n \<le> length cs \<and> (\<forall>i<n. cell_pos (cs ! (b + i)) < 0)"

lemma first_used_None: "first_used cs h n = None \<longleftrightarrow> (\<forall>i<n. cell_pos (cs ! (h + i)) < 0)"
  by (auto simp: first_used_def find_None_iff not_le)

lemma first_used_Some: "first_used cs h n = Some i \<Longrightarrow> i < n \<and> 0 \<le> cell_pos (cs ! (h + i))"
  by (auto simp: first_used_def find_Some_iff)

text \<open>One turn of the loop.\<close>

lemma find_slot_wrap:
  "n \<le> length cs \<Longrightarrow> h + n > length cs \<Longrightarrow>
    find_slot_loop cs n h t = find_slot_loop cs n 0 (t + (length cs - h))"
  by (subst find_slot_loop.simps) (simp add: Let_def)

lemma find_slot_found:
  "h + n \<le> length cs \<Longrightarrow> first_used cs h n = None \<Longrightarrow> find_slot_loop cs n h t = (True, h)"
  by (subst find_slot_loop.simps) (simp add: Let_def)

lemma find_slot_advance:
  "h + n \<le> length cs \<Longrightarrow> first_used cs h n = Some i \<Longrightarrow> find_slot_loop cs n h t =
    (if t + i + 1 \<ge> length cs then (False, h + i + 1)
     else find_slot_loop cs n (h + i + 1) (t + i + 1))"
  by (subst find_slot_loop.simps) (simp add: Let_def)

lemma find_slot_induct [consumes 1, case_names wrap found advance]:
  assumes "n \<le> length cs"
    and "\<And>h t. h + n > length cs \<Longrightarrow> P 0 (t + (length cs - h)) \<Longrightarrow> P h t"
    and "\<And>h t. h + n \<le> length cs \<Longrightarrow> first_used cs h n = None \<Longrightarrow> P h t"
    and "\<And>h t i. h + n \<le> length cs \<Longrightarrow> first_used cs h n = Some i \<Longrightarrow>
           (\<not> t + i + 1 \<ge> length cs \<Longrightarrow> P (h + i + 1) (t + i + 1)) \<Longrightarrow> P h t"
  shows "P h t"
proof -
  have "n \<le> length cs \<longrightarrow> P h t"
    using assms
  proof (induction cs n h t rule: find_slot_loop.induct)
    case (1 cs n h t)
    note IH = "1.IH" [OF refl]
    show ?case
    proof (intro impI)
      assume n: "n \<le> length cs"
      show "P h t"
      proof (cases "h + n > length cs")
        case True
        have "P 0 (t + (length cs - h))" using IH(1) n True "1.prems" by simp
        with True show ?thesis by (rule "1.prems"(2))
      next
        case False
        then have le: "h + n \<le> length cs" by simp
        show ?thesis
        proof (cases "first_used cs h n")
          case None
          with le show ?thesis by (rule "1.prems"(3))
        next
          case (Some i)
          from le this show ?thesis
          proof (rule "1.prems"(4))
            assume "\<not> t + i + 1 \<ge> length cs"
            then show "P (h + i + 1) (t + i + 1)" using IH(2) [OF _ False Some] n "1.prems" by simp
          qed
        qed
      qed
    qed
  qed
  with assms(1) show ?thesis by blast
qed

lemma find_slot_sound:
  assumes "n \<le> length cs"
  shows "find_slot_loop cs n h t = (True, h') \<Longrightarrow> free_block cs n h'"
  using assms
proof (induction h t rule: find_slot_induct)
  case (found h t)
  then show ?case by (auto simp: find_slot_found free_block_def first_used_None)
qed (auto simp: assms find_slot_wrap find_slot_advance split: if_splits)

lemma find_slot_head_le:
  assumes "n \<le> length cs"
  shows "find_slot_loop cs n h t = (b, h') \<Longrightarrow> h \<le> length cs \<Longrightarrow> h' \<le> length cs"
  using assms
proof (induction h t rule: find_slot_induct)
  case (advance h t i)
  have "h + i + 1 \<le> length cs" using advance first_used_Some [of cs h n i] by simp
  with advance show ?case by (auto simp: find_slot_advance split: if_splits)
qed (auto simp: assms find_slot_wrap find_slot_found)

text \<open>
  The starts that the search has not ruled out: those from the head on, as many as are left to
  test, going round the end.
\<close>

definition open_start :: "nat \<Rightarrow> nat \<Rightarrow> nat \<Rightarrow> nat \<Rightarrow> bool" where
  "open_start n_ctx h t b \<longleftrightarrow> (h \<le> b \<and> b + t < h + n_ctx) \<or> b + t < h"

lemma find_slot_complete:
  assumes "n \<le> length cs"
  shows "find_slot_loop cs n h t = (False, h') \<Longrightarrow> h \<le> length cs \<Longrightarrow>
    (\<And>b. free_block cs n b \<Longrightarrow> open_start (length cs) h t b) \<Longrightarrow> \<not> free_block cs n b"
  using assms
proof (induction h t rule: find_slot_induct)
  case (wrap h t)
  show ?case
  proof (rule wrap.IH)
    fix b assume fb: "free_block cs n b"
    then have "open_start (length cs) h t b" by (rule wrap.prems(3))
    moreover have "b < h" using fb wrap.hyps by (simp add: free_block_def)
    ultimately show "open_start (length cs) 0 (t + (length cs - h)) b"
      using wrap.prems(2) by (auto simp: open_start_def)
  qed (use wrap assms in \<open>simp_all add: find_slot_wrap\<close>)
next
  case (found h t)
  then show ?case by (simp add: find_slot_found)
next
  case (advance h t i)
  note iu = first_used_Some [OF advance.hyps(2)]
  have narrow: "open_start (length cs) (h + i + 1) (t + i + 1) b" if fb: "free_block cs n b" for b
  proof -
    have os: "open_start (length cs) h t b" using fb by (rule advance.prems(3))
    have "\<not> (h \<le> b \<and> b \<le> h + i)"
    proof
      assume b: "h \<le> b \<and> b \<le> h + i"
      then have "h + i - b < n" "b + (h + i - b) = h + i" using iu by auto
      then have "cell_pos (cs ! (h + i)) < 0" using fb by (metis free_block_def)
      with iu show False by simp
    qed
    with os show ?thesis by (auto simp: open_start_def)
  qed
  show ?case
  proof (cases "t + i + 1 \<ge> length cs")
    case True
    show ?thesis
    proof
      assume "free_block cs n b"
      from narrow [OF this] True show False using iu advance.hyps by (auto simp: open_start_def)
    qed
  next
    case more: False
    show ?thesis
      by (rule advance.IH [OF more])
         (use advance.prems(1) advance.hyps more iu narrow in \<open>auto simp: find_slot_advance\<close>)
  qed
qed

lemma find_slot_iff:
  assumes "0 < n" "n \<le> length cs" "h \<le> length cs"
  shows "fst (find_slot_loop cs n h 0) \<longleftrightarrow> (\<exists>b. free_block cs n b)"
proof -
  obtain r h' where r: "find_slot_loop cs n h 0 = (r, h')" by (metis surj_pair)
  have "\<not> free_block cs n b" if "\<not> r" for b
    by (rule find_slot_complete [of n cs h 0 h']) (use r that assms in \<open>auto simp: open_start_def free_block_def\<close>)
  then show ?thesis using r assms find_slot_sound [of n cs h 0 h'] by (cases r) auto
qed

section \<open>What the cache holds\<close>

definition kv_has :: "whisper_kv_cache \<Rightarrow> int \<Rightarrow> int \<Rightarrow> bool" where
  "kv_has c s p \<longleftrightarrow> (\<exists>x \<in> set (cells c). cell_pos x = p \<and> s \<in> cell_seq x)"

text \<open>Sequence \<open>s\<close> has at position \<open>p\<close> a cell whose row holds \<open>x\<close>.\<close>

definition kv_row :: "whisper_kv_cache \<Rightarrow> int \<Rightarrow> int \<Rightarrow> int option \<Rightarrow> bool" where
  "kv_row c s p x \<longleftrightarrow> (\<exists>k < kv_size c. cell_pos (cells c ! k) = p \<and> s \<in> cell_seq (cells c ! k) \<and> rows c ! k = x)"

lemma kv_has_row: "kv_has c s p \<longleftrightarrow> (\<exists>x. kv_row c s p x)"
  by (auto simp: kv_has_def kv_row_def Bex_def in_set_conv_nth)

definition cell_ok :: "whisper_kv_cell \<Rightarrow> bool" where
  "cell_ok x \<longleftrightarrow> (cell_pos x = -1 \<and> cell_seq x = {})
    \<or> (0 \<le> cell_pos x \<and> cell_pos x < pos_max \<and> cell_seq x \<noteq> {})"

definition kv_ok :: "whisper_kv_cache \<Rightarrow> bool" where
  "kv_ok c \<longleftrightarrow> head c \<le> kv_size c \<and> length (rows c) = kv_size c \<and> (\<forall>x \<in> set (cells c). cell_ok x)"

lemma kv_has_range: "kv_ok c \<Longrightarrow> kv_has c s p \<Longrightarrow> 0 \<le> p \<and> p < pos_max"
  by (auto simp: kv_ok_def kv_has_def cell_ok_def)

lemma kv_row_range: "kv_ok c \<Longrightarrow> kv_row c s p x \<Longrightarrow> 0 \<le> p \<and> p < pos_max"
  using kv_has_range kv_has_row by blast

lemma kv_ok_init [inv_intros]: "kv_ok (whisper_kv_cache_init n)"
  by (simp add: kv_ok_def whisper_kv_cache_init_def cell_ok_def empty_cell_def)

lemma kv_ok_clear [inv_intros]: "kv_ok (whisper_kv_cache_clear c)"
  by (simp add: kv_ok_def whisper_kv_cache_clear_def cell_ok_def empty_cell_def)

lemma kv_row_clear [op_simps]: "\<not> kv_row (whisper_kv_cache_clear c) s p x"
  by (auto simp: kv_row_def whisper_kv_cache_clear_def empty_cell_def)

lemma rm_loop_cells: "fst (rm_loop sq p0 p1 i nh cs) = map (\<lambda>c. fst (rm_cell sq p0 p1 c)) cs"
  by (induction cs arbitrary: i nh) (simp_all add: case_prod_beta Let_def)

lemma rm_loop_head:
  "snd (rm_loop sq p0 p1 i nh cs) = Some h \<Longrightarrow> nh = Some h \<or> (nh = None \<and> i \<le> h \<and> h < i + length cs)"
proof (induction cs arbitrary: i nh)
  case (Cons c cs)
  from Cons.prems Cons.IH [of "i + 1" "if snd (rm_cell sq p0 p1 c) \<and> nh = None then Some i else nh"]
  show ?case by (auto simp: case_prod_beta Let_def split: if_splits)
qed simp

lemma rm_cell_ok: "cell_ok x \<Longrightarrow> cell_ok (fst (rm_cell sq p0 p1 x))"
  by (auto simp: rm_cell_def cell_ok_def Let_def)

lemma kv_ok_seq_rm [inv_intros]:
  assumes "kv_ok c"
  shows "kv_ok (whisper_kv_cache_seq_rm c sq p0 p1)"
proof -
  obtain cs nh where r: "rm_loop sq (norm_p0 p0) (norm_p1 p1) 0 None (cells c) = (cs, nh)"
    by (metis surj_pair)
  have cs: "cs = map (\<lambda>c. fst (rm_cell sq (norm_p0 p0) (norm_p1 p1) c)) (cells c)"
    using rm_loop_cells [of sq "norm_p0 p0" "norm_p1 p1" 0 None "cells c"] r by simp
  have "h < length (cells c)" if "nh = Some h" for h
    using rm_loop_head [of sq "norm_p0 p0" "norm_p1 p1" 0 None "cells c" h] r that by simp
  then show ?thesis
    using assms cs by (auto simp: whisper_kv_cache_seq_rm_def r kv_ok_def rm_cell_ok split: option.split)
qed

lemma rm_cell_has:
  assumes "cell_ok x" "0 \<le> sq" "0 \<le> p"
  shows "(cell_pos (fst (rm_cell sq p0 p1 x)) = p \<and> t \<in> cell_seq (fst (rm_cell sq p0 p1 x)))
    \<longleftrightarrow> cell_pos x = p \<and> t \<in> cell_seq x \<and> \<not> (t = sq \<and> p0 \<le> p \<and> p < p1)"
  using assms by (auto simp: rm_cell_def Let_def)

lemma seq_rm_cells:
  "cells (whisper_kv_cache_seq_rm c sq p0 p1)
      = map (\<lambda>x. fst (rm_cell sq (norm_p0 p0) (norm_p1 p1) x)) (cells c)"
  "rows (whisper_kv_cache_seq_rm c sq p0 p1) = rows c"
  using rm_loop_cells [of sq "norm_p0 p0" "norm_p1 p1" 0 None "cells c"]
  by (simp_all add: whisper_kv_cache_seq_rm_def case_prod_beta)

lemma kv_row_seq_rm:
  assumes "kv_ok c" "0 \<le> sq"
  shows "kv_row (whisper_kv_cache_seq_rm c sq p0 p1) t p x
    \<longleftrightarrow> kv_row c t p x \<and> \<not> (t = sq \<and> norm_p0 p0 \<le> p \<and> p < norm_p1 p1)"
proof (cases "0 \<le> p")
  case True
  have "cell_ok (cells c ! k)" if "k < kv_size c" for k using assms(1) that by (simp add: kv_ok_def)
  note rm_cell_has [OF this assms(2) True, of _ "norm_p0 p0" "norm_p1 p1" t]
  then have "\<forall>k < kv_size c. (cell_pos (cells (whisper_kv_cache_seq_rm c sq p0 p1) ! k) = p
      \<and> t \<in> cell_seq (cells (whisper_kv_cache_seq_rm c sq p0 p1) ! k))
    \<longleftrightarrow> cell_pos (cells c ! k) = p \<and> t \<in> cell_seq (cells c ! k) \<and> \<not> (t = sq \<and> norm_p0 p0 \<le> p \<and> p < norm_p1 p1)"
    by (simp add: seq_rm_cells)
  moreover have "kv_size (whisper_kv_cache_seq_rm c sq p0 p1) = kv_size c" by (simp add: seq_rm_cells)
  ultimately show ?thesis unfolding kv_row_def seq_rm_cells(2) by (simp only:) blast
next
  case False
  then show ?thesis
    using kv_row_range [OF assms(1)] kv_row_range [OF kv_ok_seq_rm [OF assms(1)]] by blast
qed

lemma kv_ok_seq_cp [inv_intros]: "kv_ok c \<Longrightarrow> kv_ok (whisper_kv_cache_seq_cp c a b p0 p1)"
  by (auto simp: kv_ok_def whisper_kv_cache_seq_cp_def cp_cell_def cell_ok_def)

lemma kv_row_seq_cp:
  "kv_row (whisper_kv_cache_seq_cp c a b p0 p1) t p x
    \<longleftrightarrow> kv_row c t p x \<or> (t = b \<and> kv_row c a p x \<and> norm_p0 p0 \<le> p \<and> p < norm_p1 p1)"
proof -
  have "(cell_pos (cp_cell a b q0 q1 y) = p \<and> t \<in> cell_seq (cp_cell a b q0 q1 y))
      \<longleftrightarrow> cell_pos y = p \<and> (t \<in> cell_seq y \<or> (t = b \<and> a \<in> cell_seq y \<and> q0 \<le> p \<and> p < q1))" for q0 q1 y
    by (auto simp: cp_cell_def)
  then have "\<forall>k < kv_size c. (cell_pos (cells (whisper_kv_cache_seq_cp c a b p0 p1) ! k) = p
      \<and> t \<in> cell_seq (cells (whisper_kv_cache_seq_cp c a b p0 p1) ! k))
    \<longleftrightarrow> cell_pos (cells c ! k) = p \<and> (t \<in> cell_seq (cells c ! k) \<or>
         t = b \<and> a \<in> cell_seq (cells c ! k) \<and> norm_p0 p0 \<le> p \<and> p < norm_p1 p1)"
    by (simp add: whisper_kv_cache_seq_cp_def)
  moreover have "kv_size (whisper_kv_cache_seq_cp c a b p0 p1) = kv_size c"
    "rows (whisper_kv_cache_seq_cp c a b p0 p1) = rows c" by (simp_all add: whisper_kv_cache_seq_cp_def)
  ultimately show ?thesis unfolding kv_row_def by (simp only:) blast
qed

section \<open>Storing a batch\<close>

definition cells_have :: "whisper_kv_cell list \<Rightarrow> int \<Rightarrow> int \<Rightarrow> bool" where
  "cells_have cs s p \<longleftrightarrow> (\<exists>k<length cs. cell_pos (cs ! k) = p \<and> s \<in> cell_seq (cs ! k))"

lemma kv_has_cells: "kv_has c s p \<longleftrightarrow> cells_have (cells c) s p"
  by (auto simp: kv_has_def cells_have_def Bex_def in_set_conv_nth)

definition batch_ok :: "kv_batch \<Rightarrow> bool" where
  "batch_ok b \<longleftrightarrow> (\<forall>(tok, p, ss) \<in> set b. 0 \<le> p \<and> p < pos_max \<and> ss \<noteq> [])"

lemma fill_cell_eq: "fill_cell c e = \<lparr>cell_pos = fst (snd e), cell_seq = cell_seq c \<union> set (snd (snd e))\<rparr>"
proof -
  have "foldl (\<lambda>s x. insert x s) A xs = A \<union> set xs" for A and xs :: "int list"
    by (induction xs arbitrary: A) auto
  then show ?thesis by (simp add: fill_cell_def case_prod_beta)
qed

lemma cells_have_update:
  assumes "h < length cs" "cell_seq (cs ! h) = {}"
  shows "cells_have (cs[h := x]) s p \<longleftrightarrow> cells_have cs s p \<or> (cell_pos x = p \<and> s \<in> cell_seq x)"
  using assms unfolding cells_have_def by (auto simp: nth_list_update) (metis+)?

lemma fill_slot_spec:
  assumes "free_block cs (length b) h" "\<forall>x \<in> set cs. cell_ok x" "batch_ok b"
  shows "(\<forall>x \<in> set (fill_slot cs h b). cell_ok x) \<and> length (fill_slot cs h b) = length cs
    \<and> (cells_have (fill_slot cs h b) s p \<longleftrightarrow> cells_have cs s p \<or> (\<exists>(tok, q, ss) \<in> set b. q = p \<and> s \<in> set ss))"
  using assms
proof (induction b arbitrary: cs h)
  case (Cons e b)
  let ?x = "fill_cell (cs ! h) e"
  have h: "h < length cs" "cell_pos (cs ! h) < 0" using Cons.prems(1) by (auto simp: free_block_def)
  then have e: "cell_seq (cs ! h) = {}" using Cons.prems(2) by (auto simp: cell_ok_def dest!: nth_mem)
  have x: "cell_ok ?x" using Cons.prems(3) by (auto simp: batch_ok_def cell_ok_def fill_cell_eq)
  have fb: "free_block (cs[h := ?x]) (length b) (h + 1)"
    using Cons.prems(1) by (auto simp: free_block_def nth_list_update dest: spec [of _ "Suc _"])
  have ok: "\<forall>y \<in> set (cs[h := ?x]). cell_ok y"
    using x Cons.prems(2) set_update_subset_insert [of cs h ?x] by auto
  have "batch_ok b" using Cons.prems(3) by (simp add: batch_ok_def)
  note IH = Cons.IH [OF fb ok this]
  show ?case
    using IH cells_have_update [OF h(1) e, of ?x] e
    by (auto simp: fill_cell_eq case_prod_beta)
qed simp

lemma find_slot_spec:
  assumes ok: "kv_ok c" "batch_ok b" and f: "whisper_kv_cache_find_slot c b = (True, c')"
  shows "kv_ok c' \<and> kv_size c' = kv_size c
    \<and> (kv_has c' s p \<longleftrightarrow> kv_has c s p \<or> (\<exists>(tok, q, ss) \<in> set b. q = p \<and> s \<in> set ss))"
proof -
  have le: "length b \<le> kv_size c" using f by (auto simp: whisper_kv_cache_find_slot_def split: if_splits)
  obtain h where h: "find_slot_loop (cells c) (length b) (head c) 0 = (True, h)"
    "c' = c\<lparr>head := h, cells := fill_slot (cells c) h b\<rparr>"
    using f by (auto simp: whisper_kv_cache_find_slot_def split: if_splits prod.splits)
  have "free_block (cells c) (length b) h" by (rule find_slot_sound [OF le h(1)])
  from fill_slot_spec [OF this _ ok(2), of s p] have
    "(\<forall>x \<in> set (cells c'). cell_ok x) \<and> kv_size c' = kv_size c
      \<and> (kv_has c' s p \<longleftrightarrow> kv_has c s p \<or> (\<exists>(tok, q, ss) \<in> set b. q = p \<and> s \<in> set ss))"
    using ok(1) by (simp add: h(2) kv_has_cells kv_ok_def)
  moreover have "h \<le> kv_size c"
    using find_slot_head_le [OF le h(1)] ok(1) by (simp add: kv_ok_def)
  ultimately show ?thesis using h(2) ok(1) by (simp add: kv_ok_def)
qed

text \<open>The rows of a stored batch: with the copy of its keys and values, exactly its tokens have been added.\<close>

lemma fill_slot_nth:
  "h + length b \<le> length cs \<Longrightarrow> length (fill_slot cs h b) = length cs \<and>
    fill_slot cs h b ! k = (if h \<le> k \<and> k < h + length b then fill_cell (cs ! k) (b ! (k - h)) else cs ! k)"
proof (induction b arbitrary: cs h)
  case (Cons e b)
  have "k - h = Suc (k - Suc h)" if "h < k" using that by simp
  with Cons show ?case by (auto simp: nth_list_update not_le less_Suc_eq)
qed auto

lemma store_rows_nth:
  "h + length b \<le> length rs \<Longrightarrow> length (store_rows rs h b) = length rs \<and>
    store_rows rs h b ! k = (if h \<le> k \<and> k < h + length b then Some (fst (b ! (k - h))) else rs ! k)"
proof (induction b arbitrary: rs h)
  case (Cons e b)
  have "k - h = Suc (k - Suc h)" if "h < k" using that by simp
  with Cons show ?case by (auto simp: nth_list_update not_le less_Suc_eq)
qed auto

lemma store_batch_spec:
  assumes ok: "kv_ok c" "batch_ok b" and f: "whisper_kv_cache_find_slot c b = (True, c')"
  defines "c2 \<equiv> c'\<lparr>rows := store_rows (rows c') (head c') b\<rparr>"
  shows "kv_ok c2 \<and> (kv_row c2 s p x \<longleftrightarrow>
    kv_row c s p x \<or> (\<exists>(tok, q, ss) \<in> set b. q = p \<and> s \<in> set ss \<and> x = Some tok))"
proof -
  have le: "length b \<le> kv_size c" using f by (auto simp: whisper_kv_cache_find_slot_def split: if_splits)
  obtain h where h: "find_slot_loop (cells c) (length b) (head c) 0 = (True, h)"
    "c' = c\<lparr>head := h, cells := fill_slot (cells c) h b\<rparr>"
    using f by (auto simp: whisper_kv_cache_find_slot_def split: if_splits prod.splits)
  have fb: "free_block (cells c) (length b) h" by (rule find_slot_sound [OF le h(1)])
  then have hb: "h + length b \<le> kv_size c" by (simp add: free_block_def)
  have rl: "length (rows c) = kv_size c" using ok(1) by (simp add: kv_ok_def)
  have free: "cell_seq (cells c ! k) = {}" if "h \<le> k" "k < h + length b" for k
  proof -
    have "k - h < length b" using that by simp
    then have "cell_pos (cells c ! (h + (k - h))) < 0" using fb unfolding free_block_def by blast
    moreover have "cell_ok (cells c ! k)" using ok(1) hb that by (simp add: kv_ok_def)
    ultimately show ?thesis using that by (auto simp: cell_ok_def)
  qed
  have c2: "cells c2 = fill_slot (cells c) h b" "rows c2 = store_rows (rows c) h b" "head c2 = h"
    by (simp_all add: c2_def h(2))
  have kv: "kv_ok c2"
    using find_slot_spec [OF ok f] store_rows_nth [of h b "rows c"] fill_slot_nth [OF hb] hb rl
    by (simp add: c2_def h(2) kv_ok_def)
  have bex: "(\<exists>e \<in> set b. Q e) \<longleftrightarrow> (\<exists>i < length b. Q (b ! i))" for Q by (metis in_set_conv_nth)
  let ?P = "\<lambda>k. cell_pos (cells c2 ! k) = p \<and> s \<in> cell_seq (cells c2 ! k) \<and> rows c2 ! k = x"
  have at: "?P k \<longleftrightarrow> (if h \<le> k \<and> k < h + length b
      then fst (snd (b ! (k - h))) = p \<and> s \<in> set (snd (snd (b ! (k - h)))) \<and> x = Some (fst (b ! (k - h)))
      else cell_pos (cells c ! k) = p \<and> s \<in> cell_seq (cells c ! k) \<and> rows c ! k = x)" for k
    using fill_slot_nth [OF hb, of k] store_rows_nth [of h b "rows c" k] hb rl free
    by (auto simp: c2 fill_cell_eq)
  have "kv_row c2 s p x \<longleftrightarrow> (\<exists>k < kv_size c. ?P k)"
    using fill_slot_nth [OF hb] by (simp add: kv_row_def c2)
  also have "\<dots> \<longleftrightarrow> kv_row c s p x \<or> (\<exists>i < length b. fst (snd (b ! i)) = p \<and> s \<in> set (snd (snd (b ! i))) \<and> x = Some (fst (b ! i)))"
  proof
    assume "\<exists>k < kv_size c. ?P k"
    then obtain k where "k < kv_size c" "?P k" by blast
    then show "kv_row c s p x \<or> (\<exists>i < length b. fst (snd (b ! i)) = p \<and> s \<in> set (snd (snd (b ! i))) \<and> x = Some (fst (b ! i)))"
    proof (cases "h \<le> k \<and> k < h + length b")
      case True
      with \<open>?P k\<close> show ?thesis unfolding at by (intro disjI2 exI [of _ "k - h"]) auto
    next
      case False
      with \<open>?P k\<close> \<open>k < kv_size c\<close> show ?thesis unfolding at kv_row_def by (intro disjI1 exI [of _ k]) simp
    qed
  next
    assume "kv_row c s p x \<or> (\<exists>i < length b. fst (snd (b ! i)) = p \<and> s \<in> set (snd (snd (b ! i))) \<and> x = Some (fst (b ! i)))"
    then show "\<exists>k < kv_size c. ?P k"
    proof
      assume "kv_row c s p x"
      then obtain k where "k < kv_size c" "cell_pos (cells c ! k) = p" "s \<in> cell_seq (cells c ! k)" "rows c ! k = x"
        by (auto simp: kv_row_def)
      with free show ?thesis unfolding at by (intro exI [of _ k]) auto
    next
      assume "\<exists>i < length b. fst (snd (b ! i)) = p \<and> s \<in> set (snd (snd (b ! i))) \<and> x = Some (fst (b ! i))"
      then obtain i where "i < length b" "fst (snd (b ! i)) = p" "s \<in> set (snd (snd (b ! i)))" "x = Some (fst (b ! i))" by blast
      with hb show ?thesis unfolding at by (intro exI [of _ "h + i"]) auto
    qed
  qed
  also have "(\<exists>i < length b. fst (snd (b ! i)) = p \<and> s \<in> set (snd (snd (b ! i))) \<and> x = Some (fst (b ! i)))
      \<longleftrightarrow> (\<exists>(tok, q, ss) \<in> set b. q = p \<and> s \<in> set ss \<and> x = Some tok)"
    unfolding bex by (simp add: case_prod_beta)
  finally show ?thesis using kv by simp
qed

section \<open>The interface the decoders use\<close>

text \<open>
  The beam search only removes and copies whole sequences.  From the laws of these two operations
  follows that its two loops are a simultaneous assignment: each running decoder gets the cache its
  new candidate had before the exchange.
\<close>

locale sequence_store =
  fixes rm :: "'c \<Rightarrow> int \<Rightarrow> 'c" and cp :: "'c \<Rightarrow> int \<Rightarrow> int \<Rightarrow> 'c"
    and has :: "'c \<Rightarrow> int \<Rightarrow> 'p \<Rightarrow> bool" and inv :: "'c \<Rightarrow> bool"
  assumes inv_rm: "inv c \<Longrightarrow> inv (rm c s)"
    and inv_cp: "inv c \<Longrightarrow> inv (cp c a b)"
    and has_rm: "inv c \<Longrightarrow> 0 \<le> s \<Longrightarrow> has (rm c s) t p \<longleftrightarrow> has c t p \<and> t \<noteq> s"
    and has_cp: "inv c \<Longrightarrow> has (cp c a b) t p \<longleftrightarrow> has c t p \<or> (t = b \<and> has c a p)"
begin

lemma stash:
  "inv c \<Longrightarrow> \<forall>j \<in> set js. 0 \<le> j \<and> src j < 8 \<Longrightarrow>
    inv (foldl (\<lambda>c j. cp c (src j) (8 + j)) c js)
    \<and> (has (foldl (\<lambda>c j. cp c (src j) (8 + j)) c js) t p
        \<longleftrightarrow> has c t p \<or> (\<exists>j \<in> set js. t = 8 + j \<and> has c (src j) p))"
proof (induction js arbitrary: c)
  case (Cons j js)
  have i: "inv (cp c (src j) (8 + j))" using Cons.prems by (simp add: inv_cp)
  have keep: "has (cp c (src j) (8 + j)) (src k) p = has c (src k) p" if "k \<in> set js" for k
    using Cons.prems that by (auto simp: has_cp)
  have "has (cp c (src j) (8 + j)) t p \<longleftrightarrow> has c t p \<or> (t = 8 + j \<and> has c (src j) p)"
    using Cons.prems by (simp add: has_cp)
  then show ?case using Cons.IH [OF i] Cons.prems keep by auto
qed simp

lemma move:
  "inv c \<Longrightarrow> \<forall>j \<in> set js. 0 \<le> j \<and> j < 8 \<Longrightarrow> distinct js \<Longrightarrow>
    inv (foldl (\<lambda>c j. rm (cp (rm c j) (8 + j) j) (8 + j)) c js)
    \<and> (has (foldl (\<lambda>c j. rm (cp (rm c j) (8 + j) j) (8 + j)) c js) t p
        \<longleftrightarrow> (if t \<in> set js then has c (8 + t) p else has c t p \<and> t - 8 \<notin> set js))"
proof (induction js arbitrary: c)
  case (Cons j js)
  let ?c = "rm (cp (rm c j) (8 + j) j) (8 + j)"
  have i: "inv ?c" using Cons.prems by (simp add: inv_rm inv_cp)
  have h: "has ?c u p \<longleftrightarrow> (if u = j then has c (8 + j) p else has c u p \<and> u \<noteq> 8 + j)" for u
    using Cons.prems by (auto simp: has_rm has_cp inv_rm inv_cp)
  have "8 + t \<noteq> j" if "t \<in> set js" using that Cons.prems by auto
  then show ?case using Cons.IH [OF i] Cons.prems h [of t] h [of "8 + t"] by auto
qed simp

lemma exchange:
  assumes "inv c" "\<forall>j \<in> set js. 0 \<le> j \<and> j < 8 \<and> src j < 8" "distinct js"
    and "\<forall>j \<in> set js. \<not> has c (8 + j) p"
  shows "has (foldl (\<lambda>c j. rm (cp (rm c j) (8 + j) j) (8 + j))
               (foldl (\<lambda>c j. cp c (src j) (8 + j)) c js) js) t p
    \<longleftrightarrow> (if t \<in> set js then has c (src t) p else has c t p)"
proof -
  let ?c1 = "foldl (\<lambda>c j. cp c (src j) (8 + j)) c js"
  have s: "inv ?c1" "has ?c1 u p \<longleftrightarrow> has c u p \<or> (\<exists>j \<in> set js. u = 8 + j \<and> has c (src j) p)" for u
    using stash [OF assms(1)] assms(2) by auto
  have "t \<notin> set js" if "t - 8 \<in> set js"
  proof
    assume "t \<in> set js"
    then have "t < 8" using assms(2) by blast
    moreover have "0 \<le> t - 8" using assms(2) that by blast
    ultimately show False by simp
  qed
  moreover have "\<not> has c t p" if "t - 8 \<in> set js"
    using bspec [OF assms(4) that] by simp
  ultimately show ?thesis
    using move [OF s(1), of js t p] assms s(2) by auto
qed

end

interpretation kv: sequence_store
  "\<lambda>c s. whisper_kv_cache_seq_rm c s (-1) (-1)"
  "\<lambda>c a b. whisper_kv_cache_seq_cp c a b (-1) (-1)" "\<lambda>c s (p, x). kv_row c s p x" kv_ok
proof
  fix c :: whisper_kv_cache and s a b t :: int and px :: "int \<times> int option"
  assume ok: "kv_ok c"
  show "kv_ok (whisper_kv_cache_seq_rm c s (-1) (-1))" "kv_ok (whisper_kv_cache_seq_cp c a b (-1) (-1))"
    using ok by (simp_all add: kv_ok_seq_rm kv_ok_seq_cp)
  obtain p x where px: "px = (p, x)" by (metis surj_pair)
  have range: "kv_row c u p x \<Longrightarrow> norm_p0 (-1) \<le> p \<and> p < norm_p1 (-1)" for u
    using kv_row_range [OF ok] by (simp add: norm_p0_def norm_p1_def)
  show "(case px of (p, x) \<Rightarrow> kv_row (whisper_kv_cache_seq_cp c a b (-1) (-1)) t p x) =
      ((case px of (p, x) \<Rightarrow> kv_row c t p x) \<or> (t = b \<and> (case px of (p, x) \<Rightarrow> kv_row c a p x)))"
    using range [of a] by (auto simp: kv_row_seq_cp px)
  assume "0 \<le> s"
  with ok range [of s]
  show "(case px of (p, x) \<Rightarrow> kv_row (whisper_kv_cache_seq_rm c s (-1) (-1)) t p x) =
      ((case px of (p, x) \<Rightarrow> kv_row c t p x) \<and> t \<noteq> s)"
    by (auto simp: kv_row_seq_rm px)
qed

lemma beam_stash_foldl:
  "beam_stash src js c = foldl (\<lambda>c j. whisper_kv_cache_seq_cp c (src j) (8 + j) (-1) (-1)) c js"
  by (induction js arbitrary: c) simp_all

lemma beam_move_foldl:
  "beam_move js c = foldl (\<lambda>c j. whisper_kv_cache_seq_rm (whisper_kv_cache_seq_cp
     (whisper_kv_cache_seq_rm c j (-1) (-1)) (8 + j) j (-1) (-1)) (8 + j) (-1) (-1)) c js"
  by (induction js arbitrary: c) simp_all

lemma beam_exchange_row:
  assumes "kv_ok c" "distinct js" "\<forall>j \<in> set js. 0 \<le> j \<and> j < 8 \<and> src j < 8"
    and "\<forall>j \<in> set js. \<forall>p x. \<not> kv_row c (8 + j) p x"
  shows "kv_row (beam_exchange src js c) t p x
    \<longleftrightarrow> (if t \<in> set js then kv_row c (src t) p x else kv_row c t p x)"
  unfolding beam_exchange_def beam_stash_foldl beam_move_foldl
  using kv.exchange [of c js src "(p, x)" t] assms by auto

section \<open>Properties\<close>

text \<open>The exchange of caches in a beam search is a simultaneous assignment.  Every running decoder ends
  with exactly the positions and rows its candidate's decoder had before, however the candidates permute or
  duplicate the decoders; the other decoders and sequences are unchanged.\<close>

theorem beam_exchange_simultaneous:
  assumes "kv_ok c" "distinct js" "\<forall>j \<in> set js. 0 \<le> j \<and> j < 8 \<and> src j < 8"
    and "\<forall>j \<in> set js. \<forall>p x. \<not> kv_row c (8 + j) p x"
  shows "kv_row (beam_exchange src js c) t p x
    \<longleftrightarrow> (if t \<in> set js then kv_row c (src t) p x else kv_row c t p x)"
  by (rule beam_exchange_row [OF assms])

theorem beam_exchange_simultaneous_witness:
  "kv_row (beam_exchange (\<lambda>j. 1 - j) [0, 1] \<lparr>head = 0, cells = [\<lparr>cell_pos = 0, cell_seq = {0}\<rparr>,
      \<lparr>cell_pos = 0, cell_seq = {1}\<rparr>], rows = [Some 11, Some 12]\<rparr>) 0 0 (Some 12)"
  by (subst beam_exchange_simultaneous)
     (simp_all add: kv_ok_def cell_ok_def pos_max_def kv_row_def numeral_2_eq_2 Ex_less_Suc)

text \<open>The search for a slot terminates and is complete: it succeeds exactly when some block of as many
  adjacent cells as the batch has tokens is free, wherever the head was left.  On success exactly
  the positions and sequences of the batch have been added and nothing has been overwritten.\<close>

theorem find_slot_complete_and_sound:
  assumes "kv_ok c" "batch_ok b" "b \<noteq> []" "whisper_kv_cache_find_slot c b = (found, c')"
  shows "(found \<longleftrightarrow> (\<exists>h. free_block (cells c) (length b) h)) \<and> kv_ok c'
    \<and> (\<forall>s p. kv_has c' s p \<longleftrightarrow> kv_has c s p \<or> (found \<and> (\<exists>(tok, q, ss) \<in> set b. q = p \<and> s \<in> set ss)))"
proof (cases "length b > kv_size c")
  case True
  then show ?thesis
    using assms by (auto simp: whisper_kv_cache_find_slot_def free_block_def)
next
  case False
  have le: "length b \<le> kv_size c" "head c \<le> kv_size c" using False assms(1) by (simp_all add: kv_ok_def)
  obtain r h where r: "find_slot_loop (cells c) (length b) (head c) 0 = (r, h)" by (metis surj_pair)
  have h: "h \<le> kv_size c" using find_slot_head_le [OF le(1) r le(2)] .
  have fr: "found = r" using assms(4) False r by (auto simp: whisper_kv_cache_find_slot_def split: if_splits)
  have iff: "r \<longleftrightarrow> (\<exists>h. free_block (cells c) (length b) h)"
    using find_slot_iff [of "length b" "cells c" "head c"] assms(3) le r by simp
  show ?thesis
  proof (cases r)
    case True
    then show ?thesis
      using find_slot_spec [OF assms(1,2), of c'] assms(4) fr iff by simp
  next
    case nf: False
    then have "c' = c\<lparr>head := h\<rparr>" using assms(4) False r by (simp add: whisper_kv_cache_find_slot_def)
    then show ?thesis using iff fr nf assms(1) h by (simp add: kv_ok_def kv_has_def)
  qed
qed

theorem find_slot_complete_and_sound_witness:
  "fst (whisper_kv_cache_find_slot \<lparr>head = 2, cells = [empty_cell, \<lparr>cell_pos = 4, cell_seq = {0}\<rparr>],
     rows = [None, None]\<rparr> [(7, 5, [0])])"
proof -
  let ?c = "\<lparr>head = 2, cells = [empty_cell, \<lparr>cell_pos = 4, cell_seq = {0}\<rparr>], rows = [None, None]\<rparr>"
  have "free_block (cells ?c) (length [(7 :: int, 5 :: int, [0 :: int])]) 0"
    by (simp add: free_block_def empty_cell_def)
  then show ?thesis
    using find_slot_complete_and_sound [of ?c "[(7, 5, [0])]", OF _ _ _ prod.collapse [symmetric]]
    by (auto simp: kv_ok_def cell_ok_def batch_ok_def pos_max_def empty_cell_def)
qed

text \<open>Removing and copying ranges of sequences do exactly that to what the cache holds: removal deletes
  the positions from \<open>p0\<close> up to \<open>p1\<close> of one sequence, copying adds those of the source with their rows to
  the destination, a negative bound standing for the respective end.\<close>

theorem kv_seq_operations:
  assumes "kv_ok c" "0 \<le> sq"
  shows "(kv_row (whisper_kv_cache_seq_rm c sq p0 p1) t p x
      \<longleftrightarrow> kv_row c t p x \<and> \<not> (t = sq \<and> norm_p0 p0 \<le> p \<and> p < norm_p1 p1))
    \<and> (kv_row (whisper_kv_cache_seq_cp c sq dst p0 p1) t p x
      \<longleftrightarrow> kv_row c t p x \<or> (t = dst \<and> kv_row c sq p x \<and> norm_p0 p0 \<le> p \<and> p < norm_p1 p1))
    \<and> kv_ok (whisper_kv_cache_seq_rm c sq p0 p1) \<and> kv_ok (whisper_kv_cache_seq_cp c sq dst p0 p1)"
  using assms by (simp add: kv_row_seq_rm kv_row_seq_cp kv_ok_seq_rm kv_ok_seq_cp)

theorem kv_seq_operations_witness:
  "\<not> kv_row (whisper_kv_cache_seq_rm \<lparr>head = 0, cells = [\<lparr>cell_pos = 3, cell_seq = {0, 1}\<rparr>],
      rows = [Some 7]\<rparr> 0 2 (-1)) 0 3 (Some 7)"
  using kv_seq_operations [of "\<lparr>head = 0, cells = [\<lparr>cell_pos = 3, cell_seq = {0, 1}\<rparr>], rows = [Some 7]\<rparr>" 0 2 "-1" 0 3]
  by (simp add: kv_ok_def cell_ok_def pos_max_def norm_p0_def norm_p1_def)

end
