(* ===== verification/Vad_Segments.thy ===== *)
theory Vad_Segments
  imports Prelude
begin

text \<open>
  \<open>whisper_vad_segments_from_probs\<close> of \<open>whisper.cpp\<close>: from the speech probability of each window to
  speech segments.  The scan over the windows is a state machine; its result is merged, filtered,
  padded and converted to centiseconds.

  Sample counts are integers (the products of the source stay far below the limit of \<open>int\<close> for
  durations of hours); probabilities and durations in seconds are reals.
\<close>

record whisper_vad_params =
  threshold :: real
  min_speech_duration_ms :: int
  min_silence_duration_ms :: int
  max_speech_duration_s :: real
  speech_pad_ms :: int
  samples_overlap :: real

definition whisper_vad_default_params :: whisper_vad_params where
  "whisper_vad_default_params = \<lparr>threshold = 1 / 2, min_speech_duration_ms = 250,
     min_silence_duration_ms = 100, max_speech_duration_s = 340282346638528859811704183484516925440,
     speech_pad_ms = 30, samples_overlap = 1 / 10\<rparr>"

definition WHISPER_SAMPLE_RATE :: int where "WHISPER_SAMPLE_RATE = 16000"

definition ms_to_samples :: "int \<Rightarrow> int" where
  "ms_to_samples ms = cdiv (WHISPER_SAMPLE_RATE * ms) 1000"

text \<open>Rounded to the nearest unit; the arguments are not negative.\<close>

definition cs_to_samples :: "int \<Rightarrow> int" where
  "cs_to_samples cs = \<lfloor>of_int cs / 100 * of_int WHISPER_SAMPLE_RATE + (1 / 2 :: real)\<rfloor>"

definition samples_to_cs :: "int \<Rightarrow> int" where
  "samples_to_cs s = \<lfloor>of_int s / of_int WHISPER_SAMPLE_RATE * 100 + (1 / 2 :: real)\<rfloor>"

section \<open>The scan\<close>

definition max_speech_samples :: "whisper_vad_params \<Rightarrow> int \<Rightarrow> int" where
  "max_speech_samples ps n_window =
    (if max_speech_duration_s ps > 100000 then 1073741823
     else
       (let temp = WHISPER_SAMPLE_RATE * \<lfloor>max_speech_duration_s ps\<rfloor> - n_window
                   - 2 * ms_to_samples (speech_pad_ms ps);
            m = (if temp > 2147483647 then 1073741823 else temp)
        in if m < 0 then 1073741823 else m))"

definition neg_threshold :: "whisper_vad_params \<Rightarrow> real" where
  "neg_threshold ps = (if threshold ps - 15 / 100 < 1 / 100 then 1 / 100 else threshold ps - 15 / 100)"

record vad_scan =
  speeches :: "(int \<times> int) list"
  is_speech_segment :: bool
  temp_end :: int
  prev_end :: int
  next_start :: int
  curr_speech_start :: int
  has_curr_speech :: bool

definition vad_scan_init :: vad_scan where
  "vad_scan_init = \<lparr>speeches = [], is_speech_segment = False, temp_end = 0, prev_end = 0,
     next_start = 0, curr_speech_start = 0, has_curr_speech = False\<rparr>"

text \<open>Back in speech after a pause.\<close>

definition scan_resume :: "whisper_vad_params \<Rightarrow> int \<Rightarrow> real \<Rightarrow> vad_scan \<Rightarrow> vad_scan" where
  "scan_resume ps curr_sample curr_prob s =
    (if curr_prob \<ge> threshold ps \<and> temp_end s \<noteq> 0
     then s\<lparr>temp_end := 0,
            next_start := (if next_start s < prev_end s then curr_sample else next_start s)\<rparr>
     else s)"

definition scan_close :: "vad_scan \<Rightarrow> vad_scan" where
  "scan_close s = s\<lparr>prev_end := 0, next_start := 0, temp_end := 0, is_speech_segment := False,
     has_curr_speech := False\<rparr>"

text \<open>A segment that is too long is split; the flag says whether the iteration goes on.\<close>

definition scan_split :: "whisper_vad_params \<Rightarrow> int \<Rightarrow> int \<Rightarrow> vad_scan \<Rightarrow> vad_scan \<times> bool" where
  "scan_split ps n_window curr_sample s =
    (if is_speech_segment s \<and> curr_sample - curr_speech_start s > max_speech_samples ps n_window then
       (if prev_end s \<noteq> 0 then
          (let s1 = s\<lparr>speeches := speeches s @ [(curr_speech_start s, prev_end s)]\<rparr> in
           (if next_start s < prev_end s then scan_close s1
            else s1\<lparr>curr_speech_start := next_start s, has_curr_speech := True,
                    prev_end := 0, next_start := 0, temp_end := 0\<rparr>, True))
        else (scan_close (s\<lparr>speeches := speeches s @ [(curr_speech_start s, curr_sample)]\<rparr>), False))
     else (s, True))"

definition scan_silence :: "whisper_vad_params \<Rightarrow> int \<Rightarrow> real \<Rightarrow> vad_scan \<Rightarrow> vad_scan" where
  "scan_silence ps curr_sample curr_prob s =
    (if curr_prob < neg_threshold ps \<and> is_speech_segment s then
       (let s1 = (if temp_end s = 0 then s\<lparr>temp_end := curr_sample\<rparr> else s);
            s2 = (if curr_sample - temp_end s1 > cdiv (WHISPER_SAMPLE_RATE * 98) 1000
                  then s1\<lparr>prev_end := temp_end s1\<rparr> else s1)
        in if curr_sample - temp_end s2 < ms_to_samples (min_silence_duration_ms ps) then s2
           else scan_close
             (if temp_end s2 - curr_speech_start s2 > ms_to_samples (min_speech_duration_ms ps)
              then s2\<lparr>speeches := speeches s2 @ [(curr_speech_start s2, temp_end s2)]\<rparr> else s2))
     else s)"

definition scan_step :: "whisper_vad_params \<Rightarrow> int \<Rightarrow> int \<Rightarrow> real \<Rightarrow> vad_scan \<Rightarrow> vad_scan" where
  "scan_step ps n_window curr_sample curr_prob s0 =
    (let s = scan_resume ps curr_sample curr_prob s0 in
     if curr_prob \<ge> threshold ps \<and> \<not> is_speech_segment s then
       s\<lparr>is_speech_segment := True, curr_speech_start := curr_sample, has_curr_speech := True\<rparr>
     else
       (let (s1, go_on) = scan_split ps n_window curr_sample s in
        if go_on then scan_silence ps curr_sample curr_prob s1 else s1))"

fun scan_probs :: "whisper_vad_params \<Rightarrow> int \<Rightarrow> int \<Rightarrow> real list \<Rightarrow> vad_scan \<Rightarrow> vad_scan" where
  "scan_probs ps n_window i [] s = s"
| "scan_probs ps n_window i (p # probs) s =
    scan_probs ps n_window (i + 1) probs (scan_step ps n_window (n_window * i) p s)"

definition scan_end :: "whisper_vad_params \<Rightarrow> int \<Rightarrow> vad_scan \<Rightarrow> (int \<times> int) list" where
  "scan_end ps audio_length s =
    (if has_curr_speech s \<and> audio_length - curr_speech_start s > ms_to_samples (min_speech_duration_ms ps)
     then speeches s @ [(curr_speech_start s, audio_length)] else speeches s)"

section \<open>Merging, filtering, padding\<close>

text \<open>The loop stays at a segment as long as the next one is merged into it.\<close>

fun merge_speeches :: "(int \<times> int) list \<Rightarrow> (int \<times> int) list" where
  "merge_speeches ((a, b) # (c, d) # r) =
    (if c - b < cdiv (WHISPER_SAMPLE_RATE * 200) 1000 then merge_speeches ((a, d) # r)
     else (a, b) # merge_speeches ((c, d) # r))"
| "merge_speeches xs = xs"

definition drop_short :: "whisper_vad_params \<Rightarrow> (int \<times> int) list \<Rightarrow> (int \<times> int) list" where
  "drop_short ps xs = filter (\<lambda>(a, b). \<not> b - a < ms_to_samples (min_speech_duration_ms ps)) xs"

definition pad_start :: "int \<Rightarrow> int \<Rightarrow> int" where
  "pad_start pad s = (if s > pad then s - pad else 0)"

definition pad_end :: "int \<Rightarrow> int \<Rightarrow> int \<Rightarrow> int" where
  "pad_end pad audio_length e = (if e + pad < audio_length then e + pad else audio_length)"

fun pad_loop :: "int \<Rightarrow> int \<Rightarrow> (int \<times> int) list \<Rightarrow> (int \<times> int) list" where
  "pad_loop pad len ((a, b) # (c, d) # r) =
    (let silence_duration = c - b in
     if silence_duration < 2 * pad
     then (a, b + cdiv silence_duration 2) # pad_loop pad len ((pad_start (cdiv silence_duration 2) c, d) # r)
     else (a, pad_end pad len b) # pad_loop pad len ((pad_start pad c, d) # r))"
| "pad_loop pad len [(a, b)] = [(a, pad_end pad len b)]"
| "pad_loop pad len [] = []"

definition pad_speeches :: "int \<Rightarrow> int \<Rightarrow> (int \<times> int) list \<Rightarrow> (int \<times> int) list" where
  "pad_speeches pad len xs =
    (case xs of [] \<Rightarrow> [] | (a, b) # r \<Rightarrow> pad_loop pad len ((pad_start pad a, b) # r))"

definition vad_speeches :: "whisper_vad_params \<Rightarrow> int \<Rightarrow> real list \<Rightarrow> (int \<times> int) list" where
  "vad_speeches ps n_window probs =
    (let audio_length = int (length probs) * n_window;
         s = scan_probs ps n_window 0 probs vad_scan_init
     in drop_short ps (merge_speeches (scan_end ps audio_length s)))"

definition whisper_vad_segments_from_probs ::
  "whisper_vad_params \<Rightarrow> int \<Rightarrow> real list \<Rightarrow> (int \<times> int) list" where
  "whisper_vad_segments_from_probs ps n_window probs =
    (let audio_length = int (length probs) * n_window;
         pad = ms_to_samples (speech_pad_ms ps)
     in map (\<lambda>(a, b). (samples_to_cs a, samples_to_cs b))
          (pad_speeches pad audio_length (vad_speeches ps n_window probs)))"

section \<open>Ordered segments\<close>

text \<open>Segments from \<open>lo\<close> to \<open>hi\<close>, one after the other, none of them empty.\<close>

fun ordered :: "int \<Rightarrow> int \<Rightarrow> (int \<times> int) list \<Rightarrow> bool" where
  "ordered lo hi [] \<longleftrightarrow> lo \<le> hi"
| "ordered lo hi ((a, b) # r) \<longleftrightarrow> lo \<le> a \<and> a < b \<and> ordered b hi r"

lemma ordered_le: "ordered lo hi xs \<Longrightarrow> lo \<le> hi"
  by (induction lo hi xs rule: ordered.induct) auto

lemma ordered_snoc: "ordered lo a xs \<Longrightarrow> a < b \<Longrightarrow> b \<le> hi \<Longrightarrow> ordered lo hi (xs @ [(a, b)])"
  by (induction lo a xs rule: ordered.induct) auto

lemma ordered_mono: "ordered lo hi xs \<Longrightarrow> lo' \<le> lo \<Longrightarrow> hi \<le> hi' \<Longrightarrow> ordered lo' hi' xs"
  by (induction lo hi xs arbitrary: lo' rule: ordered.induct) auto

lemma ordered_merge: "ordered lo hi xs \<Longrightarrow> ordered lo hi (merge_speeches xs)"
proof (induction xs arbitrary: lo rule: merge_speeches.induct)
  case (1 a b c d r)
  then show ?case by (simp del: cdiv_nonneg)
qed auto

lemma ordered_filter: "ordered lo hi xs \<Longrightarrow> ordered lo hi (filter P xs)"
proof (induction lo hi xs rule: ordered.induct)
  case (2 lo hi a b r)
  then have "ordered b hi (filter P r)" by simp
  then have "ordered lo hi (filter P r)" using 2 by (auto intro: ordered_mono)
  then show ?case using 2 by auto
qed simp

text \<open>The invariant of the scan before the window at \<open>cs\<close>.\<close>

definition scan_ok :: "int \<Rightarrow> vad_scan \<Rightarrow> bool" where
  "scan_ok cs s \<longleftrightarrow> has_curr_speech s = is_speech_segment s
    \<and> (if is_speech_segment s
       then ordered 0 (curr_speech_start s) (speeches s) \<and> curr_speech_start s < cs
         \<and> (temp_end s = 0 \<or> (curr_speech_start s < temp_end s \<and> temp_end s < cs))
         \<and> (prev_end s = 0 \<or> (curr_speech_start s < prev_end s \<and> prev_end s < cs))
         \<and> next_start s < cs \<and> (prev_end s = 0 \<longrightarrow> next_start s = 0)
       else ordered 0 cs (speeches s) \<and> temp_end s = 0 \<and> prev_end s = 0 \<and> next_start s = 0)"

lemma scan_ok_init: "scan_ok 0 vad_scan_init"
  by (simp add: scan_ok_def vad_scan_init_def)

lemma scan_ok_mono: "scan_ok cs s \<Longrightarrow> cs \<le> cs' \<Longrightarrow> scan_ok cs' s"
  by (auto simp: scan_ok_def intro: ordered_mono split: if_splits)

lemma scan_ok_close:
  assumes "ordered 0 hi (speeches s)"
  shows "scan_ok hi (scan_close s)"
  using assms by (simp add: scan_ok_def scan_close_def)

lemma scan_ok_resume:
  assumes "scan_ok cs s" "0 < nw"
  shows "scan_ok (cs + nw) (scan_resume ps cs p s)"
    and "is_speech_segment (scan_resume ps cs p s) = is_speech_segment s"
    and "curr_speech_start (scan_resume ps cs p s) = curr_speech_start s"
proof -
  show "scan_ok (cs + nw) (scan_resume ps cs p s)"
  proof (cases "is_speech_segment s")
    case True
    with assms show ?thesis by (auto simp: scan_ok_def scan_resume_def)
  next
    case False
    with assms have "scan_resume ps cs p s = s" by (simp add: scan_ok_def scan_resume_def)
    then show ?thesis using scan_ok_mono [OF assms(1), of "cs + nw"] assms(2) by simp
  qed
qed (simp_all add: scan_resume_def)

lemma scan_ok_split:
  assumes ok: "scan_ok hi s" and lt: "is_speech_segment s \<longrightarrow> curr_speech_start s < cs" "cs \<le> hi"
  shows "scan_ok hi (fst (scan_split ps nw cs s))"
proof (cases "is_speech_segment s \<and> cs - curr_speech_start s > max_speech_samples ps nw")
  case True
  then have o: "ordered 0 (curr_speech_start s) (speeches s)" using ok by (simp add: scan_ok_def)
  show ?thesis
  proof (cases "prev_end s = 0")
    case z: True
    have "ordered 0 hi (speeches s @ [(curr_speech_start s, cs)])"
      by (rule ordered_snoc [OF o]) (use lt True in auto)
    then show ?thesis using True z by (simp add: scan_split_def scan_ok_close)
  next
    case nz: False
    then have pe: "curr_speech_start s < prev_end s" "prev_end s < hi" "next_start s < hi"
      using ok True by (auto simp: scan_ok_def)
    show ?thesis
    proof (cases "next_start s < prev_end s")
      case ns: True
      have "ordered 0 hi (speeches s @ [(curr_speech_start s, prev_end s)])"
        by (rule ordered_snoc [OF o]) (use pe in auto)
      then show ?thesis using True nz ns by (simp add: scan_split_def Let_def scan_ok_close)
    next
      case ns: False
      have "ordered 0 (next_start s) (speeches s @ [(curr_speech_start s, prev_end s)])"
        by (rule ordered_snoc [OF o]) (use pe ns in auto)
      then show ?thesis
        using True nz ns pe ok ordered_le [OF o] by (simp add: scan_split_def Let_def scan_ok_def)
    qed
  qed
next
  case False
  then have "fst (scan_split ps nw cs s) = s" by (auto simp: scan_split_def)
  with ok show ?thesis by simp
qed

lemma scan_split_start:
  assumes "scan_ok cs s" "is_speech_segment (fst (scan_split ps nw cs s))"
  shows "curr_speech_start (fst (scan_split ps nw cs s)) < cs"
  using assms by (auto simp: scan_split_def scan_ok_def scan_close_def Let_def split: if_splits)

lemma scan_ok_silence:
  assumes ok: "scan_ok hi s" and lt: "is_speech_segment s \<longrightarrow> curr_speech_start s < cs" "cs < hi"
  shows "scan_ok hi (scan_silence ps cs p s)"
proof (cases "p < neg_threshold ps \<and> is_speech_segment s")
  case True
  define s1 where "s1 = (if temp_end s = 0 then s\<lparr>temp_end := cs\<rparr> else s)"
  define s2 where "s2 = (if cs - temp_end s1 > cdiv (WHISPER_SAMPLE_RATE * 98) 1000
                  then s1\<lparr>prev_end := temp_end s1\<rparr> else s1)"
  have o: "ordered 0 (curr_speech_start s) (speeches s)" using ok True by (simp add: scan_ok_def)
  have t1: "speeches s1 = speeches s" "curr_speech_start s1 = curr_speech_start s"
    "is_speech_segment s1" "has_curr_speech s1" "prev_end s1 = prev_end s" "next_start s1 = next_start s"
    "curr_speech_start s < temp_end s1 \<and> temp_end s1 < hi"
    using ok True lt by (auto simp: s1_def scan_ok_def)
  have t2: "speeches s2 = speeches s" "curr_speech_start s2 = curr_speech_start s"
    "temp_end s2 = temp_end s1" "is_speech_segment s2" "has_curr_speech s2" "next_start s2 = next_start s"
    "prev_end s2 = prev_end s \<or> prev_end s2 = temp_end s1"
    using t1 by (auto simp: s2_def)
  have ok2: "scan_ok hi s2"
    using ok True t1 t2 ordered_le [OF o] by (auto simp: scan_ok_def)
  have "scan_ok hi (scan_close (s2\<lparr>speeches := speeches s2 @ [(curr_speech_start s2, temp_end s2)]\<rparr>))"
    by (rule scan_ok_close) (use t1 t2 o in \<open>auto intro: ordered_snoc\<close>)
  moreover have "scan_ok hi (scan_close s2)"
    by (rule scan_ok_close) (use t2 o lt True in \<open>auto intro: ordered_mono\<close>)
  ultimately show ?thesis
    using ok2 True by (simp add: scan_silence_def Let_def s1_def [symmetric] s2_def [symmetric])
next
  case False
  then have "scan_silence ps cs p s = s" by (auto simp: scan_silence_def)
  with ok show ?thesis by simp
qed

lemma scan_ok_step:
  assumes ok: "scan_ok cs s" and "0 < nw" "1 / 100 \<le> threshold ps"
  shows "scan_ok (cs + nw) (scan_step ps nw cs p s)"
proof (cases "p \<ge> threshold ps")
  case True
  then have noneg: "\<not> p < neg_threshold ps" using assms(3) by (auto simp: neg_threshold_def split: if_splits)
  let ?s = "scan_resume ps cs p s"
  note r = scan_ok_resume [OF ok assms(2), of ps p]
  have lt: "is_speech_segment ?s \<longrightarrow> curr_speech_start ?s < cs"
    using ok r(2,3) by (auto simp: scan_ok_def split: if_splits)
  show ?thesis
  proof (cases "is_speech_segment ?s")
    case sp: True
    have "scan_ok (cs + nw) (fst (scan_split ps nw cs ?s))"
      by (rule scan_ok_split [OF r(1) lt]) (use assms(2) in simp)
    moreover have "scan_silence ps cs p s1 = s1" for s1 using noneg by (simp add: scan_silence_def)
    ultimately show ?thesis using sp by (simp add: scan_step_def Let_def case_prod_beta)
  next
    case False
    then have "ordered 0 cs (speeches ?s)" "temp_end ?s = 0" "prev_end ?s = 0" "next_start ?s = 0"
      using ok r(2) by (auto simp: scan_ok_def scan_resume_def)
    moreover have "0 \<le> cs" using ordered_le [OF calculation(1)] .
    ultimately show ?thesis
      using True False assms(2) by (simp add: scan_step_def Let_def scan_ok_def)
  qed
next
  case False
  then have "scan_resume ps cs p s = s" by (simp add: scan_resume_def)
  moreover have "scan_ok (cs + nw) (fst (scan_split ps nw cs s))"
    by (rule scan_ok_split [OF scan_ok_mono [OF ok]])
       (use ok assms(2) in \<open>auto simp: scan_ok_def split: if_splits\<close>)
  moreover from this have "scan_ok (cs + nw) (scan_silence ps cs p (fst (scan_split ps nw cs s)))"
    by (rule scan_ok_silence) (use scan_split_start [OF ok, of ps nw] assms(2) in auto)
  ultimately show ?thesis
    using False by (simp add: scan_step_def Let_def case_prod_beta)
qed

lemma scan_ok_probs:
  assumes "0 < nw" "1 / 100 \<le> threshold ps"
  shows "scan_ok (nw * i) s \<Longrightarrow> scan_ok (nw * (i + int (length probs))) (scan_probs ps nw i probs s)"
proof (induction probs arbitrary: i s)
  case (Cons p probs)
  have "scan_ok (nw * (i + 1)) (scan_step ps nw (nw * i) p s)"
    using scan_ok_step [OF Cons.prems assms, of p] by (simp add: algebra_simps)
  from Cons.IH [OF this] show ?case by (simp add: algebra_simps)
qed simp

lemma ordered_speeches:
  assumes "0 < nw" "1 / 100 \<le> threshold ps"
  shows "ordered 0 (int (length probs) * nw) (vad_speeches ps nw probs)"
proof -
  let ?len = "int (length probs) * nw"
  let ?s = "scan_probs ps nw 0 probs vad_scan_init"
  have ok: "scan_ok ?len ?s"
    using scan_ok_probs [OF assms, of 0 vad_scan_init probs] scan_ok_init by (simp add: mult.commute)
  have "ordered 0 ?len (scan_end ps ?len ?s)"
  proof (cases "is_speech_segment ?s")
    case True
    with ok have "ordered 0 (curr_speech_start ?s) (speeches ?s)" "curr_speech_start ?s < ?len"
      by (auto simp: scan_ok_def)
    then show ?thesis by (auto simp: scan_end_def intro: ordered_snoc ordered_mono)
  next
    case False
    with ok show ?thesis by (auto simp: scan_end_def scan_ok_def)
  qed
  then show ?thesis
    by (simp add: vad_speeches_def Let_def drop_short_def ordered_filter ordered_merge)
qed

section \<open>Padding\<close>

lemma cdiv2_bounds: "0 \<le> s \<Longrightarrow> 0 \<le> cdiv s 2 \<and> 2 * cdiv s 2 \<le> s"
  by simp

lemma ordered_pad:
  "0 \<le> pad \<Longrightarrow> 0 \<le> lo \<Longrightarrow> ordered lo len xs \<Longrightarrow> ordered lo len (pad_loop pad len xs)"
proof (induction pad len xs arbitrary: lo rule: pad_loop.induct)
  case (1 pad len a b c d r)
  have pad: "0 \<le> pad" "0 \<le> lo" using "1.prems" by simp_all
  have bc: "lo \<le> a" "a < b" "b \<le> c" "c < d" "ordered d len r" using "1.prems" by auto
  define q where "q = cdiv (c - b) 2"
  have q: "0 \<le> q" "2 * q \<le> c - b" using cdiv2_bounds [of "c - b"] bc by (simp_all add: q_def)
  show ?case
  proof (cases "c - b < 2 * pad")
    case True
    have "ordered (b + q) len ((pad_start q c, d) # r)"
      using bc q pad by (auto simp: pad_start_def)
    then have "ordered (b + q) len (pad_loop pad len ((pad_start q c, d) # r))"
      using "1.IH"(1) [OF refl True, of "b + q"] bc q pad by (simp add: q_def)
    then show ?thesis using True bc q by (simp add: Let_def q_def [symmetric])
  next
    case False
    have cl: "c < len" using bc ordered_le [of d len r] by simp
    have "b + pad < len" using False cl pad by linarith
    then have "pad_end pad len b = b + pad" by (simp add: pad_end_def)
    moreover have "ordered (b + pad) len ((pad_start pad c, d) # r)"
      using False bc pad by (auto simp: pad_start_def)
    then have "ordered (b + pad) len (pad_loop pad len ((pad_start pad c, d) # r))"
      using "1.IH"(2) [OF refl False, of "b + pad"] bc pad by simp
    ultimately show ?thesis using False bc pad by (simp add: Let_def)
  qed
next
  case (2 pad len a b)
  then show ?case by (auto simp: pad_end_def)
qed simp

lemma ordered_pad_speeches:
  assumes "0 \<le> pad" "ordered 0 len xs"
  shows "ordered 0 len (pad_speeches pad len xs)"
proof (cases xs)
  case (Cons x r)
  obtain a b where x: "x = (a, b)" by (cases x)
  have "ordered 0 len ((pad_start pad a, b) # r)" using assms by (auto simp: Cons x pad_start_def)
  then show ?thesis using ordered_pad [OF assms(1), of 0 len] by (simp add: Cons x pad_speeches_def)
qed (use assms in \<open>simp add: pad_speeches_def\<close>)

lemma samples_to_cs_mono: "a \<le> b \<Longrightarrow> samples_to_cs a \<le> samples_to_cs b"
  unfolding samples_to_cs_def WHISPER_SAMPLE_RATE_def by (intro floor_mono) simp

text \<open>Segments in centiseconds may be empty after rounding.\<close>

fun weakly_ordered :: "int \<Rightarrow> int \<Rightarrow> (int \<times> int) list \<Rightarrow> bool" where
  "weakly_ordered lo hi [] \<longleftrightarrow> lo \<le> hi"
| "weakly_ordered lo hi ((a, b) # r) \<longleftrightarrow> lo \<le> a \<and> a \<le> b \<and> weakly_ordered b hi r"

lemma weakly_ordered_map:
  "ordered lo hi xs \<Longrightarrow>
    weakly_ordered (samples_to_cs lo) (samples_to_cs hi) (map (\<lambda>(a, b). (samples_to_cs a, samples_to_cs b)) xs)"
  by (induction lo hi xs rule: ordered.induct) (auto intro: samples_to_cs_mono)

lemma weakly_ordered_hi: "weakly_ordered lo hi xs \<Longrightarrow> hi \<le> hi' \<Longrightarrow> weakly_ordered lo hi' xs"
  by (induction lo hi xs rule: weakly_ordered.induct) auto

lemma segments_weakly_ordered:
  assumes "0 < n_window" "1 / 100 \<le> threshold ps" "0 \<le> speech_pad_ms ps"
  shows "weakly_ordered 0 (samples_to_cs (int (length probs) * n_window)) (whisper_vad_segments_from_probs ps n_window probs)"
proof -
  have pad: "0 \<le> ms_to_samples (speech_pad_ms ps)"
    using assms(3) by (simp add: ms_to_samples_def WHISPER_SAMPLE_RATE_def)
  have "samples_to_cs 0 = 0" by (simp add: samples_to_cs_def)
  then show ?thesis
    using weakly_ordered_map [OF ordered_pad_speeches [OF pad ordered_speeches [OF assms(1,2)]]]
    by (simp add: whisper_vad_segments_from_probs_def Let_def)
qed

section \<open>Properties\<close>

text \<open>C35: Whatever the probabilities, the speech segments are in order, do not overlap and lie within the
  audio, before padding (where none is empty or shorter than the minimum duration) and after
  padding and rounding to centiseconds.\<close>

theorem vad_segments_ordered:
  assumes "0 < n_window" "1 / 100 \<le> threshold ps" "0 \<le> speech_pad_ms ps"
  shows "ordered 0 (int (length probs) * n_window) (vad_speeches ps n_window probs)
    \<and> (\<forall>(a, b) \<in> set (vad_speeches ps n_window probs). ms_to_samples (min_speech_duration_ms ps) \<le> b - a)
    \<and> weakly_ordered 0 (samples_to_cs (int (length probs) * n_window))
        (whisper_vad_segments_from_probs ps n_window probs)"
proof -
  let ?len = "int (length probs) * n_window"
  have o: "ordered 0 ?len (vad_speeches ps n_window probs)" by (rule ordered_speeches [OF assms(1,2)])
  have short: "\<forall>(a, b) \<in> set (vad_speeches ps n_window probs). ms_to_samples (min_speech_duration_ms ps) \<le> b - a"
    by (auto simp: vad_speeches_def Let_def drop_short_def)
  note segments_weakly_ordered [OF assms, of probs]
  with o short show ?thesis by blast
qed

theorem vad_segments_ordered_witness:
  "ordered 0 3072 (vad_speeches whisper_vad_default_params 512 [0, 1, 1, 1, 0, 0])"
  using vad_segments_ordered [of 512 whisper_vad_default_params "[0, 1, 1, 1, 0, 0]"]
  by (simp add: whisper_vad_default_params_def)

text \<open>Silence gives no segment: if no window reaches the threshold, the result is empty.\<close>

theorem vad_silence_no_segments:
  assumes "\<forall>p \<in> set probs. p < threshold ps"
  shows "whisper_vad_segments_from_probs ps n_window probs = []"
proof -
  have step: "scan_step ps n_window cs p s = s"
    if "p < threshold ps" "\<not> is_speech_segment s" for cs p s
    using that by (simp add: scan_step_def scan_resume_def scan_split_def scan_silence_def)
  have "scan_probs ps n_window i probs s = s" if "\<not> is_speech_segment s" for i s
    using assms that by (induction probs arbitrary: i) (simp_all add: step)
  then have "scan_probs ps n_window 0 probs vad_scan_init = vad_scan_init"
    by (simp add: vad_scan_init_def)
  then show ?thesis
    by (simp add: whisper_vad_segments_from_probs_def vad_speeches_def scan_end_def vad_scan_init_def
        drop_short_def pad_speeches_def)
qed

theorem vad_silence_no_segments_witness:
  "whisper_vad_segments_from_probs whisper_vad_default_params 512 [0, 1 / 4, 1 / 3] = []"
  by (rule vad_silence_no_segments) (simp add: whisper_vad_default_params_def)

end
