(* ===== verification/Whisper_Types.thy ===== *)
theory Whisper_Types
  imports Grammar Vad_Segments
begin

text \<open>
  The data of \<open>whisper.cpp\<close> that its decoding loop works on: tokens, segments, the vocabulary, the
  parameters of a transcription with their defaults, and the state of a decoder.

  Token ids are \<open>int\<close>; times are in centiseconds, an \<open>int\<close> where the source has \<open>int64_t\<close>.
  Probabilities are reals; \<open>None\<close> stands for \<open>-INFINITY\<close> in the fields that start at it.
\<close>

section \<open>Tokens and segments\<close>

record whisper_token_data =
  tok_id :: int
  tok_tid :: int
  tok_p :: real
  tok_plog :: real
  tok_pt :: real
  tok_ptsum :: real
  tok_t0 :: int
  tok_t1 :: int
  tok_t_dtw :: int
  tok_vlen :: real

record whisper_segment =
  seg_t0 :: int
  seg_t1 :: int
  seg_text :: bytestring
  seg_no_speech_prob :: real
  seg_tokens :: "whisper_token_data list"
  seg_speaker_turn_next :: bool

section \<open>The vocabulary\<close>

record whisper_vocab =
  n_vocab :: int
  token_to_id :: "bytestring \<Rightarrow> int option"
  id_to_token :: "int \<Rightarrow> bytestring option"
  token_eot :: int
  token_sot :: int
  token_translate :: int
  token_transcribe :: int
  token_solm :: int
  token_prev :: int
  token_nosp :: int
  token_not :: int
  token_beg :: int

definition default_vocab :: whisper_vocab where
  "default_vocab = \<lparr>n_vocab = 51864, token_to_id = (\<lambda>_. None), id_to_token = (\<lambda>_. None),
     token_eot = 50256, token_sot = 50257, token_translate = 50357, token_transcribe = 50358,
     token_solm = 50359, token_prev = 50360, token_nosp = 50361, token_not = 50362, token_beg = 50363\<rparr>"

definition is_multilingual :: "whisper_vocab \<Rightarrow> bool" where
  "is_multilingual voc \<longleftrightarrow> n_vocab voc \<ge> 51865"

definition num_languages :: "whisper_vocab \<Rightarrow> int" where
  "num_languages voc = n_vocab voc - 51765 - (if is_multilingual voc then 1 else 0)"

text \<open>\<open>at\<close> throws for an unknown id: \<open>None\<close>.\<close>

definition whisper_token_to_str :: "whisper_vocab \<Rightarrow> int \<Rightarrow> bytestring option" where
  "whisper_token_to_str voc t = map_option c_str (id_to_token voc t)"

definition whisper_token_lang :: "whisper_vocab \<Rightarrow> int \<Rightarrow> int" where
  "whisper_token_lang voc lang_id = token_sot voc + 1 + lang_id"

section \<open>Parameters\<close>

datatype whisper_sampling_strategy = SAMPLING_GREEDY | SAMPLING_BEAM_SEARCH

text \<open>
  Pointers to strings, token arrays and rules are options or lists; the user-data pointers and the
  parameters that only switch console output or threads of the host are left out.  The regular
  expression of suppressed tokens is the set of strings it matches, the filter callback a function; of the
  callback for new segments the model only knows whether there is one.
\<close>

record whisper_full_params =
  strategy :: whisper_sampling_strategy
  n_max_text_ctx :: int
  offset_ms :: int
  duration_ms :: int
  translate :: bool
  no_context :: bool
  no_timestamps :: bool
  single_segment :: bool
  print_special :: bool
  token_timestamps :: bool
  thold_pt :: real
  thold_ptsum :: real
  max_len :: int
  split_on_word :: bool
  max_tokens :: int
  audio_ctx :: int
  tdrz_enable :: bool
  initial_prompt :: "bytestring option"
  carry_initial_prompt :: bool
  prompt_tokens :: "int list"
  language :: string
  detect_language :: bool
  suppress_blank :: bool
  suppress_nst :: bool
  temperature :: real
  max_initial_ts :: real
  length_penalty :: real
  temperature_inc :: real
  entropy_thold :: real
  logprob_thold :: real
  no_speech_thold :: real
  best_of :: int
  beam_size :: int
  grammar_rules :: grule_list
  i_start_rule :: nat
  grammar_penalty :: real
  new_segment_callback :: bool
  suppress_regex :: "(bytestring \<Rightarrow> bool) option"
  logits_filter_callback :: "(whisper_token_data list \<Rightarrow> real option list \<Rightarrow> real option list) option"
  vad_enabled :: bool
  vad_params :: whisper_vad_params

definition whisper_full_default_params :: "whisper_sampling_strategy \<Rightarrow> whisper_full_params" where
  "whisper_full_default_params s =
    \<lparr>strategy = s, n_max_text_ctx = 16384, offset_ms = 0, duration_ms = 0,
     translate = False, no_context = True, no_timestamps = False, single_segment = False,
     print_special = False, token_timestamps = False, thold_pt = 1 / 100, thold_ptsum = 1 / 100,
     max_len = 0, split_on_word = False, max_tokens = 0, audio_ctx = 0, tdrz_enable = False,
     initial_prompt = None, carry_initial_prompt = False, prompt_tokens = [],
     language = ''en'', detect_language = False, suppress_blank = True, suppress_nst = False,
     temperature = 0, max_initial_ts = 1, length_penalty = -1, temperature_inc = 1 / 5,
     entropy_thold = 12 / 5, logprob_thold = -1, no_speech_thold = 3 / 5,
     best_of = (if s = SAMPLING_GREEDY then 5 else -1),
     beam_size = (if s = SAMPLING_BEAM_SEARCH then 5 else -1),
     grammar_rules = [], i_start_rule = 0, grammar_penalty = 100, new_segment_callback = False,
     suppress_regex = None, logits_filter_callback = None, vad_enabled = False, vad_params = whisper_vad_default_params\<rparr>"

section \<open>Decoders\<close>

text \<open>The last three fields are the logits, log probabilities and probabilities of the next token.\<close>

record whisper_sequence =
  seq_tokens :: "whisper_token_data list"
  result_len :: int
  sum_logprobs_all :: real
  sum_logprobs :: "real option"
  avg_logprobs :: "real option"
  entropy :: real
  score :: "real option"

record whisper_decoder =
  sequence :: whisper_sequence
  grammar :: whisper_grammar
  i_batch :: int
  seek_delta :: int
  dec_failed :: bool
  dec_completed :: bool
  has_ts :: bool
  dec_logits :: "real option list"
  dec_logprobs :: "real option list"
  dec_probs :: "real list"

definition running :: "whisper_decoder \<Rightarrow> bool" where
  "running d \<longleftrightarrow> \<not> (dec_completed d \<or> dec_failed d)"

end
