(* ===== verification/Wrap_Segment.thy ===== *)
theory Wrap_Segment
  imports Whisper_Types
begin

text \<open>
  \<open>whisper_wrap_segment\<close>: the last segment is cut into pieces of at most \<open>max_len\<close> characters.
  The loop works on a copy of the last segment with an index \<open>i\<close>, a character count and the text so
  far; a cut closes the segment, opens one with the rest of the tokens, and starts over at index 0.
  \<open>None\<close> is the exception of \<open>at\<close> for a token that is not in the vocabulary.
\<close>

definition utf8_len :: "bytestring \<Rightarrow> int" where
  "utf8_len s = int (length (filter (\<lambda>b. b AND 0xC0 \<noteq> 0x80) (c_str s)))"

definition should_split_on_word :: "bytestring \<Rightarrow> bool \<Rightarrow> bool" where
  "should_split_on_word tx sow = (if \<not> sow then True else c_str tx \<noteq> [] \<and> hd (c_str tx) = 32)"

definition closed_part :: "whisper_segment \<Rightarrow> bytestring \<Rightarrow> int \<Rightarrow> nat \<Rightarrow> whisper_segment" where
  "closed_part seg tx t i =
    seg\<lparr>seg_text := tx, seg_t1 := t, seg_tokens := take i (seg_tokens seg), seg_speaker_turn_next := False\<rparr>"

text \<open>\<open>push_back({})\<close> value-initialises the fields that are not assigned.\<close>

definition opened_part :: "whisper_segment \<Rightarrow> int \<Rightarrow> nat \<Rightarrow> whisper_segment" where
  "opened_part seg t i =
    \<lparr>seg_t0 = t, seg_t1 = seg_t1 seg, seg_text = [], seg_no_speech_prob = 0,
     seg_tokens = drop i (seg_tokens seg), seg_speaker_turn_next = seg_speaker_turn_next seg\<rparr>"

function wrap_loop ::
  "whisper_vocab \<Rightarrow> int \<Rightarrow> bool \<Rightarrow> whisper_segment \<Rightarrow> nat \<Rightarrow> int \<Rightarrow> bytestring \<Rightarrow> whisper_segment list option"
where
  "wrap_loop voc mlen sow seg i acc tx =
    (if i < length (seg_tokens seg) then
       (let token = seg_tokens seg ! i in
        if tok_id token \<ge> token_eot voc then wrap_loop voc mlen sow seg (i + 1) acc tx
        else
          (case whisper_token_to_str voc (tok_id token) of
             None \<Rightarrow> None
           | Some t \<Rightarrow>
               (let cur = utf8_len t in
                if acc + cur > mlen \<and> i > 0 \<and> should_split_on_word t sow then
                  map_option (Cons (closed_part seg tx (tok_t0 token) i))
                    (wrap_loop voc mlen sow (opened_part seg (tok_t0 token) i) 0 0 [])
                else wrap_loop voc mlen sow seg (i + 1) (acc + cur) (tx @ t))))
     else Some [seg\<lparr>seg_text := tx\<rparr>])"
  by pat_completeness auto
termination
  by (relation "measures [\<lambda>(voc, m, sp, seg, i, acc, tx). length (seg_tokens seg),
                          \<lambda>(voc, m, sp, seg, i, acc, tx). length (seg_tokens seg) - i]")
     (auto simp: opened_part_def)

declare wrap_loop.simps [simp del]

text \<open>The segments after the call (the last one replaced by its pieces) and the number of pieces.\<close>

definition whisper_wrap_segment ::
  "whisper_vocab \<Rightarrow> int \<Rightarrow> bool \<Rightarrow> whisper_segment list \<Rightarrow> (whisper_segment list \<times> int) option" where
  "whisper_wrap_segment voc mlen sow result_all =
    map_option (\<lambda>parts. (butlast result_all @ parts, int (length parts)))
      (wrap_loop voc mlen sow (last result_all) 0 0 [])"

section \<open>The pieces make up the segment\<close>

text \<open>The text of a list of tokens without the special ones.\<close>

primrec tokens_text :: "whisper_vocab \<Rightarrow> whisper_token_data list \<Rightarrow> bytestring" where
  "tokens_text voc [] = []"
| "tokens_text voc (t # ts) =
    (if tok_id t \<ge> token_eot voc then [] else the (whisper_token_to_str voc (tok_id t))) @ tokens_text voc ts"

definition text_count :: "whisper_vocab \<Rightarrow> whisper_token_data list \<Rightarrow> nat" where
  "text_count voc ts = length (filter (\<lambda>t. \<not> tok_id t \<ge> token_eot voc) ts)"

lemma tokens_text_append [simp]: "tokens_text voc (xs @ ys) = tokens_text voc xs @ tokens_text voc ys"
  by (induction xs) auto

lemma text_count_append [simp]: "text_count voc (xs @ ys) = text_count voc xs + text_count voc ys"
  by (simp add: text_count_def)

lemma c_str_append: "c_str s = s \<Longrightarrow> c_str (s @ t) = s @ c_str t"
  by (induction s) (auto simp: c_str_def split: if_splits)

lemma c_str_idem [simp]: "c_str (c_str s) = c_str s"
  by (auto simp: c_str_def takeWhile_idem)

lemma token_text_c_str: "whisper_token_to_str voc t = Some s \<Longrightarrow> c_str s = s"
  by (auto simp: whisper_token_to_str_def)

lemma c_str_tokens_text:
  "\<forall>t \<in> set ts. \<not> tok_id t \<ge> token_eot voc \<longrightarrow> whisper_token_to_str voc (tok_id t) \<noteq> None \<Longrightarrow>
    c_str (tokens_text voc ts) = tokens_text voc ts"
  by (induction ts) (auto simp: c_str_append c_str_def [of "[]"] token_text_c_str)

lemma utf8_len_append: "c_str s = s \<Longrightarrow> utf8_len (s @ t) = utf8_len s + utf8_len t"
  by (simp add: utf8_len_def c_str_append)

lemma utf8_len_nonneg [simp]: "0 \<le> utf8_len s"
  by (simp add: utf8_len_def)

text \<open>A chain of pieces: each starts where the one before ends, and only the last keeps the speaker turn.\<close>

fun chained :: "int \<Rightarrow> int \<Rightarrow> bool \<Rightarrow> whisper_segment list \<Rightarrow> bool" where
  "chained a b turn [] = False"
| "chained a b turn [s] \<longleftrightarrow> seg_t0 s = a \<and> seg_t1 s = b \<and> seg_speaker_turn_next s = turn"
| "chained a b turn (s # s' # r) \<longleftrightarrow>
     seg_t0 s = a \<and> seg_t1 s = seg_t0 s' \<and> \<not> seg_speaker_turn_next s \<and> chained (seg_t0 s') b turn (s' # r)"

lemma chained_Cons:
  "chained a b turn r \<Longrightarrow> seg_t0 s = c \<Longrightarrow> seg_t1 s = a \<Longrightarrow> \<not> seg_speaker_turn_next s \<Longrightarrow> chained c b turn (s # r)"
  by (cases "(a, b, turn, r)" rule: chained.cases) auto

definition part_ok :: "whisper_vocab \<Rightarrow> int \<Rightarrow> bool \<Rightarrow> whisper_segment \<Rightarrow> bool" where
  "part_ok voc mlen sow s \<longleftrightarrow>
    seg_text s = tokens_text voc (seg_tokens s) \<and>
    (sow \<or> utf8_len (seg_text s) \<le> mlen \<or> text_count voc (seg_tokens s) = 1)"

lemma wrap_loop_pieces:
  assumes "wrap_loop voc mlen sow seg i acc tx = Some parts"
    and "i \<le> length (seg_tokens seg)" "tx = tokens_text voc (take i (seg_tokens seg))"
    and "c_str tx = tx" "acc = utf8_len tx" "0 \<le> mlen"
    and "sow \<or> acc \<le> mlen \<or> text_count voc (take i (seg_tokens seg)) = 1"
  shows "concat (map seg_tokens parts) = seg_tokens seg \<and>
    chained (seg_t0 seg) (seg_t1 seg) (seg_speaker_turn_next seg) parts \<and>
    (\<forall>s \<in> set parts. part_ok voc mlen sow s)"
  using assms
proof (induction voc mlen sow seg i acc tx arbitrary: parts rule: wrap_loop.induct)
  case (1 voc mlen sow seg i acc tx)
  show ?case
  proof (cases "i < length (seg_tokens seg)")
    case False
    with 1(4-) have "parts = [seg\<lparr>seg_text := tx\<rparr>]" "i = length (seg_tokens seg)"
      by (simp_all add: wrap_loop.simps [of voc mlen sow seg i])
    with 1(4-) show ?thesis by (simp add: part_ok_def)
  next
    case i: True
    define token where "token = seg_tokens seg ! i"
    have take: "take (Suc i) (seg_tokens seg) = take i (seg_tokens seg) @ [token]"
      using i by (simp add: token_def take_Suc_conv_app_nth)
    show ?thesis
    proof (cases "tok_id token \<ge> token_eot voc")
      case True
      with 1(4) i have w: "wrap_loop voc mlen sow seg (i + 1) acc tx = Some parts"
        by (simp add: wrap_loop.simps [of voc mlen sow seg i] token_def Let_def)
      have "sow \<or> acc \<le> mlen \<or> text_count voc (take (i + 1) (seg_tokens seg)) = 1"
        using 1(10) True by (simp add: take text_count_def)
      with 1(1) [OF i token_def True w] 1(6-9) i True show ?thesis by (simp add: take)
    next
      case plain: False
      with 1(4) i obtain t where t: "whisper_token_to_str voc (tok_id token) = Some t"
        by (cases "whisper_token_to_str voc (tok_id token)")
           (auto simp: wrap_loop.simps [of voc mlen sow seg i] token_def Let_def)
      show ?thesis
      proof (cases "acc + utf8_len t > mlen \<and> i > 0 \<and> should_split_on_word t sow")
        case cut: True
        let ?seg' = "opened_part seg (tok_t0 token) i"
        from 1(4) i plain t cut obtain rest where
          rest: "wrap_loop voc mlen sow ?seg' 0 0 [] = Some rest"
          and parts: "parts = closed_part seg tx (tok_t0 token) i # rest"
          by (auto simp: wrap_loop.simps [of voc mlen sow seg i] token_def Let_def)
        have IH: "concat (map seg_tokens rest) = seg_tokens ?seg' \<and>
            chained (seg_t0 ?seg') (seg_t1 ?seg') (seg_speaker_turn_next ?seg') rest \<and>
            (\<forall>s \<in> set rest. part_ok voc mlen sow s)"
          using 1(2) [OF i token_def plain t refl cut rest] \<open>0 \<le> mlen\<close>
          by (simp add: utf8_len_def c_str_def)
        have "part_ok voc mlen sow (closed_part seg tx (tok_t0 token) i)"
          using 1(6,8,10) by (auto simp: part_ok_def closed_part_def)
        with IH show ?thesis unfolding parts
          by (auto simp: opened_part_def closed_part_def intro!: chained_Cons)
      next
        case go: False
        with 1(4) i plain t have w: "wrap_loop voc mlen sow seg (i + 1) (acc + utf8_len t) (tx @ t) = Some parts"
          by (auto simp: wrap_loop.simps [of voc mlen sow seg i] token_def Let_def split: if_splits)
        have fits: "sow \<or> acc + utf8_len t \<le> mlen \<or> text_count voc (take (i + 1) (seg_tokens seg)) = 1"
        proof (cases "i = 0")
          case True
          with take have "take (i + 1) (seg_tokens seg) = [token]" by simp
          with plain show ?thesis by (simp add: text_count_def)
        next
          case False
          with go show ?thesis by (auto simp: should_split_on_word_def)
        qed
        from 1(3) [OF i token_def plain t refl go w] fits 1(6-9) i plain t show ?thesis
          by (simp add: take c_str_append utf8_len_append token_text_c_str)
      qed
    qed
  qed
qed

lemma wrap_loop_total:
  "\<forall>t \<in> set (seg_tokens seg). \<not> tok_id t \<ge> token_eot voc \<longrightarrow> whisper_token_to_str voc (tok_id t) \<noteq> None \<Longrightarrow>
    \<exists>parts. wrap_loop voc mlen sow seg i acc tx = Some parts"
proof (induction voc mlen sow seg i acc tx rule: wrap_loop.induct)
  case (1 voc mlen sow seg i acc tx)
  show ?case
  proof (cases "i < length (seg_tokens seg)")
    case i: True
    define token where "token = seg_tokens seg ! i"
    show ?thesis
    proof (cases "tok_id token \<ge> token_eot voc")
      case True
      with 1(1) [OF i token_def True] 1(4) i show ?thesis
        by (simp add: wrap_loop.simps [of voc mlen sow seg i] token_def Let_def)
    next
      case plain: False
      from 1(4) i plain obtain t where t: "whisper_token_to_str voc (tok_id token) = Some t"
        by (auto simp: token_def)
      have "\<forall>t \<in> set (seg_tokens (opened_part seg (tok_t0 token) i)).
          \<not> tok_id t \<ge> token_eot voc \<longrightarrow> whisper_token_to_str voc (tok_id t) \<noteq> None"
        using 1(4) by (auto simp: opened_part_def dest: in_set_dropD)
      with 1(2) [OF i token_def plain t refl] 1(3) [OF i token_def plain t refl] 1(4) i plain t show ?thesis
        by (auto simp: wrap_loop.simps [of voc mlen sow seg i] token_def Let_def)
    qed
  qed (simp add: wrap_loop.simps [of voc mlen sow seg i])
qed

lemma wrap_segment_pieces:
  assumes "0 \<le> mlen"
    and "\<forall>t \<in> set (seg_tokens (last result_all)).
           \<not> tok_id t \<ge> token_eot voc \<longrightarrow> whisper_token_to_str voc (tok_id t) \<noteq> None"
  obtains parts where
    "whisper_wrap_segment voc mlen sow result_all = Some (butlast result_all @ parts, int (length parts))"
    "concat (map seg_tokens parts) = seg_tokens (last result_all)"
    "chained (seg_t0 (last result_all)) (seg_t1 (last result_all)) (seg_speaker_turn_next (last result_all)) parts"
    "\<forall>s \<in> set parts. part_ok voc mlen sow s"
    "concat (map seg_text parts) = tokens_text voc (seg_tokens (last result_all))"
proof -
  from wrap_loop_total [OF assms(2)] obtain parts where
    w: "wrap_loop voc mlen sow (last result_all) 0 0 [] = Some parts" by blast
  from wrap_loop_pieces [OF w] assms(1)
  have p: "concat (map seg_tokens parts) = seg_tokens (last result_all)"
    "chained (seg_t0 (last result_all)) (seg_t1 (last result_all)) (seg_speaker_turn_next (last result_all)) parts"
    "\<forall>s \<in> set parts. part_ok voc mlen sow s"
    by (simp_all add: utf8_len_def c_str_def)
  have cat: "concat (map seg_text ps) = tokens_text voc (concat (map seg_tokens ps))"
    if "\<forall>s \<in> set ps. seg_text s = tokens_text voc (seg_tokens s)" for ps
    using that by (induction ps) auto
  have "\<forall>s \<in> set parts. seg_text s = tokens_text voc (seg_tokens s)"
    using p(3) by (simp add: part_ok_def)
  from cat [OF this] p(1) have "concat (map seg_text parts) = tokens_text voc (seg_tokens (last result_all))"
    by simp
  with p w show thesis by (intro that [of parts]) (simp_all add: whisper_wrap_segment_def)
qed

text \<open>C39: Wrapping a segment never fails on tokens of the vocabulary and loses nothing: the pieces hold the
  tokens of the segment in order, their texts concatenate to the text of its non-special tokens, they
  cover its time span without a gap or an overlap, only the last keeps the speaker turn, and without
  \<open>split_on_word\<close> every piece has at most \<open>max_len\<close> characters or a single text token.\<close>

theorem wrap_segment_partition:
  assumes "0 \<le> mlen"
    and "\<forall>t \<in> set (seg_tokens (last result_all)).
           \<not> tok_id t \<ge> token_eot voc \<longrightarrow> whisper_token_to_str voc (tok_id t) \<noteq> None"
  shows "\<exists>parts. whisper_wrap_segment voc mlen sow result_all = Some (butlast result_all @ parts, int (length parts)) \<and>
    concat (map seg_tokens parts) = seg_tokens (last result_all) \<and>
    concat (map seg_text parts) = tokens_text voc (seg_tokens (last result_all)) \<and>
    chained (seg_t0 (last result_all)) (seg_t1 (last result_all)) (seg_speaker_turn_next (last result_all)) parts \<and>
    (sow \<or> (\<forall>s \<in> set parts. utf8_len (seg_text s) \<le> mlen \<or> text_count voc (seg_tokens s) = 1))"
proof -
  from wrap_segment_pieces [OF assms, of sow] obtain parts where
    w: "whisper_wrap_segment voc mlen sow result_all = Some (butlast result_all @ parts, int (length parts))"
    and p: "concat (map seg_tokens parts) = seg_tokens (last result_all)"
      "chained (seg_t0 (last result_all)) (seg_t1 (last result_all)) (seg_speaker_turn_next (last result_all)) parts"
      "\<forall>s \<in> set parts. part_ok voc mlen sow s"
      "concat (map seg_text parts) = tokens_text voc (seg_tokens (last result_all))" by blast
  from p(3) have "sow \<or> (\<forall>s \<in> set parts. utf8_len (seg_text s) \<le> mlen \<or> text_count voc (seg_tokens s) = 1)"
    by (auto simp: part_ok_def)
  with w p show ?thesis by (intro exI [of _ parts]) simp
qed

section \<open>Examples\<close>

definition sample_vocab :: whisper_vocab where
  "sample_vocab = default_vocab\<lparr>id_to_token :=
     [1 \<mapsto> bytes '' one'', 2 \<mapsto> bytes '' two'', 3 \<mapsto> bytes '' three'', 50364 \<mapsto> bytes ''[_TT_1]'']\<rparr>"

definition tok :: "int \<Rightarrow> int \<Rightarrow> whisper_token_data" where
  "tok i t = \<lparr>tok_id = i, tok_tid = i, tok_p = 1, tok_plog = 0, tok_pt = 0, tok_ptsum = 0,
              tok_t0 = t, tok_t1 = -1, tok_t_dtw = -1, tok_vlen = 0\<rparr>"

definition sample_segment :: whisper_segment where
  "sample_segment = \<lparr>seg_t0 = 0, seg_t1 = 90, seg_text = [], seg_no_speech_prob = 1 / 4,
     seg_tokens = [tok 1 0, tok 2 30, tok 3 60, tok 50364 90], seg_speaker_turn_next = True\<rparr>"

theorem wrap_segment_partition_witness:
  "\<exists>parts. whisper_wrap_segment sample_vocab 8 False [sample_segment] = Some (parts, int (length parts)) \<and>
    concat (map seg_tokens parts) = seg_tokens sample_segment"
proof -
  have "list_all (\<lambda>t. \<not> tok_id t \<ge> token_eot sample_vocab \<longrightarrow> whisper_token_to_str sample_vocab (tok_id t) \<noteq> None)
      (seg_tokens sample_segment)" by code_simp
  then have "\<forall>t \<in> set (seg_tokens (last [sample_segment])).
      \<not> tok_id t \<ge> token_eot sample_vocab \<longrightarrow> whisper_token_to_str sample_vocab (tok_id t) \<noteq> None"
    by (simp add: list_all_iff)
  from wrap_segment_partition [OF _ this, of 8 False] show ?thesis by auto
qed

text \<open>The pieces after the first lose \<open>no_speech_prob\<close>: a new element is value-initialised and only
  its times, tokens and speaker turn are assigned.\<close>

theorem wrap_segment_loses_no_speech_prob:
  "map_option (map seg_no_speech_prob \<circ> fst) (whisper_wrap_segment sample_vocab 8 False [sample_segment])
     = Some [1 / 4, 0]"
  by code_simp

end
