(* ===== verification/Token_Timestamps.thy ===== *)
theory Token_Timestamps
  imports Wrap_Segment
begin

text \<open>
  \<open>whisper_exp_compute_token_level_timestamps\<close>: the start and end of every token of a segment from
  its timestamp probabilities, its voice lengths, and the energy of the signal.

  The phases of the source are separate functions over the token list: anchoring at reliable
  timestamps, filling the gaps, fixing up overlaps, and fitting to the energy.  The indices into the
  energy array are those of the source; \<open>None\<close> is an exception of \<open>at\<close> or a division of a gap by
  voice lengths that sum to 0, whose result has no integer value.
\<close>

section \<open>Helpers\<close>

definition char_cost :: "u8 \<Rightarrow> real" where
  "char_cost c =
    (if c = 32 then 1 / 100 else if c = 44 then 2 else if c = 46 then 3 else if c = 33 then 3
     else if c = 63 then 3 else if 48 \<le> c \<and> c \<le> 57 then 3 else 1)"

definition voice_length :: "bytestring \<Rightarrow> real" where
  "voice_length s = foldl (\<lambda>res c. res + char_cost c) 0 s"

text \<open>The energy is the mean of the absolute signal in a window of \<open>2 * hw + 1\<close> samples.\<close>

definition energy_at :: "real list \<Rightarrow> int \<Rightarrow> int \<Rightarrow> real" where
  "energy_at signal hw i =
    foldl (\<lambda>sm j. if 0 \<le> i + j \<and> i + j < int (length signal) then sm + \<bar>signal ! nat (i + j)\<bar> else sm)
      0 [- hw..hw] / of_int (2 * hw + 1)"

definition get_signal_energy :: "real list \<Rightarrow> int \<Rightarrow> real list" where
  "get_signal_energy signal hw = map (\<lambda>i. energy_at signal hw (int i)) [0..<length signal]"

definition timestamp_to_sample :: "int \<Rightarrow> int \<Rightarrow> int \<Rightarrow> int" where
  "timestamp_to_sample t segment_t0 n_samples =
    (let relative_t = t - segment_t0; sample = cdiv (relative_t * WHISPER_SAMPLE_RATE) 100
     in max 0 (min (n_samples - 1) sample))"

definition sample_to_timestamp :: "int \<Rightarrow> int \<Rightarrow> int" where
  "sample_to_timestamp i_sample segment_t0 = cdiv (100 * i_sample) WHISPER_SAMPLE_RATE + segment_t0"

definition c_trunc :: "real \<Rightarrow> int" where
  "c_trunc x = (if x < 0 then - \<lfloor>- x\<rfloor> else \<lfloor>x\<rfloor>)"

section \<open>Anchoring\<close>

record ts_state =
  ts_tokens :: "whisper_token_data list"
  t_beg :: int
  t_last :: int
  tid_last :: int

definition upd_tok :: "nat \<Rightarrow> (whisper_token_data \<Rightarrow> whisper_token_data) \<Rightarrow> whisper_token_data list \<Rightarrow> whisper_token_data list" where
  "upd_tok j f ts = ts[j := f (ts ! j)]"

definition set_t0 :: "nat \<Rightarrow> int \<Rightarrow> whisper_token_data list \<Rightarrow> whisper_token_data list" where
  "set_t0 j t = upd_tok j (\<lambda>x. x\<lparr>tok_t0 := t\<rparr>)"

definition set_t1 :: "nat \<Rightarrow> int \<Rightarrow> whisper_token_data list \<Rightarrow> whisper_token_data list" where
  "set_t1 j t = upd_tok j (\<lambda>x. x\<lparr>tok_t1 := t\<rparr>)"

definition set_vlen :: "nat \<Rightarrow> real \<Rightarrow> whisper_token_data list \<Rightarrow> whisper_token_data list" where
  "set_vlen j v = upd_tok j (\<lambda>x. x\<lparr>tok_vlen := v\<rparr>)"

definition anchor_first :: "whisper_vocab \<Rightarrow> int \<Rightarrow> ts_state \<Rightarrow> ts_state" where
  "anchor_first voc t0 s =
    (if tok_id (ts_tokens s ! 0) = token_beg voc
     then s\<lparr>ts_tokens := set_t0 1 t0 (set_t1 0 t0 (set_t0 0 t0 (ts_tokens s))),
            t_beg := t0, t_last := t0, tid_last := token_beg voc\<rparr>
     else s\<lparr>ts_tokens := set_t0 0 (t_last s) (ts_tokens s)\<rparr>)"

definition anchor_step ::
  "whisper_vocab \<Rightarrow> real \<Rightarrow> real \<Rightarrow> int \<Rightarrow> int \<Rightarrow> nat \<Rightarrow> ts_state \<Rightarrow> ts_state option" where
  "anchor_step voc th_pt th_ptsum t0 t1 j s0 =
    (let s = (if j = 0 then anchor_first voc t0 s0 else s0);
         token = ts_tokens s ! j;
         tt = t_beg s + 2 * (tok_tid token - token_beg voc)
     in case whisper_token_to_str voc (tok_id token) of
          None \<Rightarrow> None
        | Some str \<Rightarrow>
            (let ts = set_vlen j (voice_length str) (ts_tokens s) in
             if tok_pt token > th_pt \<and> tok_ptsum token > th_ptsum \<and> tok_tid token > tid_last s \<and> tt \<le> t1
             then (let ts' = (if j > 0 then set_t1 (j - 1) tt ts else ts)
                   in Some (s\<lparr>ts_tokens := set_t0 j tt ts', tid_last := tok_tid token\<rparr>))
             else Some (s\<lparr>ts_tokens := ts\<rparr>)))"

fun anchor_loop ::
  "whisper_vocab \<Rightarrow> real \<Rightarrow> real \<Rightarrow> int \<Rightarrow> int \<Rightarrow> nat list \<Rightarrow> ts_state \<Rightarrow> ts_state option" where
  "anchor_loop voc a b t0 t1 [] s = Some s"
| "anchor_loop voc a b t0 t1 (j # js) s =
    (case anchor_step voc a b t0 t1 j s of None \<Rightarrow> None | Some s' \<Rightarrow> anchor_loop voc a b t0 t1 js s')"

definition anchor_end :: "nat \<Rightarrow> int \<Rightarrow> ts_state \<Rightarrow> ts_state" where
  "anchor_end n t1 s =
    s\<lparr>ts_tokens := set_t1 (n - 1) t1 (set_t0 (n - 1) t1 (set_t1 (n - 2) t1 (ts_tokens s))), t_last := t1\<rparr>"

section \<open>Filling the gaps\<close>

text \<open>The first index from \<open>p1\<close> on with a known end, or the last index.\<close>

function next_known :: "whisper_token_data list \<Rightarrow> nat \<Rightarrow> nat" where
  "next_known ts p1 =
    (if p1 < length ts \<and> tok_t1 (ts ! p1) < 0 then next_known ts (p1 + 1)
     else if p1 \<ge> length ts then p1 - 1 else p1)"
  by pat_completeness auto
termination by (relation "measure (\<lambda>(ts, p1). length ts - p1)") auto

declare next_known.simps [simp del]

text \<open>The interval \<open>p0..p1\<close> is split in proportion to the voice lengths.\<close>

fun split_times :: "real \<Rightarrow> real \<Rightarrow> nat list \<Rightarrow> whisper_token_data list \<Rightarrow> whisper_token_data list" where
  "split_times dt psum [] ts = ts"
| "split_times dt psum (j # js) ts =
    (let ct = of_int (tok_t0 (ts ! (j - 1))) + dt * tok_vlen (ts ! (j - 1)) / psum
     in split_times dt psum js (set_t0 j (c_trunc ct) (set_t1 (j - 1) (c_trunc ct) ts)))"

definition fill_interval :: "nat \<Rightarrow> nat \<Rightarrow> whisper_token_data list \<Rightarrow> whisper_token_data list option" where
  "fill_interval p0 p1 ts =
    (if p1 > p0 then
       (let psum = foldl (\<lambda>a j. a + tok_vlen (ts ! j)) 0 [p0..<Suc p1];
            dt = of_int (tok_t1 (ts ! p1) - tok_t0 (ts ! p0))
        in if psum = 0 then None else Some (split_times dt psum [p0 + 1..<Suc p1] ts))
     else Some ts)"

lemma length_upd_tok [simp]: "length (upd_tok j f ts) = length ts"
  "length (set_t0 j t ts) = length ts" "length (set_t1 j t ts) = length ts" "length (set_vlen j v ts) = length ts"
  by (simp_all add: upd_tok_def set_t0_def set_t1_def set_vlen_def)

lemma length_split_times [simp]: "length (split_times dt psum js ts) = length ts"
  by (induction dt psum js ts rule: split_times.induct) (auto simp: Let_def)

lemma length_fill_interval: "fill_interval p0 p1 ts = Some ts' \<Longrightarrow> length ts' = length ts"
  by (auto simp: fill_interval_def Let_def split: if_splits)

lemma next_known_ge: "p1 < length ts \<Longrightarrow> p1 \<le> next_known ts p1 \<and> next_known ts p1 < length ts"
proof (induction ts p1 rule: next_known.induct)
  case (1 ts p1)
  show ?case
  proof (cases "tok_t1 (ts ! p1) < 0 \<and> p1 + 1 < length ts")
    case True
    with 1 show ?thesis by (subst (1 2) next_known.simps) auto
  next
    case False
    with 1(2) show ?thesis
      by (subst (1 2) next_known.simps) (auto simp: next_known.simps [of ts "Suc p1"])
  qed
qed

function fill_loop :: "nat \<Rightarrow> whisper_token_data list \<Rightarrow> whisper_token_data list option" where
  "fill_loop p0 ts =
    (if p0 < length ts then
       (case fill_interval p0 (next_known ts p0) ts of
          None \<Rightarrow> None
        | Some ts' \<Rightarrow> fill_loop (next_known ts p0 + 1) ts')
     else Some ts)"
  by pat_completeness auto
termination
proof (relation "measure (\<lambda>(p0, ts). length ts - p0)", simp, goal_cases)
  case (1 p0 ts ts')
  with next_known_ge [of p0 ts] length_fill_interval [of p0 _ ts ts'] show ?case by auto
qed

declare fill_loop.simps [simp del]

section \<open>Fixing up\<close>

definition fix_step :: "nat \<Rightarrow> whisper_token_data list \<Rightarrow> whisper_token_data list" where
  "fix_step j ts =
    (let ts1 = (if tok_t1 (ts ! j) < 0 then set_t0 (j + 1) (tok_t1 (ts ! j)) ts else ts) in
     if j > 0 \<and> tok_t1 (ts1 ! (j - 1)) > tok_t0 (ts1 ! j)
     then (let ts2 = set_t0 j (tok_t1 (ts1 ! (j - 1))) ts1
           in set_t1 j (max (tok_t0 (ts2 ! j)) (tok_t1 (ts2 ! j))) ts2)
     else ts1)"

definition fix_up :: "whisper_token_data list \<Rightarrow> whisper_token_data list" where
  "fix_up ts = foldl (\<lambda>ts j. fix_step j ts) ts [0..<length ts - 1]"

section \<open>Fitting to the energy\<close>

text \<open>A threshold over an empty window is not a number (\<open>None\<close>): no comparison with it holds.\<close>

definition above :: "real list \<Rightarrow> real option \<Rightarrow> int \<Rightarrow> bool" where
  "above e thold k = (case thold of None \<Rightarrow> False | Some th \<Rightarrow> e ! nat k > th)"

definition below :: "real list \<Rightarrow> real option \<Rightarrow> int \<Rightarrow> bool" where
  "below e thold k = (case thold of None \<Rightarrow> False | Some th \<Rightarrow> e ! nat k < th)"

function down_above :: "real list \<Rightarrow> real option \<Rightarrow> int \<Rightarrow> int" where
  "down_above e th k = (if k > 0 \<and> above e th k then down_above e th (k - 1) else k)"
  by pat_completeness auto
termination by (relation "measure (\<lambda>(e, th, k). nat k)") auto

function up_below :: "real list \<Rightarrow> real option \<Rightarrow> int \<Rightarrow> int \<Rightarrow> int" where
  "up_below e th s1 k = (if below e th k \<and> k < s1 then up_below e th s1 (k + 1) else k)"
  by pat_completeness auto
termination by (relation "measure (\<lambda>(e, th, s1, k). nat (s1 - k))") auto

function up_above :: "real list \<Rightarrow> real option \<Rightarrow> int \<Rightarrow> int" where
  "up_above e th k = (if k < int (length e) - 1 \<and> above e th k then up_above e th (k + 1) else k)"
  by pat_completeness auto
termination by (relation "measure (\<lambda>(e, th, k). nat (int (length e) - k))") auto

function down_below :: "real list \<Rightarrow> real option \<Rightarrow> int \<Rightarrow> int \<Rightarrow> int" where
  "down_below e th s0 k = (if below e th k \<and> k > s0 then down_below e th s0 (k - 1) else k)"
  by pat_completeness auto
termination by (relation "measure (\<lambda>(e, th, s0, k). nat (k - s0))") auto

declare down_above.simps [simp del] up_below.simps [simp del] up_above.simps [simp del] down_below.simps [simp del]

definition window_thold :: "real list \<Rightarrow> int \<Rightarrow> int \<Rightarrow> real option" where
  "window_thold e s0 s1 =
    (let hw = cdiv WHISPER_SAMPLE_RATE 8;
         ss0 = max (s0 - hw) 0; ss1 = min (s1 + hw) (int (length e)); ns = ss1 - ss0;
         sm = foldl (\<lambda>a k. a + e ! nat k) 0 [ss0..ss1 - 1]
     in if ns = 0 then None else Some (1 / 2 * sm / of_int ns))"

definition fit_start ::
  "real list \<Rightarrow> real option \<Rightarrow> int \<Rightarrow> nat \<Rightarrow> int \<Rightarrow> int \<Rightarrow> whisper_token_data list \<Rightarrow> whisper_token_data list \<times> int" where
  "fit_start e th t0 j s0 s1 ts =
    (if above e th s0 \<and> j > 0 then
       (let k = down_above e th s0; t = sample_to_timestamp k t0 in
        if t < tok_t1 (ts ! (j - 1)) then (set_t0 j (tok_t1 (ts ! (j - 1))) ts, s0) else (set_t0 j t ts, k))
     else
       (let k = up_below e th s1 s0 in (set_t0 j (sample_to_timestamp k t0) ts, k)))"

definition fit_end ::
  "real list \<Rightarrow> real option \<Rightarrow> int \<Rightarrow> nat \<Rightarrow> int \<Rightarrow> int \<Rightarrow> whisper_token_data list \<Rightarrow> whisper_token_data list" where
  "fit_end e th t0 j s0 s1 ts =
    (if above e th s1 then
       (let k = up_above e th s1; t = sample_to_timestamp k t0 in
        if j + 1 < length ts \<and> t > tok_t0 (ts ! (j + 1)) then set_t1 j (tok_t0 (ts ! (j + 1))) ts
        else set_t1 j t ts)
     else set_t1 j (sample_to_timestamp (down_below e th s0 s1) t0) ts)"

definition fit_step :: "whisper_vocab \<Rightarrow> real list \<Rightarrow> int \<Rightarrow> nat \<Rightarrow> whisper_token_data list \<Rightarrow> whisper_token_data list" where
  "fit_step voc e t0 j ts =
    (if tok_id (ts ! j) \<ge> token_eot voc then ts
     else
       (let s0 = timestamp_to_sample (tok_t0 (ts ! j)) t0 (int (length e));
            s1 = timestamp_to_sample (tok_t1 (ts ! j)) t0 (int (length e));
            th = window_thold e s0 s1;
            (ts', s0') = fit_start e th t0 j s0 s1 ts
        in fit_end e th t0 j s0' s1 ts'))"

section \<open>The whole computation\<close>

record ts_globals =
  g_t_beg :: int
  g_t_last :: int
  g_tid_last :: int

definition whisper_exp_compute_token_level_timestamps ::
  "whisper_vocab \<Rightarrow> real list \<Rightarrow> real \<Rightarrow> real \<Rightarrow> ts_globals \<Rightarrow> whisper_segment \<Rightarrow> (whisper_segment \<times> ts_globals) option"
where
  "whisper_exp_compute_token_level_timestamps voc e th_pt th_ptsum g seg =
    (let ts = seg_tokens seg; t0 = seg_t0 seg; t1 = seg_t1 seg; n = length ts in
     if e = [] then Some (seg, g)
     else if n = 0 then Some (seg, g)
     else if n = 1 then Some (seg\<lparr>seg_tokens := set_t1 0 t1 (set_t0 0 t0 ts)\<rparr>, g)
     else
       (case anchor_loop voc th_pt th_ptsum t0 t1 [0..<n]
               \<lparr>ts_tokens = ts, t_beg = g_t_beg g, t_last = g_t_last g, tid_last = g_tid_last g\<rparr> of
          None \<Rightarrow> None
        | Some s \<Rightarrow>
            (let s' = anchor_end n t1 s in
             case fill_loop 0 (ts_tokens s') of
               None \<Rightarrow> None
             | Some filled \<Rightarrow>
                 (let ts' = foldl (\<lambda>ts j. fit_step voc e t0 j ts) (fix_up filled) [0..<n]
                  in Some (seg\<lparr>seg_tokens := ts'\<rparr>,
                           \<lparr>g_t_beg = t_beg s', g_t_last = t_last s', g_tid_last = tid_last s'\<rparr>)))))"

section \<open>Only the times change\<close>

text \<open>Two token lists that differ at most in times and voice lengths.\<close>

definition core :: "whisper_token_data \<Rightarrow> int \<times> int \<times> real \<times> real \<times> real \<times> real \<times> int" where
  "core t = (tok_id t, tok_tid t, tok_p t, tok_plog t, tok_pt t, tok_ptsum t, tok_t_dtw t)"

lemma core_sel: "core a = core b \<Longrightarrow> tok_id a = tok_id b \<and> tok_tid a = tok_tid b"
  by (simp add: core_def)

lemma map_core_upd: "(\<And>x. core (f x) = core x) \<Longrightarrow> map core (upd_tok j f ts) = map core ts"
  by (cases "j < length ts") (simp_all add: upd_tok_def map_update list_update_same_conv list_update_beyond)

lemma map_core_set [simp]:
  "map core (set_t0 j t ts) = map core ts" "map core (set_t1 j t ts) = map core ts"
  "map core (set_vlen j v ts) = map core ts"
  unfolding set_t0_def set_t1_def set_vlen_def by (rule map_core_upd, simp add: core_def)+

lemma map_vlen_upd: "(\<And>x. tok_vlen (f x) = tok_vlen x) \<Longrightarrow> map tok_vlen (upd_tok j f ts) = map tok_vlen ts"
  by (cases "j < length ts") (simp_all add: upd_tok_def map_update list_update_same_conv list_update_beyond)

lemma map_vlen_set [simp]:
  "map tok_vlen (set_t0 j t ts) = map tok_vlen ts" "map tok_vlen (set_t1 j t ts) = map tok_vlen ts"
  unfolding set_t0_def set_t1_def by (rule map_vlen_upd, simp)+

lemma split_times_keeps:
  "map core (split_times dt psum js ts) = map core ts \<and> map tok_vlen (split_times dt psum js ts) = map tok_vlen ts"
  by (induction dt psum js ts rule: split_times.induct) (auto simp: Let_def)

lemma fill_interval_keeps:
  "fill_interval p0 p1 ts = Some ts' \<Longrightarrow> map core ts' = map core ts \<and> map tok_vlen ts' = map tok_vlen ts"
  by (auto simp: fill_interval_def Let_def split_times_keeps split: if_splits)

lemma fill_loop_keeps: "fill_loop p0 ts = Some ts' \<Longrightarrow> map core ts' = map core ts"
proof (induction p0 ts rule: fill_loop.induct)
  case (1 p0 ts)
  show ?case
  proof (cases "p0 < length ts")
    case True
    with 1(2) obtain ts1 where f: "fill_interval p0 (next_known ts p0) ts = Some ts1"
      and r: "fill_loop (next_known ts p0 + 1) ts1 = Some ts'"
      by (auto simp: fill_loop.simps [of p0 ts] split: option.splits)
    from 1(1) [OF True f r] fill_interval_keeps [OF f] show ?thesis by simp
  qed (use 1(2) in \<open>simp add: fill_loop.simps [of p0 ts]\<close>)
qed

lemma foldl_keeps:
  "(\<And>ts j. map core (f ts j) = map core ts) \<Longrightarrow> map core (foldl f ts js) = map core ts"
  by (induction js arbitrary: ts) auto

lemma fix_step_keeps [simp]: "map core (fix_step j ts) = map core ts"
  by (simp add: fix_step_def Let_def)

lemma fix_up_keeps [simp]: "map core (fix_up ts) = map core ts"
  unfolding fix_up_def by (rule foldl_keeps) simp

lemma fit_start_keeps: "map core (fst (fit_start e th t0 j s0 s1 ts)) = map core ts"
  by (simp add: fit_start_def Let_def)

lemma fit_end_keeps: "map core (fit_end e th t0 j s0 s1 ts) = map core ts"
  by (simp add: fit_end_def Let_def)

lemma fit_step_keeps [simp]: "map core (fit_step voc e t0 j ts) = map core ts"
  using fit_start_keeps by (simp add: fit_step_def Let_def fit_end_keeps split: prod.splits) (metis fst_conv)

lemma anchor_step_keeps:
  "anchor_step voc a b t0 t1 j s = Some s' \<Longrightarrow> map core (ts_tokens s') = map core (ts_tokens s)"
  by (auto simp: anchor_step_def anchor_first_def Let_def split: option.splits if_splits)

lemma anchor_loop_keeps:
  "anchor_loop voc a b t0 t1 js s = Some s' \<Longrightarrow> map core (ts_tokens s') = map core (ts_tokens s)"
  by (induction voc a b t0 t1 js s rule: anchor_loop.induct) (auto split: option.splits dest: anchor_step_keeps)

lemma anchor_end_keeps [simp]: "map core (ts_tokens (anchor_end n t1 s)) = map core (ts_tokens s)"
  by (simp add: anchor_end_def)

lemma token_timestamps_keep_tokens:
  "whisper_exp_compute_token_level_timestamps voc e a b g seg = Some (seg', g') \<Longrightarrow>
    seg' = seg\<lparr>seg_tokens := seg_tokens seg'\<rparr> \<and> map core (seg_tokens seg') = map core (seg_tokens seg)"
  unfolding whisper_exp_compute_token_level_timestamps_def Let_def
  by (auto split: if_splits option.splits dest!: fill_loop_keeps anchor_loop_keeps simp: foldl_keeps)

section \<open>The computation returns\<close>

text \<open>Every token has a text in the vocabulary, and it is not empty.\<close>

definition texts_known :: "whisper_vocab \<Rightarrow> whisper_token_data list \<Rightarrow> bool" where
  "texts_known voc ts \<longleftrightarrow> (\<forall>t \<in> set ts. \<exists>s. whisper_token_to_str voc (tok_id t) = Some s \<and> s \<noteq> [])"

lemma texts_known_map:
  "texts_known voc ts \<longleftrightarrow> list_all (\<lambda>i. \<exists>s. whisper_token_to_str voc i = Some s \<and> s \<noteq> []) (map fst (map core ts))"
  by (simp add: texts_known_def list_all_iff core_def)

lemma texts_known_core: "map core ts = map core ts' \<Longrightarrow> texts_known voc ts = texts_known voc ts'"
  by (simp only: texts_known_map)

lemma texts_knownD:
  "texts_known voc ts \<Longrightarrow> j < length ts \<Longrightarrow> \<exists>s. whisper_token_to_str voc (tok_id (ts ! j)) = Some s \<and> s \<noteq> []"
  by (simp add: texts_known_def)

lemma voice_length_pos: "s \<noteq> [] \<Longrightarrow> 0 < voice_length s"
proof -
  have cost: "0 < char_cost c" for c by (simp add: char_cost_def)
  have "a \<le> foldl (\<lambda>res c. res + char_cost c) a s" for a s
  proof (induction s arbitrary: a)
    case (Cons c s)
    from cost [of c] have "a \<le> a + char_cost c" by simp
    also note Cons.IH [of "a + char_cost c"]
    finally show ?case by simp
  qed simp
  moreover assume "s \<noteq> []"
  then obtain c r where "s = c # r" by (cases s) auto
  ultimately show ?thesis
    using cost [of c] by (auto simp: voice_length_def intro: less_le_trans)
qed

lemma anchor_step_vlen:
  assumes "anchor_step voc a b t0 t1 j s = Some s'"
  obtains str where "whisper_token_to_str voc (tok_id (ts_tokens (if j = 0 then anchor_first voc t0 s else s) ! j)) = Some str"
    and "map tok_vlen (ts_tokens s') = (map tok_vlen (ts_tokens s))[j := voice_length str]"
proof -
  define s1 where "s1 = (if j = 0 then anchor_first voc t0 s else s)"
  have v: "map tok_vlen (ts_tokens s1) = map tok_vlen (ts_tokens s)"
    by (simp add: s1_def anchor_first_def)
  have "map tok_vlen (set_vlen j x ts) = (map tok_vlen ts)[j := x]" for x ts
    by (simp add: set_vlen_def upd_tok_def map_update)
  with assms v that show thesis
    by (auto simp: anchor_step_def Let_def simp flip: s1_def split: option.splits if_splits)
qed

lemma anchor_step_total:
  assumes "texts_known voc (ts_tokens s)" "j < length (ts_tokens s)"
  shows "\<exists>s'. anchor_step voc a b t0 t1 j s = Some s' \<and> length (ts_tokens s') = length (ts_tokens s) \<and>
    map core (ts_tokens s') = map core (ts_tokens s) \<and> 0 < tok_vlen (ts_tokens s' ! j) \<and>
    (\<forall>i < length (ts_tokens s). 0 < tok_vlen (ts_tokens s ! i) \<longrightarrow> 0 < tok_vlen (ts_tokens s' ! i))"
proof -
  define s1 where "s1 = (if j = 0 then anchor_first voc t0 s else s)"
  have c: "map core (ts_tokens s1) = map core (ts_tokens s)" by (simp add: s1_def anchor_first_def)
  then have l: "length (ts_tokens s1) = length (ts_tokens s)" by (metis length_map)
  with assms texts_known_core [OF c, of voc] texts_knownD [of voc "ts_tokens s1" j] obtain str where
    str: "whisper_token_to_str voc (tok_id (ts_tokens s1 ! j)) = Some str" "str \<noteq> []" by auto
  then have "anchor_step voc a b t0 t1 j s \<noteq> None"
    by (simp add: anchor_step_def Let_def flip: s1_def)
  then obtain s' where s': "anchor_step voc a b t0 t1 j s = Some s'" by blast
  from anchor_step_vlen [OF s'] str(1) have v: "map tok_vlen (ts_tokens s') = (map tok_vlen (ts_tokens s))[j := voice_length str]"
    unfolding s1_def by (metis option.inject)
  from anchor_step_keeps [OF s'] have c': "map core (ts_tokens s') = map core (ts_tokens s)" .
  then have l': "length (ts_tokens s') = length (ts_tokens s)" by (metis length_map)
  have vi: "tok_vlen (ts_tokens s' ! i) = (if i = j then voice_length str else tok_vlen (ts_tokens s ! i))"
    if "i < length (ts_tokens s)" for i
    using arg_cong [OF v, of "\<lambda>xs. xs ! i"] that l' by (simp add: nth_list_update)
  with s' c' l' assms(2) voice_length_pos [OF str(2)] show ?thesis by auto
qed

lemma anchor_loop_total:
  "texts_known voc (ts_tokens s) \<Longrightarrow> \<forall>j \<in> set js. j < length (ts_tokens s) \<Longrightarrow>
    \<exists>s'. anchor_loop voc a b t0 t1 js s = Some s' \<and> map core (ts_tokens s') = map core (ts_tokens s) \<and>
      (\<forall>i < length (ts_tokens s). i \<in> set js \<or> 0 < tok_vlen (ts_tokens s ! i) \<longrightarrow> 0 < tok_vlen (ts_tokens s' ! i))"
proof (induction js arbitrary: s)
  case (Cons j js)
  then have "j < length (ts_tokens s)" by simp
  from anchor_step_total [OF Cons.prems(1) this, of a b t0 t1]
  obtain s1 where s1: "anchor_step voc a b t0 t1 j s = Some s1" "length (ts_tokens s1) = length (ts_tokens s)"
    "map core (ts_tokens s1) = map core (ts_tokens s)" "0 < tok_vlen (ts_tokens s1 ! j)"
    "\<forall>i < length (ts_tokens s). 0 < tok_vlen (ts_tokens s ! i) \<longrightarrow> 0 < tok_vlen (ts_tokens s1 ! i)"
    by blast
  have "texts_known voc (ts_tokens s1)" using Cons.prems(1) texts_known_core [OF s1(3), of voc] by simp
  moreover have "\<forall>j \<in> set js. j < length (ts_tokens s1)" using Cons.prems(2) s1(2) by simp
  ultimately obtain s' where s': "anchor_loop voc a b t0 t1 js s1 = Some s'"
    "map core (ts_tokens s') = map core (ts_tokens s1)"
    "\<forall>i < length (ts_tokens s1). i \<in> set js \<or> 0 < tok_vlen (ts_tokens s1 ! i) \<longrightarrow> 0 < tok_vlen (ts_tokens s' ! i)"
    using Cons.IH [of s1] by blast
  have "\<forall>i < length (ts_tokens s). i \<in> set (j # js) \<or> 0 < tok_vlen (ts_tokens s ! i) \<longrightarrow> 0 < tok_vlen (ts_tokens s' ! i)"
    using s'(3) s1(2,4,5) by auto
  with s' s1(1,3) show ?case by simp
qed auto

definition voiced :: "whisper_token_data list \<Rightarrow> bool" where
  "voiced ts \<longleftrightarrow> (\<forall>t \<in> set ts. 0 < tok_vlen t)"

lemma voiced_map: "voiced ts \<longleftrightarrow> list_all ((<) 0) (map tok_vlen ts)"
  by (simp add: voiced_def list_all_iff)

lemma voiced_vlen: "map tok_vlen ts = map tok_vlen ts' \<Longrightarrow> voiced ts = voiced ts'"
  by (simp only: voiced_map)

lemma psum_pos:
  assumes "voiced ts" "p0 \<le> p1" "p1 < length ts"
  shows "0 < foldl (\<lambda>a j. a + tok_vlen (ts ! j)) 0 [p0..<Suc p1]"
proof -
  have "0 \<le> a \<Longrightarrow> \<forall>j \<in> set js. 0 < tok_vlen (ts ! j) \<Longrightarrow> js \<noteq> [] \<or> 0 < a \<Longrightarrow> 0 < foldl (\<lambda>a j. a + tok_vlen (ts ! j)) a js"
    for a js
    by (induction js arbitrary: a) (auto simp: add_nonneg_pos)
  moreover have "\<forall>j \<in> set [p0..<Suc p1]. 0 < tok_vlen (ts ! j)"
    using assms by (auto simp: voiced_def)
  ultimately show ?thesis using assms(2) by (simp del: upt_Suc)
qed

lemma fill_loop_total: "voiced ts \<Longrightarrow> \<exists>ts'. fill_loop p0 ts = Some ts'"
proof (induction p0 ts rule: fill_loop.induct)
  case (1 p0 ts)
  show ?case
  proof (cases "p0 < length ts")
    case True
    with next_known_ge [OF True] psum_pos [OF 1(2), of p0 "next_known ts p0"]
    obtain ts1 where f: "fill_interval p0 (next_known ts p0) ts = Some ts1"
      by (fastforce simp: fill_interval_def Let_def)
    moreover have "voiced ts1" using fill_interval_keeps [OF f] voiced_vlen 1(2) by metis
    ultimately show ?thesis using 1(1) [OF True f] True by (simp add: fill_loop.simps [of p0 ts])
  qed (simp add: fill_loop.simps [of p0 ts])
qed

lemma token_timestamps_total:
  assumes "texts_known voc (seg_tokens seg)"
  shows "\<exists>seg' g'. whisper_exp_compute_token_level_timestamps voc e a b g seg = Some (seg', g')"
proof (cases "e = [] \<or> length (seg_tokens seg) = 0 \<or> length (seg_tokens seg) = 1")
  case False
  let ?ts = "seg_tokens seg" and ?n = "length (seg_tokens seg)"
  let ?s = "\<lparr>ts_tokens = ?ts, t_beg = g_t_beg g, t_last = g_t_last g, tid_last = g_tid_last g\<rparr>"
  from assms anchor_loop_total [of voc ?s "[0..<?n]" a b "seg_t0 seg" "seg_t1 seg"] obtain s where
    s: "anchor_loop voc a b (seg_t0 seg) (seg_t1 seg) [0..<?n] ?s = Some s"
    "map core (ts_tokens s) = map core ?ts" "\<forall>i < ?n. 0 < tok_vlen (ts_tokens s ! i)"
    by auto
  then have "length (ts_tokens s) = ?n" by (metis length_map)
  with s(3) have "voiced (ts_tokens s)" by (auto simp: voiced_def in_set_conv_nth)
  then have "voiced (ts_tokens (anchor_end ?n (seg_t1 seg) s))"
    using voiced_vlen [of "ts_tokens (anchor_end ?n (seg_t1 seg) s)" "ts_tokens s"] by (simp add: anchor_end_def)
  from fill_loop_total [OF this, of 0] s(1) False show ?thesis
    by (auto simp: whisper_exp_compute_token_level_timestamps_def Let_def)
qed (auto simp: whisper_exp_compute_token_level_timestamps_def Let_def)

text \<open>Token-level timestamps are always computed when every token has a non-empty text in the
  vocabulary: the gap filling and the searches in the signal end, no length sum is 0, and nothing but
  the start, end and voice length of the tokens changes: ids, probabilities, order and number of the
  tokens and the other fields of the segment stay.\<close>

theorem token_timestamps_return:
  assumes "texts_known voc (seg_tokens seg)"
  shows "\<exists>seg' g'. whisper_exp_compute_token_level_timestamps voc e a b g seg = Some (seg', g') \<and>
    seg' = seg\<lparr>seg_tokens := seg_tokens seg'\<rparr> \<and> map core (seg_tokens seg') = map core (seg_tokens seg)"
  using token_timestamps_total [OF assms, of e a b g] token_timestamps_keep_tokens by blast

theorem token_timestamps_return_witness:
  "whisper_exp_compute_token_level_timestamps sample_vocab [1, 0] 0 0 \<lparr>g_t_beg = 0, g_t_last = 0, g_tid_last = 0\<rparr>
     sample_segment \<noteq> None"
proof -
  have "list_all (\<lambda>t. whisper_token_to_str sample_vocab (tok_id t) \<noteq> None \<and> whisper_token_to_str sample_vocab (tok_id t) \<noteq> Some [])
      (seg_tokens sample_segment)" by code_simp
  then have "texts_known sample_vocab (seg_tokens sample_segment)"
    by (auto simp: texts_known_def list_all_iff)
  from token_timestamps_return [OF this] show ?thesis by fastforce
qed

section \<open>The signal is read inside its bounds\<close>

lemma timestamp_to_sample_range: "0 < n \<Longrightarrow> 0 \<le> timestamp_to_sample t t0 n \<and> timestamp_to_sample t t0 n < n"
  by (simp add: timestamp_to_sample_def Let_def)

lemma down_above_range: "0 \<le> k \<Longrightarrow> 0 \<le> down_above e th k \<and> down_above e th k \<le> k"
proof (induction e th k rule: down_above.induct)
  case (1 e th k)
  show ?case
  proof (cases "k > 0 \<and> above e th k")
    case True
    from 1(1) [OF True] True show ?thesis by (simp add: down_above.simps [of e th k])
  qed (use 1(2) in \<open>auto simp: down_above.simps [of e th k]\<close>)
qed

lemma up_below_range: "k \<le> up_below e th s1 k \<and> up_below e th s1 k \<le> max k s1"
proof (induction e th s1 k rule: up_below.induct)
  case (1 e th s1 k)
  show ?case
  proof (cases "below e th k \<and> k < s1")
    case True
    from 1(1) [OF True] True show ?thesis by (simp add: up_below.simps [of e th s1 k])
  qed (auto simp: up_below.simps [of e th s1 k])
qed

lemma up_above_range: "k < int (length e) \<Longrightarrow> k \<le> up_above e th k \<and> up_above e th k < int (length e)"
proof (induction e th k rule: up_above.induct)
  case (1 e th k)
  show ?case
  proof (cases "k < int (length e) - 1 \<and> above e th k")
    case True
    from 1(1) [OF True] True show ?thesis by (simp add: up_above.simps [of e th k])
  qed (use 1(2) in \<open>auto simp: up_above.simps [of e th k]\<close>)
qed

lemma down_below_range: "min s0 k \<le> down_below e th s0 k \<and> down_below e th s0 k \<le> k"
proof (induction e th s0 k rule: down_below.induct)
  case (1 e th s0 k)
  show ?case
  proof (cases "below e th k \<and> k > s0")
    case True
    from 1(1) [OF True] True show ?thesis by (simp add: down_below.simps [of e th s0 k])
  qed (auto simp: down_below.simps [of e th s0 k])
qed

text \<open>Fitting a token to the signal reads the energy array inside its bounds only: the sample indices
  of its times are valid whatever the times are, and each of the four searches stays between its start
  and a valid index (every index a search reads lies between its start and its result).\<close>

theorem fit_reads_inside_signal:
  fixes e :: "real list" and a b t0 :: int
  assumes "e \<noteq> []"
  defines "s0 \<equiv> timestamp_to_sample a t0 (int (length e))" and "s1 \<equiv> timestamp_to_sample b t0 (int (length e))"
  shows "s0 \<in> {0..<int (length e)} \<and> s1 \<in> {0..<int (length e)} \<and>
    down_above e th s0 \<in> {0..s0} \<and> up_below e th s1 s0 \<in> {s0..<int (length e)} \<and>
    up_above e th s1 \<in> {s1..<int (length e)} \<and>
    (\<forall>k \<in> {0..<int (length e)}. down_below e th k s1 \<in> {0..s1})"
proof -
  have n: "0 < int (length e)" using assms(1) by simp
  have r: "0 \<le> s0 \<and> s0 < int (length e)" "0 \<le> s1 \<and> s1 < int (length e)"
    unfolding s0_def s1_def using timestamp_to_sample_range [OF n] by simp_all
  have "down_below e th k s1 \<in> {0..s1}" if "0 \<le> k" for k
    using down_below_range [of k s1 e th] that r(2) by (simp add: min_def split: if_splits)
  moreover have "up_below e th s1 s0 \<in> {s0..<int (length e)}"
    using up_below_range [of s0 e th s1] r by (simp add: max_def split: if_splits)
  ultimately show ?thesis
    using r down_above_range [of s0 e th] up_above_range [of s1 e th] by simp
qed

theorem fit_reads_inside_signal_witness:
  "down_above [1, 2, 3] (Some 1) (timestamp_to_sample 100 0 (int (length [1, 2, 3 :: real]))) \<in> {0..2}"
proof -
  let ?e = "[1, 2, 3 :: real]"
  have "?e \<noteq> []" by simp
  from fit_reads_inside_signal [OF this, where a = 100 and ?t0.0 = 0 and th = "Some 1" and b = 0] have
    "down_above ?e (Some 1) (timestamp_to_sample 100 0 (int (length ?e))) \<in> {0..timestamp_to_sample 100 0 (int (length ?e))}"
    by (elim conjE)
  moreover have "timestamp_to_sample 100 0 (int (length ?e)) = 2" by code_simp
  ultimately show ?thesis by simp
qed

end
