(* ===== verification/Segment_Output.thy ===== *)
theory Segment_Output
  imports Token_Timestamps
begin

text \<open>
  The output part of \<open>whisper_full_with_state\<close>: the tokens of the best decoder become segments of
  the result.  A segment ends at a timestamp token; the timestamps that follow it are skipped.
  \<open>None\<close> is an exception of \<open>at\<close>.
\<close>

section \<open>Adding a segment\<close>

record out_state =
  result_all :: "whisper_segment list"
  ts_glob :: ts_globals
  notified :: "int list"

text \<open>\<open>notified\<close> collects the arguments of the calls of \<open>new_segment_callback\<close>.  With timestamps by dynamic time
  warping (\<open>dtw\<close>, the context's \<open>dtw_token_timestamps\<close>) it is not called here.\<close>

definition note_new :: "whisper_full_params \<Rightarrow> bool \<Rightarrow> int \<Rightarrow> out_state \<Rightarrow> out_state" where
  "note_new ps dtw n_new s =
    (if new_segment_callback ps \<and> \<not> dtw then s\<lparr>notified := notified s @ [n_new]\<rparr> else s)"

text \<open>The signal energy is an argument.\<close>

definition emit_segment ::
  "whisper_full_params \<Rightarrow> bool \<Rightarrow> whisper_vocab \<Rightarrow> real list \<Rightarrow> whisper_segment \<Rightarrow> out_state \<Rightarrow> out_state option" where
  "emit_segment ps dtw voc e seg s =
    (if token_timestamps ps then
       do { (seg', g) \<leftarrow> whisper_exp_compute_token_level_timestamps voc e (thold_pt ps) (thold_ptsum ps) (ts_glob s) seg;
            (res, n_new) \<leftarrow> (if max_len ps > 0
                              then whisper_wrap_segment voc (max_len ps) (split_on_word ps) (result_all s @ [seg'])
                              else Some (result_all s @ [seg'], 1));
            Some (note_new ps dtw n_new (s\<lparr>result_all := res, ts_glob := g\<rparr>)) }
     else Some (note_new ps dtw 1 (s\<lparr>result_all := result_all s @ [seg]\<rparr>)))"

section \<open>From tokens to segments\<close>

function skip_timestamps :: "whisper_vocab \<Rightarrow> whisper_token_data list \<Rightarrow> nat \<Rightarrow> nat" where
  "skip_timestamps voc toks i =
    (if i < length toks \<and> tok_id (toks ! i) > token_beg voc then skip_timestamps voc toks (i + 1) else i)"
  by pat_completeness auto
termination by (relation "measure (\<lambda>(voc, toks, i). length toks - i)") auto

declare skip_timestamps.simps [simp del]

lemma skip_timestamps_ge: "i \<le> skip_timestamps voc toks i"
proof (induction voc toks i rule: skip_timestamps.induct)
  case (1 voc toks i)
  then show ?case by (subst skip_timestamps.simps) auto
qed

lemma skip_timestamps_less:
  "i < length toks \<Longrightarrow> tok_id (toks ! i) > token_beg voc \<Longrightarrow> i < skip_timestamps voc toks i"
  using skip_timestamps_ge [of "i + 1" voc toks] by (subst skip_timestamps.simps) auto

lemma skip_timestamps_le: "i \<le> length toks \<Longrightarrow> skip_timestamps voc toks i \<le> length toks"
proof (induction voc toks i rule: skip_timestamps.induct)
  case (1 voc toks i)
  then show ?case by (subst skip_timestamps.simps) auto
qed

text \<open>The text a token adds.\<close>

definition printed_text :: "whisper_full_params \<Rightarrow> whisper_vocab \<Rightarrow> whisper_token_data \<Rightarrow> bytestring option" where
  "printed_text ps voc t =
    (if print_special ps \<or> tok_id t < token_eot voc then whisper_token_to_str voc (tok_id t) else Some [])"

text \<open>The variables of the loop are \<open>i0\<close>, \<open>t0\<close>, the text and the speaker turn; it returns them for the
  code that follows the loop.\<close>

function segment_loop ::
  "whisper_full_params \<Rightarrow> bool \<Rightarrow> whisper_vocab \<Rightarrow> real list \<Rightarrow> real \<Rightarrow> int \<Rightarrow> whisper_token_data list \<Rightarrow>
   nat \<Rightarrow> nat \<Rightarrow> int \<Rightarrow> bytestring \<Rightarrow> bool \<Rightarrow> out_state \<Rightarrow> (nat \<times> int \<times> bytestring \<times> bool \<times> out_state) option"
where
  "segment_loop ps dtw voc e nsp seek toks i i0 t0 tx turn s =
    (if i < length toks then
       (case printed_text ps voc (toks ! i) of
          None \<Rightarrow> None
        | Some str \<Rightarrow>
            (if tok_id (toks ! i) > token_beg voc \<and> \<not> single_segment ps then
               (case (if tx @ str \<noteq> []
                      then emit_segment ps dtw voc e
                             \<lparr>seg_t0 = t0, seg_t1 = seek + 2 * (tok_tid (toks ! i) - token_beg voc),
                              seg_text = tx @ str, seg_no_speech_prob = nsp,
                              seg_tokens = drop i0 (take (i + 1) toks),
                              seg_speaker_turn_next = (turn \<or> tdrz_enable ps \<and> tok_id (toks ! i) = token_solm voc)\<rparr> s
                      else Some s) of
                  None \<Rightarrow> None
                | Some s' \<Rightarrow>
                    segment_loop ps dtw voc e nsp seek toks (skip_timestamps voc toks i) (skip_timestamps voc toks i)
                      (seek + 2 * (tok_tid (toks ! i) - token_beg voc)) [] False s')
             else segment_loop ps dtw voc e nsp seek toks (i + 1) i0 t0 (tx @ str)
                    (turn \<or> tdrz_enable ps \<and> tok_id (toks ! i) = token_solm voc) s))
     else Some (i0, t0, tx, turn, s))"
  by pat_completeness auto
termination
  by (relation "measure (\<lambda>(ps, dtw, voc, e, nsp, seek, toks, i, r). length toks - i)")
     (auto dest: skip_timestamps_less intro: diff_less_mono2)

declare segment_loop.simps [simp del]

definition output_segments ::
  "whisper_full_params \<Rightarrow> bool \<Rightarrow> whisper_vocab \<Rightarrow> real list \<Rightarrow> real \<Rightarrow> int \<Rightarrow> int \<Rightarrow> whisper_token_data list \<Rightarrow> out_state \<Rightarrow>
   out_state option" where
  "output_segments ps dtw voc e nsp seek sdelta toks s0 =
    (case segment_loop ps dtw voc e nsp seek toks 0 0 (seek + 2 * (tok_tid (hd toks) - token_beg voc)) [] False s0 of
       None \<Rightarrow> None
     | Some (i0, t0, tx, turn, s) \<Rightarrow>
         if tx \<noteq> [] then
           emit_segment ps dtw voc e
             \<lparr>seg_t0 = t0, seg_t1 = seek + sdelta, seg_text = tx, seg_no_speech_prob = nsp,
              seg_tokens = drop i0 toks, seg_speaker_turn_next = turn\<rparr> s
         else Some s)"

text \<open>The report of a window's new segments with timestamps by dynamic time warping, after the times have been
  computed: the loop starts at the first new segment and ends at their number.  The argument is the number
  of segments before the window.\<close>

definition report_dtw :: "whisper_full_params \<Rightarrow> bool \<Rightarrow> nat \<Rightarrow> out_state \<Rightarrow> out_state" where
  "report_dtw ps dtw n_segments_before s =
    (let n_segments = int (length (result_all s)) - int n_segments_before in
     if dtw \<and> n_segments \<noteq> 0 \<and> new_segment_callback ps
     then s\<lparr>notified := notified s @ [int (length (result_all s)) - n_segments..n_segments - 1]\<rparr> else s)"

section \<open>No text is lost\<close>

text \<open>The segments after a state of the output, and how many of them have been notified, if they are (\<open>r\<close>).\<close>

definition adds :: "bool \<Rightarrow> out_state \<Rightarrow> bytestring \<Rightarrow> out_state \<Rightarrow> bool" where
  "adds r s tx s' \<longleftrightarrow> (\<exists>segs ns. result_all s' = result_all s @ segs \<and> concat (map seg_text segs) = tx \<and>
     notified s' = notified s @ ns \<and> (if r then sum_list ns = int (length segs) else ns = []))"

lemma adds_refl [simp]: "adds r s [] s"
  by (auto simp: adds_def intro!: exI [of _ "[]"])

lemma adds_trans: "adds r s x s1 \<Longrightarrow> adds r s1 y s2 \<Longrightarrow> adds r s (x @ y) s2"
proof -
  assume "adds r s x s1" "adds r s1 y s2"
  then obtain a n b m where *: "result_all s1 = result_all s @ a" "concat (map seg_text a) = x"
    "notified s1 = notified s @ n" "if r then sum_list n = int (length a) else n = []" "result_all s2 = result_all s1 @ b"
    "concat (map seg_text b) = y" "notified s2 = notified s1 @ m" "if r then sum_list m = int (length b) else m = []"
    unfolding adds_def by blast
  then show ?thesis unfolding adds_def by (intro exI [of _ "a @ b"] exI [of _ "n @ m"]) (simp split: if_splits)
qed

text \<open>Whether new segments are reported while they are made.\<close>

definition reports :: "whisper_full_params \<Rightarrow> bool \<Rightarrow> bool" where
  "reports ps dtw \<longleftrightarrow> new_segment_callback ps \<and> \<not> dtw"

lemma adds_note_new:
  assumes "ts_glob s' = g" "result_all s' = result_all s @ segs" "notified s' = notified s" "concat (map seg_text segs) = tx"
    "n = int (length segs)"
  shows "adds (reports ps dtw) s tx (note_new ps dtw n s')"
  using assms by (auto simp: adds_def note_new_def reports_def)

lemma tokens_text_core: "map core ts = map core ts' \<Longrightarrow> tokens_text voc ts = tokens_text voc ts'"
proof (induction ts arbitrary: ts')
  case (Cons t ts)
  then obtain t' r where "ts' = t' # r" "core t = core t'" "map core ts = map core r" by auto
  with Cons.IH [of r] core_sel [of t t'] show ?case by simp
qed simp

lemma emit_segment_adds:
  assumes "texts_known voc (seg_tokens seg)" "seg_text seg = tokens_text voc (seg_tokens seg)"
  shows "\<exists>s'. emit_segment ps dtw voc e seg s = Some s' \<and> adds (reports ps dtw) s (seg_text seg) s'"
proof (cases "token_timestamps ps")
  case False
  then show ?thesis by (auto simp: emit_segment_def intro!: adds_note_new [of _ _ _ "[seg]"])
next
  case tt: True
  from token_timestamps_total [OF assms(1)] obtain seg' g where
    t: "whisper_exp_compute_token_level_timestamps voc e (thold_pt ps) (thold_ptsum ps) (ts_glob s) seg = Some (seg', g)"
    by blast
  note k = token_timestamps_keep_tokens [OF t]
  then have stx: "seg_text seg' = tokens_text voc (seg_tokens seg')"
    using assms(2) tokens_text_core [of "seg_tokens seg'" "seg_tokens seg" voc] by (metis whisper_segment.select_convs(3) whisper_segment.surjective whisper_segment.update_convs(5))
  have same: "seg_text seg' = seg_text seg"
    using k by (metis whisper_segment.select_convs(3) whisper_segment.surjective whisper_segment.update_convs(5))
  show ?thesis
  proof (cases "max_len ps > 0")
    case False
    with tt t same show ?thesis by (auto simp: emit_segment_def intro!: adds_note_new [of _ _ _ "[seg']"])
  next
    case True
    have "texts_known voc (seg_tokens seg')" using assms(1) k texts_known_core by blast
    then have known: "\<forall>t \<in> set (seg_tokens (last (result_all s @ [seg']))).
        \<not> tok_id t \<ge> token_eot voc \<longrightarrow> whisper_token_to_str voc (tok_id t) \<noteq> None"
      by (auto simp: texts_known_def)
    from True have "0 \<le> max_len ps" by simp
    from wrap_segment_pieces [OF this known, of "split_on_word ps"] obtain parts where
      "whisper_wrap_segment voc (max_len ps) (split_on_word ps) (result_all s @ [seg'])
         = Some (result_all s @ parts, int (length parts))"
      "concat (map seg_text parts) = seg_text seg"
      using same stx by auto
    with tt t True show ?thesis by (auto simp: emit_segment_def intro!: adds_note_new [of _ _ _ parts])
  qed
qed

lemma texts_known_sub: "texts_known voc ts \<Longrightarrow> set xs \<subseteq> set ts \<Longrightarrow> texts_known voc xs"
  by (auto simp: texts_known_def)

lemma printed_text_known:
  assumes "texts_known voc toks" "\<not> print_special ps" "i < length toks"
  shows "printed_text ps voc (toks ! i) = Some (tokens_text voc [toks ! i])"
  using texts_knownD [OF assms(1,3)] assms(2) by (auto simp: printed_text_def)

lemma tokens_text_drop:
  "i < length toks \<Longrightarrow> tokens_text voc (drop i toks) = tokens_text voc [toks ! i] @ tokens_text voc (drop (i + 1) toks)"
  by (simp flip: Cons_nth_drop_Suc)

lemma tokens_text_timestamps:
  "token_eot voc \<le> token_beg voc \<Longrightarrow> i \<le> length toks \<Longrightarrow>
    tokens_text voc (drop (skip_timestamps voc toks i) toks) = tokens_text voc (drop i toks)"
proof (induction voc toks i rule: skip_timestamps.induct)
  case (1 voc toks i)
  show ?case
  proof (cases "i < length toks \<and> tok_id (toks ! i) > token_beg voc")
    case True
    with 1 have "tokens_text voc (drop (skip_timestamps voc toks (i + 1)) toks) = tokens_text voc (drop (i + 1) toks)"
      by simp
    moreover from True 1(2) have "tokens_text voc (drop i toks) = tokens_text voc (drop (i + 1) toks)"
      by (simp add: tokens_text_drop)
    ultimately show ?thesis using True by (subst skip_timestamps.simps) simp
  qed (subst skip_timestamps.simps, auto)
qed

lemma segment_loop_complete:
  assumes "texts_known voc toks" "\<not> print_special ps" "token_eot voc \<le> token_beg voc"
  shows "i0 \<le> i \<Longrightarrow> i \<le> length toks \<Longrightarrow> tx = tokens_text voc (drop i0 (take i toks)) \<Longrightarrow>
    \<exists>i0' t0' tx' turn' s' x. segment_loop ps dtw voc e nsp seek toks i i0 t0 tx turn s = Some (i0', t0', tx', turn', s') \<and>
      adds (reports ps dtw) s x s' \<and> x @ tx' = tx @ tokens_text voc (drop i toks) \<and> tx' = tokens_text voc (drop i0' toks)"
  using assms
proof (induction ps dtw voc e nsp seek toks i i0 t0 tx turn s rule: segment_loop.induct)
  case (1 ps dtw voc e nsp seek toks i i0 t0 tx turn s)
  note known = 1(6) and nospecial = 1(7) and order = 1(8)
  show ?case
  proof (cases "i < length toks")
    case False
    with 1(3,4,5) show ?thesis
      by (subst segment_loop.simps) (auto intro!: exI [of _ "[]"])
  next
    case i: True
    let ?t = "toks ! i"
    define str where "str = tokens_text voc [?t]"
    have str: "printed_text ps voc ?t = Some str" unfolding str_def by (rule printed_text_known [OF known nospecial i])
    have drop: "tokens_text voc (drop i toks) = str @ tokens_text voc (drop (i + 1) toks)"
      unfolding str_def by (rule tokens_text_drop [OF i])
    have take: "drop i0 (take (i + 1) toks) = drop i0 (take i toks) @ [?t]"
      using i 1(3) by (simp add: take_Suc_conv_app_nth)
    then have tx': "tx @ str = tokens_text voc (drop i0 (take (i + 1) toks))"
      using 1(5) by (simp add: str_def)
    show ?thesis
    proof (cases "tok_id ?t > token_beg voc \<and> \<not> single_segment ps")
      case False
      have step: "segment_loop ps dtw voc e nsp seek toks i i0 t0 tx turn s =
          segment_loop ps dtw voc e nsp seek toks (i + 1) i0 t0 (tx @ str)
            (turn \<or> tdrz_enable ps \<and> tok_id ?t = token_solm voc) s"
        by (subst segment_loop.simps) (use i str False in auto)
      from 1(2) [OF i str False _ _ tx' known nospecial order] i 1(3) show ?thesis
        unfolding step drop by simp
    next
      case ts: True
      let ?k = "skip_timestamps voc toks i"
      let ?seg = "\<lparr>seg_t0 = t0, seg_t1 = seek + 2 * (tok_tid ?t - token_beg voc), seg_text = tx @ str,
          seg_no_speech_prob = nsp, seg_tokens = drop i0 (take (i + 1) toks),
          seg_speaker_turn_next = (turn \<or> tdrz_enable ps \<and> tok_id ?t = token_solm voc)\<rparr>"
      have "texts_known voc (seg_tokens ?seg)"
        using texts_known_sub [OF known] by (metis set_drop_subset set_take_subset subset_trans whisper_segment.select_convs(5))
      from emit_segment_adds [OF this, of ps dtw e s] tx' obtain s' where
        s': "(if tx @ str \<noteq> [] then emit_segment ps dtw voc e ?seg s else Some s) = Some s'" "adds (reports ps dtw) s (tx @ str) s'"
        by (cases "tx @ str = []") auto
      have step: "segment_loop ps dtw voc e nsp seek toks i i0 t0 tx turn s =
          segment_loop ps dtw voc e nsp seek toks ?k ?k (seek + 2 * (tok_tid ?t - token_beg voc)) [] False s'"
        by (subst segment_loop.simps) (use i str ts s'(1) in simp)
      have k: "?k \<le> length toks" using skip_timestamps_le i by simp
      have kd: "tokens_text voc (drop ?k toks) = tokens_text voc (drop (i + 1) toks)"
      proof -
        have "?k = skip_timestamps voc toks (i + 1)" using i ts by (subst skip_timestamps.simps) simp
        then show ?thesis using tokens_text_timestamps [OF order, of "i + 1" toks] i by simp
      qed
      from 1(1) [OF i str ts s'(1) order.refl k _ known nospecial order] obtain i0' t0' tx'' turn' s'' x where
        r: "segment_loop ps dtw voc e nsp seek toks ?k ?k (seek + 2 * (tok_tid ?t - token_beg voc)) [] False s'
              = Some (i0', t0', tx'', turn', s'')"
        "adds (reports ps dtw) s' x s''" "x @ tx'' = tokens_text voc (drop ?k toks)" "tx'' = tokens_text voc (drop i0' toks)"
        by auto
      show ?thesis
        unfolding step drop using r adds_trans [OF s'(2) r(2)] kd
        by (intro exI [of _ i0'] exI [of _ t0'] exI [of _ tx''] exI [of _ turn'] exI [of _ s''] exI [of _ "(tx @ str) @ x"]) simp
    qed
  qed
qed

lemma output_segments_adds:
  assumes "texts_known voc toks" and "\<not> print_special ps" and "token_eot voc \<le> token_beg voc"
  shows "\<exists>s'. output_segments ps dtw voc e nsp seek sdelta toks s = Some s' \<and> adds (reports ps dtw) s (tokens_text voc toks) s'"
proof -
  from segment_loop_complete [OF assms, where i = 0 and ?i0.0 = 0 and tx = "[]", simplified] obtain i0 t0 tx turn s1 x where
    l: "segment_loop ps dtw voc e nsp seek toks 0 0 (seek + 2 * (tok_tid (hd toks) - token_beg voc)) [] False s
          = Some (i0, t0, tx, turn, s1)"
    and x: "adds (reports ps dtw) s x s1" "x @ tx = tokens_text voc toks" "tx = tokens_text voc (drop i0 toks)"
    by blast
  let ?seg = "\<lparr>seg_t0 = t0, seg_t1 = seek + sdelta, seg_text = tx, seg_no_speech_prob = nsp,
              seg_tokens = drop i0 toks, seg_speaker_turn_next = turn\<rparr>"
  have "texts_known voc (seg_tokens ?seg)" using texts_known_sub [OF assms(1)] by (simp add: set_drop_subset)
  note emit = emit_segment_adds [OF this, of ps dtw e s1]
  obtain s' where "(if tx \<noteq> [] then emit_segment ps dtw voc e ?seg s1 else Some s1) = Some s'" "adds (reports ps dtw) s1 tx s'"
  proof (cases "tx = []")
    case False
    from emit x(3) obtain s' where "emit_segment ps dtw voc e ?seg s1 = Some s'" "adds (reports ps dtw) s1 tx s'" by auto
    with False show ?thesis by (intro that) simp_all
  qed (intro that [of s1]; simp)
  with l have "output_segments ps dtw voc e nsp seek sdelta toks s = Some s'" "adds (reports ps dtw) s (x @ tx) s'"
    using adds_trans [OF x(1)] by (simp_all add: output_segments_def split: if_splits)
  with x(2) show ?thesis by auto
qed

text \<open>C26: Turning the tokens of a window into segments loses and repeats no text, with or without token timestamps
  and wrapping: if every token has a text and special tokens are not printed, the texts of the new segments
  concatenate to the texts of the non-special tokens.  If there is a callback for new segments and timestamps
  by dynamic time warping are off, the counts passed to it add up to the number of new segments; if these
  timestamps are on, it is called with the numbers from that of the segments before the window up to that of
  the new segments, hence not at all when the window adds no more segments than there were.\<close>

theorem output_segments_complete:
  assumes "texts_known voc toks" and "\<not> print_special ps" and "token_eot voc \<le> token_beg voc"
  shows "\<exists>s' segs ns. output_segments ps dtw voc e nsp seek sdelta toks s = Some s' \<and>
    result_all s' = result_all s @ segs \<and> concat (map seg_text segs) = tokens_text voc toks \<and>
    notified (report_dtw ps dtw (length (result_all s)) s') = notified s @ ns \<and>
    (if \<not> new_segment_callback ps then ns = []
     else if dtw then ns = [int (length (result_all s))..int (length segs) - 1]
     else sum_list ns = int (length segs))"
proof -
  from output_segments_adds [OF assms, of dtw e nsp seek sdelta s] obtain s' segs ns where
    s': "output_segments ps dtw voc e nsp seek sdelta toks s = Some s'" "result_all s' = result_all s @ segs"
      "concat (map seg_text segs) = tokens_text voc toks" "notified s' = notified s @ ns"
      "if reports ps dtw then sum_list ns = int (length segs) else ns = []"
    unfolding adds_def by blast
  show ?thesis
  proof (cases "new_segment_callback ps \<and> dtw")
    case True
    with s' show ?thesis
      by (intro exI [of _ s'] exI [of _ segs] exI [of _ "[int (length (result_all s))..int (length segs) - 1]"])
         (auto simp: report_dtw_def reports_def Let_def)
  next
    case False
    with s' show ?thesis
      by (intro exI [of _ s'] exI [of _ segs] exI [of _ ns]) (auto simp: report_dtw_def reports_def Let_def)
  qed
qed

definition sample_tokens :: "whisper_token_data list" where
  "sample_tokens = [tok 50364 (-1), tok 1 (-1), tok 2 (-1), tok 50364 (-1), tok 50364 (-1), tok 3 (-1)]"

definition empty_out :: out_state where
  "empty_out = \<lparr>result_all = [], ts_glob = \<lparr>g_t_beg = 0, g_t_last = 0, g_tid_last = 0\<rparr>, notified = []\<rparr>"

definition reporting_params :: whisper_full_params where
  "reporting_params = (whisper_full_default_params SAMPLING_GREEDY)\<lparr>new_segment_callback := True\<rparr>"

theorem output_segments_complete_witness:
  "\<exists>s'. output_segments reporting_params False sample_vocab [] 0 0 3000 sample_tokens empty_out = Some s' \<and>
    concat (map seg_text (result_all s')) = bytes '' one two three'' \<and>
    sum_list (notified s') = int (length (result_all s'))"
proof -
  have "list_all (\<lambda>t. whisper_token_to_str sample_vocab (tok_id t) \<noteq> None \<and> whisper_token_to_str sample_vocab (tok_id t) \<noteq> Some [])
      sample_tokens" by code_simp
  then have k: "texts_known sample_vocab sample_tokens" by (auto simp: texts_known_def list_all_iff)
  have o: "token_eot sample_vocab \<le> token_beg sample_vocab" by code_simp
  have p: "\<not> print_special reporting_params" "new_segment_callback reporting_params" by code_simp+
  have "tokens_text sample_vocab sample_tokens = bytes '' one two three''" by code_simp
  with output_segments_complete [OF k p(1) o, of False "[]" 0 0 3000 empty_out] p(2) show ?thesis
    by (auto simp: empty_out_def report_dtw_def Let_def)
qed

end
