(* ===== verification/Whisper_Lang.thy ===== *)
theory Whisper_Lang
  imports Whisper_Types
begin

text \<open>
  The languages and the vocabulary of \<open>whisper.cpp\<close>: the table of languages and its lookups, the
  special tokens of a loaded model, and language detection from the logits of the language tokens.
\<close>

section \<open>Languages\<close>

text \<open>The entries of \<open>g_lang\<close> in source order: code, id, name.  The source keeps them in a map sorted
  by code; no lookup depends on the order, since codes, ids and names are unique.\<close>

definition g_lang :: "(string \<times> int \<times> string) list" where
  "g_lang =
   [(''en'', 0, ''english''), (''zh'', 1, ''chinese''), (''de'', 2, ''german''), (''es'', 3, ''spanish''),
     (''ru'', 4, ''russian''), (''ko'', 5, ''korean''), (''fr'', 6, ''french''), (''ja'', 7, ''japanese''),
     (''pt'', 8, ''portuguese''), (''tr'', 9, ''turkish''), (''pl'', 10, ''polish''),
     (''ca'', 11, ''catalan''), (''nl'', 12, ''dutch''), (''ar'', 13, ''arabic''), (''sv'', 14, ''swedish''),
     (''it'', 15, ''italian''), (''id'', 16, ''indonesian''), (''hi'', 17, ''hindi''),
     (''fi'', 18, ''finnish''), (''vi'', 19, ''vietnamese''), (''he'', 20, ''hebrew''),
     (''uk'', 21, ''ukrainian''), (''el'', 22, ''greek''), (''ms'', 23, ''malay''), (''cs'', 24, ''czech''),
     (''ro'', 25, ''romanian''), (''da'', 26, ''danish''), (''hu'', 27, ''hungarian''),
     (''ta'', 28, ''tamil''), (''no'', 29, ''norwegian''), (''th'', 30, ''thai''), (''ur'', 31, ''urdu''),
     (''hr'', 32, ''croatian''), (''bg'', 33, ''bulgarian''), (''lt'', 34, ''lithuanian''),
     (''la'', 35, ''latin''), (''mi'', 36, ''maori''), (''ml'', 37, ''malayalam''), (''cy'', 38, ''welsh''),
     (''sk'', 39, ''slovak''), (''te'', 40, ''telugu''), (''fa'', 41, ''persian''),
     (''lv'', 42, ''latvian''), (''bn'', 43, ''bengali''), (''sr'', 44, ''serbian''),
     (''az'', 45, ''azerbaijani''), (''sl'', 46, ''slovenian''), (''kn'', 47, ''kannada''),
     (''et'', 48, ''estonian''), (''mk'', 49, ''macedonian''), (''br'', 50, ''breton''),
     (''eu'', 51, ''basque''), (''is'', 52, ''icelandic''), (''hy'', 53, ''armenian''),
     (''ne'', 54, ''nepali''), (''mn'', 55, ''mongolian''), (''bs'', 56, ''bosnian''),
     (''kk'', 57, ''kazakh''), (''sq'', 58, ''albanian''), (''sw'', 59, ''swahili''),
     (''gl'', 60, ''galician''), (''mr'', 61, ''marathi''), (''pa'', 62, ''punjabi''),
     (''si'', 63, ''sinhala''), (''km'', 64, ''khmer''), (''sn'', 65, ''shona''), (''yo'', 66, ''yoruba''),
     (''so'', 67, ''somali''), (''af'', 68, ''afrikaans''), (''oc'', 69, ''occitan''),
     (''ka'', 70, ''georgian''), (''be'', 71, ''belarusian''), (''tg'', 72, ''tajik''),
     (''sd'', 73, ''sindhi''), (''gu'', 74, ''gujarati''), (''am'', 75, ''amharic''),
     (''yi'', 76, ''yiddish''), (''lo'', 77, ''lao''), (''uz'', 78, ''uzbek''), (''fo'', 79, ''faroese''),
     (''ht'', 80, ''haitian creole''), (''ps'', 81, ''pashto''), (''tk'', 82, ''turkmen''),
     (''nn'', 83, ''nynorsk''), (''mt'', 84, ''maltese''), (''sa'', 85, ''sanskrit''),
     (''lb'', 86, ''luxembourgish''), (''my'', 87, ''myanmar''), (''bo'', 88, ''tibetan''),
     (''tl'', 89, ''tagalog''), (''mg'', 90, ''malagasy''), (''as'', 91, ''assamese''),
     (''tt'', 92, ''tatar''), (''haw'', 93, ''hawaiian''), (''ln'', 94, ''lingala''),
     (''ha'', 95, ''hausa''), (''ba'', 96, ''bashkir''), (''jw'', 97, ''javanese''),
     (''su'', 98, ''sundanese''), (''yue'', 99, ''cantonese'')]"

definition whisper_lang_max_id :: int where
  "whisper_lang_max_id = foldl (\<lambda>m (k, i, n). max m i) 0 g_lang"

definition whisper_lang_id :: "string \<Rightarrow> int" where
  "whisper_lang_id lang =
    (case find (\<lambda>(k, i, n). k = lang) g_lang of
       Some (k, i, n) \<Rightarrow> i
     | None \<Rightarrow> (case find (\<lambda>(k, i, n). n = lang) g_lang of Some (k, i, n) \<Rightarrow> i | None \<Rightarrow> -1))"

definition whisper_lang_str :: "int \<Rightarrow> string option" where
  "whisper_lang_str l = map_option fst (find (\<lambda>(k, i, n). i = l) g_lang)"

definition whisper_lang_str_full :: "int \<Rightarrow> string option" where
  "whisper_lang_str_full l = map_option (snd \<circ> snd) (find (\<lambda>(k, i, n). i = l) g_lang)"

section \<open>Loading the vocabulary\<close>

function dec_digits :: "nat \<Rightarrow> string" where
  "dec_digits n = (if n < 10 then [char_of (48 + n)] else dec_digits (n div 10) @ [char_of (48 + n mod 10)])"
  by pat_completeness auto
termination by (relation "measure id") auto

declare dec_digits.simps [simp del]

definition dec_int :: "int \<Rightarrow> string" where
  "dec_int i = (if i < 0 then CHR 0x2D # dec_digits (nat (- i)) else dec_digits (nat i))"

text \<open>The words of the file, numbered from 0; a later word takes over the id of an equal one.\<close>

fun load_words :: "int \<Rightarrow> bytestring list \<Rightarrow> whisper_vocab \<Rightarrow> whisper_vocab" where
  "load_words i [] voc = voc"
| "load_words i (w # ws) voc =
    load_words (i + 1) ws
      (voc\<lparr>token_to_id := (token_to_id voc)(w \<mapsto> i), id_to_token := (id_to_token voc)(i \<mapsto> w)\<rparr>)"

definition shift_special :: "int \<Rightarrow> whisper_vocab \<Rightarrow> whisper_vocab" where
  "shift_special hparams_n_vocab voc0 =
    (let voc = voc0\<lparr>n_vocab := hparams_n_vocab\<rparr> in
     if is_multilingual voc then
       (let dt = num_languages voc - 98 in
        voc\<lparr>token_eot := token_eot voc + 1, token_sot := token_sot voc + 1,
            token_translate := token_translate voc + dt, token_transcribe := token_transcribe voc + dt,
            token_solm := token_solm voc + dt, token_prev := token_prev voc + dt,
            token_nosp := token_nosp voc + dt, token_not := token_not voc + dt,
            token_beg := token_beg voc + dt\<rparr>)
     else voc)"

text \<open>The name of an added token; \<open>None\<close> is a string built from the null pointer that
  \<open>whisper_lang_str\<close> returns for an unknown language.\<close>

definition extra_word :: "whisper_vocab \<Rightarrow> int \<Rightarrow> string option" where
  "extra_word voc i =
    (if i > token_beg voc then Some (''[_TT_'' @ dec_digits (nat (i - token_beg voc)) @ '']'')
     else if i = token_eot voc then Some ''[_EOT_]''
     else if i = token_sot voc then Some ''[_SOT_]''
     else if i = token_translate voc then Some ''[_TRANSLATE_]''
     else if i = token_transcribe voc then Some ''[_TRANSCRIBE_]''
     else if i = token_solm voc then Some ''[_SOLM_]''
     else if i = token_prev voc then Some ''[_PREV_]''
     else if i = token_nosp voc then Some ''[_NOSP_]''
     else if i = token_not voc then Some ''[_NOT_]''
     else if i = token_beg voc then Some ''[_BEG_]''
     else if i > token_sot voc \<and> i \<le> token_sot voc + num_languages voc
     then map_option (\<lambda>l. ''[_LANG_'' @ l @ '']'') (whisper_lang_str (i - token_sot voc - 1))
     else Some (''[_extra_token_'' @ dec_int i @ '']''))"

fun add_extra :: "int list \<Rightarrow> whisper_vocab \<Rightarrow> whisper_vocab option" where
  "add_extra [] voc = Some voc"
| "add_extra (i # is) voc =
    (case extra_word voc i of
       None \<Rightarrow> None
     | Some w \<Rightarrow> add_extra is (voc\<lparr>token_to_id := (token_to_id voc)(bytes w \<mapsto> i),
                                    id_to_token := (id_to_token voc)(i \<mapsto> bytes w)\<rparr>))"

text \<open>\<open>n\<close> is the number of words that the file announces; one below zero announces none.\<close>

definition load_vocab_from :: "int \<Rightarrow> bytestring list \<Rightarrow> int \<Rightarrow> whisper_vocab option" where
  "load_vocab_from n file_words hparams_n_vocab =
    add_extra [n..hparams_n_vocab - 1]
      (shift_special hparams_n_vocab (load_words 0 file_words default_vocab))"

definition load_vocab :: "bytestring list \<Rightarrow> int \<Rightarrow> whisper_vocab option" where
  "load_vocab file_words = load_vocab_from (int (length file_words)) file_words"

lemmas load_vocab_defs = load_vocab_def load_vocab_from_def

section \<open>Language detection\<close>

text \<open>
  The pairs of logit and language, sorted by descending logit.  The logits are an argument; for the
  order of equal logits, which \<open>std::sort\<close> leaves open, the model keeps the table's.
\<close>

definition lang_logits :: "whisper_vocab \<Rightarrow> (int \<Rightarrow> real) \<Rightarrow> (real \<times> int) list" where
  "lang_logits voc logits =
    sort_key (\<lambda>p. - fst p) (map (\<lambda>(k, i, n). (logits (whisper_token_lang voc i), i)) g_lang)"

definition lang_probs :: "(real \<times> int) list \<Rightarrow> (real \<times> int) list" where
  "lang_probs ls =
    (let m = fst (hd ls); es = map (\<lambda>(l, i). (exp (l - m), i)) ls; sm = sum_list (map fst es)
     in map (\<lambda>(e, i). (e / sm, i)) es)"

text \<open>The errors of \<open>whisper_lang_auto_detect_with_state\<close>, then the language of the largest logit.
  \<open>enc_ok\<close> and \<open>dec_ok\<close> say whether encoder and decoder succeed.\<close>

definition whisper_lang_auto_detect ::
  "whisper_vocab \<Rightarrow> int \<Rightarrow> int \<Rightarrow> bool \<Rightarrow> bool \<Rightarrow> (int \<Rightarrow> real) \<Rightarrow> int \<times> (real \<times> int) list" where
  "whisper_lang_auto_detect voc n_len_org offs_ms enc_ok dec_ok logits =
    (let seek = cdiv offs_ms 10 in
     if seek < 0 then (-1, [])
     else if seek \<ge> n_len_org then (-2, [])
     else if \<not> enc_ok then (-6, [])
     else if \<not> dec_ok then (-7, [])
     else (snd (hd (lang_logits voc logits)), lang_probs (lang_logits voc logits)))"

section \<open>The table\<close>

lemma g_lang_ids: "map (\<lambda>(k, i, n). i) g_lang = [0..99]"
  by (simp add: g_lang_def upto.simps)

lemma g_lang_distinct: "distinct (map fst g_lang)" "distinct (map (snd \<circ> snd) g_lang)"
  by code_simp+

lemma g_lang_names_length: "list_all (\<lambda>(k, i, n). \<exists>a b c d. n = a # b # c # d) g_lang"
  by (simp add: g_lang_def)

lemma g_lang_codes_length:
  "list_all (\<lambda>(k, i, n). (\<exists>a b. k = [a, b]) \<or> k \<in> {''haw'', ''yue''}) g_lang"
  by (simp add: g_lang_def)

lemma g_lang_names_no_haw: "list_all (\<lambda>(k, i, n). n \<noteq> ''haw'' \<and> n \<noteq> ''yue'') g_lang"
  by (simp add: g_lang_def)

lemma g_lang_names_no_codes:
  assumes "(k, i, n) \<in> set g_lang" "(k', j, m) \<in> set g_lang"
  shows "k' \<noteq> n"
proof -
  from g_lang_names_length assms(1) obtain a b c d where n: "n = a # b # c # d" by (auto simp: list_all_iff)
  from g_lang_codes_length assms(2) have "(\<exists>a b. k' = [a, b]) \<or> k' \<in> {''haw'', ''yue''}" by (auto simp: list_all_iff)
  moreover from g_lang_names_no_haw assms(1) have "n \<noteq> ''haw'' \<and> n \<noteq> ''yue''" by (auto simp: list_all_iff)
  ultimately show ?thesis using n by auto
qed

lemma find_unique:
  assumes "distinct (map f xs)" "x \<in> set xs"
  shows "find (\<lambda>y. f y = f x) xs = Some x"
  using assms by (induction xs) (auto simp: image_iff)

lemma lang_id_code: "(k, i, n) \<in> set g_lang \<Longrightarrow> whisper_lang_id k = i"
  using find_unique [OF g_lang_distinct(1), of "(k, i, n)"] by (simp add: whisper_lang_id_def case_prod_unfold)

lemma lang_id_name: "(k, i, n) \<in> set g_lang \<Longrightarrow> whisper_lang_id n = i"
proof -
  assume m: "(k, i, n) \<in> set g_lang"
  then have "find (\<lambda>(k, i, m). k = n) g_lang = None"
    using g_lang_names_no_codes [OF m] by (auto simp: find_None_iff)
  moreover have "find (\<lambda>(k, i, m). m = n) g_lang = Some (k, i, n)"
    using find_unique [OF g_lang_distinct(2) m] by (simp add: comp_def case_prod_unfold)
  ultimately show ?thesis by (simp add: whisper_lang_id_def)
qed

lemma lang_str_id: "(k, i, n) \<in> set g_lang \<Longrightarrow> find (\<lambda>(k, j, n). j = i) g_lang = Some (k, i, n)"
proof -
  assume m: "(k, i, n) \<in> set g_lang"
  have "map (\<lambda>(k, i, n). i) g_lang = map (fst \<circ> snd) g_lang" by (simp add: case_prod_unfold comp_def)
  then have "map (fst \<circ> snd) g_lang = [0..99]" using g_lang_ids by simp
  then have "distinct (map (fst \<circ> snd) g_lang)" using distinct_upto [of 0 99] by metis
  from find_unique [OF this m] show ?thesis by (simp add: comp_def case_prod_unfold)
qed

lemma lang_str_Some: "0 \<le> i \<Longrightarrow> i \<le> 99 \<Longrightarrow> \<exists>k. whisper_lang_str i = Some k"
proof -
  assume "0 \<le> i" "i \<le> 99"
  then have "i \<in> set (map (\<lambda>(k, i, n). i) g_lang)" unfolding g_lang_ids by simp
  then obtain k n where "(k, i, n) \<in> set g_lang" by auto
  from lang_str_id [OF this] show ?thesis by (simp add: whisper_lang_str_def)
qed

lemma lang_max_id: "whisper_lang_max_id = 99"
  by code_simp

text \<open>The language lookups are inverse to each other on the table: code and full name of an entry give
  its id, the id gives back code and name; the ids are exactly 0 to 99; a string that is neither a code
  nor a name gives -1.\<close>

theorem lang_lookup_roundtrip:
  shows "(\<forall>(k, i, n) \<in> set g_lang. whisper_lang_id k = i \<and> whisper_lang_id n = i \<and>
            whisper_lang_str i = Some k \<and> whisper_lang_str_full i = Some n) \<and>
    whisper_lang_max_id = 99 \<and> (\<forall>i. whisper_lang_str i \<noteq> None \<longleftrightarrow> 0 \<le> i \<and> i \<le> whisper_lang_max_id) \<and>
    (\<forall>s. s \<notin> set (map fst g_lang) \<union> set (map (snd \<circ> snd) g_lang) \<longrightarrow> whisper_lang_id s = -1)"
proof (intro conjI)
  show "\<forall>(k, i, n) \<in> set g_lang. whisper_lang_id k = i \<and> whisper_lang_id n = i \<and>
            whisper_lang_str i = Some k \<and> whisper_lang_str_full i = Some n"
  proof (clarsimp, intro conjI)
    fix k i n assume m: "(k, i, n) \<in> set g_lang"
    from lang_id_code [OF m] lang_id_name [OF m] show "whisper_lang_id k = i" "whisper_lang_id n = i" by simp_all
    from lang_str_id [OF m] show "whisper_lang_str i = Some k" "whisper_lang_str_full i = Some n"
      by (simp_all add: whisper_lang_str_def whisper_lang_str_full_def)
  qed
  show m: "whisper_lang_max_id = 99" by (rule lang_max_id)
  show "\<forall>i. whisper_lang_str i \<noteq> None \<longleftrightarrow> 0 \<le> i \<and> i \<le> whisper_lang_max_id"
  proof
    fix i
    have "0 \<le> i \<and> i \<le> 99" if "whisper_lang_str i \<noteq> None"
    proof -
      from that obtain k n where "(k, i, n) \<in> set g_lang"
        by (auto simp: whisper_lang_str_def find_Some_iff in_set_conv_nth)
      then have "i \<in> set (map (\<lambda>(k, i, n). i) g_lang)" by force
      then show ?thesis unfolding g_lang_ids by simp
    qed
    with lang_str_Some [of i] show "whisper_lang_str i \<noteq> None \<longleftrightarrow> 0 \<le> i \<and> i \<le> whisper_lang_max_id"
      unfolding m by blast
  qed
  show "\<forall>s. s \<notin> set (map fst g_lang) \<union> set (map (snd \<circ> snd) g_lang) \<longrightarrow> whisper_lang_id s = -1"
  proof (intro allI impI)
    fix s assume s: "s \<notin> set (map fst g_lang) \<union> set (map (snd \<circ> snd) g_lang)"
    then have "\<forall>e \<in> set g_lang. fst e \<noteq> s \<and> snd (snd e) \<noteq> s" by auto
    then have "find (\<lambda>(k, i, n). k = s) g_lang = None" "find (\<lambda>(k, i, n). n = s) g_lang = None"
      by (auto simp: find_None_iff case_prod_unfold)
    then show "whisper_lang_id s = -1" by (simp add: whisper_lang_id_def)
  qed
qed

theorem lang_lookup_roundtrip_witness:
  "whisper_lang_str (whisper_lang_id ''german'') = Some ''de'' \<and> whisper_lang_id ''klingon'' = -1"
proof -
  have de: "(''de'', 2, ''german'') \<in> set g_lang"
    and no: "''klingon'' \<notin> set (map fst g_lang) \<union> set (map (snd \<circ> snd) g_lang)" by (simp_all add: g_lang_def)
  note r = lang_lookup_roundtrip
  from r [THEN conjunct1, THEN bspec, OF de]
  have "whisper_lang_str (whisper_lang_id ''german'') = Some ''de''" by simp
  moreover from r no have "whisper_lang_id ''klingon'' = -1" by blast
  ultimately show ?thesis ..
qed

section \<open>The loaded vocabulary\<close>

definition same_special :: "whisper_vocab \<Rightarrow> whisper_vocab \<Rightarrow> bool" where
  "same_special a b \<longleftrightarrow> b = a\<lparr>token_to_id := token_to_id b, id_to_token := id_to_token b\<rparr>"

lemma same_special_refl [simp]: "same_special v v"
  by (simp add: same_special_def)

lemma same_special_trans: "same_special a b \<Longrightarrow> same_special b c \<Longrightarrow> same_special a c"
  by (cases a; cases b; cases c) (simp add: same_special_def)

lemma same_special_upd: "same_special a (a\<lparr>token_to_id := f, id_to_token := g\<rparr>)"
  by (simp add: same_special_def)

lemma same_special_eqs:
  "same_special a b \<Longrightarrow> n_vocab b = n_vocab a \<and> token_eot b = token_eot a \<and> token_sot b = token_sot a \<and>
    token_translate b = token_translate a \<and> token_transcribe b = token_transcribe a \<and> token_solm b = token_solm a \<and>
    token_prev b = token_prev a \<and> token_nosp b = token_nosp a \<and> token_not b = token_not a \<and> token_beg b = token_beg a"
  by (cases a; cases b) (simp add: same_special_def)

lemma load_words_spec:
  "same_special voc (load_words i ws voc) \<and>
    (\<forall>j. id_to_token (load_words i ws voc) j =
       (if i \<le> j \<and> j < i + int (length ws) then Some (ws ! nat (j - i)) else id_to_token voc j))"
proof (induction i ws voc rule: load_words.induct)
  case (2 i w ws voc)
  let ?v = "voc\<lparr>token_to_id := (token_to_id voc)(w \<mapsto> i), id_to_token := (id_to_token voc)(i \<mapsto> w)\<rparr>"
  have "same_special voc (load_words (i + 1) ws ?v)"
    using 2 same_special_trans [OF same_special_upd] by blast
  moreover have "id_to_token (load_words (i + 1) ws ?v) j =
       (if i \<le> j \<and> j < i + int (length (w # ws)) then Some ((w # ws) ! nat (j - i)) else id_to_token voc j)" for j
  proof (cases "i + 1 \<le> j")
    case True
    then have "nat (j - i) = Suc (nat (j - (i + 1)))" by simp
    with 2 True show ?thesis by auto
  qed (use 2 in auto)
  ultimately show ?case by simp
qed auto

lemma extra_word_Some:
  assumes "num_languages voc \<le> 100" "0 \<le> i"
  shows "\<exists>w. extra_word voc i = Some w \<and> w \<noteq> []"
  using assms lang_str_Some [of "i - token_sot voc - 1"] by (auto simp: extra_word_def)

lemma extra_word_special: "same_special a b \<Longrightarrow> extra_word b i = extra_word a i"
  using same_special_eqs [of a b] by (simp add: extra_word_def num_languages_def is_multilingual_def)

lemma add_extra_spec:
  assumes "num_languages voc \<le> 100"
  shows "\<forall>i \<in> set is. 0 \<le> i \<Longrightarrow> \<exists>v. add_extra is voc = Some v \<and> same_special voc v \<and>
    (\<forall>j. id_to_token v j = (if j \<in> set is then map_option bytes (extra_word voc j) else id_to_token voc j))"
  using assms
proof (induction "is" arbitrary: voc)
  case (Cons i "is")
  from extra_word_Some [of voc i] Cons.prems obtain w where w: "extra_word voc i = Some w" by auto
  let ?v = "voc\<lparr>token_to_id := (token_to_id voc)(bytes w \<mapsto> i), id_to_token := (id_to_token voc)(i \<mapsto> bytes w)\<rparr>"
  have s: "same_special voc ?v" by (rule same_special_upd)
  have "num_languages ?v \<le> 100" using Cons.prems(2) by (simp add: num_languages_def is_multilingual_def)
  from Cons.IH [OF _ this] Cons.prems(1) obtain v where
    "add_extra is ?v = Some v" "same_special ?v v"
    "\<forall>j. id_to_token v j = (if j \<in> set is then map_option bytes (extra_word ?v j) else id_to_token ?v j)" by auto
  with w same_special_trans [OF s] extra_word_special [OF s] show ?case by auto
qed simp

text \<open>A word is stored under the id it maps to, and ids below \<open>i\<close> only are in use.\<close>

definition words_below :: "int \<Rightarrow> whisper_vocab \<Rightarrow> bool" where
  "words_below i voc \<longleftrightarrow> (\<forall>w j. token_to_id voc w = Some j \<longrightarrow> j < i \<and> id_to_token voc j = Some w)"

lemma words_below_add:
  "words_below i voc \<Longrightarrow>
    words_below (i + 1) (voc\<lparr>token_to_id := (token_to_id voc)(w \<mapsto> i), id_to_token := (id_to_token voc)(i \<mapsto> w)\<rparr>)"
  by (fastforce simp: words_below_def)

lemma words_below_load: "words_below i voc \<Longrightarrow> words_below (i + int (length ws)) (load_words i ws voc)"
proof (induction i ws voc rule: load_words.induct)
  case (2 i w ws voc)
  from "2.IH" [OF words_below_add [OF "2.prems"]] show ?case by (simp add: algebra_simps)
qed simp

lemma words_below_extra:
  "words_below a voc \<Longrightarrow> add_extra [a..b] voc = Some v \<Longrightarrow> \<exists>i. words_below i v"
proof (induction "nat (b + 1 - a)" arbitrary: a voc)
  case (Suc k)
  then have u: "[a..b] = a # [a + 1..b]" by (simp add: upto.simps)
  from Suc.prems(2) obtain w where "add_extra [a + 1..b]
      (voc\<lparr>token_to_id := (token_to_id voc)(bytes w \<mapsto> a), id_to_token := (id_to_token voc)(a \<mapsto> bytes w)\<rparr>) = Some v"
    unfolding u by (auto split: option.splits)
  with Suc.hyps(1) [OF _ words_below_add [OF Suc.prems(1)]] Suc.hyps(2) show ?case by force
qed auto

lemma add_extra_special: "add_extra is voc = Some v \<Longrightarrow> same_special voc v"
proof (induction "is" voc rule: add_extra.induct)
  case (2 i "is" voc)
  then show ?case using same_special_trans [OF same_special_upd] by (auto split: option.splits)
qed auto

text \<open>A model with at most 100 languages loads, whatever the words of its file: every id below the
  vocabulary size then has a text, the words of the file keep theirs, the added tokens have non-empty
  texts, a word found by its text is the one stored under its id, and the special tokens lie in order behind the text tokens, with the language tokens between
  \<open>token_sot\<close> and \<open>token_translate\<close>, and the timestamps at the end.\<close>

theorem load_vocab_layout:
  assumes "51864 \<le> nv" "nv \<le> 51866" "int (length ws) \<le> nv"
  shows "\<exists>voc. load_vocab ws nv = Some voc \<and> n_vocab voc = nv \<and>
    (\<forall>i \<in> {0..<nv}. id_to_token voc i =
       (if i < int (length ws) then Some (ws ! nat i) else map_option bytes (extra_word voc i)) \<and>
       (int (length ws) \<le> i \<longrightarrow> id_to_token voc i \<noteq> Some [] \<and> id_to_token voc i \<noteq> None)) \<and>
    token_sot voc = token_eot voc + 1 \<and> token_translate voc = token_sot voc + num_languages voc + 1 \<and>
    [token_transcribe voc, token_solm voc, token_prev voc, token_nosp voc, token_not voc, token_beg voc]
      = map (\<lambda>k. token_translate voc + k) [1, 2, 3, 4, 5, 6] \<and>
    token_beg voc + 1500 < nv \<and> (\<forall>w i. token_to_id voc w = Some i \<longrightarrow> id_to_token voc i = Some w)"
proof -
  define v0 where "v0 = load_words 0 ws default_vocab"
  define v1 where "v1 = shift_special nv v0"
  have v0: "same_special default_vocab v0" "\<forall>j. id_to_token v0 j = (if 0 \<le> j \<and> j < int (length ws) then Some (ws ! nat j) else None)"
    using load_words_spec [of default_vocab 0 ws] by (simp_all add: v0_def default_vocab_def)
  note e0 = same_special_eqs [OF v0(1)]
  have m: "is_multilingual (v0\<lparr>n_vocab := nv\<rparr>) \<longleftrightarrow> 51865 \<le> nv" by (simp add: is_multilingual_def)
  have l1: "num_languages v1 = (if 51865 \<le> nv then nv - 51766 else 99)"
    using m assms(1,2) by (auto simp: v1_def shift_special_def num_languages_def is_multilingual_def Let_def)
  have id1: "id_to_token v1 = id_to_token v0" by (simp add: v1_def shift_special_def Let_def)
  have n1: "n_vocab v1 = nv" by (simp add: v1_def shift_special_def Let_def)
  have dt: "num_languages (v0\<lparr>n_vocab := nv\<rparr>) - 98 = nv - 51864" if "51865 \<le> nv"
    using that by (simp add: num_languages_def is_multilingual_def)
  have s1: "token_sot v1 = token_eot v1 + 1 \<and> token_translate v1 = token_sot v1 + num_languages v1 + 1 \<and>
    [token_transcribe v1, token_solm v1, token_prev v1, token_nosp v1, token_not v1, token_beg v1]
      = map (\<lambda>k. token_translate v1 + k) [1, 2, 3, 4, 5, 6] \<and> token_beg v1 + 1500 < nv"
    unfolding l1 using e0 assms(1,2) m dt
    by (cases "51865 \<le> nv") (simp_all add: v1_def shift_special_def Let_def default_vocab_def)
  have "num_languages v1 \<le> 100" using l1 assms(2) by auto
  from add_extra_spec [OF this, of "[int (length ws)..nv - 1]"] obtain v where v:
    "add_extra [int (length ws)..nv - 1] v1 = Some v" "same_special v1 v"
    "\<forall>j. id_to_token v j = (if j \<in> set [int (length ws)..nv - 1] then map_option bytes (extra_word v1 j) else id_to_token v1 j)"
    by auto
  note e = same_special_eqs [OF v(2)]
  have nl: "num_languages v = num_languages v1" using e by (simp add: num_languages_def is_multilingual_def)
  have "words_below 0 default_vocab" by (simp add: words_below_def default_vocab_def)
  from words_below_load [OF this, of ws] have "words_below (int (length ws)) v1"
    by (simp add: words_below_def v1_def v0_def shift_special_def Let_def)
  from words_below_extra [OF this v(1)] have inv: "\<forall>w i. token_to_id v w = Some i \<longrightarrow> id_to_token v i = Some w"
    by (auto simp: words_below_def)
  have "load_vocab ws nv = Some v" using v(1) by (simp add: load_vocab_defs v0_def v1_def)
  moreover have "id_to_token v i =
       (if i < int (length ws) then Some (ws ! nat i) else map_option bytes (extra_word v i)) \<and>
       (int (length ws) \<le> i \<longrightarrow> id_to_token v i \<noteq> Some [] \<and> id_to_token v i \<noteq> None)" if "i \<in> {0..<nv}" for i
  proof -
    from that extra_word_Some [OF \<open>num_languages v1 \<le> 100\<close>, of i] obtain w where w: "extra_word v1 i = Some w" "w \<noteq> []" by auto
    then have "bytes w \<noteq> []" by (simp add: bytes_def)
    with v(3) w that v0(2) id1 extra_word_special [OF v(2), of i] show ?thesis by auto
  qed
  ultimately show ?thesis using s1 e nl n1 inv by (intro exI [of _ v] conjI ballI; (blast | simp))
qed

theorem load_vocab_layout_witness:
  "\<exists>voc. load_vocab [] 51865 = Some voc \<and> n_vocab voc = 51865 \<and> token_translate voc = token_sot voc + num_languages voc + 1"
  using load_vocab_layout [of 51865 "[]"] by auto

section \<open>Detection picks the largest logit\<close>

lemma sort_key_hd_min:
  assumes "xs \<noteq> []" "x \<in> set xs"
  shows "hd (sort_key f xs) \<in> set xs \<and> f (hd (sort_key f xs)) \<le> (f x :: 'b :: linorder)"
proof -
  have ne: "sort_key f xs \<noteq> []" using assms(1) by (metis length_sort length_0_conv)
  then obtain y ys where y: "sort_key f xs = y # ys" by (cases "sort_key f xs") auto
  have "sorted (map f (y # ys))" using sorted_sort_key [of f xs] unfolding y .
  moreover have st: "set (y # ys) = set xs" using set_sort [of f xs] unfolding y .
  ultimately have "f y \<le> f x" using assms(2) by auto
  with st show ?thesis unfolding y by auto
qed

lemma g_lang_ids_set: "(\<exists>k n. (k, i, n) \<in> set g_lang) \<longleftrightarrow> 0 \<le> i \<and> i \<le> 99"
proof -
  have "(\<exists>k n. (k, i, n) \<in> set g_lang) \<longleftrightarrow> i \<in> set (map (\<lambda>(k, i, n). i) g_lang)" by force
  also have "\<dots> \<longleftrightarrow> 0 \<le> i \<and> i \<le> 99" unfolding g_lang_ids by simp
  finally show ?thesis .
qed

lemma g_lang_not_empty: "g_lang \<noteq> []"
  by (simp add: g_lang_def)

lemma lang_logits_set:
  "set (lang_logits voc logits) = {(logits (whisper_token_lang voc i), i) | i. 0 \<le> i \<and> i \<le> 99}"
  unfolding lang_logits_def set_sort set_map g_lang_ids_set [symmetric] by force

lemma lang_logits_nonempty: "lang_logits voc logits \<noteq> []"
  using lang_logits_set [of voc logits] by force

lemma lang_probs_sum:
  assumes "ls \<noteq> []"
  shows "sum_list (map fst (lang_probs ls)) = 1 \<and> map snd (lang_probs ls) = map snd ls \<and>
    list_all (\<lambda>(p, i). p > 0) (lang_probs ls)"
proof -
  define m where "m = fst (hd ls)"
  define es where "es = map (\<lambda>(l, i :: int). (exp (l - m), i)) ls"
  define sm where "sm = sum_list (map fst es)"
  have e: "lang_probs ls = map (\<lambda>(e, i). (e / sm, i)) es" by (simp add: lang_probs_def m_def es_def sm_def Let_def)
  have pos: "\<forall>x \<in> set (map fst es). x > 0" by (auto simp: es_def)
  have "es \<noteq> []" using assms by (simp add: es_def)
  then obtain e0 es' where es': "map fst es = e0 # es'" by (cases es) auto
  have p': "e0 > 0" "\<forall>x \<in> set es'. x > 0" using pos unfolding es' by simp_all
  then have "sum_list es' \<ge> 0" by (intro sum_list_nonneg) (simp add: less_imp_le)
  then have "sm > 0" unfolding sm_def es' using p'(1) by simp
  moreover have "map fst (lang_probs ls) = map (\<lambda>x. x / sm) (map fst es)" by (simp add: e case_prod_unfold)
  then have "sum_list (map fst (lang_probs ls)) = sm / sm"
    using sum_list_const_mult [of "inverse sm" "\<lambda>x. x" "map fst es"]
    by (simp add: sm_def divide_inverse mult.commute)
  ultimately show ?thesis using pos unfolding e by (auto simp: list_all_iff es_def case_prod_unfold)
qed

text \<open>When encoder and decoder succeed and the offset lies in the audio, language detection returns a
  language of the table whose logit is largest; the reported probabilities are positive, sum to one and
  cover every language.  An offset outside the audio is refused with -1 or -2.\<close>

theorem lang_detect_argmax:
  assumes "whisper_lang_auto_detect voc n_len offs True True logits = (r, ps)"
  shows "(if offs \<le> -10 then r = -1 else if cdiv offs 10 \<ge> n_len then r = -2
     else 0 \<le> r \<and> r \<le> whisper_lang_max_id \<and>
       (\<forall>i \<in> {0..whisper_lang_max_id}. logits (whisper_token_lang voc i) \<le> logits (whisper_token_lang voc r)) \<and>
       sum_list (map fst ps) = 1 \<and> set (map snd ps) = {0..whisper_lang_max_id} \<and> list_all (\<lambda>(p, i). p > 0) ps)"
proof -
  let ?L = "lang_logits voc logits"
  have seek: "cdiv offs 10 < 0 \<longleftrightarrow> offs \<le> -10" by (auto simp: cdiv_def)
  have mx: "whisper_lang_max_id = 99" by (rule lang_max_id)
  show ?thesis
  proof (cases "cdiv offs 10 < 0 \<or> cdiv offs 10 \<ge> n_len")
    case True
    with assms seek show ?thesis by (auto simp: whisper_lang_auto_detect_def)
  next
    case False
    with assms have r: "r = snd (hd ?L)" and ps: "ps = lang_probs ?L"
      by (auto simp: whisper_lang_auto_detect_def)
    have hd: "hd ?L \<in> set ?L" using lang_logits_nonempty by simp
    then have r99: "0 \<le> r" "r \<le> 99" "fst (hd ?L) = logits (whisper_token_lang voc r)"
      unfolding r lang_logits_set by auto
    have "logits (whisper_token_lang voc i) \<le> fst (hd ?L)" if "0 \<le> i" "i \<le> 99" for i
    proof -
      from that have "(logits (whisper_token_lang voc i), i) \<in> set ?L" unfolding lang_logits_set by auto
      then have "(logits (whisper_token_lang voc i), i) \<in> set (map (\<lambda>(k, i, n). (logits (whisper_token_lang voc i), i)) g_lang)"
        unfolding lang_logits_def set_sort .
      from sort_key_hd_min [OF _ this, of "\<lambda>p. - fst p"] g_lang_not_empty show ?thesis
        unfolding lang_logits_def by simp
    qed
    moreover have "set (map snd ps) = {0..99}"
      using lang_probs_sum [OF lang_logits_nonempty, of voc logits] unfolding ps
      by (simp only: list.set_map [symmetric]) (force simp: lang_logits_set)
    ultimately show ?thesis
      using False seek r99 lang_probs_sum [OF lang_logits_nonempty, of voc logits] unfolding mx ps by auto
  qed
qed

theorem lang_detect_argmax_witness:
  "fst (whisper_lang_auto_detect default_vocab 3000 0 True True (\<lambda>t. if t = 50260 then 1 else 0)) \<in> {0..99}"
  using lang_detect_argmax [of default_vocab 3000 0 "\<lambda>t. if t = 50260 then 1 else 0"
      "fst (whisper_lang_auto_detect default_vocab 3000 0 True True (\<lambda>t. if t = 50260 then 1 else 0))"
      "snd (whisper_lang_auto_detect default_vocab 3000 0 True True (\<lambda>t. if t = 50260 then 1 else 0))"]
  by (simp add: lang_max_id cdiv_def)

text \<open>Detection looks at all 100 languages of the table whatever the model: with 99 languages the last one,
  Cantonese, is read from the logit of the token \<open>token_translate\<close>.\<close>

theorem lang_detect_yue_is_translate:
  assumes "load_vocab ws 51865 = Some voc"
  shows "num_languages voc = 99 \<and> whisper_lang_str 99 = Some ''yue'' \<and> whisper_token_lang voc 99 = token_translate voc"
proof -
  from add_extra_special [OF assms [unfolded load_vocab_defs]]
  have e: "same_special (shift_special 51865 (load_words 0 ws default_vocab)) voc" .
  have "same_special default_vocab (load_words 0 ws default_vocab)" using load_words_spec by blast
  from same_special_eqs [OF e] same_special_eqs [OF this] have "n_vocab voc = 51865" "token_sot voc = 50258" "token_translate voc = 50358"
    by (simp_all add: shift_special_def default_vocab_def is_multilingual_def num_languages_def)
  moreover have "(''yue'', 99, ''cantonese'') \<in> set g_lang" by (simp add: g_lang_def)
  from lang_str_id [OF this] have "whisper_lang_str 99 = Some ''yue''" by (simp add: whisper_lang_str_def)
  ultimately show ?thesis by (simp add: num_languages_def is_multilingual_def whisper_token_lang_def)
qed

end
