(* ===== verification/Logits_Filter.thy ===== *)
theory Logits_Filter
  imports Whisper_Lang
begin

text \<open>
  From the logits of the network to a sampled token: \<open>whisper_process_logits\<close> with its filters, the
  log softmax, and the three ways of sampling.

  A logit is a real or \<open>None\<close> for \<open>-INFINITY\<close>.  The row of logits comes from the network and is an
  argument; so is the index that \<open>std::discrete_distribution\<close> draws from the probabilities.  The
  special tokens lie below the vocabulary size (\<open>load_vocab_layout\<close>), so that every write is inside
  the vector; \<open>None\<close> as a result is the exception of \<open>at\<close> or a grammar without an end.
\<close>

section \<open>Log probabilities and probabilities\<close>

definition opt_less :: "real option \<Rightarrow> real option \<Rightarrow> bool" where
  "opt_less a b = (case b of None \<Rightarrow> False | Some y \<Rightarrow> (case a of None \<Rightarrow> True | Some x \<Rightarrow> x < y))"

definition finite_logits :: "real option list \<Rightarrow> real list" where
  "finite_logits ls = List.map_filter id ls"

definition opt_max :: "real option list \<Rightarrow> real option" where
  "opt_max ls = (if finite_logits ls = [] then None else Some (Max (set (finite_logits ls))))"

definition log_sum_exp :: "real option list \<Rightarrow> real option" where
  "log_sum_exp ls =
    (case opt_max ls of
       None \<Rightarrow> None
     | Some m \<Rightarrow> Some (ln (sum_list (map (\<lambda>l. exp (l - m)) (finite_logits ls))) + m))"

definition whisper_compute_logprobs :: "real option list \<Rightarrow> real option list" where
  "whisper_compute_logprobs ls =
    (case log_sum_exp ls of None \<Rightarrow> map (\<lambda>_. None) ls | Some s \<Rightarrow> map (map_option (\<lambda>l. l - s)) ls)"

definition prob_of :: "real option \<Rightarrow> real" where
  "prob_of lp = (case lp of None \<Rightarrow> 0 | Some x \<Rightarrow> exp x)"

definition whisper_compute_probs :: "real option list \<Rightarrow> real option list \<Rightarrow> real list" where
  "whisper_compute_probs ls lps = map2 (\<lambda>l lp. if l = None then 0 else prob_of lp) ls lps"

section \<open>The filters\<close>

definition suppress :: "int \<Rightarrow> real option list \<Rightarrow> real option list" where
  "suppress i ls = ls[nat i := None]"

text \<open>\<open>for (i = a; i < b; ++i) logits[i] = -INFINITY;\<close>\<close>

definition suppress_range :: "int \<Rightarrow> int \<Rightarrow> real option list \<Rightarrow> real option list" where
  "suppress_range a b ls = map (\<lambda>(i, l). if a \<le> int i \<and> int i < b then None else l) (enumerate 0 ls)"

definition suppress_word :: "whisper_vocab \<Rightarrow> bytestring \<Rightarrow> real option list \<Rightarrow> real option list" where
  "suppress_word voc w ls = (case token_to_id voc w of None \<Rightarrow> ls | Some i \<Rightarrow> suppress i ls)"

definition non_speech_tokens :: "bytestring list" where
  "non_speech_tokens =
    map bytes
     [[CHR 0x22], ''#'', ''('', '')'', ''*'', ''+'', ''/'', '':'', '';'', ''<'', ''='', ''>'', ''@'', ''['',
      [CHR 0x5C], '']'', ''^'', ''_'', [CHR 0x60], ''{'', ''|'', ''}'', ''~''] @
    [[0xE3, 0x80, 0x8C], [0xE3, 0x80, 0x8D], [0xE3, 0x80, 0x8E], [0xE3, 0x80, 0x8F]] @
    map bytes
     [''<<'', ''>>'', ''<<<'', ''>>>'', ''--'', ''---'', ''-('', ''-['', [CHR ''('', CHR 0x27],
      [CHR ''('', CHR 0x22], ''(('', ''))'', ''((('', '')))'', ''[['', '']]'', ''{{'', ''}}''] @
    [[0xE2, 0x99, 0xAA, 0xE2, 0x99, 0xAA], [0xE2, 0x99, 0xAA, 0xE2, 0x99, 0xAA, 0xE2, 0x99, 0xAA],
     [0xE2, 0x99, 0xA9], [0xE2, 0x99, 0xAA], [0xE2, 0x99, 0xAB], [0xE2, 0x99, 0xAC], [0xE2, 0x99, 0xAD],
     [0xE2, 0x99, 0xAE], [0xE2, 0x99, 0xAF]]"

definition suppress_blank_tokens ::
  "whisper_full_params \<Rightarrow> whisper_vocab \<Rightarrow> whisper_token_data list \<Rightarrow> real option list \<Rightarrow> real option list option"
where
  "suppress_blank_tokens ps voc toks ls =
    (if suppress_blank ps \<and> toks = [] then
       map_option (\<lambda>sp. suppress sp (suppress (token_eot voc) ls)) (token_to_id voc (bytes '' ''))
     else Some ls)"

definition suppress_special ::
  "whisper_full_params \<Rightarrow> whisper_vocab \<Rightarrow> real option list \<Rightarrow> real option list" where
  "suppress_special ps voc ls =
    (let l1 = suppress (token_not voc) ls;
         l2 = (if no_timestamps ps then suppress_range (token_beg voc) (int (length ls)) l1 else l1);
         l3 = suppress (token_nosp voc) (suppress (token_sot voc) l2);
         l4 = (if tdrz_enable ps then l3 else suppress (token_solm voc) l3);
         l5 = suppress (token_prev voc) (suppress (token_transcribe voc) (suppress (token_translate voc) l4));
         l6 = suppress_range (whisper_token_lang voc 0) (whisper_token_lang voc (int (length g_lang))) l5
     in suppress (token_prev voc) l6)"

text \<open>The pairs of \<open>token_to_id\<close> are found from the ids: a word has the id under which it is stored.\<close>

definition suppress_matching ::
  "(bytestring \<Rightarrow> bool) option \<Rightarrow> whisper_vocab \<Rightarrow> real option list \<Rightarrow> real option list" where
  "suppress_matching re voc ls =
    (case re of
       None \<Rightarrow> ls
     | Some m \<Rightarrow>
         map (\<lambda>(i, l). case id_to_token voc (int i) of
                         None \<Rightarrow> l
                       | Some w \<Rightarrow> if token_to_id voc w = Some (int i) \<and> m w then None else l)
           (enumerate 0 ls))"

definition suppress_nonspeech :: "whisper_vocab \<Rightarrow> real option list \<Rightarrow> real option list" where
  "suppress_nonspeech voc ls =
    fold (suppress_word voc)
      (concat (map (\<lambda>t. [t, bytes '' '' @ t]) non_speech_tokens) @ [bytes '' -'', bytes [CHR '' '', CHR 0x27]]) ls"

definition pair_rule ::
  "whisper_vocab \<Rightarrow> whisper_token_data list \<Rightarrow> real option list \<Rightarrow> real option list" where
  "pair_rule voc toks ls =
    (let last_was_timestamp = (toks \<noteq> [] \<and> tok_id (last toks) \<ge> token_beg voc);
         penultimate_was_timestamp = (length toks < 2 \<or> tok_id (toks ! (length toks - 2)) \<ge> token_beg voc)
     in if last_was_timestamp
        then if penultimate_was_timestamp then suppress_range (token_beg voc) (int (length ls)) ls
             else suppress_range 0 (token_eot voc) ls
        else ls)"

definition initial_rule ::
  "int \<Rightarrow> whisper_full_params \<Rightarrow> whisper_vocab \<Rightarrow> whisper_token_data list \<Rightarrow> real option list \<Rightarrow> real option list"
where
  "initial_rule n_audio_ctx ps voc toks ls =
    (if toks = [] \<and> max_initial_ts ps > 0
     then suppress_range (token_beg voc + round (max_initial_ts ps / (30 / real_of_int n_audio_ctx)) + 1)
            (int (length ls)) ls
     else ls)"

definition increasing_rule :: "whisper_vocab \<Rightarrow> whisper_decoder \<Rightarrow> real option list \<Rightarrow> real option list" where
  "increasing_rule voc d ls =
    (if has_ts d then suppress_range (token_beg voc) (token_beg voc + cdiv (seek_delta d) 2) ls else ls)"

text \<open>All filters in source order.\<close>

definition filter_logits ::
  "int \<Rightarrow> whisper_full_params \<Rightarrow> whisper_vocab \<Rightarrow> whisper_decoder \<Rightarrow> real option list \<Rightarrow> real option list option"
where
  "filter_logits n_audio_ctx ps voc d ls =
    (let toks = seq_tokens (sequence d) in
     case suppress_blank_tokens ps voc toks ls of
       None \<Rightarrow> None
     | Some l1 \<Rightarrow>
         (let l2 = suppress_special ps voc l1;
              l3 = (case logits_filter_callback ps of None \<Rightarrow> l2 | Some f \<Rightarrow> f toks l2);
              l4 = suppress_matching (suppress_regex ps) voc l3;
              l5 = (if suppress_nst ps then suppress_nonspeech voc l4 else l4)
          in Some (increasing_rule voc d (initial_rule n_audio_ctx ps voc toks (pair_rule voc toks l5)))))"

text \<open>\<open>id_to_token[token]\<close> gives an empty text for an unknown token.\<close>

definition token_text_or_empty :: "whisper_vocab \<Rightarrow> int \<Rightarrow> bytestring" where
  "token_text_or_empty voc t = (case id_to_token voc t of None \<Rightarrow> [] | Some s \<Rightarrow> s)"

text \<open>If the timestamps together are likelier than every text token, one of them is sampled; else the
  grammar applies.\<close>

definition choose_timestamp_or_text ::
  "nat \<Rightarrow> nat \<Rightarrow> whisper_full_params \<Rightarrow> whisper_vocab \<Rightarrow> whisper_decoder \<Rightarrow> real option list \<Rightarrow>
   (real option list \<times> real option list) option" where
  "choose_timestamp_or_text depth gfuel ps voc d ls =
    (let lps = whisper_compute_logprobs ls; nb = nat (token_beg voc) in
     if opt_less (opt_max (take nb lps)) (log_sum_exp (drop nb lps))
     then Some (suppress_range 0 (token_beg voc) ls, suppress_range 0 (token_beg voc) lps)
     else if grammar_rules ps \<noteq> [] then
       map_option (\<lambda>l'. (l', whisper_compute_logprobs l'))
         (whisper_suppress_invalid_grammar depth gfuel (grammar_penalty ps)
            (map (\<lambda>i. token_text_or_empty voc (int i)) [0..<nat (token_eot voc)]) ls (grammar d))
     else Some (ls, lps))"

definition scale_logits :: "real \<Rightarrow> real list \<Rightarrow> real option list" where
  "scale_logits t row = map (\<lambda>l. Some (if t > 0 then l / t else l)) row"

definition whisper_process_logits ::
  "nat \<Rightarrow> nat \<Rightarrow> int \<Rightarrow> whisper_full_params \<Rightarrow> whisper_vocab \<Rightarrow> real \<Rightarrow> real list \<Rightarrow> whisper_decoder \<Rightarrow>
   whisper_decoder option" where
  "whisper_process_logits depth gfuel n_audio_ctx ps voc t row d =
    (case filter_logits n_audio_ctx ps voc d (scale_logits t row) of
       None \<Rightarrow> None
     | Some ls \<Rightarrow>
         map_option
           (\<lambda>(l', lps). d\<lparr>dec_logits := l', dec_logprobs := lps, dec_probs := whisper_compute_probs l' lps\<rparr>)
           (choose_timestamp_or_text depth gfuel ps voc d ls))"

section \<open>Sampling\<close>

text \<open>The largest entry from position \<open>i\<close> on; the first one wins, and only a positive one counts.\<close>

fun arg_max_loop :: "nat \<Rightarrow> real list \<Rightarrow> int \<times> real \<Rightarrow> int \<times> real" where
  "arg_max_loop i [] best = best"
| "arg_max_loop i (p # ps) best = arg_max_loop (i + 1) ps (if snd best < p then (int i, p) else best)"

definition timestamp_pick :: "whisper_vocab \<Rightarrow> real list \<Rightarrow> int \<Rightarrow> int \<times> real" where
  "timestamp_pick voc ps dflt = arg_max_loop (nat (token_beg voc)) (drop (nat (token_beg voc)) ps) (dflt, 0)"

definition timestamp_mass :: "whisper_vocab \<Rightarrow> real list \<Rightarrow> real" where
  "timestamp_mass voc ps = sum_list (drop (nat (token_beg voc)) ps)"

text \<open>A token of zero probability is not drawn, so that its log probability is finite.\<close>

definition logprob_at :: "whisper_decoder \<Rightarrow> int \<Rightarrow> real" where
  "logprob_at d i = (case dec_logprobs d ! nat i of None \<Rightarrow> 0 | Some x \<Rightarrow> x)"

definition make_token :: "whisper_vocab \<Rightarrow> whisper_decoder \<Rightarrow> int \<Rightarrow> int \<Rightarrow> real \<Rightarrow> real \<Rightarrow> whisper_token_data" where
  "make_token voc d dflt i p plog =
    (let (tid, mx) = timestamp_pick voc (dec_probs d) dflt;
         sm = timestamp_mass voc (dec_probs d);
         is_ts = (i \<ge> token_beg voc)
     in \<lparr>tok_id = i, tok_tid = (if is_ts then i else tid), tok_p = p, tok_plog = plog,
         tok_pt = (if is_ts then p else mx / (sm + 1 / 10000000000)), tok_ptsum = sm,
         tok_t0 = -1, tok_t1 = -1, tok_t_dtw = -1, tok_vlen = 0\<rparr>)"

definition whisper_sample_token ::
  "whisper_vocab \<Rightarrow> whisper_decoder \<Rightarrow> bool \<Rightarrow> (real list \<Rightarrow> nat) \<Rightarrow> whisper_token_data" where
  "whisper_sample_token voc d best draw =
    (if best then
       (let (i, p) = arg_max_loop 0 (dec_probs d) (0, 0)
        in make_token voc d 0 i p (if p > 0 then logprob_at d i else 0))
     else
       (let i = draw (dec_probs d)
        in make_token voc d 0 (int i) (dec_probs d ! i) (logprob_at d (int i))))"

text \<open>In spite of its name it draws every candidate from the distribution, whatever the best \<open>k\<close> are.\<close>

definition whisper_sample_token_topk ::
  "whisper_vocab \<Rightarrow> whisper_decoder \<Rightarrow> nat \<Rightarrow> (nat \<Rightarrow> real list \<Rightarrow> nat) \<Rightarrow> whisper_token_data list" where
  "whisper_sample_token_topk voc d k draw =
    map (\<lambda>m. let i = draw m (dec_probs d)
             in make_token voc d (token_beg voc) (int i) (dec_probs d ! i) (logprob_at d (int i))) [0..<k]"

section \<open>Log softmax\<close>

lemma finite_logits_simps [simp]:
  "finite_logits [] = []" "finite_logits (None # ls) = finite_logits ls" "finite_logits (Some x # ls) = x # finite_logits ls"
  by (simp_all add: finite_logits_def List.map_filter_simps)

lemma set_finite_logits: "set (finite_logits ls) = {x. Some x \<in> set ls}"
proof (induction ls)
  case (Cons l ls)
  then show ?case by (cases l) auto
qed simp

lemma finite_logits_empty: "finite_logits ls = [] \<longleftrightarrow> set ls \<subseteq> {None}"
proof (induction ls)
  case (Cons l ls)
  then show ?case by (cases l) auto
qed simp

definition exp_sum :: "real option list \<Rightarrow> real" where
  "exp_sum ls = sum_list (map exp (finite_logits ls))"

lemma exp_sum_eq: "exp_sum ls = sum_list (map prob_of ls)"
proof (induction ls)
  case (Cons l ls)
  then show ?case by (cases l) (auto simp: exp_sum_def prob_of_def)
qed (simp add: exp_sum_def)

lemma exp_sum_pos: "finite_logits ls \<noteq> [] \<Longrightarrow> exp_sum ls > 0"
proof -
  have nn: "sum_list (map exp (xs :: real list)) \<ge> 0" for xs by (rule sum_list_nonneg) auto
  assume "finite_logits ls \<noteq> []"
  then obtain x xs where x: "finite_logits ls = x # xs" by (cases "finite_logits ls") auto
  have "exp x + sum_list (map exp xs) > 0" by (rule add_pos_nonneg [OF _ nn]) simp
  then show ?thesis by (simp add: exp_sum_def x)
qed

lemma log_sum_exp_eq: "log_sum_exp ls = (if finite_logits ls = [] then None else Some (ln (exp_sum ls)))"
proof (cases "finite_logits ls = []")
  case False
  define m where "m = Max (set (finite_logits ls))"
  have "sum_list (map (\<lambda>l. exp (l - m)) xs) = sum_list (map exp xs) * exp (- m)" for xs
    by (induction xs) (simp_all add: algebra_simps exp_diff exp_minus divide_inverse)
  then have "ln (sum_list (map (\<lambda>l. exp (l - m)) (finite_logits ls))) = ln (exp_sum ls) - m"
    using exp_sum_pos [OF False] by (simp add: exp_sum_def ln_mult)
  then show ?thesis using False by (simp add: log_sum_exp_def opt_max_def m_def)
qed (simp add: log_sum_exp_def opt_max_def)

text \<open>The log probabilities of logits: as many, finite at the same places, and of total probability one.\<close>

lemma logprobs_shape [simp]: "length (whisper_compute_logprobs ls) = length ls"
  by (simp add: whisper_compute_logprobs_def split: option.split)

lemma logprobs_nth:
  "i < length ls \<Longrightarrow> whisper_compute_logprobs ls ! i = map_option (\<lambda>l. l - ln (exp_sum ls)) (ls ! i)"
proof (cases "finite_logits ls = []")
  case True
  assume i: "i < length ls"
  then have "ls ! i \<in> {None}" using True nth_mem [of i ls] unfolding finite_logits_empty by (rule_tac subsetD)
  then have "ls ! i = None" by simp
  then show ?thesis using True i by (simp add: whisper_compute_logprobs_def log_sum_exp_eq)
qed (simp add: whisper_compute_logprobs_def log_sum_exp_eq)

lemma logprobs_None: "i < length ls \<Longrightarrow> whisper_compute_logprobs ls ! i = None \<longleftrightarrow> ls ! i = None"
  by (simp add: logprobs_nth)

lemma logprobs_sum: "finite_logits ls \<noteq> [] \<Longrightarrow> sum_list (map prob_of (whisper_compute_logprobs ls)) = 1"
proof -
  assume ne: "finite_logits ls \<noteq> []"
  note pos = exp_sum_pos [OF ne]
  have "prob_of (map_option (\<lambda>l. l - ln (exp_sum ls)) x) = prob_of x / exp_sum ls" for x
    using pos by (cases x) (simp_all add: prob_of_def exp_diff)
  then have "map prob_of (whisper_compute_logprobs ls) = map (\<lambda>x. prob_of x / exp_sum ls) ls"
    by (auto simp: logprobs_nth intro!: nth_equalityI)
  then have "sum_list (map prob_of (whisper_compute_logprobs ls)) = sum_list (map prob_of ls) / exp_sum ls"
    using sum_list_const_mult [of "inverse (exp_sum ls)" prob_of ls] by (simp add: divide_inverse mult.commute)
  then show ?thesis using pos by (simp add: exp_sum_eq)
qed

lemma prob_of_nonneg [simp]: "prob_of x \<ge> 0"
  by (cases x) (simp_all add: prob_of_def)

lemma prob_of_pos: "prob_of x > 0 \<longleftrightarrow> x \<noteq> None"
  by (cases x) (simp_all add: prob_of_def)

section \<open>What the filters remove\<close>

text \<open>A filter keeps the number of logits and never revives one.\<close>

definition only_kills :: "real option list \<Rightarrow> real option list \<Rightarrow> bool" where
  "only_kills a b \<longleftrightarrow> length b = length a \<and> (\<forall>i < length a. a ! i = None \<longrightarrow> b ! i = None)"

lemma only_kills_refl [simp]: "only_kills a a"
  by (simp add: only_kills_def)

lemma only_kills_trans: "only_kills a b \<Longrightarrow> only_kills b c \<Longrightarrow> only_kills a c"
  by (simp add: only_kills_def)

lemma suppress_nth: "i < length ls \<Longrightarrow> suppress k ls ! i = (if i = nat k then None else ls ! i)"
  by (simp add: suppress_def nth_list_update)

lemma length_suppress [simp]: "length (suppress k ls) = length ls"
  by (simp add: suppress_def)

lemma length_suppress_range [simp]: "length (suppress_range a b ls) = length ls"
  by (simp add: suppress_range_def)

lemma suppress_range_nth:
  "i < length ls \<Longrightarrow> suppress_range a b ls ! i = (if a \<le> int i \<and> int i < b then None else ls ! i)"
  by (simp add: suppress_range_def nth_enumerate_eq)

named_theorems kills \<open>filters never revive a logit\<close>

lemma suppress_kills [kills]: "only_kills ls (suppress k ls)"
  by (simp add: only_kills_def suppress_nth)

lemma suppress_range_kills [kills]: "only_kills ls (suppress_range a b ls)"
  by (simp add: only_kills_def suppress_range_nth)

lemma suppress_word_kills [kills]: "only_kills ls (suppress_word voc w ls)"
  by (simp add: suppress_word_def kills split: option.split)

lemma suppress_blank_kills: "suppress_blank_tokens ps voc toks ls = Some l \<Longrightarrow> only_kills ls l"
  by (auto simp: suppress_blank_tokens_def intro: only_kills_trans kills split: if_splits)

lemma suppress_special_kills [kills]: "only_kills ls (suppress_special ps voc ls)"
  unfolding suppress_special_def Let_def
  by (auto intro!: only_kills_trans [OF _ suppress_kills] only_kills_trans [OF _ suppress_range_kills])

lemma suppress_matching_kills [kills]: "only_kills ls (suppress_matching re voc ls)"
  by (auto simp: suppress_matching_def only_kills_def nth_enumerate_eq split: option.split)

lemma fold_word_kills: "only_kills ls (fold (suppress_word voc) ws ls)"
proof (induction ws arbitrary: ls)
  case (Cons w ws)
  show ?case using only_kills_trans [OF suppress_word_kills Cons.IH] by simp
qed simp

lemma suppress_nonspeech_kills [kills]: "only_kills ls (suppress_nonspeech voc ls)"
  unfolding suppress_nonspeech_def by (rule fold_word_kills)

lemma rules_kill [kills]:
  "only_kills ls (pair_rule voc toks ls)"
  "only_kills ls (initial_rule n ps voc toks ls)" "only_kills ls (increasing_rule voc d ls)"
  by (simp_all add: pair_rule_def initial_rule_def increasing_rule_def kills Let_def)

lemma only_kills_None: "only_kills a b \<Longrightarrow> i < length a \<Longrightarrow> a ! i = None \<Longrightarrow> b ! i = None"
  by (simp add: only_kills_def)

lemma only_kills_length: "only_kills a b \<Longrightarrow> length b = length a"
  by (simp add: only_kills_def)

text \<open>The stages of the filters, without a callback.\<close>

lemma filter_logits_stages:
  assumes "filter_logits n ps voc d ls = Some l" "logits_filter_callback ps = None"
  obtains l1 l5 where "suppress_blank_tokens ps voc (seq_tokens (sequence d)) ls = Some l1"
    "only_kills (suppress_special ps voc l1) l5"
    "l = increasing_rule voc d (initial_rule n ps voc (seq_tokens (sequence d)) (pair_rule voc (seq_tokens (sequence d)) l5))"
    "length l1 = length ls" "length l5 = length ls"
proof -
  from assms obtain l1 where l1: "suppress_blank_tokens ps voc (seq_tokens (sequence d)) ls = Some l1"
    by (auto simp: filter_logits_def Let_def split: option.splits)
  define l4 where "l4 = suppress_matching (suppress_regex ps) voc (suppress_special ps voc l1)"
  define l5 where "l5 = (if suppress_nst ps then suppress_nonspeech voc l4 else l4)"
  have k: "only_kills (suppress_special ps voc l1) l4" unfolding l4_def by (rule kills)
  have k': "only_kills (suppress_special ps voc l1) l5"
    using k only_kills_trans [OF k suppress_nonspeech_kills] by (simp add: l5_def)
  have "length l1 = length ls" using suppress_blank_kills [OF l1] by (rule only_kills_length)
  moreover have "length l5 = length l1"
    using only_kills_length [OF k'] only_kills_length [OF suppress_special_kills] by simp
  moreover have "l = increasing_rule voc d (initial_rule n ps voc (seq_tokens (sequence d))
      (pair_rule voc (seq_tokens (sequence d)) l5))"
    using assms l1 unfolding filter_logits_def l5_def l4_def Let_def by (cases "suppress_nst ps") simp_all
  ultimately show thesis using that [OF l1 k'] by simp
qed

section \<open>What a surviving logit tells of its token\<close>

definition vocab_ok :: "whisper_vocab \<Rightarrow> bool" where
  "vocab_ok voc \<longleftrightarrow> 1 < token_eot voc \<and> token_eot voc < token_sot voc \<and> token_sot voc < token_beg voc \<and>
    list_all (\<lambda>t. token_sot voc < t \<and> t < token_beg voc)
      [token_translate voc, token_transcribe voc, token_solm voc, token_prev voc, token_nosp voc, token_not voc] \<and>
    whisper_token_lang voc (int (length g_lang)) \<le> token_beg voc \<and> token_beg voc < n_vocab voc"

lemma length_g_lang: "length g_lang = 100"
  by code_simp

lemma load_vocab_ok:
  assumes "load_vocab ws nv = Some voc" "51864 \<le> nv" "nv \<le> 51866"
  shows "vocab_ok voc \<and> n_vocab voc = nv"
proof -
  have "same_special (shift_special nv (load_words 0 ws default_vocab)) voc"
    using add_extra_special [OF assms(1) [unfolded load_vocab_defs]] .
  note e = same_special_eqs [OF this]
  have "same_special default_vocab (load_words 0 ws default_vocab)" using load_words_spec by blast
  note e0 = same_special_eqs [OF this]
  consider "nv = 51864" | "nv = 51865" | "nv = 51866" using assms(2,3) by linarith
  then show ?thesis
    by cases (use e e0 in \<open>simp_all add: vocab_ok_def shift_special_def default_vocab_def is_multilingual_def
      num_languages_def whisper_token_lang_def length_g_lang Let_def\<close>)
qed

definition obeys_filters :: "int \<Rightarrow> whisper_full_params \<Rightarrow> whisper_vocab \<Rightarrow> whisper_decoder \<Rightarrow> int \<Rightarrow> bool" where
  "obeys_filters n_audio_ctx ps voc d t \<longleftrightarrow>
    (let toks = seq_tokens (sequence d) in
     t \<notin> {token_not voc, token_sot voc, token_nosp voc, token_translate voc, token_transcribe voc, token_prev voc} \<and>
     \<not> (whisper_token_lang voc 0 \<le> t \<and> t \<le> whisper_token_lang voc whisper_lang_max_id) \<and>
     (tdrz_enable ps \<or> t \<noteq> token_solm voc) \<and>
     (no_timestamps ps \<longrightarrow> t < token_beg voc) \<and>
     (toks = [] \<longrightarrow>
        (suppress_blank ps \<longrightarrow> t \<noteq> token_eot voc \<and> token_to_id voc (bytes '' '') \<noteq> Some t) \<and>
        (max_initial_ts ps > 0 \<longrightarrow> t \<le> token_beg voc + round (max_initial_ts ps / (30 / real_of_int n_audio_ctx)))) \<and>
     (toks \<noteq> [] \<and> tok_id (last toks) \<ge> token_beg voc \<longrightarrow>
        (if length toks < 2 \<or> tok_id (toks ! (length toks - 2)) \<ge> token_beg voc
         then t < token_beg voc else t \<ge> token_eot voc)) \<and>
     (has_ts d \<and> t \<ge> token_beg voc \<longrightarrow> t \<ge> token_beg voc + cdiv (seek_delta d) 2))"

lemma suppress_None: "i < length ls \<Longrightarrow> suppress k ls ! i = None \<longleftrightarrow> i = nat k \<or> ls ! i = None"
  by (simp add: suppress_nth)

lemma suppress_range_None:
  "i < length ls \<Longrightarrow> suppress_range a b ls ! i = None \<longleftrightarrow> a \<le> int i \<and> int i < b \<or> ls ! i = None"
  by (auto simp: suppress_range_nth)

lemma suppress_special_nth:
  "i < length ls \<Longrightarrow> suppress_special ps voc ls ! i = None \<longleftrightarrow>
     i \<in> nat ` {token_not voc, token_sot voc, token_nosp voc, token_translate voc, token_transcribe voc, token_prev voc}
        \<or> (whisper_token_lang voc 0 \<le> int i \<and> int i < whisper_token_lang voc (int (length g_lang)))
        \<or> (\<not> tdrz_enable ps \<and> i = nat (token_solm voc)) \<or> (no_timestamps ps \<and> int i \<ge> token_beg voc)
        \<or> ls ! i = None"
  unfolding suppress_special_def Let_def
proof (cases "tdrz_enable ps"; cases "no_timestamps ps")
qed (simp_all only: if_True if_False not_True_eq_False not_False_eq_True length_suppress length_suppress_range
       suppress_None suppress_range_None image_insert image_empty insert_iff empty_iff, auto)

lemma suppress_special_None:
  assumes "vocab_ok voc" "int (length ls) = n_vocab voc" "0 \<le> t" "t < n_vocab voc"
    and "t \<in> {token_not voc, token_sot voc, token_nosp voc, token_translate voc, token_transcribe voc, token_prev voc}
      \<or> (whisper_token_lang voc 0 \<le> t \<and> t \<le> whisper_token_lang voc whisper_lang_max_id)
      \<or> (\<not> tdrz_enable ps \<and> t = token_solm voc) \<or> (no_timestamps ps \<and> t \<ge> token_beg voc)"
  shows "suppress_special ps voc ls ! nat t = None"
proof -
  have i: "nat t < length ls" using assms(2-4) by simp
  have l: "whisper_token_lang voc (int (length g_lang)) = whisper_token_lang voc whisper_lang_max_id + 1"
    by (simp add: whisper_token_lang_def length_g_lang lang_max_id)
  show ?thesis
    using assms(3,5) unfolding suppress_special_nth [OF i] l by auto
qed

lemma alive_obeys:
  assumes f: "filter_logits n ps voc d ls = Some l" and c: "logits_filter_callback ps = None"
    and v: "vocab_ok voc" "int (length ls) = n_vocab voc" and t: "0 \<le> t" "t < n_vocab voc"
    and alive: "l ! nat t \<noteq> None"
  shows "obeys_filters n ps voc d t"
proof -
  let ?toks = "seq_tokens (sequence d)"
  from f c obtain l1 l5 where l1: "suppress_blank_tokens ps voc ?toks ls = Some l1"
    and k5: "only_kills (suppress_special ps voc l1) l5"
    and l: "l = increasing_rule voc d (initial_rule n ps voc ?toks (pair_rule voc ?toks l5))"
    and len: "length l1 = length ls" "length l5 = length ls" by (rule filter_logits_stages)
  have i: "nat t < length ls" using v(2) t by simp
  have li: "length (pair_rule voc ?toks l5) = length ls" "length (initial_rule n ps voc ?toks (pair_rule voc ?toks l5)) = length ls"
    using only_kills_length rules_kill len by metis+
  have a3: "initial_rule n ps voc ?toks (pair_rule voc ?toks l5) ! nat t \<noteq> None"
    using alive only_kills_None [OF rules_kill(3)] li i unfolding l by metis
  have a4: "pair_rule voc ?toks l5 ! nat t \<noteq> None"
    using a3 only_kills_None [OF rules_kill(2)] li i by metis
  have a5: "l5 ! nat t \<noteq> None" using a4 only_kills_None [OF rules_kill(1)] len i by metis
  have a2: "suppress_special ps voc l1 ! nat t \<noteq> None"
    using a5 only_kills_None [OF k5] only_kills_length [OF suppress_special_kills] len i by metis
  have a1: "l1 ! nat t \<noteq> None" using a2 only_kills_None [OF suppress_special_kills] len i by metis
  have blank: "t \<noteq> token_eot voc \<and> token_to_id voc (bytes '' '') \<noteq> Some t" if "?toks = []" "suppress_blank ps"
  proof -
    from l1 that obtain sp where sp: "token_to_id voc (bytes '' '') = Some sp"
      "l1 = suppress sp (suppress (token_eot voc) ls)" by (auto simp: suppress_blank_tokens_def)
    then have "nat t \<noteq> nat sp \<and> nat t \<noteq> nat (token_eot voc)" using a1 i by (simp add: suppress_None)
    with sp show ?thesis by auto
  qed
  have incr: "t \<ge> token_beg voc + cdiv (seek_delta d) 2" if "has_ts d" "t \<ge> token_beg voc"
    using alive that i t li unfolding l increasing_rule_def
    by (simp add: suppress_range_nth split: if_splits)
  have init: "t \<le> token_beg voc + round (max_initial_ts ps / (30 / real_of_int n))"
    if "?toks = []" "max_initial_ts ps > 0"
    using a3 that i t v(2) li(1) unfolding initial_rule_def
    by (simp add: suppress_range_nth split: if_splits)
  have pair: "if length ?toks < 2 \<or> tok_id (?toks ! (length ?toks - 2)) \<ge> token_beg voc then t < token_beg voc else t \<ge> token_eot voc"
    if "?toks \<noteq> []" "tok_id (last ?toks) \<ge> token_beg voc"
    using a4 that i t v(2) len unfolding pair_rule_def Let_def
    by (auto simp: suppress_range_nth split: if_splits)
  have special: "t \<notin> {token_not voc, token_sot voc, token_nosp voc, token_translate voc, token_transcribe voc, token_prev voc}"
    "\<not> (whisper_token_lang voc 0 \<le> t \<and> t \<le> whisper_token_lang voc whisper_lang_max_id)"
    "tdrz_enable ps \<or> t \<noteq> token_solm voc" "no_timestamps ps \<longrightarrow> t < token_beg voc"
  proof -
    have "int (length l1) = n_vocab voc" using v(2) len(1) by simp
    note none = suppress_special_None [OF v(1) this t, of ps]
    show "t \<notin> {token_not voc, token_sot voc, token_nosp voc, token_translate voc, token_transcribe voc, token_prev voc}"
      using none a2 by blast
    show "\<not> (whisper_token_lang voc 0 \<le> t \<and> t \<le> whisper_token_lang voc whisper_lang_max_id)" using none a2 by blast
    show "tdrz_enable ps \<or> t \<noteq> token_solm voc" using none a2 by blast
    show "no_timestamps ps \<longrightarrow> t < token_beg voc" using none a2 unfolding not_le [symmetric] by blast
  qed
  show ?thesis
    unfolding obeys_filters_def Let_def
    using special blank init pair incr by blast
qed

section \<open>The processed logits\<close>

lemma foldl_penalise_None:
  "length (foldl (penalise c) ls toks) = length ls \<and>
    (\<forall>i < length ls. foldl (penalise c) ls toks ! i = None \<longleftrightarrow> ls ! i = None)"
proof (induction toks arbitrary: ls)
  case (Cons t toks)
  have "penalise c ls t ! i = None \<longleftrightarrow> ls ! i = None" if "i < length ls" for i
    using that by (cases "cand_id t = i") (auto simp: penalise_def)
  moreover have "length (penalise c ls t) = length ls" by (simp add: penalise_def)
  ultimately show ?case using Cons.IH [of "penalise c ls t"] by simp
qed simp

lemma suppress_grammar_None:
  "whisper_suppress_invalid_grammar depth fuel c vs ls g = Some l \<Longrightarrow>
    length l = length ls \<and> (\<forall>i < length ls. l ! i = None \<longleftrightarrow> ls ! i = None)"
  using foldl_penalise_None by (fastforce simp: whisper_suppress_invalid_grammar_def split: if_splits)

lemma sum_take_drop: "sum_list (xs :: real list) = sum_list (take k xs) + sum_list (drop k xs)"
  using sum_list_append [of "take k xs" "drop k xs"] by simp

lemma map_prob_range:
  "map prob_of (suppress_range 0 b lps) = replicate (min (nat b) (length lps)) 0 @ drop (nat b) (map prob_of lps)"
  by (auto simp: suppress_range_nth nth_append prob_of_def intro!: nth_equalityI)

text \<open>Log probabilities that agree with their logits on what is impossible.\<close>

definition agree :: "real option list \<Rightarrow> real option list \<Rightarrow> bool" where
  "agree ls lps \<longleftrightarrow> length lps = length ls \<and> (\<forall>i < length ls. lps ! i = None \<longleftrightarrow> ls ! i = None)"

lemma agree_probs: "agree ls lps \<Longrightarrow> whisper_compute_probs ls lps = map prob_of lps"
  by (auto simp: agree_def whisper_compute_probs_def prob_of_def intro!: nth_equalityI)

lemma agree_logprobs: "agree ls (whisper_compute_logprobs ls)"
  by (simp add: agree_def logprobs_None)

lemma choose_spec:
  assumes c: "choose_timestamp_or_text depth gf ps voc d ls = Some (l, lps)" and alive: "finite_logits ls \<noteq> []"
  shows "only_kills ls l \<and> agree l lps \<and> sum_list (map prob_of lps) \<le> 1 \<and>
    ((\<exists>i < nat (token_beg voc). i < length l \<and> l ! i \<noteq> None) \<longrightarrow> sum_list (map prob_of lps) = 1)"
proof -
  let ?lp = "whisper_compute_logprobs ls" and ?b = "token_beg voc"
  note one = logprobs_sum [OF alive]
  consider (ts) "l = suppress_range 0 ?b ls" "lps = suppress_range 0 ?b ?lp"
    | (same) "l = ls" "lps = ?lp"
    | (grammar) vs where "whisper_suppress_invalid_grammar depth gf (grammar_penalty ps) vs ls (grammar d) = Some l"
        "lps = whisper_compute_logprobs l"
    using c unfolding choose_timestamp_or_text_def Let_def by (auto split: if_splits)
  then show ?thesis
  proof cases
    case ts
    have "sum_list (take (nat ?b) (map prob_of ?lp)) \<ge> 0"
      by (rule sum_list_nonneg) (auto dest!: in_set_takeD)
    then have "sum_list (drop (nat ?b) (map prob_of ?lp)) \<le> 1"
      using one sum_take_drop [of "map prob_of ?lp" "nat ?b"] by simp
    moreover have "agree l lps" by (simp add: ts agree_def suppress_range_nth logprobs_None)
    moreover have "l ! i = None" if "i < nat ?b" "i < length l" for i
      using that by (simp add: ts suppress_range_nth zless_nat_eq_int_zless)
    ultimately show ?thesis
      unfolding ts(2) map_prob_range using ts(1) suppress_range_kills by (auto simp: sum_list_replicate)
  next
    case same
    then show ?thesis using one agree_logprobs by simp
  next
    case grammar
    note g = suppress_grammar_None [OF grammar(1)]
    from alive obtain x where "Some x \<in> set ls" using set_finite_logits [of ls] by (cases "finite_logits ls") auto
    then obtain i where "i < length ls" "ls ! i \<noteq> None" by (auto simp: in_set_conv_nth)
    then have "i < length l" "l ! i \<noteq> None" using g by auto
    then obtain y where "Some y \<in> set l" using nth_mem by fastforce
    then have "finite_logits l \<noteq> []" using set_finite_logits [of l] by auto
    with logprobs_sum agree_logprobs g show ?thesis unfolding grammar(2) only_kills_def by simp
  qed
qed

lemma only_kills_finite: "only_kills a b \<Longrightarrow> finite_logits b \<noteq> [] \<Longrightarrow> finite_logits a \<noteq> []"
proof
  assume k: "only_kills a b" and b: "finite_logits b \<noteq> []" and "finite_logits a = []"
  then have "\<forall>i < length a. a ! i = None" using nth_mem by (fastforce simp: finite_logits_empty)
  then have "\<forall>i < length b. b ! i = None" using k by (simp add: only_kills_def)
  then have "set b \<subseteq> {None}" by (auto simp: in_set_conv_nth)
  with b show False by (simp add: finite_logits_empty)
qed

lemma choose_kills:
  "choose_timestamp_or_text depth gf ps voc d ls = Some (l, lps) \<Longrightarrow> only_kills ls l \<and> agree l lps"
proof (cases "finite_logits ls = []")
  case True
  assume c: "choose_timestamp_or_text depth gf ps voc d ls = Some (l, lps)"
  then show ?thesis
    using suppress_grammar_None agree_logprobs
    unfolding choose_timestamp_or_text_def Let_def
    by (fastforce simp: agree_def suppress_range_nth logprobs_None only_kills_def split: if_splits)
next
  case False
  assume "choose_timestamp_or_text depth gf ps voc d ls = Some (l, lps)"
  from choose_spec [OF this False] show ?thesis by blast
qed

text \<open>The fields that processing sets, and what the filters say about them.\<close>

lemma process_logits_spec:
  assumes p: "whisper_process_logits depth gf n ps voc t row d = Some d'"
    and c: "logits_filter_callback ps = None" and v: "vocab_ok voc" "int (length row) = n_vocab voc"
  shows "d' = d\<lparr>dec_logits := dec_logits d', dec_logprobs := dec_logprobs d', dec_probs := map prob_of (dec_logprobs d')\<rparr> \<and>
    length (dec_logits d') = length row \<and> agree (dec_logits d') (dec_logprobs d') \<and>
    (\<forall>i. 0 \<le> i \<and> i < n_vocab voc \<and> dec_logits d' ! nat i \<noteq> None \<longrightarrow> obeys_filters n ps voc d i)"
proof -
  from p obtain ls l lps where f: "filter_logits n ps voc d (scale_logits t row) = Some ls"
    and ch: "choose_timestamp_or_text depth gf ps voc d ls = Some (l, lps)"
    and d': "d' = d\<lparr>dec_logits := l, dec_logprobs := lps, dec_probs := whisper_compute_probs l lps\<rparr>"
    by (auto simp: whisper_process_logits_def split: option.splits)
  note k = choose_kills [OF ch]
  have lr: "int (length (scale_logits t row)) = n_vocab voc" using v(2) by (simp add: scale_logits_def)
  from f c obtain l1 l5 where "only_kills (suppress_special ps voc l1) l5"
    and ls: "ls = increasing_rule voc d (initial_rule n ps voc (seq_tokens (sequence d)) (pair_rule voc (seq_tokens (sequence d)) l5))"
    and "length l5 = length (scale_logits t row)" by (rule filter_logits_stages)
  then have "length ls = length row"
    using only_kills_length rules_kill by (metis length_map scale_logits_def)
  moreover have "obeys_filters n ps voc d i" if "0 \<le> i" "i < n_vocab voc" "l ! nat i \<noteq> None" for i
  proof (rule alive_obeys [OF f c v(1) lr that(1,2)])
    have "nat i < length ls" using that v(2) \<open>length ls = length row\<close> by simp
    then show "ls ! nat i \<noteq> None" using k that(3) only_kills_None by metis
  qed
  ultimately show ?thesis using k agree_probs [of l lps] only_kills_length [of ls l] unfolding d' by simp
qed

section \<open>The sampled token\<close>

lemma arg_max_loop_spec:
  "arg_max_loop i ps (b, m) = (k, p) \<Longrightarrow> m \<le> p \<and> (\<forall>q \<in> set ps. q \<le> p) \<and>
    ((k, p) = (b, m) \<or> (\<exists>j < length ps. k = int (i + j) \<and> ps ! j = p \<and> p > m))"
proof (induction ps arbitrary: i b m)
  case (Cons q ps)
  show ?case
  proof (cases "m < q")
    case True
    with Cons.prems Cons.IH [of "i + 1" "int i" q]
    have *: "q \<le> p" "\<forall>q \<in> set ps. q \<le> p"
      "(k, p) = (int i, q) \<or> (\<exists>j < length ps. k = int (i + 1 + j) \<and> ps ! j = p \<and> p > q)" by auto
    from *(3) have "\<exists>j < length (q # ps). k = int (i + j) \<and> (q # ps) ! j = p \<and> p > m"
    proof
      assume "(k, p) = (int i, q)"
      then show ?thesis using True by (intro exI [of _ 0]) auto
    next
      assume "\<exists>j < length ps. k = int (i + 1 + j) \<and> ps ! j = p \<and> p > q"
      then obtain j where "j < length ps" "k = int (i + 1 + j)" "ps ! j = p" "p > q" by blast
      then show ?thesis using True by (intro exI [of _ "Suc j"]) auto
    qed
    with * True show ?thesis by auto
  next
    case False
    with Cons.prems Cons.IH [of "i + 1" b m]
    have *: "m \<le> p" "\<forall>q \<in> set ps. q \<le> p"
      "(k, p) = (b, m) \<or> (\<exists>j < length ps. k = int (i + 1 + j) \<and> ps ! j = p \<and> p > m)" by auto
    moreover have "\<exists>j < length (q # ps). k = int (i + j) \<and> (q # ps) ! j = p \<and> p > m"
      if "\<exists>j < length ps. k = int (i + 1 + j) \<and> ps ! j = p \<and> p > m"
    proof -
      from that obtain j where "j < length ps" "k = int (i + 1 + j)" "ps ! j = p" "p > m" by blast
      then show ?thesis by (intro exI [of _ "Suc j"]) auto
    qed
    ultimately show ?thesis using False by auto
  qed
qed simp

text \<open>A drawn index has positive probability, if there is one.\<close>

definition fair_draw :: "(real list \<Rightarrow> nat) \<Rightarrow> bool" where
  "fair_draw f \<longleftrightarrow> (\<forall>ps. (\<exists>p \<in> set ps. p > 0) \<longrightarrow> f ps < length ps \<and> ps ! f ps > 0)"

lemma make_token_id [simp]: "tok_id (make_token voc d dflt i p lp) = i"
  by (simp add: make_token_def Let_def case_prod_unfold)

lemma sample_token_alive:
  assumes "\<exists>p \<in> set (dec_probs d). p > 0" "best \<or> fair_draw f"
  shows "\<exists>i < length (dec_probs d). tok_id (whisper_sample_token voc d best f) = int i \<and> dec_probs d ! i > 0"
proof (cases best)
  case True
  obtain k p where kp: "arg_max_loop 0 (dec_probs d) (0, 0) = (k, p)" by (metis surj_pair)
  from arg_max_loop_spec [OF kp] assms(1) have "p > 0" by force
  with arg_max_loop_spec [OF kp] obtain j where "j < length (dec_probs d)" "k = int j" "dec_probs d ! j = p" by auto
  with True \<open>p > 0\<close> kp show ?thesis by (auto simp: whisper_sample_token_def)
next
  case False
  with assms show ?thesis by (auto simp: whisper_sample_token_def fair_draw_def Let_def)
qed

lemma sample_topk_alive:
  assumes "\<exists>p \<in> set (dec_probs d). p > 0" "\<forall>m. fair_draw (f m)" "t \<in> set (whisper_sample_token_topk voc d k f)"
  shows "\<exists>i < length (dec_probs d). tok_id t = int i \<and> dec_probs d ! i > 0"
proof -
  from assms(3) obtain m where "tok_id t = int (f m (dec_probs d))"
    by (auto simp: whisper_sample_token_topk_def Let_def)
  then show ?thesis using assms(1,2) by (auto simp: fair_draw_def)
qed

lemma probs_alive:
  assumes "agree ls lps" "finite_logits ls \<noteq> []"
  shows "\<exists>p \<in> set (map prob_of lps). p > 0"
proof -
  from assms(2) obtain x where "Some x \<in> set ls" using set_finite_logits [of ls] by (cases "finite_logits ls") auto
  then obtain i where "i < length ls" "ls ! i \<noteq> None" by (auto simp: in_set_conv_nth)
  with assms(1) have i: "i < length lps" "lps ! i \<noteq> None" by (auto simp: agree_def)
  then have "map prob_of lps ! i > 0" by (simp add: prob_of_pos)
  with i(1) show ?thesis by (metis length_map nth_mem)
qed

lemma positive_obeys:
  assumes p: "whisper_process_logits depth gf n ps voc t row d = Some d'"
    and c: "logits_filter_callback ps = None" and v: "vocab_ok voc" "int (length row) = n_vocab voc"
    and i: "i < length (dec_probs d')" "dec_probs d' ! i > 0"
  shows "int i < n_vocab voc \<and> dec_logits d' ! i \<noteq> None \<and> obeys_filters n ps voc d (int i)"
proof -
  note s = process_logits_spec [OF p c v]
  define ls where "ls = dec_logits d'"
  define lps where "lps = dec_logprobs d'"
  have pr: "dec_probs d' = map prob_of lps" using s unfolding lps_def
    by (metis whisper_decoder.select_convs(10) whisper_decoder.surjective whisper_decoder.update_convs(10))
  have "length ls = length row" "agree ls lps" using s by (simp_all add: ls_def lps_def)
  then have "i < length ls" "lps ! i \<noteq> None" using i by (auto simp: pr prob_of_pos agree_def)
  then have "ls ! i \<noteq> None" "int i < n_vocab voc"
    using \<open>agree ls lps\<close> \<open>length ls = length row\<close> v(2) by (fastforce simp: agree_def)+
  with s show ?thesis by (simp add: ls_def)
qed

text \<open>C27: Whatever the network computes, a sampled token obeys the filters: it is no task, language or other
  special token, timestamps come in pairs, the first one is not later than \<open>max_initial_ts\<close>, and no
  timestamp is earlier than the last one.  This holds for the greedy choice, for a random draw and for
  every candidate of a beam, as long as some logit survives and a draw has positive probability.\<close>

theorem sampled_token_obeys_filters:
  assumes "load_vocab ws nv = Some voc" "51864 \<le> nv" "nv \<le> 51866" "int (length row) = nv"
    and "logits_filter_callback ps = None"
    and "whisper_process_logits depth gf n_audio_ctx ps voc temp row d = Some d'"
    and "finite_logits (dec_logits d') \<noteq> []" and "\<forall>m. fair_draw (draw m)"
    and "t \<in> set (whisper_sample_token voc d' best (draw 0) # whisper_sample_token_topk voc d' k draw)"
  shows "0 \<le> tok_id t \<and> tok_id t < n_vocab voc \<and> obeys_filters n_audio_ctx ps voc d (tok_id t)"
proof -
  from load_vocab_ok [OF assms(1-3)] have v: "vocab_ok voc" "int (length row) = n_vocab voc" using assms(4) by simp_all
  note s = process_logits_spec [OF assms(6,5) v]
  have "dec_probs d' = map prob_of (dec_logprobs d')" using s
    by (metis whisper_decoder.select_convs(10) whisper_decoder.surjective whisper_decoder.update_convs(10))
  then have alive: "\<exists>p \<in> set (dec_probs d'). p > 0" using probs_alive [OF _ assms(7)] s by simp
  have "\<exists>i < length (dec_probs d'). tok_id t = int i \<and> dec_probs d' ! i > 0"
    using assms(8,9) sample_token_alive [OF alive, of best "draw 0" voc] sample_topk_alive [OF alive, of draw t voc k] by auto
  then obtain i where i: "i < length (dec_probs d')" "dec_probs d' ! i > 0" "tok_id t = int i" by blast
  from positive_obeys [OF assms(6,5) v i(1,2)] i(3) show ?thesis by simp
qed

text \<open>C28: The probabilities of the next token lie between zero and one, exactly the removed tokens have
  probability zero, and they sum to one unless all text tokens have been removed in favour of a
  timestamp.  The greedy choice is a token of the largest probability.\<close>

theorem token_probabilities:
  assumes "logits_filter_callback ps = None" and "vocab_ok voc" "int (length row) = n_vocab voc"
    and "whisper_process_logits depth gf n_audio_ctx ps voc temp row d = Some d'"
    and "finite_logits (dec_logits d') \<noteq> []"
  shows "length (dec_probs d') = length row \<and>
    (\<forall>i < length row. 0 \<le> dec_probs d' ! i \<and> dec_probs d' ! i \<le> 1 \<and> (dec_probs d' ! i = 0 \<longleftrightarrow> dec_logits d' ! i = None)) \<and>
    sum_list (dec_probs d') \<le> 1 \<and>
    ((\<exists>i < nat (token_beg voc). dec_logits d' ! i \<noteq> None) \<longrightarrow> sum_list (dec_probs d') = 1) \<and>
    (let t = whisper_sample_token voc d' True f in
       tok_p t = dec_probs d' ! nat (tok_id t) \<and> (\<forall>p \<in> set (dec_probs d'). p \<le> tok_p t))"
proof -
  from assms(4) obtain ls l lps where f: "filter_logits n_audio_ctx ps voc d (scale_logits temp row) = Some ls"
    and ch: "choose_timestamp_or_text depth gf ps voc d ls = Some (l, lps)"
    and d': "d' = d\<lparr>dec_logits := l, dec_logprobs := lps, dec_probs := whisper_compute_probs l lps\<rparr>"
    by (auto simp: whisper_process_logits_def split: option.splits)
  have alive: "finite_logits ls \<noteq> []" using choose_kills [OF ch] assms(5) only_kills_finite by (auto simp: d')
  note c = choose_spec [OF ch alive]
  have pr: "dec_probs d' = map prob_of lps" using agree_probs c by (simp add: d')
  have len: "length l = length row" using process_logits_spec [OF assms(4,1,2,3)] by (simp add: d')
  then have lp: "length lps = length row" using c by (simp add: agree_def)
  have nb: "nat (token_beg voc) < length row"
    using assms(3) assms(2) [unfolded vocab_ok_def] by linarith
  have le1: "q \<le> 1" if "q \<in> set (dec_probs d')" for q
  proof -
    have "q \<le> sum_list (map prob_of lps)"
      using that unfolding pr by (intro member_le_sum_list) auto
    with c show ?thesis by linarith
  qed
  have each: "0 \<le> dec_probs d' ! i \<and> dec_probs d' ! i \<le> 1 \<and> (dec_probs d' ! i = 0 \<longleftrightarrow> dec_logits d' ! i = None)"
    if "i < length row" for i
  proof -
    have "dec_probs d' ! i \<in> set (dec_probs d')" using that lp by (simp add: pr)
    from le1 [OF this] have "dec_probs d' ! i \<le> 1" .
    moreover have "dec_probs d' ! i = prob_of (lps ! i)" using that lp by (simp add: pr)
    moreover have "lps ! i = None \<longleftrightarrow> dec_logits d' ! i = None"
      using c that len by (simp add: d' agree_def)
    ultimately show ?thesis using prob_of_pos [of "lps ! i"] prob_of_nonneg [of "lps ! i"] by linarith
  qed
  obtain k p where kp: "arg_max_loop 0 (dec_probs d') (0, 0) = (k, p)" by (metis surj_pair)
  have "finite_logits l \<noteq> []" using assms(5) by (simp add: d')
  then have "\<exists>q \<in> set (dec_probs d'). q > 0" unfolding pr by (intro probs_alive) (use c in auto)
  with arg_max_loop_spec [OF kp] have "p > 0" "\<forall>q \<in> set (dec_probs d'). q \<le> p" by force+
  moreover from this(1) arg_max_loop_spec [OF kp] have "dec_probs d' ! nat k = p" by auto
  ultimately have "let t = whisper_sample_token voc d' True f in
       tok_p t = dec_probs d' ! nat (tok_id t) \<and> (\<forall>p \<in> set (dec_probs d'). p \<le> tok_p t)"
    by (simp add: whisper_sample_token_def kp make_token_def Let_def case_prod_unfold)
  moreover have "sum_list (dec_probs d') = 1" if "\<exists>i < nat (token_beg voc). dec_logits d' ! i \<noteq> None"
  proof -
    from that nb len have "\<exists>i < nat (token_beg voc). i < length l \<and> l ! i \<noteq> None" by (auto simp: d')
    with c show ?thesis unfolding pr by blast
  qed
  moreover have "sum_list (dec_probs d') \<le> 1" "length (dec_probs d') = length row" using c lp by (simp_all add: pr)
  ultimately show ?thesis using each by blast
qed

section \<open>Examples\<close>

definition plain_params :: whisper_full_params where
  "plain_params = (whisper_full_default_params SAMPLING_GREEDY)\<lparr>suppress_blank := False\<rparr>"

definition fresh_decoder :: whisper_decoder where
  "fresh_decoder = \<lparr>sequence = \<lparr>seq_tokens = [], result_len = 0, sum_logprobs_all = 0, sum_logprobs = None,
      avg_logprobs = None, entropy = 0, score = None\<rparr>,
     grammar = \<lparr>grules = [], gstacks = [], partial_utf8 = \<lparr>pvalue = 0, n_remain = 0\<rparr>\<rparr>, i_batch = 0, seek_delta = 3000,
     dec_failed = False, dec_completed = False, has_ts = False, dec_logits = [], dec_logprobs = [], dec_probs = []\<rparr>"

definition first_positive :: "real list \<Rightarrow> nat" where
  "first_positive ps = length (takeWhile (\<lambda>p. \<not> p > 0) ps)"

lemma fair_first_positive: "fair_draw first_positive"
  unfolding fair_draw_def
proof (intro allI impI)
  fix ps :: "real list" assume "\<exists>p \<in> set ps. p > 0"
  then have "takeWhile (\<lambda>p. \<not> p > 0) ps \<noteq> ps" by (auto simp: takeWhile_eq_all_conv)
  then have l: "length (takeWhile (\<lambda>p. \<not> p > 0) ps) < length ps"
    by (metis length_takeWhile_le le_neq_implies_less takeWhile_eq_take take_all_iff order_refl)
  with nth_length_takeWhile [OF l] show "first_positive ps < length ps \<and> ps ! first_positive ps > 0"
    by (simp add: first_positive_def)
qed

text \<open>With uniform logits and no parameters that suppress text a processed decoder has a live logit.\<close>

lemma finite_logits_alive: "finite_logits ls \<noteq> [] \<longleftrightarrow> (\<exists>i < length ls. ls ! i \<noteq> None)"
  by (auto simp: finite_logits_empty subset_iff in_set_conv_nth)

lemma choose_keeps_alive:
  assumes "finite_logits ls \<noteq> []" "choose_timestamp_or_text depth gf ps voc d ls = Some (l, lps)"
  shows "finite_logits l \<noteq> []"
proof (cases "opt_less (opt_max (take (nat (token_beg voc)) (whisper_compute_logprobs ls)))
    (log_sum_exp (drop (nat (token_beg voc)) (whisper_compute_logprobs ls)))")
  case True
  then have l: "l = suppress_range 0 (token_beg voc) ls"
    using assms(2) by (simp add: choose_timestamp_or_text_def Let_def)
  from True have "log_sum_exp (drop (nat (token_beg voc)) (whisper_compute_logprobs ls)) \<noteq> None"
    by (auto simp: opt_less_def split: option.splits)
  then have "finite_logits (drop (nat (token_beg voc)) (whisper_compute_logprobs ls)) \<noteq> []"
    by (auto simp: log_sum_exp_eq split: if_splits)
  then obtain i where i: "i < length ls - nat (token_beg voc)" "whisper_compute_logprobs ls ! (nat (token_beg voc) + i) \<noteq> None"
    by (auto simp: finite_logits_empty subset_iff in_set_conv_nth)
  then have "l ! (nat (token_beg voc) + i) \<noteq> None" "nat (token_beg voc) + i < length l"
    by (auto simp: l suppress_range_nth logprobs_None)
  then have "\<not> set l \<subseteq> {None}" by (metis empty_iff insert_iff nth_mem subsetD)
  then show ?thesis by (simp add: finite_logits_empty)
next
  case False
  with assms consider "l = ls" | vs where "whisper_suppress_invalid_grammar depth gf (grammar_penalty ps) vs ls (grammar d) = Some l"
    by (auto simp: choose_timestamp_or_text_def Let_def split: if_splits)
  then show ?thesis using assms(1) suppress_grammar_None unfolding finite_logits_alive by cases metis+
qed

text \<open>Without a callback, a regular expression and the suppression of non-speech tokens some logit always
  survives.\<close>

lemma filter_leaves_one:
  assumes f: "filter_logits n ps voc d (scale_logits t row) = Some ls" and c: "logits_filter_callback ps = None"
    and p: "suppress_regex ps = None" "\<not> suppress_nst ps" "0 \<le> n" and v: "vocab_ok voc" "int (length row) = n_vocab voc"
  shows "finite_logits ls \<noteq> []"
proof -
  let ?toks = "seq_tokens (sequence d)" and ?l0 = "scale_logits t row"
  from f c p obtain l1 where l1: "suppress_blank_tokens ps voc ?toks ?l0 = Some l1"
    and ls: "ls = increasing_rule voc d (initial_rule n ps voc ?toks (pair_rule voc ?toks (suppress_special ps voc l1)))"
    by (auto simp: filter_logits_def suppress_matching_def Let_def split: option.splits)
  have len: "length l1 = length row" using only_kills_length [OF suppress_blank_kills [OF l1]] by (simp add: scale_logits_def)
  have lens: "length (suppress_special ps voc l1) = length row"
    using len only_kills_length [OF suppress_special_kills [of l1 ps voc]] by simp
  have lenp: "length (pair_rule voc ?toks (suppress_special ps voc l1)) = length row"
    using lens only_kills_length [OF rules_kill(1)] by metis
  have leni: "length (initial_rule n ps voc ?toks (pair_rule voc ?toks (suppress_special ps voc l1))) = length row"
    using lenp only_kills_length [OF rules_kill(2)] by metis
  have lenl: "length ls = length row" using leni only_kills_length [OF rules_kill(3)] unfolding ls by metis
  have vo: "1 < token_eot voc" "token_eot voc < token_sot voc" "token_sot voc < token_beg voc" "token_beg voc < n_vocab voc"
    "\<forall>t \<in> {token_not voc, token_sot voc, token_nosp voc, token_translate voc, token_transcribe voc, token_prev voc, token_solm voc}.
       token_sot voc \<le> t" using v(1) by (auto simp: vocab_ok_def)
  have late: "ls ! k = pair_rule voc ?toks (suppress_special ps voc l1) ! k" if "int k < token_beg voc" for k
  proof -
    have k: "k < length row" using that vo v(2) by simp
    have "ls ! k = initial_rule n ps voc ?toks (pair_rule voc ?toks (suppress_special ps voc l1)) ! k"
      using that k leni unfolding ls increasing_rule_def by (simp add: suppress_range_nth)
    also have "\<dots> = pair_rule voc ?toks (suppress_special ps voc l1) ! k"
    proof (cases "max_initial_ts ps > 0")
      case True
      then have "0 \<le> max_initial_ts ps / (30 / real_of_int n)" using p(3) by simp
      then have "0 \<le> round (max_initial_ts ps / (30 / real_of_int n))"
        using round_mono [of 0 "max_initial_ts ps / (30 / real_of_int n)"] by simp
      then have "\<not> token_beg voc + round (max_initial_ts ps / (30 / real_of_int n)) + 1 \<le> int k" using that by linarith
      moreover have "k < length (pair_rule voc ?toks (suppress_special ps voc l1))" using k lenp by simp
      ultimately show ?thesis unfolding initial_rule_def by (cases "?toks = []") (simp_all add: suppress_range_nth)
    qed (simp add: initial_rule_def)
    finally show ?thesis .
  qed
  have special: "suppress_special ps voc l1 ! k \<noteq> None" if "int k \<le> token_eot voc" "l1 ! k \<noteq> None" for k
  proof -
    have k: "k < length l1" using that vo v(2) len by simp
    have "k \<notin> nat ` {token_not voc, token_sot voc, token_nosp voc, token_translate voc, token_transcribe voc, token_prev voc}"
      "k \<noteq> nat (token_solm voc)" using that(1) vo by auto
    then show ?thesis using that vo by (auto simp: suppress_special_nth [OF k] whisper_token_lang_def)
  qed
  have l1k: "l1 ! k \<noteq> None" if "k < length row" "?toks = [] \<longrightarrow> int k \<noteq> token_eot voc \<and> (\<forall>sp. token_to_id voc (bytes '' '') = Some sp \<longrightarrow> nat sp \<noteq> k)" for k
    using l1 that vo(1) by (auto simp: suppress_blank_tokens_def suppress_nth scale_logits_def split: if_splits)
  have rows: "nat (token_eot voc) < length row" "0 < length row" "Suc 0 < length row" using vo v(2) by linarith+
  consider (first) "?toks = []"
    | (close) "?toks \<noteq> []" "tok_id (last ?toks) \<ge> token_beg voc" "\<not> (length ?toks < 2 \<or> tok_id (?toks ! (length ?toks - 2)) \<ge> token_beg voc)"
    | (other) "?toks \<noteq> []" "tok_id (last ?toks) \<ge> token_beg voc \<longrightarrow> length ?toks < 2 \<or> tok_id (?toks ! (length ?toks - 2)) \<ge> token_beg voc"
    by blast
  then have "\<exists>k. int k < token_beg voc \<and> pair_rule voc ?toks (suppress_special ps voc l1) ! k \<noteq> None"
  proof cases
    case first
    have "\<exists>k \<in> {0, 1}. \<forall>sp. token_to_id voc (bytes '' '') = Some sp \<longrightarrow> nat sp \<noteq> k"
      by (cases "token_to_id voc (bytes '' '')") auto
    then obtain k where k: "k = 0 \<or> k = 1" "\<forall>sp. token_to_id voc (bytes '' '') = Some sp \<longrightarrow> nat sp \<noteq> k" by blast
    then have "int k < token_eot voc" "k < length row" using vo rows by auto
    then have "suppress_special ps voc l1 ! k \<noteq> None" using special l1k k(2) by force
    then show ?thesis using first \<open>int k < token_eot voc\<close> vo by (intro exI [of _ k]) (simp add: pair_rule_def)
  next
    case close
    have "suppress_special ps voc l1 ! nat (token_eot voc) \<noteq> None"
      using special l1k rows vo close(1) by simp
    then show ?thesis using close vo lens rows by (intro exI [of _ "nat (token_eot voc)"]) (simp add: pair_rule_def suppress_range_nth)
  next
    case other
    have "suppress_special ps voc l1 ! 0 \<noteq> None" using special l1k rows vo other(1) by simp
    then show ?thesis using other vo lens rows by (intro exI [of _ 0]) (auto simp: pair_rule_def suppress_range_nth Let_def)
  qed
  then obtain k where k: "int k < token_beg voc" "ls ! k \<noteq> None" using late by metis
  then have "k < length ls" using vo v(2) lenl by simp
  with k(2) show ?thesis unfolding finite_logits_alive by blast
qed

lemma uniform_example:
  assumes "load_vocab [] 51865 = Some voc"
  shows "\<exists>d'. whisper_process_logits 0 0 1500 plain_params voc 0 (replicate 51865 0) fresh_decoder = Some d' \<and>
    finite_logits (dec_logits d') \<noteq> []"
proof -
  have v: "vocab_ok voc" "n_vocab voc = 51865" using load_vocab_ok [OF assms] by simp_all
  define row :: "real list" where "row = replicate 51865 0"
  have lr: "length row = 51865" by (simp only: row_def length_replicate)
  define ls where "ls = initial_rule 1500 plain_params voc [] (suppress_special plain_params voc (scale_logits 0 row))"
  have f: "filter_logits 1500 plain_params voc fresh_decoder (scale_logits 0 row) = Some ls"
    by (simp add: filter_logits_def plain_params_def whisper_full_default_params_def suppress_blank_tokens_def
        suppress_matching_def pair_rule_def increasing_rule_def fresh_decoder_def ls_def Let_def)
  have l0: "length (scale_logits 0 row) = 51865" using lr by (simp add: scale_logits_def)
  have s0: "scale_logits 0 row ! 0 = Some (row ! 0)" using lr by (simp add: scale_logits_def)
  have "0 \<notin> nat ` {token_not voc, token_sot voc, token_nosp voc, token_translate voc, token_transcribe voc, token_prev voc}"
    "\<not> whisper_token_lang voc 0 \<le> 0" "0 \<noteq> nat (token_solm voc)" "\<not> no_timestamps plain_params"
    using v(1) by (auto simp: vocab_ok_def whisper_token_lang_def plain_params_def whisper_full_default_params_def)
  then have a: "suppress_special plain_params voc (scale_logits 0 row) ! 0 \<noteq> None"
    using suppress_special_nth [of 0 "scale_logits 0 row" plain_params voc] l0 s0 by simp
  have "\<not> token_beg voc + round (max_initial_ts plain_params / (30 / real_of_int 1500)) + 1 \<le> 0"
    using v(1) by (simp add: vocab_ok_def plain_params_def whisper_full_default_params_def)
  then have "ls ! 0 \<noteq> None" "length ls = 51865"
    using a l0 only_kills_length [OF suppress_special_kills [of "scale_logits 0 row" plain_params voc]]
    unfolding ls_def initial_rule_def by (simp_all add: suppress_range_nth)
  then have "\<not> set ls \<subseteq> {None}" by (metis empty_iff insert_iff nth_mem subsetD zero_less_numeral)
  then have alive: "finite_logits ls \<noteq> []" by (simp add: finite_logits_empty)
  have g: "grammar_rules plain_params = []" by (simp add: plain_params_def whisper_full_default_params_def)
  then have "choose_timestamp_or_text 0 0 plain_params voc fresh_decoder ls \<noteq> None"
    by (simp add: choose_timestamp_or_text_def Let_def)
  then obtain l lps where c: "choose_timestamp_or_text 0 0 plain_params voc fresh_decoder ls = Some (l, lps)" by auto
  from choose_keeps_alive [OF alive c] f c show ?thesis
    unfolding row_def [symmetric] by (auto simp: whisper_process_logits_def)
qed

lemma small_vocab_loads: "\<exists>voc. load_vocab [] 51865 = Some voc"
proof -
  define v1 where "v1 = shift_special 51865 (load_words 0 [] default_vocab)"
  have "num_languages v1 \<le> 100"
    by (simp add: v1_def shift_special_def default_vocab_def is_multilingual_def num_languages_def)
  from add_extra_spec [OF this, of "[0..51864]"] show ?thesis by (auto simp: load_vocab_defs v1_def)
qed

theorem sampled_token_obeys_filters_witness:
  "\<exists>voc d'. whisper_process_logits 0 0 1500 plain_params voc 0 (replicate 51865 0) fresh_decoder = Some d' \<and>
    tok_id (whisper_sample_token voc d' True first_positive) \<le> token_beg voc + 50"
proof -
  obtain voc where voc: "load_vocab [] 51865 = Some voc" using small_vocab_loads by blast
  from uniform_example [OF voc] obtain d' where d':
    "whisper_process_logits 0 0 1500 plain_params voc 0 (replicate 51865 0) fresh_decoder = Some d'"
    "finite_logits (dec_logits d') \<noteq> []" by blast
  have "logits_filter_callback plain_params = None" "max_initial_ts plain_params = 1"
    by (simp_all add: plain_params_def whisper_full_default_params_def)
  with sampled_token_obeys_filters [OF voc _ _ _ _ d', of "\<lambda>_. first_positive" "whisper_sample_token voc d' True first_positive" True]
  have "obeys_filters 1500 plain_params voc fresh_decoder (tok_id (whisper_sample_token voc d' True first_positive))"
    by (simp add: fair_first_positive)
  then have "tok_id (whisper_sample_token voc d' True first_positive) \<le> token_beg voc + 50"
    using \<open>max_initial_ts plain_params = 1\<close> by (simp add: obeys_filters_def fresh_decoder_def Let_def)
  with d'(1) show ?thesis by blast
qed

theorem token_probabilities_witness:
  "\<exists>voc d'. whisper_process_logits 0 0 1500 plain_params voc 0 (replicate 51865 0) fresh_decoder = Some d' \<and>
    sum_list (dec_probs d') \<le> 1"
proof -
  obtain voc where voc: "load_vocab [] 51865 = Some voc" using small_vocab_loads by blast
  from uniform_example [OF voc] obtain d' where d':
    "whisper_process_logits 0 0 1500 plain_params voc 0 (replicate 51865 0) fresh_decoder = Some d'"
    "finite_logits (dec_logits d') \<noteq> []" by blast
  have c: "logits_filter_callback plain_params = None"
    by (simp add: plain_params_def whisper_full_default_params_def)
  have "vocab_ok voc" "int (length (replicate 51865 (0 :: real))) = n_vocab voc"
    using load_vocab_ok [OF voc] by simp_all
  from token_probabilities [OF c this d'] d'(1) show ?thesis by blast
qed

end
