(* ===== verification/Decoder_Loop.thy ===== *)
theory Decoder_Loop
  imports Kv_Cache Segment_Output Logits_Filter "HOL-Library.Product_Lexorder"
begin

text \<open>
  The decoding of one window in \<open>whisper_full_with_state\<close>: initialising the decoders, sampling
  (greedy or beam search), the exchange of caches, updating the decoders, the batches of the next
  step, scoring, and the choice of the best decoder.

  The neural network and the random generator are arguments: the rows of logits of a step, whether its
  computation succeeds, and what is drawn may be any function of the position in the run.  The loops
  over the decoders that the source spreads over threads touch one decoder each; the model runs
  them in order.  A result is
  \<open>Some (Inr x)\<close>, \<open>Some (Inl c)\<close> for a \<open>return c\<close> of \<open>whisper_full_with_state\<close>, or \<open>None\<close> for an
  exception, a failed assertion or an access outside a vector.
\<close>

type_synonym 'a result = "(int + 'a) option"

definition WHISPER_CHUNK_SIZE :: int where "WHISPER_CHUNK_SIZE = 30"
definition delta_min :: int where "delta_min = 10"

section \<open>Initialising a decoder\<close>

definition empty_grammar :: whisper_grammar where
  "empty_grammar = \<lparr>grules = [], gstacks = [], partial_utf8 = \<lparr>pvalue = 0, n_remain = 0\<rparr>\<rparr>"

definition decoder_reset :: "nat \<Rightarrow> whisper_full_params \<Rightarrow> whisper_decoder \<Rightarrow> whisper_decoder option" where
  "decoder_reset gfuel ps d =
    map_option
      (\<lambda>g. d\<lparr>sequence := \<lparr>seq_tokens = [], result_len = 0, sum_logprobs_all = 0, sum_logprobs = None,
                          avg_logprobs = None, entropy = 0, score = None\<rparr>,
             seek_delta := 100 * WHISPER_CHUNK_SIZE, dec_failed := False, dec_completed := False,
             has_ts := False, grammar := g\<rparr>)
      (if grammar_rules ps \<noteq> [] then whisper_grammar_init gfuel (grammar_rules ps) (i_start_rule ps)
       else Some empty_grammar)"

section \<open>The constants of a window\<close>

text \<open>
  The fuel of the grammar functions, the model and its parameters, the temperature, what the network
  and the generator yield (\<open>w_net\<close> and \<open>w_ok\<close> at computation \<open>i\<close>; \<open>w_draw\<close> at step \<open>i\<close> for
  decoder \<open>j\<close> and candidate \<open>k\<close>), the length of the prompt, and the bounds of the loop and of the audio.
\<close>

record window =
  w_depth :: nat
  w_gfuel :: nat
  w_n_audio_ctx :: int
  w_params :: whisper_full_params
  w_vocab :: whisper_vocab
  w_loaded :: bool
  w_t_cur :: real
  w_draw :: "nat \<Rightarrow> nat \<Rightarrow> nat \<Rightarrow> real list \<Rightarrow> nat"
  w_net :: "nat \<Rightarrow> nat \<Rightarrow> real list"
  w_ok :: "nat \<Rightarrow> bool"
  w_n_prompt :: nat
  w_n_max :: int
  w_seek :: int
  w_seek_end :: int

section \<open>Sampling\<close>

definition push_token :: "whisper_token_data \<Rightarrow> whisper_sequence \<Rightarrow> whisper_sequence" where
  "push_token t s = s\<lparr>seq_tokens := seq_tokens s @ [t], sum_logprobs_all := sum_logprobs_all s + tok_plog t\<rparr>"

definition greedy_sample :: "window \<Rightarrow> nat \<Rightarrow> whisper_decoder list \<Rightarrow> whisper_decoder list" where
  "greedy_sample w i ds =
    map (\<lambda>(j, d).
           if running d
           then d\<lparr>sequence := push_token (whisper_sample_token (w_vocab w) d (w_t_cur w < 1 / 1000000) (w_draw w i j 0))
                                 (sequence d)\<rparr>
           else d)
      (enumerate 0 ds)"

record beam_candidate =
  decoder_idx :: nat
  cand_seek_delta :: int
  cand_has_ts :: bool
  cand_sequence :: whisper_sequence
  cand_grammar :: whisper_grammar

definition candidates_of :: "nat \<Rightarrow> whisper_decoder \<Rightarrow> whisper_token_data list \<Rightarrow> beam_candidate list" where
  "candidates_of j d toks =
    map (\<lambda>t. \<lparr>decoder_idx = j, cand_seek_delta = seek_delta d, cand_has_ts = has_ts d,
              cand_sequence = push_token t (sequence d), cand_grammar = grammar d\<rparr>) toks"

text \<open>The comparison orders by the log probability first; \<open>std::sort\<close> leaves the order of equal
  elements open, the model keeps it.\<close>

definition beam_candidates :: "window \<Rightarrow> nat \<Rightarrow> whisper_decoder list \<Rightarrow> beam_candidate list" where
  "beam_candidates w i ds =
    sort_key (\<lambda>c. (- sum_logprobs_all (cand_sequence c), decoder_idx c))
      (concat (map (\<lambda>(j, d). if running d
                              then candidates_of j d
                                     (whisper_sample_token_topk (w_vocab w) d (nat (beam_size (w_params w))) (w_draw w i j))
                              else [])
                 (enumerate 0 ds)))"

definition whisper_sequence_tokens_equal :: "whisper_sequence \<Rightarrow> whisper_sequence \<Rightarrow> bool" where
  "whisper_sequence_tokens_equal a b \<longleftrightarrow>
    length (seq_tokens a) = length (seq_tokens b) \<and>
    list_all2 (\<lambda>x y. tok_id x = tok_id y) (rev (seq_tokens a)) (rev (seq_tokens b))"

function skip_equal :: "beam_candidate list \<Rightarrow> beam_candidate \<Rightarrow> nat \<Rightarrow> nat \<Rightarrow> nat" where
  "skip_equal cands cur i c =
    (if length cands > c \<and> whisper_sequence_tokens_equal (cand_sequence (cands ! c)) (cand_sequence cur) \<and> i > 0
     then skip_equal cands cur i (c + 1) else c)"
  by pat_completeness auto
termination by (relation "measure (\<lambda>(cands, cur, i, c). length cands - c)") auto

declare skip_equal.simps [simp del]

definition take_candidate :: "beam_candidate \<Rightarrow> whisper_decoder \<Rightarrow> whisper_decoder" where
  "take_candidate cur d =
    d\<lparr>seek_delta := cand_seek_delta cur, has_ts := cand_has_ts cur, sequence := cand_sequence cur,
      grammar := cand_grammar cur\<rparr>"

text \<open>The running decoders take the candidates in order; the result pairs a decoder with the index of
  the decoder its candidate comes from.  An empty candidate list is an access outside the vector.\<close>

fun assign_beams ::
  "beam_candidate list \<Rightarrow> nat \<Rightarrow> nat list \<Rightarrow> nat \<Rightarrow> whisper_decoder list \<Rightarrow>
   (whisper_decoder list \<times> (nat \<times> nat) list) option" where
  "assign_beams cands i [] cur_c ds = Some (ds, [])"
| "assign_beams cands i (j # js) cur_c ds =
    (if \<not> running (ds ! j) then assign_beams cands i js cur_c ds
     else if cands = [] then None
     else
       (let c0 = (if cur_c \<ge> length cands then 0 else cur_c);
            cur = cands ! c0
        in map_option (\<lambda>(ds', src). (ds', (j, decoder_idx cur) # src))
             (assign_beams cands i js (skip_equal cands cur i (c0 + 1)) (ds[j := take_candidate cur (ds ! j)]))))"

definition src_of :: "(nat \<times> nat) list \<Rightarrow> int \<Rightarrow> int" where
  "src_of src j = (case map_of src (nat j) of None \<Rightarrow> j | Some k \<Rightarrow> int k)"

definition beam_step ::
  "window \<Rightarrow> nat \<Rightarrow> whisper_decoder list \<Rightarrow> whisper_kv_cache \<Rightarrow>
   (whisper_decoder list \<times> whisper_kv_cache) option" where
  "beam_step w i ds kv =
    map_option (\<lambda>(ds', src). (ds', beam_exchange (src_of src) (map (int \<circ> fst) src) kv))
      (assign_beams (beam_candidates w i ds) i [0..<length ds] 0 ds)"

section \<open>Updating a decoder\<close>

definition set_result_len :: "int \<Rightarrow> whisper_decoder \<Rightarrow> whisper_decoder" where
  "set_result_len n d = d\<lparr>sequence := (sequence d)\<lparr>result_len := n\<rparr>\<rparr>"

definition end_of_segment ::
  "whisper_full_params \<Rightarrow> whisper_vocab \<Rightarrow> nat \<Rightarrow> int \<Rightarrow> int \<Rightarrow> int \<Rightarrow> whisper_decoder \<Rightarrow> bool" where
  "end_of_segment ps voc i seek seek_end t d \<longleftrightarrow>
    t = token_eot voc \<or> (max_tokens ps > 0 \<and> int i \<ge> max_tokens ps) \<or>
    (has_ts d \<and> seek + seek_delta d + delta_min \<ge> seek_end)"

definition finish_segment ::
  "whisper_full_params \<Rightarrow> nat \<Rightarrow> int \<Rightarrow> int \<Rightarrow> whisper_decoder \<Rightarrow> whisper_decoder" where
  "finish_segment ps i seek seek_end d =
    (if result_len (sequence d) = 0 \<and> \<not> no_timestamps ps \<and> \<not> seek + seek_delta d + delta_min \<ge> seek_end
     then d\<lparr>dec_failed := True\<rparr>
     else
       (let d1 = (if result_len (sequence d) = 0 \<and> \<not> no_timestamps ps then set_result_len (int i + 1) d else d);
            d2 = (if single_segment ps \<or> no_timestamps ps
                  then (set_result_len (int i + 1) d1)\<lparr>seek_delta := 100 * WHISPER_CHUNK_SIZE\<rparr> else d1)
        in d2\<lparr>dec_completed := True\<rparr>))"

definition note_timestamp :: "whisper_vocab \<Rightarrow> nat \<Rightarrow> int \<Rightarrow> whisper_decoder \<Rightarrow> whisper_decoder" where
  "note_timestamp voc i t d =
    (if t > token_beg voc
     then (set_result_len (int i + 1) d)\<lparr>seek_delta := 2 * (t - token_beg voc), has_ts := True\<rparr> else d)"

definition update_decoder ::
  "nat \<Rightarrow> whisper_full_params \<Rightarrow> whisper_vocab \<Rightarrow> bool \<Rightarrow> nat \<Rightarrow> int \<Rightarrow> int \<Rightarrow> int \<Rightarrow> whisper_decoder \<Rightarrow>
   whisper_decoder option" where
  "update_decoder gfuel ps voc loaded i n_max seek seek_end d =
    (if \<not> running d then Some d
     else
       (let t = tok_id (last (seq_tokens (sequence d))) in
        if t > token_beg voc \<and> has_ts d \<and> seek_delta d > 2 * (t - token_beg voc) \<and> result_len (sequence d) < int i
        then Some (d\<lparr>dec_failed := True\<rparr>)
        else
          (let d1 = note_timestamp voc i t d in
           case whisper_grammar_accept_token gfuel (token_text_or_empty voc t) (grammar d1) of
             None \<Rightarrow> None
           | Some g \<Rightarrow>
               (let d2 = d1\<lparr>grammar := g\<rparr> in
                if end_of_segment ps voc i seek seek_end t d2 then Some (finish_segment ps i seek seek_end d2)
                else if \<not> loaded then Some (d2\<lparr>seek_delta := 100 * WHISPER_CHUNK_SIZE, dec_completed := True\<rparr>)
                else if int i = n_max - 1 \<and> (result_len (sequence d2) = 0 \<or> seek_delta d2 < cdiv (100 * WHISPER_CHUNK_SIZE) 2)
                then Some (d2\<lparr>dec_failed := True\<rparr>)
                else Some d2))))"

fun update_all :: "(whisper_decoder \<Rightarrow> whisper_decoder option) \<Rightarrow> whisper_decoder list \<Rightarrow> whisper_decoder list option" where
  "update_all f [] = Some []"
| "update_all f (d # ds) =
    (case f d of None \<Rightarrow> None | Some d' \<Rightarrow> map_option (Cons d') (update_all f ds))"

section \<open>The decoding loop of a window\<close>

text \<open>The batch of the next step: the last token of every running decoder at position \<open>n_past\<close>; a
  decoder notes its index in the batch.\<close>

fun next_batch :: "int \<Rightarrow> nat \<Rightarrow> nat \<Rightarrow> whisper_decoder list \<Rightarrow> whisper_decoder list \<times> kv_batch" where
  "next_batch n_past j n [] = ([], [])"
| "next_batch n_past j n (d # ds) =
    (if running d
     then (let (ds', b) = next_batch n_past (j + 1) (n + 1) ds in 
            (d\<lparr>i_batch := int n\<rparr> # ds', (tok_id (last (seq_tokens (sequence d))), n_past, [int j]) # b))
     else (let (ds', b) = next_batch n_past (j + 1) n ds in (d # ds', b)))"

text \<open>\<open>whisper_decode_internal\<close>: a slot must be found and the computation must succeed, which then has stored the
  keys and values of the batch from the head of the cache on.\<close>

definition whisper_decode_internal :: "kv_batch \<Rightarrow> bool \<Rightarrow> whisper_kv_cache \<Rightarrow> whisper_kv_cache option" where
  "whisper_decode_internal b ok kv =
    (let (found, kv') = whisper_kv_cache_find_slot kv b
     in if found \<and> ok then Some (kv'\<lparr>rows := store_rows (rows kv') (head kv') b\<rparr>) else None)"

definition sample_step ::
  "window \<Rightarrow> nat \<Rightarrow> whisper_decoder list \<Rightarrow> whisper_kv_cache \<Rightarrow> (whisper_decoder list \<times> whisper_kv_cache) option"
where
  "sample_step w i ds kv =
    (if strategy (w_params w) = SAMPLING_BEAM_SEARCH then beam_step w i ds kv else Some (greedy_sample w i ds, kv))"

definition process_decoder :: "window \<Rightarrow> real list \<Rightarrow> whisper_decoder \<Rightarrow> whisper_decoder option" where
  "process_decoder w row d =
    whisper_process_logits (w_depth w) (w_gfuel w) (w_n_audio_ctx w) (w_params w) (w_vocab w) (w_t_cur w) row d"

definition process_running :: "window \<Rightarrow> nat \<Rightarrow> whisper_decoder \<Rightarrow> whisper_decoder option" where
  "process_running w i d = (if running d then process_decoder w (w_net w i (nat (i_batch d))) d else Some d)"

definition update_running :: "window \<Rightarrow> nat \<Rightarrow> whisper_decoder \<Rightarrow> whisper_decoder option" where
  "update_running w i d =
    update_decoder (w_gfuel w) (w_params w) (w_vocab w) (w_loaded w) i (w_n_max w) (w_seek w) (w_seek_end w) d"

text \<open>One turn of the loop; the flag says that all decoders have finished.\<close>

definition decode_step ::
  "window \<Rightarrow> nat \<Rightarrow> whisper_decoder list \<Rightarrow> whisper_kv_cache \<Rightarrow> (bool \<times> whisper_decoder list \<times> whisper_kv_cache) result"
where
  "decode_step w i ds kv =
    (case sample_step w i ds kv of
       None \<Rightarrow> None
     | Some (ds1, kv1) \<Rightarrow>
         (case update_all (update_running w i) ds1 of
            None \<Rightarrow> None
          | Some ds2 \<Rightarrow>
              (if list_all (\<lambda>d. \<not> running d) ds2 then Some (Inr (True, ds2, kv1))
               else
                 (let (ds3, b) = next_batch (int (w_n_prompt w + i)) 0 0 ds2 in
                  case whisper_decode_internal b (w_ok w (i + 1)) kv1 of
                    None \<Rightarrow> Some (Inl (-9))
                  | Some kv2 \<Rightarrow>
                      map_option (\<lambda>ds4. Inr (False, ds4, kv2)) (update_all (process_running w (i + 1)) ds3)))))"

function decode_loop ::
  "window \<Rightarrow> nat \<Rightarrow> whisper_decoder list \<Rightarrow> whisper_kv_cache \<Rightarrow> (whisper_decoder list \<times> whisper_kv_cache) result"
where
  "decode_loop w i ds kv =
    (if int i < w_n_max w then
       (case decode_step w i ds kv of
          None \<Rightarrow> None
        | Some (Inl c) \<Rightarrow> Some (Inl c)
        | Some (Inr (fin, ds', kv')) \<Rightarrow>
            (if fin then Some (Inr (ds', kv')) else decode_loop w (i + 1) ds' kv'))
     else Some (Inr (ds, kv)))"
  by pat_completeness auto
termination
  by (relation "measure (\<lambda>(w, i, ds, kv). nat (w_n_max w - int i))") auto

declare decode_loop.simps [simp del]

section \<open>Scores\<close>

definition seq_counts :: "int list \<Rightarrow> int \<Rightarrow> nat" where
  "seq_counts ids x = length (filter ((=) x) ids)"

definition token_entropy :: "int list \<Rightarrow> real" where
  "token_entropy ids =
    (let cnt = real (length ids) in
     - sum_list (map (\<lambda>x. let p = real (seq_counts ids x) / cnt in p * ln p) (remdups ids)))"

definition whisper_sequence_score :: "whisper_full_params \<Rightarrow> whisper_sequence \<Rightarrow> whisper_sequence" where
  "whisper_sequence_score ps s =
    (if result_len s = 0 then s
     else
       (let n = nat (result_len s);
            res = sum_list (map tok_plog (take n (seq_tokens s)));
            penalty = (if length_penalty ps > 0 then ((5 + real n) / 6) powr length_penalty ps else real n)
        in s\<lparr>sum_logprobs := Some res, avg_logprobs := Some (res / real n), score := Some (res / penalty),
             entropy := token_entropy (map tok_id (drop (n - 32) (take n (seq_tokens s))))\<rparr>))"

text \<open>Scoring a decoder that has not failed, with the entropy check.\<close>

definition score_decoder :: "whisper_full_params \<Rightarrow> whisper_decoder \<Rightarrow> whisper_decoder" where
  "score_decoder ps d =
    (if dec_failed d then d
     else
       (let s = whisper_sequence_score ps
                  ((sequence d)\<lparr>seq_tokens := take (nat (result_len (sequence d))) (seq_tokens (sequence d))\<rparr>);
            d1 = d\<lparr>sequence := s\<rparr>
        in if result_len s > 32 \<and> entropy s < entropy_thold ps then d1\<lparr>dec_failed := True\<rparr> else d1))"

fun rank_loop :: "nat \<Rightarrow> whisper_decoder list \<Rightarrow> real option \<Rightarrow> nat \<Rightarrow> nat" where
  "rank_loop j [] best_score best_id = best_id"
| "rank_loop j (d # ds) best_score best_id =
    (if \<not> dec_failed d \<and> opt_less best_score (score (sequence d))
     then rank_loop (j + 1) ds (score (sequence d)) j else rank_loop (j + 1) ds best_score best_id)"

text \<open>The decoders after ranking, and the best one; without a candidate the previous choice stays.\<close>

definition rank_decoders :: "whisper_full_params \<Rightarrow> nat \<Rightarrow> whisper_decoder list \<Rightarrow> whisper_decoder list \<times> nat" where
  "rank_decoders ps best_id ds =
    (let ds' = map (score_decoder ps) ds in (ds', rank_loop 0 ds' None best_id))"

end
