(* ===== verification/Decoder_Invariants.thy ===== *)
theory Decoder_Invariants
  imports Decoder_Loop
begin

text \<open>
  What holds in the decoding loop of a window, for every network and every draw: each running decoder
  has one token per turn and a cache with exactly the tokens of its own past; its window shift is positive and
  follows its last timestamp; timestamps never decrease.
\<close>

section \<open>Reachable states of the loop\<close>

inductive decode_reach ::
  "window \<Rightarrow> whisper_decoder list \<Rightarrow> whisper_kv_cache \<Rightarrow> nat \<Rightarrow> whisper_decoder list \<Rightarrow> whisper_kv_cache \<Rightarrow> bool"
  for w ds0 kv0 where
  start: "decode_reach w ds0 kv0 0 ds0 kv0"
| turn: "decode_reach w ds0 kv0 i ds kv \<Longrightarrow> int i < w_n_max w \<Longrightarrow>
    decode_step w i ds kv = Some (Inr (False, ds', kv')) \<Longrightarrow> decode_reach w ds0 kv0 (i + 1) ds' kv'"

inductive_cases reach_turnE: "decode_reach w ds0 kv0 i ds kv"

lemma decode_loop_reach:
  "decode_loop w i ds kv = Some (Inr (ds', kv')) \<Longrightarrow> decode_reach w ds0 kv0 i ds kv \<Longrightarrow>
    \<exists>k ds1 kv1. decode_reach w ds0 kv0 k ds1 kv1 \<and>
      ((ds1, kv1) = (ds', kv') \<or> (int k < w_n_max w \<and> decode_step w k ds1 kv1 = Some (Inr (True, ds', kv'))))"
proof (induction w i ds kv rule: decode_loop.induct)
  case (1 w i ds kv)
  show ?case
  proof (cases "int i < w_n_max w")
    case False
    with 1(2,3) show ?thesis by (auto simp: decode_loop.simps [of w i])
  next
    case True
    with 1(2) obtain fin ds1 kv1 where s: "decode_step w i ds kv = Some (Inr (fin, ds1, kv1))"
      and r: "if fin then (ds1, kv1) = (ds', kv') else decode_loop w (i + 1) ds1 kv1 = Some (Inr (ds', kv'))"
      by (auto simp: decode_loop.simps [of w i] split: option.splits sum.splits if_splits)
    show ?thesis
    proof (cases fin)
      case True
      with s r 1(3) \<open>int i < w_n_max w\<close> show ?thesis by auto
    next
      case go: False
      with s have "decode_step w i ds kv = Some (Inr (False, ds1, kv1))" by simp
      from decode_reach.turn [OF 1(3) True this] have "decode_reach w ds0 kv0 (i + 1) ds1 kv1" .
      with 1(1) [OF True s refl refl] go r show ?thesis by simp
    qed
  qed
qed

section \<open>What a sampling step does\<close>

definition tokens_of :: "window \<Rightarrow> nat \<Rightarrow> nat \<Rightarrow> whisper_decoder \<Rightarrow> whisper_token_data set" where
  "tokens_of w i j d =
    (if strategy (w_params w) = SAMPLING_BEAM_SEARCH
     then set (whisper_sample_token_topk (w_vocab w) d (nat (beam_size (w_params w))) (w_draw w i j))
     else {whisper_sample_token (w_vocab w) d (w_t_cur w < 1 / 1000000) (w_draw w i j 0)})"

text \<open>\<open>d1\<close> continues the old decoder \<open>d\<close> of index \<open>j\<close>.\<close>

definition extends :: "window \<Rightarrow> nat \<Rightarrow> nat \<Rightarrow> whisper_decoder \<Rightarrow> whisper_decoder \<Rightarrow> bool" where
  "extends w i j d d1 \<longleftrightarrow> (\<exists>t \<in> tokens_of w i j d. sequence d1 = push_token t (sequence d)) \<and>
    seek_delta d1 = seek_delta d \<and> has_ts d1 = has_ts d \<and> grammar d1 = grammar d"

lemma greedy_sample_spec:
  assumes "strategy (w_params w) \<noteq> SAMPLING_BEAM_SEARCH"
  shows "length (greedy_sample w i ds) = length ds \<and>
    (\<forall>m < length ds. if running (ds ! m) then extends w i m (ds ! m) (greedy_sample w i ds ! m) \<and> running (greedy_sample w i ds ! m)
                     else greedy_sample w i ds ! m = ds ! m)"
  using assms by (auto simp: greedy_sample_def nth_enumerate_eq extends_def tokens_of_def running_def)

lemma take_candidate_running [simp]: "running (take_candidate c d) = running d"
  by (simp add: take_candidate_def running_def)

lemma assign_beams_spec:
  "assign_beams cands i js c ds = Some (ds', src) \<Longrightarrow> distinct js \<Longrightarrow> \<forall>j \<in> set js. j < length ds \<Longrightarrow>
    length ds' = length ds \<and> map fst src = filter (\<lambda>j. running (ds ! j)) js \<and>
    (\<forall>m < length ds. m \<notin> fst ` set src \<longrightarrow> ds' ! m = ds ! m) \<and>
    (\<forall>(m, k) \<in> set src. \<exists>c \<in> set cands. k = decoder_idx c \<and> ds' ! m = take_candidate c (ds ! m))"
proof (induction cands i js c ds arbitrary: ds' src rule: assign_beams.induct)
  case (2 cands i j js c ds)
  show ?case
  proof (cases "running (ds ! j)")
    case False
    with 2 show ?thesis by simp
  next
    case True
    define c0 where "c0 = (if c \<ge> length cands then 0 else c)"
    define cur where "cur = cands ! c0"
    define ds1 where "ds1 = ds[j := take_candidate cur (ds ! j)]"
    from True "2.prems"(1) obtain src1 where ne: "cands \<noteq> []"
      and r: "assign_beams cands i js (skip_equal cands cur i (c0 + 1)) ds1 = Some (ds', src1)"
      and src: "src = (j, decoder_idx cur) # src1"
      by (auto simp: c0_def cur_def ds1_def Let_def split: if_splits)
    have IH: "length ds' = length ds1 \<and> map fst src1 = filter (\<lambda>j. running (ds1 ! j)) js \<and>
      (\<forall>m < length ds1. m \<notin> fst ` set src1 \<longrightarrow> ds' ! m = ds1 ! m) \<and>
      (\<forall>(m, k) \<in> set src1. \<exists>c \<in> set cands. k = decoder_idx c \<and> ds' ! m = take_candidate c (ds1 ! m))"
      by (rule "2.IH"(2) [OF _ ne c0_def cur_def, folded ds1_def])
         (use True r "2.prems"(2,3) in \<open>auto simp: ds1_def\<close>)
    have j: "j < length ds" "j \<notin> set js" using "2.prems" by auto
    have "filter (\<lambda>j. running (ds1 ! j)) js = filter (\<lambda>j. running (ds ! j)) js"
      by (intro filter_cong refl) (use j(2) in \<open>metis ds1_def nth_list_update_neq\<close>)
    moreover have "c0 < length cands" using ne by (auto simp: c0_def)
    then have "cur \<in> set cands" by (simp add: cur_def)
    moreover have notj: "j \<notin> fst ` set src1" using IH j(2) by (metis filter_is_subset list.set_map subsetD)
    moreover have "ds1 ! m = ds ! m" if "m \<noteq> j" for m using that by (simp add: ds1_def)
    moreover have "ds1 ! j = take_candidate cur (ds ! j)" using j(1) by (simp add: ds1_def)
    moreover have "length ds1 = length ds" by (simp add: ds1_def)
    moreover have "\<exists>c \<in> set cands. k = decoder_idx c \<and> ds' ! m = take_candidate c (ds ! m)"
      if mk: "(m, k) \<in> set src1" for m k
    proof -
      from IH mk obtain c where "c \<in> set cands" "k = decoder_idx c" "ds' ! m = take_candidate c (ds1 ! m)" by blast
      moreover have "m \<noteq> j" using mk notj by force
      ultimately show ?thesis by (auto simp: ds1_def)
    qed
    ultimately show ?thesis
      using IH j(1) True unfolding src by (auto simp: case_prod_beta)
  qed
qed simp

text \<open>A candidate of the beam search.\<close>

lemma in_beam_candidates:
  "c \<in> set (beam_candidates w i ds) \<Longrightarrow> strategy (w_params w) = SAMPLING_BEAM_SEARCH \<Longrightarrow>
    decoder_idx c < length ds \<and> running (ds ! decoder_idx c) \<and>
    extends w i (decoder_idx c) (ds ! decoder_idx c) (take_candidate c d)"
  by (auto simp: beam_candidates_def candidates_of_def in_set_enumerate_eq extends_def tokens_of_def take_candidate_def
      split: if_splits)

definition running_indices :: "whisper_decoder list \<Rightarrow> nat list" where
  "running_indices ds = filter (\<lambda>j. running (ds ! j)) [0..<length ds]"

lemma in_running_indices [simp]: "m \<in> set (running_indices ds) \<longleftrightarrow> m < length ds \<and> running (ds ! m)"
  by (auto simp: running_indices_def)

text \<open>One lemma for both strategies: \<open>f\<close> tells which old decoder a running decoder continues, and the
  cache has been permuted by the same \<open>f\<close>.\<close>

lemma sample_step_spec:
  assumes "sample_step w i ds kv = Some (ds1, kv1)"
  obtains f where "length ds1 = length ds" "\<forall>m < length ds. running (ds1 ! m) = running (ds ! m)"
    "\<forall>m < length ds. \<not> running (ds ! m) \<longrightarrow> ds1 ! m = ds ! m"
    "\<forall>m < length ds. running (ds ! m) \<longrightarrow> f m < length ds \<and> running (ds ! f m) \<and> extends w i (f m) (ds ! f m) (ds1 ! m)"
    "kv1 = kv \<and> (\<forall>m < length ds. running (ds ! m) \<longrightarrow> f m = m) \<or>
     kv1 = beam_exchange (src_of (map (\<lambda>m. (m, f m)) (running_indices ds))) (map int (running_indices ds)) kv"
proof (cases "strategy (w_params w) = SAMPLING_BEAM_SEARCH")
  case False
  with assms have "ds1 = greedy_sample w i ds" "kv1 = kv" by (simp_all add: sample_step_def)
  with greedy_sample_spec [OF False, of i ds] show thesis
    by (intro that [of id]) (auto split: if_splits)
next
  case True
  with assms obtain src where a: "assign_beams (beam_candidates w i ds) i [0..<length ds] 0 ds = Some (ds1, src)"
    and kv1: "kv1 = beam_exchange (src_of src) (map (int \<circ> fst) src) kv"
    by (auto simp: sample_step_def beam_step_def)
  have sp: "length ds1 = length ds" "map fst src = running_indices ds"
    "\<forall>m < length ds. m \<notin> fst ` set src \<longrightarrow> ds1 ! m = ds ! m"
    "\<forall>(m, k) \<in> set src. \<exists>c \<in> set (beam_candidates w i ds). k = decoder_idx c \<and> ds1 ! m = take_candidate c (ds ! m)"
    using assign_beams_spec [OF a] by (auto simp: running_indices_def)
  define f where "f m = the (map_of src m)" for m
  have "distinct (map fst src)" unfolding sp(2) by (simp add: running_indices_def)
  then have fm: "(m, k) \<in> set src \<Longrightarrow> f m = k" for m k by (simp add: f_def)
  have dom: "m \<in> fst ` set src \<longleftrightarrow> m < length ds \<and> running (ds ! m)" for m
    using sp(2) by (metis in_running_indices list.set_map)
  have src: "src = map (\<lambda>m. (m, f m)) (running_indices ds)"
    unfolding sp(2) [symmetric] using fm by (auto simp: comp_def intro!: nth_equalityI)
      (metis fm nth_mem prod.collapse)
  have run: "f m < length ds \<and> running (ds ! f m) \<and> extends w i (f m) (ds ! f m) (ds1 ! m) \<and> running (ds1 ! m)"
    if "m < length ds" "running (ds ! m)" for m
  proof -
    from that dom have "m \<in> fst ` set src" by blast
    then obtain k where mk: "(m, k) \<in> set src" by auto
    with sp(4) obtain c where "c \<in> set (beam_candidates w i ds)" "k = decoder_idx c" "ds1 ! m = take_candidate c (ds ! m)" by auto
    with in_beam_candidates [OF _ True, of c i ds "ds ! m"] fm [OF mk] that show ?thesis by simp
  qed
  have ix: "map (int \<circ> fst) src = map int (running_indices ds)" by (simp add: sp(2) [symmetric])
  show thesis
  proof (rule that [of f])
    show "kv1 = kv \<and> (\<forall>m < length ds. running (ds ! m) \<longrightarrow> f m = m) \<or>
     kv1 = beam_exchange (src_of (map (\<lambda>m. (m, f m)) (running_indices ds))) (map int (running_indices ds)) kv"
      using kv1 unfolding ix using src by metis
    show "\<forall>m < length ds. running (ds1 ! m) = running (ds ! m)" using run sp(3) dom by metis
  qed (use sp(1,3) dom run in auto)
qed

section \<open>What the other steps do\<close>

lemma update_all_iff: "update_all f ds = Some ds' \<longleftrightarrow> list_all2 (\<lambda>d d'. f d = Some d') ds ds'"
proof (induction ds arbitrary: ds')
  case (Cons d ds)
  show ?case
  proof (cases "f d")
    case (Some d')
    then show ?thesis using Cons by (cases ds') (auto split: option.splits)
  qed (cases ds'; simp)
qed auto

lemma update_all_nth:
  "update_all f ds = Some ds' \<Longrightarrow> length ds' = length ds \<and> (\<forall>m < length ds. f (ds ! m) = Some (ds' ! m))"
  unfolding update_all_iff list_all2_conv_all_nth by simp

text \<open>What the batch and the processing of the logits leave alone.\<close>

definition same_core :: "whisper_decoder \<Rightarrow> whisper_decoder \<Rightarrow> bool" where
  "same_core d d' \<longleftrightarrow> sequence d' = sequence d \<and> seek_delta d' = seek_delta d \<and> has_ts d' = has_ts d \<and>
    grammar d' = grammar d \<and> dec_failed d' = dec_failed d \<and> dec_completed d' = dec_completed d"

lemma same_core_trans: "same_core a b \<Longrightarrow> same_core b c \<Longrightarrow> same_core a c"
  by (simp add: same_core_def)

lemma same_core_running: "same_core a b \<Longrightarrow> running b = running a"
  by (simp add: same_core_def running_def)

lemma next_batch_spec:
  "next_batch n_past j n ds = (ds', b) \<Longrightarrow>
    length ds' = length ds \<and> (\<forall>m < length ds. same_core (ds ! m) (ds' ! m) \<and> (\<not> running (ds ! m) \<longrightarrow> ds' ! m = ds ! m)) \<and>
    set b = {x. \<exists>m < length ds. running (ds ! m) \<and> x = (tok_id (last (seq_tokens (sequence (ds ! m)))), n_past, [int (j + m)])}"
proof (induction n_past j n ds arbitrary: ds' b rule: next_batch.induct)
  case (2 n_past j n d ds)
  define r where "r = running d"
  obtain ds1 b1 where n: "next_batch n_past (j + 1) (if r then n + 1 else n) ds = (ds1, b1)" by (metis surj_pair)
  have IH: "length ds1 = length ds \<and> (\<forall>m < length ds. same_core (ds ! m) (ds1 ! m) \<and> (\<not> running (ds ! m) \<longrightarrow> ds1 ! m = ds ! m)) \<and>
    set b1 = {x. \<exists>m < length ds. running (ds ! m) \<and> x = (tok_id (last (seq_tokens (sequence (ds ! m)))), n_past, [int (j + 1 + m)])}"
    using 2 n by (auto simp: r_def split: if_splits)
  have e: "ds' = (if r then d\<lparr>i_batch := int n\<rparr> else d) # ds1" "b = (if r then (tok_id (last (seq_tokens (sequence d))), n_past, [int j]) # b1 else b1)"
    using 2(3) n by (auto simp: r_def split: if_splits)
  have "same_core ((d # ds) ! m) (ds' ! m) \<and> (\<not> running ((d # ds) ! m) \<longrightarrow> ds' ! m = (d # ds) ! m)"
    if "m < length (d # ds)" for m
    using IH that unfolding e by (cases m) (auto simp: r_def same_core_def)
  moreover have "set b = {x. \<exists>m < length (d # ds). running ((d # ds) ! m) \<and> x = (tok_id (last (seq_tokens (sequence ((d # ds) ! m)))), n_past, [int (j + m)])}"
    using IH unfolding e by (auto simp: r_def Ex_less_Suc2)
  ultimately show ?case using IH by (simp add: e)
qed simp

lemma process_running_core:
  "process_running w i d = Some d' \<Longrightarrow> same_core d d' \<and> (\<not> running d \<longrightarrow> d' = d)"
  by (auto simp: process_running_def process_decoder_def whisper_process_logits_def same_core_def split: if_splits option.splits)

lemma grammar_field_core: "seq_tokens (sequence (d\<lparr>grammar := g\<rparr>)) = seq_tokens (sequence d)"
  by simp

lemma finish_segment_spec:
  "seq_tokens (sequence (finish_segment ps i seek se d)) = seq_tokens (sequence d) \<and>
   has_ts (finish_segment ps i seek se d) = has_ts d \<and> \<not> running (finish_segment ps i seek se d) \<and>
   seek_delta (finish_segment ps i seek se d) \<in> {seek_delta d, 3000} \<and>
   result_len (sequence (finish_segment ps i seek se d)) \<in> {result_len (sequence d), int i + 1}"
  by (simp add: finish_segment_def set_result_len_def running_def WHISPER_CHUNK_SIZE_def Let_def)

lemma note_timestamp_spec:
  "seq_tokens (sequence (note_timestamp voc i t d)) = seq_tokens (sequence d) \<and>
   running (note_timestamp voc i t d) = running d \<and>
   (if t > token_beg voc
    then seek_delta (note_timestamp voc i t d) = 2 * (t - token_beg voc) \<and> has_ts (note_timestamp voc i t d) \<and>
      result_len (sequence (note_timestamp voc i t d)) = int i + 1
    else note_timestamp voc i t d = d)"
  by (simp add: note_timestamp_def set_result_len_def running_def)

text \<open>The outcome of an update: nothing for a finished decoder; else the tokens stay, and a later timestamp is
  noted unless the decoder fails for going back in time.\<close>

lemma update_decoder_spec:
  assumes u: "update_decoder gf ps voc loaded i n_max seek se d = Some d'" and r: "running d"
  defines "t \<equiv> tok_id (last (seq_tokens (sequence d)))"
  defines "goes_back \<equiv> t > token_beg voc \<and> has_ts d \<and> seek_delta d > 2 * (t - token_beg voc) \<and> result_len (sequence d) < int i"
  shows "seq_tokens (sequence d') = seq_tokens (sequence d) \<and>
    result_len (sequence d') \<in> {result_len (sequence d), int i + 1} \<and>
    (if goes_back then d' = d\<lparr>dec_failed := True\<rparr>
     else has_ts d' = (has_ts d \<or> t > token_beg voc) \<and>
       (seek_delta d' = (if t > token_beg voc then 2 * (t - token_beg voc) else seek_delta d) \<or>
        (seek_delta d' = 3000 \<and> \<not> running d')))"
proof (cases goes_back)
  case True
  then have "d' = d\<lparr>dec_failed := True\<rparr>" using u r by (simp add: update_decoder_def Let_def t_def goes_back_def)
  with True show ?thesis by simp
next
  case False
  define d1 where "d1 = note_timestamp voc i t d"
  note u' = u [unfolded update_decoder_def Let_def, folded t_def, folded goes_back_def, folded d1_def]
  from u' r False obtain g where g: "whisper_grammar_accept_token gf (token_text_or_empty voc t) (grammar d1) = Some g"
    by (cases "whisper_grammar_accept_token gf (token_text_or_empty voc t) (grammar d1)") simp_all
  have d': "d' = (if end_of_segment ps voc i seek se t (d1\<lparr>grammar := g\<rparr>) then finish_segment ps i seek se (d1\<lparr>grammar := g\<rparr>)
      else if \<not> loaded then d1\<lparr>grammar := g, seek_delta := 100 * WHISPER_CHUNK_SIZE, dec_completed := True\<rparr>
      else if int i = n_max - 1 \<and> (result_len (sequence d1) = 0 \<or> seek_delta d1 < cdiv (100 * WHISPER_CHUNK_SIZE) 2)
      then d1\<lparr>grammar := g, dec_failed := True\<rparr> else d1\<lparr>grammar := g\<rparr>)"
    using u' r False g by (auto split: if_splits)
  note n = note_timestamp_spec [of voc i t d, folded d1_def]
  show ?thesis
  proof (cases "end_of_segment ps voc i seek se t (d1\<lparr>grammar := g\<rparr>)")
    case True
    with n finish_segment_spec [of ps i seek se "d1\<lparr>grammar := g\<rparr>"] False show ?thesis
      unfolding d' by (auto split: if_splits)
  next
    case go: False
    show ?thesis using n False unfolding d' by (simp add: go WHISPER_CHUNK_SIZE_def running_def split: if_splits)
  qed
qed

lemma accept_token_rules: "whisper_grammar_accept_token gf tx g = Some g' \<Longrightarrow> grules g' = grules g"
  by (auto simp: whisper_grammar_accept_token_def Let_def case_prod_unfold split: if_splits)

lemma update_decoder_rules:
  assumes u: "update_decoder gf ps voc loaded i n_max seek se d = Some d'"
  shows "grules (grammar d') = grules (grammar d)"
proof -
  have n: "grammar (note_timestamp voc i t d) = grammar d" for t by (simp add: note_timestamp_def set_result_len_def)
  have f: "grammar (finish_segment ps i seek se x) = grammar x" for x
    by (simp add: finish_segment_def set_result_len_def Let_def)
  show ?thesis using u accept_token_rules n f
    by (auto simp: update_decoder_def Let_def split: if_splits option.splits)
qed

lemma update_not_running: "\<not> running d \<Longrightarrow> update_decoder gf ps voc loaded i n_max seek se d = Some d"
  by (simp add: update_decoder_def)

section \<open>Properties of single decoders\<close>

text \<open>
  A property \<open>P\<close> of single decoders, with a property \<open>R\<close> of those that are about to sample: if a turn keeps
  them for each decoder, they hold in every reachable state, whatever the exchanges of a beam search.
\<close>

locale decoder_property =
  fixes w :: window and P :: "nat \<Rightarrow> whisper_decoder \<Rightarrow> bool" and R :: "whisper_decoder \<Rightarrow> bool"
  assumes grow: "extends w i j d0 d1 \<Longrightarrow> running d0 \<Longrightarrow> running d1 \<Longrightarrow> P i d0 \<Longrightarrow> R d0 \<Longrightarrow>
      update_running w i d1 = Some d2 \<Longrightarrow> P (i + 1) d2"
    and stay: "\<not> running d \<Longrightarrow> P i d \<Longrightarrow> P (i + 1) d"
    and core: "same_core d d' \<Longrightarrow> P i d \<Longrightarrow> P i d'"
    and refill: "process_decoder w (w_net w i r) d = Some d' \<Longrightarrow> R d'"
begin

lemma sample_update:
  assumes inv: "\<forall>m < length ds. P i (ds ! m) \<and> (running (ds ! m) \<longrightarrow> R (ds ! m))"
    and s: "sample_step w i ds kv = Some (ds1, kv1)" and u: "update_all (update_running w i) ds1 = Some ds2"
  shows "length ds2 = length ds \<and> (\<forall>m < length ds. P (i + 1) (ds2 ! m))"
proof -
  from s obtain f where f: "length ds1 = length ds" "\<forall>m < length ds. running (ds1 ! m) = running (ds ! m)"
    "\<forall>m < length ds. \<not> running (ds ! m) \<longrightarrow> ds1 ! m = ds ! m"
    "\<forall>m < length ds. running (ds ! m) \<longrightarrow> f m < length ds \<and> running (ds ! f m) \<and> extends w i (f m) (ds ! f m) (ds1 ! m)"
    by (rule sample_step_spec) blast
  note un = update_all_nth [OF u]
  have "P (i + 1) (ds2 ! m)" if m: "m < length ds" for m
  proof (cases "running (ds ! m)")
    case True
    with f m have *: "f m < length ds" "running (ds ! f m)" "extends w i (f m) (ds ! f m) (ds1 ! m)" "running (ds1 ! m)" by auto
    moreover have "update_running w i (ds1 ! m) = Some (ds2 ! m)" using un m f(1) by simp
    ultimately show ?thesis using grow inv by blast
  next
    case False
    then have "update_running w i (ds1 ! m) = Some (ds ! m)"
      using f(3) m update_not_running by (simp add: update_running_def)
    then have "ds2 ! m = ds ! m" using un m f(1) by simp
    with False inv m stay show ?thesis by simp
  qed
  with f(1) un show ?thesis by simp
qed

lemma step:
  assumes inv: "\<forall>m < length ds. P i (ds ! m) \<and> (running (ds ! m) \<longrightarrow> R (ds ! m))"
    and s: "decode_step w i ds kv = Some (Inr (fin, ds', kv'))"
  shows "length ds' = length ds \<and> (\<forall>m < length ds. P (i + 1) (ds' ! m)) \<and>
    (fin \<or> (\<forall>m < length ds. running (ds' ! m) \<longrightarrow> R (ds' ! m)))"
proof -
  from s obtain ds1 kv1 ds2 where s1: "sample_step w i ds kv = Some (ds1, kv1)"
    and s2: "update_all (update_running w i) ds1 = Some ds2"
    by (auto simp: decode_step_def split: option.splits)
  note h = sample_update [OF inv s1 s2]
  show ?thesis
  proof (cases "list_all (\<lambda>d. \<not> running d) ds2")
    case True
    then have "fin" "ds' = ds2" using s s1 s2 by (simp_all add: decode_step_def)
    with h show ?thesis by simp
  next
    case False
    obtain ds3 b where nb: "next_batch (int (w_n_prompt w + i)) 0 0 ds2 = (ds3, b)" by (metis surj_pair)
    from False s s1 s2 nb have p: "update_all (process_running w (i + 1)) ds3 = Some ds'"
      by (auto simp: decode_step_def split: option.splits)
    note nbs = next_batch_spec [OF nb] and pn = update_all_nth [OF p]
    have len: "length ds3 = length ds" "length ds' = length ds" using nbs h pn by simp_all
    have "P (i + 1) (ds' ! m) \<and> (running (ds' ! m) \<longrightarrow> R (ds' ! m))" if m: "m < length ds" for m
    proof -
      have c: "same_core (ds2 ! m) (ds3 ! m)" using nbs m len by simp
      have pr: "process_running w (i + 1) (ds3 ! m) = Some (ds' ! m)" using pn m len by simp
      have c': "same_core (ds3 ! m) (ds' ! m)" using process_running_core [OF pr] by blast
      have "P (i + 1) (ds' ! m)" using h m core c c' by blast
      moreover have "R (ds' ! m)" if "running (ds' ! m)"
      proof -
        have "running (ds3 ! m)" using that same_core_running [OF c'] by simp
        then show ?thesis using pr refill by (simp add: process_running_def)
      qed
      ultimately show ?thesis by blast
    qed
    with len show ?thesis by simp
  qed
qed

lemma reach:
  assumes "decode_reach w ds0 kv0 i ds kv" "\<forall>m < length ds0. P 0 (ds0 ! m) \<and> (running (ds0 ! m) \<longrightarrow> R (ds0 ! m))"
  shows "length ds = length ds0 \<and> (\<forall>m < length ds. P i (ds ! m) \<and> (running (ds ! m) \<longrightarrow> R (ds ! m)))"
  using assms
proof (induction rule: decode_reach.induct)
  case (turn i ds kv ds' kv')
  with step [of ds i kv False ds' kv'] show ?case by simp
qed simp

lemma loop:
  assumes "decode_loop w 0 ds0 kv0 = Some (Inr (ds', kv'))"
    and "\<forall>m < length ds0. P 0 (ds0 ! m) \<and> (running (ds0 ! m) \<longrightarrow> R (ds0 ! m))"
  shows "length ds' = length ds0 \<and> (\<exists>i. \<forall>m < length ds'. P i (ds' ! m))"
proof -
  from decode_loop_reach [OF assms(1) decode_reach.start] obtain k ds1 kv1 where
    k: "decode_reach w ds0 kv0 k ds1 kv1" "(ds1, kv1) = (ds', kv') \<or> decode_step w k ds1 kv1 = Some (Inr (True, ds', kv'))" by blast
  note r = reach [OF k(1) assms(2)]
  from k(2) show ?thesis
  proof
    assume "decode_step w k ds1 kv1 = Some (Inr (True, ds', kv'))"
    from step [OF _ this] r show ?thesis by (intro conjI exI [of _ "k + 1"]) auto
  next
    assume "(ds1, kv1) = (ds', kv')"
    with r show ?thesis by (intro conjI exI [of _ k]) auto
  qed
qed

end

section \<open>Caches\<close>

lemma decode_internal_spec:
  assumes "kv_ok kv" "batch_ok b" "whisper_decode_internal b ok kv = Some kv'"
  shows "kv_ok kv' \<and> (kv_row kv' s p x \<longleftrightarrow>
    kv_row kv s p x \<or> (\<exists>(tok, q, ss) \<in> set b. q = p \<and> s \<in> set ss \<and> x = Some tok))"
proof -
  from assms(3) obtain kv1 where "whisper_kv_cache_find_slot kv b = (True, kv1)"
    "kv' = kv1\<lparr>rows := store_rows (rows kv1) (head kv1) b\<rparr>"
    by (auto simp: whisper_decode_internal_def split: prod.splits if_splits)
  with store_batch_spec [OF assms(1,2) this(1), of s p x] show ?thesis by simp
qed

lemma beam_exchange_ok:
  assumes "kv_ok c" "distinct js" "\<forall>j \<in> set js. 0 \<le> j \<and> j < 8 \<and> src j < 8"
  shows "kv_ok (beam_exchange src js c)"
proof -
  have "kv_ok (beam_stash src js c)" using kv.stash [OF assms(1), of js src] assms(3) by (auto simp: beam_stash_foldl)
  then show ?thesis using kv.move [of _ js] assms by (auto simp: beam_exchange_def beam_move_foldl)
qed

lemma src_of_map: "m \<in> set ms \<Longrightarrow> src_of (map (\<lambda>m. (m, f m)) ms) (int m) = int (f m)"
  by (simp add: src_of_def map_of_map_restrict)

text \<open>After sampling, the cache of a running decoder is that of the decoder it continues.\<close>

lemma exchange_by:
  assumes ok: "kv_ok kv" and st: "\<forall>s p x. 8 \<le> s \<longrightarrow> \<not> kv_row kv s p x" and l: "length ds \<le> 8"
    and f: "\<forall>m < length ds. running (ds ! m) \<longrightarrow> f m < length ds"
    and kv1: "kv1 = kv \<and> (\<forall>m < length ds. running (ds ! m) \<longrightarrow> f m = m) \<or>
      kv1 = beam_exchange (src_of (map (\<lambda>m. (m, f m)) (running_indices ds))) (map int (running_indices ds)) kv"
  shows "kv_ok kv1 \<and> (\<forall>s p x. 8 \<le> s \<longrightarrow> \<not> kv_row kv1 s p x) \<and>
    (\<forall>m < length ds. running (ds ! m) \<longrightarrow> (\<forall>p x. kv_row kv1 (int m) p x \<longleftrightarrow> kv_row kv (int (f m)) p x))"
  using kv1
proof
  assume "kv1 = kv \<and> (\<forall>m < length ds. running (ds ! m) \<longrightarrow> f m = m)"
  then show ?thesis using ok st by simp
next
  let ?src = "src_of (map (\<lambda>m. (m, f m)) (running_indices ds))" and ?js = "map int (running_indices ds)"
  assume e: "kv1 = beam_exchange ?src ?js kv"
  have d: "distinct ?js" by (simp add: distinct_map running_indices_def)
  have r: "\<forall>j \<in> set ?js. 0 \<le> j \<and> j < 8 \<and> ?src j < 8" using f l by (auto simp: src_of_map)
  have n: "\<forall>j \<in> set ?js. \<forall>p x. \<not> kv_row kv (8 + j) p x" using st by auto
  note h = beam_exchange_row [OF ok d r n, folded e]
  have "t \<notin> set ?js" if "8 \<le> t" for t using r that by force
  then show ?thesis
    using beam_exchange_ok [OF ok d r] h st unfolding e [symmetric] by (auto simp: src_of_map)
qed

section \<open>The invariant of the loop\<close>

definition decoder_inv :: "window \<Rightarrow> nat \<Rightarrow> whisper_decoder \<Rightarrow> bool" where
  "decoder_inv w i d \<longleftrightarrow> 2 \<le> seek_delta d \<and> 0 \<le> result_len (sequence d) \<and>
    result_len (sequence d) \<le> int (length (seq_tokens (sequence d))) \<and>
    length (seq_tokens (sequence d)) \<le> i \<and> (running d \<longrightarrow> length (seq_tokens (sequence d)) = i)"

text \<open>What the decoders have seen: each running decoder's sequence has a cell for every position of the prompt and of
  its own tokens, whose row was computed from the token there, and no other cell.\<close>

definition past_in_cache :: "int list \<Rightarrow> whisper_kv_cache \<Rightarrow> int \<Rightarrow> whisper_decoder \<Rightarrow> bool" where
  "past_in_cache prompt kv sq d \<longleftrightarrow>
    (let toks = prompt @ map tok_id (seq_tokens (sequence d)) in
     \<forall>p x. kv_row kv sq p x \<longleftrightarrow> 0 \<le> p \<and> p < int (length toks) \<and> x = Some (toks ! nat p))"

definition cache_inv :: "int list \<Rightarrow> whisper_decoder list \<Rightarrow> whisper_kv_cache \<Rightarrow> bool" where
  "cache_inv prompt ds kv \<longleftrightarrow> kv_ok kv \<and> (\<forall>s p x. 8 \<le> s \<longrightarrow> \<not> kv_row kv s p x) \<and>
    (\<forall>m < length ds. running (ds ! m) \<longrightarrow> past_in_cache prompt kv (int m) (ds ! m))"

definition loop_inv :: "window \<Rightarrow> int list \<Rightarrow> nat \<Rightarrow> whisper_decoder list \<Rightarrow> whisper_kv_cache \<Rightarrow> bool" where
  "loop_inv w prompt i ds kv \<longleftrightarrow> length prompt = w_n_prompt w \<and> length ds \<le> 8 \<and>
    (\<forall>m < length ds. decoder_inv w i (ds ! m)) \<and> cache_inv prompt ds kv"

lemma decoder_inv_update:
  assumes x: "extends w i j d0 d1" "running d0" "running d1" "decoder_inv w i d0" and u: "update_running w i d1 = Some d2"
  shows "decoder_inv w (i + 1) d2"
proof -
  from x(1) obtain t where s: "sequence d1 = push_token t (sequence d0)" "seek_delta d1 = seek_delta d0"
    by (auto simp: extends_def)
  have "length (seq_tokens (sequence d1)) = i + 1" "result_len (sequence d1) = result_len (sequence d0)"
    using x(2,4) by (simp_all add: s push_token_def decoder_inv_def)
  moreover note update_decoder_spec [OF u [unfolded update_running_def] x(3)]
  ultimately show ?thesis
    using x(2,4) s by (auto simp: decoder_inv_def running_def split: if_splits)
qed

lemma decoder_inv_mono: "decoder_inv w i d \<Longrightarrow> \<not> running d \<Longrightarrow> decoder_inv w (i + 1) d"
  by (simp add: decoder_inv_def)

lemma decoder_inv_core: "same_core d d' \<Longrightarrow> decoder_inv w i d \<Longrightarrow> decoder_inv w i d'"
  using same_core_running [of d d'] by (simp add: decoder_inv_def same_core_def)

interpretation shape: decoder_property w "decoder_inv w" "\<lambda>_. True" for w
  by unfold_locales (rule decoder_inv_update decoder_inv_mono decoder_inv_core TrueI; assumption)+

text \<open>The first half of a turn: a decoder that goes on has one token more than its cache.\<close>

lemma sample_update_inv:
  assumes inv: "loop_inv w prompt i ds kv" and s: "sample_step w i ds kv = Some (ds1, kv1)"
    and u: "update_all (update_running w i) ds1 = Some ds2"
  shows "length ds2 = length ds \<and> (\<forall>m < length ds. decoder_inv w (i + 1) (ds2 ! m)) \<and> kv_ok kv1 \<and>
    (\<forall>s p x. 8 \<le> s \<longrightarrow> \<not> kv_row kv1 s p x) \<and>
    (\<forall>m < length ds. running (ds2 ! m) \<longrightarrow> (\<exists>d t. past_in_cache prompt kv1 (int m) d \<and>
       seq_tokens (sequence (ds2 ! m)) = seq_tokens (sequence d) @ [t]))"
proof -
  from s obtain f where f: "length ds1 = length ds" "\<forall>m < length ds. running (ds1 ! m) = running (ds ! m)"
    "\<forall>m < length ds. \<not> running (ds ! m) \<longrightarrow> ds1 ! m = ds ! m"
    "\<forall>m < length ds. running (ds ! m) \<longrightarrow> f m < length ds \<and> running (ds ! f m) \<and> extends w i (f m) (ds ! f m) (ds1 ! m)"
    "kv1 = kv \<and> (\<forall>m < length ds. running (ds ! m) \<longrightarrow> f m = m) \<or>
     kv1 = beam_exchange (src_of (map (\<lambda>m. (m, f m)) (running_indices ds))) (map int (running_indices ds)) kv"
    by (rule sample_step_spec)
  have kv: "kv_ok kv" "\<forall>s p x. 8 \<le> s \<longrightarrow> \<not> kv_row kv s p x" "length ds \<le> 8"
    using inv by (simp_all add: loop_inv_def cache_inv_def)
  have ex: "kv_ok kv1 \<and> (\<forall>s p x. 8 \<le> s \<longrightarrow> \<not> kv_row kv1 s p x) \<and>
    (\<forall>m < length ds. running (ds ! m) \<longrightarrow> (\<forall>p x. kv_row kv1 (int m) p x \<longleftrightarrow> kv_row kv (int (f m)) p x))"
    by (rule exchange_by [OF kv _ f(5)]) (use f(4) in blast)
  note un = update_all_nth [OF u]
  have was: "running (ds ! m)" if "m < length ds" "running (ds2 ! m)" for m
  proof (rule ccontr)
    assume n: "\<not> running (ds ! m)"
    then have "update_running w i (ds1 ! m) = Some (ds ! m)"
      using f(3) that(1) update_not_running by (simp add: update_running_def)
    then show False using un that f(1) n by simp
  qed
  have "\<exists>d t. past_in_cache prompt kv1 (int m) d \<and> seq_tokens (sequence (ds2 ! m)) = seq_tokens (sequence d) @ [t]"
    if m: "m < length ds" "running (ds2 ! m)" for m
  proof -
    note r = was [OF m]
    with f(4) m(1) have fm: "f m < length ds" "running (ds ! f m)" "extends w i (f m) (ds ! f m) (ds1 ! m)" by auto
    have "past_in_cache prompt kv (int (f m)) (ds ! f m)" using inv fm(1,2) by (simp add: loop_inv_def cache_inv_def)
    then have "past_in_cache prompt kv1 (int m) (ds ! f m)" using ex m(1) r by (simp add: past_in_cache_def)
    moreover obtain t where "seq_tokens (sequence (ds1 ! m)) = seq_tokens (sequence (ds ! f m)) @ [t]"
      using fm(3) by (auto simp: extends_def push_token_def)
    moreover have "update_running w i (ds1 ! m) = Some (ds2 ! m)" "running (ds1 ! m)" using un m f(1,2) r by simp_all
    then have "seq_tokens (sequence (ds2 ! m)) = seq_tokens (sequence (ds1 ! m))"
      using update_decoder_spec unfolding update_running_def by blast
    ultimately show ?thesis by auto
  qed
  moreover have "length ds2 = length ds \<and> (\<forall>m < length ds. decoder_inv w (i + 1) (ds2 ! m))"
    by (rule shape.sample_update [OF _ s u]) (use inv in \<open>simp add: loop_inv_def\<close>)
  ultimately show ?thesis using ex by simp
qed

text \<open>Storing the last token behind the others.\<close>

lemma past_in_cache_snoc:
  assumes "past_in_cache prompt kv sq d" and s: "seq_tokens (sequence d') = seq_tokens (sequence d) @ [t]"
    and kv': "\<And>p x. kv_row kv' sq p x \<longleftrightarrow>
      kv_row kv sq p x \<or> (p = int (length prompt + length (seq_tokens (sequence d))) \<and> x = Some (tok_id t))"
  shows "past_in_cache prompt kv' sq d'"
proof -
  define toks where "toks = prompt @ map tok_id (seq_tokens (sequence d))"
  have "kv_row kv sq p x \<longleftrightarrow> 0 \<le> p \<and> p < int (length toks) \<and> x = Some (toks ! nat p)" for p x
    using assms(1) by (simp add: past_in_cache_def Let_def toks_def)
  then have "kv_row kv' sq p x \<longleftrightarrow>
      0 \<le> p \<and> p < int (length (toks @ [tok_id t])) \<and> x = Some ((toks @ [tok_id t]) ! nat p)" for p x
    unfolding kv' by (cases "p = int (length toks)") (auto simp: nth_append toks_def)
  moreover have "prompt @ map tok_id (seq_tokens (sequence d')) = toks @ [tok_id t]" by (simp add: s toks_def)
  ultimately show ?thesis unfolding past_in_cache_def by simp
qed

lemma past_in_cache_core: "same_core d d' \<Longrightarrow> past_in_cache prompt kv sq d' = past_in_cache prompt kv sq d"
  by (simp add: past_in_cache_def same_core_def)

lemma decode_step_inv:
  assumes inv: "loop_inv w prompt i ds kv" and s: "decode_step w i ds kv = Some (Inr (fin, ds', kv'))"
    and b: "int (w_n_prompt w + i) < pos_max"
  shows "length ds' = length ds \<and> (\<forall>m < length ds. decoder_inv w (i + 1) (ds' ! m)) \<and> kv_ok kv' \<and>
    (if fin then \<forall>d \<in> set ds'. \<not> running d else loop_inv w prompt (i + 1) ds' kv')"
proof -
  from s obtain ds1 kv1 ds2 where s1: "sample_step w i ds kv = Some (ds1, kv1)"
    and s2: "update_all (update_running w i) ds1 = Some ds2"
    by (auto simp: decode_step_def split: option.splits)
  note h = sample_update_inv [OF inv s1 s2]
  show ?thesis
  proof (cases "list_all (\<lambda>d. \<not> running d) ds2")
    case True
    then have "fin" "ds' = ds2" "kv' = kv1" using s s1 s2 by (simp_all add: decode_step_def)
    with h True show ?thesis by (simp add: list_all_iff)
  next
    case False
    obtain ds3 b where nb: "next_batch (int (w_n_prompt w + i)) 0 0 ds2 = (ds3, b)" by (metis surj_pair)
    from False s s1 s2 nb have d: "whisper_decode_internal b (w_ok w (i + 1)) kv1 = Some kv'"
      and p: "update_all (process_running w (i + 1)) ds3 = Some ds'" and fin: "\<not> fin"
      by (auto simp: decode_step_def split: option.splits)
    note nbs = next_batch_spec [OF nb]
    have "batch_ok b" using nbs \<open>int (w_n_prompt w + i) < pos_max\<close> by (auto simp: batch_ok_def)
    note fs = decode_internal_spec [OF _ this d]
    have pn: "length ds' = length ds3" "\<And>m. m < length ds3 \<Longrightarrow> same_core (ds3 ! m) (ds' ! m)"
      using update_all_nth [OF p] process_running_core by auto
    have len: "length ds3 = length ds2" "length ds2 = length ds" using nbs h by simp_all
    have core: "same_core (ds2 ! m) (ds' ! m)" if "m < length ds" for m
      using nbs pn(2) [of m] that len same_core_trans by metis
    have "decoder_inv w (i + 1) (ds' ! m)" if "m < length ds" for m
      using h core that decoder_inv_core by blast
    moreover have "cache_inv prompt ds' kv'"
      unfolding cache_inv_def
    proof (intro conjI allI impI)
      show "kv_ok kv'" using fs h by blast
      fix s p x assume "(8 :: int) \<le> s"
      then show "\<not> kv_row kv' s p x" using fs [of s p x] h nbs inv len by (auto simp: loop_inv_def)
    next
      fix m assume m: "m < length ds'" and r: "running (ds' ! m)"
      then have rm: "m < length ds" "running (ds2 ! m)" using core pn(1) len same_core_running by auto
      with h obtain d t where d: "past_in_cache prompt kv1 (int m) d" "seq_tokens (sequence (ds2 ! m)) = seq_tokens (sequence d) @ [t]"
        by blast
      have li: "length (seq_tokens (sequence d)) = i" "length prompt = w_n_prompt w"
        using h rm d(2) inv by (auto simp: decoder_inv_def loop_inv_def)
      have "(\<exists>(tok, q, ss) \<in> set b. q = p \<and> int m \<in> set ss \<and> x = Some tok) \<longleftrightarrow>
          p = int (length prompt + length (seq_tokens (sequence d))) \<and> x = Some (tok_id t)" for p x
      proof
        assume "\<exists>(tok, q, ss) \<in> set b. q = p \<and> int m \<in> set ss \<and> x = Some tok"
        then show "p = int (length prompt + length (seq_tokens (sequence d))) \<and> x = Some (tok_id t)"
          using nbs len rm d(2) by (auto simp: li)
      next
        assume "p = int (length prompt + length (seq_tokens (sequence d))) \<and> x = Some (tok_id t)"
        moreover have "(tok_id t, int (w_n_prompt w + i), [int m]) \<in> set b" using nbs len rm d(2) by auto
        ultimately show "\<exists>(tok, q, ss) \<in> set b. q = p \<and> int m \<in> set ss \<and> x = Some tok"
          by (intro bexI [of _ "(tok_id t, int (w_n_prompt w + i), [int m])"]) (simp_all add: li)
      qed
      with fs [of "int m"] h have "past_in_cache prompt kv' (int m) (ds2 ! m)"
        by (intro past_in_cache_snoc [OF d]) simp
      then show "past_in_cache prompt kv' (int m) (ds' ! m)" using core rm(1) past_in_cache_core by blast
    qed
    moreover have "kv_ok kv'" using fs h by blast
    ultimately show ?thesis using inv fin pn(1) len by (auto simp: loop_inv_def)
  qed
qed

lemma decode_reach_inv:
  assumes "decode_reach w ds0 kv0 i ds kv" "loop_inv w prompt 0 ds0 kv0" "int (w_n_prompt w) + w_n_max w < pos_max"
  shows "loop_inv w prompt i ds kv \<and> length ds = length ds0"
  using assms
proof (induction rule: decode_reach.induct)
  case (turn i ds kv ds' kv')
  have "int (w_n_prompt w + i) < pos_max" using turn by simp
  moreover have "loop_inv w prompt i ds kv" "length ds = length ds0" using turn by blast+
  ultimately show ?case using decode_step_inv turn.hyps(3) by fastforce
qed simp

text \<open>The invariant, written out for one decoder.\<close>

lemma reachable_past:
  assumes "decode_reach w ds0 kv0 i ds kv" and "loop_inv w prompt 0 ds0 kv0" and "int (w_n_prompt w) + w_n_max w < pos_max"
    and "m < length ds"
  shows "2 \<le> seek_delta (ds ! m) \<and> 0 \<le> result_len (sequence (ds ! m)) \<and>
    result_len (sequence (ds ! m)) \<le> int (length (seq_tokens (sequence (ds ! m)))) \<and>
    (running (ds ! m) \<longrightarrow> length (seq_tokens (sequence (ds ! m))) = i \<and>
       (\<forall>p x. kv_row kv (int m) p x \<longleftrightarrow> 0 \<le> p \<and> p < int (w_n_prompt w + i) \<and>
          x = Some ((prompt @ map tok_id (seq_tokens (sequence (ds ! m)))) ! nat p)))"
proof -
  from decode_reach_inv [OF assms(1-3)] have "loop_inv w prompt i ds kv" by blast
  with assms(4) show ?thesis
    unfolding loop_inv_def decoder_inv_def cache_inv_def past_in_cache_def Let_def by (metis length_append length_map)
qed

section \<open>Timestamps\<close>

definition stamps :: "whisper_vocab \<Rightarrow> whisper_decoder \<Rightarrow> int list" where
  "stamps voc d = filter (\<lambda>t. t > token_beg voc) (map tok_id (seq_tokens (sequence d)))"

definition ts_inv :: "whisper_vocab \<Rightarrow> whisper_decoder \<Rightarrow> bool" where
  "ts_inv voc d \<longleftrightarrow> sorted (stamps voc d) \<and>
    (running d \<longrightarrow> (has_ts d \<longleftrightarrow> stamps voc d \<noteq> []) \<and>
       (has_ts d \<longrightarrow> seek_delta d = 2 * (last (stamps voc d) - token_beg voc)))"

text \<open>Only tokens that obey the filters can be sampled, and there is one.\<close>

definition ready_to_sample :: "window \<Rightarrow> whisper_decoder \<Rightarrow> bool" where
  "ready_to_sample w d \<longleftrightarrow> (\<exists>p \<in> set (dec_probs d). p > 0) \<and>
    int (length (dec_probs d)) = n_vocab (w_vocab w) \<and>
    (\<forall>k < length (dec_probs d). dec_probs d ! k > 0 \<longrightarrow>
       obeys_filters (w_n_audio_ctx w) (w_params w) (w_vocab w) d (int k))"

text \<open>The network gives a row for the vocabulary, draws are fair, and no user-defined filter is set.\<close>

definition fair_window :: "window \<Rightarrow> bool" where
  "fair_window w \<longleftrightarrow> vocab_ok (w_vocab w) \<and> 0 \<le> w_n_audio_ctx w \<and>
    logits_filter_callback (w_params w) = None \<and> suppress_regex (w_params w) = None \<and> \<not> suppress_nst (w_params w) \<and>
    (\<forall>i j k. fair_draw (w_draw w i j k)) \<and> (\<forall>i r. int (length (w_net w i r)) = n_vocab (w_vocab w))"

lemma obeys_core: "same_core d d' \<Longrightarrow> obeys_filters n ps voc d' t = obeys_filters n ps voc d t"
  by (simp add: obeys_filters_def same_core_def)

lemma stamps_core: "same_core d d' \<Longrightarrow> stamps voc d' = stamps voc d"
  by (simp add: stamps_def same_core_def)

lemma ts_inv_core: "same_core d d' \<Longrightarrow> ts_inv voc d' = ts_inv voc d"
  using same_core_running [of d d'] by (simp add: ts_inv_def stamps_core) (simp add: same_core_def)

lemma process_ready:
  assumes p: "process_decoder w row d = Some d'" and w: "fair_window w" and r: "int (length row) = n_vocab (w_vocab w)"
  shows "ready_to_sample w d'"
proof -
  from w have c: "logits_filter_callback (w_params w) = None" and v: "vocab_ok (w_vocab w)"
    and o: "suppress_regex (w_params w) = None" "\<not> suppress_nst (w_params w)" "0 \<le> w_n_audio_ctx w"
    by (simp_all add: fair_window_def)
  note p' = p [unfolded process_decoder_def]
  note s = process_logits_spec [OF p' c v r]
  from p' obtain ls l lps where f: "filter_logits (w_n_audio_ctx w) (w_params w) (w_vocab w) d (scale_logits (w_t_cur w) row) = Some ls"
    and ch: "choose_timestamp_or_text (w_depth w) (w_gfuel w) (w_params w) (w_vocab w) d ls = Some (l, lps)"
    and d': "d' = d\<lparr>dec_logits := l, dec_logprobs := lps, dec_probs := whisper_compute_probs l lps\<rparr>"
    by (auto simp: whisper_process_logits_def split: option.splits)
  have "finite_logits l \<noteq> []" using choose_keeps_alive [OF filter_leaves_one [OF f c o v r] ch] .
  moreover have "agree l lps" using s by (simp add: d')
  ultimately have "\<exists>p \<in> set (dec_probs d'). p > 0" using probs_alive agree_probs by (simp add: d')
  moreover have "same_core d d'" by (simp add: d' same_core_def)
  moreover have "int (length (dec_probs d')) = n_vocab (w_vocab w)"
    using s r agree_probs [of l lps] by (simp add: d' agree_def)
  ultimately show ?thesis
    using positive_obeys [OF p' c v r] obeys_core [of d d'] unfolding ready_to_sample_def by blast
qed

lemma sampled_obeys:
  assumes "ready_to_sample w d" "fair_window w" "t \<in> tokens_of w i j d"
  shows "obeys_filters (w_n_audio_ctx w) (w_params w) (w_vocab w) d (tok_id t) \<and>
    0 \<le> tok_id t \<and> tok_id t < n_vocab (w_vocab w)"
proof -
  have p: "\<exists>p \<in> set (dec_probs d). p > 0" using assms(1) by (simp add: ready_to_sample_def)
  have f: "fair_draw (w_draw w i j k)" for k using assms(2) by (simp add: fair_window_def)
  have "\<exists>k < length (dec_probs d). tok_id t = int k \<and> dec_probs d ! k > 0"
    using assms(3) sample_token_alive [OF p, of "w_t_cur w < 1 / 1000000" "w_draw w i j 0" "w_vocab w"]
      sample_topk_alive [OF p, of "w_draw w i j" t "w_vocab w"] f
    by (auto simp: tokens_of_def split: if_splits)
  then obtain k where "k < length (dec_probs d)" "tok_id t = int k" "dec_probs d ! k > 0" by blast
  with assms(1) show ?thesis by (auto simp: ready_to_sample_def)
qed

text \<open>A sampled timestamp is not earlier than the last one.\<close>

lemma sampled_not_back:
  assumes "ready_to_sample w d" "fair_window w" "t \<in> tokens_of w i j d" "ts_inv (w_vocab w) d" "running d"
    and "tok_id t > token_beg (w_vocab w)" "has_ts d"
  shows "seek_delta d \<le> 2 * (tok_id t - token_beg (w_vocab w)) \<and> last (stamps (w_vocab w) d) \<le> tok_id t"
proof -
  have sd: "seek_delta d = 2 * (last (stamps (w_vocab w) d) - token_beg (w_vocab w))" "stamps (w_vocab w) d \<noteq> []"
    using assms(4,5,7) by (simp_all add: ts_inv_def)
  then have "last (stamps (w_vocab w) d) > token_beg (w_vocab w)"
    using last_in_set [OF sd(2)] by (auto simp: stamps_def)
  then have "cdiv (seek_delta d) 2 = last (stamps (w_vocab w) d) - token_beg (w_vocab w)" using sd(1) by simp
  moreover have "tok_id t \<ge> token_beg (w_vocab w) + cdiv (seek_delta d) 2"
    using sampled_obeys [OF assms(1-3)] assms(6,7) by (simp add: obeys_filters_def Let_def)
  ultimately show ?thesis using sd by simp
qed

lemma sorted_snoc: "sorted (xs :: int list) \<Longrightarrow> xs \<noteq> [] \<longrightarrow> last xs \<le> x \<Longrightarrow> sorted (xs @ [x])"
proof (induction xs)
  case (Cons a xs)
  have "a \<le> x"
  proof (cases "xs = []")
    case False
    with Cons.prems(1) last_in_set [OF False] have "a \<le> last xs" by auto
    with Cons.prems(2) False show ?thesis by simp
  qed (use Cons.prems in simp)
  moreover have "sorted (xs @ [x])" using Cons by (auto split: if_splits)
  ultimately show ?case using Cons.prems(1) by simp
qed simp

definition goes_back :: "window \<Rightarrow> whisper_decoder \<Rightarrow> bool" where
  "goes_back w d \<longleftrightarrow> (let t = tok_id (last (seq_tokens (sequence d))) in
     t > token_beg (w_vocab w) \<and> has_ts d \<and> seek_delta d > 2 * (t - token_beg (w_vocab w)))"

lemma extend_ts_inv:
  assumes x: "extends w i j d0 d1" "running d0" "running d1" and inv: "ts_inv (w_vocab w) d0" "ready_to_sample w d0"
    and w: "fair_window w" and u: "update_running w i d1 = Some d2"
  shows "\<not> goes_back w d1 \<and> ts_inv (w_vocab w) d2"
proof -
  let ?voc = "w_vocab w"
  from x(1) obtain t where t: "t \<in> tokens_of w i j d0" and d1: "sequence d1 = push_token t (sequence d0)"
    "seek_delta d1 = seek_delta d0" "has_ts d1 = has_ts d0" by (auto simp: extends_def)
  have lt: "last (seq_tokens (sequence d1)) = t" by (simp add: d1 push_token_def)
  have s1: "stamps ?voc d1 = stamps ?voc d0 @ (if tok_id t > token_beg ?voc then [tok_id t] else [])"
    by (simp add: stamps_def d1 push_token_def)
  have nb: "seek_delta d0 \<le> 2 * (tok_id t - token_beg ?voc) \<and> last (stamps ?voc d0) \<le> tok_id t"
    if "tok_id t > token_beg ?voc" "has_ts d0"
    using sampled_not_back [OF inv(2) w t inv(1) x(2) that] .
  then have ngb: "\<not> goes_back w d1" using d1 lt by (auto simp: goes_back_def Let_def)
  have hs: "has_ts d0 \<longleftrightarrow> stamps ?voc d0 \<noteq> []" "has_ts d0 \<Longrightarrow> seek_delta d0 = 2 * (last (stamps ?voc d0) - token_beg ?voc)"
    "sorted (stamps ?voc d0)" using inv(1) x(2) by (simp_all add: ts_inv_def)
  have so: "sorted (stamps ?voc d1)"
    unfolding s1 using sorted_snoc [OF hs(3), of "tok_id t"] nb hs(1,3) by (cases "tok_id t > token_beg ?voc") auto
  note us = update_decoder_spec [OF u [unfolded update_running_def] x(3), unfolded lt]
  have s2: "stamps ?voc d2 = stamps ?voc d1" using us by (simp add: stamps_def)
  have nback: "\<not> (tok_id t > token_beg ?voc \<and> has_ts d1 \<and> seek_delta d1 > 2 * (tok_id t - token_beg ?voc) \<and>
      result_len (sequence d1) < int i)"
    using ngb unfolding goes_back_def Let_def lt by blast
  have "has_ts d2 = (has_ts d0 \<or> tok_id t > token_beg ?voc) \<and>
       (seek_delta d2 = (if tok_id t > token_beg ?voc then 2 * (tok_id t - token_beg ?voc) else seek_delta d0) \<or>
        (seek_delta d2 = 3000 \<and> \<not> running d2))"
    using us unfolding d1(2,3) [symmetric] by (simp only: nback if_False simp_thms)
  then have "ts_inv ?voc d2" using so s1 s2 hs by (auto simp: ts_inv_def)
  with ngb show ?thesis by blast
qed

definition ts_loop :: "window \<Rightarrow> whisper_decoder list \<Rightarrow> bool" where
  "ts_loop w ds \<longleftrightarrow> (\<forall>m < length ds. ts_inv (w_vocab w) (ds ! m) \<and> (running (ds ! m) \<longrightarrow> ready_to_sample w (ds ! m)))"

lemma sample_update_ts:
  assumes inv: "ts_loop w ds" and w: "fair_window w" and s: "sample_step w i ds kv = Some (ds1, kv1)"
    and u: "\<forall>m < length ds1. update_running w i (ds1 ! m) = Some (ds2 ! m)"
  shows "length ds1 = length ds \<and>
    (\<forall>m < length ds. (running (ds1 ! m) \<longrightarrow> \<not> goes_back w (ds1 ! m)) \<and> ts_inv (w_vocab w) (ds2 ! m))"
proof -
  from s obtain f where f: "length ds1 = length ds" "\<forall>m < length ds. running (ds1 ! m) = running (ds ! m)"
    "\<forall>m < length ds. \<not> running (ds ! m) \<longrightarrow> ds1 ! m = ds ! m"
    "\<forall>m < length ds. running (ds ! m) \<longrightarrow> f m < length ds \<and> running (ds ! f m) \<and> extends w i (f m) (ds ! f m) (ds1 ! m)"
    by (rule sample_step_spec) blast
  have "(running (ds1 ! m) \<longrightarrow> \<not> goes_back w (ds1 ! m)) \<and> ts_inv (w_vocab w) (ds2 ! m)" if m: "m < length ds" for m
  proof (cases "running (ds ! m)")
    case True
    with f m have *: "f m < length ds" "running (ds ! f m)" "extends w i (f m) (ds ! f m) (ds1 ! m)" "running (ds1 ! m)" by auto
    have "ts_inv (w_vocab w) (ds ! f m)" "ready_to_sample w (ds ! f m)" using inv *(1,2) by (simp_all add: ts_loop_def)
    moreover have "update_running w i (ds1 ! m) = Some (ds2 ! m)" using u m f(1) by simp
    ultimately show ?thesis using extend_ts_inv * w by blast
  next
    case False
    then have "update_running w i (ds1 ! m) = Some (ds ! m)"
      using f(3) m update_not_running by (simp add: update_running_def)
    with u m f(1) have "ds2 ! m = ds ! m" by simp
    with False inv m f(2) show ?thesis by (simp add: ts_loop_def)
  qed
  with f(1) show ?thesis by blast
qed

interpretation stamp: decoder_property w "\<lambda>i d. fair_window w \<longrightarrow> ts_inv (w_vocab w) d"
  "\<lambda>d. fair_window w \<longrightarrow> ready_to_sample w d" for w
proof
  fix i j r d0 d1 d2 d d'
  show "fair_window w \<longrightarrow> ts_inv (w_vocab w) d2"
    if "extends w i j d0 d1" "running d0" "running d1" "fair_window w \<longrightarrow> ts_inv (w_vocab w) d0"
      "fair_window w \<longrightarrow> ready_to_sample w d0" "update_running w i d1 = Some d2"
    using extend_ts_inv that by blast
  show "fair_window w \<longrightarrow> ts_inv (w_vocab w) d'" if "same_core d d'" "fair_window w \<longrightarrow> ts_inv (w_vocab w) d"
    using that ts_inv_core by blast
  show "fair_window w \<longrightarrow> ready_to_sample w d'" if "process_decoder w (w_net w i r) d = Some d'"
    using process_ready [OF that] by (simp add: fair_window_def)
qed simp

lemma decode_reach_ts:
  assumes "decode_reach w ds0 kv0 i ds kv" "ts_loop w ds0" "fair_window w"
  shows "ts_loop w ds"
  using stamp.reach [OF assms(1)] assms(2,3) by (simp add: ts_loop_def)

text \<open>C3: The timestamps of every decoder never decrease, for any network and any fair draws; the window shift of a
  running decoder is that of its last timestamp, and the check that fails a decoder for going back in time
  never fires, since the filters let no earlier timestamp through.\<close>

theorem timestamps_never_decrease:
  assumes "decode_reach w ds0 kv0 i ds kv" and "ts_loop w ds0" and "fair_window w"
  shows "(\<forall>d \<in> set ds. sorted (stamps (w_vocab w) d) \<and>
      (running d \<and> stamps (w_vocab w) d \<noteq> [] \<longrightarrow>
         has_ts d \<and> seek_delta d = 2 * (last (stamps (w_vocab w) d) - token_beg (w_vocab w)))) \<and>
    (\<forall>ds1 kv1 ds2. sample_step w i ds kv = Some (ds1, kv1) \<and> update_all (update_running w i) ds1 = Some ds2 \<longrightarrow>
       (\<forall>d \<in> set ds1. running d \<longrightarrow> \<not> goes_back w d))"
proof (intro conjI allI impI ballI)
  note inv = decode_reach_ts [OF assms]
  { fix d assume "d \<in> set ds"
    then obtain m where "m < length ds" "d = ds ! m" by (auto simp: in_set_conv_nth)
    with inv have "ts_inv (w_vocab w) d" by (simp add: ts_loop_def)
    then show "sorted (stamps (w_vocab w) d)"
      "running d \<and> stamps (w_vocab w) d \<noteq> [] \<Longrightarrow> has_ts d"
      "running d \<and> stamps (w_vocab w) d \<noteq> [] \<Longrightarrow> seek_delta d = 2 * (last (stamps (w_vocab w) d) - token_beg (w_vocab w))"
      by (auto simp: ts_inv_def) }
  fix ds1 kv1 ds2 d
  assume s: "sample_step w i ds kv = Some (ds1, kv1) \<and> update_all (update_running w i) ds1 = Some ds2"
    and d: "d \<in> set ds1" "running d"
  from d obtain m where "m < length ds1" "d = ds1 ! m" by (auto simp: in_set_conv_nth)
  with sample_update_ts [OF inv assms(3), of i kv ds1 kv1 ds2] s update_all_nth [of "update_running w i" ds1 ds2] d(2)
  show "\<not> goes_back w d" by auto
qed

section \<open>Examples\<close>

definition sample_window :: "whisper_vocab \<Rightarrow> window" where
  "sample_window voc = \<lparr>w_depth = 0, w_gfuel = 0, w_n_audio_ctx = 1500, w_params = plain_params, w_vocab = voc,
     w_loaded = True, w_t_cur = 0, w_draw = (\<lambda>i j k. first_positive),
     w_net = (\<lambda>i r. replicate (nat (n_vocab voc)) 0), w_ok = (\<lambda>i. True), w_n_prompt = 1, w_n_max = 220,
     w_seek = 0, w_seek_end = 3000\<rparr>"

theorem timestamps_never_decrease_witness:
  "\<exists>voc d'. load_vocab [] 51865 = Some voc \<and> sorted (stamps voc d') \<and> running d'"
proof -
  obtain voc where voc: "load_vocab [] 51865 = Some voc" using small_vocab_loads by blast
  let ?w = "sample_window voc"
  have v: "vocab_ok voc" "n_vocab voc = 51865" using load_vocab_ok [OF voc] by simp_all
  from uniform_example [OF voc] obtain d' where
    d': "whisper_process_logits 0 0 1500 plain_params voc 0 (replicate 51865 0) fresh_decoder = Some d'" by blast
  have w: "fair_window ?w"
    using v fair_first_positive
    by (simp add: fair_window_def sample_window_def plain_params_def whisper_full_default_params_def)
  have p: "process_decoder ?w (replicate 51865 0) fresh_decoder = Some d'"
    using d' by (simp add: process_decoder_def sample_window_def)
  then have c: "same_core fresh_decoder d'"
    by (auto simp: process_decoder_def whisper_process_logits_def same_core_def split: option.splits)
  have "ready_to_sample ?w d'" by (rule process_ready [OF p w]) (simp add: sample_window_def v)
  moreover have r: "running d'" "ts_inv voc d'" "stamps voc d' = []"
    using c by (simp_all add: same_core_def running_def ts_inv_def stamps_def fresh_decoder_def)
  ultimately have "ts_loop ?w [d']" by (simp add: ts_loop_def sample_window_def)
  from timestamps_never_decrease [OF decode_reach.start this w] voc r(1) show ?thesis
    by (auto simp: sample_window_def)
qed

end
