(* ===== verification/Tokenizer.thy ===== *)
theory Tokenizer
  imports Logits_Filter
begin

text \<open>
  The tokenizer of \<open>whisper.cpp\<close>: a text is split into words by a regular expression, and each word is
  covered from the left by the longest tokens of the vocabulary.

  The search of \<open>std::regex\<close> is an argument, the function from a text to its list of words.
\<close>

section \<open>The model\<close>

text \<open>The longest prefix of \<open>r\<close> of at most \<open>k\<close> bytes that is a token, with its length.\<close>

fun longest_token :: "whisper_vocab \<Rightarrow> bytestring \<Rightarrow> nat \<Rightarrow> (int \<times> nat) option" where
  "longest_token voc r 0 = None"
| "longest_token voc r (Suc k) =
    (case token_to_id voc (take (Suc k) r) of Some t \<Rightarrow> Some (t, Suc k) | None \<Rightarrow> longest_token voc r k)"

lemma longest_token_bounds: "longest_token voc r k = Some (t, n) \<Longrightarrow> 0 < n \<and> n \<le> k"
  by (induction k) (auto split: option.splits)

text \<open>A byte at which no token starts is skipped.\<close>

function word_tokens :: "whisper_vocab \<Rightarrow> bytestring \<Rightarrow> int list" where
  "word_tokens voc [] = []"
| "word_tokens voc (b # r) =
    (case longest_token voc (b # r) (length (b # r)) of
       Some (t, k) \<Rightarrow> t # word_tokens voc (drop k (b # r))
     | None \<Rightarrow> word_tokens voc r)"
  by pat_completeness auto
termination
  by (relation "measure (length \<circ> snd)") (auto simp del: longest_token.simps dest!: longest_token_bounds)

declare word_tokens.simps(2) [simp del]

definition tokenize :: "(bytestring \<Rightarrow> bytestring list) \<Rightarrow> whisper_vocab \<Rightarrow> bytestring \<Rightarrow> int list" where
  "tokenize split_words voc tx = concat (map (word_tokens voc) (split_words tx))"

text \<open>The result and what is written to the array of \<open>n_max\<close> tokens.\<close>

definition whisper_tokenize ::
  "(bytestring \<Rightarrow> bytestring list) \<Rightarrow> whisper_vocab \<Rightarrow> bytestring \<Rightarrow> int \<Rightarrow> int \<times> int list" where
  "whisper_tokenize split_words voc tx n_max =
    (let res = tokenize split_words voc tx in
     if n_max < int (length res) then (- int (length res), []) else (int (length res), res))"

definition whisper_token_count :: "(bytestring \<Rightarrow> bytestring list) \<Rightarrow> whisper_vocab \<Rightarrow> bytestring \<Rightarrow> int" where
  "whisper_token_count split_words voc tx = - fst (whisper_tokenize split_words voc tx 0)"

section \<open>Round trip\<close>

text \<open>Every byte is a token by itself, as in the vocabularies of byte-level encodings.\<close>

definition bytes_known :: "whisper_vocab \<Rightarrow> bool" where
  "bytes_known voc \<longleftrightarrow> (\<forall>b. token_to_id voc [b] \<noteq> None)"

definition words_consistent :: "whisper_vocab \<Rightarrow> bool" where
  "words_consistent voc \<longleftrightarrow> (\<forall>w i. token_to_id voc w = Some i \<longrightarrow> id_to_token voc i = Some w)"

lemma longest_token_spec:
  "longest_token voc r k = Some (t, n) \<Longrightarrow>
    token_to_id voc (take n r) = Some t \<and> (\<forall>m. n < m \<and> m \<le> k \<longrightarrow> token_to_id voc (take m r) = None)"
proof (induction k)
  case (Suc k)
  show ?case
  proof (cases "token_to_id voc (take (Suc k) r)")
    case None
    with Suc.prems have "longest_token voc r k = Some (t, n)" by simp
    from Suc.IH [OF this] None show ?thesis by (auto simp: le_Suc_eq)
  qed (use Suc.prems in auto)
qed simp

lemma longest_token_None: "longest_token voc r k = None \<longleftrightarrow> (\<forall>m. 0 < m \<and> m \<le> k \<longrightarrow> token_to_id voc (take m r) = None)"
  by (induction k) (auto simp: le_Suc_eq split: option.splits)

lemma word_tokens_text:
  assumes "bytes_known voc" "words_consistent voc"
  shows "concat (map (token_text_or_empty voc) (word_tokens voc r)) = r"
  using assms
proof (induction voc r rule: word_tokens.induct)
  case (2 voc b r)
  have "token_to_id voc (take 1 (b # r)) \<noteq> None" using "2.prems"(1) by (simp add: bytes_known_def)
  then have "longest_token voc (b # r) (length (b # r)) \<noteq> None"
    unfolding longest_token_None by (metis One_nat_def Suc_leI length_greater_0_conv list.distinct(1) zero_less_one)
  then obtain t k where tk: "longest_token voc (b # r) (length (b # r)) = Some (t, k)" by auto
  have "token_text_or_empty voc t = take k (b # r)"
    using longest_token_spec [OF tk] "2.prems"(2) by (auto simp: words_consistent_def token_text_or_empty_def)
  then show ?case
    using "2.IH"(2) [OF tk refl] "2.prems" tk append_take_drop_id [of k "b # r"]
    by (simp add: word_tokens.simps(2))
qed simp

text \<open>C40: Tokenizing loses nothing: over a vocabulary that knows every byte, the texts of the tokens spell the
  words of the text in order, the tokens are greedy (a word starts with the longest token that fits),
  and an array that is too small is refused with the negated number of tokens, which is what
  \<open>whisper_token_count\<close> reports.\<close>

theorem tokenize_roundtrip:
  assumes "bytes_known voc" "words_consistent voc"
  shows "concat (map (token_text_or_empty voc) (tokenize sp voc tx)) = concat (sp tx) \<and>
    (\<forall>b r t ts. word_tokens voc (b # r) = t # ts \<longrightarrow>
       (\<exists>n. token_to_id voc (take n (b # r)) = Some t \<and> 0 < n \<and>
            (\<forall>m. n < m \<and> m \<le> length (b # r) \<longrightarrow> token_to_id voc (take m (b # r)) = None))) \<and>
    whisper_token_count sp voc tx = int (length (tokenize sp voc tx)) \<and>
    (\<forall>n. whisper_tokenize sp voc tx n =
       (if n < whisper_token_count sp voc tx then (- whisper_token_count sp voc tx, [])
        else (whisper_token_count sp voc tx, tokenize sp voc tx)))"
proof (intro conjI allI impI)
  show "concat (map (token_text_or_empty voc) (tokenize sp voc tx)) = concat (sp tx)"
  proof -
    have "concat (map (token_text_or_empty voc) (concat (map (word_tokens voc) ws))) = concat ws" for ws
      using word_tokens_text [OF assms] by (induction ws) simp_all
    then show ?thesis by (simp add: tokenize_def)
  qed
  show c: "whisper_token_count sp voc tx = int (length (tokenize sp voc tx))"
    by (simp add: whisper_token_count_def whisper_tokenize_def Let_def)
  show "whisper_tokenize sp voc tx n =
       (if n < whisper_token_count sp voc tx then (- whisper_token_count sp voc tx, [])
        else (whisper_token_count sp voc tx, tokenize sp voc tx))" for n
    unfolding c by (simp add: whisper_tokenize_def Let_def)
  fix b r t ts assume w: "word_tokens voc (b # r) = t # ts"
  have "token_to_id voc (take 1 (b # r)) \<noteq> None" using assms(1) by (simp add: bytes_known_def)
  then have "longest_token voc (b # r) (length (b # r)) \<noteq> None"
    unfolding longest_token_None by (metis One_nat_def Suc_leI length_greater_0_conv list.distinct(1) zero_less_one)
  then obtain k where tk: "longest_token voc (b # r) (length (b # r)) = Some (t, k)"
    using w by (auto simp: word_tokens.simps(2))
  then show "\<exists>n. token_to_id voc (take n (b # r)) = Some t \<and> 0 < n \<and>
            (\<forall>m. n < m \<and> m \<le> length (b # r) \<longrightarrow> token_to_id voc (take m (b # r)) = None)"
    using longest_token_spec [OF tk] longest_token_bounds [OF tk] by blast
qed

definition byte_vocab :: whisper_vocab where
  "byte_vocab = default_vocab\<lparr>
     token_to_id := (\<lambda>w. case w of [b] \<Rightarrow> Some (uint b) | [b, c] \<Rightarrow> if w = bytes ''ab'' then Some 256 else None | _ \<Rightarrow> None),
     id_to_token := (\<lambda>i. if i = 256 then Some (bytes ''ab'') else if 0 \<le> i \<and> i < 256 then Some [word_of_int i] else None)\<rparr>"

theorem tokenize_roundtrip_witness:
  "concat (map (token_text_or_empty byte_vocab) (tokenize (\<lambda>t. [t]) byte_vocab (bytes ''cab''))) = bytes ''cab''"
proof -
  have "bytes_known byte_vocab" by (simp add: bytes_known_def byte_vocab_def)
  moreover have "words_consistent byte_vocab"
    unfolding words_consistent_def
  proof (intro allI impI)
    fix w i assume w: "token_to_id byte_vocab w = Some i"
    consider b where "w = [b]" "i = uint b" | "w = bytes ''ab''" "i = 256"
      using w by (auto simp: byte_vocab_def split: list.splits if_splits)
    then show "id_to_token byte_vocab i = Some w"
    proof cases
      case (1 b)
      have "0 \<le> uint b" "uint b < 256" using uint_lt2p [of b] by simp_all
      with 1 show ?thesis by (simp add: byte_vocab_def)
    qed (simp add: byte_vocab_def)
  qed
  ultimately show ?thesis using tokenize_roundtrip [of byte_vocab "\<lambda>t. [t]" "bytes ''cab''"] by simp
qed

end
