(* ===== verification/Full_Transcribe.thy ===== *)
theory Full_Transcribe
  imports Decoder_Invariants Tokenizer
begin

text \<open>
  \<open>whisper_full_with_state\<close>: language detection, the prompt, the temperatures, the decoding of a window at
  falling back temperatures, the output of its segments, and the main loop over the windows.

  The audio front end, the networks, the callbacks and the random draws are arguments (\<open>full_env\<close>); they may
  depend on the position \<open>seek\<close> of the window, the number of the attempt and of the computation.  The
  experimental DTW timestamps are off (\<open>dtw_token_timestamps\<close> of the context is false).  Statistics and console output are left out.
\<close>

section \<open>The context, the state and the environment\<close>

record whisper_context =
  c_vocab :: whisper_vocab
  c_n_text_ctx :: int
  c_n_text_layer :: int
  c_n_audio_ctx :: int
  c_n_loaded :: int

record whisper_state =
  st_decoders :: "whisper_decoder list"
  st_kv_self :: whisper_kv_cache
  st_kv_self_n_dec :: int
  st_prompt_past0 :: "int list"
  st_prompt_past1 :: "int list"
  st_lang_id :: int
  st_exp_n_audio_ctx :: int
  st_no_speech_prob :: real
  st_energy :: "real list"
  st_n_len_org :: int
  st_out :: out_state

text \<open>
  \<open>e_row0\<close> is what the first row of the logits buffer holds after a prompt of several tokens: a prompt only
  writes the row of its last token, so that the first row is left from earlier computations.
\<close>

record full_env =
  e_fuel :: nat
  e_split :: "bytestring \<Rightarrow> bytestring list"
  e_mel_ok :: bool
  e_mel_len :: int
  e_lang_enc_ok :: bool
  e_lang_dec_ok :: bool
  e_lang_logits :: "int \<Rightarrow> real"
  e_begin :: "int \<Rightarrow> bool"
  e_enc_ok :: "int \<Rightarrow> bool"
  e_kv_init_ok :: "int \<Rightarrow> nat \<Rightarrow> bool"
  e_ok :: "int \<Rightarrow> nat \<Rightarrow> nat \<Rightarrow> bool"
  e_net :: "int \<Rightarrow> nat \<Rightarrow> nat \<Rightarrow> nat \<Rightarrow> real list"
  e_row0 :: "int \<Rightarrow> nat \<Rightarrow> real list"
  e_draw :: "int \<Rightarrow> nat \<Rightarrow> nat \<Rightarrow> nat \<Rightarrow> nat \<Rightarrow> real list \<Rightarrow> nat"

section \<open>Temperatures and decoders\<close>

function temperature_list :: "real \<Rightarrow> real \<Rightarrow> real list" where
  "temperature_list t inc = (if inc > 0 \<and> t < 1 + 1 / 1000000 then t # temperature_list (t + inc) inc else [])"
  by pat_completeness auto
termination
proof (relation "measure (\<lambda>(t, inc). nat \<lceil>(1 + 1 / 1000000 - t) / inc\<rceil>)")
  fix t inc :: real
  assume a: "inc > 0 \<and> t < 1 + 1 / 1000000"
  have "(1 + 1 / 1000000 - (t + inc)) / inc = (1 + 1 / 1000000 - t) / inc - 1"
    using a by (simp add: field_simps)
  moreover have "(1 + 1 / 1000000 - t) / inc > 0" using a by simp
  ultimately show "((t + inc, inc), t, inc) \<in> measure (\<lambda>(t, inc). nat \<lceil>(1 + 1 / 1000000 - t) / inc\<rceil>)"
    by simp
qed simp

declare temperature_list.simps [simp del]

definition temperatures :: "whisper_full_params \<Rightarrow> real list" where
  "temperatures ps =
    (if temperature_inc ps > 0 then temperature_list (temperature ps) (temperature_inc ps) else [temperature ps])"

definition WHISPER_MAX_DECODERS :: int where "WHISPER_MAX_DECODERS = 8"

definition n_decoders :: "whisper_full_params \<Rightarrow> int" where
  "n_decoders ps =
    max 1 (case strategy ps of SAMPLING_GREEDY \<Rightarrow> best_of ps | SAMPLING_BEAM_SEARCH \<Rightarrow> max (best_of ps) (beam_size ps))"

definition n_decoders_cur :: "whisper_full_params \<Rightarrow> real \<Rightarrow> int" where
  "n_decoders_cur ps t_cur =
    max 1 (case strategy ps of
             SAMPLING_GREEDY \<Rightarrow> if t_cur > 0 then best_of ps else 1
           | SAMPLING_BEAM_SEARCH \<Rightarrow> if t_cur > 0 then best_of ps else beam_size ps)"

section \<open>Prompts\<close>

definition max_prompt_ctx :: "whisper_full_params \<Rightarrow> whisper_context \<Rightarrow> int" where
  "max_prompt_ctx ps c = min (n_max_text_ctx ps) (cdiv (c_n_text_ctx c) 2)"

text \<open>The array of prompt tokens, from the initial prompt if no array is given (a null pointer is the empty list).\<close>

definition initial_prompt_tokens :: "(bytestring \<Rightarrow> bytestring list) \<Rightarrow> whisper_full_params \<Rightarrow> whisper_vocab \<Rightarrow> int list" where
  "initial_prompt_tokens sp ps voc =
    (if prompt_tokens ps = [] then (case initial_prompt ps of None \<Rightarrow> [] | Some tx \<Rightarrow> tokenize sp voc tx)
     else prompt_tokens ps)"

definition prepare_prompt ::
  "(bytestring \<Rightarrow> bytestring list) \<Rightarrow> whisper_full_params \<Rightarrow> whisper_context \<Rightarrow> whisper_state \<Rightarrow> whisper_state" where
  "prepare_prompt sp ps c st =
    (let st1 = (if no_context ps then st\<lparr>st_prompt_past0 := [], st_prompt_past1 := []\<rparr> else st);
         toks = initial_prompt_tokens sp ps (c_vocab c)
     in if toks = [] then st1
        else if carry_initial_prompt ps then
          (if st_prompt_past0 st1 = []
           then (let n_tokens = min (int (length toks)) (max 1 (max_prompt_ctx ps c - 1))
                 in st1\<lparr>st_prompt_past0 := drop (length toks - nat n_tokens) toks\<rparr>)
           else st1)
        else st1\<lparr>st_prompt_past1 := toks @ st_prompt_past1 st1\<rparr>)"

text \<open>The tokens that determine the task.\<close>

definition prompt_init :: "whisper_full_params \<Rightarrow> whisper_context \<Rightarrow> int list" where
  "prompt_init ps c =
    (let voc = c_vocab c in
     token_sot voc #
     (if is_multilingual voc
      then [whisper_token_lang voc (whisper_lang_id (language ps)),
            if translate ps then token_translate voc else token_transcribe voc]
      else []) @
     (if no_timestamps ps then [token_not voc] else []))"

definition force_no_timestamps :: "whisper_full_params \<Rightarrow> whisper_context \<Rightarrow> whisper_full_params" where
  "force_no_timestamps ps c =
    (if c_n_text_layer c = 2 \<and> n_vocab (c_vocab c) \<noteq> 51866 then ps\<lparr>no_timestamps := True\<rparr> else ps)"

text \<open>The prompt of an attempt.  A negative number of dynamic tokens is an iterator behind the end: \<open>None\<close>.\<close>

definition build_prompt ::
  "whisper_full_params \<Rightarrow> whisper_context \<Rightarrow> real \<Rightarrow> int list \<Rightarrow> int list \<Rightarrow> int list option" where
  "build_prompt ps c t_cur past0 past1 =
    (let can_take0 = (carry_initial_prompt ps \<and> past0 \<noteq> []);
         can_take1 = (past1 \<noteq> [])
     in if n_max_text_ctx ps > 0 \<and> t_cur < 1 / 2 \<and> max_prompt_ctx ps c > 0 \<and> (can_take0 \<or> can_take1)
        then (let take0 = (if can_take0 then past0 else []);
                  n_take1 = min (max_prompt_ctx ps c - int (length take0) - 1) (int (length past1))
              in if n_take1 < 0 then None
                 else Some (token_prev (c_vocab c) # take0 @ drop (length past1 - nat n_take1) past1 @ prompt_init ps c))
        else Some (prompt_init ps c))"

section \<open>One attempt at a temperature\<close>

definition ggml_pad :: "int \<Rightarrow> int \<Rightarrow> int" where
  "ggml_pad x n = (x + n - 1) div n * n"

text \<open>The cache, recreated when it was made for fewer decoders.\<close>

definition ensure_cache :: "full_env \<Rightarrow> whisper_context \<Rightarrow> int \<Rightarrow> nat \<Rightarrow> int \<Rightarrow> whisper_state \<Rightarrow> whisper_state option" where
  "ensure_cache e c seek it n_cur st =
    (if st_kv_self_n_dec st < n_cur then
       (if e_kv_init_ok e seek it
        then Some (st\<lparr>st_kv_self := whisper_kv_cache_init
                                     (nat (ggml_pad (c_n_text_ctx c) 256 * (if n_cur > 1 then n_cur + 2 else 1))),
                      st_kv_self_n_dec := n_cur\<rparr>)
        else None)
     else Some st)"

definition softmax_at :: "real list \<Rightarrow> int \<Rightarrow> real" where
  "softmax_at row i = prob_of (whisper_compute_logprobs (map Some row) ! nat i)"

definition window_of ::
  "full_env \<Rightarrow> whisper_full_params \<Rightarrow> whisper_context \<Rightarrow> int \<Rightarrow> int \<Rightarrow> nat \<Rightarrow> real \<Rightarrow> nat \<Rightarrow> window" where
  "window_of e ps c seek_end seek it t_cur n_prompt =
    \<lparr>w_depth = e_fuel e, w_gfuel = e_fuel e, w_n_audio_ctx = c_n_audio_ctx c, w_params = ps, w_vocab = c_vocab c,
     w_loaded = (c_n_loaded c \<noteq> 0), w_t_cur = t_cur, w_draw = e_draw e seek it, w_net = e_net e seek it,
     w_ok = e_ok e seek it, w_n_prompt = n_prompt, w_n_max = cdiv (c_n_text_ctx c) 2 - 4,
     w_seek = seek, w_seek_end = seek_end\<rparr>"

text \<open>The other decoders take over the cache and the probabilities of the first one.\<close>

definition copy_probs :: "whisper_decoder \<Rightarrow> whisper_decoder \<Rightarrow> whisper_decoder" where
  "copy_probs d0 d = d\<lparr>dec_probs := dec_probs d0, dec_logits := dec_logits d0, dec_logprobs := dec_logprobs d0\<rparr>"

fun copy_sequence :: "nat \<Rightarrow> nat \<Rightarrow> whisper_kv_cache \<Rightarrow> whisper_kv_cache" where
  "copy_sequence j 0 kv = kv"
| "copy_sequence j (Suc n) kv = copy_sequence (j + 1) n (whisper_kv_cache_seq_cp kv 0 (int j) (-1) (-1))"

definition start_decoders ::
  "window \<Rightarrow> nat \<Rightarrow> whisper_decoder list \<Rightarrow> whisper_kv_cache \<Rightarrow> (whisper_decoder list \<times> whisper_kv_cache) option" where
  "start_decoders w n_prompt ds kv =
    (case ds of
       [] \<Rightarrow> None
     | d # rest \<Rightarrow>
         map_option (\<lambda>d0. (d0 # map (copy_probs d0) rest, copy_sequence 1 (length rest) kv))
           (process_decoder w (w_net w 0 (n_prompt - 1)) (d\<lparr>i_batch := int n_prompt - 1\<rparr>)))"

text \<open>An attempt: the prompt, the state and the best decoder afterwards.\<close>

definition attempt ::
  "full_env \<Rightarrow> whisper_full_params \<Rightarrow> whisper_context \<Rightarrow> int \<Rightarrow> int \<Rightarrow> nat \<Rightarrow> real \<Rightarrow> nat \<Rightarrow> whisper_state \<Rightarrow>
   (int list \<times> whisper_state \<times> nat) result" where
  "attempt e ps c seek_end seek it t_cur best st =
    (let n_cur = n_decoders_cur ps t_cur; n = nat n_cur in
     case update_all (decoder_reset (e_fuel e) ps) (take n (st_decoders st)) of
       None \<Rightarrow> None
     | Some ds0 \<Rightarrow>
         (case build_prompt ps c t_cur (st_prompt_past0 st) (st_prompt_past1 st) of
            None \<Rightarrow> None
          | Some prompt \<Rightarrow>
              (case ensure_cache e c seek it n_cur st of
                 None \<Rightarrow> Some (Inl (-7))
               | Some st1 \<Rightarrow>
                   (case whisper_decode_internal (whisper_batch_prep_legacy prompt 0 0) (e_ok e seek it 0)
                           (whisper_kv_cache_clear (st_kv_self st1)) of
                      None \<Rightarrow> Some (Inl (-8))
                    | Some kv1 \<Rightarrow>
                        (let w = window_of e ps c seek_end seek it t_cur (length prompt);
                             row0 = (if length prompt = 1 then e_net e seek it 0 0 else e_row0 e seek it);
                             nsp = softmax_at row0 (token_nosp (c_vocab c))
                         in case start_decoders w (length prompt) ds0 kv1 of
                              None \<Rightarrow> None
                            | Some (ds1, kv2) \<Rightarrow>
                                (case decode_loop w 0 ds1 kv2 of
                                   None \<Rightarrow> None
                                 | Some (Inl err) \<Rightarrow> Some (Inl err)
                                 | Some (Inr (ds2, kv3)) \<Rightarrow>
                                     (let (ds3, best') = rank_decoders ps best ds2
                                      in Some (Inr (prompt,
                                            st1\<lparr>st_decoders := ds3 @ drop n (st_decoders st1), st_kv_self := kv3,
                                                st_no_speech_prob := nsp\<rparr>, best')))))))))"

definition attempt_failed :: "whisper_full_params \<Rightarrow> whisper_state \<Rightarrow> nat \<Rightarrow> bool" where
  "attempt_failed ps st best =
    (let d = st_decoders st ! best in
     dec_failed d \<or>
     (opt_less (avg_logprobs (sequence d)) (Some (logprob_thold ps)) \<and> st_no_speech_prob st < no_speech_thold ps))"

text \<open>The temperatures in turn until one succeeds; the last one always does.\<close>

fun temperature_loop ::
  "full_env \<Rightarrow> whisper_full_params \<Rightarrow> whisper_context \<Rightarrow> int \<Rightarrow> int \<Rightarrow> nat \<Rightarrow> real list \<Rightarrow> nat \<Rightarrow> int list \<Rightarrow>
   whisper_state \<Rightarrow> (int list \<times> whisper_state \<times> nat) result" where
  "temperature_loop e ps c seek_end seek it [] best prompt st = Some (Inr (prompt, st, best))"
| "temperature_loop e ps c seek_end seek it (t_cur # ts) best prompt st =
    (case attempt e ps c seek_end seek it t_cur best st of
       None \<Rightarrow> None
     | Some (Inl err) \<Rightarrow> Some (Inl err)
     | Some (Inr (prompt', st', best')) \<Rightarrow>
         (if ts \<noteq> [] \<and> attempt_failed ps st' best'
          then temperature_loop e ps c seek_end seek (it + 1) ts best' prompt' st'
          else Some (Inr (prompt', st', best'))))"

section \<open>The result of a window\<close>

definition next_past1 ::
  "whisper_full_params \<Rightarrow> whisper_context \<Rightarrow> int list \<Rightarrow> bool \<Rightarrow> whisper_decoder \<Rightarrow> int list" where
  "next_past1 ps c prompt is_no_speech d =
    (if \<not> carry_initial_prompt ps \<and> prompt \<noteq> [] \<and> hd prompt = token_prev (c_vocab c)
     then take (length prompt - 1 - length (prompt_init ps c)) (tl prompt) else []) @
    (if is_no_speech then [] else map tok_id (take (nat (result_len (sequence d))) (seq_tokens (sequence d))))"

definition single_timestamp_ending :: "whisper_vocab \<Rightarrow> whisper_token_data list \<Rightarrow> bool" where
  "single_timestamp_ending voc toks \<longleftrightarrow>
    length toks > 1 \<and> tok_id (toks ! (length toks - 2)) < token_beg voc \<and>
    tok_id (toks ! (length toks - 1)) > token_beg voc"

text \<open>The new position and state.\<close>

definition finish_window ::
  "whisper_full_params \<Rightarrow> whisper_context \<Rightarrow> int \<Rightarrow> int \<Rightarrow> int list \<Rightarrow> nat \<Rightarrow> whisper_state \<Rightarrow> (int \<times> whisper_state) option"
where
  "finish_window ps c seek_end seek prompt best st =
    (let d = st_decoders st ! best;
         toks = seq_tokens (sequence d);
         is_no_speech = (st_no_speech_prob st > no_speech_thold ps \<and>
                         opt_less (avg_logprobs (sequence d)) (Some (logprob_thold ps)));
         st1 = st\<lparr>st_prompt_past1 := next_past1 ps c prompt is_no_speech d\<rparr>;
         seek_delta' = (if single_timestamp_ending (c_vocab c) toks
                        then min (seek_end - seek) (WHISPER_CHUNK_SIZE * 100) else seek_delta d)
     in map_option (\<lambda>out. (seek + seek_delta', st1\<lparr>st_out := out\<rparr>))
          (if toks \<noteq> [] \<and> c_n_loaded c > 0 \<and> \<not> is_no_speech
           then output_segments ps False (c_vocab c) (st_energy st1) (st_no_speech_prob st1) seek (seek_delta d) toks (st_out st1)
           else Some (st_out st1)))"

section \<open>The main loop\<close>

text \<open>A call that fails leaves the segments it has output so far.\<close>

datatype full_result = Returned int whisper_state | Failed int out_state | Crashed | Unfinished int whisper_state

fun main_loop ::
  "nat \<Rightarrow> full_env \<Rightarrow> whisper_full_params \<Rightarrow> whisper_context \<Rightarrow> int \<Rightarrow> int \<Rightarrow> int \<Rightarrow> whisper_state \<Rightarrow> full_result" where
  "main_loop 0 e ps c seek_start seek_end seek st = Unfinished seek st"
| "main_loop (Suc fuel) e ps c seek_start seek_end seek st =
    (if seek + delta_min \<ge> seek_end then Returned 0 st
     else if \<not> e_begin e seek then Returned 0 st
     else if \<not> e_enc_ok e seek then Failed (-6) (st_out st)
     else
       (let st1 = (if seek > seek_start \<and> seek + 500 \<ge> seek_end
                   then st\<lparr>st_prompt_past0 := [], st_prompt_past1 := []\<rparr> else st)
        in case temperature_loop e ps c seek_end seek 0 (temperatures ps) 0 [] st1 of
             None \<Rightarrow> Crashed
           | Some (Inl err) \<Rightarrow> Failed err (st_out st1)
           | Some (Inr (prompt, st2, best)) \<Rightarrow>
               (case finish_window ps c seek_end seek prompt best st2 of
                  None \<Rightarrow> Crashed
                | Some (seek', st3) \<Rightarrow> main_loop fuel e ps c seek_start seek_end seek' st3)))"

text \<open>The language, and whether the call ends with it.\<close>

definition detect_step ::
  "full_env \<Rightarrow> whisper_full_params \<Rightarrow> whisper_context \<Rightarrow> whisper_state \<Rightarrow>
   (full_result + (whisper_full_params \<times> whisper_state))" where
  "detect_step e ps c st =
    (if language ps = [] \<or> language ps = ''auto'' \<or> detect_language ps then
       (let lang_id = fst (whisper_lang_auto_detect (c_vocab c) (st_n_len_org st) 0 (e_lang_enc_ok e) (e_lang_dec_ok e)
                             (e_lang_logits e));
            st' = st\<lparr>st_lang_id := lang_id\<rparr>
        in if lang_id < 0 then Inl (Failed (-3) (st_out st))
           else (case whisper_lang_str lang_id of
                   None \<Rightarrow> Inl Crashed
                 | Some l \<Rightarrow> if detect_language ps then Inl (Returned 0 st') else Inr (ps\<lparr>language := l\<rparr>, st')))
     else Inr (ps, st))"

definition whisper_full_with_state ::
  "nat \<Rightarrow> full_env \<Rightarrow> whisper_context \<Rightarrow> whisper_full_params \<Rightarrow> real list \<Rightarrow> whisper_state \<Rightarrow> full_result" where
  "whisper_full_with_state fuel e c ps0 samples st0 =
    (let st1 = st0\<lparr>st_out := (st_out st0)\<lparr>result_all := []\<rparr>\<rparr> in
     if samples \<noteq> [] \<and> \<not> e_mel_ok e then Failed (-2) (st_out st1)
     else
       (let st2 = (if samples \<noteq> [] then st1\<lparr>st_n_len_org := e_mel_len e\<rparr> else st1) in
        case detect_step e ps0 c st2 of
          Inl r \<Rightarrow> r
        | Inr (ps, st3) \<Rightarrow>
            (let st4 = (if token_timestamps ps
                        then st3\<lparr>st_out := (st_out st3)\<lparr>ts_glob := \<lparr>g_t_beg = 0, g_t_last = 0, g_tid_last = 0\<rparr>\<rparr>,
                                 st_energy := (if samples \<noteq> [] then get_signal_energy samples 32 else st_energy st3)\<rparr>
                        else st3);
                 seek_start = cdiv (offset_ms ps) 10;
                 seek_end = (if duration_ms ps = 0 then st_n_len_org st4 else seek_start + cdiv (duration_ms ps) 10)
             in if seek_end < seek_start + delta_min then Returned 0 st4
                else if n_decoders ps > WHISPER_MAX_DECODERS then Failed (-4) (st_out st4)
                else
                  (let st5 = prepare_prompt (e_split e) ps c st4 in
                   if audio_ctx ps > c_n_audio_ctx c then Failed (-5) (st_out st5)
                   else
                     (let st6 = st5\<lparr>st_exp_n_audio_ctx := audio_ctx ps,
                                    st_lang_id := (if is_multilingual (c_vocab c) then whisper_lang_id (language ps)
                                                   else st_lang_id st5)\<rparr>
                      in main_loop fuel e (force_no_timestamps ps c) c seek_start seek_end seek_start st6)))))"

end
