(* ===== verification/Full_Correct.thy ===== *)
theory Full_Correct
  imports Full_Transcribe
begin

text \<open>
  What \<open>whisper_full_with_state\<close> guarantees: the prompt leaves room for the generated tokens, each attempt
  starts its decoders in the state the invariants of the decoding loop ask for, every window moves on, and
  the main loop ends.
\<close>

section \<open>Temperatures and numbers of decoders\<close>

lemma temperatures_nonempty: "temperature_inc ps \<le> 0 \<or> temperature ps \<le> 1 \<Longrightarrow> temperatures ps \<noteq> []"
  by (auto simp: temperatures_def temperature_list.simps [of "temperature ps"])

lemma n_decoders_cur_bounds: "1 \<le> n_decoders_cur ps t \<and> n_decoders_cur ps t \<le> n_decoders ps"
  by (auto simp: n_decoders_cur_def n_decoders_def split: whisper_sampling_strategy.splits)

lemma decoder_reset_spec:
  "decoder_reset gf ps d = Some d' \<Longrightarrow> seq_tokens (sequence d') = [] \<and> result_len (sequence d') = 0 \<and>
    seek_delta d' = 3000 \<and> running d' \<and> \<not> has_ts d' \<and> (grammar_rules ps = [] \<longrightarrow> grammar d' = empty_grammar)"
  by (auto simp: decoder_reset_def running_def WHISPER_CHUNK_SIZE_def split: if_splits)

section \<open>The cache after the prompt\<close>

lemma copy_sequence_spec:
  "kv_ok kv \<Longrightarrow> 1 \<le> j \<Longrightarrow> kv_ok (copy_sequence j n kv) \<and>
    (kv_row (copy_sequence j n kv) s p x \<longleftrightarrow> kv_row kv s p x \<or> (int j \<le> s \<and> s < int (j + n) \<and> kv_row kv 0 p x))"
proof (induction j n kv rule: copy_sequence.induct)
  case (2 j n kv)
  let ?kv = "whisper_kv_cache_seq_cp kv 0 (int j) (-1) (-1)"
  have ok: "kv_ok ?kv" using 2 kv.inv_cp by blast
  have h: "kv_row ?kv u q x \<longleftrightarrow> kv_row kv u q x \<or> (u = int j \<and> kv_row kv 0 q x)" for u q
    using kv.has_cp [of kv 0 "int j" u "(q, x)"] 2 by simp
  from 2 ok h [of 0] h [of s] show ?case by auto
qed auto

lemma prompt_in_cache:
  assumes d: "whisper_decode_internal (whisper_batch_prep_legacy prompt 0 0) ok (whisper_kv_cache_clear kv) = Some kv1"
    and n: "int (length prompt) < pos_max"
  shows "kv_ok kv1 \<and> (kv_row kv1 s p x \<longleftrightarrow> s = 0 \<and> 0 \<le> p \<and> p < int (length prompt) \<and> x = Some (prompt ! nat p))"
proof -
  let ?b = "whisper_batch_prep_legacy prompt 0 0"
  have "batch_ok ?b" using n by (auto simp: batch_ok_def whisper_batch_prep_legacy_def)
  note f = decode_internal_spec [OF kv_ok_clear this d, of s p x]
  have "(\<exists>(tok, q, ss) \<in> set ?b. q = p \<and> s \<in> set ss \<and> x = Some tok)
      \<longleftrightarrow> s = 0 \<and> 0 \<le> p \<and> p < int (length prompt) \<and> x = Some (prompt ! nat p)"
    by (auto simp: whisper_batch_prep_legacy_def image_iff intro!: bexI [of _ "nat p"])
  with f kv_row_clear show ?thesis by simp
qed

section \<open>The length of a prompt\<close>

lemma build_prompt_length:
  assumes "build_prompt ps c t p0 p1 = Some prompt"
  shows "int (length prompt) \<le> max 0 (max_prompt_ctx ps c) + 4 \<and> prompt \<noteq> []"
proof -
  have "length (prompt_init ps c) \<le> 4" "prompt_init ps c \<noteq> []" by (simp_all add: prompt_init_def Let_def)
  moreover have "build_prompt ps c t p0 p1 = Some (prompt_init ps c) \<or>
    (\<exists>take0 n1. 0 \<le> n1 \<and> n1 \<le> int (length p1) \<and> n1 \<le> max_prompt_ctx ps c - int (length take0) - 1 \<and>
       prompt = token_prev (c_vocab c) # take0 @ drop (length p1 - nat n1) p1 @ prompt_init ps c)"
  proof (cases "build_prompt ps c t p0 p1 = Some (prompt_init ps c)")
    case False
    define take0 where "take0 = (if carry_initial_prompt ps \<and> p0 \<noteq> [] then p0 else [])"
    define n1 where "n1 = min (max_prompt_ctx ps c - int (length take0) - 1) (int (length p1))"
    from False assms have "0 \<le> n1 \<and> prompt = token_prev (c_vocab c) # take0 @ drop (length p1 - nat n1) p1 @ prompt_init ps c"
      by (auto simp: build_prompt_def Let_def take0_def [symmetric] n1_def [symmetric] split: if_splits)
    then show ?thesis unfolding n1_def by (intro disjI2 exI [of _ take0] exI [of _ n1]) (auto simp: n1_def)
  qed simp
  ultimately show ?thesis using assms by auto
qed

lemma positions_fit_window:
  assumes "build_prompt ps c t_cur past0 past1 = Some prompt" and "8 \<le> c_n_text_ctx c"
  shows "int (w_n_prompt (window_of e ps c seek_end seek it t_cur (length prompt))) +
      w_n_max (window_of e ps c seek_end seek it t_cur (length prompt)) \<le> c_n_text_ctx c"
proof -
  have "max_prompt_ctx ps c \<le> c_n_text_ctx c div 2" using assms(2) by (simp add: max_prompt_ctx_def)
  with build_prompt_length [OF assms(1)] assms(2) show ?thesis by (auto simp: window_of_def)
qed

text \<open>C25: A prompt and all tokens generated after it fit in the text context of the model: no token is ever
  decoded at a position behind its positional embeddings.\<close>

theorem positions_fit_text_context:
  assumes "build_prompt ps c t_cur past0 past1 = Some prompt" and "8 \<le> c_n_text_ctx c"
    and "w = window_of e ps c seek_end seek it t_cur (length prompt)"
  shows "prompt \<noteq> [] \<and> int (w_n_prompt w) + w_n_max w \<le> c_n_text_ctx c \<and>
    (\<forall>i. int i < w_n_max w \<longrightarrow> int (w_n_prompt w + i) < c_n_text_ctx c)"
proof -
  have "int (w_n_prompt w) + w_n_max w \<le> c_n_text_ctx c"
    unfolding assms(3) by (rule positions_fit_window [OF assms(1,2)])
  with build_prompt_length [OF assms(1)] show ?thesis by auto
qed

section \<open>Starting an attempt\<close>

lemma copy_probs_core [simp]: "same_core d (copy_probs d0 d)" "running (copy_probs d0 d) = running d"
  by (simp_all add: copy_probs_def same_core_def running_def)

lemma process_decoder_core: "process_decoder w row d = Some d' \<Longrightarrow> same_core d d'"
  by (auto simp: process_decoder_def whisper_process_logits_def same_core_def split: option.splits)

lemma same_core_i_batch: "same_core d (d\<lparr>i_batch := x\<rparr>)"
  by (simp add: same_core_def)

lemma start_decoders_spec:
  assumes "start_decoders w n ds kv = Some (ds1, kv1)"
  shows "length ds1 = length ds \<and> ds \<noteq> [] \<and> (\<forall>m < length ds. same_core (ds ! m) (ds1 ! m)) \<and>
    kv1 = copy_sequence 1 (length ds - 1) kv \<and>
    process_decoder w (w_net w 0 (n - 1)) ((ds ! 0)\<lparr>i_batch := int n - 1\<rparr>) = Some (ds1 ! 0)"
proof -
  from assms obtain d rest d0 where ds: "ds = d # rest"
    and p: "process_decoder w (w_net w 0 (n - 1)) (d\<lparr>i_batch := int n - 1\<rparr>) = Some d0"
    and r: "ds1 = d0 # map (copy_probs d0) rest" "kv1 = copy_sequence 1 (length rest) kv"
    by (auto simp: start_decoders_def split: list.splits)
  have "same_core d d0" using same_core_trans [OF same_core_i_batch process_decoder_core [OF p]] .
  then have "same_core (ds ! m) (ds1 ! m)" if "m < length ds" for m
    using that by (cases m) (simp_all add: ds r copy_probs_def same_core_def)
  with p show ?thesis by (simp add: ds r)
qed

lemma start_decoders_probs:
  "start_decoders w n ds kv = Some (ds1, kv1) \<Longrightarrow> m < length ds1 \<Longrightarrow> dec_probs (ds1 ! m) = dec_probs (ds1 ! 0)"
  by (cases m) (auto simp: start_decoders_def copy_probs_def split: list.splits)

text \<open>The decoders and the cache with which the loop of an attempt starts.\<close>

lemma attempt_start:
  assumes r: "update_all (decoder_reset gf ps) ds = Some ds0" and l: "length ds \<le> 8"
    and k: "kv_ok kv"
      "\<forall>s p x. kv_row kv s p x \<longleftrightarrow> s = 0 \<and> 0 \<le> p \<and> p < int (length prompt) \<and> x = Some (prompt ! nat p)"
    and st: "start_decoders w n ds0 kv = Some (ds1, kv1)" and w: "w_n_prompt w = length prompt"
  shows "length ds1 = length ds \<and> loop_inv w prompt 0 ds1 kv1 \<and>
    (\<forall>m < length ds1. running (ds1 ! m) \<and> seq_tokens (sequence (ds1 ! m)) = [] \<and> \<not> has_ts (ds1 ! m) \<and>
       (grammar_rules ps = [] \<longrightarrow> grammar (ds1 ! m) = empty_grammar))"
proof -
  note u = update_all_nth [OF r] and s = start_decoders_spec [OF st]
  have len: "length ds1 = length ds" using u s by simp
  have d: "seq_tokens (sequence (ds1 ! m)) = [] \<and> result_len (sequence (ds1 ! m)) = 0 \<and> seek_delta (ds1 ! m) = 3000 \<and>
      running (ds1 ! m) \<and> \<not> has_ts (ds1 ! m) \<and> (grammar_rules ps = [] \<longrightarrow> grammar (ds1 ! m) = empty_grammar)"
    if m: "m < length ds1" for m
  proof -
    have "decoder_reset gf ps (ds ! m) = Some (ds0 ! m)" using u m len by simp
    from decoder_reset_spec [OF this] have "seq_tokens (sequence (ds0 ! m)) = [] \<and> result_len (sequence (ds0 ! m)) = 0 \<and>
      seek_delta (ds0 ! m) = 3000 \<and> running (ds0 ! m) \<and> \<not> has_ts (ds0 ! m) \<and>
      (grammar_rules ps = [] \<longrightarrow> grammar (ds0 ! m) = empty_grammar)" .
    moreover have "same_core (ds0 ! m) (ds1 ! m)" using s m by simp
    ultimately show ?thesis using same_core_running [of "ds0 ! m" "ds1 ! m"] by (simp add: same_core_def)
  qed
  have kv: "kv_ok kv1 \<and> (kv_row kv1 q p x \<longleftrightarrow> kv_row kv q p x \<or> (1 \<le> q \<and> q < int (length ds) \<and> kv_row kv 0 p x))" for q p x
    using copy_sequence_spec [OF k(1), of 1 "length ds0 - 1" q p x] s u by auto
  have "past_in_cache prompt kv1 (int m) (ds1 ! m)" if "m < length ds1" for m
    using kv k(2) d [OF that] that len by (auto simp: past_in_cache_def)
  then have "cache_inv prompt ds1 kv1"
    using kv k(2) l len by (auto simp: cache_inv_def)
  moreover have "\<forall>m < length ds1. decoder_inv w 0 (ds1 ! m)" using d by (simp add: decoder_inv_def)
  ultimately show ?thesis using d len l w by (simp add: loop_inv_def)
qed

text \<open>C4: During the decoding of a window every running decoder sees its own past, although a beam search permutes and
  duplicates decoders and caches: it has sampled one token per turn, and the cells of its sequence are
  exactly those of the prompt and of its own tokens so far, each at its position and with the keys and values
  computed from that token, never from the token of another decoder.  The length of its result never exceeds
  its tokens, and its window shift is at least 2.\<close>

theorem running_decoders_see_their_past:
  assumes "update_all (decoder_reset gf ps) ds = Some ds0" and "length ds \<le> 8"
    and "build_prompt ps c t past0 past1 = Some prompt" and "8 \<le> c_n_text_ctx c" "c_n_text_ctx c < pos_max"
    and "whisper_decode_internal (whisper_batch_prep_legacy prompt 0 0) ok (whisper_kv_cache_clear kv) = Some kv1"
    and "w = window_of e ps c seek_end seek it t (length prompt)"
    and "start_decoders w (length prompt) ds0 kv1 = Some (ds1, kv2)"
    and "decode_reach w ds1 kv2 i ds' kv'" and "m < length ds'"
  shows "2 \<le> seek_delta (ds' ! m) \<and> 0 \<le> result_len (sequence (ds' ! m)) \<and>
    result_len (sequence (ds' ! m)) \<le> int (length (seq_tokens (sequence (ds' ! m)))) \<and>
    (running (ds' ! m) \<longrightarrow> length (seq_tokens (sequence (ds' ! m))) = i \<and>
       (\<forall>p x. kv_row kv' (int m) p x \<longleftrightarrow> 0 \<le> p \<and> p < int (length prompt + i) \<and>
          x = Some ((prompt @ map tok_id (seq_tokens (sequence (ds' ! m)))) ! nat p)))"
proof -
  note fit = positions_fit_window [OF assms(3,4), of e seek_end seek it, folded assms(7)]
  have w: "w_n_prompt w = length prompt" by (simp add: assms(7) window_of_def)
  have small: "int (w_n_prompt w) + w_n_max w < pos_max" "0 \<le> w_n_max w"
    using fit assms(4,5) by (simp_all add: assms(7) window_of_def)
  then have "int (length prompt) < pos_max" by (simp add: w)
  from prompt_in_cache [OF assms(6) this] have k: "kv_ok kv1"
    "\<forall>s p x. kv_row kv1 s p x \<longleftrightarrow> s = 0 \<and> 0 \<le> p \<and> p < int (length prompt) \<and> x = Some (prompt ! nat p)" by blast+
  have "loop_inv w prompt 0 ds1 kv2" using attempt_start [OF assms(1,2) k assms(8) w] by blast
  from reachable_past [OF assms(9) this small(1) assms(10)] show ?thesis by (simp add: w)
qed

section \<open>An attempt\<close>

lemma attempt_cases:
  assumes "attempt e ps c seek_end seek it t best st = Some (Inr (prompt, st', best'))"
  obtains ds0 st1 kv1 ds1 kv2 ds2 kv3 ds3 where
    "update_all (decoder_reset (e_fuel e) ps) (take (nat (n_decoders_cur ps t)) (st_decoders st)) = Some ds0"
    "build_prompt ps c t (st_prompt_past0 st) (st_prompt_past1 st) = Some prompt"
    "ensure_cache e c seek it (n_decoders_cur ps t) st = Some st1"
    "whisper_decode_internal (whisper_batch_prep_legacy prompt 0 0) (e_ok e seek it 0)
       (whisper_kv_cache_clear (st_kv_self st1)) = Some kv1"
    "start_decoders (window_of e ps c seek_end seek it t (length prompt)) (length prompt) ds0 kv1 = Some (ds1, kv2)"
    "decode_loop (window_of e ps c seek_end seek it t (length prompt)) 0 ds1 kv2 = Some (Inr (ds2, kv3))"
    "rank_decoders ps best ds2 = (ds3, best')"
    "st_decoders st' = ds3 @ drop (nat (n_decoders_cur ps t)) (st_decoders st1)" "st_kv_self st' = kv3"
    "st_prompt_past0 st' = st_prompt_past0 st1" "st_out st' = st_out st1"
  using assms unfolding attempt_def Let_def by (auto split: option.splits sum.splits prod.splits)

lemma ensure_cache_decoders: "ensure_cache e c seek it n st = Some st1 \<Longrightarrow> st_decoders st1 = st_decoders st"
  by (auto simp: ensure_cache_def split: if_splits)

lemma score_decoder_keeps: "seek_delta (score_decoder ps d) = seek_delta d"
  by (simp add: score_decoder_def Let_def)

lemma rank_loop_bound: "rank_loop j ds s b < j + length ds \<or> rank_loop j ds s b = b"
  by (induction ds arbitrary: j s b) (auto, (metis add_Suc_right add_Suc less_add_Suc1 order_less_le_trans le_add1 add.commute)+)

lemma nth_take_drop_mix:
  "length xs = n \<Longrightarrow> n \<le> length ys \<Longrightarrow> j < length ys \<Longrightarrow> (xs @ drop n ys) ! j = (if j < n then xs ! j else ys ! j)"
  by (auto simp: nth_append)

text \<open>The decoders used by an attempt end with a positive window shift, the others are unchanged, and the
  choice is one of the former or stays.\<close>

lemma attempt_spec:
  assumes a: "attempt e ps c seek_end seek it t best st = Some (Inr (prompt, st', best'))"
    and l: "length (st_decoders st) = 8" "n_decoders ps \<le> 8"
  defines "n \<equiv> nat (n_decoders_cur ps t)"
  shows "length (st_decoders st') = 8 \<and> 1 \<le> n \<and> n \<le> 8 \<and> (best' < n \<or> best' = best) \<and>
    (\<forall>j < n. 2 \<le> seek_delta (st_decoders st' ! j)) \<and> (\<forall>j < 8. n \<le> j \<longrightarrow> st_decoders st' ! j = st_decoders st ! j)"
  using a
proof (rule attempt_cases)
  fix ds0 st1 kv1 ds1 kv2 ds2 kv3 ds3
  assume r: "update_all (decoder_reset (e_fuel e) ps) (take (nat (n_decoders_cur ps t)) (st_decoders st)) = Some ds0"
    and c: "ensure_cache e c seek it (n_decoders_cur ps t) st = Some st1"
    and s: "start_decoders (window_of e ps c seek_end seek it t (length prompt)) (length prompt) ds0 kv1 = Some (ds1, kv2)"
    and lp: "decode_loop (window_of e ps c seek_end seek it t (length prompt)) 0 ds1 kv2 = Some (Inr (ds2, kv3))"
    and rk: "rank_decoders ps best ds2 = (ds3, best')"
    and d: "st_decoders st' = ds3 @ drop (nat (n_decoders_cur ps t)) (st_decoders st1)"
  have n: "1 \<le> n" "n \<le> 8" using n_decoders_cur_bounds [of ps t] l(2) by (auto simp: n_def)
  have len0: "length ds0 = n" using update_all_nth [OF r] n l(1) by (simp add: n_def)
  note st = start_decoders_spec [OF s]
  have "decoder_inv (window_of e ps c seek_end seek it t (length prompt)) 0 (ds1 ! m)" if m: "m < length ds1" for m
  proof -
    have "decoder_reset (e_fuel e) ps (take n (st_decoders st) ! m) = Some (ds0 ! m)"
      using update_all_nth [OF r] m st by (simp add: n_def)
    from decoder_reset_spec [OF this] have "decoder_inv (window_of e ps c seek_end seek it t (length prompt)) 0 (ds0 ! m)"
      by (simp add: decoder_inv_def)
    with st m decoder_inv_core show ?thesis by metis
  qed
  with shape.loop [OF lp] obtain i where i: "length ds2 = length ds1"
    "\<forall>m < length ds2. decoder_inv (window_of e ps c seek_end seek it t (length prompt)) i (ds2 ! m)" by blast
  have len2: "length ds2 = n" using i(1) st len0 by simp
  from rk have ds3: "ds3 = map (score_decoder ps) ds2" and b: "best' = rank_loop 0 ds3 None best"
    by (auto simp: rank_decoders_def Let_def)
  have len3: "length ds3 = n" using ds3 len2 by simp
  have dl: "st_decoders st1 = st_decoders st" using ensure_cache_decoders [OF c] .
  have nth: "st_decoders st' ! j = (if j < n then ds3 ! j else st_decoders st ! j)" if "j < 8" for j
    unfolding d dl using nth_take_drop_mix [OF len3, of "st_decoders st" j] l(1) n that by (simp add: n_def)
  have "2 \<le> seek_delta (ds3 ! j)" if "j < n" for j
    using i(2) that len2 by (simp add: ds3 score_decoder_keeps decoder_inv_def)
  moreover have "length (st_decoders st') = 8" using d dl len3 l(1) n by (simp add: n_def)
  ultimately show ?thesis using nth n b rank_loop_bound [of 0 ds3 None best] len3 by auto
qed

section \<open>The temperatures of a window\<close>

text \<open>What every attempt establishes for its decoders holds for the chosen decoder of the window.\<close>

lemma temperature_loop_spec:
  "temperature_loop e ps c seek_end seek it ts best prompt st = Some (Inr (prompt', st', best')) \<Longrightarrow>
    (\<forall>it t best st prompt st' best'. length (st_decoders st) = 8 \<and>
       attempt e ps c seek_end seek it t best st = Some (Inr (prompt, st', best')) \<longrightarrow>
       (\<forall>j < nat (n_decoders_cur ps t). Q (st_decoders st' ! j))) \<Longrightarrow>
    length (st_decoders st) = 8 \<Longrightarrow> n_decoders ps \<le> 8 \<Longrightarrow> k \<le> 8 \<Longrightarrow>
    \<forall>j < k. Q (st_decoders st ! j) \<Longrightarrow> best < k \<or> (best = 0 \<and> ts \<noteq> []) \<Longrightarrow>
    length (st_decoders st') = 8 \<and> Q (st_decoders st' ! best')"
proof (induction e ps c seek_end seek it ts best prompt st arbitrary: k rule: temperature_loop.induct)
  case (2 e ps c seek_end seek it t ts best prompt st)
  from "2.prems"(1) obtain prompt1 st1 best1 where a: "attempt e ps c seek_end seek it t best st = Some (Inr (prompt1, st1, best1))"
    and r: "if ts \<noteq> [] \<and> attempt_failed ps st1 best1
        then temperature_loop e ps c seek_end seek (it + 1) ts best1 prompt1 st1 = Some (Inr (prompt', st', best'))
        else (prompt1, st1, best1) = (prompt', st', best')"
    by (auto split: option.splits sum.splits if_splits)
  define n where "n = nat (n_decoders_cur ps t)"
  note s = attempt_spec [OF a "2.prems"(3,4), folded n_def]
  have q: "\<forall>j < n. Q (st_decoders st1 ! j)" using "2.prems"(2,3) a unfolding n_def by blast
  have ok: "\<forall>j < max n k. Q (st_decoders st1 ! j)"
  proof (intro allI impI)
    fix j assume j: "j < max n k"
    show "Q (st_decoders st1 ! j)"
    proof (cases "j < n")
      case False
      with j have "j < k" "n \<le> j" "j < 8" using "2.prems"(5) by auto
      then show ?thesis using s "2.prems"(6) by auto
    qed (use q in blast)
  qed
  have b: "best1 < max n k" using s "2.prems"(7) by auto
  show ?case
  proof (cases "ts \<noteq> [] \<and> attempt_failed ps st1 best1")
    case True
    have "length (st_decoders st1) = 8" "max n k \<le> 8" using s "2.prems"(5) by auto
    with "2.IH" [OF a refl refl refl True _ "2.prems"(2) _ _ _ ok] r True "2.prems"(4) b show ?thesis by simp
  next
    case False
    with r s ok b show ?thesis by auto
  qed
qed auto

section \<open>Nothing is undefined\<close>

text \<open>The hypotheses of a call that cannot fail by itself: a loaded model whose tokens have texts and know the
  blank, a network with a logit for every token, draws of positive probability; no grammar, no user
  filter, no carried prompt.\<close>

definition context_ok :: "whisper_context \<Rightarrow> bool" where
  "context_ok c \<longleftrightarrow> vocab_ok (c_vocab c) \<and> (\<forall>t. 0 \<le> t \<and> t < n_vocab (c_vocab c) \<longrightarrow> (\<exists>s. whisper_token_to_str (c_vocab c) t = Some s \<and> s \<noteq> [])) \<and>
    token_to_id (c_vocab c) (bytes '' '') \<noteq> None \<and> 8 \<le> c_n_text_ctx c \<and> 0 \<le> c_n_audio_ctx c"

definition params_ok :: "whisper_full_params \<Rightarrow> bool" where
  "params_ok ps \<longleftrightarrow> grammar_rules ps = [] \<and> logits_filter_callback ps = None \<and> suppress_regex ps = None \<and>
    \<not> suppress_nst ps \<and> \<not> carry_initial_prompt ps \<and> \<not> print_special ps \<and>
    (strategy ps = SAMPLING_BEAM_SEARCH \<longrightarrow> 1 \<le> beam_size ps)"

definition env_ok :: "full_env \<Rightarrow> whisper_context \<Rightarrow> bool" where
  "env_ok e c \<longleftrightarrow> (\<forall>s it i j k. fair_draw (e_draw e s it i j k)) \<and>
    (\<forall>s it i r. int (length (e_net e s it i r)) = n_vocab (c_vocab c))"

lemma fair_window_of:
  "context_ok c \<Longrightarrow> params_ok ps \<Longrightarrow> env_ok e c \<Longrightarrow> fair_window (window_of e ps c seek_end seek it t n)"
  by (simp add: fair_window_def window_of_def context_ok_def params_ok_def env_ok_def)

lemma update_all_total: "\<forall>d \<in> set ds. f d \<noteq> None \<Longrightarrow> update_all f ds \<noteq> None"
  by (induction ds) (auto split: option.splits)

lemma process_decoder_total:
  assumes "context_ok c" "params_ok ps"
  shows "process_decoder (window_of e ps c seek_end seek it t n) row d \<noteq> None"
proof -
  let ?w = "window_of e ps c seek_end seek it t n"
  have "filter_logits (w_n_audio_ctx ?w) (w_params ?w) (w_vocab ?w) d (scale_logits (w_t_cur ?w) row) \<noteq> None"
    using assms by (auto simp: filter_logits_def suppress_blank_tokens_def window_of_def context_ok_def Let_def)
  moreover have "choose_timestamp_or_text (w_depth ?w) (w_gfuel ?w) (w_params ?w) (w_vocab ?w) d ls \<noteq> None" for ls
    using assms by (simp add: choose_timestamp_or_text_def window_of_def params_ok_def Let_def)
  ultimately show ?thesis by (auto simp: process_decoder_def whisper_process_logits_def split: option.splits)
qed

lemma update_running_total: "grules (grammar d) = [] \<Longrightarrow> update_running w i d \<noteq> None"
  by (simp add: update_running_def update_decoder_def whisper_grammar_accept_token_def note_timestamp_def
      set_result_len_def Let_def)

lemma assign_beams_total: "cands \<noteq> [] \<or> (\<forall>j \<in> set js. \<not> running (ds ! j)) \<Longrightarrow> assign_beams cands i js cc ds \<noteq> None"
proof (induction cands i js cc ds rule: assign_beams.induct)
  case (2 cands i j js cc ds)
  show ?case
  proof (cases "running (ds ! j)")
    case True
    with "2.prems" have "cands \<noteq> []" by auto
    with True "2.IH"(2) [OF _ this refl refl] show ?thesis by (auto simp: Let_def)
  qed (use 2 in simp)
qed simp

lemma sample_step_total:
  assumes "strategy (w_params w) = SAMPLING_BEAM_SEARCH \<longrightarrow> 1 \<le> beam_size (w_params w)"
  shows "sample_step w i ds kv \<noteq> None"
proof (cases "strategy (w_params w) = SAMPLING_BEAM_SEARCH")
  case True
  have "beam_candidates w i ds \<noteq> [] \<or> (\<forall>j \<in> set [0..<length ds]. \<not> running (ds ! j))"
  proof (cases "\<exists>j < length ds. running (ds ! j)")
    case run: True
    then obtain j where j: "j < length ds" "running (ds ! j)" by blast
    let ?k = "nat (beam_size (w_params w))"
    have "whisper_sample_token_topk (w_vocab w) (ds ! j) ?k (w_draw w i j) \<noteq> []"
      using assms True by (simp add: whisper_sample_token_topk_def)
    moreover define g where "g = (\<lambda>(j, d). if running d
      then candidates_of j d (whisper_sample_token_topk (w_vocab w) d ?k (w_draw w i j)) else [])"
    ultimately have "g (j, ds ! j) \<noteq> []" using j(2) by (simp add: candidates_of_def)
    moreover have "(j, ds ! j) \<in> set (enumerate 0 ds)" using j(1) by (auto simp: in_set_enumerate_eq)
    ultimately have "concat (map g (enumerate 0 ds)) \<noteq> []" unfolding concat_eq_Nil_conv by force
    then have "beam_candidates w i ds \<noteq> []"
      unfolding beam_candidates_def g_def [symmetric] by (metis length_0_conv length_sort)
    then show ?thesis by simp
  qed auto
  from assign_beams_total [OF this] True show ?thesis by (simp add: sample_step_def beam_step_def)
qed (simp add: sample_step_def)

section \<open>The tokens of a window are known\<close>

definition plain_inv :: "window \<Rightarrow> whisper_decoder \<Rightarrow> bool" where
  "plain_inv w d \<longleftrightarrow> grules (grammar d) = [] \<and>
    (\<forall>t \<in> set (seq_tokens (sequence d)). 0 \<le> tok_id t \<and> tok_id t < n_vocab (w_vocab w))"

interpretation plain: decoder_property w "\<lambda>i d. fair_window w \<longrightarrow> plain_inv w d"
  "\<lambda>d. fair_window w \<longrightarrow> ready_to_sample w d" for w
proof
  fix i j r d0 d1 d2 d d'
  show "fair_window w \<longrightarrow> plain_inv w d2"
    if x: "extends w i j d0 d1" "running d0" "running d1" "fair_window w \<longrightarrow> plain_inv w d0"
      "fair_window w \<longrightarrow> ready_to_sample w d0" "update_running w i d1 = Some d2"
  proof
    assume w: "fair_window w"
    from x(1) obtain t where t: "t \<in> tokens_of w i j d0" "sequence d1 = push_token t (sequence d0)"
      and g: "grammar d1 = grammar d0" by (auto simp: extends_def)
    from sampled_obeys [OF _ w t(1)] x(5) w have "0 \<le> tok_id t \<and> tok_id t < n_vocab (w_vocab w)" by blast
    moreover have "seq_tokens (sequence d2) = seq_tokens (sequence d1)" "grules (grammar d2) = grules (grammar d1)"
      using update_decoder_spec [OF x(6) [unfolded update_running_def] x(3)]
        update_decoder_rules [OF x(6) [unfolded update_running_def]] by simp_all
    ultimately show "plain_inv w d2" using x(4) w t(2) g by (auto simp: plain_inv_def push_token_def)
  qed
  show "fair_window w \<longrightarrow> plain_inv w d'" if "same_core d d'" "fair_window w \<longrightarrow> plain_inv w d"
    using that by (simp add: plain_inv_def same_core_def)
  show "fair_window w \<longrightarrow> ready_to_sample w d'" if "process_decoder w (w_net w i r) d = Some d'"
    using process_ready [OF that] by (simp add: fair_window_def)
qed simp

lemma decode_step_total:
  assumes w: "w = window_of e ps c seek_end seek it t n" and ok: "context_ok c" "params_ok ps" "env_ok e c"
    and inv: "\<forall>m < length ds. plain_inv w (ds ! m) \<and> (running (ds ! m) \<longrightarrow> ready_to_sample w (ds ! m))"
  shows "decode_step w i ds kv \<noteq> None"
proof -
  have fw: "fair_window w" unfolding w using fair_window_of ok by blast
  have ps: "w_params w = ps" by (simp add: w window_of_def)
  from sample_step_total [of w i ds kv] ok(2) obtain ds1 kv1 where s: "sample_step w i ds kv = Some (ds1, kv1)"
    unfolding ps params_ok_def by fastforce
  from s obtain f where f: "length ds1 = length ds" "\<forall>m < length ds. \<not> running (ds ! m) \<longrightarrow> ds1 ! m = ds ! m"
    "\<forall>m < length ds. running (ds ! m) \<longrightarrow> f m < length ds \<and> running (ds ! f m) \<and> extends w i (f m) (ds ! f m) (ds1 ! m)"
    by (rule sample_step_spec) blast
  have "grules (grammar (ds1 ! m)) = []" if "m < length ds" for m
    using f that inv by (cases "running (ds ! m)") (auto simp: extends_def plain_inv_def)
  then have "\<forall>d \<in> set ds1. update_running w i d \<noteq> None"
    using update_running_total f(1) by (auto simp: in_set_conv_nth)
  from update_all_total [OF this] obtain ds2 where u: "update_all (update_running w i) ds1 = Some ds2" by auto
  have "update_all (process_running w (i + 1)) ds3 \<noteq> None" for ds3
    using process_decoder_total [OF ok(1,2)] by (intro update_all_total) (simp add: process_running_def w)
  with s u show ?thesis by (auto simp: decode_step_def Let_def split: prod.splits option.splits)
qed

lemma decode_loop_total:
  assumes w: "w = window_of e ps c seek_end seek it t n" and ok: "context_ok c" "params_ok ps" "env_ok e c"
  shows "\<forall>m < length ds. plain_inv w (ds ! m) \<and> (running (ds ! m) \<longrightarrow> ready_to_sample w (ds ! m)) \<Longrightarrow>
    decode_loop w i ds kv \<noteq> None \<and> (\<forall>err. decode_loop w i ds kv = Some (Inl err) \<longrightarrow> err = -9)"
  using w
proof (induction w i ds kv rule: decode_loop.induct)
  case (1 w i ds kv)
  have fw: "fair_window w" unfolding "1.prems"(2) using fair_window_of ok by blast
  show ?case
  proof (cases "int i < w_n_max w")
    case True
    from decode_step_total [OF "1.prems"(2) ok "1.prems"(1), of i kv] obtain r where r: "decode_step w i ds kv = Some r" by auto
    show ?thesis
    proof (cases r)
      case (Inl err)
      then have "err = -9" using r by (auto simp: decode_step_def Let_def split: option.splits prod.splits if_splits)
      then show ?thesis using True r Inl by (simp add: decode_loop.simps [of w i])
    next
      case (Inr x)
      obtain fin ds' kv' where x: "x = (fin, ds', kv')" by (cases x) auto
      note st = r [unfolded Inr x]
      show ?thesis
      proof (cases fin)
        case False
        have "\<forall>m < length ds'. plain_inv w (ds' ! m) \<and> (running (ds' ! m) \<longrightarrow> ready_to_sample w (ds' ! m))"
          using plain.step [OF _ st] "1.prems"(1) fw False by simp
        from "1.IH" [OF True r Inr x [symmetric] refl False this "1.prems"(2)]
        show ?thesis using True st False by (simp add: decode_loop.simps [of w i])
      qed (use True st in \<open>simp add: decode_loop.simps [of w i]\<close>)
    qed
  qed (simp add: decode_loop.simps [of w i])
qed

section \<open>Attempts of a well-behaved call\<close>

text \<open>A finished decoder: a positive shift, tokens of the vocabulary, and timestamps in order.\<close>

definition decoder_good :: "whisper_context \<Rightarrow> whisper_decoder \<Rightarrow> bool" where
  "decoder_good c d \<longleftrightarrow> 2 \<le> seek_delta d \<and> sorted (stamps (c_vocab c) d) \<and>
    (\<forall>t \<in> set (seq_tokens (sequence d)). 0 \<le> tok_id t \<and> tok_id t < n_vocab (c_vocab c))"

lemma obeys_fresh:
  "seq_tokens (sequence d) = seq_tokens (sequence d') \<Longrightarrow> has_ts d = has_ts d' \<Longrightarrow> seek_delta d = seek_delta d' \<Longrightarrow>
    obeys_filters n ps voc d t = obeys_filters n ps voc d' t"
  by (simp add: obeys_filters_def)

lemma start_plain:
  assumes r: "update_all (decoder_reset gf ps) ds = Some ds0" and st: "start_decoders w n ds0 kv = Some (ds1, kv1)"
    and w: "fair_window w" and g: "grammar_rules ps = []"
  shows "length ds1 = length ds \<and> (\<forall>m < length ds1. decoder_inv w 0 (ds1 ! m) \<and> plain_inv w (ds1 ! m) \<and>
    ts_inv (w_vocab w) (ds1 ! m) \<and> ready_to_sample w (ds1 ! m))"
proof -
  note u = update_all_nth [OF r] and s = start_decoders_spec [OF st]
  have fresh: "seq_tokens (sequence (ds1 ! m)) = [] \<and> result_len (sequence (ds1 ! m)) = 0 \<and> seek_delta (ds1 ! m) = 3000 \<and>
      running (ds1 ! m) \<and> \<not> has_ts (ds1 ! m) \<and> grammar (ds1 ! m) = empty_grammar" if m: "m < length ds1" for m
  proof -
    have "decoder_reset gf ps (ds ! m) = Some (ds0 ! m)" using u s m by simp
    note d = decoder_reset_spec [OF this]
    have "same_core (ds0 ! m) (ds1 ! m)" using s m by simp
    then show ?thesis using d g same_core_running [of "ds0 ! m" "ds1 ! m"] by (simp add: same_core_def)
  qed
  have "0 < length ds1" using s by simp
  note f0 = fresh [OF this]
  have "process_decoder w (w_net w 0 (n - 1)) ((ds0 ! 0)\<lparr>i_batch := int n - 1\<rparr>) = Some (ds1 ! 0)"
    using s by blast
  from process_ready [OF this w] w have r0: "ready_to_sample w (ds1 ! 0)" by (simp add: fair_window_def)
  have "ready_to_sample w (ds1 ! m)" if m: "m < length ds1" for m
  proof -
    have "dec_probs (ds1 ! m) = dec_probs (ds1 ! 0)" using start_decoders_probs [OF st m] .
    moreover have "obeys_filters a b v (ds1 ! m) t = obeys_filters a b v (ds1 ! 0) t" for a b v t
      using f0 fresh [OF m] by (intro obeys_fresh) simp_all
    ultimately show ?thesis using r0 by (simp add: ready_to_sample_def)
  qed
  moreover have "decoder_inv w 0 (ds1 ! m) \<and> plain_inv w (ds1 ! m) \<and> ts_inv (w_vocab w) (ds1 ! m)"
    if m: "m < length ds1" for m
    using fresh [OF m] by (simp add: decoder_inv_def plain_inv_def ts_inv_def stamps_def empty_grammar_def)
  moreover have "length ds1 = length ds" using u s by simp
  ultimately show ?thesis by blast
qed

lemma score_decoder_good:
  assumes "2 \<le> seek_delta d" "sorted (stamps (c_vocab c) d)"
    "\<forall>t \<in> set (seq_tokens (sequence d)). 0 \<le> tok_id t \<and> tok_id t < n_vocab (c_vocab c)"
  shows "decoder_good c (score_decoder ps d)"
proof -
  have t: "\<exists>n. seq_tokens (sequence (score_decoder ps d)) = take n (seq_tokens (sequence d))"
  proof (cases "dec_failed d")
    case True
    then show ?thesis by (intro exI [of _ "length (seq_tokens (sequence d))"]) (simp add: score_decoder_def)
  next
    case False
    then show ?thesis by (auto simp: score_decoder_def whisper_sequence_score_def Let_def)
  qed
  then obtain n where n: "seq_tokens (sequence (score_decoder ps d)) = take n (seq_tokens (sequence d))" ..
  have "prefix (stamps (c_vocab c) (score_decoder ps d)) (stamps (c_vocab c) d)"
  proof -
    have "prefix (filter P (take n xs)) (filter P xs)" for P and xs :: "int list"
      using append_take_drop_id [of n xs] by (metis filter_append prefixI)
    then show ?thesis unfolding stamps_def n take_map [symmetric] by blast
  qed
  then have "sorted (stamps (c_vocab c) (score_decoder ps d))"
    using assms(2) by (auto simp: prefix_def sorted_append)
  moreover have "set (take n (seq_tokens (sequence d))) \<subseteq> set (seq_tokens (sequence d))" by (rule set_take_subset)
  ultimately show ?thesis using assms(1,3) n score_decoder_keeps by (auto simp: decoder_good_def)
qed

lemma attempt_good:
  assumes a: "attempt e ps c seek_end seek it t best st = Some (Inr (prompt, st', best'))"
    and ok: "context_ok c" "params_ok ps" "env_ok e c" and l: "length (st_decoders st) = 8" "n_decoders ps \<le> 8"
  shows "\<forall>j < nat (n_decoders_cur ps t). decoder_good c (st_decoders st' ! j)"
  using a
proof (rule attempt_cases)
  fix ds0 st1 kv1 ds1 kv2 ds2 kv3 ds3
  let ?w = "window_of e ps c seek_end seek it t (length prompt)" and ?n = "nat (n_decoders_cur ps t)"
  assume r: "update_all (decoder_reset (e_fuel e) ps) (take ?n (st_decoders st)) = Some ds0"
    and s: "start_decoders ?w (length prompt) ds0 kv1 = Some (ds1, kv2)"
    and lp: "decode_loop ?w 0 ds1 kv2 = Some (Inr (ds2, kv3))"
    and rk: "rank_decoders ps best ds2 = (ds3, best')"
    and d: "st_decoders st' = ds3 @ drop ?n (st_decoders st1)"
  have fw: "fair_window ?w" using fair_window_of ok by blast
  have g: "grammar_rules ps = []" using ok(2) by (simp add: params_ok_def)
  note st = start_plain [OF r s fw g]
  have len1: "length ds1 = ?n" using st l n_decoders_cur_bounds [of ps t] by auto
  from shape.loop [OF lp] st obtain i1 where 1: "length ds2 = length ds1"
    "\<forall>m < length ds2. decoder_inv ?w i1 (ds2 ! m)" by blast
  from plain.loop [OF lp] st obtain i2 where 2: "\<forall>m < length ds2. fair_window ?w \<longrightarrow> plain_inv ?w (ds2 ! m)" by blast
  from stamp.loop [OF lp] st obtain i3 where 3: "\<forall>m < length ds2. fair_window ?w \<longrightarrow> ts_inv (w_vocab ?w) (ds2 ! m)" by blast
  have v: "w_vocab ?w = c_vocab c" by (simp add: window_of_def)
  have ds3: "ds3 = map (score_decoder ps) ds2" using rk by (auto simp: rank_decoders_def Let_def)
  have "decoder_good c (ds3 ! j)" if j: "j < length ds2" for j
    using score_decoder_good [of "ds2 ! j" c ps] 1(2) 2 3 fw j v
    by (simp add: ds3 decoder_inv_def plain_inv_def ts_inv_def)
  then show "\<forall>j < ?n. decoder_good c (st_decoders st' ! j)"
    using 1(1) len1 by (simp add: d ds3 nth_append)
qed

lemma attempt_total:
  assumes ok: "context_ok c" "params_ok ps" "env_ok e c" and l: "length (st_decoders st) = 8" "n_decoders ps \<le> 8"
  shows "attempt e ps c seek_end seek it t best st \<noteq> None \<and>
    (\<forall>err. attempt e ps c seek_end seek it t best st = Some (Inl err) \<longrightarrow> err \<in> {-7, -8, -9})"
proof -
  let ?n = "nat (n_decoders_cur ps t)"
  have g: "grammar_rules ps = []" using ok(2) by (simp add: params_ok_def)
  have "\<forall>d \<in> set (take ?n (st_decoders st)). decoder_reset (e_fuel e) ps d \<noteq> None" by (simp add: decoder_reset_def g)
  from update_all_total [OF this] obtain ds0 where r: "update_all (decoder_reset (e_fuel e) ps) (take ?n (st_decoders st)) = Some ds0" by auto
  have n: "1 \<le> ?n" "?n \<le> 8" using n_decoders_cur_bounds [of ps t] l(2) by auto
  have len0: "length ds0 = ?n" using update_all_nth [OF r] n l(1) by simp
  have "build_prompt ps c t (st_prompt_past0 st) (st_prompt_past1 st) \<noteq> None"
    using ok(2) by (simp add: build_prompt_def params_ok_def Let_def)
  then obtain prompt where p: "build_prompt ps c t (st_prompt_past0 st) (st_prompt_past1 st) = Some prompt" by auto
  let ?w = "window_of e ps c seek_end seek it t (length prompt)"
  have fw: "fair_window ?w" using fair_window_of ok by blast
  have sd: "start_decoders ?w (length prompt) ds0 kv \<noteq> None" for kv
    using process_decoder_total [OF ok(1,2)] len0 n by (auto simp: start_decoders_def split: list.splits)
  have dl: "decode_loop ?w 0 ds1 kv2 \<noteq> None \<and> (\<forall>err. decode_loop ?w 0 ds1 kv2 = Some (Inl err) \<longrightarrow> err = -9)"
    if "start_decoders ?w (length prompt) ds0 kv = Some (ds1, kv2)" for kv ds1 kv2
    using decode_loop_total [OF refl ok, of ds1] start_plain [OF r that fw g] by blast
  show ?thesis
  proof (cases "ensure_cache e c seek it (n_decoders_cur ps t) st")
    case (Some st1)
    show ?thesis
    proof (cases "whisper_decode_internal (whisper_batch_prep_legacy prompt 0 0) (e_ok e seek it 0)
        (whisper_kv_cache_clear (st_kv_self st1))")
      case kv: (Some kv1)
      from sd obtain ds1 kv2 where s: "start_decoders ?w (length prompt) ds0 kv1 = Some (ds1, kv2)" by fastforce
      from dl [OF s] obtain x where x: "decode_loop ?w 0 ds1 kv2 = Some x" "\<forall>err. x = Inl err \<longrightarrow> err = -9" by auto
      show ?thesis
        using x(2) unfolding attempt_def Let_def by (cases x) (auto simp: r p Some kv s x(1) case_prod_unfold)
    qed (simp add: attempt_def Let_def r p Some)
  qed (simp add: attempt_def Let_def r p)
qed

section \<open>Windows of a well-behaved call\<close>

lemma temperature_loop_total:
  "context_ok c \<Longrightarrow> params_ok ps \<Longrightarrow> env_ok e c \<Longrightarrow> length (st_decoders st) = 8 \<Longrightarrow> n_decoders ps \<le> 8 \<Longrightarrow>
    temperature_loop e ps c seek_end seek it ts best prompt st \<noteq> None \<and>
    (\<forall>err. temperature_loop e ps c seek_end seek it ts best prompt st = Some (Inl err) \<longrightarrow> err \<in> {-7, -8, -9})"
proof (induction e ps c seek_end seek it ts best prompt st rule: temperature_loop.induct)
  case (2 e ps c seek_end seek it t ts best prompt st)
  note a = attempt_total [OF "2.prems", of seek_end seek it t best]
  show ?case
  proof (cases "attempt e ps c seek_end seek it t best st")
    case (Some r)
    show ?thesis
    proof (cases r)
      case (Inl err)
      with a Some show ?thesis by simp
    next
      case (Inr x)
      obtain prompt1 st1 best1 where x: "x = (prompt1, st1, best1)" by (cases x) auto
      have "length (st_decoders st1) = 8" using attempt_spec [OF Some [unfolded Inr x] "2.prems"(4,5)] by blast
      then show ?thesis
        using "2.IH" [OF Some Inr x [symmetric] refl _ "2.prems"(1-3) _ "2.prems"(5)] Some Inr x by simp
    qed
  qed (use a in simp)
qed simp

lemma temperature_loop_good:
  assumes "temperature_loop e ps c seek_end seek 0 ts 0 [] st = Some (Inr (prompt', st', best'))" and "ts \<noteq> []"
    and ok: "context_ok c" "params_ok ps" "env_ok e c" and l: "length (st_decoders st) = 8" "n_decoders ps \<le> 8"
  shows "length (st_decoders st') = 8 \<and> decoder_good c (st_decoders st' ! best')"
  by (rule temperature_loop_spec [OF assms(1) _ l, of _ 0]) (use attempt_good [OF _ ok _ l(2)] assms(2) in \<open>blast | simp\<close>)+

lemma finish_window_total:
  assumes "context_ok c" "\<not> print_special ps" "decoder_good c (st_decoders st ! best)"
  shows "finish_window ps c seek_end seek prompt best st \<noteq> None"
proof -
  let ?toks = "seq_tokens (sequence (st_decoders st ! best))"
  have "texts_known (c_vocab c) ?toks"
    using assms(1,3) by (auto simp: texts_known_def context_ok_def decoder_good_def)
  moreover have "token_eot (c_vocab c) \<le> token_beg (c_vocab c)"
    using assms(1) by (simp add: context_ok_def vocab_ok_def)
  ultimately have "output_segments ps False (c_vocab c) en nsp seek sd ?toks out \<noteq> None" for en nsp sd out
    using output_segments_adds [OF _ assms(2)] by fastforce
  then show ?thesis by (simp add: finish_window_def Let_def)
qed

lemma finish_window_progress:
  "finish_window ps c seek_end seek prompt best st = Some (seek', st') \<Longrightarrow> 2 \<le> seek_delta (st_decoders st ! best) \<Longrightarrow>
    seek + delta_min < seek_end \<Longrightarrow> seek + 2 \<le> seek' \<and> st_decoders st' = st_decoders st"
  by (auto simp: finish_window_def Let_def delta_min_def WHISPER_CHUNK_SIZE_def split: if_splits option.splits)

text \<open>The main loop of a well-behaved call.\<close>

lemma main_loop_total:
  assumes "temperatures ps \<noteq> []" and "context_ok c" "params_ok ps" "env_ok e c" and "n_decoders ps \<le> 8"
  shows "length (st_decoders st) = 8 \<Longrightarrow> seek_end - seek + 2 \<le> 2 * int fuel + delta_min \<Longrightarrow> 0 < fuel \<Longrightarrow>
    (\<exists>st'. main_loop fuel e ps c seek_start seek_end seek st = Returned 0 st') \<or>
    (\<exists>err \<in> {-6, -7, -8, -9}. \<exists>out. main_loop fuel e ps c seek_start seek_end seek st = Failed err out)"
  using assms
proof (induction fuel e ps c seek_start seek_end seek st rule: main_loop.induct)
  case (2 fuel e ps c seek_start seek_end seek st)
  define st1 where "st1 = (if seek > seek_start \<and> seek + 500 \<ge> seek_end
      then st\<lparr>st_prompt_past0 := [], st_prompt_past1 := []\<rparr> else st)"
  have l1: "length (st_decoders st1) = 8" using "2.prems"(1) by (simp add: st1_def)
  note ok = "2.prems"(5-7)
  show ?case
  proof (cases "seek + delta_min \<ge> seek_end \<or> \<not> e_begin e seek \<or> \<not> e_enc_ok e seek")
    case False
    then have go: "\<not> seek + delta_min \<ge> seek_end" "e_begin e seek" "e_enc_ok e seek" by simp_all
    note tt = temperature_loop_total [OF ok l1 "2.prems"(8), of seek_end seek 0 "temperatures ps" 0 "[]"]
    then obtain r where r: "temperature_loop e ps c seek_end seek 0 (temperatures ps) 0 [] st1 = Some r" by auto
    show ?thesis
    proof (cases r)
      case (Inl err)
      with tt r go show ?thesis by (auto simp: st1_def [symmetric])
    next
      case (Inr x)
      obtain prompt st2 best where x: "x = (prompt, st2, best)" by (cases x) auto
      note good = temperature_loop_good [OF r [unfolded Inr x] "2.prems"(4) ok l1 "2.prems"(8)]
      have "\<not> print_special ps" using ok(2) by (simp add: params_ok_def)
      then obtain y where fin: "finish_window ps c seek_end seek prompt best st2 = Some y"
        using finish_window_total [OF ok(1)] good by blast
      obtain seek' st3 where y: "y = (seek', st3)" by (cases y)
      have p: "seek + 2 \<le> seek'" "st_decoders st3 = st_decoders st2"
        using finish_window_progress [OF fin [unfolded y]] good go(1) by (auto simp: decoder_good_def)
      have "seek_end - seek' + 2 \<le> 2 * int fuel + delta_min" using p(1) "2.prems"(2) by simp
      moreover have "0 < fuel" using go(1) "2.prems"(2) by (cases fuel) auto
      ultimately have "(\<exists>st'. main_loop fuel e ps c seek_start seek_end seek' st3 = Returned 0 st') \<or>
          (\<exists>err \<in> {-6, -7, -8, -9}. \<exists>out. main_loop fuel e ps c seek_start seek_end seek' st3 = Failed err out)"
        using "2.IH" [OF go(1) _ _ st1_def r Inr x [symmetric] refl fin y [symmetric]] go good p(2) "2.prems"(4-8) by simp
      then show ?thesis using go r Inr x fin y by (simp add: st1_def [symmetric])
    qed
  qed auto
qed simp

text \<open>Without assumptions on the model: the loop ends.\<close>

lemma attempt_positive:
  "\<forall>it t best st prompt st' best'. length (st_decoders st) = 8 \<and>
     attempt e ps c seek_end seek it t best st = Some (Inr (prompt, st', best')) \<longrightarrow>
     (\<forall>j < nat (n_decoders_cur ps t). 2 \<le> seek_delta (st_decoders st' ! j))" if "n_decoders ps \<le> 8"
  using attempt_spec [OF _ _ that] by blast

lemma main_loop_ends:
  assumes "temperatures ps \<noteq> []" and "n_decoders ps \<le> 8"
  shows "length (st_decoders st) = 8 \<Longrightarrow> seek_end - seek + 2 \<le> 2 * int fuel + delta_min \<Longrightarrow> 0 < fuel \<Longrightarrow>
    main_loop fuel e ps c seek_start seek_end seek st \<noteq> Unfinished s' st'"
  using assms
proof (induction fuel e ps c seek_start seek_end seek st rule: main_loop.induct)
  case (2 fuel e ps c seek_start seek_end seek st)
  define st1 where "st1 = (if seek > seek_start \<and> seek + 500 \<ge> seek_end
      then st\<lparr>st_prompt_past0 := [], st_prompt_past1 := []\<rparr> else st)"
  have l1: "length (st_decoders st1) = 8" using "2.prems"(1) by (simp add: st1_def)
  show ?case
  proof (cases "seek + delta_min \<ge> seek_end \<or> \<not> e_begin e seek \<or> \<not> e_enc_ok e seek")
    case False
    then have go: "\<not> seek + delta_min \<ge> seek_end" "e_begin e seek" "e_enc_ok e seek" by simp_all
    show ?thesis
    proof (cases "temperature_loop e ps c seek_end seek 0 (temperatures ps) 0 [] st1")
      case r: (Some r)
      show ?thesis
      proof (cases r)
        case (Inr x)
        obtain prompt st2 best where x: "x = (prompt, st2, best)" by (cases x) auto
        have good: "length (st_decoders st2) = 8 \<and> 2 \<le> seek_delta (st_decoders st2 ! best)"
          by (rule temperature_loop_spec [OF r [unfolded Inr x] attempt_positive l1 "2.prems"(5), of 0])
            (use "2.prems"(4,5) in simp_all)
        show ?thesis
        proof (cases "finish_window ps c seek_end seek prompt best st2")
          case fin: (Some y)
          obtain seek' st3 where y: "y = (seek', st3)" by (cases y)
          have p: "seek + 2 \<le> seek'" "st_decoders st3 = st_decoders st2"
            using finish_window_progress [OF fin [unfolded y]] good go(1) by auto
          have "seek_end - seek' + 2 \<le> 2 * int fuel + delta_min" using p(1) "2.prems"(2) by simp
          moreover have "0 < fuel" using go(1) "2.prems"(2) by (cases fuel) auto
          ultimately have "main_loop fuel e ps c seek_start seek_end seek' st3 \<noteq> Unfinished s' st'"
            using "2.IH" [OF go(1) _ _ st1_def r Inr x [symmetric] refl fin y [symmetric]] go good p(2) "2.prems"(4,5) by simp
          then show ?thesis using go r Inr x fin y by (simp add: st1_def [symmetric])
        qed (use go r Inr x in \<open>simp add: st1_def [symmetric]\<close>)
      qed (use go r in \<open>simp add: st1_def [symmetric]\<close>)
    qed (use go in \<open>simp add: st1_def [symmetric]\<close>)
  qed auto
qed simp

section \<open>The whole call\<close>

lemma force_no_timestamps_same:
  "temperatures (force_no_timestamps ps c) = temperatures ps" "n_decoders (force_no_timestamps ps c) = n_decoders ps"
  "params_ok (force_no_timestamps ps c) = params_ok ps"
  by (simp_all add: force_no_timestamps_def temperatures_def n_decoders_def params_ok_def split: whisper_sampling_strategy.splits)

lemma prepare_prompt_decoders: "st_decoders (prepare_prompt sp ps c st) = st_decoders st"
  by (simp add: prepare_prompt_def Let_def)

lemma detect_step_total:
  "(\<exists>st'. detect_step e ps c st = Inl (Returned 0 st')) \<or> detect_step e ps c st = Inl (Failed (-3) (st_out st)) \<or>
   (\<exists>l id. detect_step e ps c st = Inr (ps\<lparr>language := l\<rparr>, st\<lparr>st_lang_id := id\<rparr>) \<or> detect_step e ps c st = Inr (ps, st))"
proof (cases "language ps = [] \<or> language ps = ''auto'' \<or> detect_language ps")
  case True
  define i where "i = fst (whisper_lang_auto_detect (c_vocab c) (st_n_len_org st) 0 (e_lang_enc_ok e) (e_lang_dec_ok e)
                             (e_lang_logits e))"
  show ?thesis
  proof (cases "i < 0")
    case neg: True
    then show ?thesis using True by (simp add: detect_step_def i_def [symmetric] Let_def)
  next
    case False
    then have "i = snd (hd (lang_logits (c_vocab c) (e_lang_logits e)))"
      by (auto simp: i_def whisper_lang_auto_detect_def Let_def split: if_splits)
    moreover have "hd (lang_logits (c_vocab c) (e_lang_logits e)) \<in> set (lang_logits (c_vocab c) (e_lang_logits e))"
      using lang_logits_nonempty by simp
    ultimately have "0 \<le> i \<and> i \<le> 99" unfolding lang_logits_set by auto
    with lang_str_Some obtain l where "whisper_lang_str i = Some l" by blast
    then show ?thesis using True False by (auto simp: detect_step_def i_def [symmetric] Let_def)
  qed
qed (simp add: detect_step_def)

text \<open>The parts of a call in front of the main loop.\<close>

lemma full_cases:
  fixes P :: "full_result \<Rightarrow> bool"
  assumes ret: "\<And>st'. P (Returned 0 st')" and err: "\<And>x out. x \<in> {-2, -3, -4, -5} \<Longrightarrow> P (Failed x out)"
    and loop: "\<And>ps' a b s. temperatures ps' = temperatures ps \<Longrightarrow> n_decoders ps' = n_decoders ps \<Longrightarrow> params_ok ps' = params_ok ps \<Longrightarrow>
      n_decoders ps \<le> 8 \<Longrightarrow> st_decoders s = st_decoders st \<Longrightarrow>
      b - a + 2 \<le> 2 * int fuel + delta_min \<Longrightarrow> P (main_loop fuel e ps' c a b a s)"
    and off: "0 \<le> offset_ms ps" and len: "max (st_n_len_org st) (max (e_mel_len e) (duration_ms ps)) \<le> int fuel"
  shows "P (whisper_full_with_state fuel e c ps samples st)"
proof (cases "samples \<noteq> [] \<and> \<not> e_mel_ok e")
  case True
  then show ?thesis using err [of "-2"] by (simp add: whisper_full_with_state_def Let_def)
next
  case False
  define st2 where "st2 = (if samples \<noteq> [] then st\<lparr>st_out := (st_out st)\<lparr>result_all := []\<rparr>, st_n_len_org := e_mel_len e\<rparr>
                           else st\<lparr>st_out := (st_out st)\<lparr>result_all := []\<rparr>\<rparr>)"
  have s2: "st_decoders st2 = st_decoders st" "st_n_len_org st2 \<in> {st_n_len_org st, e_mel_len e}" by (simp_all add: st2_def)
  consider st' where "detect_step e ps c st2 = Inl (Returned 0 st')" | "detect_step e ps c st2 = Inl (Failed (-3) (st_out st2))"
    | l id where "detect_step e ps c st2 = Inr (ps\<lparr>language := l\<rparr>, st2\<lparr>st_lang_id := id\<rparr>)" | "detect_step e ps c st2 = Inr (ps, st2)"
    using detect_step_total [of e ps c st2] by blast
  then consider (finished) r where "detect_step e ps c st2 = Inl r" "P r"
    | (go) l st3 where "detect_step e ps c st2 = Inr (ps\<lparr>language := l\<rparr>, st3)" "st_decoders st3 = st_decoders st"
        "st_n_len_org st3 = st_n_len_org st2"
  proof cases
    case 1
    then show ?thesis using ret finished by blast
  next
    case 2
    then show ?thesis using err [of "-3"] finished by blast
  next
    case (3 l id)
    then show ?thesis by (rule go) (simp_all add: s2)
  next
    case 4
    then have "detect_step e ps c st2 = Inr (ps\<lparr>language := language ps\<rparr>, st2)" by simp
    then show ?thesis by (rule go) (simp_all add: s2)
  qed
  then show ?thesis
  proof cases
    case finished
    then show ?thesis using False by (auto simp: whisper_full_with_state_def Let_def st2_def [symmetric])
  next
    case go
    define ps1 where "ps1 = ps\<lparr>language := l\<rparr>"
    define st4 where "st4 = (if token_timestamps ps1
                        then st3\<lparr>st_out := (st_out st3)\<lparr>ts_glob := \<lparr>g_t_beg = 0, g_t_last = 0, g_tid_last = 0\<rparr>\<rparr>,
                                 st_energy := (if samples \<noteq> [] then get_signal_energy samples 32 else st_energy st3)\<rparr>
                        else st3)"
    define a where "a = cdiv (offset_ms ps1) 10"
    define b where "b = (if duration_ms ps1 = 0 then st_n_len_org st4 else a + cdiv (duration_ms ps1) 10)"
    have e: "whisper_full_with_state fuel e c ps samples st =
      (if b < a + delta_min then Returned 0 st4
       else if n_decoders ps1 > 8 then Failed (-4) (st_out st4)
       else if audio_ctx ps1 > c_n_audio_ctx c then Failed (-5) (st_out (prepare_prompt (e_split e) ps1 c st4))
       else main_loop fuel e (force_no_timestamps ps1 c) c a b a
              ((prepare_prompt (e_split e) ps1 c st4)\<lparr>st_exp_n_audio_ctx := audio_ctx ps1,
                 st_lang_id := (if is_multilingual (c_vocab c) then whisper_lang_id (language ps1)
                                else st_lang_id (prepare_prompt (e_split e) ps1 c st4))\<rparr>))"
      unfolding whisper_full_with_state_def Let_def if_not_P [OF False] st2_def [symmetric] go(1) sum.case prod.case
        ps1_def [symmetric]
      unfolding st4_def [symmetric] a_def [symmetric]
      unfolding b_def [symmetric] WHISPER_MAX_DECODERS_def ..
    have a: "0 \<le> a" using off by (simp add: a_def ps1_def)
    have n: "st_n_len_org st4 \<in> {st_n_len_org st, e_mel_len e}" "st_decoders st4 = st_decoders st"
      using s2 go by (simp_all add: st4_def)
    have "b - a \<le> max 0 (max (st_n_len_org st) (max (e_mel_len e) (duration_ms ps)))"
      using a n(1) by (auto simp: b_def ps1_def cdiv_def)
    then have "b - a + 2 \<le> 2 * int fuel + delta_min" using len unfolding delta_min_def by linarith
    moreover have "temperatures ps1 = temperatures ps" "n_decoders ps1 = n_decoders ps" "params_ok ps1 = params_ok ps"
      by (simp_all add: ps1_def temperatures_def n_decoders_def params_ok_def split: whisper_sampling_strategy.splits)
    ultimately show ?thesis
      unfolding e using ret err n(2) by (auto intro!: loop simp: force_no_timestamps_same prepare_prompt_decoders)
  qed
qed

text \<open>C1: The transcription of a recording ends, whatever the networks answer, the callbacks say and the draws
  choose: with at least as many iterations of the main loop as there are frames to transcribe, the call
  never runs out of iterations.  The start temperature must be at most 1 if it is to be increased; for a
  higher one the list of temperatures is empty.\<close>

theorem transcription_ends:
  assumes "temperature_inc ps \<le> 0 \<or> temperature ps \<le> 1" and "0 \<le> offset_ms ps"
    and "length (st_decoders st) = 8" and "0 < fuel"
    and "max (st_n_len_org st) (max (e_mel_len e) (duration_ms ps)) \<le> int fuel"
  shows "whisper_full_with_state fuel e c ps samples st \<noteq> Unfinished seek' st'"
proof -
  have "fuel = Suc (fuel - 1)" using assms(4) by simp
  then show ?thesis
    using assms temperatures_nonempty [OF assms(1)]
    by (intro full_cases [where P = "\<lambda>r. r \<noteq> Unfinished seek' st'"] main_loop_ends)
       simp_all
qed

lemma well_formed_call:
  assumes "context_ok c" and "params_ok ps" and "env_ok e c"
    and "temperature_inc ps \<le> 0 \<or> temperature ps \<le> 1" and "0 \<le> offset_ms ps"
    and "length (st_decoders st) = 8" and "0 < fuel"
    and "max (st_n_len_org st) (max (e_mel_len e) (duration_ms ps)) \<le> int fuel"
  shows "(\<exists>st'. whisper_full_with_state fuel e c ps samples st = Returned 0 st') \<or>
    (\<exists>err \<in> {-9, -8, -7, -6, -5, -4, -3, -2}. \<exists>out. whisper_full_with_state fuel e c ps samples st = Failed err out)"
proof -
  have "(\<exists>st'. main_loop fuel e ps' c a b a s = Returned 0 st') \<or>
      (\<exists>err \<in> {-6, -7, -8, -9}. \<exists>out. main_loop fuel e ps' c a b a s = Failed err out)"
    if "temperatures ps' = temperatures ps" "n_decoders ps' = n_decoders ps" "params_ok ps' = params_ok ps"
      "n_decoders ps \<le> 8" "st_decoders s = st_decoders st"
      "b - a + 2 \<le> 2 * int fuel + delta_min" for ps' a b s
    by (rule main_loop_total)
      (use that assms temperatures_nonempty [OF assms(4)] in simp_all)
  note loop = this
  define P where "P r \<longleftrightarrow> (\<exists>st'. r = Returned 0 st') \<or>
    (\<exists>err \<in> {-9, -8, -7, -6, -5, -4, -3, -2}. \<exists>out. r = Failed err out)" for r
  have "P (whisper_full_with_state fuel e c ps samples st)"
  proof (rule full_cases)
    show "P (Returned 0 st')" for st' by (simp add: P_def)
    show "P (Failed x out)" if "x \<in> {-2, -3, -4, -5}" for x out using that by (auto simp: P_def)
    show "P (main_loop fuel e ps' c a b a s)"
      if "temperatures ps' = temperatures ps" "n_decoders ps' = n_decoders ps" "params_ok ps' = params_ok ps"
        "n_decoders ps \<le> 8" "st_decoders s = st_decoders st" "b - a + 2 \<le> 2 * int fuel + delta_min" for ps' a b s
      using loop [OF that] unfolding P_def by blast
  qed (use assms in simp_all)
  then show ?thesis unfolding P_def .
qed

text \<open>C2: A call whose model, parameters and environment are in order has no undefined behaviour: it
  returns normally or reports one of the documented errors.  No index leaves its vector, no token is
  unknown, no decoder has an empty list of candidates, and the output of every window succeeds.\<close>

theorem well_formed_call_returns:
  assumes "context_ok c" and "params_ok ps" and "env_ok e c"
    and "temperature_inc ps \<le> 0 \<or> temperature ps \<le> 1" and "0 \<le> offset_ms ps"
    and "length (st_decoders st) = 8" and "0 < fuel"
    and "max (st_n_len_org st) (max (e_mel_len e) (duration_ms ps)) \<le> int fuel"
  shows "(\<exists>st'. whisper_full_with_state fuel e c ps samples st = Returned 0 st') \<or>
    (\<exists>err \<in> {-9, -8, -7, -6, -5, -4, -3, -2}. \<exists>out. whisper_full_with_state fuel e c ps samples st = Failed err out)"
  by (rule well_formed_call [OF assms])

section \<open>An example\<close>

definition known_vocab :: whisper_vocab where
  "known_vocab = default_vocab\<lparr>token_to_id := (\<lambda>_. Some 0), id_to_token := (\<lambda>_. Some (bytes ''x''))\<rparr>"

definition known_context :: whisper_context where
  "known_context = \<lparr>c_vocab = known_vocab, c_n_text_ctx = 448, c_n_text_layer = 4, c_n_audio_ctx = 1500, c_n_loaded = 100\<rparr>"

definition known_env :: full_env where
  "known_env = \<lparr>e_fuel = 0, e_split = (\<lambda>t. [t]), e_mel_ok = True, e_mel_len = 3000, e_lang_enc_ok = True,
     e_lang_dec_ok = True, e_lang_logits = (\<lambda>_. 0), e_begin = (\<lambda>_. True), e_enc_ok = (\<lambda>_. True),
     e_kv_init_ok = (\<lambda>_ _. True), e_ok = (\<lambda>_ _ _. True), e_net = (\<lambda>_ _ _ _. replicate 51864 0),
     e_row0 = (\<lambda>_ _. replicate 51864 0), e_draw = (\<lambda>_ _ _ _ _. first_positive)\<rparr>"

definition known_state :: whisper_state where
  "known_state = \<lparr>st_decoders = replicate 8 fresh_decoder, st_kv_self = whisper_kv_cache_init 512, st_kv_self_n_dec = 1,
     st_prompt_past0 = [], st_prompt_past1 = [], st_lang_id = 0, st_exp_n_audio_ctx = 0, st_no_speech_prob = 0,
     st_energy = [], st_n_len_org = 3000, st_out = empty_out\<rparr>"

lemma known_context_ok: "context_ok known_context"
  by (simp add: context_ok_def vocab_ok_def known_context_def known_vocab_def default_vocab_def whisper_token_to_str_def
      bytes_def c_str_def length_g_lang whisper_token_lang_def)

lemma known_env_ok: "env_ok known_env known_context"
  by (simp add: env_ok_def known_env_def known_context_def known_vocab_def default_vocab_def fair_first_positive)

lemma known_params: "temperature (whisper_full_default_params s) = 0" "offset_ms (whisper_full_default_params s) = 0"
  "duration_ms (whisper_full_default_params s) = 0" "params_ok (whisper_full_default_params s)"
  by (cases s; simp add: params_ok_def whisper_full_default_params_def)+

text \<open>The start of a beam search with five decoders: the fourth has the cells of the prompt.\<close>

theorem running_decoders_see_their_past_witness:
  "\<exists>ds0 kv1 ds1 kv2.
     update_all (decoder_reset 0 (whisper_full_default_params SAMPLING_BEAM_SEARCH)) (replicate 5 fresh_decoder) = Some ds0 \<and>
     start_decoders (window_of known_env (whisper_full_default_params SAMPLING_BEAM_SEARCH) known_context 3000 0 0 0 5) 5 ds0 kv1
       = Some (ds1, kv2) \<and>
     (\<forall>p x. kv_row kv2 3 p x \<longleftrightarrow> 0 \<le> p \<and> p < 5 \<and> x = Some ([50360, 1, 2, 3, 50257] ! nat p))"
proof -
  let ?ps = "whisper_full_default_params SAMPLING_BEAM_SEARCH" and ?prompt = "[50360, 1, 2, 3, 50257] :: int list"
  let ?w = "window_of known_env ?ps known_context 3000 0 0 0 (length ?prompt)"
  have b: "build_prompt ?ps known_context 0 [] [1, 2, 3] = Some ?prompt" by code_simp
  have "\<forall>d \<in> set (replicate 5 fresh_decoder). decoder_reset 0 ?ps d \<noteq> None"
    by (simp add: decoder_reset_def whisper_full_default_params_def)
  from update_all_total [OF this] obtain ds0 where
    r: "update_all (decoder_reset 0 ?ps) (replicate 5 fresh_decoder) = Some ds0" by auto
  have l0: "length ds0 = 5" using update_all_nth [OF r] by simp
  have "whisper_decode_internal (whisper_batch_prep_legacy ?prompt 0 0) True (whisper_kv_cache_clear (whisper_kv_cache_init 5)) \<noteq> None"
    by code_simp
  then obtain kv1 where
    d: "whisper_decode_internal (whisper_batch_prep_legacy ?prompt 0 0) True (whisper_kv_cache_clear (whisper_kv_cache_init 5)) = Some kv1"
    by auto
  have "start_decoders ?w (length ?prompt) ds0 kv1 \<noteq> None"
    using process_decoder_total [OF known_context_ok known_params(4)] l0 by (auto simp: start_decoders_def split: list.splits)
  then obtain ds1 kv2 where s: "start_decoders ?w (length ?prompt) ds0 kv1 = Some (ds1, kv2)" by auto
  have ctx: "8 \<le> c_n_text_ctx known_context" "c_n_text_ctx known_context < pos_max" "length (replicate 5 fresh_decoder) \<le> 8"
    by (simp_all add: known_context_def pos_max_def)
  have l1: "length ds1 = 5" "running (ds1 ! 3)"
    using start_decoders_spec [OF s] l0 update_all_nth [OF r] same_core_running [of "ds0 ! 3" "ds1 ! 3"]
      decoder_reset_spec [of 0 ?ps "fresh_decoder" "ds0 ! 3"] by auto
  from running_decoders_see_their_past [OF r ctx(3) b ctx(1,2) d refl s decode_reach.start, of 3] l1
  have "\<forall>p x. kv_row kv2 3 p x \<longleftrightarrow> 0 \<le> p \<and> p < 5 \<and> x = Some (?prompt ! nat p)" by simp
  moreover have "length ?prompt = 5" by simp
  note s [unfolded this]
  ultimately show ?thesis using r by blast
qed

theorem positions_fit_text_context_witness:
  "build_prompt (whisper_full_default_params SAMPLING_GREEDY) known_context 0 [] [1, 2, 3] = Some [50360, 1, 2, 3, 50257] \<and>
    int (w_n_prompt (window_of known_env (whisper_full_default_params SAMPLING_GREEDY) known_context 3000 0 0 0 5) + 219) < 448"
proof -
  have b: "build_prompt (whisper_full_default_params SAMPLING_GREEDY) known_context 0 [] [1, 2, 3] = Some [50360, 1, 2, 3, 50257]"
    by code_simp
  have "8 \<le> c_n_text_ctx known_context" by (simp add: known_context_def)
  from positions_fit_text_context [OF b this refl, of known_env 3000 0 0, THEN conjunct2, THEN conjunct2, THEN spec, of 219] b
  show ?thesis by (simp add: window_of_def known_context_def cdiv_def)
qed

theorem transcription_ends_witness:
  "whisper_full_with_state 3000 known_env known_context (whisper_full_default_params SAMPLING_BEAM_SEARCH) [0] known_state
     \<noteq> Unfinished 10 known_state"
  by (rule transcription_ends) (simp_all add: known_params known_env_def known_state_def)

theorem well_formed_call_returns_witness:
  "whisper_full_with_state 3000 known_env known_context (whisper_full_default_params SAMPLING_BEAM_SEARCH) [0] known_state
     \<noteq> Crashed"
  using well_formed_call_returns [OF known_context_ok _ known_env_ok, of "whisper_full_default_params SAMPLING_BEAM_SEARCH" known_state 3000 "[0]"]
  by (auto simp: known_params known_env_def known_state_def)

end
