(* ===== verification/Vad_Filter.thy ===== *)
theory Vad_Filter
  imports Vad_Segments "HOL-Library.Multiset"
begin

text \<open>
  \<open>whisper_vad\<close> of \<open>whisper.cpp\<close>: the windows of the voice detector, the audio that only keeps the speech
  segments, the table that maps times of that audio to the original ones, and the reading of segment times.

  The network is an argument; it may fail at any window.  So is \<open>std::sort\<close>, which leaves the order of equal
  times open.  A negative or too short buffer
  and a copy outside of it are \<open>None\<close>.
\<close>

section \<open>Detecting speech\<close>

definition n_chunks :: "nat \<Rightarrow> nat \<Rightarrow> nat" where
  "n_chunks w n = n div w + (if n mod w \<noteq> 0 then 1 else 0)"

text \<open>A window of samples; the last one is padded with zeros.\<close>

definition chunk_at :: "nat \<Rightarrow> real list \<Rightarrow> nat \<Rightarrow> real list" where
  "chunk_at w samples i =
    (let chunk = take w (drop (i * w) samples) in chunk @ replicate (w - length chunk) 0)"

record 's vad_env =
  v_init_ok :: bool
  v_alloc_ok :: bool
  v_step_ok :: "nat \<Rightarrow> bool"
  v_net :: "'s \<Rightarrow> real list \<Rightarrow> real \<times> 's"
  v_zero :: 's
  v_window :: nat
  v_sort :: "(int \<times> int) list \<Rightarrow> (int \<times> int) list"

text \<open>A computation that fails ends the loop; the remaining probabilities stay as they are.\<close>

fun detect_loop :: "'s vad_env \<Rightarrow> real list \<Rightarrow> nat list \<Rightarrow> 's \<Rightarrow> real list \<Rightarrow> real list" where
  "detect_loop v samples [] st probs = probs"
| "detect_loop v samples (i # js) st probs =
    (if v_step_ok v i
     then (let (p, st') = v_net v st (chunk_at (v_window v) samples i)
           in detect_loop v samples js st' (probs[i := p]))
     else probs)"

definition resize_probs :: "nat \<Rightarrow> real list \<Rightarrow> real list" where
  "resize_probs n probs = take n probs @ replicate (n - length probs) 0"

definition whisper_vad_detect_speech :: "'s vad_env \<Rightarrow> real list \<Rightarrow> real list \<Rightarrow> bool \<times> real list" where
  "whisper_vad_detect_speech v samples old =
    (let n = n_chunks (v_window v) (length samples); probs = resize_probs n old
     in if \<not> v_alloc_ok v then (False, probs)
        else (True, detect_loop v samples [0..<n] (v_zero v) probs))"

definition whisper_vad_segments_from_samples ::
  "'s vad_env \<Rightarrow> whisper_vad_params \<Rightarrow> real list \<Rightarrow> real list \<Rightarrow> (int \<times> int) list option \<times> real list" where
  "whisper_vad_segments_from_samples v ps samples old =
    (let (ok, probs) = whisper_vad_detect_speech v samples old
     in (if ok then Some (whisper_vad_segments_from_probs ps (int (v_window v)) probs) else None, probs))"

section \<open>The filtered audio and the table of times\<close>

record vad_segment_info =
  orig_start :: int
  orig_end :: int
  vad_start :: int
  vad_end :: int

record vad_state =
  vad_loaded :: bool
  vad_probs :: "real list"
  vad_infos :: "vad_segment_info list"
  has_vad_segments :: bool
  vad_mapping_table :: "(int \<times> int) list"

definition silence_samples :: int where "silence_samples = 1600"

definition overlap_samples :: "whisper_vad_params \<Rightarrow> int" where
  "overlap_samples ps = (let x = samples_overlap ps * of_int WHISPER_SAMPLE_RATE in if x < 0 then - \<lfloor>- x\<rfloor> else \<lfloor>x\<rfloor>)"

text \<open>The end of a segment in samples; all but the last one overlap the silence that follows.\<close>

definition segment_end :: "int \<Rightarrow> int \<Rightarrow> bool \<Rightarrow> int \<Rightarrow> int" where
  "segment_end ov n is_last b = min (cs_to_samples b + (if is_last then 0 else ov)) (n - 1)"

fun filtered_n_samples :: "int \<Rightarrow> int \<Rightarrow> (int \<times> int) list \<Rightarrow> int" where
  "filtered_n_samples ov n [] = 0"
| "filtered_n_samples ov n ((a, b) # r) = (segment_end ov n (r = []) b - cs_to_samples a) + filtered_n_samples ov n r"

definition total_samples_needed :: "int \<Rightarrow> int \<Rightarrow> (int \<times> int) list \<Rightarrow> int" where
  "total_samples_needed ov n segs =
    filtered_n_samples ov n segs + (if length segs > 1 then (int (length segs) - 1) * silence_samples else 0)"

definition intermediate_points :: "int \<Rightarrow> int \<Rightarrow> int \<Rightarrow> int \<Rightarrow> (int \<times> int) list" where
  "intermediate_points vs ve a b =
    (if ve - vs > 100
     then map (\<lambda>j. (vs + j * 20, a + cdiv (j * 20 * (b - a)) (ve - vs)))
            (filter (\<lambda>j. \<not> vs + j * 20 \<ge> ve) [1..cdiv (ve - vs) 20 - 1])
     else [])"

definition write_at :: "int \<Rightarrow> real list \<Rightarrow> real list \<Rightarrow> real list option" where
  "write_at off xs buf =
    (if 0 \<le> off \<and> nat off + length xs \<le> length buf
     then Some (take (nat off) buf @ xs @ drop (nat off + length xs) buf) else None)"

record vad_filter =
  f_offset :: int
  f_buf :: "real list"
  f_map :: "(int \<times> int) list"
  f_infos :: "vad_segment_info list"

text \<open>The segment itself: its boundaries and intermediate points, and the copy of its samples.\<close>

definition add_speech :: "real list \<Rightarrow> int \<Rightarrow> int \<Rightarrow> int \<Rightarrow> int \<Rightarrow> vad_filter \<Rightarrow> vad_filter option" where
  "add_speech samples s len a b f =
    (let vs = samples_to_cs (f_offset f); ve = samples_to_cs (f_offset f + len)
     in map_option
          (\<lambda>buf. f\<lparr>f_offset := f_offset f + len, f_buf := buf,
                   f_map := f_map f @ [(vs, a), (ve, b)] @ intermediate_points vs ve a b,
                   f_infos := f_infos f @ [\<lparr>orig_start = a, orig_end = b, vad_start = vs, vad_end = ve\<rparr>]\<rparr>)
          (write_at (f_offset f) (take (nat len) (drop (nat s) samples)) (f_buf f)))"

text \<open>The silence between two segments.\<close>

definition add_silence :: "int \<Rightarrow> int \<Rightarrow> vad_filter \<Rightarrow> vad_filter option" where
  "add_silence b next_a f =
    map_option
      (\<lambda>buf. f\<lparr>f_offset := f_offset f + silence_samples, f_buf := buf,
               f_map := f_map f @ [(samples_to_cs (f_offset f), b),
                                   (samples_to_cs (f_offset f + silence_samples), next_a)]\<rparr>)
      (write_at (f_offset f) (replicate (nat silence_samples) 0) (f_buf f))"

fun filter_loop :: "int \<Rightarrow> real list \<Rightarrow> (int \<times> int) list \<Rightarrow> vad_filter \<Rightarrow> vad_filter option" where
  "filter_loop ov samples [] f = Some f"
| "filter_loop ov samples ((a, b) # r) f =
    (let s = min (cs_to_samples a) (int (length samples) - 1);
         e = segment_end ov (int (length samples)) (r = []) b
     in if e - s > 0
        then (case add_speech samples s (e - s) a b f of
                None \<Rightarrow> None
              | Some f1 \<Rightarrow>
                  (case (if r \<noteq> [] then add_silence b (fst (hd r)) f1 else Some f1) of
                     None \<Rightarrow> None
                   | Some f2 \<Rightarrow> filter_loop ov samples r f2))
        else filter_loop ov samples r f)"

text \<open>What \<open>std::sort\<close> promises for the comparison of times.\<close>

definition sorts_times :: "((int \<times> int) list \<Rightarrow> (int \<times> int) list) \<Rightarrow> bool" where
  "sorts_times srt \<longleftrightarrow> (\<forall>ps. mset (srt ps) = mset ps \<and> sorted (map fst (srt ps)))"

text \<open>\<open>std::unique\<close> keeps the first of neighbours with equal times.\<close>

fun unique_times :: "(int \<times> int) list \<Rightarrow> (int \<times> int) list" where
  "unique_times (p # q # r) = (if fst p = fst q then unique_times (p # r) else p # unique_times (q # r))"
| "unique_times ps = ps"

definition whisper_vad ::
  "'s vad_env \<Rightarrow> whisper_vad_params \<Rightarrow> real list \<Rightarrow> vad_state \<Rightarrow> (bool \<times> vad_state \<times> real list) option" where
  "whisper_vad v ps samples st0 =
    (let st1 = st0\<lparr>vad_mapping_table := [], has_vad_segments := False\<rparr> in
     if \<not> vad_loaded st0 \<and> \<not> v_init_ok v then Some (False, st1, [])
     else
       (let (segs_opt, probs) = whisper_vad_segments_from_samples v ps samples (vad_probs st0);
            st2 = st1\<lparr>vad_loaded := True, vad_probs := probs\<rparr>
        in case segs_opt of
             None \<Rightarrow> Some (False, st2, [])
           | Some segs \<Rightarrow>
               (if segs = [] then Some (True, st2, [])
                else
                  (let ov = overlap_samples ps; total = total_samples_needed ov (int (length samples)) segs
                   in if total < 0 then None
                      else map_option
                        (\<lambda>f. (True,
                              st2\<lparr>has_vad_segments := True, vad_infos := f_infos f,
                                  vad_mapping_table := unique_times (v_sort v (f_map f))\<rparr>,
                              f_buf f))
                        (filter_loop ov samples segs
                           \<lparr>f_offset = 0, f_buf = replicate (nat total) 0, f_map = [], f_infos = []\<rparr>)))))"

section \<open>Mapping times back\<close>

text \<open>\<open>std::lower_bound\<close> finds the first entry whose time is not smaller.\<close>

definition map_processed_to_original_time :: "int \<Rightarrow> (int \<times> int) list \<Rightarrow> int" where
  "map_processed_to_original_time t tb =
    (if tb = [] then t
     else if t \<le> fst (hd tb) then snd (hd tb)
     else if t \<ge> fst (last tb) then snd (last tb)
     else
       (let k = length (takeWhile (\<lambda>p. fst p < t) tb); upper = tb ! k
        in if fst upper = t then snd upper
           else
             (let lower = tb ! (k - 1); pdiff = fst upper - fst lower; odiff = snd upper - snd lower;
                  off = t - fst lower
              in if pdiff = 0 then snd lower else snd lower + cdiv (off * odiff) pdiff)))"

definition segment_t0 :: "vad_state \<Rightarrow> int \<Rightarrow> int" where
  "segment_t0 v t0 =
    (if \<not> has_vad_segments v \<or> vad_mapping_table v = [] then t0
     else map_processed_to_original_time t0 (vad_mapping_table v))"

definition segment_t1 :: "vad_state \<Rightarrow> int \<Rightarrow> int \<Rightarrow> int" where
  "segment_t1 v t0 t1 =
    (if \<not> has_vad_segments v \<or> vad_mapping_table v = [] then t1
     else
       (let orig_t1 = map_processed_to_original_time t1 (vad_mapping_table v); orig_t0 = segment_t0 v t0
        in if orig_t1 - orig_t0 < 10 then orig_t0 + 10 else orig_t1))"

section \<open>The windows cover the samples\<close>

lemma n_chunks_bounds:
  assumes "0 < w"
  shows "n \<le> n_chunks w n * w" "n_chunks w n * w < n + w" "i < n_chunks w n \<Longrightarrow> i * w \<le> n"
proof -
  define x where "x = n div w * w"
  define y where "y = n mod w"
  have n: "n = x + y" by (simp add: x_def y_def)
  have m: "y < w" using assms by (simp add: y_def)
  have c: "n_chunks w n * w = x + (if y = 0 then 0 else w)" by (simp add: n_chunks_def x_def y_def)
  show "n \<le> n_chunks w n * w" unfolding c using n m by simp
  show "n_chunks w n * w < n + w" unfolding c using n m by simp
  show "i < n_chunks w n \<Longrightarrow> i * w \<le> n"
  proof -
    assume "i < n_chunks w n"
    then have "i \<le> n div w" by (auto simp: n_chunks_def split: if_splits)
    then have "i * w \<le> n div w * w" by (rule mult_le_mono1)
    then show ?thesis using div_times_less_eq_dividend [of n w] by (rule order.trans)
  qed
qed

lemma length_chunk_at: "length (chunk_at w xs i) = w"
  by (simp add: chunk_at_def Let_def)

lemma chunks_concat:
  assumes "0 < w"
  shows "m \<le> n_chunks w (length xs) \<Longrightarrow>
    concat (map (chunk_at w xs) [0..<m]) = take (m * w) xs @ replicate (m * w - length xs) 0"
proof (induction m)
  case (Suc m)
  have le: "m * w \<le> length xs" using n_chunks_bounds(3) [OF assms] Suc.prems by simp
  have "take (Suc m * w) xs = take (m * w) xs @ take w (drop (m * w) xs)"
    by (simp add: take_add [symmetric] add.commute)
  moreover have "w - length (take w (drop (m * w) xs)) = Suc m * w - length xs" using le by (simp add: min_def)
  ultimately show ?case using Suc le by (simp add: chunk_at_def Let_def)
qed simp

fun run_net :: "('s \<Rightarrow> real list \<Rightarrow> real \<times> 's) \<Rightarrow> 's \<Rightarrow> real list list \<Rightarrow> real list" where
  "run_net net st [] = []"
| "run_net net st (c # cs) = (let (p, st') = net st c in p # run_net net st' cs)"

lemma length_run_net [simp]: "length (run_net net st cs) = length cs"
  by (induction cs arbitrary: st) (auto simp: Let_def split: prod.splits)

lemma detect_loop_runs:
  assumes "\<forall>i. v_step_ok v i"
  shows "length probs = m + n \<Longrightarrow>
    detect_loop v samples [m..<m + n] st probs
      = take m probs @ run_net (v_net v) st (map (chunk_at (v_window v) samples) [m..<m + n])"
proof (induction n arbitrary: m st probs)
  case (Suc n)
  obtain p st' where p: "v_net v st (chunk_at (v_window v) samples m) = (p, st')" by fastforce
  have up: "[m..<m + Suc n] = m # [Suc m..<Suc m + n]" by (simp add: upt_conv_Cons)
  have "take (Suc m) (probs[m := p]) = take m probs @ [p]"
    using Suc.prems by (simp add: take_Suc_conv_app_nth)
  with Suc.IH [of "probs[m := p]" "Suc m" st'] Suc.prems show ?case
    unfolding up using assms p by simp
qed simp

lemma length_detect_loop: "length (detect_loop v samples js st probs) = length probs"
  by (induction v samples js st probs rule: detect_loop.induct) (auto simp: Let_def split: prod.splits)

lemma length_detected:
  "length (snd (whisper_vad_detect_speech v samples old)) = n_chunks (v_window v) (length samples)"
  by (simp add: whisper_vad_detect_speech_def Let_def length_detect_loop resize_probs_def min_def)

text \<open>Voice detection sees every sample exactly once and in order: the windows concatenate to the samples and
  less than a window of zeros, and when all computations succeed the probabilities are those of the
  recurrent network run over the windows from the zero state, whatever an earlier call has left.\<close>

theorem vad_detect_windows:
  assumes "0 < v_window v" "v_alloc_ok v" "\<forall>i. v_step_ok v i"
  defines "windows samples \<equiv> map (chunk_at (v_window v) samples) [0..<n_chunks (v_window v) (length samples)]"
  shows "whisper_vad_detect_speech v samples old = (True, run_net (v_net v) (v_zero v) (windows samples)) \<and>
    (\<exists>z < v_window v. concat (windows samples) = samples @ replicate z 0) \<and> (\<forall>c \<in> set (windows samples). length c = v_window v)"
proof -
  let ?w = "v_window v" and ?n = "n_chunks (v_window v) (length samples)"
  have "length (resize_probs ?n old) = 0 + ?n" by (simp add: resize_probs_def)
  from detect_loop_runs [OF assms(3) this, of samples "v_zero v"]
  have "whisper_vad_detect_speech v samples old = (True, run_net (v_net v) (v_zero v) (windows samples))"
    using assms(2) by (simp add: whisper_vad_detect_speech_def windows_def Let_def)
  moreover have "concat (windows samples) = samples @ replicate (?n * ?w - length samples) 0"
    using chunks_concat [OF assms(1) order.refl, of samples] n_chunks_bounds(1) [OF assms(1), of "length samples"]
    by (simp add: windows_def)
  moreover have "?n * ?w - length samples < ?w"
    using n_chunks_bounds(1,2) [OF assms(1), of "length samples"] by linarith
  moreover have "\<forall>c \<in> set (windows samples). length c = ?w" by (auto simp: windows_def length_chunk_at)
  ultimately show ?thesis by blast
qed

section \<open>The filtered audio\<close>

lemma cs_to_samples_exact: "cs_to_samples c = 160 * c"
proof -
  have "(of_int c / 100 * 16000 + 1 / 2 :: real) = of_int (160 * c) + 1 / 2" by simp
  moreover have "\<lfloor>of_int (160 * c) + (1 / 2 :: real)\<rfloor> = 160 * c" by (rule floor_unique) simp_all
  ultimately show ?thesis by (simp only: cs_to_samples_def WHISPER_SAMPLE_RATE_def of_int_numeral)
qed

text \<open>The samples of a segment, and the speech with a tenth of a second of silence between the segments.\<close>

definition clip :: "int \<Rightarrow> real list \<Rightarrow> bool \<Rightarrow> int \<Rightarrow> int \<Rightarrow> real list" where
  "clip ov samples is_last a b =
    take (nat (segment_end ov (int (length samples)) is_last b - 160 * a)) (drop (nat (160 * a)) samples)"

fun speech_audio :: "int \<Rightarrow> real list \<Rightarrow> (int \<times> int) list \<Rightarrow> real list" where
  "speech_audio ov samples [] = []"
| "speech_audio ov samples ((a, b) # r) =
    clip ov samples (r = []) a b @ (if r = [] then [] else replicate 1600 0 @ speech_audio ov samples r)"

definition segment_inside :: "int \<Rightarrow> int \<times> int \<Rightarrow> bool" where
  "segment_inside n = (\<lambda>(a, b). 0 \<le> a \<and> a < b \<and> 160 * a < n - 1)"

lemma segment_end_bounds:
  assumes "segment_inside n (a, b)" "0 \<le> ov"
  shows "160 * a < segment_end ov n l b" "segment_end ov n l b < n"
  using assms by (auto simp: segment_inside_def segment_end_def cs_to_samples_exact)

lemma length_clip:
  assumes "segment_inside (int (length samples)) (a, b)" "0 \<le> ov"
  shows "int (length (clip ov samples l a b)) = segment_end ov (int (length samples)) l b - 160 * a"
  using segment_end_bounds [OF assms, of l] assms by (auto simp: clip_def segment_inside_def)

lemma total_samples_Cons:
  "total_samples_needed ov n ((a, b) # r) =
    (segment_end ov n (r = []) b - 160 * a) + (if r = [] then 0 else 1600 + total_samples_needed ov n r)"
  by (cases r) (auto simp: total_samples_needed_def silence_samples_def cs_to_samples_exact algebra_simps)

lemma total_samples_nonneg:
  "list_all (segment_inside n) segs \<Longrightarrow> 0 \<le> ov \<Longrightarrow> 0 \<le> total_samples_needed ov n segs"
proof (induction segs)
  case (Cons s r)
  obtain a b where s: "s = (a, b)" by (cases s)
  with Cons segment_end_bounds [of n a b ov "r = []"] show ?case by (simp add: total_samples_Cons)
qed (simp add: total_samples_needed_def)

lemma write_at_front:
  assumes "length xs \<le> k"
  shows "write_at (int (length pre)) xs (pre @ replicate k 0) = Some (pre @ xs @ replicate (k - length xs) 0)"
  using assms by (simp add: write_at_def)

lemma filter_loop_audio:
  assumes "0 \<le> ov" and "list_all (segment_inside (int (length samples))) segs"
    and "f_offset f = int (length pre)"
    and "f_buf f = pre @ replicate (nat (total_samples_needed ov (int (length samples)) segs)) 0"
  shows "\<exists>f'. filter_loop ov samples segs f = Some f' \<and> f_buf f' = pre @ speech_audio ov samples segs"
  using assms
proof (induction segs arbitrary: f pre)
  case (Cons s r)
  obtain a b where s: "s = (a, b)" by (cases s)
  let ?n = "int (length samples)"
  let ?e = "segment_end ov ?n (r = []) b"
  have ins: "segment_inside ?n (a, b)" "list_all (segment_inside ?n) r" using Cons.prems(2) by (simp_all add: s)
  note e = segment_end_bounds [OF ins(1) Cons.prems(1), of "r = []"]
  have st: "min (cs_to_samples a) (?n - 1) = 160 * a" using ins(1) by (auto simp: segment_inside_def cs_to_samples_exact)
  define c where "c = clip ov samples (r = []) a b"
  have lc: "int (length c) = ?e - 160 * a" unfolding c_def by (rule length_clip [OF ins(1) Cons.prems(1)])
  define m where "m = (if r = [] then 0 else nat (1600 + total_samples_needed ov ?n r))"
  have tn: "0 \<le> total_samples_needed ov ?n r" by (rule total_samples_nonneg [OF ins(2) Cons.prems(1)])
  have tot: "nat (total_samples_needed ov ?n (s # r)) = length c + m"
    unfolding s total_samples_Cons m_def lc [symmetric] using tn by (simp add: nat_add_distrib)
  have take: "take (nat (?e - 160 * a)) (drop (nat (160 * a)) samples) = c" by (simp add: c_def clip_def)
  have w: "write_at (f_offset f) c (f_buf f) = Some (pre @ c @ replicate m 0)"
    unfolding Cons.prems(3,4) tot by (subst write_at_front) simp_all
  from w obtain f1 where f1: "add_speech samples (160 * a) (?e - 160 * a) a b f = Some f1"
    "f_offset f1 = int (length (pre @ c))" "f_buf f1 = (pre @ c) @ replicate m 0"
    using Cons.prems(3) lc by (auto simp: add_speech_def Let_def take)
  show ?case
  proof (cases "r = []")
    case True
    with f1 e show ?thesis by (simp add: s st Let_def c_def m_def)
  next
    case False
    have "write_at (f_offset f1) (replicate 1600 0) (f_buf f1)
        = Some ((pre @ c) @ replicate 1600 0 @ replicate (m - 1600) 0)"
      unfolding f1(2,3) by (subst write_at_front) (use False tn in \<open>simp_all add: m_def\<close>)
    then obtain f2 where f2: "add_silence b (fst (hd r)) f1 = Some f2"
      "f_offset f2 = int (length (pre @ c @ replicate 1600 0))"
      "f_buf f2 = (pre @ c @ replicate 1600 0) @ replicate (nat (total_samples_needed ov ?n r)) 0"
      using f1(2) False tn by (auto simp: add_silence_def silence_samples_def m_def nat_add_distrib)
    from Cons.IH [OF Cons.prems(1) ins(2) f2(2,3)] f1(1) f2(1) False e show ?thesis
      by (simp add: s st Let_def c_def)
  qed
qed (simp add: total_samples_needed_def)

section \<open>The table of times\<close>

definition times_agree :: "(int \<times> int) list \<Rightarrow> bool" where
  "times_agree tb \<longleftrightarrow> (\<forall>p \<in> set tb. \<forall>q \<in> set tb. fst p < fst q \<longrightarrow> snd p \<le> snd q)"

lemma intermediate_points_between:
  assumes "p \<in> set (intermediate_points vs ve a b)" "a \<le> b"
  shows "vs < fst p \<and> fst p < ve \<and> a \<le> snd p \<and> snd p \<le> b"
proof -
  from assms(1) obtain j where j: "1 \<le> j" "vs + j * 20 < ve" "p = (vs + j * 20, a + cdiv (j * 20 * (b - a)) (ve - vs))"
    by (auto simp: intermediate_points_def split: if_splits)
  have "j * 20 * (b - a) \<le> (ve - vs) * (b - a)" using j assms(2) by (intro mult_right_mono) auto
  then have "j * 20 * (b - a) div (ve - vs) \<le> (ve - vs) * (b - a) div (ve - vs)" using j by (intro zdiv_mono1) auto
  then have "j * 20 * (b - a) div (ve - vs) \<le> b - a" using j by simp
  moreover have "0 \<le> j * 20 * (b - a)" using j assms(2) by simp
  ultimately show ?thesis using j by (simp add: pos_imp_zdiv_nonneg_iff)
qed

lemma intermediate_points_agree:
  assumes "p \<in> set (intermediate_points vs ve a b)" "q \<in> set (intermediate_points vs ve a b)" "a \<le> b" "fst p < fst q"
  shows "snd p \<le> snd q"
proof -
  from assms(1,2) obtain i j where ij: "p = (vs + i * 20, a + cdiv (i * 20 * (b - a)) (ve - vs))"
    "q = (vs + j * 20, a + cdiv (j * 20 * (b - a)) (ve - vs))" "0 < ve - vs" "1 \<le> i" "1 \<le> j"
    by (auto simp: intermediate_points_def split: if_splits)
  then have "i * 20 * (b - a) \<le> j * 20 * (b - a)" using assms(3,4) by (intro mult_right_mono) auto
  then show ?thesis using ij assms(3) by (simp add: zdiv_mono1)
qed

text \<open>The entries so far are not behind the offset and not behind the next segment.\<close>

definition table_ok :: "int \<Rightarrow> int \<Rightarrow> vad_filter \<Rightarrow> bool" where
  "table_ok lo0 lo f \<longleftrightarrow> times_agree (f_map f) \<and>
    (\<forall>p \<in> set (f_map f). fst p \<le> samples_to_cs (f_offset f) \<and> lo0 \<le> snd p \<and> snd p \<le> lo)"

lemma times_agree_append:
  assumes "times_agree xs" "times_agree ys"
    and "\<forall>p \<in> set xs. fst p \<le> t \<and> snd p \<le> a" "\<forall>q \<in> set ys. t \<le> fst q \<and> a \<le> snd q"
  shows "times_agree (xs @ ys)"
  unfolding times_agree_def
proof (intro ballI impI)
  fix p q assume pq: "p \<in> set (xs @ ys)" "q \<in> set (xs @ ys)" "fst p < fst q"
  consider "p \<in> set xs" "q \<in> set xs" | "p \<in> set ys" "q \<in> set ys" | "p \<in> set xs" "q \<in> set ys" | "p \<in> set ys" "q \<in> set xs"
    using pq(1,2) by auto
  then show "snd p \<le> snd q"
  proof cases
    case 1
    then show ?thesis using assms(1) pq(3) by (simp add: times_agree_def)
  next
    case 2
    then show ?thesis using assms(2) pq(3) by (simp add: times_agree_def)
  next
    case 3
    then have "snd p \<le> a" "a \<le> snd q" using assms(3,4) by blast+
    then show ?thesis by simp
  next
    case 4
    then have "fst q \<le> t" "t \<le> fst p" using assms(3,4) by blast+
    then show ?thesis using pq(3) by simp
  qed
qed

lemma add_speech_table:
  assumes "add_speech samples s len a b f = Some f1" "table_ok lo0 lo f" "lo0 \<le> lo" "lo \<le> a" "a \<le> b" "0 \<le> len"
  shows "table_ok lo0 b f1"
proof -
  define vs where "vs = samples_to_cs (f_offset f)"
  define ve where "ve = samples_to_cs (f_offset f + len)"
  define ys where "ys = [(vs, a), (ve, b)] @ intermediate_points vs ve a b"
  from assms(1) have f1: "f_map f1 = f_map f @ ys" "f_offset f1 = f_offset f + len"
    by (auto simp: add_speech_def Let_def vs_def ve_def ys_def)
  have ve: "vs \<le> ve" unfolding vs_def ve_def using assms(6) by (intro samples_to_cs_mono) simp
  have ys: "vs \<le> fst q \<and> fst q \<le> ve \<and> a \<le> snd q \<and> snd q \<le> b" if "q \<in> set ys" for q
    using that intermediate_points_between [of q vs ve a b] assms(5) ve by (auto simp: ys_def)
  have ag: "times_agree ys"
    unfolding times_agree_def
  proof (intro ballI impI)
    fix p q assume pq: "p \<in> set ys" "q \<in> set ys" "fst p < fst q"
    consider "p = (vs, a) \<or> q = (ve, b)" | "p = (ve, b) \<or> q = (vs, a)"
      | "p \<in> set (intermediate_points vs ve a b)" "q \<in> set (intermediate_points vs ve a b)"
      using pq(1,2) by (auto simp: ys_def)
    then show "snd p \<le> snd q"
    proof cases
      case 1
      then show ?thesis using ys [OF pq(1)] ys [OF pq(2)] by auto
    next
      case 2
      then show ?thesis using ys [OF pq(1)] ys [OF pq(2)] pq(3) by auto
    next
      case 3
      then show ?thesis using intermediate_points_agree [OF _ _ assms(5) pq(3)] by blast
    qed
  qed
  have "times_agree (f_map f @ ys)"
  proof (rule times_agree_append [where t = vs and a = lo])
    show "times_agree (f_map f)" "\<forall>p \<in> set (f_map f). fst p \<le> vs \<and> snd p \<le> lo"
      using assms(2) by (simp_all add: table_ok_def vs_def)
    show "\<forall>q \<in> set ys. vs \<le> fst q \<and> lo \<le> snd q" using ys assms(4) by (meson order.trans)
  qed (rule ag)
  moreover have "fst p \<le> ve \<and> lo0 \<le> snd p \<and> snd p \<le> b" if "p \<in> set (f_map f @ ys)" for p
    using that ys [of p] assms(2-5) ve by (fastforce simp: table_ok_def vs_def)
  ultimately show ?thesis by (simp add: table_ok_def f1 ve_def)
qed

lemma add_silence_table:
  assumes "add_silence b a' f = Some f1" "table_ok lo0 b f" "lo0 \<le> b" "b \<le> a'"
  shows "table_ok lo0 a' f1"
proof -
  let ?ys = "[(samples_to_cs (f_offset f), b), (samples_to_cs (f_offset f + silence_samples), a')]"
  from assms(1) have f1: "f_map f1 = f_map f @ ?ys" "f_offset f1 = f_offset f + silence_samples"
    by (auto simp: add_silence_def)
  have m: "samples_to_cs (f_offset f) \<le> samples_to_cs (f_offset f + silence_samples)"
    by (rule samples_to_cs_mono) (simp add: silence_samples_def)
  have "times_agree (f_map f @ ?ys)"
    by (rule times_agree_append [where t = "samples_to_cs (f_offset f)" and a = b])
      (use assms(2,4) m in \<open>auto simp: table_ok_def times_agree_def\<close>)
  with assms(2-4) m show ?thesis by (fastforce simp: table_ok_def f1)
qed

lemma filter_loop_table:
  "filter_loop ov samples segs f = Some f' \<Longrightarrow> table_ok lo0 lo f \<Longrightarrow> lo0 \<le> lo \<Longrightarrow> weakly_ordered lo hi segs \<Longrightarrow>
    table_ok lo0 hi f'"
proof (induction ov samples segs f arbitrary: lo rule: filter_loop.induct)
  case (1 ov samples f)
  then show ?case by (auto simp: table_ok_def)
next
  case (2 ov samples a b r f)
  define s where "s = min (cs_to_samples a) (int (length samples) - 1)"
  define e where "e = segment_end ov (int (length samples)) (r = []) b"
  have o: "lo \<le> a" "a \<le> b" "weakly_ordered b hi r" using "2.prems"(4) by simp_all
  show ?case
  proof (cases "e - s > 0")
    case True
    with "2.prems"(1) obtain f1 f2 where f1: "add_speech samples s (e - s) a b f = Some f1"
      and f2: "(if r \<noteq> [] then add_silence b (fst (hd r)) f1 else Some f1) = Some f2"
      and f': "filter_loop ov samples r f2 = Some f'"
      by (auto simp: Let_def s_def [symmetric] e_def [symmetric] split: option.splits)
    have t1: "table_ok lo0 b f1" using add_speech_table [OF f1 "2.prems"(2,3) o(1,2)] True by simp
    show ?thesis
    proof (cases r)
      case Nil
      then show ?thesis using f2 f' t1 o by (auto simp: table_ok_def)
    next
      case (Cons x r')
      obtain a' b' where x: "x = (a', b')" by (cases x)
      have b: "b \<le> a'" "weakly_ordered a' hi r" using o(3) by (simp_all add: Cons x)
      have "table_ok lo0 a' f2"
        using add_silence_table [OF _ t1, of a' f2] f2 b "2.prems"(3) o by (simp add: Cons x)
      then show ?thesis
        using "2.IH"(1) [OF s_def e_def True f1 f2 f', of a'] "2.prems"(3) b o by simp
    qed
  next
    case False
    with "2.prems"(1) have f': "filter_loop ov samples r f = Some f'" by (simp add: Let_def s_def e_def)
    have "table_ok lo0 b f" using "2.prems"(2) o by (auto simp: table_ok_def)
    then show ?thesis using "2.IH"(2) [OF s_def e_def False f', of b] "2.prems"(3) o by simp
  qed
qed

section \<open>Looking up a time\<close>

definition good_table :: "(int \<times> int) list \<Rightarrow> bool" where
  "good_table tb \<longleftrightarrow> sorted_wrt (\<lambda>p q. fst p < fst q \<and> snd p \<le> snd q) tb"

lemma unique_times_spec:
  "sorted (map fst ps) \<Longrightarrow> sorted_wrt (\<lambda>p q. fst p < fst q) (unique_times ps) \<and> set (unique_times ps) \<subseteq> set ps \<and>
    (ps \<noteq> [] \<longrightarrow> unique_times ps \<noteq> [])"
proof (induction ps rule: unique_times.induct)
  case (1 p q r)
  show ?case
  proof (cases "fst p = fst q")
    case True
    then have "sorted (map fst (p # r))" using "1.prems" by simp
    from "1.IH"(1) [OF True this] True show ?thesis by auto
  next
    case False
    have s: "sorted (map fst (q # r))" using "1.prems" by simp
    have "fst p < fst x" if "x \<in> set (q # r)" for x
    proof -
      have "fst p < fst q" "fst q \<le> fst x" using "1.prems" False that by auto
      then show ?thesis by simp
    qed
    with "1.IH"(2) [OF False s] False show ?thesis by auto
  qed
qed auto

lemma good_table_unique:
  assumes "times_agree ps" "sorts_times srt"
  shows "good_table (unique_times (srt ps)) \<and> set (unique_times (srt ps)) \<subseteq> set ps \<and>
    (ps \<noteq> [] \<longrightarrow> unique_times (srt ps) \<noteq> [])"
proof -
  have m: "mset (srt ps) = mset ps" "sorted (map fst (srt ps))" using assms(2) by (simp_all add: sorts_times_def)
  then have "set (srt ps) = set ps" "srt ps = [] \<longleftrightarrow> ps = []" by (metis set_mset_mset, metis mset_zero_iff)
  then have u: "sorted_wrt (\<lambda>p q. fst p < fst q) (unique_times (srt ps))"
    "set (unique_times (srt ps)) \<subseteq> set ps" "ps \<noteq> [] \<longrightarrow> unique_times (srt ps) \<noteq> []"
    using unique_times_spec [OF m(2)] by simp_all
  have "good_table (unique_times (srt ps))"
    unfolding good_table_def
    by (rule sorted_wrt_mono_rel [OF _ u(1)]) (use u(2) assms(1) in \<open>auto simp: times_agree_def\<close>)
  with u show ?thesis by simp
qed

lemma table_nth:
  assumes "good_table tb" "i \<le> j" "j < length tb"
  shows "fst (tb ! i) \<le> fst (tb ! j) \<and> snd (tb ! i) \<le> snd (tb ! j) \<and> (i < j \<longrightarrow> fst (tb ! i) < fst (tb ! j))"
proof (cases "i = j")
  case False
  then have "fst (tb ! i) < fst (tb ! j) \<and> snd (tb ! i) \<le> snd (tb ! j)"
    using sorted_wrt_nth_less [OF assms(1) [unfolded good_table_def], of i j] assms by simp
  then show ?thesis by simp
qed simp

text \<open>Between the ends of the table a time lies in one gap, and is interpolated there.\<close>

definition in_gap :: "(int \<times> int) list \<Rightarrow> nat \<Rightarrow> int \<Rightarrow> bool" where
  "in_gap tb k t \<longleftrightarrow> 0 < k \<and> k < length tb \<and> fst (tb ! (k - 1)) < t \<and> t \<le> fst (tb ! k)"

definition interpolate :: "int \<times> int \<Rightarrow> int \<times> int \<Rightarrow> int \<Rightarrow> int" where
  "interpolate p q t = snd p + (t - fst p) * (snd q - snd p) div (fst q - fst p)"

lemma lookup_gap:
  assumes g: "good_table tb" "tb \<noteq> []" and t: "fst (hd tb) < t" "t < fst (last tb)"
  obtains k where "in_gap tb k t" "map_processed_to_original_time t tb = interpolate (tb ! (k - 1)) (tb ! k) t"
proof -
  define k where "k = length (takeWhile (\<lambda>p. fst p < t) tb)"
  have "\<not> fst (last tb) < t" using t by simp
  then have k: "k < length tb" unfolding k_def using g(2)
    by (metis last_in_set length_takeWhile_le nat_less_le takeWhile_eq_all_conv takeWhile_eq_take take_all order.refl)
  have upper: "t \<le> fst (tb ! k)" using nth_length_takeWhile [of "\<lambda>p. fst p < t" tb] k by (simp add: k_def not_less)
  have "hd tb = tb ! 0" using g(2) by (rule hd_conv_nth)
  then have k0: "0 < k" using upper t(1) by (metis gr0I not_less)
  have lower: "fst (tb ! (k - 1)) < t"
    using set_takeWhileD [of "tb ! (k - 1)" "\<lambda>p. fst p < t" tb] nth_mem [of "k - 1" "takeWhile (\<lambda>p. fst p < t) tb"] k0
    by (simp add: k_def takeWhile_nth)
  have gap: "in_gap tb k t" using k k0 upper lower by (simp add: in_gap_def)
  let ?p = "tb ! (k - 1)" and ?q = "tb ! k"
  have le: "snd ?p \<le> snd ?q" "fst ?p < fst ?q" using table_nth [OF g(1), of "k - 1" k] k k0 by auto
  have "map_processed_to_original_time t tb = interpolate ?p ?q t"
  proof (cases "fst ?q = t")
    case True
    then have "(t - fst ?p) * (snd ?q - snd ?p) div (fst ?q - fst ?p) = snd ?q - snd ?p" using le by simp
    then show ?thesis using True t g(2)
      by (simp add: map_processed_to_original_time_def Let_def k_def [symmetric] interpolate_def)
  next
    case False
    have "0 \<le> (t - fst ?p) * (snd ?q - snd ?p)" using lower le by simp
    then show ?thesis using False t g(2) le
      by (simp add: map_processed_to_original_time_def Let_def k_def [symmetric] interpolate_def)
  qed
  with gap show ?thesis by (rule that)
qed

lemma interpolate_bounds:
  assumes "fst p < t" "t \<le> fst q" "snd p \<le> snd q"
  shows "snd p \<le> interpolate p q t" "interpolate p q t \<le> snd q"
proof -
  have "0 \<le> (t - fst p) * (snd q - snd p)" using assms by simp
  then show "snd p \<le> interpolate p q t" using assms by (simp add: interpolate_def pos_imp_zdiv_nonneg_iff)
  have "(t - fst p) * (snd q - snd p) \<le> (fst q - fst p) * (snd q - snd p)" using assms by (intro mult_right_mono) auto
  then have "(t - fst p) * (snd q - snd p) div (fst q - fst p) \<le> (fst q - fst p) * (snd q - snd p) div (fst q - fst p)"
    using assms by (intro zdiv_mono1) auto
  then show "interpolate p q t \<le> snd q" using assms by (simp add: interpolate_def)
qed

lemma interpolate_mono:
  assumes "fst p < t" "t \<le> t'" "t' \<le> fst q" "snd p \<le> snd q"
  shows "interpolate p q t \<le> interpolate p q t'"
proof -
  have "(t - fst p) * (snd q - snd p) \<le> (t' - fst p) * (snd q - snd p)" using assms by (intro mult_right_mono) auto
  then show ?thesis using assms by (simp add: interpolate_def zdiv_mono1)
qed

lemma lookup_mono:
  assumes g: "good_table tb" "tb \<noteq> []" and t: "t \<le> t'"
  shows "map_processed_to_original_time t tb \<le> map_processed_to_original_time t' tb"
    "snd (hd tb) \<le> map_processed_to_original_time t tb" "map_processed_to_original_time t tb \<le> snd (last tb)"
proof -
  let ?m = "\<lambda>t. map_processed_to_original_time t tb"
  have hl: "hd tb = tb ! 0" "last tb = tb ! (length tb - 1)" using g(2) by (simp_all add: hd_conv_nth last_conv_nth)
  have e: "fst (hd tb) \<le> fst (last tb)" "snd (hd tb) \<le> snd (last tb)"
    using table_nth [OF g(1), of 0 "length tb - 1"] g(2) by (simp_all add: hl)
  have gap: "snd (tb ! (k - 1)) \<le> interpolate (tb ! (k - 1)) (tb ! k) t \<and> interpolate (tb ! (k - 1)) (tb ! k) t \<le> snd (tb ! k) \<and>
      snd (hd tb) \<le> snd (tb ! (k - 1)) \<and> snd (tb ! k) \<le> snd (last tb)" if "in_gap tb k t" for k t
    using that interpolate_bounds [of "tb ! (k - 1)" t "tb ! k"] table_nth [OF g(1), of "k - 1" k]
      table_nth [OF g(1), of 0 "k - 1"] table_nth [OF g(1), of k "length tb - 1"]
    by (auto simp: in_gap_def hl)
  have range: "snd (hd tb) \<le> ?m t \<and> ?m t \<le> snd (last tb)" for t
  proof (cases "fst (hd tb) < t \<and> t < fst (last tb)")
    case True
    then obtain k where "in_gap tb k t" "?m t = interpolate (tb ! (k - 1)) (tb ! k) t" using lookup_gap [OF g] by blast
    with gap show ?thesis by force
  qed (use g(2) e in \<open>auto simp: map_processed_to_original_time_def\<close>)
  then show "snd (hd tb) \<le> ?m t" "?m t \<le> snd (last tb)" by blast+
  show "?m t \<le> ?m t'"
  proof (cases "fst (hd tb) < t \<and> t' < fst (last tb)")
    case False
    show ?thesis
    proof (cases "t \<le> fst (hd tb)")
      case True
      then have "?m t = snd (hd tb)" using g(2) by (simp add: map_processed_to_original_time_def)
      then show ?thesis using range [of t'] by simp
    next
      case lo: False
      with False t e have "\<not> t' \<le> fst (hd tb)" "fst (last tb) \<le> t'" by auto
      then have "?m t' = snd (last tb)" using g(2) by (simp add: map_processed_to_original_time_def)
      then show ?thesis using range [of t] by simp
    qed
  next
    case True
    with t have tt: "fst (hd tb) < t" "t < fst (last tb)" "fst (hd tb) < t'" "t' < fst (last tb)" by simp_all
    obtain k where k: "in_gap tb k t" "?m t = interpolate (tb ! (k - 1)) (tb ! k) t"
      by (rule lookup_gap [OF g tt(1,2)])
    obtain k' where k': "in_gap tb k' t'" "?m t' = interpolate (tb ! (k' - 1)) (tb ! k') t'"
      by (rule lookup_gap [OF g tt(3,4)])
    consider "k < k'" | "k = k'" | "k' < k" by linarith
    then show ?thesis
    proof cases
      case 1
      then have "k \<le> k' - 1" "k' - 1 < length tb" using k'(1) by (auto simp: in_gap_def)
      then have "snd (tb ! k) \<le> snd (tb ! (k' - 1))" using table_nth [OF g(1)] by blast
      then show ?thesis using gap [OF k(1)] gap [OF k'(1)] k(2) k'(2) by linarith
    next
      case 2
      have "snd (tb ! (k - 1)) \<le> snd (tb ! k)" using table_nth [OF g(1), of "k - 1" k] k by (simp add: in_gap_def)
      then show ?thesis using interpolate_mono [of "tb ! (k - 1)" t t' "tb ! k"] k k' t 2 by (simp add: in_gap_def)
    next
      case 3
      then have "k' \<le> k - 1" "k - 1 < length tb" using k(1) by (auto simp: in_gap_def)
      then have "fst (tb ! k') \<le> fst (tb ! (k - 1))" using table_nth [OF g(1)] by blast
      then show ?thesis using k k' t by (simp add: in_gap_def)
    qed
  qed
qed

section \<open>What \<open>whisper_vad\<close> promises\<close>

definition detected :: "'s vad_env \<Rightarrow> whisper_vad_params \<Rightarrow> real list \<Rightarrow> vad_state \<Rightarrow> (int \<times> int) list" where
  "detected v ps samples st =
    whisper_vad_segments_from_probs ps (int (v_window v)) (snd (whisper_vad_detect_speech v samples (vad_probs st)))"

definition vad_ready :: "'s vad_env \<Rightarrow> vad_state \<Rightarrow> bool" where
  "vad_ready v st \<longleftrightarrow> (vad_loaded st \<or> v_init_ok v) \<and> v_alloc_ok v"

lemma whisper_vad_ready:
  assumes "vad_ready v st"
  shows "detected v ps samples st = [] \<Longrightarrow>
      \<exists>st'. whisper_vad v ps samples st = Some (True, st', []) \<and> \<not> has_vad_segments st'"
    and "detected v ps samples st \<noteq> [] \<Longrightarrow> whisper_vad v ps samples st =
      (let segs = detected v ps samples st; ov = overlap_samples ps;
           total = total_samples_needed ov (int (length samples)) segs
       in if total < 0 then None
          else map_option
            (\<lambda>f. (True,
                  st\<lparr>vad_loaded := True, vad_probs := snd (whisper_vad_detect_speech v samples (vad_probs st)),
                     has_vad_segments := True, vad_infos := f_infos f,
                     vad_mapping_table := unique_times (v_sort v (f_map f))\<rparr>,
                  f_buf f))
            (filter_loop ov samples segs \<lparr>f_offset = 0, f_buf = replicate (nat total) 0, f_map = [], f_infos = []\<rparr>))"
  using assms
  by (auto simp: whisper_vad_def whisper_vad_segments_from_samples_def detected_def vad_ready_def
      whisper_vad_detect_speech_def Let_def)

lemma overlap_nonneg: "0 \<le> samples_overlap ps \<Longrightarrow> 0 \<le> overlap_samples ps"
  by (simp add: overlap_samples_def WHISPER_SAMPLE_RATE_def Let_def)

lemma whisper_vad_speech:
  assumes "vad_ready v st" "detected v ps samples st \<noteq> []" "0 \<le> samples_overlap ps"
    and "list_all (segment_inside (int (length samples))) (detected v ps samples st)"
  shows "\<exists>st'. whisper_vad v ps samples st =
      Some (True, st', speech_audio (overlap_samples ps) samples (detected v ps samples st)) \<and> has_vad_segments st'"
proof -
  let ?segs = "detected v ps samples st" and ?ov = "overlap_samples ps"
  let ?total = "total_samples_needed ?ov (int (length samples)) ?segs"
  let ?f = "\<lparr>f_offset = 0, f_buf = replicate (nat ?total) 0, f_map = [], f_infos = []\<rparr>"
  have ov: "0 \<le> ?ov" using assms(3) by (rule overlap_nonneg)
  obtain f' where "filter_loop ?ov samples ?segs ?f = Some f'" "f_buf f' = speech_audio ?ov samples ?segs"
    using filter_loop_audio [OF ov assms(4), of ?f "[]"] by auto
  moreover have "\<not> ?total < 0" using total_samples_nonneg [OF assms(4) ov] by simp
  ultimately show ?thesis unfolding whisper_vad_ready(2) [OF assms(1,2)] Let_def by auto
qed

text \<open>The segments are long enough to survive rounding, and start inside of the audio.\<close>

definition wide :: "int \<Rightarrow> int \<Rightarrow> int \<times> int \<Rightarrow> bool" where
  "wide l m = (\<lambda>(a, b). 0 \<le> a \<and> l \<le> b - a \<and> a \<le> m)"

lemma wide_pad_loop:
  "0 \<le> pad \<Longrightarrow> 0 \<le> lo \<Longrightarrow> ordered lo len xs \<Longrightarrow> list_all (wide l m) xs \<Longrightarrow> list_all (wide l m) (pad_loop pad len xs)"
proof (induction pad len xs arbitrary: lo rule: pad_loop.induct)
  case (1 pad len a b c d r)
  define q where "q = cdiv (c - b) 2"
  have q: "0 \<le> q" using "1.prems"(3) by (simp add: q_def)
  have st: "wide l m (pad_start k c, d)" if "0 \<le> k" for k
    using that "1.prems"(4) by (auto simp: wide_def pad_start_def)
  have o: "ordered 0 len ((pad_start k c, d) # r)" if "0 \<le> k" for k
    using that "1.prems"(2,3) by (auto simp: pad_start_def)
  show ?case
  proof (cases "c - b < 2 * pad")
    case True
    have "list_all (wide l m) (pad_loop pad len ((pad_start q c, d) # r))"
      by (rule "1.IH"(1) [OF refl True "1.prems"(1) order.refl, folded q_def, OF o]) (use q st "1.prems"(4) in simp_all)
    then show ?thesis using True q "1.prems"(4) by (auto simp: Let_def q_def wide_def)
  next
    case False
    have "list_all (wide l m) (pad_loop pad len ((pad_start pad c, d) # r))"
      by (rule "1.IH"(2) [OF refl False "1.prems"(1) order.refl o]) (use st "1.prems" in simp_all)
    moreover have "b \<le> len" using "1.prems"(3) ordered_le by fastforce
    ultimately show ?thesis using False "1.prems"(1,4) by (auto simp: Let_def wide_def pad_end_def)
  qed
next
  case (2 pad len a b)
  then show ?case by (auto simp: wide_def pad_end_def)
qed simp

lemma wide_pad_speeches:
  assumes "0 \<le> pad" "ordered 0 len xs" "list_all (wide l m) xs"
  shows "list_all (wide l m) (pad_speeches pad len xs)"
proof (cases xs)
  case (Cons x r)
  obtain a b where x: "x = (a, b)" by (cases x)
  have "ordered 0 len ((pad_start pad a, b) # r)" "list_all (wide l m) ((pad_start pad a, b) # r)"
    using assms by (auto simp: Cons x pad_start_def wide_def)
  from wide_pad_loop [OF assms(1) order.refl this] show ?thesis by (simp add: Cons x pad_speeches_def)
qed (simp add: pad_speeches_def)

lemma ordered_bounds: "ordered lo hi xs \<Longrightarrow> (a, b) \<in> set xs \<Longrightarrow> lo \<le> a \<and> b \<le> hi"
proof (induction lo hi xs rule: ordered.induct)
  case (2 lo hi c d r)
  then show ?case using ordered_le [of d hi r] by auto
qed simp

lemma samples_to_cs_bounds: "160 * samples_to_cs x \<le> x + 80" "x < 160 * samples_to_cs x + 80"
proof -
  have e: "of_int x / of_int WHISPER_SAMPLE_RATE * 100 = (of_int x / 160 :: real)" by (simp add: WHISPER_SAMPLE_RATE_def)
  have "of_int (samples_to_cs x) \<le> of_int x / 160 + (1 / 2 :: real)" "of_int x / 160 + (1 / 2 :: real) < of_int (samples_to_cs x) + 1"
    unfolding samples_to_cs_def e by linarith+
  then have "of_int (160 * samples_to_cs x) \<le> (of_int (x + 80) :: real)" "(of_int x :: real) < of_int (160 * samples_to_cs x + 80)"
    by simp_all
  then show "160 * samples_to_cs x \<le> x + 80" "x < 160 * samples_to_cs x + 80" by linarith+
qed

lemma detected_inside:
  assumes "0 < v_window v" "1 / 100 \<le> threshold ps" "0 \<le> speech_pad_ms ps"
    and "int (v_window v) + 160 < ms_to_samples (min_speech_duration_ms ps)"
  shows "list_all (segment_inside (int (length samples))) (detected v ps samples st)"
proof -
  let ?n = "n_chunks (v_window v) (length samples)"
  define probs where "probs = snd (whisper_vad_detect_speech v samples (vad_probs st))"
  define L where "L = ms_to_samples (min_speech_duration_ms ps)"
  define len where "len = int (length probs) * int (v_window v)"
  have "length probs = ?n" unfolding probs_def by (rule length_detected)
  then have n: "len < int (length samples) + int (v_window v)"
    using n_chunks_bounds(2) [OF assms(1), of "length samples"] unfolding len_def
    by (metis of_nat_add of_nat_less_iff of_nat_mult)
  have o: "ordered 0 len (vad_speeches ps (int (v_window v)) probs)"
    using ordered_speeches [OF _ assms(2)] assms(1) unfolding len_def by simp
  have pad: "0 \<le> ms_to_samples (speech_pad_ms ps)" using assms(3) by (simp add: ms_to_samples_def WHISPER_SAMPLE_RATE_def)
  have "list_all (wide L (len - L)) (vad_speeches ps (int (v_window v)) probs)"
  proof -
    have "L \<le> b - a" if "(a, b) \<in> set (vad_speeches ps (int (v_window v)) probs)" for a b
      using that by (auto simp: vad_speeches_def Let_def drop_short_def L_def)
    with ordered_bounds [OF o] show ?thesis by (fastforce simp: list_all_iff wide_def)
  qed
  from wide_pad_speeches [OF pad o this]
  have w: "list_all (wide L (len - L)) (pad_speeches (ms_to_samples (speech_pad_ms ps)) len (vad_speeches ps (int (v_window v)) probs))" .
  have "segment_inside (int (length samples)) (samples_to_cs x, samples_to_cs y)" if "wide L (len - L) (x, y)" for x y
  proof -
    have xy: "0 \<le> x" "x + 160 < y" "x \<le> len - L" "int (v_window v) + 160 < L"
      using that assms(4) by (simp_all add: wide_def L_def)
    have "0 \<le> samples_to_cs x" "samples_to_cs x < samples_to_cs y" "160 * samples_to_cs x < int (length samples) - 1"
      using samples_to_cs_bounds [of x] samples_to_cs_bounds [of y] xy n by linarith+
    then show ?thesis by (simp add: segment_inside_def)
  qed
  with w show ?thesis
    unfolding detected_def whisper_vad_segments_from_probs_def Let_def probs_def [symmetric] len_def [symmetric]
    by (auto simp: list_all_iff)
qed

text \<open>C11: For any detector the audio handed to the transcription consists of exactly the samples of the speech
  segments, each but the last one with the overlap behind it, and 0.1 s of silence between them: the buffer
  is neither overrun nor left partly unused.  The minimum duration of speech must exceed a window and a hundredth
  of a second, so that rounding leaves no segment empty or behind the end.\<close>

theorem vad_audio_exact:
  assumes "0 < v_window v" "1 / 100 \<le> threshold ps" "0 \<le> speech_pad_ms ps"
    and "int (v_window v) + 160 < ms_to_samples (min_speech_duration_ms ps)"
    and "vad_ready v st" "detected v ps samples st \<noteq> []" "0 \<le> samples_overlap ps"
  shows "\<exists>st'. whisper_vad v ps samples st =
      Some (True, st', speech_audio (overlap_samples ps) samples (detected v ps samples st)) \<and> has_vad_segments st'"
  by (rule whisper_vad_speech [OF assms(5-7) detected_inside [OF assms(1-4)]])

text \<open>C12: Whatever the probabilities are, the times of the filtered audio are mapped back without changing their
  order: segments in order keep ordered starts and ends.  A segment that is read out has at least the minimum
  duration of 100 ms and lies in the recording padded to whole windows of the detector: its start is not behind
  the end of the padded recording, so at most one window behind the recording, and its end at most 100 ms later.\<close>

theorem vad_times_monotone:
  assumes "0 < v_window v" "1 / 100 \<le> threshold ps" "0 \<le> speech_pad_ms ps"
    and "vad_ready v st" "whisper_vad v ps samples st = Some (True, st', audio)" "has_vad_segments st'"
    and "sorts_times (v_sort v)"
  shows "(\<forall>t t'. t \<le> t' \<longrightarrow> segment_t0 st' t \<le> segment_t0 st' t') \<and>
    (\<forall>t t' u u'. t \<le> t' \<and> u \<le> u' \<longrightarrow> segment_t1 st' t u \<le> segment_t1 st' t' u') \<and>
    (vad_mapping_table st' \<noteq> [] \<longrightarrow>
       (\<forall>t u. segment_t0 st' t \<in> {0..samples_to_cs (int (n_chunks (v_window v) (length samples) * v_window v))} \<and>
              segment_t0 st' t + 10 \<le> segment_t1 st' t u \<and>
              segment_t1 st' t u \<le> samples_to_cs (int (n_chunks (v_window v) (length samples) * v_window v)) + 10)) \<and>
    n_chunks (v_window v) (length samples) * v_window v < length samples + v_window v"
proof -
  let ?segs = "detected v ps samples st" and ?n = "n_chunks (v_window v) (length samples)"
  define hi where "hi = samples_to_cs (int (?n * v_window v))"
  have ne: "?segs \<noteq> []" using whisper_vad_ready(1) [OF assms(4)] assms(5,6) by fastforce
  from assms(5) obtain f f0 where f: "filter_loop (overlap_samples ps) samples ?segs f0 = Some f"
    "f_map f0 = []" "vad_mapping_table st' = unique_times (v_sort v (f_map f))"
    unfolding whisper_vad_ready(2) [OF assms(4) ne] Let_def by (auto split: if_splits)
  have "length (snd (whisper_vad_detect_speech v samples (vad_probs st))) = ?n" by (rule length_detected)
  then have w: "weakly_ordered 0 hi ?segs"
    using segments_weakly_ordered [OF _ assms(2,3)] assms(1) unfolding detected_def hi_def
    by (metis of_nat_0_less_iff of_nat_mult)
  have "table_ok 0 0 f0" using f(2) by (simp add: table_ok_def times_agree_def)
  then have tb: "table_ok 0 hi f" using filter_loop_table [OF f(1) _ order.refl w] by blast
  note g = good_table_unique [OF _ assms(7), of "f_map f", folded f(3)]
  have good: "good_table (vad_mapping_table st')" using g tb by (simp add: table_ok_def)
  have m: "segment_t0 st' t = (if vad_mapping_table st' = [] then t else map_processed_to_original_time t (vad_mapping_table st'))" for t
    using assms(6) by (simp add: segment_t0_def)
  have mono: "segment_t0 st' t \<le> segment_t0 st' t'" if "t \<le> t'" for t t'
    using lookup_mono(1) [OF good _ that] that by (simp add: m)
  have t1: "segment_t1 st' t u = (if vad_mapping_table st' = [] then u else max (segment_t0 st' u) (segment_t0 st' t + 10))"
    for t u using assms(6) by (simp add: segment_t1_def segment_t0_def Let_def)
  have "segment_t1 st' t u \<le> segment_t1 st' t' u'" if "t \<le> t'" "u \<le> u'" for t t' u u'
    using mono [OF that(1)] mono [OF that(2)] that(2) by (auto simp: t1)
  moreover have t0: "segment_t0 st' t \<in> {0..hi}" if ne: "vad_mapping_table st' \<noteq> []" for t
  proof -
    have "hd (vad_mapping_table st') \<in> set (f_map f)" "last (vad_mapping_table st') \<in> set (f_map f)"
      using g tb ne by (auto simp: table_ok_def)
    then have "0 \<le> snd (hd (vad_mapping_table st'))" "snd (last (vad_mapping_table st')) \<le> hi"
      using tb by (simp_all add: table_ok_def)
    then show ?thesis using lookup_mono(2,3) [OF good ne, of t t] ne by (simp add: m)
  qed
  moreover have "segment_t0 st' t + 10 \<le> segment_t1 st' t u" if "vad_mapping_table st' \<noteq> []" for t u
    using that by (simp add: t1)
  moreover have "segment_t1 st' t u \<le> hi + 10" if "vad_mapping_table st' \<noteq> []" for t u
    using that t0 [OF that, of t] t0 [OF that, of u] by (simp add: t1)
  moreover have "?n * v_window v < length samples + v_window v" by (rule n_chunks_bounds(2) [OF assms(1)])
  ultimately show ?thesis using mono unfolding hi_def [symmetric] by blast
qed

section \<open>An example\<close>

text \<open>A detector that hears speech in its second and third window, on five windows of half a second.\<close>

definition demo_vad :: "nat vad_env" where
  "demo_vad = \<lparr>v_init_ok = True, v_alloc_ok = True, v_step_ok = (\<lambda>_. True),
     v_net = (\<lambda>k c. (if k = 1 \<or> k = 2 then 1 else 0, k + 1)), v_zero = 0, v_window = 8000, v_sort = sort_key fst\<rparr>"

definition demo_params_vad :: whisper_vad_params where
  "demo_params_vad = whisper_vad_default_params\<lparr>min_speech_duration_ms := 520\<rparr>"

definition demo_samples :: "real list" where "demo_samples = replicate 40000 (1 / 2)"

definition fresh_vad :: vad_state where
  "fresh_vad = \<lparr>vad_loaded = False, vad_probs = [], vad_infos = [], has_vad_segments = False, vad_mapping_table = []\<rparr>"

lemma demo_probs: "whisper_vad_detect_speech demo_vad demo_samples old = (True, [0, 1, 1, 0, 0])"
proof -
  have "n_chunks (v_window demo_vad) (length demo_samples) = 5" by (simp add: n_chunks_def demo_vad_def demo_samples_def)
  then show ?thesis
    using detect_loop_runs [of demo_vad "resize_probs 5 old" 0 5 demo_samples "v_zero demo_vad"]
    by (simp add: whisper_vad_detect_speech_def demo_vad_def resize_probs_def upt_rec)
qed

lemma demo_detected: "detected demo_vad demo_params_vad demo_samples fresh_vad = [(47, 153)]"
proof -
  have "whisper_vad_segments_from_probs demo_params_vad 8000 [0, 1, 1, 0, 0] = [(47, 153)]" by code_simp
  then show ?thesis by (simp add: detected_def demo_probs) (simp add: demo_vad_def)
qed

lemma demo_ready: "vad_ready demo_vad fresh_vad"
  by (simp add: vad_ready_def demo_vad_def)

lemma demo_params: "0 \<le> samples_overlap demo_params_vad" "1 / 100 \<le> threshold demo_params_vad"
  "0 \<le> speech_pad_ms demo_params_vad"
    "int (v_window demo_vad) + 160 < ms_to_samples (min_speech_duration_ms demo_params_vad)" "0 < v_window demo_vad"
  by (simp_all add: demo_params_vad_def whisper_vad_default_params_def demo_vad_def ms_to_samples_def WHISPER_SAMPLE_RATE_def)

theorem vad_detect_windows_witness:
  "snd (whisper_vad_detect_speech demo_vad demo_samples [7, 7, 7, 7, 7, 7]) =
    run_net (v_net demo_vad) 0 (map (chunk_at 8000 demo_samples) [0..<5])"
  using vad_detect_windows [of demo_vad demo_samples "[7, 7, 7, 7, 7, 7]"]
  by (simp add: demo_vad_def n_chunks_def demo_samples_def)

theorem vad_audio_exact_witness:
  "\<exists>st'. whisper_vad demo_vad demo_params_vad demo_samples fresh_vad =
     Some (True, st', clip 1600 demo_samples True 47 153)"
proof -
  have "overlap_samples demo_params_vad = 1600"
    by (simp add: overlap_samples_def WHISPER_SAMPLE_RATE_def demo_params_vad_def whisper_vad_default_params_def)
  with vad_audio_exact [OF demo_params(5,2-4) demo_ready _ demo_params(1), of demo_samples] show ?thesis by (auto simp: demo_detected)
qed

theorem vad_times_monotone_witness:
  "\<exists>st' audio. whisper_vad demo_vad demo_params_vad demo_samples fresh_vad = Some (True, st', audio) \<and>
     segment_t0 st' 20 \<le> segment_t0 st' 30"
proof -
  obtain st' audio where w: "whisper_vad demo_vad demo_params_vad demo_samples fresh_vad = Some (True, st', audio)"
    "has_vad_segments st'"
    using whisper_vad_speech [OF demo_ready _ demo_params(1) detected_inside [OF demo_params(5,2-4)], of demo_samples] by (auto simp: demo_detected)
  have "sorts_times (v_sort demo_vad)" by (simp add: sorts_times_def demo_vad_def)
  from vad_times_monotone [OF demo_params(5,2,3) demo_ready w this] w(1) show ?thesis by auto
qed

end
