(* ===== verification/Whisper_Full.thy ===== *)
theory Whisper_Full
  imports Full_Correct Vad_Filter
begin

text \<open>
  \<open>whisper_full\<close>, which filters the audio by voice detection before it is transcribed, and
  \<open>whisper_full_parallel\<close>, which transcribes pieces of the audio on states of their own and joins their results.

  The workers of a parallel call only share the model, which they read; each is a call of
  \<open>whisper_full_with_state\<close> with an environment of its own.  A signed overflow is \<open>Crashed\<close>.
\<close>

section \<open>A whole recording\<close>

definition clear_results :: "whisper_state \<Rightarrow> whisper_state" where
  "clear_results st = st\<lparr>st_out := (st_out st)\<lparr>result_all := []\<rparr>\<rparr>"

definition whisper_full ::
  "nat \<Rightarrow> full_env \<Rightarrow> 's vad_env \<Rightarrow> whisper_context \<Rightarrow> whisper_full_params \<Rightarrow> real list \<Rightarrow> whisper_state \<Rightarrow> vad_state \<Rightarrow>
   full_result \<times> vad_state" where
  "whisper_full fuel e v c ps samples st vst =
    (if vad_enabled ps then
       (case whisper_vad v (vad_params ps) samples vst of
          None \<Rightarrow> (Crashed, vst)
        | Some (ok, vst', audio) \<Rightarrow>
            (if \<not> ok then (Failed (-1) (st_out st), vst')
             else if audio = [] then (Returned 0 (clear_results st), vst')
             else (whisper_full_with_state fuel e c ps audio st, vst')))
     else (whisper_full_with_state fuel e c ps samples st, vst))"

section \<open>Parallel transcription\<close>

definition chunk_of :: "real list \<Rightarrow> int \<Rightarrow> int \<Rightarrow> real list option" where
  "chunk_of samples start len =
    (if len \<le> 0 then Some []
     else if 0 \<le> start \<and> start + len \<le> int (length samples) then Some (take (nat len) (drop (nat start) samples))
     else None)"

definition worker_start :: "int \<Rightarrow> int \<Rightarrow> nat \<Rightarrow> int" where
  "worker_start offset_samples nspp i = offset_samples + (int i + 1) * nspp"

definition worker_length :: "int \<Rightarrow> int \<Rightarrow> int \<Rightarrow> nat \<Rightarrow> nat \<Rightarrow> int" where
  "worker_length n offset_samples nspp n_processors i =
    (if int i = int n_processors - 2 then n - worker_start offset_samples nspp i else nspp)"

text \<open>The segments a call leaves behind, also when it fails.\<close>

definition out_of :: "full_result \<Rightarrow> out_state option" where
  "out_of r = (case r of Returned _ st \<Rightarrow> Some (st_out st) | Failed _ out \<Rightarrow> Some out | _ \<Rightarrow> None)"

text \<open>The parameters of a worker: it starts at the beginning of its piece and reports nothing.\<close>

definition worker_params :: "whisper_full_params \<Rightarrow> whisper_full_params" where
  "worker_params ps = ps\<lparr>offset_ms := 0, new_segment_callback := False\<rparr>"

definition run_worker ::
  "nat \<Rightarrow> full_env \<Rightarrow> whisper_context \<Rightarrow> whisper_full_params \<Rightarrow> real list option \<Rightarrow> whisper_state option \<Rightarrow> out_state option"
where
  "run_worker fuel e c ps chunk st =
    (case (chunk, st) of
       (Some ch, Some st0) \<Rightarrow> out_of (whisper_full_with_state fuel e c (worker_params ps) ch st0)
     | _ \<Rightarrow> None)"

definition append_result :: "bool \<Rightarrow> int \<Rightarrow> whisper_segment \<Rightarrow> out_state \<Rightarrow> out_state" where
  "append_result callback shift seg s =
    (let t0 = seg_t0 seg + shift; t1 = seg_t1 seg + shift;
         t0' = (if result_all s \<noteq> [] then max t0 (seg_t1 (last (result_all s))) else t0)
     in s\<lparr>result_all := result_all s @ [seg\<lparr>seg_t0 := t0', seg_t1 := t1\<rparr>],
           notified := notified s @ (if callback then [1] else [])\<rparr>)"

text \<open>The shift of the segments of a worker; the product is an \<open>int\<close>.\<close>

definition worker_shift :: "int \<Rightarrow> int \<Rightarrow> nat \<Rightarrow> int option" where
  "worker_shift nspp offs i =
    map_option (\<lambda>x. cdiv x WHISPER_SAMPLE_RATE + cdiv offs 10) (i32 (100 * ((int i + 1) * nspp)))"

fun combine_results :: "bool \<Rightarrow> int \<Rightarrow> int \<Rightarrow> nat \<Rightarrow> whisper_segment list list \<Rightarrow> out_state \<Rightarrow> out_state option" where
  "combine_results callback nspp offs i [] s = Some s"
| "combine_results callback nspp offs i (segs # r) s =
    (if segs = [] then combine_results callback nspp offs (i + 1) r s
     else
       (case worker_shift nspp offs i of
          None \<Rightarrow> None
        | Some shift \<Rightarrow> combine_results callback nspp offs (i + 1) r (foldl (\<lambda>s seg. append_result callback shift seg s) s segs)))"

definition full_parallel_core ::
  "nat \<Rightarrow> full_env \<Rightarrow> (nat \<Rightarrow> full_env) \<Rightarrow> (nat \<Rightarrow> whisper_state option) \<Rightarrow> whisper_context \<Rightarrow> whisper_full_params \<Rightarrow> real list \<Rightarrow>
   whisper_state \<Rightarrow> nat \<Rightarrow> full_result" where
  "full_parallel_core fuel e we init c ps samples st n_processors =
    (case i32 (WHISPER_SAMPLE_RATE * offset_ms ps) of
       None \<Rightarrow> Crashed
     | Some x \<Rightarrow>
         (let n = int (length samples); offset_samples = cdiv x 1000;
              nspp = cdiv (n - offset_samples) (int n_processors)
          in case those (map (\<lambda>i. run_worker fuel (we i) c ps
                                    (chunk_of samples (worker_start offset_samples nspp i)
                                       (worker_length n offset_samples nspp n_processors i)) (init i))
                           [0..<n_processors - 1]) of
               None \<Rightarrow> Crashed
             | Some outs \<Rightarrow>
                 (case chunk_of samples 0 (offset_samples + nspp) of
                    None \<Rightarrow> Crashed
                  | Some ch \<Rightarrow>
                      (let r = whisper_full_with_state fuel e c ps ch st;
                           join = combine_results (new_segment_callback ps) nspp (offset_ms ps) 0 (map result_all outs)
                       in case r of
                            Returned ret st' \<Rightarrow>
                              (case join (st_out st') of None \<Rightarrow> Crashed | Some out \<Rightarrow> Returned ret (st'\<lparr>st_out := out\<rparr>))
                          | Failed err out0 \<Rightarrow> (case join out0 of None \<Rightarrow> Crashed | Some out \<Rightarrow> Failed err out)
                          | _ \<Rightarrow> r))))"

text \<open>When there is no speech, this function leaves the segments of an earlier call in place.\<close>

definition whisper_full_parallel ::
  "nat \<Rightarrow> full_env \<Rightarrow> (nat \<Rightarrow> full_env) \<Rightarrow> (nat \<Rightarrow> whisper_state option) \<Rightarrow> 's vad_env \<Rightarrow> whisper_context \<Rightarrow> whisper_full_params \<Rightarrow>
   real list \<Rightarrow> whisper_state \<Rightarrow> vad_state \<Rightarrow> nat \<Rightarrow> full_result \<times> vad_state" where
  "whisper_full_parallel fuel e we init v c ps samples st vst n_processors =
    (if n_processors = 1 then whisper_full fuel e v c ps samples st vst
     else if n_processors = 0 then (Crashed, vst)
     else if vad_enabled ps then
       (case whisper_vad v (vad_params ps) samples vst of
          None \<Rightarrow> (Crashed, vst)
        | Some (ok, vst', audio) \<Rightarrow>
            (if \<not> ok then (Failed (-1) (st_out st), vst')
             else if audio = [] then (Returned 0 st, vst')
             else (full_parallel_core fuel e we init c ps audio st n_processors, vst')))
     else (full_parallel_core fuel e we init c ps samples st n_processors, vst))"

section \<open>A call always returns\<close>

lemma whisper_vad_some:
  assumes "0 < v_window v" "1 / 100 \<le> threshold ps" "0 \<le> speech_pad_ms ps"
    and "int (v_window v) + 160 < ms_to_samples (min_speech_duration_ms ps)" "0 \<le> samples_overlap ps"
  shows "whisper_vad v ps samples st \<noteq> None"
proof (cases "vad_ready v st")
  case True
  then show ?thesis
    using whisper_vad_ready(1) [OF True] whisper_vad_speech [OF True _ assms(5) detected_inside [OF assms(1-4)]]
    by (cases "detected v ps samples st = []") (metis option.distinct(1))+
next
  case False
  then show ?thesis
    by (auto simp: whisper_vad_def vad_ready_def whisper_vad_segments_from_samples_def whisper_vad_detect_speech_def Let_def)
qed

text \<open>C10: A call of \<open>whisper_full\<close> returns 0 or a documented error, with or without voice detection, for any recording
  and whatever the detector and the networks find.  The conditions: the model is well formed (every token has
  a text, the blank is known) and the networks give a number for every token; there is no grammar, no user
  filter, no suppression by a regular expression or of non-speech tokens, no carried prompt and no printing of
  special tokens, and a beam has a size; either the temperature is not raised or it starts at most at 1; the
  offset is not negative; the fuel covers the length of the audio.  With voice detection, its threshold is at
  least 0.01, padding and overlap are not negative, and the shortest accepted speech lasts more than a window
  of the detector and 160 samples: with a shorter minimum a segment may start behind the end of the recording,
  and the code writes outside the buffer it computes at the start of \<open>whisper_vad\<close>.\<close>

theorem whisper_full_returns:
  assumes "context_ok c" and "params_ok ps" and "env_ok e c"
    and "temperature_inc ps \<le> 0 \<or> temperature ps \<le> 1" and "0 \<le> offset_ms ps"
    and "length (st_decoders st) = 8" and "0 < fuel"
    and "max (st_n_len_org st) (max (e_mel_len e) (duration_ms ps)) \<le> int fuel"
    and vad: "vad_enabled ps \<Longrightarrow> 0 < v_window v \<and> 1 / 100 \<le> threshold (vad_params ps) \<and> 0 \<le> speech_pad_ms (vad_params ps) \<and>
      int (v_window v) + 160 < ms_to_samples (min_speech_duration_ms (vad_params ps)) \<and> 0 \<le> samples_overlap (vad_params ps)"
  shows "(\<exists>st'. fst (whisper_full fuel e v c ps samples st vst) = Returned 0 st') \<or>
    (\<exists>err \<in> {-9..-1}. \<exists>out. fst (whisper_full fuel e v c ps samples st vst) = Failed err out)"
proof -
  have w: "(\<exists>st'. whisper_full_with_state fuel e c ps xs st = Returned 0 st') \<or>
      (\<exists>err \<in> {-9..-1}. \<exists>out. whisper_full_with_state fuel e c ps xs st = Failed err out)" for xs
    using well_formed_call [OF assms(1-8), of xs] by (fastforce simp: atLeastAtMost_iff)
  show ?thesis
  proof (cases "vad_enabled ps")
    case True
    obtain ok vst' audio where "whisper_vad v (vad_params ps) samples vst = Some (ok, vst', audio)"
      using whisper_vad_some [of v "vad_params ps" samples vst] vad [OF True] by auto
    with w [of audio] True show ?thesis by (auto simp: whisper_full_def)
  qed (use w [of samples] in \<open>simp add: whisper_full_def\<close>)
qed

section \<open>Silence\<close>

lemma run_net_range: "(\<And>st c. P (fst (net st c))) \<Longrightarrow> list_all P (run_net net st cs)"
proof (induction cs arbitrary: st)
  case (Cons c cs)
  from Cons.prems [of st c] Cons.IH [OF Cons.prems] show ?case by (auto simp: Let_def case_prod_unfold)
qed simp

text \<open>A recording without speech gives an empty transcription: if the detector answers below its threshold
  everywhere, \<open>whisper_full\<close> returns 0 without running the transcription, and no segment is left of an
  earlier call.\<close>

theorem whisper_full_silence:
  assumes "vad_enabled ps" and "0 < v_window v" "vad_ready v vst" "\<forall>i. v_step_ok v i"
    and "\<forall>s ch. fst (v_net v s ch) < threshold (vad_params ps)"
  shows "\<exists>vst'. whisper_full fuel e v c ps samples st vst = (Returned 0 (clear_results st), vst') \<and>
    result_all (st_out (clear_results st)) = [] \<and> \<not> has_vad_segments vst'"
proof -
  let ?n = "n_chunks (v_window v) (length samples)"
  have "length (resize_probs ?n (vad_probs vst)) = 0 + ?n" by (simp add: resize_probs_def min_def)
  from detect_loop_runs [OF assms(4) this, of samples "v_zero v"] assms(3)
  have "snd (whisper_vad_detect_speech v samples (vad_probs vst))
      = run_net (v_net v) (v_zero v) (map (chunk_at (v_window v) samples) [0..<?n])"
    by (simp add: whisper_vad_detect_speech_def vad_ready_def Let_def)
  moreover have "list_all (\<lambda>p. p < threshold (vad_params ps)) (run_net (v_net v) (v_zero v) cs)" for cs
    by (rule run_net_range) (use assms(5) in blast)
  ultimately have "detected v (vad_params ps) samples vst = []"
    unfolding detected_def by (intro vad_silence_no_segments) (simp add: list_all_iff)
  from whisper_vad_ready(1) [OF assms(3) this] assms(1) show ?thesis by (auto simp: whisper_full_def clear_results_def)
qed

text \<open>The parallel call keeps the segments of an earlier call in the same situation.\<close>

theorem parallel_silence_keeps_segments:
  assumes "vad_enabled ps" "vad_ready v vst" "detected v (vad_params ps) samples vst = []" "1 < n_processors"
  shows "\<exists>vst'. whisper_full_parallel fuel e we init v c ps samples st vst n_processors = (Returned 0 st, vst')"
  using whisper_vad_ready(1) [OF assms(2,3)] assms(1,4) by (auto simp: whisper_full_parallel_def)

text \<open>A call without voice detection leaves the table of an earlier call, which then maps the new times.\<close>

theorem plain_call_keeps_table:
  assumes "\<not> vad_enabled ps"
  shows "snd (whisper_full fuel e v c ps samples st vst) = vst"
  using assms by (simp add: whisper_full_def)

section \<open>Splitting and joining\<close>

lemma chunk_of_some:
  "0 \<le> start \<Longrightarrow> start + len \<le> int (length samples) \<Longrightarrow> chunk_of samples start len = Some (take (nat len) (drop (nat start) samples))"
  by (simp add: chunk_of_def)

text \<open>The pieces of the workers, one behind the other.\<close>

lemma chunks_join:
  assumes "0 \<le> k" "nat o0 + m * nat k \<le> length samples" "0 \<le> o0"
  shows "take (nat o0) samples @ concat (map (\<lambda>i. take (nat k) (drop (nat (o0 + int i * k)) samples)) [0..<m])
    = take (nat o0 + m * nat k) samples"
  using assms(2)
proof (induction m)
  case (Suc m)
  have "nat (o0 + int m * k) = nat o0 + m * nat k" using assms(1,3) by (simp add: nat_add_distrib nat_mult_distrib)
  moreover have "take (nat o0 + Suc m * nat k) samples
      = take (nat o0 + m * nat k) samples @ take (nat k) (drop (nat o0 + m * nat k) samples)"
    using take_add [of "nat o0 + m * nat k" "nat k" samples] by (simp add: algebra_simps)
  ultimately show ?case using Suc by simp
qed simp

lemma worker_pieces:
  assumes "1 < np" "0 \<le> offs" "offs \<le> n" and n: "n = int (length samples)" and k0: "k = cdiv (n - offs) (int np)"
    and piece0: "piece = (\<lambda>i. chunk_of samples (worker_start offs k i) (worker_length n offs k np i))"
  shows "0 \<le> k" "offs + k \<le> n" "chunk_of samples 0 (offs + k) = Some (take (nat (offs + k)) samples)"
    "\<forall>i < np - 1. piece i \<noteq> None"
    "take (nat (offs + k)) samples @ concat (map (the \<circ> piece) [0..<np - 1]) = samples"
proof -
  have k: "k = (n - offs) div int np" unfolding k0 using assms(1,3) by simp
  show k0: "0 \<le> k" using assms(1,3) by (simp add: k pos_imp_zdiv_nonneg_iff)
  have kn: "int np * k \<le> n - offs" using assms(1) by (simp add: k mult.commute minus_mod_eq_mult_div [symmetric] minus_mod_eq_div_mult [symmetric])
  have "k * 2 \<le> k * int np" using k0 assms(1) by (intro mult_left_mono) auto
  then show okn: "offs + k \<le> n" using kn k0 by (simp add: mult.commute)
  show "chunk_of samples 0 (offs + k) = Some (take (nat (offs + k)) samples)"
    using chunk_of_some [of 0 "offs + k" samples] okn by (simp add: n)
  have st: "0 \<le> worker_start offs k i" "worker_start offs k i + k \<le> n" if "i < np - 1" for i
  proof -
    have "(int i + 2) * k \<le> int np * k" using that k0 by (intro mult_right_mono) auto
    then show "worker_start offs k i + k \<le> n" using kn by (simp add: worker_start_def algebra_simps)
    show "0 \<le> worker_start offs k i" using k0 assms(2) by (simp add: worker_start_def)
  qed
  have piece: "piece i = Some (take (nat (worker_length n offs k np i)) (drop (nat (worker_start offs k i)) samples))"
    if "i < np - 1" for i
    unfolding piece0 using st [OF that] that
    by (intro chunk_of_some) (auto simp: worker_length_def n)
  then show "\<forall>i < np - 1. piece i \<noteq> None" by simp
  have len: "worker_length n offs k np i = k" if "i < np - 2" for i using that by (auto simp: worker_length_def)
  have starts: "worker_start offs k i = (offs + k) + int i * k" for i by (simp add: worker_start_def algebra_simps)
  have up: "[0..<np - 1] = [0..<np - 2] @ [np - 2]"
  proof -
    have "np - 1 = Suc (np - 2)" using assms(1) by simp
    then show ?thesis by simp
  qed
  have last: "np - 2 < np - 1" using assms(1) by simp
  have m: "map (the \<circ> piece) [0..<np - 2] = map (\<lambda>i. take (nat k) (drop (nat ((offs + k) + int i * k)) samples)) [0..<np - 2]"
    using piece len by (intro map_cong refl) (simp add: starts)
  have "nat (offs + k) + (np - 2) * nat k = nat (worker_start offs k (np - 2))"
    unfolding starts using k0 assms(2) by (simp add: nat_add_distrib nat_mult_distrib)
  moreover have "nat (worker_start offs k (np - 2)) \<le> length samples" using st [OF last] k0 by (simp add: n)
  ultimately have "take (nat (offs + k)) samples @ concat (map (the \<circ> piece) [0..<np - 2])
      = take (nat (worker_start offs k (np - 2))) samples"
    unfolding m using chunks_join [of k "offs + k" "np - 2" samples] k0 assms(2) by simp
  moreover have "the (piece (np - 2)) = drop (nat (worker_start offs k (np - 2))) samples"
    using piece [OF last] assms(1) st [OF last] k0 by (simp add: worker_length_def n nat_diff_distrib)
  ultimately show "take (nat (offs + k)) samples @ concat (map (the \<circ> piece) [0..<np - 1]) = samples"
    unfolding up by (simp flip: append_assoc)
qed

text \<open>Joining keeps the texts, and no appended segment starts before the end of the one in front of it.\<close>

definition starts_after :: "nat \<Rightarrow> whisper_segment list \<Rightarrow> bool" where
  "starts_after k segs \<longleftrightarrow> (\<forall>i. max k 1 \<le> i \<and> i < length segs \<longrightarrow> seg_t1 (segs ! (i - 1)) \<le> seg_t0 (segs ! i))"

lemma append_result_spec:
  "starts_after k (result_all s) \<Longrightarrow> k \<le> length (result_all s) \<Longrightarrow>
    map seg_text (result_all (append_result callback shift seg s)) = map seg_text (result_all s) @ [seg_text seg] \<and>
    starts_after k (result_all (append_result callback shift seg s)) \<and> k \<le> length (result_all (append_result callback shift seg s))"
  by (auto simp: append_result_def Let_def starts_after_def nth_append last_conv_nth less_Suc_eq)

lemma append_results_spec:
  "starts_after k (result_all s) \<Longrightarrow> k \<le> length (result_all s) \<Longrightarrow>
    map seg_text (result_all (foldl (\<lambda>s seg. append_result callback shift seg s) s segs)) = map seg_text (result_all s) @ map seg_text segs \<and>
    starts_after k (result_all (foldl (\<lambda>s seg. append_result callback shift seg s) s segs)) \<and>
    k \<le> length (result_all (foldl (\<lambda>s seg. append_result callback shift seg s) s segs))"
proof (induction segs arbitrary: s)
  case (Cons seg segs)
  from append_result_spec [OF Cons.prems, of callback shift seg] Cons.IH [of "append_result callback shift seg s"] show ?case by simp
qed simp

lemma combine_results_spec:
  "combine_results callback nspp offs i segss s = Some s' \<Longrightarrow> starts_after k (result_all s) \<Longrightarrow> k \<le> length (result_all s) \<Longrightarrow>
    map seg_text (result_all s') = map seg_text (result_all s) @ map seg_text (concat segss) \<and> starts_after k (result_all s')"
proof (induction callback nspp offs i segss s rule: combine_results.induct)
  case (2 callback nspp offs i segs r s)
  show ?case
  proof (cases "segs = []")
    case True
    with 2 show ?thesis by simp
  next
    case False
    with "2.prems"(1) obtain shift where sh: "worker_shift nspp offs i = Some shift"
      and c: "combine_results callback nspp offs (i + 1) r (foldl (\<lambda>s seg. append_result callback shift seg s) s segs) = Some s'"
      by (auto split: option.splits)
    from append_results_spec [OF "2.prems"(2,3), of callback shift segs] "2.IH"(2) [OF False sh c] show ?thesis by simp
  qed
qed simp

text \<open>C13: A parallel call transcribes every sample exactly once and keeps every text: the pieces of the caller and of the
  workers, in order, are the samples; the segments of the result are those of the pieces in order, and an
  appended segment never starts before the end of the one in front of it.\<close>

theorem parallel_splits_and_joins:
  assumes "full_parallel_core fuel e we init c ps samples st n_processors = Returned ret st'"
    and "1 < n_processors" and "0 \<le> offset_ms ps" "16 * offset_ms ps \<le> int (length samples)"
  shows "\<exists>ch pieces st1 outs. ch @ concat pieces = samples \<and> length pieces = n_processors - 1 \<and>
    whisper_full_with_state fuel e c ps ch st = Returned ret st1 \<and>
    list_all2 (\<lambda>(i, xs) out. \<exists>s. init i = Some s \<and>
        out_of (whisper_full_with_state fuel (we i) c (worker_params ps) xs s) = Some out) (enumerate 0 pieces) outs \<and>
    map seg_text (result_all (st_out st')) =
      map seg_text (result_all (st_out st1)) @ map seg_text (concat (map result_all outs)) \<and>
    starts_after (length (result_all (st_out st1))) (result_all (st_out st'))"
proof -
  let ?n = "int (length samples)"
  define offs where "offs = cdiv (WHISPER_SAMPLE_RATE * offset_ms ps) 1000"
  define k where "k = cdiv (?n - offs) (int n_processors)"
  define piece where "piece = (\<lambda>i. chunk_of samples (worker_start offs k i) (worker_length ?n offs k n_processors i))"
  have offs: "0 \<le> offs" "offs \<le> ?n" using assms(3,4) by (simp_all add: offs_def WHISPER_SAMPLE_RATE_def)
  note w = worker_pieces [OF assms(2) offs refl k_def piece_def]
  define ch where "ch = take (nat (offs + k)) samples"
  define pieces where "pieces = map (the \<circ> piece) [0..<n_processors - 1]"
  have pc: "chunk_of samples (worker_start offs k i) (worker_length ?n offs k n_processors i) = piece i" for i
    by (simp add: piece_def)
  from assms(1) obtain outs st1 out where
    o: "those (map (\<lambda>i. run_worker fuel (we i) c ps (piece i) (init i)) [0..<n_processors - 1]) = Some outs"
    and r: "whisper_full_with_state fuel e c ps ch st = Returned ret st1"
    and j: "combine_results (new_segment_callback ps) k (offset_ms ps) 0 (map result_all outs) (st_out st1) = Some out" "st' = st1\<lparr>st_out := out\<rparr>"
    unfolding full_parallel_core_def
    by (auto simp: Let_def offs_def [symmetric] k_def [symmetric] pc w(3) ch_def [symmetric] i32_Some_iff
        split: option.splits full_result.splits)
  have those: "those ys = Some zs \<Longrightarrow> length zs = length ys \<and> (\<forall>i < length ys. ys ! i = Some (zs ! i))"
    for ys :: "out_state option list" and zs
    by (induction ys arbitrary: zs) (auto simp: nth_Cons' split: option.splits)
  have "list_all2 (\<lambda>(i, xs) out. \<exists>s. init i = Some s \<and>
      out_of (whisper_full_with_state fuel (we i) c (worker_params ps) xs s) = Some out) (enumerate 0 pieces) outs"
    unfolding list_all2_conv_all_nth
  proof (intro conjI allI impI)
    show len: "length (enumerate 0 pieces) = length outs" using those [OF o] by (simp add: pieces_def)
    fix i assume i: "i < length (enumerate 0 pieces)"
    then have i': "i < n_processors - 1" by (simp add: pieces_def)
    then obtain xs where xs: "piece i = Some xs" using w(4) by auto
    have "run_worker fuel (we i) c ps (piece i) (init i) = Some (outs ! i)" using those [OF o] i' by simp
    moreover have "pieces ! i = xs" using i' xs by (simp add: pieces_def)
    ultimately show "(case enumerate 0 pieces ! i of (i, xs) \<Rightarrow> \<lambda>out. \<exists>s. init i = Some s \<and>
        out_of (whisper_full_with_state fuel (we i) c (worker_params ps) xs s) = Some out) (outs ! i)"
      using i xs by (auto simp: run_worker_def nth_enumerate_eq split: option.splits)
  qed
  moreover have "starts_after (length (result_all (st_out st1))) (result_all (st_out st1))" by (simp add: starts_after_def)
  then have "map seg_text (result_all out) = map seg_text (result_all (st_out st1)) @ map seg_text (concat (map result_all outs)) \<and>
      starts_after (length (result_all (st_out st1))) (result_all out)"
    by (rule combine_results_spec [OF j(1) _ order.refl])
  moreover have "ch @ concat pieces = samples" using w(5) by (simp add: ch_def pieces_def)
  moreover have "length pieces = n_processors - 1" by (simp add: pieces_def)
  ultimately show ?thesis using r j(2) by (intro exI [of _ ch] exI [of _ pieces] exI [of _ st1] exI [of _ outs]) simp
qed

text \<open>The shift of the second piece of a recording of 45 minutes on two processors overflows.\<close>

theorem parallel_shift_overflows: "worker_shift (45 * 60 * 16000 div 2) 0 0 = None"
  by (simp add: worker_shift_def i32_def in_i32_def)

section \<open>Examples\<close>

definition vad_call :: whisper_full_params where
  "vad_call = (whisper_full_default_params SAMPLING_GREEDY)\<lparr>vad_enabled := True, vad_params := demo_params_vad\<rparr>"

definition quiet_vad :: "nat vad_env" where
  "quiet_vad = demo_vad\<lparr>v_net := (\<lambda>k ch. (0, k))\<rparr>"

definition short_env :: full_env where "short_env = known_env\<lparr>e_mel_len := 5\<rparr>"

lemma vad_call_ok: "params_ok vad_call" "temperature vad_call = 0" "offset_ms vad_call = 0" "duration_ms vad_call = 0"
  "vad_enabled vad_call" "vad_params vad_call = demo_params_vad"
  by (simp_all add: vad_call_def params_ok_def whisper_full_default_params_def)

theorem whisper_full_returns_witness:
  "fst (whisper_full 3000 known_env demo_vad known_context vad_call demo_samples known_state fresh_vad) \<noteq> Crashed"
proof -
  have "length (st_decoders known_state) = 8" "max (st_n_len_org known_state) (max (e_mel_len known_env) (duration_ms vad_call)) \<le> int 3000"
    by (simp_all add: known_state_def known_env_def vad_call_ok)
  from whisper_full_returns [OF known_context_ok vad_call_ok(1) known_env_ok _ _ this(1) _ this(2),
      of demo_vad demo_samples fresh_vad]
  show ?thesis using demo_params by (auto simp: vad_call_ok)
qed

theorem whisper_full_silence_witness:
  "\<exists>vst'. whisper_full 3000 known_env quiet_vad known_context vad_call [1, 1] known_state fresh_vad
     = (Returned 0 (clear_results known_state), vst')"
  using whisper_full_silence [OF vad_call_ok(5), of quiet_vad fresh_vad 3000 known_env known_context "[1, 1]" known_state]
  by (auto simp: quiet_vad_def demo_vad_def vad_ready_def vad_call_ok demo_params_vad_def whisper_vad_default_params_def)

lemma short_call: "\<exists>st'. whisper_full_with_state 1 short_env known_context (whisper_full_default_params SAMPLING_GREEDY) xs known_state
    = Returned 0 st' \<and> result_all (st_out st') = []" if "xs \<noteq> []"
  using that by (simp add: whisper_full_with_state_def Let_def short_env_def known_env_def detect_step_def
      whisper_full_default_params_def delta_min_def known_state_def empty_out_def)

theorem parallel_splits_and_joins_witness:
  "\<exists>ch pieces. ch @ concat pieces = [1, 2, 3, 4, 5 :: real] \<and> length pieces = 1"
proof -
  let ?ps = "whisper_full_default_params SAMPLING_GREEDY"
  have z: "worker_params ?ps = ?ps" "offset_ms ?ps = 0" by (simp_all add: worker_params_def whisper_full_default_params_def)
  obtain s1 where s1: "whisper_full_with_state 1 short_env known_context ?ps [1, 2] known_state = Returned 0 s1"
    using short_call [of "[1, 2]"] by auto
  obtain s2 where s2: "whisper_full_with_state 1 short_env known_context ?ps [3, 4, 5] known_state = Returned 0 s2"
    "result_all (st_out s2) = []" using short_call [of "[3, 4, 5]"] by auto
  have "\<exists>st'. full_parallel_core 1 short_env (\<lambda>_. short_env) (\<lambda>_. Some known_state) known_context ?ps [1, 2, 3, 4, 5] known_state 2
      = Returned 0 st'"
    using s1 s2
    by (simp add: full_parallel_core_def z i32_def in_i32_def worker_length_def worker_start_def chunk_of_def run_worker_def
        out_of_def Let_def)
  then obtain st' where "full_parallel_core 1 short_env (\<lambda>_. short_env) (\<lambda>_. Some known_state) known_context ?ps [1, 2, 3, 4, 5] known_state 2
      = Returned 0 st'" ..
  from parallel_splits_and_joins [OF this] z show ?thesis by auto
qed

end
