(* ===== verification/Fast_Fourier.thy ===== *)
theory Fast_Fourier
  imports Complex_Main Prelude
begin

text \<open>
  The Fourier transforms of \<open>whisper.cpp\<close>: the tables of \<open>whisper_global_cache\<close>, the naive \<open>dft\<close> and the
  recursive \<open>fft\<close>.

  The buffers of the transform are functions from indices to reals, so that the in-place recursion with its
  shared scratch space can be followed; \<open>b\<close> and \<open>p\<close> are the pointers into the two buffers.  The lemma
  \<open>fft_correct\<close> bounds the indices that are written.  A transform of size 0, which does not end, is \<open>None\<close>.
\<close>

section \<open>The transforms\<close>

definition WHISPER_N_FFT :: nat where "WHISPER_N_FFT = 400"

definition WHISPER_HOP_LENGTH :: nat where "WHISPER_HOP_LENGTH = 160"

definition cos_vals :: "nat \<Rightarrow> real" where
  "cos_vals i = cos (2 * pi * real i / real WHISPER_N_FFT)"

definition sin_vals :: "nat \<Rightarrow> real" where
  "sin_vals i = sin (2 * pi * real i / real WHISPER_N_FFT)"

definition hann_window :: "nat \<Rightarrow> real" where
  "hann_window i = 1 / 2 * (1 - cos (2 * pi * real i / real WHISPER_N_FFT))"

type_synonym buffer = "nat \<Rightarrow> real"

text \<open>A transform reads \<open>N\<close> numbers from \<open>b\<close> on and writes \<open>2 * N\<close> numbers from \<open>p\<close> on.\<close>

definition dft_at :: "buffer \<Rightarrow> nat \<Rightarrow> nat \<Rightarrow> nat \<Rightarrow> real \<times> real" where
  "dft_at inp b N k =
    (let sin_cos_step = WHISPER_N_FFT div N
     in foldl (\<lambda>(re, im) n. let idx = k * n * sin_cos_step mod WHISPER_N_FFT
                            in (re + inp (b + n) * cos_vals idx, im - inp (b + n) * sin_vals idx))
          (0, 0) [0..<N])"

definition dft :: "buffer \<Rightarrow> nat \<Rightarrow> nat \<Rightarrow> nat \<Rightarrow> buffer \<Rightarrow> buffer" where
  "dft inp b N p out =
    foldl (\<lambda>out k. let (re, im) = dft_at inp b N k in out(p + k * 2 := re, p + k * 2 + 1 := im)) out [0..<N]"

definition copy_every_second :: "nat \<Rightarrow> nat \<Rightarrow> nat \<Rightarrow> nat \<Rightarrow> buffer \<Rightarrow> buffer" where
  "copy_every_second d b N h inp = foldl (\<lambda>m i. m(b + N + i := m (b + 2 * i + d))) inp [0..<h]"

definition butterfly :: "nat \<Rightarrow> nat \<Rightarrow> nat \<Rightarrow> buffer \<Rightarrow> buffer" where
  "butterfly p N k out =
    (let half_N = N div 2; idx = k * (WHISPER_N_FFT div N);
         re = cos_vals idx; im = - sin_vals idx;
         ev = p + 2 * N; od = ev + N;
         re_odd = out (od + 2 * k); im_odd = out (od + 2 * k + 1);
         out1 = out(p + 2 * k := out (ev + 2 * k) + re * re_odd - im * im_odd);
         out2 = out1(p + 2 * k + 1 := out1 (ev + 2 * k + 1) + re * im_odd + im * re_odd);
         out3 = out2(p + 2 * (k + half_N) := out2 (ev + 2 * k) - re * re_odd + im * im_odd)
     in out3(p + 2 * (k + half_N) + 1 := out3 (ev + 2 * k + 1) - re * im_odd - im * re_odd))"

function fft :: "nat \<Rightarrow> nat \<Rightarrow> nat \<Rightarrow> buffer \<Rightarrow> buffer \<Rightarrow> (buffer \<times> buffer) option" where
  "fft N b p inp out =
    (if N = 0 then None
     else if N = 1 then Some (inp, out(p := inp b, p + 1 := 0))
     else
       (let half_N = N div 2 in
        if N - half_N * 2 = 1 then Some (inp, dft inp b N p out)
        else
          (case fft half_N (b + N) (p + 2 * N) (copy_every_second 0 b N half_N inp) out of
             None \<Rightarrow> None
           | Some (inp1, out1) \<Rightarrow>
               (case fft half_N (b + N) (p + 2 * N + N) (copy_every_second 1 b N half_N inp1) out1 of
                  None \<Rightarrow> None
                | Some (inp2, out2) \<Rightarrow> Some (inp2, foldl (\<lambda>out k. butterfly p N k out) out2 [0..<half_N])))))"
  by pat_completeness auto
termination by (relation "measure fst") auto

declare fft.simps [simp del]

section \<open>The transform is the discrete Fourier transform\<close>

definition dft_spec :: "(nat \<Rightarrow> real) \<Rightarrow> nat \<Rightarrow> nat \<Rightarrow> complex" where
  "dft_spec x N k = (\<Sum>n<N. complex_of_real (x n) * cis (- (2 * pi * real k * real n / real N)))"

definition entry :: "buffer \<Rightarrow> nat \<Rightarrow> nat \<Rightarrow> complex" where
  "entry out p k = Complex (out (p + 2 * k)) (out (p + 2 * k + 1))"

text \<open>An index of the tables stands for its angle modulo a full turn.\<close>

lemma table_angle:
  assumes "N * s = WHISPER_N_FFT" "0 < N"
  shows "cos_vals (i * s mod WHISPER_N_FFT) = cos (2 * pi * real i / real N)"
    "sin_vals (i * s mod WHISPER_N_FFT) = sin (2 * pi * real i / real N)"
proof -
  define M where "M = WHISPER_N_FFT"
  define r where "r = i * s mod M"
  define q where "q = i * s div M"
  have "0 < M" by (simp add: M_def WHISPER_N_FFT_def)
  have M: "real M = real N * real s" using assms by (simp add: M_def flip: of_nat_mult)
  then have s: "real s \<noteq> 0" "real N \<noteq> 0" using assms \<open>0 < M\<close> by (cases s; auto simp: M_def)+
  have "i * s = r + q * M" by (simp add: r_def q_def mult.commute)
  then have "real i * real s = real r + real q * real M" by (metis of_nat_add of_nat_mult)
  moreover have "2 * pi * real i / real N = 2 * pi * (real i * real s) / real M" using s by (simp add: M)
  ultimately have "2 * pi * real i / real N = 2 * pi * (real r + real q * real M) / real M" by simp
  also have "\<dots> = 2 * pi * real r / real M + 2 * real q * pi" using s M by (simp add: field_simps)
  finally have "2 * pi * real i / real N = 2 * pi * real r / real M + 2 * real q * pi" .
  then show "cos_vals (i * s mod WHISPER_N_FFT) = cos (2 * pi * real i / real N)"
    "sin_vals (i * s mod WHISPER_N_FFT) = sin (2 * pi * real i / real N)"
    by (simp_all add: cos_vals_def sin_vals_def cos_add sin_add cos_2npi sin_2npi flip: M_def r_def)
qed

lemma Complex_cis: "Complex (re + x * cos t) (im - x * sin t) = Complex re im + complex_of_real x * cis (- t)"
  by (simp add: complex_eq_iff)

lemma dft_at_spec:
  assumes "N * s = WHISPER_N_FFT" "0 < N"
  shows "Complex (fst (dft_at inp b N k)) (snd (dft_at inp b N k)) = dft_spec (\<lambda>n. inp (b + n)) N k"
proof -
  have s: "WHISPER_N_FFT div N = s" using assms by (simp flip: assms(1))
  define f where "f = (\<lambda>(re, im) n. let idx = k * n * s mod WHISPER_N_FFT
                            in (re + inp (b + n) * cos_vals idx, im - inp (b + n) * sin_vals idx))"
  have "Complex (fst (foldl f (0, 0) [0..<m])) (snd (foldl f (0, 0) [0..<m]))
      = (\<Sum>n<m. complex_of_real (inp (b + n)) * cis (- (2 * pi * real k * real n / real N)))" for m
  proof (induction m)
    case (Suc m)
    have c: "cos_vals (k * m * s mod WHISPER_N_FFT) = cos (2 * pi * real k * real m / real N)"
      "sin_vals (k * m * s mod WHISPER_N_FFT) = sin (2 * pi * real k * real m / real N)"
      using table_angle [OF assms, of "k * m"] by (simp_all add: mult.assoc)
    obtain re im where r: "foldl f (0, 0) [0..<m] = (re, im)" by fastforce
    with Suc have "Complex re im = (\<Sum>n<m. complex_of_real (inp (b + n)) * cis (- (2 * pi * real k * real n / real N)))" by simp
    moreover have "foldl f (0, 0) [0..<Suc m] = (re + inp (b + m) * cos (2 * pi * real k * real m / real N),
        im - inp (b + m) * sin (2 * pi * real k * real m / real N))"
      using r c by (simp add: f_def Let_def)
    ultimately show ?case by (simp add: Complex_cis)
  qed (simp add: complex_eq_iff)
  then show ?thesis by (simp add: dft_at_def Let_def s f_def dft_spec_def)
qed

lemma dft_entries:
  assumes "N * s = WHISPER_N_FFT" "0 < N"
  shows "(\<forall>k < N. entry (dft inp b N p out) p k = dft_spec (\<lambda>n. inp (b + n)) N k) \<and>
    (\<forall>x. x < p \<or> p + 2 * N \<le> x \<longrightarrow> dft inp b N p out x = out x)"
proof -
  define g where "g = (\<lambda>out k. let (re, im) = dft_at inp b N k in (out :: buffer)(p + k * 2 := re, p + k * 2 + 1 := im))"
  have "(\<forall>k < m. entry (foldl g out [0..<m]) p k = dft_spec (\<lambda>n. inp (b + n)) N k) \<and>
    (\<forall>x. x < p \<or> p + 2 * m \<le> x \<longrightarrow> foldl g out [0..<m] x = out x)" for m
  proof (induction m)
    case (Suc m)
    define o1 where "o1 = foldl g out [0..<m]"
    have g: "g o1 m = o1(p + m * 2 := fst (dft_at inp b N m), p + m * 2 + 1 := snd (dft_at inp b N m))"
      by (simp add: g_def case_prod_unfold Let_def)
    have "entry (g o1 m) p k = dft_spec (\<lambda>n. inp (b + n)) N k" if "k < Suc m" for k
    proof (cases "k = m")
      case True
      then show ?thesis using dft_at_spec [OF assms, of inp b m] by (simp add: g entry_def mult.commute)
    next
      case False
      then have "entry (g o1 m) p k = entry o1 p k" using that by (simp add: g entry_def)
      then show ?thesis using Suc that False by (simp add: o1_def)
    qed
    moreover have "g o1 m x = out x" if "x < p \<or> p + 2 * Suc m \<le> x" for x
    proof -
      have "o1 x = out x" using Suc that by (auto simp: o1_def)
      then show ?thesis using that by (auto simp: g)
    qed
    ultimately show ?case by (simp add: o1_def)
  qed simp
  then show ?thesis by (simp add: dft_def g_def)
qed

text \<open>Copying every second number behind the input.\<close>

lemma copy_every_second_spec:
  assumes "2 * h \<le> N" "d \<le> 1"
  shows "copy_every_second d b N h inp x = (if b + N \<le> x \<and> x < b + N + h then inp (b + 2 * (x - (b + N)) + d) else inp x)"
proof -
  define f where "f = (\<lambda>(m :: buffer) i. m(b + N + i := m (b + 2 * i + d)))"
  have "foldl f inp [0..<m] x
      = (if b + N \<le> x \<and> x < b + N + m then inp (b + 2 * (x - (b + N)) + d) else inp x)" if "m \<le> h" for m x
    using that
  proof (induction m arbitrary: x)
    case (Suc m)
    then have "foldl f inp [0..<m] (b + 2 * m + d) = inp (b + 2 * m + d)" using assms by simp
    moreover have "foldl f inp [0..<Suc m] x = (if x = b + N + m then foldl f inp [0..<m] (b + 2 * m + d) else foldl f inp [0..<m] x)"
      by (simp add: f_def)
    moreover have "foldl f inp [0..<m] x
      = (if b + N \<le> x \<and> x < b + N + m then inp (b + 2 * (x - (b + N)) + d) else inp x)" using Suc by simp
    ultimately show ?case by auto
  qed simp
  then show ?thesis by (simp add: copy_every_second_def f_def)
qed

lemma butterfly_spec:
  assumes "N * s = WHISPER_N_FFT" "N = 2 * h" "0 < h" "m \<le> h"
    and "\<forall>k < h. entry out (p + 2 * N) k = E k" "\<forall>k < h. entry out (p + 2 * N + N) k = D k"
  defines "out' \<equiv> foldl (\<lambda>out k. butterfly p N k out) out [0..<m]"
  shows "(\<forall>k < m. entry out' p k = E k + cis (- (2 * pi * real k / real N)) * D k \<and>
      entry out' p (k + h) = E k - cis (- (2 * pi * real k / real N)) * D k) \<and>
    (\<forall>x. x < p \<or> p + 2 * N \<le> x \<longrightarrow> out' x = out x)"
  using assms(4) unfolding out'_def
proof (induction m)
  case (Suc m)
  define o1 where "o1 = foldl (\<lambda>out k. butterfly p N k out) out [0..<m]"
  have IH: "\<forall>k < m. entry o1 p k = E k + cis (- (2 * pi * real k / real N)) * D k \<and>
      entry o1 p (k + h) = E k - cis (- (2 * pi * real k / real N)) * D k"
    "\<forall>x. x < p \<or> p + 2 * N \<le> x \<longrightarrow> o1 x = out x" using Suc by (simp_all add: o1_def)
  have s: "WHISPER_N_FFT div N = s" using assms by (simp flip: assms(1))
  have lt: "m * s < WHISPER_N_FFT"
  proof -
    have "0 < s" using assms(1) by (cases s) (auto simp: WHISPER_N_FFT_def)
    then have "m * s < N * s" using Suc.prems assms(2) by simp
    then show ?thesis by (simp add: assms(1))
  qed
  have c: "cos_vals (m * s) = cos (2 * pi * real m / real N)" "sin_vals (m * s) = sin (2 * pi * real m / real N)"
    using table_angle [OF assms(1), of m] lt assms(2,3) by simp_all
  define re where "re = cos (2 * pi * real m / real N)"
  define im where "im = - sin (2 * pi * real m / real N)"
  define a where "a = o1 (p + 2 * N + 2 * m)"
  define a' where "a' = o1 (p + 2 * N + 2 * m + 1)"
  define d where "d = o1 (p + 2 * N + N + 2 * m)"
  define d' where "d' = o1 (p + 2 * N + N + 2 * m + 1)"
  have h: "N div 2 = h" using assms(2) by simp
  have bf: "butterfly p N m o1 = o1(p + 2 * m := a + re * d - im * d', p + 2 * m + 1 := a' + re * d' + im * d,
      p + 2 * (m + h) := a - re * d + im * d', p + 2 * (m + h) + 1 := a' - re * d' - im * d)"
  proof -
    have "m < h" "2 * (m + h) + 1 < 2 * N" "0 < N" using assms(2,3) Suc.prems by simp_all
    then show ?thesis by (simp add: butterfly_def Let_def h s c re_def im_def a_def a'_def d_def d'_def)
  qed
  have ED: "Complex a a' = E m" "Complex d d' = D m"
    using IH(2) assms(5,6) Suc.prems by (simp_all add: entry_def a_def a'_def d_def d'_def)
  have cis: "cis (- (2 * pi * real m / real N)) = Complex re im" by (simp add: complex_eq_iff re_def im_def)
  have new: "entry (butterfly p N m o1) p m = E m + cis (- (2 * pi * real m / real N)) * D m"
    "entry (butterfly p N m o1) p (m + h) = E m - cis (- (2 * pi * real m / real N)) * D m"
    unfolding cis ED [symmetric] using assms(3) by (simp_all add: bf entry_def complex_eq_iff)
  have "entry (butterfly p N m o1) p k = entry o1 p k" "entry (butterfly p N m o1) p (k + h) = entry o1 p (k + h)" if "k < m" for k
    using that assms(3) Suc.prems by (simp_all add: bf entry_def)
  then have "\<forall>k < Suc m. entry (butterfly p N m o1) p k = E k + cis (- (2 * pi * real k / real N)) * D k \<and>
      entry (butterfly p N m o1) p (k + h) = E k - cis (- (2 * pi * real k / real N)) * D k"
    using IH(1) new by (auto simp: less_Suc_eq)
  moreover have "butterfly p N m o1 x = out x" if "x < p \<or> p + 2 * N \<le> x" for x
  proof -
    have "o1 x = out x" using IH(2) that by blast
    moreover have "2 * (m + h) + 1 < 2 * N" "m < h" using assms(2,3) Suc.prems by simp_all
    ultimately show ?thesis using that by (auto simp: bf)
  qed
  ultimately show ?case by (simp add: o1_def)
qed simp

text \<open>The Cooley--Tukey step.\<close>

lemma dft_spec_split:
  assumes "N = 2 * h" "0 < h"
  shows "dft_spec x N k = dft_spec (\<lambda>n. x (2 * n)) h k + cis (- (2 * pi * real k / real N)) * dft_spec (\<lambda>n. x (2 * n + 1)) h k"
    and "dft_spec x N (k + h) = dft_spec (\<lambda>n. x (2 * n)) h k - cis (- (2 * pi * real k / real N)) * dft_spec (\<lambda>n. x (2 * n + 1)) h k"
proof -
  have two: "(\<Sum>n<2 * m. f n) = (\<Sum>n<m. f (2 * n)) + (\<Sum>n<m. f (2 * n + 1))" for f :: "nat \<Rightarrow> complex" and m
    by (induction m) simp_all
  have N: "real N = 2 * real h" "real h \<noteq> 0" using assms by simp_all
  have e: "cis (- (2 * pi * real j * real (2 * n) / real N)) = cis (- (2 * pi * real j * real n / real h))" for j n
  proof -
    have "2 * pi * real j * real (2 * n) / real N = 2 * pi * real j * real n / real h" using N by (simp add: field_simps)
    then show ?thesis by (simp only:)
  qed
  have o: "cis (- (2 * pi * real j * real (2 * n + 1) / real N))
      = cis (- (2 * pi * real j / real N)) * cis (- (2 * pi * real j * real n / real h))" for j n
  proof -
    have "- (2 * pi * real j * real (2 * n + 1) / real N) = - (2 * pi * real j / real N) + - (2 * pi * real j * real n / real h)"
      using N by (simp add: field_simps)
    then show ?thesis by (simp only: cis_mult)
  qed
  have split: "dft_spec x N j = dft_spec (\<lambda>n. x (2 * n)) h j + cis (- (2 * pi * real j / real N)) * dft_spec (\<lambda>n. x (2 * n + 1)) h j" for j
  proof -
    have "dft_spec x N j = (\<Sum>n<2 * h. complex_of_real (x n) * cis (- (2 * pi * real j * real n / real N)))"
      by (simp only: dft_spec_def assms(1))
    also have "\<dots> = (\<Sum>n<h. complex_of_real (x (2 * n)) * cis (- (2 * pi * real j * real n / real h)))
        + (\<Sum>n<h. complex_of_real (x (2 * n + 1)) * (cis (- (2 * pi * real j / real N)) * cis (- (2 * pi * real j * real n / real h))))"
      by (simp only: two e o)
    also have "(\<Sum>n<h. complex_of_real (x (2 * n + 1)) * (cis (- (2 * pi * real j / real N)) * cis (- (2 * pi * real j * real n / real h))))
        = cis (- (2 * pi * real j / real N)) * dft_spec (\<lambda>n. x (2 * n + 1)) h j"
      unfolding dft_spec_def sum_distrib_left by (intro sum.cong refl) (simp only: mult_ac)
    finally show ?thesis by (simp only: dft_spec_def)
  qed
  then show "dft_spec x N k = dft_spec (\<lambda>n. x (2 * n)) h k + cis (- (2 * pi * real k / real N)) * dft_spec (\<lambda>n. x (2 * n + 1)) h k" .
  have turn: "cis (- (2 * pi * real (k + h) * real n / real h)) = cis (- (2 * pi * real k * real n / real h))" for n
  proof -
    have "- (2 * pi * real (k + h) * real n / real h) = - (2 * pi * real k * real n / real h) + - (2 * pi * real n)"
      using N by (simp add: field_simps)
    moreover have "cis (- (2 * pi * real n)) = 1"
      using cis_multiple_2pi [of "- real n"] by (simp add: algebra_simps)
    ultimately show ?thesis by (metis cis_mult mult.right_neutral)
  qed
  then have "dft_spec y h (k + h) = dft_spec y h k" for y by (simp add: dft_spec_def)
  moreover have "cis (- (2 * pi * real (k + h) / real N)) = - cis (- (2 * pi * real k / real N))"
  proof -
    have "- (2 * pi * real (k + h) / real N) = - (2 * pi * real k / real N) + - pi"
      using N by (simp add: field_simps)
    then have "cis (- (2 * pi * real (k + h) / real N)) = cis (- (2 * pi * real k / real N)) * cis (- pi)" by (simp only: cis_mult)
    then show ?thesis by (simp add: complex_eq_iff)
  qed
  ultimately show "dft_spec x N (k + h) = dft_spec (\<lambda>n. x (2 * n)) h k - cis (- (2 * pi * real k / real N)) * dft_spec (\<lambda>n. x (2 * n + 1)) h k"
    using split [of "k + h"] by simp
qed

lemma fft_correct:
  "N * s = WHISPER_N_FFT \<Longrightarrow> 0 < N \<Longrightarrow> \<exists>inp' out'. fft N b p inp out = Some (inp', out') \<and>
    (\<forall>k < N. entry out' p k = dft_spec (\<lambda>n. inp (b + n)) N k) \<and>
    (\<forall>x. x < b + N \<or> b + 2 * N \<le> x \<longrightarrow> inp' x = inp x) \<and>
    (\<forall>x. x < p \<or> p + 6 * N \<le> x \<longrightarrow> out' x = out x)"
proof (induction N arbitrary: s b p inp out rule: less_induct)
  case (less N)
  consider "N = 1" | "N \<noteq> 1" "odd N" | "N \<noteq> 1" "even N" by blast
  then show ?case
  proof cases
    case 1
    have "fft N b p inp out = Some (inp, out(p := inp b, p + 1 := 0))" using 1 by (simp add: fft.simps [of "Suc 0"])
    then show ?thesis using 1 by (auto simp: entry_def dft_spec_def complex_eq_iff)
  next
    case 2
    then have "N - N div 2 * 2 = 1" using less.prems(2) by presburger
    with 2 less.prems dft_entries [OF less.prems, of inp b p out] show ?thesis
      by (simp add: fft.simps [of N])
  next
    case 3
    define h where "h = N div 2"
    have h: "N = 2 * h" "0 < h" "h < N" using 3 less.prems(2) by (auto simp: h_def)
    have hs: "h * (2 * s) = WHISPER_N_FFT" using less.prems(1) h(1) by (simp add: mult_ac)
    define in0 where "in0 = copy_every_second 0 b N h inp"
    have c0: "in0 x = (if b + N \<le> x \<and> x < b + N + h then inp (b + 2 * (x - (b + N))) else inp x)" for x
      unfolding in0_def using copy_every_second_spec [of h N 0] h(1) by simp
    from less.IH [OF h(3) hs h(2), of "b + N" "p + 2 * N" in0 out] obtain in1 out1 where
      f1: "fft h (b + N) (p + 2 * N) in0 out = Some (in1, out1)"
      "\<forall>k < h. entry out1 (p + 2 * N) k = dft_spec (\<lambda>n. in0 (b + N + n)) h k"
      "\<forall>x. x < b + N + h \<or> b + N + 2 * h \<le> x \<longrightarrow> in1 x = in0 x"
      "\<forall>x. x < p + 2 * N \<or> p + 2 * N + 6 * h \<le> x \<longrightarrow> out1 x = out x" by blast
    define in1' where "in1' = copy_every_second 1 b N h in1"
    have c1: "in1' x = (if b + N \<le> x \<and> x < b + N + h then in1 (b + 2 * (x - (b + N)) + 1) else in1 x)" for x
      unfolding in1'_def using copy_every_second_spec [of h N 1] h(1) by simp
    from less.IH [OF h(3) hs h(2), of "b + N" "p + 2 * N + N" in1' out1] obtain in2 out2 where
      f2: "fft h (b + N) (p + 2 * N + N) in1' out1 = Some (in2, out2)"
      "\<forall>k < h. entry out2 (p + 2 * N + N) k = dft_spec (\<lambda>n. in1' (b + N + n)) h k"
      "\<forall>x. x < b + N + h \<or> b + N + 2 * h \<le> x \<longrightarrow> in2 x = in1' x"
      "\<forall>x. x < p + 2 * N + N \<or> p + 2 * N + N + 6 * h \<le> x \<longrightarrow> out2 x = out1 x" by blast
    define E where "E = dft_spec (\<lambda>n. inp (b + 2 * n)) h"
    define D where "D = dft_spec (\<lambda>n. inp (b + (2 * n + 1))) h"
    have "dft_spec (\<lambda>n. in0 (b + N + n)) h k = E k" for k
      unfolding E_def dft_spec_def by (rule sum.cong) (simp_all add: c0)
    moreover have "entry out2 (p + 2 * N) k = entry out1 (p + 2 * N) k" if "k < h" for k
    proof -
      have "p + 2 * N + 2 * k + 1 < p + 2 * N + N" using that h(1) by simp
      then show ?thesis using f2(4) by (simp add: entry_def)
    qed
    ultimately have E: "\<forall>k < h. entry out2 (p + 2 * N) k = E k" using f1(2) by simp
    have rd: "in1' (b + N + n) = inp (b + (2 * n + 1))" if "n < h" for n
    proof -
      have "b + 2 * n + 1 < b + N" using that h(1) by simp
      then have "in1 (b + 2 * n + 1) = inp (b + 2 * n + 1)" using f1(3) by (simp add: c0)
      then show ?thesis using that by (simp add: c1)
    qed
    have "dft_spec (\<lambda>n. in1' (b + N + n)) h k = D k" for k
      unfolding D_def dft_spec_def by (rule sum.cong) (simp_all add: rd)
    then have D: "\<forall>k < h. entry out2 (p + 2 * N + N) k = D k" using f2(2) by simp
    define out3 where "out3 = foldl (\<lambda>out k. butterfly p N k out) out2 [0..<h]"
    note bf = butterfly_spec [OF less.prems(1) h(1,2) order.refl E D, folded out3_def]
    have "fft N b p inp out = Some (in2, out3)"
    proof -
      have "N \<noteq> 0" "N \<noteq> 1" "N - h * 2 \<noteq> 1" "N div 2 = h" using h by simp_all
      then show ?thesis
        by (subst fft.simps) (simp only: if_False Let_def in0_def [symmetric] f1(1) in1'_def [symmetric] f2(1)
            out3_def option.case prod.case)
    qed
    moreover have "entry out3 p k = dft_spec (\<lambda>n. inp (b + n)) N k" if k: "k < N" for k
    proof (cases "k < h")
      case True
      then show ?thesis using bf dft_spec_split(1) [OF h(1,2), of "\<lambda>n. inp (b + n)" k] by (simp add: E_def D_def)
    next
      case False
      then have "k - h < h" "k - h + h = k" using k h(1) by simp_all
      then show ?thesis using bf dft_spec_split(2) [OF h(1,2), of "\<lambda>n. inp (b + n)" "k - h"] by (metis E_def D_def)
    qed
    moreover have "in2 x = inp x" if "x < b + N \<or> b + 2 * N \<le> x" for x
      using that f2(3) f1(3) h(1) by (auto simp: c0 c1)
    moreover have "out3 x = out x" if "x < p \<or> p + 6 * N \<le> x" for x
    proof -
      have "out3 x = out2 x" using bf that h(1) by auto
      moreover have "out2 x = out1 x" using f2(4) that h(1) by auto
      moreover have "out1 x = out x" using f1(4) that h(1) by auto
      ultimately show ?thesis by simp
    qed
    ultimately show ?thesis by blast
  qed
qed

text \<open>C5: 
  The recursive transform of the code, with its shared scratch space and its tables of one fixed size,
  computes the discrete Fourier transform for every size that divides the size of the tables; it leaves its
  input as it was, uses as many numbers behind it as scratch space and writes nothing outside of the first
  \<open>6 * N\<close> numbers of its output, so that the worker's buffers of 800 and 3200 numbers are large enough.
\<close>

theorem fft_is_dft:
  assumes "N dvd WHISPER_N_FFT"
  shows "\<exists>inp' out'. fft N b p inp out = Some (inp', out') \<and>
    (\<forall>k < N. entry out' p k = (\<Sum>n<N. complex_of_real (inp (b + n)) * cis (- (2 * pi * real k * real n / real N)))) \<and>
    (\<forall>x. x < b + N \<or> b + 2 * N \<le> x \<longrightarrow> inp' x = inp x) \<and>
    (\<forall>x. x < p \<or> p + 6 * N \<le> x \<longrightarrow> out' x = out x)"
proof -
  obtain s where s: "N * s = WHISPER_N_FFT" using assms by (metis dvdE)
  then have "0 < N" by (cases N) (simp_all add: WHISPER_N_FFT_def)
  from fft_correct [OF s this, of b p inp out] show ?thesis by (simp only: dft_spec_def)
qed

theorem fft_is_dft_witness:
  "\<exists>inp' out'. fft 8 0 0 real (\<lambda>_. 0) = Some (inp', out') \<and> entry out' 0 0 = 28 \<and> inp' 7 = 7"
proof -
  have "(8 :: nat) dvd WHISPER_N_FFT" by (simp add: WHISPER_N_FFT_def)
  from fft_is_dft [OF this, of 0 0 real "\<lambda>_. 0"] obtain inp' out' where
    f: "fft 8 0 0 real (\<lambda>_. 0) = Some (inp', out')"
    "\<forall>k < 8. entry out' 0 k = (\<Sum>n<8. complex_of_real (real (0 + n)) * cis (- (2 * pi * real k * real n / real 8)))"
    "\<forall>x. x < 0 + 8 \<or> 0 + 2 * 8 \<le> x \<longrightarrow> inp' x = real x" by blast
  have "entry out' 0 0 = 28" using f(2) by (simp add: lessThan_nat_numeral lessThan_Suc)
  then show ?thesis using f by simp
qed

end
