(* ===== verification/Mel_Spectrogram.thy ===== *)
theory Mel_Spectrogram
  imports Fast_Fourier Vad_Segments "HOL-Library.Multiset"
begin

text \<open>
  The audio front end of \<open>whisper.cpp\<close>: the frames of a worker thread, \<open>log_mel_spectrogram\<close> and
  \<open>whisper_pcm_to_mel_with_state\<close>.

  The workers only share the cells of the spectrogram, which they write and never read.  A worker is
  the list of its writes; the parameter \<open>merge\<close> stands for the scheduler of the threads and arranges the
  writes of all workers in one sequence.  A failed assertion and a read outside of the samples are \<open>None\<close>.
\<close>

section \<open>The frames of a worker\<close>

record whisper_filters =
  f_n_mel :: nat
  f_n_fft :: nat
  f_data :: "real list"

record whisper_mel =
  n_len :: nat
  n_len_org :: int
  n_mel :: nat
  mel_data :: "real list"

text \<open>The window over the samples from \<open>offset\<close> on, with zeros behind the last sample.\<close>

definition window_samples :: "(nat \<Rightarrow> real) \<Rightarrow> real list \<Rightarrow> nat \<Rightarrow> nat \<Rightarrow> nat \<Rightarrow> buffer \<Rightarrow> buffer" where
  "window_samples hann samples n_samples frame_size offset fft_in =
    (let b = foldl (\<lambda>b j. b(j := hann j * samples ! (offset + j))) fft_in [0..<min frame_size (n_samples - offset)]
     in if n_samples - offset < frame_size
        then foldl (\<lambda>b j. b(j := 0)) b [n_samples - offset..<frame_size * 2] else b)"

definition modulus_squared :: "nat \<Rightarrow> buffer \<Rightarrow> buffer" where
  "modulus_squared n_fft out =
    foldl (\<lambda>out j. out(j := out (2 * j) * out (2 * j) + out (2 * j + 1) * out (2 * j + 1))) out [0..<n_fft]"

text \<open>Four products a round, and the remaining ones singly.\<close>

function mel_sum :: "buffer \<Rightarrow> (nat \<Rightarrow> real) \<Rightarrow> nat \<Rightarrow> nat \<Rightarrow> real \<Rightarrow> real" where
  "mel_sum out w n_fft k acc =
    (if k + 3 < n_fft
     then mel_sum out w n_fft (k + 4)
            (acc + (out k * w k + out (k + 1) * w (k + 1) + out (k + 2) * w (k + 2) + out (k + 3) * w (k + 3)))
     else foldl (\<lambda>acc k. acc + out k * w k) acc [k..<n_fft])"
  by pat_completeness auto
termination by (relation "measure (\<lambda>(out, w, n_fft, k, acc). n_fft - k)") auto

declare mel_sum.simps [simp del]

definition frame_column :: "whisper_filters \<Rightarrow> nat \<Rightarrow> nat \<Rightarrow> nat \<Rightarrow> buffer \<Rightarrow> (nat \<times> real) list" where
  "frame_column filters mel_n_mel mel_n_len i out =
    map (\<lambda>j. (j * mel_n_len + i,
        log 10 (max (mel_sum out (\<lambda>k. f_data filters ! (j * f_n_fft filters + k)) (f_n_fft filters) 0 0) (1 / 10 ^ 10))))
      [0..<mel_n_mel]"

text \<open>The second loop of a worker: frames behind the samples.\<close>

function silent_frames :: "nat \<Rightarrow> nat \<Rightarrow> nat \<Rightarrow> nat \<Rightarrow> (nat \<times> real) list" where
  "silent_frames n_threads mel_n_mel mel_n_len i =
    (if i < mel_n_len \<and> 0 < n_threads
     then map (\<lambda>j. (j * mel_n_len + i, log 10 (1 / 10 ^ 10))) [0..<mel_n_mel]
        @ silent_frames n_threads mel_n_mel mel_n_len (i + n_threads)
     else [])"
  by pat_completeness auto
termination by (relation "measure (\<lambda>(n_threads, mel_n_mel, mel_n_len, i). mel_n_len - i)") auto

declare silent_frames.simps [simp del]

function worker_frames :: "(nat \<Rightarrow> real) \<Rightarrow> real list \<Rightarrow> nat \<Rightarrow> nat \<Rightarrow> nat \<Rightarrow> nat \<Rightarrow> whisper_filters \<Rightarrow> nat \<Rightarrow> nat
    \<Rightarrow> nat \<Rightarrow> buffer \<Rightarrow> buffer \<Rightarrow> (nat \<times> real) list option" where
  "worker_frames hann samples n_samples frame_size frame_step n_threads filters mel_n_mel mel_n_len i fft_in fft_out =
    (if i < min (n_samples div frame_step + 1) mel_n_len \<and> 0 < n_threads
     then case fft frame_size 0 0 (window_samples hann samples n_samples frame_size (i * frame_step) fft_in) fft_out of
            None \<Rightarrow> None
          | Some (fft_in', fft_out') \<Rightarrow>
              let out = modulus_squared (f_n_fft filters) fft_out'
              in map_option ((@) (frame_column filters mel_n_mel mel_n_len i out))
                   (worker_frames hann samples n_samples frame_size frame_step n_threads filters mel_n_mel mel_n_len
                      (i + n_threads) fft_in' out)
     else Some (silent_frames n_threads mel_n_mel mel_n_len i))"
  by pat_completeness auto
termination
  by (relation "measure (\<lambda>(hann, samples, n_samples, frame_size, frame_step, n_threads, filters, mel_n_mel, mel_n_len, i,
      fft_in, fft_out). mel_n_len - i)") auto

declare worker_frames.simps [simp del]

definition log_mel_spectrogram_worker_thread :: "nat \<Rightarrow> (nat \<Rightarrow> real) \<Rightarrow> real list \<Rightarrow> nat \<Rightarrow> nat \<Rightarrow> nat \<Rightarrow> nat
    \<Rightarrow> whisper_filters \<Rightarrow> nat \<Rightarrow> nat \<Rightarrow> (nat \<times> real) list option" where
  "log_mel_spectrogram_worker_thread ith hann samples n_samples frame_size frame_step n_threads filters mel_n_mel mel_n_len =
    (if f_n_fft filters \<noteq> 1 + frame_size div 2 then None
     else worker_frames hann samples n_samples frame_size frame_step n_threads filters mel_n_mel mel_n_len ith
            (\<lambda>_. 0) (\<lambda>_. 0))"

section \<open>The spectrogram\<close>

text \<open>The samples behind the mirrored first ones, and before half a minute of silence.\<close>

definition pad_samples :: "real list \<Rightarrow> nat \<Rightarrow> real list" where
  "pad_samples samples frame_size =
    (let stage_1_pad = nat WHISPER_SAMPLE_RATE * 30; stage_2_pad = frame_size div 2
     in rev (take stage_2_pad (drop 1 samples)) @ samples @ replicate (stage_1_pad + stage_2_pad) 0)"

definition resize_data :: "nat \<Rightarrow> real list \<Rightarrow> real list" where
  "resize_data n xs = take n xs @ replicate (n - length xs) 0"

definition normalise_mel :: "real list \<Rightarrow> real list" where
  "normalise_mel d =
    (let mmax = foldl (\<lambda>mmax v. if v > mmax then v else mmax) (- (10 ^ 20)) d - 8
     in map (\<lambda>v. ((if v < mmax then mmax else v) + 4) / 4) d)"

definition log_mel_spectrogram :: "((nat \<times> real) list list \<Rightarrow> (nat \<times> real) list) \<Rightarrow> real list \<Rightarrow> nat \<Rightarrow> nat \<Rightarrow> nat \<Rightarrow> nat
    \<Rightarrow> whisper_filters \<Rightarrow> whisper_mel \<Rightarrow> whisper_mel option" where
  "log_mel_spectrogram merge samples frame_size frame_step mel_n_mel n_threads filters mel =
    (if frame_size \<noteq> WHISPER_N_FFT then None
     else
       let n_samples = length samples; stage_2_pad = frame_size div 2
       in if n_samples < 1 + stage_2_pad \<or> frame_step = 0 \<or> n_threads = 0 then None
          else
            let samples_padded = pad_samples samples frame_size;
                mel_n_len = (length samples_padded - frame_size) div frame_step;
                mel_n_len_org = 1 + cdiv (int n_samples + int stage_2_pad - int frame_size) (int frame_step);
                data0 = resize_data (mel_n_mel * mel_n_len) (mel_data mel);
                worker = (\<lambda>ith. log_mel_spectrogram_worker_thread ith hann_window samples_padded (n_samples + stage_2_pad)
                            frame_size frame_step n_threads filters mel_n_mel mel_n_len)
            in case those (map worker [0..<n_threads]) of
                 None \<Rightarrow> None
               | Some writes \<Rightarrow>
                   Some (mel\<lparr>n_mel := mel_n_mel, n_len := mel_n_len, n_len_org := mel_n_len_org,
                     mel_data := normalise_mel (foldl (\<lambda>d (x, v). d[x := v]) data0 (merge writes))\<rparr>))"

text \<open>The state keeps its spectrogram among its other fields; the transform of a call always succeeds.\<close>

definition whisper_pcm_to_mel_with_state :: "((nat \<times> real) list list \<Rightarrow> (nat \<times> real) list) \<Rightarrow> whisper_filters \<Rightarrow> whisper_mel
    \<Rightarrow> real list \<Rightarrow> nat \<Rightarrow> (int \<times> whisper_mel) option" where
  "whisper_pcm_to_mel_with_state merge filters mel samples n_threads =
    map_option (Pair 0)
      (log_mel_spectrogram merge samples WHISPER_N_FFT WHISPER_HOP_LENGTH (f_n_mel filters) n_threads filters mel)"

text \<open>A spectrogram computed elsewhere; a read behind its data is \<open>None\<close>.\<close>

definition whisper_set_mel_with_state :: "whisper_filters \<Rightarrow> whisper_mel \<Rightarrow> real list \<Rightarrow> nat \<Rightarrow> nat \<Rightarrow> (int \<times> whisper_mel) option" where
  "whisper_set_mel_with_state filters mel new_data new_n_len new_n_mel =
    (if new_n_mel \<noteq> f_n_mel filters then Some (-1, mel)
     else if length new_data < new_n_len * new_n_mel then None
     else Some (0, mel\<lparr>n_len := new_n_len, n_len_org := int new_n_len, n_mel := new_n_mel,
       mel_data := take (new_n_len * new_n_mel) new_data\<rparr>))"

section \<open>One frame\<close>

lemma window_samples_spec:
  assumes "n < frame_size"
  shows "window_samples hann samples n_samples frame_size offset fft_in n
    = (if n < n_samples - offset then hann n * samples ! (offset + n) else 0)"
proof -
  have fill: "foldl (\<lambda>b j. (b :: buffer)(j := g j)) b0 [l..<m] x = (if l \<le> x \<and> x < m then g x else b0 x)" for g b0 l m x
    by (induction m) auto
  show ?thesis unfolding window_samples_def Let_def fill
    using assms by (auto simp: fill)
qed

lemma modulus_squared_spec: "k < n_fft \<Longrightarrow> modulus_squared n_fft out k = (cmod (entry out 0 k))\<^sup>2"
proof -
  define f where "f = (\<lambda>(out :: buffer) j. out(j := out (2 * j) * out (2 * j) + out (2 * j + 1) * out (2 * j + 1)))"
  have "foldl f out [0..<m] x = (if x < m then (cmod (entry out 0 x))\<^sup>2 else out x)" for m x
  proof (induction m arbitrary: x)
    case (Suc m)
    define o1 where "o1 = foldl f out [0..<m]"
    have "o1 (2 * m) = out (2 * m)" "o1 (2 * m + 1) = out (2 * m + 1)" using Suc by (simp_all add: o1_def)
    moreover have "foldl f out [0..<Suc m] = f o1 m" by (simp add: o1_def)
    moreover have "o1 x = (if x < m then (cmod (entry out 0 x))\<^sup>2 else out x)" using Suc by (simp add: o1_def)
    moreover have "f o1 m x = (if x = m then o1 (2 * m) * o1 (2 * m) + o1 (2 * m + 1) * o1 (2 * m + 1) else o1 x)"
      by (simp add: f_def)
    moreover have "(cmod (entry out 0 m))\<^sup>2 = out (2 * m) * out (2 * m) + out (2 * m + 1) * out (2 * m + 1)"
      unfolding entry_def cmod_power2 by (simp add: power2_eq_square)
    ultimately show ?case by simp
  qed simp
  then show "k < n_fft \<Longrightarrow> ?thesis" by (simp add: modulus_squared_def f_def)
qed

lemma mel_sum_spec: "k \<le> n_fft \<Longrightarrow> mel_sum out w n_fft k s = s + (\<Sum>i = k..<n_fft. out i * w i)"
proof (induction out w n_fft k s rule: mel_sum.induct)
  case (1 out w n_fft k s)
  show ?case
  proof (cases "k + 3 < n_fft")
    case True
    define f where "f i = out i * w i" for i
    have "(\<Sum>i = k..<n_fft. f i) = f k + (f (k + 1) + (f (k + 2) + (f (k + 3) + (\<Sum>i = k + 4..<n_fft. f i))))"
      using True by (simp add: sum.atLeast_Suc_lessThan eval_nat_numeral)
    with 1 True show ?thesis by (subst mel_sum.simps) (simp add: f_def)
  next
    case False
    have "foldl (\<lambda>s k. s + out k * w k) s [k..<m] = s + (\<Sum>i = k..<m. out i * w i)" if "k \<le> m" for m
      using that by (induction m rule: dec_induct) simp_all
    with 1 False show ?thesis by (subst mel_sum.simps) simp
  qed
qed

text \<open>What a cell means: the energy of the frame in a band of the Fourier transform of the windowed samples.\<close>

definition mel_cell :: "whisper_filters \<Rightarrow> real list \<Rightarrow> nat \<Rightarrow> nat \<Rightarrow> real" where
  "mel_cell filters padded j i =
    log 10 (max (\<Sum>k<f_n_fft filters.
        (cmod (dft_spec (\<lambda>n. hann_window n * padded ! (i * WHISPER_HOP_LENGTH + n)) WHISPER_N_FFT k))\<^sup>2
          * f_data filters ! (j * f_n_fft filters + k)) (1 / 10 ^ 10))"

lemma dft_spec_zero: "\<forall>n < N. x n = 0 \<Longrightarrow> dft_spec x N k = 0"
  by (simp add: dft_spec_def)

lemma frame_correct:
  assumes "f_n_fft filters = 1 + WHISPER_N_FFT div 2" "i * WHISPER_HOP_LENGTH + WHISPER_N_FFT \<le> length padded"
    and "\<forall>x. n \<le> x \<and> x < length padded \<longrightarrow> padded ! x = 0"
  obtains inp' out' where
    "fft WHISPER_N_FFT 0 0
       (window_samples hann_window padded n WHISPER_N_FFT (i * WHISPER_HOP_LENGTH) fft_in) fft_out = Some (inp', out')"
    "frame_column filters m len i (modulus_squared (f_n_fft filters) out')
      = map (\<lambda>j. (j * len + i, mel_cell filters padded j i)) [0..<m]"
proof -
  define w where "w = window_samples hann_window padded n WHISPER_N_FFT (i * WHISPER_HOP_LENGTH) fft_in"
  obtain inp' out' where f: "fft WHISPER_N_FFT 0 0 w fft_out = Some (inp', out')"
    "\<forall>k < WHISPER_N_FFT. entry out' 0 k = dft_spec (\<lambda>n. w (0 + n)) WHISPER_N_FFT k"
    using fft_correct [of WHISPER_N_FFT 1 0 0 w fft_out] by (auto simp: WHISPER_N_FFT_def)
  have w: "w j = hann_window j * padded ! (i * WHISPER_HOP_LENGTH + j)" if "j < WHISPER_N_FFT" for j
    unfolding w_def window_samples_spec [OF that] using assms(2,3) that by auto
  have "dft_spec (\<lambda>n. w (0 + n)) WHISPER_N_FFT k
      = dft_spec (\<lambda>j. hann_window j * padded ! (i * WHISPER_HOP_LENGTH + j)) WHISPER_N_FFT k" for k
    unfolding dft_spec_def by (rule sum.cong) (simp_all add: w)
  then have e: "modulus_squared (f_n_fft filters) out' k
      = (cmod (dft_spec (\<lambda>j. hann_window j * padded ! (i * WHISPER_HOP_LENGTH + j)) WHISPER_N_FFT k))\<^sup>2"
    if "k < f_n_fft filters" for k
    using that f(2) assms(1) by (simp add: modulus_squared_spec WHISPER_N_FFT_def)
  have "mel_sum (modulus_squared (f_n_fft filters) out') (\<lambda>k. f_data filters ! (j * f_n_fft filters + k)) (f_n_fft filters) 0 0
      = (\<Sum>k<f_n_fft filters. (cmod (dft_spec (\<lambda>n. hann_window n * padded ! (i * WHISPER_HOP_LENGTH + n)) WHISPER_N_FFT k))\<^sup>2
          * f_data filters ! (j * f_n_fft filters + k))" for j
    by (simp add: mel_sum_spec atLeast0LessThan e)
  then have "frame_column filters m len i (modulus_squared (f_n_fft filters) out')
      = map (\<lambda>j. (j * len + i, mel_cell filters padded j i)) [0..<m]"
    by (simp add: frame_column_def mel_cell_def)
  with f(1) show ?thesis by (auto simp: w_def intro: that)
qed

lemma silent_cell:
  assumes "n < i * WHISPER_HOP_LENGTH" "i * WHISPER_HOP_LENGTH + WHISPER_N_FFT \<le> length padded"
    and "\<forall>x. n \<le> x \<and> x < length padded \<longrightarrow> padded ! x = 0"
  shows "mel_cell filters padded j i = log 10 (1 / 10 ^ 10)"
proof -
  have "dft_spec (\<lambda>n. hann_window n * padded ! (i * WHISPER_HOP_LENGTH + n)) WHISPER_N_FFT k = 0" for k
    using assms by (intro dft_spec_zero) auto
  then show ?thesis by (simp add: mel_cell_def)
qed

section \<open>All frames of a worker\<close>

definition stride_cells :: "(nat \<Rightarrow> nat \<Rightarrow> real) \<Rightarrow> nat \<Rightarrow> nat \<Rightarrow> nat \<Rightarrow> nat \<Rightarrow> (nat \<times> real) set" where
  "stride_cells c m len T i = {(j * len + i', c j i') | j i'. j < m \<and> i' < len \<and> i \<le> i' \<and> T dvd i' - i}"

lemma stride_cells_step:
  assumes "i < len" "0 < T"
  shows "stride_cells c m len T i = set (map (\<lambda>j. (j * len + i, c j i)) [0..<m]) \<union> stride_cells c m len T (i + T)"
proof -
  have "i' < len \<and> i \<le> i' \<and> T dvd i' - i \<longleftrightarrow> i' = i \<or> (i' < len \<and> i + T \<le> i' \<and> T dvd i' - (i + T))" for i'
  proof -
    have "T dvd i' - i \<longleftrightarrow> i' - i = 0 \<or> (T \<le> i' - i \<and> T dvd (i' - i) - T)"
      by (metis assms(2) dvd_0_right dvd_diffD dvd_imp_le dvd_minus_self dvd_refl not_gr_zero)
    then show ?thesis using assms by (auto simp: diff_diff_eq)
  qed
  then show ?thesis by (fastforce simp: stride_cells_def)
qed

lemma stride_cells_end: "len \<le> i \<Longrightarrow> stride_cells c m len T i = {}"
  by (auto simp: stride_cells_def)

lemma silent_frames_cells:
  assumes "0 < T" "\<forall>i'. i \<le> i' \<and> i' < len \<longrightarrow> (\<forall>j. c j i' = log 10 (1 / 10 ^ 10))"
  shows "set (silent_frames T m len i) = stride_cells c m len T i"
  using assms
proof (induction T m len i rule: silent_frames.induct)
  case (1 T m len i)
  show ?case
  proof (cases "i < len")
    case True
    then have "set (silent_frames T m len (i + T)) = stride_cells c m len T (i + T)" using 1 by simp
    then show ?thesis using True 1(2,3) by (subst silent_frames.simps) (simp add: stride_cells_step)
  qed (subst silent_frames.simps, simp add: stride_cells_end)
qed

lemma worker_frames_cells:
  assumes "f_n_fft filters = 1 + WHISPER_N_FFT div 2" "0 < T"
    and fit: "\<forall>i < len. i * WHISPER_HOP_LENGTH + WHISPER_N_FFT \<le> length padded"
    and zero: "\<forall>x. n \<le> x \<and> x < length padded \<longrightarrow> padded ! x = 0"
  shows "\<exists>ws. worker_frames hann_window padded n WHISPER_N_FFT WHISPER_HOP_LENGTH T filters m len i fft_in fft_out = Some ws \<and>
    set ws = stride_cells (mel_cell filters padded) m len T i"
proof (induction "len - i" arbitrary: i fft_in fft_out rule: less_induct)
  case less
  show ?case
  proof (cases "i < min (n div WHISPER_HOP_LENGTH + 1) len")
    case True
    then have "i * WHISPER_HOP_LENGTH + WHISPER_N_FFT \<le> length padded" using fit by simp
    then obtain inp' out' where
      f: "fft WHISPER_N_FFT 0 0
         (window_samples hann_window padded n WHISPER_N_FFT (i * WHISPER_HOP_LENGTH) fft_in) fft_out = Some (inp', out')"
      "frame_column filters m len i (modulus_squared (f_n_fft filters) out')
        = map (\<lambda>j. (j * len + i, mel_cell filters padded j i)) [0..<m]"
      by (rule frame_correct [OF assms(1) _ zero])
    have "i < len" using True by simp
    then have "len - (i + T) < len - i" using assms(2) by linarith
    from less [OF this] obtain ws where
      "worker_frames hann_window padded n WHISPER_N_FFT WHISPER_HOP_LENGTH T filters m len (i + T) inp'
         (modulus_squared (f_n_fft filters) out') = Some ws"
      "set ws = stride_cells (mel_cell filters padded) m len T (i + T)" by blast
    with f True assms(2) show ?thesis
      by (subst worker_frames.simps) (simp add: stride_cells_step)
  next
    case False
    have "mel_cell filters padded j i' = log 10 (1 / 10 ^ 10)" if "i \<le> i'" "i' < len" for i' j
    proof (rule silent_cell [OF _ _ zero])
      have "n div WHISPER_HOP_LENGTH < i'" using False that by simp
      then show "n < i' * WHISPER_HOP_LENGTH"
        by (simp add: div_less_iff_less_mult WHISPER_HOP_LENGTH_def)
    qed (use fit that in simp)
    then have "set (silent_frames T m len i) = stride_cells (mel_cell filters padded) m len T i"
      using silent_frames_cells [OF assms(2)] by blast
    with False show ?thesis by (subst worker_frames.simps) (simp only: simp_thms if_False, simp)
  qed
qed

text \<open>Together the workers write every cell.\<close>

lemma stride_cells_cover:
  assumes "0 < T"
  shows "(\<Union>t<T. stride_cells c m len T t) = {(j * len + i, c j i) | j i. j < m \<and> i < len}"
proof -
  have "\<exists>t<T. t \<le> i \<and> T dvd i - t" for i
    using assms by (intro exI [of _ "i mod T"]) (simp add: minus_mod_eq_mult_div)
  then have "(j * len + i, c j i) \<in> (\<Union>t<T. stride_cells c m len T t)" if "j < m" "i < len" for j i
  proof -
    obtain t where "t < T" "t \<le> i" "T dvd i - t" using \<open>\<And>i. \<exists>t<T. t \<le> i \<and> T dvd i - t\<close> by blast
    with that have "(j * len + i, c j i) \<in> stride_cells c m len T t" by (auto simp: stride_cells_def)
    with \<open>t < T\<close> show ?thesis by blast
  qed
  then show ?thesis by (auto simp: stride_cells_def)
qed

text \<open>Writes that agree on the value of each index can come in any order.\<close>

lemma foldl_writes:
  assumes "\<forall>(x, v) \<in> set ws. v = F x" "k < length d"
  shows "foldl (\<lambda>d (x, v). d[x := v]) d ws ! k = (if k \<in> fst ` set ws then F k else d ! k)"
  using assms
proof (induction ws arbitrary: d)
  case (Cons w ws)
  obtain x v where w: "w = (x, v)" by (cases w)
  have "foldl (\<lambda>d (x, v). d[x := v]) (d[x := v]) ws ! k = (if k \<in> fst ` set ws then F k else d[x := v] ! k)"
    using Cons.prems by (intro Cons.IH) simp_all
  then show ?case using Cons.prems by (auto simp: w nth_list_update)
qed simp

lemma length_foldl_writes [simp]: "length (foldl (\<lambda>d (x, v). d[x := v]) d ws) = length d"
  by (induction ws arbitrary: d) (auto split: prod.splits)

lemma cell_index:
  assumes "i < (len :: nat)"
  shows "(j * len + i) div len = j" "(j * len + i) mod len = i"
  using assms by simp_all

lemma all_writes:
  assumes "f_n_fft filters = 1 + WHISPER_N_FFT div 2" "0 < T"
    and "\<forall>i < len. i * WHISPER_HOP_LENGTH + WHISPER_N_FFT \<le> length padded"
    and "\<forall>x. n \<le> x \<and> x < length padded \<longrightarrow> padded ! x = 0"
    and merge: "\<forall>wss. set (merge wss) = \<Union> (set ` set wss)" and "length d = m * len"
  obtains wss where
    "those (map (\<lambda>ith. log_mel_spectrogram_worker_thread ith hann_window padded n WHISPER_N_FFT WHISPER_HOP_LENGTH T
        filters m len) [0..<T]) = Some wss"
    "foldl (\<lambda>d (x, v). d[x := v]) d (merge wss)
      = map (\<lambda>x. mel_cell filters padded (x div len) (x mod len)) [0..<m * len]"
proof -
  let ?c = "mel_cell filters padded"
  let ?w = "\<lambda>ith. log_mel_spectrogram_worker_thread ith hann_window padded n WHISPER_N_FFT WHISPER_HOP_LENGTH T filters m len"
  have "\<forall>t. \<exists>ws. ?w t = Some ws \<and> set ws = stride_cells ?c m len T t"
    using worker_frames_cells [OF assms(1-4)] assms(1) by (simp add: log_mel_spectrogram_worker_thread_def)
  then obtain g where g: "\<And>t. ?w t = Some (g t)" "\<And>t. set (g t) = stride_cells ?c m len T t" by metis
  let ?ws = "merge (map g [0..<T])"
  have ws: "set ?ws = {(j * len + i, ?c j i) | j i. j < m \<and> i < len}"
    using merge by (simp add: g(2) stride_cells_cover [OF assms(2)] atLeast0LessThan)
  have "\<forall>(x, v) \<in> set ?ws. v = ?c (x div len) (x mod len)" by (auto simp: ws)
  moreover have "k \<in> fst ` set ?ws" if "k < m * len" for k
  proof -
    have "0 < len" using that by (cases len) simp_all
    then have "(k div len * len + k mod len, ?c (k div len) (k mod len)) \<in> set ?ws"
      unfolding ws using that
      by (intro CollectI exI [of _ "k div len"] exI [of _ "k mod len"]) (simp add: div_less_iff_less_mult)
    then show ?thesis by force
  qed
  ultimately have "foldl (\<lambda>d (x, v). d[x := v]) d ?ws ! k = ?c (k div len) (k mod len)" if "k < m * len" for k
    using foldl_writes [of ?ws "\<lambda>x. ?c (x div len) (x mod len)" k d] that assms(6) by simp
  then have "foldl (\<lambda>d (x, v). d[x := v]) d ?ws = map (\<lambda>x. ?c (x div len) (x mod len)) [0..<m * len]"
    by (intro nth_equalityI) (simp_all add: assms(6))
  with those_map_Some [of "[0..<T]" ?w g] g(1) show ?thesis by (intro that) simp_all
qed

section \<open>The spectrogram does not depend on the threads\<close>

lemma normalise_mel_spec:
  assumes "\<forall>v \<in> set d. - 10 \<le> v"
  shows "normalise_mel d = map (\<lambda>v. (max v (Max (set d) - 8) + 4) / 4) d"
proof (cases "d = []")
  case False
  have "foldl (\<lambda>mmax v. if v > mmax then v else mmax) a xs = fold max xs a" for a :: real and xs
    by (induction xs arbitrary: a) (simp_all add: max_def)
  then have "foldl (\<lambda>mmax v. if v > mmax then v else mmax) a xs = Max (insert a (set xs))" for a :: real and xs
    using Max.set_eq_fold [of a xs] by simp
  then have "foldl (\<lambda>mmax v. if v > mmax then v else mmax) (- (10 ^ 20)) d = Max (insert (- (10 ^ 20)) (set d))" by blast
  also have "\<dots> = max (- (10 ^ 20)) (Max (set d))" using False by simp
  also have "\<dots> = Max (set d)"
  proof -
    from False have "Max (set d) \<in> set d" by simp
    then have "- 10 \<le> Max (set d)" using assms by blast
    then show ?thesis by simp
  qed
  finally show ?thesis by (auto simp: normalise_mel_def Let_def max_def)
qed (simp add: normalise_mel_def)

lemma mel_cell_ge: "- 10 \<le> mel_cell filters padded j i"
proof -
  have "log 10 (1 / 10 ^ 10 :: real) = - 10"
    using log_nat_power [of 10 10 10] by (simp add: log_divide)
  moreover have "log 10 (1 / 10 ^ 10 :: real) \<le> mel_cell filters padded j i"
    unfolding mel_cell_def by (intro log_mono) auto
  ultimately show ?thesis by simp
qed

lemma pad_samples_facts:
  assumes "200 < length samples"
  shows "length (pad_samples samples WHISPER_N_FFT) = length samples + 480400"
    "\<forall>x. length samples + 200 \<le> x \<and> x < length (pad_samples samples WHISPER_N_FFT) \<longrightarrow>
      pad_samples samples WHISPER_N_FFT ! x = 0"
  using assms by (auto simp: pad_samples_def Let_def WHISPER_N_FFT_def WHISPER_SAMPLE_RATE_def nth_append)

lemma mel_of_samples:
  assumes "200 < length samples" "0 < n_threads" "f_n_fft filters = 1 + WHISPER_N_FFT div 2"
    and merge: "\<forall>wss. mset (merge wss) = mset (concat wss)"
  defines "len \<equiv> 3000 + length samples div 160"
  defines "cells \<equiv> map (\<lambda>x. mel_cell filters (pad_samples samples WHISPER_N_FFT) (x div len) (x mod len)) [0..<f_n_mel filters * len]"
  shows "whisper_pcm_to_mel_with_state merge filters mel samples n_threads
    = Some (0, mel\<lparr>n_mel := f_n_mel filters, n_len := len, n_len_org := 1 + (int (length samples) - 200) div 160,
        mel_data := map (\<lambda>v. (max v (Max (set cells) - 8) + 4) / 4) cells\<rparr>)"
proof -
  let ?p = "pad_samples samples WHISPER_N_FFT"
  note facts = pad_samples_facts [OF assms(1)]
  have len: "(length ?p - WHISPER_N_FFT) div WHISPER_HOP_LENGTH = len"
    unfolding facts(1) len_def by (simp add: WHISPER_N_FFT_def WHISPER_HOP_LENGTH_def)
  have fit: "\<forall>i < len. i * WHISPER_HOP_LENGTH + WHISPER_N_FFT \<le> length ?p"
  proof (intro allI impI)
    fix i assume "i < len"
    moreover have "length samples div 160 * 160 \<le> length samples" by simp
    ultimately have "i * 160 \<le> length samples + 480000" unfolding len_def by linarith
    then show "i * WHISPER_HOP_LENGTH + WHISPER_N_FFT \<le> length ?p"
      unfolding facts(1) by (simp add: WHISPER_N_FFT_def WHISPER_HOP_LENGTH_def)
  qed
  have m: "\<forall>wss. set (merge wss) = \<Union> (set ` set wss)"
    using merge by (metis mset_eq_setD set_concat)
  have "length (resize_data (f_n_mel filters * len) (mel_data mel)) = f_n_mel filters * len" by (simp add: resize_data_def)
  from all_writes [OF assms(3,2) fit facts(2) m this] obtain wss where
    "those (map (\<lambda>ith. log_mel_spectrogram_worker_thread ith hann_window ?p (length samples + 200) WHISPER_N_FFT
        WHISPER_HOP_LENGTH n_threads filters (f_n_mel filters) len) [0..<n_threads]) = Some wss"
    "foldl (\<lambda>d (x, v). d[x := v]) (resize_data (f_n_mel filters * len) (mel_data mel)) (merge wss) = cells"
    unfolding cells_def by blast
  moreover have "normalise_mel cells = map (\<lambda>v. (max v (Max (set cells) - 8) + 4) / 4) cells"
    by (intro normalise_mel_spec) (auto simp: cells_def mel_cell_ge)
  moreover have "WHISPER_N_FFT div 2 = 200" "WHISPER_HOP_LENGTH \<noteq> 0"
    "cdiv (int (length samples) + int 200 - int WHISPER_N_FFT) (int WHISPER_HOP_LENGTH) = (int (length samples) - 200) div 160"
    using assms(1) by (simp_all add: WHISPER_N_FFT_def WHISPER_HOP_LENGTH_def cdiv_def)
  ultimately show ?thesis
    using assms(1,2) by (simp add: whisper_pcm_to_mel_with_state_def log_mel_spectrogram_def Let_def len)
qed

text \<open>C6: 
  The spectrogram of a recording of more than 200 samples, with any number of threads and any order of their
  writes: the length is that of the recording and half a minute, in steps of 10 ms, and each value is the
  logarithm of the energy of its frame in its band, raised to at least 8 below the largest one and scaled.
  The old contents of the spectrogram and the stale contents of the buffers have no part in it.
\<close>

theorem mel_independent_of_threads:
  assumes "200 < length samples" "0 < n_threads" "f_n_fft filters = 1 + WHISPER_N_FFT div 2"
    and "\<forall>wss. mset (merge wss) = mset (concat wss)"
  shows "let len = 3000 + length samples div 160;
             cells = map (\<lambda>x. mel_cell filters (pad_samples samples WHISPER_N_FFT) (x div len) (x mod len))
                       [0..<f_n_mel filters * len]
         in whisper_pcm_to_mel_with_state merge filters mel samples n_threads
           = Some (0, mel\<lparr>n_mel := f_n_mel filters, n_len := len, n_len_org := 1 + (int (length samples) - 200) div 160,
               mel_data := map (\<lambda>v. (max v (Max (set cells) - 8) + 4) / 4) cells\<rparr>)"
  using mel_of_samples [OF assms] by (simp only: Let_def)

definition demo_filters :: whisper_filters where
  "demo_filters = \<lparr>f_n_mel = 1, f_n_fft = 201, f_data = replicate 201 1\<rparr>"

definition demo_mel :: whisper_mel where
  "demo_mel = \<lparr>n_len = 0, n_len_org = 0, n_mel = 0, mel_data = []\<rparr>"

lemma demo_filters_fft: "f_n_fft demo_filters = 1 + WHISPER_N_FFT div 2"
  by (simp add: demo_filters_def WHISPER_N_FFT_def)

theorem mel_independent_of_threads_witness:
  "\<exists>mel. whisper_pcm_to_mel_with_state concat demo_filters demo_mel (replicate 16000 0) 4 = Some (0, mel) \<and>
    n_len mel = 3100 \<and> n_len_org mel = 99"
  using mel_independent_of_threads [of "replicate 16000 0" 4 demo_filters concat demo_mel, OF _ _ demo_filters_fft]
  unfolding Let_def by simp

text \<open>
  The values that the encoder sees lie within 2 of each other, above -3/2, and there is one for each band and frame.
\<close>

theorem mel_values_bounded:
  assumes "200 < length samples" "0 < n_threads" "f_n_fft filters = 1 + WHISPER_N_FFT div 2"
    and "\<forall>wss. mset (merge wss) = mset (concat wss)"
    and "whisper_pcm_to_mel_with_state merge filters mel samples n_threads = Some (r, mel')"
  shows "r = 0 \<and> length (mel_data mel') = n_mel mel' * n_len mel' \<and>
    (\<forall>v \<in> set (mel_data mel'). - 3 / 2 \<le> v \<and> (\<forall>w \<in> set (mel_data mel'). v - w \<le> 2))"
proof -
  define len where "len = 3000 + length samples div 160"
  define cells where "cells = map (\<lambda>x. mel_cell filters (pad_samples samples WHISPER_N_FFT) (x div len) (x mod len))
      [0..<f_n_mel filters * len]"
  let ?M = "Max (set cells)"
  have "mel' = mel\<lparr>n_mel := f_n_mel filters, n_len := len, n_len_org := 1 + (int (length samples) - 200) div 160,
        mel_data := map (\<lambda>v. (max v (?M - 8) + 4) / 4) cells\<rparr>" "r = 0"
    using mel_of_samples [OF assms(1-4), of mel] assms(5) by (simp_all add: len_def cells_def)
  moreover have "length cells = f_n_mel filters * len" by (simp add: cells_def)
  moreover have ge: "- 10 \<le> v \<and> v \<le> ?M" if "v \<in> set cells" for v
    using that by (auto simp: cells_def mel_cell_ge intro!: Max_ge)
  then have "- 3 / 2 \<le> (max v (?M - 8) + 4) / 4" if "v \<in> set cells" for v
  proof -
    have "- 10 \<le> max v (?M - 8)" using ge [OF that] by (simp add: max_def)
    then show ?thesis by argo
  qed
  moreover have "(max v (?M - 8) + 4) / 4 - (max w (?M - 8) + 4) / 4 \<le> 2" if "v \<in> set cells" for v w
  proof -
    have "max v (?M - 8) \<le> max w (?M - 8) + 8" using ge [OF that] by (simp add: max_def)
    then show ?thesis by argo
  qed
  ultimately show ?thesis by auto
qed

theorem mel_values_bounded_witness:
  "\<exists>mel. whisper_pcm_to_mel_with_state concat demo_filters demo_mel (replicate 16000 0) 4 = Some (0, mel) \<and>
    length (mel_data mel) = 3100 \<and> - 3 / 2 \<le> mel_data mel ! 7"
proof -
  have a: "200 < length (replicate 16000 (0 :: real))" "(0 :: nat) < 4" "\<forall>wss :: (nat \<times> real) list list. mset (concat wss) = mset (concat wss)"
    by simp_all
  note m = mel_of_samples [of "replicate 16000 0" 4 demo_filters concat demo_mel, OF a(1,2) demo_filters_fft a(3)]
  then obtain mel where mel: "whisper_pcm_to_mel_with_state concat demo_filters demo_mel (replicate 16000 0) 4 = Some (0, mel)"
    "n_mel mel = 1" "n_len mel = 3100" by (simp add: demo_filters_def)
  from mel_values_bounded [OF a(1,2) demo_filters_fft a(3) mel(1)] mel(2,3)
  have b: "length (mel_data mel) = 3100" "\<forall>v \<in> set (mel_data mel). - 3 / 2 \<le> v" by auto
  then have "- 3 / 2 \<le> mel_data mel ! 7" by simp
  with mel(1) b(1) show ?thesis by blast
qed

end
