(* ===== verification/Dtw_Alignment.thy ===== *)
theory Dtw_Alignment
  imports Complex_Main Prelude "HOL-Library.Multiset"
begin

text \<open>
  Dynamic time warping of \<open>whisper.cpp\<close>: \<open>dtw_and_backtrace\<close> and the \<open>median_filter\<close> in front of it.

  Tensors are functions from indices to numbers; \<open>INFINITY\<close> is the cost \<open>None\<close>.  A write outside of the
  buffer of the path and a failed assertion are \<open>None\<close>.
\<close>

section \<open>Costs\<close>

type_synonym 'a grid = "nat \<Rightarrow> nat \<Rightarrow> 'a"

fun inf_less :: "real option \<Rightarrow> real option \<Rightarrow> bool" where
  "inf_less None b \<longleftrightarrow> False"
| "inf_less (Some a) None \<longleftrightarrow> True"
| "inf_less (Some a) (Some b) \<longleftrightarrow> a < b"

definition set_nd :: "'a grid \<Rightarrow> nat \<Rightarrow> nat \<Rightarrow> 'a \<Rightarrow> 'a grid" where
  "set_nd t i j v = t(i := (t i)(j := v))"

definition dtw_choice :: "real option \<Rightarrow> real option \<Rightarrow> real option \<Rightarrow> real option \<times> int" where
  "dtw_choice c0 c1 c2 =
    (if inf_less c0 c1 \<and> inf_less c0 c2 then (c0, 0)
     else if inf_less c1 c0 \<and> inf_less c1 c2 then (c1, 1)
     else (c2, 2))"

definition dtw_cell :: "real grid \<Rightarrow> nat \<Rightarrow> real option grid \<times> int grid \<Rightarrow> nat \<Rightarrow> real option grid \<times> int grid" where
  "dtw_cell x j = (\<lambda>(cost, trace) i.
    let (c, t) = dtw_choice (cost (i - 1) (j - 1)) (cost (i - 1) j) (cost i (j - 1))
    in (set_nd cost i j (map_option (\<lambda>c. x (i - 1) (j - 1) + c) c), set_nd trace i j t))"

definition dtw_table :: "nat \<Rightarrow> nat \<Rightarrow> real grid \<Rightarrow> real option grid \<times> int grid" where
  "dtw_table N M x =
    foldl (\<lambda>s j. foldl (dtw_cell x j) s [1..<N + 1]) (set_nd (\<lambda>_ _. None) 0 0 (Some 0), \<lambda>_ _. -1) [1..<M + 1]"

section \<open>The way back\<close>

definition trace_borders :: "nat \<Rightarrow> nat \<Rightarrow> int grid \<Rightarrow> int grid" where
  "trace_borders N M trace =
    foldl (\<lambda>t i. set_nd t i 0 1) (foldl (\<lambda>t i. set_nd t 0 i 2) trace [0..<M + 1]) [0..<N + 1]"

function backtrace :: "int grid \<Rightarrow> int \<Rightarrow> nat \<Rightarrow> nat \<Rightarrow> int \<Rightarrow> (int \<Rightarrow> int \<times> int) \<Rightarrow> ((int \<Rightarrow> int \<times> int) \<times> int) option" where
  "backtrace trace rows i j bt_row_idx bt =
    (if i = 0 \<and> j = 0 then Some (bt, bt_row_idx)
     else if bt_row_idx < 0 \<or> rows \<le> bt_row_idx then None
     else
       let bt' = bt(bt_row_idx := (int i - 1, int j - 1)); t = trace i j
       in if t = 0 \<and> 0 < i \<and> 0 < j then backtrace trace rows (i - 1) (j - 1) (bt_row_idx - 1) bt'
          else if t = 1 \<and> 0 < i then backtrace trace rows (i - 1) j (bt_row_idx - 1) bt'
          else if t = 2 \<and> 0 < j then backtrace trace rows i (j - 1) (bt_row_idx - 1) bt'
          else None)"
  by pat_completeness auto
termination by (relation "measure (\<lambda>(trace, rows, i, j, bt_row_idx, bt). i + j)") auto

declare backtrace.simps [simp del]

definition ggml_n_dims :: "nat list \<Rightarrow> nat" where
  "ggml_n_dims ne = (case find (\<lambda>i. ne ! i > 1) [3, 2, 1] of Some i \<Rightarrow> i + 1 | None \<Rightarrow> 1)"

text \<open>The tensor must have two dimensions; one with a single row counts as a vector.\<close>

definition dtw_and_backtrace :: "nat \<Rightarrow> nat \<Rightarrow> real grid \<Rightarrow> (int \<times> int) list option" where
  "dtw_and_backtrace N M x =
    (if ggml_n_dims [N, M, 1, 1] \<noteq> 2 then None else
     let BT_MAX_ROWS = int N + int M - 1; trace = trace_borders N M (snd (dtw_table N M x))
     in case backtrace trace BT_MAX_ROWS N M (BT_MAX_ROWS - 1) (\<lambda>_. (0, 0)) of
          None \<Rightarrow> None
        | Some (bt, bt_row_idx) \<Rightarrow>
            Some (map (\<lambda>k. bt (int k + bt_row_idx + 1)) [0..<nat (BT_MAX_ROWS - bt_row_idx - 1)]))"

section \<open>The median filter\<close>

text \<open>Mirrored at both ends.\<close>

definition reflect :: "int \<Rightarrow> int \<Rightarrow> int" where
  "reflect n idx = (if idx < 0 then - idx else if idx \<ge> n then 2 * (n - 1) - idx else idx)"

definition median_at :: "nat \<Rightarrow> nat \<Rightarrow> (nat \<Rightarrow> real) \<Rightarrow> nat \<Rightarrow> real option" where
  "median_at filter_width n row k =
    (let idxs = map (\<lambda>off. reflect (int n) (int k + off)) [cdiv (- int filter_width) 2..cdiv (int filter_width) 2]
     in if list_all (\<lambda>idx. 0 \<le> idx \<and> idx < int n) idxs
        then Some (let xs = sort (map (\<lambda>idx. row (nat idx)) idxs) in xs ! (length xs div 2)) else None)"

text \<open>The filter runs along the third dimension of a tensor with \<open>ne0 * ne1 * ne2\<close> numbers.\<close>

definition median_filter :: "nat \<Rightarrow> nat \<Rightarrow> nat \<Rightarrow> nat \<Rightarrow> (nat \<Rightarrow> nat \<Rightarrow> nat \<Rightarrow> real) \<Rightarrow> (nat \<Rightarrow> nat \<Rightarrow> nat \<Rightarrow> real option) option" where
  "median_filter filter_width ne0 ne1 ne2 a =
    (if \<not> filter_width < ne2 \<or> filter_width mod 2 = 0 then None
     else Some (\<lambda>i j k. if i < ne0 \<and> j < ne1 \<and> k < ne2 then median_at filter_width ne2 (a i j) k else None))"

section \<open>The tables\<close>

text \<open>The recurrence that the loops compute.\<close>

function dtw_cost :: "real grid \<Rightarrow> nat \<Rightarrow> nat \<Rightarrow> real option" where
  "dtw_cost x 0 0 = Some 0"
| "dtw_cost x 0 (Suc j) = None"
| "dtw_cost x (Suc i) 0 = None"
| "dtw_cost x (Suc i) (Suc j) =
    map_option (\<lambda>c. x i j + c) (fst (dtw_choice (dtw_cost x i j) (dtw_cost x i (Suc j)) (dtw_cost x (Suc i) j)))"
  by pat_completeness auto
termination by (relation "measure (\<lambda>(x, i, j). i + j)") auto

definition dtw_step :: "real grid \<Rightarrow> nat \<Rightarrow> nat \<Rightarrow> int" where
  "dtw_step x i j = snd (dtw_choice (dtw_cost x i j) (dtw_cost x i (Suc j)) (dtw_cost x (Suc i) j))"

definition filled :: "real grid \<Rightarrow> nat \<Rightarrow> nat \<Rightarrow> nat \<Rightarrow> real option grid \<times> int grid \<Rightarrow> bool" where
  "filled x N j i s \<longleftrightarrow>
    (\<forall>a b. a \<le> N \<longrightarrow> a = 0 \<or> b = 0 \<or> b < j \<or> (b = j \<and> a \<le> i) \<longrightarrow> fst s a b = dtw_cost x a b) \<and>
    (\<forall>a b. a < N \<longrightarrow> Suc b < j \<or> (Suc b = j \<and> a < i) \<longrightarrow> snd s (Suc a) (Suc b) = dtw_step x a b)"

lemma dtw_cost_border [simp]: "dtw_cost x 0 b = (if b = 0 then Some 0 else None)" "dtw_cost x (Suc i) 0 = None"
  by (cases b) simp_all

lemma dtw_cell_fills:
  assumes "filled x N (Suc j) i s" "i < N"
  shows "filled x N (Suc j) (Suc i) (dtw_cell x (Suc j) s (Suc i))"
proof -
  obtain cost trace where s: "s = (cost, trace)" by fastforce
  obtain c t where ct: "dtw_choice (cost i j) (cost i (Suc j)) (cost (Suc i) j) = (c, t)" by fastforce
  have "cost i j = dtw_cost x i j" "cost i (Suc j) = dtw_cost x i (Suc j)" "cost (Suc i) j = dtw_cost x (Suc i) j"
    using assms by (simp_all add: filled_def s)
  with ct have "dtw_cost x (Suc i) (Suc j) = map_option (\<lambda>c. x i j + c) c" "dtw_step x i j = t"
    by (simp_all add: dtw_step_def)
  moreover have "dtw_cell x (Suc j) s (Suc i) = (set_nd cost (Suc i) (Suc j) (map_option (\<lambda>c. x i j + c) c), set_nd trace (Suc i) (Suc j) t)"
    by (simp add: dtw_cell_def s ct)
  ultimately show ?thesis
    using assms unfolding filled_def by (auto simp: s set_nd_def less_Suc_eq_le le_Suc_eq)
qed

lemma dtw_table_filled: "filled x N (Suc M) 0 (dtw_table N M x)"
proof -
  let ?init = "(set_nd (\<lambda>_ _. None) 0 0 (Some 0), \<lambda>_ _. -1)"
  have row: "filled x N (Suc j) i (foldl (dtw_cell x (Suc j)) s [1..<i + 1])" if "filled x N (Suc j) 0 s" "i \<le> N" for s i j
    using that(2)
  proof (induction i)
    case (Suc i)
    then have "filled x N (Suc j) i (foldl (dtw_cell x (Suc j)) s [1..<i + 1])" by simp
    from dtw_cell_fills [OF this] Suc.prems show ?case by simp
  qed (simp add: that)
  have nxt: "filled x N (Suc (Suc j)) 0 s" if "filled x N (Suc j) N s" for s j
    using that unfolding filled_def by (auto simp: less_Suc_eq)
  have "filled x N (Suc j) 0 (foldl (\<lambda>s j. foldl (dtw_cell x j) s [1..<N + 1]) ?init [1..<j + 1])" for j
  proof (induction j)
    case 0
    have "dtw_cost x a b = None" if "a = 0 \<or> b = 0" "a \<noteq> 0 \<or> b \<noteq> 0" for a b
      using that by (cases a) auto
    then show ?case by (auto simp: filled_def set_nd_def)
  next
    case (Suc j)
    from nxt [OF row [OF this order.refl]] show ?case by simp
  qed
  then show ?thesis by (simp add: dtw_table_def)
qed

section \<open>Paths\<close>

fun path_step :: "nat \<times> nat \<Rightarrow> nat \<times> nat \<Rightarrow> bool" where
  "path_step (a, b) (c, d) \<longleftrightarrow> (c = Suc a \<and> d = Suc b) \<or> (c = Suc a \<and> d = b) \<or> (c = a \<and> d = Suc b)"

text \<open>From the first cell to the cell \<open>(i, j)\<close>.\<close>

definition path_to :: "nat \<Rightarrow> nat \<Rightarrow> (nat \<times> nat) list \<Rightarrow> bool" where
  "path_to i j ps \<longleftrightarrow> ps \<noteq> [] \<and> hd ps = (0, 0) \<and> last ps = (i, j) \<and> successively path_step ps"

definition path_cost :: "real grid \<Rightarrow> (nat \<times> nat) list \<Rightarrow> real" where
  "path_cost x ps = (\<Sum>(i, j) \<leftarrow> ps. x i j)"

text \<open>The path that the steps of the table describe.\<close>

function dtw_path :: "real grid \<Rightarrow> nat \<Rightarrow> nat \<Rightarrow> (nat \<times> nat) list" where
  "dtw_path x 0 j = []"
| "dtw_path x (Suc i) 0 = []"
| "dtw_path x (Suc i) (Suc j) =
    (if dtw_step x i j = 0 then dtw_path x i j
     else if dtw_step x i j = 1 then dtw_path x i (Suc j) else dtw_path x (Suc i) j) @ [(i, j)]"
  by pat_completeness auto
termination by (relation "measure (\<lambda>(x, i, j). i + j)") auto

lemma inf_less_asym: "inf_less a b \<Longrightarrow> \<not> inf_less b a"
  by (cases a; cases b) simp_all

lemma inf_less_finite: "inf_less a b \<Longrightarrow> \<exists>v. a = Some v"
  by (cases a) simp_all

lemma inf_less_None [simp]: "inf_less a None \<longleftrightarrow> a \<noteq> None"
  by (cases a) simp_all

declare dtw_cost.simps(4) [simp del] dtw_path.simps(3) [simp del]

lemma dtw_step_range: "dtw_step x i j \<in> {0, 1, 2}"
  by (auto simp: dtw_step_def dtw_choice_def)

lemma dtw_cost_step:
  "dtw_cost x (Suc i) (Suc j) = map_option (\<lambda>c. x i j + c)
    (if dtw_step x i j = 0 then dtw_cost x i j else if dtw_step x i j = 1 then dtw_cost x i (Suc j) else dtw_cost x (Suc i) j)"
  by (simp add: dtw_cost.simps(4) dtw_step_def dtw_choice_def)

text \<open>At the borders of the table there is only one way, and all costs inside are finite.\<close>

lemma dtw_step_column:
  "dtw_step x 0 0 = 0 \<and> (\<exists>c. dtw_cost x (Suc i) 1 = Some c) \<and> dtw_step x (Suc i) 0 = 1"
proof -
  have 0: "dtw_step x 0 0 = 0" by (simp add: dtw_step_def dtw_choice_def)
  have c: "\<exists>c. dtw_cost x (Suc i) 1 = Some c" for i
  proof (induction i)
    case 0
    with \<open>dtw_step x 0 0 = 0\<close> dtw_cost_step [of x 0 0] show ?case by simp
  next
    case (Suc i)
    then have "dtw_step x (Suc i) 0 = 1" by (auto simp: dtw_step_def dtw_choice_def)
    with Suc dtw_cost_step [of x "Suc i" 0] show ?case by auto
  qed
  then have "dtw_step x (Suc i) 0 = 1" using c [of i] by (auto simp: dtw_step_def dtw_choice_def)
  with 0 c show ?thesis by blast
qed

lemma dtw_step_row: "dtw_step x 0 (Suc j) = 2"
  by (simp add: dtw_step_def dtw_choice_def)

lemma dtw_cost_finite: "\<exists>c. dtw_cost x (Suc i) (Suc j) = Some c"
proof (induction "i + j" arbitrary: i j rule: less_induct)
  case less
  show ?case
  proof (cases j)
    case 0
    then show ?thesis using dtw_step_column [of x i] by simp
  next
    case (Suc j')
    then obtain c2 where "dtw_cost x (Suc i) j = Some c2" using less [of i j'] by auto
    moreover have "dtw_step x i j = 0 \<Longrightarrow> \<exists>v. dtw_cost x i j = Some v" "dtw_step x i j = 1 \<Longrightarrow> \<exists>v. dtw_cost x i (Suc j) = Some v"
      by (auto simp: dtw_step_def dtw_choice_def dest: inf_less_finite split: if_splits)
    ultimately show ?thesis by (auto simp: dtw_cost_step)
  qed
qed

lemma path_to_snoc:
  assumes "path_to a b ps" "path_step (a, b) (i, j)"
  shows "path_to i j (ps @ [(i, j)])"
  using assms by (auto simp: path_to_def successively_append_iff)

definition good_path :: "real grid \<Rightarrow> nat \<Rightarrow> nat \<Rightarrow> bool" where
  "good_path x i j \<longleftrightarrow> path_to i j (dtw_path x (Suc i) (Suc j)) \<and>
    dtw_cost x (Suc i) (Suc j) = Some (path_cost x (dtw_path x (Suc i) (Suc j))) \<and>
    length (dtw_path x (Suc i) (Suc j)) \<le> i + j + 1"

lemma good_path_extend:
  assumes "good_path x a b" "path_step (a, b) (i, j)"
    and "dtw_path x (Suc i) (Suc j) = dtw_path x (Suc a) (Suc b) @ [(i, j)]"
    and "dtw_cost x (Suc i) (Suc j) = map_option (\<lambda>c. x i j + c) (dtw_cost x (Suc a) (Suc b))"
  shows "good_path x i j"
proof -
  have "a + b < i + j" using assms(2) by auto
  with assms show ?thesis by (auto simp: good_path_def path_cost_def intro: path_to_snoc)
qed

lemma dtw_path_correct: "good_path x i j"
proof (induction "i + j" arbitrary: i j rule: less_induct)
  case less
  consider (start) "i = 0" "j = 0" | (left) i' where "i = Suc i'" "dtw_step x i j = 1"
    | (diag) i' j' where "i = Suc i'" "j = Suc j'" "dtw_step x i j = 0" | (up) j' where "j = Suc j'" "dtw_step x i j = 2"
    using dtw_step_range [of x i j] dtw_step_column [of x] dtw_step_row [of x] by (cases i; cases j) auto
  then show ?case
  proof cases
    case start
    then show ?thesis using dtw_step_column [of x 0] dtw_cost_step [of x 0 0]
      by (simp add: good_path_def dtw_path.simps(3) path_to_def path_cost_def)
  next
    case left
    show ?thesis
      by (rule good_path_extend [OF less [of i' j]]) (use left in \<open>simp_all add: dtw_path.simps(3) dtw_cost_step\<close>)
  next
    case diag
    show ?thesis
      by (rule good_path_extend [OF less [of i' j']]) (use diag in \<open>simp_all add: dtw_path.simps(3) dtw_cost_step\<close>)
  next
    case up
    show ?thesis
      by (rule good_path_extend [OF less [of i j']]) (use up in \<open>simp_all add: dtw_path.simps(3) dtw_cost_step\<close>)
  qed
qed

section \<open>Walking back\<close>

lemma trace_borders_inside: "trace_borders N M t (Suc a) (Suc b) = t (Suc a) (Suc b)"
proof -
  have "foldl (\<lambda>t i. set_nd t i 0 1) t xs (Suc a) (Suc b) = t (Suc a) (Suc b)"
    "foldl (\<lambda>t i. set_nd t 0 i 2) t xs (Suc a) (Suc b) = t (Suc a) (Suc b)" for xs and t :: "int grid"
    by (induction xs arbitrary: t) (simp_all add: set_nd_def)
  then show ?thesis by (simp only: trace_borders_def)
qed

definition walked :: "(nat \<times> nat) list \<Rightarrow> int \<Rightarrow> (int \<Rightarrow> int \<times> int) \<Rightarrow> ((int \<Rightarrow> int \<times> int) \<times> int) option \<Rightarrow> bool" where
  "walked P idx bt r \<longleftrightarrow> (\<exists>bt'. r = Some (bt', idx - int (length P)) \<and>
    (\<forall>k < length P. bt' (idx - int (length P) + 1 + int k) = map_prod int int (P ! k)) \<and> (\<forall>r. idx < r \<longrightarrow> bt' r = bt r))"

lemma walked_snoc:
  assumes "walked Q (idx - 1) (bt(idx := map_prod int int q)) r"
  shows "walked (Q @ [q]) idx bt r"
proof -
  from assms obtain bt' where bt': "r = Some (bt', idx - 1 - int (length Q))"
    "\<forall>k < length Q. bt' (idx - 1 - int (length Q) + 1 + int k) = map_prod int int (Q ! k)"
    "\<forall>r. idx - 1 < r \<longrightarrow> bt' r = (bt(idx := map_prod int int q)) r" by (auto simp: walked_def)
  then show ?thesis
    unfolding walked_def by (intro exI [of _ bt']) (auto simp: nth_append less_Suc_eq algebra_simps)
qed

lemma backtrace_walks:
  assumes tr: "\<And>a b. a < N \<Longrightarrow> b < M \<Longrightarrow> trace (Suc a) (Suc b) = dtw_step x a b"
  shows "i < N \<Longrightarrow> j < M \<Longrightarrow> int (length (dtw_path x (Suc i) (Suc j))) \<le> idx + 1 \<Longrightarrow> idx < rows \<Longrightarrow>
    walked (dtw_path x (Suc i) (Suc j)) idx bt (backtrace trace rows (Suc i) (Suc j) idx bt)"
proof (induction "i + j" arbitrary: i j idx bt rule: less_induct)
  case less
  let ?bt = "bt(idx := map_prod int int (i, j))"
  have t: "trace (Suc i) (Suc j) = dtw_step x i j" using tr less.prems by simp
  have p: "dtw_path x (Suc i) (Suc j) =
      (if dtw_step x i j = 0 then dtw_path x i j else if dtw_step x i j = 1 then dtw_path x i (Suc j) else dtw_path x (Suc i) j) @ [(i, j)]"
    by (rule dtw_path.simps(3))
  then have idx: "0 \<le> idx" using less.prems(3) by simp
  have step: "backtrace trace rows (Suc i) (Suc j) idx bt =
      (if dtw_step x i j = 0 then backtrace trace rows i j (idx - 1) ?bt
       else if dtw_step x i j = 1 then backtrace trace rows i (Suc j) (idx - 1) ?bt
       else backtrace trace rows (Suc i) j (idx - 1) ?bt)"
    using dtw_step_range [of x i j] idx less.prems(4) by (subst backtrace.simps) (auto simp: t)
  consider (start) "i = 0" "j = 0" | (left) i' where "i = Suc i'" "dtw_step x i j = 1"
    | (diag) i' j' where "i = Suc i'" "j = Suc j'" "dtw_step x i j = 0" | (up) j' where "j = Suc j'" "dtw_step x i j = 2"
    using dtw_step_range [of x i j] dtw_step_column [of x] dtw_step_row [of x] by (cases i; cases j) auto
  then show ?case
  proof cases
    case start
    then have "walked [] (idx - 1) ?bt (backtrace trace rows (Suc i) (Suc j) idx bt)"
      using dtw_step_column [of x 0] unfolding step by (simp add: walked_def backtrace.simps [of _ _ 0 0])
    from walked_snoc [OF this] start show ?thesis using dtw_step_column [of x 0] by (simp add: dtw_path.simps(3))
  next
    case left
    then have "walked (dtw_path x (Suc i') (Suc j)) (idx - 1) ?bt (backtrace trace rows (Suc i) (Suc j) idx bt)"
      using less.prems p unfolding step by (simp add: less.hyps)
    from walked_snoc [OF this] left show ?thesis by (simp add: dtw_path.simps(3))
  next
    case diag
    then have "walked (dtw_path x (Suc i') (Suc j')) (idx - 1) ?bt (backtrace trace rows (Suc i) (Suc j) idx bt)"
      using less.prems p unfolding step by (simp add: less.hyps)
    from walked_snoc [OF this] diag show ?thesis by (simp add: dtw_path.simps(3))
  next
    case up
    then have "walked (dtw_path x (Suc i) (Suc j')) (idx - 1) ?bt (backtrace trace rows (Suc i) (Suc j) idx bt)"
      using less.prems p unfolding step by (simp add: less.hyps)
    from walked_snoc [OF this] up show ?thesis by (simp add: dtw_path.simps(3))
  qed
qed

lemma two_dims: "ggml_n_dims [N, M, Suc 0, Suc 0] = (if 1 < M then 2 else 1)"
  by (simp add: ggml_n_dims_def)

lemma dtw_returns_path:
  assumes j: "0 < j"
  shows "dtw_and_backtrace (Suc i) (Suc j) x = Some (map (map_prod int int) (dtw_path x (Suc i) (Suc j)))"
proof -
  let ?N = "Suc i" and ?M = "Suc j" and ?P = "dtw_path x (Suc i) (Suc j)" and ?rows = "int i + int j + 1"
  let ?tr = "trace_borders ?N ?M (snd (dtw_table ?N ?M x))"
  have tr: "?tr (Suc a) (Suc b) = dtw_step x a b" if "a < ?N" "b < ?M" for a b
    using dtw_table_filled [of x ?N ?M] that by (simp add: trace_borders_inside filled_def)
  have len: "int (length ?P) \<le> ?rows - 1 + 1" using dtw_path_correct [of x i j] by (simp add: good_path_def)
  have "walked ?P (?rows - 1) (\<lambda>_. (0, 0)) (backtrace ?tr ?rows ?N ?M (?rows - 1) (\<lambda>_. (0, 0)))"
    using len by (intro backtrace_walks [where N = ?N and M = ?M] tr) simp_all
  then obtain bt where b: "backtrace ?tr ?rows ?N ?M (?rows - 1) (\<lambda>_. (0, 0)) = Some (bt, ?rows - 1 - int (length ?P))"
    "\<forall>k < length ?P. bt (?rows - 1 - int (length ?P) + 1 + int k) = map_prod int int (?P ! k)" by (auto simp: walked_def)
  have r: "int ?N + int ?M - 1 = ?rows" by simp
  have "map (\<lambda>k. bt (int k + (?rows - 1 - int (length ?P)) + 1)) [0..<length ?P] = map (map_prod int int) ?P"
    using b(2) by (intro nth_equalityI) (simp_all add: algebra_simps)
  then show ?thesis unfolding dtw_and_backtrace_def Let_def r b(1) by (simp add: two_dims j)
qed

section \<open>Optimality\<close>

text \<open>A tie between the first two predecessors that are cheaper than the third one; there the code takes the third.\<close>

definition bad_tie :: "real grid \<Rightarrow> nat \<Rightarrow> nat \<Rightarrow> bool" where
  "bad_tie x i j \<longleftrightarrow> dtw_cost x i j = dtw_cost x i (Suc j) \<and> inf_less (dtw_cost x i j) (dtw_cost x (Suc i) j)"

lemma dtw_cost_le:
  assumes "\<not> bad_tie x i j" "dtw_cost x a b = Some d" "(a, b) \<in> {(i, j), (i, Suc j), (Suc i, j)}" "dtw_cost x (Suc i) (Suc j) = Some c"
  shows "c \<le> x i j + d"
proof -
  have "fst (dtw_choice (dtw_cost x i j) (dtw_cost x i (Suc j)) (dtw_cost x (Suc i) j)) = Some (c - x i j)"
    using assms(4) by (auto simp: dtw_cost.simps(4))
  with assms(1-3) have "c - x i j \<le> d"
    by (cases "dtw_cost x i j"; cases "dtw_cost x i (Suc j)"; cases "dtw_cost x (Suc i) j")
      (auto simp: dtw_choice_def bad_tie_def split: if_splits)
  then show ?thesis by simp
qed

lemma dtw_cost_minimal:
  assumes "\<And>a b. a \<le> i \<Longrightarrow> b \<le> j \<Longrightarrow> \<not> bad_tie x a b" "path_to i j ps" "dtw_cost x (Suc i) (Suc j) = Some c"
  shows "c \<le> path_cost x ps"
  using assms
proof (induction ps arbitrary: i j c rule: rev_induct)
  case (snoc p ps)
  have p: "p = (i, j)" using snoc.prems(2) by (simp add: path_to_def)
  show ?case
  proof (cases "ps = []")
    case True
    then have "i = 0" "j = 0" using snoc.prems(2) p by (simp_all add: path_to_def)
    with True p snoc.prems(3) show ?thesis using dtw_cost_step [of x 0 0] dtw_step_column [of x 0] by (simp add: path_cost_def)
  next
    case False
    obtain a b where l: "last ps = (a, b)" by fastforce
    have ps: "path_to a b ps" and st: "path_step (a, b) (i, j)"
      using snoc.prems(2) False l p by (auto simp: path_to_def successively_append_iff)
    obtain d where d: "dtw_cost x (Suc a) (Suc b) = Some d" using dtw_cost_finite by blast
    have "d \<le> path_cost x ps" using st snoc.prems(1) by (intro snoc.IH [OF _ ps d]) auto
    moreover have "c \<le> x i j + d"
      by (rule dtw_cost_le [OF snoc.prems(1) [OF order.refl order.refl] d _ snoc.prems(3)]) (use st in auto)
    ultimately show ?thesis by (simp add: path_cost_def p)
  qed
qed (simp add: path_to_def)

text \<open>C16: Dynamic time warping of at least two audio frames returns a path from the first to the last cell that moves on
  by one row, one column or both, and that fits in the buffer of \<open>N + M - 1\<close> rows; with a single frame the
  assertion that the costs are two-dimensional fails.  The cost of the path is the smallest one of all paths,
  unless some cell has two equally cheap predecessors that are cheaper than the third.\<close>

theorem dtw_alignment:
  assumes "0 < N"
  shows "(dtw_and_backtrace N M x = None \<longleftrightarrow> M \<le> 1) \<and> (1 < M \<longrightarrow> (\<exists>path. dtw_and_backtrace N M x = Some (map (map_prod int int) path) \<and> path_to (N - 1) (M - 1) path \<and>
    length path \<le> N + M - 1 \<and>
    ((\<forall>a < N. \<forall>b < M. \<not> bad_tie x a b) \<longrightarrow> (\<forall>q. path_to (N - 1) (M - 1) q \<longrightarrow> path_cost x path \<le> path_cost x q))))"
proof (cases "1 < M")
  case False
  then show ?thesis by (simp add: dtw_and_backtrace_def two_dims)
next
  case True
  with assms obtain i j where N: "N = Suc i" "M = Suc j" "0 < j" by (metis One_nat_def Suc_lessE Suc_less_eq gr0_conv_Suc)
  let ?P = "dtw_path x (Suc i) (Suc j)"
  note good = dtw_path_correct [of x i j, unfolded good_path_def]
  have "path_cost x ?P \<le> path_cost x q" if "\<forall>a < N. \<forall>b < M. \<not> bad_tie x a b" "path_to i j q" for q
    by (rule dtw_cost_minimal [OF _ that(2)]) (use that(1) N good in simp_all)
  with good True show ?thesis by (intro conjI impI exI [of _ ?P]) (simp_all add: N dtw_returns_path)
qed

text \<open>With such a tie the path can be more expensive than needed.\<close>

definition tie_grid :: "real grid" where
  "tie_grid i j = (if i = 1 \<and> j = 0 then 5 else 0)"

theorem dtw_tie_misses_optimum:
  "dtw_and_backtrace 2 2 tie_grid = Some [(0, 0), (1, 0), (1, 1)] \<and> path_cost tie_grid [(0, 0), (1, 0), (1, 1)] = 5 \<and>
    path_to 1 1 [(0, 0), (1, 1)] \<and> path_cost tie_grid [(0, 0), (1, 1)] = 0"
proof -
  have c: "dtw_cost tie_grid (Suc 0) (Suc 0) = Some 0" "dtw_cost tie_grid (Suc 0) (Suc (Suc 0)) = Some 0"
    "dtw_cost tie_grid (Suc (Suc 0)) (Suc 0) = Some 5"
    by (simp_all add: dtw_cost.simps(4) dtw_choice_def tie_grid_def)
  have "dtw_path tie_grid (Suc 1) (Suc 1) = [(0, 0), (1, 0), (1, 1)]"
    by (simp add: dtw_path.simps(3) dtw_step_def dtw_choice_def c)
  with dtw_returns_path [of 1 1 tie_grid] show ?thesis
    by (simp add: path_cost_def path_to_def tie_grid_def eval_nat_numeral)
qed

theorem dtw_alignment_witness:
  "dtw_and_backtrace 3 1 (\<lambda>i j. 0) = None \<and> (\<exists>path. dtw_and_backtrace 3 5 (\<lambda>i j. real (i * j)) = Some (map (map_prod int int) path) \<and> path_to 2 4 path \<and> length path \<le> 7)"
  using dtw_alignment [of 3 5 "\<lambda>i j. real (i * j)"] dtw_alignment [of 3 1 "\<lambda>i j. 0"] by auto

text \<open>Rows of a path: none is skipped.\<close>

lemma path_to_bounds:
  assumes "path_to i j ps" "(a, b) \<in> set ps"
  shows "a \<le> i \<and> b \<le> j"
  using assms
proof (induction ps arbitrary: i j rule: rev_induct)
  case (snoc p ps)
  show ?case
  proof (cases "ps = []")
    case False
    obtain c d where l: "last ps = (c, d)" by fastforce
    have "path_to c d ps" "path_step (c, d) (i, j)" "p = (i, j)"
      using snoc.prems(1) False l by (auto simp: path_to_def successively_append_iff)
    with snoc.IH [of c d] snoc.prems(2) show ?thesis by fastforce
  qed (use snoc.prems in \<open>auto simp: path_to_def\<close>)
qed simp

section \<open>The median\<close>

lemma middle_of_sorted:
  assumes "length ys = 2 * h + 1"
  shows "sort ys ! h \<in> set ys \<and> h < length (filter (\<lambda>u. u \<le> sort ys ! h) ys) \<and> h < length (filter (\<lambda>u. sort ys ! h \<le> u) ys)"
proof -
  let ?xs = "sort ys" and ?v = "sort ys ! h"
  have len: "length ?xs = 2 * h + 1" using assms by simp
  have f: "length (filter P ys) = length (filter P ?xs)" for P
    by (metis mset_filter mset_sort size_mset)
  have "filter (\<lambda>u. u \<le> ?v) (take (h + 1) ?xs) = take (h + 1) ?xs"
    using len by (intro filter_True) (auto simp: in_set_conv_nth intro!: sorted_nth_mono)
  then have "h + 1 \<le> length (filter (\<lambda>u. u \<le> ?v) (take (h + 1) ?xs @ drop (h + 1) ?xs))"
    unfolding filter_append using len by simp
  moreover have "filter (\<lambda>u. ?v \<le> u) (drop h ?xs) = drop h ?xs"
    using len by (intro filter_True) (auto simp: in_set_conv_nth intro!: sorted_nth_mono)
  then have "h + 1 \<le> length (filter (\<lambda>u. ?v \<le> u) (take h ?xs @ drop h ?xs))"
    unfolding filter_append using len by simp
  moreover have "?v \<in> set ys" using len nth_mem [of h ?xs] by simp
  ultimately show ?thesis by (simp add: f)
qed

lemma reflect_inside:
  assumes "0 \<le> k" "k < n" "\<bar>d\<bar> < n"
  shows "0 \<le> reflect n (k + d)" "reflect n (k + d) < n"
  using assms by (auto simp: reflect_def)

lemma median_at_spec:
  fixes row :: "nat \<Rightarrow> real"
  assumes "w = 2 * h + 1" "w < n" "k < n"
  defines "vals \<equiv> map (\<lambda>d. row (nat (reflect (int n) (int k + d)))) [- int h..int h]"
  shows "\<exists>v. median_at w n row k = Some v \<and> v \<in> set vals \<and>
    h < length (filter (\<lambda>u. u \<le> v) vals) \<and> h < length (filter (\<lambda>u. v \<le> u) vals)"
proof -
  have c: "cdiv (- int w) 2 = - int h" "cdiv (int w) 2 = int h" using assms(1) by (simp_all add: cdiv_def)
  have len: "length vals = 2 * h + 1" by (simp add: vals_def nat_eq_iff)
  have "list_all (\<lambda>idx. 0 \<le> idx \<and> idx < int n) (map (\<lambda>off. reflect (int n) (int k + off)) [- int h..int h])"
    unfolding list_all_iff using assms(1-3) by (auto intro!: reflect_inside)
  then have "median_at w n row k = Some (sort vals ! h)"
    using len by (simp add: median_at_def c Let_def vals_def comp_def)
  with middle_of_sorted [OF len] show ?thesis by blast
qed

text \<open>
  The filter replaces every number by the median of the window around it, mirrored at the ends: at least half of
  the window is not larger and at least half is not smaller.  No index is outside of the tensor.
\<close>

theorem median_filter_is_median:
  assumes "odd w" "w < ne2"
  shows "\<exists>f. median_filter w ne0 ne1 ne2 a = Some f \<and>
    (\<forall>i < ne0. \<forall>j < ne1. \<forall>k < ne2.
       let vals = map (\<lambda>d. a i j (nat (reflect (int ne2) (int k + d)))) [- int (w div 2)..int (w div 2)]
       in \<exists>v. f i j k = Some v \<and> v \<in> set vals \<and> length vals = w \<and>
         w < 2 * length (filter (\<lambda>u. u \<le> v) vals) \<and> w < 2 * length (filter (\<lambda>u. v \<le> u) vals))"
proof -
  from assms(1) obtain h where h: "w = 2 * h + 1" by (elim oddE) simp
  then have d: "w div 2 = h" by simp
  have len: "length (map f [- int h..int h]) = w" for f :: "int \<Rightarrow> real" by (simp add: h nat_eq_iff)
  have "\<exists>v. median_at w ne2 (a i j) k = Some v \<and> v \<in> set (map (\<lambda>d. a i j (nat (reflect (int ne2) (int k + d)))) [- int h..int h]) \<and>
      h < length (filter (\<lambda>u. u \<le> v) (map (\<lambda>d. a i j (nat (reflect (int ne2) (int k + d)))) [- int h..int h])) \<and>
      h < length (filter (\<lambda>u. v \<le> u) (map (\<lambda>d. a i j (nat (reflect (int ne2) (int k + d)))) [- int h..int h]))"
    if "k < ne2" for i j k by (rule median_at_spec [OF h assms(2) that])
  then show ?thesis unfolding median_filter_def Let_def d
    using assms len h by (fastforce simp: odd_iff_mod_2_eq_one)
qed

theorem median_filter_is_median_witness:
  "\<exists>f v. median_filter 3 1 1 4 (\<lambda>i j k. [5, 1, 7, 2] ! k) = Some f \<and> f 0 0 0 = Some v \<and> v \<in> {1, 5}"
proof -
  obtain f where f: "median_filter 3 1 1 4 (\<lambda>i j k. [5, 1, 7, 2] ! k) = Some f"
    "\<forall>i < 1. \<forall>j < 1. \<forall>k < 4.
       let vals = map (\<lambda>d. [5, 1, 7, 2] ! (nat (reflect (int 4) (int k + d)))) [- int (3 div 2)..int (3 div 2)]
       in \<exists>v. f i j k = Some v \<and> v \<in> set vals \<and> length vals = 3 \<and>
         3 < 2 * length (filter (\<lambda>u. u \<le> v) vals) \<and> 3 < 2 * length (filter (\<lambda>u. v \<le> u) vals)"
    using median_filter_is_median [of 3 4 1 1 "\<lambda>i j k. [5, 1, 7, 2] ! k"] by auto
  have r: "[- 1..1 :: int] = [-1, 0, 1]" by (simp add: upto.simps)
  from f(2) have "\<exists>v. f 0 0 0 = Some v \<and> v \<in> {1, 5}"
    by (auto simp: Let_def r reflect_def dest!: spec [of _ 0])
  with f(1) show ?thesis by blast
qed

end
