(* ===== verification/Dtw_Timestamps.thy ===== *)
theory Dtw_Timestamps
  imports Dtw_Alignment Whisper_Types
begin

text \<open>
  Token timestamps by dynamic time warping in \<open>whisper.cpp\<close>: which attention heads are used, the weights of the
  alignment, and placing the times of an alignment on the text tokens of the new segments.

  The attention of the network is an argument.  A failed assertion and the use of an iterator behind the
  last segment are \<open>None\<close>.
\<close>

section \<open>Alignment heads\<close>

datatype whisper_alignment_heads_preset =
    WHISPER_AHEADS_NONE | WHISPER_AHEADS_N_TOP_MOST | WHISPER_AHEADS_CUSTOM
  | WHISPER_AHEADS_TINY_EN | WHISPER_AHEADS_TINY | WHISPER_AHEADS_BASE_EN | WHISPER_AHEADS_BASE
  | WHISPER_AHEADS_SMALL_EN | WHISPER_AHEADS_SMALL | WHISPER_AHEADS_MEDIUM_EN | WHISPER_AHEADS_MEDIUM
  | WHISPER_AHEADS_LARGE_V1 | WHISPER_AHEADS_LARGE_V2 | WHISPER_AHEADS_LARGE_V3 | WHISPER_AHEADS_LARGE_V3_TURBO

text \<open>A head is its layer and its index; an array of heads has a length of its own, \<open>None\<close> is the null pointer.\<close>

type_synonym aheads = "nat \<times> (int \<times> int) list option"

record whisper_context_params =
  dtw_aheads_preset :: whisper_alignment_heads_preset
  dtw_n_top :: int
  dtw_aheads :: aheads

fun g_aheads :: "whisper_alignment_heads_preset \<Rightarrow> aheads option" where
  "g_aheads WHISPER_AHEADS_TINY_EN = Some (8, Some [(1, 0), (2, 0), (2, 5), (3, 0), (3, 1), (3, 2), (3, 3), (3, 4)])"
| "g_aheads WHISPER_AHEADS_TINY = Some (6, Some [(2, 2), (3, 0), (3, 2), (3, 3), (3, 4), (3, 5)])"
| "g_aheads WHISPER_AHEADS_BASE_EN = Some (5, Some [(3, 3), (4, 7), (5, 1), (5, 5), (5, 7)])"
| "g_aheads WHISPER_AHEADS_BASE = Some (8, Some [(3, 1), (4, 2), (4, 3), (4, 7), (5, 1), (5, 2), (5, 4), (5, 6)])"
| "g_aheads WHISPER_AHEADS_SMALL_EN = Some (19, Some [(6, 6), (7, 0), (7, 3), (7, 8), (8, 2), (8, 5), (8, 7), (9, 0),
     (9, 4), (9, 8), (9, 10), (10, 0), (10, 1), (10, 2), (10, 3), (10, 6), (10, 11), (11, 2), (11, 4)])"
| "g_aheads WHISPER_AHEADS_SMALL = Some (10, Some [(5, 3), (5, 9), (8, 0), (8, 4), (8, 7), (8, 8), (9, 0), (9, 7), (9, 9),
     (10, 5)])"
| "g_aheads WHISPER_AHEADS_MEDIUM_EN = Some (18, Some [(11, 4), (14, 1), (14, 12), (14, 14), (15, 4), (16, 0), (16, 4),
     (16, 9), (17, 12), (17, 14), (18, 7), (18, 10), (18, 15), (20, 0), (20, 3), (20, 9), (20, 14), (21, 12)])"
| "g_aheads WHISPER_AHEADS_MEDIUM = Some (6, Some [(13, 15), (15, 4), (15, 15), (16, 1), (20, 0), (23, 4)])"
| "g_aheads WHISPER_AHEADS_LARGE_V1 = Some (9, Some [(9, 19), (11, 2), (11, 4), (11, 17), (22, 7), (22, 11), (22, 17),
     (23, 2), (23, 15)])"
| "g_aheads WHISPER_AHEADS_LARGE_V2 = Some (23, Some [(10, 12), (13, 17), (16, 11), (16, 12), (16, 13), (17, 15), (17, 16),
     (18, 4), (18, 11), (18, 19), (19, 11), (21, 2), (21, 3), (22, 3), (22, 9), (22, 12), (23, 5), (23, 7), (23, 13),
     (25, 5), (26, 1), (26, 12), (27, 15)])"
| "g_aheads WHISPER_AHEADS_LARGE_V3 = Some (10, Some [(7, 0), (10, 17), (12, 18), (13, 12), (16, 1), (17, 14), (19, 11),
     (21, 4), (24, 1), (25, 6)])"
| "g_aheads WHISPER_AHEADS_LARGE_V3_TURBO = Some (6, Some [(2, 4), (2, 11), (3, 3), (3, 6), (3, 11), (3, 14)])"
| "g_aheads _ = None"

definition chosen_aheads :: "whisper_context_params \<Rightarrow> aheads option" where
  "chosen_aheads cparams =
    (if dtw_aheads_preset cparams = WHISPER_AHEADS_CUSTOM then Some (dtw_aheads cparams)
     else g_aheads (dtw_aheads_preset cparams))"

text \<open>Reading the array behind its end, or through the null pointer, is \<open>None\<close>.\<close>

definition read_heads :: "aheads \<Rightarrow> (int \<times> int) list option" where
  "read_heads a = (case a of (0, _) \<Rightarrow> Some [] | (n, None) \<Rightarrow> None
     | (n, Some hs) \<Rightarrow> if n \<le> length hs then Some (take n hs) else None)"

definition get_alignment_heads_by_layer :: "whisper_context_params \<Rightarrow> int \<Rightarrow> int \<Rightarrow> int \<Rightarrow> int list option" where
  "get_alignment_heads_by_layer cparams il n_text_layer n_head =
    (if dtw_aheads_preset cparams = WHISPER_AHEADS_NONE then Some []
     else if dtw_aheads_preset cparams = WHISPER_AHEADS_N_TOP_MOST then
       Some (if il \<ge> n_text_layer - dtw_n_top cparams then [0..n_head - 1] else [])
     else Option.bind (chosen_aheads cparams) (\<lambda>a. map_option (\<lambda>hs. map snd (filter (\<lambda>h. fst h = il) hs)) (read_heads a)))"

definition heads_in_model :: "(int \<times> int) list \<Rightarrow> int \<Rightarrow> int \<Rightarrow> bool" where
  "heads_in_model hs n_text_layer n_head \<longleftrightarrow>
    list_all (\<lambda>(layer, h). \<not> layer \<ge> n_text_layer \<and> \<not> layer < 0 \<and> \<not> h \<ge> n_head \<and> \<not> h < 0) hs"

text \<open>The sanity checks; an unknown preset throws.\<close>

definition aheads_ok :: "whisper_context_params \<Rightarrow> int \<Rightarrow> int \<Rightarrow> bool option" where
  "aheads_ok cparams n_text_layer n_head =
    (if dtw_aheads_preset cparams = WHISPER_AHEADS_NONE then Some False
     else if dtw_aheads_preset cparams = WHISPER_AHEADS_N_TOP_MOST then
       Some (\<not> (dtw_n_top cparams > n_text_layer \<or> dtw_n_top cparams \<le> 0))
     else case chosen_aheads cparams of
            None \<Rightarrow> None
          | Some a \<Rightarrow>
              if dtw_aheads_preset cparams = WHISPER_AHEADS_CUSTOM \<and> (fst a = 0 \<or> snd a = None) then Some False
              else map_option (\<lambda>hs. heads_in_model hs n_text_layer n_head) (read_heads a))"

definition mask_of :: "int \<Rightarrow> int list \<Rightarrow> real list" where
  "mask_of n_head aheads =
    foldl (\<lambda>mask_data (ih, h). mask_data[nat (h + ih * n_head) := 1])
      (replicate (nat (n_head * int (length aheads))) 0) (zip [0..int (length aheads) - 1] aheads)"

text \<open>The masks of the layers; a layer without heads has none.  The two flags are the allocations.\<close>

definition aheads_masks_init :: "whisper_context_params \<Rightarrow> int \<Rightarrow> int \<Rightarrow> bool \<Rightarrow> bool \<Rightarrow> (bool \<times> real list option list) option" where
  "aheads_masks_init cparams n_text_layer n_head ctx_ok buffer_ok =
    Option.bind (aheads_ok cparams n_text_layer n_head) (\<lambda>ok.
      if \<not> ok \<or> \<not> ctx_ok then Some (False, [])
      else map_option (\<lambda>layers.
          let m = map (\<lambda>aheads. if aheads \<noteq> [] then Some (mask_of n_head aheads) else None) layers
          in (buffer_ok \<and> m \<noteq> [], m))
        (those (map (\<lambda>il. get_alignment_heads_by_layer cparams il n_text_layer n_head) [0..n_text_layer - 1])))"

section \<open>The masks select the heads\<close>

lemma presets_complete: "g_aheads p = Some (n, hs) \<Longrightarrow> \<exists>xs. hs = Some xs \<and> n = length xs \<and> distinct xs \<and> xs \<noteq> []"
  by (cases p) auto

lemma chosen_aheads_exists:
  assumes "dtw_aheads_preset cparams \<notin> {WHISPER_AHEADS_NONE, WHISPER_AHEADS_N_TOP_MOST}"
  shows "\<exists>a. chosen_aheads cparams = Some a"
  using assms by (cases "dtw_aheads_preset cparams") (simp_all add: chosen_aheads_def)

text \<open>A row of a mask marks one head.\<close>

lemma row_index:
  assumes "(r :: int) * n + h = r' * n + h'" "0 \<le> h" "h < n" "0 \<le> h'" "h' < n"
  shows "r = r' \<and> h = h'"
proof -
  have "(r * n + h) div n = r" "(r' * n + h') div n = r'" using assms(2-5) by simp_all
  with assms(1) have "r = r'" by metis
  with assms(1) show ?thesis by simp
qed

lemma mask_of_spec:
  assumes "list_all (\<lambda>h. 0 \<le> h \<and> h < int H) hs"
  shows "length (mask_of (int H) hs) = H * length hs \<and>
    (\<forall>r < length hs. \<forall>h < H. mask_of (int H) hs ! (r * H + h) = (if int h = hs ! r then 1 else 0))"
proof -
  define f where "f = (\<lambda>(mask_data :: real list) (ih, h). mask_data[nat (h + ih * int H) := 1])"
  define z where "z = (replicate (H * length hs) 0 :: real list)"
  have zip: "zip [0..int (length hs) - 1] hs = map (\<lambda>k. (int k, hs ! k)) [0..<length hs]"
    by (intro nth_equalityI) simp_all
  have len: "length (foldl f z xs) = H * length hs" for xs
    by (induction xs rule: rev_induct) (simp_all add: f_def z_def case_prod_unfold)
  have "foldl f z (map (\<lambda>k. (int k, hs ! k)) [0..<m]) ! (r * H + h) = (if r < m \<and> int h = hs ! r then 1 else 0)"
    if "r < length hs" "h < H" "m \<le> length hs" for m r h
    using that(3)
  proof (induction m)
    case 0
    have "r * H + h < H * length hs"
    proof -
      have "r * H + h < Suc r * H" using that(2) by simp
      also have "\<dots> \<le> length hs * H" using that(1) by (intro mult_le_mono1) simp
      finally show ?thesis by (simp add: mult.commute)
    qed
    then show ?case by (simp add: z_def)
  next
    case (Suc m)
    have hm: "0 \<le> hs ! m" "hs ! m < int H" using assms Suc.prems by (simp_all add: list_all_length)
    have eq: "nat (hs ! m + int m * int H) = r * H + h \<longleftrightarrow> m = r \<and> int h = hs ! m"
    proof
      assume "nat (hs ! m + int m * int H) = r * H + h"
      then have "int m * int H + hs ! m = int r * int H + int h" using hm(1) by (simp add: nat_eq_iff algebra_simps)
      from row_index [OF this hm] that(2) show "m = r \<and> int h = hs ! m" by auto
    next
      assume "m = r \<and> int h = hs ! m"
      then have "hs ! m + int m * int H = int (r * H + h)" by simp
      then show "nat (hs ! m + int m * int H) = r * H + h" by (simp only: nat_int)
    qed
    have lt: "nat (hs ! m + int m * int H) < H * length hs"
    proof -
      have "hs ! m + int m * int H < int (Suc m) * int H" using hm(2) by (simp add: algebra_simps)
      also have "\<dots> \<le> int (length hs) * int H" using Suc.prems by (intro mult_right_mono) simp_all
      finally show ?thesis using hm(1) by (simp add: nat_less_iff algebra_simps)
    qed
    define d where "d = foldl f z (map (\<lambda>k. (int k, hs ! k)) [0..<m])"
    define q where "q = nat (hs ! m + int m * int H)"
    have "foldl f z (map (\<lambda>k. (int k, hs ! k)) [0..<Suc m]) = d[q := 1]"
      by (simp add: f_def d_def q_def)
    moreover have "d[q := 1] ! (r * H + h) = (if q = r * H + h then 1 else d ! (r * H + h))"
      using lt by (simp add: d_def q_def len nth_list_update)
    moreover have "d ! (r * H + h) = (if r < m \<and> int h = hs ! r then 1 else 0)" using Suc by (simp add: d_def)
    moreover have "q = r * H + h \<longleftrightarrow> m = r \<and> int h = hs ! m" unfolding q_def by (rule eq)
    ultimately have "foldl f z (map (\<lambda>k. (int k, hs ! k)) [0..<Suc m]) ! (r * H + h)
        = (if m = r \<and> int h = hs ! m then 1 else if r < m \<and> int h = hs ! r then 1 else 0)" by (simp only:)
    also have "\<dots> = (if r < Suc m \<and> int h = hs ! r then 1 else 0)" by (cases "m = r") auto
    finally show ?case .
  qed
  note spec = this [OF _ _ order.refl]
  have "nat (int H * int (length hs)) = H * length hs" by (metis nat_int of_nat_mult)
  then have "mask_of (int H) hs = foldl f z (map (\<lambda>k. (int k, hs ! k)) [0..<length hs])"
    by (simp only: mask_of_def zip f_def z_def)
  then show ?thesis using len spec by simp
qed

lemma heads_by_layer:
  assumes "aheads_ok cparams (int L) (int H) = Some True"
  obtains hs where "get_alignment_heads_by_layer cparams il (int L) (int H) = Some hs" "list_all (\<lambda>h. 0 \<le> h \<and> h < int H) hs"
proof (cases "dtw_aheads_preset cparams = WHISPER_AHEADS_NONE \<or> dtw_aheads_preset cparams = WHISPER_AHEADS_N_TOP_MOST")
  case True
  with assms that show ?thesis
    by (auto simp: get_alignment_heads_by_layer_def aheads_ok_def list_all_iff split: if_splits)
next
  case False
  with assms obtain a hs where a: "chosen_aheads cparams = Some a" "read_heads a = Some hs" "heads_in_model hs (int L) (int H)"
    by (auto simp: aheads_ok_def split: option.splits if_splits)
  then have "list_all (\<lambda>h. 0 \<le> h \<and> h < int H) (map snd (filter (\<lambda>h. fst h = il) hs))"
    by (auto simp: heads_in_model_def list_all_iff)
  with a False that show ?thesis by (simp add: get_alignment_heads_by_layer_def)
qed

lemma ok_has_layers:
  assumes "aheads_ok cparams (int L) (int H) = Some True"
  shows "0 < L"
proof (cases "dtw_aheads_preset cparams = WHISPER_AHEADS_NONE \<or> dtw_aheads_preset cparams = WHISPER_AHEADS_N_TOP_MOST")
  case False
  with assms obtain a hs where a: "chosen_aheads cparams = Some a" "read_heads a = Some hs" "heads_in_model hs (int L) (int H)"
    "dtw_aheads_preset cparams = WHISPER_AHEADS_CUSTOM \<longrightarrow> fst a \<noteq> 0"
    by (auto simp: aheads_ok_def split: option.splits if_splits)
  have "fst a \<noteq> 0" using a(1,4)
    by (cases a) (auto simp: chosen_aheads_def dest!: presets_complete split: if_splits)
  with a(2) have "hs \<noteq> []" by (auto simp: read_heads_def split: prod.splits nat.splits option.splits if_splits)
  then obtain l h where "(l, h) \<in> set hs" by (cases hs) auto
  with a(3) show ?thesis by (auto simp: heads_in_model_def list_all_iff)
qed (use assms in \<open>auto simp: aheads_ok_def split: if_splits\<close>)

text \<open>
  When the sanity checks pass, every layer with alignment heads gets a mask with one row for each of them, in
  which exactly that head is marked; the other layers get none.  Together the layers have all heads of the
  chosen array, and none twice.
\<close>

theorem masks_select_heads:
  assumes "aheads_ok cparams (int L) (int H) = Some True"
  defines "heads il \<equiv> the (get_alignment_heads_by_layer cparams (int il) (int L) (int H))"
  shows "\<exists>m. aheads_masks_init cparams (int L) (int H) True True = Some (True, m) \<and> length m = L \<and>
    (\<forall>il < L. case m ! il of
        None \<Rightarrow> heads il = []
      | Some mk \<Rightarrow> heads il \<noteq> [] \<and> length mk = H * length (heads il) \<and>
          (\<forall>r < length (heads il). \<forall>h < H. mk ! (r * H + h) = (if int h = heads il ! r then 1 else 0))) \<and>
    (dtw_aheads_preset cparams \<noteq> WHISPER_AHEADS_N_TOP_MOST \<longrightarrow>
      (\<exists>a hs. chosen_aheads cparams = Some a \<and> read_heads a = Some hs \<and> length hs = fst a \<and>
        (\<Sum>il<L. mset (map (Pair (int il)) (heads il))) = mset hs))"
proof -
  have h: "get_alignment_heads_by_layer cparams (int il) (int L) (int H) = Some (heads il)"
    "list_all (\<lambda>h. 0 \<le> h \<and> h < int H) (heads il)" for il
  proof -
    obtain hs where "get_alignment_heads_by_layer cparams (int il) (int L) (int H) = Some hs" "list_all (\<lambda>h. 0 \<le> h \<and> h < int H) hs"
      using heads_by_layer [OF assms(1)] by blast
    then show "get_alignment_heads_by_layer cparams (int il) (int L) (int H) = Some (heads il)"
      "list_all (\<lambda>h. 0 \<le> h \<and> h < int H) (heads il)" by (simp_all add: heads_def)
  qed
  define m where "m = map (\<lambda>il. if heads il \<noteq> [] then Some (mask_of (int H) (heads il)) else None) [0..<L]"
  have L: "0 < L" by (rule ok_has_layers [OF assms(1)])
  have up: "[0..int L - 1] = map int [0..<L]" by (intro nth_equalityI) simp_all
  have "those (map (\<lambda>il. get_alignment_heads_by_layer cparams il (int L) (int H)) [0..int L - 1]) = Some (map heads [0..<L])"
    unfolding up map_map by (rule those_map_Some) (simp add: h(1))
  then have init: "aheads_masks_init cparams (int L) (int H) True True = Some (True, m)"
    using L by (simp add: aheads_masks_init_def assms(1) m_def comp_def Let_def)
  have "case m ! il of None \<Rightarrow> heads il = []
      | Some mk \<Rightarrow> heads il \<noteq> [] \<and> length mk = H * length (heads il) \<and>
          (\<forall>r < length (heads il). \<forall>h < H. mk ! (r * H + h) = (if int h = heads il ! r then 1 else 0))" if "il < L" for il
    using that mask_of_spec [OF h(2) [of il]] by (auto simp: m_def)
  moreover have "\<exists>a hs. chosen_aheads cparams = Some a \<and> read_heads a = Some hs \<and> length hs = fst a \<and>
      (\<Sum>il<L. mset (map (Pair (int il)) (heads il))) = mset hs" if n: "dtw_aheads_preset cparams \<noteq> WHISPER_AHEADS_N_TOP_MOST"
  proof -
    have n0: "dtw_aheads_preset cparams \<noteq> WHISPER_AHEADS_NONE" using assms(1) by (auto simp: aheads_ok_def)
    with n assms(1) obtain a hs where a: "chosen_aheads cparams = Some a" "read_heads a = Some hs" "heads_in_model hs (int L) (int H)"
      by (auto simp: aheads_ok_def split: option.splits if_splits)
    have "heads il = map snd (filter (\<lambda>h. fst h = int il) hs)" for il
      using n n0 a by (simp add: heads_def get_alignment_heads_by_layer_def)
    then have "map (Pair (int il)) (heads il) = filter (\<lambda>h. fst h = int il) hs" for il
      by (auto simp: comp_def intro!: map_idI)
    moreover have "(\<Sum>il<n. mset (filter (\<lambda>h. fst h = int il) hs)) = mset (filter (\<lambda>h. fst h < int n) hs)"
      if "list_all (\<lambda>h. 0 \<le> fst h) hs" for n and hs :: "(int \<times> int) list"
    proof (induction n)
      case 0
      have "filter (\<lambda>h. fst h < 0) hs = []" using that by (auto simp: list_all_iff intro!: filter_False)
      then show ?case by simp
    next
      case (Suc n)
      have "mset (filter (\<lambda>h. fst h < int n) hs) + mset (filter (\<lambda>h. fst h = int n) hs) = mset (filter (\<lambda>h. fst h < int (Suc n)) hs)"
        by (induction hs) auto
      with Suc show ?case by simp
    qed
    moreover have "list_all (\<lambda>h. 0 \<le> fst h) hs" "filter (\<lambda>h. fst h < int L) hs = hs"
      using a(3) by (auto simp: heads_in_model_def list_all_iff intro!: filter_True)
    ultimately have "(\<Sum>il<L. mset (map (Pair (int il)) (heads il))) = mset hs" by (simp only:)
    moreover have "length hs = fst a"
      using a(2) by (auto simp: read_heads_def split: prod.splits nat.splits option.splits if_splits)
    ultimately show ?thesis using a(1,2) by (intro exI [of _ a] exI [of _ hs]) simp
  qed
  ultimately show ?thesis using init by (intro exI [of _ m]) (simp add: m_def)
qed

section \<open>The weights of the alignment\<close>

text \<open>\<open>ggml_norm\<close> over a row of \<open>n\<close> numbers.\<close>

definition norm_row :: "nat \<Rightarrow> (nat \<Rightarrow> real) \<Rightarrow> nat \<Rightarrow> real" where
  "norm_row n x =
    (let mean = (\<Sum>i<n. x i) / real n; variance = (\<Sum>i<n. (x i - mean) * (x i - mean)) / real n;
         scale = 1 / sqrt (variance + 1 / 10 ^ 9)
     in (\<lambda>i. (x i - mean) * scale))"

text \<open>
  \<open>qk t a h\<close> is the attention of token \<open>t\<close> to audio position \<open>a\<close> in head \<open>h\<close>: normalised over the tokens, filtered
  along the audio, averaged over the heads and negated, without the start sequence and the end token.
\<close>

definition dtw_weights :: "nat \<Rightarrow> nat \<Rightarrow> nat \<Rightarrow> nat \<Rightarrow> nat \<Rightarrow> (nat \<Rightarrow> nat \<Rightarrow> nat \<Rightarrow> real) \<Rightarrow> real grid option" where
  "dtw_weights medfilt_width n_tokens n_audio_tokens n_heads sot_sequence_length qk =
    map_option (\<lambda>f t a. - 1 * ((\<Sum>h<n_heads. case f h (t + sot_sequence_length) a of Some v \<Rightarrow> v | None \<Rightarrow> 0) / real n_heads))
      (median_filter medfilt_width n_heads n_tokens n_audio_tokens (\<lambda>h t a. norm_row n_tokens (\<lambda>t. qk t a h) t))"

section \<open>Placing the times\<close>

definition dtw_tokens :: "whisper_vocab \<Rightarrow> int \<Rightarrow> whisper_segment list \<Rightarrow> int list" where
  "dtw_tokens voc lang_id segs =
    [token_sot voc] @ (if is_multilingual voc then [whisper_token_lang voc lang_id] else []) @ [token_not voc] @
    filter (\<lambda>t. t < token_eot voc) (map tok_id (concat (map seg_tokens segs))) @ [token_eot voc]"

text \<open>The iterators: a segment and a token of it.  Past the last segment they must not be used.\<close>

definition tok_at :: "whisper_segment list \<Rightarrow> nat \<times> nat \<Rightarrow> whisper_token_data option" where
  "tok_at segs p =
    (if fst p < length segs \<and> snd p < length (seg_tokens (segs ! fst p)) then Some (seg_tokens (segs ! fst p) ! snd p) else None)"

definition next_tok :: "whisper_segment list \<Rightarrow> nat \<times> nat \<Rightarrow> (nat \<times> nat) option" where
  "next_tok segs p =
    (if Suc (snd p) = length (seg_tokens (segs ! fst p))
     then (if Suc (fst p) < length segs then Some (Suc (fst p), 0) else None)
     else Some (fst p, Suc (snd p)))"

function skip_non_text :: "int \<Rightarrow> whisper_segment list \<Rightarrow> nat \<times> nat \<Rightarrow> (nat \<times> nat) option" where
  "skip_non_text eot segs p =
    (case tok_at segs p of
       None \<Rightarrow> None
     | Some t \<Rightarrow> if tok_id t < eot then Some p
                 else (case next_tok segs p of None \<Rightarrow> None | Some q \<Rightarrow> skip_non_text eot segs q))"
  by pat_completeness auto
termination
  by (relation "inv_image (less_than <*lex*> less_than)
        (\<lambda>(eot, segs, p). (length segs - fst p, length (seg_tokens (segs ! fst p)) - snd p))")
    (auto simp: tok_at_def next_tok_def split: if_splits)

declare skip_non_text.simps [simp del]

definition set_dtw :: "whisper_segment list \<Rightarrow> nat \<times> nat \<Rightarrow> int \<Rightarrow> whisper_segment list" where
  "set_dtw segs p timestamp =
    (let seg = segs ! fst p; toks = seg_tokens seg
     in segs[fst p := seg\<lparr>seg_tokens := toks[snd p := (toks ! snd p)\<lparr>tok_t_dtw := timestamp\<rparr>]\<rparr>])"

definition place_step :: "int \<Rightarrow> int \<Rightarrow> int \<times> int \<Rightarrow> int \<times> (nat \<times> nat) \<times> whisper_segment list
    \<Rightarrow> (int \<times> (nat \<times> nat) \<times> whisper_segment list) option" where
  "place_step eot seek = (\<lambda>(v, time_index) (last_v, p, segs).
    (if v = last_v then Some (last_v, p, segs)
     else case skip_non_text eot segs p of
            None \<Rightarrow> None
          | Some q \<Rightarrow>
              let segs' = set_dtw segs q (time_index * 2 + seek)
              in map_option (\<lambda>p'. (v, p', segs')) (next_tok segs' q)))"

definition place_times :: "int \<Rightarrow> int \<Rightarrow> (int \<times> int) list \<Rightarrow> whisper_segment list \<Rightarrow> whisper_segment list option" where
  "place_times eot seek alignment segs =
    map_option (\<lambda>(last_v, p, segs'). segs')
      (foldl (\<lambda>s c. Option.bind s (place_step eot seek c)) (Some (0, (0, 0), segs)) alignment)"

text \<open>
  The new segments are the ones from \<open>i_segment\<close> on.  The network answers the tokens with the attention and the
  number of its heads.
\<close>

definition whisper_exp_compute_token_level_timestamps_dtw ::
  "(int list \<Rightarrow> (nat \<times> (nat \<Rightarrow> nat \<Rightarrow> nat \<Rightarrow> real)) option) \<Rightarrow> whisper_vocab \<Rightarrow> int \<Rightarrow> int \<Rightarrow> whisper_segment list \<Rightarrow> nat \<Rightarrow> int
    \<Rightarrow> nat \<Rightarrow> nat \<Rightarrow> whisper_segment list option" where
  "whisper_exp_compute_token_level_timestamps_dtw decode voc lang_id n_audio_ctx result_all i_segment seek n_frames medfilt_width =
    (if medfilt_width mod 2 = 0 \<or> \<not> int n_frames \<le> n_audio_ctx * 2 then None
     else
       let segs = drop i_segment result_all; tokens = dtw_tokens voc lang_id segs;
           sot_sequence_length = (if is_multilingual voc then 2 else 1); n_audio_tokens = n_frames div 2
       in case decode tokens of
            None \<Rightarrow> None
          | Some (n_heads, qk) \<Rightarrow>
              (case dtw_weights medfilt_width (length tokens) n_audio_tokens n_heads sot_sequence_length qk of
                 None \<Rightarrow> None
               | Some w \<Rightarrow>
                   (case dtw_and_backtrace (length tokens - sot_sequence_length - 1) n_audio_tokens w of
                      None \<Rightarrow> None
                    | Some alignment \<Rightarrow>
                        map_option (\<lambda>segs'. take i_segment result_all @ segs') (place_times (token_eot voc) seek alignment segs))))"

section \<open>The iterators walk over all tokens\<close>

definition all_tokens :: "whisper_segment list \<Rightarrow> whisper_token_data list" where
  "all_tokens segs = concat (map seg_tokens segs)"

definition at_index :: "whisper_segment list \<Rightarrow> nat \<times> nat \<Rightarrow> nat \<Rightarrow> bool" where
  "at_index segs p k \<longleftrightarrow> fst p < length segs \<and> snd p < length (seg_tokens (segs ! fst p)) \<and>
    k = length (all_tokens (take (fst p) segs)) + snd p"

lemma all_tokens_split:
  assumes "i < length segs"
  shows "all_tokens segs = all_tokens (take i segs) @ seg_tokens (segs ! i) @ all_tokens (drop (Suc i) segs)"
proof -
  have "segs = take i segs @ segs ! i # drop (Suc i) segs" using assms by (simp add: id_take_nth_drop)
  then have "map seg_tokens segs = map seg_tokens (take i segs) @ seg_tokens (segs ! i) # map seg_tokens (drop (Suc i) segs)"
    by (metis list.simps(9) map_append)
  then show ?thesis by (simp add: all_tokens_def)
qed

lemma at_index_tok:
  assumes "at_index segs p k"
  shows "tok_at segs p = Some (all_tokens segs ! k)" "k < length (all_tokens segs)"
  using assms all_tokens_split [of "fst p" segs] by (auto simp: at_index_def tok_at_def nth_append)

lemma at_index_next:
  assumes "at_index segs p k" "\<forall>s \<in> set segs. seg_tokens s \<noteq> []"
  shows "Suc k < length (all_tokens segs) \<Longrightarrow> \<exists>q. next_tok segs p = Some q \<and> at_index segs q (Suc k)"
    and "Suc k = length (all_tokens segs) \<Longrightarrow> next_tok segs p = None"
proof -
  let ?i = "fst p"
  have i: "?i < length segs" and k: "k = length (all_tokens (take ?i segs)) + snd p"
    and t: "snd p < length (seg_tokens (segs ! ?i))" using assms(1) by (simp_all add: at_index_def)
  have split: "length (all_tokens segs) = length (all_tokens (take ?i segs)) + length (seg_tokens (segs ! ?i)) + length (all_tokens (drop (Suc ?i) segs))"
    using all_tokens_split [OF i] by simp
  have step: "length (all_tokens (take (Suc ?i) segs)) = length (all_tokens (take ?i segs)) + length (seg_tokens (segs ! ?i))"
    using i by (simp add: take_Suc_conv_app_nth all_tokens_def)
  show "\<exists>q. next_tok segs p = Some q \<and> at_index segs q (Suc k)" if "Suc k < length (all_tokens segs)"
  proof (cases "Suc (snd p) = length (seg_tokens (segs ! ?i))")
    case True
    with that split k have "all_tokens (drop (Suc ?i) segs) \<noteq> []" by auto
    then have n: "Suc ?i < length segs" by (cases "Suc ?i < length segs") (auto simp: all_tokens_def)
    with assms(2) have "seg_tokens (segs ! Suc ?i) \<noteq> []" by simp
    with n True k step show ?thesis by (auto simp: next_tok_def at_index_def)
  next
    case False
    with t k i show ?thesis by (auto simp: next_tok_def at_index_def)
  qed
  show "next_tok segs p = None" if "Suc k = length (all_tokens segs)"
  proof -
    have "length (all_tokens (drop (Suc ?i) segs)) = 0" "Suc (snd p) = length (seg_tokens (segs ! ?i))"
      using that split k t by linarith+
    moreover have "\<not> Suc ?i < length segs"
    proof
      assume n: "Suc ?i < length segs"
      then have "seg_tokens (segs ! Suc ?i) = []"
        using all_tokens_split [of 0 "drop (Suc ?i) segs"] calculation(1) by simp
      with n assms(2) show False by simp
    qed
    ultimately show ?thesis by (simp add: next_tok_def)
  qed
qed

lemma set_dtw_tokens:
  assumes "at_index segs p k"
  shows "all_tokens (set_dtw segs p t) = (all_tokens segs)[k := (all_tokens segs ! k)\<lparr>tok_t_dtw := t\<rparr>]"
    "map (\<lambda>s. length (seg_tokens s)) (set_dtw segs p t) = map (\<lambda>s. length (seg_tokens s)) segs"
    "map (\<lambda>s. s\<lparr>seg_tokens := []\<rparr>) (set_dtw segs p t) = map (\<lambda>s. s\<lparr>seg_tokens := []\<rparr>) segs"
proof -
  let ?i = "fst p"
  have i: "?i < length segs" and k: "k = length (all_tokens (take ?i segs)) + snd p"
    and t: "snd p < length (seg_tokens (segs ! ?i))" using assms by (simp_all add: at_index_def)
  have "all_tokens (set_dtw segs p t) = all_tokens (take ?i segs) @
      (seg_tokens (segs ! ?i))[snd p := (seg_tokens (segs ! ?i) ! snd p)\<lparr>tok_t_dtw := t\<rparr>] @ all_tokens (drop (Suc ?i) segs)"
    using i all_tokens_split [of ?i "set_dtw segs p t"] by (simp add: set_dtw_def Let_def)
  moreover have "all_tokens segs ! k = seg_tokens (segs ! ?i) ! snd p"
    using all_tokens_split [OF i] t by (simp add: k nth_append)
  ultimately show "all_tokens (set_dtw segs p t) = (all_tokens segs)[k := (all_tokens segs ! k)\<lparr>tok_t_dtw := t\<rparr>]"
    using all_tokens_split [OF i] t by (simp add: k list_update_append)
  show "map (\<lambda>s. length (seg_tokens s)) (set_dtw segs p t) = map (\<lambda>s. length (seg_tokens s)) segs"
    "map (\<lambda>s. s\<lparr>seg_tokens := []\<rparr>) (set_dtw segs p t) = map (\<lambda>s. s\<lparr>seg_tokens := []\<rparr>) segs"
    using i by (simp_all add: set_dtw_def Let_def map_update list_update_same_conv)
qed

lemma length_all_tokens_take:
  "length (all_tokens (take n segs)) = sum_list (take n (map (\<lambda>s. length (seg_tokens s)) segs))"
  by (simp add: all_tokens_def length_concat comp_def take_map)

lemma same_lengths:
  assumes "map (\<lambda>s. length (seg_tokens s)) segs = map (\<lambda>s. length (seg_tokens s)) segs'"
  shows "at_index segs p k \<longleftrightarrow> at_index segs' p k" "(\<forall>s \<in> set segs. seg_tokens s \<noteq> []) \<longleftrightarrow> (\<forall>s \<in> set segs'. seg_tokens s \<noteq> [])"
proof -
  have l: "length segs = length segs'" using assms by (metis length_map)
  have n: "length (seg_tokens (segs ! i)) = length (seg_tokens (segs' ! i))" if "i < length segs" for i
    using assms that l by (metis (no_types, lifting) nth_map)
  show "at_index segs p k \<longleftrightarrow> at_index segs' p k"
    using l n by (auto simp: at_index_def length_all_tokens_take assms)
  show "(\<forall>s \<in> set segs. seg_tokens s \<noteq> []) \<longleftrightarrow> (\<forall>s \<in> set segs'. seg_tokens s \<noteq> [])"
    using l n by (metis in_set_conv_nth length_0_conv)
qed

text \<open>Skipping stops at the next text token.\<close>

lemma skip_to:
  assumes "\<forall>s \<in> set segs. seg_tokens s \<noteq> []"
    and "m < length (all_tokens segs)" "tok_id (all_tokens segs ! m) < eot"
  shows "at_index segs p k \<Longrightarrow> k \<le> m \<Longrightarrow> \<forall>i. k \<le> i \<and> i < m \<longrightarrow> \<not> tok_id (all_tokens segs ! i) < eot \<Longrightarrow>
    \<exists>q. skip_non_text eot segs p = Some q \<and> at_index segs q m"
proof (induction "m - k" arbitrary: p k)
  case 0
  then have "k = m" by simp
  with 0 assms(3) at_index_tok [OF 0(2)] show ?case by (subst skip_non_text.simps) simp
next
  case (Suc d)
  then have km: "k < m" by simp
  then obtain q where q: "next_tok segs p = Some q" "at_index segs q (Suc k)"
    using at_index_next(1) [OF Suc.prems(1) assms(1)] assms(2) by auto
  have "\<exists>r. skip_non_text eot segs q = Some r \<and> at_index segs r m"
    by (rule Suc.hyps(1) [OF _ q(2)]) (use Suc.hyps(2) Suc.prems(3) km in auto)
  with q(1) Suc.prems(3) km at_index_tok [OF Suc.prems(1)] show ?case by (subst skip_non_text.simps) simp
qed

section \<open>Every text token gets its time\<close>

definition text_indices :: "int \<Rightarrow> whisper_token_data list \<Rightarrow> nat list" where
  "text_indices eot toks = filter (\<lambda>i. tok_id (toks ! i) < eot) [0..<length toks]"

definition first_column :: "(nat \<times> nat) list \<Rightarrow> nat \<Rightarrow> nat" where
  "first_column path v = snd (hd (filter (\<lambda>c. fst c = v) path))"

definition walk_index :: "nat list \<Rightarrow> nat \<Rightarrow> nat" where
  "walk_index tp a = (if a = 0 then 0 else Suc (tp ! (a - 1)))"

lemma text_indices_mono: "i \<le> j \<Longrightarrow> j < length (text_indices eot toks) \<Longrightarrow> text_indices eot toks ! i \<le> text_indices eot toks ! j"
  by (rule sorted_nth_mono) (simp_all add: text_indices_def sorted_wrt_filter)

lemma text_indices_facts:
  assumes "tp = text_indices eot toks" "k < length tp"
  shows "tp ! k < length toks" "tok_id (toks ! (tp ! k)) < eot" "walk_index tp k \<le> tp ! k"
    "\<forall>i. walk_index tp k \<le> i \<and> i < tp ! k \<longrightarrow> \<not> tok_id (toks ! i) < eot"
proof -
  have "tp ! k \<in> set tp" using assms(2) by simp
  then show lt: "tp ! k < length toks" and "tok_id (toks ! (tp ! k)) < eot" by (auto simp: assms(1) text_indices_def)
  have s: "sorted_wrt (<) tp" by (simp add: assms(1) text_indices_def sorted_wrt_filter)
  have mono: "tp ! i < tp ! j" if "i < j" "j < length tp" for i j using sorted_wrt_nth_less [OF s that] .
  show "walk_index tp k \<le> tp ! k" using mono [of "k - 1" k] assms(2) by (auto simp: walk_index_def Suc_le_eq)
  show "\<forall>i. walk_index tp k \<le> i \<and> i < tp ! k \<longrightarrow> \<not> tok_id (toks ! i) < eot"
  proof (intro allI impI notI)
    fix i assume i: "walk_index tp k \<le> i \<and> i < tp ! k" "tok_id (toks ! i) < eot"
    then have "i \<in> set tp" using lt by (auto simp: assms(1) text_indices_def)
    then obtain j where j: "j < length tp" "tp ! j = i" by (auto simp: in_set_conv_nth)
    with i(1) mono [of k j] have "j < k" by (metis assms(2) linorder_neqE_nat order.asym)
    then have "tp ! j \<le> tp ! (k - 1)" using text_indices_mono [of j "k - 1" eot toks] assms by simp
    with i(1) j(2) \<open>j < k\<close> show False by (auto simp: walk_index_def)
  qed
qed

definition placed :: "int \<Rightarrow> whisper_segment list \<Rightarrow> nat list \<Rightarrow> (nat \<times> nat) list \<Rightarrow> nat \<Rightarrow> int \<times> (nat \<times> nat) \<times> whisper_segment list \<Rightarrow> bool" where
  "placed seek segs tp path a = (\<lambda>(v, p, segs'). v = int a \<and> at_index segs' p (walk_index tp a) \<and>
    map (\<lambda>s. length (seg_tokens s)) segs' = map (\<lambda>s. length (seg_tokens s)) segs \<and>
    map (\<lambda>s. s\<lparr>seg_tokens := []\<rparr>) segs' = map (\<lambda>s. s\<lparr>seg_tokens := []\<rparr>) segs \<and>
    length (all_tokens segs') = length (all_tokens segs) \<and>
    (\<forall>k < a. all_tokens segs' ! (tp ! k) = (all_tokens segs ! (tp ! k))\<lparr>tok_t_dtw := int (first_column path (Suc k)) * 2 + seek\<rparr>) \<and>
    (\<forall>i < length (all_tokens segs). i \<notin> set (take a tp) \<longrightarrow> all_tokens segs' ! i = all_tokens segs ! i))"

text \<open>A path has every row up to its last one.\<close>

lemma path_to_snocD:
  assumes "path_to i j (ps @ [p])" "ps \<noteq> []"
  obtains a b where "path_to a b ps" "path_step (a, b) (i, j)" "p = (i, j)"
proof -
  obtain a b where "last ps = (a, b)" by fastforce
  with assms that show ?thesis by (auto simp: path_to_def successively_append_iff)
qed

lemma path_to_rows:
  assumes "path_to i j ps" "v \<le> i"
  shows "filter (\<lambda>c. fst c = v) ps \<noteq> []"
  using assms
proof (induction ps arbitrary: i j rule: rev_induct)
  case (snoc p ps)
  show ?case
  proof (cases "ps = []")
    case False
    obtain a b where "path_to a b ps" "path_step (a, b) (i, j)" "p = (i, j)" using path_to_snocD [OF snoc.prems(1) False] .
    then show ?thesis using snoc.IH [of a b] snoc.prems(2) by (cases "v = i") auto
  qed (use snoc.prems in \<open>auto simp: path_to_def\<close>)
qed (simp add: path_to_def)

lemma first_column_snoc:
  assumes "path_to a b ps"
  shows "v \<le> a \<Longrightarrow> first_column (ps @ [c]) v = first_column ps v"
    and "first_column (ps @ [(Suc a, d)]) (Suc a) = d"
proof -
  show "v \<le> a \<Longrightarrow> first_column (ps @ [c]) v = first_column ps v"
    using path_to_rows [OF assms, of v] by (simp add: first_column_def)
  have "filter (\<lambda>c. fst c = Suc a) ps = []" using path_to_bounds [OF assms] by (fastforce intro!: filter_False)
  then show "first_column (ps @ [(Suc a, d)]) (Suc a) = d" by (simp add: first_column_def)
qed

lemma place_step_same: "placed seek segs tp path a st \<Longrightarrow> place_step eot seek (int a, t) st = Some st"
  by (auto simp: placed_def place_step_def)

lemma place_step_next:
  assumes st: "placed seek segs tp ps a st" and path: "path_to a b ps"
    and tp: "tp = text_indices eot (all_tokens segs)" "a < length tp" "Suc (tp ! a) < length (all_tokens segs)"
    and ne: "\<forall>s \<in> set segs. seg_tokens s \<noteq> []"
  shows "\<exists>st'. place_step eot seek (int (Suc a), int d) st = Some st' \<and> placed seek segs tp (ps @ [(Suc a, d)]) (Suc a) st'"
proof -
  obtain v p segs' where s: "st = (v, p, segs')" by (cases st) auto
  let ?T = "all_tokens segs" and ?T' = "all_tokens segs'" and ?t = "int d * 2 + seek"
  note P = st [unfolded placed_def s prod.case]
  note F = text_indices_facts [OF tp(1,2)]
  have old: "?T' ! i = ?T ! i" if "walk_index tp a \<le> i" "i < length ?T" for i
  proof -
    have "i \<noteq> tp ! k" if "k < a" for k
    proof -
      have "tp ! k \<le> tp ! (a - 1)" using text_indices_mono [of k "a - 1" eot ?T] that tp(1,2) by simp
      with \<open>walk_index tp a \<le> i\<close> that show ?thesis by (auto simp: walk_index_def)
    qed
    then have "i \<notin> set (take a tp)" by (auto simp: in_set_conv_nth)
    with P that(2) show ?thesis by blast
  qed
  have ne': "\<forall>s \<in> set segs'. seg_tokens s \<noteq> []" using ne P same_lengths(2) by blast
  have len: "length ?T' = length ?T" using P by blast
  have "\<exists>q. skip_non_text eot segs' p = Some q \<and> at_index segs' q (tp ! a)"
    by (rule skip_to [OF ne', of _ _ _ "walk_index tp a"]) (use F P old len in auto)
  then obtain q where q: "skip_non_text eot segs' p = Some q" "at_index segs' q (tp ! a)" by blast
  define segs2 where "segs2 = set_dtw segs' q ?t"
  note D = set_dtw_tokens [OF q(2), of ?t, folded segs2_def]
  have q2: "at_index segs2 q (tp ! a)" using same_lengths(1) [OF D(2)] q(2) by blast
  have ne2: "\<forall>s \<in> set segs2. seg_tokens s \<noteq> []" using same_lengths(2) [OF D(2)] ne' by blast
  have "Suc (tp ! a) < length (all_tokens segs2)" using tp(3) D(1) len by simp
  from at_index_next(1) [OF q2 ne2 this] obtain p' where p': "next_tok segs2 q = Some p'" "at_index segs2 p' (Suc (tp ! a))" by blast
  have "place_step eot seek (int (Suc a), int d) st = Some (int (Suc a), p', segs2)"
    using P q(1) p'(1) by (simp add: place_step_def s segs2_def Let_def)
  moreover have "all_tokens segs2 ! (tp ! k) = (?T ! (tp ! k))\<lparr>tok_t_dtw := int (first_column (ps @ [(Suc a, d)]) (Suc k)) * 2 + seek\<rparr>"
    if "k < Suc a" for k
  proof (cases "k = a")
    case True
    then show ?thesis using F(1,3) D(1) len old [of "tp ! a"] first_column_snoc(2) [OF path] by simp
  next
    case False
    then have "k < a" using that by simp
    then have "tp ! k \<noteq> tp ! a" using tp(2) by (simp add: tp(1) text_indices_def nth_eq_iff_index_eq)
    with \<open>k < a\<close> show ?thesis using P D(1) first_column_snoc(1) [OF path] by simp
  qed
  moreover have "all_tokens segs2 ! i = ?T ! i" if "i < length ?T" "i \<notin> set (take (Suc a) tp)" for i
    using that P D(1) tp(2) by (auto simp: take_Suc_conv_app_nth)
  ultimately show ?thesis
    using P D p'(2) len by (auto simp: placed_def walk_index_def)
qed

lemma place_along_path:
  assumes tp: "tp = text_indices eot (all_tokens segs)" "\<forall>k < length tp. Suc (tp ! k) < length (all_tokens segs)"
    and ne: "\<forall>s \<in> set segs. seg_tokens s \<noteq> []" "segs \<noteq> []"
  shows "path_to a b path \<Longrightarrow> a \<le> length tp \<Longrightarrow>
    \<exists>st. foldl (\<lambda>s c. Option.bind s (place_step eot seek c)) (Some (0, (0, 0), segs)) (map (map_prod int int) path) = Some st \<and>
      placed seek segs tp path a st"
proof (induction path arbitrary: a b rule: rev_induct)
  case (snoc c ps)
  show ?case
  proof (cases "ps = []")
    case True
    with snoc.prems have "c = (0, 0)" "a = 0" by (auto simp: path_to_def)
    moreover have "at_index segs (0, 0) 0" using ne by (auto simp: at_index_def all_tokens_def)
    ultimately show ?thesis using True by (simp add: place_step_def placed_def walk_index_def)
  next
    case False
    obtain a' b' where p: "path_to a' b' ps" "path_step (a', b') (a, b)" "c = (a, b)"
      using path_to_snocD [OF snoc.prems(1) False] .
    then have "a' \<le> length tp" using snoc.prems(2) by auto
    with snoc.IH [OF p(1)] obtain st where
      st: "foldl (\<lambda>s c. Option.bind s (place_step eot seek c)) (Some (0, (0, 0), segs)) (map (map_prod int int) ps) = Some st"
      "placed seek segs tp ps a' st" by blast
    consider "a = a'" | "a = Suc a'" using p(2) by auto
    then show ?thesis
    proof cases
      case 1
      have "placed seek segs tp (ps @ [c]) a' st"
        using st(2) first_column_snoc(1) [OF p(1)] by (auto simp: placed_def)
      then show ?thesis using st place_step_same [OF st(2)] p(3) 1 by simp
    next
      case 2
      then have "a' < length tp" using snoc.prems(2) by simp
      from place_step_next [OF st(2) p(1) tp(1) this _ ne(1)] tp(2) this
      show ?thesis using st(1) p(3) 2 by simp
    qed
  qed
qed (simp add: path_to_def)

lemma first_column_cell:
  assumes "path_to i j ps" "v \<le> i"
  shows "(v, first_column ps v) \<in> set ps"
proof -
  obtain c cs where c: "filter (\<lambda>c. fst c = v) ps = c # cs" using path_to_rows [OF assms] by (cases "filter (\<lambda>c. fst c = v) ps") auto
  then have "c \<in> set (filter (\<lambda>c. fst c = v) ps)" by simp
  then have "c \<in> set ps" "fst c = v" by simp_all
  moreover have "first_column ps v = snd c" using c by (simp add: first_column_def)
  ultimately show ?thesis by (metis prod.collapse)
qed

lemma first_column_mono:
  "path_to i j ps \<Longrightarrow> v \<le> w \<Longrightarrow> w \<le> i \<Longrightarrow> first_column ps v \<le> first_column ps w"
proof (induction ps arbitrary: i j rule: rev_induct)
  case (snoc c ps)
  show ?case
  proof (cases "ps = []")
    case True
    then have "v = w" using snoc.prems by (auto simp: path_to_def)
    then show ?thesis by simp
  next
    case False
    obtain a b where p: "path_to a b ps" "path_step (a, b) (i, j)" "c = (i, j)" using path_to_snocD [OF snoc.prems(1) False] .
    note F = first_column_snoc [OF p(1)]
    show ?thesis
    proof (cases "w \<le> a")
      case True
      then show ?thesis using snoc.IH [OF p(1) snoc.prems(2)] F(1) snoc.prems(2) by simp
    next
      case w: False
      then have "w = Suc a" "i = Suc a" using snoc.prems(3) p(2) by auto
      then have fw: "first_column (ps @ [c]) w = j" using F(2) p(3) by simp
      have "first_column (ps @ [c]) v \<le> j"
        using path_to_bounds [OF snoc.prems(1) first_column_cell [OF snoc.prems(1)]] snoc.prems(2,3) by simp
      with fw show ?thesis by simp
    qed
  qed
qed (simp add: path_to_def)

lemma filter_by_index: "filter P xs = map ((!) xs) (filter (\<lambda>i. P (xs ! i)) [0..<length xs])"
proof -
  have "filter P xs = filter P (map ((!) xs) [0..<length xs])" by (simp only: map_nth)
  also have "\<dots> = map ((!) xs) (filter (\<lambda>i. P (xs ! i)) [0..<length xs])" by (simp only: filter_map comp_def)
  finally show ?thesis .
qed

lemma placed_texts:
  assumes st: "placed seek segs tp path (length tp) (v, p, segs')" and tp: "tp = text_indices eot (all_tokens segs)"
  shows "map tok_t_dtw (filter (\<lambda>t. tok_id t < eot) (all_tokens segs')) = map (\<lambda>k. int (first_column path (Suc k)) * 2 + seek) [0..<length tp]"
    "map (\<lambda>t. t\<lparr>tok_t_dtw := 0\<rparr>) (all_tokens segs') = map (\<lambda>t. t\<lparr>tok_t_dtw := 0\<rparr>) (all_tokens segs)"
proof -
  let ?T = "all_tokens segs" and ?T' = "all_tokens segs'"
  note P = st [unfolded placed_def prod.case]
  have cases: "(\<exists>k < length tp. i = tp ! k) \<or> i \<notin> set tp" for i by (auto simp: in_set_conv_nth)
  have e: "(?T' ! i)\<lparr>tok_t_dtw := 0\<rparr> = (?T ! i)\<lparr>tok_t_dtw := 0\<rparr>" if "i < length ?T" for i
    using cases [of i] P that by auto
  then show "map (\<lambda>t. t\<lparr>tok_t_dtw := 0\<rparr>) ?T' = map (\<lambda>t. t\<lparr>tok_t_dtw := 0\<rparr>) ?T"
    using P by (intro nth_equalityI) simp_all
  have id: "tok_id (?T' ! i) = tok_id (?T ! i)" if "i < length ?T" for i
    using arg_cong [OF e [OF that], of tok_id] by simp
  have "filter (\<lambda>i. tok_id (?T' ! i) < eot) [0..<length ?T'] = tp"
    unfolding tp text_indices_def using P id by (intro filter_cong) simp_all
  then have "filter (\<lambda>t. tok_id t < eot) ?T' = map ((!) ?T') tp" by (subst filter_by_index) (simp only:)
  then have "map tok_t_dtw (filter (\<lambda>t. tok_id t < eot) ?T') = map (\<lambda>i. tok_t_dtw (?T' ! i)) tp" by simp
  also have "\<dots> = map (\<lambda>k. int (first_column path (Suc k)) * 2 + seek) [0..<length tp]"
    using P by (intro nth_equalityI) simp_all
  finally show "map tok_t_dtw (filter (\<lambda>t. tok_id t < eot) ?T') = map (\<lambda>k. int (first_column path (Suc k)) * 2 + seek) [0..<length tp]" .
qed

lemma before_last_non_text:
  assumes "toks \<noteq> []" "eot \<le> tok_id (last toks)" "k < length (text_indices eot toks)"
  shows "Suc (text_indices eot toks ! k) < length toks"
proof -
  note F = text_indices_facts [OF refl assms(3)]
  have "text_indices eot toks ! k \<noteq> length toks - 1" using F(2) assms(1,2) by (auto simp: last_conv_nth)
  with F(1) show ?thesis by simp
qed

text \<open>C17: 
  Whatever the attention of the network is, every text token of the new segments gets a time: the times are
  those of the rows of one alignment path, in the order of the tokens, and within the window; nothing else of the
  result changes.  The window is longer than the filter, and the last segment does not end in a text token.
\<close>

theorem dtw_times_every_token:
  assumes "odd medfilt_width" "medfilt_width < n_frames div 2" "int n_frames \<le> n_audio_ctx * 2"
    and "\<forall>ts. decode ts \<noteq> None"
    and "segs = drop i_segment result_all" "segs \<noteq> []" "\<forall>s \<in> set segs. seg_tokens s \<noteq> []"
    and "token_eot voc \<le> tok_id (last (all_tokens segs))"
  shows "\<exists>segs' path. whisper_exp_compute_token_level_timestamps_dtw decode voc lang_id n_audio_ctx result_all i_segment seek n_frames
        medfilt_width = Some (take i_segment result_all @ segs') \<and>
    map (\<lambda>s. s\<lparr>seg_tokens := []\<rparr>) segs' = map (\<lambda>s. s\<lparr>seg_tokens := []\<rparr>) segs \<and>
    map (\<lambda>t. t\<lparr>tok_t_dtw := 0\<rparr>) (all_tokens segs') = map (\<lambda>t. t\<lparr>tok_t_dtw := 0\<rparr>) (all_tokens segs) \<and>
    (let times = map tok_t_dtw (filter (\<lambda>t. tok_id t < token_eot voc) (all_tokens segs'))
     in path_to (length times) (n_frames div 2 - 1) path \<and>
        times = map (\<lambda>v. seek + 2 * int (first_column path v)) [1..<length times + 1] \<and>
        sorted times \<and> set times \<subseteq> {seek..seek + int n_frames - 2})"
proof -
  let ?T = "all_tokens segs" and ?eot = "token_eot voc" and ?M = "n_frames div 2"
  define tp where "tp = text_indices ?eot ?T"
  define sot where "sot = (if is_multilingual voc then 2 else 1 :: nat)"
  let ?tokens = "dtw_tokens voc lang_id segs" and ?n = "length tp"
  obtain n_heads qk where qk: "decode ?tokens = Some (n_heads, qk)" using assms(4) by (metis not_None_eq surj_pair)
  have "filter (\<lambda>t. t < ?eot) (map tok_id ?T) = map tok_id (filter (\<lambda>t. tok_id t < ?eot) ?T)" by (simp only: filter_map comp_def)
  then have "length (filter (\<lambda>t. t < ?eot) (map tok_id ?T)) = ?n"
    unfolding tp_def text_indices_def using filter_by_index [of "\<lambda>t. tok_id t < ?eot" ?T] by simp
  then have N: "length ?tokens - sot - 1 = Suc ?n" by (simp add: dtw_tokens_def sot_def all_tokens_def)
  obtain m where M: "?M = Suc m" "0 < m"
    using assms(1,2) by (cases "?M") (auto simp: odd_pos intro: gr0I)
  obtain w where w: "dtw_weights medfilt_width (length ?tokens) ?M n_heads sot qk = Some w"
    using assms(1,2) by (auto simp: dtw_weights_def median_filter_def odd_iff_mod_2_eq_one)
  define path where "path = dtw_path w (Suc ?n) (Suc m)"
  have path: "path_to ?n m path" using dtw_path_correct [of w ?n m] by (simp add: good_path_def path_def)
  have al: "dtw_and_backtrace (length ?tokens - sot - 1) ?M w = Some (map (map_prod int int) path)"
    unfolding N M(1) path_def by (rule dtw_returns_path [OF M(2)])
  have ne: "?T \<noteq> []" using assms(6,7) by (cases segs) (auto simp: all_tokens_def)
  have "\<forall>k < ?n. Suc (tp ! k) < length ?T" using before_last_non_text [OF ne assms(8)] by (simp add: tp_def)
  from place_along_path [OF tp_def this assms(7,6) path order.refl] obtain v p segs' where
    st: "foldl (\<lambda>s c. Option.bind s (place_step ?eot seek c)) (Some (0, (0, 0), segs)) (map (map_prod int int) path) = Some (v, p, segs')"
      "placed seek segs tp path ?n (v, p, segs')" by (metis prod_cases3)
  have run: "whisper_exp_compute_token_level_timestamps_dtw decode voc lang_id n_audio_ctx result_all i_segment seek n_frames
        medfilt_width = Some (take i_segment result_all @ segs')"
    unfolding whisper_exp_compute_token_level_timestamps_dtw_def Let_def sot_def [symmetric] assms(5) [symmetric] qk
    using assms(1,3) by (simp add: w al [simplified] place_times_def st(1) odd_iff_mod_2_eq_one)
  note texts = placed_texts [OF st(2) tp_def]
  define times where "times = map tok_t_dtw (filter (\<lambda>t. tok_id t < ?eot) (all_tokens segs'))"
  have len: "length times = ?n" using texts(1) by (simp add: times_def)
  have eq: "times = map (\<lambda>v. seek + 2 * int (first_column path v)) [1..<?n + 1]"
    unfolding times_def texts(1) by (intro nth_equalityI) (simp_all del: upt_Suc)
  have "sorted times"
    unfolding eq by (auto simp: sorted_iff_nth_mono simp del: upt_Suc intro!: first_column_mono [OF path])
  moreover have "first_column path v \<le> m" if "v \<le> ?n" for v
    using path_to_bounds [OF path first_column_cell [OF path that]] by simp
  then have "set times \<subseteq> {seek..seek + 2 * int m}" by (auto simp: eq)
  then have "set times \<subseteq> {seek..seek + int n_frames - 2}"
  proof -
    assume a: "set times \<subseteq> {seek..seek + 2 * int m}"
    have "2 * int m \<le> int n_frames - 2" using M by linarith
    then show ?thesis by (intro order.trans [OF a]) simp
  qed
  moreover have "map (\<lambda>s. s\<lparr>seg_tokens := []\<rparr>) segs' = map (\<lambda>s. s\<lparr>seg_tokens := []\<rparr>) segs" using st(2) by (simp add: placed_def)
  ultimately show ?thesis
    using run texts(2) path M eq len unfolding times_def [symmetric] Let_def
    by (intro exI [of _ segs'] exI [of _ path]) (simp add: times_def [symmetric])
qed

section \<open>Examples\<close>

definition tiny_params :: whisper_context_params where
  "tiny_params = \<lparr>dtw_aheads_preset = WHISPER_AHEADS_TINY, dtw_n_top = -1, dtw_aheads = (0, None)\<rparr>"

theorem masks_select_heads_witness:
  "\<exists>m. aheads_masks_init tiny_params 4 6 True True = Some (True, m) \<and> length m = 4"
proof -
  have "aheads_ok tiny_params (int 4) (int 6) = Some True"
    by (simp add: aheads_ok_def tiny_params_def chosen_aheads_def read_heads_def heads_in_model_def)
  from masks_select_heads [OF this] show ?thesis by auto
qed

definition dtw_token :: "int \<Rightarrow> whisper_token_data" where
  "dtw_token i = \<lparr>tok_id = i, tok_tid = 0, tok_p = 0, tok_plog = 0, tok_pt = 0, tok_ptsum = 0, tok_t0 = -1, tok_t1 = -1,
     tok_t_dtw = -1, tok_vlen = 0\<rparr>"

definition dtw_segment :: "int list \<Rightarrow> whisper_segment" where
  "dtw_segment is = \<lparr>seg_t0 = 0, seg_t1 = 100, seg_text = [], seg_no_speech_prob = 0, seg_tokens = map dtw_token is,
     seg_speaker_turn_next = False\<rparr>"

theorem dtw_times_every_token_witness:
  "\<exists>segs'. whisper_exp_compute_token_level_timestamps_dtw (\<lambda>ts. Some (1, \<lambda>t a h. 0)) default_vocab 0 1500
      [dtw_segment [3, 4, 60000]] 0 500 20 7 = Some segs' \<and> tok_t_dtw (all_tokens segs' ! 0) \<in> {500..518}"
proof -
  let ?segs = "[dtw_segment [3, 4, 60000]]"
  have T: "all_tokens ?segs = [dtw_token 3, dtw_token 4, dtw_token 60000]" by (simp add: all_tokens_def dtw_segment_def)
  define D :: "int list \<Rightarrow> (nat \<times> (nat \<Rightarrow> nat \<Rightarrow> nat \<Rightarrow> real)) option" where "D = (\<lambda>ts. Some (1, \<lambda>t a h. 0))"
  have p: "odd (7 :: nat)" "(7 :: nat) < 20 div 2" "int 20 \<le> 1500 * 2" "\<forall>ts. D ts \<noteq> None" "?segs = drop 0 ?segs" "?segs \<noteq> []"
    "\<forall>s \<in> set ?segs. seg_tokens s \<noteq> []" "token_eot default_vocab \<le> tok_id (last (all_tokens ?segs))"
    by (simp_all add: D_def T) (simp_all add: dtw_segment_def dtw_token_def default_vocab_def)
  from dtw_times_every_token [OF p, of 0 500] obtain segs' where r:
    "whisper_exp_compute_token_level_timestamps_dtw D default_vocab 0 1500 ?segs 0 500 20 7 = Some segs'"
    "map (\<lambda>t. t\<lparr>tok_t_dtw := 0\<rparr>) (all_tokens segs') = map (\<lambda>t. t\<lparr>tok_t_dtw := 0\<rparr>) (all_tokens ?segs)"
    "set (map tok_t_dtw (filter (\<lambda>t. tok_id t < token_eot default_vocab) (all_tokens segs'))) \<subseteq> {500..500 + int 20 - 2}"
    unfolding Let_def by (metis append_Nil take0)
  have "length (all_tokens segs') = 3" using arg_cong [OF r(2), of length] by (simp add: T)
  moreover from this have "tok_id (all_tokens segs' ! 0) = 3"
    using arg_cong [OF r(2), of "\<lambda>ts. tok_id (ts ! 0)"] by (simp add: T dtw_token_def)
  ultimately have "all_tokens segs' ! 0 \<in> set (filter (\<lambda>t. tok_id t < token_eot default_vocab) (all_tokens segs'))"
    by (simp add: default_vocab_def)
  with r(3) have "tok_t_dtw (all_tokens segs' ! 0) \<in> {500..518}" by auto
  with r(1) show ?thesis unfolding D_def by blast
qed

text \<open>A last segment that ends in a text token: the iterator of the segments is used behind the end.\<close>

theorem dtw_last_text_token: "place_times 50256 0 [(0, 0), (1, 0)] [dtw_segment [3]] = None"
  by (simp add: place_times_def place_step_def dtw_segment_def dtw_token_def skip_non_text.simps [of _ _ "(0, 0)"] tok_at_def
      next_tok_def set_dtw_def Let_def)

end
