(* ===== verification/Model_File.thy ===== *)
theory Model_File
  imports Whisper_Lang
begin

text \<open>
  Loading a model of \<open>whisper.cpp\<close> from a buffer: \<open>whisper_model_load\<close> with the reader of
  \<open>whisper_init_from_buffer_with_params_no_state\<close>, the names of the tensors (\<open>whisper-arch.h\<close>) and the sizes of
  the tensor types (\<open>ggml.c\<close>).

  A reader is the rest of the bytes.  A read behind the end copies what is left, and leaves the rest of the
  variable as it was; \<open>junk\<close> is the value of variables that were not initialised.  \<open>None\<close> is an exception, a
  failed assertion or a write outside of an array.
\<close>

section \<open>Reading\<close>

definition read_bytes :: "nat \<Rightarrow> bytestring \<Rightarrow> bytestring \<times> bytestring" where
  "read_bytes n rest = (take n rest, drop n rest)"

definition eof :: "bytestring \<Rightarrow> bool" where
  "eof rest \<longleftrightarrow> rest = []"

definition overwrite :: "bytestring \<Rightarrow> bytestring \<Rightarrow> bytestring" where
  "overwrite got old = got @ drop (length got) old"

text \<open>Little-endian integers of four bytes.\<close>

definition bytes_of_int :: "int \<Rightarrow> bytestring" where
  "bytes_of_int x = map (\<lambda>k. word_of_int (x div 2 ^ (8 * k))) [0..<4]"

definition u32_of_bytes :: "bytestring \<Rightarrow> int" where
  "u32_of_bytes bs = foldr (\<lambda>b u. uint b + 256 * u) bs 0"

definition i32_of_bytes :: "bytestring \<Rightarrow> int" where
  "i32_of_bytes bs = (let u = u32_of_bytes bs in if u \<ge> 2 ^ 31 then u - 2 ^ 32 else u)"

definition read_i32 :: "int \<Rightarrow> bytestring \<Rightarrow> int \<times> bytestring" where
  "read_i32 old rest = (let (got, rest') = read_bytes 4 rest in (i32_of_bytes (overwrite got (bytes_of_int old)), rest'))"

definition read_u32 :: "int \<Rightarrow> bytestring \<Rightarrow> int \<times> bytestring" where
  "read_u32 old rest = (let (got, rest') = read_bytes 4 rest in (u32_of_bytes (overwrite got (bytes_of_int old)), rest'))"

section \<open>Tensor types\<close>

text \<open>Numbers per block and bytes per block of a type; the gaps are removed types.\<close>

definition type_traits :: "(nat \<times> nat) list" where
  "type_traits =
    [(1, 4), (1, 2), (32, 18), (32, 20), (0, 0), (0, 0), (32, 22), (32, 24), (32, 34), (32, 36),
     (256, 84), (256, 110), (256, 144), (256, 176), (256, 210), (256, 292), (256, 66), (256, 74), (256, 98), (256, 50),
     (32, 18), (256, 110), (256, 82), (256, 136), (1, 1), (1, 2), (1, 4), (1, 8), (1, 8), (256, 56),
     (1, 2), (0, 0), (0, 0), (0, 0), (256, 54), (256, 66), (0, 0), (0, 0), (0, 0), (32, 17)]"

definition ggml_blck_size :: "nat \<Rightarrow> nat" where "ggml_blck_size ty = fst (type_traits ! ty)"

definition ggml_type_size :: "nat \<Rightarrow> nat" where "ggml_type_size ty = snd (type_traits ! ty)"

text \<open>The type of the big tensors; the assertion at the end of the function fails for all other values.\<close>

definition ggml_ftype_to_ggml_type :: "int \<Rightarrow> nat option" where
  "ggml_ftype_to_ggml_type ftype =
    map_of [(0, 0), (1, 1), (24, 30), (2, 2), (3, 3), (8, 6), (9, 7), (7, 8), (25, 39), (10, 10), (11, 11), (12, 12),
            (13, 13), (14, 14), (15, 16), (16, 17), (17, 18), (18, 19), (23, 29), (19, 20), (22, 23), (20, 21), (21, 22)] ftype"

record ggml_tensor =
  t_type :: nat
  t_ne :: "int list"

definition ggml_nelements :: "ggml_tensor \<Rightarrow> int" where
  "ggml_nelements t = prod_list (t_ne t)"

text \<open>The strides of a new tensor, and its size in bytes.\<close>

fun strides :: "int \<Rightarrow> int list \<Rightarrow> int list" where
  "strides nb [] = []"
| "strides nb (n # ns) = nb # strides (nb * n) ns"

definition tensor_nb :: "ggml_tensor \<Rightarrow> int list" where
  "tensor_nb t =
    (let size = int (ggml_type_size (t_type t)); ne = t_ne t
     in size # strides (size * (hd ne div int (ggml_blck_size (t_type t)))) (tl ne))"

definition ggml_nbytes :: "ggml_tensor \<Rightarrow> int" where
  "ggml_nbytes t =
    (if list_ex (\<lambda>n. n \<le> 0) (t_ne t) then 0
     else
       let blck = int (ggml_blck_size (t_type t)); nb = tensor_nb t; ne = t_ne t
       in if blck = 1
          then int (ggml_type_size (t_type t)) + sum_list (map (\<lambda>(n, s). (n - 1) * s) (zip ne nb))
          else hd ne * hd nb div blck + sum_list (map (\<lambda>(n, s). (n - 1) * s) (zip (tl ne) (tl nb))))"

section \<open>The tensors of a model\<close>

datatype asr_tensor =
    ASR_TENSOR_ENC_POS_EMBD | ASR_TENSOR_DEC_POS_EMBD | ASR_TENSOR_DEC_TOKEN_EMBD_WEIGHT
  | ASR_TENSOR_LN_WEIGHT | ASR_TENSOR_LN_BIAS | ASR_TENSOR_CONV1_WEIGHT | ASR_TENSOR_CONV1_BIAS
  | ASR_TENSOR_CONV2_WEIGHT | ASR_TENSOR_CONV2_BIAS | ASR_TENSOR_LN_POST_WEIGHT | ASR_TENSOR_LN_POST_BIAS
  | ASR_TENSOR_MLP_LN_WEIGHT | ASR_TENSOR_MLP_LN_BIAS | ASR_TENSOR_MLP_0_WEIGHT | ASR_TENSOR_MLP_0_BIAS
  | ASR_TENSOR_MLP_2_WEIGHT | ASR_TENSOR_MLP_2_BIAS | ASR_TENSOR_ATTN_LN_WEIGHT | ASR_TENSOR_ATTN_LN_BIAS
  | ASR_TENSOR_ATTN_QUERY_WEIGHT | ASR_TENSOR_ATTN_QUERY_BIAS | ASR_TENSOR_ATTN_KEY_WEIGHT
  | ASR_TENSOR_ATTN_VALUE_WEIGHT | ASR_TENSOR_ATTN_VALUE_BIAS | ASR_TENSOR_ATTN_OUT_WEIGHT | ASR_TENSOR_ATTN_OUT_BIAS

datatype asr_system = ASR_SYSTEM_ENCODER | ASR_SYSTEM_DECODER | ASR_SYSTEM_CROSS

text \<open>The part of a name behind \<open>encoder.blocks.%d.\<close> or \<open>decoder.blocks.%d.\<close>.\<close>

fun block_name :: "asr_tensor \<Rightarrow> string option" where
  "block_name ASR_TENSOR_MLP_LN_WEIGHT = Some ''mlp_ln.weight''"
| "block_name ASR_TENSOR_MLP_LN_BIAS = Some ''mlp_ln.bias''"
| "block_name ASR_TENSOR_MLP_0_WEIGHT = Some ''mlp.0.weight''"
| "block_name ASR_TENSOR_MLP_0_BIAS = Some ''mlp.0.bias''"
| "block_name ASR_TENSOR_MLP_2_WEIGHT = Some ''mlp.2.weight''"
| "block_name ASR_TENSOR_MLP_2_BIAS = Some ''mlp.2.bias''"
| "block_name ASR_TENSOR_ATTN_LN_WEIGHT = Some ''attn_ln.weight''"
| "block_name ASR_TENSOR_ATTN_LN_BIAS = Some ''attn_ln.bias''"
| "block_name ASR_TENSOR_ATTN_QUERY_WEIGHT = Some ''attn.query.weight''"
| "block_name ASR_TENSOR_ATTN_QUERY_BIAS = Some ''attn.query.bias''"
| "block_name ASR_TENSOR_ATTN_KEY_WEIGHT = Some ''attn.key.weight''"
| "block_name ASR_TENSOR_ATTN_VALUE_WEIGHT = Some ''attn.value.weight''"
| "block_name ASR_TENSOR_ATTN_VALUE_BIAS = Some ''attn.value.bias''"
| "block_name ASR_TENSOR_ATTN_OUT_WEIGHT = Some ''attn.out.weight''"
| "block_name ASR_TENSOR_ATTN_OUT_BIAS = Some ''attn.out.bias''"
| "block_name _ = None"

fun cross_name :: "asr_tensor \<Rightarrow> string option" where
  "cross_name ASR_TENSOR_ATTN_LN_WEIGHT = Some ''cross_attn_ln.weight''"
| "cross_name ASR_TENSOR_ATTN_LN_BIAS = Some ''cross_attn_ln.bias''"
| "cross_name ASR_TENSOR_ATTN_QUERY_WEIGHT = Some ''cross_attn.query.weight''"
| "cross_name ASR_TENSOR_ATTN_QUERY_BIAS = Some ''cross_attn.query.bias''"
| "cross_name ASR_TENSOR_ATTN_KEY_WEIGHT = Some ''cross_attn.key.weight''"
| "cross_name ASR_TENSOR_ATTN_VALUE_WEIGHT = Some ''cross_attn.value.weight''"
| "cross_name ASR_TENSOR_ATTN_VALUE_BIAS = Some ''cross_attn.value.bias''"
| "cross_name ASR_TENSOR_ATTN_OUT_WEIGHT = Some ''cross_attn.out.weight''"
| "cross_name ASR_TENSOR_ATTN_OUT_BIAS = Some ''cross_attn.out.bias''"
| "cross_name _ = None"

definition layer_name :: "string \<Rightarrow> nat \<Rightarrow> string option \<Rightarrow> string option" where
  "layer_name system layer name = map_option (\<lambda>n. system @ ''.blocks.'' @ dec_digits layer @ ''.'' @ n) name"

text \<open>The table of names with the layer filled in; \<open>at\<close> throws for the pairs it does not have.\<close>

fun ASR_TENSOR_NAMES :: "asr_system \<Rightarrow> asr_tensor \<Rightarrow> nat \<Rightarrow> string option" where
  "ASR_TENSOR_NAMES ASR_SYSTEM_ENCODER ASR_TENSOR_ENC_POS_EMBD layer = Some ''encoder.positional_embedding''"
| "ASR_TENSOR_NAMES ASR_SYSTEM_ENCODER ASR_TENSOR_CONV1_WEIGHT layer = Some ''encoder.conv1.weight''"
| "ASR_TENSOR_NAMES ASR_SYSTEM_ENCODER ASR_TENSOR_CONV1_BIAS layer = Some ''encoder.conv1.bias''"
| "ASR_TENSOR_NAMES ASR_SYSTEM_ENCODER ASR_TENSOR_CONV2_WEIGHT layer = Some ''encoder.conv2.weight''"
| "ASR_TENSOR_NAMES ASR_SYSTEM_ENCODER ASR_TENSOR_CONV2_BIAS layer = Some ''encoder.conv2.bias''"
| "ASR_TENSOR_NAMES ASR_SYSTEM_ENCODER ASR_TENSOR_LN_WEIGHT layer = Some ''encoder.ln_post.weight''"
| "ASR_TENSOR_NAMES ASR_SYSTEM_ENCODER ASR_TENSOR_LN_POST_BIAS layer = Some ''encoder.ln_post.bias''"
| "ASR_TENSOR_NAMES ASR_SYSTEM_ENCODER t layer = layer_name ''encoder'' layer (block_name t)"
| "ASR_TENSOR_NAMES ASR_SYSTEM_DECODER ASR_TENSOR_DEC_POS_EMBD layer = Some ''decoder.positional_embedding''"
| "ASR_TENSOR_NAMES ASR_SYSTEM_DECODER ASR_TENSOR_DEC_TOKEN_EMBD_WEIGHT layer = Some ''decoder.token_embedding.weight''"
| "ASR_TENSOR_NAMES ASR_SYSTEM_DECODER ASR_TENSOR_LN_WEIGHT layer = Some ''decoder.ln.weight''"
| "ASR_TENSOR_NAMES ASR_SYSTEM_DECODER ASR_TENSOR_LN_BIAS layer = Some ''decoder.ln.bias''"
| "ASR_TENSOR_NAMES ASR_SYSTEM_DECODER t layer = layer_name ''decoder'' layer (block_name t)"
| "ASR_TENSOR_NAMES ASR_SYSTEM_CROSS t layer = layer_name ''decoder'' layer (cross_name t)"

record whisper_hparams =
  hp_n_vocab :: int
  hp_n_audio_ctx :: int
  hp_n_audio_state :: int
  hp_n_audio_head :: int
  hp_n_audio_layer :: int
  hp_n_text_ctx :: int
  hp_n_text_state :: int
  hp_n_text_head :: int
  hp_n_text_layer :: int
  hp_n_mels :: int
  hp_ftype :: int

definition default_hparams :: whisper_hparams where
  "default_hparams = \<lparr>hp_n_vocab = 51864, hp_n_audio_ctx = 1500, hp_n_audio_state = 384, hp_n_audio_head = 6, hp_n_audio_layer = 4,
     hp_n_text_ctx = 448, hp_n_text_state = 384, hp_n_text_head = 6, hp_n_text_layer = 4, hp_n_mels = 80, hp_ftype = 1\<rparr>"

text \<open>What \<open>create_tensor\<close> is called with: system, tensor, type, dimensions and layer.\<close>

type_synonym tensor_spec = "asr_system \<times> asr_tensor \<times> nat \<times> int list \<times> nat"

definition attn_specs :: "asr_system \<Rightarrow> nat \<Rightarrow> int \<Rightarrow> nat \<Rightarrow> tensor_spec list" where
  "attn_specs sys wtype n i =
    [(sys, ASR_TENSOR_ATTN_LN_WEIGHT, 0, [n], i), (sys, ASR_TENSOR_ATTN_LN_BIAS, 0, [n], i),
     (sys, ASR_TENSOR_ATTN_QUERY_WEIGHT, wtype, [n, n], i), (sys, ASR_TENSOR_ATTN_QUERY_BIAS, 0, [n], i),
     (sys, ASR_TENSOR_ATTN_KEY_WEIGHT, wtype, [n, n], i),
     (sys, ASR_TENSOR_ATTN_VALUE_WEIGHT, wtype, [n, n], i), (sys, ASR_TENSOR_ATTN_VALUE_BIAS, 0, [n], i),
     (sys, ASR_TENSOR_ATTN_OUT_WEIGHT, wtype, [n, n], i), (sys, ASR_TENSOR_ATTN_OUT_BIAS, 0, [n], i)]"

definition mlp_specs :: "asr_system \<Rightarrow> nat \<Rightarrow> int \<Rightarrow> nat \<Rightarrow> tensor_spec list" where
  "mlp_specs sys wtype n i =
    [(sys, ASR_TENSOR_MLP_LN_WEIGHT, 0, [n], i), (sys, ASR_TENSOR_MLP_LN_BIAS, 0, [n], i),
     (sys, ASR_TENSOR_MLP_0_WEIGHT, wtype, [n, 4 * n], i), (sys, ASR_TENSOR_MLP_0_BIAS, 0, [4 * n], i),
     (sys, ASR_TENSOR_MLP_2_WEIGHT, wtype, [4 * n, n], i), (sys, ASR_TENSOR_MLP_2_BIAS, 0, [n], i)]"

definition model_specs :: "whisper_hparams \<Rightarrow> nat \<Rightarrow> tensor_spec list" where
  "model_specs hp wtype =
    (let vtype = (if wtype = 0 then 0 else 1); n_audio_state = hp_n_audio_state hp; n_text_state = hp_n_text_state hp;
         enc = ASR_SYSTEM_ENCODER; dec = ASR_SYSTEM_DECODER
     in [(enc, ASR_TENSOR_ENC_POS_EMBD, 0, [n_audio_state, hp_n_audio_ctx hp], 0),
         (enc, ASR_TENSOR_CONV1_WEIGHT, vtype, [3, hp_n_mels hp, n_audio_state], 0), (enc, ASR_TENSOR_CONV1_BIAS, 0, [1, n_audio_state], 0),
         (enc, ASR_TENSOR_CONV2_WEIGHT, vtype, [3, n_audio_state, n_audio_state], 0), (enc, ASR_TENSOR_CONV2_BIAS, 0, [1, n_audio_state], 0),
         (enc, ASR_TENSOR_LN_WEIGHT, 0, [n_audio_state], 0), (enc, ASR_TENSOR_LN_POST_BIAS, 0, [n_audio_state], 0)]
      @ concat (map (\<lambda>i. mlp_specs enc wtype n_audio_state i @ attn_specs enc wtype n_audio_state i) [0..<nat (hp_n_audio_layer hp)])
      @ [(dec, ASR_TENSOR_DEC_POS_EMBD, 0, [n_text_state, hp_n_text_ctx hp], 0),
         (dec, ASR_TENSOR_DEC_TOKEN_EMBD_WEIGHT, wtype, [n_text_state, hp_n_vocab hp], 0),
         (dec, ASR_TENSOR_LN_WEIGHT, 0, [n_text_state], 0), (dec, ASR_TENSOR_LN_BIAS, 0, [n_text_state], 0)]
      @ concat (map (\<lambda>i. mlp_specs dec wtype n_text_state i @ attn_specs dec wtype n_text_state i
                       @ attn_specs ASR_SYSTEM_CROSS wtype n_text_state i) [0..<nat (hp_n_text_layer hp)]))"

definition new_tensor :: "nat \<Rightarrow> int list \<Rightarrow> ggml_tensor" where
  "new_tensor ty dims = \<lparr>t_type = ty, t_ne = take 4 (dims @ [1, 1, 1, 1])\<rparr>"

text \<open>\<open>model.tensors\<close>: a later tensor of the same name would replace the earlier one.\<close>

fun create_tensors :: "tensor_spec list \<Rightarrow> (bytestring \<times> ggml_tensor) list option" where
  "create_tensors [] = Some []"
| "create_tensors ((sys, t, ty, dims, layer) # r) =
    (case ASR_TENSOR_NAMES sys t layer of
       None \<Rightarrow> None
     | Some name \<Rightarrow> map_option (\<lambda>ts. (bytes name, new_tensor ty dims) # ts) (create_tensors r))"

definition tensor_count :: "(bytestring \<times> ggml_tensor) list \<Rightarrow> nat" where
  "tensor_count ts = card (fst ` set ts)"

text \<open>Room in the context of the tensors.\<close>

definition n_tensors :: "whisper_hparams \<Rightarrow> int" where
  "n_tensors hp = 10 + 15 + 15 * hp_n_audio_layer hp + 24 * hp_n_text_layer hp"

definition find_tensor :: "(bytestring \<times> ggml_tensor) list \<Rightarrow> bytestring \<Rightarrow> ggml_tensor option" where
  "find_tensor ts name = map_of (rev ts) name"

section \<open>The header\<close>

definition GGML_FILE_MAGIC :: int where "GGML_FILE_MAGIC = 0x67676d6c"

definition crem :: "int \<Rightarrow> int \<Rightarrow> int" where "crem a b = a - b * cdiv a b"

definition read_hparams :: "whisper_hparams \<Rightarrow> bytestring \<Rightarrow> whisper_hparams \<times> bytestring" where
  "read_hparams hp r0 =
    (let (n_vocab, r1) = read_i32 (hp_n_vocab hp) r0; (n_audio_ctx, r2) = read_i32 (hp_n_audio_ctx hp) r1;
         (n_audio_state, r3) = read_i32 (hp_n_audio_state hp) r2; (n_audio_head, r4) = read_i32 (hp_n_audio_head hp) r3;
         (n_audio_layer, r5) = read_i32 (hp_n_audio_layer hp) r4; (n_text_ctx, r6) = read_i32 (hp_n_text_ctx hp) r5;
         (n_text_state, r7) = read_i32 (hp_n_text_state hp) r6; (n_text_head, r8) = read_i32 (hp_n_text_head hp) r7;
         (n_text_layer, r9) = read_i32 (hp_n_text_layer hp) r8; (n_mels, r10) = read_i32 (hp_n_mels hp) r9;
         (ftype, r11) = read_i32 (hp_ftype hp) r10
     in (\<lparr>hp_n_vocab = n_vocab, hp_n_audio_ctx = n_audio_ctx, hp_n_audio_state = n_audio_state, hp_n_audio_head = n_audio_head,
          hp_n_audio_layer = n_audio_layer, hp_n_text_ctx = n_text_ctx, hp_n_text_state = n_text_state, hp_n_text_head = n_text_head,
          hp_n_text_layer = n_text_layer, hp_n_mels = n_mels, hp_ftype = ftype\<rparr>, r11))"

datatype e_model = MODEL_UNKNOWN | MODEL_TINY | MODEL_BASE | MODEL_SMALL | MODEL_MEDIUM | MODEL_LARGE

definition model_type :: "int \<Rightarrow> e_model" where
  "model_type n_audio_layer =
    (if n_audio_layer = 4 then MODEL_TINY else if n_audio_layer = 6 then MODEL_BASE else if n_audio_layer = 12 then MODEL_SMALL
     else if n_audio_layer = 24 then MODEL_MEDIUM else if n_audio_layer = 32 then MODEL_LARGE else MODEL_UNKNOWN)"

text \<open>The filters: a negative size makes \<open>resize\<close> throw; the new numbers are zero.\<close>

definition read_filters :: "int \<Rightarrow> bytestring \<Rightarrow> ((int \<times> int \<times> bytestring) \<times> bytestring) option" where
  "read_filters junk r0 =
    (let (n_mel, r1) = read_i32 junk r0; (n_fft, r2) = read_i32 junk r1; n = n_mel * n_fft
     in if n < 0 \<or> \<not> in_i32 n then None
        else let (got, r3) = read_bytes (nat n * 4) r2 in Some ((n_mel, n_fft, overwrite got (replicate (nat n * 4) 0)), r3))"

text \<open>The words; the buffer \<open>tmp\<close> keeps its bytes from word to word.\<close>

fun read_words :: "int \<Rightarrow> nat \<Rightarrow> bytestring \<Rightarrow> bytestring \<Rightarrow> bytestring list \<times> bytestring" where
  "read_words junk 0 tmp rest = ([], rest)"
| "read_words junk (Suc n) tmp rest =
    (let (len, r1) = read_u32 junk rest in
     if len > 0 then
       let (got, r2) = read_bytes (nat len) r1;
           word = overwrite got (take (nat len) tmp @ replicate (nat len - length tmp) 0);
           (ws, r3) = read_words junk n word r2
       in (word # ws, r3)
     else let (ws, r3) = read_words junk n tmp r1 in ([] # ws, r3))"

section \<open>The weights\<close>

text \<open>The dimensions of a tensor in the file; there is room for four, and the product is an \<open>int\<close>.\<close>

fun read_dims :: "nat \<Rightarrow> nat \<Rightarrow> int \<Rightarrow> int list \<Rightarrow> bytestring \<Rightarrow> (int \<times> int list \<times> bytestring) option" where
  "read_dims 0 i nelements ne rest = Some (nelements, ne, rest)"
| "read_dims (Suc n) i nelements ne rest =
    (if 4 \<le> i then None
     else let (d, r1) = read_i32 (ne ! i) rest
          in if in_i32 (nelements * d) then read_dims n (Suc i) (nelements * d) (ne[i := d]) r1 else None)"

datatype 'a step = Done | Reject | Continue 'a

type_synonym weights = "bytestring \<rightharpoonup> bytestring"

text \<open>One round of the loop: the header, the checks in the order of the code, and the data.\<close>

definition load_tensor :: "int \<Rightarrow> (bytestring \<times> ggml_tensor) list \<Rightarrow> bytestring \<Rightarrow> weights \<times> int
    \<Rightarrow> ((weights \<times> int) \<times> bytestring) step option" where
  "load_tensor junk tensors rest = (\<lambda>(w, n_loaded).
    (let (n_dims, r1) = read_i32 junk rest; (len, r2) = read_i32 junk r1; (ttype, r3) = read_i32 junk r2
     in if eof r3 then Some Done
        else
          (case read_dims (nat n_dims) 0 1 [1, 1, 1, 1] r3 of
             None \<Rightarrow> None
           | Some (nelements, ne, r4) \<Rightarrow>
               (if len < 0 then None
                else
                  let (got, r5) = read_bytes (nat len) r4; name = overwrite got (replicate (nat len) 0)
                  in case find_tensor tensors name of
                       None \<Rightarrow> Some Reject
                     | Some t \<Rightarrow>
                         (if ggml_nelements t \<noteq> nelements then Some Reject
                          else if \<not> (t_ne t ! 0 = ne ! 0 \<and> t_ne t ! 1 = ne ! 1 \<and> t_ne t ! 2 = ne ! 2) then Some Reject
                          else if ttype < 0 \<or> int (length type_traits) \<le> ttype then None
                          else if nelements * int (ggml_type_size (nat ttype)) div int (ggml_blck_size (t_type t)) \<noteq> ggml_nbytes t
                          then Some Reject
                          else let (data, r6) = read_bytes (nat (ggml_nbytes t)) r5
                               in Some (Continue ((w(name \<mapsto> data), n_loaded + 1), r6)))))))"

lemma read_i32_rest: "snd (read_i32 old rest) = drop 4 rest"
  by (simp add: read_i32_def read_bytes_def)

lemma read_dims_rest: "read_dims n i k ne rest = Some (m, ne', rest') \<Longrightarrow> length rest' \<le> length rest"
proof (induction n i k ne rest rule: read_dims.induct)
  case (2 n i k ne rest)
  obtain d where d: "read_i32 (ne ! i) rest = (d, drop 4 rest)" by (metis prod.collapse read_i32_rest)
  have "read_dims n (Suc i) (k * d) (ne[i := d]) (drop 4 rest) = Some (m, ne', rest')" and i: "\<not> 4 \<le> i" "in_i32 (k * d)"
    using "2.prems" d by (auto split: if_splits)
  from "2.IH" [OF i(1) d [symmetric] refl i(2) this(1)] show ?case by simp
qed simp

lemma load_tensor_consumes:
  assumes "load_tensor junk tensors rest s = Some (Continue (s', rest'))"
  shows "length rest' < length rest"
proof -
  have ne: "rest \<noteq> []" using assms
    by (auto simp: load_tensor_def eof_def read_i32_def read_bytes_def Let_def split: prod.splits)
  obtain m ne r4 where r4: "read_dims (nat (fst (read_i32 junk rest))) 0 1 [1, 1, 1, 1] (drop 12 rest) = Some (m, ne, r4)"
    "length rest' \<le> length r4"
    using assms by (auto simp: load_tensor_def read_i32_def read_bytes_def Let_def split: prod.splits if_splits option.splits)
  show ?thesis using read_dims_rest [OF r4(1)] r4(2) ne by (cases rest) auto
qed

function load_weights :: "int \<Rightarrow> (bytestring \<times> ggml_tensor) list \<Rightarrow> bytestring \<Rightarrow> weights \<times> int \<Rightarrow> (weights \<times> int) option option" where
  "load_weights junk tensors rest s =
    (case load_tensor junk tensors rest s of
       None \<Rightarrow> None
     | Some Done \<Rightarrow> Some (Some s)
     | Some Reject \<Rightarrow> Some None
     | Some (Continue (s', rest')) \<Rightarrow> load_weights junk tensors rest' s')"
  by pat_completeness auto
termination
  by (relation "measure (\<lambda>(junk, tensors, rest, s). length rest)") (auto dest: load_tensor_consumes)

declare load_weights.simps [simp del]

section \<open>The model\<close>

record whisper_model =
  m_type :: e_model
  m_hparams :: whisper_hparams
  m_wtype :: nat
  m_filters :: "int \<times> int \<times> bytestring"
  m_vocab :: whisper_vocab
  m_tensors :: "(bytestring \<times> ggml_tensor) list"
  m_weights :: weights
  m_n_loaded :: int

text \<open>
  \<open>None\<close>: the function throws, runs into a failed assertion or writes outside of an array;
  \<open>Some None\<close>: it logs an error and returns false.  The memory for the tensors is taken to be there.  A negative
  number of layers makes \<open>resize\<close> throw.
\<close>

definition whisper_model_load :: "int \<Rightarrow> bytestring \<Rightarrow> whisper_model option option" where
  "whisper_model_load junk buffer =
    (let (magic, r0) = read_u32 junk buffer in
     if magic \<noteq> GGML_FILE_MAGIC then Some None
     else
       let (hp0, r1) = read_hparams default_hparams r0
       in if hp_n_text_state hp0 \<noteq> hp_n_audio_state hp0 then None
          else
            let hp = hp0\<lparr>hp_ftype := crem (hp_ftype hp0) 1000\<rparr>
            in case ggml_ftype_to_ggml_type (hp_ftype hp) of
                 None \<Rightarrow> None
               | Some wtype \<Rightarrow>
                   (case read_filters junk r1 of
                      None \<Rightarrow> None
                    | Some (filters, r2) \<Rightarrow>
                        (let (n_words, r3) = read_i32 0 r2; (words, r4) = read_words junk (nat n_words) [] r3
                         in case load_vocab_from n_words words (hp_n_vocab hp) of
                              None \<Rightarrow> None
                            | Some voc \<Rightarrow>
                                (case (if hp_n_audio_layer hp < 0 \<or> hp_n_text_layer hp < 0 then None else create_tensors (model_specs hp wtype)) of
                                   None \<Rightarrow> None
                                 | Some tensors \<Rightarrow>
                                     (case load_weights junk tensors r4 (Map.empty, 0) of
                                        None \<Rightarrow> None
                                      | Some None \<Rightarrow> Some None
                                      | Some (Some (w, n_loaded)) \<Rightarrow>
                                          (if n_loaded \<noteq> 0 \<and> n_loaded \<noteq> int (tensor_count tensors) then Some None
                                           else Some (Some \<lparr>m_type = model_type (hp_n_audio_layer hp), m_hparams = hp, m_wtype = wtype,
                                                  m_filters = filters, m_vocab = voc, m_tensors = tensors, m_weights = w,
                                                  m_n_loaded = n_loaded\<rparr>)))))))"

text \<open>With a loaded model the context exists, otherwise the caller gets the null pointer.  Attention weights are not
  kept by the fused attention, so that it excludes the timestamps that need them.\<close>

definition whisper_init_from_buffer :: "int \<Rightarrow> bytestring \<Rightarrow> bool \<Rightarrow> bool \<Rightarrow> (whisper_model \<times> bool) option option" where
  "whisper_init_from_buffer junk buffer flash_attn dtw_token_timestamps =
    (let dtw = (if flash_attn \<and> dtw_token_timestamps then False else dtw_token_timestamps)
     in map_option (map_option (\<lambda>m. (m, dtw))) (whisper_model_load junk buffer))"

end
