(* ===== verification/Model_Load.thy ===== *)
theory Model_Load
  imports Model_File "HOL-Library.Multiset"
begin

text \<open>
  Loading a model is right: a file written for an architecture is loaded with every number, word and weight, with
  the tensors in any order; and whatever file is accepted, each weight that was stored belongs to a tensor of the
  architecture and fits into it.
\<close>

section \<open>Numbers\<close>

lemma bytes_of_int_unfold:
  "bytes_of_int x = [word_of_int x, word_of_int (x div 256), word_of_int (x div 65536), word_of_int (x div 16777216)]"
proof -
  have "[0..<4] = [0, 1, 2, 3::nat]" by (simp add: upt_rec)
  then show ?thesis by (simp add: bytes_of_int_def)
qed

lemma uint_byte: "uint (word_of_int x :: u8) = x mod 256"
  by (simp add: uint_word_of_int)

lemma int_of_bytes:
  fixes x :: int
  shows "x mod 256 + 256 * (x div 256 mod 256 + 256 * (x div 65536 mod 256 + 256 * (x div 16777216 mod 256))) = x mod 4294967296"
proof -
  have m: "y mod (256 * k) = 256 * (y div 256 mod k) + y mod 256" if "0 \<le> k" for y k :: int
    using zmod_zmult2_eq [OF that] .
  have d: "x div 256 div 256 = x div 65536" "x div 65536 div 256 = x div 16777216"
    by (subst zdiv_zmult2_eq [symmetric]; simp)+
  have k: "(256::int) * 256 = 65536" "(256::int) * 65536 = 16777216" "(256::int) * 16777216 = 4294967296" by simp_all
  have p: "(0::int) \<le> 256" "(0::int) \<le> 65536" "(0::int) \<le> 16777216" by simp_all
  have "x mod 4294967296 = 256 * (x div 256 mod 16777216) + x mod 256" using m [OF p(3), of x] by (simp only: k)
  moreover have "x div 256 mod 16777216 = 256 * (x div 65536 mod 65536) + x div 256 mod 256"
    using m [OF p(2), of "x div 256"] by (simp only: d k)
  moreover have "x div 65536 mod 65536 = 256 * (x div 16777216 mod 256) + x div 65536 mod 256"
    using m [OF p(1), of "x div 65536"] by (simp only: d k)
  ultimately show ?thesis by (simp only: ac_simps)
qed

lemma u32_bytes: "u32_of_bytes (bytes_of_int x) = x mod 4294967296"
  using int_of_bytes [of x] by (simp only: u32_of_bytes_def bytes_of_int_unfold foldr.simps uint_byte comp_apply id_apply mult_zero_right add_0_right)

lemma length_bytes_of_int [simp]: "length (bytes_of_int x) = 4"
  by (simp add: bytes_of_int_def)

lemma overwrite_full [simp]: "length got = length old \<Longrightarrow> overwrite got old = got"
  by (simp add: overwrite_def)

lemma read_i32_bytes [simp]:
  assumes "in_i32 x"
  shows "read_i32 old (bytes_of_int x @ rest) = (x, rest)"
proof -
  have "i32_of_bytes (bytes_of_int x) = x"
  proof (cases "0 \<le> x")
    case True
    then show ?thesis using assms by (simp add: i32_of_bytes_def u32_bytes in_i32_def Let_def)
  next
    case False
    then have "x mod 4294967296 = x + 4294967296"
      using assms mod_pos_pos_trivial [of "x + 4294967296" 4294967296] by (simp add: in_i32_def)
    then show ?thesis using assms False by (simp add: i32_of_bytes_def u32_bytes in_i32_def Let_def)
  qed
  then show ?thesis by (simp add: read_i32_def read_bytes_def)
qed

lemma read_u32_bytes [simp]: "0 \<le> x \<Longrightarrow> x < 2 ^ 32 \<Longrightarrow> read_u32 old (bytes_of_int x @ rest) = (x, rest)"
  by (simp add: read_u32_def read_bytes_def u32_bytes)

section \<open>The sizes of tensors\<close>

lemma strides_scaled: "strides (a * k) ns = map (\<lambda>s. a * s) (strides k ns)"
  by (induction ns arbitrary: k) (simp_all add: mult.assoc)

lemma strides_sum:
  assumes "\<forall>n \<in> set ns. 0 < n"
  shows "sum_list (map (\<lambda>(n, s). (n - 1) * s) (zip ns (strides k ns))) = k * prod_list ns - k"
  using assms
proof (induction ns arbitrary: k)
  case (Cons n ns)
  then show ?case using Cons.IH [of "k * n"] by (simp add: algebra_simps)
qed simp

text \<open>A tensor whose rows are whole blocks takes its number of blocks times the bytes of a block.\<close>

definition whole_blocks :: "ggml_tensor \<Rightarrow> bool" where
  "whole_blocks t \<longleftrightarrow> t_ne t \<noteq> [] \<and> (\<forall>n \<in> set (t_ne t). 0 < n) \<and> 0 < ggml_blck_size (t_type t) \<and>
    int (ggml_blck_size (t_type t)) dvd hd (t_ne t)"

lemma ggml_nbytes_blocks:
  assumes "whole_blocks t"
  shows "ggml_nbytes t = ggml_nelements t * int (ggml_type_size (t_type t)) div int (ggml_blck_size (t_type t))"
proof -
  define b where "b = int (ggml_blck_size (t_type t))"
  define s where "s = int (ggml_type_size (t_type t))"
  obtain n ns where ne: "t_ne t = n # ns" using assms by (cases "t_ne t") (auto simp: whole_blocks_def)
  have b: "0 < b" using assms by (simp add: whole_blocks_def b_def)
  obtain q where q: "n = b * q" using assms ne by (auto simp: whole_blocks_def b_def)
  have pos: "0 < n" "\<forall>m \<in> set ns. 0 < m" using assms ne by (auto simp: whole_blocks_def)
  then have no: "\<not> list_ex (\<lambda>m. m \<le> 0) (t_ne t)" by (auto simp: ne list_ex_iff)
  have nd: "n div b = q" using b q by simp
  have nb: "tensor_nb t = s # strides (s * q) ns" by (simp add: tensor_nb_def Let_def ne nd flip: b_def s_def)
  have st: "sum_list (map (\<lambda>(n, s). (n - 1) * s) (zip ns (strides (s * q) ns))) = s * q * prod_list ns - s * q"
    using strides_sum [OF pos(2)] .
  have r: "ggml_nelements t * s div b = s * q * prod_list ns"
    using b by (simp add: ggml_nelements_def ne q mult.assoc mult.left_commute mult.commute)
  show ?thesis
  proof (cases "b = 1")
    case True
    then have "ggml_nbytes t = s + ((n - 1) * s + (s * q * prod_list ns - s * q))"
      using no st by (simp add: ggml_nbytes_def Let_def nb ne flip: b_def s_def)
    then have "ggml_nbytes t = s * q * prod_list ns" using q True by (simp add: algebra_simps)
    then show ?thesis using r by (simp flip: b_def s_def)
  next
    case False
    have "n * s div b = s * q" using b q by (simp add: mult.assoc mult.left_commute mult.commute)
    then show ?thesis using no st r False
      by (simp add: ggml_nbytes_def Let_def nb flip: b_def s_def) (simp add: ne)
  qed
qed

section \<open>The names of the tensors\<close>

lemma bytes_inj: "bytes a = bytes b \<Longrightarrow> a = b"
proof -
  have "inj (\<lambda>c :: char. word_of_int (of_char c) :: u8)"
  proof (rule injI)
    fix c d :: char
    assume "word_of_int (of_char c) = (word_of_int (of_char d) :: u8)"
    then have "uint (word_of_int (of_char c) :: u8) = uint (word_of_int (of_char d) :: u8)" by simp
    then have "(of_char c :: int) = of_char d" by (simp add: uint_word_of_int)
    then show "c = d" by simp
  qed
  then show "bytes a = bytes b \<Longrightarrow> a = b" by (simp add: bytes_def inj_map_eq_map)
qed

lemma digits_no_dot: "CHR 0x2E \<notin> set (dec_digits n)"
proof (induction n rule: dec_digits.induct)
  case (1 n)
  have "(char_of (48 + m) :: char) \<noteq> CHR 0x2E" if "m < 10" for m :: nat
  proof
    assume "(char_of (48 + m) :: char) = CHR 0x2E"
    then have "of_char (char_of (48 + m) :: char) = (of_char (CHR 0x2E) :: nat)" by simp
    then show False using that by simp
  qed
  then show ?case using 1 by (subst dec_digits.simps) (auto simp: eq_commute)
qed

lemma dec_digits_inj: "dec_digits m = dec_digits n \<Longrightarrow> m = n"
proof (induction m arbitrary: n rule: less_induct)
  case (less m)
  have char: "i = j" if "(char_of (48 + i) :: char) = char_of (48 + j)" "i < 10" "j < 10" for i j :: nat
  proof -
    have "of_char (char_of (48 + i) :: char) = (of_char (char_of (48 + j) :: char) :: nat)" using that(1) by simp
    then show "i = j" using that by simp
  qed
  have ne: "dec_digits k \<noteq> []" for k by (subst dec_digits.simps) simp
  show ?case
  proof (cases "m < 10 \<or> n < 10")
    case True
    then have "m < 10 \<and> n < 10" using less.prems ne [of "m div 10"] ne [of "n div 10"]
      by (cases "m < 10"; cases "n < 10") (auto simp: dec_digits.simps [of m] dec_digits.simps [of n])
    then show ?thesis using less.prems char [of m n] by (simp add: dec_digits.simps [of m] dec_digits.simps [of n])
  next
    case False
    then have eq: "dec_digits (m div 10) @ [char_of (48 + m mod 10) :: char] = dec_digits (n div 10) @ [char_of (48 + n mod 10)]"
      using less.prems by (simp add: dec_digits.simps [of m] dec_digits.simps [of n])
    then have "m div 10 = n div 10" using less.IH [of "m div 10" "n div 10"] False by simp
    moreover have "m mod 10 = n mod 10" using eq char by simp
    ultimately show ?thesis by (metis div_mult_mod_eq)
  qed
qed

definition block_string :: "string \<Rightarrow> nat \<Rightarrow> string \<Rightarrow> string" where
  "block_string system layer n = system @ ''.blocks.'' @ dec_digits layer @ ''.'' @ n"

lemma block_string_inj:
  assumes "block_string system i a = block_string system j b"
  shows "i = j \<and> a = b"
proof -
  have split: "takeWhile (\<lambda>c. c \<noteq> CHR 0x2E) (dec_digits k @ ''.'' @ s) = dec_digits k" for k s
    using digits_no_dot [of k] by (subst takeWhile_append2) auto
  have eq: "dec_digits i @ ''.'' @ a = dec_digits j @ ''.'' @ b" using assms by (simp add: block_string_def)
  then have "dec_digits i = dec_digits j" using split by metis
  then show ?thesis using eq dec_digits_inj by auto
qed

lemma layers_distinct:
  assumes "distinct ns"
  shows "distinct (concat (map (\<lambda>i. map (block_string system i) ns) [0..<k]))"
proof -
  have "inj_on (block_string system i) (set ns)" for i using block_string_inj by (auto intro!: inj_onI)
  then show ?thesis
    using assms by (induction k) (auto simp: distinct_map dest!: block_string_inj)
qed

definition block_parts :: "string list" where
  "block_parts =
    [''mlp_ln.weight'', ''mlp_ln.bias'', ''mlp.0.weight'', ''mlp.0.bias'', ''mlp.2.weight'', ''mlp.2.bias'', ''attn_ln.weight'', ''attn_ln.bias'',
     ''attn.query.weight'', ''attn.query.bias'', ''attn.key.weight'', ''attn.value.weight'', ''attn.value.bias'', ''attn.out.weight'', ''attn.out.bias'']"

definition cross_parts :: "string list" where
  "cross_parts =
    [''cross_attn_ln.weight'', ''cross_attn_ln.bias'', ''cross_attn.query.weight'', ''cross_attn.query.bias'', ''cross_attn.key.weight'',
     ''cross_attn.value.weight'', ''cross_attn.value.bias'', ''cross_attn.out.weight'', ''cross_attn.out.bias'']"

definition encoder_names :: "string list" where
  "encoder_names = [''encoder.positional_embedding'', ''encoder.conv1.weight'', ''encoder.conv1.bias'', ''encoder.conv2.weight'',
     ''encoder.conv2.bias'', ''encoder.ln_post.weight'', ''encoder.ln_post.bias'']"

definition decoder_names :: "string list" where
  "decoder_names = [''decoder.positional_embedding'', ''decoder.token_embedding.weight'', ''decoder.ln.weight'', ''decoder.ln.bias'']"

lemma parts_distinct: "distinct block_parts" "distinct (block_parts @ cross_parts)"
  by (simp_all add: block_parts_def cross_parts_def)

definition layer_strings :: "string \<Rightarrow> string list \<Rightarrow> nat \<Rightarrow> string list" where
  "layer_strings system parts k = concat (map (\<lambda>i. map (block_string system i) parts) [0..<k])"

definition model_names :: "nat \<Rightarrow> nat \<Rightarrow> string list" where
  "model_names n_audio n_text = encoder_names @ layer_strings ''encoder'' block_parts n_audio @ decoder_names
     @ layer_strings ''decoder'' (block_parts @ cross_parts) n_text"

lemma layer_strings_start: "s \<in> set (layer_strings system parts k) \<Longrightarrow> prefix (system @ ''.b'') s"
  by (auto simp: layer_strings_def block_string_def)

lemma model_names_distinct: "distinct (model_names n_audio n_text)"
proof -
  have d: "distinct (layer_strings ''encoder'' block_parts n_audio)" "distinct (layer_strings ''decoder'' (block_parts @ cross_parts) n_text)"
    unfolding layer_strings_def by (rule layers_distinct, rule parts_distinct)+
  have e: "prefix ''encoder.b'' s" if "s \<in> set (layer_strings ''encoder'' block_parts n_audio)" for s
    using layer_strings_start [OF that] by simp
  have c: "prefix ''decoder.b'' s" if "s \<in> set (layer_strings ''decoder'' (block_parts @ cross_parts) n_text)" for s
    using layer_strings_start [OF that] by simp
  have disj: "set encoder_names \<inter> set decoder_names = {}" "distinct encoder_names" "distinct decoder_names"
    by (simp_all add: encoder_names_def decoder_names_def)
  have "\<not> prefix ''encoder.b'' s" "\<not> prefix ''decoder.b'' s" if "s \<in> set (encoder_names @ decoder_names)" for s
    using that by (auto simp: encoder_names_def decoder_names_def)
  moreover have "\<not> (prefix ''encoder.b'' s \<and> prefix ''decoder.b'' s)" for s :: string
    by (cases s) auto
  ultimately show ?thesis using d disj e c unfolding model_names_def distinct_append set_append by blast
qed

definition spec_name :: "tensor_spec \<Rightarrow> string option" where
  "spec_name = (\<lambda>(sys, t, ty, dims, layer). ASR_TENSOR_NAMES sys t layer)"

lemma create_tensors_named:
  assumes "map spec_name specs = map Some names"
  shows "\<exists>ts. create_tensors specs = Some ts \<and> map fst ts = map bytes names"
  using assms
proof (induction specs arbitrary: names)
  case (Cons s specs)
  then obtain n ns where names: "names = n # ns" "spec_name s = Some n" "map spec_name specs = map Some ns" by (cases names) auto
  from Cons.IH [OF names(3)] obtain ts where "create_tensors specs = Some ts" "map fst ts = map bytes ns" by blast
  then show ?case using names(1,2) by (cases s) (auto simp: spec_name_def)
qed simp

lemma layer_specs_names:
  "map spec_name (mlp_specs ASR_SYSTEM_ENCODER wtype n i @ attn_specs ASR_SYSTEM_ENCODER wtype n i)
    = map Some (map (block_string ''encoder'' i) block_parts)"
  "map spec_name (mlp_specs ASR_SYSTEM_DECODER wtype n i @ attn_specs ASR_SYSTEM_DECODER wtype n i @ attn_specs ASR_SYSTEM_CROSS wtype n i)
    = map Some (map (block_string ''decoder'' i) (block_parts @ cross_parts))"
  by (simp_all add: spec_name_def mlp_specs_def attn_specs_def layer_name_def block_string_def block_parts_def cross_parts_def)

lemma model_specs_names:
  "map spec_name (model_specs hp wtype) = map Some (model_names (nat (hp_n_audio_layer hp)) (nat (hp_n_text_layer hp)))"
proof -
  have layers: "map spec_name (concat (map g [0..<k])) = map Some (layer_strings system parts k)"
    if "\<And>i. map spec_name (g i) = map Some (map (block_string system i) parts)" for g system parts k
    using that by (induction k) (simp_all add: layer_strings_def)
  show ?thesis
    unfolding model_specs_def model_names_def Let_def map_append
    by (simp only: layers [OF layer_specs_names(1)] layers [OF layer_specs_names(2)])
      (simp add: spec_name_def encoder_names_def decoder_names_def)
qed

lemma length_layer_strings [simp]: "length (layer_strings system parts k) = k * length parts"
  by (induction k) (simp_all add: layer_strings_def)

lemma model_tensors:
  assumes "create_tensors (model_specs hp wtype) = Some ts"
  shows "distinct (map fst ts)" "length ts = 11 + 15 * nat (hp_n_audio_layer hp) + 24 * nat (hp_n_text_layer hp)"
    "tensor_count ts = length ts"
proof -
  from create_tensors_named [OF model_specs_names, of hp wtype]
  have names: "map fst ts = map bytes (model_names (nat (hp_n_audio_layer hp)) (nat (hp_n_text_layer hp)))" using assms by auto
  then show d: "distinct (map fst ts)"
    using model_names_distinct bytes_inj by (auto simp: distinct_map intro!: inj_onI)
  have "length (map fst ts) = length (model_names (nat (hp_n_audio_layer hp)) (nat (hp_n_text_layer hp)))" using names by simp
  then show "length ts = 11 + 15 * nat (hp_n_audio_layer hp) + 24 * nat (hp_n_text_layer hp)"
    by (simp add: model_names_def encoder_names_def decoder_names_def block_parts_def cross_parts_def)
  show "tensor_count ts = length ts" using distinct_card [OF d] by (simp add: tensor_count_def)
qed

section \<open>A file\<close>

text \<open>The layout that the converter writes: sizes and numbers of four bytes, the first dimension first.\<close>

record file_tensor =
  f_name :: bytestring
  f_dims :: "int list"
  f_data :: bytestring

record model_file =
  mf_hparams :: whisper_hparams
  mf_n_mel :: int
  mf_n_fft :: int
  mf_filters :: bytestring
  mf_words :: "bytestring list"
  mf_tensors :: "file_tensor list"

definition encode_tensor :: "nat \<Rightarrow> file_tensor \<Rightarrow> bytestring" where
  "encode_tensor ttype f = bytes_of_int (int (length (f_dims f))) @ bytes_of_int (int (length (f_name f))) @ bytes_of_int (int ttype)
     @ concat (map bytes_of_int (f_dims f)) @ f_name f @ f_data f"

definition encode_weights :: "(bytestring \<times> ggml_tensor) list \<Rightarrow> file_tensor list \<Rightarrow> bytestring" where
  "encode_weights tensors fs = concat (map (\<lambda>f. encode_tensor (t_type (the (find_tensor tensors (f_name f)))) f) fs)"

text \<open>A tensor of the file is one of the architecture, of the right shape and size.\<close>

definition fits :: "(bytestring \<times> ggml_tensor) list \<Rightarrow> file_tensor \<Rightarrow> bool" where
  "fits tensors f \<longleftrightarrow>
    (case find_tensor tensors (f_name f) of
       None \<Rightarrow> False
     | Some t \<Rightarrow> whole_blocks t \<and> t_type t < length type_traits \<and> ggml_nelements t < 2 ^ 31 \<and> f_dims f \<noteq> [] \<and> length (f_dims f) \<le> 4
         \<and> t_ne t = take 4 (f_dims f @ [1, 1, 1, 1]) \<and> length (f_name f) < 2 ^ 31 \<and> int (length (f_data f)) = ggml_nbytes t)"

lemma read_dims_written:
  assumes "i + length ds \<le> 4" "length ne = 4" "\<forall>d \<in> set ds. 0 < d" "0 < k" "k * prod_list ds < 2 ^ 31"
  shows "read_dims (length ds) i k ne (concat (map bytes_of_int ds) @ rest)
    = Some (k * prod_list ds, take i ne @ ds @ drop (i + length ds) ne, rest)"
  using assms
proof (induction ds arbitrary: i k ne)
  case (Cons d ds)
  have pos: "0 < prod_list ds" using Cons.prems(3) by (induction ds) auto
  have kd: "0 < k * d" "k * d * 1 \<le> k * d * prod_list ds" using Cons.prems(3,4) pos by (auto intro!: mult_left_mono)
  then have b: "in_i32 (k * d)" using Cons.prems(5) by (simp add: in_i32_def mult.assoc)
  have "d \<le> k * d" "0 < d" using Cons.prems(3,4) mult_right_mono [of 1 k d] by simp_all
  then have d: "in_i32 d" using b unfolding in_i32_def by linarith
  have "read_dims (length ds) (Suc i) (k * d) (ne[i := d]) (concat (map bytes_of_int ds) @ rest)
      = Some (k * d * prod_list ds, take (Suc i) (ne[i := d]) @ ds @ drop (Suc i + length ds) (ne[i := d]), rest)"
    using Cons.prems kd(1) by (intro Cons.IH) (auto simp: mult.assoc)
  moreover have "take (Suc i) (ne[i := d]) = take i ne @ [d]" using Cons.prems(1,2) by (simp add: take_Suc_snoc)
  moreover have "drop (Suc i + length ds) (ne[i := d]) = drop (Suc (i + length ds)) ne" by simp
  ultimately show ?case using Cons.prems(1) b d by (simp add: mult.assoc)
qed simp

lemma pad_ones:
  assumes "length (ds :: int list) \<le> 4"
  shows "take 4 (ds @ [1, 1, 1, 1]) = ds @ drop (length ds) [1, 1, 1, 1]" "prod_list (take 4 (ds @ [1, 1, 1, 1])) = prod_list ds"
proof -
  have "length ds = 0 \<or> length ds = 1 \<or> length ds = 2 \<or> length ds = 3 \<or> length ds = 4" using assms by arith
  then show "take 4 (ds @ [1, 1, 1, 1]) = ds @ drop (length ds) [1, 1, 1, 1]" "prod_list (take 4 (ds @ [1, 1, 1, 1])) = prod_list ds"
    by (elim disjE; simp)+
qed

lemma load_tensor_written:
  assumes "fits tensors f"
  shows "load_tensor junk tensors (encode_tensor (t_type (the (find_tensor tensors (f_name f)))) f @ rest) (w, n)
    = Some (Continue ((w(f_name f \<mapsto> f_data f), n + 1), rest))"
proof -
  obtain t where t: "find_tensor tensors (f_name f) = Some t" using assms by (auto simp: fits_def split: option.splits)
  have a: "whole_blocks t" "t_type t < length type_traits" "ggml_nelements t < 2 ^ 31" "f_dims f \<noteq> []" "length (f_dims f) \<le> 4"
      "t_ne t = take 4 (f_dims f @ [1, 1, 1, 1])" "length (f_name f) < 2 ^ 31" "int (length (f_data f)) = ggml_nbytes t"
    using assms t by (auto simp: fits_def)
  have ne: "t_ne t = f_dims f @ drop (length (f_dims f)) [1, 1, 1, 1]" "ggml_nelements t = prod_list (f_dims f)"
    using a(6) pad_ones [OF a(5)] by (simp_all add: ggml_nelements_def)
  have small: "in_i32 (int (length (f_dims f)))" "in_i32 (int (length (f_name f)))" "in_i32 (int (t_type t))"
    using a(2,5,7) by (auto simp: in_i32_def type_traits_def)
  have dims: "read_dims (length (f_dims f)) 0 1 [1, 1, 1, 1] (concat (map bytes_of_int (f_dims f)) @ f_name f @ f_data f @ rest)
      = Some (ggml_nelements t, t_ne t, f_name f @ f_data f @ rest)"
    using read_dims_written [of 0 "f_dims f" "[1, 1, 1, 1]" 1] a(1,3,5) ne by (auto simp: whole_blocks_def)
  have full: "concat (map bytes_of_int (f_dims f)) \<noteq> []"
    using a(4) by (cases "f_dims f") (auto simp: bytes_of_int_def)
  have blocks: "ggml_nelements t * int (ggml_type_size (t_type t)) div int (ggml_blck_size (t_type t)) = ggml_nbytes t"
    using ggml_nbytes_blocks [OF a(1)] by simp
  have bytes: "nat (ggml_nbytes t) = length (f_data f)" using a(8) by simp
  show ?thesis
    using small dims full a(2) blocks
    by (simp add: load_tensor_def encode_tensor_def t eof_def read_bytes_def bytes)
qed

definition stored :: "file_tensor list \<Rightarrow> weights \<Rightarrow> weights" where
  "stored fs w = foldl (\<lambda>w f. w(f_name f \<mapsto> f_data f)) w fs"

lemma load_weights_end: "load_weights junk tensors [] s = Some (Some s)"
  by (subst load_weights.simps) (simp add: load_tensor_def read_i32_def read_bytes_def eof_def split: prod.splits)

lemma load_weights_written:
  assumes "\<forall>f \<in> set fs. fits tensors f"
  shows "load_weights junk tensors (encode_weights tensors fs) (w, n) = Some (Some (stored fs w, n + int (length fs)))"
  using assms
proof (induction fs arbitrary: w n)
  case Nil
  show ?case by (simp add: encode_weights_def stored_def load_weights_end)
next
  case (Cons f fs)
  show ?case
    using Cons load_tensor_written [of tensors f junk "encode_weights tensors fs" w n]
    by (subst load_weights.simps) (simp add: encode_weights_def stored_def)
qed

lemma stored_distinct:
  assumes "distinct (map f_name fs)"
  shows "stored fs w = w ++ map_of (map (\<lambda>f. (f_name f, f_data f)) fs)"
  using assms
proof (induction fs arbitrary: w)
  case (Cons f fs)
  then have "map_of (map (\<lambda>f. (f_name f, f_data f)) fs) (f_name f) = None" by (simp add: map_of_eq_None_iff image_image)
  then show ?case using Cons by (auto simp: stored_def map_add_def fun_eq_iff split: option.splits)
qed (simp add: stored_def)

section \<open>Header, filters and words\<close>

definition encode_hparams :: "whisper_hparams \<Rightarrow> bytestring" where
  "encode_hparams hp = concat (map bytes_of_int
    [hp_n_vocab hp, hp_n_audio_ctx hp, hp_n_audio_state hp, hp_n_audio_head hp, hp_n_audio_layer hp, hp_n_text_ctx hp,
     hp_n_text_state hp, hp_n_text_head hp, hp_n_text_layer hp, hp_n_mels hp, hp_ftype hp])"

definition small_hparams :: "whisper_hparams \<Rightarrow> bool" where
  "small_hparams hp \<longleftrightarrow> list_all in_i32
    [hp_n_vocab hp, hp_n_audio_ctx hp, hp_n_audio_state hp, hp_n_audio_head hp, hp_n_audio_layer hp, hp_n_text_ctx hp,
     hp_n_text_state hp, hp_n_text_head hp, hp_n_text_layer hp, hp_n_mels hp, hp_ftype hp]"

definition encode_words :: "bytestring list \<Rightarrow> bytestring" where
  "encode_words ws = concat (map (\<lambda>w. bytes_of_int (int (length w)) @ w) ws)"

lemma read_hparams_written: "small_hparams hp \<Longrightarrow> read_hparams old (encode_hparams hp @ rest) = (hp, rest)"
  by (simp add: read_hparams_def encode_hparams_def small_hparams_def)

lemma read_filters_written:
  assumes "in_i32 a" "in_i32 b" "in_i32 (a * b)" "0 \<le> a * b" "int (length fs) = a * b * 4"
  shows "read_filters junk (bytes_of_int a @ bytes_of_int b @ fs @ rest) = Some ((a, b, fs), rest)"
proof -
  have "nat (a * b) * 4 = length fs" using assms(4,5) by simp
  then show ?thesis using assms by (simp add: read_filters_def read_bytes_def)
qed

lemma read_words_written:
  assumes "\<forall>w \<in> set ws. length w < 2 ^ 32"
  shows "read_words junk (length ws) tmp (encode_words ws @ rest) = (ws, rest)"
  using assms
proof (induction ws arbitrary: tmp)
  case (Cons w ws)
  then show ?case by (cases w) (simp_all add: encode_words_def read_bytes_def nat_add_distrib)
qed (simp add: encode_words_def)

section \<open>Round trip\<close>

definition encode_file :: "model_file \<Rightarrow> (bytestring \<times> ggml_tensor) list \<Rightarrow> bytestring" where
  "encode_file mf tensors = bytes_of_int GGML_FILE_MAGIC @ encode_hparams (mf_hparams mf)
     @ bytes_of_int (mf_n_mel mf) @ bytes_of_int (mf_n_fft mf) @ mf_filters mf
     @ bytes_of_int (int (length (mf_words mf))) @ encode_words (mf_words mf) @ encode_weights tensors (mf_tensors mf)"

text \<open>The numbers fit their fields, the format is known, the vocabulary loads, and the tensors are of the architecture.\<close>

definition well_formed :: "model_file \<Rightarrow> nat \<Rightarrow> (bytestring \<times> ggml_tensor) list \<Rightarrow> whisper_vocab \<Rightarrow> bool" where
  "well_formed mf wtype tensors voc \<longleftrightarrow>
    small_hparams (mf_hparams mf) \<and> hp_n_text_state (mf_hparams mf) = hp_n_audio_state (mf_hparams mf)
    \<and> 0 \<le> hp_ftype (mf_hparams mf) \<and> hp_ftype (mf_hparams mf) < 1000
    \<and> 0 \<le> hp_n_audio_layer (mf_hparams mf) \<and> 0 \<le> hp_n_text_layer (mf_hparams mf)
    \<and> ggml_ftype_to_ggml_type (hp_ftype (mf_hparams mf)) = Some wtype
    \<and> in_i32 (mf_n_mel mf) \<and> in_i32 (mf_n_fft mf) \<and> in_i32 (mf_n_mel mf * mf_n_fft mf) \<and> 0 \<le> mf_n_mel mf * mf_n_fft mf
    \<and> int (length (mf_filters mf)) = mf_n_mel mf * mf_n_fft mf * 4
    \<and> length (mf_words mf) < 2 ^ 31 \<and> list_all (\<lambda>w. length w < 2 ^ 32) (mf_words mf)
    \<and> load_vocab (mf_words mf) (hp_n_vocab (mf_hparams mf)) = Some voc
    \<and> create_tensors (model_specs (mf_hparams mf) wtype) = Some tensors
    \<and> list_all (fits tensors) (mf_tensors mf)"

definition loaded :: "model_file \<Rightarrow> nat \<Rightarrow> (bytestring \<times> ggml_tensor) list \<Rightarrow> whisper_vocab \<Rightarrow> whisper_model" where
  "loaded mf wtype tensors voc = \<lparr>m_type = model_type (hp_n_audio_layer (mf_hparams mf)), m_hparams = mf_hparams mf, m_wtype = wtype,
     m_filters = (mf_n_mel mf, mf_n_fft mf, mf_filters mf), m_vocab = voc, m_tensors = tensors,
     m_weights = stored (mf_tensors mf) Map.empty, m_n_loaded = int (length (mf_tensors mf))\<rparr>"

lemma load_written:
  assumes "well_formed mf wtype tensors voc"
  shows "whisper_model_load junk (encode_file mf tensors) =
    Some (if mf_tensors mf \<noteq> [] \<and> length (mf_tensors mf) \<noteq> tensor_count tensors then None else Some (loaded mf wtype tensors voc))"
proof -
  note wf = assms [unfolded well_formed_def list_all_iff]
  have "crem (hp_ftype (mf_hparams mf)) 1000 = hp_ftype (mf_hparams mf)" using wf by (simp add: crem_def)
  then have same: "mf_hparams mf\<lparr>hp_ftype := crem (hp_ftype (mf_hparams mf)) 1000\<rparr> = mf_hparams mf" by simp
  have n: "in_i32 (int (length (mf_words mf)))" using wf by (simp add: in_i32_def)
  have voc: "load_vocab_from (int (length (mf_words mf))) (mf_words mf) (hp_n_vocab (mf_hparams mf)) = Some voc"
    using wf by (simp add: load_vocab_def)
  have w: "\<And>rest. read_words junk (length (mf_words mf)) [] (encode_words (mf_words mf) @ rest) = (mf_words mf, rest)"
    using wf by (intro read_words_written) simp
  have f: "\<And>rest. read_filters junk (bytes_of_int (mf_n_mel mf) @ bytes_of_int (mf_n_fft mf) @ mf_filters mf @ rest)
      = Some ((mf_n_mel mf, mf_n_fft mf, mf_filters mf), rest)"
    using wf by (intro read_filters_written) simp_all
  have l: "load_weights junk tensors (encode_weights tensors (mf_tensors mf)) (Map.empty, 0)
      = Some (Some (stored (mf_tensors mf) Map.empty, int (length (mf_tensors mf))))"
    using wf load_weights_written [of "mf_tensors mf" tensors junk Map.empty 0] by simp
  show ?thesis
    using wf n by (simp add: whisper_model_load_def encode_file_def GGML_FILE_MAGIC_def read_hparams_written same f w voc l loaded_def Let_def)
qed

text \<open>The architecture has one tensor per name, and the context of the tensors has room for all of them.\<close>

theorem architecture_tensors:
  assumes "0 \<le> hp_n_audio_layer hp" "0 \<le> hp_n_text_layer hp"
  shows "\<exists>ts. create_tensors (model_specs hp wtype) = Some ts \<and> distinct (map fst ts) \<and>
    int (length ts) = 11 + 15 * hp_n_audio_layer hp + 24 * hp_n_text_layer hp \<and> int (length ts) \<le> n_tensors hp"
proof -
  from create_tensors_named [OF model_specs_names, of hp wtype] obtain ts
    where ts: "create_tensors (model_specs hp wtype) = Some ts" by blast
  show ?thesis using model_tensors [OF ts] assms by (intro exI [of _ ts]) (simp add: ts n_tensors_def)
qed

text \<open>C14: A file that is written for an architecture, with its tensors in any order, is loaded with all of its
  numbers, filters, words and weights.\<close>

theorem model_file_roundtrip:
  assumes "well_formed mf wtype tensors voc" "mset (map f_name (mf_tensors mf)) = mset (map fst tensors)"
  shows "whisper_model_load junk (encode_file mf tensors) = Some (Some (loaded mf wtype tensors voc)) \<and>
    m_weights (loaded mf wtype tensors voc) = map_of (map (\<lambda>f. (f_name f, f_data f)) (mf_tensors mf)) \<and>
    dom (m_weights (loaded mf wtype tensors voc)) = fst ` set tensors"
proof -
  have "create_tensors (model_specs (mf_hparams mf) wtype) = Some tensors" using assms(1) by (simp add: well_formed_def)
  note ts = model_tensors [OF this]
  have d: "distinct (map f_name (mf_tensors mf))" using ts(1) assms(2) by (metis mset_eq_imp_distinct_iff)
  have "length (mf_tensors mf) = tensor_count tensors" using ts(3) mset_eq_length [OF assms(2)] by simp
  moreover have "f_name ` set (mf_tensors mf) = fst ` set tensors" using mset_eq_setD [OF assms(2)] by simp
  ultimately show ?thesis
    using load_written [OF assms(1)] stored_distinct [OF d, of Map.empty]
    by (simp add: loaded_def dom_map_of_conv_image_fst image_image)
qed

section \<open>Any file\<close>

definition weights_fit :: "(bytestring \<times> ggml_tensor) list \<Rightarrow> weights \<Rightarrow> bool" where
  "weights_fit tensors w \<longleftrightarrow>
    (\<forall>name data. w name = Some data \<longrightarrow> (\<exists>t. find_tensor tensors name = Some t \<and> length data \<le> nat (ggml_nbytes t)))"

lemma load_tensor_fits:
  assumes "load_tensor junk tensors rest (w, n) = Some (Continue ((w', n'), rest'))" "weights_fit tensors w"
  shows "weights_fit tensors w' \<and> n' = n + 1 \<and> card (dom w') \<le> card (dom w) + 1 \<and> (finite (dom w) \<longrightarrow> finite (dom w'))"
proof -
  obtain name data t where "w' = w(name \<mapsto> data)" "n' = n + 1" "find_tensor tensors name = Some t" "length data \<le> nat (ggml_nbytes t)"
    using assms(1)
    by (auto simp: load_tensor_def read_bytes_def Let_def split: prod.splits if_splits option.splits)
  moreover have "card (insert name (dom w)) \<le> card (dom w) + 1" by (cases "finite (dom w)") (auto simp: card_insert_if)
  ultimately show ?thesis using assms(2) by (auto simp: weights_fit_def)
qed

lemma load_weights_fit:
  assumes "load_weights junk tensors rest s = Some (Some (w', n'))" "weights_fit tensors (fst s)" "finite (dom (fst s))"
    "int (card (dom (fst s))) \<le> snd s"
  shows "weights_fit tensors w' \<and> int (card (dom w')) \<le> n'"
  using assms
proof (induction junk tensors rest s rule: load_weights.induct)
  case (1 junk tensors rest s)
  show ?case
  proof (cases "load_tensor junk tensors rest s")
    case None
    then show ?thesis using "1.prems"(1) by (subst (asm) load_weights.simps) simp
  next
    case (Some st)
    show ?thesis
    proof (cases st)
      case (Continue c)
      obtain w1 n1 r1 where c: "c = ((w1, n1), r1)" by (metis prod.collapse)
      obtain w n where s: "s = (w, n)" by (cases s)
      note lt = Some [unfolded Continue c]
      have "load_weights junk tensors r1 (w1, n1) = Some (Some (w', n'))"
        using "1.prems"(1) lt by (subst (asm) load_weights.simps) simp
      then show ?thesis
        using "1.IH" [OF lt [unfolded c] refl refl] load_tensor_fits [OF lt [unfolded s]] "1.prems"(2-4) s by auto
    qed (use "1.prems" Some in \<open>subst (asm) load_weights.simps; auto\<close>)+
  qed
qed

lemma accepted_parts:
  assumes "whisper_model_load junk buffer = Some (Some m)"
  shows "\<exists>wtype r. create_tensors (model_specs (m_hparams m) wtype) = Some (m_tensors m) \<and>
    0 \<le> hp_n_audio_layer (m_hparams m) \<and> 0 \<le> hp_n_text_layer (m_hparams m) \<and>
    load_weights junk (m_tensors m) r (Map.empty, 0) = Some (Some (m_weights m, m_n_loaded m)) \<and>
    (m_n_loaded m = 0 \<or> m_n_loaded m = int (tensor_count (m_tensors m)))"
proof -
  obtain r0 hp0 r1 wtype filters r2 n_words r3 words r4 voc tensors w n where l:
    "create_tensors (model_specs (hp0\<lparr>hp_ftype := crem (hp_ftype hp0) 1000\<rparr>) wtype) = Some tensors"
    "0 \<le> hp_n_audio_layer hp0" "0 \<le> hp_n_text_layer hp0"
    "load_weights junk tensors r4 (Map.empty, 0) = Some (Some (w, n))" "\<not> (n \<noteq> 0 \<and> n \<noteq> int (tensor_count tensors))"
    "m = \<lparr>m_type = model_type (hp_n_audio_layer hp0), m_hparams = hp0\<lparr>hp_ftype := crem (hp_ftype hp0) 1000\<rparr>, m_wtype = wtype,
       m_filters = filters, m_vocab = voc, m_tensors = tensors, m_weights = w, m_n_loaded = n\<rparr>"
    using assms by (auto simp: whisper_model_load_def Let_def split: prod.splits if_splits option.splits)
  then show ?thesis by (intro exI [of _ wtype] exI [of _ r4]) simp
qed

text \<open>C15: Whatever file is accepted: every weight that was stored belongs to a tensor of the architecture and fits
  into it, and either no tensor was loaded or as many as the architecture has.\<close>

theorem accepted_model_fits:
  assumes "whisper_model_load junk buffer = Some (Some m)"
  shows "weights_fit (m_tensors m) (m_weights m) \<and> int (card (dom (m_weights m))) \<le> m_n_loaded m \<and>
    (m_n_loaded m = 0 \<or> m_n_loaded m = 11 + 15 * hp_n_audio_layer (m_hparams m) + 24 * hp_n_text_layer (m_hparams m))"
proof -
  obtain wtype r where m: "create_tensors (model_specs (m_hparams m) wtype) = Some (m_tensors m)"
    "load_weights junk (m_tensors m) r (Map.empty, 0) = Some (Some (m_weights m, m_n_loaded m))"
    "m_n_loaded m = 0 \<or> m_n_loaded m = int (tensor_count (m_tensors m))"
    "0 \<le> hp_n_audio_layer (m_hparams m)" "0 \<le> hp_n_text_layer (m_hparams m)"
    using accepted_parts [OF assms] by blast
  have "weights_fit (m_tensors m) (m_weights m) \<and> int (card (dom (m_weights m))) \<le> m_n_loaded m"
    using load_weights_fit [OF m(2)] by (simp add: weights_fit_def)
  then show ?thesis using m(3-5) model_tensors [OF m(1)] by auto
qed

section \<open>A small model\<close>

definition tiny_hparams :: whisper_hparams where
  "tiny_hparams = \<lparr>hp_n_vocab = 1, hp_n_audio_ctx = 2, hp_n_audio_state = 1, hp_n_audio_head = 1, hp_n_audio_layer = 0,
     hp_n_text_ctx = 2, hp_n_text_state = 1, hp_n_text_head = 1, hp_n_text_layer = 0, hp_n_mels = 1, hp_ftype = 0\<rparr>"

definition tiny_tensors :: "(bytestring \<times> ggml_tensor) list" where
  "tiny_tensors = the (create_tensors (model_specs tiny_hparams 0))"

definition file_of :: "(bytestring \<times> ggml_tensor) list \<Rightarrow> file_tensor list" where
  "file_of = map (\<lambda>(n, t). \<lparr>f_name = n, f_dims = t_ne t, f_data = replicate (nat (ggml_nbytes t)) 0\<rparr>)"

definition tiny_file :: "file_tensor list \<Rightarrow> model_file" where
  "tiny_file fs = \<lparr>mf_hparams = tiny_hparams, mf_n_mel = 1, mf_n_fft = 1, mf_filters = [0, 0, 128, 63], mf_words = [bytes ''a''],
     mf_tensors = fs\<rparr>"

lemma tiny_tensors: "create_tensors (model_specs tiny_hparams 0) = Some tiny_tensors"
  using create_tensors_named [OF model_specs_names, of tiny_hparams 0] by (auto simp: tiny_tensors_def)

lemma find_tensor_in: "distinct (map fst ts) \<Longrightarrow> (n, t) \<in> set ts \<Longrightarrow> find_tensor ts n = Some t"
  by (simp add: find_tensor_def rev_map [symmetric])

lemma file_of_fits:
  assumes "distinct (map fst ts)"
    "list_all (\<lambda>(n, t). whole_blocks t \<and> t_type t < length type_traits \<and> ggml_nelements t < 2 ^ 31 \<and> length (t_ne t) = 4
       \<and> length n < 2 ^ 31 \<and> 0 \<le> ggml_nbytes t) ts"
  shows "list_all (fits ts) (file_of ts)"
proof -
  have "fits ts \<lparr>f_name = n, f_dims = t_ne t, f_data = replicate (nat (ggml_nbytes t)) 0\<rparr>" if "(n, t) \<in> set ts" for n t
    using assms(2) that find_tensor_in [OF assms(1) that] by (auto simp: fits_def list_all_iff)
  then show ?thesis by (auto simp: list_all_iff file_of_def)
qed

lemma file_of_names: "map f_name (file_of ts) = map fst ts"
  by (induction ts) (auto simp: file_of_def)

lemma stored_other: "name \<notin> f_name ` set fs \<Longrightarrow> stored fs w name = w name"
  by (induction fs arbitrary: w) (simp_all add: stored_def)

lemma tiny_fits: "list_all (fits tiny_tensors) (file_of tiny_tensors)"
proof (rule file_of_fits)
  show "distinct (map fst tiny_tensors)" using model_tensors [OF tiny_tensors] by blast
  show "list_all (\<lambda>(n, t). whole_blocks t \<and> t_type t < length type_traits \<and> ggml_nelements t < 2 ^ 31 \<and> length (t_ne t) = 4
       \<and> length n < 2 ^ 31 \<and> 0 \<le> ggml_nbytes t) tiny_tensors"
    by (simp add: tiny_tensors_def model_specs_def tiny_hparams_def new_tensor_def whole_blocks_def ggml_blck_size_def type_traits_def
        ggml_nelements_def ggml_nbytes_def tensor_nb_def ggml_type_size_def Let_def)
qed

lemma tiny_well_formed:
  assumes "list_all (fits tiny_tensors) fs"
  shows "\<exists>voc. well_formed (tiny_file fs) 0 tiny_tensors voc"
proof -
  have "\<exists>voc. load_vocab [bytes ''a''] 1 = Some voc" by (simp add: load_vocab_defs)
  then show ?thesis using assms tiny_tensors
    by (auto simp: well_formed_def tiny_file_def tiny_hparams_def small_hparams_def in_i32_def ggml_ftype_to_ggml_type_def bytes_def)
qed

lemma model_file_roundtrip_witness:
  "\<exists>voc. whisper_model_load 0 (encode_file (tiny_file (rev (file_of tiny_tensors))) tiny_tensors)
      = Some (Some (loaded (tiny_file (rev (file_of tiny_tensors))) 0 tiny_tensors voc)) \<and>
    m_n_loaded (loaded (tiny_file (rev (file_of tiny_tensors))) 0 tiny_tensors voc) = 11"
proof -
  have "list_all (fits tiny_tensors) (rev (file_of tiny_tensors))" using tiny_fits by (simp add: list_all_rev)
  then obtain voc where wf: "well_formed (tiny_file (rev (file_of tiny_tensors))) 0 tiny_tensors voc" using tiny_well_formed by blast
  have names: "mset (map f_name (mf_tensors (tiny_file (rev (file_of tiny_tensors))))) = mset (map fst tiny_tensors)"
    by (simp add: tiny_file_def rev_map [symmetric] file_of_names del: mset_map)
  have "length tiny_tensors = 11" using model_tensors(2) [OF tiny_tensors] by (simp add: tiny_hparams_def)
  then have "m_n_loaded (loaded (tiny_file (rev (file_of tiny_tensors))) 0 tiny_tensors voc) = 11"
    by (simp add: loaded_def tiny_file_def file_of_def)
  then show ?thesis using model_file_roundtrip [OF wf names, of 0] by blast
qed

lemma accepted_model_fits_witness:
  "\<exists>m. whisper_model_load 0 (encode_file (tiny_file []) tiny_tensors) = Some (Some m) \<and> weights_fit (m_tensors m) (m_weights m)"
proof -
  obtain voc where wf: "well_formed (tiny_file []) 0 tiny_tensors voc" using tiny_well_formed [of "[]"] by auto
  have "whisper_model_load 0 (encode_file (tiny_file []) tiny_tensors) = Some (Some (loaded (tiny_file []) 0 tiny_tensors voc))"
    using load_written [OF wf] by (simp add: tiny_file_def)
  then show ?thesis using accepted_model_fits by blast
qed

lemma architecture_tensors_witness:
  "\<exists>ts. create_tensors (model_specs tiny_hparams 0) = Some ts \<and> distinct (map fst ts) \<and> int (length ts) = 11"
  using architecture_tensors [of tiny_hparams 0] by (auto simp: tiny_hparams_def)

text \<open>The tensors are counted, not checked off: with one of them twice and one of them left out, a file is accepted, and
  the tensor that is left out has no data.\<close>

theorem missing_tensor_accepted:
  "\<exists>fs m. whisper_model_load 0 (encode_file (tiny_file fs) tiny_tensors) = Some (Some m) \<and> m_n_loaded m = 11 \<and>
    m_weights m (fst (hd tiny_tensors)) = None"
proof -
  define fs where "fs = (let r = tl (file_of tiny_tensors) in hd r # r)"
  have len: "length tiny_tensors = 11" and d: "distinct (map fst tiny_tensors)"
    using model_tensors [OF tiny_tensors] by (simp_all add: tiny_hparams_def)
  then have "length (file_of tiny_tensors) = 11" by (simp add: file_of_def)
  then obtain a b r where split: "file_of tiny_tensors = a # b # r" by (cases "file_of tiny_tensors"; cases "tl (file_of tiny_tensors)") auto
  have "hd (map fst tiny_tensors) = fst (hd tiny_tensors)" using len by (intro list.map_sel) auto
  then have files: "file_of tiny_tensors = a # b # r" "fst (hd tiny_tensors) = f_name a"
    using split arg_cong [OF file_of_names [of tiny_tensors], of hd] by simp_all
  have fs: "fs = b # b # r" by (simp add: fs_def files)
  have fits: "list_all (fits tiny_tensors) fs" using tiny_fits by (simp add: files fs)
  have n: "length fs = 11" using len arg_cong [OF files(1), of length] by (simp add: fs file_of_def)
  have "distinct (map f_name (a # b # r))" using d file_of_names [of tiny_tensors] by (simp add: files)
  then have no: "stored fs Map.empty (fst (hd tiny_tensors)) = None"
    using stored_other [of "f_name a" fs Map.empty] by (simp add: files fs)
  obtain voc where wf: "well_formed (tiny_file fs) 0 tiny_tensors voc" using tiny_well_formed [OF fits] by blast
  have "tensor_count tiny_tensors = 11" using model_tensors [OF tiny_tensors] by (simp add: tiny_hparams_def)
  then have "whisper_model_load 0 (encode_file (tiny_file fs) tiny_tensors) = Some (Some (loaded (tiny_file fs) 0 tiny_tensors voc))"
    using load_written [OF wf] n by (simp add: tiny_file_def)
  then show ?thesis using n no by (intro exI [of _ fs]) (auto simp: loaded_def tiny_file_def)
qed

end
