(* ===== verification/Tensor_Alloc.thy ===== *)
theory Tensor_Alloc
  imports Prelude "HOL-Library.Multiset"
begin

text \<open>
  The allocator of compute buffers (\<open>ggml-alloc.c\<close>, \<open>ggml_dyn_tallocr\<close>): up to sixteen chunks of virtual memory, each
  with its free blocks sorted by address.  The largest address that was in use in a chunk is the size of the
  buffer that is allocated for it afterwards.

  Sizes are natural numbers below \<open>2 ^ 64\<close>; where a subtraction of the source can wrap it is written out.  \<open>None\<close> is an
  abort or a read outside of the array of blocks.
\<close>

section \<open>State\<close>

definition MAX_FREE_BLOCKS :: nat where "MAX_FREE_BLOCKS = 256"

definition GGML_VBUFFER_MAX_CHUNKS :: nat where "GGML_VBUFFER_MAX_CHUNKS = 16"

definition SIZE_MAX :: nat where "SIZE_MAX = 2 ^ 64 - 1"

definition size_sub :: "nat \<Rightarrow> nat \<Rightarrow> nat" where
  "size_sub a b = (a + (SIZE_MAX + 1) - b) mod (SIZE_MAX + 1)"

record free_block =
  fb_offset :: nat
  fb_size :: nat

record tallocr_chunk =
  free_blocks :: "free_block list"
  max_size :: nat

record ggml_dyn_tallocr =
  alignment :: nat
  max_chunk_size :: nat
  chunks :: "tallocr_chunk list"

text \<open>Chunk and offset in it.\<close>

type_synonym buffer_address = "nat \<times> nat"

section \<open>Operations\<close>

definition aligned_offset :: "nat \<Rightarrow> nat \<Rightarrow> nat" where
  "aligned_offset offset align = offset + (align - offset mod align) mod align"

definition ggml_dyn_tallocr_insert_block :: "free_block list \<Rightarrow> nat \<Rightarrow> nat \<Rightarrow> free_block list option" where
  "ggml_dyn_tallocr_insert_block bs offset sz =
    (if \<not> length bs < MAX_FREE_BLOCKS then None
     else let insert_pos = length (takeWhile (\<lambda>b. fb_offset b < offset) bs)
          in Some (take insert_pos bs @ [\<lparr>fb_offset = offset, fb_size = sz\<rparr>] @ drop insert_pos bs))"

text \<open>The loop moves the element behind the last block, too.\<close>

definition ggml_dyn_tallocr_remove_block :: "free_block list \<Rightarrow> nat \<Rightarrow> free_block list option" where
  "ggml_dyn_tallocr_remove_block bs idx =
    (if idx < length bs \<and> length bs = MAX_FREE_BLOCKS then None else Some (take idx bs @ drop (Suc idx) bs))"

definition ggml_dyn_tallocr_new_chunk :: "ggml_dyn_tallocr \<Rightarrow> nat \<Rightarrow> (ggml_dyn_tallocr \<times> nat) option" where
  "ggml_dyn_tallocr_new_chunk a min_size =
    (let n = length (chunks a) in
     if GGML_VBUFFER_MAX_CHUNKS \<le> n then None
     else let sz = (if n = GGML_VBUFFER_MAX_CHUNKS - 1 then SIZE_MAX div 2 else max min_size (max_chunk_size a))
          in Some (a\<lparr>chunks := chunks a @ [\<lparr>free_blocks = [\<lparr>fb_offset = 0, fb_size = sz\<rparr>], max_size = 0\<rparr>]\<rparr>, n))"

text \<open>The blocks of a chunk but the last: the smallest one that is large enough.\<close>

definition fit_in_chunk :: "nat \<Rightarrow> nat \<Rightarrow> free_block list \<Rightarrow> (nat \<times> nat) option \<Rightarrow> (nat \<times> nat) option" where
  "fit_in_chunk sz c bs best =
    fst (foldl (\<lambda>(best, best_fit_size) i.
          if sz \<le> fb_size (bs ! i) \<and> fb_size (bs ! i) \<le> best_fit_size then (Some (c, i), fb_size (bs ! i)) else (best, best_fit_size))
        (best, SIZE_MAX) [0..<length bs - 1])"

definition best_fit :: "nat \<Rightarrow> tallocr_chunk list \<Rightarrow> (nat \<times> nat) option" where
  "best_fit sz cs = foldl (\<lambda>best c. fit_in_chunk sz c (free_blocks (cs ! c)) best) None [0..<length cs]"

text \<open>The last blocks of the chunks: the one whose use makes its chunk grow least, or leaves least of its size unused.\<close>

definition last_step :: "nat \<Rightarrow> tallocr_chunk list \<Rightarrow> (nat \<times> nat) option \<times> int \<Rightarrow> nat \<Rightarrow> (nat \<times> nat) option \<times> int" where
  "last_step sz cs = (\<lambda>(best, best_reuse) c.
    (let bs = free_blocks (cs ! c) in
     if bs = [] then (best, best_reuse)
     else
       let block = bs ! (length bs - 1);
           reuse_factor = int (max_size (cs ! c)) - int (fb_offset block) - int sz;
           better_reuse = (best_reuse < 0 \<and> reuse_factor > best_reuse);
           better_fit = (reuse_factor \<ge> 0 \<and> reuse_factor < best_reuse)
       in if sz \<le> fb_size block \<and> (better_reuse \<or> better_fit) then (Some (c, length bs - 1), reuse_factor) else (best, best_reuse)))"

definition last_fit :: "nat \<Rightarrow> tallocr_chunk list \<Rightarrow> (nat \<times> nat) option" where
  "last_fit sz cs = fst (foldl (last_step sz cs) (None, - (2 ^ 63)) [0..<length cs])"

definition find_block :: "ggml_dyn_tallocr \<Rightarrow> nat \<Rightarrow> (ggml_dyn_tallocr \<times> nat \<times> nat) option" where
  "find_block a sz =
    (case best_fit sz (chunks a) of
       Some (c, i) \<Rightarrow> Some (a, c, i)
     | None \<Rightarrow>
         (case last_fit sz (chunks a) of
            Some (c, i) \<Rightarrow> Some (a, c, i)
          | None \<Rightarrow> map_option (\<lambda>(a', c). (a', c, 0)) (ggml_dyn_tallocr_new_chunk a sz)))"

definition take_block :: "nat \<Rightarrow> tallocr_chunk \<Rightarrow> nat \<Rightarrow> tallocr_chunk option" where
  "take_block sz ch i =
    (let block = free_blocks ch ! i;
         block' = \<lparr>fb_offset = fb_offset block + sz, fb_size = size_sub (fb_size block) sz\<rparr>;
         bs = (free_blocks ch)[i := block']
     in map_option (\<lambda>bs'. \<lparr>free_blocks = bs', max_size = max (max_size ch) (fb_offset block + sz)\<rparr>)
          (if fb_size block' = 0 then ggml_dyn_tallocr_remove_block bs i else Some bs))"

definition ggml_dyn_tallocr_alloc :: "ggml_dyn_tallocr \<Rightarrow> nat \<Rightarrow> (ggml_dyn_tallocr \<times> buffer_address) option" where
  "ggml_dyn_tallocr_alloc a0 size0 =
    (let sz = aligned_offset size0 (alignment a0) in
     case find_block a0 sz of
       None \<Rightarrow> None
     | Some (a, c, i) \<Rightarrow>
         map_option (\<lambda>ch. (a\<lparr>chunks := (chunks a)[c := ch]\<rparr>, (c, fb_offset (free_blocks (chunks a ! c) ! i))))
           (take_block sz (chunks a ! c) i))"

text \<open>The first block that ends or starts at the freed memory takes it over.\<close>

definition touches :: "nat \<Rightarrow> nat \<Rightarrow> free_block \<Rightarrow> bool" where
  "touches offset sz b \<longleftrightarrow> fb_offset b + fb_size b = offset \<or> offset + sz = fb_offset b"

definition free_in_blocks :: "free_block list \<Rightarrow> nat \<Rightarrow> nat \<Rightarrow> free_block list option" where
  "free_in_blocks bs offset sz =
    (case find (\<lambda>i. touches offset sz (bs ! i)) [0..<length bs] of
       None \<Rightarrow> ggml_dyn_tallocr_insert_block bs offset sz
     | Some i \<Rightarrow>
         (let b = bs ! i in
          if fb_offset b + fb_size b = offset then
            let b' = b\<lparr>fb_size := fb_size b + sz\<rparr>; nxt = bs ! Suc i
            in if Suc i < length bs \<and> fb_offset b' + fb_size b' = fb_offset nxt
               then ggml_dyn_tallocr_remove_block (bs[i := b'\<lparr>fb_size := fb_size b' + fb_size nxt\<rparr>]) (Suc i)
               else Some (bs[i := b'])
          else
            let b' = \<lparr>fb_offset = offset, fb_size = fb_size b + sz\<rparr>; prev = bs ! (i - 1)
            in if 0 < i \<and> fb_offset prev + fb_size prev = fb_offset b'
               then ggml_dyn_tallocr_remove_block (bs[i - 1 := prev\<lparr>fb_size := fb_size prev + fb_size b'\<rparr>, i := b']) i
               else Some (bs[i := b'])))"

definition ggml_dyn_tallocr_free_bytes :: "ggml_dyn_tallocr \<Rightarrow> buffer_address \<Rightarrow> nat \<Rightarrow> ggml_dyn_tallocr option" where
  "ggml_dyn_tallocr_free_bytes a addr size0 =
    (let sz = aligned_offset size0 (alignment a); ch = chunks a ! fst addr
     in map_option (\<lambda>bs. a\<lparr>chunks := (chunks a)[fst addr := ch\<lparr>free_blocks := bs\<rparr>]\<rparr>) (free_in_blocks (free_blocks ch) (snd addr) sz))"

definition ggml_dyn_tallocr_reset :: "ggml_dyn_tallocr \<Rightarrow> ggml_dyn_tallocr" where
  "ggml_dyn_tallocr_reset a = a\<lparr>chunks := []\<rparr>"

definition ggml_dyn_tallocr_new :: "nat \<Rightarrow> nat \<Rightarrow> ggml_dyn_tallocr" where
  "ggml_dyn_tallocr_new align max_buffer_size =
    ggml_dyn_tallocr_reset \<lparr>alignment = align, max_chunk_size = min max_buffer_size (SIZE_MAX div 2), chunks = []\<rparr>"

definition ggml_dyn_tallocr_max_size :: "ggml_dyn_tallocr \<Rightarrow> nat \<Rightarrow> nat" where
  "ggml_dyn_tallocr_max_size a c = (if c < length (chunks a) then max_size (chunks a ! c) else 0)"

section \<open>Coverage\<close>

text \<open>How many of some regions contain an address.\<close>

definition inside :: "nat \<Rightarrow> nat \<times> nat \<Rightarrow> bool" where
  "inside x r \<longleftrightarrow> fst r \<le> x \<and> x < fst r + snd r"

definition cover :: "(nat \<times> nat) list \<Rightarrow> nat \<Rightarrow> nat" where
  "cover rs x = length (filter (inside x) rs)"

definition region :: "free_block \<Rightarrow> nat \<times> nat" where
  "region b = (fb_offset b, fb_size b)"

abbreviation free_cover :: "free_block list \<Rightarrow> nat \<Rightarrow> nat" where
  "free_cover bs \<equiv> cover (map region bs)"

lemma cover_simps [simp]:
  "cover [] x = 0"
  "cover (r # rs) x = of_bool (inside x r) + cover rs x"
  "cover (rs @ ts) x = cover rs x + cover ts x"
  by (simp_all add: cover_def)

lemma cover_member: "r \<in> set rs \<Longrightarrow> inside x r \<Longrightarrow> 0 < cover rs x"
  by (induction rs) auto

lemma cover_remove1: "r \<in> set rs \<Longrightarrow> cover rs x = of_bool (inside x r) + cover (remove1 r rs) x"
  by (induction rs) auto

lemma cover_split: "i < length bs \<Longrightarrow> free_cover bs x = free_cover (take i bs) x + of_bool (inside x (region (bs ! i))) + free_cover (drop (Suc i) bs) x"
  by (subst id_take_nth_drop [of i bs]) auto

lemma cover_update: "i < length bs \<Longrightarrow> free_cover (bs[i := b]) x = free_cover (take i bs) x + of_bool (inside x (region b)) + free_cover (drop (Suc i) bs) x"
  by (simp add: upd_conv_take_nth_drop)

text \<open>Sorted by address, with something in use between any two blocks.\<close>

definition apart :: "free_block list \<Rightarrow> bool" where
  "apart bs \<longleftrightarrow> sorted_wrt (\<lambda>a b. fb_offset a + fb_size a < fb_offset b) bs \<and> (\<forall>b \<in> set bs. 0 < fb_size b)"

lemma apart_nth: "apart bs \<longleftrightarrow> (\<forall>i j. i < j \<longrightarrow> j < length bs \<longrightarrow> fb_offset (bs ! i) + fb_size (bs ! i) < fb_offset (bs ! j)) \<and>
    (\<forall>i < length bs. 0 < fb_size (bs ! i))"
  by (auto simp: apart_def sorted_wrt_iff_nth_less all_set_conv_all_nth)

lemma apart_append: "apart (xs @ ys) \<longleftrightarrow> apart xs \<and> apart ys \<and> (\<forall>a \<in> set xs. \<forall>b \<in> set ys. fb_offset a + fb_size a < fb_offset b)"
  by (auto simp: apart_def sorted_wrt_append)

lemma apart_remove: "apart bs \<Longrightarrow> apart (take i bs @ drop (Suc i) bs)"
proof (cases "i < length bs")
  case True
  assume "apart bs"
  then have "apart (take i bs @ bs ! i # drop (Suc i) bs)" using id_take_nth_drop [OF True] by simp
  then show ?thesis using apart_append [of "take i bs"] apart_append [of "[bs ! i]" "drop (Suc i) bs"] by auto
qed simp

lemma apart_update:
  assumes "apart bs" "i < length bs" "0 < fb_size b" "\<And>j. j < i \<Longrightarrow> fb_offset (bs ! j) + fb_size (bs ! j) < fb_offset b"
    "\<And>j. i < j \<Longrightarrow> j < length bs \<Longrightarrow> fb_offset b + fb_size b < fb_offset (bs ! j)"
  shows "apart (bs[i := b])"
  using assms unfolding apart_nth by (auto simp: nth_list_update)

section \<open>Freeing\<close>

lemma inside_join: "a + s = b \<Longrightarrow> of_bool (inside x (a, s + t)) = (of_bool (inside x (a, s)) + of_bool (inside x (b, t)) :: nat)"
  by (auto simp: inside_def)

text \<open>What it means that \<open>bs'\<close> has the freed memory in addition to \<open>bs\<close>.\<close>

definition freed :: "nat \<Rightarrow> nat \<Rightarrow> free_block list \<Rightarrow> free_block list \<Rightarrow> bool" where
  "freed off sz bs bs' \<longleftrightarrow> apart bs' \<and> (\<forall>x. free_cover bs' x = free_cover bs x + of_bool (inside x (off, sz))) \<and>
    fb_offset ` set bs' \<subseteq> insert off (fb_offset ` set bs)"

lemma uncovered_sides:
  assumes "b \<in> set bs" "0 < fb_size b" "0 < sz" "\<And>x. inside x (off, sz) \<Longrightarrow> free_cover bs x = 0"
  shows "fb_offset b + fb_size b \<le> off \<or> off + sz \<le> fb_offset b"
proof (rule ccontr)
  assume n: "\<not> ?thesis"
  define x where "x = max off (fb_offset b)"
  have "inside x (off, sz)" "inside x (region b)" using n assms(2,3) by (auto simp: inside_def region_def x_def)
  then show False using assms(4) [of x] cover_member [of "region b" "map region bs" x] assms(1) by simp
qed

lemma insert_freed:
  assumes "apart bs" "0 < sz" "\<And>b. b \<in> set bs \<Longrightarrow> fb_offset b + fb_size b < off \<or> off + sz < fb_offset b"
    "ggml_dyn_tallocr_insert_block bs off sz = Some bs'"
  shows "freed off sz bs bs'"
proof -
  define n where "n = \<lparr>fb_offset = off, fb_size = sz\<rparr>"
  define xs where "xs = takeWhile (\<lambda>b. fb_offset b < off) bs"
  define ys where "ys = dropWhile (\<lambda>b. fb_offset b < off) bs"
  have bs: "bs = xs @ ys" by (simp add: xs_def ys_def)
  have "take (length xs) bs = xs" "drop (length xs) bs = ys" by (subst bs, simp)+
  then have bs': "bs' = xs @ n # ys"
    using assms(4) unfolding ggml_dyn_tallocr_insert_block_def xs_def [symmetric] n_def [symmetric]
    by (simp add: Let_def split: if_splits)
  have a: "apart xs" "apart ys" "\<forall>a \<in> set xs. \<forall>b \<in> set ys. fb_offset a + fb_size a < fb_offset b"
    using assms(1) apart_append [of xs ys] by (simp_all add: bs [symmetric])
  have left: "fb_offset b + fb_size b < off" if "b \<in> set xs" for b
    using assms(3) [of b] that set_takeWhileD [of b "\<lambda>b. fb_offset b < off" bs] unfolding xs_def by auto
  have right: "off + sz < fb_offset b" if "b \<in> set ys" for b
  proof (cases ys)
    case (Cons h t)
    have "b \<in> set bs" using that by (subst bs) simp
    have "\<not> fb_offset h < off" using hd_dropWhile [of "\<lambda>b. fb_offset b < off" bs] unfolding ys_def [symmetric] by (simp add: Cons)
    moreover have "b = h \<or> fb_offset h + fb_size h < fb_offset b" using a(2) that Cons by (auto simp: apart_def)
    ultimately show ?thesis using assms(3) [OF \<open>b \<in> set bs\<close>] by auto
  qed (use that in simp)
  have "apart (n # ys)" using a(2) right assms(2) by (auto simp: apart_def n_def)
  then have "apart bs'" using apart_append [of xs "n # ys"] a left by (auto simp: bs' n_def)
  then show ?thesis by (subst (asm) bs') (simp add: freed_def bs' n_def region_def, subst (1 2) bs, auto)
qed

lemma remove_nth: "k < length bs \<Longrightarrow> j < length bs - 1 \<Longrightarrow> (take k bs @ drop (Suc k) bs) ! j = (if j < k then bs ! j else bs ! Suc j)"
  by (auto simp: nth_append min_def)

lemma remove_update:
  "i < k \<Longrightarrow> k < length bs \<Longrightarrow> take k (bs[i := b]) @ drop (Suc k) (bs[i := b]) = (take k bs @ drop (Suc k) bs)[i := b]"
  by (simp add: list_update_append take_update_swap)

lemma join_next_freed:
  assumes "apart bs" "Suc i < length bs" "fb_offset (bs ! i) + fb_size (bs ! i) = off" "off + sz = fb_offset (bs ! Suc i)"
    and "b = (bs ! i)\<lparr>fb_size := fb_size (bs ! i) + sz + fb_size (bs ! Suc i)\<rparr>"
    and "bs' = take (Suc i) (bs[i := b]) @ drop (Suc (Suc i)) (bs[i := b])"
  shows "freed off sz bs bs'"
proof -
  define rs where "rs = take (Suc i) bs @ drop (Suc (Suc i)) bs"
  have bs': "bs' = rs[i := b]" unfolding assms(6) rs_def by (rule remove_update [OF lessI assms(2)])
  have len: "length rs = length bs - 1" "i < length rs" using assms(2) by (auto simp: rs_def)
  have nth: "rs ! j = (if j < Suc i then bs ! j else bs ! Suc j)" if "j < length rs" for j
    using remove_nth [OF assms(2), of j] that len(1) by (simp add: rs_def)
  have ap: "\<And>j k. j < k \<Longrightarrow> k < length bs \<Longrightarrow> fb_offset (bs ! j) + fb_size (bs ! j) < fb_offset (bs ! k)" "0 < fb_size (bs ! i)"
    using assms(1,2) by (auto simp: apart_nth)
  have "apart bs'" unfolding bs'
  proof (rule apart_update)
    show "apart rs" unfolding rs_def by (rule apart_remove [OF assms(1)])
    show "fb_offset (rs ! j) + fb_size (rs ! j) < fb_offset b" if "j < i" for j
      using that nth [of j] len(2) ap(1) [of j i] assms(2) by (simp add: assms(5))
    show "fb_offset b + fb_size b < fb_offset (rs ! j)" if "i < j" "j < length rs" for j
    proof -
      have "Suc j < length bs" using that(2) len(1) by simp
      then show ?thesis using that nth [of j] ap(1) [of "Suc i" "Suc j"] assms(3,4) by (simp add: assms(5))
    qed
  qed (use len(2) ap(2) in \<open>simp_all add: assms(5)\<close>)
  moreover have "free_cover bs' x = free_cover bs x + of_bool (inside x (off, sz))" for x
  proof -
    have "free_cover bs x = free_cover (take i bs) x + of_bool (inside x (region (bs ! i))) + of_bool (inside x (region (bs ! Suc i)))
        + free_cover (drop (Suc (Suc i)) bs) x"
      using cover_split [of i bs x] assms(2) Cons_nth_drop_Suc [of "Suc i" bs, symmetric] by simp
    moreover have "free_cover bs' x = free_cover (take i bs) x + of_bool (inside x (region b)) + free_cover (drop (Suc (Suc i)) bs) x"
      using cover_update [OF len(2), of b x] assms(2) by (simp add: bs' rs_def min_def)
    moreover have "of_bool (inside x (region b)) = (of_bool (inside x (region (bs ! i))) + of_bool (inside x (off, sz))
        + of_bool (inside x (region (bs ! Suc i))) :: nat)"
      using assms(3,4) by (auto simp: assms(5) region_def inside_def)
    ultimately show ?thesis by simp
  qed
  moreover have "fb_offset ` set bs' \<subseteq> fb_offset ` set bs"
  proof -
    have "set bs' \<subseteq> insert b (set rs)" unfolding bs' by (rule set_update_subset_insert)
    moreover have "set rs \<subseteq> set bs" unfolding rs_def by (auto dest: in_set_takeD in_set_dropD)
    moreover have "fb_offset b = fb_offset (bs ! i)" "bs ! i \<in> set bs" using assms(2) by (simp_all add: assms(5))
    ultimately show ?thesis by fastforce
  qed
  ultimately show ?thesis by (auto simp: freed_def)
qed

lemma grow_freed:
  assumes "apart bs" "i < length bs" "0 < fb_size b"
    "\<And>x. of_bool (inside x (region b)) = (of_bool (inside x (region (bs ! i))) + of_bool (inside x (off, sz)) :: nat)"
    "\<And>j. j < i \<Longrightarrow> fb_offset (bs ! j) + fb_size (bs ! j) < fb_offset b"
    "\<And>j. i < j \<Longrightarrow> j < length bs \<Longrightarrow> fb_offset b + fb_size b < fb_offset (bs ! j)"
    "fb_offset b = off \<or> fb_offset b = fb_offset (bs ! i)"
  shows "freed off sz bs (bs[i := b])"
proof -
  have "free_cover (bs[i := b]) x = free_cover bs x + of_bool (inside x (off, sz))" for x
    using cover_split [OF assms(2)] cover_update [OF assms(2)] assms(4) by simp
  moreover have "fb_offset ` set (bs[i := b]) \<subseteq> insert off (fb_offset ` set bs)"
    using set_update_subset_insert [of bs i b] assms(2,7) by fastforce
  ultimately show ?thesis using apart_update [OF assms(1-3,5,6)] by (simp add: freed_def)
qed

lemma free_in_blocks_freed:
  assumes "apart bs" "0 < sz" "\<And>x. inside x (off, sz) \<Longrightarrow> free_cover bs x = 0" "free_in_blocks bs off sz = Some bs'"
  shows "freed off sz bs bs'"
proof -
  have pos: "\<And>b. b \<in> set bs \<Longrightarrow> 0 < fb_size b" using assms(1) by (simp add: apart_def)
  have ap: "\<And>j k. j < k \<Longrightarrow> k < length bs \<Longrightarrow> fb_offset (bs ! j) + fb_size (bs ! j) < fb_offset (bs ! k)"
    using assms(1) by (auto simp: apart_nth)
  have sides: "fb_offset b + fb_size b \<le> off \<or> off + sz \<le> fb_offset b" if "b \<in> set bs" for b
    using uncovered_sides [OF that pos [OF that] assms(2,3)] .
  show ?thesis
  proof (cases "find (\<lambda>i. touches off sz (bs ! i)) [0..<length bs]")
    case None
    then have none: "\<not> touches off sz b" if "b \<in> set bs" for b
      using that by (auto simp: find_None_iff in_set_conv_nth)
    have "fb_offset b + fb_size b < off \<or> off + sz < fb_offset b" if "b \<in> set bs" for b
      using sides [OF that] none [OF that] by (auto simp: touches_def)
    then show ?thesis using insert_freed [OF assms(1,2)] assms(4) None by (simp add: free_in_blocks_def)
  next
    case (Some i)
    then have i: "i < length bs" "touches off sz (bs ! i)" "\<And>j. j < i \<Longrightarrow> \<not> touches off sz (bs ! j)"
      by (auto simp: find_Some_iff)
    show ?thesis
    proof (cases "fb_offset (bs ! i) + fb_size (bs ! i) = off")
      case True
      show ?thesis
      proof (cases "Suc i < length bs \<and> off + sz = fb_offset (bs ! Suc i)")
        case next_too: True
        show ?thesis
          using assms(4) Some True next_too
          by (intro join_next_freed [OF assms(1), of i])
            (auto simp: free_in_blocks_def ggml_dyn_tallocr_remove_block_def Let_def add.assoc [symmetric] split: if_splits)
      next
        case False
        define b where "b = (bs ! i)\<lparr>fb_size := fb_size (bs ! i) + sz\<rparr>"
        have "bs' = bs[i := b]" using assms(4) Some True False by (auto simp: free_in_blocks_def b_def Let_def add.assoc [symmetric])
        moreover have "fb_offset b + fb_size b < fb_offset (bs ! j)" if "i < j" "j < length bs" for j
        proof -
          have "off + sz \<le> fb_offset (bs ! j)" using sides [of "bs ! j"] ap [OF that] True pos [of "bs ! j"] that by auto
          moreover have "off + sz \<noteq> fb_offset (bs ! j)"
          proof (cases "j = Suc i")
            case False
            then have "fb_offset (bs ! Suc i) + fb_size (bs ! Suc i) < fb_offset (bs ! j)" using ap [of "Suc i" j] that by simp
            moreover have "off + sz \<le> fb_offset (bs ! Suc i)"
              using sides [of "bs ! Suc i"] ap [of i "Suc i"] True pos [of "bs ! Suc i"] that by auto
            ultimately show ?thesis by simp
          qed (use False that in auto)
          ultimately show ?thesis using True by (simp add: b_def)
        qed
        ultimately show ?thesis
          using grow_freed [OF assms(1) i(1), of b off sz] pos [of "bs ! i"] i(1) ap True
          by (auto simp: b_def region_def inside_join)
      qed
    next
      case False
      then have start: "off + sz = fb_offset (bs ! i)" using i(2) by (simp add: touches_def)
      have before: "fb_offset (bs ! j) + fb_size (bs ! j) < off" if "j < i" for j
        using sides [of "bs ! j"] i(1) ap [OF that i(1)] i(3) [OF that] start that by (auto simp: touches_def)
      define b where "b = \<lparr>fb_offset = off, fb_size = fb_size (bs ! i) + sz\<rparr>"
      have "\<not> (0 < i \<and> fb_offset (bs ! (i - 1)) + fb_size (bs ! (i - 1)) = off)" using before [of "i - 1"] by auto
      then have "bs' = bs[i := b]" using assms(4) Some False by (auto simp: free_in_blocks_def b_def Let_def)
      moreover have "freed off sz bs (bs[i := b])"
      proof (rule grow_freed [OF assms(1) i(1)])
        show "of_bool (inside x (region b)) = (of_bool (inside x (region (bs ! i))) + of_bool (inside x (off, sz)) :: nat)" for x
          using start by (auto simp: b_def region_def inside_def)
        show "fb_offset b + fb_size b < fb_offset (bs ! j)" if "i < j" "j < length bs" for j
          using ap [OF that] start by (simp add: b_def)
      qed (use before assms(2) in \<open>auto simp: b_def\<close>)
      ultimately show ?thesis by simp
    qed
  qed
qed

lemma free_in_blocks_total: "length bs < MAX_FREE_BLOCKS \<Longrightarrow> free_in_blocks bs off sz \<noteq> None"
  by (auto simp: free_in_blocks_def ggml_dyn_tallocr_insert_block_def ggml_dyn_tallocr_remove_block_def Let_def split: option.split)

section \<open>Allocating\<close>

definition good_block :: "nat \<Rightarrow> tallocr_chunk list \<Rightarrow> nat \<times> nat \<Rightarrow> bool" where
  "good_block sz cs = (\<lambda>(c, i). c < length cs \<and> i < length (free_blocks (cs ! c)) \<and> sz \<le> fb_size (free_blocks (cs ! c) ! i))"

lemma foldl_preserves: "P s \<Longrightarrow> (\<And>s x. x \<in> set xs \<Longrightarrow> P s \<Longrightarrow> P (f s x)) \<Longrightarrow> P (foldl f s xs)"
  by (induction xs arbitrary: s) auto

lemma fit_in_chunk_good:
  assumes "pred_option (good_block sz cs) best" "c < length cs"
  shows "pred_option (good_block sz cs) (fit_in_chunk sz c (free_blocks (cs ! c)) best)"
  unfolding fit_in_chunk_def
  by (rule foldl_preserves [where P = "\<lambda>s. pred_option (good_block sz cs) (fst s)"]) (use assms in \<open>auto simp: good_block_def split: prod.splits\<close>)

lemma best_fit_good: "pred_option (good_block sz cs) (best_fit sz cs)"
  unfolding best_fit_def by (rule foldl_preserves) (simp_all add: fit_in_chunk_good)

lemma last_fit_good: "pred_option (good_block sz cs) (last_fit sz cs)"
  unfolding last_fit_def
  by (rule foldl_preserves [where P = "\<lambda>s. pred_option (good_block sz cs) (fst s)"])
    (auto simp: good_block_def last_step_def Let_def split: prod.splits)

lemma find_block_cases:
  assumes "find_block a sz = Some (a', c, i)"
  obtains (old) "a' = a" "good_block sz (chunks a) (c, i)"
  | (new) "ggml_dyn_tallocr_new_chunk a sz = Some (a', c)" "i = 0"
proof (cases "best_fit sz (chunks a)")
  case None
  show ?thesis
  proof (cases "last_fit sz (chunks a)")
    case None2: None
    then show ?thesis using assms None new by (auto simp: find_block_def)
  next
    case (Some p)
    then show ?thesis using assms None old last_fit_good [of sz "chunks a"] by (auto simp: find_block_def split: prod.splits)
  qed
next
  case (Some p)
  then show ?thesis using assms old best_fit_good [of sz "chunks a"] by (auto simp: find_block_def split: prod.splits)
qed

section \<open>The invariant\<close>

type_synonym live_block = "nat \<times> nat \<times> nat"

definition live_in :: "nat \<Rightarrow> live_block list \<Rightarrow> (nat \<times> nat) list" where
  "live_in c live = map snd (filter (\<lambda>l. fst l = c) live)"

text \<open>Every address of a chunk lies in one free block or in one block in use; outside of the chunk there are none.\<close>

definition chunk_ok :: "nat \<Rightarrow> nat \<Rightarrow> (nat \<times> nat) list \<Rightarrow> tallocr_chunk \<Rightarrow> bool" where
  "chunk_ok align cap live ch \<longleftrightarrow>
    apart (free_blocks ch) \<and> (\<forall>b \<in> set (free_blocks ch). align dvd fb_offset b) \<and>
    (\<forall>r \<in> set live. 0 < snd r \<and> align dvd fst r \<and> align dvd snd r \<and> fst r + snd r \<le> max_size ch) \<and>
    0 < cap \<and> max_size ch \<le> cap \<and> cap \<le> SIZE_MAX div 2 \<and>
    (\<forall>x. free_cover (free_blocks ch) x + cover live x = (if x < cap then 1 else 0))"

definition alloc_ok :: "ggml_dyn_tallocr \<Rightarrow> live_block list \<Rightarrow> bool" where
  "alloc_ok a live \<longleftrightarrow>
    0 < alignment a \<and> max_chunk_size a \<le> SIZE_MAX div 2 \<and> length (chunks a) \<le> GGML_VBUFFER_MAX_CHUNKS \<and>
    (\<forall>l \<in> set live. fst l < length (chunks a)) \<and>
    (\<forall>c < length (chunks a). \<exists>cap. chunk_ok (alignment a) cap (live_in c live) (chunks a ! c))"

lemma aligned_offset_dvd: "0 < align \<Longrightarrow> align dvd aligned_offset n align"
proof -
  assume "0 < align"
  then have "(n + (align - n mod align)) mod align = 0"
    by (metis add.commute add_diff_inverse_nat mod_add_left_eq mod_less_divisor mod_self not_less_iff_gr_or_eq)
  then show ?thesis by (simp add: aligned_offset_def dvd_eq_mod_eq_0 mod_add_right_eq)
qed

lemma aligned_offset_ge: "n \<le> aligned_offset n align"
  by (simp add: aligned_offset_def)

lemma aligned_offset_mono:
  assumes "0 < align" "m \<le> n"
  shows "aligned_offset m align \<le> aligned_offset n align"
proof (rule ccontr)
  assume n: "\<not> ?thesis"
  obtain i j where ij: "aligned_offset m align = align * i" "aligned_offset n align = align * j"
    using aligned_offset_dvd [OF assms(1)] by (metis dvdE)
  then have "j < i" using n assms(1) by simp
  then have "align * j + align \<le> align * i" using mult_le_mono2 [of "Suc j" i align] by simp
  moreover have "aligned_offset m align < m + align" using assms(1) by (simp add: aligned_offset_def)
  ultimately show False using ij assms(2) aligned_offset_ge [of n align] by linarith
qed

lemma size_sub_le: "a \<le> SIZE_MAX \<Longrightarrow> b \<le> a \<Longrightarrow> size_sub a b = a - b"
proof -
  assume ab: "a \<le> SIZE_MAX" "b \<le> a"
  then have "a + (SIZE_MAX + 1) - b = (a - b) + (SIZE_MAX + 1)" by simp
  then have "size_sub a b = (a - b) mod (SIZE_MAX + 1)" unfolding size_sub_def by (simp only: mod_add_self2)
  also have "\<dots> = a - b" using ab by (intro mod_less) simp
  finally show ?thesis .
qed

lemma take_block_ok:
  assumes "chunk_ok align cap live ch" "i < length (free_blocks ch)" "sz \<le> fb_size (free_blocks ch ! i)" "0 < sz" "align dvd sz"
    "take_block sz ch i = Some ch'"
  shows "chunk_ok align cap ((fb_offset (free_blocks ch ! i), sz) # live) ch'"
proof -
  define bs where "bs = free_blocks ch"
  define b where "b = bs ! i"
  define b' where "b' = \<lparr>fb_offset = fb_offset b + sz, fb_size = fb_size b - sz\<rparr>"
  have i: "i < length bs" "sz \<le> fb_size b" using assms(2,3) by (simp_all add: bs_def b_def)
  have ok: "apart bs" "\<forall>b \<in> set bs. align dvd fb_offset b" "max_size ch \<le> cap" "cap \<le> SIZE_MAX div 2"
    "\<And>x. free_cover bs x + cover live x = (if x < cap then 1 else 0)"
    using assms(1) by (auto simp: chunk_ok_def bs_def)
  have dv: "align dvd fb_offset b" using ok(2) i(1) by (simp add: b_def)
  have "0 < free_cover bs (fb_offset b + fb_size b - 1)"
    using cover_member [of "region b" "map region bs"] i assms(4) by (auto simp: inside_def region_def b_def)
  then have cap: "fb_offset b + fb_size b \<le> cap"
    using ok(5) [of "fb_offset b + fb_size b - 1"] by (cases "fb_offset b + fb_size b - 1 < cap") auto
  then have "fb_size b \<le> SIZE_MAX" using ok(4) by simp
  then have "size_sub (fb_size b) sz = fb_size b - sz" using i(2) by (rule size_sub_le)
  then have blk: "\<lparr>fb_offset = fb_offset b + sz, fb_size = size_sub (fb_size b) sz\<rparr> = b'" by (simp add: b'_def)
  have tb: "map_option (\<lambda>bs'. \<lparr>free_blocks = bs', max_size = max (max_size ch) (fb_offset b + sz)\<rparr>)
      (if fb_size b' = 0 then ggml_dyn_tallocr_remove_block (bs[i := b']) i else Some (bs[i := b'])) = Some ch'"
    using assms(6) unfolding take_block_def Let_def bs_def [symmetric] b_def [symmetric] blk .
  define bs' where "bs' = (if fb_size b' = 0 then take i bs @ drop (Suc i) bs else bs[i := b'])"
  have ch': "free_blocks ch' = bs'" "max_size ch' = max (max_size ch) (fb_offset b + sz)"
    using tb by (auto simp: bs'_def ggml_dyn_tallocr_remove_block_def split: if_splits)
  have ap: "\<And>j k. j < k \<Longrightarrow> k < length bs \<Longrightarrow> fb_offset (bs ! j) + fb_size (bs ! j) < fb_offset (bs ! k)"
    using ok(1) by (auto simp: apart_nth)
  have "apart bs'"
  proof (cases "fb_size b' = 0")
    case True
    then show ?thesis using apart_remove [OF ok(1)] by (simp add: bs'_def)
  next
    case False
    have "apart (bs[i := b'])"
    proof (rule apart_update [OF ok(1) i(1)])
      show "fb_offset (bs ! j) + fb_size (bs ! j) < fb_offset b'" if "j < i" for j
        using ap [OF that i(1)] by (simp add: b'_def b_def)
      show "fb_offset b' + fb_size b' < fb_offset (bs ! j)" if "i < j" "j < length bs" for j
        using ap [OF that] i(2) by (simp add: b'_def b_def)
    qed (use False in simp)
    then show ?thesis using False by (simp add: bs'_def)
  qed
  moreover have "set bs' \<subseteq> insert b' (set bs)"
    using set_update_subset_insert [of bs i b'] by (auto simp: bs'_def dest: in_set_takeD in_set_dropD)
  then have "\<forall>b \<in> set bs'. align dvd fb_offset b" using ok(2) dv assms(5) by (auto simp: b'_def)
  moreover have "free_cover bs' x + cover ((fb_offset b, sz) # live) x = (if x < cap then 1 else 0)" for x
  proof -
    have "of_bool (inside x (region b)) = (of_bool (inside x (region b')) + of_bool (inside x (fb_offset b, sz)) :: nat)"
      using i(2) by (auto simp: b'_def region_def inside_def)
    moreover have "\<not> inside x (region b')" if "fb_size b' = 0" using that by (simp add: inside_def region_def)
    ultimately have "free_cover bs' x + of_bool (inside x (fb_offset b, sz)) = free_cover bs x"
      using cover_split [OF i(1), of x] cover_update [OF i(1), of b' x] by (simp add: bs'_def b_def)
    then show ?thesis using ok(5) [of x] by simp
  qed
  ultimately show ?thesis
    using assms(1,4,5) dv ok(3,4) cap i(2)
    by (auto simp: chunk_ok_def ch' bs_def [symmetric] b_def [symmetric])
qed

lemma live_blocks: "chunk_ok align cap live ch \<Longrightarrow> \<forall>s \<in> set live. 0 < snd s \<and> align dvd fst s \<and> align dvd snd s \<and> fst s + snd s \<le> max_size ch"
  by (simp add: chunk_ok_def)

lemma free_chunk_ok:
  assumes "chunk_ok align cap live ch" "r \<in> set live" "free_in_blocks (free_blocks ch) (fst r) (snd r) = Some bs"
  shows "chunk_ok align cap (remove1 r live) (ch\<lparr>free_blocks := bs\<rparr>)"
proof -
  have ok: "apart (free_blocks ch)" "\<And>x. free_cover (free_blocks ch) x + cover live x = (if x < cap then 1 else 0)" "0 < snd r"
    using assms(1,2) by (auto simp: chunk_ok_def)
  have "free_cover (free_blocks ch) x = 0" if "inside x (fst r, snd r)" for x
    using ok(2) [of x] cover_member [OF assms(2), of x] that by (simp split: if_splits)
  then have f: "freed (fst r) (snd r) (free_blocks ch) bs" using free_in_blocks_freed [OF ok(1,3)] assms(3) by blast
  moreover have "free_cover bs x + cover (remove1 r live) x = (if x < cap then 1 else 0)" for x
    using f ok(2) [of x] cover_remove1 [OF assms(2), of x] by (simp add: freed_def)
  moreover have "align dvd fb_offset b" if "b \<in> set bs" for b
  proof -
    have "fb_offset b \<in> insert (fst r) (fb_offset ` set (free_blocks ch))" using f that by (auto simp: freed_def)
    moreover have "align dvd fst r" "\<forall>b \<in> set (free_blocks ch). align dvd fb_offset b" using assms(1,2) by (auto simp: chunk_ok_def)
    ultimately show ?thesis by auto
  qed
  moreover have "\<forall>s \<in> set (remove1 r live). 0 < snd s \<and> align dvd fst s \<and> align dvd snd s \<and> fst s + snd s \<le> max_size ch"
    using live_blocks [OF assms(1)] set_remove1_subset [of r live] by blast
  moreover have "0 < cap \<and> max_size ch \<le> cap \<and> cap \<le> SIZE_MAX div 2" using assms(1) by (simp add: chunk_ok_def)
  moreover have "apart bs" using f by (simp add: freed_def)
  ultimately show ?thesis by (simp add: chunk_ok_def)
qed

text \<open>The end of a block in use may be given back.\<close>

lemma shrink_chunk_ok:
  assumes "chunk_ok align cap live ch" "(off, sz) \<in> set live" "0 < n" "n < sz" "align dvd n"
  shows "chunk_ok align cap ((off, n) # (off + n, sz - n) # remove1 (off, sz) live) ch"
proof -
  have "cover ((off, n) # (off + n, sz - n) # remove1 (off, sz) live) x = cover live x" for x
    using cover_remove1 [OF assms(2), of x] assms(3,4) by (auto simp: inside_def)
  moreover have "0 < sz \<and> align dvd off \<and> align dvd sz \<and> off + sz \<le> max_size ch"
    using assms(1,2) by (auto simp: chunk_ok_def)
  moreover have "\<forall>s \<in> set (remove1 (off, sz) live). 0 < snd s \<and> align dvd fst s \<and> align dvd snd s \<and> fst s + snd s \<le> max_size ch"
    using live_blocks [OF assms(1)] set_remove1_subset [of "(off, sz)" live] by blast
  ultimately show ?thesis using assms(1,3-5) unfolding chunk_ok_def by (simp add: dvd_diff_nat)
qed

section \<open>All operations\<close>

lemma live_in_simps [simp]:
  "live_in c [] = []"
  "live_in c (l # live) = (if fst l = c then snd l # live_in c live else live_in c live)"
  by (simp_all add: live_in_def)

lemma live_in_member: "(c, r) \<in> set live \<longleftrightarrow> r \<in> set (live_in c live)"
  by (induction live) auto

lemma live_in_remove1: "live_in c (remove1 (d, r) live) = (if c = d then remove1 r (live_in c live) else live_in c live)"
  by (induction live) auto

lemma update_chunk_ok:
  assumes "alloc_ok a live" "c < length (chunks a)" "\<And>d. d \<noteq> c \<Longrightarrow> live_in d live' = live_in d live"
    "\<And>l. l \<in> set live' \<Longrightarrow> fst l < length (chunks a)"
    "\<And>cap. chunk_ok (alignment a) cap (live_in c live) (chunks a ! c) \<Longrightarrow> chunk_ok (alignment a) cap (live_in c live') ch"
  shows "alloc_ok (a\<lparr>chunks := (chunks a)[c := ch]\<rparr>) live'"
proof -
  have "\<exists>cap. chunk_ok (alignment a) cap (live_in d live') ((chunks a)[c := ch] ! d)" if d: "d < length (chunks a)" for d
  proof -
    obtain cap where "chunk_ok (alignment a) cap (live_in d live) (chunks a ! d)"
      using assms(1) d unfolding alloc_ok_def by blast
    then show ?thesis using assms(2,3,5) by (cases "d = c") auto
  qed
  then show ?thesis using assms(1,2,4) by (simp add: alloc_ok_def)
qed

lemma chunk_ok_new:
  assumes "0 < cap" "cap \<le> SIZE_MAX div 2"
  shows "chunk_ok align cap [] \<lparr>free_blocks = [\<lparr>fb_offset = 0, fb_size = cap\<rparr>], max_size = 0\<rparr>"
  using assms by (auto simp: chunk_ok_def apart_def inside_def region_def)

lemma new_chunk_ok:
  assumes "alloc_ok a live" "0 < sz" "sz \<le> SIZE_MAX div 2" "ggml_dyn_tallocr_new_chunk a sz = Some (a', c)"
  shows "alloc_ok a' live \<and> c < length (chunks a') \<and> good_block sz (chunks a') (c, 0) \<and> alignment a' = alignment a"
proof -
  define cap where "cap = (if length (chunks a) = GGML_VBUFFER_MAX_CHUNKS - 1 then SIZE_MAX div 2 else max sz (max_chunk_size a))"
  define ch where "ch = \<lparr>free_blocks = [\<lparr>fb_offset = 0, fb_size = cap\<rparr>], max_size = 0\<rparr>"
  have cap: "sz \<le> cap" "0 < cap" "cap \<le> SIZE_MAX div 2" using assms(1-3) by (auto simp: cap_def alloc_ok_def)
  have n: "length (chunks a) < GGML_VBUFFER_MAX_CHUNKS" "c = length (chunks a)" "a' = a\<lparr>chunks := chunks a @ [ch]\<rparr>"
    using assms(4) by (auto simp: ggml_dyn_tallocr_new_chunk_def Let_def cap_def ch_def split: if_splits)
  have none: "live_in c live = []" using assms(1) n(2) by (auto simp: live_in_def filter_empty_conv alloc_ok_def)
  have "\<exists>k. chunk_ok (alignment a) k (live_in d live) ((chunks a @ [ch]) ! d)" if "d < Suc (length (chunks a))" for d
  proof (cases "d = c")
    case True
    then show ?thesis using chunk_ok_new [OF cap(2,3)] none n(2) by (auto simp: ch_def)
  next
    case False
    then show ?thesis using assms(1) that n(2) by (simp add: alloc_ok_def nth_append)
  qed
  then show ?thesis using assms(1) n cap by (fastforce simp: alloc_ok_def good_block_def ch_def)
qed

lemma alloc_preserves:
  assumes "alloc_ok a live" "0 < n" "aligned_offset n (alignment a) \<le> SIZE_MAX div 2" "ggml_dyn_tallocr_alloc a n = Some (a', (c, off))"
  shows "alloc_ok a' ((c, off, aligned_offset n (alignment a)) # live) \<and> alignment a' = alignment a"
proof -
  define sz where "sz = aligned_offset n (alignment a)"
  have al: "0 < alignment a" using assms(1) by (simp add: alloc_ok_def)
  have sz: "0 < sz" "sz \<le> SIZE_MAX div 2" "alignment a dvd sz"
    using assms(2,3) aligned_offset_ge [of n "alignment a"] aligned_offset_dvd [OF al, of n] by (simp_all add: sz_def)
  obtain a1 i where f: "find_block a sz = Some (a1, c, i)"
    using assms(4) by (auto simp: ggml_dyn_tallocr_alloc_def sz_def [symmetric] split: option.splits)
  have a1: "alloc_ok a1 live \<and> good_block sz (chunks a1) (c, i) \<and> alignment a1 = alignment a"
    using f
  proof (cases rule: find_block_cases)
    case old
    then show ?thesis using assms(1) by simp
  next
    case new
    then show ?thesis using new_chunk_ok [OF assms(1) sz(1,2) new(1)] by simp
  qed
  obtain ch where t: "take_block sz (chunks a1 ! c) i = Some ch" "a' = a1\<lparr>chunks := (chunks a1)[c := ch]\<rparr>"
    "off = fb_offset (free_blocks (chunks a1 ! c) ! i)"
    using assms(4) f by (auto simp: ggml_dyn_tallocr_alloc_def sz_def [symmetric])
  have g: "c < length (chunks a1)" "i < length (free_blocks (chunks a1 ! c))" "sz \<le> fb_size (free_blocks (chunks a1 ! c) ! i)"
    using a1 by (simp_all add: good_block_def)
  have "alloc_ok a' ((c, off, sz) # live)" unfolding t(2)
  proof (rule update_chunk_ok)
    show "chunk_ok (alignment a1) cap (live_in c ((c, off, sz) # live)) ch" if "chunk_ok (alignment a1) cap (live_in c live) (chunks a1 ! c)" for cap
      using take_block_ok [OF that g(2,3) sz(1) _ t(1)] a1 sz(3) t(3) by simp
  qed (use a1 g(1) in \<open>auto simp: alloc_ok_def\<close>)
  then show ?thesis using a1 t(2) by (simp add: sz_def)
qed

lemma free_preserves:
  assumes "alloc_ok a live" "(c, off, sz) \<in> set live" "aligned_offset n (alignment a) = sz" "ggml_dyn_tallocr_free_bytes a (c, off) n = Some a'"
  shows "alloc_ok a' (remove1 (c, off, sz) live) \<and> alignment a' = alignment a"
proof -
  have c: "c < length (chunks a)" using assms(1,2) by (auto simp: alloc_ok_def)
  have mem: "(off, sz) \<in> set (live_in c live)" using assms(2) live_in_member by blast
  obtain bs where bs: "free_in_blocks (free_blocks (chunks a ! c)) off sz = Some bs"
    "a' = a\<lparr>chunks := (chunks a)[c := (chunks a ! c)\<lparr>free_blocks := bs\<rparr>]\<rparr>"
    using assms(3,4) by (auto simp: ggml_dyn_tallocr_free_bytes_def Let_def)
  have "alloc_ok a' (remove1 (c, off, sz) live)" unfolding bs(2)
  proof (rule update_chunk_ok [OF assms(1) c])
    show "fst l < length (chunks a)" if "l \<in> set (remove1 (c, off, sz) live)" for l
      using assms(1) that set_remove1_subset by (fastforce simp: alloc_ok_def)
    show "chunk_ok (alignment a) cap (live_in c (remove1 (c, off, sz) live)) ((chunks a ! c)\<lparr>free_blocks := bs\<rparr>)"
      if "chunk_ok (alignment a) cap (live_in c live) (chunks a ! c)" for cap
      using free_chunk_ok [OF that mem] bs(1) by (simp add: live_in_remove1)
  qed (simp add: live_in_remove1)
  then show ?thesis using bs(2) by simp
qed

lemma shrink_ok:
  assumes "alloc_ok a live" "(c, off, sz) \<in> set live" "0 < n" "n < sz" "alignment a dvd n"
  shows "alloc_ok a ((c, off, n) # (c, off + n, sz - n) # remove1 (c, off, sz) live)"
proof -
  have c: "c < length (chunks a)" using assms(1,2) by (auto simp: alloc_ok_def)
  have mem: "(off, sz) \<in> set (live_in c live)" using assms(2) live_in_member by blast
  have "alloc_ok (a\<lparr>chunks := (chunks a)[c := chunks a ! c]\<rparr>) ((c, off, n) # (c, off + n, sz - n) # remove1 (c, off, sz) live)"
  proof (rule update_chunk_ok [OF assms(1) c])
    show "fst l < length (chunks a)" if "l \<in> set ((c, off, n) # (c, off + n, sz - n) # remove1 (c, off, sz) live)" for l
      using assms(1) that c set_remove1_subset [of "(c, off, sz)" live] by (auto simp: alloc_ok_def)
    show "chunk_ok (alignment a) cap (live_in c ((c, off, n) # (c, off + n, sz - n) # remove1 (c, off, sz) live)) (chunks a ! c)"
      if "chunk_ok (alignment a) cap (live_in c live) (chunks a ! c)" for cap
      using shrink_chunk_ok [OF that mem assms(3-5)] by (simp add: live_in_remove1)
  qed (simp add: live_in_remove1)
  then show ?thesis by simp
qed

lemma free_end_preserves:
  assumes "alloc_ok a live" "(c, off, sz) \<in> set live" "0 < n" "n < sz" "alignment a dvd n"
    "ggml_dyn_tallocr_free_bytes a (c, off + n) (sz - n) = Some a'"
  shows "alloc_ok a' ((c, off, n) # remove1 (c, off, sz) live) \<and> alignment a' = alignment a"
proof -
  define live1 where "live1 = (c, off, n) # (c, off + n, sz - n) # remove1 (c, off, sz) live"
  have ok: "alloc_ok a live1" unfolding live1_def by (rule shrink_ok [OF assms(1-5)])
  have "alignment a dvd sz"
    using assms(1,2) live_in_member [of c "(off, sz)" live] by (fastforce simp: alloc_ok_def chunk_ok_def)
  then have "aligned_offset (sz - n) (alignment a) = sz - n"
    using assms(4,5) by (simp add: aligned_offset_def dvd_diff_nat)
  then have "alloc_ok a' (remove1 (c, off + n, sz - n) live1) \<and> alignment a' = alignment a"
    using free_preserves [OF ok, of c "off + n" "sz - n" "sz - n" a'] assms(6) by (simp add: live1_def)
  then show ?thesis using assms(3) by (simp add: live1_def)
qed

text \<open>Which order the blocks in use are listed in does not matter.\<close>

lemma alloc_ok_mset:
  assumes "mset live = mset live'" "alloc_ok a live"
  shows "alloc_ok a live'"
proof -
  have "mset (live_in c live) = mset (live_in c live')" for c using assms(1) by (simp add: live_in_def)
  then have "cover (live_in c live) x = cover (live_in c live') x" "set (live_in c live) = set (live_in c live')" for c x
    by (metis cover_def mset_filter size_mset) (metis set_mset_mset \<open>mset (live_in c live) = mset (live_in c live')\<close>)
  then have "chunk_ok align cap (live_in c live) ch = chunk_ok align cap (live_in c live') ch" for align cap c ch
    by (simp add: chunk_ok_def)
  then show ?thesis using assms(2) mset_eq_setD [OF assms(1)] by (simp add: alloc_ok_def)
qed

text \<open>
  The states of an allocator with the blocks that are in use.  A block is freed with the size it was asked for; its
  end is freed when a smaller tensor takes its place.
\<close>

inductive allocator :: "nat \<Rightarrow> nat \<Rightarrow> ggml_dyn_tallocr \<Rightarrow> live_block list \<Rightarrow> bool" for align max_buffer_size where
  new: "0 < align \<Longrightarrow> allocator align max_buffer_size (ggml_dyn_tallocr_new align max_buffer_size) []"
| reset: "allocator align max_buffer_size a live \<Longrightarrow> allocator align max_buffer_size (ggml_dyn_tallocr_reset a) []"
| alloc: "allocator align max_buffer_size a live \<Longrightarrow> 0 < n \<Longrightarrow> aligned_offset n align \<le> SIZE_MAX div 2 \<Longrightarrow>
    ggml_dyn_tallocr_alloc a n = Some (a', (c, off)) \<Longrightarrow> allocator align max_buffer_size a' ((c, off, aligned_offset n align) # live)"
| free: "allocator align max_buffer_size a live \<Longrightarrow> (c, off, aligned_offset n align) \<in> set live \<Longrightarrow>
    ggml_dyn_tallocr_free_bytes a (c, off) n = Some a' \<Longrightarrow>
    allocator align max_buffer_size a' (remove1 (c, off, aligned_offset n align) live)"
| free_end: "allocator align max_buffer_size a live \<Longrightarrow> (c, off, sz) \<in> set live \<Longrightarrow> 0 < n \<Longrightarrow> n < sz \<Longrightarrow> align dvd n \<Longrightarrow>
    ggml_dyn_tallocr_free_bytes a (c, off + n) (sz - n) = Some a' \<Longrightarrow>
    allocator align max_buffer_size a' ((c, off, n) # remove1 (c, off, sz) live)"

lemma allocator_ok: "allocator align max_buffer_size a live \<Longrightarrow> alloc_ok a live \<and> alignment a = align"
proof (induction rule: allocator.induct)
  case new
  then show ?case by (simp add: alloc_ok_def ggml_dyn_tallocr_new_def ggml_dyn_tallocr_reset_def)
next
  case (reset a live)
  then show ?case by (simp add: alloc_ok_def ggml_dyn_tallocr_reset_def)
next
  case (alloc a live n a' c off)
  then show ?case using alloc_preserves [of a live n a' c off] by simp
next
  case (free a live c off n a')
  then show ?case using free_preserves [of a live c off "aligned_offset n align" n a'] by simp
next
  case (free_end a live c off sz n a')
  then show ?case using free_end_preserves [of a live c off sz n a'] by simp
qed

section \<open>What the allocator promises\<close>

lemma disjoint_if_covered_once:
  assumes "\<And>c x. cover (live_in c live) x \<le> 1" "\<And>l. l \<in> set live \<Longrightarrow> 0 < snd (snd l)"
  shows "sorted_wrt (\<lambda>(c, off, sz) (d, off', sz'). c = d \<longrightarrow> off + sz \<le> off' \<or> off' + sz' \<le> off) live"
  using assms
proof (induction live)
  case (Cons l live)
  obtain c off sz where l: "l = (c, off, sz)" by (metis prod.collapse)
  have "off + sz \<le> off' \<or> off' + sz' \<le> off" if m: "(c, off', sz') \<in> set live" for off' sz'
  proof (rule ccontr)
    assume n: "\<not> ?thesis"
    define x where "x = max off off'"
    have "0 < sz" "0 < sz'" using Cons.prems(2) [of l] Cons.prems(2) [of "(c, off', sz')"] m by (simp_all add: l)
    then have i: "inside x (off, sz)" "inside x (off', sz')" using n by (auto simp: inside_def x_def)
    have "0 < cover (live_in c live) x" using cover_member [OF _ i(2)] live_in_member m by blast
    then show False using Cons.prems(1) [of c x] i(1) by (simp add: l)
  qed
  moreover have "cover (live_in d live) x \<le> 1" for d x using Cons.prems(1) [of d x] by (auto split: if_splits)
  ultimately show ?case using Cons.IH Cons.prems(2) by (auto simp: l)
qed simp

lemma chunk_of_live:
  assumes "alloc_ok a live" "c < length (chunks a)"
  obtains cap where "chunk_ok (alignment a) cap (live_in c live) (chunks a ! c)"
  using assms by (auto simp: alloc_ok_def)

lemma alloc_ok_disjoint:
  assumes "alloc_ok a live"
  shows "sorted_wrt (\<lambda>(c, off, sz) (d, off', sz'). c = d \<longrightarrow> off + sz \<le> off' \<or> off' + sz' \<le> off) live"
    "(c, off, sz) \<in> set live \<Longrightarrow> 0 < sz \<and> alignment a dvd off \<and> off + sz \<le> ggml_dyn_tallocr_max_size a c"
proof -
  have r: "0 < sz \<and> alignment a dvd off \<and> off + sz \<le> ggml_dyn_tallocr_max_size a c" if l: "(c, off, sz) \<in> set live" for c off sz
  proof -
    have c: "c < length (chunks a)" using assms l by (auto simp: alloc_ok_def)
    obtain cap where "chunk_ok (alignment a) cap (live_in c live) (chunks a ! c)" using chunk_of_live [OF assms c] by blast
    then show ?thesis using live_blocks l c live_in_member [of c "(off, sz)" live] by (fastforce simp: ggml_dyn_tallocr_max_size_def)
  qed
  then show "(c, off, sz) \<in> set live \<Longrightarrow> 0 < sz \<and> alignment a dvd off \<and> off + sz \<le> ggml_dyn_tallocr_max_size a c" .
  have "cover (live_in c live) x \<le> 1" for c x
  proof (cases "c < length (chunks a)")
    case True
    then obtain cap where "chunk_ok (alignment a) cap (live_in c live) (chunks a ! c)" using chunk_of_live [OF assms] by blast
    then have "free_cover (free_blocks (chunks a ! c)) x + cover (live_in c live) x \<le> 1" by (simp add: chunk_ok_def)
    then show ?thesis by simp
  next
    case False
    then have "live_in c live = []" using assms by (auto simp: alloc_ok_def live_in_def filter_empty_conv)
    then show ?thesis by simp
  qed
  then show "sorted_wrt (\<lambda>(c, off, sz) (d, off', sz'). c = d \<longrightarrow> off + sz \<le> off' \<or> off' + sz' \<le> off) live"
    using disjoint_if_covered_once [of live] r by fastforce
qed

text \<open>C18: 
  Two blocks in use never overlap, every block starts at a multiple of the alignment and lies within the size that
  its chunk is allocated with afterwards, whatever the order of the operations was.
\<close>

theorem blocks_in_use_are_disjoint:
  assumes "allocator align max_buffer_size a live"
  shows "sorted_wrt (\<lambda>(c, off, sz) (d, off', sz'). c = d \<longrightarrow> off + sz \<le> off' \<or> off' + sz' \<le> off) live \<and>
    (\<forall>(c, off, sz) \<in> set live. align dvd off \<and> off + sz \<le> ggml_dyn_tallocr_max_size a c)"
  using alloc_ok_disjoint [of a live] allocator_ok [OF assms] by auto

text \<open>C31: When nothing is in use any more, every chunk is one free block again: no memory is lost between the blocks.\<close>

theorem all_memory_comes_back:
  assumes "allocator align max_buffer_size a []" "c < length (chunks a)"
  shows "\<exists>cap. free_blocks (chunks a ! c) = [\<lparr>fb_offset = 0, fb_size = cap\<rparr>] \<and> max_size (chunks a ! c) \<le> cap"
proof -
  define bs where "bs = free_blocks (chunks a ! c)"
  have ok: "alloc_ok a []" "alignment a = align" using allocator_ok [OF assms(1)] by simp_all
  obtain cap where "chunk_ok align cap [] (chunks a ! c)" using chunk_of_live [OF ok(1) assms(2)] ok(2) by auto
  then have cap: "0 < cap" "max_size (chunks a ! c) \<le> cap" "apart bs" "\<And>x. free_cover bs x = (if x < cap then 1 else 0)"
    by (simp_all add: chunk_ok_def bs_def)
  have "bs \<noteq> []" using cap(4) [of 0] cap(1) by auto
  then obtain b r where bs: "bs = b # r" by (cases bs) auto
  have pos: "0 < fb_size b" using cap(3) by (simp add: bs apart_def)
  have after: "fb_offset b + fb_size b < fb_offset b'" if "b' \<in> set r" for b' using cap(3) that by (auto simp: bs apart_def)
  have none: "free_cover r x = 0" if "x \<le> fb_offset b + fb_size b" for x
    using after that by (fastforce simp: cover_def filter_empty_conv inside_def region_def)
  have zero: "fb_offset b = 0"
    using cap(4) [of 0] cap(1) none [of 0] by (cases "fb_offset b = 0") (simp_all add: bs inside_def region_def)
  have "free_cover bs (fb_size b) = 0" using none [of "fb_size b"] zero by (simp add: bs inside_def region_def)
  then have "cap \<le> fb_size b" using cap(4) [of "fb_size b"] by (simp split: if_splits)
  moreover have "fb_size b \<le> cap"
    using cap(4) [of "fb_size b - 1"] pos zero by (simp add: bs inside_def region_def split: if_splits)
  moreover have "r = []"
  proof (rule ccontr)
    assume "r \<noteq> []"
    then obtain b' where b': "b' \<in> set r" by (cases r) auto
    then have "0 < fb_size b'" using cap(3) by (simp add: bs apart_def)
    then have "0 < free_cover bs (fb_offset b')"
      using cover_member [of "region b'" "map region bs"] b' by (auto simp: bs inside_def region_def)
    then have "fb_offset b' < cap" using cap(4) [of "fb_offset b'"] by (simp split: if_splits)
    then show False using after [OF b'] \<open>cap \<le> fb_size b\<close> zero by simp
  qed
  ultimately have "bs = [\<lparr>fb_offset = 0, fb_size = cap\<rparr>]" using zero by (cases b) (simp add: bs)
  then show ?thesis using cap(2) by (simp add: bs_def)
qed

lemma take_block_total: "length (free_blocks ch) < MAX_FREE_BLOCKS \<Longrightarrow> take_block sz ch i \<noteq> None"
  by (simp add: take_block_def Let_def ggml_dyn_tallocr_remove_block_def)

text \<open>As long as there is a chunk left and no array of free blocks is full, allocation and release do not abort.\<close>

theorem allocator_serves:
  assumes "allocator align max_buffer_size a live" "length (chunks a) < GGML_VBUFFER_MAX_CHUNKS"
    "\<forall>ch \<in> set (chunks a). length (free_blocks ch) < MAX_FREE_BLOCKS" "(c, off, sz) \<in> set live"
  shows "ggml_dyn_tallocr_alloc a n \<noteq> None \<and> ggml_dyn_tallocr_free_bytes a (c, off) sz \<noteq> None"
proof -
  have ok: "alloc_ok a live" using allocator_ok [OF assms(1)] by simp
  have c: "c < length (chunks a)" using ok assms(4) by (auto simp: alloc_ok_def)
  define s where "s = aligned_offset n (alignment a)"
  have "find_block a s \<noteq> None"
    using assms(2) by (auto simp: find_block_def ggml_dyn_tallocr_new_chunk_def Let_def split: option.splits)
  then obtain a1 d i where f: "find_block a s = Some (a1, d, i)" by auto
  have "length (free_blocks (chunks a1 ! d)) < MAX_FREE_BLOCKS"
    using f
  proof (cases rule: find_block_cases)
    case old
    then show ?thesis using assms(3) by (simp add: good_block_def)
  next
    case new
    then have "length (free_blocks (chunks a1 ! d)) = 1"
      unfolding ggml_dyn_tallocr_new_chunk_def Let_def
      by (auto simp: nth_append simp del: One_nat_def split: if_splits)
    then show ?thesis by (simp add: MAX_FREE_BLOCKS_def)
  qed
  then have "ggml_dyn_tallocr_alloc a n \<noteq> None"
    using f take_block_total [of "chunks a1 ! d" s i] by (simp add: ggml_dyn_tallocr_alloc_def s_def [symmetric])
  moreover have "ggml_dyn_tallocr_free_bytes a (c, off) sz \<noteq> None"
    using free_in_blocks_total [of "free_blocks (chunks a ! c)"] assms(3) c by (simp add: ggml_dyn_tallocr_free_bytes_def Let_def)
  ultimately show ?thesis by simp
qed

section \<open>A run\<close>

text \<open>Three tensors, the second one is freed, and a smaller one takes the third place.\<close>

definition run_state :: ggml_dyn_tallocr where
  "run_state = \<lparr>alignment = 32, max_chunk_size = 1024, chunks =
     [\<lparr>free_blocks = [\<lparr>fb_offset = 64, fb_size = 32\<rparr>, \<lparr>fb_offset = 128, fb_size = 896\<rparr>], max_size = 160\<rparr>]\<rparr>"

lemma run_reachable: "allocator 32 1024 run_state [(0, 96, 32), (0, 0, 64)]"
proof -
  note defs = ggml_dyn_tallocr_alloc_def ggml_dyn_tallocr_free_bytes_def find_block_def best_fit_def fit_in_chunk_def last_fit_def
    last_step_def ggml_dyn_tallocr_new_chunk_def take_block_def size_sub_def SIZE_MAX_def GGML_VBUFFER_MAX_CHUNKS_def
    aligned_offset_def free_in_blocks_def ggml_dyn_tallocr_insert_block_def ggml_dyn_tallocr_remove_block_def MAX_FREE_BLOCKS_def
    touches_def ggml_dyn_tallocr_new_def ggml_dyn_tallocr_reset_def Let_def
  let ?a = "\<lambda>bs m. \<lparr>alignment = 32, max_chunk_size = 1024, chunks = [\<lparr>free_blocks = bs, max_size = m\<rparr>]\<rparr>"
  have "allocator 32 1024 (ggml_dyn_tallocr_new 32 1024) []" by (rule allocator.new) simp
  then have "allocator 32 1024 (?a [\<lparr>fb_offset = 64, fb_size = 960\<rparr>] 64) [(0, 0, aligned_offset 60 32)]"
    by (rule allocator.alloc) (simp_all add: defs)
  then have "allocator 32 1024 (?a [\<lparr>fb_offset = 96, fb_size = 928\<rparr>] 96) [(0, 64, aligned_offset 20 32), (0, 0, aligned_offset 60 32)]"
    by (rule allocator.alloc) (simp_all add: defs upt_rec)
  then have "allocator 32 1024 (?a [\<lparr>fb_offset = 160, fb_size = 864\<rparr>] 160)
      [(0, 96, aligned_offset 64 32), (0, 64, aligned_offset 20 32), (0, 0, aligned_offset 60 32)]"
    by (rule allocator.alloc) (simp_all add: defs upt_rec)
  then have "allocator 32 1024 (?a [\<lparr>fb_offset = 64, fb_size = 32\<rparr>, \<lparr>fb_offset = 160, fb_size = 864\<rparr>] 160)
      (remove1 (0, 64, aligned_offset 20 32) [(0, 96, aligned_offset 64 32), (0, 64, aligned_offset 20 32), (0, 0, aligned_offset 60 32)])"
    by (rule allocator.free) (simp_all add: defs upt_rec)
  then have "allocator 32 1024 (?a [\<lparr>fb_offset = 64, fb_size = 32\<rparr>, \<lparr>fb_offset = 160, fb_size = 864\<rparr>] 160) [(0, 96, 64), (0, 0, 64)]"
    by (simp add: aligned_offset_def)
  then have "allocator 32 1024 run_state ((0, 96, 32) # remove1 (0, 96, 64) [(0, 96, 64), (0, 0, 64)])"
    by (rule allocator.free_end) (simp_all add: defs upt_rec run_state_def)
  then show ?thesis by simp
qed

lemma blocks_in_use_are_disjoint_witness:
  "sorted_wrt (\<lambda>(c, off, sz) (d, off', sz'). c = d \<longrightarrow> off + sz \<le> off' \<or> off' + sz' \<le> off) [(0::nat, 96::nat, 32::nat), (0, 0, 64)] \<and>
    96 + 32 \<le> ggml_dyn_tallocr_max_size run_state 0"
  using blocks_in_use_are_disjoint [OF run_reachable] by simp

lemma allocator_serves_witness: "ggml_dyn_tallocr_alloc run_state 100 \<noteq> None \<and> ggml_dyn_tallocr_free_bytes run_state (0, 96) 32 \<noteq> None"
  using allocator_serves [OF run_reachable, of 0 96 32 100]
  by (simp add: run_state_def GGML_VBUFFER_MAX_CHUNKS_def MAX_FREE_BLOCKS_def)

lemma all_memory_comes_back_witness:
  "\<exists>a. allocator 32 1024 a [] \<and> length (chunks a) = 1 \<and> (\<exists>cap. free_blocks (chunks a ! 0) = [\<lparr>fb_offset = 0, fb_size = cap\<rparr>])"
proof -
  define a1 where "a1 = \<lparr>alignment = 32, max_chunk_size = 1024, chunks =
     [\<lparr>free_blocks = [\<lparr>fb_offset = 64, fb_size = 960\<rparr>], max_size = 160\<rparr>]\<rparr>"
  define a2 where "a2 = \<lparr>alignment = 32, max_chunk_size = 1024, chunks =
     [\<lparr>free_blocks = [\<lparr>fb_offset = 0, fb_size = 1024\<rparr>], max_size = 160\<rparr>]\<rparr>"
  note defs = ggml_dyn_tallocr_free_bytes_def aligned_offset_def free_in_blocks_def ggml_dyn_tallocr_remove_block_def MAX_FREE_BLOCKS_def
    touches_def Let_def
  have "allocator 32 1024 run_state [(0, 96, aligned_offset 32 32), (0, 0, 64)]" using run_reachable by (simp add: aligned_offset_def)
  then have "allocator 32 1024 a1 (remove1 (0, 96, aligned_offset 32 32) [(0, 96, aligned_offset 32 32), (0, 0, 64)])"
    by (rule allocator.free) (simp_all add: defs upt_rec run_state_def a1_def)
  then have "allocator 32 1024 a1 [(0, 0, aligned_offset 64 32)]" by (simp add: aligned_offset_def)
  then have "allocator 32 1024 a2 (remove1 (0, 0, aligned_offset 64 32) [(0, 0, aligned_offset 64 32)])"
    by (rule allocator.free) (simp_all add: defs upt_rec a1_def a2_def)
  then have "allocator 32 1024 a2 []" by simp
  then show ?thesis using all_memory_comes_back [of 32 1024 a2 0] by (intro exI [of _ a2]) (simp add: a2_def)
qed

text \<open>The size of the best block is forgotten from chunk to chunk: a later chunk wins with a larger block.\<close>

theorem later_chunk_wins:
  "best_fit 64 [\<lparr>free_blocks = [\<lparr>fb_offset = 0, fb_size = 64\<rparr>, \<lparr>fb_offset = 128, fb_size = 512\<rparr>], max_size = 128\<rparr>,
      \<lparr>free_blocks = [\<lparr>fb_offset = 0, fb_size = 256\<rparr>, \<lparr>fb_offset = 512, fb_size = 512\<rparr>], max_size = 512\<rparr>] = Some (1, 0)"
  by (simp add: best_fit_def fit_in_chunk_def SIZE_MAX_def upt_rec)

end
