(* ===== verification/Graph_Alloc.thy ===== *)
theory Graph_Alloc
  imports Tensor_Alloc
begin

text \<open>
  The allocation of the tensors of a compute graph (\<open>ggml-alloc.c\<close>, \<open>ggml_gallocr\<close>): every tensor is placed before the
  node that computes it, freed after the node that reads it last, and may be computed in the memory of an
  operand.

  Tensors are numbers; what a tensor is, is a record.  The hash table is a function from tensors; sizes by
  buffer type, layouts and data pointers are fields of \<open>graph_env\<close>.  \<open>None\<close> is an abort or a failed assertion.
\<close>

section \<open>Graphs\<close>

datatype ggml_op =
    GGML_OP_NONE | GGML_OP_FILL | GGML_OP_SCALE | GGML_OP_DIAG_MASK_ZERO | GGML_OP_DIAG_MASK_INF | GGML_OP_ADD | GGML_OP_ADD_ID
  | GGML_OP_ADD1 | GGML_OP_SUB | GGML_OP_MUL | GGML_OP_DIV | GGML_OP_SQR | GGML_OP_SQRT | GGML_OP_LOG | GGML_OP_UNARY | GGML_OP_ROPE
  | GGML_OP_ROPE_BACK | GGML_OP_SILU_BACK | GGML_OP_RMS_NORM | GGML_OP_RMS_NORM_BACK | GGML_OP_SOFT_MAX | GGML_OP_SOFT_MAX_BACK
  | other_op nat

fun ggml_op_can_inplace :: "ggml_op \<Rightarrow> bool" where
  "ggml_op_can_inplace GGML_OP_NONE = False"
| "ggml_op_can_inplace (other_op k) = False"
| "ggml_op_can_inplace _ = True"

record graph_tensor =
  gt_op :: ggml_op
  gt_view_src :: "nat option"
  gt_src :: "nat list"
  gt_data :: bool
  gt_buffer :: bool
  gt_input :: bool
  gt_output :: bool

record graph_env =
  tensor :: "nat \<Rightarrow> graph_tensor"
  get_alloc_size :: "nat \<Rightarrow> nat \<Rightarrow> nat"
  same_layout :: "nat \<Rightarrow> nat \<Rightarrow> bool"
  same_data :: "nat \<Rightarrow> nat \<Rightarrow> bool"

definition ggml_is_view :: "graph_env \<Rightarrow> nat \<Rightarrow> bool" where
  "ggml_is_view e t \<longleftrightarrow> gt_view_src (tensor e t) \<noteq> None"

record hash_node =
  n_children :: int
  n_views :: int
  buffer_id :: nat
  hn_addr :: buffer_address
  allocated :: bool

definition zero_node :: hash_node where
  "zero_node = \<lparr>n_children = 0, n_views = 0, buffer_id = 0, hn_addr = (0, 0), allocated = False\<rparr>"

text \<open>Buffers of the same type share an allocator.\<close>

record ggml_gallocr =
  tallocs :: "ggml_dyn_tallocr list"
  talloc_of :: "nat \<Rightarrow> nat"
  hash_values :: "nat \<Rightarrow> hash_node"

definition buf_talloc :: "ggml_gallocr \<Rightarrow> nat \<Rightarrow> ggml_dyn_tallocr" where
  "buf_talloc g b = tallocs g ! talloc_of g b"

definition set_talloc :: "nat \<Rightarrow> ggml_dyn_tallocr \<Rightarrow> ggml_gallocr \<Rightarrow> ggml_gallocr" where
  "set_talloc b a g = g\<lparr>tallocs := (tallocs g)[talloc_of g b := a]\<rparr>"

definition upd_hash :: "nat \<Rightarrow> (hash_node \<Rightarrow> hash_node) \<Rightarrow> ggml_gallocr \<Rightarrow> ggml_gallocr" where
  "upd_hash t f g = g\<lparr>hash_values := (hash_values g)(t := f (hash_values g t))\<rparr>"

definition ggml_gallocr_is_own :: "ggml_gallocr \<Rightarrow> nat \<Rightarrow> bool" where
  "ggml_gallocr_is_own g t \<longleftrightarrow> allocated (hash_values g t)"

definition ggml_gallocr_is_allocated :: "graph_env \<Rightarrow> ggml_gallocr \<Rightarrow> nat \<Rightarrow> bool" where
  "ggml_gallocr_is_allocated e g t \<longleftrightarrow> gt_data (tensor e t) \<or> gt_buffer (tensor e t) \<or> ggml_gallocr_is_own g t"

section \<open>One tensor\<close>

definition ggml_gallocr_free_extra_space :: "graph_env \<Rightarrow> nat \<Rightarrow> nat \<Rightarrow> ggml_gallocr \<Rightarrow> ggml_gallocr option" where
  "ggml_gallocr_free_extra_space e node parent g =
    (let hn = hash_values g node; p_hn = hash_values g parent;
         parent_size = get_alloc_size e (buffer_id p_hn) parent; node_size = get_alloc_size e (buffer_id hn) node
     in if parent_size < node_size then None
        else
          let p_alloc = buf_talloc g (buffer_id p_hn); align = alignment p_alloc;
              parent_size' = aligned_offset parent_size align; node_size' = aligned_offset node_size align
          in if node_size' < parent_size'
             then map_option (\<lambda>a. set_talloc (buffer_id p_hn) a g)
               (ggml_dyn_tallocr_free_bytes p_alloc (fst (hn_addr p_hn), snd (hn_addr p_hn) + node_size') (parent_size' - node_size'))
             else Some g)"

text \<open>The operand whose memory is taken over: the whole operand, or the tensor that it is the only view of.\<close>

datatype reuse = Reuse_View nat | Reuse_Parent | No_Reuse

definition can_reuse :: "graph_env \<Rightarrow> ggml_gallocr \<Rightarrow> nat \<Rightarrow> nat \<Rightarrow> reuse" where
  "can_reuse e g node parent =
    (let p = tensor e parent; p_hn = hash_values g parent in
     if \<not> ggml_gallocr_is_own g parent then No_Reuse
     else if gt_output p \<or> (case gt_view_src p of None \<Rightarrow> False | Some s \<Rightarrow> gt_output (tensor e s)) then No_Reuse
     else if \<not> same_layout e node parent then No_Reuse
     else if n_children p_hn = 1 \<and> n_views p_hn = 0
     then (case gt_view_src p of
             Some s \<Rightarrow> (if n_views (hash_values g s) = 1 \<and> n_children (hash_values g s) = 0 \<and> same_data e s parent then Reuse_View s else No_Reuse)
           | None \<Rightarrow> Reuse_Parent)
     else No_Reuse)"

definition take_over :: "nat \<Rightarrow> nat \<Rightarrow> ggml_gallocr \<Rightarrow> ggml_gallocr" where
  "take_over node parent g =
    (let p_hn = hash_values g parent
     in upd_hash parent (\<lambda>h. h\<lparr>allocated := False\<rparr>) (upd_hash node (\<lambda>h. h\<lparr>buffer_id := buffer_id p_hn, hn_addr := hn_addr p_hn\<rparr>) g))"

fun reuse_loop :: "graph_env \<Rightarrow> nat \<Rightarrow> nat list \<Rightarrow> ggml_gallocr \<Rightarrow> ggml_gallocr option option" where
  "reuse_loop e node [] g = Some None"
| "reuse_loop e node (parent # ps) g =
    (case can_reuse e g node parent of
       No_Reuse \<Rightarrow> reuse_loop e node ps g
     | Reuse_Parent \<Rightarrow> map_option Some (ggml_gallocr_free_extra_space e node parent (take_over node parent g))
     | Reuse_View s \<Rightarrow>
         (if hn_addr (hash_values g s) \<noteq> hn_addr (hash_values g parent) then None
          else map_option Some (ggml_gallocr_free_extra_space e node s (upd_hash s (\<lambda>h. h\<lparr>allocated := False\<rparr>) (take_over node parent g)))))"

definition alloc_new :: "graph_env \<Rightarrow> nat \<Rightarrow> nat \<Rightarrow> ggml_gallocr \<Rightarrow> ggml_gallocr option" where
  "alloc_new e node b g =
    map_option (\<lambda>(a, addr). upd_hash node (\<lambda>h. h\<lparr>buffer_id := b, hn_addr := addr\<rparr>) (set_talloc b a g))
      (ggml_dyn_tallocr_alloc (buf_talloc g b) (get_alloc_size e b node))"

definition ggml_gallocr_allocate_node :: "graph_env \<Rightarrow> nat \<Rightarrow> nat \<Rightarrow> ggml_gallocr \<Rightarrow> ggml_gallocr option" where
  "ggml_gallocr_allocate_node e node b g0 =
    (if ggml_gallocr_is_allocated e g0 node \<or> ggml_is_view e node then Some g0
     else if snd (hn_addr (hash_values g0 node)) \<noteq> 0 then None
     else
       let g = upd_hash node (\<lambda>h. h\<lparr>allocated := True\<rparr>) g0
       in if ggml_op_can_inplace (gt_op (tensor e node))
          then (case reuse_loop e node (gt_src (tensor e node)) g of
                  None \<Rightarrow> None
                | Some (Some g') \<Rightarrow> Some g'
                | Some None \<Rightarrow> alloc_new e node b g)
          else alloc_new e node b g)"

definition ggml_gallocr_free_node :: "graph_env \<Rightarrow> nat \<Rightarrow> ggml_gallocr \<Rightarrow> ggml_gallocr option" where
  "ggml_gallocr_free_node e t g =
    (if gt_output (tensor e t) then Some g
     else
       let hn = hash_values g t
       in map_option (\<lambda>a. upd_hash t (\<lambda>h. h\<lparr>allocated := False\<rparr>) (set_talloc (buffer_id hn) a g))
            (ggml_dyn_tallocr_free_bytes (buf_talloc g (buffer_id hn)) (hn_addr hn) (get_alloc_size e (buffer_id hn) t)))"

section \<open>The graph\<close>

definition count_src :: "graph_env \<Rightarrow> nat \<Rightarrow> nat \<Rightarrow> ggml_gallocr \<Rightarrow> ggml_gallocr option" where
  "count_src e b s g =
    (let g' = upd_hash s (\<lambda>h. h\<lparr>n_children := n_children h + 1\<rparr>) g
     in if gt_input (tensor e s) then ggml_gallocr_allocate_node e s b g' else Some g')"

fun run_all :: "('a \<Rightarrow> 's \<Rightarrow> 's option) \<Rightarrow> 'a list \<Rightarrow> 's \<Rightarrow> 's option" where
  "run_all f [] s = Some s"
| "run_all f (x # xs) s = Option.bind (f x s) (run_all f xs)"

definition count_node :: "graph_env \<Rightarrow> nat \<times> nat \<Rightarrow> ggml_gallocr \<Rightarrow> ggml_gallocr option" where
  "count_node e = (\<lambda>(node, b) g.
    (let t = tensor e node;
         g1 = (case gt_view_src t of
                 Some s \<Rightarrow> if gt_op t \<noteq> GGML_OP_NONE then upd_hash s (\<lambda>h. h\<lparr>n_views := n_views h + 1\<rparr>) g else g
               | None \<Rightarrow> g)
     in Option.bind (if gt_input t then ggml_gallocr_allocate_node e node b g1 else Some g1) (run_all (count_src e b) (gt_src t))))"

definition release_parent :: "graph_env \<Rightarrow> nat \<Rightarrow> ggml_gallocr \<Rightarrow> ggml_gallocr option" where
  "release_parent e parent g0 =
    (let g = upd_hash parent (\<lambda>h. h\<lparr>n_children := n_children h - 1\<rparr>) g0; p_hn = hash_values g parent
     in if n_children p_hn = 0 \<and> n_views p_hn = 0 then
          (case gt_view_src (tensor e parent) of
             Some s \<Rightarrow>
               (let g1 = upd_hash s (\<lambda>h. h\<lparr>n_views := n_views h - 1\<rparr>) g; s_hn = hash_values g1 s
                in if n_views s_hn = 0 \<and> n_children s_hn = 0 \<and> allocated s_hn then ggml_gallocr_free_node e s g1 else Some g1)
           | None \<Rightarrow> if allocated p_hn then ggml_gallocr_free_node e parent g else Some g)
        else Some g)"

text \<open>A node in two halves: what is placed before it is computed, and what is freed afterwards.\<close>

definition place_node :: "graph_env \<Rightarrow> nat \<times> nat \<Rightarrow> ggml_gallocr \<Rightarrow> ggml_gallocr option" where
  "place_node e = (\<lambda>(node, b) g.
    Option.bind (run_all (\<lambda>p. ggml_gallocr_allocate_node e p b) (gt_src (tensor e node)) g) (ggml_gallocr_allocate_node e node b))"

definition release_node :: "graph_env \<Rightarrow> nat \<times> nat \<Rightarrow> ggml_gallocr \<Rightarrow> ggml_gallocr option" where
  "release_node e = (\<lambda>(node, b). run_all (release_parent e) (gt_src (tensor e node)))"

definition alloc_step :: "graph_env \<Rightarrow> nat \<times> nat \<Rightarrow> ggml_gallocr \<Rightarrow> ggml_gallocr option" where
  "alloc_step e nb g = Option.bind (place_node e nb g) (release_node e nb)"

text \<open>Leafs and nodes with the buffers that they are assigned to.\<close>

definition ggml_gallocr_alloc_graph_impl ::
  "graph_env \<Rightarrow> (nat \<times> nat) list \<Rightarrow> (nat \<times> nat) list \<Rightarrow> ggml_gallocr \<Rightarrow> ggml_gallocr option" where
  "ggml_gallocr_alloc_graph_impl e leafs nodes g0 =
    (let g = g0\<lparr>hash_values := (\<lambda>_. zero_node)\<rparr>
     in Option.bind (run_all (\<lambda>(leaf, b). ggml_gallocr_allocate_node e leaf b) leafs g)
          (\<lambda>g1. Option.bind (run_all (count_node e) nodes g1) (run_all (alloc_step e) nodes)))"

text \<open>The allocators are reset before; then the graph is placed.\<close>

definition place_graph :: "graph_env \<Rightarrow> (nat \<times> nat) list \<Rightarrow> (nat \<times> nat) list \<Rightarrow> ggml_gallocr \<Rightarrow> ggml_gallocr option" where
  "place_graph e leafs nodes g =
    ggml_gallocr_alloc_graph_impl e leafs nodes (g\<lparr>tallocs := map ggml_dyn_tallocr_reset (tallocs g)\<rparr>)"

lemma run_all_append: "run_all f (xs @ ys) s = Option.bind (run_all f xs s) (run_all f ys)"
proof (induction xs arbitrary: s)
  case (Cons x xs)
  then show ?case by (cases "f x s") simp_all
qed simp

lemma run_all_invariant:
  assumes "run_all f xs s = Some s'" "P xs s" "\<And>x xs s s'. f x s = Some s' \<Longrightarrow> P (x # xs) s \<Longrightarrow> P xs s'"
  shows "P [] s'"
  using assms(1,2)
proof (induction xs arbitrary: s)
  case (Cons x xs)
  then obtain s1 where "f x s = Some s1" "run_all f xs s1 = Some s'" by (auto simp: bind_eq_Some_conv)
  then show ?case using Cons.IH [of s1] assms(3) Cons.prems(2) by blast
qed simp

end
