(* ===== verification/Graph_Safety.thy ===== *)
theory Graph_Safety
  imports Graph_Alloc
begin

text \<open>
  The allocation of a graph is safe: when a node is computed, no tensor that is read later loses its memory to it.
\<close>

section \<open>Tensors in memory\<close>

definition own :: "graph_env \<Rightarrow> nat \<Rightarrow> bool" where
  "own e t \<longleftrightarrow> \<not> gt_data (tensor e t) \<and> \<not> gt_buffer (tensor e t) \<and> gt_view_src (tensor e t) = None"

definition talloc :: "ggml_gallocr \<Rightarrow> nat \<Rightarrow> nat" where
  "talloc g t = talloc_of g (buffer_id (hash_values g t))"

text \<open>The block of a tensor in its allocator.\<close>

definition blk :: "graph_env \<Rightarrow> ggml_gallocr \<Rightarrow> nat \<Rightarrow> live_block" where
  "blk e g t = (let h = hash_values g t in
    (fst (hn_addr h), snd (hn_addr h), aligned_offset (get_alloc_size e (buffer_id h) t) (alignment (tallocs g ! talloc g t))))"

definition in_memory :: "ggml_gallocr \<Rightarrow> nat \<Rightarrow> nat set" where
  "in_memory g d = {t. allocated (hash_values g t) \<and> talloc g t = d}"

text \<open>The blocks in use of every allocator are those of the tensors that are allocated.\<close>

definition mem_ok :: "graph_env \<Rightarrow> ggml_gallocr \<Rightarrow> bool" where
  "mem_ok e g \<longleftrightarrow>
    (\<forall>t. allocated (hash_values g t) \<longrightarrow> talloc g t < length (tallocs g)) \<and>
    (\<forall>d < length (tallocs g). \<exists>us. distinct us \<and> set us = in_memory g d \<and> alloc_ok (tallocs g ! d) (map (blk e g) us))"

text \<open>Tensors have a size, and the allocators can take it.\<close>

definition sizes_ok :: "graph_env \<Rightarrow> ggml_gallocr \<Rightarrow> bool" where
  "sizes_ok e g \<longleftrightarrow> (\<forall>b t. 0 < get_alloc_size e b t) \<and>
    (\<forall>a \<in> set (tallocs g). \<forall>b t. aligned_offset (get_alloc_size e b t) (alignment a) \<le> SIZE_MAX div 2)"

lemma mem_ok_at:
  assumes "mem_ok e g" "d < length (tallocs g)"
  obtains us where "distinct us" "set us = in_memory g d" "alloc_ok (tallocs g ! d) (map (blk e g) us)"
  using assms unfolding mem_ok_def by blast

lemma alignment_update: "alignment a = alignment (as ! d) \<Longrightarrow> alignment (as[d := a] ! k) = alignment (as ! k)"
  by (cases "d < length as"; cases "k = d") (simp_all add: list_update_beyond)

text \<open>Changing one allocator and the tensors in it keeps the others.\<close>

lemma mem_ok_update:
  assumes "mem_ok e g" "d < length (tallocs g)" "tallocs g' = (tallocs g)[d := a]" "alignment a = alignment (tallocs g ! d)"
    "talloc_of g' = talloc_of g"
    "\<And>t. t \<notin> T \<Longrightarrow> buffer_id (hash_values g' t) = buffer_id (hash_values g t) \<and> hn_addr (hash_values g' t) = hn_addr (hash_values g t)
       \<and> allocated (hash_values g' t) = allocated (hash_values g t)"
    "\<And>t. t \<in> T \<Longrightarrow> allocated (hash_values g t) \<or> allocated (hash_values g' t) \<Longrightarrow>
       (allocated (hash_values g t) \<longrightarrow> talloc g t = d) \<and> (allocated (hash_values g' t) \<longrightarrow> talloc g' t = d)"
    "distinct us" "set us = in_memory g' d" "alloc_ok a (map (blk e g') us)"
  shows "mem_ok e g'"
proof -
  have tal: "talloc g' t = talloc g t" if "t \<notin> T" for t using assms(5) assms(6) [of t] that by (simp add: talloc_def)
  have bl: "blk e g' t = blk e g t" if "t \<notin> T" for t
    using assms(4) assms(6) [OF that] tal [OF that] unfolding blk_def Let_def assms(3) by (simp add: alignment_update)
  have "talloc g' t < length (tallocs g')" if "allocated (hash_values g' t)" for t
    using that assms(1-3,6,7) tal by (cases "t \<in> T") (auto simp: mem_ok_def)
  moreover have "\<exists>us. distinct us \<and> set us = in_memory g' d' \<and> alloc_ok (tallocs g' ! d') (map (blk e g') us)" if "d' < length (tallocs g')" for d'
  proof (cases "d' = d")
    case True
    then show ?thesis using assms(2,3,8-10) by (intro exI [of _ us]) simp
  next
    case False
    have len: "d' < length (tallocs g)" using that assms(3) by simp
    obtain vs where vs: "distinct vs" "set vs = in_memory g d'" "alloc_ok (tallocs g ! d') (map (blk e g) vs)"
      by (rule mem_ok_at [OF assms(1) len])
    have same: "in_memory g' d' = in_memory g d'"
    proof -
      have "t \<in> in_memory g' d' \<longleftrightarrow> t \<in> in_memory g d'" for t
        using assms(6) [of t] assms(7) [of t] tal [of t] False by (cases "t \<in> T") (auto simp: in_memory_def)
      then show ?thesis by blast
    qed
    have "t \<notin> T" if "t \<in> set vs" for t using that vs(2) assms(7) [of t] False by (auto simp: in_memory_def)
    then have eq: "map (blk e g') vs = map (blk e g) vs" using bl by simp
    have "alloc_ok (tallocs g ! d') (map (blk e g') vs)" unfolding eq by (rule vs(3))
    then show ?thesis using vs(1,2) same False len by (intro exI [of _ vs]) (simp add: assms(3))
  qed
  ultimately show ?thesis by (simp add: mem_ok_def)
qed

lemma alloc_new_effect:
  assumes "mem_ok e g" "sizes_ok e g" "talloc_of g b < length (tallocs g)" "\<not> allocated (hash_values g v)"
    "alloc_new e v b (upd_hash v (\<lambda>h. h\<lparr>allocated := True\<rparr>) g) = Some g'"
  shows "\<exists>a addr. tallocs g' = (tallocs g)[talloc_of g b := a] \<and> alignment a = alignment (tallocs g ! talloc_of g b) \<and>
    talloc_of g' = talloc_of g \<and>
    hash_values g' = (hash_values g)(v := (hash_values g v)\<lparr>allocated := True, buffer_id := b, hn_addr := addr\<rparr>) \<and> mem_ok e g'"
proof -
  define d where "d = talloc_of g b"
  have d: "d < length (tallocs g)" using assms(3) by (simp add: d_def)
  obtain a c off where al: "ggml_dyn_tallocr_alloc (tallocs g ! d) (get_alloc_size e b v) = Some (a, (c, off))"
    and g': "tallocs g' = (tallocs g)[d := a]" "talloc_of g' = talloc_of g"
      "hash_values g' = (hash_values g)(v := (hash_values g v)\<lparr>allocated := True, buffer_id := b, hn_addr := (c, off)\<rparr>)"
    using assms(5) by (auto simp: alloc_new_def buf_talloc_def upd_hash_def set_talloc_def d_def)
  obtain us where us: "distinct us" "set us = in_memory g d" "alloc_ok (tallocs g ! d) (map (blk e g) us)"
    by (rule mem_ok_at [OF assms(1) d])
  have sz: "0 < get_alloc_size e b v" "aligned_offset (get_alloc_size e b v) (alignment (tallocs g ! d)) \<le> SIZE_MAX div 2"
    using assms(2) d by (auto simp: sizes_ok_def)
  from alloc_preserves [OF us(3) sz al]
  have ok: "alloc_ok a ((c, off, aligned_offset (get_alloc_size e b v) (alignment (tallocs g ! d))) # map (blk e g) us)"
    and same: "alignment a = alignment (tallocs g ! d)" by simp_all
  have v: "v \<notin> set us" using us(2) assms(4) by (auto simp: in_memory_def)
  have tv: "talloc g' v = d" by (simp add: talloc_def g' d_def)
  have bv: "blk e g' v = (c, off, aligned_offset (get_alloc_size e b v) (alignment (tallocs g ! d)))"
    using d same by (simp add: blk_def tv g'(1)) (simp add: g'(3))
  have bl: "blk e g' t = blk e g t" if "t \<noteq> v" for t
  proof -
    have "talloc g' t = talloc g t" using that by (simp add: talloc_def g')
    then show ?thesis using that same unfolding blk_def Let_def g'(1) by (simp add: g'(3) alignment_update)
  qed
  have "mem_ok e g'"
  proof (rule mem_ok_update [OF assms(1) d g'(1) same g'(2), where T = "{v}" and us = "v # us"])
    show "set (v # us) = in_memory g' d"
      using us(2) v tv by (auto simp: in_memory_def talloc_def g' split: if_splits)
    have eq: "map (blk e g') us = map (blk e g) us" by (rule map_cong [OF refl], rule bl) (use v in blast)
    show "alloc_ok a (map (blk e g') (v # us))" unfolding list.map eq bv by (rule ok)
  qed (use v us(1) assms(4) tv in \<open>auto simp: g'(3)\<close>)
  then show ?thesis using g' same by (intro exI [of _ a] exI [of _ "(c, off)"]) (simp add: d_def)
qed

lemma free_node_effect:
  assumes "mem_ok e g" "allocated (hash_values g t)" "\<not> gt_output (tensor e t)" "ggml_gallocr_free_node e t g = Some g'"
  shows "\<exists>a. tallocs g' = (tallocs g)[talloc g t := a] \<and> alignment a = alignment (tallocs g ! talloc g t) \<and> talloc_of g' = talloc_of g \<and>
    hash_values g' = (hash_values g)(t := (hash_values g t)\<lparr>allocated := False\<rparr>) \<and> mem_ok e g'"
proof -
  define d where "d = talloc g t"
  have d: "d < length (tallocs g)" using assms(1,2) by (simp add: mem_ok_def d_def)
  define sz where "sz = get_alloc_size e (buffer_id (hash_values g t)) t"
  obtain a where fr: "ggml_dyn_tallocr_free_bytes (tallocs g ! d) (hn_addr (hash_values g t)) sz = Some a"
    and g': "tallocs g' = (tallocs g)[d := a]" "talloc_of g' = talloc_of g"
      "hash_values g' = (hash_values g)(t := (hash_values g t)\<lparr>allocated := False\<rparr>)"
    using assms(3,4) by (auto simp: ggml_gallocr_free_node_def buf_talloc_def upd_hash_def set_talloc_def talloc_def d_def sz_def Let_def)
  obtain us where us: "distinct us" "set us = in_memory g d" "alloc_ok (tallocs g ! d) (map (blk e g) us)"
    by (rule mem_ok_at [OF assms(1) d])
  have t: "t \<in> set us" using us(2) assms(2) by (simp add: in_memory_def d_def)
  have bt: "blk e g t = (fst (hn_addr (hash_values g t)), snd (hn_addr (hash_values g t)), aligned_offset sz (alignment (tallocs g ! d)))"
    by (simp add: blk_def sz_def d_def Let_def)
  have "(fst (hn_addr (hash_values g t)), snd (hn_addr (hash_values g t)), aligned_offset sz (alignment (tallocs g ! d))) \<in> set (map (blk e g) us)"
    using t bt by (metis image_eqI set_map)
  from free_preserves [OF us(3) this refl] fr
  have ok: "alloc_ok a (remove1 (blk e g t) (map (blk e g) us))" and same: "alignment a = alignment (tallocs g ! d)"
    by (simp_all add: bt)
  have tal: "talloc g' = talloc g" by (rule ext) (simp add: talloc_def g')
  have bl: "blk e g' = blk e g"
    by (rule ext) (use same in \<open>simp add: blk_def Let_def tal g'(1) g'(3) alignment_update\<close>)
  have "mset (remove1 (blk e g t) (map (blk e g) us)) = mset (map (blk e g) (remove1 t us))"
    using t by (simp add: image_mset_Diff)
  then have ok': "alloc_ok a (map (blk e g') (remove1 t us))" using alloc_ok_mset ok by (metis bl)
  have "mem_ok e g'"
  proof (rule mem_ok_update [OF assms(1) d g'(1) same g'(2), where T = "{t}" and us = "remove1 t us"])
    show "set (remove1 t us) = in_memory g' d"
      using us(1,2) by (auto simp: in_memory_def tal g'(3) split: if_splits)
  qed (use us(1) ok' tal in \<open>auto simp: g'(3) d_def\<close>)
  then show ?thesis using g' same by (intro exI [of _ a]) (simp add: d_def)
qed

text \<open>A node that is computed in the memory of an operand.\<close>

lemma take_over_effect:
  assumes "mem_ok e g" "sizes_ok e g" "allocated (hash_values g p)" "\<not> allocated (hash_values g v)"
    "ggml_gallocr_free_extra_space e v p (take_over v p (upd_hash v (\<lambda>h. h\<lparr>allocated := True\<rparr>) g)) = Some g'"
  shows "\<exists>a. tallocs g' = (tallocs g)[talloc g p := a] \<and> alignment a = alignment (tallocs g ! talloc g p) \<and> talloc_of g' = talloc_of g \<and>
    hash_values g' = (hash_values g)(v := (hash_values g v)\<lparr>allocated := True, buffer_id := buffer_id (hash_values g p),
        hn_addr := hn_addr (hash_values g p)\<rparr>, p := (hash_values g p)\<lparr>allocated := False\<rparr>) \<and> mem_ok e g' \<and>
    get_alloc_size e (buffer_id (hash_values g p)) v \<le> get_alloc_size e (buffer_id (hash_values g p)) p"
proof -
  have pv: "p \<noteq> v" using assms(3,4) by auto
  define d where "d = talloc g p"
  have d: "d < length (tallocs g)" using assms(1,3) by (simp add: mem_ok_def d_def)
  define b where "b = buffer_id (hash_values g p)"
  define al where "al = alignment (tallocs g ! d)"
  define n where "n = aligned_offset (get_alloc_size e b v) al"
  define m where "m = aligned_offset (get_alloc_size e b p) al"
  define g1 where "g1 = take_over v p (upd_hash v (\<lambda>h. h\<lparr>allocated := True\<rparr>) g)"
  have g1: "tallocs g1 = tallocs g" "talloc_of g1 = talloc_of g"
    "hash_values g1 = (hash_values g)(v := (hash_values g v)\<lparr>allocated := True, buffer_id := b, hn_addr := hn_addr (hash_values g p)\<rparr>,
       p := (hash_values g p)\<lparr>allocated := False\<rparr>)"
    using pv by (simp_all add: g1_def take_over_def upd_hash_def b_def Let_def)
  have bt: "buf_talloc g1 b = tallocs g ! d" by (simp add: buf_talloc_def g1 d_def talloc_def b_def)
  have hp: "buffer_id (hash_values g1 p) = b" "buffer_id (hash_values g1 v) = b" "hn_addr (hash_values g1 p) = hn_addr (hash_values g p)"
    using pv by (simp_all add: g1(3) b_def)
  have le: "get_alloc_size e b v \<le> get_alloc_size e b p"
    using assms(5) unfolding g1_def [symmetric] by (auto simp: ggml_gallocr_free_extra_space_def hp Let_def split: if_splits)
  have res: "(if n < m then map_option (\<lambda>a. set_talloc b a g1)
      (ggml_dyn_tallocr_free_bytes (tallocs g ! d) (fst (hn_addr (hash_values g p)), snd (hn_addr (hash_values g p)) + n) (m - n)) else Some g1) = Some g'"
    using assms(5) le unfolding g1_def [symmetric] ggml_gallocr_free_extra_space_def Let_def hp bt n_def m_def al_def by (simp split: if_splits)
  obtain us where us: "distinct us" "set us = in_memory g d" "alloc_ok (tallocs g ! d) (map (blk e g) us)"
    by (rule mem_ok_at [OF assms(1) d])
  have p: "p \<in> set us" and v: "v \<notin> set us" using us(2) assms(3,4) by (auto simp: in_memory_def d_def)
  define c where "c = fst (hn_addr (hash_values g p))"
  define off where "off = snd (hn_addr (hash_values g p))"
  have bp: "blk e g p = (c, off, m)" by (simp add: blk_def c_def off_def m_def b_def al_def d_def Let_def)
  have al: "0 < al" using us(3) by (simp add: alloc_ok_def al_def)
  have nz: "0 < n" using assms(2) aligned_offset_ge [of "get_alloc_size e b v" al] by (auto simp: sizes_ok_def n_def intro: less_le_trans)
  have rest: "mset (map (blk e g) us) = add_mset (c, off, m) (mset (map (blk e g) (remove1 p us)))"
  proof -
    have "mset us = add_mset p (mset (remove1 p us))" using p by simp
    then have "image_mset (blk e g) (mset us) = image_mset (blk e g) (add_mset p (mset (remove1 p us)))" by (rule arg_cong)
    then show ?thesis by (simp only: mset_map image_mset_add_mset bp)
  qed
  obtain a where a: "tallocs g' = (tallocs g)[d := a]" "talloc_of g' = talloc_of g" "hash_values g' = hash_values g1" "alignment a = al"
    "alloc_ok a ((c, off, n) # map (blk e g) (remove1 p us))"
  proof (cases "n < m")
    case True
    then obtain a where fr: "ggml_dyn_tallocr_free_bytes (tallocs g ! d) (c, off + n) (m - n) = Some a" "g' = set_talloc b a g1"
      using res by (auto simp: c_def off_def)
    have mem: "(c, off, m) \<in> set (map (blk e g) us)" using p bp by (metis image_eqI set_map)
    have "alignment (tallocs g ! d) dvd n" using aligned_offset_dvd [OF al] by (simp add: n_def al_def)
    from free_end_preserves [OF us(3) mem nz True this fr(1)]
    have ok: "alloc_ok a ((c, off, n) # remove1 (c, off, m) (map (blk e g) us))" "alignment a = al" by (simp_all add: al_def)
    have "mset ((c, off, n) # remove1 (c, off, m) (map (blk e g) us)) = mset ((c, off, n) # map (blk e g) (remove1 p us))"
      using rest by simp
    from alloc_ok_mset [OF this ok(1)] ok(2) show ?thesis
      using that [of a] fr(2) g1 by (simp add: set_talloc_def d_def talloc_def b_def)
  next
    case False
    have "m = n"
    proof -
      have "n \<le> m \<or> m \<le> n" by auto
      moreover have "n \<le> m" unfolding n_def m_def using aligned_offset_mono [OF al le] .
      ultimately show ?thesis using False by simp
    qed
    then have "mset (map (blk e g) us) = mset ((c, off, n) # map (blk e g) (remove1 p us))" using rest by simp
    from alloc_ok_mset [OF this us(3)] show ?thesis
      using that [of "tallocs g ! d"] res False g1 d by (simp add: al_def)
  qed
  have tal: "talloc g' t = (if t = v then d else talloc g t)" for t
    using pv by (simp add: talloc_def a(2,3) g1(3) b_def d_def)
  have bv: "blk e g' v = (c, off, n)"
    using pv d a(4) by (simp add: blk_def tal a(1) Let_def) (simp add: a(3) g1(3) c_def off_def n_def)
  have bl: "blk e g' t = blk e g t" if "t \<noteq> v" for t
    using that a(4) unfolding blk_def Let_def tal a(1) by (simp add: a(3) g1(3) alignment_update al_def)
  have "mem_ok e g'"
  proof (rule mem_ok_update [OF assms(1) d a(1) _ a(2), where T = "{v, p}" and us = "v # remove1 p us"])
    show "set (v # remove1 p us) = in_memory g' d"
    proof -
      have "t \<in> in_memory g' d \<longleftrightarrow> t = v \<or> (t \<noteq> p \<and> t \<in> in_memory g d)" for t
        using pv assms(4) by (auto simp: in_memory_def tal a(3) g1(3))
      then show ?thesis using us(1,2) by auto
    qed
    have eq: "map (blk e g') (remove1 p us) = map (blk e g) (remove1 p us)"
      using v us(1) by (intro map_cong [OF refl] bl) auto
    show "alloc_ok a (map (blk e g') (v # remove1 p us))" unfolding list.map eq bv by (rule a(5))
    show "distinct (v # remove1 p us)" using us(1) v by simp
    show "(allocated (hash_values g t) \<longrightarrow> talloc g t = d) \<and> (allocated (hash_values g' t) \<longrightarrow> talloc g' t = d)" if "t \<in> {v, p}" for t
      using that pv assms(4) by (auto simp: tal d_def)
  qed (use a(4) in \<open>auto simp: a(3) g1(3) al_def\<close>)
  then show ?thesis
    using a(1-4) g1(3) le by (intro exI [of _ a]) (simp add: d_def b_def al_def)
qed

text \<open>The counters do not matter for the memory.\<close>

definition same_mem :: "ggml_gallocr \<Rightarrow> ggml_gallocr \<Rightarrow> bool" where
  "same_mem g g' \<longleftrightarrow> tallocs g' = tallocs g \<and> talloc_of g' = talloc_of g \<and>
    (\<forall>t. buffer_id (hash_values g' t) = buffer_id (hash_values g t) \<and> hn_addr (hash_values g' t) = hn_addr (hash_values g t) \<and>
      allocated (hash_values g' t) = allocated (hash_values g t))"

lemma mem_ok_same: "same_mem g g' \<Longrightarrow> mem_ok e g \<Longrightarrow> mem_ok e g'"
proof -
  assume s: "same_mem g g'" and m: "mem_ok e g"
  have "talloc g' = talloc g" using s by (auto simp: same_mem_def talloc_def fun_eq_iff)
  moreover from this have "blk e g' = blk e g" using s by (auto simp: same_mem_def blk_def fun_eq_iff Let_def)
  moreover from this have "in_memory g' = in_memory g" using s calculation(1) by (auto simp: same_mem_def in_memory_def fun_eq_iff)
  ultimately show "mem_ok e g'" using m s by (simp add: mem_ok_def same_mem_def)
qed

lemma sizes_ok_update:
  assumes "sizes_ok e g" "tallocs g' = (tallocs g)[d := a]" "alignment a = alignment (tallocs g ! d)"
  shows "sizes_ok e g'"
proof (cases "d < length (tallocs g)")
  case True
  have "\<exists>a' \<in> set (tallocs g). alignment a' = alignment x" if "x \<in> set (tallocs g')" for x
  proof -
    have "x = a \<or> x \<in> set (tallocs g)" using that assms(2) set_update_subset_insert [of "tallocs g" d a] by auto
    then show ?thesis using assms(3) nth_mem [OF True] by metis
  qed
  then show ?thesis using assms(1) unfolding sizes_ok_def by metis
next
  case False
  then show ?thesis using assms(1,2) by (simp add: sizes_ok_def list_update_beyond)
qed

section \<open>Counting the readers\<close>

definition uses :: "graph_env \<Rightarrow> nat list \<Rightarrow> nat list" where
  "uses e N = concat (map (\<lambda>v. gt_src (tensor e v)) N)"

text \<open>The views of a tensor that are still read, or never.\<close>

definition open_views :: "graph_env \<Rightarrow> nat list \<Rightarrow> nat list \<Rightarrow> nat \<Rightarrow> nat set" where
  "open_views e N rem s = {v \<in> set N. gt_view_src (tensor e v) = Some s \<and> (v \<notin> set (uses e N) \<or> v \<in> set rem)}"

text \<open>
  A graph: operands are leafs or earlier nodes, views are nodes whose sources are not views, and what is given from
  outside is not the result of an operation that could be computed in place.
\<close>

definition graph_ok :: "graph_env \<Rightarrow> nat list \<Rightarrow> nat list \<Rightarrow> bool" where
  "graph_ok e L N \<longleftrightarrow> distinct (L @ N) \<and>
    (\<forall>i < length N. set (gt_src (tensor e (N ! i))) \<subseteq> set L \<union> set (take i N)) \<and>
    (\<forall>t \<in> set L. gt_view_src (tensor e t) = None \<and> \<not> ggml_op_can_inplace (gt_op (tensor e t))) \<and>
    (\<forall>i < length N. \<forall>s. gt_view_src (tensor e (N ! i)) = Some s \<longrightarrow>
       gt_op (tensor e (N ! i)) \<noteq> GGML_OP_NONE \<and> gt_view_src (tensor e s) = None \<and> s \<in> set L \<union> set (take i N)) \<and>
    (\<forall>t. gt_input (tensor e t) \<longrightarrow> \<not> ggml_op_can_inplace (gt_op (tensor e t)))"

definition inputs :: "graph_env \<Rightarrow> nat list \<Rightarrow> nat set" where
  "inputs e N = {t \<in> set N. gt_input (tensor e t)}"

text \<open>
  The state between two uses of operands: \<open>rem\<close> are the uses that are left, \<open>past\<close> are the tensors that have been
  placed; \<open>exc\<close> has given its memory to the node that is computed.
\<close>

definition inv :: "graph_env \<Rightarrow> nat list \<Rightarrow> nat list \<Rightarrow> nat set \<Rightarrow> nat set \<Rightarrow> ggml_gallocr \<Rightarrow> bool" where
  "inv e N rem past exc g \<longleftrightarrow> mem_ok e g \<and> sizes_ok e g \<and>
    (\<forall>t. allocated (hash_values g t) \<longrightarrow> own e t \<and> t \<in> past \<union> inputs e N) \<and>
    (\<forall>t. n_children (hash_values g t) = int (count_list rem t)) \<and>
    (\<forall>s. n_views (hash_values g s) = int (card (open_views e N rem s))) \<and>
    (\<forall>t \<in> past. own e t \<longrightarrow> t \<notin> exc \<longrightarrow> t \<in> set rem \<or> open_views e N rem t \<noteq> {} \<or> gt_output (tensor e t) \<longrightarrow> allocated (hash_values g t)) \<and>
    (\<forall>t \<in> inputs e N - past. own e t \<longrightarrow> allocated (hash_values g t)) \<and>
    (\<forall>t. t \<notin> past \<union> inputs e N \<longrightarrow> hn_addr (hash_values g t) = (0, 0))"

text \<open>No tensor moves.\<close>

definition same_place :: "ggml_gallocr \<Rightarrow> ggml_gallocr \<Rightarrow> bool" where
  "same_place g g' \<longleftrightarrow> talloc_of g' = talloc_of g \<and> map alignment (tallocs g') = map alignment (tallocs g) \<and>
    (\<forall>t. buffer_id (hash_values g' t) = buffer_id (hash_values g t) \<and> hn_addr (hash_values g' t) = hn_addr (hash_values g t))"

lemma same_place_trans: "same_place g g' \<Longrightarrow> same_place g' g'' \<Longrightarrow> same_place g g''"
  by (simp add: same_place_def)

lemma finite_open_views [simp]: "finite (open_views e N rem s)"
  by (rule finite_subset [of _ "set N"]) (auto simp: open_views_def)

lemma open_views_mono: "set rem \<subseteq> set rem' \<Longrightarrow> open_views e N rem s \<subseteq> open_views e N rem' s"
  by (auto simp: open_views_def)

lemma open_views_of_view: "graph_ok e L N \<Longrightarrow> gt_view_src (tensor e s) \<noteq> None \<Longrightarrow> open_views e N rem s = {}"
  unfolding graph_ok_def open_views_def in_set_conv_nth by fastforce

lemma open_views_step:
  assumes "p \<in> set N" "p \<in> set (uses e N)" "gt_view_src (tensor e p) = Some s"
  shows "card (open_views e N (p # rem) s) = card (open_views e N rem s) + of_bool (p \<notin> set rem)"
proof (cases "p \<in> set rem")
  case True
  then have "open_views e N (p # rem) s = open_views e N rem s" by (auto simp: open_views_def)
  then show ?thesis using True by simp
next
  case False
  then have "open_views e N (p # rem) s = insert p (open_views e N rem s)" "p \<notin> open_views e N rem s"
    using assms by (auto simp: open_views_def)
  then show ?thesis using False by simp
qed

lemma open_views_other: "gt_view_src (tensor e p) \<noteq> Some s \<Longrightarrow> open_views e N (p # rem) s = open_views e N rem s"
  by (auto simp: open_views_def)

lemma upd_hash_simps [simp]:
  "hash_values (upd_hash t f g) = (hash_values g)(t := f (hash_values g t))"
  "tallocs (upd_hash t f g) = tallocs g" "talloc_of (upd_hash t f g) = talloc_of g"
  by (simp_all add: upd_hash_def)

text \<open>Freeing keeps everything but the tensor that is freed; outputs are not freed.\<close>

lemma free_node_keeps:
  assumes "mem_ok e g" "sizes_ok e g" "allocated (hash_values g t)" "ggml_gallocr_free_node e t g = Some g'"
  shows "mem_ok e g' \<and> sizes_ok e g' \<and> same_place g g' \<and>
    (\<forall>u. n_children (hash_values g' u) = n_children (hash_values g u) \<and> n_views (hash_values g' u) = n_views (hash_values g u) \<and>
      (allocated (hash_values g' u) \<longleftrightarrow> allocated (hash_values g u) \<and> (u = t \<longrightarrow> gt_output (tensor e t))))"
proof (cases "gt_output (tensor e t)")
  case True
  then show ?thesis using assms by (auto simp: ggml_gallocr_free_node_def same_place_def)
next
  case False
  from free_node_effect [OF assms(1,3) False assms(4)] obtain a where a: "tallocs g' = (tallocs g)[talloc g t := a]"
    "alignment a = alignment (tallocs g ! talloc g t)" "talloc_of g' = talloc_of g"
    "hash_values g' = (hash_values g)(t := (hash_values g t)\<lparr>allocated := False\<rparr>)" "mem_ok e g'" by blast
  have "map alignment (tallocs g') = map alignment (tallocs g)"
    by (rule nth_equalityI) (simp_all add: a(1) alignment_update [OF a(2)])
  then show ?thesis using a sizes_ok_update [OF assms(2) a(1,2)] False by (auto simp: same_place_def)
qed

definition decremented :: "nat \<Rightarrow> ggml_gallocr \<Rightarrow> ggml_gallocr" where
  "decremented p g = upd_hash p (\<lambda>h. h\<lparr>n_children := n_children h - 1\<rparr>) g"

lemma decremented_facts:
  assumes "inv e N (p # rem) past exc g"
  shows "mem_ok e (decremented p g)" "sizes_ok e (decremented p g)" "same_place g (decremented p g)"
    "n_children (hash_values (decremented p g) t) = int (count_list rem t)"
    "n_views (hash_values (decremented p g) t) = int (card (open_views e N (p # rem) t))"
    "allocated (hash_values (decremented p g) t) = allocated (hash_values g t)"
proof -
  have "same_mem g (decremented p g)" by (simp add: same_mem_def decremented_def)
  then show "mem_ok e (decremented p g)" using mem_ok_same assms by (simp add: inv_def)
qed (use assms in \<open>auto simp: inv_def decremented_def sizes_ok_def same_place_def\<close>)

text \<open>What a state has to satisfy in which at most finished tensors were freed.\<close>

lemma inv_released:
  assumes "inv e N (p # rem) past exc g" "mem_ok e g'" "sizes_ok e g'" "same_place g g'"
    "\<And>t. n_children (hash_values g' t) = int (count_list rem t)" "\<And>t. n_views (hash_values g' t) = int (card (open_views e N rem t))"
    "\<And>t. allocated (hash_values g' t) \<Longrightarrow> allocated (hash_values g t)"
    "\<And>t. allocated (hash_values g t) \<Longrightarrow> \<not> allocated (hash_values g' t) \<Longrightarrow>
        t \<in> past \<and> t \<notin> set rem \<and> open_views e N rem t = {} \<and> \<not> gt_output (tensor e t)"
  shows "inv e N rem past exc g'"
proof -
  note iv = assms(1) [unfolded inv_def]
  have need: "t \<in> set (p # rem) \<or> open_views e N (p # rem) t \<noteq> {} \<or> gt_output (tensor e t)"
    if "t \<in> set rem \<or> open_views e N rem t \<noteq> {} \<or> gt_output (tensor e t)" for t
    using that open_views_mono [of rem "p # rem" e N t] by auto
  have "\<forall>t \<in> past. own e t \<longrightarrow> t \<notin> exc \<longrightarrow> t \<in> set rem \<or> open_views e N rem t \<noteq> {} \<or> gt_output (tensor e t) \<longrightarrow> allocated (hash_values g' t)"
    using iv need assms(8) by blast
  moreover have "\<forall>t \<in> inputs e N - past. own e t \<longrightarrow> allocated (hash_values g' t)" using iv assms(8) by blast
  moreover have "\<forall>t. t \<notin> past \<union> inputs e N \<longrightarrow> hn_addr (hash_values g' t) = (0, 0)" using iv assms(4) by (simp add: same_place_def)
  moreover have "\<forall>t. allocated (hash_values g' t) \<longrightarrow> own e t \<and> t \<in> past \<union> inputs e N" using iv assms(7) by blast
  ultimately show ?thesis using assms(2,3,5,6) by (simp add: inv_def)
qed

lemma not_released_inv:
  assumes "inv e N (p # rem) past exc g" "\<And>t. card (open_views e N (p # rem) t) = card (open_views e N rem t)"
  shows "inv e N rem past exc (decremented p g) \<and> same_place g (decremented p g)"
  using decremented_facts [OF assms(1)] assms(2) by (intro conjI inv_released [OF assms(1)]) auto

lemma still_used_same_views:
  assumes "graph_ok e L N" "p \<in> set L \<union> set N" "p \<in> set (uses e N)" "p \<in> set rem \<or> open_views e N (p # rem) p \<noteq> {}"
  shows "card (open_views e N (p # rem) t) = card (open_views e N rem t)"
proof (cases "gt_view_src (tensor e p) = Some t")
  case s: True
  then have "p \<in> set N" using assms(1,2) by (auto simp: graph_ok_def)
  moreover have "p \<in> set rem" using assms(4) open_views_of_view [OF assms(1)] s by auto
  ultimately show ?thesis using open_views_step [OF _ assms(3) s] by simp
qed (simp add: open_views_other)

lemma last_use_plain:
  assumes "inv e N (p # rem) past exc g" "p \<in> past" "gt_view_src (tensor e p) = None"
    "p \<notin> set rem" "open_views e N (p # rem) p = {}" "release_parent e p g = Some g'"
  shows "inv e N rem past exc g' \<and> same_place g g'"
proof -
  note f = decremented_facts [OF assms(1)]
  have ov: "open_views e N (p # rem) t = open_views e N rem t" for t using assms(3) by (simp add: open_views_other)
  have zero: "n_children (hash_values (decremented p g) p) = 0" "n_views (hash_values (decremented p g) p) = 0"
    using f(4,5) assms(4,5) by (simp_all add: count_list_0_iff)
  show ?thesis
  proof (cases "allocated (hash_values (decremented p g) p)")
    case True
    then have "ggml_gallocr_free_node e p (decremented p g) = Some g'"
      using assms(3,6) zero by (simp add: release_parent_def decremented_def [symmetric] Let_def)
    note k = free_node_keeps [OF f(1,2) True this]
    have pl: "same_place g g'" using k same_place_trans [OF f(3)] by blast
    have "inv e N rem past exc g'"
      by (rule inv_released [OF assms(1)]) (use k pl f ov assms(2,4,5) in auto)
    then show ?thesis using pl by blast
  next
    case False
    then have "g' = decremented p g" using assms(3,6) zero by (simp add: release_parent_def decremented_def [symmetric] Let_def)
    then show ?thesis using not_released_inv [OF assms(1)] ov by simp
  qed
qed

lemma last_use_of_view:
  assumes "graph_ok e L N" "inv e N (p # rem) past exc g" "p \<in> set L \<union> set N" "p \<in> set (uses e N)" "s \<in> past"
    "gt_view_src (tensor e p) = Some s" "p \<notin> set rem" "release_parent e p g = Some g'"
  shows "inv e N rem past exc g' \<and> same_place g g'"
proof -
  note f = decremented_facts [OF assms(2)]
  define g2 where "g2 = upd_hash s (\<lambda>h. h\<lparr>n_views := n_views h - 1\<rparr>) (decremented p g)"
  have pN: "p \<in> set N" using assms(1,3,6) by (auto simp: graph_ok_def)
  have zero: "n_children (hash_values (decremented p g) p) = 0" "n_views (hash_values (decremented p g) p) = 0"
    using f(4,5) assms(6,7) open_views_of_view [OF assms(1)] by (simp_all add: count_list_0_iff)
  have sm2: "same_mem (decremented p g) g2" by (simp add: same_mem_def g2_def)
  have mem2: "mem_ok e g2" "sizes_ok e g2" using mem_ok_same [OF sm2 f(1)] f(2) by (simp_all add: sizes_ok_def g2_def)
  have v2: "n_views (hash_values g2 t) = int (card (open_views e N rem t))" for t
    using f(5) open_views_step [OF pN assms(4,6), of rem] assms(6,7) open_views_other [of e p t N rem]
    by (auto simp: g2_def)
  have c2: "n_children (hash_values g2 t) = int (count_list rem t)" for t using f(4) by (simp add: g2_def)
  have al2: "allocated (hash_values g2 t) = allocated (hash_values g t)" for t using f(6) by (simp add: g2_def)
  have pl2: "same_place g g2" using f(3) by (simp add: same_place_def g2_def)
  have res: "(if n_views (hash_values g2 s) = 0 \<and> n_children (hash_values g2 s) = 0 \<and> allocated (hash_values g2 s)
      then ggml_gallocr_free_node e s g2 else Some g2) = Some g'"
    using assms(6,8) zero by (simp add: release_parent_def decremented_def [symmetric] g2_def [symmetric] Let_def)
  show ?thesis
  proof (cases "n_views (hash_values g2 s) = 0 \<and> n_children (hash_values g2 s) = 0 \<and> allocated (hash_values g2 s)")
    case True
    then have fr: "ggml_gallocr_free_node e s g2 = Some g'" using res by simp
    have em: "open_views e N rem s = {}" "s \<notin> set rem" using True v2 [of s] c2 [of s] by (auto simp: count_list_0_iff)
    note k = free_node_keeps [OF mem2 _ fr]
    have pl: "same_place g g'" using k True same_place_trans [OF pl2] by blast
    have "inv e N rem past exc g'"
      by (rule inv_released [OF assms(2)]) (use k pl True c2 v2 al2 em assms(5) in auto)
    then show ?thesis using pl by blast
  next
    case no: False
    then have "g' = g2" using res unfolding if_not_P [OF no] by simp
    then show ?thesis using inv_released [OF assms(2) mem2 pl2 c2 v2] al2 pl2 by simp
  qed
qed

lemma release_parent_inv:
  assumes "graph_ok e L N" "inv e N (p # rem) past exc g" "p \<in> set L \<union> set N" "p \<in> set (uses e N)" "p \<in> past"
    "\<And>s. gt_view_src (tensor e p) = Some s \<Longrightarrow> s \<in> past" "release_parent e p g = Some g'"
  shows "inv e N rem past exc g' \<and> same_place g g'"
proof (cases "p \<in> set rem \<or> open_views e N (p # rem) p \<noteq> {}")
  case True
  have "n_children (hash_values (decremented p g) p) \<noteq> 0 \<or> n_views (hash_values (decremented p g) p) \<noteq> 0"
    using True decremented_facts(4,5) [OF assms(2), of p] by (auto simp: count_list_0_iff)
  then have "g' = decremented p g" using assms(7) by (simp add: release_parent_def decremented_def [symmetric] Let_def split: if_splits)
  then show ?thesis using not_released_inv [OF assms(2) still_used_same_views [OF assms(1,3,4) True]] by simp
next
  case False
  show ?thesis
  proof (cases "gt_view_src (tensor e p)")
    case None
    then show ?thesis using last_use_plain [OF assms(2,5) _ _ _ assms(7)] False by blast
  next
    case (Some s)
    then show ?thesis using last_use_of_view [OF assms(1-4) assms(6) [OF Some] Some _ assms(7)] False by blast
  qed
qed

lemma release_node_inv:
  assumes "graph_ok e L N" "inv e N (ps @ rest) past exc g" "run_all (release_parent e) ps g = Some g'"
    "\<And>p. p \<in> set ps \<Longrightarrow> p \<in> set L \<union> set N \<and> p \<in> set (uses e N) \<and> p \<in> past \<and> (\<forall>s. gt_view_src (tensor e p) = Some s \<longrightarrow> s \<in> past)"
  shows "inv e N rest past exc g' \<and> same_place g g'"
  using assms(2-)
proof (induction ps arbitrary: g)
  case (Cons p ps)
  then obtain g1 where g1: "release_parent e p g = Some g1" "run_all (release_parent e) ps g1 = Some g'"
    by (auto simp: bind_eq_Some_conv)
  have "inv e N (ps @ rest) past exc g1 \<and> same_place g g1"
    using Cons.prems(1) Cons.prems(3) [of p] by (intro release_parent_inv [OF assms(1) _ _ _ _ _ g1(1)]) auto
  then have g1i: "inv e N (ps @ rest) past exc g1" "same_place g g1" by simp_all
  have "inv e N rest past exc g' \<and> same_place g1 g'" by (rule Cons.IH [OF g1i(1) g1(2)]) (use Cons.prems(3) in auto)
  then show ?case using same_place_trans [OF g1i(2)] by blast
qed (simp add: same_place_def)

section \<open>Placing a node\<close>

text \<open>Some tensors do not move.\<close>

definition keeps :: "nat set \<Rightarrow> ggml_gallocr \<Rightarrow> ggml_gallocr \<Rightarrow> bool" where
  "keeps B g g' \<longleftrightarrow> talloc_of g' = talloc_of g \<and> map alignment (tallocs g') = map alignment (tallocs g) \<and>
    (\<forall>t \<in> B. buffer_id (hash_values g' t) = buffer_id (hash_values g t) \<and> hn_addr (hash_values g' t) = hn_addr (hash_values g t))"

lemma keeps_trans: "keeps B g g' \<Longrightarrow> keeps B' g' g'' \<Longrightarrow> B \<subseteq> B' \<Longrightarrow> keeps B g g''"
  by (auto simp: keeps_def)

lemma same_place_keeps: "same_place g g' \<Longrightarrow> keeps B g g'"
  by (simp add: same_place_def keeps_def)

lemma keeps_refl [simp]: "keeps B g g"
  by (simp add: keeps_def)

lemma keeps_length: "keeps B g g' \<Longrightarrow> length (tallocs g') = length (tallocs g)"
  unfolding keeps_def by (metis length_map)

lemma keeps_update: "tallocs g' = (tallocs g)[d := a] \<Longrightarrow> alignment a = alignment (tallocs g ! d) \<Longrightarrow>
    map alignment (tallocs g') = map alignment (tallocs g)"
  by (rule nth_equalityI) (simp_all add: alignment_update)

lemma allocate_placed:
  "ggml_gallocr_is_allocated e g t \<or> ggml_is_view e t \<Longrightarrow> ggml_gallocr_allocate_node e t b g = Some g"
  by (simp add: ggml_gallocr_allocate_node_def)

lemma not_own_placed: "\<not> own e t \<Longrightarrow> ggml_gallocr_is_allocated e g t \<or> ggml_is_view e t"
  by (auto simp: own_def ggml_gallocr_is_allocated_def ggml_is_view_def)

text \<open>The operand that is found is in memory, not an output, not a view, and read for the last time.\<close>

lemma can_reuse_parent:
  assumes "can_reuse e g v p \<noteq> No_Reuse" "\<And>t. allocated (hash_values g t) \<Longrightarrow> t \<noteq> v \<Longrightarrow> gt_view_src (tensor e t) = None" "p \<noteq> v"
  shows "can_reuse e g v p = Reuse_Parent \<and> allocated (hash_values g p) \<and> \<not> gt_output (tensor e p) \<and>
    n_children (hash_values g p) = 1 \<and> n_views (hash_values g p) = 0"
  using assms(1) assms(2) [of p] assms(3)
  by (auto simp: can_reuse_def ggml_gallocr_is_own_def Let_def split: if_splits option.splits)

lemma reuse_loop_cases:
  assumes "reuse_loop e v ps g = Some r" "\<And>t. allocated (hash_values g t) \<Longrightarrow> t \<noteq> v \<Longrightarrow> gt_view_src (tensor e t) = None" "v \<notin> set ps"
  shows "r = None \<or> (\<exists>p g'. r = Some g' \<and> p \<in> set ps \<and> ggml_gallocr_free_extra_space e v p (take_over v p g) = Some g' \<and>
    allocated (hash_values g p) \<and> \<not> gt_output (tensor e p) \<and> n_children (hash_values g p) = 1 \<and> n_views (hash_values g p) = 0)"
  using assms
proof (induction ps)
  case (Cons p ps)
  show ?case
  proof (cases "can_reuse e g v p = No_Reuse")
    case True
    then show ?thesis using Cons by auto
  next
    case False
    have "p \<noteq> v" using Cons.prems(3) by auto
    note c = can_reuse_parent [OF False Cons.prems(2) this]
    then show ?thesis using Cons.prems(1) by auto
  qed
qed simp

text \<open>How a node is placed: it was there already, it gets new memory, or that of an operand.\<close>

definition handed_over :: "graph_env \<Rightarrow> nat list \<Rightarrow> nat list \<Rightarrow> nat \<Rightarrow> nat \<Rightarrow> ggml_gallocr \<Rightarrow> bool" where
  "handed_over e N rem v p g \<longleftrightarrow> p \<in> set (gt_src (tensor e v)) \<and> p \<noteq> v \<and> count_list rem p = 1 \<and> open_views e N rem p = {} \<and>
    \<not> gt_output (tensor e p) \<and> hn_addr (hash_values g v) = hn_addr (hash_values g p) \<and>
    buffer_id (hash_values g v) = buffer_id (hash_values g p)"

lemma new_place_inv:
  assumes "inv e N rem past {} g" "own e v" "v \<notin> past \<union> inputs e N" "talloc_of g b < length (tallocs g)"
    "alloc_new e v b (upd_hash v (\<lambda>h. h\<lparr>allocated := True\<rparr>) g) = Some g'"
  shows "inv e N rem (insert v past) {} g' \<and> keeps (past \<union> inputs e N) g g' \<and> allocated (hash_values g' v)"
proof -
  note iv = assms(1) [unfolded inv_def]
  have "\<not> allocated (hash_values g v)" using iv assms(3) by blast
  from alloc_new_effect [OF _ _ assms(4) this assms(5)] iv obtain a addr where a: "tallocs g' = (tallocs g)[talloc_of g b := a]"
    "alignment a = alignment (tallocs g ! talloc_of g b)" "talloc_of g' = talloc_of g"
    "hash_values g' = (hash_values g)(v := (hash_values g v)\<lparr>allocated := True, buffer_id := b, hn_addr := addr\<rparr>)" "mem_ok e g'"
    by blast
  have "sizes_ok e g'" using sizes_ok_update [OF _ a(1,2)] iv by blast
  moreover have "keeps (past \<union> inputs e N) g g'" using keeps_update [OF a(1,2)] a(3) assms(3) by (auto simp: keeps_def a(4))
  ultimately show ?thesis using iv a(5) assms(2,3) by (simp add: inv_def a(4))
qed

lemma taken_place_inv:
  assumes "inv e N rem past {} g" "own e v" "v \<notin> past \<union> inputs e N" "p \<in> past" "p \<in> set (gt_src (tensor e v))"
    "ggml_gallocr_free_extra_space e v p (take_over v p (upd_hash v (\<lambda>h. h\<lparr>allocated := True\<rparr>) g)) = Some g'"
    "allocated (hash_values g p)" "\<not> gt_output (tensor e p)" "n_children (hash_values g p) = 1" "n_views (hash_values g p) = 0"
  shows "inv e N rem (insert v past) {p} g' \<and> keeps (past \<union> inputs e N) g g' \<and> allocated (hash_values g' v) \<and> handed_over e N rem v p g'"
proof -
  note iv = assms(1) [unfolded inv_def]
  have pv: "p \<noteq> v" using assms(3,4) by auto
  have "\<not> allocated (hash_values g v)" using iv assms(3) by blast
  from take_over_effect [OF _ _ assms(7) this assms(6)] iv obtain a where a: "tallocs g' = (tallocs g)[talloc g p := a]"
    "alignment a = alignment (tallocs g ! talloc g p)" "talloc_of g' = talloc_of g"
    "hash_values g' = (hash_values g)(v := (hash_values g v)\<lparr>allocated := True, buffer_id := buffer_id (hash_values g p),
        hn_addr := hn_addr (hash_values g p)\<rparr>, p := (hash_values g p)\<lparr>allocated := False\<rparr>)" "mem_ok e g'"
    by blast
  have one: "count_list rem p = 1" "open_views e N rem p = {}" using iv assms(9,10) by (metis of_nat_1_eq_iff, metis card_0_eq finite_open_views of_nat_0_eq_iff)
  have "sizes_ok e g'" using sizes_ok_update [OF _ a(1,2)] iv by blast
  moreover have "keeps (past \<union> inputs e N) g g'" using keeps_update [OF a(1,2)] a(3) assms(3) by (auto simp: keeps_def a(4))
  moreover have "handed_over e N rem v p g'" using assms(5,8) one pv by (simp add: handed_over_def a(4))
  moreover have "inv e N rem (insert v past) {p} g'"
  proof -
    have h: "allocated (hash_values g' t) \<longleftrightarrow> t = v \<or> (t \<noteq> p \<and> allocated (hash_values g t))"
      "n_children (hash_values g' t) = n_children (hash_values g t)" "n_views (hash_values g' t) = n_views (hash_values g t)"
      "t \<noteq> v \<Longrightarrow> hn_addr (hash_values g' t) = hn_addr (hash_values g t)" for t
      using pv by (simp_all add: a(4))
    show ?thesis using iv a(5) assms(2-4) \<open>sizes_ok e g'\<close> unfolding inv_def h by (simp add: h(4)) blast
  qed
  ultimately show ?thesis using pv by (simp add: a(4))
qed

lemma allocate_node_inv:
  assumes "inv e N rem past {} g" "v \<notin> past" "v \<in> set N" "talloc_of g b < length (tallocs g)" "set (gt_src (tensor e v)) \<subseteq> past"
    "gt_input (tensor e v) \<longrightarrow> \<not> ggml_op_can_inplace (gt_op (tensor e v))" "ggml_gallocr_allocate_node e v b g = Some g'"
  shows "\<exists>exc. inv e N rem (insert v past) exc g' \<and> keeps (past \<union> inputs e N) g g' \<and> (own e v \<longrightarrow> allocated (hash_values g' v)) \<and>
    (exc = {} \<or> (\<exists>p. exc = {p} \<and> handed_over e N rem v p g'))"
proof -
  note iv = assms(1) [unfolded inv_def]
  show ?thesis
  proof (cases "own e v \<and> \<not> allocated (hash_values g v)")
    case False
    then have "ggml_gallocr_is_allocated e g v \<or> ggml_is_view e v"
      using not_own_placed by (auto simp: ggml_gallocr_is_allocated_def ggml_gallocr_is_own_def)
    then have "g' = g" using allocate_placed assms(7) by simp
    moreover have "inv e N rem (insert v past) {} g" using iv False by (auto simp: inv_def)
    ultimately show ?thesis using False by auto
  next
    case True
    then have v: "v \<notin> past \<union> inputs e N" using iv assms(2) by blast
    define g1 where "g1 = upd_hash v (\<lambda>h. h\<lparr>allocated := True\<rparr>) g"
    have "\<not> (ggml_gallocr_is_allocated e g v \<or> ggml_is_view e v)" "snd (hn_addr (hash_values g v)) = 0"
      using True iv v by (auto simp: own_def ggml_gallocr_is_allocated_def ggml_gallocr_is_own_def ggml_is_view_def)
    then have "ggml_gallocr_allocate_node e v b g = (if ggml_op_can_inplace (gt_op (tensor e v))
          then (case reuse_loop e v (gt_src (tensor e v)) g1 of
                  None \<Rightarrow> None | Some (Some g') \<Rightarrow> Some g' | Some None \<Rightarrow> alloc_new e v b g1)
          else alloc_new e v b g1)"
      unfolding ggml_gallocr_allocate_node_def Let_def g1_def by (simp split: option.splits)
    then have step: "(if ggml_op_can_inplace (gt_op (tensor e v))
          then (case reuse_loop e v (gt_src (tensor e v)) g1 of
                  None \<Rightarrow> None | Some (Some g') \<Rightarrow> Some g' | Some None \<Rightarrow> alloc_new e v b g1)
          else alloc_new e v b g1) = Some g'"
      using assms(7) by simp
    have new: ?thesis if "alloc_new e v b g1 = Some g'"
      using new_place_inv [OF assms(1) _ v assms(4)] that True by (auto simp: g1_def)
    show ?thesis
    proof (cases "\<exists>g''. ggml_op_can_inplace (gt_op (tensor e v)) \<and> reuse_loop e v (gt_src (tensor e v)) g1 = Some (Some g'')")
      case False
      then show ?thesis using new step by (auto split: if_splits option.splits)
    next
      case loop: True
      then have r: "reuse_loop e v (gt_src (tensor e v)) g1 = Some (Some g')" using step by auto
      have vs: "v \<notin> set (gt_src (tensor e v))" using assms(2,5) by blast
      have nv: "gt_view_src (tensor e t) = None" if "allocated (hash_values g1 t)" "t \<noteq> v" for t
        using that iv by (auto simp: g1_def own_def)
      from reuse_loop_cases [OF r nv vs] obtain p where p: "p \<in> set (gt_src (tensor e v))"
        "ggml_gallocr_free_extra_space e v p (take_over v p g1) = Some g'" "allocated (hash_values g1 p)" "\<not> gt_output (tensor e p)"
        "n_children (hash_values g1 p) = 1" "n_views (hash_values g1 p) = 0" by blast
      have pv: "p \<noteq> v" using p(1) vs by auto
      have "inv e N rem (insert v past) {p} g' \<and> keeps (past \<union> inputs e N) g g' \<and> allocated (hash_values g' v) \<and> handed_over e N rem v p g'"
        using p pv assms(5) True by (intro taken_place_inv [OF assms(1) _ v]) (auto simp: g1_def)
      then show ?thesis by blast
    qed
  qed
qed

section \<open>The steps of a graph\<close>

definition past :: "nat list \<Rightarrow> nat list \<Rightarrow> nat \<Rightarrow> nat set" where
  "past L N j = set L \<union> set (take j N)"

lemma past_Suc: "j < length N \<Longrightarrow> past L N (Suc j) = insert (N ! j) (past L N j)"
  by (simp add: past_def take_Suc_conv_app_nth)

lemma uses_drop: "j < length N \<Longrightarrow> uses e (drop j N) = gt_src (tensor e (N ! j)) @ uses e (drop (Suc j) N)"
  by (simp add: uses_def Cons_nth_drop_Suc [symmetric])

lemma uses_subset: "set (uses e (drop j N)) \<subseteq> set (uses e N)"
  by (auto simp: uses_def dest: in_set_dropD)

lemma operands_past: "graph_ok e L N \<Longrightarrow> j < length N \<Longrightarrow> set (gt_src (tensor e (N ! j))) \<subseteq> past L N j"
  by (simp add: graph_ok_def past_def)

lemma node_not_past: "graph_ok e L N \<Longrightarrow> j < length N \<Longrightarrow> N ! j \<notin> past L N j"
proof -
  assume a: "graph_ok e L N" "j < length N"
  have d: "distinct (L @ take j N @ N ! j # drop (Suc j) N)"
    using a(1) id_take_nth_drop [OF a(2)] by (simp add: graph_ok_def)
  then show ?thesis by (simp add: past_def)
qed

lemma view_source_past:
  assumes "graph_ok e L N" "p \<in> past L N j" "gt_view_src (tensor e p) = Some s"
  shows "s \<in> past L N j"
proof -
  have "p \<notin> set L" using assms(1,3) by (auto simp: graph_ok_def)
  then obtain i where i: "i < j" "i < length N" "p = N ! i" using assms(2) by (auto simp: past_def in_set_conv_nth)
  then have "s \<in> set L \<union> set (take i N)" using assms(1,3) by (auto simp: graph_ok_def)
  then show ?thesis using i(1) set_take_subset_set_take [of i j N] by (auto simp: past_def)
qed

lemma drop_exception:
  assumes "inv e N rem P {p} g" "p \<notin> set rem" "open_views e N rem p = {}" "\<not> gt_output (tensor e p)"
  shows "inv e N rem P {} g"
  using assms by (auto simp: inv_def)

lemma run_all_same: "(\<And>x. x \<in> set xs \<Longrightarrow> f x s = Some s) \<Longrightarrow> run_all f xs s = Some s"
  by (induction xs) simp_all

lemma place_node_inv:
  assumes "graph_ok e L N" "j < length N" "inv e N (uses e (drop j N)) (past L N j) {} g" "talloc_of g b < length (tallocs g)"
    "place_node e (N ! j, b) g = Some g'"
  shows "\<exists>exc. inv e N (uses e (drop j N)) (past L N (Suc j)) exc g' \<and> keeps (past L N j \<union> inputs e N) g g' \<and>
    (own e (N ! j) \<longrightarrow> allocated (hash_values g' (N ! j))) \<and>
    (exc = {} \<or> (\<exists>p. exc = {p} \<and> handed_over e N (uses e (drop j N)) (N ! j) p g'))"
proof -
  have "ggml_gallocr_allocate_node e p b g = Some g" if p: "p \<in> set (gt_src (tensor e (N ! j)))" for p
  proof (rule allocate_placed, cases "own e p")
    case True
    have "p \<in> past L N j" "p \<in> set (uses e (drop j N))" using operands_past [OF assms(1,2)] p uses_drop [OF assms(2)] by auto
    then have "allocated (hash_values g p)" using assms(3) True unfolding inv_def by blast
    then show "ggml_gallocr_is_allocated e g p \<or> ggml_is_view e p" by (simp add: ggml_gallocr_is_allocated_def ggml_gallocr_is_own_def)
  qed (rule not_own_placed)
  then have "run_all (\<lambda>p. ggml_gallocr_allocate_node e p b) (gt_src (tensor e (N ! j))) g = Some g" by (rule run_all_same)
  then have al: "ggml_gallocr_allocate_node e (N ! j) b g = Some g'" using assms(5) by (simp add: place_node_def)
  show ?thesis
    unfolding past_Suc [OF assms(2)]
    by (rule allocate_node_inv [OF assms(3) node_not_past [OF assms(1,2)] _ assms(4) operands_past [OF assms(1,2)] _ al])
      (use assms(1,2) in \<open>auto simp: graph_ok_def\<close>)
qed

lemma release_after_node:
  assumes "graph_ok e L N" "j < length N" "inv e N (uses e (drop j N)) (past L N (Suc j)) exc g1"
    "exc = {} \<or> (\<exists>p. exc = {p} \<and> handed_over e N (uses e (drop j N)) (N ! j) p g1)" "release_node e (N ! j, b) g1 = Some g'"
  shows "inv e N (uses e (drop (Suc j) N)) (past L N (Suc j)) {} g' \<and> same_place g1 g'"
proof -
  have sub: "past L N j \<subseteq> past L N (Suc j)" by (simp add: past_Suc [OF assms(2)] subset_insertI)
  have "run_all (release_parent e) (gt_src (tensor e (N ! j))) g1 = Some g'" using assms(5) by (simp add: release_node_def)
  then have r: "inv e N (uses e (drop (Suc j) N)) (past L N (Suc j)) exc g' \<and> same_place g1 g'"
  proof (rule release_node_inv [OF assms(1), rotated])
    show "inv e N (gt_src (tensor e (N ! j)) @ uses e (drop (Suc j) N)) (past L N (Suc j)) exc g1"
      using assms(3) by (simp add: uses_drop [OF assms(2)])
    show "p \<in> set L \<union> set N \<and> p \<in> set (uses e N) \<and> p \<in> past L N (Suc j) \<and> (\<forall>s. gt_view_src (tensor e p) = Some s \<longrightarrow> s \<in> past L N (Suc j))"
      if "p \<in> set (gt_src (tensor e (N ! j)))" for p
    proof -
      have "p \<in> past L N j" using operands_past [OF assms(1,2)] that by blast
      moreover have "p \<in> set (uses e N)" using that uses_subset [of e j N] by (auto simp: uses_drop [OF assms(2)])
      ultimately show ?thesis using sub view_source_past [OF assms(1)] by (auto simp: past_def dest: in_set_takeD)
    qed
  qed
  show ?thesis
  proof (cases "exc = {}")
    case False
    then obtain p where p: "exc = {p}" "handed_over e N (uses e (drop j N)) (N ! j) p g1" using assms(4) by blast
    then have h: "p \<in> set (gt_src (tensor e (N ! j)))" "count_list (uses e (drop j N)) p = 1" "open_views e N (uses e (drop j N)) p = {}"
      "\<not> gt_output (tensor e p)" by (simp_all add: handed_over_def)
    have "0 < count_list (gt_src (tensor e (N ! j))) p" using h(1) by (simp add: count_list_0_iff zero_less_iff_neq_zero)
    then have "p \<notin> set (uses e (drop (Suc j) N))" using h(2) by (simp add: uses_drop [OF assms(2)] count_list_0_iff [symmetric])
    moreover have "open_views e N (uses e (drop (Suc j) N)) p = {}"
      using h(3) open_views_mono [of "uses e (drop (Suc j) N)" "uses e (drop j N)" e N p] by (simp add: uses_drop [OF assms(2)])
    ultimately show ?thesis using drop_exception [OF r [THEN conjunct1, unfolded p(1)] _ _ h(4)] r by blast
  qed (use r in simp)
qed

lemma alloc_step_inv:
  assumes "graph_ok e L N" "j < length N" "inv e N (uses e (drop j N)) (past L N j) {} g" "talloc_of g b < length (tallocs g)"
    "alloc_step e (N ! j, b) g = Some g'"
  shows "inv e N (uses e (drop (Suc j) N)) (past L N (Suc j)) {} g' \<and> keeps (past L N j \<union> inputs e N) g g'"
proof -
  obtain g1 where g1: "place_node e (N ! j, b) g = Some g1" "release_node e (N ! j, b) g1 = Some g'"
    using assms(5) by (auto simp: alloc_step_def bind_eq_Some_conv)
  from place_node_inv [OF assms(1-4) g1(1)] obtain exc where exc: "inv e N (uses e (drop j N)) (past L N (Suc j)) exc g1"
    "keeps (past L N j \<union> inputs e N) g g1" "exc = {} \<or> (\<exists>p. exc = {p} \<and> handed_over e N (uses e (drop j N)) (N ! j) p g1)" by blast
  from release_after_node [OF assms(1,2) exc(1,3) g1(2)] show ?thesis
    using exc(2) same_place_keeps keeps_trans by blast
qed

lemma alloc_steps_inv:
  assumes "graph_ok e L N" "run_all (alloc_step e) ms g = Some g'" "map fst ms = take (length ms) (drop j N)" "j + length ms \<le> length N"
    "inv e N (uses e (drop j N)) (past L N j) {} g" "\<And>m. m \<in> set ms \<Longrightarrow> talloc_of g (snd m) < length (tallocs g)"
  shows "inv e N (uses e (drop (j + length ms) N)) (past L N (j + length ms)) {} g' \<and> keeps (past L N j \<union> inputs e N) g g'"
  using assms(2-)
proof (induction ms arbitrary: g j)
  case (Cons m ms)
  have j: "j < length N" using Cons.prems(3) by simp
  obtain g1 where g1: "alloc_step e m g = Some g1" "run_all (alloc_step e) ms g1 = Some g'"
    using Cons.prems(1) by (auto simp: bind_eq_Some_conv)
  have "fst m = N ! j" "map fst ms = take (length ms) (drop (Suc j) N)"
    using Cons.prems(2) Cons_nth_drop_Suc [OF j, symmetric] by simp_all
  then obtain b where m: "m = (N ! j, b)" and ms: "map fst ms = take (length ms) (drop (Suc j) N)" by (cases m) simp
  have s: "inv e N (uses e (drop (Suc j) N)) (past L N (Suc j)) {} g1" "keeps (past L N j \<union> inputs e N) g g1"
    using alloc_step_inv [OF assms(1) j Cons.prems(4) _ g1(1) [unfolded m]] Cons.prems(5) [of m] m by auto
  have t: "talloc_of g1 (snd k) < length (tallocs g1)" if "k \<in> set ms" for k
    using Cons.prems(5) [of k] that s(2) keeps_length [OF s(2)] by (simp add: keeps_def)
  have "inv e N (uses e (drop (Suc j + length ms) N)) (past L N (Suc j + length ms)) {} g' \<and> keeps (past L N (Suc j) \<union> inputs e N) g1 g'"
    using Cons.IH [OF g1(2) ms _ s(1) t] Cons.prems(3) by simp
  then have r: "inv e N (uses e (drop (Suc j + length ms) N)) (past L N (Suc j + length ms)) {} g'"
    "keeps (past L N (Suc j) \<union> inputs e N) g1 g'" by simp_all
  have "keeps (past L N j \<union> inputs e N) g g'" by (rule keeps_trans [OF s(2) r(2)]) (auto simp: past_Suc [OF j])
  then show ?case using r(1) by simp
qed simp

section \<open>Before the first node\<close>

text \<open>Leafs and inputs are placed while the readers are counted: \<open>A\<close> are in memory, \<open>U\<close> and \<open>V\<close> are counted.\<close>

definition pre :: "graph_env \<Rightarrow> nat list \<Rightarrow> nat list \<Rightarrow> nat set \<Rightarrow> nat list \<Rightarrow> nat set \<Rightarrow> ggml_gallocr \<Rightarrow> bool" where
  "pre e L N A U V g \<longleftrightarrow> mem_ok e g \<and> sizes_ok e g \<and>
    (\<forall>t. allocated (hash_values g t) \<longrightarrow> own e t \<and> t \<in> set L \<union> inputs e N) \<and>
    (\<forall>t \<in> A. own e t \<longrightarrow> allocated (hash_values g t)) \<and>
    (\<forall>t. \<not> allocated (hash_values g t) \<longrightarrow> hn_addr (hash_values g t) = (0, 0)) \<and>
    (\<forall>t. n_children (hash_values g t) = int (count_list U t)) \<and>
    (\<forall>s. n_views (hash_values g s) = int (card {v \<in> V. gt_view_src (tensor e v) = Some s}))"

definition same_tables :: "ggml_gallocr \<Rightarrow> ggml_gallocr \<Rightarrow> bool" where
  "same_tables g g' \<longleftrightarrow> talloc_of g' = talloc_of g \<and> length (tallocs g') = length (tallocs g)"

lemma same_tables_trans: "same_tables g g' \<Longrightarrow> same_tables g' g'' \<Longrightarrow> same_tables g g''"
  by (simp add: same_tables_def)

lemma pre_allocate:
  assumes "pre e L N A U V g" "t \<in> set L \<union> inputs e N" "\<not> ggml_op_can_inplace (gt_op (tensor e t))"
    "talloc_of g b < length (tallocs g)" "ggml_gallocr_allocate_node e t b g = Some g'"
  shows "pre e L N (insert t A) U V g' \<and> same_tables g g'"
proof -
  note iv = assms(1) [unfolded pre_def]
  show ?thesis
  proof (cases "own e t \<and> \<not> allocated (hash_values g t)")
    case False
    then have "ggml_gallocr_is_allocated e g t \<or> ggml_is_view e t"
      using not_own_placed by (auto simp: ggml_gallocr_is_allocated_def ggml_gallocr_is_own_def)
    then have "g' = g" using allocate_placed assms(5) by simp
    then show ?thesis using iv False by (auto simp: pre_def same_tables_def)
  next
    case True
    then have "\<not> (ggml_gallocr_is_allocated e g t \<or> ggml_is_view e t)" "snd (hn_addr (hash_values g t)) = 0"
      using iv by (auto simp: own_def ggml_gallocr_is_allocated_def ggml_gallocr_is_own_def ggml_is_view_def)
    then have "alloc_new e t b (upd_hash t (\<lambda>h. h\<lparr>allocated := True\<rparr>) g) = Some g'"
      using assms(3,5) by (simp add: ggml_gallocr_allocate_node_def Let_def)
    from alloc_new_effect [OF _ _ assms(4) _ this] iv True obtain a addr where a: "tallocs g' = (tallocs g)[talloc_of g b := a]"
      "alignment a = alignment (tallocs g ! talloc_of g b)" "talloc_of g' = talloc_of g"
      "hash_values g' = (hash_values g)(t := (hash_values g t)\<lparr>allocated := True, buffer_id := b, hn_addr := addr\<rparr>)" "mem_ok e g'"
      by blast
    have "sizes_ok e g'" using sizes_ok_update [OF _ a(1,2)] iv by blast
    then show ?thesis using iv a(5) assms(2) True by (simp add: pre_def a(1,3,4) same_tables_def)
  qed
qed

lemma pre_subset: "pre e L N A U V g \<Longrightarrow> B \<subseteq> A \<Longrightarrow> pre e L N B U V g"
  by (auto simp: pre_def)

lemma pre_leafs:
  assumes "pre e L N A U V g" "run_all (\<lambda>(leaf, b). ggml_gallocr_allocate_node e leaf b) ls g = Some g'"
    "\<And>l. l \<in> set ls \<Longrightarrow> fst l \<in> set L \<and> \<not> ggml_op_can_inplace (gt_op (tensor e (fst l))) \<and> talloc_of g (snd l) < length (tallocs g)"
  shows "pre e L N (A \<union> fst ` set ls) U V g' \<and> same_tables g g'"
  using assms
proof (induction ls arbitrary: g A)
  case (Cons l ls)
  obtain t b where l: "l = (t, b)" by (cases l)
  obtain g1 where g1: "ggml_gallocr_allocate_node e t b g = Some g1"
    "run_all (\<lambda>(leaf, b). ggml_gallocr_allocate_node e leaf b) ls g1 = Some g'"
    using Cons.prems(2) by (auto simp: l bind_eq_Some_conv)
  have s: "pre e L N (insert t A) U V g1" "same_tables g g1"
    using pre_allocate [OF Cons.prems(1) _ _ _ g1(1)] Cons.prems(3) [of l] by (auto simp: l)
  have "pre e L N (insert t A \<union> fst ` set ls) U V g' \<and> same_tables g1 g'"
    using Cons.prems(3) s(2) by (intro Cons.IH [OF s(1) g1(2)]) (simp add: same_tables_def)
  then show ?case using same_tables_trans [OF s(2)] by (simp add: l)
qed (simp add: same_tables_def)

text \<open>Counting does not touch the memory.\<close>

lemma pre_count:
  assumes "pre e L N A U V g"
    "\<And>t. n_children (f t (hash_values g t)) = int (count_list U' t) \<and> n_views (f t (hash_values g t)) = int (card {v \<in> V'. gt_view_src (tensor e v) = Some t})
      \<and> buffer_id (f t (hash_values g t)) = buffer_id (hash_values g t) \<and> hn_addr (f t (hash_values g t)) = hn_addr (hash_values g t)
      \<and> allocated (f t (hash_values g t)) = allocated (hash_values g t)"
    "hash_values g' = (\<lambda>t. f t (hash_values g t))" "tallocs g' = tallocs g" "talloc_of g' = talloc_of g"
  shows "pre e L N A U' V' g' \<and> same_tables g g'"
proof -
  have "same_mem g g'" using assms(2-5) by (simp add: same_mem_def)
  then have "mem_ok e g'" using mem_ok_same assms(1) by (simp add: pre_def)
  then show ?thesis using assms by (simp add: pre_def sizes_ok_def same_tables_def)
qed

lemma pre_count_src:
  assumes "pre e L N A U V g" "s \<in> set L \<union> set N" "gt_input (tensor e s) \<longrightarrow> \<not> ggml_op_can_inplace (gt_op (tensor e s))"
    "talloc_of g b < length (tallocs g)" "count_src e b s g = Some g'"
  shows "pre e L N A (s # U) V g' \<and> same_tables g g'"
proof -
  define g1 where "g1 = upd_hash s (\<lambda>h. h\<lparr>n_children := n_children h + 1\<rparr>) g"
  have p1: "pre e L N A (s # U) V g1 \<and> same_tables g g1"
    by (rule pre_count [OF assms(1), where f = "\<lambda>t h. if t = s then h\<lparr>n_children := n_children h + 1\<rparr> else h"])
      (use assms(1) in \<open>auto simp: g1_def pre_def\<close>)
  show ?thesis
  proof (cases "gt_input (tensor e s)")
    case True
    then have al: "ggml_gallocr_allocate_node e s b g1 = Some g'" using assms(5) by (simp add: count_src_def g1_def Let_def)
    have "s \<in> set L \<union> inputs e N" using assms(2) True by (auto simp: inputs_def)
    from pre_allocate [OF _ this _ _ al] p1 assms(3,4) True
    have "pre e L N (insert s A) (s # U) V g'" "same_tables g1 g'" by (auto simp: same_tables_def)
    then show ?thesis using p1 same_tables_trans pre_subset by blast
  next
    case False
    then show ?thesis using assms(5) p1 by (simp add: count_src_def g1_def Let_def)
  qed
qed

lemma pre_count_srcs:
  assumes "pre e L N A U V g" "\<And>s. s \<in> set ss \<Longrightarrow> s \<in> set L \<union> set N"
    "\<And>s. gt_input (tensor e s) \<longrightarrow> \<not> ggml_op_can_inplace (gt_op (tensor e s))"
    "talloc_of g b < length (tallocs g)" "run_all (count_src e b) ss g = Some g'"
  shows "pre e L N A (rev ss @ U) V g' \<and> same_tables g g'"
  using assms(1,2,4,5)
proof (induction ss arbitrary: g U)
  case (Cons s ss)
  obtain g1 where g1: "count_src e b s g = Some g1" "run_all (count_src e b) ss g1 = Some g'"
    using Cons.prems(4) by (auto simp: bind_eq_Some_conv)
  have s: "pre e L N A (s # U) V g1" "same_tables g g1"
    using pre_count_src [OF Cons.prems(1) _ assms(3) Cons.prems(3) g1(1)] Cons.prems(2) by auto
  have "pre e L N A (rev ss @ s # U) V g' \<and> same_tables g1 g'"
    using Cons.prems(2,3) s(2) by (intro Cons.IH [OF s(1) _ _ g1(2)]) (auto simp: same_tables_def)
  then show ?case using same_tables_trans [OF s(2)] by simp
qed (simp add: same_tables_def)

lemma pre_cong: "(\<And>t. count_list U t = count_list U' t) \<Longrightarrow> pre e L N A U V g \<Longrightarrow> pre e L N A U' V g"
  by (simp add: pre_def)

lemma pre_count_node:
  assumes "graph_ok e L N" "pre e L N A U V g" "v \<in> set N" "v \<notin> V" "finite V" "talloc_of g b < length (tallocs g)"
    "count_node e (v, b) g = Some g'"
  shows "pre e L N (A \<union> {t. t = v \<and> gt_input (tensor e t)}) (U @ gt_src (tensor e v)) (insert v V) g' \<and> same_tables g g'"
proof -
  define g1 where "g1 = (case gt_view_src (tensor e v) of
                 Some s \<Rightarrow> if gt_op (tensor e v) \<noteq> GGML_OP_NONE then upd_hash s (\<lambda>h. h\<lparr>n_views := n_views h + 1\<rparr>) g else g
               | None \<Rightarrow> g)"
  have "count_node e (v, b) g = Option.bind (if gt_input (tensor e v) then ggml_gallocr_allocate_node e v b g1 else Some g1)
      (run_all (count_src e b) (gt_src (tensor e v)))"
    unfolding count_node_def g1_def Let_def by simp
  then have "Option.bind (if gt_input (tensor e v) then ggml_gallocr_allocate_node e v b g1 else Some g1)
      (run_all (count_src e b) (gt_src (tensor e v))) = Some g'" using assms(7) by simp
  then obtain g2 where g2: "(if gt_input (tensor e v) then ggml_gallocr_allocate_node e v b g1 else Some g1) = Some g2"
    "run_all (count_src e b) (gt_src (tensor e v)) g2 = Some g'"
    unfolding bind_eq_Some_conv by blast
  have op: "gt_op (tensor e v) \<noteq> GGML_OP_NONE" if "gt_view_src (tensor e v) = Some s" for s
    using assms(1,3) that by (auto simp: graph_ok_def in_set_conv_nth)
  have views: "{w \<in> insert v V. gt_view_src (tensor e w) = Some s} = (if gt_view_src (tensor e v) = Some s
      then insert v {w \<in> V. gt_view_src (tensor e w) = Some s} else {w \<in> V. gt_view_src (tensor e w) = Some s})" for s by auto
  have cards: "card {w \<in> insert v V. gt_view_src (tensor e w) = Some s}
      = card {w \<in> V. gt_view_src (tensor e w) = Some s} + of_bool (gt_view_src (tensor e v) = Some s)" for s
    unfolding views using assms(4,5) by simp
  have p1: "pre e L N A U (insert v V) g1 \<and> same_tables g g1"
    by (rule pre_count [OF assms(2), where f = "\<lambda>t h. if gt_view_src (tensor e v) = Some t then h\<lparr>n_views := n_views h + 1\<rparr> else h"])
      (use assms(2,4,5) op in \<open>auto simp: g1_def pre_def cards simp del: insert_iff split: option.splits\<close>)
  have inp: "\<And>s. gt_input (tensor e s) \<longrightarrow> \<not> ggml_op_can_inplace (gt_op (tensor e s))" using assms(1) by (simp add: graph_ok_def)
  have p2: "pre e L N (A \<union> {t. t = v \<and> gt_input (tensor e t)}) U (insert v V) g2 \<and> same_tables g1 g2"
  proof (cases "gt_input (tensor e v)")
    case True
    then have r: "pre e L N (insert v A) U (insert v V) g2 \<and> same_tables g1 g2"
      using p1 assms(3,6) inp g2(1) by (intro pre_allocate [where b = b and t = v]) (auto simp: inputs_def same_tables_def)
    have "A \<union> {t. t = v \<and> gt_input (tensor e t)} \<subseteq> insert v A" by auto
    from pre_subset [OF conjunct1 [OF r] this] show ?thesis using r by simp
  next
    case False
    then have z: "A \<union> {t. t = v \<and> gt_input (tensor e t)} = A" "g2 = g1" using g2(1) by auto
    show ?thesis unfolding z using p1 by (simp add: same_tables_def)
  qed
  have srcs: "s \<in> set L \<union> set N" if "s \<in> set (gt_src (tensor e v))" for s
  proof -
    obtain i where "i < length N" "v = N ! i" using assms(3) by (auto simp: in_set_conv_nth)
    then have "s \<in> set L \<union> set (take i N)" using assms(1) that by (auto simp: graph_ok_def)
    then show ?thesis by (auto dest: in_set_takeD)
  qed
  have t2: "talloc_of g2 b < length (tallocs g2)" using p1 p2 assms(6) by (simp add: same_tables_def)
  note r = pre_count_srcs [OF conjunct1 [OF p2] srcs inp t2 g2(2)]
  have c: "count_list (rev (gt_src (tensor e v)) @ U) t = count_list (U @ gt_src (tensor e v)) t" for t by simp
  have "same_tables g g'"
    using same_tables_trans [OF same_tables_trans [OF conjunct2 [OF p1] conjunct2 [OF p2]] conjunct2 [OF r]] .
  then show ?thesis using pre_cong [OF c conjunct1 [OF r]] by simp
qed

lemma pre_count_nodes:
  assumes "graph_ok e L N" "run_all (count_node e) ms g = Some g'" "pre e L N A U V g" "finite V" "distinct (map fst ms)"
    "\<And>m. m \<in> set ms \<Longrightarrow> fst m \<in> set N \<and> fst m \<notin> V \<and> talloc_of g (snd m) < length (tallocs g)"
  shows "pre e L N (A \<union> {t \<in> fst ` set ms. gt_input (tensor e t)}) (U @ uses e (map fst ms)) (V \<union> fst ` set ms) g' \<and> same_tables g g'"
  using assms(2-)
proof (induction ms arbitrary: g A U V)
  case (Cons m ms)
  obtain v b where m: "m = (v, b)" by (cases m)
  obtain g1 where g1: "count_node e (v, b) g = Some g1" "run_all (count_node e) ms g1 = Some g'"
    using Cons.prems(1) by (auto simp: m bind_eq_Some_conv)
  have s: "pre e L N (A \<union> {t. t = v \<and> gt_input (tensor e t)}) (U @ gt_src (tensor e v)) (insert v V) g1" "same_tables g g1"
    using pre_count_node [OF assms(1) Cons.prems(2) _ _ Cons.prems(3) _ g1(1)] Cons.prems(5) [of m] by (auto simp: m)
  have "pre e L N (A \<union> {t. t = v \<and> gt_input (tensor e t)} \<union> {t \<in> fst ` set ms. gt_input (tensor e t)})
      ((U @ gt_src (tensor e v)) @ uses e (map fst ms)) (insert v V \<union> fst ` set ms) g' \<and> same_tables g1 g'"
    using Cons.prems(3-5) s(2) by (intro Cons.IH [OF g1(2) s(1)]) (auto simp: same_tables_def m)
  moreover have "A \<union> {t. t = v \<and> gt_input (tensor e t)} \<union> {t \<in> fst ` set ms. gt_input (tensor e t)}
      = A \<union> {t \<in> fst ` set (m # ms). gt_input (tensor e t)}" by (auto simp: m)
  moreover have "insert v V \<union> fst ` set ms = V \<union> fst ` set (m # ms)" by (auto simp: m)
  ultimately show ?case using same_tables_trans [OF s(2)] by (simp add: m uses_def)
qed (simp add: same_tables_def uses_def)

lemma pre_inv:
  assumes "pre e L N (set L \<union> inputs e N) (uses e N) (set N) g"
  shows "inv e N (uses e (drop 0 N)) (past L N 0) {} g"
proof -
  have "open_views e N (uses e N) s = {v \<in> set N. gt_view_src (tensor e v) = Some s}" for s by (auto simp: open_views_def)
  then show ?thesis using assms by (auto simp: pre_def inv_def past_def)
qed

section \<open>Safety\<close>

definition gallocr_ok :: "graph_env \<Rightarrow> ggml_gallocr \<Rightarrow> bool" where
  "gallocr_ok e g \<longleftrightarrow> (\<forall>a \<in> set (tallocs g). 0 < alignment a \<and> max_chunk_size a \<le> SIZE_MAX div 2) \<and> sizes_ok e g"

text \<open>A tensor is needed from node \<open>j\<close> on when it is an output, or read there or later, itself or through a view.\<close>

definition still_needed :: "graph_env \<Rightarrow> nat list \<Rightarrow> nat \<Rightarrow> nat \<Rightarrow> bool" where
  "still_needed e N j u \<longleftrightarrow> gt_output (tensor e u) \<or>
    (\<exists>k \<ge> j. k < length N \<and> (\<exists>p \<in> set (gt_src (tensor e (N ! k))). p = u \<or> gt_view_src (tensor e p) = Some u))"

text \<open>What has data when node \<open>j\<close> is computed: results, leafs and inputs that are needed, and the inputs of later nodes.\<close>

definition holds_data :: "graph_env \<Rightarrow> nat list \<Rightarrow> nat list \<Rightarrow> nat \<Rightarrow> nat \<Rightarrow> bool" where
  "holds_data e L N j u \<longleftrightarrow> own e u \<and> ((u \<in> past L N j \<and> still_needed e N j u) \<or> (u \<in> inputs e N \<and> u \<notin> past L N (Suc j)))"

definition disjoint_blocks :: "graph_env \<Rightarrow> ggml_gallocr \<Rightarrow> nat \<Rightarrow> nat \<Rightarrow> bool" where
  "disjoint_blocks e g t u \<longleftrightarrow>
    (let h = hash_values g t; k = hash_values g u
     in talloc g t \<noteq> talloc g u \<or> fst (hn_addr h) \<noteq> fst (hn_addr k) \<or>
        snd (hn_addr h) + get_alloc_size e (buffer_id h) t \<le> snd (hn_addr k) \<or>
        snd (hn_addr k) + get_alloc_size e (buffer_id k) u \<le> snd (hn_addr h))"

lemma mem_ok_disjoint:
  assumes "mem_ok e g" "allocated (hash_values g t)" "allocated (hash_values g u)" "t \<noteq> u"
  shows "disjoint_blocks e g t u"
proof (cases "talloc g t = talloc g u")
  case True
  define d where "d = talloc g t"
  have d: "d < length (tallocs g)" using assms(1,2) by (simp add: mem_ok_def d_def)
  obtain us where us: "distinct us" "set us = in_memory g d" "alloc_ok (tallocs g ! d) (map (blk e g) us)"
    by (rule mem_ok_at [OF assms(1) d])
  have "t \<in> set us" "u \<in> set us" using us(2) assms(2,3) True by (auto simp: in_memory_def d_def)
  then obtain i k where ik: "i < length us" "us ! i = t" "k < length us" "us ! k = u" "i \<noteq> k"
    using assms(4) by (auto simp: in_set_conv_nth)
  define R where "R = (\<lambda>(c, off, sz) (d, off', sz' :: nat). c = (d :: nat) \<longrightarrow> off + sz \<le> off' \<or> off' + sz' \<le> (off :: nat))"
  have "sorted_wrt R (map (blk e g) us)" using alloc_ok_disjoint(1) [OF us(3)] by (simp add: R_def)
  then have "R (blk e g t) (blk e g u) \<or> R (blk e g u) (blk e g t)"
    using ik by (cases "i < k") (auto simp: sorted_wrt_iff_nth_less)
  then have apart: "snd (hn_addr (hash_values g t)) + aligned_offset (get_alloc_size e (buffer_id (hash_values g t)) t) (alignment (tallocs g ! talloc g u))
        \<le> snd (hn_addr (hash_values g u)) \<or>
      snd (hn_addr (hash_values g u)) + aligned_offset (get_alloc_size e (buffer_id (hash_values g u)) u) (alignment (tallocs g ! talloc g u))
        \<le> snd (hn_addr (hash_values g t))" if "fst (hn_addr (hash_values g t)) = fst (hn_addr (hash_values g u))"
    unfolding R_def blk_def Let_def True prod.case using that by auto
  have ge: "get_alloc_size e b w \<le> aligned_offset (get_alloc_size e b w) al" for b w al by (rule aligned_offset_ge)
  show ?thesis
    unfolding disjoint_blocks_def Let_def using apart ge by (meson add_left_mono le_trans)
qed (simp add: disjoint_blocks_def)

lemma disjoint_blocks_keeps:
  assumes "keeps B g g'" "t \<in> B" "u \<in> B"
  shows "disjoint_blocks e g' t u = disjoint_blocks e g t u"
  using assms by (simp add: disjoint_blocks_def keeps_def talloc_def Let_def)

lemma nth_in_drop: "j \<le> k \<Longrightarrow> k < length xs \<Longrightarrow> xs ! k \<in> set (drop j xs)"
  by (auto simp: in_set_conv_nth intro!: exI [of _ "k - j"])

lemma needed_in_memory:
  assumes "graph_ok e L N" "inv e N (uses e (drop j N)) (past L N (Suc j)) exc g" "j < length N" "holds_data e L N j u" "u \<notin> exc"
  shows "allocated (hash_values g u)"
proof (cases "u \<in> past L N j \<and> still_needed e N j u")
  case True
  then have past: "u \<in> past L N (Suc j)" by (simp add: past_Suc [OF assms(3)])
  have "u \<in> set (uses e (drop j N)) \<or> open_views e N (uses e (drop j N)) u \<noteq> {} \<or> gt_output (tensor e u)"
  proof (cases "gt_output (tensor e u)")
    case False
    then obtain k p where k: "j \<le> k" "k < length N" "p \<in> set (gt_src (tensor e (N ! k)))" "p = u \<or> gt_view_src (tensor e p) = Some u"
      using True by (auto simp: still_needed_def)
    have "N ! k \<in> set (drop j N)" using k(1,2) by (rule nth_in_drop)
    then have p: "p \<in> set (uses e (drop j N))" using k(3) by (auto simp: uses_def)
    show ?thesis
    proof (cases "p = u")
      case False
      then have v: "gt_view_src (tensor e p) = Some u" using k(4) by simp
      have "p \<in> past L N k" using operands_past [OF assms(1) k(2)] k(3) by blast
      then have "p \<in> set N" using assms(1) v by (auto simp: graph_ok_def past_def dest: in_set_takeD)
      then show ?thesis using v p by (auto simp: open_views_def)
    qed (use p in simp)
  qed simp
  then show ?thesis using assms(2,4,5) past unfolding inv_def holds_data_def by blast
next
  case False
  then show ?thesis using assms(2,4) unfolding inv_def holds_data_def by blast
qed

lemma handed_over_finished:
  assumes "graph_ok e L N" "j < length N" "handed_over e N (uses e (drop j N)) (N ! j) u g"
  shows "\<not> still_needed e N (Suc j) u"
proof
  assume n: "still_needed e N (Suc j) u"
  have h: "u \<in> set (gt_src (tensor e (N ! j)))" "count_list (uses e (drop j N)) u = 1" "open_views e N (uses e (drop j N)) u = {}"
    "\<not> gt_output (tensor e u)" using assms(3) by (simp_all add: handed_over_def)
  then obtain k p where k: "Suc j \<le> k" "k < length N" "p \<in> set (gt_src (tensor e (N ! k)))" "p = u \<or> gt_view_src (tensor e p) = Some u"
    using n by (auto simp: still_needed_def)
  have "N ! k \<in> set (drop (Suc j) N)" using k(1,2) by (rule nth_in_drop)
  then have p: "p \<in> set (uses e (drop (Suc j) N))" using k(3) by (auto simp: uses_def)
  have "0 < count_list (gt_src (tensor e (N ! j))) u" using h(1) by (simp add: count_list_0_iff zero_less_iff_neq_zero)
  then have "u \<notin> set (uses e (drop (Suc j) N))" using h(2) by (simp add: uses_drop [OF assms(2)] count_list_0_iff [symmetric])
  then have v: "gt_view_src (tensor e p) = Some u" using k(4) p by auto
  have "p \<in> past L N k" using operands_past [OF assms(1) k(2)] k(3) by blast
  then have "p \<in> set N" using assms(1) v by (auto simp: graph_ok_def past_def dest: in_set_takeD)
  then show False using h(3) v p by (auto simp: open_views_def uses_drop [OF assms(2)])
qed

lemma gallocr_start:
  assumes "gallocr_ok e g0"
  shows "pre e L N {} [] {} (g0\<lparr>tallocs := map ggml_dyn_tallocr_reset (tallocs g0), hash_values := (\<lambda>_. zero_node)\<rparr>)"
proof -
  have "alloc_ok (ggml_dyn_tallocr_reset (tallocs g0 ! d)) []" if "d < length (tallocs g0)" for d
    using assms nth_mem [OF that] by (auto simp: gallocr_ok_def alloc_ok_def ggml_dyn_tallocr_reset_def)
  then have "mem_ok e (g0\<lparr>tallocs := map ggml_dyn_tallocr_reset (tallocs g0), hash_values := (\<lambda>_. zero_node)\<rparr>)"
    by (auto simp: mem_ok_def in_memory_def zero_node_def)
  then show ?thesis using assms by (auto simp: pre_def gallocr_ok_def sizes_ok_def zero_node_def ggml_dyn_tallocr_reset_def)
qed

lemma reserve_counted:
  assumes "graph_ok e (map fst leafs) (map fst nodes)" "gallocr_ok e g0"
    "\<And>m. m \<in> set leafs \<union> set nodes \<Longrightarrow> talloc_of g0 (snd m) < length (tallocs g0)"
    "place_graph e leafs nodes g0 = Some g"
  obtains g2 where "inv e (map fst nodes) (uses e (drop 0 (map fst nodes))) (past (map fst leafs) (map fst nodes) 0) {} g2"
    "same_tables g0 g2" "run_all (alloc_step e) nodes g2 = Some g"
    "\<And>t. t \<in> fst ` set leafs \<Longrightarrow> own e t \<Longrightarrow> allocated (hash_values g2 t)"
proof -
  define L where "L = map fst leafs"
  define N where "N = map fst nodes"
  define gs where "gs = g0\<lparr>tallocs := map ggml_dyn_tallocr_reset (tallocs g0), hash_values := (\<lambda>_. zero_node)\<rparr>"
  note ok = assms(1) [folded L_def N_def]
  have t0: "same_tables g0 gs" by (simp add: same_tables_def gs_def)
  obtain g1 g2 where g1: "run_all (\<lambda>(leaf, b). ggml_gallocr_allocate_node e leaf b) leafs gs = Some g1"
    and g2: "run_all (count_node e) nodes g1 = Some g2" "run_all (alloc_step e) nodes g2 = Some g"
    using assms(4) by (auto simp: place_graph_def ggml_gallocr_alloc_graph_impl_def gs_def Let_def bind_eq_Some_conv)
  have p0: "pre e L N {} [] {} gs" unfolding gs_def by (rule gallocr_start [OF assms(2)])
  have "pre e L N ({} \<union> fst ` set leafs) [] {} g1 \<and> same_tables gs g1"
    by (rule pre_leafs [OF p0 g1]) (use ok assms(3) t0 in \<open>auto simp: graph_ok_def L_def same_tables_def\<close>)
  then have p1: "pre e L N (set L) [] {} g1" "same_tables gs g1" by (simp_all add: L_def)
  have tab: "same_tables g0 g1" by (rule same_tables_trans [OF t0 p1(2)])
  have "pre e L N (set L \<union> {t \<in> fst ` set nodes. gt_input (tensor e t)}) ([] @ uses e (map fst nodes)) ({} \<union> fst ` set nodes) g2 \<and> same_tables g1 g2"
    by (rule pre_count_nodes [OF ok g2(1) p1(1)]) (use ok assms(3) tab in \<open>auto simp: graph_ok_def N_def same_tables_def\<close>)
  then have p2: "pre e L N (set L \<union> inputs e N) (uses e N) (set N) g2" "same_tables g1 g2" by (simp_all add: inputs_def N_def)
  show ?thesis
    by (rule that [OF pre_inv [OF p2(1), unfolded L_def N_def] same_tables_trans [OF tab p2(2)] g2(2)])
      (use p2(1) in \<open>auto simp: pre_def L_def\<close>)
qed

text \<open>The states around the placement of node \<open>j\<close>.\<close>

lemma reserve_at_node:
  assumes "graph_ok e (map fst leafs) (map fst nodes)" "gallocr_ok e g0"
    "\<And>m. m \<in> set leafs \<union> set nodes \<Longrightarrow> talloc_of g0 (snd m) < length (tallocs g0)"
    "place_graph e leafs nodes g0 = Some g" "j < length nodes" "L = map fst leafs" "N = map fst nodes"
  obtains gp exc where "inv e N (uses e (drop j N)) (past L N (Suc j)) exc gp" "own e (N ! j) \<longrightarrow> allocated (hash_values gp (N ! j))"
    "exc = {} \<or> (\<exists>p. exc = {p} \<and> handed_over e N (uses e (drop j N)) (N ! j) p gp)" "keeps (past L N (Suc j) \<union> inputs e N) gp g"
    "Option.bind (release_node e (nodes ! j) gp) (run_all (alloc_step e) (drop (Suc j) nodes)) = Some g"
proof -
  note ok = assms(1) [folded assms(6,7)]
  obtain g2 where g2: "inv e N (uses e (drop 0 N)) (past L N 0) {} g2" "same_tables g0 g2" "run_all (alloc_step e) nodes g2 = Some g"
    unfolding assms(6,7) by (rule reserve_counted [OF assms(1-4)])
  have tal: "talloc_of g2 (snd m) < length (tallocs g2)" if "m \<in> set nodes" for m
    using assms(3) [of m] that g2(2) by (simp add: same_tables_def)
  have "run_all (alloc_step e) (take j nodes @ nodes ! j # drop (Suc j) nodes) g2 = Some g"
    using g2(3) id_take_nth_drop [OF assms(5)] by simp
  then obtain ga gb where ga: "run_all (alloc_step e) (take j nodes) g2 = Some ga" "alloc_step e (nodes ! j) ga = Some gb"
    "run_all (alloc_step e) (drop (Suc j) nodes) gb = Some g"
    by (auto simp: run_all_append bind_eq_Some_conv)
  obtain b where nj: "nodes ! j = (N ! j, b)" using assms(5,7) by (cases "nodes ! j") simp
  have jN: "j < length N" using assms(5,7) by simp
  have first: "map fst (take j nodes) = take (length (take j nodes)) (drop 0 N)" "0 + length (take j nodes) \<le> length N"
    using assms(5,7) by (simp_all add: take_map)
  from alloc_steps_inv [OF ok ga(1) first g2(1) tal] in_set_takeD
  have ia: "inv e N (uses e (drop j N)) (past L N j) {} ga" and ka: "keeps (past L N 0 \<union> inputs e N) g2 ga"
    using assms(5) by (force, force)
  have tala: "talloc_of ga (snd m) < length (tallocs ga)" if "m \<in> set nodes" for m
    using tal [OF that] ka keeps_length [OF ka] by (simp add: keeps_def)
  have ba: "talloc_of ga b < length (tallocs ga)" using tala [OF nth_mem [OF assms(5)]] by (simp add: nj)
  obtain gp where gp: "place_node e (N ! j, b) ga = Some gp" "release_node e (N ! j, b) gp = Some gb"
    using ga(2) by (auto simp: alloc_step_def bind_eq_Some_conv nj)
  from place_node_inv [OF ok jN ia ba gp(1)] obtain exc where exc: "inv e N (uses e (drop j N)) (past L N (Suc j)) exc gp"
    "keeps (past L N j \<union> inputs e N) ga gp" "own e (N ! j) \<longrightarrow> allocated (hash_values gp (N ! j))"
    "exc = {} \<or> (\<exists>p. exc = {p} \<and> handed_over e N (uses e (drop j N)) (N ! j) p gp)" by blast
  from release_after_node [OF ok jN exc(1,4) gp(2)]
  have ib: "inv e N (uses e (drop (Suc j) N)) (past L N (Suc j)) {} gb" and pb: "same_place gp gb" by simp_all
  have kb: "keeps (past L N j \<union> inputs e N) ga gb" by (rule keeps_trans [OF exc(2) same_place_keeps [OF pb] subset_refl])
  have talb: "talloc_of gb (snd m) < length (tallocs gb)" if "m \<in> set (drop (Suc j) nodes)" for m
    using tala [OF in_set_dropD [OF that]] kb keeps_length [OF kb] by (simp add: keeps_def)
  have rest: "map fst (drop (Suc j) nodes) = take (length (drop (Suc j) nodes)) (drop (Suc j) N)" "Suc j + length (drop (Suc j) nodes) \<le> length N"
    using assms(5,7) by (simp_all add: drop_map)
  from alloc_steps_inv [OF ok ga(3) rest ib talb] have kc: "keeps (past L N (Suc j) \<union> inputs e N) gb g" by blast
  have "keeps (past L N (Suc j) \<union> inputs e N) gp g" by (rule keeps_trans [OF same_place_keeps [OF pb] kc subset_refl])
  moreover have "Option.bind (release_node e (nodes ! j) gp) (run_all (alloc_step e) (drop (Suc j) nodes)) = Some g"
    using gp(2) ga(3) by (simp add: nj)
  ultimately show ?thesis using that exc by blast
qed

text \<open>C7: 
  C0: When a graph is placed, the memory of the tensor that a node computes is disjoint from the memory of
  every tensor that then holds data - except that of an operand it was handed, which is at the same address and is not
  read any more after the node.
\<close>

theorem graph_memory_is_safe:
  assumes "graph_ok e (map fst leafs) (map fst nodes)" "gallocr_ok e g0"
    "\<And>m. m \<in> set leafs \<union> set nodes \<Longrightarrow> talloc_of g0 (snd m) < length (tallocs g0)"
    "place_graph e leafs nodes g0 = Some g" "j < length nodes" "v = fst (nodes ! j)" "own e v"
    "holds_data e (map fst leafs) (map fst nodes) j u"
  shows "disjoint_blocks e g v u \<or>
    (u \<in> set (gt_src (tensor e v)) \<and> hn_addr (hash_values g v) = hn_addr (hash_values g u) \<and> talloc g v = talloc g u \<and>
     \<not> still_needed e (map fst nodes) (Suc j) u)"
proof -
  define L where "L = map fst leafs"
  define N where "N = map fst nodes"
  note ok = assms(1) [folded L_def N_def]
  have jN: "j < length N" and v: "v = N ! j" using assms(5,6) by (simp_all add: N_def)
  obtain gp exc where gp: "inv e N (uses e (drop j N)) (past L N (Suc j)) exc gp" "own e (N ! j) \<longrightarrow> allocated (hash_values gp (N ! j))"
    "exc = {} \<or> (\<exists>p. exc = {p} \<and> handed_over e N (uses e (drop j N)) (N ! j) p gp)" and k: "keeps (past L N (Suc j) \<union> inputs e N) gp g"
    by (rule reserve_at_node [OF assms(1-5) L_def N_def])
  have vp: "v \<in> past L N (Suc j) \<union> inputs e N" and up: "u \<in> past L N (Suc j) \<union> inputs e N"
    using assms(8) by (auto simp: v past_Suc [OF jN] holds_data_def L_def [symmetric] N_def [symmetric])
  have ne: "v \<noteq> u"
    using assms(8) node_not_past [OF ok jN] by (auto simp: v past_Suc [OF jN] holds_data_def L_def [symmetric] N_def [symmetric])
  show ?thesis
  proof (cases "u \<in> exc")
    case False
    then have "allocated (hash_values gp u)" using needed_in_memory [OF ok gp(1) jN] assms(8) by (simp add: L_def N_def)
    moreover have "allocated (hash_values gp v)" "mem_ok e gp" using gp(1,2) assms(7) by (simp_all add: v inv_def)
    ultimately have "disjoint_blocks e gp v u" using mem_ok_disjoint [OF _ _ _ ne] by blast
    then show ?thesis using disjoint_blocks_keeps [OF k vp up] by simp
  next
    case True
    then have h: "handed_over e N (uses e (drop j N)) (N ! j) u gp" using gp(3) by auto
    then have "hn_addr (hash_values g v) = hn_addr (hash_values g u) \<and> talloc g v = talloc g u"
      using k vp up by (simp add: handed_over_def keeps_def talloc_def v)
    moreover have "u \<in> set (gt_src (tensor e v))" using h by (simp add: handed_over_def v)
    ultimately show ?thesis using handed_over_finished [OF ok jN h] by (simp add: N_def)
  qed
qed

section \<open>A run\<close>

text \<open>Node 2 is computed in the memory of node 1; the leaf 0 is read until the end, and 3 is the output.\<close>

definition plain :: graph_tensor where
  "plain = \<lparr>gt_op = GGML_OP_NONE, gt_view_src = None, gt_src = [], gt_data = False, gt_buffer = False, gt_input = False, gt_output = False\<rparr>"

definition run_env :: graph_env where
  "run_env = \<lparr>tensor = (\<lambda>t. if t = 1 then plain\<lparr>gt_op := other_op 0, gt_src := [0]\<rparr>
       else if t = 2 then plain\<lparr>gt_op := GGML_OP_ADD, gt_src := [1, 0]\<rparr>
       else if t = 3 then plain\<lparr>gt_op := other_op 0, gt_src := [2, 0], gt_output := True\<rparr> else plain),
     get_alloc_size = (\<lambda>b t. 60), same_layout = (\<lambda>t u. True), same_data = (\<lambda>t u. False)\<rparr>"

definition run_gallocr :: ggml_gallocr where
  "run_gallocr = \<lparr>tallocs = [\<lparr>alignment = 32, max_chunk_size = 1024, chunks = []\<rparr>], talloc_of = (\<lambda>b. 0), hash_values = (\<lambda>_. zero_node)\<rparr>"

lemmas tallocr_run = ggml_dyn_tallocr_alloc_def ggml_dyn_tallocr_free_bytes_def find_block_def best_fit_def fit_in_chunk_def last_fit_def
    last_step_def ggml_dyn_tallocr_new_chunk_def take_block_def size_sub_def SIZE_MAX_def GGML_VBUFFER_MAX_CHUNKS_def
    aligned_offset_def free_in_blocks_def ggml_dyn_tallocr_insert_block_def ggml_dyn_tallocr_remove_block_def MAX_FREE_BLOCKS_def
    touches_def ggml_dyn_tallocr_new_def ggml_dyn_tallocr_reset_def upt_rec

lemmas gallocr_run = place_graph_def ggml_gallocr_alloc_graph_impl_def count_node_def count_src_def alloc_step_def place_node_def
    release_node_def release_parent_def ggml_gallocr_allocate_node_def ggml_gallocr_free_node_def alloc_new_def take_over_def can_reuse_def
    ggml_gallocr_free_extra_space_def ggml_gallocr_is_own_def ggml_gallocr_is_allocated_def ggml_is_view_def buf_talloc_def set_talloc_def
    upd_hash_def zero_node_def plain_def

lemma run_result:
  "map_option (\<lambda>g. map (\<lambda>t. hn_addr (hash_values g t)) [0, 1, 2, 3])
     (place_graph run_env [(0, 0)] [(1, 0), (2, 0), (3, 0)] run_gallocr) = Some [(0, 0), (0, 64), (0, 64), (0, 128)]"
  by (simp add: gallocr_run tallocr_run run_env_def run_gallocr_def Let_def)

lemma run_graph_ok: "graph_ok run_env [0] [1, 2, 3]"
  by (auto simp: graph_ok_def run_env_def plain_def less_Suc_eq numeral_eq_Suc)

lemma run_gallocr_ok: "gallocr_ok run_env run_gallocr"
  by (simp add: gallocr_ok_def sizes_ok_def run_env_def run_gallocr_def aligned_offset_def SIZE_MAX_def)

lemma graph_memory_is_safe_witness:
  "\<exists>g. place_graph run_env [(0, 0)] [(1, 0), (2, 0), (3, 0)] run_gallocr = Some g \<and>
     (disjoint_blocks run_env g 2 0 \<or> (hn_addr (hash_values g 2) = hn_addr (hash_values g 0) \<and> \<not> still_needed run_env [1, 2, 3] 2 0)) \<and>
     (disjoint_blocks run_env g 2 1 \<or> (hn_addr (hash_values g 2) = hn_addr (hash_values g 1) \<and> \<not> still_needed run_env [1, 2, 3] 2 1)) \<and>
     hn_addr (hash_values g 2) = (0, 64) \<and> hn_addr (hash_values g 1) = (0, 64)"
proof -
  obtain g where g: "place_graph run_env [(0, 0)] [(1, 0), (2, 0), (3, 0)] run_gallocr = Some g"
    "hn_addr (hash_values g 2) = (0, 64)" "hn_addr (hash_values g 1) = (0, 64)"
    using run_result by auto
  have tal: "talloc_of run_gallocr (snd m) < length (tallocs run_gallocr)" for m :: "nat \<times> nat" by (simp add: run_gallocr_def)
  have ops: "gt_src (tensor run_env 3) = [2, 0]" "gt_src (tensor run_env 2) = [1, 0]" "own run_env u" for u
    by (simp_all add: run_env_def plain_def own_def)
  have needed: "still_needed run_env [1, 2, 3] 1 0" "still_needed run_env [1, 2, 3] 1 1"
    unfolding still_needed_def by (intro disjI2 exI [of _ 1]; simp add: ops)+
  have data: "holds_data run_env (map fst [(0, 0 :: nat)]) (map fst [(1, 0 :: nat), (2, 0), (3, 0)]) 1 u" if "u = 0 \<or> u = 1" for u
    using needed that by (auto simp: holds_data_def past_def ops(3))
  note safe = graph_memory_is_safe [where leafs = "[(0, 0)]" and nodes = "[(1, 0), (2, 0), (3, 0)]", OF _ run_gallocr_ok tal g(1), of 1 2]
  have "disjoint_blocks run_env g 2 u \<or> (hn_addr (hash_values g 2) = hn_addr (hash_values g u) \<and> \<not> still_needed run_env [1, 2, 3] 2 u)"
    if "u = 0 \<or> u = 1" for u
    using safe [of u] run_graph_ok data [OF that] ops(3) by (auto simp: numeral_2_eq_2)
  from this [of 0] this [of 1] show ?thesis using g by (intro exI [of _ g]) simp
qed

text \<open>
  An output that is a view is not protected: when the view 2 of node 1 has been read, the memory of node 1 is freed,
  and node 4 is computed in it.
\<close>

definition view_env :: graph_env where
  "view_env = \<lparr>tensor = (\<lambda>t. if t = 1 then plain\<lparr>gt_op := other_op 0, gt_src := [0]\<rparr>
       else if t = 2 then plain\<lparr>gt_op := other_op 1, gt_view_src := Some 1, gt_src := [1], gt_output := True\<rparr>
       else if t = 3 then plain\<lparr>gt_op := other_op 0, gt_src := [2]\<rparr>
       else if t = 4 then plain\<lparr>gt_op := other_op 0, gt_src := [3], gt_output := True\<rparr> else plain),
     get_alloc_size = (\<lambda>b t. 60), same_layout = (\<lambda>t u. True), same_data = (\<lambda>t u. True)\<rparr>"

theorem output_view_overwritten:
  "gt_output (tensor view_env 2) \<and> gt_view_src (tensor view_env 2) = Some 1 \<and>
   map_option (\<lambda>g. map (\<lambda>t. hn_addr (hash_values g t)) [1, 3, 4])
     (place_graph view_env [(0, 0)] [(1, 0), (2, 0), (3, 0), (4, 0)] run_gallocr) = Some [(0, 64), (0, 0), (0, 64)]"
  by (simp add: gallocr_run tallocr_run view_env_def run_gallocr_def Let_def)

text \<open>
  A view without operation is not counted as a view, but counted down when it has been read: the memory of node 1 is
  freed after node 3, and node 4 is computed in it although node 6 reads node 1 through its view 2.
\<close>

definition leaf_view_env :: graph_env where
  "leaf_view_env = \<lparr>tensor = (\<lambda>t. if t = 1 then plain\<lparr>gt_op := other_op 0, gt_src := [0]\<rparr>
       else if t = 2 then plain\<lparr>gt_op := other_op 1, gt_view_src := Some 1, gt_src := [1]\<rparr>
       else if t = 3 then plain\<lparr>gt_op := other_op 0, gt_src := [5]\<rparr>
       else if t = 4 then plain\<lparr>gt_op := other_op 0, gt_src := [3]\<rparr>
       else if t = 5 then plain\<lparr>gt_view_src := Some 1\<rparr>
       else if t = 6 then plain\<lparr>gt_op := other_op 0, gt_src := [2, 4], gt_output := True\<rparr> else plain),
     get_alloc_size = (\<lambda>b t. 60), same_layout = (\<lambda>t u. True), same_data = (\<lambda>t u. True)\<rparr>"

theorem uncounted_view_frees_early:
  "2 \<in> set (gt_src (tensor leaf_view_env 6)) \<and> gt_view_src (tensor leaf_view_env 2) = Some 1 \<and>
   map_option (\<lambda>g. map (\<lambda>t. hn_addr (hash_values g t)) [1, 4])
     (place_graph leaf_view_env [(0, 0), (5, 0)] [(1, 0), (2, 0), (3, 0), (4, 0), (6, 0)] run_gallocr) = Some [(0, 64), (0, 64)]"
  by (simp add: gallocr_run tallocr_run leaf_view_env_def run_gallocr_def Let_def)

end
