(* ===== verification/Hash_Set.thy ===== *)
theory Hash_Set
  imports Prelude
begin

text \<open>
  The hash set of tensors (\<open>ggml-impl.h\<close>, \<open>ggml.c\<close>): open addressing with linear probing, a bit set of used
  slots, and no removal of single keys.  Arrays that are indexed by the slots are maps from the keys.

  Pointers are their addresses.  \<open>GGML_HASHSET_FULL\<close> and a failed insertion are \<open>None\<close>.
\<close>

section \<open>Bit sets\<close>

definition BITSET_SHR :: nat where "BITSET_SHR = 5"

definition BITSET_MASK :: nat where "BITSET_MASK = 31"

definition ggml_bitset_size :: "nat \<Rightarrow> nat" where
  "ggml_bitset_size n = drop_bit BITSET_SHR (n + BITSET_MASK)"

definition ggml_bitset_get :: "u32 list \<Rightarrow> nat \<Rightarrow> bool" where
  "ggml_bitset_get bs i \<longleftrightarrow> bs ! drop_bit BITSET_SHR i AND push_bit (i AND BITSET_MASK) 1 \<noteq> 0"

definition ggml_bitset_set :: "u32 list \<Rightarrow> nat \<Rightarrow> u32 list" where
  "ggml_bitset_set bs i = bs[drop_bit BITSET_SHR i := bs ! drop_bit BITSET_SHR i OR push_bit (i AND BITSET_MASK) 1]"

definition ggml_bitset_clear :: "u32 list \<Rightarrow> nat \<Rightarrow> u32 list" where
  "ggml_bitset_clear bs i = bs[drop_bit BITSET_SHR i := bs ! drop_bit BITSET_SHR i AND NOT (push_bit (i AND BITSET_MASK) 1)]"

lemma bitset_index: "drop_bit BITSET_SHR i = i div 32" "i AND BITSET_MASK = i mod 32"
proof -
  show "drop_bit BITSET_SHR i = i div 32" by (simp add: BITSET_SHR_def drop_bit_eq_div)
  have "BITSET_MASK = mask 5" by (simp add: BITSET_MASK_def mask_eq_exp_minus_1)
  then show "i AND BITSET_MASK = i mod 32" using take_bit_eq_mask [of 5 i] by (simp add: take_bit_eq_mod)
qed

lemma bitset_get_bit: "ggml_bitset_get bs i \<longleftrightarrow> bit (bs ! (i div 32)) (i mod 32)"
  unfolding ggml_bitset_get_def bitset_index by (simp only: bit_iff_and_push_bit_not_eq_0)

lemma bit_of_mask: "bit (push_bit (i mod 32) 1 :: u32) (j mod 32) \<longleftrightarrow> j mod 32 = i mod 32"
  by (auto simp: bit_exp_iff)

lemma bitset_words: "i < n \<Longrightarrow> length bs = ggml_bitset_size n \<Longrightarrow> i div 32 < length bs"
  unfolding ggml_bitset_size_def bitset_index(1) BITSET_MASK_def by simp

lemma bitset_get_set:
  assumes "i < n" "length bs = ggml_bitset_size n"
  shows "ggml_bitset_get (ggml_bitset_set bs i) j \<longleftrightarrow> j = i \<or> ggml_bitset_get bs j"
proof -
  have "j = i \<longleftrightarrow> j div 32 = i div 32 \<and> j mod 32 = i mod 32" by (metis div_mult_mod_eq)
  then show ?thesis
    using bitset_words [OF assms] unfolding bitset_get_bit ggml_bitset_set_def bitset_index
    by (cases "j div 32 = i div 32") (simp_all add: bit_or_iff bit_of_mask del: push_bit_of_1, blast?)
qed

lemma bitset_get_clear:
  assumes "i < n" "length bs = ggml_bitset_size n"
  shows "ggml_bitset_get (ggml_bitset_clear bs i) j \<longleftrightarrow> j \<noteq> i \<and> ggml_bitset_get bs j"
proof -
  have "j = i \<longleftrightarrow> j div 32 = i div 32 \<and> j mod 32 = i mod 32" by (metis div_mult_mod_eq)
  then show ?thesis
    using bitset_words [OF assms] unfolding bitset_get_bit ggml_bitset_clear_def bitset_index
    by (cases "j div 32 = i div 32") (simp_all add: bit_and_iff bit_not_iff bit_of_mask del: push_bit_of_1, blast?)
qed

lemma bitset_none: "i < n \<Longrightarrow> \<not> ggml_bitset_get (replicate (ggml_bitset_size n) 0) i"
  using bitset_words [of i n "replicate (ggml_bitset_size n) 0"] by (simp add: bitset_get_bit)

lemma length_bitset_set [simp]: "length (ggml_bitset_set bs i) = length bs"
  by (simp add: ggml_bitset_set_def)

section \<open>The hash set\<close>

record ggml_hash_set =
  hs_size :: nat
  used :: "u32 list"
  keys :: "nat list"

definition ggml_hash :: "nat \<Rightarrow> nat" where
  "ggml_hash p = drop_bit 4 p"

text \<open>The loop of linear probing: the first slot, from \<open>i\<close> on and until \<open>h\<close> is met again, at which it stops.\<close>

function probe :: "(nat \<Rightarrow> bool) \<Rightarrow> nat \<Rightarrow> nat \<Rightarrow> nat \<Rightarrow> nat option" where
  "probe stop sz h i =
    (if h < sz \<and> i < sz
     then if stop i then Some i else let i' = (i + 1) mod sz in if i' = h then None else probe stop sz h i'
     else None)"
  by auto
termination
proof (relation "measure (\<lambda>(stop, sz, h, i). if h \<le> i then sz - i + h else h - i)", simp)
  fix stop :: "nat \<Rightarrow> bool" and sz h i x :: nat
  assume a: "h < sz \<and> i < sz" "x = (i + 1) mod sz" "x \<noteq> h"
  then show "((stop, sz, h, x), stop, sz, h, i) \<in> measure (\<lambda>(stop, sz, h, i). if h \<le> i then sz - i + h else h - i)"
    by (cases "i + 1 = sz") (auto simp: Suc_leI)
qed

declare probe.simps [simp del]

definition is_used :: "ggml_hash_set \<Rightarrow> nat \<Rightarrow> bool" where
  "is_used s i \<longleftrightarrow> ggml_bitset_get (used s) i"

definition ggml_hash_find :: "ggml_hash_set \<Rightarrow> nat \<Rightarrow> nat option" where
  "ggml_hash_find s key =
    (let h = ggml_hash key mod hs_size s in probe (\<lambda>i. \<not> (is_used s i \<and> keys s ! i \<noteq> key)) (hs_size s) h h)"

definition ggml_hash_contains :: "ggml_hash_set \<Rightarrow> nat \<Rightarrow> bool" where
  "ggml_hash_contains s key \<longleftrightarrow> (case ggml_hash_find s key of None \<Rightarrow> False | Some i \<Rightarrow> is_used s i)"

definition put :: "nat \<Rightarrow> nat \<Rightarrow> ggml_hash_set \<Rightarrow> ggml_hash_set" where
  "put i key s = s\<lparr>used := ggml_bitset_set (used s) i, keys := (keys s)[i := key]\<rparr>"

datatype hash_insertion = Inserted nat | GGML_HASHSET_ALREADY_EXISTS

definition ggml_hash_insert :: "ggml_hash_set \<Rightarrow> nat \<Rightarrow> (ggml_hash_set \<times> hash_insertion) option" where
  "ggml_hash_insert s key =
    (let h = ggml_hash key mod hs_size s
     in map_option (\<lambda>i. if \<not> is_used s i then (put i key s, Inserted i) else (s, GGML_HASHSET_ALREADY_EXISTS))
          (probe (\<lambda>i. \<not> is_used s i \<or> keys s ! i = key) (hs_size s) h h))"

definition ggml_hash_find_or_insert :: "ggml_hash_set \<Rightarrow> nat \<Rightarrow> (ggml_hash_set \<times> nat) option" where
  "ggml_hash_find_or_insert s key =
    (let h = ggml_hash key mod hs_size s
     in map_option (\<lambda>i. if \<not> is_used s i then (put i key s, i) else (s, i))
          (probe (\<lambda>i. \<not> is_used s i \<or> keys s ! i = key) (hs_size s) h h))"

section \<open>The size of a table\<close>

definition primes :: "nat list" where
  "primes = [2, 3, 5, 11, 17, 37, 67, 131, 257, 521, 1031, 2053, 4099, 8209, 16411, 32771, 65537, 131101, 262147, 524309,
     1048583, 2097169, 4194319, 8388617, 16777259, 33554467, 67108879, 134217757, 268435459, 536870923, 1073741827, 2147483659]"

function prime_search :: "nat \<Rightarrow> nat \<Rightarrow> nat \<Rightarrow> nat" where
  "prime_search min_sz l r =
    (if l < r then let m = (l + r) div 2 in if primes ! m < min_sz then prime_search min_sz (m + 1) r else prime_search min_sz l m
     else l)"
  by auto
termination by (relation "measure (\<lambda>(min_sz, l, r). r - l)") auto

declare prime_search.simps [simp del]

definition ggml_hash_size :: "nat \<Rightarrow> nat" where
  "ggml_hash_size min_sz =
    (let n_primes = length primes; l = prime_search min_sz 0 n_primes in if l < n_primes then primes ! l else min_sz OR 1)"

text \<open>The array of keys is not initialised; the argument is what it holds.\<close>

definition ggml_hash_set_new :: "nat list \<Rightarrow> nat \<Rightarrow> ggml_hash_set" where
  "ggml_hash_set_new garbage n =
    (let sz = ggml_hash_size n in \<lparr>hs_size = sz, used = replicate (ggml_bitset_size sz) 0, keys = garbage\<rparr>)"

definition ggml_hash_set_reset :: "ggml_hash_set \<Rightarrow> ggml_hash_set" where
  "ggml_hash_set_reset s = s\<lparr>used := replicate (ggml_bitset_size (hs_size s)) 0\<rparr>"

section \<open>Probing\<close>

lemma next_slot: "0 < sz \<Longrightarrow> ((h + d) mod sz + 1) mod sz = (h + Suc d) mod (sz :: nat)"
  by (simp add: mod_simps)

lemma slot_inj:
  assumes "(h + d) mod sz = (h + d') mod sz" "d < sz" "d' < (sz :: nat)"
  shows "d = d'"
proof -
  have "d mod sz = d' mod sz" using assms(1) by (simp add: nat_mod_eq_iff)
  then show ?thesis using assms(2,3) by simp
qed

lemma slot_onto: "h < sz \<Longrightarrow> i < sz \<Longrightarrow> \<exists>d < sz. i = (h + d) mod (sz :: nat)"
proof -
  assume a: "h < sz" "i < sz"
  have "i = (h + (i + sz - h) mod sz) mod sz" using a by (simp add: mod_simps)
  then show ?thesis using a by (intro exI [of _ "(i + sz - h) mod sz"]) simp
qed

text \<open>The loop stops at the nearest slot.\<close>

lemma probe_from:
  assumes "h < sz" "d < sz"
  shows "probe stop sz h ((h + d) mod sz) = map_option (\<lambda>d. (h + d) mod sz) (find (\<lambda>d. stop ((h + d) mod sz)) [d..<sz])"
  using assms(2)
proof (induction "sz - d" arbitrary: d)
  case (Suc n)
  show ?case
  proof (cases "Suc d < sz")
    case True
    have "((h + d) mod sz + 1) mod sz \<noteq> h"
      using slot_inj [of h "Suc d" sz 0] True assms(1) next_slot [of sz h d] by auto
    then show ?thesis
      using Suc.hyps(1) [of "Suc d"] Suc.hyps(2) Suc.prems True assms(1) next_slot [of sz h d]
      by (subst probe.simps) (simp add: upt_conv_Cons Let_def)
  next
    case False
    then have last: "sz = Suc d" using Suc.prems by simp
    have "((h + d) mod sz + 1) mod sz = (h + sz) mod sz" using next_slot [of sz h d] last by simp
    then have "((h + d) mod sz + 1) mod sz = h" using assms(1) by simp
    then show ?thesis using assms(1) Suc.prems last by (subst probe.simps) (simp add: Let_def)
  qed
qed simp

lemma probe_Some:
  assumes "h < sz" "probe stop sz h h = Some i"
  shows "\<exists>d < sz. i = (h + d) mod sz \<and> stop i \<and> (\<forall>d' < d. \<not> stop ((h + d') mod sz))"
proof -
  obtain d where d: "find (\<lambda>d. stop ((h + d) mod sz)) [0..<sz] = Some d" "i = (h + d) mod sz"
    using assms probe_from [of h sz 0 stop] by (auto simp: map_option_case split: option.splits)
  then obtain k where "k < length [0..<sz]" "stop ((h + [0..<sz] ! k) mod sz)" "d = [0..<sz] ! k" "\<forall>j < k. \<not> stop ((h + [0..<sz] ! j) mod sz)"
    unfolding find_Some_iff by blast
  then show ?thesis using d(2) by (intro exI [of _ d]) simp
qed

lemma probe_None: "h < sz \<Longrightarrow> probe stop sz h h = None \<longleftrightarrow> (\<forall>i < sz. \<not> stop i)"
proof -
  assume h: "h < sz"
  have "probe stop sz h h = None \<longleftrightarrow> (\<forall>d < sz. \<not> stop ((h + d) mod sz))"
    using h probe_from [of h sz 0 stop] by (auto simp: find_None_iff)
  also have "\<dots> \<longleftrightarrow> (\<forall>i < sz. \<not> stop i)" using slot_onto [OF h] h by (metis mod_less_divisor not_less0 not_gr_zero)
  finally show ?thesis .
qed

section \<open>The invariant\<close>

definition home :: "ggml_hash_set \<Rightarrow> nat \<Rightarrow> nat" where
  "home s k = ggml_hash k mod hs_size s"

text \<open>Between the home of a key and its slot all slots are used by other keys.\<close>

definition reached :: "ggml_hash_set \<Rightarrow> nat \<Rightarrow> nat \<Rightarrow> bool" where
  "reached s k i \<longleftrightarrow> (\<exists>d < hs_size s. i = (home s k + d) mod hs_size s \<and>
    (\<forall>d' < d. is_used s ((home s k + d') mod hs_size s) \<and> keys s ! ((home s k + d') mod hs_size s) \<noteq> k))"

definition hash_ok :: "ggml_hash_set \<Rightarrow> bool" where
  "hash_ok s \<longleftrightarrow> 0 < hs_size s \<and> length (used s) = ggml_bitset_size (hs_size s) \<and> length (keys s) = hs_size s \<and>
    (\<forall>i < hs_size s. is_used s i \<longrightarrow> reached s (keys s ! i) i)"

definition members :: "ggml_hash_set \<Rightarrow> nat set" where
  "members s = {keys s ! i | i. i < hs_size s \<and> is_used s i}"

lemma home_less: "hash_ok s \<Longrightarrow> home s k < hs_size s"
  by (simp add: hash_ok_def home_def)

lemma finite_members [simp]: "finite (members s)"
  by (simp add: members_def)

lemma card_members: "card (members s) \<le> hs_size s"
proof -
  have "members s \<subseteq> (\<lambda>i. keys s ! i) ` {..<hs_size s}" by (auto simp: members_def)
  from card_mono [OF _ this] card_image_le [of "{..<hs_size s}" "\<lambda>i. keys s ! i"] show ?thesis by simp
qed

lemma one_slot:
  assumes "hash_ok s" "i < hs_size s" "is_used s i" "j < hs_size s" "is_used s j" "keys s ! i = keys s ! j"
  shows "i = j"
proof -
  define k where "k = keys s ! i"
  have all: "reached s (keys s ! x) x" if "x < hs_size s" "is_used s x" for x using assms(1) that by (simp add: hash_ok_def)
  have r1: "reached s k i" unfolding k_def by (rule all [OF assms(2,3)])
  have r2: "reached s k j" unfolding k_def assms(6) by (rule all [OF assms(4,5)])
  obtain d where d: "i = (home s k + d) mod hs_size s"
    "\<forall>d' < d. keys s ! ((home s k + d') mod hs_size s) \<noteq> k" using r1 unfolding reached_def by blast
  obtain d' where d': "j = (home s k + d') mod hs_size s"
    "\<forall>d < d'. keys s ! ((home s k + d) mod hs_size s) \<noteq> k" using r2 unfolding reached_def by blast
  have ki: "keys s ! i = k" and kj: "keys s ! j = k" unfolding k_def assms(6) by (rule refl)+
  have "\<not> d < d'" using d(1) d'(2) ki by blast
  moreover have "\<not> d' < d" using d'(1) d(2) kj by blast
  ultimately show ?thesis using d(1) d'(1) by simp
qed

lemma used_all_members:
  assumes "hash_ok s" "\<forall>i < hs_size s. is_used s i"
  shows "card (members s) = hs_size s"
proof -
  have "members s = (\<lambda>i. keys s ! i) ` {..<hs_size s}" using assms(2) by (auto simp: members_def)
  moreover have "inj_on (\<lambda>i. keys s ! i) {..<hs_size s}" using one_slot [OF assms(1)] assms(2) by (auto simp: inj_on_def)
  ultimately show ?thesis by (simp add: card_image)
qed

text \<open>Both loops look for the slot of a key, or else for a free one.\<close>

definition stops :: "ggml_hash_set \<Rightarrow> nat \<Rightarrow> nat \<Rightarrow> bool" where
  "stops s k i \<longleftrightarrow> \<not> is_used s i \<or> keys s ! i = k"

lemma find_stops: "ggml_hash_find s k = probe (stops s k) (hs_size s) (home s k) (home s k)"
proof -
  have "(\<lambda>i. \<not> (is_used s i \<and> keys s ! i \<noteq> k)) = stops s k" by (auto simp: stops_def fun_eq_iff)
  then show ?thesis by (simp add: ggml_hash_find_def home_def Let_def)
qed

lemma find_Some:
  assumes "hash_ok s" "ggml_hash_find s k = Some i"
  shows "i < hs_size s \<and> reached s k i \<and> (is_used s i \<longleftrightarrow> k \<in> members s) \<and> (is_used s i \<longrightarrow> keys s ! i = k)"
proof -
  obtain d where d: "d < hs_size s" "i = (home s k + d) mod hs_size s" "stops s k i"
    "\<forall>d' < d. \<not> stops s k ((home s k + d') mod hs_size s)"
    using probe_Some [OF home_less [OF assms(1)] assms(2) [unfolded find_stops]] by blast
  have i: "i < hs_size s" using d(1,2) by simp
  have r: "reached s k i" using d(1,2,4) unfolding reached_def stops_def by blast
  have "is_used s i" if k: "k \<in> members s"
  proof -
    obtain j where j: "j < hs_size s" "is_used s j" "keys s ! j = k" using k by (auto simp: members_def)
    then have "reached s k j" using assms(1) by (auto simp: hash_ok_def)
    then obtain c where c: "j = (home s k + c) mod hs_size s"
      "\<forall>d' < c. is_used s ((home s k + d') mod hs_size s) \<and> keys s ! ((home s k + d') mod hs_size s) \<noteq> k"
      unfolding reached_def by blast
    have "\<not> c < d" using d(4) c(1) j(2,3) by (auto simp: stops_def)
    then show ?thesis using c j(2) d(2) by (cases "c = d") auto
  qed
  then show ?thesis using i r d(3) by (auto simp: stops_def members_def)
qed

lemma find_None: "hash_ok s \<Longrightarrow> ggml_hash_find s k = None \<longleftrightarrow> k \<notin> members s \<and> card (members s) = hs_size s"
proof -
  assume ok: "hash_ok s"
  have none: "ggml_hash_find s k = None \<longleftrightarrow> (\<forall>i < hs_size s. is_used s i) \<and> k \<notin> members s"
    unfolding find_stops probe_None [OF home_less [OF ok]] by (auto simp: stops_def members_def)
  have "\<forall>i < hs_size s. is_used s i" if c: "card (members s) = hs_size s"
  proof (rule ccontr)
    assume "\<not> (\<forall>i < hs_size s. is_used s i)"
    then obtain i where i: "i < hs_size s" "\<not> is_used s i" by blast
    have "members s \<subseteq> (\<lambda>i. keys s ! i) ` ({..<hs_size s} - {i})" using i by (auto simp: members_def)
    from card_mono [OF _ this] have "card (members s) \<le> card ({..<hs_size s} - {i})"
      using card_image_le [of "{..<hs_size s} - {i}" "\<lambda>i. keys s ! i"] by simp
    then show False using c i(1) by simp
  qed
  then show ?thesis using none used_all_members [OF ok] by blast
qed

text \<open>Writing a new key to the slot that was found.\<close>

lemma put_used: "hash_ok s \<Longrightarrow> i < hs_size s \<Longrightarrow> is_used (put i k s) j \<longleftrightarrow> j = i \<or> is_used s j"
  using bitset_get_set [of i "hs_size s" "used s" j] by (simp add: is_used_def put_def hash_ok_def)

lemma put_ok:
  assumes "hash_ok s" "ggml_hash_find s k = Some i" "\<not> is_used s i"
  shows "hash_ok (put i k s) \<and> members (put i k s) = insert k (members s) \<and> hs_size (put i k s) = hs_size s \<and>
    (\<forall>j < hs_size s. is_used s j \<longrightarrow> is_used (put i k s) j \<and> keys (put i k s) ! j = keys s ! j) \<and>
    is_used (put i k s) i \<and> keys (put i k s) ! i = k \<and> i < hs_size s"
proof -
  note f = find_Some [OF assms(1,2)]
  have u: "is_used (put i k s) j \<longleftrightarrow> j = i \<or> is_used s j" for j using put_used [OF assms(1)] f by blast
  have keys: "keys (put i k s) ! j = (if j = i then k else keys s ! j)" if "j < hs_size s" for j
    using f assms(1) that by (simp add: put_def hash_ok_def)
  have sz: "hs_size (put i k s) = hs_size s" "home (put i k s) = home s" by (auto simp: put_def home_def)
  have "reached (put i k s) (keys (put i k s) ! j) j" if j: "j < hs_size s" "is_used (put i k s) j" for j
  proof -
    have "reached s (keys (put i k s) ! j) j" using f u [of j] keys [OF j(1)] j assms(1) by (auto simp: hash_ok_def)
    then obtain d where d: "d < hs_size s" "j = (home s (keys (put i k s) ! j) + d) mod hs_size s"
      "\<forall>d' < d. is_used s ((home s (keys (put i k s) ! j) + d') mod hs_size s) \<and>
         keys s ! ((home s (keys (put i k s) ! j) + d') mod hs_size s) \<noteq> keys (put i k s) ! j" unfolding reached_def by blast
    have "is_used (put i k s) x \<and> keys (put i k s) ! x = keys s ! x" if "is_used s x" "x < hs_size s" for x
      using that u [of x] keys [OF that(2)] assms(3) by auto
    moreover have "(home s (keys (put i k s) ! j) + d') mod hs_size s < hs_size s" for d' using d(1) by simp
    ultimately show ?thesis unfolding reached_def sz using d by metis
  qed
  moreover have "members (put i k s) = insert k (members s)"
    using u keys f assms(3) unfolding members_def sz by auto metis+
  moreover have "is_used (put i k s) j \<and> keys (put i k s) ! j = keys s ! j" if "j < hs_size s" "is_used s j" for j
    using that u [of j] keys [OF that(1)] assms(3) by auto
  ultimately show ?thesis using assms(1) f u keys sz by (simp add: hash_ok_def) (simp add: put_def)
qed

section \<open>The operations\<close>

lemma contains_iff: "hash_ok s \<Longrightarrow> ggml_hash_contains s k \<longleftrightarrow> k \<in> members s"
  using find_Some [of s k] find_None [of s k] by (cases "ggml_hash_find s k") (auto simp: ggml_hash_contains_def)

lemma insert_find:
  "ggml_hash_insert s k = map_option (\<lambda>i. if \<not> is_used s i then (put i k s, Inserted i) else (s, GGML_HASHSET_ALREADY_EXISTS)) (ggml_hash_find s k)"
  "ggml_hash_find_or_insert s k = map_option (\<lambda>i. if \<not> is_used s i then (put i k s, i) else (s, i)) (ggml_hash_find s k)"
proof -
  have "stops s k = (\<lambda>i. \<not> is_used s i \<or> keys s ! i = k)" by (simp add: stops_def fun_eq_iff)
  then show "ggml_hash_insert s k = map_option (\<lambda>i. if \<not> is_used s i then (put i k s, Inserted i) else (s, GGML_HASHSET_ALREADY_EXISTS)) (ggml_hash_find s k)"
    "ggml_hash_find_or_insert s k = map_option (\<lambda>i. if \<not> is_used s i then (put i k s, i) else (s, i)) (ggml_hash_find s k)"
    by (simp_all add: ggml_hash_insert_def ggml_hash_find_or_insert_def find_stops home_def Let_def)
qed

text \<open>The slot of a key; arrays are indexed by it.\<close>

definition slot :: "ggml_hash_set \<Rightarrow> nat \<Rightarrow> nat" where
  "slot s k = the (ggml_hash_find s k)"

lemma slot_member:
  assumes "hash_ok s" "k \<in> members s"
  shows "ggml_hash_find s k = Some (slot s k) \<and> slot s k < hs_size s \<and> is_used s (slot s k) \<and> keys s ! slot s k = k"
proof -
  obtain i where "ggml_hash_find s k = Some i" using find_None [OF assms(1), of k] assms(2) by (cases "ggml_hash_find s k") auto
  then show ?thesis using find_Some [OF assms(1)] assms(2) by (simp add: slot_def)
qed

lemma slot_unique: "hash_ok s \<Longrightarrow> i < hs_size s \<Longrightarrow> is_used s i \<Longrightarrow> slot s (keys s ! i) = i"
  using slot_member [of s "keys s ! i"] one_slot [of s "slot s (keys s ! i)" i] by (auto simp: members_def)

lemma slot_put:
  assumes "hash_ok s" "ggml_hash_find s k = Some i" "\<not> is_used s i"
  shows "slot (put i k s) k = i \<and> (\<forall>x \<in> members s. slot (put i k s) x = slot s x)"
proof -
  note p = put_ok [OF assms]
  have "slot (put i k s) (keys (put i k s) ! i) = i" by (rule slot_unique) (use p in auto)
  moreover have "slot (put i k s) x = slot s x" if "x \<in> members s" for x
  proof -
    note m = slot_member [OF assms(1) that]
    have "slot (put i k s) (keys (put i k s) ! slot s x) = slot s x" by (rule slot_unique) (use p m in auto)
    then show ?thesis using p m by simp
  qed
  ultimately show ?thesis using p by simp
qed

lemma find_or_insert_cases:
  assumes "hash_ok s" "ggml_hash_find_or_insert s k = Some (s', i)"
  shows "hash_ok s' \<and> members s' = insert k (members s) \<and> i = slot s' k \<and> hs_size s' = hs_size s \<and> (\<forall>x \<in> members s. slot s' x = slot s x)"
proof -
  obtain j where j: "ggml_hash_find s k = Some j" "(s', i) = (if \<not> is_used s j then (put j k s, j) else (s, j))"
    using assms(2) by (auto simp: insert_find)
  show ?thesis
  proof (cases "is_used s j")
    case True
    then have "k \<in> members s" using find_Some [OF assms(1) j(1)] by blast
    then show ?thesis using assms(1) j True by (simp add: slot_def insert_absorb)
  next
    case False
    then show ?thesis using put_ok [OF assms(1) j(1)] slot_put [OF assms(1) j(1)] j(2) by simp
  qed
qed

section \<open>Arrays indexed by the slots are maps\<close>

locale slot_table =
  fixes ok :: "'s \<Rightarrow> bool" and elems :: "'s \<Rightarrow> nat set" and pos :: "'s \<Rightarrow> nat \<Rightarrow> nat"
    and add :: "'s \<Rightarrow> nat \<Rightarrow> ('s \<times> nat) option"
  assumes add_ok: "ok s \<Longrightarrow> add s k = Some (s', i) \<Longrightarrow> ok s' \<and> elems s' = insert k (elems s) \<and> i = pos s' k"
    and add_stable: "ok s \<Longrightarrow> add s k = Some (s', i) \<Longrightarrow> x \<in> elems s \<Longrightarrow> pos s' x = pos s x"
    and pos_inj: "ok s \<Longrightarrow> inj_on (pos s) (elems s)"
begin

text \<open>A program that updates values: for every step a key and what is done to its value.\<close>

fun run_table :: "(nat \<times> ('v \<Rightarrow> 'v)) list \<Rightarrow> 's \<Rightarrow> (nat \<Rightarrow> 'v) \<Rightarrow> ('s \<times> (nat \<Rightarrow> 'v)) option" where
  "run_table [] s vs = Some (s, vs)"
| "run_table ((k, f) # us) s vs = (case add s k of None \<Rightarrow> None | Some (s', i) \<Rightarrow> run_table us s' (vs(i := f (vs i))))"

text \<open>What is read by key is what a function from keys would hold.\<close>

lemma table_is_map:
  assumes "ok s" "run_table us s vs = Some (s', vs')" "\<And>x. x \<in> elems s \<Longrightarrow> vs (pos s x) = m x"
    "\<And>i. i \<notin> pos s ` elems s \<Longrightarrow> vs i = c" "\<And>x. x \<notin> elems s \<Longrightarrow> m x = c"
  shows "ok s' \<and> elems s' = elems s \<union> fst ` set us \<and>
    (\<forall>x \<in> elems s'. vs' (pos s' x) = foldl (\<lambda>m (k, f). m(k := f (m k))) m us x)"
  using assms
proof (induction us arbitrary: s vs m)
  case (Cons u us)
  obtain k f where u: "u = (k, f)" by (cases u)
  obtain s1 i where s1: "add s k = Some (s1, i)" "run_table us s1 (vs(i := f (vs i))) = Some (s', vs')"
    using Cons.prems(2) by (auto simp: u split: option.splits)
  note a = add_ok [OF Cons.prems(1) s1(1)] and st = add_stable [OF Cons.prems(1) s1(1)]
  have inj: "inj_on (pos s1) (elems s1)" using pos_inj a by blast
  have i_pos: "i = pos s1 x \<longleftrightarrow> k = x" if "x \<in> elems s1" for x using inj a that by (auto simp: inj_on_def)
  have old: "vs i = m k"
  proof (cases "k \<in> elems s")
    case True
    then show ?thesis using Cons.prems(3) a st by simp
  next
    case False
    have "i \<notin> pos s ` elems s"
    proof
      assume "i \<in> pos s ` elems s"
      then obtain x where "x \<in> elems s" "i = pos s1 x" using st by auto
      then show False using i_pos [of x] False a by auto
    qed
    then show ?thesis using Cons.prems(4,5) False by simp
  qed
  have "(vs(i := f (vs i))) (pos s1 x) = (m(k := f (m k))) x" if "x \<in> elems s1" for x
    using that i_pos [OF that] old Cons.prems(3) [of x] st [of x] a by auto
  moreover have "(vs(i := f (vs i))) j = c" if "j \<notin> pos s1 ` elems s1" for j
    using that Cons.prems(4) [of j] a st by (auto simp: image_iff)
  moreover have "(m(k := f (m k))) x = c" if "x \<notin> elems s1" for x using that Cons.prems(5) [of x] a by auto
  ultimately have "ok s' \<and> elems s' = elems s1 \<union> fst ` set us \<and>
      (\<forall>x \<in> elems s'. vs' (pos s' x) = foldl (\<lambda>m (k, f). m(k := f (m k))) (m(k := f (m k))) us x)"
    using a by (intro Cons.IH [OF _ s1(2)]) auto
  moreover have "elems s1 \<union> fst ` set us = elems s \<union> fst ` set (u # us)" using a by (auto simp: u)
  ultimately show ?case by (simp add: u del: fun_upd_apply)
qed auto

end

interpretation tensor_slots: slot_table hash_ok members slot ggml_hash_find_or_insert
proof
  show "inj_on (slot s) (members s)" if "hash_ok s" for s
    using slot_member [OF that] by (auto simp: inj_on_def) metis
qed (use find_or_insert_cases in auto)

section \<open>What the set promises\<close>

text \<open>C19: 
  The table is a set of keys.  \<open>contains\<close> is membership; an insertion tells a new key from a known one and fails exactly when
  the table is full and the key is new; no key ever changes its slot.
\<close>

theorem hash_set_is_a_set:
  assumes "hash_ok s"
  shows "(ggml_hash_contains s k \<longleftrightarrow> k \<in> members s) \<and>
    (case ggml_hash_insert s k of
       None \<Rightarrow> k \<notin> members s \<and> card (members s) = hs_size s
     | Some (s', GGML_HASHSET_ALREADY_EXISTS) \<Rightarrow> k \<in> members s \<and> s' = s
     | Some (s', Inserted i) \<Rightarrow> k \<notin> members s \<and> hash_ok s' \<and> members s' = insert k (members s) \<and> i = slot s' k \<and>
         hs_size s' = hs_size s \<and> (\<forall>x \<in> members s. slot s' x = slot s x)) \<and>
    (case ggml_hash_find_or_insert s k of
       None \<Rightarrow> k \<notin> members s \<and> card (members s) = hs_size s
     | Some (s', i) \<Rightarrow> hash_ok s' \<and> members s' = insert k (members s) \<and> i = slot s' k \<and> hs_size s' = hs_size s \<and>
         (\<forall>x \<in> members s. slot s' x = slot s x))"
proof (cases "ggml_hash_find s k")
  case None
  then show ?thesis using find_None [OF assms, of k] contains_iff [OF assms, of k] by (simp add: insert_find)
next
  case (Some i)
  note f = find_Some [OF assms Some]
  show ?thesis
  proof (cases "is_used s i")
    case True
    then show ?thesis using f assms contains_iff [OF assms] Some by (auto simp: insert_find slot_def)
  next
    case False
    then show ?thesis using f put_ok [OF assms Some] slot_put [OF assms Some] contains_iff [OF assms] Some by (simp add: insert_find)
  qed
qed

lemma new_empty: "hs_size s = sz \<Longrightarrow> 0 < sz \<Longrightarrow> used s = replicate (ggml_bitset_size sz) 0 \<Longrightarrow> length (keys s) = sz \<Longrightarrow> hash_ok s \<and> members s = {}"
  using bitset_none [of _ sz] by (simp add: hash_ok_def members_def is_used_def)

text \<open>
  An array with one entry for every slot, all of them equal at first, is a map from keys, whatever keys come in
  whatever order: the tables of nodes and of use counts are read and written as if they were indexed by tensors.
\<close>

theorem slots_index_a_map:
  assumes "hash_ok s" "tensor_slots.run_table us (ggml_hash_set_reset s) (\<lambda>_. c) = Some (s', vs)"
  shows "hash_ok s' \<and> members s' = fst ` set us \<and> (\<forall>k \<in> members s'. vs (slot s' k) = foldl (\<lambda>m (k, f). m(k := f (m k))) (\<lambda>_. c) us k)"
proof -
  have e: "hash_ok (ggml_hash_set_reset s) \<and> members (ggml_hash_set_reset s) = {}"
    using assms(1) by (intro new_empty [OF refl]) (simp_all add: ggml_hash_set_reset_def hash_ok_def)
  then show ?thesis using tensor_slots.table_is_map [OF _ assms(2), of "\<lambda>_. c" c] by simp
qed

lemma prime_search_found:
  assumes "\<And>i j. i \<le> j \<Longrightarrow> j < n \<Longrightarrow> primes ! i \<le> primes ! j" "r \<le> n" "l \<le> r"
    "\<And>i. i < l \<Longrightarrow> primes ! i < min_sz" "\<And>i. r \<le> i \<Longrightarrow> i < n \<Longrightarrow> min_sz \<le> primes ! i"
  shows "prime_search min_sz l r \<le> n \<and> (\<forall>i < prime_search min_sz l r. primes ! i < min_sz) \<and>
    (\<forall>i. prime_search min_sz l r \<le> i \<longrightarrow> i < n \<longrightarrow> min_sz \<le> primes ! i)"
  using assms(2-)
proof (induction min_sz l r rule: prime_search.induct)
  case (1 min_sz l r)
  show ?case
  proof (cases "l < r")
    case True
    define m where "m = (l + r) div 2"
    have m: "l \<le> m" "m < r" using True by (auto simp: m_def)
    show ?thesis
    proof (cases "primes ! m < min_sz")
      case less: True
      have "primes ! i < min_sz" if "i < m + 1" for i using assms(1) [of i m] that less m 1(3) by fastforce
      moreover have step: "prime_search min_sz l r = prime_search min_sz (m + 1) r"
        using True less by (subst prime_search.simps) (simp add: m_def Let_def)
      ultimately show ?thesis unfolding step using m 1(3,6) by (intro 1(1) [OF True m_def less]) simp_all
    next
      case False
      have "min_sz \<le> primes ! i" if "m \<le> i" "i < n" for i using assms(1) [of m i] that False by fastforce
      moreover have step: "prime_search min_sz l r = prime_search min_sz l m"
        using True False by (subst prime_search.simps) (simp add: m_def Let_def)
      ultimately show ?thesis unfolding step using m 1(3,5) by (intro 1(2) [OF True m_def False]) simp_all
    qed
  next
    case False
    then have stop: "prime_search min_sz l r = l" by (subst prime_search.simps) simp
    show ?thesis unfolding stop using 1(3-6) False by simp
  qed
qed

lemma hash_size_bounds:
  "min_sz \<le> ggml_hash_size min_sz \<and> 0 < ggml_hash_size min_sz \<and>
    (if min_sz \<le> 2147483659 then ggml_hash_size min_sz \<in> set primes \<and> filter (\<lambda>p. min_sz \<le> p \<and> p < ggml_hash_size min_sz) primes = []
     else odd (ggml_hash_size min_sz))"
proof -
  define l where "l = prime_search min_sz 0 (length primes)"
  have sp: "sorted primes" by (simp add: primes_def)
  have "l \<le> length primes \<and> (\<forall>i < l. primes ! i < min_sz) \<and> (\<forall>i. l \<le> i \<longrightarrow> i < length primes \<longrightarrow> min_sz \<le> primes ! i)"
    unfolding l_def by (rule prime_search_found) (use sorted_nth_mono [OF sp] in auto)
  then have l: "\<forall>i < l. primes ! i < min_sz" "\<forall>i. l \<le> i \<longrightarrow> i < length primes \<longrightarrow> min_sz \<le> primes ! i" by simp_all
  have last: "length primes = 32" "primes ! 31 = 2147483659" by (simp_all add: primes_def)
  have pos: "\<forall>p \<in> set primes. 0 < p" by (simp add: primes_def)
  show ?thesis
  proof (cases "l < length primes")
    case True
    have "min_sz \<le> primes ! l" using l(2) True by simp
    moreover have "primes ! l \<le> primes ! 31" using sorted_nth_mono [OF sp, of l 31] True last(1) by simp
    moreover have "\<not> (min_sz \<le> p \<and> p < primes ! l)" if p: "p \<in> set primes" for p
    proof -
      obtain i where i: "i < length primes" "p = primes ! i" using p by (auto simp: in_set_conv_nth)
      then show ?thesis using l(1) sorted_nth_mono [OF sp, of l i] by (cases "i < l") fastforce+
    qed
    ultimately show ?thesis
      using True pos last(2) by (simp add: ggml_hash_size_def l_def [symmetric] Let_def filter_empty_conv)
  next
    case False
    then have "primes ! 31 < min_sz" using l(1) last(1) by simp
    then show ?thesis using False last(2) by (simp add: ggml_hash_size_def l_def [symmetric] Let_def or_one_eq del: One_nat_def)
  qed
qed

text \<open>A table is at least as large as is asked for, and its size is the smallest listed prime as long as there is one.\<close>

theorem hash_size_fits:
  "min_sz \<le> ggml_hash_size min_sz \<and> 0 < ggml_hash_size min_sz \<and>
    (if min_sz \<le> 2147483659 then ggml_hash_size min_sz \<in> set primes \<and> filter (\<lambda>p. min_sz \<le> p \<and> p < ggml_hash_size min_sz) primes = []
     else odd (ggml_hash_size min_sz))"
  by (rule hash_size_bounds)

section \<open>A run\<close>

text \<open>The addresses 16 and 64 have the same home in a table of three slots.\<close>

definition table0 :: ggml_hash_set where
  "table0 = \<lparr>hs_size = 3, used = [0], keys = [7, 7, 7]\<rparr>"

lemma table0_ok: "hash_ok table0 \<and> members table0 = {}"
  by (rule new_empty [of _ 3]) (simp_all add: table0_def ggml_bitset_size_def BITSET_SHR_def BITSET_MASK_def drop_bit_eq_div)

lemmas hash_run = ggml_hash_insert_def ggml_hash_find_or_insert_def probe.simps is_used_def put_def ggml_hash_def bitset_get_bit
  ggml_bitset_set_def bitset_index ggml_hash_contains_def ggml_hash_find_def Let_def table0_def

lemma BITSET_SHR_pos: "0 < BITSET_SHR"
  by (simp add: BITSET_SHR_def)

lemma table_run:
  "ggml_hash_find_or_insert table0 16 = Some (\<lparr>hs_size = 3, used = [2], keys = [7, 16, 7]\<rparr>, 1)"
  "ggml_hash_find_or_insert \<lparr>hs_size = 3, used = [2], keys = [7, 16, 7]\<rparr> 64 = Some (\<lparr>hs_size = 3, used = [6], keys = [7, 16, 64]\<rparr>, 2)"
  using BITSET_SHR_pos by (simp_all add: hash_run)

definition table1 :: ggml_hash_set where
  "table1 = \<lparr>hs_size = 3, used = [2], keys = [7, 16, 7]\<rparr>"

lemma table1_ok: "hash_ok table1 \<and> members table1 = {16}"
  using find_or_insert_cases [of table0 16 table1 1] table0_ok table_run(1) by (simp add: table1_def)

lemma hash_set_is_a_set_witness:
  "ggml_hash_contains table1 16 \<and> \<not> ggml_hash_contains table1 64 \<and>
   (\<exists>s. ggml_hash_find_or_insert table1 64 = Some (s, 2) \<and> hash_ok s \<and> members s = {16, 64} \<and> slot s 64 = 2 \<and> slot s 16 = slot table1 16)"
  using hash_set_is_a_set [of table1 16] hash_set_is_a_set [of table1 64] table1_ok table_run(2) by (auto simp: table1_def)

lemma slots_index_a_map_witness:
  "\<exists>s vs. tensor_slots.run_table [(16, Suc), (64, Suc), (16, Suc)] (ggml_hash_set_reset table0) (\<lambda>_. 0) = Some (s, vs) \<and>
     vs (slot s 16) = 2 \<and> vs (slot s 64) = 1"
proof -
  have r: "ggml_hash_set_reset table0 = table0" by (simp add: ggml_hash_set_reset_def table0_def ggml_bitset_size_def bitset_index BITSET_MASK_def)
  have again: "ggml_hash_find_or_insert \<lparr>hs_size = 3, used = [6], keys = [7, 16, 64]\<rparr> 16 = Some (\<lparr>hs_size = 3, used = [6], keys = [7, 16, 64]\<rparr>, 1)"
    using BITSET_SHR_pos by (simp add: hash_run)
  obtain s vs where s: "tensor_slots.run_table [(16, Suc), (64, Suc), (16, Suc)] (ggml_hash_set_reset table0) (\<lambda>_. 0) = Some (s, vs)"
    using table_run again by (simp add: r)
  from slots_index_a_map [OF conjunct1 [OF table0_ok] s] have "vs (slot s 16) = 2" "vs (slot s 64) = 1" by simp_all
  then show ?thesis using s by blast
qed

end
