(* ===== verification/Graph_Build.thy ===== *)
theory Graph_Build
  imports Graph_Safety Hash_Set
begin

text \<open>
  Building a compute graph (\<open>ggml.c\<close>): from a tensor its operands are visited in depth, each is recorded once, as a leaf or
  as a node, after the operands that it reads.

  A tensor is its address.  The flag \<open>GGML_TENSOR_FLAG_COMPUTE\<close>, which building sets, is a part of the state; the other flags
  do not change.  \<open>None\<close> is a failed assertion or exhausted fuel.
\<close>

section \<open>The graph\<close>

datatype ggml_cgraph_eval_order = GGML_CGRAPH_EVAL_ORDER_LEFT_TO_RIGHT | GGML_CGRAPH_EVAL_ORDER_RIGHT_TO_LEFT

record ggml_cgraph =
  cg_size :: nat
  cg_nodes :: "nat list"
  cg_leafs :: "nat list"
  use_counts :: "int list"
  visited_hash_set :: ggml_hash_set
  cg_order :: ggml_cgraph_eval_order
  flag_compute :: "nat \<Rightarrow> bool"

text \<open>The arrays of a new graph are not initialised.\<close>

definition ggml_new_graph_custom :: "(nat \<Rightarrow> bool) \<Rightarrow> int list \<Rightarrow> nat list \<Rightarrow> nat \<Rightarrow> ggml_cgraph" where
  "ggml_new_graph_custom flags counts garbage n =
    \<lparr>cg_size = n, cg_nodes = [], cg_leafs = [], use_counts = counts,
     visited_hash_set = ggml_hash_set_reset \<lparr>hs_size = ggml_hash_size (n * 2), used = [], keys = garbage\<rparr>,
     cg_order = GGML_CGRAPH_EVAL_ORDER_LEFT_TO_RIGHT, flag_compute = flags\<rparr>"

definition ggml_graph_clear :: "ggml_cgraph \<Rightarrow> ggml_cgraph" where
  "ggml_graph_clear g = g\<lparr>cg_leafs := [], cg_nodes := [], visited_hash_set := ggml_hash_set_reset (visited_hash_set g)\<rparr>"

definition set_compute :: "graph_env \<Rightarrow> nat \<Rightarrow> bool \<Rightarrow> ggml_cgraph \<Rightarrow> ggml_cgraph" where
  "set_compute e v compute g =
    (if gt_op (tensor e v) \<noteq> GGML_OP_NONE \<and> compute then g\<lparr>flag_compute := (flag_compute g)(v := True)\<rparr> else g)"

definition mark_visited :: "nat \<Rightarrow> nat \<Rightarrow> ggml_cgraph \<Rightarrow> ggml_cgraph" where
  "mark_visited v pos g = g\<lparr>visited_hash_set := put pos v (visited_hash_set g), use_counts := (use_counts g)[pos := 0]\<rparr>"

definition count_use :: "nat \<Rightarrow> ggml_cgraph \<Rightarrow> ggml_cgraph" where
  "count_use pos g = g\<lparr>use_counts := (use_counts g)[pos := use_counts g ! pos + 1]\<rparr>"

text \<open>A leaf is a tensor without operation that is not a parameter.\<close>

definition record_tensor :: "graph_env \<Rightarrow> (nat \<Rightarrow> bool) \<Rightarrow> nat \<Rightarrow> ggml_cgraph \<Rightarrow> ggml_cgraph option" where
  "record_tensor e param v g =
    (if gt_op (tensor e v) = GGML_OP_NONE \<and> \<not> param v
     then if length (cg_leafs g) < cg_size g then Some (g\<lparr>cg_leafs := cg_leafs g @ [v]\<rparr>) else None
     else if length (cg_nodes g) < cg_size g then Some (g\<lparr>cg_nodes := cg_nodes g @ [v]\<rparr>) else None)"

primrec ggml_visit_parents_graph ::
  "graph_env \<Rightarrow> (nat \<Rightarrow> bool) \<Rightarrow> nat \<Rightarrow> nat \<Rightarrow> bool \<Rightarrow> ggml_cgraph \<Rightarrow> (ggml_cgraph \<times> nat) option" where
  "ggml_visit_parents_graph e param 0 = (\<lambda>v compute g. None)"
| "ggml_visit_parents_graph e param (Suc fuel) = (\<lambda>v compute g0.
    (let g = set_compute e v compute g0; srcs = gt_src (tensor e v)
     in case ggml_hash_find (visited_hash_set g) v of
          None \<Rightarrow> None
        | Some pos \<Rightarrow>
            if is_used (visited_hash_set g) pos then
              (if compute
               then map_option (\<lambda>g. (g, pos)) (run_all (\<lambda>src g. if \<not> flag_compute g src
                      then map_option fst (ggml_visit_parents_graph e param fuel src True g) else Some g) srcs g)
               else Some (g, pos))
            else
              Option.bind (run_all (\<lambda>src g. map_option (\<lambda>(g, src_pos). count_use src_pos g) (ggml_visit_parents_graph e param fuel src compute g))
                  (case cg_order g of GGML_CGRAPH_EVAL_ORDER_LEFT_TO_RIGHT \<Rightarrow> srcs | GGML_CGRAPH_EVAL_ORDER_RIGHT_TO_LEFT \<Rightarrow> rev srcs)
                  (mark_visited v pos g))
                (\<lambda>g. map_option (\<lambda>g. (g, pos)) (record_tensor e param v g))))"

definition ggml_build_forward_impl :: "graph_env \<Rightarrow> (nat \<Rightarrow> bool) \<Rightarrow> nat \<Rightarrow> nat \<Rightarrow> bool \<Rightarrow> bool \<Rightarrow> ggml_cgraph \<Rightarrow> ggml_cgraph option" where
  "ggml_build_forward_impl e param fuel v expand compute g0 =
    (let g = (if \<not> expand then ggml_graph_clear g0 else g0)
     in Option.bind (ggml_visit_parents_graph e param fuel v compute g)
          (\<lambda>(g', pos). if length (cg_nodes g') > length (cg_nodes g) \<and> cg_nodes g' ! (length (cg_nodes g') - 1) \<noteq> v then None else Some g'))"

definition ggml_build_forward_expand :: "graph_env \<Rightarrow> (nat \<Rightarrow> bool) \<Rightarrow> nat \<Rightarrow> nat \<Rightarrow> ggml_cgraph \<Rightarrow> ggml_cgraph option" where
  "ggml_build_forward_expand e param fuel v g = ggml_build_forward_impl e param fuel v True True g"

definition ggml_build_forward_select :: "graph_env \<Rightarrow> (nat \<Rightarrow> bool) \<Rightarrow> nat \<Rightarrow> nat list \<Rightarrow> nat \<Rightarrow> ggml_cgraph \<Rightarrow> (ggml_cgraph \<times> nat) option" where
  "ggml_build_forward_select e param fuel ts idx g =
    (if idx < length ts
     then map_option (\<lambda>g. (g, ts ! idx)) (run_all (\<lambda>i. ggml_build_forward_impl e param fuel (ts ! i) True (i = idx)) [0..<length ts] g)
     else None)"

section \<open>Well-formed graphs\<close>

text \<open>Tensors are made from tensors that exist: their rank falls along the operands.  Without operation there are none.\<close>

definition dag_ok :: "graph_env \<Rightarrow> (nat \<Rightarrow> nat) \<Rightarrow> bool" where
  "dag_ok e rank \<longleftrightarrow> (\<forall>t. \<forall>s \<in> set (gt_src (tensor e t)). rank s < rank t) \<and>
    (\<forall>t. gt_op (tensor e t) = GGML_OP_NONE \<longrightarrow> gt_src (tensor e t) = [])"

definition is_leaf :: "graph_env \<Rightarrow> (nat \<Rightarrow> bool) \<Rightarrow> nat \<Rightarrow> bool" where
  "is_leaf e param t \<longleftrightarrow> gt_op (tensor e t) = GGML_OP_NONE \<and> \<not> param t"

definition recorded :: "ggml_cgraph \<Rightarrow> nat list" where
  "recorded g = cg_leafs g @ cg_nodes g"

text \<open>
  \<open>open_ts\<close> are the tensors whose operands are being visited; \<open>P t\<close> counts the uses of \<open>t\<close> by them so far.
\<close>

definition cg_inv :: "graph_env \<Rightarrow> (nat \<Rightarrow> bool) \<Rightarrow> nat set \<Rightarrow> (nat \<Rightarrow> nat) \<Rightarrow> ggml_cgraph \<Rightarrow> bool" where
  "cg_inv e param open_ts P g \<longleftrightarrow> hash_ok (visited_hash_set g) \<and>
    members (visited_hash_set g) = set (recorded g) \<union> open_ts \<and> set (recorded g) \<inter> open_ts = {} \<and> distinct (recorded g) \<and>
    (\<forall>t \<in> set (cg_leafs g). is_leaf e param t) \<and> (\<forall>t \<in> set (cg_nodes g). \<not> is_leaf e param t) \<and>
    (\<forall>i < length (cg_nodes g). set (gt_src (tensor e (cg_nodes g ! i))) \<subseteq> set (cg_leafs g) \<union> set (take i (cg_nodes g))) \<and>
    length (use_counts g) = hs_size (visited_hash_set g) \<and> (\<forall>t. P t \<noteq> 0 \<longrightarrow> t \<in> set (recorded g)) \<and>
    (\<forall>t \<in> members (visited_hash_set g). use_counts g ! slot (visited_hash_set g) t = int (count_list (uses e (recorded g)) t + P t))"

text \<open>What a tensor is computed from.\<close>

inductive_set ancestors :: "graph_env \<Rightarrow> nat \<Rightarrow> nat set" for e v where
  self: "v \<in> ancestors e v"
| operand: "t \<in> ancestors e v \<Longrightarrow> s \<in> set (gt_src (tensor e t)) \<Longrightarrow> s \<in> ancestors e v"

lemma ancestors_eq: "ancestors e v = insert v (\<Union>s \<in> set (gt_src (tensor e v)). ancestors e s)"
proof (intro equalityI subsetI)
  fix t assume "t \<in> ancestors e v"
  then show "t \<in> insert v (\<Union>s \<in> set (gt_src (tensor e v)). ancestors e s)"
    by induction (auto intro: ancestors.intros)
next
  have "t \<in> ancestors e v" if "s \<in> set (gt_src (tensor e v))" "t \<in> ancestors e s" for s t
    using that(2) by induction (use that(1) in \<open>auto intro: ancestors.intros\<close>)
  then show "t \<in> ancestors e v" if "t \<in> insert v (\<Union>s \<in> set (gt_src (tensor e v)). ancestors e s)" for t
    using that by (auto intro: ancestors.self)
qed

text \<open>Recorded tensors are closed under operands.\<close>

lemma recorded_operands:
  assumes "dag_ok e rank" "cg_inv e param O' P g" "t \<in> set (recorded g)" "s \<in> set (gt_src (tensor e t))"
  shows "s \<in> set (recorded g)"
proof (cases "t \<in> set (cg_leafs g)")
  case True
  then have "gt_op (tensor e t) = GGML_OP_NONE" using assms(2) by (auto simp: cg_inv_def is_leaf_def)
  then show ?thesis using assms(1,4) by (auto simp: dag_ok_def)
next
  case False
  then obtain i where "i < length (cg_nodes g)" "t = cg_nodes g ! i" using assms(3) by (auto simp: recorded_def in_set_conv_nth)
  moreover from this have "s \<in> set (cg_leafs g) \<union> set (take i (cg_nodes g))" using assms(2,4) unfolding cg_inv_def by blast
  ultimately show ?thesis by (auto simp: recorded_def dest: in_set_takeD)
qed

lemma recorded_ancestors:
  assumes "dag_ok e rank" "cg_inv e param O' P g" "t \<in> set (recorded g)"
  shows "ancestors e t \<subseteq> set (recorded g)"
proof
  fix s assume "s \<in> ancestors e t"
  then show "s \<in> set (recorded g)" by induction (use assms recorded_operands in blast)+
qed

section \<open>One visit\<close>

text \<open>A state grows into another one: \<open>T\<close> is recorded, and no slot moves.\<close>

definition grows :: "nat set \<Rightarrow> ggml_cgraph \<Rightarrow> ggml_cgraph \<Rightarrow> bool" where
  "grows T g g' \<longleftrightarrow> set (recorded g') = set (recorded g) \<union> T \<and> cg_size g' = cg_size g \<and> cg_order g' = cg_order g \<and>
    hs_size (visited_hash_set g') = hs_size (visited_hash_set g) \<and>
    prefix (cg_leafs g) (cg_leafs g') \<and> prefix (cg_nodes g) (cg_nodes g') \<and>
    members (visited_hash_set g) \<subseteq> members (visited_hash_set g') \<and>
    (\<forall>x \<in> members (visited_hash_set g). slot (visited_hash_set g') x = slot (visited_hash_set g) x)"

lemma grows_trans: "grows T g g' \<Longrightarrow> grows T' g' g'' \<Longrightarrow> grows (T \<union> T') g g''"
  unfolding grows_def by (auto intro: prefix_order.trans)

lemma grows_known: "grows T g g' \<Longrightarrow> T \<subseteq> set (recorded g) \<Longrightarrow> grows {} g g'"
  by (auto simp: grows_def)

lemma grows_refl [simp]: "grows {} g g"
  by (simp add: grows_def)

definition has_room :: "nat set \<Rightarrow> ggml_cgraph \<Rightarrow> bool" where
  "has_room R g \<longleftrightarrow> finite R \<and> card R \<le> cg_size g \<and> card R \<le> hs_size (visited_hash_set g) \<and> members (visited_hash_set g) \<subseteq> R"

lemma has_room_grows: "has_room R g \<Longrightarrow> grows T g g' \<Longrightarrow> members (visited_hash_set g') \<subseteq> R \<Longrightarrow> has_room R g'"
  by (simp add: has_room_def grows_def)

lemma set_compute_simps [simp]:
  "cg_inv e param O' P (set_compute e v compute g) = cg_inv e param O' P g" "visited_hash_set (set_compute e v compute g) = visited_hash_set g"
  "recorded (set_compute e v compute g) = recorded g" "cg_order (set_compute e v compute g) = cg_order g"
  "grows T (set_compute e v compute g) g' = grows T g g'" "has_room R (set_compute e v compute g) = has_room R g"
  "cg_nodes (set_compute e v compute g) = cg_nodes g"
  by (simp_all add: set_compute_def cg_inv_def recorded_def grows_def has_room_def)

lemma found_slot:
  assumes "hash_ok s" "ggml_hash_find s v = Some pos"
  shows "pos = slot s v \<and> (is_used s pos \<longleftrightarrow> v \<in> members s)"
  using find_Some [OF assms] assms(2) by (simp add: slot_def)

lemma find_succeeds:
  assumes "hash_ok (visited_hash_set g)" "has_room R g" "v \<in> R"
  shows "ggml_hash_find (visited_hash_set g) v \<noteq> None"
proof
  assume "ggml_hash_find (visited_hash_set g) v = None"
  then have v: "v \<notin> members (visited_hash_set g)" "card (members (visited_hash_set g)) = hs_size (visited_hash_set g)"
    using find_None [OF assms(1)] by auto
  have "members (visited_hash_set g) \<subset> R" using assms(2,3) v(1) by (auto simp: has_room_def)
  from psubset_card_mono [OF _ this] show False using assms(2) v(2) by (simp add: has_room_def)
qed

lemma mark_visited_inv:
  assumes "dag_ok e rank" "cg_inv e param O' P g" "ggml_hash_find (visited_hash_set g) v = Some pos" "\<not> is_used (visited_hash_set g) pos"
  shows "cg_inv e param (insert v O') P (mark_visited v pos g) \<and> grows {} g (mark_visited v pos g) \<and> slot (visited_hash_set (mark_visited v pos g)) v = pos"
proof -
  define s where "s = visited_hash_set g"
  note iv = assms(2) [unfolded cg_inv_def]
  have ok: "hash_ok s" using iv by (simp add: s_def)
  note p = put_ok [OF ok assms(3,4) [folded s_def]] and sl = slot_put [OF ok assms(3,4) [folded s_def]]
  have v: "v \<notin> members s" using found_slot [OF ok assms(3) [folded s_def]] assms(4) by (simp add: s_def)
  have vr: "v \<notin> set (recorded g)" "v \<notin> O'" using v iv by (auto simp: s_def)
  have "v \<notin> set (uses e (recorded g))"
  proof
    assume "v \<in> set (uses e (recorded g))"
    then obtain t where "t \<in> set (recorded g)" "v \<in> set (gt_src (tensor e t))" by (auto simp: uses_def)
    then show False using recorded_operands [OF assms(1,2)] vr(1) by blast
  qed
  then have zero: "count_list (uses e (recorded g)) v + P v = 0" using iv vr(1) by (auto simp: count_list_0_iff)
  have len: "pos < length (use_counts g)" using p iv by (simp add: s_def)
  have counts: "(use_counts g)[pos := 0] ! slot (put pos v s) t = int (count_list (uses e (recorded g)) t + P t)"
    if "t \<in> insert v (members s)" for t
  proof (cases "t = v")
    case True
    then show ?thesis using sl zero len by simp
  next
    case False
    then have t: "t \<in> members s" using that by simp
    have "slot s t \<noteq> pos" using slot_member [OF ok t] assms(4) by (auto simp: s_def)
    then show ?thesis using sl t iv by (simp add: s_def)
  qed
  have r: "recorded (mark_visited v pos g) = recorded g" by (simp add: mark_visited_def recorded_def)
  have "cg_inv e param (insert v O') P (mark_visited v pos g)"
    using iv p counts vr unfolding cg_inv_def r by (simp add: mark_visited_def s_def [symmetric])
  moreover have "grows {} g (mark_visited v pos g)"
    using p sl unfolding grows_def r by (auto simp: mark_visited_def s_def)
  ultimately show ?thesis using sl by (simp add: mark_visited_def s_def)
qed

lemma count_use_inv:
  assumes "cg_inv e param O' P g" "s \<in> set (recorded g)"
  shows "cg_inv e param O' (P(s := P s + 1)) (count_use (slot (visited_hash_set g) s) g) \<and> grows {} g (count_use (slot (visited_hash_set g) s) g)"
proof -
  define h where "h = visited_hash_set g"
  note iv = assms(1) [unfolded cg_inv_def]
  have ok: "hash_ok h" and s: "s \<in> members h" using iv assms(2) by (auto simp: h_def)
  have len: "slot h s < length (use_counts g)" using slot_member [OF ok s] iv by (simp add: h_def)
  have "(use_counts g)[slot h s := use_counts g ! slot h s + 1] ! slot h t = int (count_list (uses e (recorded g)) t + (P(s := P s + 1)) t)"
    if t: "t \<in> members h" for t
  proof (cases "t = s")
    case True
    then show ?thesis using len iv s by (simp add: h_def)
  next
    case False
    then have "slot h t \<noteq> slot h s" using slot_member [OF ok t] slot_member [OF ok s] by metis
    then show ?thesis using False iv t by (simp add: h_def)
  qed
  then show ?thesis
    using iv assms(2) by (simp add: cg_inv_def grows_def count_use_def recorded_def h_def)
qed

lemma record_inv:
  assumes "cg_inv e param (insert v O') (\<lambda>t. P t + count_list (gt_src (tensor e v)) t) g" "v \<notin> O'" "has_room R g"
    "\<And>t. P t \<noteq> 0 \<Longrightarrow> t \<in> set (recorded g)" "set (gt_src (tensor e v)) \<subseteq> set (recorded g)"
  shows "\<exists>g'. record_tensor e param v g = Some g' \<and> cg_inv e param O' P g' \<and> grows {v} g g' \<and>
    cg_nodes g' = (if is_leaf e param v then cg_nodes g else cg_nodes g @ [v])"
proof -
  note iv = assms(1) [unfolded cg_inv_def]
  have v: "v \<notin> set (recorded g)" "v \<in> members (visited_hash_set g)" using iv by auto
  have "insert v (set (recorded g)) \<subseteq> R" using iv assms(3) by (auto simp: has_room_def)
  from card_mono [OF _ this] have "Suc (length (recorded g)) \<le> card R"
    using assms(3) v iv by (simp add: has_room_def distinct_card)
  then have room: "length (cg_leafs g) < cg_size g" "length (cg_nodes g) < cg_size g" using assms(3) by (simp_all add: has_room_def recorded_def)
  show ?thesis
  proof (cases "is_leaf e param v")
    case True
    define g' where "g' = g\<lparr>cg_leafs := cg_leafs g @ [v]\<rparr>"
    have "record_tensor e param v g = Some g'" using True room by (simp add: record_tensor_def is_leaf_def g'_def)
    moreover have "cg_inv e param O' P g'"
      using iv v assms(2,4) True by (auto simp: cg_inv_def g'_def recorded_def uses_def)
    moreover have "grows {v} g g'" by (auto simp: grows_def g'_def recorded_def)
    ultimately show ?thesis using True by (simp add: g'_def)
  next
    case False
    define g' where "g' = g\<lparr>cg_nodes := cg_nodes g @ [v]\<rparr>"
    have "record_tensor e param v g = Some g'" using False room by (auto simp: record_tensor_def is_leaf_def g'_def)
    moreover have "cg_inv e param O' P g'"
      using iv v assms(2,4,5) False by (auto simp: cg_inv_def g'_def recorded_def uses_def nth_append less_Suc_eq)
    moreover have "grows {v} g g'" by (auto simp: grows_def g'_def recorded_def)
    ultimately show ?thesis using False by (simp add: g'_def)
  qed
qed

lemma has_room_after:
  assumes "has_room R g" "cg_inv e param O' P g" "cg_inv e param O' P' g'" "grows T g g'" "T \<subseteq> R"
  shows "has_room R g'"
proof (rule has_room_grows [OF assms(1,4)])
  have "members (visited_hash_set g') = set (recorded g') \<union> O'" using assms(3) by (simp add: cg_inv_def)
  moreover have "set (recorded g) \<union> O' \<subseteq> R" using assms(1,2) by (simp add: cg_inv_def has_room_def)
  moreover have "set (recorded g') = set (recorded g) \<union> T" using assms(4) by (simp add: grows_def)
  ultimately show "members (visited_hash_set g') \<subseteq> R" using assms(5) by blast
qed

text \<open>The loops over the operands, for any way of visiting one.\<close>

definition visits :: "graph_env \<Rightarrow> (nat \<Rightarrow> bool) \<Rightarrow> nat set \<Rightarrow> nat set \<Rightarrow> (ggml_cgraph \<Rightarrow> (ggml_cgraph \<times> nat) option) \<Rightarrow> nat \<Rightarrow> bool" where
  "visits e param R O' f s \<longleftrightarrow> (\<forall>g P. cg_inv e param O' P g \<longrightarrow> has_room R g \<longrightarrow>
    (\<exists>g'. f g = Some (g', slot (visited_hash_set g') s) \<and> cg_inv e param O' P g' \<and> grows (ancestors e s) g g' \<and>
       (length (cg_nodes g) < length (cg_nodes g') \<longrightarrow> last (cg_nodes g') = s)))"

lemma visitsE:
  assumes "visits e param R O' f s" "cg_inv e param O' P g" "has_room R g"
  obtains g' where "f g = Some (g', slot (visited_hash_set g') s)" "cg_inv e param O' P g'" "grows (ancestors e s) g g'"
    "length (cg_nodes g) < length (cg_nodes g') \<longrightarrow> last (cg_nodes g') = s"
  using assms unfolding visits_def by blast

lemma use_loop:
  assumes "\<And>s. s \<in> set ss \<Longrightarrow> visits e param R O' (f s) s \<and> ancestors e s \<subseteq> R" "cg_inv e param O' P g" "has_room R g"
  shows "\<exists>g'. run_all (\<lambda>src g. map_option (\<lambda>(g, pos). count_use pos g) (f src g)) ss g = Some g' \<and>
    cg_inv e param O' (\<lambda>t. P t + count_list ss t) g' \<and> grows (\<Union>s \<in> set ss. ancestors e s) g g'"
  using assms
proof (induction ss arbitrary: g P)
  case (Cons s ss)
  obtain g1 where g1: "f s g = Some (g1, slot (visited_hash_set g1) s)" "cg_inv e param O' P g1" "grows (ancestors e s) g g1"
    using visitsE [of e param R O' "f s" s P g] Cons.prems by (metis list.set_intros(1))
  define g2 where "g2 = count_use (slot (visited_hash_set g1) s) g1"
  have "s \<in> set (recorded g1)" using g1(3) by (simp add: grows_def ancestors.self)
  from count_use_inv [OF g1(2) this] have g2: "cg_inv e param O' (P(s := P s + 1)) g2" "grows {} g1 g2" by (simp_all add: g2_def)
  have gr: "grows (ancestors e s) g g2" using grows_trans [OF g1(3) g2(2)] by simp
  have fit: "has_room R g2" using has_room_after [OF Cons.prems(3,2) g2(1) gr] Cons.prems(1) by simp
  obtain g' where g': "run_all (\<lambda>src g. map_option (\<lambda>(g, pos). count_use pos g) (f src g)) ss g2 = Some g'"
    "cg_inv e param O' (\<lambda>t. (P(s := P s + 1)) t + count_list ss t) g'" "grows (\<Union>s \<in> set ss. ancestors e s) g2 g'"
    using Cons.IH [OF _ g2(1) fit] Cons.prems(1) by auto
  have "(\<lambda>t. (P(s := P s + 1)) t + count_list ss t) = (\<lambda>t. P t + count_list (s # ss) t)" by auto
  then show ?case using g' g1(1) grows_trans [OF gr g'(3)] by (simp add: g2_def [symmetric])
qed auto

lemma flag_loop:
  assumes "\<And>s. s \<in> set ss \<Longrightarrow> visits e param R O' (f s) s \<and> ancestors e s \<subseteq> set (recorded g)" "cg_inv e param O' P g" "has_room R g"
  shows "\<exists>g'. run_all (\<lambda>src g. if \<not> flag_compute g src then map_option fst (f src g) else Some g) ss g = Some g' \<and>
    cg_inv e param O' P g' \<and> grows {} g g'"
  using assms
proof (induction ss arbitrary: g)
  case (Cons s ss)
  obtain g1 where g1: "(if \<not> flag_compute g s then map_option fst (f s g) else Some g) = Some g1" "cg_inv e param O' P g1" "grows {} g g1"
  proof (cases "flag_compute g s")
    case False
    obtain g1 where "f s g = Some (g1, slot (visited_hash_set g1) s)" "cg_inv e param O' P g1" "grows (ancestors e s) g g1"
      using visitsE [of e param R O' "f s" s P g] Cons.prems by (metis list.set_intros(1))
    then show ?thesis using that [of g1] grows_known Cons.prems(1) False by simp
  qed (use that [of g] Cons.prems(2) in simp)
  have fit: "has_room R g1" using has_room_after [OF Cons.prems(3,2) g1(2,3)] by simp
  have "set (recorded g1) = set (recorded g)" using g1(3) by (simp add: grows_def)
  then have "\<exists>g'. run_all (\<lambda>src g. if \<not> flag_compute g src then map_option fst (f src g) else Some g) ss g1 = Some g' \<and>
      cg_inv e param O' P g' \<and> grows {} g1 g'"
    using Cons.prems(1) by (intro Cons.IH [OF _ g1(2) fit]) simp
  then show ?case using g1(1) grows_trans [OF g1(3)] by auto
qed auto

lemma same_records:
  assumes "cg_inv e param O' P g" "cg_inv e param O' P' g'" "grows {} g g'"
  shows "length (cg_nodes g') = length (cg_nodes g)"
proof -
  have "set (recorded g') = set (recorded g)" "distinct (recorded g)" "distinct (recorded g')" using assms by (simp_all add: grows_def cg_inv_def)
  then have "length (recorded g') = length (recorded g)" by (metis distinct_card)
  moreover have "length (cg_leafs g) \<le> length (cg_leafs g')" "length (cg_nodes g) \<le> length (cg_nodes g')"
    using assms(3) by (simp_all add: grows_def prefix_length_le)
  ultimately show ?thesis by (simp add: recorded_def)
qed

lemma visit_known:
  assumes "dag_ok e rank" "\<And>s. s \<in> set (gt_src (tensor e v)) \<Longrightarrow> visits e param R O' (ggml_visit_parents_graph e param fuel s True) s"
    "cg_inv e param O' P g" "has_room R g" "v \<in> set (recorded g)"
  shows "\<exists>g'. ggml_visit_parents_graph e param (Suc fuel) v compute g = Some (g', slot (visited_hash_set g') v) \<and> cg_inv e param O' P g' \<and>
    grows {} g g'"
proof -
  have ok: "hash_ok (visited_hash_set g)" "v \<in> members (visited_hash_set g)" using assms(3,5) by (auto simp: cg_inv_def)
  note sl = slot_member [OF ok]
  define g0 where "g0 = set_compute e v compute g"
  have g0: "cg_inv e param O' P g0" "has_room R g0" "recorded g0 = recorded g" "visited_hash_set g0 = visited_hash_set g"
    using assms(3,4) by (simp_all add: g0_def)
  have ups: "ancestors e s \<subseteq> set (recorded g0)" if "s \<in> set (gt_src (tensor e v))" for s
    using recorded_ancestors [OF assms(1,3,5)] that ancestors_eq [of e v] by (auto simp: g0(3))
  obtain g' where g': "run_all (\<lambda>src g. if \<not> flag_compute g src then map_option fst (ggml_visit_parents_graph e param fuel src True g) else Some g)
      (gt_src (tensor e v)) g0 = Some g'" "cg_inv e param O' P g'" "grows {} g0 g'"
    using flag_loop [OF _ g0(1,2), of "gt_src (tensor e v)" "\<lambda>s. ggml_visit_parents_graph e param fuel s True"] assms(2) ups by blast
  have gr: "grows {} g g'" using g'(3) by (simp add: g0_def)
  show ?thesis
  proof (cases compute)
    case True
    have "slot (visited_hash_set g') v = slot (visited_hash_set g) v" using gr ok(2) by (simp add: grows_def)
    then show ?thesis using g' gr sl True by (simp add: g0_def Let_def)
  next
    case False
    then show ?thesis using sl assms(3) by (intro exI [of _ g]) (simp add: set_compute_def)
  qed
qed

lemma visit_new:
  assumes "dag_ok e rank" "\<And>s. s \<in> set (gt_src (tensor e v)) \<Longrightarrow> visits e param R (insert v O') (ggml_visit_parents_graph e param fuel s compute) s"
    "cg_inv e param O' P g" "has_room R g" "v \<notin> members (visited_hash_set g)" "ancestors e v \<subseteq> R"
  shows "\<exists>g'. ggml_visit_parents_graph e param (Suc fuel) v compute g = Some (g', slot (visited_hash_set g') v) \<and> cg_inv e param O' P g' \<and>
    grows (ancestors e v) g g' \<and> (length (cg_nodes g) < length (cg_nodes g') \<longrightarrow> last (cg_nodes g') = v)"
proof -
  define g0 where "g0 = set_compute e v compute g"
  have g0: "cg_inv e param O' P g0" "has_room R g0" "recorded g0 = recorded g" "visited_hash_set g0 = visited_hash_set g"
    using assms(3,4) by (simp_all add: g0_def)
  have ok: "hash_ok (visited_hash_set g0)" using g0(1) by (simp add: cg_inv_def)
  have "v \<in> R" using assms(6) ancestors.self by blast
  then obtain pos where pos: "ggml_hash_find (visited_hash_set g0) v = Some pos" using find_succeeds [OF ok g0(2)] by blast
  have free: "\<not> is_used (visited_hash_set g0) pos" using found_slot [OF ok pos, THEN conjunct2] assms(5) by (simp add: g0(4))
  define g1 where "g1 = mark_visited v pos g0"
  from mark_visited_inv [OF assms(1) g0(1) pos free]
  have g1: "cg_inv e param (insert v O') P g1" "grows {} g0 g1" "slot (visited_hash_set g1) v = pos" by (simp_all add: g1_def)
  have "members (visited_hash_set g1) \<subseteq> R" using g1(1,2) g0(1,2) \<open>v \<in> R\<close> by (auto simp: cg_inv_def grows_def has_room_def)
  then have fit: "has_room R g1" by (rule has_room_grows [OF g0(2) g1(2)])
  define ss where "ss = (case cg_order g0 of GGML_CGRAPH_EVAL_ORDER_LEFT_TO_RIGHT \<Rightarrow> gt_src (tensor e v)
    | GGML_CGRAPH_EVAL_ORDER_RIGHT_TO_LEFT \<Rightarrow> rev (gt_src (tensor e v)))"
  have ss: "set ss = set (gt_src (tensor e v))" "count_list ss t = count_list (gt_src (tensor e v)) t" for t
    by (simp_all add: ss_def split: ggml_cgraph_eval_order.split)
  have ups: "ancestors e s \<subseteq> R" if "s \<in> set ss" for s using assms(6) ancestors_eq [of e v] that ss(1) by blast
  obtain g2 where g2: "run_all (\<lambda>src g. map_option (\<lambda>(g, pos). count_use pos g) (ggml_visit_parents_graph e param fuel src compute g)) ss g1 = Some g2"
    "cg_inv e param (insert v O') (\<lambda>t. P t + count_list (gt_src (tensor e v)) t) g2" "grows (\<Union>s \<in> set ss. ancestors e s) g1 g2"
    using use_loop [OF _ g1(1) fit, of ss "\<lambda>s. ggml_visit_parents_graph e param fuel s compute"] assms(2) ups ss by auto
  have v: "v \<notin> O'" "v \<notin> set (recorded g)" using assms(3,5) by (auto simp: cg_inv_def)
  have gr: "grows (\<Union>s \<in> set ss. ancestors e s) g0 g2" using grows_trans [OF g1(2) g2(3)] by simp
  have fit2: "has_room R g2" using has_room_after [OF fit g1(1) g2(2,3)] ups by blast
  have ops: "set (gt_src (tensor e v)) \<subseteq> set (recorded g2)" using gr ss(1) ancestors.self by (fastforce simp: grows_def)
  have P: "t \<in> set (recorded g2)" if "P t \<noteq> 0" for t using that g0(1) gr by (auto simp: cg_inv_def grows_def)
  obtain g' where g': "record_tensor e param v g2 = Some g'" "cg_inv e param O' P g'" "grows {v} g2 g'"
    "cg_nodes g' = (if is_leaf e param v then cg_nodes g2 else cg_nodes g2 @ [v])"
    using record_inv [OF g2(2) v(1) fit2 P ops] by blast
  have all: "grows (ancestors e v) g g'"
    using grows_trans [OF gr g'(3)] by (simp add: ancestors_eq [of e v] ss(1) g0_def)
  have "slot (visited_hash_set g') v = pos"
    using g1 g2 g'(2,3) by (auto simp: cg_inv_def grows_def)
  moreover have "length (cg_nodes g) < length (cg_nodes g') \<longrightarrow> last (cg_nodes g') = v"
  proof (cases "is_leaf e param v")
    case True
    then have "ss = []" using ss(1) assms(1) by (auto simp: dag_ok_def is_leaf_def)
    then have "g2 = g1" using g2(1) by simp
    then show ?thesis using True g'(4) by (simp add: g1_def mark_visited_def g0_def)
  qed (use g'(4) in simp)
  moreover have "ggml_visit_parents_graph e param (Suc fuel) v compute g = Some (g', pos)"
    using g2(1) pos free g'(1)
    by (simp add: g0_def [symmetric] g1_def [symmetric] ss_def [symmetric] Let_def del: set_compute_simps)
  ultimately show ?thesis using g'(2) all by simp
qed

lemma visit_inv:
  assumes "dag_ok e rank" "rank v < fuel" "\<forall>o' \<in> O'. rank v < rank o'" "ancestors e v \<subseteq> R"
  shows "visits e param R O' (ggml_visit_parents_graph e param fuel v compute) v"
  using assms(2-)
proof (induction fuel arbitrary: v compute O')
  case (Suc fuel)
  have ups: "rank s < rank v" "ancestors e s \<subseteq> R" if "s \<in> set (gt_src (tensor e v))" for s
    using assms(1) Suc.prems(3) ancestors_eq [of e v] that by (auto simp: dag_ok_def)
  have kids: "visits e param R O'' (ggml_visit_parents_graph e param fuel s c) s"
    if "s \<in> set (gt_src (tensor e v))" "O'' \<subseteq> insert v O'" for s c O''
    using ups [OF that(1)] Suc.prems(1,2) that(2) by (intro Suc.IH) fastforce+
  show ?case unfolding visits_def
  proof (intro allI impI)
    fix g P
    assume iv: "cg_inv e param O' P g" and fit: "has_room R g"
    show "\<exists>g'. ggml_visit_parents_graph e param (Suc fuel) v compute g = Some (g', slot (visited_hash_set g') v) \<and> cg_inv e param O' P g' \<and>
        grows (ancestors e v) g g' \<and> (length (cg_nodes g) < length (cg_nodes g') \<longrightarrow> last (cg_nodes g') = v)"
    proof (cases "v \<in> members (visited_hash_set g)")
      case True
      have "v \<notin> O'" using Suc.prems(2) by blast
      then have rec: "v \<in> set (recorded g)" using True iv by (auto simp: cg_inv_def)
      obtain g' where g': "ggml_visit_parents_graph e param (Suc fuel) v compute g = Some (g', slot (visited_hash_set g') v)"
        "cg_inv e param O' P g'" "grows {} g g'"
        using visit_known [OF assms(1) kids iv fit rec, where compute = compute] by blast
      have "grows (ancestors e v) g g'" using g'(3) recorded_ancestors [OF assms(1) iv rec] by (auto simp: grows_def)
      then show ?thesis using g' same_records [OF iv g'(2,3)] by (intro exI [of _ g']) simp
    next
      case False
      show ?thesis by (rule visit_new [OF assms(1) kids iv fit False Suc.prems(3)]) simp_all
    qed
  qed
qed simp

section \<open>The flags\<close>

definition op_ancestors :: "graph_env \<Rightarrow> nat \<Rightarrow> nat set" where
  "op_ancestors e v = {t \<in> ancestors e v. gt_op (tensor e t) \<noteq> GGML_OP_NONE}"

text \<open>Who is flagged has flagged operands; only the tensors of \<open>X\<close>, which are being visited, may not.\<close>

definition flags_closed :: "graph_env \<Rightarrow> nat set \<Rightarrow> (nat \<Rightarrow> bool) \<Rightarrow> bool" where
  "flags_closed e X F \<longleftrightarrow> (\<forall>t. F t \<longrightarrow> t \<notin> X \<longrightarrow> (\<forall>s \<in> set (gt_src (tensor e t)). gt_op (tensor e s) \<noteq> GGML_OP_NONE \<longrightarrow> F s))"

lemma op_ancestors_eq: "op_ancestors e v = {t. t = v \<and> gt_op (tensor e v) \<noteq> GGML_OP_NONE} \<union> (\<Union>s \<in> set (gt_src (tensor e v)). op_ancestors e s)"
  using ancestors_eq [of e v] by (auto simp: op_ancestors_def)

lemma ancestors_rank: "dag_ok e rank \<Longrightarrow> t \<in> ancestors e v \<Longrightarrow> rank t \<le> rank v"
proof (rotate_tac 1, induction rule: ancestors.induct)
  case (operand t s)
  then have "rank s < rank t" "rank t \<le> rank v" by (simp_all add: dag_ok_def)
  then show ?case by simp
qed simp

lemma flagged_ancestors:
  assumes "dag_ok e rank" "flags_closed e X F" "\<forall>x \<in> X. rank s < rank x" "F s"
  shows "t \<in> op_ancestors e s \<Longrightarrow> F t"
proof -
  have "gt_op (tensor e t) \<noteq> GGML_OP_NONE \<longrightarrow> F t" if "t \<in> ancestors e s" for t
    using that
  proof induction
    case (operand t u)
    have "rank t \<le> rank s" by (rule ancestors_rank [OF assms(1) operand.hyps(1)])
    then have "t \<notin> X" using assms(3) by auto
    moreover have "gt_op (tensor e t) \<noteq> GGML_OP_NONE" using assms(1) operand.hyps(2) by (auto simp: dag_ok_def)
    ultimately show ?case using operand assms(2) by (auto simp: flags_closed_def)
  qed (use assms(4) in simp)
  then show "t \<in> op_ancestors e s \<Longrightarrow> F t" by (simp add: op_ancestors_def)
qed

lemma op_ancestors_closed: "t \<in> op_ancestors e v \<Longrightarrow> s \<in> set (gt_src (tensor e t)) \<Longrightarrow> gt_op (tensor e s) \<noteq> GGML_OP_NONE \<Longrightarrow> s \<in> op_ancestors e v"
  by (auto simp: op_ancestors_def intro: ancestors.operand)

definition with_ops :: "graph_env \<Rightarrow> nat set \<Rightarrow> (nat \<Rightarrow> bool) \<Rightarrow> nat \<Rightarrow> bool" where
  "with_ops e T F t \<longleftrightarrow> F t \<or> t \<in> (\<Union>v \<in> T. op_ancestors e v)"

lemma with_ops_closed: "flags_closed e X F \<Longrightarrow> flags_closed e X (with_ops e T F)"
proof -
  assume c: "flags_closed e X F"
  have "with_ops e T F s" if "with_ops e T F t" "t \<notin> X" "s \<in> set (gt_src (tensor e t))" "gt_op (tensor e s) \<noteq> GGML_OP_NONE" for t s
  proof (cases "F t")
    case True
    then show ?thesis using c that by (simp add: flags_closed_def with_ops_def)
  next
    case False
    then have "t \<in> (\<Union>v \<in> T. op_ancestors e v)" using that(1) by (simp add: with_ops_def)
    then obtain v where "v \<in> T" "t \<in> op_ancestors e v" by blast
    then show ?thesis using op_ancestors_closed [OF _ that(3,4)] by (auto simp: with_ops_def)
  qed
  then show ?thesis by (simp add: flags_closed_def)
qed

lemma with_ops_simps: "with_ops e {} F = F" "with_ops e T (with_ops e T' F) = with_ops e (T' \<union> T) F"
  by (auto simp: with_ops_def fun_eq_iff)

text \<open>The loops, for any way of visiting an operand that flags what it is computed from.\<close>

lemma flags_loop:
  assumes "\<And>s g g' pos. s \<in> set ss \<Longrightarrow> flags_closed e X (flag_compute g) \<Longrightarrow> f s g = Some (g', pos) \<Longrightarrow>
      flag_compute g' = with_ops e {s} (flag_compute g)"
    "\<And>s F. s \<in> set ss \<Longrightarrow> flags_closed e X F \<Longrightarrow> F s \<Longrightarrow> with_ops e {s} F = F"
    "flags_closed e X (flag_compute g)"
    "run_all (\<lambda>src g. if \<not> flag_compute g src then map_option fst (f src g) else Some g) ss g = Some g'"
  shows "flag_compute g' = with_ops e (set ss) (flag_compute g)"
  using assms
proof (induction ss arbitrary: g)
  case (Cons s ss)
  obtain g1 where g1: "(if \<not> flag_compute g s then map_option fst (f s g) else Some g) = Some g1"
    "run_all (\<lambda>src g. if \<not> flag_compute g src then map_option fst (f src g) else Some g) ss g1 = Some g'"
    using Cons.prems(4) by (auto simp: bind_eq_Some_conv)
  have f1: "flag_compute g1 = with_ops e {s} (flag_compute g)"
  proof (cases "flag_compute g s")
    case True
    then have "g1 = g" using g1(1) by simp
    then show ?thesis using Cons.prems(2) [of s "flag_compute g"] Cons.prems(3) True by simp
  next
    case False
    then obtain pos where "f s g = Some (g1, pos)" using g1(1) by auto
    then show ?thesis using Cons.prems(1) [of s g g1 pos] Cons.prems(3) by simp
  qed
  have "flag_compute g' = with_ops e (set ss) (flag_compute g1)"
    by (rule Cons.IH [OF _ _ _ g1(2)]) (use Cons.prems(1,2) in \<open>simp_all add: f1 with_ops_closed [OF Cons.prems(3)]\<close>)
  then show ?case by (simp add: f1 with_ops_simps)
qed (simp add: with_ops_simps)

lemma uses_flags_loop:
  assumes "\<And>s g g' pos. s \<in> set ss \<Longrightarrow> flags_closed e X (flag_compute g) \<Longrightarrow> f s g = Some (g', pos) \<Longrightarrow>
      flag_compute g' = with_ops e (if c then {s} else {}) (flag_compute g)"
    "flags_closed e X (flag_compute g)" "run_all (\<lambda>src g. map_option (\<lambda>(g, pos). count_use pos g) (f src g)) ss g = Some g'"
  shows "flag_compute g' = with_ops e (if c then set ss else {}) (flag_compute g)"
  using assms
proof (induction ss arbitrary: g)
  case (Cons s ss)
  obtain g1 pos where g1: "f s g = Some (g1, pos)" "run_all (\<lambda>src g. map_option (\<lambda>(g, pos). count_use pos g) (f src g)) ss (count_use pos g1) = Some g'"
    using Cons.prems(3) by (auto simp: bind_eq_Some_conv)
  have f1: "flag_compute (count_use pos g1) = with_ops e (if c then {s} else {}) (flag_compute g)"
    using Cons.prems(1) [of s g g1 pos] Cons.prems(2) g1(1) by (simp add: count_use_def)
  have "flag_compute g' = with_ops e (if c then set ss else {}) (flag_compute (count_use pos g1))"
    by (rule Cons.IH [OF _ _ g1(2)]) (use Cons.prems(1) in \<open>simp_all add: f1 with_ops_closed [OF Cons.prems(2)]\<close>)
  then show ?case by (simp add: f1 with_ops_simps)
qed (simp add: with_ops_simps)

lemma visit_flags:
  assumes "dag_ok e rank" "\<forall>x \<in> X. rank v < rank x" "flags_closed e X (flag_compute g)"
    "ggml_visit_parents_graph e param fuel v compute g = Some (g', pos)"
  shows "flag_compute g' = with_ops e (if compute then {v} else {}) (flag_compute g)"
  using assms(2-)
proof (induction fuel arbitrary: v compute g g' pos X)
  case (Suc fuel)
  define g0 where "g0 = set_compute e v compute g"
  define ss where "ss = gt_src (tensor e v)"
  have ups: "rank s < rank v" if "s \<in> set ss" for s using assms(1) that by (auto simp: dag_ok_def ss_def)
  have f0: "flag_compute g0 = (\<lambda>t. flag_compute g t \<or> (compute \<and> t = v \<and> gt_op (tensor e v) \<noteq> GGML_OP_NONE))"
    by (auto simp: g0_def set_compute_def fun_eq_iff)
  have cl0: "flags_closed e (insert v X) (flag_compute g0)" using Suc.prems(2) by (auto simp: flags_closed_def f0)
  have kids: "flag_compute g2 = with_ops e (if c then {s} else {}) (flag_compute g1)"
    if "s \<in> set ss" "flags_closed e (insert v X) (flag_compute g1)" "ggml_visit_parents_graph e param fuel s c g1 = Some (g2, pos)" for s c g1 g2 pos
    using Suc.IH [OF _ that(2,3)] ups [OF that(1)] Suc.prems(1) by (metis insert_iff less_trans)
  have flagged: "with_ops e {s} F = F" if "s \<in> set ss" "flags_closed e (insert v X) F" "F s" for s F
    using flagged_ancestors [OF assms(1) that(2) _ that(3)] ups [OF that(1)] Suc.prems(1) by (fastforce simp: with_ops_def fun_eq_iff)
  have sum: "with_ops e (if compute then set ss else {}) (flag_compute g0) = with_ops e (if compute then {v} else {}) (flag_compute g)"
    using op_ancestors_eq [of e v] by (auto simp: with_ops_def f0 ss_def fun_eq_iff)
  obtain q where q: "ggml_hash_find (visited_hash_set g0) v = Some q"
    using Suc.prems(3) by (auto simp: g0_def Let_def split: option.splits)
  define ts where "ts = (case cg_order g0 of GGML_CGRAPH_EVAL_ORDER_LEFT_TO_RIGHT \<Rightarrow> ss | GGML_CGRAPH_EVAL_ORDER_RIGHT_TO_LEFT \<Rightarrow> rev ss)"
  have ts: "set ts = set ss" by (simp add: ts_def split: ggml_cgraph_eval_order.split)
  let ?known = "run_all (\<lambda>src g. if \<not> flag_compute g src then map_option fst (ggml_visit_parents_graph e param fuel src True g) else Some g) ss g0"
  let ?new = "run_all (\<lambda>src g. map_option (\<lambda>(g, pos). count_use pos g) (ggml_visit_parents_graph e param fuel src compute g)) ts (mark_visited v q g0)"
  have step: "(if is_used (visited_hash_set g0) q then (if compute then map_option (\<lambda>g. (g, q)) ?known else Some (g0, q))
      else Option.bind ?new (\<lambda>g. map_option (\<lambda>g. (g, q)) (record_tensor e param v g))) = Some (g', pos)"
    using Suc.prems(3) [unfolded ggml_visit_parents_graph.simps Let_def, folded g0_def ss_def, folded ts_def] unfolding q option.case .
  show ?case
  proof (cases "is_used (visited_hash_set g0) q")
    case True
    show ?thesis
    proof (cases compute)
      case c: True
      then have run: "?known = Some g'" using step True by auto
      have kids1: "flag_compute g2 = with_ops e {s} (flag_compute g1)"
        if "s \<in> set ss" "flags_closed e (insert v X) (flag_compute g1)" "ggml_visit_parents_graph e param fuel s True g1 = Some (g2, pos)" for s g1 g2 pos
        using kids [OF that] by simp
      have "flag_compute g' = with_ops e (set ss) (flag_compute g0)" by (rule flags_loop [OF kids1 flagged cl0 run])
      then show ?thesis using sum c by simp
    next
      case False
      then have "g' = g0" using step True by simp
      then show ?thesis using sum False by (simp add: with_ops_simps)
    qed
  next
    case False
    have fm: "flag_compute (mark_visited v q g0) = flag_compute g0" by (simp add: mark_visited_def)
    obtain g2 where g2: "?new = Some g2" "record_tensor e param v g2 = Some g'" using step False by (auto simp: bind_eq_Some_conv)
    have "flag_compute g2 = with_ops e (if compute then set ts else {}) (flag_compute (mark_visited v q g0))"
      by (rule uses_flags_loop [OF kids [folded ts] cl0 [folded fm] g2(1)])
    moreover have "flag_compute g' = flag_compute g2" using g2(2) by (auto simp: record_tensor_def split: if_splits)
    ultimately have "flag_compute g' = with_ops e (if compute then set ts else {}) (flag_compute g0)" by (simp only: fm)
    then show ?thesis unfolding ts sum .
  qed
qed simp

section \<open>Whole graphs\<close>

definition built :: "graph_env \<Rightarrow> (nat \<Rightarrow> bool) \<Rightarrow> ggml_cgraph \<Rightarrow> bool" where
  "built e param g \<longleftrightarrow> cg_inv e param {} (\<lambda>_. 0) g"

lemma forward_built:
  assumes "dag_ok e rank" "rank v < fuel" "ancestors e v \<subseteq> R" "built e param g" "has_room R g"
  shows "\<exists>g'. ggml_build_forward_impl e param fuel v True compute g = Some g' \<and> built e param g' \<and> grows (ancestors e v) g g' \<and> has_room R g' \<and>
    (\<exists>pos. ggml_visit_parents_graph e param fuel v compute g = Some (g', pos))"
proof -
  have "visits e param R {} (ggml_visit_parents_graph e param fuel v compute) v"
    by (rule visit_inv [OF assms(1,2) _ assms(3)]) simp
  from visitsE [OF this assms(4) [unfolded built_def] assms(5)] obtain g' where
    g': "ggml_visit_parents_graph e param fuel v compute g = Some (g', slot (visited_hash_set g') v)" "cg_inv e param {} (\<lambda>_. 0) g'"
    "grows (ancestors e v) g g'" "length (cg_nodes g) < length (cg_nodes g') \<longrightarrow> last (cg_nodes g') = v" by blast
  have "cg_nodes g' ! (length (cg_nodes g') - 1) = v" if "length (cg_nodes g) < length (cg_nodes g')"
    using that g'(4) by (metis last_conv_nth length_0_conv not_less_zero)
  then have "ggml_build_forward_impl e param fuel v True compute g = Some g'" using g'(1) by (auto simp: ggml_build_forward_impl_def)
  then show ?thesis
    using g' has_room_after [OF assms(5) assms(4) [unfolded built_def] g'(2,3) assms(3)] by (auto simp: built_def)
qed

lemma forwards_built:
  assumes "dag_ok e rank" "\<And>m. m \<in> set ms \<Longrightarrow> rank (fst m) < fuel \<and> ancestors e (fst m) \<subseteq> R" "built e param g" "has_room R g"
    "flags_closed e {} (flag_compute g)"
  shows "\<exists>g'. run_all (\<lambda>(v, compute). ggml_build_forward_impl e param fuel v True compute) ms g = Some g' \<and> built e param g' \<and>
    grows (\<Union>m \<in> set ms. ancestors e (fst m)) g g' \<and> flag_compute g' = with_ops e {v. (v, True) \<in> set ms} (flag_compute g)"
  using assms(2-)
proof (induction ms arbitrary: g)
  case (Cons m ms)
  obtain v c where m: "m = (v, c)" by (cases m)
  obtain g1 pos where g1: "ggml_build_forward_impl e param fuel v True c g = Some g1" "built e param g1" "grows (ancestors e v) g g1" "has_room R g1"
    "ggml_visit_parents_graph e param fuel v c g = Some (g1, pos)"
    using forward_built [OF assms(1) _ _ Cons.prems(2,3), of v fuel c] Cons.prems(1) [of m] by (auto simp: m)
  have f1: "flag_compute g1 = with_ops e (if c then {v} else {}) (flag_compute g)"
    by (rule visit_flags [OF assms(1) _ Cons.prems(4) g1(5)]) simp
  obtain g' where g': "run_all (\<lambda>(v, compute). ggml_build_forward_impl e param fuel v True compute) ms g1 = Some g'" "built e param g'"
    "grows (\<Union>m \<in> set ms. ancestors e (fst m)) g1 g'" "flag_compute g' = with_ops e {v. (v, True) \<in> set ms} (flag_compute g1)"
    using Cons.IH [OF _ g1(2,4)] Cons.prems(1) with_ops_closed [OF Cons.prems(4)] by (auto simp: f1)
  have "(if c then {v} else {}) \<union> {v. (v, True) \<in> set ms} = {v. (v, True) \<in> set (m # ms)}" by (auto simp: m)
  then show ?case using g' g1(1) grows_trans [OF g1(3) g'(3)] by (simp add: f1 with_ops_simps m)
qed (simp add: with_ops_simps)

lemma new_graph_built:
  assumes "length counts = ggml_hash_size (n * 2)" "length garbage = ggml_hash_size (n * 2)" "finite R" "card R \<le> n"
  shows "built e param (ggml_new_graph_custom flags counts garbage n) \<and> has_room R (ggml_new_graph_custom flags counts garbage n) \<and>
    recorded (ggml_new_graph_custom flags counts garbage n) = [] \<and> flag_compute (ggml_new_graph_custom flags counts garbage n) = flags"
proof -
  define g where "g = ggml_new_graph_custom flags counts garbage n"
  have sz: "n * 2 \<le> ggml_hash_size (n * 2)" "0 < ggml_hash_size (n * 2)" using hash_size_bounds by simp_all
  have "hash_ok (visited_hash_set g) \<and> members (visited_hash_set g) = {}"
    by (rule new_empty [where sz = "ggml_hash_size (n * 2)"]) (use assms(2) sz(2) in \<open>simp_all add: g_def ggml_new_graph_custom_def ggml_hash_set_reset_def\<close>)
  then show ?thesis
    using assms sz unfolding g_def [symmetric]
    by (auto simp: built_def cg_inv_def has_room_def recorded_def g_def ggml_new_graph_custom_def ggml_hash_set_reset_def)
qed

lemma finite_ancestors: "dag_ok e rank \<Longrightarrow> finite (ancestors e v)"
proof (induction "rank v" arbitrary: v rule: less_induct)
  case less
  then show ?case unfolding ancestors_eq [of e v] by (auto simp: dag_ok_def)
qed

text \<open>A view shows a tensor, itself not a view, that one of its operands is computed from.\<close>

definition views_ok :: "graph_env \<Rightarrow> bool" where
  "views_ok e \<longleftrightarrow> (\<forall>t s. gt_view_src (tensor e t) = Some s \<longrightarrow> gt_op (tensor e t) \<noteq> GGML_OP_NONE \<and> gt_view_src (tensor e s) = None \<and>
    (\<exists>p \<in> set (gt_src (tensor e t)). s \<in> ancestors e p)) \<and>
    (\<forall>t. gt_input (tensor e t) \<longrightarrow> \<not> ggml_op_can_inplace (gt_op (tensor e t)))"

lemma built_graph_ok:
  assumes "dag_ok e rank" "views_ok e" "built e param g"
  shows "graph_ok e (cg_leafs g) (cg_nodes g)"
proof -
  define L where "L = cg_leafs g"
  define N where "N = cg_nodes g"
  note iv = assms(3) [unfolded built_def cg_inv_def recorded_def, folded L_def N_def]
  have leaf: "gt_op (tensor e t) = GGML_OP_NONE" if "t \<in> set L" for t using iv that by (simp add: is_leaf_def)
  have ops: "set (gt_src (tensor e (N ! i))) \<subseteq> set L \<union> set (take i N)" if "i < length N" for i using iv that by blast
  have closed: "s \<in> set L \<union> set (take i N)" if p: "p \<in> set L \<union> set (take i N)" and s: "s \<in> ancestors e p" for p s i
    using s
  proof induction
    case (operand t u)
    show ?case
    proof (cases "t \<in> set L")
      case True
      then show ?thesis using leaf [OF True] operand.hyps(2) assms(1) by (auto simp: dag_ok_def)
    next
      case False
      then obtain k where k: "k < i" "k < length N" "t = N ! k" using operand.IH by (auto simp: in_set_conv_nth)
      then show ?thesis using ops [OF k(2)] operand.hyps(2) set_take_subset_set_take [of k i N] by auto
    qed
  qed (rule p)
  have "s \<in> set L \<union> set (take i N)" if "i < length N" "gt_view_src (tensor e (N ! i)) = Some s" for i s
    using that assms(2) ops [OF that(1)] closed [of _ i s] unfolding views_ok_def by blast
  moreover have "gt_view_src (tensor e t) = None \<and> \<not> ggml_op_can_inplace (gt_op (tensor e t))" if "t \<in> set L" for t
    using leaf [OF that] assms(2) unfolding views_ok_def by (cases "gt_view_src (tensor e t)") auto
  ultimately show ?thesis
    using iv ops assms(2) unfolding graph_ok_def views_ok_def L_def [symmetric] N_def [symmetric]
    by (auto simp del: set_append)
qed

text \<open>C8: 
  From a new graph, any list of results is built without a failed assertion when the graph has room for what they
  are computed from.  Exactly those tensors are recorded, each once and after its operands, in the form that the allocator
  expects; every recorded tensor has the number of its readers as its use count.
\<close>

theorem results_are_built:
  assumes "dag_ok e rank" "views_ok e" "length counts = ggml_hash_size (n * 2)" "length garbage = ggml_hash_size (n * 2)"
    "\<And>v. v \<in> set vs \<Longrightarrow> rank v < fuel" "card (\<Union>v \<in> set vs. ancestors e v) \<le> n"
  shows "\<exists>g. run_all (ggml_build_forward_expand e param fuel) vs (ggml_new_graph_custom (\<lambda>_. False) counts garbage n) = Some g \<and>
    set (cg_leafs g) \<union> set (cg_nodes g) = (\<Union>v \<in> set vs. ancestors e v) \<and> graph_ok e (cg_leafs g) (cg_nodes g) \<and>
    (\<forall>t \<in> set (cg_leafs g) \<union> set (cg_nodes g). slot (visited_hash_set g) t < length (use_counts g) \<and>
       use_counts g ! slot (visited_hash_set g) t = int (count_list (uses e (cg_leafs g @ cg_nodes g)) t)) \<and>
    (\<forall>t. flag_compute g t \<longleftrightarrow> t \<in> (\<Union>v \<in> set vs. op_ancestors e v))"
proof -
  define R where "R = (\<Union>v \<in> set vs. ancestors e v)"
  define g0 where "g0 = ggml_new_graph_custom (\<lambda>_. False) counts garbage n"
  have fin: "finite R" using finite_ancestors [OF assms(1)] by (simp add: R_def)
  have g0: "built e param g0" "has_room R g0" "recorded g0 = []" "flag_compute g0 = (\<lambda>_. False)"
    using new_graph_built [OF assms(3,4) fin assms(6) [folded R_def]] by (simp_all add: g0_def)
  have runs: "run_all (ggml_build_forward_expand e param fuel) vs g
      = run_all (\<lambda>(v, compute). ggml_build_forward_impl e param fuel v True compute) (map (\<lambda>v. (v, True)) vs) g" for vs g
  proof (induction vs arbitrary: g)
    case (Cons v vs)
    then show ?case by (cases "ggml_build_forward_impl e param fuel v True True g") (simp_all add: ggml_build_forward_expand_def)
  qed simp
  have room: "rank (fst m) < fuel \<and> ancestors e (fst m) \<subseteq> R" if "m \<in> set (map (\<lambda>v. (v, True)) vs)" for m
    using that assms(5) by (auto simp: R_def)
  have cl: "flags_closed e {} (flag_compute g0)" by (simp add: flags_closed_def g0(4))
  obtain g where g: "run_all (ggml_build_forward_expand e param fuel) vs g0 = Some g" "built e param g"
    "grows (\<Union>m \<in> set (map (\<lambda>v. (v, True)) vs). ancestors e (fst m)) g0 g"
    "flag_compute g = with_ops e {v. (v, True) \<in> set (map (\<lambda>v. (v, True)) vs)} (flag_compute g0)"
    using forwards_built [OF assms(1) room g0(1,2) cl] unfolding runs by blast
  have all: "set (recorded g) = (\<Union>v \<in> set vs. ancestors e v)" using g(3) g0(3) by (simp add: grows_def)
  have "slot (visited_hash_set g) t < length (use_counts g) \<and> use_counts g ! slot (visited_hash_set g) t = int (count_list (uses e (recorded g)) t)"
    if "t \<in> set (recorded g)" for t
    using g(2) that slot_member [of "visited_hash_set g" t] by (auto simp: built_def cg_inv_def)
  moreover have "flag_compute g t \<longleftrightarrow> t \<in> (\<Union>v \<in> set vs. op_ancestors e v)" for t
    unfolding g(4) g0(4) by (auto simp: with_ops_def)
  ultimately show ?thesis
    using g(1) all built_graph_ok [OF assms(1,2) g(2)] unfolding recorded_def set_append g0_def by blast
qed

text \<open>C30: 
  A selection records all of the branches, in every state of the graph, but flags only what the selected one is
  computed from: the result is the branch with index \<open>idx\<close>.
\<close>

theorem selection_flags_one_branch:
  assumes "dag_ok e rank" "built e param g" "flags_closed e {} (flag_compute g)" "has_room R g" "idx < length ts"
    "\<And>v. v \<in> set ts \<Longrightarrow> rank v < fuel \<and> ancestors e v \<subseteq> R"
  shows "\<exists>g'. ggml_build_forward_select e param fuel ts idx g = Some (g', ts ! idx) \<and> built e param g' \<and>
    set (recorded g') = set (recorded g) \<union> (\<Union>v \<in> set ts. ancestors e v) \<and>
    prefix (cg_leafs g) (cg_leafs g') \<and> prefix (cg_nodes g) (cg_nodes g') \<and>
    (\<forall>t. flag_compute g' t \<longleftrightarrow> flag_compute g t \<or> t \<in> op_ancestors e (ts ! idx))"
proof -
  define ms where "ms = map (\<lambda>i. (ts ! i, i = idx)) [0..<length ts]"
  have runs: "run_all (\<lambda>i. ggml_build_forward_impl e param fuel (ts ! i) True (i = idx)) is g
      = run_all (\<lambda>(v, compute). ggml_build_forward_impl e param fuel v True compute) (map (\<lambda>i. (ts ! i, i = idx)) is) g" for "is" g
  proof (induction "is" arbitrary: g)
    case (Cons i "is")
    then show ?case by (cases "ggml_build_forward_impl e param fuel (ts ! i) True (i = idx) g") simp_all
  qed simp
  have mem: "fst m \<in> set ts" if "m \<in> set ms" for m using that by (auto simp: ms_def)
  obtain g' where g': "run_all (\<lambda>(v, compute). ggml_build_forward_impl e param fuel v True compute) ms g = Some g'" "built e param g'"
    "grows (\<Union>m \<in> set ms. ancestors e (fst m)) g g'" "flag_compute g' = with_ops e {v. (v, True) \<in> set ms} (flag_compute g)"
    using forwards_built [OF assms(1) _ assms(2,4,3), of ms fuel] assms(6) mem by blast
  have "fst ` set ms = set ts" by (auto simp: ms_def image_image in_set_conv_nth)
  then have U: "(\<Union>m \<in> set ms. ancestors e (fst m)) = (\<Union>v \<in> set ts. ancestors e v)" by (metis image_image)
  have S: "{v. (v, True) \<in> set ms} = {ts ! idx}" using assms(5) by (auto simp: ms_def)
  have "ggml_build_forward_select e param fuel ts idx g = Some (g', ts ! idx)"
    using g'(1) assms(5) by (simp add: ggml_build_forward_select_def runs ms_def)
  moreover have "set (recorded g') = set (recorded g) \<union> (\<Union>v \<in> set ts. ancestors e v)"
    "prefix (cg_leafs g) (cg_leafs g')" "prefix (cg_nodes g) (cg_nodes g')"
    using g'(3) unfolding grows_def U by simp_all
  moreover have "flag_compute g' t \<longleftrightarrow> flag_compute g t \<or> t \<in> op_ancestors e (ts ! idx)" for t
    unfolding g'(4) S by (simp add: with_ops_def)
  ultimately show ?thesis using g'(2) by blast
qed

section \<open>A run\<close>

text \<open>The graph of \<open>Graph_Safety\<close>: 1 is computed from 0, 2 from 1 and 0, and 3 from 2 and 0.\<close>

lemma run_dag: "dag_ok run_env (\<lambda>t. t)"
  by (auto simp: dag_ok_def run_env_def plain_def)

lemma run_srcs: "gt_src (tensor run_env 3) = [2, 0]" "gt_src (tensor run_env 2) = [1, 0]" "gt_src (tensor run_env 1) = [0]" "gt_src (tensor run_env 0) = []"
  by (simp_all add: run_env_def plain_def)

lemma run_ancestors: "ancestors run_env 0 = {0}" "ancestors run_env 1 = {0, 1}" "ancestors run_env 2 = {0, 1, 2}" "ancestors run_env 3 = {0, 1, 2, 3}"
proof -
  show a0: "ancestors run_env 0 = {0}" by (subst ancestors_eq) (simp only: run_srcs list.set UN_empty)
  show a1: "ancestors run_env 1 = {0, 1}" by (subst ancestors_eq) (auto simp: run_srcs a0 simp del: One_nat_def)
  show a2: "ancestors run_env 2 = {0, 1, 2}" by (subst ancestors_eq) (auto simp: run_srcs a0 a1 simp del: One_nat_def)
  show "ancestors run_env 3 = {0, 1, 2, 3}" by (subst ancestors_eq) (auto simp: run_srcs a0 a2 simp del: One_nat_def)
qed

lemma run_sizes: "ggml_hash_size 8 = 11"
  by (simp add: ggml_hash_size_def prime_search.simps primes_def)

lemma results_are_built_witness:
  "\<exists>g. run_all (ggml_build_forward_expand run_env (\<lambda>_. False) 4) [3] (ggml_new_graph_custom (\<lambda>_. False) (replicate 11 7) (replicate 11 0) 4) = Some g \<and>
    set (cg_leafs g) \<union> set (cg_nodes g) = {0, 1, 2, 3} \<and> graph_ok run_env (cg_leafs g) (cg_nodes g) \<and>
    use_counts g ! slot (visited_hash_set g) 0 = int (count_list (uses run_env (cg_leafs g @ cg_nodes g)) 0)"
proof -
  have views: "views_ok run_env" by (simp add: views_ok_def run_env_def plain_def)
  have "card (\<Union>v \<in> set [3]. ancestors run_env v) \<le> 4" by (simp add: run_ancestors)
  from results_are_built [OF run_dag views _ _ _ this, of "replicate 11 7" "replicate 11 0" 4 "\<lambda>_. False"] show ?thesis
    by (auto simp: run_sizes run_ancestors)
qed

lemma selection_flags_one_branch_witness:
  "\<exists>g. ggml_build_forward_select run_env (\<lambda>_. False) 4 [1, 2] 0 (ggml_new_graph_custom (\<lambda>_. False) (replicate 11 7) (replicate 11 0) 4) = Some (g, 1) \<and>
    set (recorded g) = {0, 1, 2} \<and> flag_compute g 1 \<and> \<not> flag_compute g 2"
proof -
  define g0 where "g0 = ggml_new_graph_custom (\<lambda>_. False) (replicate 11 7) (replicate 11 0) 4"
  have g0: "built run_env (\<lambda>_. False) g0" "has_room {0, 1, 2} g0" "recorded g0 = []" "flag_compute g0 = (\<lambda>_. False)"
    using new_graph_built [of "replicate 11 7" 4 "replicate 11 0" "{0, 1, 2}" run_env "\<lambda>_. False" "\<lambda>_. False"] by (simp_all add: run_sizes g0_def)
  have fl: "flags_closed run_env {} (flag_compute g0)" by (simp add: flags_closed_def g0)
  have ops: "1 \<in> op_ancestors run_env 1" "2 \<notin> op_ancestors run_env 1"
    by (simp_all add: op_ancestors_def run_ancestors del: One_nat_def) (simp add: run_env_def plain_def)
  have up: "v < 4 \<and> ancestors run_env v \<subseteq> {0, 1, 2}" if "v \<in> set [1, 2]" for v
    using that run_ancestors by (auto simp del: One_nat_def)
  obtain g where "ggml_build_forward_select run_env (\<lambda>_. False) 4 [1, 2] 0 g0 = Some (g, [1, 2] ! 0)"
    "set (recorded g) = set (recorded g0) \<union> (\<Union>v \<in> set [1, 2]. ancestors run_env v)"
    "\<forall>t. flag_compute g t \<longleftrightarrow> flag_compute g0 t \<or> t \<in> op_ancestors run_env ([1, 2] ! 0)"
    using selection_flags_one_branch [OF run_dag g0(1) fl g0(2) _ up, where idx = 0 and ts = "[1, 2]"] by simp blast
  moreover have "(\<Union>v \<in> set [1, 2]. ancestors run_env v) = {0, 1, 2}" by (auto simp: run_ancestors simp del: One_nat_def)
  ultimately show ?thesis using ops by (intro exI [of _ g]) (simp add: g0 g0_def [symmetric] del: One_nat_def)
qed

end
