(* ===== verification/Graph_Buffers.thy ===== *)
theory Graph_Buffers
  imports Graph_Safety
begin

text \<open>
  The graph allocator around the placement (\<open>ggml-alloc.c\<close>): allocators for the types of buffers, the tables of
  addresses that a reservation leaves, the buffers behind the chunks, and the assignment of memory to a graph.

  The buffers of a backend are given by what allocating a number of bytes yields.  A virtual buffer is the list of the sizes of
  its chunks.  \<open>ts\<close> holds where the tensors of the graph were put.
\<close>

section \<open>State\<close>

record tensor_alloc =
  ta_place :: "(nat \<times> buffer_address) option"
  ta_size_max :: nat

record node_alloc =
  na_dst :: tensor_alloc
  na_src :: "tensor_alloc list"

record galloc =
  gallocr :: ggml_gallocr
  n_buffers :: nat
  buffers :: "nat \<Rightarrow> nat list option"
  node_allocs :: "node_alloc list"
  leaf_allocs :: "tensor_alloc list"

text \<open>Buffers of a type that was seen before share its allocator.\<close>

definition new_buffer :: "(nat \<Rightarrow> nat) \<Rightarrow> (nat \<Rightarrow> nat) \<Rightarrow> nat list \<Rightarrow> ggml_dyn_tallocr list \<times> nat list \<Rightarrow> nat \<Rightarrow> ggml_dyn_tallocr list \<times> nat list" where
  "new_buffer get_alignment get_max_size bufts = (\<lambda>(as, idx) i.
    (case find (\<lambda>j. bufts ! i = bufts ! j) [0..<i] of
       Some j \<Rightarrow> (as, idx @ [idx ! j])
     | None \<Rightarrow> (as @ [ggml_dyn_tallocr_new (get_alignment (bufts ! i)) (get_max_size (bufts ! i))], idx @ [length as])))"

definition ggml_gallocr_new_n :: "(nat \<Rightarrow> nat) \<Rightarrow> (nat \<Rightarrow> nat) \<Rightarrow> nat list \<Rightarrow> galloc" where
  "ggml_gallocr_new_n get_alignment get_max_size bufts =
    (let (as, idx) = foldl (new_buffer get_alignment get_max_size bufts) ([], []) [0..<length bufts]
     in \<lparr>gallocr = \<lparr>tallocs = as, talloc_of = (\<lambda>b. idx ! b), hash_values = (\<lambda>_. zero_node)\<rparr>,
         n_buffers = length bufts, buffers = (\<lambda>_. None), node_allocs = [], leaf_allocs = []\<rparr>)"

section \<open>Reserving\<close>

definition ggml_vbuffer_chunk_size :: "nat list \<Rightarrow> nat \<Rightarrow> nat" where
  "ggml_vbuffer_chunk_size buf c = (if c < length buf then buf ! c else 0)"

definition ggml_vbuffer_alloc :: "(nat \<Rightarrow> nat option) \<Rightarrow> ggml_dyn_tallocr \<Rightarrow> nat list option" where
  "ggml_vbuffer_alloc alloc_buffer a = those (map (\<lambda>ch. alloc_buffer (max_size ch)) (chunks a))"

definition tensor_alloc_of :: "graph_env \<Rightarrow> ggml_gallocr \<Rightarrow> nat \<Rightarrow> tensor_alloc" where
  "tensor_alloc_of e g t =
    (if ggml_is_view e t \<or> gt_data (tensor e t) then \<lparr>ta_place = None, ta_size_max = 0\<rparr>
     else let hn = hash_values g t
          in \<lparr>ta_place = Some (buffer_id hn, hn_addr hn), ta_size_max = get_alloc_size e (buffer_id hn) t\<rparr>)"

definition node_alloc_of :: "graph_env \<Rightarrow> ggml_gallocr \<Rightarrow> nat \<Rightarrow> node_alloc" where
  "node_alloc_of e g v = \<lparr>na_dst = tensor_alloc_of e g v, na_src = map (tensor_alloc_of e g) (gt_src (tensor e v))\<rparr>"

definition needs_buffer :: "ggml_dyn_tallocr \<Rightarrow> nat list option \<Rightarrow> bool" where
  "needs_buffer a buf =
    (case buf of None \<Rightarrow> True
     | Some b \<Rightarrow> list_ex (\<lambda>c. ggml_vbuffer_chunk_size b c < ggml_dyn_tallocr_max_size a c) [0..<length (chunks a)])"

definition shared_buffer :: "ggml_gallocr \<Rightarrow> nat \<Rightarrow> (nat \<Rightarrow> nat list option) \<Rightarrow> nat \<Rightarrow> nat list option" where
  "shared_buffer g i bufs =
    (case find (\<lambda>j. talloc_of g j = talloc_of g i) [0..<i] of None \<Rightarrow> bufs | Some j \<Rightarrow> bufs(i := bufs j))"

fun reserve_buffers ::
  "(nat \<Rightarrow> nat \<Rightarrow> nat option) \<Rightarrow> bool \<Rightarrow> ggml_gallocr \<Rightarrow> nat list \<Rightarrow> (nat \<Rightarrow> nat list option) \<Rightarrow> (nat \<Rightarrow> nat list option) \<times> bool" where
  "reserve_buffers alloc_buffer no_alloc g [] bufs = (bufs, True)"
| "reserve_buffers alloc_buffer no_alloc g (i # is) bufs0 =
    (let bufs = shared_buffer g i bufs0
     in if needs_buffer (buf_talloc g i) (bufs i) then
          (if no_alloc then reserve_buffers alloc_buffer no_alloc g is (bufs(i := None))
           else case ggml_vbuffer_alloc (alloc_buffer i) (buf_talloc g i) of
                  None \<Rightarrow> (bufs(i := None), False)
                | Some buf \<Rightarrow> reserve_buffers alloc_buffer no_alloc g is (bufs(i := Some buf)))
        else reserve_buffers alloc_buffer no_alloc g is bufs)"

definition ggml_gallocr_reserve_n_impl ::
  "graph_env \<Rightarrow> (nat \<Rightarrow> nat \<Rightarrow> nat option) \<Rightarrow> bool \<Rightarrow> (nat \<times> nat) list \<Rightarrow> (nat \<times> nat) list \<Rightarrow> galloc \<Rightarrow> (galloc \<times> bool) option" where
  "ggml_gallocr_reserve_n_impl e alloc_buffer no_alloc leafs nodes ga =
    map_option (\<lambda>g.
      let (bufs, ok) = reserve_buffers alloc_buffer no_alloc g [0..<n_buffers ga] (buffers ga)
      in (ga\<lparr>gallocr := g, node_allocs := map (\<lambda>m. node_alloc_of e g (fst m)) nodes,
             leaf_allocs := map (\<lambda>m. tensor_alloc_of e g (fst m)) leafs, buffers := bufs\<rparr>, ok))
      (place_graph e leafs nodes (gallocr ga))"

definition ggml_gallocr_reserve_n ::
  "graph_env \<Rightarrow> (nat \<Rightarrow> nat \<Rightarrow> nat option) \<Rightarrow> (nat \<times> nat) list \<Rightarrow> (nat \<times> nat) list \<Rightarrow> galloc \<Rightarrow> (galloc \<times> bool) option" where
  "ggml_gallocr_reserve_n e alloc_buffer leafs nodes ga = ggml_gallocr_reserve_n_impl e alloc_buffer False leafs nodes ga"

definition ggml_gallocr_reserve :: "graph_env \<Rightarrow> (nat \<Rightarrow> nat \<Rightarrow> nat option) \<Rightarrow> nat list \<Rightarrow> nat list \<Rightarrow> galloc \<Rightarrow> (galloc \<times> bool) option" where
  "ggml_gallocr_reserve e alloc_buffer leafs nodes ga =
    ggml_gallocr_reserve_n e alloc_buffer (map (\<lambda>t. (t, 0)) leafs) (map (\<lambda>t. (t, 0)) nodes) ga"

definition ggml_gallocr_reserve_n_size ::
  "graph_env \<Rightarrow> (nat \<Rightarrow> nat \<Rightarrow> nat option) \<Rightarrow> (nat \<times> nat) list \<Rightarrow> (nat \<times> nat) list \<Rightarrow> galloc \<Rightarrow> (galloc \<times> nat list) option" where
  "ggml_gallocr_reserve_n_size e alloc_buffer leafs nodes ga =
    Option.bind (ggml_gallocr_reserve_n_impl e alloc_buffer True leafs nodes ga)
      (\<lambda>(ga', ok). if ok then Some (ga', map (\<lambda>i. sum_list (map max_size (chunks (buf_talloc (gallocr ga') i)))) [0..<n_buffers ga']) else None)"

section \<open>Assigning memory to a graph\<close>

text \<open>A tensor is at an address of a buffer, or shows the memory of another tensor.\<close>

datatype location = At_Buffer nat buffer_address | View_Of nat

type_synonym tensor_state = "nat \<Rightarrow> location option"

definition has_data :: "graph_env \<Rightarrow> tensor_state \<Rightarrow> nat \<Rightarrow> bool" where
  "has_data e ts t \<longleftrightarrow> gt_data (tensor e t) \<or> ts t \<noteq> None"

definition has_buffer :: "graph_env \<Rightarrow> tensor_state \<Rightarrow> nat \<Rightarrow> bool" where
  "has_buffer e ts t \<longleftrightarrow> gt_buffer (tensor e t) \<or> ts t \<noteq> None"

definition env_with :: "graph_env \<Rightarrow> tensor_state \<Rightarrow> graph_env" where
  "env_with e ts = e\<lparr>tensor := (\<lambda>t. (tensor e t)\<lparr>gt_data := has_data e ts t, gt_buffer := has_buffer e ts t\<rparr>)\<rparr>"

definition ggml_vbuffer_tensor_alloc :: "graph_env \<Rightarrow> galloc \<Rightarrow> nat \<Rightarrow> nat \<Rightarrow> buffer_address \<Rightarrow> tensor_state \<Rightarrow> tensor_state option" where
  "ggml_vbuffer_tensor_alloc e ga t b addr ts =
    (case buffers ga b of
       None \<Rightarrow> None
     | Some buf \<Rightarrow>
         if has_buffer e ts t \<or> has_data e ts t \<or> ggml_is_view e t \<or> length buf \<le> fst addr \<or> buf ! fst addr < snd addr + get_alloc_size e b t then None
         else Some (ts(t \<mapsto> At_Buffer b addr)))"

definition ggml_backend_view_init :: "graph_env \<Rightarrow> nat \<Rightarrow> nat \<Rightarrow> tensor_state \<Rightarrow> tensor_state option" where
  "ggml_backend_view_init e t s ts = (if has_buffer e ts t \<or> \<not> has_buffer e ts s \<or> \<not> has_data e ts s then None else Some (ts(t \<mapsto> View_Of s)))"

definition ggml_gallocr_init_tensor :: "graph_env \<Rightarrow> galloc \<Rightarrow> nat \<Rightarrow> tensor_alloc \<Rightarrow> tensor_state \<Rightarrow> tensor_state option" where
  "ggml_gallocr_init_tensor e ga t ta ts =
    (if \<not> (has_data e ts t \<or> ggml_is_view e t \<or> (case ta_place ta of None \<Rightarrow> False | Some (b, _) \<Rightarrow> get_alloc_size e b t \<le> ta_size_max ta)) then None
     else
       case gt_view_src (tensor e t) of
         Some s \<Rightarrow>
           if has_buffer e ts t then Some ts
           else if ta_place ta \<noteq> None then None
           else if \<not> has_buffer e ts s then Some ts
           else ggml_backend_view_init e t s ts
       | None \<Rightarrow>
           if has_data e ts t then Some ts
           else (case ta_place ta of None \<Rightarrow> None | Some (b, addr) \<Rightarrow> ggml_vbuffer_tensor_alloc e ga t b addr ts))"

text \<open>True when the address that was reserved can be used, despite its name.\<close>

definition ggml_gallocr_node_needs_realloc :: "graph_env \<Rightarrow> nat \<Rightarrow> tensor_alloc \<Rightarrow> bool" where
  "ggml_gallocr_node_needs_realloc e t ta \<longleftrightarrow>
    (if \<not> gt_data (tensor e t) \<and> \<not> ggml_is_view e t
     then (case ta_place ta of None \<Rightarrow> False | Some (b, _) \<Rightarrow> get_alloc_size e b t \<le> ta_size_max ta)
     else 0 \<le> ta_size_max ta)"

text \<open>Operands that were not there have no place.\<close>

definition src_alloc :: "node_alloc \<Rightarrow> nat \<Rightarrow> tensor_alloc" where
  "src_alloc na j = (if j < length (na_src na) then na_src na ! j else \<lparr>ta_place = None, ta_size_max = 0\<rparr>)"

definition ggml_gallocr_needs_realloc :: "graph_env \<Rightarrow> galloc \<Rightarrow> nat list \<Rightarrow> nat list \<Rightarrow> bool" where
  "ggml_gallocr_needs_realloc e ga leafs nodes \<longleftrightarrow>
    length (node_allocs ga) \<noteq> length nodes \<or> length (leaf_allocs ga) \<noteq> length leafs \<or>
    list_ex (\<lambda>i. let v = nodes ! i; na = node_allocs ga ! i; srcs = gt_src (tensor e v)
       in \<not> ggml_gallocr_node_needs_realloc e v (na_dst na) \<or>
          list_ex (\<lambda>j. \<not> ggml_gallocr_node_needs_realloc e (srcs ! j) (src_alloc na j)) [0..<length srcs]) [0..<length nodes]"

definition init_node :: "graph_env \<Rightarrow> galloc \<Rightarrow> nat \<times> node_alloc \<Rightarrow> tensor_state \<Rightarrow> tensor_state option" where
  "init_node e ga = (\<lambda>(v, na) ts.
    (let srcs = gt_src (tensor e v)
     in Option.bind (run_all (\<lambda>j. ggml_gallocr_init_tensor e ga (srcs ! j) (src_alloc na j)) [0..<length srcs] ts)
          (ggml_gallocr_init_tensor e ga v (na_dst na))))"

definition init_graph :: "graph_env \<Rightarrow> galloc \<Rightarrow> nat list \<Rightarrow> nat list \<Rightarrow> tensor_state \<Rightarrow> tensor_state option" where
  "init_graph e ga leafs nodes ts =
    Option.bind (run_all (\<lambda>(t, ta). ggml_gallocr_init_tensor e ga t ta) (zip leafs (leaf_allocs ga)) ts)
      (run_all (init_node e ga) (zip nodes (node_allocs ga)))"

definition ggml_gallocr_alloc_graph ::
  "graph_env \<Rightarrow> (nat \<Rightarrow> nat \<Rightarrow> nat option) \<Rightarrow> nat list \<Rightarrow> nat list \<Rightarrow> galloc \<Rightarrow> tensor_state \<Rightarrow> (galloc \<times> tensor_state \<times> bool) option" where
  "ggml_gallocr_alloc_graph e alloc_buffer leafs nodes ga ts =
    Option.bind
      (if ggml_gallocr_needs_realloc (env_with e ts) ga leafs nodes
       then if n_buffers ga = 1 then ggml_gallocr_reserve (env_with e ts) alloc_buffer leafs nodes ga else Some (ga, False)
       else Some (ga, True))
      (\<lambda>(ga', ok). if \<not> ok then Some (ga', ts, False) else map_option (\<lambda>ts'. (ga', ts', True)) (init_graph e ga' leafs nodes ts))"

section \<open>Recorded sizes only grow\<close>

definition peak_le :: "ggml_dyn_tallocr \<Rightarrow> ggml_dyn_tallocr \<Rightarrow> bool" where
  "peak_le a a' \<longleftrightarrow> (\<forall>c. ggml_dyn_tallocr_max_size a c \<le> ggml_dyn_tallocr_max_size a' c)"

definition peaks_grow :: "ggml_gallocr \<Rightarrow> ggml_gallocr \<Rightarrow> bool" where
  "peaks_grow g g' \<longleftrightarrow> (\<forall>d. peak_le (tallocs g ! d) (tallocs g' ! d))"

lemma peaks_refl [simp]: "peaks_grow g g"
  by (simp add: peaks_grow_def peak_le_def)

lemma peaks_trans: "peaks_grow g g' \<Longrightarrow> peaks_grow g' g'' \<Longrightarrow> peaks_grow g g''"
  unfolding peaks_grow_def peak_le_def by (meson le_trans)

lemma peaks_same: "tallocs g' = tallocs g \<Longrightarrow> peaks_grow g g'"
  by (simp add: peaks_grow_def peak_le_def)

lemma update_peak: "max_size (chunks a ! c) \<le> max_size ch \<Longrightarrow> peak_le a (a\<lparr>chunks := (chunks a)[c := ch]\<rparr>)"
  by (cases "c < length (chunks a)") (auto simp: peak_le_def ggml_dyn_tallocr_max_size_def nth_list_update list_update_beyond)

lemma alloc_peak: "ggml_dyn_tallocr_alloc a n = Some (a', addr) \<Longrightarrow> peak_le a a'"
proof -
  assume run: "ggml_dyn_tallocr_alloc a n = Some (a', addr)"
  obtain a1 c i ch where f: "find_block a (aligned_offset n (alignment a)) = Some (a1, c, i)"
    and t: "take_block (aligned_offset n (alignment a)) (chunks a1 ! c) i = Some ch" "a' = a1\<lparr>chunks := (chunks a1)[c := ch]\<rparr>"
    using run by (auto simp: ggml_dyn_tallocr_alloc_def Let_def split: option.splits)
  have "peak_le a a1"
    using f by (cases rule: find_block_cases)
      (auto simp: peak_le_def ggml_dyn_tallocr_max_size_def ggml_dyn_tallocr_new_chunk_def nth_append Let_def split: if_splits)
  moreover have "peak_le a1 a'" unfolding t(2) by (rule update_peak) (use t(1) in \<open>auto simp: take_block_def Let_def\<close>)
  ultimately show ?thesis unfolding peak_le_def by (meson le_trans)
qed

lemma free_peak: "ggml_dyn_tallocr_free_bytes a addr n = Some a' \<Longrightarrow> peak_le a a'"
  using update_peak by (fastforce simp: ggml_dyn_tallocr_free_bytes_def Let_def)

lemma set_talloc_peak: "peak_le (buf_talloc g b) a \<Longrightarrow> peaks_grow g (set_talloc b a g)"
  by (cases "talloc_of g b < length (tallocs g)")
    (auto simp: peaks_grow_def set_talloc_def buf_talloc_def nth_list_update peak_le_def list_update_beyond)

lemma set_hash_peak: "peak_le (buf_talloc g b) a \<Longrightarrow> peaks_grow g (upd_hash t f (set_talloc b a g))"
  using peaks_trans [OF set_talloc_peak peaks_same] by simp

lemma alloc_new_peak:
  assumes "alloc_new e v b g = Some g'"
  shows "peaks_grow g g'"
proof -
  obtain a addr where "ggml_dyn_tallocr_alloc (buf_talloc g b) (get_alloc_size e b v) = Some (a, addr)"
    and g': "g' = upd_hash v (\<lambda>h. h\<lparr>buffer_id := b, hn_addr := addr\<rparr>) (set_talloc b a g)"
    using assms by (auto simp: alloc_new_def)
  then show ?thesis unfolding g' by (intro set_hash_peak) (rule alloc_peak)
qed

lemma free_node_peak:
  assumes "ggml_gallocr_free_node e t g = Some g'"
  shows "peaks_grow g g'"
proof (cases "gt_output (tensor e t)")
  case False
  define b where "b = buffer_id (hash_values g t)"
  obtain a where "ggml_dyn_tallocr_free_bytes (buf_talloc g b) (hn_addr (hash_values g t)) (get_alloc_size e b t) = Some a"
    and g': "g' = upd_hash t (\<lambda>h. h\<lparr>allocated := False\<rparr>) (set_talloc b a g)"
    using assms False by (auto simp: ggml_gallocr_free_node_def Let_def b_def)
  then show ?thesis unfolding g' by (intro set_hash_peak) (rule free_peak)
qed (use assms in \<open>simp add: ggml_gallocr_free_node_def\<close>)

lemma free_extra_peak:
  assumes "ggml_gallocr_free_extra_space e v p g = Some g'"
  shows "peaks_grow g g'"
proof -
  define b where "b = buffer_id (hash_values g p)"
  define n where "n = aligned_offset (get_alloc_size e (buffer_id (hash_values g v)) v) (alignment (buf_talloc g b))"
  define m where "m = aligned_offset (get_alloc_size e b p) (alignment (buf_talloc g b))"
  have "(if n < m then map_option (\<lambda>a. set_talloc b a g)
      (ggml_dyn_tallocr_free_bytes (buf_talloc g b) (fst (hn_addr (hash_values g p)), snd (hn_addr (hash_values g p)) + n) (m - n)) else Some g) = Some g'"
    using assms by (simp add: ggml_gallocr_free_extra_space_def b_def n_def m_def Let_def split: if_splits)
  then have step: "(if n < m then map_option (\<lambda>a. set_talloc b a g)
      (ggml_dyn_tallocr_free_bytes (buf_talloc g b) (fst (hn_addr (hash_values g p)), snd (hn_addr (hash_values g p)) + n) (m - n)) else Some g) = Some g'" .
  show ?thesis
  proof (cases "n < m")
    case True
    then obtain a where fr: "ggml_dyn_tallocr_free_bytes (buf_talloc g b) (fst (hn_addr (hash_values g p)), snd (hn_addr (hash_values g p)) + n) (m - n) = Some a"
      and g': "g' = set_talloc b a g"
      using step by auto
    show ?thesis unfolding g' by (rule set_talloc_peak [OF free_peak [OF fr]])
  next
    case False
    then show ?thesis using step by simp
  qed
qed

lemma reuse_loop_peak: "reuse_loop e v ps g = Some (Some g') \<Longrightarrow> peaks_grow g g'"
proof (induction ps)
  case (Cons p ps)
  have to: "peaks_grow g (take_over v p g)" by (rule peaks_same) (simp add: take_over_def Let_def)
  show ?case
  proof (cases "can_reuse e g v p")
    case (Reuse_View s)
    have "peaks_grow g (upd_hash s (\<lambda>h. h\<lparr>allocated := False\<rparr>) (take_over v p g))" by (rule peaks_same) (simp add: take_over_def Let_def)
    then show ?thesis using Cons.prems Reuse_View peaks_trans free_extra_peak by (fastforce split: if_splits)
  next
    case Reuse_Parent
    then show ?thesis using Cons.prems peaks_trans [OF to] free_extra_peak by fastforce
  qed (use Cons in simp)
qed simp

lemma allocate_node_peak: "ggml_gallocr_allocate_node e v b g = Some g' \<Longrightarrow> peaks_grow g g'"
proof -
  assume run: "ggml_gallocr_allocate_node e v b g = Some g'"
  have "peaks_grow g (upd_hash v (\<lambda>h. h\<lparr>allocated := True\<rparr>) g)" by (rule peaks_same) simp
  moreover have "g' = g \<or> alloc_new e v b (upd_hash v (\<lambda>h. h\<lparr>allocated := True\<rparr>) g) = Some g' \<or>
      reuse_loop e v (gt_src (tensor e v)) (upd_hash v (\<lambda>h. h\<lparr>allocated := True\<rparr>) g) = Some (Some g')"
    using run by (auto simp: ggml_gallocr_allocate_node_def Let_def split: if_splits option.splits)
  ultimately show ?thesis using alloc_new_peak reuse_loop_peak peaks_trans by auto
qed

lemma release_parent_peak: "release_parent e p g = Some g' \<Longrightarrow> peaks_grow g g'"
proof -
  assume run: "release_parent e p g = Some g'"
  have "tallocs g' = tallocs g \<or> (\<exists>t g1. tallocs g1 = tallocs g \<and> ggml_gallocr_free_node e t g1 = Some g')"
    using run by (fastforce simp: release_parent_def Let_def split: if_splits option.splits)
  then show ?thesis using peaks_same free_node_peak peaks_trans by blast
qed

lemma run_all_peak:
  assumes "\<And>x g g'. f x g = Some g' \<Longrightarrow> peaks_grow g g'" "run_all f xs g = Some g'"
  shows "peaks_grow g g'"
  using assms(2)
proof (induction xs arbitrary: g)
  case (Cons x xs)
  then obtain g1 where "f x g = Some g1" "run_all f xs g1 = Some g'" by (auto simp: bind_eq_Some_conv)
  then show ?case using Cons.IH assms(1) peaks_trans by blast
qed simp

lemma release_node_peak: "release_node e m g = Some g' \<Longrightarrow> peaks_grow g g'"
  using run_all_peak [OF release_parent_peak] by (auto simp: release_node_def split: prod.splits)

lemma alloc_step_peak: "alloc_step e m g = Some g' \<Longrightarrow> peaks_grow g g'"
proof -
  assume "alloc_step e m g = Some g'"
  then obtain g1 g2 where g: "run_all (\<lambda>p. ggml_gallocr_allocate_node e p (snd m)) (gt_src (tensor e (fst m))) g = Some g1"
    "ggml_gallocr_allocate_node e (fst m) (snd m) g1 = Some g2" "release_node e m g2 = Some g'"
    by (auto simp: alloc_step_def place_node_def bind_eq_Some_conv split: prod.splits)
  have "peaks_grow g g1" by (rule run_all_peak [OF allocate_node_peak g(1)])
  then show ?thesis using peaks_trans allocate_node_peak [OF g(2)] release_node_peak [OF g(3)] by blast
qed

lemma alloc_steps_peak: "run_all (alloc_step e) ms g = Some g' \<Longrightarrow> peaks_grow g g'"
  by (rule run_all_peak [OF alloc_step_peak])

section \<open>Every tensor lies within its chunk\<close>

definition inside_chunk :: "graph_env \<Rightarrow> ggml_gallocr \<Rightarrow> nat \<Rightarrow> bool" where
  "inside_chunk e g t \<longleftrightarrow> (let h = hash_values g t in talloc g t < length (tallocs g) \<and> 0 < get_alloc_size e (buffer_id h) t \<and>
    snd (hn_addr h) + get_alloc_size e (buffer_id h) t \<le> ggml_dyn_tallocr_max_size (tallocs g ! talloc g t) (fst (hn_addr h)))"

lemma inside_keeps:
  assumes "inside_chunk e g t" "keeps B g g'" "t \<in> B" "peaks_grow g g'"
  shows "inside_chunk e g' t"
proof -
  have same: "buffer_id (hash_values g' t) = buffer_id (hash_values g t)" "hn_addr (hash_values g' t) = hn_addr (hash_values g t)"
    "talloc g' t = talloc g t" using assms(2,3) by (simp_all add: keeps_def talloc_def)
  have "ggml_dyn_tallocr_max_size (tallocs g ! talloc g t) (fst (hn_addr (hash_values g t))) \<le>
      ggml_dyn_tallocr_max_size (tallocs g' ! talloc g t) (fst (hn_addr (hash_values g t)))"
    using assms(4) unfolding peaks_grow_def peak_le_def by blast
  then show ?thesis using assms(1) keeps_length [OF assms(2)] unfolding inside_chunk_def same Let_def by simp
qed

lemma allocated_inside:
  assumes "mem_ok e g" "sizes_ok e g" "allocated (hash_values g t)"
  shows "inside_chunk e g t"
proof -
  define d where "d = talloc g t"
  have d: "d < length (tallocs g)" using assms(1,3) by (simp add: mem_ok_def d_def)
  obtain us where us: "distinct us" "set us = in_memory g d" "alloc_ok (tallocs g ! d) (map (blk e g) us)"
    by (rule mem_ok_at [OF assms(1) d])
  have "t \<in> set us" using us(2) assms(3) by (simp add: in_memory_def d_def)
  then have mem: "blk e g t \<in> set (map (blk e g) us)" by simp
  define c where "c = fst (hn_addr (hash_values g t))"
  define sz where "sz = aligned_offset (get_alloc_size e (buffer_id (hash_values g t)) t) (alignment (tallocs g ! d))"
  have b: "blk e g t = (c, snd (hn_addr (hash_values g t)), sz)" by (simp add: blk_def c_def sz_def d_def Let_def)
  have c: "c < length (chunks (tallocs g ! d))" using us(3) mem unfolding alloc_ok_def b by fastforce
  then obtain cap where ch: "chunk_ok (alignment (tallocs g ! d)) cap (live_in c (map (blk e g) us)) (chunks (tallocs g ! d) ! c)"
    using us(3) by (auto simp: alloc_ok_def)
  have "(snd (hn_addr (hash_values g t)), sz) \<in> set (live_in c (map (blk e g) us))" using mem unfolding b live_in_member .
  then have "snd (hn_addr (hash_values g t)) + sz \<le> max_size (chunks (tallocs g ! d) ! c)" using live_blocks [OF ch] by auto
  moreover have "get_alloc_size e (buffer_id (hash_values g t)) t \<le> sz" by (simp add: sz_def aligned_offset_ge)
  moreover have "0 < get_alloc_size e (buffer_id (hash_values g t)) t" using assms(2) by (simp add: sizes_ok_def)
  ultimately show ?thesis using c d by (simp add: inside_chunk_def ggml_dyn_tallocr_max_size_def c_def d_def Let_def)
qed

lemma placed_inside:
  assumes "graph_ok e (map fst leafs) (map fst nodes)" "gallocr_ok e g0"
    "\<And>m. m \<in> set leafs \<union> set nodes \<Longrightarrow> talloc_of g0 (snd m) < length (tallocs g0)"
    "place_graph e leafs nodes g0 = Some g" "t \<in> fst ` set leafs \<union> fst ` set nodes" "own e t"
  shows "inside_chunk e g t"
proof (cases "t \<in> fst ` set leafs")
  case True
  obtain g2 where g2: "inv e (map fst nodes) (uses e (drop 0 (map fst nodes))) (past (map fst leafs) (map fst nodes) 0) {} g2"
    "same_tables g0 g2" "run_all (alloc_step e) nodes g2 = Some g"
    and al: "\<And>t. t \<in> fst ` set leafs \<Longrightarrow> own e t \<Longrightarrow> allocated (hash_values g2 t)"
    using reserve_counted [OF assms(1-4)] by blast
  have tal: "talloc_of g2 (snd m) < length (tallocs g2)" if "m \<in> set nodes" for m
    using assms(3) [of m] that g2(2) by (simp add: same_tables_def)
  have "keeps (past (map fst leafs) (map fst nodes) 0 \<union> inputs e (map fst nodes)) g2 g"
    using alloc_steps_inv [OF assms(1) g2(3) _ _ g2(1) tal] by simp
  moreover have "inside_chunk e g2 t" using allocated_inside g2(1) al [OF True assms(6)] by (simp add: inv_def)
  moreover have "t \<in> past (map fst leafs) (map fst nodes) 0 \<union> inputs e (map fst nodes)" using True by (auto simp: past_def)
  ultimately show ?thesis using inside_keeps alloc_steps_peak [OF g2(3)] by blast
next
  case False
  then obtain j where j: "j < length nodes" "t = fst (nodes ! j)" using assms(5) by (auto simp: in_set_conv_nth)
  define N where "N = map fst nodes"
  obtain gp exc where gp: "inv e N (uses e (drop j N)) (past (map fst leafs) N (Suc j)) exc gp" "own e (N ! j) \<longrightarrow> allocated (hash_values gp (N ! j))"
    "exc = {} \<or> (\<exists>p. exc = {p} \<and> handed_over e N (uses e (drop j N)) (N ! j) p gp)"
    "keeps (past (map fst leafs) N (Suc j) \<union> inputs e N) gp g"
    "Option.bind (release_node e (nodes ! j) gp) (run_all (alloc_step e) (drop (Suc j) nodes)) = Some g"
    by (rule reserve_at_node [OF assms(1-4) j(1) refl N_def])
  have t: "t = N ! j" "t \<in> past (map fst leafs) N (Suc j)" using j by (simp_all add: N_def past_Suc)
  obtain gq where gq: "release_node e (nodes ! j) gp = Some gq" "run_all (alloc_step e) (drop (Suc j) nodes) gq = Some g"
    using gp(5) by (auto simp: bind_eq_Some_conv)
  have "peaks_grow gp g" using peaks_trans [OF release_node_peak [OF gq(1)] alloc_steps_peak [OF gq(2)]] .
  moreover have "inside_chunk e gp t" using allocated_inside gp(1,2) assms(6) t(1) by (simp add: inv_def)
  ultimately show ?thesis using inside_keeps [OF _ gp(4)] t(2) by blast
qed

section \<open>Buffers are large enough\<close>

definition holds_chunks :: "ggml_dyn_tallocr \<Rightarrow> nat list option \<Rightarrow> bool" where
  "holds_chunks a buf \<longleftrightarrow> (\<exists>b. buf = Some b \<and> (\<forall>c. ggml_dyn_tallocr_max_size a c \<le> ggml_vbuffer_chunk_size b c))"

lemma not_needs_buffer: "\<not> needs_buffer a buf \<Longrightarrow> holds_chunks a buf"
proof -
  assume n: "\<not> needs_buffer a buf"
  then obtain b where b: "buf = Some b" "\<forall>c < length (chunks a). ggml_dyn_tallocr_max_size a c \<le> ggml_vbuffer_chunk_size b c"
    by (auto simp: needs_buffer_def list_ex_iff not_less split: option.splits)
  have "ggml_dyn_tallocr_max_size a c \<le> ggml_vbuffer_chunk_size b c" for c
    using b(2) by (cases "c < length (chunks a)") (auto simp: ggml_dyn_tallocr_max_size_def)
  then show ?thesis using b(1) by (simp add: holds_chunks_def)
qed

lemma vbuffer_holds:
  assumes "\<And>n m. alloc_buffer n = Some m \<Longrightarrow> n \<le> m" "ggml_vbuffer_alloc alloc_buffer a = Some buf"
  shows "holds_chunks a (Some buf)"
proof -
  have each: "length buf = length xs \<and> (\<forall>c < length xs. alloc_buffer (max_size (xs ! c)) = Some (buf ! c))"
    if "those (map (\<lambda>ch. alloc_buffer (max_size ch)) xs) = Some buf" for xs buf
    using that
  proof (induction xs arbitrary: buf)
    case (Cons x xs)
    then obtain y ys where y: "alloc_buffer (max_size x) = Some y" "those (map (\<lambda>ch. alloc_buffer (max_size ch)) xs) = Some ys" "buf = y # ys"
      by (auto split: option.splits)
    then show ?case using Cons.IH [OF y(2)] by (auto simp: nth_Cons split: nat.split)
  qed simp
  note e = each [OF assms(2) [unfolded ggml_vbuffer_alloc_def]]
  have "max_size (chunks a ! c) \<le> buf ! c" if "c < length (chunks a)" for c using e that assms(1) by blast
  then show ?thesis using e by (simp add: holds_chunks_def ggml_dyn_tallocr_max_size_def ggml_vbuffer_chunk_size_def)
qed

lemma shared_other: "j \<noteq> i \<Longrightarrow> shared_buffer g i bufs j = bufs j"
  by (simp add: shared_buffer_def split: option.split)

lemma reserve_buffers_ok:
  assumes "\<And>b n m. alloc_buffer b n = Some m \<Longrightarrow> n \<le> m" "reserve_buffers alloc_buffer False g is bufs = (bufs', True)" "distinct is"
  shows "(\<forall>i \<in> set is. holds_chunks (buf_talloc g i) (bufs' i)) \<and> (\<forall>j. j \<notin> set is \<longrightarrow> bufs' j = bufs j)"
  using assms(2,3)
proof (induction "is" arbitrary: bufs)
  case (Cons i "is")
  define b1 where "b1 = shared_buffer g i bufs"
  obtain b2 where b2: "reserve_buffers alloc_buffer False g is b2 = (bufs', True)" "holds_chunks (buf_talloc g i) (b2 i)"
    "\<forall>j. j \<noteq> i \<longrightarrow> b2 j = b1 j"
  proof (cases "needs_buffer (buf_talloc g i) (b1 i)")
    case True
    then obtain buf where "ggml_vbuffer_alloc (alloc_buffer i) (buf_talloc g i) = Some buf"
      "reserve_buffers alloc_buffer False g is (b1(i := Some buf)) = (bufs', True)"
      using Cons.prems(1) by (auto simp: b1_def [symmetric] split: option.splits)
    then show ?thesis using that [of "b1(i := Some buf)"] vbuffer_holds [of "alloc_buffer i", OF assms(1)] by auto
  next
    case False
    then show ?thesis using that [of b1] Cons.prems(1) not_needs_buffer by (simp add: b1_def [symmetric])
  qed
  have rest: "(\<forall>i \<in> set is. holds_chunks (buf_talloc g i) (bufs' i)) \<and> (\<forall>j. j \<notin> set is \<longrightarrow> bufs' j = b2 j)"
    using Cons.IH [OF b2(1)] Cons.prems(2) by simp
  have "bufs' i = b2 i" using rest Cons.prems(2) by simp
  then show ?case using rest b2(2,3) shared_other [of _ i g bufs] by (auto simp: b1_def)
qed simp

section \<open>A reserved graph gets its memory\<close>

text \<open>Views of external memory are given by tensors that have a buffer and data, or neither of both.\<close>

definition external_ok :: "graph_env \<Rightarrow> bool" where
  "external_ok e \<longleftrightarrow> (\<forall>t. gt_buffer (tensor e t) \<longrightarrow> gt_data (tensor e t)) \<and>
    (\<forall>t. gt_view_src (tensor e t) \<noteq> None \<longrightarrow> \<not> gt_data (tensor e t))"

definition well_placed :: "graph_env \<Rightarrow> ggml_gallocr \<Rightarrow> tensor_state \<Rightarrow> bool" where
  "well_placed e g ts \<longleftrightarrow> (\<forall>t. own e t \<longrightarrow> ts t \<noteq> None \<longrightarrow> ts t = Some (At_Buffer (buffer_id (hash_values g t)) (hn_addr (hash_values g t))))"

lemma init_reserved:
  assumes "external_ok e" "well_placed e g ts" "ta = tensor_alloc_of e g t" "buffers ga = bufs" "own e t \<Longrightarrow> inside_chunk e g t"
    "own e t \<Longrightarrow> holds_chunks (tallocs g ! talloc g t) (bufs (buffer_id (hash_values g t)))"
  shows "\<exists>ts'. ggml_gallocr_init_tensor e ga t ta ts = Some ts' \<and> well_placed e g ts' \<and> (\<forall>x. ts x \<noteq> None \<longrightarrow> ts' x = ts x) \<and>
    (own e t \<longrightarrow> ts' t \<noteq> None)"
proof (cases "gt_view_src (tensor e t)")
  case (Some s)
  then have nd: "\<not> gt_data (tensor e t)" "\<not> gt_buffer (tensor e t)" "\<not> own e t" "ggml_is_view e t" "ta_place ta = None"
    using assms(1,3) by (auto simp: external_ok_def own_def ggml_is_view_def tensor_alloc_of_def)
  have "has_data e ts s" if "has_buffer e ts s" using that assms(1) by (auto simp: external_ok_def has_buffer_def has_data_def)
  then show ?thesis
    using Some nd assms(2) by (auto simp: ggml_gallocr_init_tensor_def ggml_backend_view_init_def has_buffer_def well_placed_def)
next
  case None
  show ?thesis
  proof (cases "has_data e ts t")
    case True
    then have "ggml_gallocr_init_tensor e ga t ta ts = Some ts" using None by (simp add: ggml_gallocr_init_tensor_def)
    moreover have "own e t \<longrightarrow> ts t \<noteq> None" using True by (auto simp: own_def has_data_def)
    ultimately show ?thesis using assms(2) by blast
  next
    case False
    then have own: "own e t" using None assms(1) by (auto simp: own_def has_data_def external_ok_def)
    define b where "b = buffer_id (hash_values g t)"
    define addr where "addr = hn_addr (hash_values g t)"
    have ta: "ta = \<lparr>ta_place = Some (b, addr), ta_size_max = get_alloc_size e b t\<rparr>"
      using assms(3) own by (simp add: tensor_alloc_of_def own_def ggml_is_view_def b_def addr_def Let_def)
    obtain buf where buf: "bufs b = Some buf" "\<forall>c. ggml_dyn_tallocr_max_size (tallocs g ! talloc g t) c \<le> ggml_vbuffer_chunk_size buf c"
      using assms(6) [OF own] by (auto simp: holds_chunks_def b_def)
    have ic: "0 < get_alloc_size e b t" "snd addr + get_alloc_size e b t \<le> ggml_dyn_tallocr_max_size (tallocs g ! talloc g t) (fst addr)"
      using assms(5) [OF own] by (simp_all add: inside_chunk_def b_def addr_def Let_def)
    have fit: "snd addr + get_alloc_size e b t \<le> ggml_vbuffer_chunk_size buf (fst addr)" using ic(2) buf(2) le_trans by blast
    then have "fst addr < length buf" "snd addr + get_alloc_size e b t \<le> buf ! fst addr"
      using ic(1) by (auto simp: ggml_vbuffer_chunk_size_def split: if_splits)
    then have "ggml_gallocr_init_tensor e ga t ta ts = Some (ts(t \<mapsto> At_Buffer b addr))"
      using None False own buf(1) assms(4) ta
      by (simp add: ggml_gallocr_init_tensor_def ggml_vbuffer_tensor_alloc_def ggml_is_view_def has_buffer_def has_data_def own_def)
    then show ?thesis using assms(2) False by (auto simp: well_placed_def b_def addr_def has_data_def)
  qed
qed

section \<open>Buffers that occur\<close>

definition ids_in :: "nat set \<Rightarrow> ggml_gallocr \<Rightarrow> bool" where
  "ids_in B g \<longleftrightarrow> (\<forall>t. buffer_id (hash_values g t) \<in> B)"

lemma ids_upd: "ids_in B g \<Longrightarrow> buffer_id (f (hash_values g t)) \<in> B \<Longrightarrow> ids_in B (upd_hash t f g)"
  by (simp add: ids_in_def)

lemma ids_set_talloc [simp]: "ids_in B (set_talloc b a g) = ids_in B g"
  by (simp add: ids_in_def set_talloc_def)

lemma run_all_ids:
  assumes "\<And>x g g'. x \<in> set xs \<Longrightarrow> f x g = Some g' \<Longrightarrow> ids_in B g \<Longrightarrow> ids_in B g'" "run_all f xs g = Some g'" "ids_in B g"
  shows "ids_in B g'"
  using assms
proof (induction xs arbitrary: g)
  case (Cons x xs)
  then obtain g1 where g1: "f x g = Some g1" "run_all f xs g1 = Some g'" by (auto simp: bind_eq_Some_conv)
  have "ids_in B g1" by (rule Cons.prems(1) [OF _ g1(1) Cons.prems(3)]) simp
  then show ?case by (rule Cons.IH [OF _ g1(2), rotated]) (rule Cons.prems(1), simp_all)
qed simp

lemma free_node_ids: "ggml_gallocr_free_node e t g = Some g' \<Longrightarrow> ids_in B g \<Longrightarrow> ids_in B g'"
  by (auto simp: ggml_gallocr_free_node_def Let_def ids_in_def set_talloc_def split: if_splits)

lemma free_extra_ids: "ggml_gallocr_free_extra_space e v p g = Some g' \<Longrightarrow> ids_in B g' = ids_in B g"
  by (auto simp: ggml_gallocr_free_extra_space_def Let_def split: if_splits)

lemma take_over_ids: "ids_in B g \<Longrightarrow> ids_in B (take_over v p g)"
  by (simp add: take_over_def ids_in_def Let_def)

lemma alloc_new_ids: "alloc_new e v b g = Some g' \<Longrightarrow> b \<in> B \<Longrightarrow> ids_in B g \<Longrightarrow> ids_in B g'"
  by (auto simp: alloc_new_def ids_in_def set_talloc_def)

lemma reuse_loop_ids: "reuse_loop e v ps g = Some (Some g') \<Longrightarrow> ids_in B g \<Longrightarrow> ids_in B g'"
proof (induction ps)
  case (Cons p ps)
  note to = take_over_ids [OF Cons.prems(2), of v p]
  show ?case
  proof (cases "can_reuse e g v p")
    case (Reuse_View s)
    have "ids_in B (upd_hash s (\<lambda>h. h\<lparr>allocated := False\<rparr>) (take_over v p g))" using to by (simp add: ids_in_def)
    then show ?thesis using Cons.prems(1) Reuse_View free_extra_ids by (auto split: if_splits)
  next
    case Reuse_Parent
    then show ?thesis using Cons.prems(1) to free_extra_ids by auto
  qed (use Cons in simp)
qed simp

lemma allocate_node_ids:
  assumes "ggml_gallocr_allocate_node e v b g = Some g'" "b \<in> B" "ids_in B g"
  shows "ids_in B g'"
proof -
  have "ids_in B (upd_hash v (\<lambda>h. h\<lparr>allocated := True\<rparr>) g)" using assms(3) by (simp add: ids_in_def)
  moreover have "g' = g \<or> alloc_new e v b (upd_hash v (\<lambda>h. h\<lparr>allocated := True\<rparr>) g) = Some g' \<or>
      reuse_loop e v (gt_src (tensor e v)) (upd_hash v (\<lambda>h. h\<lparr>allocated := True\<rparr>) g) = Some (Some g')"
    using assms(1) by (auto simp: ggml_gallocr_allocate_node_def Let_def split: if_splits option.splits)
  ultimately show ?thesis using assms(2,3) alloc_new_ids reuse_loop_ids by blast
qed

lemma release_parent_ids: "release_parent e p g = Some g' \<Longrightarrow> ids_in B g \<Longrightarrow> ids_in B g'"
proof -
  assume run: "release_parent e p g = Some g'" and ids: "ids_in B g"
  have "\<exists>g1. ids_in B g1 \<and> (g' = g1 \<or> (\<exists>t. ggml_gallocr_free_node e t g1 = Some g'))"
  proof (cases "gt_view_src (tensor e p)")
    case None
    have "ids_in B (upd_hash p (\<lambda>h. h\<lparr>n_children := n_children h - 1\<rparr>) g)" using ids by (simp add: ids_in_def)
    then show ?thesis using run None by (auto simp: release_parent_def Let_def split: if_splits)
  next
    case (Some s)
    have "ids_in B (upd_hash p (\<lambda>h. h\<lparr>n_children := n_children h - 1\<rparr>) g)"
      "ids_in B (upd_hash s (\<lambda>h. h\<lparr>n_views := n_views h - 1\<rparr>) (upd_hash p (\<lambda>h. h\<lparr>n_children := n_children h - 1\<rparr>) g))"
      using ids by (simp_all add: ids_in_def)
    then show ?thesis using run Some by (auto simp: release_parent_def Let_def split: if_splits)
  qed
  then show ?thesis using free_node_ids by blast
qed

lemma count_src_ids: "count_src e b s g = Some g' \<Longrightarrow> b \<in> B \<Longrightarrow> ids_in B g \<Longrightarrow> ids_in B g'"
proof -
  assume run: "count_src e b s g = Some g'" and b: "b \<in> B" "ids_in B g"
  have "ids_in B (upd_hash s (\<lambda>h. h\<lparr>n_children := n_children h + 1\<rparr>) g)" using b(2) by (simp add: ids_in_def)
  then show ?thesis using run allocate_node_ids [OF _ b(1)] by (auto simp: count_src_def Let_def split: if_splits)
qed

lemma count_node_ids:
  assumes "count_node e m g = Some g'" "snd m \<in> B" "ids_in B g"
  shows "ids_in B g'"
proof -
  obtain v b where m: "m = (v, b)" by (cases m)
  define g1 where "g1 = (case gt_view_src (tensor e v) of
      Some s \<Rightarrow> if gt_op (tensor e v) \<noteq> GGML_OP_NONE then upd_hash s (\<lambda>h. h\<lparr>n_views := n_views h + 1\<rparr>) g else g | None \<Rightarrow> g)"
  have g1: "ids_in B g1" using assms(3) by (auto simp: g1_def ids_in_def split: option.splits)
  obtain g2 where g2: "(if gt_input (tensor e v) then ggml_gallocr_allocate_node e v b g1 else Some g1) = Some g2"
    "run_all (count_src e b) (gt_src (tensor e v)) g2 = Some g'"
    using assms(1) unfolding m count_node_def Let_def prod.case g1_def [symmetric] bind_eq_Some_conv by blast
  have "ids_in B g2" using g2(1) g1 allocate_node_ids assms(2) by (auto simp: m split: if_splits)
  then show ?thesis using run_all_ids [OF _ g2(2)] count_src_ids assms(2) by (metis m snd_conv)
qed

lemma alloc_step_ids:
  assumes "alloc_step e m g = Some g'" "snd m \<in> B" "ids_in B g"
  shows "ids_in B g'"
proof -
  obtain v b where m: "m = (v, b)" by (cases m)
  obtain g1 g2 where g: "run_all (\<lambda>p. ggml_gallocr_allocate_node e p b) (gt_src (tensor e v)) g = Some g1"
    "ggml_gallocr_allocate_node e v b g1 = Some g2" "run_all (release_parent e) (gt_src (tensor e v)) g2 = Some g'"
    using assms(1) by (auto simp: m alloc_step_def place_node_def release_node_def bind_eq_Some_conv)
  have b: "b \<in> B" using assms(2) by (simp add: m)
  have "ids_in B g1" by (rule run_all_ids [OF _ g(1) assms(3)]) (rule allocate_node_ids [OF _ b])
  then have "ids_in B g2" by (rule allocate_node_ids [OF g(2) b])
  then show ?thesis by (rule run_all_ids [OF _ g(3), rotated]) (rule release_parent_ids)
qed

lemma place_graph_ids:
  assumes "place_graph e leafs nodes g0 = Some g" "0 \<in> B" "\<And>m. m \<in> set leafs \<union> set nodes \<Longrightarrow> snd m \<in> B"
  shows "ids_in B g"
proof -
  define gs where "gs = g0\<lparr>tallocs := map ggml_dyn_tallocr_reset (tallocs g0), hash_values := (\<lambda>_. zero_node)\<rparr>"
  obtain g1 g2 where g: "run_all (\<lambda>(leaf, b). ggml_gallocr_allocate_node e leaf b) leafs gs = Some g1"
    "run_all (count_node e) nodes g1 = Some g2" "run_all (alloc_step e) nodes g2 = Some g"
    using assms(1) by (auto simp: place_graph_def ggml_gallocr_alloc_graph_impl_def gs_def Let_def bind_eq_Some_conv)
  have "ids_in B gs" using assms(2) by (simp add: ids_in_def gs_def zero_node_def)
  then have "ids_in B g1" by (rule run_all_ids [OF _ g(1), rotated]) (use allocate_node_ids assms(3) in fastforce)
  then have "ids_in B g2" by (rule run_all_ids [OF _ g(2), rotated]) (use count_node_ids assms(3) in blast)
  then show ?thesis by (rule run_all_ids [OF _ g(3), rotated]) (use alloc_step_ids assms(3) in blast)
qed

section \<open>Assigning\<close>

lemma run_all_map: "run_all f (map h xs) = run_all (\<lambda>x. f (h x)) xs"
proof
  fix s show "run_all f (map h xs) s = run_all (\<lambda>x. f (h x)) xs s"
  proof (induction xs arbitrary: s)
    case (Cons x xs)
    then show ?case by (cases "f (h x) s") simp_all
  qed simp
qed

lemma run_all_one: "run_all f [x] = f x"
proof
  fix s show "run_all f [x] s = f x s" by (cases "f x s") simp_all
qed

text \<open>A tensor whose reserved memory is there.\<close>

definition memory_ready :: "graph_env \<Rightarrow> galloc \<Rightarrow> nat \<Rightarrow> bool" where
  "memory_ready e ga t \<longleftrightarrow> (own e t \<longrightarrow> inside_chunk e (gallocr ga) t \<and>
    holds_chunks (tallocs (gallocr ga) ! talloc (gallocr ga) t) (buffers ga (buffer_id (hash_values (gallocr ga) t))))"

lemma init_list:
  assumes "external_ok e" "well_placed e (gallocr ga) ts" "\<And>t ta. (t, ta) \<in> set ps \<Longrightarrow> memory_ready e ga t \<and> ta = tensor_alloc_of e (gallocr ga) t"
  shows "\<exists>ts'. run_all (\<lambda>(t, ta). ggml_gallocr_init_tensor e ga t ta) ps ts = Some ts' \<and> well_placed e (gallocr ga) ts' \<and>
    (\<forall>x. ts x \<noteq> None \<longrightarrow> ts' x = ts x) \<and> (\<forall>t \<in> fst ` set ps. own e t \<longrightarrow> ts' t \<noteq> None)"
  using assms(2,3)
proof (induction ps arbitrary: ts)
  case (Cons p ps)
  obtain t ta where p: "p = (t, ta)" by (cases p)
  have r: "memory_ready e ga t" "ta = tensor_alloc_of e (gallocr ga) t" using Cons.prems(2) [of t ta] by (simp_all add: p)
  obtain t1 where t1: "ggml_gallocr_init_tensor e ga t ta ts = Some t1" "well_placed e (gallocr ga) t1" "\<forall>x. ts x \<noteq> None \<longrightarrow> t1 x = ts x"
    "own e t \<longrightarrow> t1 t \<noteq> None"
    using init_reserved [OF assms(1) Cons.prems(1) r(2) refl] r(1) unfolding memory_ready_def by blast
  obtain ts' where ts': "run_all (\<lambda>(t, ta). ggml_gallocr_init_tensor e ga t ta) ps t1 = Some ts'" "well_placed e (gallocr ga) ts'"
    "\<forall>x. t1 x \<noteq> None \<longrightarrow> ts' x = t1 x" "\<forall>t \<in> fst ` set ps. own e t \<longrightarrow> ts' t \<noteq> None"
    using Cons.IH [OF t1(2)] Cons.prems(2) by fastforce
  have "\<forall>x. ts x \<noteq> None \<longrightarrow> ts' x = ts x" using t1(3) ts'(3) by metis
  moreover have "own e t \<longrightarrow> ts' t \<noteq> None" using t1(4) ts'(3) by metis
  ultimately show ?case using t1(1) ts' by (intro exI [of _ ts']) (simp add: p)
qed auto

lemma init_nodes:
  assumes "external_ok e" "well_placed e (gallocr ga) ts"
    "\<And>v. v \<in> set N \<Longrightarrow> memory_ready e ga v \<and> (\<forall>s \<in> set (gt_src (tensor e v)). memory_ready e ga s)"
  shows "\<exists>ts'. run_all (init_node e ga) (map (\<lambda>v. (v, node_alloc_of e (gallocr ga) v)) N) ts = Some ts' \<and> well_placed e (gallocr ga) ts' \<and>
    (\<forall>x. ts x \<noteq> None \<longrightarrow> ts' x = ts x) \<and> (\<forall>t \<in> set N. own e t \<longrightarrow> ts' t \<noteq> None)"
  using assms(2,3)
proof (induction N arbitrary: ts)
  case (Cons v N)
  let ?g = "gallocr ga"
  define ps where "ps = map (\<lambda>j. (gt_src (tensor e v) ! j, src_alloc (node_alloc_of e ?g v) j)) [0..<length (gt_src (tensor e v))] @ [(v, na_dst (node_alloc_of e ?g v))]"
  have step: "init_node e ga (v, node_alloc_of e ?g v) ts = run_all (\<lambda>(t, ta). ggml_gallocr_init_tensor e ga t ta) ps ts"
    by (simp add: init_node_def ps_def run_all_append run_all_map run_all_one Let_def del: run_all.simps)
  have ps: "memory_ready e ga t \<and> ta = tensor_alloc_of e ?g t" if "(t, ta) \<in> set ps" for t ta
    using that Cons.prems(2) [of v] by (auto simp: ps_def src_alloc_def node_alloc_of_def)
  have vp: "v \<in> fst ` set ps" by (simp add: ps_def)
  obtain t1 where t1: "init_node e ga (v, node_alloc_of e ?g v) ts = Some t1" "well_placed e ?g t1" "\<forall>x. ts x \<noteq> None \<longrightarrow> t1 x = ts x"
    "own e v \<longrightarrow> t1 v \<noteq> None"
    using init_list [OF assms(1) Cons.prems(1) ps] vp unfolding step by blast
  have kids: "memory_ready e ga w \<and> (\<forall>s \<in> set (gt_src (tensor e w)). memory_ready e ga s)" if "w \<in> set N" for w
    by (rule Cons.prems(2)) (use that in simp)
  obtain ts' where ts': "run_all (init_node e ga) (map (\<lambda>v. (v, node_alloc_of e ?g v)) N) t1 = Some ts'" "well_placed e ?g ts'"
    "\<forall>x. t1 x \<noteq> None \<longrightarrow> ts' x = t1 x" "\<forall>t \<in> set N. own e t \<longrightarrow> ts' t \<noteq> None"
    using Cons.IH [OF t1(2) kids] by blast
  have "\<forall>x. ts x \<noteq> None \<longrightarrow> ts' x = ts x" using t1(3) ts'(3) by metis
  moreover have "own e v \<longrightarrow> ts' v \<noteq> None" using t1(4) ts'(3) by metis
  ultimately show ?case using t1(1) ts' by (intro exI [of _ ts']) simp
qed auto

lemma reserved_usable: "ggml_gallocr_node_needs_realloc e t (tensor_alloc_of e g t)"
  by (simp add: ggml_gallocr_node_needs_realloc_def tensor_alloc_of_def Let_def)

lemma reserved_no_realloc:
  assumes "node_allocs ga = map (\<lambda>v. node_alloc_of e g v) N" "leaf_allocs ga = map (\<lambda>t. tensor_alloc_of e g t) L"
  shows "\<not> ggml_gallocr_needs_realloc e ga L N"
  using assms reserved_usable by (auto simp: ggml_gallocr_needs_realloc_def list_ex_iff src_alloc_def node_alloc_of_def Let_def)

lemma env_fresh: "env_with e (\<lambda>_. None) = e"
  by (simp add: env_with_def has_data_def has_buffer_def)

text \<open>C9: 
  After a reservation that succeeded, the same graph gets its memory without another reservation and without a failed
  assertion: every tensor of the allocator is put at the address that was planned for it, and its memory lies within a chunk of the
  buffer that exists.
\<close>

theorem reserved_graph_gets_memory:
  assumes "graph_ok e (map fst leafs) (map fst nodes)" "gallocr_ok e (gallocr ga)" "external_ok e"
    "\<And>m. m \<in> set leafs \<union> set nodes \<Longrightarrow> snd m < n_buffers ga \<and> talloc_of (gallocr ga) (snd m) < length (tallocs (gallocr ga))"
    "\<And>b n m. alloc_buffer b n = Some m \<Longrightarrow> n \<le> m"
    "ggml_gallocr_reserve_n e alloc_buffer leafs nodes ga = Some (ga', True)"
  shows "\<exists>ts. ggml_gallocr_alloc_graph e alloc_buffer (map fst leafs) (map fst nodes) ga' (\<lambda>_. None) = Some (ga', ts, True) \<and>
    (\<forall>t \<in> fst ` (set leafs \<union> set nodes). own e t \<longrightarrow>
      (\<exists>b addr buf. ts t = Some (At_Buffer b addr) \<and> b = buffer_id (hash_values (gallocr ga') t) \<and> addr = hn_addr (hash_values (gallocr ga') t) \<and>
         buffers ga' b = Some buf \<and> fst addr < length buf \<and> snd addr + get_alloc_size e b t \<le> buf ! fst addr))"
proof -
  define L where "L = map fst leafs"
  define N where "N = map fst nodes"
  obtain g where pg: "place_graph e leafs nodes (gallocr ga) = Some g"
    and r: "(let (bufs, ok) = reserve_buffers alloc_buffer False g [0..<n_buffers ga] (buffers ga)
      in (ga\<lparr>gallocr := g, node_allocs := map (\<lambda>m. node_alloc_of e g (fst m)) nodes,
             leaf_allocs := map (\<lambda>m. tensor_alloc_of e g (fst m)) leafs, buffers := bufs\<rparr>, ok)) = (ga', True)"
    using assms(6) unfolding ggml_gallocr_reserve_n_def ggml_gallocr_reserve_n_impl_def map_option_eq_Some by blast
  obtain bufs ok where bo: "reserve_buffers alloc_buffer False g [0..<n_buffers ga] (buffers ga) = (bufs, ok)" by fastforce
  have ga': "ga' = ga\<lparr>gallocr := g, node_allocs := map (\<lambda>v. node_alloc_of e g v) N, leaf_allocs := map (\<lambda>t. tensor_alloc_of e g t) L, buffers := bufs\<rparr>"
    and ok: ok
    using r bo by (auto simp: L_def N_def comp_def)
  have g: "place_graph e leafs nodes (gallocr ga) = Some g" "reserve_buffers alloc_buffer False g [0..<n_buffers ga] (buffers ga) = (bufs, True)"
    using pg bo ok by simp_all
  have hold: "holds_chunks (buf_talloc g i) (bufs i)" if "i < n_buffers ga" for i
    using reserve_buffers_ok [OF assms(5) g(2)] that by simp
  have rdy: "memory_ready e ga' t" if t: "t \<in> fst ` (set leafs \<union> set nodes)" for t
  proof -
    have "0 < n_buffers ga" using t assms(4) by fastforce
    then have "ids_in {b. b < n_buffers ga} g" using assms(4) by (intro place_graph_ids [OF g(1)]) auto
    then have "holds_chunks (buf_talloc g (buffer_id (hash_values g t))) (bufs (buffer_id (hash_values g t)))" using hold by (simp add: ids_in_def)
    moreover have "inside_chunk e g t" if "own e t"
      by (rule placed_inside [OF assms(1,2) _ g(1) _ that]) (use t assms(4) in auto)
    ultimately show ?thesis by (simp add: memory_ready_def ga' buf_talloc_def talloc_def)
  qed
  have LN: "fst ` (set leafs \<union> set nodes) = set L \<union> set N" by (auto simp: L_def N_def)
  have ops: "s \<in> set L \<union> set N" if vN: "v \<in> set N" and sv: "s \<in> set (gt_src (tensor e v))" for v s
  proof -
    obtain j where j: "j < length N" "v = N ! j" using vN by (auto simp: in_set_conv_nth)
    then have "s \<in> past L N j" using operands_past [OF assms(1) [folded L_def N_def] j(1)] sv by blast
    then show ?thesis by (auto simp: past_def dest: in_set_takeD)
  qed
  have gg: "gallocr ga' = g" by (simp add: ga')
  have zl: "zip L (leaf_allocs ga') = map (\<lambda>t. (t, tensor_alloc_of e g t)) L" by (simp add: ga' zip_map2 zip_same_conv_map)
  have zn: "zip N (node_allocs ga') = map (\<lambda>v. (v, node_alloc_of e g v)) N" by (simp add: ga' zip_map2 zip_same_conv_map)
  have wp0: "well_placed e (gallocr ga') (\<lambda>_. None)" by (simp add: well_placed_def)
  have pl: "memory_ready e ga' t \<and> ta = tensor_alloc_of e (gallocr ga') t" if "(t, ta) \<in> set (zip L (leaf_allocs ga'))" for t ta
    using that rdy LN by (auto simp: zl gg)
  have fl: "fst ` set (zip L (leaf_allocs ga')) = set L" by (simp add: zl image_image)
  obtain t1 where t1: "run_all (\<lambda>(t, ta). ggml_gallocr_init_tensor e ga' t ta) (zip L (leaf_allocs ga')) (\<lambda>_. None) = Some t1"
    "well_placed e (gallocr ga') t1" "\<forall>t \<in> set L. own e t \<longrightarrow> t1 t \<noteq> None"
    using init_list [OF assms(3) wp0, of "zip L (leaf_allocs ga')", OF pl] unfolding fl by blast
  have pn: "memory_ready e ga' v \<and> (\<forall>s \<in> set (gt_src (tensor e v)). memory_ready e ga' s)" if "v \<in> set N" for v
    using that rdy LN ops by blast
  obtain ts where ts: "run_all (init_node e ga') (zip N (node_allocs ga')) t1 = Some ts" "well_placed e g ts" "\<forall>x. t1 x \<noteq> None \<longrightarrow> ts x = t1 x"
    "\<forall>t \<in> set N. own e t \<longrightarrow> ts t \<noteq> None"
    using init_nodes [OF assms(3) t1(2), of N, OF pn] unfolding gg zn by blast
  have "ggml_gallocr_alloc_graph e alloc_buffer L N ga' (\<lambda>_. None) = Some (ga', ts, True)"
    using reserved_no_realloc [of ga' e g N L] t1(1) ts(1)
    by (simp add: ggml_gallocr_alloc_graph_def env_fresh init_graph_def ga')
  moreover have "\<exists>b addr buf. ts t = Some (At_Buffer b addr) \<and> b = buffer_id (hash_values g t) \<and> addr = hn_addr (hash_values g t) \<and>
      bufs b = Some buf \<and> fst addr < length buf \<and> snd addr + get_alloc_size e b t \<le> buf ! fst addr"
    if t: "t \<in> fst ` (set leafs \<union> set nodes)" "own e t" for t
  proof -
    have "ts t \<noteq> None" using t t1(3) ts(3,4) LN by (metis Un_iff)
    then have at: "ts t = Some (At_Buffer (buffer_id (hash_values g t)) (hn_addr (hash_values g t)))" using ts(2) t(2) by (simp add: well_placed_def)
    have "inside_chunk e g t" "holds_chunks (tallocs g ! talloc g t) (bufs (buffer_id (hash_values g t)))"
      using rdy [OF t(1)] t(2) by (simp_all add: memory_ready_def ga')
    then obtain buf where buf: "bufs (buffer_id (hash_values g t)) = Some buf"
      "snd (hn_addr (hash_values g t)) + get_alloc_size e (buffer_id (hash_values g t)) t \<le> ggml_vbuffer_chunk_size buf (fst (hn_addr (hash_values g t)))"
      "0 < get_alloc_size e (buffer_id (hash_values g t)) t"
      by (auto simp: inside_chunk_def holds_chunks_def Let_def intro: le_trans)
    then show ?thesis using at by (auto simp: ggml_vbuffer_chunk_size_def split: if_splits)
  qed
  ultimately show ?thesis by (intro exI [of _ ts]) (simp add: ga' L_def N_def)
qed

section \<open>New allocators\<close>

text \<open>Every buffer has an allocator, with the alignment of its type; nothing is reserved.\<close>

lemma new_buffers:
  assumes "\<And>t. 0 < get_alignment t" "n \<le> length bufts"
  shows "case foldl (new_buffer get_alignment get_max_size bufts) ([], []) [0..<n] of (as, idx) \<Rightarrow>
    length idx = n \<and> (\<forall>i < n. idx ! i < length as \<and> alignment (as ! (idx ! i)) = get_alignment (bufts ! i)) \<and>
    (\<forall>a \<in> set as. \<exists>t. a = ggml_dyn_tallocr_new (get_alignment t) (get_max_size t))"
  using assms(2)
proof (induction n)
  case (Suc n)
  obtain as idx where s: "foldl (new_buffer get_alignment get_max_size bufts) ([], []) [0..<n] = (as, idx)" by fastforce
  have ih: "length idx = n" "\<forall>i < n. idx ! i < length as \<and> alignment (as ! (idx ! i)) = get_alignment (bufts ! i)"
    "\<forall>a \<in> set as. \<exists>t. a = ggml_dyn_tallocr_new (get_alignment t) (get_max_size t)"
    using Suc.IH Suc.prems by (simp_all add: s)
  have st: "foldl (new_buffer get_alignment get_max_size bufts) ([], []) [0..<Suc n] = new_buffer get_alignment get_max_size bufts (as, idx) n"
    by (simp add: s)
  show ?case
  proof (cases "find (\<lambda>j. bufts ! n = bufts ! j) [0..<n]")
    case None
    then have nb: "new_buffer get_alignment get_max_size bufts (as, idx) n
        = (as @ [ggml_dyn_tallocr_new (get_alignment (bufts ! n)) (get_max_size (bufts ! n))], idx @ [length as])"
      by (simp add: new_buffer_def)
    have "alignment (ggml_dyn_tallocr_new al mx) = al" for al mx by (simp add: ggml_dyn_tallocr_new_def ggml_dyn_tallocr_reset_def)
    then show ?thesis unfolding st nb using ih by (auto simp: nth_append less_Suc_eq)
  next
    case (Some j)
    then obtain k where "k < length [0..<n]" "bufts ! n = bufts ! ([0..<n] ! k)" "j = [0..<n] ! k" unfolding find_Some_iff by blast
    then have j: "j < n" "bufts ! n = bufts ! j" by simp_all
    have nb: "new_buffer get_alignment get_max_size bufts (as, idx) n = (as, idx @ [idx ! j])" using Some by (simp add: new_buffer_def)
    show ?thesis unfolding st nb using ih j by (auto simp: nth_append less_Suc_eq)
  qed
qed simp

lemma new_gallocr_ok:
  assumes "\<And>t. 0 < get_alignment t" "ga = ggml_gallocr_new_n get_alignment get_max_size bufts" "sizes_ok e (gallocr ga)"
  shows "gallocr_ok e (gallocr ga) \<and> n_buffers ga = length bufts \<and> (\<forall>i < length bufts. talloc_of (gallocr ga) i < length (tallocs (gallocr ga)))"
proof -
  obtain as idx where s: "foldl (new_buffer get_alignment get_max_size bufts) ([], []) [0..<length bufts] = (as, idx)" by fastforce
  have ga: "ga = \<lparr>gallocr = \<lparr>tallocs = as, talloc_of = (\<lambda>b. idx ! b), hash_values = (\<lambda>_. zero_node)\<rparr>,
         n_buffers = length bufts, buffers = (\<lambda>_. None), node_allocs = [], leaf_allocs = []\<rparr>"
    using assms(2) by (simp add: ggml_gallocr_new_n_def s)
  note n = new_buffers [of get_alignment "length bufts" bufts get_max_size, OF assms(1) le_refl, unfolded s prod.case]
  have "0 < alignment a \<and> max_chunk_size a \<le> SIZE_MAX div 2" if a: "a \<in> set as" for a
  proof -
    obtain t where "a = ggml_dyn_tallocr_new (get_alignment t) (get_max_size t)" using n a by blast
    then show ?thesis using assms(1) by (simp add: ggml_dyn_tallocr_new_def ggml_dyn_tallocr_reset_def)
  qed
  then show ?thesis using n assms(3) by (simp add: gallocr_ok_def ga)
qed

section \<open>A run\<close>

definition run_galloc :: galloc where
  "run_galloc = ggml_gallocr_new_n (\<lambda>_. 32) (\<lambda>_. 1024) [0]"

lemma run_galloc_eq: "run_galloc = \<lparr>gallocr = run_gallocr\<lparr>talloc_of := (\<lambda>b. [0] ! b)\<rparr>, n_buffers = 1, buffers = (\<lambda>_. None), node_allocs = [], leaf_allocs = []\<rparr>"
  by (simp add: run_galloc_def ggml_gallocr_new_n_def new_buffer_def run_gallocr_def ggml_dyn_tallocr_new_def ggml_dyn_tallocr_reset_def SIZE_MAX_def)

lemmas galloc_run = ggml_gallocr_reserve_n_def ggml_gallocr_reserve_n_impl_def node_alloc_of_def tensor_alloc_of_def shared_buffer_def
  needs_buffer_def ggml_vbuffer_alloc_def ggml_vbuffer_chunk_size_def ggml_dyn_tallocr_max_size_def

lemma run_reserved:
  "map_option (\<lambda>(ga, ok). (buffers ga 0, ok)) (ggml_gallocr_reserve_n run_env (\<lambda>b n. Some n) [(0, 0)] [(1, 0), (2, 0), (3, 0)] run_galloc) =
    Some (Some [192], True)"
  by (simp add: galloc_run gallocr_run tallocr_run run_env_def run_galloc_eq run_gallocr_def Let_def)

lemma reserved_graph_gets_memory_witness:
  "\<exists>ga ts. ggml_gallocr_reserve_n run_env (\<lambda>b n. Some n) [(0, 0)] [(1, 0), (2, 0), (3, 0)] run_galloc = Some (ga, True) \<and>
    ggml_gallocr_alloc_graph run_env (\<lambda>b n. Some n) [0] [1, 2, 3] ga (\<lambda>_. None) = Some (ga, ts, True) \<and> buffers ga 0 = Some [192] \<and> ts 3 \<noteq> None"
proof -
  obtain ga where ga: "ggml_gallocr_reserve_n run_env (\<lambda>b n. Some n) [(0, 0)] [(1, 0), (2, 0), (3, 0)] run_galloc = Some (ga, True)"
    "buffers ga 0 = Some [192]"
    using run_reserved by auto
  have ids: "snd m < n_buffers run_galloc \<and> talloc_of (gallocr run_galloc) (snd m) < length (tallocs (gallocr run_galloc))"
    if "m \<in> set [(0, 0)] \<union> set [(1, 0), (2, 0), (3, 0)]" for m :: "nat \<times> nat"
    using that by (auto simp: run_galloc_eq run_gallocr_def)
  have ok: "gallocr_ok run_env (gallocr run_galloc)" using run_gallocr_ok by (simp add: gallocr_ok_def sizes_ok_def run_galloc_eq)
  have ext: "external_ok run_env" by (simp add: external_ok_def run_env_def plain_def)
  have own3: "own run_env 3" by (simp add: own_def run_env_def plain_def)
  have good: "n \<le> m" if "(\<lambda>b n. Some n) b n = Some m" for b n m :: nat using that by simp
  from reserved_graph_gets_memory [OF _ ok ext ids good ga(1)] run_graph_ok obtain ts where
    "ggml_gallocr_alloc_graph run_env (\<lambda>b n. Some n) [0] [1, 2, 3] ga (\<lambda>_. None) = Some (ga, ts, True)"
    "own run_env 3 \<longrightarrow> ts 3 \<noteq> None" by auto
  then show ?thesis using ga own3 by blast
qed

text \<open>
  A graph of the same shape but other edges is not noticed: the addresses of the first graph are used for the second, in which
  node 3 reads 2 and 1, although 2 is then computed in the memory of 1.
\<close>

definition edge_env :: graph_env where
  "edge_env = run_env\<lparr>tensor := (tensor run_env)(3 := plain\<lparr>gt_op := other_op 0, gt_src := [2, 1], gt_output := True\<rparr>)\<rparr>"

theorem other_edges_not_noticed:
  "still_needed edge_env [1, 2, 3] 2 1 \<and>
   (case ggml_gallocr_reserve_n run_env (\<lambda>b n. Some n) [(0, 0)] [(1, 0), (2, 0), (3, 0)] run_galloc of
      None \<Rightarrow> False
    | Some (ga, ok) \<Rightarrow> ok \<and> n_buffers ga = 1 \<and>
        map_option (\<lambda>(ga', ts, ok). (ts 1, ts 2, ok)) (ggml_gallocr_alloc_graph edge_env (\<lambda>b n. Some n) [0] [1, 2, 3] ga (\<lambda>_. None)) =
          Some (Some (At_Buffer 0 (0, 64)), Some (At_Buffer 0 (0, 64)), True))"
proof
  show "still_needed edge_env [1, 2, 3] 2 1"
    unfolding still_needed_def by (intro disjI2 exI [of _ 2]) (simp add: edge_env_def)
  show "case ggml_gallocr_reserve_n run_env (\<lambda>b n. Some n) [(0, 0)] [(1, 0), (2, 0), (3, 0)] run_galloc of
      None \<Rightarrow> False
    | Some (ga, ok) \<Rightarrow> ok \<and> n_buffers ga = 1 \<and>
        map_option (\<lambda>(ga', ts, ok). (ts 1, ts 2, ok)) (ggml_gallocr_alloc_graph edge_env (\<lambda>b n. Some n) [0] [1, 2, 3] ga (\<lambda>_. None)) =
          Some (Some (At_Buffer 0 (0, 64)), Some (At_Buffer 0 (0, 64)), True)"
    by (simp add: galloc_run gallocr_run tallocr_run run_env_def run_galloc_eq run_gallocr_def edge_env_def env_fresh
      ggml_gallocr_alloc_graph_def ggml_gallocr_needs_realloc_def ggml_gallocr_node_needs_realloc_def init_graph_def init_node_def
      ggml_gallocr_init_tensor_def ggml_vbuffer_tensor_alloc_def src_alloc_def has_data_def has_buffer_def Let_def) blast
qed

end
