(* ===== verification/Spec2Isabelle.thy ===== *)
theory Spec2Isabelle
  imports Bridge_Jni Whisper_Jni Sherpa_Jni Grammar_Language Whisper_Full Mel_Spectrogram Dtw_Timestamps Model_Load Graph_Build Graph_Buffers
begin

text \<open>
  A model of the native core of hey-nilo, an offline voice assistant: the JNI bridges in
  \<open>src/native_android/app/src/main/cpp\<close> and the transcription core of the whisper.cpp library
  they link, \<open>src/native_android/whisper.cpp/src/whisper.cpp\<close>.

  \<^bold>\<open>How the parts interact.\<close>  The application records audio (\<open>audio_jni.cpp\<close>), detects speech
  (\<open>vad_jni.cpp\<close>), transcribes it (\<open>whisper_jni.cpp\<close> or \<open>sherpa_stt_jni.cpp\<close>), asks a language model
  for an answer (\<open>ai_chat_jni.cpp\<close> over llama.cpp, reached through \<open>bridge_jni.cpp\<close>) and speaks it
  (\<open>sherpa_tts_jni.cpp\<close>, the player in \<open>audio_jni.cpp\<close>).  Every text that goes back to Java passes
  \<open>sanitizeForJNI\<close>.  Inside whisper.cpp, \<open>whisper_full_with_state\<close> cuts a recording into windows; each
  window is decoded by up to eight decoders that share a cache of keys and values, at rising temperatures
  until one succeeds; the tokens of the best decoder become segments.

  \<^bold>\<open>The JNI bridges.\<close>
  \<^item> \<open>Prelude\<close>: byte strings, C division \<open>cdiv\<close>, shared lemmas.
  \<^item> \<open>Utf8_Sanitize\<close>: the two copies of \<open>sanitizeForJNI\<close> (\<open>ai_chat_jni.cpp\<close>, \<open>whisper_jni.cpp\<close>); the output
    is well shaped, well-shaped input is unchanged, the copies agree.
  \<^item> \<open>Device_Tuning\<close>: cores, temperature, memory, thread counts and context sizes (\<open>isBigCore\<close> to
    \<open>calculateSafeContextSize\<close>); the files of the system are arguments.
  \<^item> \<open>Llama_Bridge\<close>, \<open>Llama_Generate\<close>, \<open>Llama_Session\<close>: the global \<open>LlamaState\<close> and every operation on it, the
    generation with reuse of the cache, and the reachable states under any order of calls.  llama.cpp is a
    record of functions (\<open>llama_api\<close>); what is relied on are hypotheses (\<open>api_ok\<close> and the like).  Lemmas: an
    invariant of every reachable state, accounting of native objects, cache reuse equals a full
    prefill, termination.  Requests of other threads to stop are interleaved where the flag is read.
  \<^item> \<open>Bridge_Jni\<close>: the wrappers of the bridge package and the sessions made of them.
  \<^item> \<open>Audio_Queues\<close>: recorder and player queues of 16-bit samples, as instances of a locale of bounded
    queues, specified by counts of the samples kept and read (\<open>flow\<close>).  \<open>Vad_Jni\<close>, \<open>Whisper_Jni\<close>, \<open>Sherpa_Jni\<close>: handles, guards, sample conversion, resampling, ownership
    of the objects of the external libraries, which are arguments.

  \<^bold>\<open>whisper.cpp.\<close>
  \<^item> \<open>Whisper_Types\<close>: tokens, segments, vocabulary, parameters, decoders (\<open>whisper.h\<close>, \<open>whisper.cpp\<close>).
  \<^item> \<open>Kv_Cache\<close>: the cache as a list of cells (\<open>whisper_kv_cache_*\<close>), and the exchange of caches between beams.
    A row of the tensors records the token whose keys and values it holds.  Abstract view: which sequence has which
    token's row at which position, \<open>kv_row\<close>; a locale states the laws of the operations over it.
  \<^item> \<open>Grammar\<close>, \<open>Grammar_Language\<close>: grammar-constrained decoding, refined against the language of a grammar
    (\<open>yields\<close>); the rejected tokens are specified by what a stack can read (\<open>can_read\<close>), including the completions of
    a character that a token cuts.
  \<^item> \<open>Vad_Segments\<close>: \<open>whisper_vad_segments_from_probs\<close>.  \<open>Vad_Filter\<close>: the windows of the detector, \<open>whisper_vad\<close>,
    which removes the silence and records a table of times, and the lookup of segment times in that table.
    Where the buffer has to be large enough, the shortest speech is longer than a window and 10 ms, since
    only then every segment starts inside of the recording.
  \<^item> \<open>Fast_Fourier\<close>, \<open>Mel_Spectrogram\<close>: \<open>dft\<close>, \<open>fft\<close>, the worker threads, \<open>log_mel_spectrogram\<close>.  The buffers of a
    transform are functions from indices, its specification is a sum of complex numbers; the workers
    are lists of writes that an argument, the scheduler, merges.
  \<^item> \<open>Whisper_Lang\<close>: the language table, the vocabulary of a model file, language detection.  \<open>Tokenizer\<close>:
    \<open>tokenize\<close> and its callers.
  \<^item> \<open>Logits_Filter\<close>: \<open>whisper_process_logits\<close> and the sampling of tokens.
  \<^item> \<open>Decoder_Loop\<close>: one window: sampling, beam search, exchange of caches, update of the decoders, next batch, scores,
    ranking.  \<open>Decoder_Invariants\<close>: the states of the loop as an inductive relation \<open>decode_reach\<close>; the locale
    \<open>decoder_property\<close> lifts a property that sampling and updating preserve to all of them, and is interpreted
    for the shape of decoders, the order of timestamps and the tokens of the vocabulary.
  \<^item> \<open>Token_Timestamps\<close>, \<open>Wrap_Segment\<close>, \<open>Segment_Output\<close>: from tokens to segments, and the calls of the callback for new
    segments in both of its places.
  \<^item> \<open>Dtw_Alignment\<close>, \<open>Dtw_Timestamps\<close>: token times by dynamic time warping: alignment heads and their masks,
    normalisation, the median filter, \<open>dtw_and_backtrace\<close> (against the cheapest path; its assertion on the
    dimensions fails for a single frame), and the placing of the times.
  \<^item> \<open>Model_File\<close>, \<open>Model_Load\<close>: \<open>whisper_model_load\<close> from a buffer of bytes: header, filters, words, the tensors of
    the architecture with their names and sizes, the weights.  A file written for an architecture is
    loaded, and what is accepted fits.
  \<^item> \<open>Full_Transcribe\<close>: \<open>whisper_full_with_state\<close>, with timestamps by dynamic time warping turned off.  \<open>Full_Correct\<close>: it ends, and a well-formed call has no undefined
    behaviour.  \<open>Whisper_Full\<close>: \<open>whisper_full\<close>, which runs the voice filter first, and
    \<open>whisper_full_parallel\<close>, which splits the audio and joins the segments.

  \<^bold>\<open>ggml: the memory of compute graphs.\<close>  Encoder, decoder and voice detector are graphs of tensors that \<open>ggml.c\<close> builds and
  \<open>ggml-alloc.c\<close> gives memory to.
  \<^item> \<open>Hash_Set\<close>: the bit set and the hash set of tensors (\<open>ggml-impl.h\<close>), refined against sets; the locale \<open>slot_table\<close> shows
    that arrays indexed by slots are maps from tensors, and is interpreted for the table.
  \<^item> \<open>Graph_Build\<close>: \<open>ggml_build_forward_expand\<close> and \<open>ggml_build_forward_select\<close>.  What they record is what the results are computed
    from, in an order that satisfies \<open>graph_ok\<close>, which is what the allocator relies on.
  \<^item> \<open>Tensor_Alloc\<close>: \<open>ggml_dyn_tallocr\<close>, chunks with lists of free blocks.  Its states are an inductive relation over the
    blocks in use; the invariant says that every address is in exactly one free block or block in use.
  \<^item> \<open>Graph_Alloc\<close>, \<open>Graph_Safety\<close>: \<open>ggml_gallocr\<close>, which plans addresses: before a node it places the node, in new memory or in
    that of an operand, and afterwards it releases what is not read any more.  The invariant \<open>inv\<close> relates the counters to
    the operands that are still to be read; no node is computed in memory that is needed.
  \<^item> \<open>Graph_Buffers\<close>: the reservation of buffers, and the assignment of memory to a graph from the tables that a
    reservation left.

  Operands are lists without gaps, and nodes without operation, which the scheduler of the backends adds for its dependencies,
  have no operands.  The table of nodes is a function from tensors.

  \<^bold>\<open>Conventions.\<close>  Floating-point numbers are reals, minus infinity is \<open>None\<close> of a \<open>real option\<close>; a NaN that the code can
  reach (a threshold over an empty window) is \<open>None\<close> too.  \<open>None\<close> as the result of an operation is an exception, a
  failed assertion or an access outside an array.  Integers are \<open>int\<close> where their bounds keep them from
  wrapping, bytes and samples are words.  Files, networks, random draws, callbacks and other libraries are
  arguments, so that the theorems hold for whatever they answer.

  \<^bold>\<open>Fuel and bounds.\<close>  \<open>advance_stack\<close> has a depth, as the source recurses without end on left-recursive
  grammars; \<open>ranked_grammar_returns\<close> gives a sufficient depth.  \<open>main_loop\<close> counts windows;
  \<open>transcription_ends\<close> shows that one window per frame of audio is enough, since every window moves on by
  at least two frames.  \<open>ggml_visit_parents_graph\<close> has a depth; as operands have smaller ranks than what is computed from
  them, a depth above the rank of the result is enough (\<open>results_are_built\<close>).  All other loops have a measure.

  \<^bold>\<open>Not modelled.\<close>  The tensor computations of ggml (the normalisation of a row apart), gradients, the backends and their
  scheduler, the model file of the voice detector, timing statistics and console output; the
  Kotlin application, the examples and the vendored libraries.
\<close>

end
